(* ===== verification/Prelude.thy ===== *)
theory Prelude
  imports Main "HOL-Library.Word" "HOL-Library.Monad_Syntax" "HOL-Library.Signed_Division"
begin

unbundle bit_operations_syntax

text \<open>
  The vocabulary shared by every component.

  Machine: the default build target of the repository is i586, an ILP32 machine with signed
  \<open>char\<close>; \<open>int\<close>, \<open>long\<close>, \<open>size_t\<close> and pointers have 32 bits, \<open>llong\<close> has 64.
  A byte is an \<open>8 word\<close>; a signed C integer is an \<open>int\<close> that the model brings back into its
  range with \<open>int32\<close> or \<open>int64\<close> wherever the code may leave it; an unsigned one is a \<open>nat\<close> or a
  \<open>32 word\<close>.

  Memory: a partial map from addresses to bytes. An address outside its domain is not mapped:
  reading or writing it has no result. Address 0 is the null pointer.

  Results: a C function that works on memory returns an \<open>option\<close>. \<open>None\<close> says that the call has no
  result: it touched an unmapped address, failed an assertion, or never returned. Hence every
  equation \<open>f m p = Some r\<close> below also says that the call is memory safe and terminates.
\<close>

section \<open>Types\<close>

type_synonym byte = "8 word"
type_synonym addr = nat
type_synonym mem = "addr \<rightharpoonup> byte"

text \<open>\<open>assert\<close> and \<open>vassert\<close> of \<open>include/assert.h\<close>: a failed one ends the program.\<close>

definition vassert :: "bool \<Rightarrow> unit option" where
  "vassert b = (if b then Some () else None)"

lemma vassert_simps [simp]:
  "vassert True = Some ()" "vassert False = None"
  "vassert b = Some u \<longleftrightarrow> b" "vassert b = None \<longleftrightarrow> \<not> b"
  by (auto simp: vassert_def)

text \<open>A store through a pointer: the address must be mapped.\<close>

definition store :: "mem \<Rightarrow> addr \<Rightarrow> byte \<Rightarrow> mem option" where
  "store m p c = (case m p of None \<Rightarrow> None | Some _ \<Rightarrow> Some (m(p \<mapsto> c)))"

lemma store_Some [simp]: "p \<in> dom m \<Longrightarrow> store m p c = Some (m(p \<mapsto> c))"
  by (auto simp: store_def dom_def)

lemma store_mapped [simp]: "m p = Some b \<Longrightarrow> store m p c = Some (m(p \<mapsto> c))"
  by (simp add: store_def)

lemma store_unmapped [simp]: "m p = None \<Longrightarrow> store m p c = None"
  by (simp add: store_def)

section \<open>C integers\<close>

definition int32 :: "int \<Rightarrow> int" where
  "int32 x = signed_take_bit 31 x"

definition int64 :: "int \<Rightarrow> int" where
  "int64 x = signed_take_bit 63 x"

definition uint32 :: "int \<Rightarrow> int" where
  "uint32 x = take_bit 32 x"

abbreviation INT_MIN :: int where "INT_MIN \<equiv> - (2 ^ 31)"
abbreviation INT_MAX :: int where "INT_MAX \<equiv> 2 ^ 31 - 1"
abbreviation LLONG_MIN :: int where "LLONG_MIN \<equiv> - (2 ^ 63)"
abbreviation LLONG_MAX :: int where "LLONG_MAX \<equiv> 2 ^ 63 - 1"
abbreviation SIZE_MAX :: nat where "SIZE_MAX \<equiv> 2 ^ 32 - 1"

lemma int32_id [simp]: "INT_MIN \<le> x \<Longrightarrow> x \<le> INT_MAX \<Longrightarrow> int32 x = x"
  unfolding int32_def by (rule signed_take_bit_int_eq_self) simp_all

lemma int64_id [simp]: "LLONG_MIN \<le> x \<Longrightarrow> x \<le> LLONG_MAX \<Longrightarrow> int64 x = x"
  unfolding int64_def by (rule signed_take_bit_int_eq_self) simp_all

lemma int32_range: "INT_MIN \<le> int32 x \<and> int32 x \<le> INT_MAX"
  unfolding int32_def
  using signed_take_bit_int_greater_eq_minus_exp [of 31 x] signed_take_bit_int_less_exp [of 31 x]
  by simp

text \<open>\<open>(ssize_t)n\<close> for an unsigned \<open>n\<close>.\<close>

definition ssize :: "nat \<Rightarrow> int" where
  "ssize n = int32 (int n)"

lemma ssize_small [simp]: "n < 2 ^ 31 \<Longrightarrow> ssize n = int n"
  by (simp add: ssize_def int32_id)

text \<open>Addition and subtraction on \<open>uintptr_t\<close> and \<open>size_t\<close>.\<close>

definition uadd :: "nat \<Rightarrow> nat \<Rightarrow> nat" where
  "uadd a b = (a + b) mod 2 ^ 32"

definition usub :: "nat \<Rightarrow> nat \<Rightarrow> nat" where
  "usub a b = (a + 2 ^ 32 - b mod 2 ^ 32) mod 2 ^ 32"

lemma uadd_small: "a + b < 2 ^ 32 \<Longrightarrow> uadd a b = a + b"
  by (simp add: uadd_def)

lemma usub_small: "b \<le> a \<Longrightarrow> a < 2 ^ 32 \<Longrightarrow> usub a b = a - b"
proof -
  assume *: "b \<le> a" "a < 2 ^ 32"
  then have e: "a + 2 ^ 32 - b mod 2 ^ 32 = (a - b) + 2 ^ 32" by simp
  show ?thesis unfolding usub_def e using *(2) by (simp only: mod_add_self2 mod_less less_imp_diff_less)
qed

text \<open>A \<open>char\<close> as the \<open>int\<close> it is promoted to, and the conversion back.\<close>

abbreviation schar :: "byte \<Rightarrow> int" where
  "schar c \<equiv> sint c"

abbreviation to_char :: "int \<Rightarrow> byte" where
  "to_char i \<equiv> word_of_int i"

text \<open>A string literal as bytes.\<close>

definition lit :: "string \<Rightarrow> byte list" where
  "lit s = map of_char s"

lemma lit_simps [simp]: "lit [] = []" "lit (c # s) = of_char c # lit s"
  by (simp_all add: lit_def)

lemma length_lit [simp]: "length (lit s) = length s"
  by (simp add: lit_def)

section \<open>Bytes in memory\<close>

text \<open>The bytes \<open>bs\<close> lie at \<open>p\<close>; \<open>n\<close> bytes are mapped at \<open>p\<close>; \<open>p\<close> points to the string \<open>s\<close>.\<close>

primrec bytes_at :: "mem \<Rightarrow> addr \<Rightarrow> byte list \<Rightarrow> bool" where
  "bytes_at m p [] = True"
| "bytes_at m p (b # bs) = (m p = Some b \<and> bytes_at m (Suc p) bs)"

primrec mapped :: "mem \<Rightarrow> addr \<Rightarrow> nat \<Rightarrow> bool" where
  "mapped m p 0 = True"
| "mapped m p (Suc n) = (m p \<noteq> None \<and> mapped m (Suc p) n)"

primrec cstr :: "mem \<Rightarrow> addr \<Rightarrow> byte list \<Rightarrow> bool" where
  "cstr m p [] = (m p = Some 0)"
| "cstr m p (c # s) = (m p = Some c \<and> c \<noteq> 0 \<and> cstr m (Suc p) s)"

text \<open>The memory \<open>m\<close> with \<open>bs\<close> written at \<open>p\<close>.\<close>

primrec upd :: "mem \<Rightarrow> addr \<Rightarrow> byte list \<Rightarrow> mem" where
  "upd m p [] = m"
| "upd m p (b # bs) = upd (m(p \<mapsto> b)) (Suc p) bs"

lemma bytes_at_append: "bytes_at m p (xs @ ys) \<longleftrightarrow> bytes_at m p xs \<and> bytes_at m (p + length xs) ys"
  by (induction xs arbitrary: p) simp_all

lemma bytes_at_nth: "bytes_at m p bs \<Longrightarrow> i < length bs \<Longrightarrow> m (p + i) = Some (bs ! i)"
proof (induction bs arbitrary: p i)
  case (Cons b bs)
  then show ?case by (cases i) (auto dest: Cons.IH [of "Suc p"])
qed simp

lemma bytes_at_iff: "bytes_at m p bs \<longleftrightarrow> (\<forall>i < length bs. m (p + i) = Some (bs ! i))"
proof (induction bs arbitrary: p)
  case (Cons b bs)
  have "(\<forall>i < length (b # bs). m (p + i) = Some ((b # bs) ! i)) \<longleftrightarrow>
      m p = Some b \<and> (\<forall>i < length bs. m (Suc p + i) = Some (bs ! i))"
    by (simp add: All_less_Suc2)
  then show ?case by (simp only: bytes_at.simps Cons.IH)
qed simp

lemma bytes_at_cong:
  assumes "\<And>i. i < length bs \<Longrightarrow> m (p + i) = m' (p + i)"
  shows "bytes_at m p bs = bytes_at m' p bs"
  using assms by (simp add: bytes_at_iff)

lemma cstr_bytes_at: "cstr m p s \<longleftrightarrow> bytes_at m p (s @ [0]) \<and> 0 \<notin> set s"
  by (induction s arbitrary: p) auto

lemma cstr_append:
  "cstr m p (s @ t) \<longleftrightarrow> bytes_at m p s \<and> 0 \<notin> set s \<and> cstr m (p + length s) t"
  by (induction s arbitrary: p) auto

lemma cstr_nth: "cstr m p s \<Longrightarrow> i < length s \<Longrightarrow> m (p + i) = Some (s ! i)"
  by (auto simp: cstr_bytes_at bytes_at_append dest: bytes_at_nth)

lemma cstr_end: "cstr m p s \<Longrightarrow> m (p + length s) = Some 0"
  by (simp add: cstr_bytes_at bytes_at_append)

lemma cstr_nonzero: "cstr m p s \<Longrightarrow> 0 \<notin> set s"
  by (simp add: cstr_bytes_at)

lemma cstr_drop: "cstr m p s \<Longrightarrow> k \<le> length s \<Longrightarrow> cstr m (p + k) (drop k s)"
  using cstr_append [of m p "take k s" "drop k s"] by (simp add: min_absorb2)

lemma cstr_unique: "cstr m p s \<Longrightarrow> cstr m p t \<Longrightarrow> s = t"
proof (induction s arbitrary: p t)
  case Nil
  then show ?case by (cases t) auto
next
  case (Cons c s)
  then show ?case by (cases t) auto
qed

lemma mapped_numeral: "mapped m p (numeral k) = (m p \<noteq> None \<and> mapped m (Suc p) (pred_numeral k))"
  by (simp add: numeral_eq_Suc)

lemma mapped_iff: "mapped m p n \<longleftrightarrow> (\<forall>i < n. m (p + i) \<noteq> None)"
proof (induction n arbitrary: p)
  case (Suc n)
  show ?case by (simp add: Suc.IH All_less_Suc2)
qed simp

lemma bytes_at_mapped: "bytes_at m p bs \<Longrightarrow> mapped m p (length bs)"
  by (simp add: bytes_at_iff mapped_iff)

lemma upd_apply: "upd m p bs a = (if p \<le> a \<and> a < p + length bs then Some (bs ! (a - p)) else m a)"
proof (induction bs arbitrary: m p)
  case (Cons b bs)
  have IH: "upd (m(p \<mapsto> b)) (Suc p) bs a =
      (if Suc p \<le> a \<and> a < Suc p + length bs then Some (bs ! (a - Suc p)) else (m(p \<mapsto> b)) a)"
    by (rule Cons.IH)
  consider "a = p" | "a < p" | "p < a" by linarith
  then show ?case
  proof cases
    case 3
    then have "a - p = Suc (a - Suc p)" by simp
    with 3 IH show ?thesis by (simp del: One_nat_def)
  qed (use IH in simp_all)
qed auto

lemma bytes_at_upd [simp]: "bytes_at (upd m p bs) p bs"
  by (simp add: bytes_at_iff upd_apply)

lemma bytes_at_upd_other:
  "q + length xs \<le> p \<or> p + length bs \<le> q \<Longrightarrow> bytes_at (upd m p bs) q xs = bytes_at m q xs"
  by (rule bytes_at_cong) (auto simp: upd_apply)

lemma upd_append: "upd m p (xs @ ys) = upd (upd m p xs) (p + length xs) ys"
  by (induction xs arbitrary: m p) simp_all

lemma upd_snoc: "upd m p (xs @ [b]) = (upd m p xs)(p + length xs \<mapsto> b)"
  by (simp add: upd_append)

lemma mapped_upd: "mapped m q n \<Longrightarrow> mapped (upd m p bs) q n"
  by (auto simp: mapped_iff upd_apply)

lemma mapped_fun_upd [simp]: "mapped m q n \<Longrightarrow> mapped (m(p \<mapsto> b)) q n"
  by (auto simp: mapped_iff)

lemma mapped_add: "mapped m p (a + b) \<longleftrightarrow> mapped m p a \<and> mapped m (p + a) b"
  by (induction a arbitrary: p) auto

lemma mapped_le: "mapped m p n \<Longrightarrow> k \<le> n \<Longrightarrow> mapped m p k"
  by (auto simp: mapped_iff)

lemma bytes_at_fun_upd_other:
  "q < p \<or> p + length bs \<le> q \<Longrightarrow> bytes_at (m(q \<mapsto> b)) p bs = bytes_at m p bs"
  by (rule bytes_at_cong) auto

lemma cstr_fun_upd_other:
  "q < p \<or> p + length s < q \<Longrightarrow> cstr (m(q \<mapsto> b)) p s = cstr m p s"
  unfolding cstr_bytes_at by (subst bytes_at_fun_upd_other) auto

lemma cstr_upd_other:
  "q + length bs \<le> p \<or> p + length s < q \<Longrightarrow> cstr (upd m q bs) p s = cstr m p s"
  unfolding cstr_bytes_at by (subst bytes_at_upd_other) auto

text \<open>A memory that holds exactly the given bytes, for concrete runs.\<close>

definition mem_of :: "addr \<Rightarrow> byte list \<Rightarrow> mem" where
  "mem_of p bs = upd Map.empty p bs"

lemma bytes_at_mem_of [simp]: "bytes_at (mem_of p bs) p bs"
  by (simp add: mem_of_def)

section \<open>The option monad\<close>

lemma bind_eq_SomeI: "x = Some a \<Longrightarrow> f a = Some b \<Longrightarrow> x \<bind> f = Some b"
  by simp

end
