(* ===== verification/Ctype.thy ===== *)
theory Ctype
  imports Prelude
begin

text \<open>
  Character classes: \<open>lib/basic/ctype\<close>. The table \<open>ctypetbl\<close> with its 256 entries is
  written out as in \<open>ctype.c\<close>; each classifier is an \<open>int\<close> lookup in it that has no result
  outside the table (a negative \<open>char\<close> indexes in front of it); \<open>tolower\<close> and \<open>toupper\<close> follow.
  The lemmas compare every classifier with the ASCII ranges it stands for.
\<close>

section \<open>The table\<close>

abbreviation CT_NUMERIC :: byte where "CT_NUMERIC \<equiv> 1"
abbreviation CT_LOWER :: byte where "CT_LOWER \<equiv> 2"
abbreviation CT_UPPER :: byte where "CT_UPPER \<equiv> 4"
abbreviation CT_SPACE :: byte where "CT_SPACE \<equiv> 8"
abbreviation CT_HEX :: byte where "CT_HEX \<equiv> 16"
abbreviation CT_PUNCT :: byte where "CT_PUNCT \<equiv> 32"
abbreviation CT_CTRL :: byte where "CT_CTRL \<equiv> 64"
abbreviation CT_BLANK :: byte where "CT_BLANK \<equiv> 128"

definition ctypetbl :: "byte list" where
  "ctypetbl = [
    CT_CTRL, CT_CTRL, CT_CTRL, CT_CTRL,
    CT_CTRL, CT_CTRL, CT_CTRL, CT_CTRL,
    CT_CTRL, CT_CTRL OR CT_BLANK, CT_CTRL OR CT_SPACE, CT_CTRL OR CT_SPACE,
    CT_CTRL OR CT_SPACE, CT_CTRL OR CT_SPACE, CT_CTRL, CT_CTRL,
    CT_CTRL, CT_CTRL, CT_CTRL, CT_CTRL,
    CT_CTRL, CT_CTRL, CT_CTRL, CT_CTRL,
    CT_CTRL, CT_CTRL, CT_CTRL, CT_CTRL,
    CT_CTRL, CT_CTRL, CT_CTRL, CT_CTRL,
    CT_BLANK, CT_PUNCT, CT_PUNCT, CT_PUNCT,
    CT_PUNCT, CT_PUNCT, CT_PUNCT, CT_PUNCT,
    CT_PUNCT, CT_PUNCT, CT_PUNCT, CT_PUNCT,
    CT_PUNCT, CT_PUNCT, CT_PUNCT, CT_PUNCT,
    CT_NUMERIC, CT_NUMERIC, CT_NUMERIC, CT_NUMERIC,
    CT_NUMERIC, CT_NUMERIC, CT_NUMERIC, CT_NUMERIC,
    CT_NUMERIC, CT_NUMERIC, CT_PUNCT, CT_PUNCT,
    CT_PUNCT, CT_PUNCT, CT_PUNCT, CT_PUNCT,
    CT_PUNCT, CT_UPPER OR CT_HEX, CT_UPPER OR CT_HEX, CT_UPPER OR CT_HEX,
    CT_UPPER OR CT_HEX, CT_UPPER OR CT_HEX, CT_UPPER OR CT_HEX, CT_UPPER,
    CT_UPPER, CT_UPPER, CT_UPPER, CT_UPPER,
    CT_UPPER, CT_UPPER, CT_UPPER, CT_UPPER,
    CT_UPPER, CT_UPPER, CT_UPPER, CT_UPPER,
    CT_UPPER, CT_UPPER, CT_UPPER, CT_UPPER,
    CT_UPPER, CT_UPPER, CT_UPPER, CT_PUNCT,
    CT_PUNCT, CT_PUNCT, CT_PUNCT, CT_PUNCT,
    CT_PUNCT, CT_LOWER OR CT_HEX, CT_LOWER OR CT_HEX, CT_LOWER OR CT_HEX,
    CT_LOWER OR CT_HEX, CT_LOWER OR CT_HEX, CT_LOWER OR CT_HEX, CT_LOWER,
    CT_LOWER, CT_LOWER, CT_LOWER, CT_LOWER,
    CT_LOWER, CT_LOWER, CT_LOWER, CT_LOWER,
    CT_LOWER, CT_LOWER, CT_LOWER, CT_LOWER,
    CT_LOWER, CT_LOWER, CT_LOWER, CT_LOWER,
    CT_LOWER, CT_LOWER, CT_LOWER, CT_PUNCT,
    CT_PUNCT, CT_PUNCT, CT_PUNCT, CT_CTRL,
    0, 0, 0, 0,
    0, 0, 0, 0,
    0, 0, 0, 0,
    0, 0, 0, 0,
    0, 0, 0, 0,
    0, 0, 0, 0,
    0, 0, 0, 0,
    0, 0, 0, 0,
    0, 0, 0, 0,
    0, 0, 0, 0,
    0, 0, 0, 0,
    0, 0, 0, 0,
    0, 0, 0, 0,
    0, 0, 0, 0,
    0, 0, 0, 0,
    0, 0, 0, 0,
    0, 0, 0, 0,
    0, 0, 0, 0,
    0, 0, 0, 0,
    0, 0, 0, 0,
    0, 0, 0, 0,
    0, 0, 0, 0,
    0, 0, 0, 0,
    0, 0, 0, 0,
    0, 0, 0, 0,
    0, 0, 0, 0,
    0, 0, 0, 0,
    0, 0, 0, 0,
    0, 0, 0, 0,
    0, 0, 0, 0,
    0, 0, 0, 0,
    0, 0, 0, CT_CTRL]"

text \<open>\<open>ctypetbl[c]\<close>: no result outside the table.\<close>

definition ctype_at :: "int \<Rightarrow> byte option" where
  "ctype_at c = (if 0 \<le> c \<and> c < 256 then Some (ctypetbl ! nat c) else None)"

section \<open>Classifiers and case conversion\<close>

definition isalnum :: "int \<Rightarrow> int option" where
  "isalnum c = map_option (\<lambda>t. uint (t AND (CT_NUMERIC OR CT_LOWER OR CT_UPPER))) (ctype_at c)"

definition isalpha :: "int \<Rightarrow> int option" where
  "isalpha c = map_option (\<lambda>t. uint (t AND (CT_LOWER OR CT_UPPER))) (ctype_at c)"

definition isblank :: "int \<Rightarrow> int option" where
  "isblank c = map_option (\<lambda>t. uint (t AND (CT_BLANK))) (ctype_at c)"

definition iscntrl :: "int \<Rightarrow> int option" where
  "iscntrl c = map_option (\<lambda>t. uint (t AND (CT_CTRL))) (ctype_at c)"

definition isdigit :: "int \<Rightarrow> int option" where
  "isdigit c = map_option (\<lambda>t. uint (t AND (CT_NUMERIC))) (ctype_at c)"

definition isgraph :: "int \<Rightarrow> int option" where
  "isgraph c = map_option (\<lambda>t. of_bool (t AND (CT_CTRL OR CT_SPACE OR CT_BLANK) = 0)) (ctype_at c)"

definition islower :: "int \<Rightarrow> int option" where
  "islower c = map_option (\<lambda>t. uint (t AND (CT_LOWER))) (ctype_at c)"

definition isprint :: "int \<Rightarrow> int option" where
  "isprint c = map_option (\<lambda>t. of_bool (t AND CT_CTRL = 0)) (ctype_at c)"

definition ispunct :: "int \<Rightarrow> int option" where
  "ispunct c = map_option (\<lambda>t. uint (t AND (CT_PUNCT))) (ctype_at c)"

definition isspace :: "int \<Rightarrow> int option" where
  "isspace c = map_option (\<lambda>t. uint (t AND (CT_BLANK OR CT_SPACE))) (ctype_at c)"

definition isupper :: "int \<Rightarrow> int option" where
  "isupper c = map_option (\<lambda>t. uint (t AND (CT_UPPER))) (ctype_at c)"

definition isxdigit :: "int \<Rightarrow> int option" where
  "isxdigit c = map_option (\<lambda>t. uint (t AND (CT_NUMERIC OR CT_HEX))) (ctype_at c)"

definition tolower :: "int \<Rightarrow> int" where
  "tolower ch = (if ch \<ge> 65 \<and> ch \<le> 90 then ch - (65 - 97) else ch)"

definition toupper :: "int \<Rightarrow> int" where
  "toupper ch = (if ch \<ge> 97 \<and> ch \<le> 122 then ch + (65 - 97) else ch)"

section \<open>What the classifiers recognise\<close>

text \<open>C reads the result of a classifier as a truth value.\<close>

definition truth :: "int option \<Rightarrow> bool option" where
  "truth r = map_option (\<lambda>i. i \<noteq> 0) r"

lemma truth_simps [simp]:
  "truth None = None" "truth (Some i) = Some (i \<noteq> 0)"
  by (simp_all add: truth_def)

lemma table_index_all:
  assumes "list_all P (map int [0..<256])" and "0 \<le> c" and "c < 256"
  shows "P c"
proof -
  from assms(2,3) have "c \<in> set (map int [0..<256])"
    by (auto intro!: image_eqI [of _ _ "nat c"])
  with assms(1) show ?thesis by (simp only: list_all_iff)
qed

lemma isalnum_class:
  "0 \<le> c \<Longrightarrow> c < 256 \<Longrightarrow> truth (isalnum c) = Some (48 \<le> c \<and> c \<le> 57 \<or> 65 \<le> c \<and> c \<le> 90 \<or> 97 \<le> c \<and> c \<le> 122)"
  by (rule table_index_all [where P = "\<lambda>c. truth (isalnum c) = Some (48 \<le> c \<and> c \<le> 57 \<or> 65 \<le> c \<and> c \<le> 90 \<or> 97 \<le> c \<and> c \<le> 122)"]) code_simp

lemma isalpha_class:
  "0 \<le> c \<Longrightarrow> c < 256 \<Longrightarrow> truth (isalpha c) = Some (65 \<le> c \<and> c \<le> 90 \<or> 97 \<le> c \<and> c \<le> 122)"
  by (rule table_index_all [where P = "\<lambda>c. truth (isalpha c) = Some (65 \<le> c \<and> c \<le> 90 \<or> 97 \<le> c \<and> c \<le> 122)"]) code_simp

lemma isblank_class:
  "0 \<le> c \<Longrightarrow> c < 256 \<Longrightarrow> truth (isblank c) = Some (c = 9 \<or> c = 32)"
  by (rule table_index_all [where P = "\<lambda>c. truth (isblank c) = Some (c = 9 \<or> c = 32)"]) code_simp

lemma iscntrl_class:
  "0 \<le> c \<Longrightarrow> c < 256 \<Longrightarrow> truth (iscntrl c) = Some (c < 32 \<or> c = 127 \<or> c = 255)"
  by (rule table_index_all [where P = "\<lambda>c. truth (iscntrl c) = Some (c < 32 \<or> c = 127 \<or> c = 255)"]) code_simp

lemma isdigit_class:
  "0 \<le> c \<Longrightarrow> c < 256 \<Longrightarrow> truth (isdigit c) = Some (48 \<le> c \<and> c \<le> 57)"
  by (rule table_index_all [where P = "\<lambda>c. truth (isdigit c) = Some (48 \<le> c \<and> c \<le> 57)"]) code_simp

lemma isgraph_class:
  "0 \<le> c \<Longrightarrow> c < 256 \<Longrightarrow> truth (isgraph c) = Some (33 \<le> c \<and> c \<noteq> 127 \<and> c \<noteq> 255)"
  by (rule table_index_all [where P = "\<lambda>c. truth (isgraph c) = Some (33 \<le> c \<and> c \<noteq> 127 \<and> c \<noteq> 255)"]) code_simp

lemma islower_class:
  "0 \<le> c \<Longrightarrow> c < 256 \<Longrightarrow> truth (islower c) = Some (97 \<le> c \<and> c \<le> 122)"
  by (rule table_index_all [where P = "\<lambda>c. truth (islower c) = Some (97 \<le> c \<and> c \<le> 122)"]) code_simp

lemma isprint_class:
  "0 \<le> c \<Longrightarrow> c < 256 \<Longrightarrow> truth (isprint c) = Some (32 \<le> c \<and> c \<noteq> 127 \<and> c \<noteq> 255)"
  by (rule table_index_all [where P = "\<lambda>c. truth (isprint c) = Some (32 \<le> c \<and> c \<noteq> 127 \<and> c \<noteq> 255)"]) code_simp

lemma ispunct_class:
  "0 \<le> c \<Longrightarrow> c < 256 \<Longrightarrow> truth (ispunct c) = Some (33 \<le> c \<and> c \<le> 47 \<or> 58 \<le> c \<and> c \<le> 64 \<or> 91 \<le> c \<and> c \<le> 96 \<or> 123 \<le> c \<and> c \<le> 126)"
  by (rule table_index_all [where P = "\<lambda>c. truth (ispunct c) = Some (33 \<le> c \<and> c \<le> 47 \<or> 58 \<le> c \<and> c \<le> 64 \<or> 91 \<le> c \<and> c \<le> 96 \<or> 123 \<le> c \<and> c \<le> 126)"]) code_simp

lemma isspace_class:
  "0 \<le> c \<Longrightarrow> c < 256 \<Longrightarrow> truth (isspace c) = Some (c = 32 \<or> 9 \<le> c \<and> c \<le> 13)"
  by (rule table_index_all [where P = "\<lambda>c. truth (isspace c) = Some (c = 32 \<or> 9 \<le> c \<and> c \<le> 13)"]) code_simp

lemma isupper_class:
  "0 \<le> c \<Longrightarrow> c < 256 \<Longrightarrow> truth (isupper c) = Some (65 \<le> c \<and> c \<le> 90)"
  by (rule table_index_all [where P = "\<lambda>c. truth (isupper c) = Some (65 \<le> c \<and> c \<le> 90)"]) code_simp

lemma isxdigit_class:
  "0 \<le> c \<Longrightarrow> c < 256 \<Longrightarrow> truth (isxdigit c) = Some (48 \<le> c \<and> c \<le> 57 \<or> 65 \<le> c \<and> c \<le> 70 \<or> 97 \<le> c \<and> c \<le> 102)"
  by (rule table_index_all [where P = "\<lambda>c. truth (isxdigit c) = Some (48 \<le> c \<and> c \<le> 57 \<or> 65 \<le> c \<and> c \<le> 70 \<or> 97 \<le> c \<and> c \<le> 102)"]) code_simp

text \<open>The truth value of the classifiers the string functions use, for a \<open>char\<close> of the ASCII range.\<close>

definition is_space :: "byte \<Rightarrow> bool" where
  "is_space c \<longleftrightarrow> c = 32 \<or> 9 \<le> c \<and> c \<le> 13"

definition is_digit :: "byte \<Rightarrow> bool" where
  "is_digit c \<longleftrightarrow> 48 \<le> c \<and> c \<le> 57"

definition is_alnum :: "byte \<Rightarrow> bool" where
  "is_alnum c \<longleftrightarrow> 48 \<le> c \<and> c \<le> 57 \<or> 65 \<le> c \<and> c \<le> 90 \<or> 97 \<le> c \<and> c \<le> 122"

definition ascii :: "byte \<Rightarrow> bool" where
  "ascii c \<longleftrightarrow> c < 128"

lemma schar_ascii: "ascii c \<Longrightarrow> schar c = uint c"
  unfolding sint_uint
  by (rule signed_take_bit_int_eq_self) (auto simp: ascii_def word_less_def intro: order_trans [of _ 0])

lemma uint_le_numeral [simp]:
  "(numeral n :: byte) \<le> c \<longleftrightarrow> uint (numeral n :: byte) \<le> uint c"
  "c \<le> (numeral n :: byte) \<longleftrightarrow> uint c \<le> uint (numeral n :: byte)"
  by (simp_all add: word_le_def)

lemma uint_eq_numeral: "c = (numeral n :: byte) \<longleftrightarrow> uint c = uint (numeral n :: byte)"
  by (simp add: word_uint_eq_iff)

lemma isspace_char [simp]: "ascii c \<Longrightarrow> truth (isspace (schar c)) = Some (is_space c)"
  using isspace_class [of "schar c"] by (simp add: schar_ascii is_space_def uint_eq_numeral ascii_def word_less_def)

lemma isdigit_char [simp]: "ascii c \<Longrightarrow> truth (isdigit (schar c)) = Some (is_digit c)"
  using isdigit_class [of "schar c"] by (simp add: schar_ascii is_digit_def ascii_def word_less_def)

lemma isalnum_char [simp]: "ascii c \<Longrightarrow> truth (isalnum (schar c)) = Some (is_alnum c)"
  using isalnum_class [of "schar c"] by (simp add: schar_ascii is_alnum_def ascii_def word_less_def)

text \<open>A \<open>char\<close> with the top bit set is negative and misses the table.\<close>

lemma schar_neg: "\<not> ascii c \<Longrightarrow> schar c < 0"
proof -
  assume "\<not> ascii c"
  then have "128 \<le> uint c" by (simp add: ascii_def word_less_def)
  moreover have "uint c < 256" using unsigned_less [of c] by simp
  ultimately have "uint c div 128 = 1" by simp
  then have "bit (uint c) 7" by (simp add: bit_iff_odd)
  then show ?thesis by (simp add: sint_uint signed_take_bit_negative_iff)
qed

lemma ctype_at_negative [simp]: "\<not> ascii c \<Longrightarrow> ctype_at (schar c) = None"
  by (simp add: ctype_at_def schar_neg linorder_not_le)

section \<open>Properties\<close>

text \<open>the table-driven classifiers of \<open>lib/basic/ctype\<close> recognise exactly the ASCII classes on
  every index of the table, and the derived classes are the unions the C standard asks for.\<close>

theorem ctype_classes:
  assumes "0 \<le> c" "c < 256"
  shows "truth (isupper c) = Some (65 \<le> c \<and> c \<le> 90) \<and> truth (islower c) = Some (97 \<le> c \<and> c \<le> 122) \<and>
    truth (isdigit c) = Some (48 \<le> c \<and> c \<le> 57) \<and> truth (isspace c) = Some (c = 32 \<or> 9 \<le> c \<and> c \<le> 13) \<and>
    truth (isblank c) = Some (c = 9 \<or> c = 32) \<and>
    truth (iscntrl c) = Some (c < 32 \<or> c = 127 \<or> c = 255) \<and>
    truth (isxdigit c) = Some (48 \<le> c \<and> c \<le> 57 \<or> 65 \<le> c \<and> c \<le> 70 \<or> 97 \<le> c \<and> c \<le> 102) \<and>
    (truth (isalpha c) = Some True \<longleftrightarrow> truth (isupper c) = Some True \<or> truth (islower c) = Some True) \<and>
    (truth (isalnum c) = Some True \<longleftrightarrow> truth (isalpha c) = Some True \<or> truth (isdigit c) = Some True) \<and>
    (c < 128 \<longrightarrow> (truth (isgraph c) = Some True \<longleftrightarrow>
      truth (isalnum c) = Some True \<or> truth (ispunct c) = Some True)) \<and>
    (truth (isprint c) = Some True \<longleftrightarrow> truth (isgraph c) = Some True \<or> c = 32)"
  using assms
  by (auto simp: isupper_class islower_class isdigit_class isspace_class isblank_class iscntrl_class
      isxdigit_class isalpha_class isalnum_class isgraph_class ispunct_class isprint_class)

theorem ctype_classes_witness:
  "truth (isupper 65) = Some True \<and> truth (isxdigit 71) = Some False \<and> truth (isspace 11) = Some True"
  using ctype_classes [of 65] ctype_classes [of 71] ctype_classes [of 11] by simp

text \<open>Negative arguments, among them \<open>EOF\<close> and every \<open>char\<close> with the top bit set, index in front
  of the table.\<close>

lemma isspace_high_char: "\<not> ascii c \<Longrightarrow> isspace (schar c) = None"
  by (simp add: isspace_def)

end
