(* ===== verification/Strings.thy ===== *)
theory Strings
  imports Ctype "HOL-Library.Sublist"
begin

text \<open>
  The string functions of \<open>lib/basic/string\<close> that only read memory. Each loop of the source is
  a recursive function over memory and pointers; a returned null pointer is address 0.
  The lemmas relate every function to the byte list the string denotes (\<open>cstr\<close>).
\<close>

section \<open>Length\<close>

partial_function (option) strlen_loop :: "mem \<Rightarrow> addr \<Rightarrow> nat \<Rightarrow> nat option" where
  "strlen_loop m str len = do {
     c \<leftarrow> m str;
     if c \<noteq> 0 then strlen_loop m (str + 1) (len + 1) else Some len }"

definition strlen :: "mem \<Rightarrow> addr \<Rightarrow> nat option" where
  "strlen m str = do { vassert (str \<noteq> 0); strlen_loop m str 0 }"

partial_function (option) strnlen_loop :: "mem \<Rightarrow> addr \<Rightarrow> int \<Rightarrow> int \<Rightarrow> int option" where
  "strnlen_loop m str len mx = do {
     c \<leftarrow> m str;
     if c \<noteq> 0 \<and> len \<le> mx then strnlen_loop m (str + 1) (len + 1) mx else Some len }"

definition strnlen :: "mem \<Rightarrow> addr \<Rightarrow> int \<Rightarrow> int option" where
  "strnlen m str mx = do {
     vassert (mx \<ge> 0);
     len \<leftarrow> strnlen_loop m str 0 mx;
     Some (if len > mx then -1 else len) }"

section \<open>Comparison\<close>

partial_function (option) strcmp_loop :: "mem \<Rightarrow> addr \<Rightarrow> addr \<Rightarrow> byte \<Rightarrow> byte \<Rightarrow> int option" where
  "strcmp_loop m str1 str2 c1 c2 =
     (if c1 \<noteq> 0 \<and> c2 \<noteq> 0 then
        if c1 \<noteq> c2 then Some (if schar c1 > schar c2 then 1 else -1)
        else do {
          d1 \<leftarrow> m (str1 + 1);
          d2 \<leftarrow> m (str2 + 1);
          strcmp_loop m (str1 + 1) (str2 + 1) d1 d2 }
      else Some (if c1 = 0 \<and> c2 = 0 then 0 else if c1 = 0 \<and> c2 \<noteq> 0 then -1 else 1))"

definition strcmp :: "mem \<Rightarrow> addr \<Rightarrow> addr \<Rightarrow> int option" where
  "strcmp m str1 str2 = do {
     c1 \<leftarrow> m str1;
     c2 \<leftarrow> m str2;
     vassert (str1 \<noteq> 0);
     vassert (str2 \<noteq> 0);
     strcmp_loop m str1 str2 c1 c2 }"

definition lower_char :: "byte \<Rightarrow> byte" where
  "lower_char c = to_char (tolower (schar c))"

partial_function (option) strcasecmp_loop :: "mem \<Rightarrow> addr \<Rightarrow> addr \<Rightarrow> byte \<Rightarrow> byte \<Rightarrow> int option" where
  "strcasecmp_loop m str1 str2 c1 c2 =
     (if c1 \<noteq> 0 \<and> c2 \<noteq> 0 then
        if c1 \<noteq> c2 then Some (if schar c1 > schar c2 then 1 else -1)
        else do {
          d1 \<leftarrow> m (str1 + 1);
          d2 \<leftarrow> m (str2 + 1);
          strcasecmp_loop m (str1 + 1) (str2 + 1) (lower_char d1) (lower_char d2) }
      else Some (if c1 = 0 \<and> c2 = 0 then 0 else if c1 = 0 \<and> c2 \<noteq> 0 then -1 else 1))"

definition strcasecmp :: "mem \<Rightarrow> addr \<Rightarrow> addr \<Rightarrow> int option" where
  "strcasecmp m str1 str2 = do {
     c1 \<leftarrow> m str1;
     c2 \<leftarrow> m str2;
     vassert (str1 \<noteq> 0);
     vassert (str2 \<noteq> 0);
     strcasecmp_loop m str1 str2 (lower_char c1) (lower_char c2) }"

text \<open>
  \<open>while(*str1 && *str2 && rem-- > 0)\<close>: the second string is not read when the first has ended,
  and the counter drops even when the test on it fails.
\<close>

definition strncmp_end :: "mem \<Rightarrow> addr \<Rightarrow> addr \<Rightarrow> int \<Rightarrow> int option" where
  "strncmp_end m str1 str2 rem =
     (if rem \<le> 0 then Some 0
      else do {
        c1 \<leftarrow> m str1;
        if c1 = 0 then Some (-1)
        else do { c2 \<leftarrow> m str2; Some (if c2 = 0 then 1 else -1) } })"

partial_function (option) strncmp_loop :: "mem \<Rightarrow> addr \<Rightarrow> addr \<Rightarrow> int \<Rightarrow> int option" where
  "strncmp_loop m str1 str2 rem = do {
     c1 \<leftarrow> m str1;
     if c1 = 0 then strncmp_end m str1 str2 rem
     else do {
       c2 \<leftarrow> m str2;
       if c2 = 0 then strncmp_end m str1 str2 rem
       else if rem > 0 then
         if c1 \<noteq> c2 then Some (if schar c1 < schar c2 then -1 else 1)
         else strncmp_loop m (str1 + 1) (str2 + 1) (rem - 1)
       else strncmp_end m str1 str2 (rem - 1) } }"

definition strncmp :: "mem \<Rightarrow> addr \<Rightarrow> addr \<Rightarrow> nat \<Rightarrow> int option" where
  "strncmp m str1 str2 count = do {
     vassert (str1 \<noteq> 0);
     vassert (str2 \<noteq> 0);
     strncmp_loop m str1 str2 (ssize count) }"

text \<open>
  \<open>while(rem > 0 && (c1 = tolower(*str1)) && (c2 = tolower(*str2)))\<close>: when the loop ends with
  \<open>rem > 0\<close>, either \<open>c1\<close> is 0 and the result is -1, or \<open>c2\<close> is 0 and it is 1.
\<close>

partial_function (option) strncasecmp_loop :: "mem \<Rightarrow> addr \<Rightarrow> addr \<Rightarrow> int \<Rightarrow> int option" where
  "strncasecmp_loop m str1 str2 rem =
     (if rem > 0 then do {
        d1 \<leftarrow> m str1;
        if lower_char d1 = 0 then Some (-1)
        else do {
          d2 \<leftarrow> m str2;
          if lower_char d2 = 0 then Some 1
          else if lower_char d1 \<noteq> lower_char d2 then
            Some (if schar (lower_char d1) < schar (lower_char d2) then -1 else 1)
          else strncasecmp_loop m (str1 + 1) (str2 + 1) (rem - 1) } }
      else Some 0)"

definition strncasecmp :: "mem \<Rightarrow> addr \<Rightarrow> addr \<Rightarrow> nat \<Rightarrow> int option" where
  "strncasecmp m str1 str2 count = do {
     vassert (str1 \<noteq> 0);
     vassert (str2 \<noteq> 0);
     strncasecmp_loop m str1 str2 (ssize count) }"

fun memcmp :: "mem \<Rightarrow> addr \<Rightarrow> addr \<Rightarrow> nat \<Rightarrow> int option" where
  "memcmp m s1 s2 0 = Some 0"
| "memcmp m s1 s2 (Suc count) = do {
     c1 \<leftarrow> m s1;
     c2 \<leftarrow> m s2;
     if c1 \<noteq> c2 then Some (if c1 < c2 then -1 else 1)
     else memcmp m (s1 + 1) (s2 + 1) count }"

section \<open>Searching for characters\<close>

partial_function (option) strchr_loop :: "mem \<Rightarrow> addr \<Rightarrow> int \<Rightarrow> addr option" where
  "strchr_loop m str ch = do {
     c \<leftarrow> m str;
     if c \<noteq> 0 then if schar c = ch then Some str else strchr_loop m (str + 1) ch
     else Some 0 }"

definition strchr :: "mem \<Rightarrow> addr \<Rightarrow> int \<Rightarrow> addr option" where
  "strchr m str ch = do { vassert (str \<noteq> 0); strchr_loop m str ch }"

partial_function (option) strchri_loop :: "mem \<Rightarrow> addr \<Rightarrow> addr \<Rightarrow> int \<Rightarrow> nat option" where
  "strchri_loop m save str ch = do {
     c \<leftarrow> m str;
     if c \<noteq> 0 then if schar c = ch then Some (str - save) else strchri_loop m save (str + 1) ch
     else Some (str - save) }"

definition strchri :: "mem \<Rightarrow> addr \<Rightarrow> int \<Rightarrow> nat option" where
  "strchri m str ch = do { vassert (str \<noteq> 0); strchri_loop m str str ch }"

partial_function (option) strrchr_loop :: "mem \<Rightarrow> addr \<Rightarrow> int \<Rightarrow> addr \<Rightarrow> addr option" where
  "strrchr_loop m str ch pos = do {
     c \<leftarrow> m str;
     if c \<noteq> 0 then strrchr_loop m (str + 1) ch (if schar c = ch then str else pos)
     else Some pos }"

definition strrchr :: "mem \<Rightarrow> addr \<Rightarrow> int \<Rightarrow> addr option" where
  "strrchr m str ch = do { vassert (str \<noteq> 0); strrchr_loop m str ch 0 }"

partial_function (option) memchr :: "mem \<Rightarrow> addr \<Rightarrow> int \<Rightarrow> nat \<Rightarrow> addr option" where
  "memchr m str c count = do {
     d \<leftarrow> m str;
     if d \<noteq> 0 \<and> count > 0 then if schar d = c then Some str else memchr m (str + 1) c (count - 1)
     else Some 0 }"

partial_function (option) strspn_loop :: "mem \<Rightarrow> addr \<Rightarrow> addr \<Rightarrow> nat \<Rightarrow> nat option" where
  "strspn_loop m str1 str2 count = do {
     c \<leftarrow> m str1;
     if c \<noteq> 0 then do {
       q \<leftarrow> strchr m str2 (schar c);
       if q = 0 then Some count else strspn_loop m (str1 + 1) str2 (count + 1) }
     else Some count }"

definition strspn :: "mem \<Rightarrow> addr \<Rightarrow> addr \<Rightarrow> nat option" where
  "strspn m str1 str2 = do { vassert (str1 \<noteq> 0); vassert (str2 \<noteq> 0); strspn_loop m str1 str2 0 }"

partial_function (option) strcspn_loop :: "mem \<Rightarrow> addr \<Rightarrow> addr \<Rightarrow> nat \<Rightarrow> nat option" where
  "strcspn_loop m str1 str2 count = do {
     c \<leftarrow> m str1;
     if c \<noteq> 0 then do {
       q \<leftarrow> strchr m str2 (schar c);
       if q \<noteq> 0 then Some count else strcspn_loop m (str1 + 1) str2 (count + 1) }
     else Some count }"

definition strcspn :: "mem \<Rightarrow> addr \<Rightarrow> addr \<Rightarrow> nat option" where
  "strcspn m str1 str2 = do { vassert (str1 \<noteq> 0); vassert (str2 \<noteq> 0); strcspn_loop m str1 str2 0 }"

partial_function (option) strpbrk_inner :: "mem \<Rightarrow> addr \<Rightarrow> byte \<Rightarrow> bool option" where
  "strpbrk_inner m s2 c = do {
     d \<leftarrow> m s2;
     if d \<noteq> 0 then if d = c then Some True else strpbrk_inner m (s2 + 1) c
     else Some False }"

partial_function (option) strpbrk_loop :: "mem \<Rightarrow> addr \<Rightarrow> addr \<Rightarrow> addr option" where
  "strpbrk_loop m str1 str2 = do {
     c \<leftarrow> m str1;
     if c \<noteq> 0 then do {
       hit \<leftarrow> strpbrk_inner m str2 c;
       if hit then Some str1 else strpbrk_loop m (str1 + 1) str2 }
     else Some 0 }"

definition strpbrk :: "mem \<Rightarrow> addr \<Rightarrow> addr \<Rightarrow> addr option" where
  "strpbrk m str1 str2 = do { vassert (str1 \<noteq> 0); vassert (str2 \<noteq> 0); strpbrk_loop m str1 str2 }"

partial_function (option) isalnumstr :: "mem \<Rightarrow> addr \<Rightarrow> bool option" where
  "isalnumstr m str = do {
     c \<leftarrow> m str;
     if c \<noteq> 0 then do {
       r \<leftarrow> isalnum (schar c);
       if r = 0 then Some False else isalnumstr m (str + 1) }
     else Some True }"

section \<open>Searching for substrings\<close>

text \<open>The inner loop: walk both strings while they agree; the pointers where it stops.\<close>

partial_function (option) strstr_match :: "mem \<Rightarrow> addr \<Rightarrow> addr \<Rightarrow> (addr \<times> addr) option" where
  "strstr_match m str1 sub = do {
     d \<leftarrow> m sub;
     if d \<noteq> 0 then do {
       c \<leftarrow> m str1;
       if c = d then strstr_match m (str1 + 1) (sub + 1) else Some (str1, sub) }
     else Some (str1, sub) }"

partial_function (option) strstr_loop :: "mem \<Rightarrow> addr \<Rightarrow> addr \<Rightarrow> addr option" where
  "strstr_loop m str1 str2 = do {
     c \<leftarrow> m str1;
     if c \<noteq> 0 then do {
       d \<leftarrow> m str2;
       if c = d then do {
         (str1', sub) \<leftarrow> strstr_match m str1 str2;
         e \<leftarrow> m sub;
         if e = 0 then Some str1 else strstr_loop m str1' str2 }
       else strstr_loop m (str1 + 1) str2 }
     else Some 0 }"

definition strstr :: "mem \<Rightarrow> addr \<Rightarrow> addr \<Rightarrow> addr option" where
  "strstr m str1 str2 = do {
     vassert (str1 \<noteq> 0);
     vassert (str2 \<noteq> 0);
     d \<leftarrow> m str2;
     if d = 0 then Some str1 else strstr_loop m str1 str2 }"

partial_function (option) strcasestr_match :: "mem \<Rightarrow> addr \<Rightarrow> addr \<Rightarrow> (addr \<times> addr) option" where
  "strcasestr_match m str1 sub = do {
     d \<leftarrow> m sub;
     if d \<noteq> 0 then do {
       c \<leftarrow> m str1;
       if tolower (schar c) = tolower (schar d) then strcasestr_match m (str1 + 1) (sub + 1)
       else Some (str1, sub) }
     else Some (str1, sub) }"

partial_function (option) strcasestr_loop :: "mem \<Rightarrow> addr \<Rightarrow> addr \<Rightarrow> addr option" where
  "strcasestr_loop m str1 str2 = do {
     c \<leftarrow> m str1;
     if c \<noteq> 0 then do {
       d \<leftarrow> m str2;
       if tolower (schar c) = tolower (schar d) then do {
         (str1', sub) \<leftarrow> strcasestr_match m str1 str2;
         e \<leftarrow> m sub;
         if e = 0 then Some str1 else strcasestr_loop m str1' str2 }
       else strcasestr_loop m (str1 + 1) str2 }
     else Some 0 }"

definition strcasestr :: "mem \<Rightarrow> addr \<Rightarrow> addr \<Rightarrow> addr option" where
  "strcasestr m str1 str2 = do {
     vassert (str1 \<noteq> 0);
     vassert (str2 \<noteq> 0);
     d \<leftarrow> m str2;
     if d = 0 then Some str1 else strcasestr_loop m str1 str2 }"

section \<open>Length: lemmas\<close>

lemma strlen_loop_cstr: "cstr m p s \<Longrightarrow> strlen_loop m p n = Some (n + length s)"
proof (induction s arbitrary: p n)
  case Nil
  then show ?case by (simp add: strlen_loop.simps)
next
  case (Cons c s)
  then show ?case by (subst strlen_loop.simps) simp
qed

lemma strlen_cstr [simp]: "cstr m p s \<Longrightarrow> p \<noteq> 0 \<Longrightarrow> strlen m p = Some (length s)"
  by (simp add: strlen_def strlen_loop_cstr)

lemma strnlen_loop_cstr:
  "cstr m p s \<Longrightarrow> n \<le> mx + 1 \<Longrightarrow> strnlen_loop m p n mx = Some (min (n + int (length s)) (mx + 1))"
proof (induction s arbitrary: p n)
  case Nil
  then show ?case by (simp add: strnlen_loop.simps)
next
  case (Cons c s)
  show ?case
  proof (cases "n \<le> mx")
    case True
    with Cons show ?thesis by (subst strnlen_loop.simps) simp
  next
    case False
    with Cons.prems show ?thesis by (subst strnlen_loop.simps) auto
  qed
qed

lemma strnlen_cstr:
  "cstr m p s \<Longrightarrow> 0 \<le> mx \<Longrightarrow>
   strnlen m p mx = Some (if int (length s) \<le> mx then int (length s) else -1)"
  by (simp add: strnlen_def strnlen_loop_cstr)

section \<open>Comparison: lemmas\<close>

text \<open>The order of the comparison functions: lexicographic on signed characters.\<close>

fun scmp :: "byte list \<Rightarrow> byte list \<Rightarrow> int" where
  "scmp [] [] = 0"
| "scmp [] (b # t) = -1"
| "scmp (a # s) [] = 1"
| "scmp (a # s) (b # t) = (if a = b then scmp s t else if schar a > schar b then 1 else -1)"

definition char_less :: "(byte \<times> byte) set" where
  "char_less = {(a, b). schar a < schar b}"

lemma schar_inject [simp]: "schar a = schar b \<longleftrightarrow> a = b"
  by (rule word_eq_iff_signed [symmetric])

lemma scmp_zero [simp]: "scmp s t = 0 \<longleftrightarrow> s = t"
  by (induction s t rule: scmp.induct) auto

lemma scmp_neg: "scmp s t < 0 \<longleftrightarrow> (s, t) \<in> lexord char_less"
proof (induction s t rule: scmp.induct)
  case (4 a s b t)
  have "a \<noteq> b \<Longrightarrow> schar a < schar b \<or> schar b < schar a"
    by (simp flip: linorder_neq_iff)
  with 4 show ?case by (auto simp: char_less_def)
qed simp_all

lemma scmp_swap: "scmp t s = - scmp s t"
proof (induction s t rule: scmp.induct)
  case (4 a s b t)
  have "a \<noteq> b \<Longrightarrow> schar a \<noteq> schar b" by simp
  with 4 show ?case by auto
qed simp_all

lemma scmp_range: "scmp s t \<in> {-1, 0, 1}"
  by (induction s t rule: scmp.induct) auto

lemma lower_char_alt: "lower_char c = (if 65 \<le> c \<and> c \<le> 90 then c + 32 else c)"
proof (cases "ascii c")
  case True
  then show ?thesis by (simp add: lower_char_def tolower_def schar_ascii)
next
  case False
  then have "schar c < 0" and "128 \<le> uint c"
    by (simp_all add: schar_neg) (simp add: ascii_def word_less_def)
  then show ?thesis by (simp add: lower_char_def tolower_def)
qed

lemma lower_char_eq_0 [simp]: "lower_char c = 0 \<longleftrightarrow> c = 0"
proof -
  have "c + 32 = 0 \<longleftrightarrow> c = - 32" by (simp add: add_eq_0_iff2)
  then show ?thesis by (auto simp: lower_char_alt)
qed

lemma strcmp_loop_cstr:
  "cstr m p s \<Longrightarrow> cstr m q t \<Longrightarrow> m p = Some c \<Longrightarrow> m q = Some d \<Longrightarrow>
   strcmp_loop m p q c d = Some (scmp s t)"
proof (induction s t arbitrary: p q c d rule: scmp.induct)
  case (4 a s b t)
  then obtain c' d' where n: "m (Suc p) = Some c'" "m (Suc q) = Some d'"
    by (cases s; cases t) auto
  from 4 n show ?case by (subst strcmp_loop.simps) auto
qed (subst strcmp_loop.simps, auto)+

lemma cstr_first: "cstr m p s \<Longrightarrow> \<exists>c. m p = Some c \<and> (c = 0 \<longleftrightarrow> s = [])"
  by (cases s) auto

lemma strcmp_cstr [simp]:
  assumes "cstr m p s" "cstr m q t" "p \<noteq> 0" "q \<noteq> 0"
  shows "strcmp m p q = Some (scmp s t)"
proof -
  from assms(1,2) obtain c d where "m p = Some c" "m q = Some d"
    by (blast dest: cstr_first)
  with assms show ?thesis by (simp add: strcmp_def strcmp_loop_cstr)
qed

lemma strcasecmp_loop_cstr:
  "cstr m p s \<Longrightarrow> cstr m q t \<Longrightarrow> m p = Some c \<Longrightarrow> m q = Some d \<Longrightarrow>
   strcasecmp_loop m p q (lower_char c) (lower_char d) =
     Some (scmp (map lower_char s) (map lower_char t))"
proof (induction s arbitrary: t p q c d)
  case Nil
  then show ?case by (cases t) (subst strcasecmp_loop.simps, auto)+
next
  case (Cons a s)
  show ?case
  proof (cases t)
    case Nil
    with Cons.prems show ?thesis by (subst strcasecmp_loop.simps) auto
  next
    case (Cons b t')
    with Cons.prems obtain c' d' where n: "m (Suc p) = Some c'" "m (Suc q) = Some d'"
      by (cases s; cases t') auto
    with Cons.prems Cons Cons.IH [of "Suc p" "Suc q" t' c' d'] show ?thesis
      by (subst strcasecmp_loop.simps) auto
  qed
qed

lemma strcasecmp_cstr:
  assumes "cstr m p s" "cstr m q t" "p \<noteq> 0" "q \<noteq> 0"
  shows "strcasecmp m p q = Some (scmp (map lower_char s) (map lower_char t))"
proof -
  from assms(1,2) obtain c d where "m p = Some c" "m q = Some d"
    by (blast dest: cstr_first)
  with assms show ?thesis by (simp add: strcasecmp_def strcasecmp_loop_cstr)
qed

text \<open>
  What the bounded comparison computes: the order of the strings cut to \<open>n\<close> characters, except
  that two equal strings that both end before \<open>n\<close> characters compare as -1.
\<close>

fun sncmp :: "byte list \<Rightarrow> byte list \<Rightarrow> nat \<Rightarrow> int" where
  "sncmp s t 0 = 0"
| "sncmp [] t (Suc n) = -1"
| "sncmp (a # s) [] (Suc n) = 1"
| "sncmp (a # s) (b # t) (Suc n) =
     (if a = b then sncmp s t n else if schar a < schar b then -1 else 1)"

lemma sncmp_eq: "sncmp s t n = (if s = t \<and> length s < n then -1 else scmp (take n s) (take n t))"
proof (induction s t n rule: sncmp.induct)
  case (2 t n)
  show ?case by (cases t) auto
next
  case (4 a s b t n)
  have "a \<noteq> b \<Longrightarrow> schar a < schar b \<or> schar b < schar a"
    by (simp flip: linorder_neq_iff)
  with 4 show ?case by auto
qed simp_all

lemma strncmp_loop_cstr:
  "cstr m p s \<Longrightarrow> cstr m q t \<Longrightarrow> strncmp_loop m p q (int n) = Some (sncmp s t n)"
proof (induction s t n arbitrary: p q rule: sncmp.induct)
  case (1 s t)
  then obtain c d where "m p = Some c" "m q = Some d"
    by (blast dest: cstr_first)
  then show ?case by (subst strncmp_loop.simps) (auto simp: strncmp_end_def)
next
  case (2 t n)
  then show ?case by (subst strncmp_loop.simps) (auto simp: strncmp_end_def)
next
  case (3 a s n)
  then show ?case by (subst strncmp_loop.simps) (auto simp: strncmp_end_def)
next
  case (4 a s b t n)
  then show ?case by (subst strncmp_loop.simps) auto
qed

lemma strncmp_cstr:
  assumes "cstr m p s" "cstr m q t" "p \<noteq> 0" "q \<noteq> 0" "n < 2 ^ 31"
  shows "strncmp m p q n = Some (sncmp s t n)"
  using assms by (simp add: strncmp_def strncmp_loop_cstr)

lemma strncasecmp_loop_cstr:
  "cstr m p s \<Longrightarrow> cstr m q t \<Longrightarrow>
   strncasecmp_loop m p q (int n) = Some (sncmp (map lower_char s) (map lower_char t) n)"
proof (induction n arbitrary: s t p q)
  case 0
  show ?case by (subst strncasecmp_loop.simps) simp
next
  case (Suc n)
  then show ?case by (cases s; cases t) (subst strncasecmp_loop.simps, auto)+
qed

lemma strncasecmp_cstr:
  assumes "cstr m p s" "cstr m q t" "p \<noteq> 0" "q \<noteq> 0" "n < 2 ^ 31"
  shows "strncasecmp m p q n = Some (sncmp (map lower_char s) (map lower_char t) n)"
  using assms by (simp add: strncasecmp_def strncasecmp_loop_cstr)

text \<open>\<open>memcmp\<close> compares unsigned bytes.\<close>

fun ucmp :: "byte list \<Rightarrow> byte list \<Rightarrow> int" where
  "ucmp (a # s) (b # t) = (if a = b then ucmp s t else if a < b then -1 else 1)"
| "ucmp s t = 0"

lemma memcmp_bytes_at:
  "bytes_at m p xs \<Longrightarrow> bytes_at m q ys \<Longrightarrow> length xs = n \<Longrightarrow> length ys = n \<Longrightarrow>
   memcmp m p q n = Some (ucmp xs ys)"
proof (induction n arbitrary: p q xs ys)
  case (Suc n)
  then show ?case by (cases xs; cases ys) auto
qed simp

lemma ucmp_zero: "length xs = length ys \<Longrightarrow> ucmp xs ys = 0 \<longleftrightarrow> xs = ys"
  by (induction xs ys rule: ucmp.induct) auto

section \<open>Searching: lemmas\<close>

text \<open>The index of the first element with \<open>P\<close>, or the length.\<close>

definition first_idx :: "('a \<Rightarrow> bool) \<Rightarrow> 'a list \<Rightarrow> nat" where
  "first_idx P xs = length (takeWhile (\<lambda>x. \<not> P x) xs)"

lemma first_idx_simps [simp]:
  "first_idx P [] = 0"
  "first_idx P (x # xs) = (if P x then 0 else Suc (first_idx P xs))"
  by (simp_all add: first_idx_def)

lemma first_idx_le: "first_idx P xs \<le> length xs"
  by (simp add: first_idx_def length_takeWhile_le)

lemma first_idx_less: "first_idx P xs < length xs \<longleftrightarrow> (\<exists>x \<in> set xs. P x)"
  by (induction xs) auto

lemma first_idx_nth: "first_idx P xs < length xs \<Longrightarrow> P (xs ! first_idx P xs)"
  by (induction xs) auto

lemma first_idx_before: "i < first_idx P xs \<Longrightarrow> \<not> P (xs ! i)"
proof (induction xs arbitrary: i)
  case (Cons x xs)
  then show ?case by (cases i) (auto split: if_splits)
qed simp

lemma first_idx_append:
  "first_idx P (xs @ ys) =
     (if \<exists>x \<in> set xs. P x then first_idx P xs else length xs + first_idx P ys)"
  by (induction xs) auto

lemma strchr_loop_cstr:
  "cstr m p s \<Longrightarrow> strchr_loop m p ch =
     Some (let k = first_idx (\<lambda>c. schar c = ch) s in if k < length s then p + k else 0)"
proof (induction s arbitrary: p)
  case Nil
  then show ?case by (subst strchr_loop.simps) simp
next
  case (Cons c s)
  then show ?case by (subst strchr_loop.simps) (auto simp: Let_def)
qed

lemma strchr_cstr:
  "cstr m p s \<Longrightarrow> p \<noteq> 0 \<Longrightarrow> strchr m p ch =
     Some (let k = first_idx (\<lambda>c. schar c = ch) s in if k < length s then p + k else 0)"
  by (simp add: strchr_def strchr_loop_cstr)

lemma strchr_char:
  "cstr m p s \<Longrightarrow> p \<noteq> 0 \<Longrightarrow> \<exists>q. strchr m p (schar c) = Some q \<and> (q = 0 \<longleftrightarrow> c \<notin> set s)"
  by (auto simp: strchr_cstr Let_def first_idx_less)

lemma strchri_loop_cstr:
  "cstr m p s \<Longrightarrow> save \<le> p \<Longrightarrow>
   strchri_loop m save p ch = Some (p - save + first_idx (\<lambda>c. schar c = ch) s)"
proof (induction s arbitrary: p)
  case Nil
  then show ?case by (subst strchri_loop.simps) simp
next
  case (Cons c s)
  then show ?case by (subst strchri_loop.simps) (auto simp: Suc_diff_le)
qed

lemma strchri_cstr:
  "cstr m p s \<Longrightarrow> p \<noteq> 0 \<Longrightarrow> strchri m p ch = Some (first_idx (\<lambda>c. schar c = ch) s)"
  by (simp add: strchri_def strchri_loop_cstr)

lemma strrchr_loop_cstr:
  "cstr m p s \<Longrightarrow> strrchr_loop m p ch pos =
     Some (if \<exists>c \<in> set s. schar c = ch
           then p + length s - 1 - first_idx (\<lambda>c. schar c = ch) (rev s) else pos)"
proof (induction s arbitrary: p pos)
  case Nil
  then show ?case by (subst strrchr_loop.simps) simp
next
  case (Cons c s)
  have "first_idx (\<lambda>c. schar c = ch) (rev s @ [c]) =
      (if \<exists>c \<in> set s. schar c = ch then first_idx (\<lambda>c. schar c = ch) (rev s)
       else if schar c = ch then length s else Suc (length s))"
    by (simp add: first_idx_append)
  with Cons show ?case by (subst strrchr_loop.simps) auto
qed

lemma strrchr_cstr:
  "cstr m p s \<Longrightarrow> p \<noteq> 0 \<Longrightarrow> strrchr m p ch =
     Some (if \<exists>c \<in> set s. schar c = ch
           then p + length s - 1 - first_idx (\<lambda>c. schar c = ch) (rev s) else 0)"
  by (simp add: strrchr_def strrchr_loop_cstr)

lemma memchr_cstr:
  "cstr m p s \<Longrightarrow> memchr m p ch n =
     Some (let k = first_idx (\<lambda>c. schar c = ch) (take n s)
           in if k < length (take n s) then p + k else 0)"
proof (induction s arbitrary: p n)
  case Nil
  then show ?case by (subst memchr.simps) simp
next
  case (Cons c s)
  then show ?case by (cases n; subst memchr.simps) (auto simp: Let_def)
qed

lemma strspn_loop_cstr:
  "cstr m p s \<Longrightarrow> cstr m q t \<Longrightarrow> q \<noteq> 0 \<Longrightarrow>
   strspn_loop m p q n = Some (n + length (takeWhile (\<lambda>c. c \<in> set t) s))"
proof (induction s arbitrary: p n)
  case Nil
  then show ?case by (subst strspn_loop.simps) simp
next
  case (Cons c s)
  with strchr_char [of m q t c] show ?case by (subst strspn_loop.simps) auto
qed

lemma strspn_cstr:
  "cstr m p s \<Longrightarrow> cstr m q t \<Longrightarrow> p \<noteq> 0 \<Longrightarrow> q \<noteq> 0 \<Longrightarrow>
   strspn m p q = Some (length (takeWhile (\<lambda>c. c \<in> set t) s))"
  by (simp add: strspn_def strspn_loop_cstr)

lemma strcspn_loop_cstr:
  "cstr m p s \<Longrightarrow> cstr m q t \<Longrightarrow> q \<noteq> 0 \<Longrightarrow>
   strcspn_loop m p q n = Some (n + length (takeWhile (\<lambda>c. c \<notin> set t) s))"
proof (induction s arbitrary: p n)
  case Nil
  then show ?case by (subst strcspn_loop.simps) simp
next
  case (Cons c s)
  with strchr_char [of m q t c] show ?case by (subst strcspn_loop.simps) auto
qed

lemma strcspn_cstr:
  "cstr m p s \<Longrightarrow> cstr m q t \<Longrightarrow> p \<noteq> 0 \<Longrightarrow> q \<noteq> 0 \<Longrightarrow>
   strcspn m p q = Some (length (takeWhile (\<lambda>c. c \<notin> set t) s))"
  by (simp add: strcspn_def strcspn_loop_cstr)

lemma strpbrk_inner_cstr: "cstr m q t \<Longrightarrow> strpbrk_inner m q c = Some (c \<in> set t)"
proof (induction t arbitrary: q)
  case Nil
  then show ?case by (subst strpbrk_inner.simps) simp
next
  case (Cons d t)
  then show ?case by (subst strpbrk_inner.simps) auto
qed

lemma strpbrk_loop_cstr:
  "cstr m p s \<Longrightarrow> cstr m q t \<Longrightarrow> strpbrk_loop m p q =
     Some (let k = first_idx (\<lambda>c. c \<in> set t) s in if k < length s then p + k else 0)"
proof (induction s arbitrary: p)
  case Nil
  then show ?case by (subst strpbrk_loop.simps) simp
next
  case (Cons c s)
  then show ?case by (subst strpbrk_loop.simps) (auto simp: strpbrk_inner_cstr Let_def)
qed

lemma isalnumstr_cstr:
  "cstr m p s \<Longrightarrow> list_all ascii s \<Longrightarrow> isalnumstr m p = Some (list_all is_alnum s)"
proof (induction s arbitrary: p)
  case Nil
  then show ?case by (subst isalnumstr.simps) simp
next
  case (Cons c s)
  then obtain r where "isalnum (schar c) = Some r" "r = 0 \<longleftrightarrow> \<not> is_alnum c"
    using isalnum_char [of c] by (cases "isalnum (schar c)") auto
  with Cons show ?case by (subst isalnumstr.simps) auto
qed

section \<open>Substrings: lemmas\<close>

text \<open>The length of the longest common prefix: how far the inner loop of \<open>strstr\<close> walks.\<close>

fun lcp :: "'a list \<Rightarrow> 'a list \<Rightarrow> nat" where
  "lcp (a # s) (b # t) = (if a = b then Suc (lcp s t) else 0)"
| "lcp s t = 0"

lemma lcp_le: "lcp s t \<le> length s" "lcp s t \<le> length t"
  by (induction s t rule: lcp.induct) auto

lemma lcp_nth: "i < lcp s t \<Longrightarrow> s ! i = t ! i"
proof (induction s t arbitrary: i rule: lcp.induct)
  case (1 a s b t)
  then show ?case by (cases i) (auto split: if_splits)
qed simp_all

lemma lcp_prefix: "lcp s t = length t \<longleftrightarrow> prefix t s"
  by (induction s t rule: lcp.induct) auto

lemma strstr_match_cstr:
  "cstr m p s \<Longrightarrow> cstr m q t \<Longrightarrow> strstr_match m p q = Some (p + lcp s t, q + lcp s t)"
proof (induction s arbitrary: p q t)
  case Nil
  then show ?case by (cases t; subst strstr_match.simps) auto
next
  case (Cons a s)
  then show ?case by (cases t; subst strstr_match.simps) auto
qed

text \<open>One round of the outer loop, on the strings.\<close>

definition strstr_skip :: "byte list \<Rightarrow> byte list \<Rightarrow> nat" where
  "strstr_skip s t = (if hd s = hd t then lcp s t else 1)"

lemma strstr_loop_step:
  assumes "cstr m p s" "cstr m q t" "s \<noteq> []" "t \<noteq> []"
  shows "strstr_loop m p q =
    (if prefix t s then Some p else strstr_loop m (p + strstr_skip s t) q)"
proof -
  from assms obtain a s' b t' where st: "s = a # s'" "t = b # t'"
    by (meson list.exhaust)
  have e: "m (q + lcp s t) = Some (if lcp s t = length t then 0 else t ! lcp s t)"
    using cstr_end [OF assms(2)] cstr_nth [OF assms(2)] lcp_le [of s t] by (simp add: order.strict_iff_order)
  have "lcp s t \<noteq> length t \<Longrightarrow> t ! lcp s t \<noteq> 0"
    using cstr_nonzero [OF assms(2)] lcp_le [of s t] nth_mem [of "lcp s t" t] by fastforce
  with assms st e strstr_match_cstr [OF assms(1,2)] show ?thesis
    by (subst strstr_loop.simps) (auto simp: strstr_skip_def simp flip: lcp_prefix)
qed

lemma strstr_skip_pos: "s \<noteq> [] \<Longrightarrow> t \<noteq> [] \<Longrightarrow> 0 < strstr_skip s t \<and> strstr_skip s t \<le> length s"
  using lcp_le [of s t] by (cases s; cases t) (auto simp: strstr_skip_def)

lemma strstr_loop_sound:
  assumes "cstr m p s" "cstr m q t" "t \<noteq> []"
  shows "\<exists>r. strstr_loop m p q = Some r \<and> (r \<noteq> 0 \<longrightarrow> (\<exists>k. r = p + k \<and> prefix t (drop k s)))"
  using assms(1)
proof (induction "length s" arbitrary: p s rule: less_induct)
  case less
  show ?case
  proof (cases "s = [] \<or> prefix t s")
    case True
    with less.prems strstr_loop_step [OF less.prems assms(2) _ assms(3)] show ?thesis
      by (cases "s = []") (auto simp: strstr_loop.simps intro: exI [of _ 0])
  next
    case False
    let ?k = "strstr_skip s t"
    from False strstr_skip_pos [of s t] assms(3) have k: "0 < ?k" "?k \<le> length s" by auto
    with False have "length (drop ?k s) < length s" by simp
    from less.hyps [OF this cstr_drop [OF less.prems k(2)]] obtain r where
      r: "strstr_loop m (p + ?k) q = Some r"
        "r \<noteq> 0 \<longrightarrow> (\<exists>j. r = p + ?k + j \<and> prefix t (drop j (drop ?k s)))" by blast
    with strstr_loop_step [OF less.prems assms(2) _ assms(3)] False show ?thesis
      by (metis add.assoc drop_drop add.commute)
  qed
qed

text \<open>
  The outer loop skips what the inner loop matched. That is right when the first character of
  the searched string does not occur in it again.
\<close>

lemma strstr_skip_no_match:
  assumes "t \<noteq> []" "hd t \<notin> set (tl t)" "\<not> prefix t s" "j < strstr_skip s t"
  shows "\<not> prefix t (drop j s)"
proof (cases j)
  case 0
  with assms(3) show ?thesis by simp
next
  case (Suc i)
  with assms(4) have j: "j < lcp s t" by (auto simp: strstr_skip_def split: if_splits)
  with lcp_le [of s t] have "j < length s" "j < length t" by simp_all
  then have "hd (drop j s) = t ! j" using lcp_nth [OF j] by (simp add: hd_drop_conv_nth)
  also have "t ! j \<in> set (tl t)" using Suc \<open>j < length t\<close> by (cases t) auto
  finally have "hd (drop j s) \<noteq> hd t" using assms(2) by metis
  with assms(1) \<open>j < length s\<close> show ?thesis by (cases t) (auto simp: prefix_def)
qed

lemma strstr_loop_complete:
  assumes "cstr m p s" "cstr m q t" "t \<noteq> []" "hd t \<notin> set (tl t)" "prefix t (drop k s)" "p \<noteq> 0"
  shows "\<exists>r. strstr_loop m p q = Some (p + r) \<and> r \<le> k \<and> prefix t (drop r s)"
  using assms(1,5,6)
proof (induction "length s" arbitrary: p s k rule: less_induct)
  case less
  from less.prems(2) assms(3) have "s \<noteq> []" by auto
  note step = strstr_loop_step [OF less.prems(1) assms(2) this assms(3)]
  show ?case
  proof (cases "prefix t s")
    case True
    with step show ?thesis by (intro exI [of _ 0]) simp
  next
    case False
    let ?k = "strstr_skip s t"
    from \<open>s \<noteq> []\<close> strstr_skip_pos [of s t] assms(3) have pos: "0 < ?k" "?k \<le> length s" by auto
    with \<open>s \<noteq> []\<close> have len: "length (drop ?k s) < length s" by simp
    have "?k \<le> k"
      using strstr_skip_no_match [OF assms(3,4) False, of k] less.prems(2) by (meson not_le_imp_less)
    with less.prems(2) have "prefix t (drop (k - ?k) (drop ?k s))" by simp
    from less.hyps [OF len cstr_drop [OF less.prems(1) pos(2)] this] less.prems(3) obtain r where
      "strstr_loop m (p + ?k) q = Some (p + ?k + r)" "r \<le> k - ?k" "prefix t (drop r (drop ?k s))"
      by auto
    with step False \<open>?k \<le> k\<close> show ?thesis
      by (intro exI [of _ "?k + r"]) (simp add: add.assoc add.commute [of r])
  qed
qed

section \<open>Properties\<close>

text \<open>\<open>strcmp\<close> decides the lexicographic order of signed characters: on two terminated strings it
  returns 0 exactly for equal strings, a negative value exactly if the first is smaller, and
  swapping the arguments negates the result.\<close>

theorem strcmp_order:
  assumes "cstr m p s" "cstr m q t" "p \<noteq> 0" "q \<noteq> 0"
  shows "\<exists>r. strcmp m p q = Some r \<and> strcmp m q p = Some (- r) \<and> (r = 0 \<longleftrightarrow> s = t) \<and>
    (r < 0 \<longleftrightarrow> (s, t) \<in> lexord char_less) \<and> r \<in> {-1, 0, 1}"
  using assms scmp_neg [of s t] scmp_range [of s t] scmp_swap [of t s] by simp

theorem strcmp_order_witness:
  "\<exists>r. strcmp (mem_of 8 [97, 98, 0, 97, 99, 0]) 8 11 = Some r \<and> r \<noteq> 0"
  using strcmp_order [of "mem_of 8 [97, 98, 0, 97, 99, 0]" 8 "[97, 98]" 11 "[97, 99]"]
  by (auto simp: mem_of_def)

text \<open>\<open>strncmp\<close> compares the first \<open>n\<close> characters of both strings, except that two equal
  strings shorter than \<open>n\<close> give -1 where the header promises 0.\<close>

theorem strncmp_result:
  assumes "cstr m p s" "cstr m q t" "p \<noteq> 0" "q \<noteq> 0" "n < 2 ^ 31"
  shows "strncmp m p q n =
    Some (if s = t \<and> length s < n then -1 else scmp (take n s) (take n t))"
  using strncmp_cstr [OF assms] by (simp only: sncmp_eq)

theorem strncmp_result_witness:
  "strncmp (mem_of 8 [97, 98, 0, 97, 98, 0]) 8 11 5 = Some (-1) \<and>
   strncmp (mem_of 8 [97, 98, 0, 97, 98, 0]) 8 11 2 = Some 0"
  using strncmp_result [of "mem_of 8 [97, 98, 0, 97, 98, 0]" 8 "[97, 98]" 11 "[97, 98]" 5]
    strncmp_result [of "mem_of 8 [97, 98, 0, 97, 98, 0]" 8 "[97, 98]" 11 "[97, 98]" 2]
  by (simp add: mem_of_def)

lemma strstr_cstr:
  assumes "cstr m p s" "cstr m q t" "p \<noteq> 0" "q \<noteq> 0" "t \<noteq> []"
  shows "strstr m p q = strstr_loop m p q"
  using assms by (cases t) (auto simp: strstr_def)

text \<open>\<open>strstr\<close> always returns; what it returns is an occurrence of the needle; and it finds the
  first occurrence whenever the needle's first character does not come again in the needle.\<close>

theorem strstr_search:
  assumes "cstr m p s" "cstr m q t" "p \<noteq> 0" "q \<noteq> 0" "t \<noteq> []"
  shows "\<exists>r. strstr m p q = Some r \<and> (r \<noteq> 0 \<longrightarrow> (\<exists>k. r = p + k \<and> prefix t (drop k s))) \<and>
    (hd t \<notin> set (tl t) \<longrightarrow> (\<forall>k. prefix t (drop k s) \<longrightarrow> r \<noteq> 0 \<and> r \<le> p + k))"
proof -
  obtain r where r: "strstr_loop m p q = Some r" "r \<noteq> 0 \<longrightarrow> (\<exists>k. r = p + k \<and> prefix t (drop k s))"
    using strstr_loop_sound [OF assms(1,2,5)] by blast
  have "r \<noteq> 0 \<and> r \<le> p + k" if "hd t \<notin> set (tl t)" "prefix t (drop k s)" for k
    using strstr_loop_complete [OF assms(1,2,5) that assms(3)] r(1) assms(3) by auto
  with r show ?thesis by (simp add: strstr_cstr [OF assms])
qed

theorem strstr_search_witness:
  "\<exists>r. strstr (mem_of 8 [120, 97, 98, 0, 97, 98, 0]) 8 12 = Some r \<and> r \<noteq> 0 \<and> r \<le> 9"
  using strstr_search [of "mem_of 8 [120, 97, 98, 0, 97, 98, 0]" 8 "[120, 97, 98]" 12 "[97, 98]"]
  by (auto simp: mem_of_def dest: spec [of _ 1])

text \<open>The search skips what it has compared: it misses \<open>aab\<close> in \<open>aaab\<close>.\<close>

lemma strstr_misses:
  "strstr (mem_of 8 [97, 97, 97, 98, 0, 97, 97, 98, 0]) 8 13 = Some 0"
  by (simp add: strstr_def mem_of_def strstr_loop.simps strstr_match.simps)

end
