(* ===== verification/StrWrite.thy ===== *)
theory StrWrite
  imports Strings
begin

text \<open>
  The string functions of \<open>lib/basic/string\<close> that write memory: copying, appending, cutting,
  swapping, tokenising. Each returns the memory it leaves behind. The lemmas say which bytes it
  holds, as an update \<open>upd\<close> of the memory before: everything outside that update is untouched.
\<close>

section \<open>Copying and appending\<close>

partial_function (option) strcpy_loop :: "mem \<Rightarrow> addr \<Rightarrow> addr \<Rightarrow> mem option" where
  "strcpy_loop m to fr = do {
     c \<leftarrow> m fr;
     if c \<noteq> 0 then do { m' \<leftarrow> store m to c; strcpy_loop m' (to + 1) (fr + 1) }
     else store m to 0 }"

definition strcpy :: "mem \<Rightarrow> addr \<Rightarrow> addr \<Rightarrow> (addr \<times> mem) option" where
  "strcpy m to fr = do {
     vassert (fr \<noteq> 0);
     vassert (to \<noteq> 0);
     m' \<leftarrow> strcpy_loop m to fr;
     Some (to, m') }"

text \<open>\<open>while(*fr && count > 0)\<close>, then the fill with zeros.\<close>

fun strncpy_fill :: "mem \<Rightarrow> addr \<Rightarrow> nat \<Rightarrow> mem option" where
  "strncpy_fill m to 0 = Some m"
| "strncpy_fill m to (Suc count) = do { m' \<leftarrow> store m to 0; strncpy_fill m' (to + 1) count }"

fun strncpy_loop :: "mem \<Rightarrow> addr \<Rightarrow> addr \<Rightarrow> nat \<Rightarrow> mem option" where
  "strncpy_loop m to fr 0 = do { c \<leftarrow> m fr; strncpy_fill m to 0 }"
| "strncpy_loop m to fr (Suc count) = do {
     c \<leftarrow> m fr;
     if c \<noteq> 0 then do { m' \<leftarrow> store m to c; strncpy_loop m' (to + 1) (fr + 1) count }
     else strncpy_fill m to (Suc count) }"

definition strncpy :: "mem \<Rightarrow> addr \<Rightarrow> addr \<Rightarrow> nat \<Rightarrow> (addr \<times> mem) option" where
  "strncpy m to fr count = do {
     vassert (fr \<noteq> 0);
     vassert (to \<noteq> 0);
     m' \<leftarrow> strncpy_loop m to fr count;
     Some (to, m') }"

text \<open>\<open>while(*fr && size > 1)\<close>; the result is \<open>to - res\<close>.\<close>

partial_function (option) strnzcpy_loop :: "mem \<Rightarrow> addr \<Rightarrow> addr \<Rightarrow> nat \<Rightarrow> (addr \<times> mem) option" where
  "strnzcpy_loop m to fr sz = do {
     c \<leftarrow> m fr;
     if c \<noteq> 0 \<and> sz > 1 then do {
       m' \<leftarrow> store m to c;
       strnzcpy_loop m' (to + 1) (fr + 1) (sz - 1) }
     else do { m' \<leftarrow> store m to 0; Some (to, m') } }"

definition strnzcpy :: "mem \<Rightarrow> addr \<Rightarrow> addr \<Rightarrow> nat \<Rightarrow> (nat \<times> mem) option" where
  "strnzcpy m to fr sz = do {
     vassert (fr \<noteq> 0);
     vassert (to \<noteq> 0);
     (end, m') \<leftarrow> strnzcpy_loop m to fr sz;
     Some (end - to, m') }"

partial_function (option) walk_to_end :: "mem \<Rightarrow> addr \<Rightarrow> addr option" where
  "walk_to_end m str = do { c \<leftarrow> m str; if c \<noteq> 0 then walk_to_end m (str + 1) else Some str }"

definition strcat :: "mem \<Rightarrow> addr \<Rightarrow> addr \<Rightarrow> (addr \<times> mem) option" where
  "strcat m str1 str2 = do {
     vassert (str1 \<noteq> 0);
     vassert (str2 \<noteq> 0);
     p \<leftarrow> walk_to_end m str1;
     m' \<leftarrow> strcpy_loop m p str2;
     Some (str1, m') }"

partial_function (option) strncat_loop :: "mem \<Rightarrow> addr \<Rightarrow> addr \<Rightarrow> nat \<Rightarrow> mem option" where
  "strncat_loop m str1 str2 count = do {
     c \<leftarrow> m str2;
     if c \<noteq> 0 \<and> count > 0 then do {
       m' \<leftarrow> store m str1 c;
       strncat_loop m' (str1 + 1) (str2 + 1) (count - 1) }
     else store m str1 0 }"

definition strncat :: "mem \<Rightarrow> addr \<Rightarrow> addr \<Rightarrow> nat \<Rightarrow> (addr \<times> mem) option" where
  "strncat m str1 str2 count = do {
     vassert (str1 \<noteq> 0);
     vassert (str2 \<noteq> 0);
     p \<leftarrow> walk_to_end m str1;
     m' \<leftarrow> strncat_loop m p str2 count;
     Some (str1, m') }"

partial_function (option) strcut_loop :: "mem \<Rightarrow> addr \<Rightarrow> nat \<Rightarrow> mem option" where
  "strcut_loop m str count = do {
     c \<leftarrow> m str;
     if c \<noteq> 0 then do { m' \<leftarrow> store m (str - count) c; strcut_loop m' (str + 1) count }
     else store m (str - count) 0 }"

definition strcut :: "mem \<Rightarrow> addr \<Rightarrow> nat \<Rightarrow> (addr \<times> mem) option" where
  "strcut m str count = do {
     vassert (str \<noteq> 0);
     if count > 0 then do { m' \<leftarrow> strcut_loop m (str + count) count; Some (str, m') }
     else Some (str, m) }"

section \<open>Swapping\<close>

text \<open>\<open>*i ^= *j; *j ^= *i; *i ^= *j\<close>, byte by byte.\<close>

fun memswp_loop :: "mem \<Rightarrow> addr \<Rightarrow> addr \<Rightarrow> nat \<Rightarrow> mem option" where
  "memswp_loop m i j 0 = Some m"
| "memswp_loop m i j (Suc n) = do {
     x \<leftarrow> m i; y \<leftarrow> m j; m1 \<leftarrow> store m i (x XOR y);
     y \<leftarrow> m1 j; x \<leftarrow> m1 i; m2 \<leftarrow> store m1 j (y XOR x);
     x \<leftarrow> m2 i; y \<leftarrow> m2 j; m3 \<leftarrow> store m2 i (x XOR y);
     memswp_loop m3 (i + 1) (j + 1) n }"

definition memswp :: "mem \<Rightarrow> addr \<Rightarrow> addr \<Rightarrow> nat \<Rightarrow> mem option" where
  "memswp m a b n = do {
     r \<leftarrow> memcmp m a b n;
     if r \<noteq> 0 then memswp_loop m a b n else Some m }"

section \<open>Tokens\<close>

text \<open>\<open>last\<close> is the static variable of \<open>strtok\<close>, 0 when there is nothing left.\<close>

definition strtok :: "mem \<Rightarrow> addr \<Rightarrow> addr \<Rightarrow> addr \<Rightarrow> (addr \<times> addr \<times> mem) option" where
  "strtok m last0 str delimiters = (
     let last1 = (if str \<noteq> 0 then str else last0) in
     if last1 = 0 then Some (0, 0, m)
     else do {
       start \<leftarrow> strspn m last1 delimiters;
       let last2 = last1 + start;
       c \<leftarrow> m last2;
       if c = 0 then Some (0, 0, m)
       else do {
         e \<leftarrow> strcspn m last2 delimiters;
         d \<leftarrow> m (last2 + e);
         if d = 0 then Some (last2, 0, m)
         else do {
           m' \<leftarrow> store m (last2 + e) 0;
           Some (last2, last2 + e + 1, m') } } })"

section \<open>Wildcards\<close>

text \<open>
  The middle part of \<open>strmatch\<close>: \<open>firstStar\<close> is the star the search continues behind. Each part
  of the pattern is cut off at the next star by a terminator that is put back afterwards.
\<close>

partial_function (option) strmatch_loop :: "mem \<Rightarrow> addr \<Rightarrow> addr \<Rightarrow> (bool \<times> mem) option" where
  "strmatch_loop m firstStar str = do {
     star \<leftarrow> strchr m (firstStar + 1) 42;
     if star = 0 then Some (True, m)
     else do {
       m1 \<leftarrow> store m star 0;
       hit \<leftarrow> strstr m1 str (firstStar + 1);
       m2 \<leftarrow> store m1 star 42;
       if hit = 0 then Some (False, m2)
       else strmatch_loop m2 star (hit + (star - (firstStar + 1))) } }"

definition strmatch :: "mem \<Rightarrow> addr \<Rightarrow> addr \<Rightarrow> (bool \<times> mem) option" where
  "strmatch m pattern str = do {
     firstStar \<leftarrow> strchr m pattern 42;
     if firstStar = 0 then do { r \<leftarrow> strcmp m pattern str; Some (r = 0, m) }
     else do {
       lastStar \<leftarrow> strrchr m pattern 42;
       begin_ok \<leftarrow> (if firstStar \<noteq> pattern then do {
          r \<leftarrow> strncmp m str pattern (firstStar - pattern); Some (r = 0) } else Some True);
       if \<not> begin_ok then Some (False, m)
       else do {
         c \<leftarrow> m (lastStar + 1);
         end_ok \<leftarrow> (if c \<noteq> 0 then do {
            plen \<leftarrow> strlen m pattern;
            slen \<leftarrow> strlen m str;
            let cmplen = pattern + plen - lastStar - 1;
            r \<leftarrow> strncmp m (lastStar + 1) (str + slen - cmplen) cmplen;
            Some (r = 0) } else Some True);
         if \<not> end_ok then Some (False, m)
         else strmatch_loop m firstStar (str + (firstStar - pattern)) } } }"

section \<open>Copying: lemmas\<close>

lemma strcpy_loop_cstr:
  assumes "cstr m fr s" "mapped m to (Suc (length s))" "to \<le> fr \<or> fr + length s < to"
  shows "strcpy_loop m to fr = Some (upd m to (s @ [0]))"
  using assms
proof (induction s arbitrary: m to fr)
  case Nil
  then show ?case by (subst strcpy_loop.simps) auto
next
  case (Cons c s)
  from Cons.prems have src: "m fr = Some c" "c \<noteq> 0" "cstr m (Suc fr) s" by auto
  have src_upd: "cstr (m(to \<mapsto> c)) (Suc fr) s"
    using Cons.prems(3) src(3) by (subst cstr_fun_upd_other) auto
  have dst_upd: "mapped (m(to \<mapsto> c)) (Suc to) (Suc (length s))"
    using Cons.prems(2) by (intro mapped_fun_upd) simp
  have ov: "Suc to \<le> Suc fr \<or> Suc fr + length s < Suc to" using Cons.prems(3) by auto
  have "strcpy_loop (m(to \<mapsto> c)) (Suc to) (Suc fr) =
      Some (upd (m(to \<mapsto> c)) (Suc to) (s @ [0]))"
    by (rule Cons.IH [OF src_upd dst_upd ov])
  with src Cons.prems(2) show ?case by (subst strcpy_loop.simps) auto
qed

lemma strcpy_cstr:
  assumes "cstr m fr s" "mapped m to (Suc (length s))" "to \<le> fr \<or> fr + length s < to"
    "fr \<noteq> 0" "to \<noteq> 0"
  shows "strcpy m to fr = Some (to, upd m to (s @ [0]))"
  using assms by (simp add: strcpy_def strcpy_loop_cstr)

lemma cstr_upd: "0 \<notin> set s \<Longrightarrow> cstr (upd m p (s @ [0])) p s"
  by (simp add: cstr_bytes_at bytes_at_upd [of m p "s @ [0]", simplified] del: upd.simps)

lemma strncpy_fill_mapped:
  "mapped m to n \<Longrightarrow> strncpy_fill m to n = Some (upd m to (replicate n 0))"
  by (induction n arbitrary: m to) auto

lemma strncpy_loop_cstr:
  assumes "cstr m fr s" "mapped m to n" "to \<le> fr \<or> fr + length s < to"
  shows "strncpy_loop m to fr n = Some (upd m to (take n s @ replicate (n - length s) 0))"
  using assms
proof (induction n arbitrary: m to fr s)
  case 0
  then show ?case using cstr_first [OF 0(1)] by auto
next
  case (Suc n)
  show ?case
  proof (cases s)
    case Nil
    with Suc.prems strncpy_fill_mapped [of m to "Suc n"] show ?thesis by simp
  next
    case (Cons c s')
    with Suc.prems(1) have src: "m fr = Some c" "c \<noteq> 0" "cstr m (Suc fr) s'" by auto
    have src_upd: "cstr (m(to \<mapsto> c)) (Suc fr) s'"
      using Suc.prems(3) Cons src(3) by (subst cstr_fun_upd_other) auto
    have dst_upd: "mapped (m(to \<mapsto> c)) (Suc to) n"
      using Suc.prems(2) by (intro mapped_fun_upd) simp
    have ov: "Suc to \<le> Suc fr \<or> Suc fr + length s' < Suc to" using Suc.prems(3) Cons by auto
    have "strncpy_loop (m(to \<mapsto> c)) (Suc to) (Suc fr) n =
        Some (upd (m(to \<mapsto> c)) (Suc to) (take n s' @ replicate (n - length s') 0))"
      by (rule Suc.IH [OF src_upd dst_upd ov])
    with src Suc.prems(2) Cons show ?thesis by auto
  qed
qed

lemma strncpy_cstr:
  assumes "cstr m fr s" "mapped m to n" "to \<le> fr \<or> fr + length s < to" "fr \<noteq> 0" "to \<noteq> 0"
  shows "strncpy m to fr n = Some (to, upd m to (take n s @ replicate (n - length s) 0))"
  using assms by (simp add: strncpy_def strncpy_loop_cstr)

lemma strnzcpy_loop_cstr:
  assumes "cstr m fr s" "mapped m to (Suc n)" "to \<le> fr \<or> fr + length s < to"
  shows "strnzcpy_loop m to fr (Suc n) =
    Some (to + min n (length s), upd m to (take n s @ [0]))"
  using assms
proof (induction n arbitrary: m to fr s)
  case 0
  then show ?case using cstr_first [OF 0(1)] by (subst strnzcpy_loop.simps) auto
next
  case (Suc n)
  show ?case
  proof (cases s)
    case Nil
    with Suc.prems show ?thesis by (subst strnzcpy_loop.simps) auto
  next
    case (Cons c s')
    with Suc.prems(1) have src: "m fr = Some c" "c \<noteq> 0" "cstr m (Suc fr) s'" by auto
    have src_upd: "cstr (m(to \<mapsto> c)) (Suc fr) s'"
      using Suc.prems(3) Cons src(3) by (subst cstr_fun_upd_other) auto
    have dst_upd: "mapped (m(to \<mapsto> c)) (Suc to) (Suc n)"
      using Suc.prems(2) by (intro mapped_fun_upd) simp
    have ov: "Suc to \<le> Suc fr \<or> Suc fr + length s' < Suc to" using Suc.prems(3) Cons by auto
    have "strnzcpy_loop (m(to \<mapsto> c)) (Suc to) (Suc fr) (Suc n) =
        Some (Suc to + min n (length s'), upd (m(to \<mapsto> c)) (Suc to) (take n s' @ [0]))"
      by (rule Suc.IH [OF src_upd dst_upd ov])
    with src Suc.prems(2) Cons show ?thesis by (subst strnzcpy_loop.simps) auto
  qed
qed

lemma strnzcpy_cstr:
  assumes "cstr m fr s" "mapped m to n" "to \<le> fr \<or> fr + length s < to" "0 < n"
    "fr \<noteq> 0" "to \<noteq> 0"
  shows "strnzcpy m to fr n = Some (min (n - 1) (length s), upd m to (take (n - 1) s @ [0]))"
  using assms strnzcpy_loop_cstr [of m fr s to "n - 1"] by (simp add: strnzcpy_def)

lemma walk_to_end_cstr: "cstr m p s \<Longrightarrow> walk_to_end m p = Some (p + length s)"
proof (induction s arbitrary: p)
  case Nil
  then show ?case by (subst walk_to_end.simps) simp
next
  case (Cons c s)
  then show ?case by (subst walk_to_end.simps) simp
qed

lemma strcat_cstr:
  assumes "cstr m p s" "cstr m q t" "mapped m (p + length s) (Suc (length t))"
    "q + length t < p + length s \<or> p + length s + length t < q" "p \<noteq> 0" "q \<noteq> 0"
  shows "strcat m p q = Some (p, upd m (p + length s) (t @ [0]))"
  using assms by (auto simp: strcat_def walk_to_end_cstr strcpy_loop_cstr)

lemma strncat_loop_cstr:
  assumes "cstr m fr s" "mapped m to (Suc (min n (length s)))" "to \<le> fr \<or> fr + length s < to"
  shows "strncat_loop m to fr n = Some (upd m to (take n s @ [0]))"
  using assms
proof (induction n arbitrary: m to fr s)
  case 0
  then show ?case using cstr_first [OF 0(1)] by (subst strncat_loop.simps) auto
next
  case (Suc n)
  show ?case
  proof (cases s)
    case Nil
    with Suc.prems show ?thesis by (subst strncat_loop.simps) auto
  next
    case (Cons c s')
    with Suc.prems(1) have src: "m fr = Some c" "c \<noteq> 0" "cstr m (Suc fr) s'" by auto
    have src_upd: "cstr (m(to \<mapsto> c)) (Suc fr) s'"
      using Suc.prems(3) Cons src(3) by (subst cstr_fun_upd_other) auto
    have dst_upd: "mapped (m(to \<mapsto> c)) (Suc to) (Suc (min n (length s')))"
      using Suc.prems(2) Cons by (intro mapped_fun_upd) simp
    have ov: "Suc to \<le> Suc fr \<or> Suc fr + length s' < Suc to" using Suc.prems(3) Cons by auto
    have "strncat_loop (m(to \<mapsto> c)) (Suc to) (Suc fr) n =
        Some (upd (m(to \<mapsto> c)) (Suc to) (take n s' @ [0]))"
      by (rule Suc.IH [OF src_upd dst_upd ov])
    with src Suc.prems(2) Cons show ?thesis by (subst strncat_loop.simps) auto
  qed
qed

lemma strncat_cstr:
  assumes "cstr m p s" "cstr m q t" "mapped m (p + length s) (Suc (min n (length t)))"
    "q + length t < p + length s \<or> p + length s + length t < q" "p \<noteq> 0" "q \<noteq> 0"
  shows "strncat m p q n = Some (p, upd m (p + length s) (take n t @ [0]))"
  using assms by (auto simp: strncat_def walk_to_end_cstr strncat_loop_cstr)

lemma strcut_loop_cstr:
  assumes "cstr m p s" "0 < n" "n \<le> p" "mapped m (p - n) (Suc (length s))"
  shows "strcut_loop m p n = Some (upd m (p - n) (s @ [0]))"
  using assms
proof (induction s arbitrary: m p)
  case Nil
  then show ?case by (subst strcut_loop.simps) auto
next
  case (Cons c s)
  have src_upd: "cstr (m(p - n \<mapsto> c)) (Suc p) s"
    using Cons.prems by (subst cstr_fun_upd_other) auto
  have dst_upd: "mapped (m(p - n \<mapsto> c)) (Suc p - n) (Suc (length s))"
    using Cons.prems by (intro mapped_fun_upd) (simp add: Suc_diff_le)
  have le: "n \<le> Suc p" using Cons.prems(3) by simp
  have "strcut_loop (m(p - n \<mapsto> c)) (Suc p) n =
      Some (upd (m(p - n \<mapsto> c)) (Suc p - n) (s @ [0]))"
    by (rule Cons.IH [OF src_upd Cons.prems(2) le dst_upd])
  with Cons.prems show ?case by (subst strcut_loop.simps) (auto simp: Suc_diff_le)
qed

lemma strcut_cstr:
  assumes "cstr m p s" "n \<le> length s" "p \<noteq> 0"
  shows "\<exists>m'. strcut m p n = Some (p, m') \<and> cstr m' p (drop n s) \<and>
    (\<forall>a. a < p \<or> p + length s - n < a \<longrightarrow> m' a = m a)"
proof (cases "n = 0")
  case True
  with assms show ?thesis by (simp add: strcut_def)
next
  case False
  have src: "cstr m (p + n) (drop n s)" using assms by (simp add: cstr_drop)
  have "mapped m p (Suc (length (drop n s)))"
    using bytes_at_mapped [of m p "s @ [0]"] assms(1) by (auto simp: cstr_bytes_at intro: mapped_le)
  with strcut_loop_cstr [OF src] False assms(3)
  have "strcut m p n = Some (p, upd m p (drop n s @ [0]))" by (simp add: strcut_def)
  moreover have "0 \<notin> set (drop n s)" using cstr_nonzero [OF src] .
  ultimately show ?thesis using assms(2) by (auto simp: cstr_upd upd_apply)
qed

section \<open>Swapping: lemmas\<close>

lemma memswp_loop_bytes:
  assumes "bytes_at m a xs" "bytes_at m b ys" "length xs = n" "length ys = n"
    "a + n \<le> b \<or> b + n \<le> a"
  shows "memswp_loop m a b n = Some (upd (upd m a ys) b xs)"
  using assms
proof (induction n arbitrary: m a b xs ys)
  case (Suc n)
  then obtain x xs' y ys' where l: "xs = x # xs'" "ys = y # ys'"
    by (cases xs; cases ys) auto
  with Suc.prems have ab: "m a = Some x" "m b = Some y" "a \<noteq> b" by auto
  let ?m = "m(a \<mapsto> y, b \<mapsto> x)"
  have at: "bytes_at ?m (Suc a) xs'" "bytes_at ?m (Suc b) ys'"
    using Suc.prems l by (auto simp: bytes_at_fun_upd_other)
  have len: "length xs' = n" "length ys' = n" "Suc a + n \<le> Suc b \<or> Suc b + n \<le> Suc a"
    using Suc.prems l by auto
  have "memswp_loop ?m (Suc a) (Suc b) n = Some (upd (upd ?m (Suc a) ys') (Suc b) xs')"
    by (rule Suc.IH [OF at len])
  moreover have "m(a \<mapsto> x XOR y, b \<mapsto> x, a \<mapsto> y) = ?m"
    using ab(3) by (simp add: fun_upd_twist)
  moreover have "upd (upd ?m (Suc a) ys') (Suc b) xs' = upd (upd m a (y # ys')) b (x # xs')"
    using Suc.prems l by (intro ext) (auto simp: upd_apply nth_Cons')
  ultimately show ?case using ab l
    by (simp add: xor.assoc xor.left_commute xor.commute)
qed simp

lemma memswp_bytes:
  assumes "bytes_at m a xs" "bytes_at m b ys" "length xs = n" "length ys = n"
    "a + n \<le> b \<or> b + n \<le> a"
  shows "memswp m a b n = Some (upd (upd m a ys) b xs)"
proof (cases "xs = ys")
  case True
  have "upd (upd m a ys) b xs = m"
    using assms True bytes_at_nth [OF assms(1)] bytes_at_nth [OF assms(2)]
    by (intro ext) (auto simp: upd_apply dest: le_Suc_ex)
  with assms True show ?thesis
    by (simp add: memswp_def memcmp_bytes_at ucmp_zero)
next
  case False
  with assms show ?thesis
    by (simp add: memswp_def memcmp_bytes_at ucmp_zero memswp_loop_bytes)
qed

section \<open>Tokens: lemmas\<close>

lemma strtok_none:
  assumes "cstr m p s" "cstr m d t" "p \<noteq> 0" "d \<noteq> 0" "set s \<subseteq> set t"
  shows "strtok m l p d = Some (0, 0, m)"
proof -
  have "takeWhile (\<lambda>c. c \<in> set t) s = s" using assms(5) by (auto simp: takeWhile_eq_all_conv)
  with strspn_cstr [OF assms(1-4)] have "strspn m p d = Some (length s)" by metis
  with assms cstr_end [OF assms(1)] show ?thesis by (simp add: strtok_def Let_def)
qed

lemma strtok_token:
  assumes "cstr m p s" "cstr m d t" "p \<noteq> 0" "d \<noteq> 0" "\<not> set s \<subseteq> set t"
    and k: "k = length (takeWhile (\<lambda>c. c \<in> set t) s)"
    and tok: "tok = takeWhile (\<lambda>c. c \<notin> set t) (drop k s)"
  shows "tok \<noteq> [] \<and> (\<exists>l' m'. strtok m l p d = Some (p + k, l', m') \<and> cstr m' (p + k) tok \<and>
    (if length s = k + length tok then l' = 0 \<and> m' = m
     else l' = p + k + length tok + 1 \<and> m' = m(p + k + length tok \<mapsto> 0) \<and>
       cstr m' l' (drop (k + length tok + 1) s)))"
proof -
  have kl: "k < length s"
    using assms(5) k by (metis dropWhile_eq_drop drop_all dropWhile_eq_Nil_conv subsetI linorder_not_less)
  then have neq: "s ! k \<notin> set t" using k nth_length_takeWhile by fastforce
  then have tok_ne: "tok \<noteq> []" using kl tok by (simp add: takeWhile_eq_Nil_iff hd_drop_conv_nth)
  have src: "cstr m (p + k) (drop k s)" using assms(1) kl by (simp add: cstr_drop)
  have c: "m (p + k) = Some (s ! k)" "s ! k \<noteq> 0"
    using cstr_nth [OF assms(1) kl] cstr_nonzero [OF assms(1)] kl nth_mem by fastforce+
  have tl: "length tok \<le> length (drop k s)" using tok length_takeWhile_le by metis
  have sp: "strspn m p d = Some k" "strcspn m (p + k) d = Some (length tok)"
    using assms src k tok by (simp_all add: strspn_cstr strcspn_cstr)
  show ?thesis
  proof (cases "length s = k + length tok")
    case True
    then have "drop k s = tok" using tl tok
      by (metis add_diff_cancel_left' length_drop takeWhile_eq_take take_all order_refl)
    with True src c sp tok_ne assms(3) cstr_end [OF src] show ?thesis by (simp add: strtok_def Let_def)
  next
    case False
    with tl kl have l: "k + length tok < length s" by simp
    let ?b = "p + k + length tok"
    have b: "m ?b = Some (s ! (k + length tok))" "s ! (k + length tok) \<noteq> 0"
      using cstr_nth [OF assms(1) l] cstr_nonzero [OF assms(1)] l nth_mem by (fastforce simp: add.assoc)+
    have "drop k s = tok @ drop (length tok) (drop k s)"
      using tok by (metis takeWhile_eq_take append_take_drop_id)
    with src have "bytes_at m (p + k) tok" "0 \<notin> set tok"
      using cstr_append [of m "p + k" tok] by metis+
    then have "cstr (m(?b \<mapsto> 0)) (p + k) tok"
      by (simp add: cstr_bytes_at bytes_at_append bytes_at_fun_upd_other)
    moreover have "cstr (m(?b \<mapsto> 0)) (?b + 1) (drop (k + length tok + 1) s)"
      using cstr_drop [OF assms(1), of "k + length tok + 1"] l
      by (subst cstr_fun_upd_other) (simp_all add: add.assoc)
    ultimately show ?thesis using False b c sp tok_ne assms(3) by (simp add: strtok_def Let_def)
  qed
qed

section \<open>Properties\<close>

text \<open>\<open>strnzcpy\<close> never writes more than \<open>n\<close> bytes, always terminates the target, copies the
  longest prefix that fits and returns its length; everything else in memory is unchanged.\<close>

theorem strnzcpy_bounded:
  assumes "cstr m fr s" "mapped m to n" "to \<le> fr \<or> fr + length s < to" "0 < n" "fr \<noteq> 0" "to \<noteq> 0"
  shows "\<exists>m'. strnzcpy m to fr n = Some (min (n - 1) (length s), m') \<and> cstr m' to (take (n - 1) s) \<and>
    (\<forall>a. a < to \<or> to + n \<le> a \<longrightarrow> m' a = m a)"
proof -
  have "0 \<notin> set (take (n - 1) s)" using cstr_nonzero [OF assms(1)] by (auto dest: in_set_takeD)
  with strnzcpy_cstr [OF assms] assms(4) show ?thesis by (auto simp: cstr_upd upd_apply)
qed

theorem strnzcpy_bounded_witness:
  "\<exists>m'. strnzcpy (mem_of 8 [97, 98, 99, 0, 1, 1, 1]) 12 8 3 = Some (2, m') \<and> cstr m' 12 [97, 98]"
  using strnzcpy_bounded [of "mem_of 8 [97, 98, 99, 0, 1, 1, 1]" 8 "[97, 98, 99]" 12 3]
  by (auto simp: mem_of_def mapped_numeral)

text \<open>\<open>strcat\<close> appends: the first string becomes the concatenation, the second keeps its text and
  no byte outside the appended part changes.\<close>

theorem strcat_appends:
  assumes "cstr m p s" "cstr m q t" "mapped m (p + length s) (Suc (length t))"
    "q + length t < p \<or> p + length s + length t < q" "p \<noteq> 0" "q \<noteq> 0"
  shows "\<exists>m'. strcat m p q = Some (p, m') \<and> cstr m' p (s @ t) \<and> cstr m' q t \<and>
    (\<forall>a. a < p + length s \<or> p + length s + length t < a \<longrightarrow> m' a = m a)"
proof -
  let ?m = "upd m (p + length s) (t @ [0])"
  have "strcat m p q = Some (p, ?m)" using assms by (intro strcat_cstr) auto
  moreover have "bytes_at ?m p s"
    using assms(1) by (subst bytes_at_upd_other) (auto simp: cstr_bytes_at bytes_at_append)
  moreover have "0 \<notin> set s" "0 \<notin> set t" using assms(1,2) by (simp_all add: cstr_nonzero)
  moreover have "cstr ?m q t" using assms(2,4) by (subst cstr_upd_other) auto
  ultimately show ?thesis by (auto simp: cstr_append cstr_upd upd_apply)
qed

theorem strcat_appends_witness:
  "\<exists>m'. strcat (mem_of 8 [97, 0, 1, 1, 98, 0]) 8 12 = Some (8, m') \<and> cstr m' 8 [97, 98]"
  using strcat_appends [of "mem_of 8 [97, 0, 1, 1, 98, 0]" 8 "[97]" 12 "[98]"]
  by (auto simp: mem_of_def)

text \<open>\<open>strtok\<close> returns the next maximal run of non-delimiters as a terminated string of its own,
  and keeps the rest of the input as the string to continue with; no other byte changes. When only
  delimiters are left it returns NULL.\<close>

theorem strtok_next:
  assumes "cstr m p s" "cstr m d t" "p \<noteq> 0" "d \<noteq> 0"
    and k: "k = length (takeWhile (\<lambda>c. c \<in> set t) s)"
    and tok: "tok = takeWhile (\<lambda>c. c \<notin> set t) (drop k s)"
  shows "if set s \<subseteq> set t then strtok m l p d = Some (0, 0, m)
    else tok \<noteq> [] \<and> (\<exists>l' m'. strtok m l p d = Some (p + k, l', m') \<and> cstr m' (p + k) tok \<and>
    (if length s = k + length tok then l' = 0 \<and> m' = m
     else l' = p + k + length tok + 1 \<and> m' = m(p + k + length tok \<mapsto> 0) \<and>
       cstr m' l' (drop (k + length tok + 1) s)))"
  using strtok_none [OF assms(1-4)] strtok_token [OF assms(1-4) _ k tok] by simp

theorem strtok_next_witness:
  "\<exists>m'. strtok (mem_of 8 [44, 97, 44, 98, 0, 44, 0]) 0 8 13 = Some (9, 11, m') \<and> cstr m' 9 [97] \<and>
     cstr m' 11 [98]"
  using strtok_next [of "mem_of 8 [44, 97, 44, 98, 0, 44, 0]" 8 "[44, 97, 44, 98]" 13 "[44]" 1 "[97]" 0]
  by (auto simp: mem_of_def)

text \<open>\<open>memswp\<close>, which swaps by exclusive or, exchanges two disjoint blocks and changes nothing
  else.\<close>

theorem memswp_swaps:
  assumes "bytes_at m a xs" "bytes_at m b ys" "length xs = n" "length ys = n" "a + n \<le> b \<or> b + n \<le> a"
  shows "\<exists>m'. memswp m a b n = Some m' \<and> bytes_at m' a ys \<and> bytes_at m' b xs \<and>
    (\<forall>c. c < a \<or> a + n \<le> c \<longrightarrow> c < b \<or> b + n \<le> c \<longrightarrow> m' c = m c)"
proof -
  have "bytes_at (upd (upd m a ys) b xs) a ys"
    using assms(3-5) by (subst bytes_at_upd_other) auto
  then show ?thesis using memswp_bytes [OF assms] assms(3,4) by (auto simp: upd_apply)
qed

theorem memswp_swaps_witness:
  "\<exists>m'. memswp (mem_of 8 [1, 2, 3, 4]) 8 10 2 = Some m' \<and> bytes_at m' 8 [3, 4] \<and> bytes_at m' 10 [1, 2]"
  using memswp_swaps [of "mem_of 8 [1, 2, 3, 4]" 8 "[1, 2]" 10 "[3, 4]" 2]
  by (auto simp: mem_of_def)

end
