(* ===== verification/Numbers.thy ===== *)
theory Numbers
  imports StrWrite
begin

text \<open>
  Integers and their texts: the width functions of \<open>lib/basic/width\<close>, \<open>itoa\<close> and the
  \<open>strto*\<close>/\<open>ato*\<close> family of \<open>lib/basic/string\<close>, \<open>abs.c\<close>, \<open>div.c\<close> and \<open>rand.c\<close> of
  \<open>lib/c/stdlib\<close>. Signed arithmetic wraps as the machine's does; the contract of a wrapping
  conversion is the locale \<open>wrapping\<close>, which both integer widths interpret.
\<close>

section \<open>Widths\<close>

function nwidth_loop :: "int \<Rightarrow> nat \<Rightarrow> nat" where
  "nwidth_loop n width = (if n \<ge> 10 then nwidth_loop (n sdiv 10) (width + 1) else width)"
  by pat_completeness auto
termination
  by (relation "measure (\<lambda>(n, width). nat n)") (auto simp: signed_divide_int_def sgn_if)

declare nwidth_loop.simps [simp del]

definition getnwidth :: "int \<Rightarrow> nat" where
  "getnwidth n = (if n < 0 then nwidth_loop (int32 (- n)) 2 else nwidth_loop n 1)"

definition getllwidth :: "int \<Rightarrow> nat" where
  "getllwidth l = (if l < 0 then nwidth_loop (int64 (- l)) 1 + 1 else nwidth_loop l 0 + 1)"

text \<open>A division by zero has no result; with base 1 the loop does not end.\<close>

partial_function (option) uwidth_loop :: "nat \<Rightarrow> nat \<Rightarrow> nat \<Rightarrow> nat option" where
  "uwidth_loop n base width =
     (if n \<ge> base then do {
        vassert (base \<noteq> 0);
        uwidth_loop (n div base) base (width + 1) }
      else Some width)"

definition getuwidth :: "nat \<Rightarrow> nat \<Rightarrow> nat option" where
  "getuwidth n base = uwidth_loop n base 1"

definition getullwidth :: "nat \<Rightarrow> nat \<Rightarrow> nat option" where
  "getullwidth n base = uwidth_loop n base 1"

section \<open>abs, div, rand\<close>

definition abs_c :: "int \<Rightarrow> int" where
  "abs_c n = (if n < 0 then int32 (- n) else n)"

definition labs :: "int \<Rightarrow> int" where
  "labs n = (if n < 0 then int32 (- n) else n)"

definition llabs :: "int \<Rightarrow> int" where
  "llabs n = (if n < 0 then int64 (- n) else n)"

record div_t =
  quot :: int
  rem :: int

text \<open>A zero denominator and the overflowing quotient trap.\<close>

definition div_c :: "int \<Rightarrow> int \<Rightarrow> div_t option" where
  "div_c numerator denominator = do {
     vassert (denominator \<noteq> 0);
     vassert (\<not> (numerator = INT_MIN \<and> denominator = -1));
     Some \<lparr>quot = numerator sdiv denominator, rem = numerator smod denominator\<rparr> }"

definition ldiv :: "int \<Rightarrow> int \<Rightarrow> div_t option" where
  "ldiv numerator denominator = do {
     vassert (denominator \<noteq> 0);
     vassert (\<not> (numerator = INT_MIN \<and> denominator = -1));
     Some \<lparr>quot = numerator sdiv denominator, rem = numerator smod denominator\<rparr> }"

definition lldiv :: "int \<Rightarrow> int \<Rightarrow> div_t option" where
  "lldiv numerator denominator = do {
     vassert (denominator \<noteq> 0);
     vassert (\<not> (numerator = LLONG_MIN \<and> denominator = -1));
     Some \<lparr>quot = numerator sdiv denominator, rem = numerator smod denominator\<rparr> }"

abbreviation randa :: "32 word" where "randa \<equiv> 1103515245"
abbreviation randc :: "32 word" where "randc \<equiv> 12345"

text \<open>The result and the new \<open>lastRand\<close>.\<close>

definition rand :: "32 word \<Rightarrow> int \<times> 32 word" where
  "rand lastRand = (let lastRand' = randa * lastRand + randc
     in (uint ((lastRand' div 65536) mod 32768), lastRand'))"

definition srand :: "32 word \<Rightarrow> 32 word" where
  "srand seed = seed"

section \<open>itoa\<close>

text \<open>The digits of a negative \<open>n\<close>, last first; the address behind them.\<close>

function itoa_digits :: "mem \<Rightarrow> addr \<Rightarrow> int \<Rightarrow> (mem \<times> addr) option" where
  "itoa_digits m s n =
     (if n < 0 then do {
        m' \<leftarrow> store m s (to_char (- (n smod 10) + 48));
        itoa_digits m' (s + 1) (n sdiv 10) }
      else Some (m, s))"
  by pat_completeness auto
termination
  by (relation "measure (\<lambda>(m, s, n). nat (- n))") (auto simp: signed_divide_int_def sgn_if)

function reverse_loop :: "mem \<Rightarrow> addr \<Rightarrow> addr \<Rightarrow> mem option" where
  "reverse_loop m a b =
     (if a < b then do {
        t \<leftarrow> m a;
        c \<leftarrow> m b;
        m1 \<leftarrow> store m a c;
        m2 \<leftarrow> store m1 b t;
        reverse_loop m2 (a + 1) (b - 1) }
      else Some m)"
  by pat_completeness auto
termination by (relation "measure (\<lambda>(m, a, b). b - a)") auto

declare itoa_digits.simps [simp del] reverse_loop.simps [simp del]

definition itoa :: "mem \<Rightarrow> addr \<Rightarrow> nat \<Rightarrow> int \<Rightarrow> (nat \<times> mem) option" where
  "itoa m target targetSize n = do {
     vassert (target \<noteq> 0);
     vassert (targetSize \<ge> 12);
     (m1, s1, a) \<leftarrow>
       (if n < 0 then do { m' \<leftarrow> store m target 45; Some (m', target + 1, target + 1) }
        else if n = 0 then do { m' \<leftarrow> store m target 48; Some (m', target + 1, target) }
        else Some (m, target, target));
     (m2, s2) \<leftarrow> itoa_digits m1 s1 (if n > 0 then - n else n);
     m3 \<leftarrow> store m2 s2 0;
     m4 \<leftarrow> reverse_loop m3 a (s2 - 1);
     Some (s2 - target, m4) }"

section \<open>strtol and its relatives\<close>

partial_function (option) skip_space :: "mem \<Rightarrow> addr \<Rightarrow> addr option" where
  "skip_space m nptr = do {
     c \<leftarrow> m nptr;
     r \<leftarrow> isspace (schar c);
     if r \<noteq> 0 then skip_space m (nptr + 1) else Some nptr }"

text \<open>Does the loop stop at this character?\<close>

definition strto_stops :: "int \<Rightarrow> byte \<Rightarrow> bool option" where
  "strto_stops base c = (let lc = lower_char c in
     if base \<le> 10 then do {
       d \<leftarrow> isdigit (schar c);
       Some (d = 0 \<or> schar c - 48 \<ge> base) }
     else do {
       an \<leftarrow> isalnum (schar c);
       if an = 0 then Some True
       else do {
         d \<leftarrow> isdigit (schar c);
         Some (d = 0 \<and> schar lc - 97 \<ge> base - 10) } })"

partial_function (option) strto_loop ::
  "(int \<Rightarrow> int) \<Rightarrow> mem \<Rightarrow> addr \<Rightarrow> int \<Rightarrow> int \<Rightarrow> (int \<times> addr) option" where
  "strto_loop wrap m nptr base i = do {
     c \<leftarrow> m nptr;
     if c = 0 then Some (i, nptr)
     else do {
       stop \<leftarrow> strto_stops base c;
       if stop then Some (i, nptr)
       else let lc = lower_char c in
         strto_loop wrap m (nptr + 1) base
           (if schar lc \<ge> 97 then wrap (i * base + (schar lc - 97) + 10)
            else wrap (i * base + schar c - 48)) } }"

definition strto_sign :: "mem \<Rightarrow> addr \<Rightarrow> (bool \<times> addr) option" where
  "strto_sign m nptr = do {
     c \<leftarrow> m nptr;
     Some (if c = 45 then (True, nptr + 1) else if c = 43 then (False, nptr + 1) else (False, nptr)) }"

definition strto_base :: "mem \<Rightarrow> addr \<Rightarrow> int \<Rightarrow> (int \<times> addr) option" where
  "strto_base m nptr base =
     (if base = 16 \<or> base = 0 then do {
        c0 \<leftarrow> m nptr;
        if c0 = 48 then do {
          c1 \<leftarrow> m (nptr + 1);
          if c1 = 120 then Some (16, nptr + 2)
          else if base = 0 then Some (8, nptr + 1) else Some (base, nptr) }
        else Some (if base = 0 then 10 else base, nptr) }
      else Some (base, nptr))"

text \<open>The common text of \<open>strtol.c\<close> and \<open>strtoll.c\<close>: value and end pointer.\<close>

definition strto :: "(int \<Rightarrow> int) \<Rightarrow> mem \<Rightarrow> addr \<Rightarrow> int \<Rightarrow> (int \<times> addr) option" where
  "strto wrap m nptr base = do {
     vassert (nptr \<noteq> 0);
     vassert (base = 0 \<or> base \<ge> 2 \<and> base \<le> 36);
     p1 \<leftarrow> skip_space m nptr;
     (neg, p2) \<leftarrow> strto_sign m p1;
     (base', p3) \<leftarrow> strto_base m p2 base;
     (i, e) \<leftarrow> strto_loop wrap m p3 base' 0;
     Some (if neg then wrap (- i) else i, e) }"

definition strtol :: "mem \<Rightarrow> addr \<Rightarrow> int \<Rightarrow> (int \<times> addr) option" where
  "strtol m nptr base = strto int32 m nptr base"

definition strtoll :: "mem \<Rightarrow> addr \<Rightarrow> int \<Rightarrow> (int \<times> addr) option" where
  "strtoll m nptr base = strto int64 m nptr base"

definition strtoul :: "mem \<Rightarrow> addr \<Rightarrow> int \<Rightarrow> (int \<times> addr) option" where
  "strtoul m nptr base = do { (i, e) \<leftarrow> strtol m nptr base; Some (uint32 i, e) }"

definition strtoull :: "mem \<Rightarrow> addr \<Rightarrow> int \<Rightarrow> (int \<times> addr) option" where
  "strtoull m nptr base = do { (i, e) \<leftarrow> strtoll m nptr base; Some (take_bit 64 i, e) }"

definition atoi :: "mem \<Rightarrow> addr \<Rightarrow> int option" where
  "atoi m nptr = do { (i, e) \<leftarrow> strtol m nptr 10; Some (int32 i) }"

definition atol :: "mem \<Rightarrow> addr \<Rightarrow> int option" where
  "atol m nptr = atoi m nptr"

definition atoll :: "mem \<Rightarrow> addr \<Rightarrow> int option" where
  "atoll m nptr = do { (i, e) \<leftarrow> strtoll m nptr 10; Some i }"

section \<open>Widths: lemmas\<close>

lemma uwidth_loop_bounds:
  "2 \<le> b \<Longrightarrow> \<exists>w. uwidth_loop n b k = Some (k + w) \<and> n < b ^ Suc w \<and> (w = 0 \<or> b ^ w \<le> n)"
proof (induction n arbitrary: k rule: less_induct)
  case (less n)
  show ?case
  proof (cases "n \<ge> b")
    case True
    then have "n div b < n" using less.prems by simp
    from less.IH [OF this less.prems, of "Suc k"] obtain w where w:
      "uwidth_loop (n div b) b (Suc k) = Some (Suc k + w)" "n div b < b ^ Suc w"
      "w = 0 \<or> b ^ w \<le> n div b" by blast
    have "uwidth_loop n b k = Some (k + Suc w)"
      using w(1) True less.prems by (subst uwidth_loop.simps) simp
    moreover have "n < b ^ Suc (Suc w)"
      using w(2) less.prems by (simp add: div_less_iff_less_mult mult.commute)
    moreover have "b ^ Suc w \<le> n"
      using w(3) True less.prems by (auto simp: less_eq_div_iff_mult_less_eq mult.commute)
    ultimately show ?thesis by blast
  next
    case False
    then show ?thesis by (intro exI [of _ 0]) (simp add: uwidth_loop.simps)
  qed
qed

lemma nwidth_loop_bounds:
  "0 \<le> n \<Longrightarrow> \<exists>w. nwidth_loop n k = k + w \<and> n < 10 ^ Suc w \<and> (w = 0 \<or> 10 ^ w \<le> n)"
proof (induction "nat n" arbitrary: n k rule: less_induct)
  case less
  show ?case
  proof (cases "n \<ge> 10")
    case True
    then have d: "n sdiv 10 = n div 10" by (simp add: signed_divide_int_def sgn_if)
    have lt: "nat (n div 10) < nat n" using True by simp
    have "0 \<le> n div 10" using True by simp
    from less.hyps [OF lt this, of "k + 1"] obtain w where w:
      "nwidth_loop (n div 10) (k + 1) = k + 1 + w" "n div 10 < 10 ^ Suc w"
      "w = 0 \<or> 10 ^ w \<le> n div 10" by blast
    have "nwidth_loop n k = k + Suc w" using w(1) True d by (subst nwidth_loop.simps) simp
    moreover have "n < 10 ^ Suc (Suc w)" using w(2) by simp
    moreover have "10 ^ Suc w \<le> n" using w(3) True by auto
    ultimately show ?thesis by blast
  next
    case False
    then show ?thesis by (intro exI [of _ 0]) (simp add: nwidth_loop.simps)
  qed
qed

section \<open>Digits\<close>

text \<open>The digits of a number, most significant first, and their decimal text.\<close>

function digits :: "nat \<Rightarrow> nat \<Rightarrow> nat list" where
  "digits b n = (if n < b \<or> b < 2 then [n] else digits b (n div b) @ [n mod b])"
  by pat_completeness auto
termination by (relation "measure snd") auto

declare digits.simps [simp del]

definition dec :: "nat \<Rightarrow> byte list" where
  "dec n = map (\<lambda>d. word_of_nat (48 + d)) (digits 10 n)"

definition sdec :: "int \<Rightarrow> byte list" where
  "sdec i = (if i < 0 then 45 # dec (nat (- i)) else dec (nat i))"

lemma digits_nonempty [simp]: "digits b n \<noteq> []"
  by (subst digits.simps) simp

lemma digits_less: "2 \<le> b \<Longrightarrow> d \<in> set (digits b n) \<Longrightarrow> d < b"
proof (induction b n rule: digits.induct)
  case (1 b n)
  then show ?case by (subst (asm) (2) digits.simps) (auto split: if_splits)
qed

lemma foldl_digits: "2 \<le> b \<Longrightarrow> foldl (\<lambda>i d. i * b + d) 0 (digits b n) = n"
proof (induction b n rule: digits.induct)
  case (1 b n)
  then show ?case by (subst digits.simps) simp
qed

lemma length_digits_bounds:
  "2 \<le> b \<Longrightarrow> n < b ^ length (digits b n) \<and> (length (digits b n) = 1 \<or> b ^ (length (digits b n) - 1) \<le> n)"
proof (induction b n rule: digits.induct)
  case (1 b n)
  show ?case
  proof (cases "n < b")
    case True
    then show ?thesis using 1(2) by (subst (1 2 3) digits.simps) simp
  next
    case False
    let ?l = "length (digits b (n div b))"
    have l: "length (digits b n) = Suc ?l" using False 1(2) by (subst digits.simps) simp
    from 1 False have IH: "n div b < b ^ ?l" "?l = 1 \<or> b ^ (?l - 1) \<le> n div b" by auto
    have "n < b ^ Suc ?l" using IH(1) 1(2) by (simp add: div_less_iff_less_mult mult.commute)
    moreover have "b ^ ?l \<le> n"
    proof (cases "?l = 1")
      case True
      with False show ?thesis by simp
    next
      case False
      then obtain k where k: "?l = Suc k" by (metis digits_nonempty length_0_conv not0_implies_Suc)
      with IH(2) False have "b ^ k \<le> n div b" by auto
      with 1(2) show ?thesis by (simp add: k less_eq_div_iff_mult_less_eq mult.commute)
    qed
    ultimately show ?thesis by (simp add: l)
  qed
qed

text \<open>The width functions count digits.\<close>

lemma width_unique:
  assumes "2 \<le> (b::nat)" "n < b ^ Suc v" "v = 0 \<or> b ^ v \<le> n" "n < b ^ Suc w" "w = 0 \<or> b ^ w \<le> n"
  shows "v = w"
proof (rule ccontr)
  assume "v \<noteq> w"
  then consider "v < w" | "w < v" by linarith
  then show False
  proof cases
    case 1
    then have "b ^ Suc v \<le> b ^ w" using assms(1) by (intro power_increasing) auto
    with 1 assms(2,5) show False by auto
  next
    case 2
    then have "b ^ Suc w \<le> b ^ v" using assms(1) by (intro power_increasing) auto
    with 2 assms(3,4) show False by auto
  qed
qed

lemma uwidth_digits: "2 \<le> b \<Longrightarrow> uwidth_loop n b 1 = Some (length (digits b n))"
proof -
  assume b: "2 \<le> b"
  obtain l where l: "length (digits b n) = Suc l" by (metis digits_nonempty length_0_conv not0_implies_Suc)
  from uwidth_loop_bounds [OF b, of n 1] obtain w where w: "uwidth_loop n b 1 = Some (1 + w)"
    "n < b ^ Suc w" "w = 0 \<or> b ^ w \<le> n" by blast
  from length_digits_bounds [OF b, of n] l have "n < b ^ Suc l" "l = 0 \<or> b ^ l \<le> n" by auto
  from width_unique [OF b w(2,3) this] w(1) l show ?thesis by simp
qed

lemma nwidth_digits: "0 \<le> n \<Longrightarrow> nwidth_loop n k + 1 = k + length (digits 10 (nat n))"
proof -
  assume n: "0 \<le> n"
  obtain l where l: "length (digits 10 (nat n)) = Suc l"
    by (metis digits_nonempty length_0_conv not0_implies_Suc)
  from nwidth_loop_bounds [OF n, of k] obtain w where w: "nwidth_loop n k = k + w"
    "n < 10 ^ Suc w" "w = 0 \<or> 10 ^ w \<le> n" by blast
  have "nat n < 10 ^ Suc w" "w = 0 \<or> 10 ^ w \<le> nat n"
    using w(2,3) n by (auto simp: nat_less_iff le_nat_iff)
  moreover from length_digits_bounds [of 10 "nat n"] l
  have "nat n < 10 ^ Suc l" "l = 0 \<or> 10 ^ l \<le> nat n" by auto
  ultimately have "w = l" using width_unique [of 10 "nat n" w l] by simp
  with w(1) l show ?thesis by simp
qed

section \<open>itoa: lemmas\<close>

lemma smod_nat [simp]: "int k smod 10 = int (k mod 10)"
  by (simp add: signed_modulo_int_def signed_divide_int_def sgn_if zmod_int)

lemma sdiv_nat [simp]: "int k sdiv 10 = int (k div 10)"
  by (simp add: signed_divide_int_def sgn_if zdiv_int)

lemma length_dec [simp]: "length (dec n) = length (digits 10 n)"
  by (simp add: dec_def)

lemma dec_unfold: "dec n = (if n < 10 then [] else dec (n div 10)) @ [word_of_nat (48 + n mod 10)]"
  unfolding dec_def by (subst digits.simps) simp

lemma itoa_digits_neg:
  "0 < k \<Longrightarrow> mapped m s (length (dec k)) \<Longrightarrow>
   itoa_digits m s (- int k) = Some (upd m s (rev (dec k)), s + length (dec k))"
proof (induction k arbitrary: m s rule: less_induct)
  case (less k)
  let ?c = "word_of_nat (48 + k mod 10) :: byte"
  have c: "to_char (- ((- int k) smod 10) + 48) = ?c"
    by simp
  have s: "s \<in> dom m" using less.prems(2) dec_unfold [of k] by (cases "length (dec k)") auto
  show ?case
  proof (cases "k < 10")
    case True
    then have "dec k = [?c]" by (subst dec_unfold) simp
    with s c less.prems(1) True show ?thesis
      by (subst itoa_digits.simps) (simp add: itoa_digits.simps add.commute)
  next
    case False
    then have d: "dec k = dec (k div 10) @ [?c]" by (subst dec_unfold) simp
    have mp: "mapped (m(s \<mapsto> ?c)) (Suc s) (length (dec (k div 10)))"
      using less.prems(2) d by (intro mapped_fun_upd) simp
    have k: "k div 10 < k" "0 < k div 10" using False by simp_all
    have "itoa_digits (m(s \<mapsto> ?c)) (Suc s) (- int (k div 10)) =
        Some (upd (m(s \<mapsto> ?c)) (Suc s) (rev (dec (k div 10))), Suc s + length (dec (k div 10)))"
      by (rule less.IH [OF k mp])
    with s c less.prems(1) d show ?thesis
      by (subst itoa_digits.simps) (simp add: add.commute)
  qed
qed

lemma reverse_loop_bytes:
  "bytes_at m a xs \<Longrightarrow> xs \<noteq> [] \<Longrightarrow> reverse_loop m a (a + length xs - 1) = Some (upd m a (rev xs))"
proof (induction "length xs" arbitrary: m a xs rule: less_induct)
  case less
  show ?case
  proof (cases "length xs = 1")
    case True
    then obtain x where xs: "xs = [x]" by (auto simp: length_Suc_conv)
    then have "m(a \<mapsto> x) = m" using less.prems(1) by (auto simp: fun_upd_idem)
    with xs show ?thesis by (simp add: reverse_loop.simps)
  next
    case False
    with less.prems(2) obtain x ys where "xs = x # ys" "ys \<noteq> []" by (cases xs) auto
    then obtain mid y where xs: "xs = x # mid @ [y]" by (metis rev_exhaust)
    let ?b = "Suc (a + length mid)"
    let ?m = "m(a \<mapsto> y, ?b \<mapsto> x)"
    have at: "m a = Some x" "m ?b = Some y" "bytes_at m (Suc a) mid"
      using less.prems(1) xs by (auto simp: bytes_at_append)
    have "bytes_at ?m (Suc a) mid" using at(3) by (simp add: bytes_at_fun_upd_other)
    then have "reverse_loop ?m (Suc a) (?b - 1) = Some (upd ?m (Suc a) (rev mid))"
      using less.hyps [of mid ?m "Suc a"] xs by (cases "mid = []") (simp_all add: reverse_loop.simps)
    moreover have "upd ?m (Suc a) (rev mid) = upd m a (rev xs)"
      using xs by (simp add: upd_snoc fun_upd_twist upd_apply fun_eq_iff)
    ultimately show ?thesis using at xs by (subst reverse_loop.simps) simp
  qed
qed

lemma dec_0: "dec 0 = [48]"
  by (subst dec_unfold) simp

lemma length_dec_le: "n < 10 ^ k \<Longrightarrow> 0 < k \<Longrightarrow> length (dec n) \<le> k"
proof -
  assume n: "n < 10 ^ k" and "0 < k"
  let ?l = "length (digits 10 n)"
  from length_digits_bounds [of 10 n] consider "?l = 1" | "(10::nat) ^ (?l - 1) \<le> n" by auto
  then show ?thesis
  proof cases
    case 2
    from 2 n have "(10::nat) ^ (?l - 1) < 10 ^ k" by (rule order_le_less_trans)
    then show ?thesis using power_less_imp_less_exp [of 10 "?l - 1" k] by simp
  qed (use \<open>0 < k\<close> in simp)
qed

lemma length_sdec: "INT_MIN \<le> n \<Longrightarrow> n \<le> INT_MAX \<Longrightarrow> length (sdec n) \<le> 11"
  using length_dec_le [of "nat \<bar>n\<bar>" 10] by (auto simp: sdec_def nat_less_iff)

lemma reverse_last:
  assumes "0 < k" "s = rev (dec k)"
  shows "reverse_loop (upd m a (s @ [0])) a (a + length s - 1) = Some (upd m a (dec k @ [0]))"
proof -
  have "s \<noteq> []" using assms(2) dec_unfold [of k] by simp
  moreover have "bytes_at (upd m a (s @ [0])) a (s @ [0])" by (rule bytes_at_upd)
  then have "bytes_at (upd m a (s @ [0])) a s" by (simp only: bytes_at_append)
  ultimately have "reverse_loop (upd m a (s @ [0])) a (a + length s - 1) =
      Some (upd (upd m a (s @ [0])) a (rev s))" by (rule reverse_loop_bytes [rotated])
  also have "upd (upd m a (s @ [0])) a (rev s) = upd m a (rev s @ [0])"
    by (intro ext) (auto simp: upd_apply nth_append)
  finally show ?thesis using assms(2) by simp
qed

lemma itoa_sdec:
  assumes "INT_MIN \<le> n" "n \<le> INT_MAX" "mapped m p (Suc (length (sdec n)))" "p \<noteq> 0" "12 \<le> sz"
  shows "itoa m p sz n = Some (length (sdec n), upd m p (sdec n @ [0]))"
proof -
  consider "n = 0" | "0 < n" | "n < 0" by linarith
  then show ?thesis
  proof cases
    case 1
    with assms show ?thesis
      by (auto simp: itoa_def sdec_def dec_0 itoa_digits.simps reverse_loop.simps)
  next
    case 2
    then obtain k where k: "n = int k" "0 < k" by (metis zero_less_imp_eq_int)
    then have sd: "sdec n = dec k" by (simp add: sdec_def)
    with assms(3) have mp: "mapped m p (length (dec k))" "mapped m (p + length (dec k)) 1"
      using mapped_add [of m p "length (dec k)" 1] by simp_all
    have "p + length (dec k) \<in> dom (upd m p (rev (dec k)))"
      using mapped_upd [OF mp(2), of p "rev (dec k)"] by auto
    with k sd assms(4,5) itoa_digits_neg [OF k(2) mp(1)]
      reverse_last [OF k(2) refl, of m p] show ?thesis
      by (simp add: itoa_def upd_snoc)
  next
    case 3
    then obtain k where k: "n = - int k" "0 < k" by (metis minus_minus neg_0_less_iff_less zero_less_imp_eq_int)
    then have sd: "sdec n = 45 # dec k" by (simp add: sdec_def)
    let ?m = "m(p \<mapsto> 45)"
    have p: "p \<in> dom m" using assms(3) by auto
    have "mapped ?m (Suc p) (length (dec k) + 1)"
      using assms(3) sd by (intro mapped_fun_upd) simp
    then have mp: "mapped ?m (Suc p) (length (dec k))" "mapped ?m (Suc p + length (dec k)) 1"
      by (simp_all only: mapped_add)
    have "Suc p + length (dec k) \<in> dom (upd ?m (Suc p) (rev (dec k)))"
      using mapped_upd [OF mp(2), of "Suc p" "rev (dec k)"] by auto
    with p k sd assms(4,5) itoa_digits_neg [OF k(2) mp(1)]
      reverse_last [OF k(2) refl, of ?m "Suc p"] show ?thesis
      by (simp add: itoa_def upd_snoc)
  qed
qed

section \<open>strtol: lemmas\<close>

text \<open>The value of a digit character, and 99 for other characters.\<close>

definition dval :: "byte \<Rightarrow> int" where
  "dval c = (if 48 \<le> c \<and> c \<le> 57 then uint c - 48
     else if 65 \<le> c \<and> c \<le> 90 then uint c - 55
     else if 97 \<le> c \<and> c \<le> 122 then uint c - 87 else 99)"

lemma truth_SomeD: "truth r = Some b \<Longrightarrow> \<exists>i. r = Some i \<and> (i \<noteq> 0 \<longleftrightarrow> b)"
  by (cases r) auto

lemma schar_lower:
  assumes "ascii c"
  shows "schar (lower_char c) = (if 65 \<le> c \<and> c \<le> 90 then uint c + 32 else uint c)"
proof (cases "65 \<le> c \<and> c \<le> 90")
  case True
  then have u: "uint (c + 32) = uint c + 32"
    by (simp add: uint_word_ariths)
  with True have "ascii (c + 32)" by (simp add: ascii_def word_less_def)
  with True u show ?thesis by (simp add: lower_char_alt schar_ascii)
next
  case False
  then have "lower_char c = c" by (auto simp: lower_char_alt)
  with assms False show ?thesis by (simp only: schar_ascii if_False)
qed

lemma strto_stops_ascii:
  assumes "ascii c" "2 \<le> base" "base \<le> 36"
  shows "strto_stops base c = Some (\<not> dval c < base)"
proof -
  from isdigit_char [OF assms(1)] obtain d where
    d: "isdigit (schar c) = Some d" "d \<noteq> 0 \<longleftrightarrow> is_digit c" by (auto dest: truth_SomeD)
  from isalnum_char [OF assms(1)] obtain a where
    a: "isalnum (schar c) = Some a" "a \<noteq> 0 \<longleftrightarrow> is_alnum c" by (auto dest: truth_SomeD)
  show ?thesis using assms d a
    by (auto simp: strto_stops_def Let_def dval_def is_digit_def is_alnum_def schar_ascii schar_lower)
qed

lemma strto_step_value:
  assumes "ascii c" "dval c < 36"
  shows "(if schar (lower_char c) \<ge> 97 then wrap (i * b + (schar (lower_char c) - 97) + 10)
      else wrap (i * b + schar c - 48)) = wrap (i * b + dval c)"
proof -
  have u: "48 \<le> c \<longleftrightarrow> 48 \<le> uint c" "c \<le> 57 \<longleftrightarrow> uint c \<le> 57" "65 \<le> c \<longleftrightarrow> 65 \<le> uint c"
    "c \<le> 90 \<longleftrightarrow> uint c \<le> 90" "97 \<le> c \<longleftrightarrow> 97 \<le> uint c" "c \<le> 122 \<longleftrightarrow> uint c \<le> 122"
    by (simp_all add: word_le_def)
  consider "48 \<le> uint c" "uint c \<le> 57" | "65 \<le> uint c" "uint c \<le> 90" | "97 \<le> uint c" "uint c \<le> 122"
    using assms(2) unfolding dval_def u by (cases "48 \<le> uint c \<and> uint c \<le> 57"; cases "65 \<le> uint c \<and> uint c \<le> 90";
      cases "97 \<le> uint c \<and> uint c \<le> 122") simp_all
  then show ?thesis
    unfolding schar_lower [OF assms(1)] schar_ascii [OF assms(1)] dval_def u
    by cases (simp_all add: algebra_simps)
qed

definition digit_run :: "int \<Rightarrow> byte list \<Rightarrow> byte list \<Rightarrow> bool" where
  "digit_run b ds rest \<longleftrightarrow> (\<forall>c \<in> set ds. ascii c \<and> dval c < b) \<and>
     (rest = [] \<or> ascii (hd rest) \<and> b \<le> dval (hd rest))"

lemma strto_loop_cstr:
  assumes "cstr m p (ds @ rest)" "digit_run b ds rest" "2 \<le> b" "b \<le> 36"
  shows "strto_loop wrap m p b i =
    Some (foldl (\<lambda>i d. wrap (i * b + d)) i (map dval ds), p + length ds)"
  using assms(1,2)
proof (induction ds arbitrary: p i)
  case Nil
  show ?case
  proof (cases rest)
    case Nil
    with Nil.prems show ?thesis by (subst strto_loop.simps) simp
  next
    case (Cons c r)
    with Nil.prems assms(3,4) show ?thesis
      by (subst strto_loop.simps) (auto simp: digit_run_def strto_stops_ascii)
  qed
next
  case (Cons c ds)
  then have c: "m p = Some c" "c \<noteq> 0" "ascii c" "dval c < b" by (auto simp: digit_run_def)
  have "strto_loop wrap m (Suc p) b (wrap (i * b + dval c)) =
      Some (foldl (\<lambda>i d. wrap (i * b + d)) (wrap (i * b + dval c)) (map dval ds), Suc p + length ds)"
    using Cons.prems by (intro Cons.IH) (auto simp: digit_run_def)
  moreover have "dval c < 36" using c(4) assms(4) by simp
  ultimately show ?case using c assms(3,4)
    by (subst strto_loop.simps) (simp add: strto_stops_ascii strto_step_value Let_def)
qed

lemma skip_space_cstr:
  assumes "cstr m p (ws @ rest)" "\<forall>c \<in> set ws. is_space c" "rest \<noteq> []" "ascii (hd rest)"
    "\<not> is_space (hd rest)"
  shows "skip_space m p = Some (p + length ws)"
  using assms(1,2)
proof (induction ws arbitrary: p)
  case Nil
  from isspace_char [OF assms(4)] obtain r where "isspace (schar (hd rest)) = Some r" "r \<noteq> 0 \<longleftrightarrow> is_space (hd rest)"
    by (auto dest: truth_SomeD)
  with Nil assms(3-5) show ?case by (cases rest) (subst skip_space.simps, auto)+
next
  case (Cons c ws)
  then have "ascii c" by (auto simp: is_space_def ascii_def word_less_def)
  from isspace_char [OF this] Cons.prems(2) obtain r where "isspace (schar c) = Some r" "r \<noteq> 0"
    by (auto dest: truth_SomeD)
  with Cons show ?case by (subst skip_space.simps) auto
qed

text \<open>
  The contract of a wrapping conversion: it may be applied at once or after every step of a
  sum of products.
\<close>

locale wrapping =
  fixes wrap :: "int \<Rightarrow> int"
  assumes wrap_step: "wrap (wrap x * b + d) = wrap (x * b + d)"
    and wrap_zero: "wrap 0 = 0"
begin

lemma wrap_wrap: "wrap (wrap x) = wrap x"
  using wrap_step [of x 1 0] by simp

lemma wrap_minus: "wrap (- wrap x) = wrap (- x)"
  using wrap_step [of x "-1" 0] by simp

lemma wrap_foldl: "wrap (foldl (\<lambda>i d. i * b + d) (wrap x) ds) = wrap (foldl (\<lambda>i d. i * b + d) x ds)"
proof (induction ds arbitrary: x)
  case (Cons d ds)
  have "wrap (foldl (\<lambda>i d. i * b + d) (wrap x * b + d) ds) =
      wrap (foldl (\<lambda>i d. i * b + d) (wrap (wrap x * b + d)) ds)"
    by (rule Cons.IH [symmetric])
  also have "\<dots> = wrap (foldl (\<lambda>i d. i * b + d) (x * b + d) ds)"
    unfolding wrap_step by (rule Cons.IH)
  finally show ?case by simp
qed (simp add: wrap_wrap)

lemma foldl_wrap:
  "foldl (\<lambda>i d. wrap (i * b + d)) (wrap x) ds = wrap (foldl (\<lambda>i d. i * b + d) x ds)"
proof (induction ds arbitrary: x)
  case (Cons d ds)
  show ?case using Cons.IH [of "x * b + d"] by (simp add: wrap_step)
qed simp

end

lemma signed_take_bit_step:
  "signed_take_bit n (signed_take_bit n x * b + d) = signed_take_bit n (x * b + d :: int)"
proof -
  have "signed_take_bit n x mod 2 ^ Suc n = x mod 2 ^ Suc n"
    using take_bit_signed_take_bit [of "Suc n" n x] by (simp add: take_bit_eq_mod)
  then have "(signed_take_bit n x * b + d) mod 2 ^ Suc n = (x * b + d) mod 2 ^ Suc n"
    by (intro mod_add_cong mod_mult_cong refl)
  then show ?thesis
    unfolding signed_take_bit_eq_iff_take_bit_eq take_bit_eq_mod .
qed

interpretation wrap32: wrapping int32
  by unfold_locales (simp_all add: int32_def signed_take_bit_step)

interpretation wrap64: wrapping int64
  by unfold_locales (simp_all add: int64_def signed_take_bit_step)

context wrapping
begin

lemma strto_cstr:
  assumes s: "cstr m p (ws @ sg @ ds @ rest)"
    and ws: "\<forall>c \<in> set ws. is_space c" and sg: "sg \<in> {[], [45], [43]}"
    and ds: "ds \<noteq> []" "digit_run b ds rest"
    and b: "2 \<le> b" "b \<le> 36" "b = 16 \<longrightarrow> \<not> (\<exists>r. ds @ rest = 48 # 120 # r)" and "p \<noteq> 0"
  shows "strto wrap m p b =
    Some (wrap ((if sg = [45] then -1 else 1) * foldl (\<lambda>i d. i * b + d) 0 (map dval ds)),
      p + length (ws @ sg @ ds))"
proof -
  let ?v = "foldl (\<lambda>i d. i * b + d) 0 (map dval ds)"
  let ?p1 = "p + length ws" and ?p2 = "p + length ws + length sg"
  from ds obtain d ds' where d: "ds = d # ds'" "ascii d" "dval d < b" by (cases ds) (auto simp: digit_run_def)
  have dd: "\<not> is_space d" "d \<noteq> 45" "d \<noteq> 43"
    using d(3) b(2) by (auto simp: dval_def is_space_def uint_eq_numeral split: if_splits)
  have hd: "sg @ ds @ rest \<noteq> []" "ascii (hd (sg @ ds @ rest))" "\<not> is_space (hd (sg @ ds @ rest))"
    using sg d dd by (auto simp: ascii_def is_space_def)
  have 1: "skip_space m p = Some ?p1" by (rule skip_space_cstr [OF s ws hd])
  have s1: "cstr m ?p1 (sg @ ds @ rest)" using s by (simp add: cstr_append)
  have s2: "cstr m ?p2 (ds @ rest)" using s1 by (simp add: cstr_append)
  have 2: "strto_sign m ?p1 = Some (sg = [45], ?p2)"
    using s1 sg d dd by (auto simp: strto_sign_def)
  have 3: "strto_base m ?p2 b = Some (b, ?p2)"
  proof (cases "b = 16 \<and> d = 48")
    case True
    with s2 d have "m ?p2 = Some 48" "cstr m (Suc ?p2) (ds' @ rest)" by auto
    moreover obtain c where "m (Suc ?p2) = Some c" "c \<noteq> 120"
      using calculation(2) b(3) True d by (cases "ds' @ rest") auto
    ultimately show ?thesis using True by (simp add: strto_base_def)
  next
    case False
    with s2 d b(1) show ?thesis by (auto simp: strto_base_def)
  qed
  have 4: "strto_loop wrap m ?p2 b 0 = Some (wrap ?v, ?p2 + length ds)"
    using strto_loop_cstr [OF s2 ds(2) b(1,2), of wrap 0] foldl_wrap [of b 0 "map dval ds"]
    by (simp add: wrap_zero)
  from 1 2 3 4 \<open>p \<noteq> 0\<close> b(1,2) show ?thesis
    by (simp add: strto_def wrap_minus add.assoc)
qed

end

lemmas strtol_cstr = wrap32.strto_cstr [folded strtol_def]
lemmas strtoll_cstr = wrap64.strto_cstr [folded strtoll_def]

section \<open>Text and back\<close>

lemma uint_digit: "d < 10 \<Longrightarrow> uint (word_of_nat (48 + d) :: byte) = 48 + int d"
proof -
  assume "d < 10"
  then have "unat (word_of_nat (48 + d) :: byte) = 48 + d"
    by (simp only: unat_of_nat len_of_numeral_defs) (simp add: take_bit_eq_mod)
  then show ?thesis by (simp only: uint_nat)
qed

lemma dval_digit: "d < 10 \<Longrightarrow> dval (word_of_nat (48 + d)) = int d"
  using uint_digit [of d] by (simp only: dval_def word_le_def) simp

lemma dval_dec: "map dval (dec n) = map int (digits 10 n)"
  unfolding dec_def map_map
proof (rule map_cong [OF refl])
  fix d assume "d \<in> set (digits 10 n)"
  then have "d < 10" by (intro digits_less) simp_all
  then show "(dval \<circ> (\<lambda>d. word_of_nat (48 + d))) d = int d" using dval_digit by simp
qed

lemma dec_run: "digit_run 10 (dec n) []"
  unfolding digit_run_def
proof (intro conjI ballI)
  fix c assume c: "c \<in> set (dec n)"
  then have "dval c \<in> set (map dval (dec n))" by simp
  with digits_less [of 10 _ n] show d: "dval c < 10" unfolding dval_dec by auto
  then show "ascii c" by (auto simp: dval_def ascii_def word_less_def split: if_splits)
qed simp

lemma foldl_int: "foldl (\<lambda>i d. i * 10 + d) (int k) (map int ds) = int (foldl (\<lambda>i d. i * 10 + d) k ds)"
proof (induction ds arbitrary: k)
  case (Cons d ds)
  show ?case using Cons.IH [of "k * 10 + d"] by simp
qed simp

lemma dec_value: "foldl (\<lambda>i d. i * 10 + d) 0 (map dval (dec n)) = int n"
  using foldl_int [of 0 "digits 10 n"] foldl_digits [of 10 n] by (simp add: dval_dec)

lemma dec_nonzero: "0 \<notin> set (sdec i)"
proof
  assume "0 \<in> set (sdec i)"
  then have "0 \<in> set (dec (nat \<bar>i\<bar>))" by (auto simp: sdec_def split: if_splits)
  then show False using dec_run [of "nat \<bar>i\<bar>"] by (auto simp: digit_run_def dval_def)
qed

lemma dec_nonempty [simp]: "dec n \<noteq> []"
  by (simp add: dec_def)

lemma strtol_sdec:
  assumes "cstr m p (sdec i)" "p \<noteq> 0" "INT_MIN \<le> i" "i \<le> INT_MAX"
  shows "strtol m p 10 = Some (i, p + length (sdec i))"
proof (cases "i < 0")
  case True
  then have "cstr m p ([] @ [45] @ dec (nat (- i)) @ [])" using assms(1) by (simp add: sdec_def)
  from strtol_cstr [OF this _ _ dec_nonempty dec_run] True assms(2-4) show ?thesis
    by (simp add: dec_value sdec_def)
next
  case False
  then have "cstr m p ([] @ [] @ dec (nat i) @ [])" using assms(1) by (simp add: sdec_def)
  from strtol_cstr [OF this _ _ dec_nonempty dec_run] False assms(2-4) show ?thesis
    by (simp add: dec_value sdec_def)
qed

section \<open>Properties\<close>

text \<open>the width functions return the number of characters of the number's text: the digits in
  the given base, and for the signed ones a leading minus sign. The most negative \<open>int\<close> is the
  exception: its negation wraps and the width is 2.\<close>

theorem width_counts_digits:
  assumes "2 \<le> b" "INT_MIN \<le> i" "i \<le> INT_MAX"
  shows "getuwidth n b = Some (length (digits b n)) \<and>
    getnwidth i = (if i = INT_MIN then 2 else length (sdec i))"
proof -
  have "int32 (- INT_MIN) = INT_MIN" by (simp add: int32_def)
  then have "getnwidth i = length (sdec i)" if "i \<noteq> INT_MIN"
    using that assms(2,3) nwidth_digits [of "- i" 2] nwidth_digits [of i 1]
    by (auto simp: getnwidth_def sdec_def)
  moreover have "getnwidth INT_MIN = 2"
    by (simp add: getnwidth_def int32_def nwidth_loop.simps)
  ultimately show ?thesis using uwidth_digits [OF assms(1), of n] by (simp add: getuwidth_def)
qed

theorem width_counts_digits_witness: "getuwidth 255 16 = Some (length (digits 16 255)) \<and> getnwidth (-42) = length (sdec (-42))"
  using width_counts_digits [of 16 "-42" 255] by simp

text \<open>C29: \<open>atoi\<close> reads back what \<open>itoa\<close> wrote, for every \<open>int\<close> including the most negative one; the
  text has at most eleven characters and nothing behind its terminator is touched.\<close>

theorem atoi_itoa:
  assumes "INT_MIN \<le> i" "i \<le> INT_MAX" "mapped m p 12" "p \<noteq> 0" "12 \<le> sz"
  shows "\<exists>n m'. itoa m p sz i = Some (n, m') \<and> atoi m' p = Some i \<and> n \<le> 11 \<and>
    (\<forall>a. a < p \<or> p + 12 \<le> a \<longrightarrow> m' a = m a)"
proof -
  have l: "length (sdec i) \<le> 11" using length_sdec assms(1,2) by simp
  have "mapped m p (Suc (length (sdec i)))" by (rule mapped_le [OF assms(3)]) (use l in simp)
  from itoa_sdec [OF assms(1,2) this assms(4,5)]
  have it: "itoa m p sz i = Some (length (sdec i), upd m p (sdec i @ [0]))" .
  have "cstr (upd m p (sdec i @ [0])) p (sdec i)" by (rule cstr_upd [OF dec_nonzero])
  from strtol_sdec [OF this assms(4,1,2)]
  have "atoi (upd m p (sdec i @ [0])) p = Some i" using assms(1,2) by (simp add: atoi_def)
  with it l show ?thesis by (auto simp: upd_apply)
qed

theorem atoi_itoa_witness:
  "\<exists>n m'. itoa (mem_of 8 (replicate 12 0)) 8 12 (-305) = Some (n, m') \<and> atoi m' 8 = Some (-305)"
  using atoi_itoa [of "-305" "mem_of 8 (replicate 12 0)" 8 12]
  by (auto simp: mem_of_def mapped_iff upd_apply)

text \<open>\<open>strtol\<close> on white space, an optional sign, a run of digits of the base and a text that
  does not continue the run: the value is the signed value of the digits modulo the width of
  \<open>long\<close>, the end pointer is behind the last digit.\<close>

theorem strtol_value:
  assumes "cstr m p (ws @ sg @ ds @ rest)" "\<forall>c \<in> set ws. is_space c" "sg \<in> {[], [45], [43]}"
    "ds \<noteq> []" "digit_run b ds rest" "2 \<le> b" "b \<le> 36" "b = 16 \<longrightarrow> \<not> (\<exists>r. ds @ rest = 48 # 120 # r)"
    "p \<noteq> 0"
  shows "strtol m p b =
    Some (int32 ((if sg = [45] then -1 else 1) * foldl (\<lambda>i d. i * b + d) 0 (map dval ds)),
      p + length (ws @ sg @ ds))"
  by (rule strtol_cstr [OF assms])

theorem strtol_value_witness:
  "strtol (mem_of 8 [32, 45, 49, 50, 120, 0]) 8 10 = Some (-12, 12)"
  using strtol_value [of "mem_of 8 [32, 45, 49, 50, 120, 0]" 8 "[32]" "[45]" "[49, 50]" "[120]" 10]
  by (simp add: mem_of_def is_space_def digit_run_def ascii_def dval_def)

end
