(* ===== verification/Memops.thy ===== *)
theory Memops
  imports StrWrite
begin

text \<open>
  \<open>memcpy\<close>, \<open>memmove\<close> and \<open>memset\<close> of \<open>lib/basic/arch/x86\<close> for i586, where a \<open>ulong\<close> has
  four bytes, and the \<open>memmove\<close> of the eco32 and mmix ports. The x86 routines align, copy
  unrolled blocks of sixteen words, single words and the remaining bytes; the lemmas show that all
  of this is one update of the destination.
\<close>

section \<open>Words in memory\<close>

type_synonym ulong = "32 word"

abbreviation ULSZ :: nat where "ULSZ \<equiv> 4"

definition load_ulong :: "mem \<Rightarrow> addr \<Rightarrow> ulong option" where
  "load_ulong m p = do {
     b0 \<leftarrow> m p; b1 \<leftarrow> m (p + 1); b2 \<leftarrow> m (p + 2); b3 \<leftarrow> m (p + 3);
     Some (ucast b0 OR push_bit 8 (ucast b1) OR push_bit 16 (ucast b2) OR push_bit 24 (ucast b3)) }"

definition store_ulong :: "mem \<Rightarrow> addr \<Rightarrow> ulong \<Rightarrow> mem option" where
  "store_ulong m p w = do {
     m1 \<leftarrow> store m p (ucast w);
     m2 \<leftarrow> store m1 (p + 1) (ucast (drop_bit 8 w));
     m3 \<leftarrow> store m2 (p + 2) (ucast (drop_bit 16 w));
     store m3 (p + 3) (ucast (drop_bit 24 w)) }"

section \<open>memcpy\<close>

text \<open>\<open>while(len > 0 && (uintptr_t)bdest % sizeof(ulong))\<close>.\<close>

fun memcpy_align :: "mem \<Rightarrow> addr \<Rightarrow> addr \<Rightarrow> nat \<Rightarrow> (mem \<times> addr \<times> addr \<times> nat) option" where
  "memcpy_align m bdest bsrc 0 = Some (m, bdest, bsrc, 0)"
| "memcpy_align m bdest bsrc (Suc len) =
     (if bdest mod ULSZ \<noteq> 0 then do {
        c \<leftarrow> m bsrc;
        m' \<leftarrow> store m bdest c;
        memcpy_align m' (bdest + 1) (bsrc + 1) len }
      else Some (m, bdest, bsrc, Suc len))"

text \<open>\<open>n\<close> assignments \<open>*(ddest + i) = *(dsrc + i)\<close> one after the other.\<close>

fun copy_words :: "mem \<Rightarrow> addr \<Rightarrow> addr \<Rightarrow> nat \<Rightarrow> mem option" where
  "copy_words m ddest dsrc 0 = Some m"
| "copy_words m ddest dsrc (Suc n) = do {
     w \<leftarrow> load_ulong m dsrc;
     m' \<leftarrow> store_ulong m ddest w;
     copy_words m' (ddest + ULSZ) (dsrc + ULSZ) n }"

function memcpy_blocks :: "mem \<Rightarrow> addr \<Rightarrow> addr \<Rightarrow> nat \<Rightarrow> (mem \<times> addr \<times> addr \<times> nat) option" where
  "memcpy_blocks m ddest dsrc len =
     (if len \<ge> ULSZ * 16 then do {
        m' \<leftarrow> copy_words m ddest dsrc 16;
        memcpy_blocks m' (ddest + ULSZ * 16) (dsrc + ULSZ * 16) (len - ULSZ * 16) }
      else Some (m, ddest, dsrc, len))"
  by pat_completeness auto
termination by (relation "measure (\<lambda>(m, d, s, len). len)") auto

function memcpy_words :: "mem \<Rightarrow> addr \<Rightarrow> addr \<Rightarrow> nat \<Rightarrow> (mem \<times> addr \<times> addr \<times> nat) option" where
  "memcpy_words m ddest dsrc len =
     (if len \<ge> ULSZ then do {
        w \<leftarrow> load_ulong m dsrc;
        m' \<leftarrow> store_ulong m ddest w;
        memcpy_words m' (ddest + ULSZ) (dsrc + ULSZ) (len - ULSZ) }
      else Some (m, ddest, dsrc, len))"
  by pat_completeness auto
termination by (relation "measure (\<lambda>(m, d, s, len). len)") auto

declare memcpy_blocks.simps [simp del] memcpy_words.simps [simp del]

fun memcpy_bytes :: "mem \<Rightarrow> addr \<Rightarrow> addr \<Rightarrow> nat \<Rightarrow> mem option" where
  "memcpy_bytes m bdest bsrc 0 = Some m"
| "memcpy_bytes m bdest bsrc (Suc len) = do {
     c \<leftarrow> m bsrc;
     m' \<leftarrow> store m bdest c;
     memcpy_bytes m' (bdest + 1) (bsrc + 1) len }"

definition memcpy :: "mem \<Rightarrow> addr \<Rightarrow> addr \<Rightarrow> nat \<Rightarrow> (addr \<times> mem) option" where
  "memcpy m dest src len = do {
     (m1, d1, s1, l1) \<leftarrow>
       (if dest mod ULSZ = src mod ULSZ then memcpy_align m dest src len
        else Some (m, dest, src, len));
     (m2, d2, s2, l2) \<leftarrow> memcpy_blocks m1 d1 s1 l1;
     (m3, d3, s3, l3) \<leftarrow> memcpy_words m2 d2 s2 l2;
     m4 \<leftarrow> memcpy_bytes m3 d3 s3 l3;
     Some (dest, m4) }"

section \<open>memmove\<close>

text \<open>The x86 version, from the end: words first, then bytes.\<close>

function memmove_words :: "mem \<Rightarrow> addr \<Rightarrow> addr \<Rightarrow> nat \<Rightarrow> (mem \<times> addr \<times> addr \<times> nat) option" where
  "memmove_words m ddest dsrc count =
     (if count \<ge> ULSZ then do {
        w \<leftarrow> load_ulong m dsrc;
        m' \<leftarrow> store_ulong m ddest w;
        memmove_words m' (ddest - ULSZ) (dsrc - ULSZ) (count - ULSZ) }
      else Some (m, ddest, dsrc, count))"
  by pat_completeness auto
termination by (relation "measure (\<lambda>(m, d, s, count). count)") auto

declare memmove_words.simps [simp del]

fun memmove_bytes :: "mem \<Rightarrow> addr \<Rightarrow> addr \<Rightarrow> nat \<Rightarrow> mem option" where
  "memmove_bytes m d s 0 = Some m"
| "memmove_bytes m d s (Suc count) = do {
     c \<leftarrow> m s;
     m' \<leftarrow> store m d c;
     memmove_bytes m' (d - 1) (s - 1) count }"

definition memmove :: "mem \<Rightarrow> addr \<Rightarrow> addr \<Rightarrow> nat \<Rightarrow> (addr \<times> mem) option" where
  "memmove m dest src count =
     (if dest = src \<or> count = 0 then Some (dest, m)
      else if dest > src then do {
        (m1, d1, s1, c1) \<leftarrow> memmove_words m (dest + count - ULSZ) (src + count - ULSZ) count;
        m2 \<leftarrow> memmove_bytes m1 (d1 + (ULSZ - 1)) (s1 + (ULSZ - 1)) c1;
        Some (dest, m2) }
      else do {
        (r, m') \<leftarrow> memcpy m dest src count;
        Some (dest, m') })"

text \<open>The version of the eco32 and mmix ports: bytes only.\<close>

definition memmove_ecommix ::
  "(mem \<Rightarrow> addr \<Rightarrow> addr \<Rightarrow> nat \<Rightarrow> (addr \<times> mem) option) \<Rightarrow>
   mem \<Rightarrow> addr \<Rightarrow> addr \<Rightarrow> nat \<Rightarrow> (addr \<times> mem) option" where
  "memmove_ecommix memcpy' m dest src count =
     (if dest = src then Some (dest, m)
      else if dest > src then do {
        m' \<leftarrow> memmove_bytes m (dest + count - 1) (src + count - 1) count;
        Some (dest, m') }
      else do {
        (r, m') \<leftarrow> memcpy' m dest src count;
        Some (dest, m') })"

section \<open>memset\<close>

fun memset_align :: "mem \<Rightarrow> addr \<Rightarrow> int \<Rightarrow> nat \<Rightarrow> (mem \<times> addr \<times> nat) option" where
  "memset_align m baddr val 0 = Some (m, baddr, 0)"
| "memset_align m baddr val (Suc count) =
     (if baddr mod ULSZ \<noteq> 0 then do {
        m' \<leftarrow> store m baddr (to_char val);
        memset_align m' (baddr + 1) val count }
      else Some (m, baddr, Suc count))"

definition memset_dwval :: "int \<Rightarrow> ulong" where
  "memset_dwval val =
     push_bit 24 (word_of_int val) OR push_bit 16 (word_of_int val) OR
     push_bit 8 (word_of_int val) OR word_of_int val"

fun set_words :: "mem \<Rightarrow> addr \<Rightarrow> ulong \<Rightarrow> nat \<Rightarrow> mem option" where
  "set_words m dwaddr w 0 = Some m"
| "set_words m dwaddr w (Suc n) = do {
     m' \<leftarrow> store_ulong m dwaddr w;
     set_words m' (dwaddr + ULSZ) w n }"

function memset_blocks :: "mem \<Rightarrow> addr \<Rightarrow> ulong \<Rightarrow> nat \<Rightarrow> (mem \<times> addr \<times> nat) option" where
  "memset_blocks m dwaddr w count =
     (if count \<ge> ULSZ * 16 then do {
        m' \<leftarrow> set_words m dwaddr w 16;
        memset_blocks m' (dwaddr + ULSZ * 16) w (count - ULSZ * 16) }
      else Some (m, dwaddr, count))"
  by pat_completeness auto
termination by (relation "measure (\<lambda>(m, a, w, count). count)") auto

function memset_words :: "mem \<Rightarrow> addr \<Rightarrow> ulong \<Rightarrow> nat \<Rightarrow> (mem \<times> addr \<times> nat) option" where
  "memset_words m dwaddr w count =
     (if count \<ge> ULSZ then do {
        m' \<leftarrow> store_ulong m dwaddr w;
        memset_words m' (dwaddr + ULSZ) w (count - ULSZ) }
      else Some (m, dwaddr, count))"
  by pat_completeness auto
termination by (relation "measure (\<lambda>(m, a, w, count). count)") auto

declare memset_blocks.simps [simp del] memset_words.simps [simp del]

fun memset_bytes :: "mem \<Rightarrow> addr \<Rightarrow> int \<Rightarrow> nat \<Rightarrow> mem option" where
  "memset_bytes m baddr val 0 = Some m"
| "memset_bytes m baddr val (Suc count) = do {
     m' \<leftarrow> store m baddr (to_char val);
     memset_bytes m' (baddr + 1) val count }"

definition memset :: "mem \<Rightarrow> addr \<Rightarrow> int \<Rightarrow> nat \<Rightarrow> (addr \<times> mem) option" where
  "memset m addr val count = do {
     (m1, a1, c1) \<leftarrow> memset_align m addr val count;
     (m2, a2, c2) \<leftarrow> memset_blocks m1 a1 (memset_dwval val) c1;
     (m3, a3, c3) \<leftarrow> memset_words m2 a2 (memset_dwval val) c2;
     m4 \<leftarrow> memset_bytes m3 a3 val c3;
     Some (addr, m4) }"

section \<open>Words: lemmas\<close>

lemma byte_bit_beyond [simp]: "8 \<le> n \<Longrightarrow> \<not> bit (b :: byte) n"
  using bit_imp_le_length [of b n] by auto

lemma word_bytes [simp]:
  fixes b0 b1 b2 b3 :: byte
  defines "w \<equiv> (ucast b0 OR push_bit 8 (ucast b1) OR push_bit 16 (ucast b2) OR push_bit 24 (ucast b3)) :: ulong"
  shows "ucast w = b0" "ucast (drop_bit 8 w) = b1" "ucast (drop_bit 16 w) = b2"
    "ucast (drop_bit 24 w) = b3"
  unfolding w_def by (auto intro!: bit_word_eqI simp: bit_simps)

lemma word_copy:
  assumes "bytes_at m s bs" "length bs = 4" "mapped m d 4"
  obtains w where "load_ulong m s = Some w" "store_ulong m d w = Some (upd m d bs)"
proof -
  from assms(2) obtain b0 b1 b2 b3 where bs: "bs = [b0, b1, b2, b3]"
    by (auto simp: eval_nat_numeral length_Suc_conv)
  let ?w = "(ucast b0 OR push_bit 8 (ucast b1) OR push_bit 16 (ucast b2) OR push_bit 24 (ucast b3)) :: ulong"
  have "load_ulong m s = Some ?w"
    using assms(1) bs by (simp add: load_ulong_def eval_nat_numeral)
  moreover have "store_ulong m d ?w = Some (upd m d bs)"
  proof -
    have "d \<in> dom m" "d + 1 \<in> dom m" "d + 2 \<in> dom m" "d + 3 \<in> dom m"
      using assms(3) by (auto simp: mapped_iff dom_def dest: spec [of _ 0] spec [of _ 1] spec [of _ 2] spec [of _ 3])
    then show ?thesis
      unfolding store_ulong_def bs word_bytes by (simp add: eval_nat_numeral)
  qed
  ultimately show thesis by (rule that)
qed

section \<open>Forward copies: lemmas\<close>

text \<open>A forward copy of \<open>bs\<close> from \<open>s\<close> to \<open>d\<close> may start: no byte is overwritten before it is read.\<close>

definition fwd_ok :: "mem \<Rightarrow> addr \<Rightarrow> addr \<Rightarrow> byte list \<Rightarrow> bool" where
  "fwd_ok m d s bs \<longleftrightarrow>
     bytes_at m s bs \<and> mapped m d (length bs) \<and> (d \<le> s \<or> s + length bs \<le> d)"

lemma fwd_ok_step:
  assumes "fwd_ok m d s bs" "k \<le> length bs"
  shows "fwd_ok (upd m d (take k bs)) (d + k) (s + k) (drop k bs)"
proof -
  have "bytes_at m s (take k bs @ drop k bs)" using assms(1) by (simp add: fwd_ok_def)
  then have "bytes_at m (s + k) (drop k bs)" using assms(2) by (simp only: bytes_at_append) simp
  moreover have "mapped m (d + k) (length bs - k)"
    using assms mapped_add [of m d k "length bs - k"] by (simp add: fwd_ok_def)
  ultimately show ?thesis
    using assms by (auto simp: fwd_ok_def mapped_upd bytes_at_upd_other)
qed

lemma fwd_ok_nil: "fwd_ok m d s [] \<Longrightarrow> upd m d [] = m"
  by simp

text \<open>A loop that has copied the first \<open>k\<close> bytes and returns the remaining work.\<close>

definition advances :: "(mem \<Rightarrow> addr \<Rightarrow> addr \<Rightarrow> nat \<Rightarrow> (mem \<times> addr \<times> addr \<times> nat) option) \<Rightarrow> bool" where
  "advances f \<longleftrightarrow> (\<forall>m d s bs. fwd_ok m d s bs \<longrightarrow>
     (\<exists>k \<le> length bs. f m d s (length bs) =
        Some (upd m d (take k bs), d + k, s + k, length bs - k)))"

lemma advancesE:
  assumes "advances f" "fwd_ok m d s bs"
  obtains k where "k \<le> length bs"
    "f m d s (length bs) = Some (upd m d (take k bs), d + k, s + k, length bs - k)"
    "fwd_ok (upd m d (take k bs)) (d + k) (s + k) (drop k bs)"
proof -
  from assms obtain k where "k \<le> length bs"
    "f m d s (length bs) = Some (upd m d (take k bs), d + k, s + k, length bs - k)"
    unfolding advances_def by blast
  then show thesis using that fwd_ok_step [OF assms(2)] by blast
qed

lemma upd_take_drop:
  "k \<le> length bs \<Longrightarrow> upd (upd m d (take k bs)) (d + k) (drop k bs) = upd m d bs"
  using upd_append [of m d "take k bs" "drop k bs"] by simp

lemma upd_take_take:
  "k \<le> length bs \<Longrightarrow>
   upd (upd m d (take k bs)) (d + k) (take j (drop k bs)) = upd m d (take (k + j) bs)"
  using upd_append [of m d "take k bs" "take j (drop k bs)"] by (simp add: take_add)

lemma advances_align: "advances memcpy_align"
  unfolding advances_def
proof (intro allI impI)
  fix m d s bs
  assume "fwd_ok m d s bs"
  then show "\<exists>k \<le> length bs. memcpy_align m d s (length bs) =
      Some (upd m d (take k bs), d + k, s + k, length bs - k)"
  proof (induction bs arbitrary: m d s)
    case (Cons b bs)
    show ?case
    proof (cases "d mod ULSZ = 0")
      case False
      have "fwd_ok (m(d \<mapsto> b)) (Suc d) (Suc s) bs" using fwd_ok_step [OF Cons.prems, of 1] by simp
      from Cons.IH [OF this] obtain k where
        "k \<le> length bs" "memcpy_align (m(d \<mapsto> b)) (Suc d) (Suc s) (length bs) =
           Some (upd (m(d \<mapsto> b)) (Suc d) (take k bs), Suc d + k, Suc s + k, length bs - k)"
        by blast
      with False Cons.prems show ?thesis
        by (intro exI [of _ "Suc k"]) (auto simp: fwd_ok_def)
    qed (auto intro: exI [of _ 0])
  qed simp
qed

lemma copy_words_fwd:
  "fwd_ok m d s bs \<Longrightarrow> 4 * n \<le> length bs \<Longrightarrow> copy_words m d s n = Some (upd m d (take (4 * n) bs))"
proof (induction n arbitrary: m d s bs)
  case (Suc n)
  then have l: "4 \<le> length bs" by simp
  have "bytes_at m s (take 4 bs @ drop 4 bs)" using Suc.prems(1) by (simp add: fwd_ok_def)
  then have "bytes_at m s (take 4 bs)" by (simp only: bytes_at_append)
  moreover have "mapped m d 4" using Suc.prems(1) l by (auto simp: fwd_ok_def intro: mapped_le)
  ultimately obtain w where w: "load_ulong m s = Some w" "store_ulong m d w = Some (upd m d (take 4 bs))"
    using word_copy [of m s "take 4 bs" d] l by auto
  have "copy_words (upd m d (take 4 bs)) (d + 4) (s + 4) n =
      Some (upd (upd m d (take 4 bs)) (d + 4) (take (4 * n) (drop 4 bs)))"
    using Suc.prems l by (intro Suc.IH fwd_ok_step) simp_all
  with w l show ?case by (simp add: upd_take_take)
qed simp

lemma word_fwd:
  assumes "fwd_ok m d s bs" "4 \<le> length bs"
  obtains w where "load_ulong m s = Some w" "store_ulong m d w = Some (upd m d (take 4 bs))"
  using copy_words_fwd [of m d s bs 1] assms by (auto simp: bind_eq_Some_conv)

lemma advances_words: "advances memcpy_words"
  unfolding advances_def
proof (intro allI impI)
  fix m d s bs
  assume "fwd_ok m d s bs"
  then show "\<exists>k \<le> length bs. memcpy_words m d s (length bs) =
      Some (upd m d (take k bs), d + k, s + k, length bs - k)"
  proof (induction "length bs" arbitrary: m d s bs rule: less_induct)
    case less
    show ?case
    proof (cases "4 \<le> length bs")
      case True
      from less.prems True obtain w where
        w: "load_ulong m s = Some w" "store_ulong m d w = Some (upd m d (take 4 bs))"
        by (rule word_fwd)
      have lt: "length (drop 4 bs) < length bs" using True by simp
      from less.hyps [OF lt fwd_ok_step [OF less.prems True]] obtain k where
        "k \<le> length (drop 4 bs)" "memcpy_words (upd m d (take 4 bs)) (d + 4) (s + 4) (length (drop 4 bs)) =
           Some (upd (upd m d (take 4 bs)) (d + 4) (take k (drop 4 bs)), d + 4 + k, s + 4 + k, length (drop 4 bs) - k)"
        by blast
      with w True show ?thesis
        by (intro exI [of _ "4 + k"]) (subst memcpy_words.simps, simp add: upd_take_take)
    next
      case False
      then show ?thesis by (intro exI [of _ 0]) (simp add: memcpy_words.simps)
    qed
  qed
qed

lemma advances_blocks: "advances memcpy_blocks"
  unfolding advances_def
proof (intro allI impI)
  fix m d s bs
  assume "fwd_ok m d s bs"
  then show "\<exists>k \<le> length bs. memcpy_blocks m d s (length bs) =
      Some (upd m d (take k bs), d + k, s + k, length bs - k)"
  proof (induction "length bs" arbitrary: m d s bs rule: less_induct)
    case less
    show ?case
    proof (cases "64 \<le> length bs")
      case True
      have w: "copy_words m d s 16 = Some (upd m d (take 64 bs))"
        using copy_words_fwd [OF less.prems, of 16] True by simp
      have lt: "length (drop 64 bs) < length bs" using True by simp
      from less.hyps [OF lt fwd_ok_step [OF less.prems True]] obtain k where
        "k \<le> length (drop 64 bs)" "memcpy_blocks (upd m d (take 64 bs)) (d + 64) (s + 64) (length (drop 64 bs)) =
           Some (upd (upd m d (take 64 bs)) (d + 64) (take k (drop 64 bs)), d + 64 + k, s + 64 + k, length (drop 64 bs) - k)"
        by blast
      with w True show ?thesis
        by (intro exI [of _ "64 + k"]) (subst memcpy_blocks.simps, simp add: upd_take_take)
    next
      case False
      then show ?thesis by (intro exI [of _ 0]) (simp add: memcpy_blocks.simps)
    qed
  qed
qed

lemma memcpy_bytes_fwd: "fwd_ok m d s bs \<Longrightarrow> memcpy_bytes m d s (length bs) = Some (upd m d bs)"
proof (induction bs arbitrary: m d s)
  case (Cons b bs)
  have "fwd_ok (m(d \<mapsto> b)) (Suc d) (Suc s) bs" using fwd_ok_step [OF Cons.prems, of 1] by simp
  then have "memcpy_bytes (m(d \<mapsto> b)) (Suc d) (Suc s) (length bs) = Some (upd (m(d \<mapsto> b)) (Suc d) bs)"
    by (rule Cons.IH)
  with Cons.prems show ?case by (auto simp: fwd_ok_def)
qed simp

lemma memcpy_fwd:
  assumes "fwd_ok m d s bs"
  shows "memcpy m d s (length bs) = Some (d, upd m d bs)"
proof -
  have "advances (\<lambda>m d s n. if d mod ULSZ = s mod ULSZ then memcpy_align m d s n else Some (m, d, s, n))"
    using advances_align unfolding advances_def by (auto intro: exI [of _ 0])
  from advancesE [OF this assms] obtain k1 where 1: "k1 \<le> length bs"
    "(if d mod ULSZ = s mod ULSZ then memcpy_align m d s (length bs) else Some (m, d, s, length bs)) =
       Some (upd m d (take k1 bs), d + k1, s + k1, length bs - k1)"
    "fwd_ok (upd m d (take k1 bs)) (d + k1) (s + k1) (drop k1 bs)" .
  from advancesE [OF advances_blocks 1(3)] obtain k2 where 2: "k2 \<le> length (drop k1 bs)"
    "memcpy_blocks (upd m d (take k1 bs)) (d + k1) (s + k1) (length (drop k1 bs)) =
       Some (upd (upd m d (take k1 bs)) (d + k1) (take k2 (drop k1 bs)), d + k1 + k2, s + k1 + k2, length (drop k1 bs) - k2)"
    "fwd_ok (upd (upd m d (take k1 bs)) (d + k1) (take k2 (drop k1 bs))) (d + k1 + k2) (s + k1 + k2) (drop k2 (drop k1 bs))" .
  from advancesE [OF advances_words 2(3)] obtain k3 where 3: "k3 \<le> length (drop k2 (drop k1 bs))"
    "memcpy_words (upd (upd m d (take k1 bs)) (d + k1) (take k2 (drop k1 bs))) (d + k1 + k2) (s + k1 + k2) (length (drop k2 (drop k1 bs))) =
       Some (upd (upd (upd m d (take k1 bs)) (d + k1) (take k2 (drop k1 bs))) (d + k1 + k2) (take k3 (drop k2 (drop k1 bs))),
         d + k1 + k2 + k3, s + k1 + k2 + k3, length (drop k2 (drop k1 bs)) - k3)"
    "fwd_ok (upd (upd (upd m d (take k1 bs)) (d + k1) (take k2 (drop k1 bs))) (d + k1 + k2) (take k3 (drop k2 (drop k1 bs))))
       (d + k1 + k2 + k3) (s + k1 + k2 + k3) (drop k3 (drop k2 (drop k1 bs)))" .
  note b = memcpy_bytes_fwd [OF 3(3)]
  show ?thesis
    unfolding memcpy_def using 1(1,2) 2(1,2) 3(1,2) b
    by (simp add: upd_take_drop del: drop_drop)
qed

section \<open>Backward copies: lemmas\<close>

definition bwd_ok :: "mem \<Rightarrow> addr \<Rightarrow> addr \<Rightarrow> byte list \<Rightarrow> bool" where
  "bwd_ok m d s bs \<longleftrightarrow> bytes_at m s bs \<and> mapped m d (length bs) \<and> s < d"

lemma bwd_ok_step:
  assumes "bwd_ok m d s (xs @ ys)"
  shows "bwd_ok (upd m (d + length xs) ys) d s xs"
  using assms by (auto simp: bwd_ok_def bytes_at_append bytes_at_upd_other mapped_upd mapped_add)

lemma upd_adjacent: "upd (upd m (p + length xs) ys) p xs = upd m p (xs @ ys)"
  by (intro ext) (auto simp: upd_apply nth_append)

lemma memmove_bytes_bwd:
  "bwd_ok m d s bs \<Longrightarrow> memmove_bytes m (d + length bs - 1) (s + length bs - 1) (length bs) = Some (upd m d bs)"
proof (induction bs arbitrary: m rule: rev_induct)
  case (snoc b bs)
  let ?m = "m(d + length bs \<mapsto> b)"
  have "bwd_ok ?m d s bs" using bwd_ok_step [OF snoc.prems] by simp
  then have "memmove_bytes ?m (d + length bs - 1) (s + length bs - 1) (length bs) = Some (upd ?m d bs)"
    by (rule snoc.IH)
  moreover have "m (s + length bs) = Some b" "d + length bs \<in> dom m"
    using snoc.prems by (auto simp: bwd_ok_def bytes_at_append mapped_iff)
  ultimately show ?case using upd_adjacent [of m d bs "[b]"] by simp
qed simp

lemma memmove_words_bwd:
  assumes "bwd_ok m d s bs" "4 \<le> s"
  shows "\<exists>k \<le> length bs. memmove_words m (d + length bs - 4) (s + length bs - 4) (length bs) =
    Some (upd m (d + k) (drop k bs), d + k - 4, s + k - 4, k)"
  using assms(1)
proof (induction "length bs" arbitrary: m bs rule: less_induct)
  case less
  show ?case
  proof (cases "4 \<le> length bs")
    case True
    let ?n = "length bs - 4"
    let ?xs = "take ?n bs" and ?ys = "drop ?n bs"
    have bs: "bs = ?xs @ ?ys" by simp
    have l: "length ?xs = ?n" "length ?ys = 4" using True by simp_all
    have pr: "bwd_ok m d s (?xs @ ?ys)" using less.prems by simp
    then have "bytes_at m (s + ?n) ?ys" "mapped m (d + ?n) 4"
      using l bs mapped_add [of m d ?n 4] True
      unfolding bwd_ok_def bytes_at_append by (auto simp del: append_take_drop_id)
    from word_copy [OF this(1) l(2) this(2)] obtain w where w: "load_ulong m (s + ?n) = Some w"
      "store_ulong m (d + ?n) w = Some (upd m (d + ?n) ?ys)" .
    have ok: "bwd_ok (upd m (d + ?n) ?ys) d s ?xs" using bwd_ok_step [OF pr] unfolding l .
    have lt: "length ?xs < length bs" using True by simp
    from less.hyps [OF lt ok, unfolded l] obtain k where k: "k \<le> ?n"
      "memmove_words (upd m (d + ?n) ?ys) (d + ?n - 4) (s + ?n - 4) ?n =
         Some (upd (upd m (d + ?n) ?ys) (d + k) (drop k ?xs), d + k - 4, s + k - 4, k)"
      by blast
    have dr: "drop k bs = drop k ?xs @ ?ys"
      using k(1) l(1) by (metis append_take_drop_id drop_append diff_is_0_eq drop_0)
    have e: "d + k + length (drop k ?xs) = d + ?n" using k(1) l(1) by simp
    have "upd (upd m (d + ?n) ?ys) (d + k) (drop k ?xs) = upd m (d + k) (drop k bs)"
      using upd_adjacent [of m "d + k" "drop k ?xs" ?ys] unfolding e dr .
    with k w True show ?thesis
      by (intro exI [of _ k]) (subst memmove_words.simps, simp add: add_diff_assoc)
  next
    case False
    then show ?thesis by (intro exI [of _ "length bs"]) (simp add: memmove_words.simps)
  qed
qed

lemma memmove_bytes_at:
  assumes "bytes_at m s bs" "mapped m d (length bs)" "4 \<le> s"
  shows "memmove m d s (length bs) = Some (d, upd m d bs)"
proof -
  consider "bs = []" | "d = s" "bs \<noteq> []" | "s < d" "bs \<noteq> []" | "d < s" "bs \<noteq> []" by linarith
  then show ?thesis
  proof cases
    case 2
    have "upd m s bs = m"
      using bytes_at_nth [OF assms(1)] by (intro ext) (auto simp: upd_apply dest: le_Suc_ex)
    with 2 show ?thesis by (simp add: memmove_def)
  next
    case 3
    with assms have ok: "bwd_ok m d s bs" by (simp add: bwd_ok_def)
    from memmove_words_bwd [OF ok assms(3)] obtain k where k: "k \<le> length bs"
      "memmove_words m (d + length bs - 4) (s + length bs - 4) (length bs) =
         Some (upd m (d + k) (drop k bs), d + k - 4, s + k - 4, k)" by blast
    have "bwd_ok (upd m (d + k) (drop k bs)) d s (take k bs)"
      using bwd_ok_step [of m d s "take k bs" "drop k bs"] ok k(1) by simp
    from memmove_bytes_bwd [OF this] k(1) assms(3) 3(1)
    have "memmove_bytes (upd m (d + k) (drop k bs)) (d + k - 4 + 3) (s + k - 4 + 3) k =
        Some (upd (upd m (d + k) (drop k bs)) d (take k bs))"
      by (simp add: min_absorb2)
    with k 3 upd_adjacent [of m d "take k bs" "drop k bs"] show ?thesis
      by (simp add: memmove_def min_absorb2)
  next
    case 4
    with assms have "fwd_ok m d s bs" by (simp add: fwd_ok_def)
    with 4 show ?thesis by (simp add: memmove_def memcpy_fwd)
  qed (simp add: memmove_def)
qed

lemma memmove_ecommix_bytes_at:
  assumes "bytes_at m s bs" "mapped m d (length bs)"
    and "\<And>m d s bs. fwd_ok m d s bs \<Longrightarrow> memcpy' m d s (length bs) = Some (d, upd m d bs)"
  shows "memmove_ecommix memcpy' m d s (length bs) = Some (d, upd m d bs)"
proof -
  consider "d = s" | "s < d" | "d < s" by linarith
  then show ?thesis
  proof cases
    case 1
    have "upd m s bs = m"
      using bytes_at_nth [OF assms(1)] by (intro ext) (auto simp: upd_apply dest: le_Suc_ex)
    with 1 show ?thesis by (simp add: memmove_ecommix_def)
  next
    case 2
    with assms(1,2) have "bwd_ok m d s bs" by (simp add: bwd_ok_def)
    from memmove_bytes_bwd [OF this] 2 show ?thesis by (simp add: memmove_ecommix_def)
  next
    case 3
    with assms(1,2) have "fwd_ok m d s bs" by (simp add: fwd_ok_def)
    from assms(3) [OF this] 3 show ?thesis by (simp add: memmove_ecommix_def)
  qed
qed

section \<open>Filling: lemmas\<close>

lemma dwval_bytes:
  assumes "0 \<le> v" "v < 256"
  shows "ucast (memset_dwval v) = to_char v" "ucast (drop_bit 8 (memset_dwval v)) = to_char v"
    "ucast (drop_bit 16 (memset_dwval v)) = to_char v" "ucast (drop_bit 24 (memset_dwval v)) = to_char v"
proof -
  have v: "8 \<le> n \<Longrightarrow> \<not> bit v n" for n
  proof -
    assume "8 \<le> n"
    then have "(2::int) ^ 8 \<le> 2 ^ n" by (rule power_increasing) simp
    with assms(2) have "v < 2 ^ n" by simp
    with assms(1) show ?thesis by (simp add: bit_iff_odd)
  qed
  show "ucast (memset_dwval v) = to_char v" "ucast (drop_bit 8 (memset_dwval v)) = to_char v"
    "ucast (drop_bit 16 (memset_dwval v)) = to_char v" "ucast (drop_bit 24 (memset_dwval v)) = to_char v"
    unfolding memset_dwval_def by (auto intro!: bit_word_eqI simp: bit_simps v)
qed

lemma store_dwval:
  assumes "0 \<le> v" "v < 256" "mapped m d 4"
  shows "store_ulong m d (memset_dwval v) = Some (upd m d (replicate 4 (to_char v)))"
proof -
  have "d \<in> dom m" "d + 1 \<in> dom m" "d + 2 \<in> dom m" "d + 3 \<in> dom m"
    using assms(3) by (auto simp: mapped_iff dom_def dest: spec [of _ 0] spec [of _ 1] spec [of _ 2] spec [of _ 3])
  then show ?thesis
    unfolding store_ulong_def dwval_bytes [OF assms(1,2)] by (simp add: eval_nat_numeral)
qed

lemma upd_replicate_add:
  "upd (upd m d (replicate k b)) (d + k) (replicate j b) = upd m d (replicate (k + j) b)"
  using upd_append [of m d "replicate k b" "replicate j b"] by (simp add: replicate_add)

lemma mapped_rest: "mapped m d n \<Longrightarrow> k \<le> n \<Longrightarrow> mapped (upd m d bs) (d + k) (n - k)"
  using mapped_add [of m d k "n - k"] by (simp add: mapped_upd)

lemma memset_align_mapped:
  "mapped m d n \<Longrightarrow> \<exists>k \<le> n. memset_align m d v n = Some (upd m d (replicate k (to_char v)), d + k, n - k)"
proof (induction n arbitrary: m d)
  case (Suc n)
  show ?case
  proof (cases "d mod ULSZ = 0")
    case False
    have "mapped (m(d \<mapsto> to_char v)) (Suc d) n" using Suc.prems by (intro mapped_fun_upd) simp
    from Suc.IH [OF this] obtain k where "k \<le> n" "memset_align (m(d \<mapsto> to_char v)) (Suc d) v n =
        Some (upd (m(d \<mapsto> to_char v)) (Suc d) (replicate k (to_char v)), Suc d + k, n - k)" by blast
    with False Suc.prems show ?thesis by (intro exI [of _ "Suc k"]) auto
  qed (auto intro: exI [of _ 0])
qed simp

lemma set_words_mapped:
  "0 \<le> v \<Longrightarrow> v < 256 \<Longrightarrow> mapped m d (4 * n) \<Longrightarrow>
   set_words m d (memset_dwval v) n = Some (upd m d (replicate (4 * n) (to_char v)))"
proof (induction n arbitrary: m d)
  case (Suc n)
  have "mapped m d 4" using Suc.prems(3) by (rule mapped_le) simp
  note w = store_dwval [OF Suc.prems(1,2) this]
  have "mapped (upd m d (replicate 4 (to_char v))) (d + 4) (4 * n)"
    using mapped_rest [OF Suc.prems(3), of 4] by simp
  then have "set_words (upd m d (replicate 4 (to_char v))) (d + 4) (memset_dwval v) n =
      Some (upd (upd m d (replicate 4 (to_char v))) (d + 4) (replicate (4 * n) (to_char v)))"
    by (rule Suc.IH [OF Suc.prems(1,2)])
  with w show ?case using upd_replicate_add [of m d 4 "to_char v" "4 * n"] by simp
qed simp

lemma memset_blocks_mapped:
  "0 \<le> v \<Longrightarrow> v < 256 \<Longrightarrow> mapped m d n \<Longrightarrow>
   \<exists>k \<le> n. memset_blocks m d (memset_dwval v) n = Some (upd m d (replicate k (to_char v)), d + k, n - k)"
proof (induction n arbitrary: m d rule: less_induct)
  case (less n)
  show ?case
  proof (cases "64 \<le> n")
    case True
    have w: "set_words m d (memset_dwval v) 16 = Some (upd m d (replicate 64 (to_char v)))"
      using set_words_mapped [OF less.prems(1,2), of m d 16] mapped_le [OF less.prems(3) True] by simp
    have lt: "n - 64 < n" using True by simp
    from less.IH [OF lt less.prems(1,2) mapped_rest [OF less.prems(3) True]] obtain k where
      "k \<le> n - 64" "memset_blocks (upd m d (replicate 64 (to_char v))) (d + 64) (memset_dwval v) (n - 64) =
        Some (upd (upd m d (replicate 64 (to_char v))) (d + 64) (replicate k (to_char v)), d + 64 + k, n - 64 - k)"
      by blast
    with w True show ?thesis
      by (intro exI [of _ "64 + k"]) (subst memset_blocks.simps, simp add: upd_replicate_add)
  next
    case False
    then show ?thesis by (intro exI [of _ 0]) (simp add: memset_blocks.simps)
  qed
qed

lemma memset_words_mapped:
  "0 \<le> v \<Longrightarrow> v < 256 \<Longrightarrow> mapped m d n \<Longrightarrow>
   \<exists>k \<le> n. memset_words m d (memset_dwval v) n = Some (upd m d (replicate k (to_char v)), d + k, n - k)"
proof (induction n arbitrary: m d rule: less_induct)
  case (less n)
  show ?case
  proof (cases "4 \<le> n")
    case True
    note w = store_dwval [OF less.prems(1,2) mapped_le [OF less.prems(3) True]]
    have lt: "n - 4 < n" using True by simp
    from less.IH [OF lt less.prems(1,2) mapped_rest [OF less.prems(3) True]] obtain k where
      "k \<le> n - 4" "memset_words (upd m d (replicate 4 (to_char v))) (d + 4) (memset_dwval v) (n - 4) =
        Some (upd (upd m d (replicate 4 (to_char v))) (d + 4) (replicate k (to_char v)), d + 4 + k, n - 4 - k)"
      by blast
    with w True show ?thesis
      by (intro exI [of _ "4 + k"]) (subst memset_words.simps, simp add: upd_replicate_add)
  next
    case False
    then show ?thesis by (intro exI [of _ 0]) (simp add: memset_words.simps)
  qed
qed

lemma memset_bytes_mapped:
  "mapped m d n \<Longrightarrow> memset_bytes m d v n = Some (upd m d (replicate n (to_char v)))"
  by (induction n arbitrary: m d) auto

lemma memset_mapped:
  assumes "mapped m d n" "0 \<le> v" "v < 256"
  shows "memset m d v n = Some (d, upd m d (replicate n (to_char v)))"
proof -
  let ?r = "\<lambda>k. replicate k (to_char v)"
  from memset_align_mapped [OF assms(1)] obtain k1 where 1: "k1 \<le> n"
    "memset_align m d v n = Some (upd m d (?r k1), d + k1, n - k1)" by blast
  have m1: "mapped (upd m d (?r k1)) (d + k1) (n - k1)" by (rule mapped_rest [OF assms(1) 1(1)])
  from memset_blocks_mapped [OF assms(2,3) m1] obtain k2 where 2: "k2 \<le> n - k1"
    "memset_blocks (upd m d (?r k1)) (d + k1) (memset_dwval v) (n - k1) =
       Some (upd m d (?r (k1 + k2)), d + k1 + k2, n - k1 - k2)" by (auto simp: upd_replicate_add)
  have m2: "mapped (upd m d (?r (k1 + k2))) (d + (k1 + k2)) (n - (k1 + k2))"
    using 2(1) 1(1) by (intro mapped_rest [OF assms(1)]) simp
  from memset_words_mapped [OF assms(2,3) m2] obtain k3 where 3: "k3 \<le> n - (k1 + k2)"
    "memset_words (upd m d (?r (k1 + k2))) (d + (k1 + k2)) (memset_dwval v) (n - (k1 + k2)) =
       Some (upd m d (?r (k1 + k2 + k3)), d + (k1 + k2) + k3, n - (k1 + k2) - k3)"
    by (auto simp: upd_replicate_add)
  have m3: "mapped (upd m d (?r (k1 + k2 + k3))) (d + (k1 + k2 + k3)) (n - (k1 + k2 + k3))"
    using 1(1) 2(1) 3(1) by (intro mapped_rest [OF assms(1)]) simp
  note b = memset_bytes_mapped [OF m3, of v]
  show ?thesis unfolding memset_def using 1 2 3 b
    by (simp add: add.assoc upd_replicate_add)
qed

section \<open>Properties\<close>

text \<open>C27: the unrolled x86 \<open>memmove\<close> copies any block correctly, whatever the overlap of source and
  target, and changes nothing outside the target.\<close>

theorem memmove_copies:
  assumes "bytes_at m s bs" "length bs = n" "mapped m d n" "4 \<le> s"
  shows "\<exists>m'. memmove m d s n = Some (d, m') \<and> bytes_at m' d bs \<and>
    (\<forall>a. a < d \<or> d + n \<le> a \<longrightarrow> m' a = m a)"
  using memmove_bytes_at [of m s bs d] assms by (auto simp: upd_apply)

theorem memmove_copies_witness:
  "\<exists>m'. memmove (mem_of 8 [1, 2, 3, 4, 5, 6]) 9 8 5 = Some (9, m') \<and> bytes_at m' 9 [1, 2, 3, 4, 5]"
  using memmove_copies [of "mem_of 8 [1, 2, 3, 4, 5, 6]" 8 "[1, 2, 3, 4, 5]" 5 9]
  by (auto simp: mem_of_def mapped_numeral)

text \<open>C28: \<open>memcpy\<close> equals the byte-by-byte reference copy whenever the target does not overlap the
  rest of the source from behind; alignment, block size and remainder do not matter.\<close>

theorem memcpy_is_bytewise:
  assumes "bytes_at m s bs" "length bs = n" "mapped m d n" "d \<le> s \<or> s + n \<le> d"
  shows "memcpy m d s n = map_option (Pair d) (memcpy_bytes m d s n) \<and>
    memcpy_bytes m d s n = Some (upd m d bs)"
proof -
  have "fwd_ok m d s bs" using assms by (simp add: fwd_ok_def)
  with assms(2) show ?thesis using memcpy_fwd memcpy_bytes_fwd by fastforce
qed

theorem memcpy_is_bytewise_witness:
  "memcpy (mem_of 8 [1, 2, 3, 4, 5, 6, 0, 0, 0, 0, 0, 0]) 14 8 6 =
     Some (14, upd (mem_of 8 [1, 2, 3, 4, 5, 6, 0, 0, 0, 0, 0, 0]) 14 [1, 2, 3, 4, 5, 6])"
  using memcpy_is_bytewise [of "mem_of 8 [1, 2, 3, 4, 5, 6, 0, 0, 0, 0, 0, 0]" 8 "[1, 2, 3, 4, 5, 6]" 6 14]
  by (simp add: mem_of_def mapped_numeral)

text \<open>\<open>memset\<close> fills exactly the block with the byte, for every value of an unsigned byte.\<close>

theorem memset_fills:
  assumes "mapped m d n" "0 \<le> v" "v < 256"
  shows "\<exists>m'. memset m d v n = Some (d, m') \<and> bytes_at m' d (replicate n (word_of_int v)) \<and>
    (\<forall>a. a < d \<or> d + n \<le> a \<longrightarrow> m' a = m a)"
  using memset_mapped [OF assms] by (auto simp: upd_apply)

theorem memset_fills_witness:
  "\<exists>m'. memset (mem_of 9 [1, 2, 3, 4, 5, 6, 7]) 9 200 7 = Some (9, m') \<and> bytes_at m' 9 (replicate 7 200)"
  using memset_fills [of "mem_of 9 [1, 2, 3, 4, 5, 6, 7]" 9 7 200] by (auto simp: mem_of_def mapped_numeral)

text \<open>A negative value is spread over the bytes of a word: the word loop and the byte loop write
  different bytes.\<close>

lemma memset_negative_dwval: "ucast (drop_bit 8 (memset_dwval (-2))) \<noteq> (to_char (-2) :: byte)"
  by (simp add: memset_dwval_def)

end
