(* ===== verification/Transitions.thy ===== *)
theory Transitions
  imports Main
begin

text \<open>
  The contract between a component whose operations form a step relation and the properties of its runs: an
  invariant that holds in the initial states and that every step preserves. Each stateful component of the kernel
  and the user-level locks interpret it with their own steps, and their properties rest on \<open>reachable\<close>.
\<close>

locale transitions =
  fixes step :: "'s \<Rightarrow> 's \<Rightarrow> bool" and init :: "'s \<Rightarrow> bool" and inv :: "'s \<Rightarrow> bool"
  assumes initial: "init s \<Longrightarrow> inv s"
    and preserved: "step s s' \<Longrightarrow> inv s \<Longrightarrow> inv s'"
begin

lemma continue: "step\<^sup>*\<^sup>* s s' \<Longrightarrow> inv s \<Longrightarrow> inv s'"
  by (induction rule: rtranclp_induct) (auto intro: preserved)

lemma reachable: "step\<^sup>*\<^sup>* a s \<Longrightarrow> init a \<Longrightarrow> inv s"
  using continue initial by blast

end

text \<open>
  A component that implements an abstract specification: every step from a state with the invariant is some
  steps of the specification on the abstracted states.
\<close>

locale refinement = transitions step init inv
  for step :: "'s \<Rightarrow> 's \<Rightarrow> bool" and init :: "'s \<Rightarrow> bool" and inv :: "'s \<Rightarrow> bool" +
  fixes astep :: "'a \<Rightarrow> 'a \<Rightarrow> bool" and abs :: "'s \<Rightarrow> 'a"
  assumes simulates: "step s s' \<Longrightarrow> inv s \<Longrightarrow> astep\<^sup>*\<^sup>* (abs s) (abs s')"
begin

lemma refines: "step\<^sup>*\<^sup>* a s \<Longrightarrow> init a \<Longrightarrow> astep\<^sup>*\<^sup>* (abs a) (abs s)"
proof (induction rule: rtranclp_induct)
  case (step s s')
  then have "inv s" by (blast intro: reachable)
  with step simulates show ?case by (meson rtranclp_trans)
qed simp

end

text \<open>
  Runs of labelled steps: the label says which operation with which arguments a step is.
\<close>

inductive lrun :: "('l \<Rightarrow> 's \<Rightarrow> 's \<Rightarrow> bool) \<Rightarrow> 's \<Rightarrow> 'l list \<Rightarrow> 's \<Rightarrow> bool" for step where
  lrun_nil: "lrun step s [] s"
| lrun_snoc: "lrun step a ls s \<Longrightarrow> step l s s' \<Longrightarrow> lrun step a (ls @ [l]) s'"

lemma lrun_one: "step l s s' \<Longrightarrow> lrun step s [l] s'"
  using lrun_snoc [OF lrun_nil] by fastforce

text \<open>
  A component whose operations have a functional specification: what an operation does to the abstract state
  depends on its label and the abstract state only.
\<close>

locale functional_refinement =
  fixes step :: "'l \<Rightarrow> 's \<Rightarrow> 's \<Rightarrow> bool" and init :: "'s \<Rightarrow> bool" and inv :: "'s \<Rightarrow> bool"
    and spec :: "'l \<Rightarrow> 'a \<Rightarrow> 'a" and abs :: "'s \<Rightarrow> 'a"
  assumes initial: "init s \<Longrightarrow> inv s"
    and preserved: "step l s s' \<Longrightarrow> inv s \<Longrightarrow> inv s'"
    and implements: "step l s s' \<Longrightarrow> inv s \<Longrightarrow> abs s' = spec l (abs s)"
begin

lemma reachable: "lrun step a ls s \<Longrightarrow> init a \<Longrightarrow> inv s"
  by (induction rule: lrun.induct) (auto intro: initial preserved)

lemma computes: "lrun step a ls s \<Longrightarrow> init a \<Longrightarrow> abs s = fold spec ls (abs a)"
proof (induction rule: lrun.induct)
  case (lrun_snoc a ls s l s')
  then show ?case using implements [OF lrun_snoc(2) reachable [OF lrun_snoc(1)]] by simp
qed simp

end

lemma two_steps: "r a b \<Longrightarrow> r b c \<Longrightarrow> r\<^sup>*\<^sup>* a c"
  by (meson r_into_rtranclp rtranclp.rtrancl_into_rtrancl)

end
