(* ===== verification/Sync.thy ===== *)
theory Sync
  imports Prelude Transitions
begin

text \<open>
  Locks: the user-level semaphore \<open>tUserSem\<close> of \<open>include/sys/arch/x86/sync.h\<close> and the
  readers-writer lock \<open>tRWLock\<close> of \<open>lib/c/sys/sync.c\<close>.

  A kernel semaphore is its count: \<open>semup\<close> raises it, \<open>semdown\<close> lowers it and does not return
  before it can. The atomic add of \<open>usemdown\<close> and the \<open>semdown\<close> that may follow are two steps,
  and so are the atomic add of \<open>usemup\<close> and its \<open>semup\<close>; the threads interleave between them.
  A section of the readers-writer lock that runs under its mutex is one step, which the mutual
  exclusion shown for \<open>tUserSem\<close> justifies. Counters are unbounded.
\<close>

section \<open>The user-level semaphore\<close>

text \<open>The effect of the atomic add on \<open>value\<close>, and whether the kernel is called.\<close>

definition usemdown_add :: "int \<Rightarrow> int \<times> bool" where
  "usemdown_add value = (value - 1, value \<le> 0)"

definition usemup_add :: "int \<Rightarrow> int \<times> bool" where
  "usemup_add value = (value + 1, value < 0)"

text \<open>\<open>usemtrydown\<close>: the new value and whether the semaphore was taken.\<close>

definition usemtrydown_add :: "int \<Rightarrow> int \<times> bool" where
  "usemtrydown_add value = (value - 1, value > 0)"

text \<open>The calls as a thread that runs alone sees them; a call that blocks has no result.\<close>

record tUserSem =
  ussem :: nat
  usvalue :: int

definition usemcrt :: "int \<Rightarrow> tUserSem" where
  "usemcrt val = \<lparr>ussem = 0, usvalue = val\<rparr>"

definition usemdown :: "tUserSem \<Rightarrow> tUserSem option" where
  "usemdown s = (case usemdown_add (usvalue s) of (v, block) \<Rightarrow>
     if block then if ussem s > 0 then Some \<lparr>ussem = ussem s - 1, usvalue = v\<rparr> else None
     else Some (s\<lparr>usvalue := v\<rparr>))"

definition usemup :: "tUserSem \<Rightarrow> tUserSem" where
  "usemup s = (case usemup_add (usvalue s) of (v, wake) \<Rightarrow>
     \<lparr>ussem = (if wake then ussem s + 1 else ussem s), usvalue = v\<rparr>)"

text \<open>Threads: outside, blocked in \<open>semdown\<close>, inside, or before the \<open>semup\<close> of \<open>usemup\<close>.\<close>

datatype upc = Outside | Blocked | Inside | Leaving

record ustate =
  ulock :: tUserSem
  uthr :: "nat \<Rightarrow> upc"

definition uinit :: ustate where
  "uinit = \<lparr>ulock = usemcrt 1, uthr = (\<lambda>_. Outside)\<rparr>"

inductive ustep :: "ustate \<Rightarrow> ustate \<Rightarrow> bool" where
  u_down: "uthr s t = Outside \<Longrightarrow> usemdown_add (usvalue (ulock s)) = (v, block) \<Longrightarrow>
     ustep s (s\<lparr>ulock := ulock s\<lparr>usvalue := v\<rparr>, uthr := (uthr s)(t := if block then Blocked else Inside)\<rparr>)"
| u_semdown: "uthr s t = Blocked \<Longrightarrow> ussem (ulock s) > 0 \<Longrightarrow>
     ustep s (s\<lparr>ulock := ulock s\<lparr>ussem := ussem (ulock s) - 1\<rparr>, uthr := (uthr s)(t := Inside)\<rparr>)"
| u_up: "uthr s t = Inside \<Longrightarrow> usemup_add (usvalue (ulock s)) = (v, wake) \<Longrightarrow>
     ustep s (s\<lparr>ulock := ulock s\<lparr>usvalue := v\<rparr>, uthr := (uthr s)(t := if wake then Leaving else Outside)\<rparr>)"
| u_semup: "uthr s t = Leaving \<Longrightarrow>
     ustep s (s\<lparr>ulock := ulock s\<lparr>ussem := ussem (ulock s) + 1\<rparr>, uthr := (uthr s)(t := Outside)\<rparr>)"

section \<open>The readers-writer lock\<close>

datatype rwop = RW_READ | RW_WRITE

record tRWLock =
  rwsem :: nat
  rwcount :: int
  rwwaits :: nat

definition rwcrt :: tRWLock where
  "rwcrt = \<lparr>rwsem = 0, rwcount = 0, rwwaits = 0\<rparr>"

text \<open>The condition of the waiting loop, and what a thread does when it does not hold.\<close>

definition rw_busy :: "tRWLock \<Rightarrow> rwop \<Rightarrow> bool" where
  "rw_busy l opn = (case opn of RW_READ \<Rightarrow> rwcount l < 0 | RW_WRITE \<Rightarrow> rwcount l \<noteq> 0)"

definition rw_enter :: "tRWLock \<Rightarrow> rwop \<Rightarrow> tRWLock" where
  "rw_enter l opn = (case opn of RW_READ \<Rightarrow> l\<lparr>rwcount := rwcount l + 1\<rparr> | RW_WRITE \<Rightarrow> l\<lparr>rwcount := -1\<rparr>)"

text \<open>
  \<open>rwwait\<close> up to its \<open>semdown\<close>. \<open>rwreq\<close> up to its end or its first wait, and from the return of a
  \<open>semdown\<close> to its end or the next wait; the flag says whether the thread waits.
\<close>

definition rwwait_enter :: "tRWLock \<Rightarrow> tRWLock" where
  "rwwait_enter l = l\<lparr>rwwaits := rwwaits l + 1\<rparr>"

definition rwreq_start :: "tRWLock \<Rightarrow> rwop \<Rightarrow> tRWLock \<times> bool" where
  "rwreq_start l opn =
     (if rwwaits l \<noteq> 0 \<or> rw_busy l opn then (rwwait_enter l, True) else (rw_enter l opn, False))"

definition rwreq_resume :: "tRWLock \<Rightarrow> rwop \<Rightarrow> tRWLock \<times> bool" where
  "rwreq_resume l0 opn = (let l = l0\<lparr>rwwaits := rwwaits l0 - 1\<rparr> in
     if rw_busy l opn then (rwwait_enter l, True) else (rw_enter l opn, False))"

definition rwrel :: "tRWLock \<Rightarrow> rwop \<Rightarrow> tRWLock option" where
  "rwrel l opn = (case opn of
     RW_READ \<Rightarrow> do {
       vassert (rwcount l > 0);
       let l1 = l\<lparr>rwcount := rwcount l - 1\<rparr>;
       Some (if rwcount l1 = 0 \<and> rwwaits l1 \<noteq> 0 then l1\<lparr>rwsem := rwsem l1 + 1\<rparr> else l1) }
   | RW_WRITE \<Rightarrow> do {
       vassert (rwcount l = -1);
       let l1 = l\<lparr>rwcount := 0\<rparr>;
       Some (if rwwaits l1 \<noteq> 0 then l1\<lparr>rwsem := rwsem l1 + 1\<rparr> else l1) })"

datatype rwpc = RwIdle | RwWait rwop | RwWoken rwop | RwHold rwop

record rwstate =
  rwlk :: tRWLock
  rwthr :: "nat \<Rightarrow> rwpc"

definition rwinit :: rwstate where
  "rwinit = \<lparr>rwlk = rwcrt, rwthr = (\<lambda>_. RwIdle)\<rparr>"

inductive rwstep :: "rwstate \<Rightarrow> rwstate \<Rightarrow> bool" where
  rw_req: "rwthr s t = RwIdle \<Longrightarrow> rwreq_start (rwlk s) opn = (l, wait) \<Longrightarrow>
     rwstep s (s\<lparr>rwlk := l, rwthr := (rwthr s)(t := if wait then RwWait opn else RwHold opn)\<rparr>)"
| rw_semdown: "rwthr s t = RwWait opn \<Longrightarrow> rwsem (rwlk s) > 0 \<Longrightarrow>
     rwstep s (s\<lparr>rwlk := rwlk s\<lparr>rwsem := rwsem (rwlk s) - 1\<rparr>, rwthr := (rwthr s)(t := RwWoken opn)\<rparr>)"
| rw_resume: "rwthr s t = RwWoken opn \<Longrightarrow> rwreq_resume (rwlk s) opn = (l, wait) \<Longrightarrow>
     rwstep s (s\<lparr>rwlk := l, rwthr := (rwthr s)(t := if wait then RwWait opn else RwHold opn)\<rparr>)"
| rw_rel: "rwthr s t = RwHold opn \<Longrightarrow> rwrel (rwlk s) opn = Some l \<Longrightarrow>
     rwstep s (s\<lparr>rwlk := l, rwthr := (rwthr s)(t := RwIdle)\<rparr>)"

section \<open>Counting threads\<close>

definition cnt :: "('t \<Rightarrow> 'p) \<Rightarrow> 'p \<Rightarrow> int" where
  "cnt f p = int (card {t. f t = p})"

definition few :: "'p \<Rightarrow> ('t \<Rightarrow> 'p) \<Rightarrow> bool" where
  "few idle f \<longleftrightarrow> finite {t. f t \<noteq> idle}"

lemma few_upd [simp]: "few idle f \<Longrightarrow> few idle (f(t := p))"
  unfolding few_def
  by (rule finite_subset [of _ "insert t {t. f t \<noteq> idle}"]) auto

lemma cnt_upd:
  assumes "few idle f" "p \<noteq> idle"
  shows "cnt (f(t := q)) p = cnt f p - (if f t = p then 1 else 0) + (if q = p then 1 else 0)"
proof -
  have fin: "finite {u. f u = p}"
    using assms unfolding few_def by (rule_tac finite_subset) auto
  have "{u. (f(t := q)) u = p} = (if q = p then insert t ({u. f u = p} - {t}) else {u. f u = p} - {t})"
    by auto
  then have "card {u. (f(t := q)) u = p} = (if q = p then 1 else 0) + card ({u. f u = p} - {t})"
    using fin by (simp del: insert_Diff_single)
  moreover have "f t = p \<Longrightarrow> 0 < card {u. f u = p}" using fin by (auto simp: card_gt_0_iff)
  ultimately show ?thesis using fin by (auto simp: cnt_def card_Diff_singleton_if of_nat_diff Suc_leI)
qed

lemma cnt_nonneg: "0 \<le> cnt f p"
  by (simp add: cnt_def)

lemma cnt_pos: "few idle f \<Longrightarrow> p \<noteq> idle \<Longrightarrow> 0 < cnt f p \<longleftrightarrow> (\<exists>t. f t = p)"
proof -
  assume "few idle f" "p \<noteq> idle"
  then have "finite {u. f u = p}" unfolding few_def by (rule_tac finite_subset) auto
  then show ?thesis by (auto simp: cnt_def card_gt_0_iff)
qed

lemma cnt_le_1_unique:
  assumes "few idle f" "p \<noteq> idle" "cnt f p \<le> 1" "f t = p" "f u = p"
  shows "t = u"
proof -
  have fin: "finite {u. f u = p}" using assms(1,2) unfolding few_def by (rule_tac finite_subset) auto
  have "card {t. f t = p} \<le> Suc 0" using assms(3) by (simp add: cnt_def)
  with fin assms(4,5) show ?thesis by (auto simp: card_le_Suc0_iff_eq)
qed

section \<open>The semaphore is a lock\<close>

definition uinv :: "ustate \<Rightarrow> bool" where
  "uinv s \<longleftrightarrow> few Outside (uthr s) \<and>
     usvalue (ulock s) = 1 - cnt (uthr s) Inside - cnt (uthr s) Blocked \<and>
     cnt (uthr s) Inside + cnt (uthr s) Leaving + int (ussem (ulock s)) =
       (if usvalue (ulock s) > 0 then 0 else 1)"

lemma uinv_init: "uinv uinit"
  by (simp add: uinv_def uinit_def usemcrt_def few_def cnt_def)

lemma uinv_step: "ustep s s' \<Longrightarrow> uinv s \<Longrightarrow> uinv s'"
proof (induction rule: ustep.induct)
  case (u_down s t v block)
  then show ?case
    using cnt_nonneg [of "uthr s" Inside] cnt_nonneg [of "uthr s" Blocked]
    by (auto simp: uinv_def usemdown_add_def cnt_upd [of Outside])
next
  case (u_semdown s t)
  then show ?case by (auto simp: uinv_def cnt_upd [of Outside])
next
  case (u_up s t v wake)
  have "few Outside (uthr s)" using u_up by (simp add: uinv_def)
  then have "0 < cnt (uthr s) Inside" using u_up(1) by (subst cnt_pos) auto
  with u_up show ?case
    using cnt_nonneg [of "uthr s" Leaving] cnt_nonneg [of "uthr s" Blocked]
    by (auto simp: uinv_def usemup_add_def cnt_upd [of Outside])
next
  case (u_semup s t)
  then show ?case by (auto simp: uinv_def cnt_upd [of Outside])
qed

interpretation usem_runs: transitions ustep "\<lambda>s. s = uinit" uinv
  by unfold_locales (simp_all add: uinv_init uinv_step)

lemma uinv_reachable: "ustep\<^sup>*\<^sup>* uinit s \<Longrightarrow> uinv s"
  by (erule usem_runs.reachable) simp

section \<open>The readers-writer lock keeps readers and writers apart\<close>

definition rwinv :: "rwstate \<Rightarrow> bool" where
  "rwinv s \<longleftrightarrow> few RwIdle (rwthr s) \<and>
     (let r = cnt (rwthr s) (RwHold RW_READ); w = cnt (rwthr s) (RwHold RW_WRITE);
          k = cnt (rwthr s) (RwWoken RW_READ) + cnt (rwthr s) (RwWoken RW_WRITE) in
      (w = 0 \<and> rwcount (rwlk s) = r \<or> w = 1 \<and> r = 0 \<and> rwcount (rwlk s) = -1) \<and>
      int (rwwaits (rwlk s)) = cnt (rwthr s) (RwWait RW_READ) + cnt (rwthr s) (RwWait RW_WRITE) + k \<and>
      (rwwaits (rwlk s) > 0 \<and> rwcount (rwlk s) = 0 \<longrightarrow> int (rwsem (rwlk s)) + k > 0))"

lemma rwinv_init: "rwinv rwinit"
  by (simp add: rwinv_def rwinit_def rwcrt_def few_def cnt_def)

lemmas rw_step_simps = rwinv_def Let_def cnt_upd [of RwIdle] rw_busy_def rw_enter_def rwwait_enter_def

lemma rwinv_step: "rwstep s s' \<Longrightarrow> rwinv s \<Longrightarrow> rwinv s'"
proof (induction rule: rwstep.induct)
  case (rw_req s t opn l wait)
  show ?case
  proof (cases opn)
    case RW_READ
    with rw_req show ?thesis
      by (auto simp: rw_step_simps rwreq_start_def split: if_splits)
  next
    case RW_WRITE
    with rw_req show ?thesis
      by (auto simp: rw_step_simps rwreq_start_def split: if_splits)
  qed
next
  case (rw_semdown s t opn)
  then show ?case by (cases opn) (auto simp: rw_step_simps)
next
  case (rw_resume s t opn l wait)
  have "few RwIdle (rwthr s)" using rw_resume by (simp add: rwinv_def)
  then have "0 < cnt (rwthr s) (RwWoken opn)" using rw_resume(1) by (subst cnt_pos) auto
  moreover note cnt_nonneg [of "rwthr s" "RwWoken RW_READ"] cnt_nonneg [of "rwthr s" "RwWoken RW_WRITE"]
    cnt_nonneg [of "rwthr s" "RwWait RW_READ"] cnt_nonneg [of "rwthr s" "RwWait RW_WRITE"]
  ultimately have "0 < rwwaits (rwlk s)" using rw_resume(3) by (cases opn) (auto simp: rwinv_def Let_def)
  with rw_resume show ?case
    by (cases opn) (auto simp: rw_step_simps rwreq_resume_def of_nat_diff split: if_splits)
next
  case (rw_rel s t opn l)
  have "few RwIdle (rwthr s)" using rw_rel by (simp add: rwinv_def)
  then have "0 < cnt (rwthr s) (RwHold opn)" using rw_rel(1) by (subst cnt_pos) auto
  with rw_rel show ?case
    using cnt_nonneg [of "rwthr s" "RwWoken RW_READ"] cnt_nonneg [of "rwthr s" "RwWoken RW_WRITE"]
    by (cases opn) (auto simp: rw_step_simps rwrel_def split: if_splits)
qed

interpretation rw_runs: transitions rwstep "\<lambda>s. s = rwinit" rwinv
  by unfold_locales (simp_all add: rwinv_init rwinv_step)

lemma rwinv_reachable: "rwstep\<^sup>*\<^sup>* rwinit s \<Longrightarrow> rwinv s"
  by (erule rw_runs.reachable) simp

lemma usemup_usemdown: "usemdown s = Some s' \<Longrightarrow> usemup s' = s"
  by (cases s) (auto simp: usemdown_def usemup_def usemdown_add_def usemup_add_def split: if_splits)

section \<open>Properties\<close>

text \<open>the user-level semaphore of \<open>sync.h\<close> created with value 1 is a lock, for any number of
  threads and any interleaving of the atomic adds and the kernel calls: two threads are never
  inside together, and when a thread is blocked and none is inside, a wake-up is pending, so no
  wake-up is lost.\<close>

theorem usem_lock:
  assumes "ustep\<^sup>*\<^sup>* uinit s"
  shows "(uthr s t = Inside \<and> uthr s u = Inside \<longrightarrow> t = u) \<and>
    (uthr s t = Blocked \<and> \<not> (\<exists>u. uthr s u = Inside) \<longrightarrow>
      ussem (ulock s) > 0 \<or> (\<exists>u. uthr s u = Leaving))"
proof -
  note inv = uinv_reachable [OF assms, unfolded uinv_def]
  note nn = cnt_nonneg [of "uthr s" Inside] cnt_nonneg [of "uthr s" Blocked] cnt_nonneg [of "uthr s" Leaving]
  have "cnt (uthr s) Inside \<le> 1" using inv nn by (auto split: if_splits)
  moreover have "ussem (ulock s) > 0 \<or> (\<exists>u. uthr s u = Leaving)"
    if "uthr s t = Blocked" "\<not> (\<exists>u. uthr s u = Inside)"
  proof -
    have "0 < cnt (uthr s) Blocked" using inv that(1) by (subst cnt_pos [of Outside]) auto
    moreover have "cnt (uthr s) Inside = 0" using inv nn(1) that(2) cnt_pos [of Outside "uthr s" Inside] by auto
    ultimately have "cnt (uthr s) Leaving + int (ussem (ulock s)) = 1" using inv nn by (auto split: if_splits)
    then show ?thesis using inv cnt_pos [of Outside "uthr s" Leaving] by (cases "ussem (ulock s)") auto
  qed
  ultimately show ?thesis using inv cnt_le_1_unique [of Outside "uthr s" Inside t u] by auto
qed

theorem usem_lock_witness:
  "uthr (uinit\<lparr>ulock := (ulock uinit)\<lparr>usvalue := 0\<rparr>, uthr := (uthr uinit)(3 := Inside)\<rparr>) 4 \<noteq> Inside"
proof -
  let ?s = "uinit\<lparr>ulock := (ulock uinit)\<lparr>usvalue := 0\<rparr>, uthr := (uthr uinit)(3 := Inside)\<rparr>"
  have "ustep uinit ?s"
    using u_down [of uinit 3 0 False] by (simp add: uinit_def usemcrt_def usemdown_add_def)
  then have r: "ustep\<^sup>*\<^sup>* uinit ?s" by (rule r_into_rtranclp)
  have "uthr ?s 3 = Inside" by simp
  then show ?thesis using usem_lock [OF r, of 3 4] by auto
qed

text \<open>C23: the readers-writer lock keeps writers exclusive and loses no wake-up: a thread that holds the
  lock for writing is the only holder, and while a thread waits, some thread holds the lock, has
  been woken or can be woken.\<close>

theorem rwlock_exclusive:
  assumes "rwstep\<^sup>*\<^sup>* rwinit s"
  shows "(rwthr s t = RwHold RW_WRITE \<and> rwthr s u = RwHold opn \<longrightarrow> t = u) \<and>
    (rwthr s t = RwWait opn \<longrightarrow>
      (\<exists>u opn'. rwthr s u = RwHold opn' \<or> rwthr s u = RwWoken opn') \<or> rwsem (rwlk s) > 0)"
proof -
  note inv = rwinv_reachable [OF assms, unfolded rwinv_def Let_def]
  let ?c = "\<lambda>p. cnt (rwthr s) p"
  have pos: "0 < ?c p \<longleftrightarrow> (\<exists>t. rwthr s t = p)" if "p \<noteq> RwIdle" for p
    using inv that by (intro cnt_pos) auto
  have "t = u" if h: "rwthr s t = RwHold RW_WRITE" "rwthr s u = RwHold opn"
  proof -
    have "0 < ?c (RwHold RW_WRITE)" "0 < ?c (RwHold opn)" using h by (auto simp: pos)
    with inv have "?c (RwHold RW_WRITE) = 1" "opn = RW_WRITE" by (cases opn; auto)+
    with h inv show ?thesis using cnt_le_1_unique [of RwIdle "rwthr s" "RwHold RW_WRITE" t u] by auto
  qed
  moreover have "(\<exists>u opn'. rwthr s u = RwHold opn' \<or> rwthr s u = RwWoken opn') \<or> rwsem (rwlk s) > 0"
    if w: "rwthr s t = RwWait opn"
  proof (rule ccontr)
    assume no: "\<not> ?thesis"
    have z: "?c (RwHold o') = 0" "?c (RwWoken o') = 0" for o'
      using no pos [of "RwHold o'"] pos [of "RwWoken o'"] cnt_nonneg [of "rwthr s"] by (auto simp: order_le_less)
    have "0 < ?c (RwWait opn)" using w by (auto simp: pos)
    then have "0 < rwwaits (rwlk s)"
      using inv z cnt_nonneg [of "rwthr s" "RwWait RW_READ"] cnt_nonneg [of "rwthr s" "RwWait RW_WRITE"]
      by (cases opn) auto
    with inv z no show False by auto
  qed
  ultimately show ?thesis by blast
qed

theorem rwlock_exclusive_witness:
  "rwthr (rwinit\<lparr>rwlk := (rwlk rwinit)\<lparr>rwcount := -1\<rparr>, rwthr := (rwthr rwinit)(3 := RwHold RW_WRITE)\<rparr>) 4 \<noteq>
     RwHold RW_READ"
proof -
  let ?s = "rwinit\<lparr>rwlk := (rwlk rwinit)\<lparr>rwcount := -1\<rparr>, rwthr := (rwthr rwinit)(3 := RwHold RW_WRITE)\<rparr>"
  have "rwstep rwinit ?s"
    using rw_req [of rwinit 3 RW_WRITE "(rwlk rwinit)\<lparr>rwcount := -1\<rparr>" False]
    by (simp add: rwinit_def rwcrt_def rwreq_start_def rw_busy_def rw_enter_def)
  then have r: "rwstep\<^sup>*\<^sup>* rwinit ?s" by (rule r_into_rtranclp)
  have "rwthr ?s 3 = RwHold RW_WRITE" by simp
  then show ?thesis using rwlock_exclusive [OF r, of 3 4 RW_READ] by auto
qed

text \<open>A failed \<open>usemtrydown\<close> does not restore the value: after the holder has left, the semaphore is
  free but its value is 0, and \<open>usemtrydown\<close> fails again.\<close>

lemma usemtrydown_sticks:
  "let v1 = fst (usemdown_add 1); v2 = fst (usemtrydown_add v1); v3 = fst (usemup_add v2)
   in \<not> snd (usemtrydown_add v1) \<and> v3 = 0 \<and> \<not> snd (usemtrydown_add v3)"
  by (simp add: usemdown_add_def usemtrydown_add_def usemup_add_def)

end
