(* ===== verification/Heap.thy ===== *)
theory Heap
  imports Memops Sync
begin

text \<open>
  The user heap of \<open>lib/c/stdlib/heap.c\<close>: \<open>malloc\<close>, \<open>calloc\<close>, \<open>free\<close> and \<open>realloc\<close> on singly linked
  lists of areas.

  The structs \<open>sMemArea\<close> live in pages of their own, which the heap never hands out; they are a
  store \<open>areas\<close> of records indexed by address, with \<open>next\<close> pointers as the code has them. The
  blocks with their guard words lie in the byte memory \<open>hmem\<close>. \<open>chgsize\<close>, the system call that
  grows the data segment, belongs to the kernel: it is a parameter that takes the kernel's state
  \<open>kern\<close>, a number of pages and the memory, and returns the old end or 0, the new memory and state.
  The heap lock is the semaphore of \<open>Sync\<close>, seen by a thread that runs alone: had an operation
  forgotten to release it, the next one would have no result.
\<close>

section \<open>State\<close>

record sMemArea =
  asize :: nat
  aaddr :: addr
  anext :: addr

type_synonym areas = "addr \<rightharpoonup> sMemArea"

record 'k heap =
  areas :: areas
  usableList :: addr
  freeList :: addr
  heapstart :: addr
  pageCount :: nat
  heapSem :: tUserSem
  hmem :: mem
  kern :: 'k

type_synonym 'k chgsize = "'k \<Rightarrow> nat \<Rightarrow> mem \<Rightarrow> addr \<times> mem \<times> 'k"

abbreviation PAGE_SIZE :: nat where "PAGE_SIZE \<equiv> 4096"
abbreviation AREA_SIZE :: nat where "AREA_SIZE \<equiv> 12"
abbreviation GUARD_MAGIC :: ulong where "GUARD_MAGIC \<equiv> 0xDEADBEEF"
abbreviation FREE_MAGIC :: ulong where "FREE_MAGIC \<equiv> 0xFEEEFEEE"

text \<open>\<open>ROUND_UP(size,sizeof(ulong)) + sizeof(ulong) * 4\<close>.\<close>

definition area_size :: "nat \<Rightarrow> nat" where
  "area_size sz = uadd (uadd sz 3 div 4 * 4) 16"

definition upd_area :: "areas \<Rightarrow> addr \<Rightarrow> (sMemArea \<Rightarrow> sMemArea) \<Rightarrow> areas option" where
  "upd_area ar p f = (case ar p of None \<Rightarrow> None | Some a \<Rightarrow> Some (ar(p \<mapsto> f a)))"

definition set_next :: "areas \<Rightarrow> addr \<Rightarrow> addr \<Rightarrow> areas option" where
  "set_next ar p q = upd_area ar p (\<lambda>a. a\<lparr>anext := q\<rparr>)"

text \<open>\<open>if(p) p->next = q; else usableList = q;\<close> the new areas and the new list head.\<close>

definition relink :: "areas \<Rightarrow> addr \<Rightarrow> addr \<Rightarrow> addr \<Rightarrow> (areas \<times> addr) option" where
  "relink ar ul p q =
     (if p \<noteq> 0 then do { ar' \<leftarrow> set_next ar p q; Some (ar', ul) } else Some (ar, q))"

text \<open>\<open>initHeap\<close>: the heap of a new program; \<open>None\<close> when the lock cannot be created.\<close>

definition initHeap :: "bool \<Rightarrow> mem \<Rightarrow> 'k \<Rightarrow> 'k heap option" where
  "initHeap semcrt_ok m k =
     (if \<not> semcrt_ok then None
      else Some \<lparr>areas = Map.empty, usableList = 0, freeList = 0, heapstart = 0, pageCount = 0,
        heapSem = usemcrt 1, hmem = m, kern = k\<rparr>)"

section \<open>Getting memory from the kernel\<close>

text \<open>
  The loop of \<open>loadNewAreas\<close>: \<open>n\<close> structs from \<open>area\<close> on go to the front of the list. Only the
  \<open>next\<close> field of a struct on the free list is ever read.
\<close>

fun link_areas :: "areas \<Rightarrow> addr \<Rightarrow> addr \<Rightarrow> nat \<Rightarrow> areas \<times> addr" where
  "link_areas ar fl area 0 = (ar, fl)"
| "link_areas ar fl area (Suc n) =
     link_areas (ar(area \<mapsto> \<lparr>asize = 0, aaddr = 0, anext = fl\<rparr>)) area (area + AREA_SIZE) n"

definition loadNewAreas :: "'k chgsize \<Rightarrow> 'k heap \<Rightarrow> bool \<times> 'k heap" where
  "loadNewAreas chgsize h = (case chgsize (kern h) 1 (hmem h) of (oldEnd, m, k) \<Rightarrow>
     if oldEnd = 0 then (False, h\<lparr>hmem := m, kern := k\<rparr>)
     else (case link_areas (areas h) 0 oldEnd (PAGE_SIZE div AREA_SIZE) of (ar, fl) \<Rightarrow>
       (True, h\<lparr>areas := ar, freeList := fl,
          heapstart := (if pageCount h = 0 then oldEnd else heapstart h),
          pageCount := pageCount h + 1, hmem := m, kern := k\<rparr>)))"

definition loadNewSpace :: "'k chgsize \<Rightarrow> 'k heap \<Rightarrow> nat \<Rightarrow> (bool \<times> 'k heap) option" where
  "loadNewSpace chgsize h0 sz = (
     case (if freeList h0 = 0 then loadNewAreas chgsize h0 else (True, h0)) of (ok, h) \<Rightarrow>
     if \<not> ok then Some (False, h)
     else if uadd sz PAGE_SIZE < PAGE_SIZE then Some (False, h)
     else let cnt = (sz + PAGE_SIZE - 1) div PAGE_SIZE in
       case chgsize (kern h) cnt (hmem h) of (oldEnd, m, k) \<Rightarrow>
       if oldEnd = 0 then Some (False, h\<lparr>hmem := m, kern := k\<rparr>)
       else do {
         let area = freeList h;
         a \<leftarrow> areas h area;
         Some (True, h\<lparr>areas := (areas h)(area \<mapsto>
             \<lparr>asize = PAGE_SIZE * cnt, aaddr = oldEnd, anext = usableList h\<rparr>),
           freeList := anext a, usableList := area,
           heapstart := (if pageCount h = 0 then oldEnd else heapstart h),
           pageCount := pageCount h + cnt, hmem := m, kern := k\<rparr>) })"

section \<open>malloc and calloc\<close>

text \<open>The first area that is big enough, and the one before it.\<close>

partial_function (option) find_area :: "areas \<Rightarrow> addr \<Rightarrow> addr \<Rightarrow> nat \<Rightarrow> (addr \<times> addr) option" where
  "find_area ar prev area sz =
     (if area = 0 then Some (prev, 0)
      else do {
        a \<leftarrow> ar area;
        if asize a \<ge> sz then Some (prev, area) else find_area ar area (anext a) sz })"

text \<open>Take an area from the usable list: the search, and new space when it fails.\<close>

definition take_area :: "'k chgsize \<Rightarrow> 'k heap \<Rightarrow> nat \<Rightarrow> (addr \<times> 'k heap) option" where
  "take_area chgsize h sz = do {
     (prev, area) \<leftarrow> find_area (areas h) 0 (usableList h) sz;
     if area = 0 then do {
       (ok, h1) \<leftarrow> loadNewSpace chgsize h sz;
       if \<not> ok then Some (0, h1)
       else do {
         a \<leftarrow> areas h1 (usableList h1);
         Some (usableList h1, h1\<lparr>usableList := anext a\<rparr>) } }
     else do {
       a \<leftarrow> areas h area;
       (ar, ul) \<leftarrow> relink (areas h) (usableList h) prev (anext a);
       Some (area, h\<lparr>areas := ar, usableList := ul\<rparr>) } }"

text \<open>Give the rest of an area that is too big back to the usable list.\<close>

definition split_area :: "'k chgsize \<Rightarrow> 'k heap \<Rightarrow> addr \<Rightarrow> nat \<Rightarrow> (bool \<times> 'k heap) option" where
  "split_area chgsize h area sz = do {
     a \<leftarrow> areas h area;
     if sz < asize a then (
       case (if freeList h = 0 then loadNewAreas chgsize h else (True, h)) of (ok, h1) \<Rightarrow>
       if \<not> ok then Some (False, h1)
       else do {
         let narea = freeList h1;
         n \<leftarrow> areas h1 narea;
         a1 \<leftarrow> areas h1 area;
         let ar = (areas h1)(narea \<mapsto> \<lparr>asize = asize a1 - sz, aaddr = uadd (aaddr a1) sz,
             anext = usableList h1\<rparr>);
         ar' \<leftarrow> upd_area ar area (\<lambda>a. a\<lparr>asize := sz\<rparr>);
         Some (True, h1\<lparr>areas := ar', freeList := anext n, usableList := narea\<rparr>) })
     else Some (True, h) }"

text \<open>\<open>begin[0]\<close>, \<open>begin[1]\<close>, \<open>begin[2]\<close> and the guard behind the payload.\<close>

definition add_guards :: "mem \<Rightarrow> addr \<Rightarrow> addr \<Rightarrow> nat \<Rightarrow> mem option" where
  "add_guards m blk area sz = do {
     m1 \<leftarrow> store_ulong m blk (word_of_nat area);
     m2 \<leftarrow> store_ulong m1 (blk + 4) (word_of_nat sz - 16);
     m3 \<leftarrow> store_ulong m2 (blk + 8) GUARD_MAGIC;
     store_ulong m3 (blk + 4 * (sz div 4) - 4) GUARD_MAGIC }"

definition malloc :: "'k chgsize \<Rightarrow> 'k heap \<Rightarrow> nat \<Rightarrow> (addr \<times> 'k heap) option" where
  "malloc chgsize h size0 =
     (if size0 = 0 then Some (0, h)
      else do {
        s \<leftarrow> usemdown (heapSem h);
        let h1 = h\<lparr>heapSem := s\<rparr>;
        let sz = area_size size0;
        (area, h2) \<leftarrow> take_area chgsize h1 sz;
        if area = 0 then Some (0, h2\<lparr>heapSem := usemup (heapSem h2)\<rparr>)
        else do {
          (ok, h3) \<leftarrow> split_area chgsize h2 area sz;
          if \<not> ok then Some (0, h3\<lparr>heapSem := usemup (heapSem h3)\<rparr>)
          else do {
            a \<leftarrow> areas h3 area;
            m \<leftarrow> add_guards (hmem h3) (aaddr a) area sz;
            Some (aaddr a + 12, h3\<lparr>hmem := m, heapSem := usemup (heapSem h3)\<rparr>) } } })"

definition calloc :: "'k chgsize \<Rightarrow> 'k heap \<Rightarrow> nat \<Rightarrow> nat \<Rightarrow> (addr \<times> 'k heap) option" where
  "calloc chgsize h num sz = do {
     let n = num * sz mod 2 ^ 32;
     (a, h1) \<leftarrow> malloc chgsize h n;
     if a = 0 then Some (0, h1)
     else do {
       (r, m) \<leftarrow> memset (hmem h1) a 0 n;
       Some (a, h1\<lparr>hmem := m\<rparr>) } }"

section \<open>free\<close>

record neighbours =
  prv :: addr
  nxt :: addr
  pprev :: addr
  nprev :: addr

text \<open>The areas on the usable list that end at \<open>blk\<close> and that start at \<open>bend\<close>, and those before them.\<close>

partial_function (option) find_neighbours ::
  "areas \<Rightarrow> addr \<Rightarrow> addr \<Rightarrow> addr \<Rightarrow> addr \<Rightarrow> neighbours \<Rightarrow> neighbours option" where
  "find_neighbours ar a tprev blk bend nb =
     (if a = 0 then Some nb
      else do {
        x \<leftarrow> ar a;
        let nb1 = (if uadd (aaddr x) (asize x) = blk then nb\<lparr>prv := a, pprev := tprev\<rparr> else nb);
        let nb2 = (if aaddr x = bend then nb1\<lparr>nxt := a, nprev := tprev\<rparr> else nb1);
        if prv nb2 \<noteq> 0 \<and> nxt nb2 \<noteq> 0 then Some nb2
        else find_neighbours ar (anext x) a blk bend nb2 })"


text \<open>Areas, usable list and free list after merging \<open>area\<close> with both, one or none of its neighbours.\<close>

definition merge_both ::
  "areas \<Rightarrow> addr \<Rightarrow> addr \<Rightarrow> addr \<Rightarrow> neighbours \<Rightarrow> (areas \<times> addr \<times> addr) option" where
  "merge_both ar ul fl area nb = do {
     p \<leftarrow> ar (prv nb);
     n \<leftarrow> ar (nxt nb);
     ar1 \<leftarrow> upd_area ar area (\<lambda>a. a\<lparr>asize := uadd (asize a) (uadd (asize p) (asize n)), aaddr := aaddr p\<rparr>);
     n1 \<leftarrow> ar1 (nxt nb);
     (ar2, ul2) \<leftarrow> relink ar1 ul (nprev nb) (anext n1);
     p2 \<leftarrow> ar2 (prv nb);
     (ar3, ul3) \<leftarrow> (if pprev nb = nxt nb then relink ar2 ul2 (nprev nb) (anext p2)
       else relink ar2 ul2 (pprev nb) (anext p2));
     ar4 \<leftarrow> set_next ar3 area ul3;
     ar5 \<leftarrow> set_next ar4 (prv nb) (nxt nb);
     ar6 \<leftarrow> set_next ar5 (nxt nb) fl;
     Some (ar6, area, prv nb) }"

definition merge_area ::
  "areas \<Rightarrow> addr \<Rightarrow> addr \<Rightarrow> addr \<Rightarrow> neighbours \<Rightarrow> (areas \<times> addr \<times> addr) option" where
  "merge_area ar ul fl area nb =
     (if prv nb \<noteq> 0 \<and> nxt nb \<noteq> 0 then merge_both ar ul fl area nb
      else if prv nb \<noteq> 0 then do {
        a \<leftarrow> ar area;
        ar1 \<leftarrow> upd_area ar (prv nb) (\<lambda>p. p\<lparr>asize := uadd (asize p) (asize a)\<rparr>);
        ar2 \<leftarrow> set_next ar1 area fl;
        Some (ar2, ul, area) }
      else if nxt nb \<noteq> 0 then do {
        a \<leftarrow> ar area;
        ar1 \<leftarrow> upd_area ar (nxt nb) (\<lambda>n. n\<lparr>aaddr := aaddr a, asize := uadd (asize n) (asize a)\<rparr>);
        ar2 \<leftarrow> set_next ar1 area fl;
        Some (ar2, ul, area) }
      else do {
        ar1 \<leftarrow> set_next ar area ul;
        Some (ar1, area, fl) })"

text \<open>The checks at the start of \<open>free\<close> and \<open>realloc\<close>; the result is the area.\<close>

definition check_guards :: "mem \<Rightarrow> addr \<Rightarrow> addr option" where
  "check_guards m blk = do {
     g0 \<leftarrow> load_ulong m blk;
     vassert (g0 \<noteq> FREE_MAGIC);
     g2 \<leftarrow> load_ulong m (blk + 8);
     vassert (g2 = GUARD_MAGIC);
     g1 \<leftarrow> load_ulong m (blk + 4);
     ge \<leftarrow> load_ulong m (blk + 4 * (unat g1 div 4 + 3));
     vassert (ge = GUARD_MAGIC);
     Some (unat g0) }"

definition free :: "'k heap \<Rightarrow> addr \<Rightarrow> 'k heap option" where
  "free h addr =
     (if addr = 0 then Some h
      else do {
        let blk = addr - 12;
        area \<leftarrow> check_guards (hmem h) blk;
        s \<leftarrow> usemdown (heapSem h);
        m \<leftarrow> store_ulong (hmem h) blk FREE_MAGIC;
        a \<leftarrow> areas h area;
        nb \<leftarrow> find_neighbours (areas h) (usableList h) 0 blk (uadd blk (asize a))
          \<lparr>prv = 0, nxt = 0, pprev = 0, nprev = 0\<rparr>;
        (ar, ul, fl) \<leftarrow> merge_area (areas h) (usableList h) (freeList h) area nb;
        Some (h\<lparr>areas := ar, usableList := ul, freeList := fl, hmem := m, heapSem := usemup s\<rparr>) })"

section \<open>realloc\<close>

text \<open>The area that starts at \<open>aend\<close>, and the one before it on the list.\<close>

partial_function (option) find_behind :: "areas \<Rightarrow> addr \<Rightarrow> addr \<Rightarrow> addr \<Rightarrow> (addr \<times> addr) option" where
  "find_behind ar a prev aend =
     (if a = 0 then Some (0, prev)
      else do {
        x \<leftarrow> ar a;
        if aaddr x = aend then Some (a, prev) else find_behind ar (anext x) a aend })"

text \<open>Grow \<open>area\<close> into the area \<open>a\<close> behind it: its front is cut off, or it is used up.\<close>

definition grow_area :: "'k heap \<Rightarrow> addr \<Rightarrow> addr \<Rightarrow> addr \<Rightarrow> nat \<Rightarrow> 'k heap option" where
  "grow_area h area a prev sz = do {
     x \<leftarrow> areas h area;
     b \<leftarrow> areas h a;
     h1 \<leftarrow> (if sz < uadd (asize x) (asize b) then do {
         ar \<leftarrow> upd_area (areas h) a (\<lambda>b. b\<lparr>aaddr := uadd (aaddr x) sz, asize := uadd (asize x) (asize b) - sz\<rparr>);
         Some (h\<lparr>areas := ar\<rparr>) }
       else do {
         (ar, ul) \<leftarrow> relink (areas h) (usableList h) prev (anext b);
         ar' \<leftarrow> set_next ar a (freeList h);
         Some (h\<lparr>areas := ar', usableList := ul, freeList := a\<rparr>) });
     ar \<leftarrow> upd_area (areas h1) area (\<lambda>x. x\<lparr>asize := sz\<rparr>);
     Some (h1\<lparr>areas := ar\<rparr>) }"

definition realloc :: "'k chgsize \<Rightarrow> 'k heap \<Rightarrow> addr \<Rightarrow> nat \<Rightarrow> (addr \<times> 'k heap) option" where
  "realloc chgsize h addr size0 =
     (if addr = 0 then malloc chgsize h size0
      else do {
        let blk = addr - 12;
        area \<leftarrow> check_guards (hmem h) blk;
        s \<leftarrow> usemdown (heapSem h);
        let sz = area_size size0;
        x \<leftarrow> areas h area;
        if sz < asize x then Some (addr, h\<lparr>heapSem := usemup s\<rparr>)
        else do {
          (a, prev) \<leftarrow> find_behind (areas h) (usableList h) 0 (uadd (aaddr x) (asize x));
          b \<leftarrow> (if a = 0 then Some 0 else do { b \<leftarrow> areas h a; Some (asize b) });
          if a \<noteq> 0 \<and> uadd (asize x) b \<ge> sz then do {
            h1 \<leftarrow> grow_area (h\<lparr>heapSem := s\<rparr>) area a prev sz;
            m \<leftarrow> add_guards (hmem h1) blk area sz;
            Some (blk + 12, h1\<lparr>hmem := m, heapSem := usemup (heapSem h1)\<rparr>) }
          else do {
            (q, h1) \<leftarrow> malloc chgsize (h\<lparr>heapSem := usemup s\<rparr>) sz;
            if q = 0 then Some (0, h1)
            else do {
              x1 \<leftarrow> areas h1 area;
              (r, m) \<leftarrow> memcpy (hmem h1) q addr (asize x1 - 16);
              h2 \<leftarrow> free (h1\<lparr>hmem := m\<rparr>) addr;
              Some (q, h2) } } } })"

section \<open>Inspection\<close>

definition isOnHeap :: "'k heap \<Rightarrow> addr \<Rightarrow> bool" where
  "isOnHeap h p \<longleftrightarrow> p \<ge> heapstart h \<and> p < uadd (heapstart h) (pageCount h * PAGE_SIZE)"

partial_function (option) heapspace_loop :: "areas \<Rightarrow> addr \<Rightarrow> nat \<Rightarrow> nat option" where
  "heapspace_loop ar area c =
     (if area = 0 then Some c
      else do { a \<leftarrow> ar area; heapspace_loop ar (anext a) (uadd c (asize a)) })"

definition heapspace :: "'k heap \<Rightarrow> nat option" where
  "heapspace h = heapspace_loop (areas h) (usableList h) 0"

section \<open>Linked lists of areas\<close>

text \<open>The \<open>next\<close> pointers alone, and the list they form from \<open>p\<close>.\<close>

definition nx :: "areas \<Rightarrow> addr \<rightharpoonup> addr" where
  "nx ar p = map_option anext (ar p)"

primrec linked :: "(addr \<rightharpoonup> addr) \<Rightarrow> addr \<Rightarrow> addr list \<Rightarrow> bool" where
  "linked N p [] = (p = 0)"
| "linked N p (q # qs) = (p = q \<and> q \<noteq> 0 \<and> (\<exists>r. N q = Some r \<and> linked N r qs))"

definition hd0 :: "addr list \<Rightarrow> addr" where
  "hd0 xs = (case xs of [] \<Rightarrow> 0 | x # _ \<Rightarrow> x)"

definition last0 :: "addr list \<Rightarrow> addr" where
  "last0 xs = (if xs = [] then 0 else last xs)"

definition pred0 :: "addr list \<Rightarrow> addr \<Rightarrow> addr" where
  "pred0 us q = last0 (takeWhile (\<lambda>x. x \<noteq> q) us)"

lemma nx_simps [simp]:
  "nx (ar(p \<mapsto> a)) = (nx ar)(p \<mapsto> anext a)"
  "ar p = Some a \<Longrightarrow> nx ar p = Some (anext a)"
  by (auto simp: nx_def)

lemma nx_SomeE: "nx ar p = Some q \<Longrightarrow> \<exists>a. ar p = Some a \<and> anext a = q"
  by (auto simp: nx_def)

lemma hd0_simps [simp]: "hd0 [] = 0" "hd0 (x # xs) = x"
  by (simp_all add: hd0_def)

lemma last0_simps [simp]: "last0 [] = 0" "last0 (xs @ [x]) = x"
  by (simp_all add: last0_def)

lemma last0_in: "xs \<noteq> [] \<Longrightarrow> last0 xs \<in> set xs"
  by (simp add: last0_def)

lemma linked_hd0: "linked N p xs \<Longrightarrow> p = hd0 xs"
  by (cases xs) simp_all

lemma linked_nonzero: "linked N p xs \<Longrightarrow> 0 \<notin> set xs"
  by (induction xs arbitrary: p) auto

lemma linked_dom: "linked N p xs \<Longrightarrow> q \<in> set xs \<Longrightarrow> \<exists>r. N q = Some r"
  by (induction xs arbitrary: p) auto

lemma linked_cong:
  assumes "\<And>q. q \<in> set xs \<Longrightarrow> N q = N' q"
  shows "linked N p xs = linked N' p xs"
  using assms by (induction xs arbitrary: p) auto

lemma linked_upd_other [simp]: "q \<notin> set xs \<Longrightarrow> linked (N(q \<mapsto> r)) p xs = linked N p xs"
  by (rule linked_cong) auto

lemma linked_upd_same [simp]: "N q = Some r \<Longrightarrow> N(q \<mapsto> r) = N"
  by (rule fun_upd_idem)

lemma linked_next: "linked N p (xs @ q # ys) \<Longrightarrow> N q = Some (hd0 ys)"
  by (induction xs arbitrary: p) (auto dest: linked_hd0)

lemma linked_cons: "linked N r xs \<Longrightarrow> q \<noteq> 0 \<Longrightarrow> q \<notin> set xs \<Longrightarrow> linked (N(q \<mapsto> r)) q (q # xs)"
  by simp

text \<open>Taking \<open>q\<close> out of a list by relinking the element before it.\<close>

lemma linked_unlink:
  assumes "linked N p (xs @ q # ys)" "distinct (xs @ q # ys)"
  shows "linked (if xs = [] then N else N(last xs \<mapsto> hd0 ys)) (if xs = [] then hd0 ys else p) (xs @ ys)"
  using assms
proof (induction xs arbitrary: p)
  case Nil
  then show ?case by (auto dest: linked_hd0)
next
  case (Cons x xs)
  from Cons.prems obtain r where r: "p = x" "x \<noteq> 0" "N x = Some r" "linked N r (xs @ q # ys)" by auto
  have IH: "linked (if xs = [] then N else N(last xs \<mapsto> hd0 ys)) (if xs = [] then hd0 ys else r) (xs @ ys)"
    using Cons.IH [OF r(4)] Cons.prems(2) by simp
  show ?case
  proof (cases "xs = []")
    case True
    have "linked (N(x \<mapsto> hd0 ys)) (hd0 ys) ys"
      using IH True Cons.prems(2) by (subst linked_upd_other) auto
    with True r show ?thesis by (simp add: fun_upd_def)
  next
    case False
    then have "last xs \<noteq> x" using Cons.prems(2) by auto
    with False IH r show ?thesis by (simp add: fun_upd_def)
  qed
qed

lemma pred0_append: "q \<notin> set xs \<Longrightarrow> pred0 (xs @ q # ys) q = last0 xs"
proof -
  assume "q \<notin> set xs"
  then have "takeWhile (\<lambda>x. x \<noteq> q) (xs @ q # ys) = xs" by (subst takeWhile_append2) auto
  then show ?thesis by (simp add: pred0_def)
qed

lemma pred0_in: "pred0 us q = 0 \<or> pred0 us q \<in> set us"
proof (cases "takeWhile (\<lambda>x. x \<noteq> q) us = []")
  case False
  then have "last (takeWhile (\<lambda>x. x \<noteq> q) us) \<in> set us" by (metis last_in_set set_takeWhileD)
  with False show ?thesis by (simp add: pred0_def last0_def)
qed (simp add: pred0_def)

lemma pred0_remove1:
  assumes "distinct us" "0 \<notin> set us" "n \<in> set us" "p \<in> set us" "p \<noteq> n"
  shows "pred0 (remove1 n us) p = (if pred0 us p = n then pred0 us n else pred0 us p)"
proof -
  obtain xs ys where us: "us = xs @ n # ys" "n \<notin> set xs" using split_list_first [OF assms(3)] by blast
  have r: "remove1 n us = xs @ ys" using us by (simp add: remove1_append)
  consider (left) "p \<in> set xs" | (right) "p \<in> set ys" using us assms(4,5) by auto
  then show ?thesis
  proof cases
    case left
    then obtain as bs where xs: "xs = as @ p # bs" "p \<notin> set as" using split_list_first [of p] by blast
    have "pred0 us p = last0 as" using us xs pred0_append [of p as "bs @ n # ys"] by simp
    moreover have "pred0 (xs @ ys) p = last0 as" using xs pred0_append [of p as "bs @ ys"] by simp
    moreover have "last0 as \<noteq> n" using us xs assms(2) last0_in [of as] by (cases "as = []") auto
    ultimately show ?thesis using r by simp
  next
    case right
    then obtain as bs where ys: "ys = as @ p # bs" "p \<notin> set as" using split_list_first [of p] by blast
    have px: "p \<notin> set xs" using us ys assms(1) by auto
    have 1: "pred0 us p = last0 (xs @ n # as)"
      using us ys px assms(5) pred0_append [of p "xs @ n # as" bs] by simp
    have 2: "pred0 (xs @ ys) p = last0 (xs @ as)" using ys px pred0_append [of p "xs @ as" bs] by simp
    have 3: "pred0 us n = last0 xs" using us pred0_append by simp
    show ?thesis
    proof (cases "as = []")
      case True
      with 1 2 3 r show ?thesis by (simp add: last0_def)
    next
      case False
      then have "last0 (xs @ n # as) = last as" "last0 (xs @ as) = last as" by (simp_all add: last0_def)
      moreover have "last as \<noteq> n" using False us ys assms(1) by auto
      ultimately show ?thesis using 1 2 r by simp
    qed
  qed
qed

lemma set_next_Some: "ar p = Some a \<Longrightarrow> set_next ar p q = Some (ar(p \<mapsto> a\<lparr>anext := q\<rparr>))"
  by (simp add: set_next_def upd_area_def)

text \<open>Two stores of areas that differ in \<open>next\<close> pointers only.\<close>

definition same_areas :: "areas \<Rightarrow> areas \<Rightarrow> bool" where
  "same_areas ar ar' \<longleftrightarrow> (\<forall>p. map_option (\<lambda>a. (asize a, aaddr a)) (ar p) = map_option (\<lambda>a. (asize a, aaddr a)) (ar' p))"

lemma same_areas_refl [simp]: "same_areas ar ar"
  by (simp add: same_areas_def)

lemma same_areas_trans: "same_areas ar ar' \<Longrightarrow> same_areas ar' ar'' \<Longrightarrow> same_areas ar ar''"
  by (simp add: same_areas_def)

lemma same_areas_next: "ar p = Some a \<Longrightarrow> same_areas ar (ar(p \<mapsto> a\<lparr>anext := q\<rparr>))"
  by (simp add: same_areas_def)

lemma same_areasD:
  assumes "same_areas ar ar'" "ar p = Some a"
  shows "\<exists>n. ar' p = Some (a\<lparr>anext := n\<rparr>)"
proof -
  from assms obtain a' where "ar' p = Some a'" "asize a' = asize a" "aaddr a' = aaddr a"
    by (cases "ar' p") (auto simp: same_areas_def dest!: spec [of _ p])
  moreover have "a' = a\<lparr>anext := anext a'\<rparr>" using calculation by (cases a; cases a') simp
  ultimately show ?thesis by metis
qed

text \<open>\<open>relink\<close> behind the predecessor of \<open>q\<close> takes \<open>q\<close> out of the list.\<close>

lemma relink_remove1:
  assumes "linked (nx ar) ul us" "distinct us" "q \<in> set us" "ar q = Some b"
  shows "\<exists>ar' ul'. relink ar ul (pred0 us q) (anext b) = Some (ar', ul') \<and>
    linked (nx ar') ul' (remove1 q us) \<and> same_areas ar ar' \<and>
    (\<forall>p. p \<notin> set us \<or> p = q \<longrightarrow> ar' p = ar p)"
proof -
  obtain xs ys where us: "us = xs @ q # ys" "q \<notin> set xs" using split_list_first [OF assms(3)] by blast
  have n: "anext b = hd0 ys" using assms(1,4) us linked_next [of "nx ar" ul xs q ys] by simp
  have p: "pred0 us q = last0 xs" using us pred0_append by simp
  have rm: "remove1 q us = xs @ ys" using us by (simp add: remove1_append)
  note ul = linked_unlink [OF assms(1,2) [unfolded us(1)]]
  show ?thesis
  proof (cases "xs = []")
    case True
    with ul n p rm show ?thesis by (auto simp: relink_def)
  next
    case False
    then have l: "last xs \<in> set us" "last xs \<noteq> q" using us by auto
    from linked_dom [OF assms(1) l(1)] obtain c where c: "ar (last xs) = Some c" by (auto dest: nx_SomeE)
    have "last xs \<noteq> 0" using linked_nonzero [OF assms(1)] l(1) by (metis (full_types))
    with False n p have "relink ar ul (pred0 us q) (anext b) = Some (ar(last xs \<mapsto> c\<lparr>anext := hd0 ys\<rparr>), ul)"
      using set_next_Some [of ar "last xs" c] c by (simp add: relink_def last0_def)
    with False ul rm l same_areas_next [of ar "last xs" c] c show ?thesis by auto
  qed
qed

text \<open>The search for the neighbours.\<close>

definition neighbours_ok :: "areas \<Rightarrow> addr list \<Rightarrow> addr list \<Rightarrow> addr \<Rightarrow> addr \<Rightarrow> neighbours \<Rightarrow> bool" where
  "neighbours_ok ar us visited blk bend nb \<longleftrightarrow>
     (if prv nb = 0 then \<forall>p \<in> set visited. \<forall>a. ar p = Some a \<longrightarrow> uadd (aaddr a) (asize a) \<noteq> blk
      else prv nb \<in> set us \<and> pprev nb = pred0 us (prv nb) \<and>
        (\<exists>a. ar (prv nb) = Some a \<and> uadd (aaddr a) (asize a) = blk)) \<and>
     (if nxt nb = 0 then \<forall>p \<in> set visited. \<forall>a. ar p = Some a \<longrightarrow> aaddr a \<noteq> bend
      else nxt nb \<in> set us \<and> nprev nb = pred0 us (nxt nb) \<and>
        (\<exists>a. ar (nxt nb) = Some a \<and> aaddr a = bend))"

lemma find_neighbours_linked:
  assumes "linked (nx ar) a rest" "us = visited @ rest" "distinct us" "0 \<notin> set us"
    "neighbours_ok ar us visited blk bend nb"
  shows "\<exists>nb'. find_neighbours ar a (last0 visited) blk bend nb = Some nb' \<and> neighbours_ok ar us us blk bend nb'"
  using assms
proof (induction rest arbitrary: a visited nb)
  case Nil
  then show ?case by (subst find_neighbours.simps) simp
next
  case (Cons x rest)
  then obtain ax where x: "a = x" "x \<noteq> 0" "ar x = Some ax" "linked (nx ar) (anext ax) rest"
    by (auto dest: nx_SomeE)
  have px: "pred0 us x = last0 visited" using Cons.prems(2,3) pred0_append [of x visited rest] by auto
  define nb1 where "nb1 = (if uadd (aaddr ax) (asize ax) = blk then nb\<lparr>prv := x, pprev := last0 visited\<rparr> else nb)"
  define nb2 where "nb2 = (if aaddr ax = bend then nb1\<lparr>nxt := x, nprev := last0 visited\<rparr> else nb1)"
  have ok: "neighbours_ok ar us (visited @ [x]) blk bend nb2"
    using Cons.prems(2,5) x px by (auto simp: neighbours_ok_def nb1_def nb2_def)
  have step: "find_neighbours ar a (last0 visited) blk bend nb =
      (if prv nb2 \<noteq> 0 \<and> nxt nb2 \<noteq> 0 then Some nb2 else find_neighbours ar (anext ax) x blk bend nb2)"
    using x by (subst find_neighbours.simps) (simp add: Let_def nb1_def nb2_def)
  show ?case
  proof (cases "prv nb2 \<noteq> 0 \<and> nxt nb2 \<noteq> 0")
    case True
    with ok step show ?thesis by (simp add: neighbours_ok_def)
  next
    case False
    have "\<exists>nb'. find_neighbours ar (anext ax) (last0 (visited @ [x])) blk bend nb2 = Some nb' \<and>
        neighbours_ok ar us us blk bend nb'"
      using Cons.prems(2-4) ok by (intro Cons.IH [OF x(4)]) auto
    with False step show ?thesis by auto
  qed
qed

section \<open>Words in memory\<close>

definition ulong_bytes :: "ulong \<Rightarrow> byte list" where
  "ulong_bytes w = [ucast w, ucast (drop_bit 8 w), ucast (drop_bit 16 w), ucast (drop_bit 24 w)]"

lemma length_ulong_bytes [simp]: "length (ulong_bytes w) = 4"
  by (simp add: ulong_bytes_def)

lemma store_ulong_upd:
  assumes "mapped m p 4"
  shows "store_ulong m p w = Some (upd m p (ulong_bytes w))"
proof -
  have "p \<in> dom m" "p + 1 \<in> dom m" "p + 2 \<in> dom m" "p + 3 \<in> dom m"
    using assms by (auto simp: mapped_iff dom_def dest: spec [of _ 0] spec [of _ 1] spec [of _ 2] spec [of _ 3])
  then show ?thesis by (simp add: store_ulong_def ulong_bytes_def eval_nat_numeral)
qed

lemma word_of_bytes:
  "ucast (ucast w :: byte) OR push_bit 8 (ucast (ucast (drop_bit 8 w) :: byte)) OR
   push_bit 16 (ucast (ucast (drop_bit 16 w) :: byte)) OR push_bit 24 (ucast (ucast (drop_bit 24 w) :: byte)) = (w :: ulong)"
proof (rule bit_word_eqI)
  fix n assume n: "n < LENGTH(32)"
  consider "n < 8" | "8 \<le> n" "n < 16" | "16 \<le> n" "n < 24" | "24 \<le> n" by linarith
  then show "bit (ucast (ucast w :: byte) OR push_bit 8 (ucast (ucast (drop_bit 8 w) :: byte)) OR
      push_bit 16 (ucast (ucast (drop_bit 16 w) :: byte)) OR
      push_bit 24 (ucast (ucast (drop_bit 24 w) :: byte)) :: ulong) n = bit w n"
    by cases (use n in \<open>auto simp: bit_or_iff bit_push_bit_iff bit_ucast_iff bit_drop_bit_eq\<close>)
qed

lemma load_ulong_bytes: "bytes_at m p (ulong_bytes w) \<Longrightarrow> load_ulong m p = Some w"
proof -
  assume b: "bytes_at m p (ulong_bytes w)"
  have "m p = Some (ucast w)" "m (p + 1) = Some (ucast (drop_bit 8 w))"
    "m (p + 2) = Some (ucast (drop_bit 16 w))" "m (p + 3) = Some (ucast (drop_bit 24 w))"
    using bytes_at_nth [OF b, of 0] bytes_at_nth [OF b, of 1] bytes_at_nth [OF b, of 2] bytes_at_nth [OF b, of 3]
    by (simp_all add: ulong_bytes_def)
  then show ?thesis using word_of_bytes [of w] by (simp add: load_ulong_def)
qed

section \<open>The invariant\<close>

definition rng :: "areas \<Rightarrow> addr \<Rightarrow> addr set" where
  "rng ar p = (case ar p of None \<Rightarrow> {} | Some a \<Rightarrow> {aaddr a ..< aaddr a + asize a})"

definition apart :: "areas \<Rightarrow> addr set \<Rightarrow> bool" where
  "apart ar A \<longleftrightarrow> pairwise (\<lambda>p q. rng ar p \<inter> rng ar q = {}) A"

definition area_ok :: "addr \<Rightarrow> mem \<Rightarrow> areas \<Rightarrow> addr \<Rightarrow> bool" where
  "area_ok tp m ar p \<longleftrightarrow> (\<exists>a. ar p = Some a \<and> 4 dvd aaddr a \<and> 4 dvd asize a \<and> 0 < asize a \<and>
     0 < aaddr a \<and> aaddr a + asize a \<le> tp \<and> mapped m (aaddr a) (asize a))"

definition guards_ok :: "mem \<Rightarrow> areas \<Rightarrow> addr \<Rightarrow> bool" where
  "guards_ok m ar p \<longleftrightarrow> (\<exists>a. ar p = Some a \<and> 16 \<le> asize a \<and>
     bytes_at m (aaddr a) (ulong_bytes (word_of_nat p)) \<and>
     bytes_at m (aaddr a + 4) (ulong_bytes (word_of_nat (asize a) - 16)) \<and>
     bytes_at m (aaddr a + 8) (ulong_bytes GUARD_MAGIC) \<and>
     bytes_at m (aaddr a + asize a - 4) (ulong_bytes GUARD_MAGIC))"

text \<open>
  \<open>us\<close> and \<open>fs\<close> are the usable and the free list, \<open>L\<close> the areas that belong to neither and whose
  memory is in use. Memory of the usable list and of \<open>L\<close> is mapped, below the end \<open>tp\<close> of the data
  segment, and no byte belongs to two areas.
\<close>

definition wf_areas ::
  "addr \<Rightarrow> areas \<Rightarrow> addr \<Rightarrow> addr \<Rightarrow> mem \<Rightarrow> addr list \<Rightarrow> addr list \<Rightarrow> addr set \<Rightarrow> bool" where
  "wf_areas tp ar ul fl m us fs L \<longleftrightarrow>
     tp \<le> 0xC0000000 \<and> (\<forall>p \<in> dom ar. p + AREA_SIZE \<le> tp) \<and>
     linked (nx ar) ul us \<and> linked (nx ar) fl fs \<and> distinct (us @ fs) \<and>
     L \<inter> set (us @ fs) = {} \<and> 0 \<notin> L \<and>
     (\<forall>p \<in> set us \<union> L. area_ok tp m ar p) \<and> apart ar (set us \<union> L)"

definition heap_ok :: "addr \<Rightarrow> 'k heap \<Rightarrow> addr list \<Rightarrow> addr list \<Rightarrow> addr set \<Rightarrow> bool" where
  "heap_ok tp h us fs L \<longleftrightarrow>
     wf_areas tp (areas h) (usableList h) (freeList h) (hmem h) us fs L \<and>
     (\<forall>p \<in> L. guards_ok (hmem h) (areas h) p)"

text \<open>The areas of \<open>L\<close> and their bytes stay as they are.\<close>

definition keeps :: "addr set \<Rightarrow> 'k heap \<Rightarrow> 'k heap \<Rightarrow> bool" where
  "keeps L h h' \<longleftrightarrow> (\<forall>p \<in> L. areas h' p = areas h p \<and> (\<forall>x \<in> rng (areas h) p. hmem h' x = hmem h x))"

lemma keeps_refl [simp]: "keeps L h h"
  by (simp add: keeps_def)

lemma keeps_trans: "keeps L h1 h2 \<Longrightarrow> keeps L h2 h3 \<Longrightarrow> keeps L h1 h3"
  by (auto simp: keeps_def rng_def)

lemma keeps_mono: "keeps L h h' \<Longrightarrow> L' \<subseteq> L \<Longrightarrow> keeps L' h h'"
  by (auto simp: keeps_def)

lemma guards_ok_cong:
  assumes "guards_ok m ar p" "ar' p = ar p" "\<And>x. x \<in> rng ar p \<Longrightarrow> m' x = m x"
  shows "guards_ok m' ar' p"
proof -
  from assms(1) obtain a where a: "ar p = Some a" "16 \<le> asize a" by (auto simp: guards_ok_def)
  have eq: "bytes_at m' q bs = bytes_at m q bs" if "aaddr a \<le> q" "q + length bs \<le> aaddr a + asize a" for q bs
    using that assms(3) a(1) by (intro bytes_at_cong) (auto simp: rng_def)
  from assms(1) a show ?thesis unfolding guards_ok_def assms(2) by (auto simp: eq)
qed

lemma keeps_guards: "keeps L h h' \<Longrightarrow> \<forall>p \<in> L. guards_ok (hmem h) (areas h) p \<Longrightarrow> p \<in> L \<Longrightarrow> guards_ok (hmem h') (areas h') p"
  by (rule guards_ok_cong [of "hmem h" "areas h"]) (auto simp: keeps_def)


lemma area_ok_mono:
  assumes "area_ok tp m ar p" "ar' p = ar p" "tp \<le> tp'" "\<And>x. x < tp \<Longrightarrow> m x \<noteq> None \<Longrightarrow> m' x \<noteq> None"
  shows "area_ok tp' m' ar' p"
proof -
  from assms(1) obtain a where a: "ar p = Some a" "4 dvd aaddr a" "4 dvd asize a" "0 < asize a"
    "0 < aaddr a" "aaddr a + asize a \<le> tp" "mapped m (aaddr a) (asize a)" by (auto simp: area_ok_def)
  have "mapped m' (aaddr a) (asize a)" using a(6,7) assms(4) by (simp add: mapped_iff)
  with a assms(2,3) show ?thesis by (auto simp: area_ok_def)
qed

lemma apart_subset: "apart ar A \<Longrightarrow> B \<subseteq> A \<Longrightarrow> apart ar B"
  by (auto simp: apart_def intro: pairwise_subset)

lemma apartD: "apart ar A \<Longrightarrow> p \<in> A \<Longrightarrow> q \<in> A \<Longrightarrow> p \<noteq> q \<Longrightarrow> rng ar p \<inter> rng ar q = {}"
  by (simp add: apart_def pairwise_def)

lemma apart_insert:
  "apart ar (insert p A) \<longleftrightarrow> (\<forall>q \<in> A. q \<noteq> p \<longrightarrow> rng ar p \<inter> rng ar q = {}) \<and> apart ar A"
  unfolding apart_def pairwise_insert by blast

lemma apart_cong: "(\<And>p. p \<in> A \<Longrightarrow> rng ar' p = rng ar p) \<Longrightarrow> apart ar' A = apart ar A"
  unfolding apart_def pairwise_def by simp

lemma area_ok_upd: "q \<noteq> p \<Longrightarrow> area_ok tp m (ar(p \<mapsto> x)) q = area_ok tp m ar q"
  by (simp add: area_ok_def)

lemma mapped_dom: "mapped m p n \<longleftrightarrow> (\<forall>i < n. p + i \<in> dom m)"
  by (simp add: mapped_iff domIff)

lemma wf_dom_eq: "dom m' = dom m \<Longrightarrow> wf_areas tp ar ul fl m' us fs L = wf_areas tp ar ul fl m us fs L"
  by (simp add: wf_areas_def area_ok_def mapped_dom)

lemma wf_areas_subset: "wf_areas tp ar ul fl m us fs L \<Longrightarrow> L' \<subseteq> L \<Longrightarrow> wf_areas tp ar ul fl m us fs L'"
  unfolding wf_areas_def by (auto elim: apart_subset)

lemma rng_same: "same_areas ar ar' \<Longrightarrow> rng ar' p = rng ar p"
proof -
  assume s: "same_areas ar ar'"
  show ?thesis
  proof (cases "ar p")
    case None
    then have "ar' p = None" using s by (auto simp: same_areas_def dest!: spec [of _ p])
    with None show ?thesis by (simp add: rng_def)
  next
    case (Some a)
    with same_areasD [OF s Some] show ?thesis by (auto simp: rng_def)
  qed
qed

lemma area_ok_same: "same_areas ar ar' \<Longrightarrow> area_ok tp m ar p \<Longrightarrow> area_ok tp m ar' p"
  unfolding area_ok_def by (auto dest: same_areasD)

lemma same_areas_dom: "same_areas ar ar' \<Longrightarrow> dom ar' = dom ar"
proof (intro set_eqI)
  fix x assume s: "same_areas ar ar'"
  show "x \<in> dom ar' \<longleftrightarrow> x \<in> dom ar"
    using s by (cases "ar x"; cases "ar' x") (auto simp: same_areas_def dest!: spec [of _ x])
qed

section \<open>Getting memory from the kernel: lemmas\<close>

text \<open>
  What the heap relies on: \<open>chgsize\<close> either fails and changes nothing, or extends the data segment,
  whose end is \<open>dend k\<close>, by the given number of mapped pages, below the kernel at 0xC0000000.
\<close>

locale data_segment =
  fixes chgsize :: "'k chgsize" and dend :: "'k \<Rightarrow> addr"
  assumes chgsize_law: "chgsize k n m = (p, m', k') \<Longrightarrow>
    p = 0 \<and> m' = m \<and> dend k' = dend k \<or>
    p = dend k \<and> 0 < p \<and> 4 dvd p \<and> dend k' = p + PAGE_SIZE * n \<and> dend k' \<le> 0xC0000000 \<and>
    mapped m' p (PAGE_SIZE * n) \<and> (\<forall>a. a < p \<or> p + PAGE_SIZE * n \<le> a \<longrightarrow> m' a = m a)"

definition new_areas :: "addr \<Rightarrow> nat \<Rightarrow> addr list" where
  "new_areas p n = rev (map (\<lambda>i. p + AREA_SIZE * i) [0..<n])"

lemma new_areas_Suc: "new_areas p (Suc n) = new_areas (p + AREA_SIZE) n @ [p]"
proof -
  have "map (\<lambda>i. p + AREA_SIZE * i) [0..<Suc n] = p # map (\<lambda>i. p + AREA_SIZE + AREA_SIZE * i) [0..<n]"
    by (simp add: upt_conv_Cons map_Suc_upt [symmetric] del: upt_Suc)
  then show ?thesis by (simp add: new_areas_def)
qed

lemma link_areas_linked:
  assumes "linked (nx ar) fl fs" "0 < area" "\<And>q. q \<in> set fs \<Longrightarrow> q < area \<or> area + AREA_SIZE * n \<le> q"
  shows "\<exists>ar' fl'. link_areas ar fl area n = (ar', fl') \<and> linked (nx ar') fl' (new_areas area n @ fs) \<and>
    (\<forall>q. q < area \<longrightarrow> ar' q = ar q) \<and> dom ar' = dom ar \<union> set (new_areas area n)"
  using assms
proof (induction n arbitrary: ar fl area fs)
  case 0
  then show ?case by (simp add: new_areas_def)
next
  case (Suc n)
  let ?ar = "ar(area \<mapsto> \<lparr>asize = 0, aaddr = 0, anext = fl\<rparr>)"
  have "area \<notin> set fs" using Suc.prems(3) [of area] by auto
  then have l: "linked (nx ?ar) area (area # fs)" using Suc.prems(1,2) by simp
  have "\<exists>ar' fl'. link_areas ?ar area (area + AREA_SIZE) n = (ar', fl') \<and>
      linked (nx ar') fl' (new_areas (area + AREA_SIZE) n @ area # fs) \<and>
      (\<forall>q. q < area + AREA_SIZE \<longrightarrow> ar' q = ?ar q) \<and> dom ar' = dom ?ar \<union> set (new_areas (area + AREA_SIZE) n)"
    by (rule Suc.IH [OF l]) (use Suc.prems(3) in \<open>fastforce simp: algebra_simps\<close>)+
  then show ?case by (auto simp: new_areas_Suc)
qed

lemma new_areas_set: "q \<in> set (new_areas p n) \<Longrightarrow> p \<le> q \<and> q + AREA_SIZE \<le> p + AREA_SIZE * n"
  by (auto simp: new_areas_def)

lemma new_areas_distinct: "distinct (new_areas p n)"
  by (auto simp: new_areas_def distinct_map inj_on_def)

section \<open>Steps on the lists\<close>

lemma wfI:
  assumes "tp \<le> 0xC0000000" "\<And>p. p \<in> dom ar \<Longrightarrow> p + AREA_SIZE \<le> tp"
    "linked (nx ar) ul us" "linked (nx ar) fl fs" "distinct us" "distinct fs" "set us \<inter> set fs = {}"
    "L \<inter> set us = {}" "L \<inter> set fs = {}" "0 \<notin> L" "\<And>p. p \<in> set us \<union> L \<Longrightarrow> area_ok tp m ar p"
    "apart ar (set us \<union> L)"
  shows "wf_areas tp ar ul fl m us fs L"
  using assms unfolding wf_areas_def by auto

lemma wfD:
  assumes "wf_areas tp ar ul fl m us fs L"
  shows "tp \<le> 0xC0000000" "p \<in> dom ar \<Longrightarrow> p + AREA_SIZE \<le> tp"
    "linked (nx ar) ul us" "linked (nx ar) fl fs" "distinct us" "distinct fs" "set us \<inter> set fs = {}"
    "L \<inter> set us = {}" "L \<inter> set fs = {}" "0 \<notin> L" "p \<in> set us \<union> L \<Longrightarrow> area_ok tp m ar p"
    "apart ar (set us \<union> L)"
  using assms unfolding wf_areas_def by auto

lemma wf_dom: "wf_areas tp ar ul fl m us fs L \<Longrightarrow> p \<in> set us \<union> set fs \<union> L \<Longrightarrow> p \<in> dom ar"
  using wfD(4,11) linked_dom nx_SomeE unfolding area_ok_def by (metis Un_iff domI)

lemma wf_below:
  assumes "wf_areas tp ar ul fl m us fs L" "p \<in> set us \<union> set fs \<union> L"
  shows "p < tp"
  using wfD(2) [OF assms(1) wf_dom [OF assms]] by simp

text \<open>An area leaves the usable list.\<close>

lemma wf_unlink:
  assumes w: "wf_areas tp ar ul fl m us fs L" and q: "q \<in> set us" "ar q = Some b"
  shows "\<exists>ar' ul'. relink ar ul (pred0 us q) (anext b) = Some (ar', ul') \<and>
    wf_areas tp ar' ul' fl m (remove1 q us) fs (insert q L) \<and> (\<forall>p. p \<notin> set us \<or> p = q \<longrightarrow> ar' p = ar p) \<and>
    same_areas ar ar'"
proof -
  note d = wfD [OF w]
  from relink_remove1 [OF d(3,5) q] obtain ar' ul' where r: "relink ar ul (pred0 us q) (anext b) = Some (ar', ul')"
    "linked (nx ar') ul' (remove1 q us)" "same_areas ar ar'" "\<forall>p. p \<notin> set us \<or> p = q \<longrightarrow> ar' p = ar p" by blast
  have "nx ar' p = nx ar p" if "p \<in> set fs" for p
    using r(4) d(7) that by (auto simp: nx_def)
  then have f: "linked (nx ar') fl fs" using d(4) linked_cong [of fs "nx ar'" "nx ar"] by simp
  have s: "set (remove1 q us) \<union> insert q L = set us \<union> L" using d(5) q(1) by auto
  have "wf_areas tp ar' ul' fl m (remove1 q us) fs (insert q L)"
  proof (rule wfI [OF d(1) _ r(2) f])
    show "apart ar' (set (remove1 q us) \<union> insert q L)"
      using d(12) apart_cong [of "set us \<union> L" ar' ar] rng_same [OF r(3)] unfolding s by simp
    show "area_ok tp m ar' p" if "p \<in> set (remove1 q us) \<union> insert q L" for p
      using that d(11) area_ok_same [OF r(3)] unfolding s by blast
    show "insert q L \<inter> set fs = {}" using d(7,9) q(1) by auto
    show "0 \<notin> insert q L" using d(10) linked_nonzero [OF d(3)] q(1) by (metis insertE)
  qed (use d same_areas_dom [OF r(3)] in \<open>auto dest: notin_set_remove1\<close>)
  with r show ?thesis by blast
qed

text \<open>An area in use goes to the free list or to the usable list.\<close>

lemma rng_upd [simp]:
  "rng (ar(p \<mapsto> x)) q = (if q = p then {aaddr x ..< aaddr x + asize x} else rng ar q)"
  by (simp add: rng_def)

lemma wf_discard:
  assumes w: "wf_areas tp ar ul fl m us fs L" and p: "p \<notin> set us \<union> set fs \<union> L" "p \<noteq> 0" "p \<in> dom ar" "anext x = fl"
  shows "wf_areas tp (ar(p \<mapsto> x)) ul p m us (p # fs) L"
proof -
  note d = wfD [OF w]
  have pn: "p \<notin> set us" "p \<notin> set fs" "p \<notin> L" using p(1) by auto
  show ?thesis
  proof (rule wfI [OF d(1)])
    show "apart (ar(p \<mapsto> x)) (set us \<union> L)"
      using pn d(12) by (subst apart_cong [of _ _ ar]) auto
    show "area_ok tp m (ar(p \<mapsto> x)) q" if "q \<in> set us \<union> L" for q
      using d(11) [of q] that pn by (subst area_ok_upd) auto
    show "linked (nx (ar(p \<mapsto> x))) p (p # fs)"
      using linked_cons [OF d(4) p(2) pn(2)] p(4) by (simp only: nx_simps)
  qed (use d p pn in auto)
qed

lemma wf_release:
  assumes w: "wf_areas tp ar ul fl m us fs L" and p: "p \<in> L" "ar p = Some a"
  shows "wf_areas tp (ar(p \<mapsto> a\<lparr>anext := ul\<rparr>)) p fl m (p # us) fs (L - {p})"
proof -
  note d = wfD [OF w]
  have pn: "p \<notin> set us" "p \<notin> set fs" using d(8,9) p(1) by auto
  have p0: "p \<noteq> 0" using d(10) p(1) by metis
  have s: "same_areas ar (ar(p \<mapsto> a\<lparr>anext := ul\<rparr>))" using p(2) by (simp add: same_areas_def)
  have e: "set (p # us) \<union> (L - {p}) = set us \<union> L" using p(1) by auto
  show ?thesis
  proof (rule wfI [OF d(1)])
    show "apart (ar(p \<mapsto> a\<lparr>anext := ul\<rparr>)) (set (p # us) \<union> (L - {p}))"
      unfolding e apart_cong [OF rng_same [OF s]] by (rule d(12))
    show "area_ok tp m (ar(p \<mapsto> a\<lparr>anext := ul\<rparr>)) q" if "q \<in> set (p # us) \<union> (L - {p})" for q
      using that d(11) area_ok_same [OF s] unfolding e by blast
    show "linked (nx (ar(p \<mapsto> a\<lparr>anext := ul\<rparr>))) p (p # us)"
      using linked_cons [OF d(3) p0 pn(1)] by simp
  qed (use d p pn in auto)
qed

text \<open>An area takes over memory of areas in use.\<close>

lemma apart_absorb:
  assumes ap: "apart ar (A \<union> Q)" and p: "p \<in> A" and Q: "A \<inter> Q = {}"
    and x: "{aaddr x ..< aaddr x + asize x} \<subseteq> rng ar p \<union> (\<Union>q \<in> Q. rng ar q)"
  shows "apart (ar(p \<mapsto> x)) A"
proof -
  have "rng ar q \<inter> {aaddr x ..< aaddr x + asize x} = {}" if "q \<in> A" "q \<noteq> p" for q
  proof -
    have "rng ar q \<inter> rng ar q' = {}" if "q' \<in> Q" for q'
      using apartD [OF ap, of q q'] \<open>q \<in> A\<close> that Q by auto
    moreover have "rng ar q \<inter> rng ar p = {}" using apartD [OF ap, of q p] that p by auto
    ultimately show ?thesis using x by blast
  qed
  moreover have "apart ar A" by (rule apart_subset [OF ap]) auto
  ultimately show ?thesis unfolding apart_def pairwise_def by (auto simp: Int_commute)
qed

lemma wf_absorb:
  assumes w: "wf_areas tp ar ul fl m us fs L" and p: "p \<in> set us \<union> L" "ar p = Some a" "anext x = anext a"
    and x: "area_ok tp m (ar(p \<mapsto> x)) p" "{aaddr x ..< aaddr x + asize x} \<subseteq> rng ar p \<union> (\<Union>q \<in> Q. rng ar q)"
    and Q: "Q \<subseteq> L" "p \<notin> Q"
  shows "wf_areas tp (ar(p \<mapsto> x)) ul fl m us fs (L - Q)"
proof -
  note d = wfD [OF w]
  have nx: "nx (ar(p \<mapsto> x)) = nx ar" using p(2,3) by simp
  have e: "set us \<union> L = (set us \<union> (L - Q)) \<union> Q" using Q(1) by auto
  show ?thesis
  proof (rule wfI [OF d(1)])
    show "apart (ar(p \<mapsto> x)) (set us \<union> (L - Q))"
      using d(8,12) p(1) Q x(2) unfolding e by (intro apart_absorb [of ar _ Q]) auto
    show "area_ok tp m (ar(p \<mapsto> x)) q" if "q \<in> set us \<union> (L - Q)" for q
      using x(1) d(11) [of q] that by (cases "q = p") (auto simp: area_ok_upd)
    show "linked (nx (ar(p \<mapsto> x))) ul us" "linked (nx (ar(p \<mapsto> x))) fl fs"
      unfolding nx using d(3,4) by auto
  qed (use d p(2) in auto)
qed

section \<open>malloc: lemmas\<close>

abbreviation hwf :: "('k \<Rightarrow> addr) \<Rightarrow> 'k heap \<Rightarrow> addr list \<Rightarrow> addr list \<Rightarrow> addr set \<Rightarrow> bool" where
  "hwf dend h us fs L \<equiv> wf_areas (dend (kern h)) (areas h) (usableList h) (freeList h) (hmem h) us fs L"

text \<open>The data segment grows, and new structs at its old end go to the free list.\<close>

lemma wf_grow:
  assumes w: "wf_areas tp ar ul fl m us fs L" and tp': "tp \<le> tp'" "tp' \<le> 0xC0000000"
    and m': "\<And>x. x < tp \<Longrightarrow> m' x = m x"
  shows "wf_areas tp' ar ul fl m' us fs L"
proof -
  note d = wfD [OF w]
  show ?thesis
  proof (rule wfI [OF tp'(2)])
    show "area_ok tp' m' ar p" if "p \<in> set us \<union> L" for p
      using area_ok_mono [of tp m ar p ar tp' m'] d(11) [OF that] tp'(1) m' by simp
  qed (use d tp'(1) in \<open>auto dest: d(2) intro: order_trans\<close>)
qed

lemma wf_rng_below: "wf_areas tp ar ul fl m us fs L \<Longrightarrow> p \<in> set us \<union> L \<Longrightarrow> x \<in> rng ar p \<Longrightarrow> x < tp"
  using wfD(11) [of tp ar ul fl m us fs L p] by (auto simp: area_ok_def rng_def)

lemma wf_new_structs:
  assumes w: "wf_areas tp ar ul fl m us [] L" and a: "tp \<le> p" "0 < p" "p + AREA_SIZE * n \<le> tp'"
    and tp': "tp' \<le> 0xC0000000" and lnk: "link_areas ar 0 p n = (ar', fl')" and m': "\<And>x. x < tp \<Longrightarrow> m' x = m x"
  shows "wf_areas tp' ar' ul fl' m' us (new_areas p n) L \<and> (\<forall>q < tp. ar' q = ar q)"
proof -
  have le: "tp \<le> tp'" using a by simp
  have w': "wf_areas tp' ar ul fl m' us [] L" by (rule wf_grow [OF w le tp']) (rule m')
  note d = wfD [OF w']
  have "linked (nx ar) 0 []" by simp
  from link_areas_linked [OF this a(2), of n] lnk have l: "linked (nx ar') fl' (new_areas p n)"
    "\<forall>q < p. ar' q = ar q" "dom ar' = dom ar \<union> set (new_areas p n)" by auto
  have old: "q < tp" if "q \<in> set us \<union> L" for q using wf_below [OF w] that by auto
  have new: "tp \<le> q" if "q \<in> set (new_areas p n)" for q using new_areas_set [OF that] a(1) by simp
  have same: "ar' q = ar q" if "q \<in> set us \<union> L" for q using l(2) old [OF that] a(1) by simp
  have "wf_areas tp' ar' ul fl' m' us (new_areas p n) L"
  proof (rule wfI [OF tp'])
    show "linked (nx ar') ul us" using d(3) linked_cong [of us "nx ar'" "nx ar"] same by (simp add: nx_def)
    show "q + AREA_SIZE \<le> tp'" if "q \<in> dom ar'" for q
      using that d(2) [of q] new_areas_set [of q p n] a(3) unfolding l(3) by auto
    show "area_ok tp' m' ar' q" if "q \<in> set us \<union> L" for q
      using d(11) [OF that] same [OF that] by (simp add: area_ok_def)
    have "rng ar' q = rng ar q" if "q \<in> set us \<union> L" for q using same [OF that] by (simp add: rng_def)
    then show "apart ar' (set us \<union> L)" using d(12) by (subst apart_cong) auto
    show "set us \<inter> set (new_areas p n) = {}" "L \<inter> set (new_areas p n) = {}"
      using old new by (fastforce simp: disjoint_iff)+
  qed (use d l(1) new_areas_distinct in auto)
  with l(2) a(1) show ?thesis by auto
qed

context data_segment
begin

lemma loadNewAreas_ok:
  assumes w: "hwf dend h us [] L"
  shows "\<exists>ok h1 fs. loadNewAreas chgsize h = (ok, h1) \<and> hwf dend h1 us fs L \<and> (ok \<longrightarrow> fs \<noteq> []) \<and>
    keeps (set us \<union> L) h h1 \<and> heapSem h1 = heapSem h \<and> usableList h1 = usableList h"
proof -
  obtain p m k where c: "chgsize (kern h) 1 (hmem h) = (p, m, k)" by (cases "chgsize (kern h) 1 (hmem h)")
  from chgsize_law [OF c] consider "p = 0" "m = hmem h" "dend k = dend (kern h)"
    | "p = dend (kern h)" "0 < p" "dend k = p + PAGE_SIZE" "dend k \<le> 0xC0000000" "\<forall>a < p. m a = hmem h a" by auto
  then show ?thesis
  proof cases
    case 1
    with c w show ?thesis by (auto simp: loadNewAreas_def keeps_def)
  next
    case 2
    obtain ar fl where lnk: "link_areas (areas h) 0 p (PAGE_SIZE div AREA_SIZE) = (ar, fl)"
      by (cases "link_areas (areas h) 0 p (PAGE_SIZE div AREA_SIZE)")
    have tp: "dend (kern h) \<le> p" "p + AREA_SIZE * (PAGE_SIZE div AREA_SIZE) \<le> dend k" using 2 by simp_all
    have new: "wf_areas (dend k) ar (usableList h) fl m us (new_areas p (PAGE_SIZE div AREA_SIZE)) L \<and>
        (\<forall>q < dend (kern h). ar q = areas h q)"
      using 2 by (intro wf_new_structs [OF w tp(1) 2(2) tp(2) 2(4) lnk]) simp
    have "new_areas p (PAGE_SIZE div AREA_SIZE) \<noteq> []" by (simp add: new_areas_def)
    moreover have "ar q = areas h q" if "q \<in> set us \<union> L" for q
      using new wf_below [OF w, of q] that by auto
    moreover have "m x = hmem h x" if "q \<in> set us \<union> L" "x \<in> rng (areas h) q" for q x
      using wf_rng_below [OF w that] 2 by simp
    moreover let ?h1 = "h\<lparr>areas := ar, freeList := fl,
        heapstart := (if pageCount h = 0 then p else heapstart h),
        pageCount := pageCount h + 1, hmem := m, kern := k\<rparr>"
    have "loadNewAreas chgsize h = (True, ?h1)" using c lnk 2(2) by (simp add: loadNewAreas_def)
    ultimately show ?thesis using new by (intro exI [of _ True] exI [of _ ?h1] exI conjI) (auto simp: keeps_def)
  qed
qed

lemma get_areas_ok:
  assumes w: "hwf dend h us fs L"
  shows "\<exists>ok h1 fs'. (if freeList h = 0 then loadNewAreas chgsize h else (True, h)) = (ok, h1) \<and>
    hwf dend h1 us fs' L \<and> (ok \<longrightarrow> fs' \<noteq> []) \<and>
    keeps (set us \<union> L) h h1 \<and> heapSem h1 = heapSem h \<and> usableList h1 = usableList h"
proof (cases "freeList h = 0")
  case True
  then have "fs = []" using wfD(4) [OF w] by (cases fs) auto
  with w True show ?thesis using loadNewAreas_ok [of h us L] by simp
next
  case False
  then have "fs \<noteq> []" using wfD(4) [OF w] by auto
  with w False show ?thesis by auto
qed

end

text \<open>A struct of the free list gets memory that no other area has.\<close>

lemma wf_add:
  assumes w: "wf_areas tp ar ul fl m us (n # fs) L" and n: "ar n = Some b" "anext x = ul"
    and x: "area_ok tp m (ar(n \<mapsto> x)) n" "\<And>q. q \<in> set us \<union> L \<Longrightarrow> {aaddr x ..< aaddr x + asize x} \<inter> rng ar q = {}"
  shows "wf_areas tp (ar(n \<mapsto> x)) n (anext b) m (n # us) fs L"
proof -
  note d = wfD [OF w]
  have nn: "n \<notin> set us" "n \<notin> set fs" "n \<notin> L" "n \<noteq> 0" using d(4,6,7,9) by auto
  show ?thesis
  proof (rule wfI [OF d(1)])
    show "linked (nx (ar(n \<mapsto> x))) n (n # us)" using linked_cons [OF d(3) nn(4,1)] n(2) by simp
    have "linked (nx ar) (anext b) fs" using d(4) n(1) by simp
    then show "linked (nx (ar(n \<mapsto> x))) (anext b) fs" using nn(2) by simp
    show "area_ok tp m (ar(n \<mapsto> x)) q" if "q \<in> set (n # us) \<union> L" for q
      using x(1) d(11) [of q] that by (cases "q = n") (auto simp: area_ok_upd)
    have "apart (ar(n \<mapsto> x)) (set us \<union> L)" using d(12) nn by (subst apart_cong [of _ _ ar]) auto
    then show "apart (ar(n \<mapsto> x)) (set (n # us) \<union> L)"
      using x(2) nn by (auto simp: apart_insert)
    show "p + AREA_SIZE \<le> tp" if "p \<in> dom (ar(n \<mapsto> x))" for p using that d(2) [of p] d(2) [of n] n(1) by auto
  qed (use d nn in auto)
qed

lemma find_area_linked:
  assumes "linked (nx ar) p rest" "us = visited @ rest" "distinct us"
  shows "\<exists>prev area. find_area ar (last0 visited) p sz = Some (prev, area) \<and>
    (area \<noteq> 0 \<longrightarrow> area \<in> set us \<and> prev = pred0 us area \<and> (\<exists>a. ar area = Some a \<and> sz \<le> asize a))"
  using assms
proof (induction rest arbitrary: p visited)
  case Nil
  then show ?case by (subst find_area.simps) simp
next
  case (Cons x rest)
  then obtain a where x: "p = x" "x \<noteq> 0" "ar x = Some a" "linked (nx ar) (anext a) rest"
    by (auto dest: nx_SomeE)
  have px: "pred0 us x = last0 visited" using Cons.prems(2,3) pred0_append [of x visited rest] by auto
  have IH: "\<exists>prev area. find_area ar (last0 (visited @ [x])) (anext a) sz = Some (prev, area) \<and>
      (area \<noteq> 0 \<longrightarrow> area \<in> set us \<and> prev = pred0 us area \<and> (\<exists>a. ar area = Some a \<and> sz \<le> asize a))"
    using Cons.prems(2,3) by (intro Cons.IH [OF x(4)]) auto
  show ?case
  proof (cases "sz \<le> asize a")
    case True
    with x px Cons.prems(2) show ?thesis by (subst find_area.simps) simp
  next
    case False
    with x IH show ?thesis by (subst find_area.simps) simp
  qed
qed

lemma page_count: "0 < sz \<Longrightarrow> sz \<le> PAGE_SIZE * ((sz + PAGE_SIZE - 1) div PAGE_SIZE) \<and> 0 < (sz + PAGE_SIZE - 1) div PAGE_SIZE"
proof -
  assume "0 < sz"
  then have "sz + PAGE_SIZE - 1 < PAGE_SIZE * ((sz + PAGE_SIZE - 1) div PAGE_SIZE) + PAGE_SIZE"
    using mult_div_mod_eq [of PAGE_SIZE "sz + PAGE_SIZE - 1"] mod_less_divisor [of PAGE_SIZE "sz + PAGE_SIZE - 1"]
    by linarith
  with \<open>0 < sz\<close> have *: "sz \<le> PAGE_SIZE * ((sz + PAGE_SIZE - 1) div PAGE_SIZE)" by linarith
  then have "(sz + PAGE_SIZE - 1) div PAGE_SIZE \<noteq> 0" using \<open>0 < sz\<close> by (metis mult_0_right not_le)
  with * show ?thesis by simp
qed

context data_segment
begin

lemma loadNewSpace_ok:
  assumes w: "hwf dend h us fs L" and sz: "0 < sz"
  shows "\<exists>ok h1 us' fs'. loadNewSpace chgsize h sz = Some (ok, h1) \<and> hwf dend h1 us' fs' L \<and>
    (ok \<longrightarrow> (\<exists>a x. us' = a # us \<and> areas h1 a = Some x \<and> sz \<le> asize x)) \<and>
    keeps L h h1 \<and> heapSem h1 = heapSem h"
proof -
  from get_areas_ok [OF w] obtain ok h1 fs1 where
    g: "(if freeList h = 0 then loadNewAreas chgsize h else (True, h)) = (ok, h1)"
    "hwf dend h1 us fs1 L" "ok \<longrightarrow> fs1 \<noteq> []" "keeps (set us \<union> L) h h1" "heapSem h1 = heapSem h" by blast
  have k1: "keeps L h h1" using g(4) by (rule keeps_mono) auto
  show ?thesis
  proof (cases "\<not> ok \<or> uadd sz PAGE_SIZE < PAGE_SIZE")
    case True
    then have "loadNewSpace chgsize h sz = Some (False, h1)" using g(1) by (auto simp: loadNewSpace_def)
    with g k1 show ?thesis by blast
  next
    case False
    let ?n = "(sz + PAGE_SIZE - 1) div PAGE_SIZE"
    obtain p m k where c: "chgsize (kern h1) ?n (hmem h1) = (p, m, k)" by (cases "chgsize (kern h1) ?n (hmem h1)")
    from chgsize_law [OF c] consider "p = 0" "m = hmem h1" "dend k = dend (kern h1)"
      | "p = dend (kern h1)" "0 < p" "4 dvd p" "dend k = p + PAGE_SIZE * ?n" "dend k \<le> 0xC0000000"
        "mapped m p (PAGE_SIZE * ?n)" "\<forall>a < p. m a = hmem h1 a" by auto
    then show ?thesis
    proof cases
      case 1
      then have "loadNewSpace chgsize h sz = Some (False, h1\<lparr>hmem := m, kern := k\<rparr>)"
        using g(1) False c by (simp add: loadNewSpace_def)
      moreover have "keeps L h (h1\<lparr>hmem := m, kern := k\<rparr>)" using k1 1 by (simp add: keeps_def)
      ultimately show ?thesis using g 1 by (intro exI conjI) (assumption | simp)+
    next
      case 2
      from False g(3) obtain a fs2 where fs1: "fs1 = a # fs2" by (cases fs1) auto
      have wg: "wf_areas (dend k) (areas h1) (usableList h1) (freeList h1) m us fs1 L"
        using 2 by (intro wf_grow [OF g(2)]) auto
      have a: "freeList h1 = a" using wfD(4) [OF g(2)] fs1 by simp
      from wf_dom [OF g(2), of a] fs1 obtain b where b: "areas h1 a = Some b" by auto
      let ?x = "\<lparr>asize = PAGE_SIZE * ?n, aaddr = p, anext = usableList h1\<rparr>"
      let ?h2 = "h1\<lparr>areas := (areas h1)(a \<mapsto> ?x), freeList := anext b, usableList := a,
          heapstart := (if pageCount h1 = 0 then p else heapstart h1),
          pageCount := pageCount h1 + ?n, hmem := m, kern := k\<rparr>"
      have "loadNewSpace chgsize h sz = Some (True, ?h2)"
        using g(1) False c 2(2) a b by (simp add: loadNewSpace_def Let_def)
      moreover have "wf_areas (dend k) ((areas h1)(a \<mapsto> ?x)) a (anext b) m (a # us) fs2 L"
      proof (rule wf_add [OF wg [unfolded fs1] b])
        show "area_ok (dend k) m ((areas h1)(a \<mapsto> ?x)) a"
          using 2 page_count [OF sz] by (simp add: area_ok_def)
        show "{aaddr ?x ..< aaddr ?x + asize ?x} \<inter> rng (areas h1) q = {}" if "q \<in> set us \<union> L" for q
          using wf_rng_below [OF g(2) that] 2(1) by fastforce
      qed simp
      moreover have "keeps L h1 ?h2"
        using wfD(9) [OF g(2)] fs1 wf_rng_below [OF g(2)] 2(1,7) by (auto simp: keeps_def)
      then have "keeps L h ?h2" by (rule keeps_trans [OF k1])
      ultimately show ?thesis using g(5) page_count [OF sz]
        by (intro exI [of _ True] exI [of _ ?h2] exI [of _ "a # us"] exI [of _ fs2]) simp
    qed
  qed
qed

lemma take_area_ok:
  assumes w: "hwf dend h us fs L" and sz: "0 < sz"
  shows "\<exists>area h1 us' fs'. take_area chgsize h sz = Some (area, h1) \<and> heapSem h1 = heapSem h \<and>
    keeps L h h1 \<and> (if area = 0 then hwf dend h1 us' fs' L
      else area \<notin> L \<and> hwf dend h1 us' fs' (insert area L) \<and> (\<exists>x. areas h1 area = Some x \<and> sz \<le> asize x))"
proof -
  note d = wfD [OF w]
  from find_area_linked [OF d(3) _ d(5), of "[]" sz] obtain prev area where
    f: "find_area (areas h) 0 (usableList h) sz = Some (prev, area)"
    "area \<noteq> 0 \<longrightarrow> area \<in> set us \<and> prev = pred0 us area \<and> (\<exists>a. areas h area = Some a \<and> sz \<le> asize a)" by auto
  show ?thesis
  proof (cases "area = 0")
    case False
    with f(2) obtain a where a: "area \<in> set us" "prev = pred0 us area" "areas h area = Some a" "sz \<le> asize a" by blast
    from wf_unlink [OF w a(1,3)] obtain ar' ul' where u:
      "relink (areas h) (usableList h) prev (anext a) = Some (ar', ul')"
      "wf_areas (dend (kern h)) ar' ul' (freeList h) (hmem h) (remove1 area us) fs (insert area L)"
      "\<forall>p. p \<notin> set us \<or> p = area \<longrightarrow> ar' p = areas h p" using a(2) by auto
    let ?h1 = "h\<lparr>areas := ar', usableList := ul'\<rparr>"
    have "take_area chgsize h sz = Some (area, ?h1)" using f(1) False a u(1) by (simp add: take_area_def)
    moreover have "keeps L h ?h1" using u(3) d(8) by (auto simp: keeps_def)
    ultimately show ?thesis using u(2,3) a d(8) False
      by (intro exI [of _ area] exI [of _ ?h1] exI [of _ "remove1 area us"] exI [of _ fs]) auto
  next
    case True
    from loadNewSpace_ok [OF w sz] obtain ok h1 us1 fs1 where
      n: "loadNewSpace chgsize h sz = Some (ok, h1)" "hwf dend h1 us1 fs1 L"
      "ok \<longrightarrow> (\<exists>a x. us1 = a # us \<and> areas h1 a = Some x \<and> sz \<le> asize x)" "keeps L h h1" "heapSem h1 = heapSem h" by blast
    show ?thesis
    proof (cases ok)
      case False
      with True f(1) n show ?thesis by (intro exI [of _ 0] exI [of _ h1]) (auto simp: take_area_def)
    next
      case ok: True
      with n(3) obtain a x where a: "us1 = a # us" "areas h1 a = Some x" "sz \<le> asize x" by blast
      note d1 = wfD [OF n(2)]
      have al: "usableList h1 = a" "a \<noteq> 0" "a \<notin> set us" using d1(3,5) a(1) by auto
      from wf_unlink [OF n(2), of a x] a al(1) have
        "wf_areas (dend (kern h1)) (areas h1) (anext x) (freeList h1) (hmem h1) us fs1 (insert a L)"
        by (auto simp: pred0_def relink_def)
      moreover have "take_area chgsize h sz = Some (a, h1\<lparr>usableList := anext x\<rparr>)"
        using True f(1) n(1) ok al a(2) by (simp add: take_area_def)
      moreover have "keeps L h (h1\<lparr>usableList := anext x\<rparr>)" using n(4) by (simp add: keeps_def)
      moreover have "a \<notin> L" using d1(8) a(1) by auto
      ultimately show ?thesis using a al n(5)
        by (intro exI [of _ a] exI [of _ "h1\<lparr>usableList := anext x\<rparr>"] exI [of _ us] exI [of _ fs1]) simp
    qed
  qed
qed

end

lemma mapped_sub: "mapped m p n \<Longrightarrow> p \<le> q \<Longrightarrow> q + k \<le> p + n \<Longrightarrow> mapped m q k"
proof -
  assume m: "mapped m p n" "p \<le> q" "q + k \<le> p + n"
  have "m (q + i) \<noteq> None" if "i < k" for i
    using m that unfolding mapped_iff by (auto dest: spec [of _ "q - p + i"])
  then show ?thesis by (simp add: mapped_iff)
qed


lemma add_guards_ok:
  assumes "mapped m blk sz" "4 dvd sz" "16 \<le> sz"
  shows "\<exists>m'. add_guards m blk area sz = Some m' \<and>
    bytes_at m' blk (ulong_bytes (word_of_nat area)) \<and> bytes_at m' (blk + 4) (ulong_bytes (word_of_nat sz - 16)) \<and>
    bytes_at m' (blk + 8) (ulong_bytes GUARD_MAGIC) \<and> bytes_at m' (blk + sz - 4) (ulong_bytes GUARD_MAGIC) \<and>
    (\<forall>x. x < blk \<or> blk + 12 \<le> x \<and> x < blk + sz - 4 \<or> blk + sz \<le> x \<longrightarrow> m' x = m x) \<and> dom m' = dom m"
proof -
  let ?g = "\<lambda>m. upd m blk (ulong_bytes (word_of_nat area))"
  let ?h = "\<lambda>m. upd (?g m) (blk + 4) (ulong_bytes (word_of_nat sz - 16))"
  let ?i = "\<lambda>m. upd (?h m) (blk + 8) (ulong_bytes GUARD_MAGIC)"
  let ?m = "upd (?i m) (blk + sz - 4) (ulong_bytes GUARD_MAGIC)"
  have mp: "mapped m blk 4" "mapped m (blk + 4) 4" "mapped m (blk + 8) 4" "mapped m (blk + sz - 4) 4"
    using assms(3) by (auto intro: mapped_sub [OF assms(1)])
  have "4 * (sz div 4) = sz" using assms(2) by simp
  then have "add_guards m blk area sz = Some ?m"
    using mp by (simp add: add_guards_def store_ulong_upd mapped_upd)
  moreover have "bytes_at ?m blk (ulong_bytes (word_of_nat area))"
    "bytes_at ?m (blk + 4) (ulong_bytes (word_of_nat sz - 16))" "bytes_at ?m (blk + 8) (ulong_bytes GUARD_MAGIC)"
    "bytes_at ?m (blk + sz - 4) (ulong_bytes GUARD_MAGIC)"
    using assms(3) by (simp_all add: bytes_at_upd_other)
  moreover have "\<forall>x. x < blk \<or> blk + 12 \<le> x \<and> x < blk + sz - 4 \<or> blk + sz \<le> x \<longrightarrow> ?m x = m x"
    using assms(3) by (auto simp: upd_apply)
  moreover have "dom ?m = dom m"
    using mp by (auto simp: upd_apply dom_def mapped_iff split: if_splits dest: le_Suc_ex)
  ultimately show ?thesis by blast
qed

lemma area_size_exact:
  assumes "n \<le> 2 ^ 32 - 20"
  shows "area_size n = (n + 3) div 4 * 4 + 16" "4 dvd area_size n" "16 \<le> area_size n" "n \<le> area_size n - 16"
    "area_size n < 2 ^ 32"
proof -
  have b: "(n + 3) div 4 * 4 \<le> n + 3" "n \<le> (n + 3) div 4 * 4" by presburger+
  have c: "(n + 3) div 4 * 4 < 2 ^ 32 - 16" using b(1) assms by simp
  show e: "area_size n = (n + 3) div 4 * 4 + 16" using b c assms by (simp add: area_size_def uadd_def)
  show "4 dvd area_size n" unfolding e by presburger
  show "16 \<le> area_size n" "n \<le> area_size n - 16" "area_size n < 2 ^ 32" using b c unfolding e by simp_all
qed

context data_segment
begin

lemma split_area_ok:
  assumes w: "hwf dend h us fs L" and t: "t \<in> L" "areas h t = Some x"
    and sz: "sz \<le> asize x" "4 dvd sz" "0 < sz"
  shows "\<exists>ok h1 us' fs'. split_area chgsize h t sz = Some (ok, h1) \<and> hwf dend h1 us' fs' L \<and>
    heapSem h1 = heapSem h \<and> keeps (L - {t}) h h1 \<and> (ok \<longrightarrow> (\<exists>y. areas h1 t = Some y \<and> asize y = sz \<and> aaddr y = aaddr x))"
proof (cases "sz < asize x")
  case False
  then have "split_area chgsize h t sz = Some (True, h)" using t by (simp add: split_area_def)
  with w t sz False show ?thesis by auto
next
  case True
  from get_areas_ok [OF w] obtain ok h1 fs1 where
    g: "(if freeList h = 0 then loadNewAreas chgsize h else (True, h)) = (ok, h1)"
    "hwf dend h1 us fs1 L" "ok \<longrightarrow> fs1 \<noteq> []" "keeps (set us \<union> L) h h1" "heapSem h1 = heapSem h" by blast
  have k1: "keeps (L - {t}) h h1" using g(4) by (rule keeps_mono) auto
  show ?thesis
  proof (cases ok)
    case False
    then have "split_area chgsize h t sz = Some (False, h1)" using g(1) t True by (simp add: split_area_def)
    with g k1 show ?thesis by blast
  next
    case ok: True
    with g(3) obtain n fs2 where fs1: "fs1 = n # fs2" by (cases fs1) auto
    note d1 = wfD [OF g(2)]
    have n: "freeList h1 = n" "n \<notin> L" "n \<notin> set us" "n \<noteq> t" using d1(4,7,9) fs1 t(1) by auto
    from wf_dom [OF g(2), of n] fs1 obtain b where b: "areas h1 n = Some b" by auto
    have t1: "areas h1 t = Some x" using g(4) t by (auto simp: keeps_def)
    from d1(11) [of t] t(1) t1 have tok: "4 dvd aaddr x" "4 dvd asize x" "0 < aaddr x"
      "aaddr x + asize x \<le> dend (kern h1)" "mapped (hmem h1) (aaddr x) (asize x)" by (auto simp: area_ok_def)
    have ua: "uadd (aaddr x) sz = aaddr x + sz" using tok(4) d1(1) True by (simp add: uadd_def)
    let ?n = "\<lparr>asize = asize x - sz, aaddr = aaddr x + sz, anext = usableList h1\<rparr>"
    let ?ar1 = "(areas h1)(t \<mapsto> x\<lparr>asize := sz\<rparr>)"
    let ?h2 = "h1\<lparr>areas := ?ar1(n \<mapsto> ?n), freeList := anext b, usableList := n\<rparr>"
    have "split_area chgsize h t sz = Some (True, ?h2)"
      using g(1) t True ok n b t1 ua by (simp add: split_area_def upd_area_def fun_upd_twist)
    moreover have w1: "wf_areas (dend (kern h1)) ?ar1 (usableList h1) (freeList h1) (hmem h1) us (n # fs2) (L - {})"
      using t(1) t1 tok sz True
      by (intro wf_absorb [OF g(2) [unfolded fs1]]) (auto simp: area_ok_def rng_def intro: mapped_sub)
    have "wf_areas (dend (kern h1)) (?ar1(n \<mapsto> ?n)) n (anext b) (hmem h1) (n # us) fs2 L"
    proof (rule wf_add [of _ _ "usableList h1" "freeList h1"])
      show "wf_areas (dend (kern h1)) ?ar1 (usableList h1) (freeList h1) (hmem h1) us (n # fs2) L" using w1 by simp
      show "?ar1 n = Some b" using b n(4) by simp
      show "area_ok (dend (kern h1)) (hmem h1) (?ar1(n \<mapsto> ?n)) n"
        using tok sz True by (auto simp: area_ok_def intro: mapped_sub)
      have sub: "{aaddr ?n ..< aaddr ?n + asize ?n} \<subseteq> rng (areas h1) t" using t1 True by (auto simp: rng_def)
      show "{aaddr ?n ..< aaddr ?n + asize ?n} \<inter> rng ?ar1 q = {}" if "q \<in> set us \<union> L" for q
      proof (cases "q = t")
        case True
        then show ?thesis by auto
      next
        case False
        then show ?thesis using apartD [OF d1(12), of t q] that t(1) sub by auto
      qed
    qed simp
    moreover have "keeps (L - {t}) h1 ?h2" using n(2) by (auto simp: keeps_def)
    then have "keeps (L - {t}) h ?h2" by (rule keeps_trans [OF k1])
    ultimately show ?thesis using n(4) g(5)
      by (intro exI [of _ True] exI [of _ ?h2] exI [of _ "n # us"] exI [of _ fs2]) simp
  qed
qed

lemma malloc_ok:
  assumes ok: "heap_ok (dend (kern h)) h us fs L" and n: "0 < n" "n \<le> 2 ^ 32 - 20" and s: "usemdown (heapSem h) = Some s"
  shows "\<exists>p h1 us' fs'. malloc chgsize h n = Some (p, h1) \<and> heapSem h1 = heapSem h \<and> keeps L h h1 \<and>
    (if p = 0 then heap_ok (dend (kern h1)) h1 us' fs' L
     else \<exists>a x. a \<notin> L \<and> heap_ok (dend (kern h1)) h1 us' fs' (insert a L) \<and> areas h1 a = Some x \<and>
       p = aaddr x + 12 \<and> asize x = area_size n)"
proof -
  note as = area_size_exact [OF n(2)]
  let ?h1 = "h\<lparr>heapSem := s\<rparr>"
  have w1: "hwf dend ?h1 us fs L" and gd: "\<forall>p \<in> L. guards_ok (hmem h) (areas h) p" using ok by (simp_all add: heap_ok_def)
  have k1: "keeps L h ?h1" by (simp add: keeps_def)
  have szpos: "0 < area_size n" using as(3) by simp
  have up: "usemup s = heapSem h" by (rule usemup_usemdown [OF s])
  from take_area_ok [OF w1 szpos] obtain t h2 us2 fs2 where
    t: "take_area chgsize ?h1 (area_size n) = Some (t, h2)" "heapSem h2 = s" "keeps L ?h1 h2"
    "if t = 0 then hwf dend h2 us2 fs2 L
      else t \<notin> L \<and> hwf dend h2 us2 fs2 (insert t L) \<and> (\<exists>x. areas h2 t = Some x \<and> area_size n \<le> asize x)"
    by auto
  have k2: "keeps L h h2" by (rule keeps_trans [OF k1 t(3)])
  show ?thesis
  proof (cases "t = 0")
    case True
    let ?h3 = "h2\<lparr>heapSem := usemup (heapSem h2)\<rparr>"
    have "malloc chgsize h n = Some (0, ?h3)" using n(1) s t(1) True by (simp add: malloc_def Let_def)
    moreover have "keeps L h ?h3" using k2 by (simp add: keeps_def)
    moreover have "heap_ok (dend (kern ?h3)) ?h3 us2 fs2 L"
      using t(4) True keeps_guards [OF k2 gd] by (simp add: heap_ok_def)
    ultimately show ?thesis using t(2) up by (intro exI [of _ 0] exI [of _ ?h3]) auto
  next
    case False
    with t(4) obtain x where x: "t \<notin> L" "hwf dend h2 us2 fs2 (insert t L)" "areas h2 t = Some x" "area_size n \<le> asize x" by auto
    from split_area_ok [OF x(2) insertI1 x(3,4) as(2) szpos] obtain ok' h3 us3 fs3 where
      sp: "split_area chgsize h2 t (area_size n) = Some (ok', h3)" "hwf dend h3 us3 fs3 (insert t L)"
      "heapSem h3 = heapSem h2" "keeps (insert t L - {t}) h2 h3"
      "ok' \<longrightarrow> (\<exists>y. areas h3 t = Some y \<and> asize y = area_size n \<and> aaddr y = aaddr x)" by blast
    have "keeps L h2 h3" using sp(4) x(1) by simp
    then have k3: "keeps L h h3" by (rule keeps_trans [OF k2])
    show ?thesis
    proof (cases ok')
      case False
      let ?h4 = "h3\<lparr>heapSem := usemup (heapSem h3)\<rparr>"
      have "malloc chgsize h n = Some (0, ?h4)"
        using n(1) s t(1) \<open>t \<noteq> 0\<close> sp(1) False by (simp add: malloc_def Let_def)
      moreover have "keeps L h ?h4" using k3 by (simp add: keeps_def)
      moreover have "wf_areas (dend (kern h3)) (areas h3) (usableList h3) (freeList h3) (hmem h3) us3 fs3 L"
        by (rule wf_areas_subset [OF sp(2)]) auto
      then have "heap_ok (dend (kern ?h4)) ?h4 us3 fs3 L"
        using keeps_guards [OF k3 gd] by (simp add: heap_ok_def)
      ultimately show ?thesis using t(2) sp(3) up by (intro exI [of _ 0] exI [of _ ?h4]) auto
    next
      case True
      with sp(5) obtain y where y: "areas h3 t = Some y" "asize y = area_size n" by blast
      note d3 = wfD [OF sp(2)]
      from d3(11) [of t] y have yok: "0 < aaddr y" "mapped (hmem h3) (aaddr y) (area_size n)" by (auto simp: area_ok_def)
      from add_guards_ok [OF yok(2) as(2,3), of t] obtain m where g: "add_guards (hmem h3) (aaddr y) t (area_size n) = Some m"
        "bytes_at m (aaddr y) (ulong_bytes (word_of_nat t))"
        "bytes_at m (aaddr y + 4) (ulong_bytes (word_of_nat (area_size n) - 16))"
        "bytes_at m (aaddr y + 8) (ulong_bytes GUARD_MAGIC)"
        "bytes_at m (aaddr y + area_size n - 4) (ulong_bytes GUARD_MAGIC)"
        "\<forall>z. z < aaddr y \<or> aaddr y + 12 \<le> z \<and> z < aaddr y + area_size n - 4 \<or> aaddr y + area_size n \<le> z \<longrightarrow> m z = hmem h3 z"
        "dom m = dom (hmem h3)" by blast
      let ?h4 = "h3\<lparr>hmem := m, heapSem := usemup (heapSem h3)\<rparr>"
      have r: "malloc chgsize h n = Some (aaddr y + 12, ?h4)"
        using n(1) s t(1) \<open>t \<noteq> 0\<close> sp(1) True y g(1) by (simp add: malloc_def Let_def)
      have "m z = hmem h3 z" if "p \<in> L" "z \<in> rng (areas h3) p" for p z
      proof -
        have "rng (areas h3) t \<inter> rng (areas h3) p = {}" using apartD [OF d3(12), of t p] that(1) x(1) by auto
        with that(2) have "z \<notin> rng (areas h3) t" by auto
        with y have "z < aaddr y \<or> aaddr y + area_size n \<le> z" by (auto simp: rng_def)
        with g(6) show ?thesis by auto
      qed
      then have k34: "keeps L h3 ?h4" by (auto simp: keeps_def)
      then have k4: "keeps L h ?h4" by (rule keeps_trans [OF k3])
      have "guards_ok m (areas h3) t" using y g(2-5) as(3) by (auto simp: guards_ok_def)
      then have "heap_ok (dend (kern ?h4)) ?h4 us3 fs3 (insert t L)"
        using wf_dom_eq [OF g(7)] sp(2) keeps_guards [OF k4 gd] by (auto simp: heap_ok_def)
      with r k4 y x(1) t(2) sp(3) up show ?thesis
        by (intro exI [of _ "aaddr y + 12"] exI [of _ ?h4] exI [of _ us3] exI [of _ fs3]) auto
    qed
  qed
qed

end

section \<open>free: lemmas\<close>

lemma check_guards_ok:
  assumes g: "guards_ok m ar p" and a: "ar p = Some a" "4 dvd asize a" "asize a < 2 ^ 32" and p: "p < 0xC0000000"
  shows "check_guards m (aaddr a) = Some p"
proof -
  let ?w = "word_of_nat (asize a) - 16 :: ulong"
  from g a(1) have sz: "16 \<le> asize a" and b: "bytes_at m (aaddr a) (ulong_bytes (word_of_nat p))"
    "bytes_at m (aaddr a + 4) (ulong_bytes ?w)" "bytes_at m (aaddr a + 8) (ulong_bytes GUARD_MAGIC)"
    "bytes_at m (aaddr a + asize a - 4) (ulong_bytes GUARD_MAGIC)" by (auto simp: guards_ok_def)
  have "?w = word_of_nat (asize a - 16)" using sz by (simp add: of_nat_diff)
  then have w: "unat ?w = asize a - 16" using a(3) by (simp add: unat_of_nat)
  have e: "aaddr a + 4 * ((asize a - 16) div 4 + 3) = aaddr a + asize a - 4" using sz a(2) by (auto elim!: dvdE)
  have up: "unat (word_of_nat p :: ulong) = p" using p by (simp add: unat_of_nat)
  then have "(word_of_nat p :: ulong) \<noteq> FREE_MAGIC" using p by auto
  with b [THEN load_ulong_bytes] w e up show ?thesis by (simp add: check_guards_def)
qed

lemma relink_upd:
  "relink ar ul q r = Some (ar', ul') \<Longrightarrow> q \<noteq> p \<Longrightarrow> relink (ar(p \<mapsto> x)) ul q r = Some (ar'(p \<mapsto> x), ul')"
  by (auto simp: relink_def set_next_def upd_area_def fun_upd_twist split: if_splits option.splits)

text \<open>The bounds that keep the sums of sizes and addresses from wrapping.\<close>

lemma area_okD:
  assumes "area_ok tp m ar p" "tp \<le> 0xC0000000" "ar p = Some a"
  shows "4 dvd aaddr a" "4 dvd asize a" "0 < asize a" "0 < aaddr a"
    "aaddr a + asize a \<le> tp" "mapped m (aaddr a) (asize a)" "aaddr a + asize a \<le> 0xC0000000"
    "uadd (aaddr a) (asize a) = aaddr a + asize a"
proof -
  from assms(1,3) show "4 dvd aaddr a" "4 dvd asize a" "0 < asize a" "0 < aaddr a"
    "aaddr a + asize a \<le> tp" "mapped m (aaddr a) (asize a)" by (auto simp: area_ok_def)
  with assms(2) show "aaddr a + asize a \<le> 0xC0000000" by simp
  then show "uadd (aaddr a) (asize a) = aaddr a + asize a" by (simp add: uadd_def)
qed

text \<open>One neighbour: it grows over the area, which goes to the free list.\<close>

lemma merge_one:
  assumes w: "wf_areas tp ar ul fl m us fs L" and a: "area \<in> L" "ar area = Some a"
    and q: "q \<in> set us" "ar q = Some b" and x: "anext x = anext b" "area_ok tp m (ar(q \<mapsto> x)) q"
      "{aaddr x ..< aaddr x + asize x} \<subseteq> rng ar q \<union> rng ar area"
  shows "wf_areas tp (ar(q \<mapsto> x, area \<mapsto> a\<lparr>anext := fl\<rparr>)) ul area m us (area # fs) (L - {area})"
proof -
  note d = wfD [OF w]
  have aq: "area \<notin> set us" "area \<notin> set fs" using d(8,9) a(1) by auto
  have a0: "area \<noteq> 0" using d(10) a(1) by metis
  have "wf_areas tp (ar(q \<mapsto> x)) ul fl m us fs (L - {area})"
    using q a x aq by (intro wf_absorb [OF w _ q(2), of x "{area}"]) auto
  then show ?thesis using a aq a0 by (intro wf_discard) auto
qed

lemma merge_both_ok:
  assumes w: "wf_areas tp ar ul fl m us fs L" and a: "area \<in> L" "ar area = Some a"
    and p: "prv nb \<in> set us" "pprev nb = pred0 us (prv nb)" "ar (prv nb) = Some ap" "aaddr ap + asize ap = aaddr a"
    and n: "nxt nb \<in> set us" "nprev nb = pred0 us (nxt nb)" "ar (nxt nb) = Some an" "aaddr an = aaddr a + asize a"
  shows "\<exists>ar' ul' fl' us' fs'. merge_both ar ul fl area nb = Some (ar', ul', fl') \<and>
    wf_areas tp ar' ul' fl' m us' fs' (L - {area}) \<and> (\<forall>q \<in> L - {area}. ar' q = ar q)"
proof -
  let ?p = "prv nb" and ?n = "nxt nb"
  note d = wfD [OF w]
  have dis: "area \<notin> set us" "area \<notin> set fs" "area \<noteq> ?p" "area \<noteq> ?n" "?p \<notin> set fs" "?n \<notin> set fs"
    using d(7-9) a(1) p(1) n(1) by auto
  have nz: "area \<noteq> 0" "?p \<noteq> 0" "?n \<noteq> 0" using d(10) linked_nonzero [OF d(3)] a(1) p(1) n(1) by metis+
  have okp: "area_ok tp m ar ?p" and okn: "area_ok tp m ar ?n" and oka: "area_ok tp m ar area"
    using d(11) p(1) n(1) a(1) by auto
  note okp = area_okD [OF okp d(1) p(3)] and okn = area_okD [OF okn d(1) n(3)] and oka = area_okD [OF oka d(1) a(2)]
  have pn: "?p \<noteq> ?n"
  proof
    assume "?p = ?n"
    then have "ap = an" using p(3) n(3) by simp
    with p(4) n(4) okp(3) oka(3) show False by simp
  qed
  define sz where "sz = asize a + (asize ap + asize an)"
  define x where "x = a\<lparr>asize := sz, aaddr := aaddr ap\<rparr>"
  have sz: "uadd (asize a) (uadd (asize ap) (asize an)) = sz" "aaddr ap + sz \<le> tp"
    using okn(5,7) p(4) n(4) by (auto simp: uadd_def sz_def)
  have mp: "mapped m (aaddr ap) sz"
    using okp(6) okn(6) oka(6) p(4) n(4) mapped_add [of m "aaddr ap" "asize ap" "asize a + asize an"]
      mapped_add [of m "aaddr a" "asize a" "asize an"] by (simp add: sz_def add.left_commute)
  \<comment> \<open>both neighbours leave the usable list\<close>
  from wf_unlink [OF w n(1,3)] obtain ar2 ul2 where u2: "relink ar ul (nprev nb) (anext an) = Some (ar2, ul2)"
    "wf_areas tp ar2 ul2 fl m (remove1 ?n us) fs (insert ?n L)" "\<forall>q. q \<notin> set us \<or> q = ?n \<longrightarrow> ar2 q = ar q"
    "same_areas ar ar2" using n(2) by auto
  have pin: "?p \<in> set (remove1 ?n us)" using p(1) pn by (simp add: in_set_remove1)
  from same_areasD [OF u2(4) p(3)] obtain j where j: "ar2 ?p = Some (ap\<lparr>anext := j\<rparr>)" by blast
  from wf_unlink [OF u2(2) pin j] obtain ar3 ul3 where u3:
    "relink ar2 ul2 (pred0 (remove1 ?n us) ?p) j = Some (ar3, ul3)"
    "wf_areas tp ar3 ul3 fl m (remove1 ?p (remove1 ?n us)) fs (insert ?p (insert ?n L))"
    "\<forall>q. q \<notin> set (remove1 ?n us) \<or> q = ?p \<longrightarrow> ar3 q = ar2 q" by auto
  let ?us = "remove1 ?p (remove1 ?n us)"
  have pr: "pred0 (remove1 ?n us) ?p = (if pprev nb = ?n then nprev nb else pprev nb)"
    using pred0_remove1 [OF d(5) linked_nonzero [OF d(3)] n(1) p(1) pn] p(2) n(2) by simp
  have nd: "?n \<notin> set (remove1 ?n us)" using d(5) by simp
  have out: "ar3 q = ar q" if "q \<notin> set us" for q
    using u2(3) u3(3) that notin_set_remove1 [OF that, of ?n] by metis
  have outL: "ar3 q = ar q" if "q \<in> L" for q using out [of q] d(8) that by auto
  have at3: "ar3 area = Some a" "ar3 ?p = Some (ap\<lparr>anext := j\<rparr>)" "ar3 ?n = Some an"
    using out [OF dis(1)] a(2) u3(3) j u2(3) nd n(3) by auto
  have pred_ne: "nprev nb \<noteq> area" "pprev nb \<noteq> area"
    using pred0_in [of us ?n] pred0_in [of us ?p] n(2) p(2) dis(1) nz(1) by auto
  \<comment> \<open>the area takes over both, is released, and the structs are discarded\<close>
  have "wf_areas tp (ar3(area \<mapsto> x)) ul3 fl m ?us fs (insert ?p (insert ?n L) - {?p, ?n})"
  proof (rule wf_absorb [OF u3(2) _ at3(1)])
    show "area_ok tp m (ar3(area \<mapsto> x)) area"
      using okp(1-4) okn(2) oka(2) sz(2) mp by (auto simp: area_ok_def x_def sz_def)
    show "{aaddr x ..< aaddr x + asize x} \<subseteq> rng ar3 area \<union> (\<Union>q \<in> {?p, ?n}. rng ar3 q)"
      using at3 p(4) n(4) by (auto simp: rng_def x_def sz_def)
  qed (use a dis in \<open>auto simp: x_def\<close>)
  moreover have "insert ?p (insert ?n L) - {?p, ?n} = L" using p(1) n(1) d(8) by auto
  ultimately have w4: "wf_areas tp (ar3(area \<mapsto> x)) ul3 fl m ?us fs L" by simp
  from wf_release [OF w4 a(1)] have w5: "wf_areas tp (ar3(area \<mapsto> x\<lparr>anext := ul3\<rparr>)) area fl m (area # ?us) fs (L - {area})"
    by simp
  let ?ar5 = "ar3(area \<mapsto> x\<lparr>anext := ul3\<rparr>)"
  let ?ar6 = "?ar5(?n \<mapsto> an\<lparr>anext := fl\<rparr>)"
  let ?ar7 = "?ar6(?p \<mapsto> ap\<lparr>anext := ?n\<rparr>)"
  have w6: "wf_areas tp ?ar6 area ?n m (area # ?us) (?n # fs) (L - {area})"
    using dis nz pn at3 n(1) d(5,8) by (intro wf_discard [OF w5]) (auto dest: notin_set_remove1)
  have w7: "wf_areas tp ?ar7 area ?p m (area # ?us) (?p # ?n # fs) (L - {area})"
    using dis nz pn at3 p(1) d(5,8) by (intro wf_discard [OF w6]) (auto dest: notin_set_remove1)
  have j': "ar2 ?p = Some (ap\<lparr>anext := j\<rparr>)" "ar2 ?n = Some an" using j u2(3) n(3) by auto
  have m1: "relink (ar(area \<mapsto> x)) ul (nprev nb) (anext an) = Some (ar2(area \<mapsto> x), ul2)"
    by (rule relink_upd [OF u2(1) pred_ne(1)])
  have m2: "(if pprev nb = ?n then relink (ar2(area \<mapsto> x)) ul2 (nprev nb) j else relink (ar2(area \<mapsto> x)) ul2 (pprev nb) j) =
      Some (ar3(area \<mapsto> x), ul3)"
    using relink_upd [OF u3(1), of area x] pred_ne pr by (auto split: if_splits)
  have "?ar5(?p \<mapsto> ap\<lparr>anext := ?n\<rparr>, ?n \<mapsto> an\<lparr>anext := fl\<rparr>) = ?ar7" by (rule fun_upd_twist) (rule pn)
  then have "merge_both ar ul fl area nb = Some (?ar7, area, ?p)"
    using a p(3) n(3) m1 m2 j' at3 dis pn sz(1)
    by (cases "pprev nb = ?n") (simp_all add: merge_both_def upd_area_def set_next_def x_def [symmetric])
  moreover have "?ar7 q = ar q" if "q \<in> L - {area}" for q using that outL p(1) n(1) d(8) by auto
  ultimately show ?thesis using w7 by blast
qed

lemma merge_area_ok:
  assumes w: "wf_areas tp ar ul fl m us fs L" and a: "area \<in> L" "ar area = Some a"
    and nb: "neighbours_ok ar us us (aaddr a) (aaddr a + asize a) nb"
  shows "\<exists>ar' ul' fl' us' fs'. merge_area ar ul fl area nb = Some (ar', ul', fl') \<and>
    wf_areas tp ar' ul' fl' m us' fs' (L - {area}) \<and> (\<forall>q \<in> L - {area}. ar' q = ar q)"
proof -
  note d = wfD [OF w]
  have dis: "area \<notin> set us" using d(8) a(1) by auto
  have "area_ok tp m ar area" using d(11) a(1) by auto
  note oka = area_okD [OF this d(1) a(2)]
  have mem: "prv nb \<noteq> 0 \<Longrightarrow> prv nb \<in> set us" "prv nb \<noteq> 0 \<Longrightarrow> pprev nb = pred0 us (prv nb)"
    "nxt nb \<noteq> 0 \<Longrightarrow> nxt nb \<in> set us" "nxt nb \<noteq> 0 \<Longrightarrow> nprev nb = pred0 us (nxt nb)"
    using nb by (auto simp: neighbours_ok_def)
  have prv: "\<exists>ap. ar (prv nb) = Some ap \<and> aaddr ap + asize ap = aaddr a" if "prv nb \<noteq> 0"
  proof -
    from nb that obtain ap where ap: "ar (prv nb) = Some ap" "uadd (aaddr ap) (asize ap) = aaddr a"
      by (auto simp: neighbours_ok_def)
    have "area_ok tp m ar (prv nb)" using d(11) mem(1) [OF that] by auto
    from area_okD(8) [OF this d(1) ap(1)] ap show ?thesis by simp
  qed
  have nxt: "\<exists>an. ar (nxt nb) = Some an \<and> aaddr an = aaddr a + asize a" if "nxt nb \<noteq> 0"
    using nb that by (auto simp: neighbours_ok_def)
  consider (both) "prv nb \<noteq> 0" "nxt nb \<noteq> 0" | (prev) "prv nb \<noteq> 0" "nxt nb = 0" | (nexta) "prv nb = 0" "nxt nb \<noteq> 0"
    | (none) "prv nb = 0" "nxt nb = 0" by blast
  then show ?thesis
  proof cases
    case both
    from prv [OF both(1)] nxt [OF both(2)] obtain ap an where "ar (prv nb) = Some ap" "aaddr ap + asize ap = aaddr a"
      "ar (nxt nb) = Some an" "aaddr an = aaddr a + asize a" by blast
    with merge_both_ok [OF w a] mem both show ?thesis by (simp add: merge_area_def)
  next
    case prev
    from prv [OF prev(1)] obtain ap where p: "ar (prv nb) = Some ap" "aaddr ap + asize ap = aaddr a" by blast
    let ?x = "ap\<lparr>asize := asize ap + asize a\<rparr>"
    have "area_ok tp m ar (prv nb)" using d(11) mem(1) [OF prev(1)] by auto
    note okp = area_okD [OF this d(1) p(1)]
    have s: "uadd (asize ap) (asize a) = asize ap + asize a" using oka(7) p(2) by (simp add: uadd_def)
    have "mapped m (aaddr ap) (asize ap + asize a)" using okp(6) oka(6) p(2) by (simp add: mapped_add)
    then have ok: "area_ok tp m (ar(prv nb \<mapsto> ?x)) (prv nb)"
      using okp(1-4) oka(2,5) p(2) by (auto simp: area_ok_def)
    have sub: "{aaddr ?x ..< aaddr ?x + asize ?x} \<subseteq> rng ar (prv nb) \<union> rng ar area"
      using p a by (auto simp: rng_def)
    have "merge_area ar ul fl area nb = Some (ar(prv nb \<mapsto> ?x, area \<mapsto> a\<lparr>anext := fl\<rparr>), ul, area)"
      using prev p a s mem(1) dis by (auto simp: merge_area_def upd_area_def set_next_def)
    moreover have "wf_areas tp (ar(prv nb \<mapsto> ?x, area \<mapsto> a\<lparr>anext := fl\<rparr>)) ul area m us (area # fs) (L - {area})"
      by (rule merge_one [OF w a mem(1) [OF prev(1)] p(1) _ ok sub]) simp
    ultimately show ?thesis using mem(1) prev d(8) by auto
  next
    case nexta
    from nxt [OF nexta(2)] obtain an where n: "ar (nxt nb) = Some an" "aaddr an = aaddr a + asize a" by blast
    let ?x = "an\<lparr>aaddr := aaddr a, asize := asize an + asize a\<rparr>"
    have "area_ok tp m ar (nxt nb)" using d(11) mem(3) [OF nexta(2)] by auto
    note okn = area_okD [OF this d(1) n(1)]
    have s: "uadd (asize an) (asize a) = asize an + asize a" using okn(7) n(2) by (simp add: uadd_def)
    have "mapped m (aaddr a) (asize a + asize an)" using okn(6) oka(6) n(2) by (simp add: mapped_add)
    then have ok: "area_ok tp m (ar(nxt nb \<mapsto> ?x)) (nxt nb)"
      using okn(2,5) oka(1-4) n(2) by (auto simp: area_ok_def add.commute)
    have sub: "{aaddr ?x ..< aaddr ?x + asize ?x} \<subseteq> rng ar (nxt nb) \<union> rng ar area"
      using n a by (auto simp: rng_def)
    have "merge_area ar ul fl area nb = Some (ar(nxt nb \<mapsto> ?x, area \<mapsto> a\<lparr>anext := fl\<rparr>), ul, area)"
      using nexta n a s mem(3) dis by (auto simp: merge_area_def upd_area_def set_next_def)
    moreover have "wf_areas tp (ar(nxt nb \<mapsto> ?x, area \<mapsto> a\<lparr>anext := fl\<rparr>)) ul area m us (area # fs) (L - {area})"
      by (rule merge_one [OF w a mem(3) [OF nexta(2)] n(1) _ ok sub]) simp
    ultimately show ?thesis using mem(3) nexta d(8) by auto
  next
    case none
    then have "merge_area ar ul fl area nb = Some (ar(area \<mapsto> a\<lparr>anext := ul\<rparr>), area, fl)"
      using a by (simp add: merge_area_def set_next_def upd_area_def)
    with wf_release [OF w a] show ?thesis by auto
  qed
qed

lemma free_ok:
  assumes ok: "heap_ok tp h us fs L" and a: "area \<in> L" "areas h area = Some a" and s: "usemdown (heapSem h) = Some s"
  shows "\<exists>h1 us' fs'. free h (aaddr a + 12) = Some h1 \<and> heap_ok tp h1 us' fs' (L - {area}) \<and>
    keeps (L - {area}) h h1 \<and> heapSem h1 = heapSem h \<and> kern h1 = kern h"
proof -
  have w: "wf_areas tp (areas h) (usableList h) (freeList h) (hmem h) us fs L"
    and gd: "\<forall>p \<in> L. guards_ok (hmem h) (areas h) p" using ok by (simp_all add: heap_ok_def)
  note d = wfD [OF w]
  have oka: "area_ok tp (hmem h) (areas h) area" using d(11) a(1) by auto
  note oka = area_okD [OF oka d(1) a(2)]
  have al: "area < 0xC0000000" using wf_below [OF w, of area] d(1) a(1) by auto
  have sz: "asize a < 2 ^ 32" using oka(7) by simp
  have g: "guards_ok (hmem h) (areas h) area" using gd a(1) by auto
  have cg: "check_guards (hmem h) (aaddr a) = Some area" by (rule check_guards_ok [OF g a(2) oka(2) sz al])
  have "16 \<le> asize a" using g a(2) by (auto simp: guards_ok_def)
  then have mp: "mapped (hmem h) (aaddr a) 4" using oka(6) by (auto intro: mapped_le)
  let ?m = "upd (hmem h) (aaddr a) (ulong_bytes FREE_MAGIC)"
  have dm: "dom ?m = dom (hmem h)" using mp by (auto simp: upd_apply dom_def mapped_iff split: if_splits dest: le_Suc_ex)
  let ?nb = "\<lparr>prv = 0, nxt = 0, pprev = 0, nprev = 0\<rparr>"
  have "neighbours_ok (areas h) us [] (aaddr a) (aaddr a + asize a) ?nb" by (simp add: neighbours_ok_def)
  from find_neighbours_linked [OF d(3) _ d(5) linked_nonzero [OF d(3)] this] obtain nb where
    nb: "find_neighbours (areas h) (usableList h) 0 (aaddr a) (aaddr a + asize a) ?nb = Some nb"
    "neighbours_ok (areas h) us us (aaddr a) (aaddr a + asize a) nb" by auto
  from merge_area_ok [OF w a nb(2)] obtain ar ul fl us' fs' where
    mg: "merge_area (areas h) (usableList h) (freeList h) area nb = Some (ar, ul, fl)"
    "wf_areas tp ar ul fl (hmem h) us' fs' (L - {area})" "\<forall>q \<in> L - {area}. ar q = areas h q" by blast
  let ?h1 = "h\<lparr>areas := ar, usableList := ul, freeList := fl, hmem := ?m, heapSem := usemup s\<rparr>"
  have r: "free h (aaddr a + 12) = Some ?h1"
    using cg s store_ulong_upd [OF mp] a(2) nb(1) mg(1) oka(8) by (simp add: free_def Let_def)
  have "?m x = hmem h x" if "p \<in> L - {area}" "x \<in> rng (areas h) p" for p x
  proof -
    have "rng (areas h) area \<inter> rng (areas h) p = {}" using apartD [OF d(12), of area p] that(1) a(1) by auto
    with that(2) have "x \<notin> rng (areas h) area" by auto
    with a(2) \<open>16 \<le> asize a\<close> show ?thesis by (auto simp: rng_def upd_apply)
  qed
  with mg(3) have k: "keeps (L - {area}) h ?h1" by (auto simp: keeps_def)
  have "heap_ok tp ?h1 us' fs' (L - {area})"
    using mg(2) wf_dom_eq [OF dm] keeps_guards [OF k] gd by (simp add: heap_ok_def)
  with r k usemup_usemdown [OF s] show ?thesis
    by (intro exI [of _ ?h1] exI [of _ us'] exI [of _ fs']) simp
qed

section \<open>The allocator contract\<close>

text \<open>
  The live blocks of an allocator are a map from their addresses to their sizes. A call keeps the
  bytes of all blocks that live before and after it. A client may write the bytes of live blocks.
\<close>

definition same_payload :: "(addr \<rightharpoonup> nat) \<Rightarrow> mem \<Rightarrow> mem \<Rightarrow> bool" where
  "same_payload B m m' \<longleftrightarrow> (\<forall>p k x. B p = Some k \<and> p \<le> x \<and> x < p + k \<longrightarrow> m' x = m x)"

definition writes_payload :: "(addr \<rightharpoonup> nat) \<Rightarrow> mem \<Rightarrow> mem \<Rightarrow> bool" where
  "writes_payload B m m' \<longleftrightarrow> dom m' = dom m \<and>
     (\<forall>x. m' x \<noteq> m x \<longrightarrow> (\<exists>p k. B p = Some k \<and> p \<le> x \<and> x < p + k))"

locale allocator =
  fixes alloc :: "'h \<Rightarrow> nat \<Rightarrow> (addr \<times> 'h) option"
    and dealloc :: "'h \<Rightarrow> addr \<Rightarrow> 'h option"
    and rep :: "'h \<Rightarrow> (addr \<rightharpoonup> nat) \<Rightarrow> bool"
    and get :: "'h \<Rightarrow> mem"
    and put :: "'h \<Rightarrow> mem \<Rightarrow> 'h"
  assumes alloc_law: "rep h B \<Longrightarrow> 0 < n \<Longrightarrow> n \<le> 2 ^ 32 - 20 \<Longrightarrow>
      \<exists>p h'. alloc h n = Some (p, h') \<and> same_payload B (get h) (get h') \<and>
        (if p = 0 then rep h' B else p \<notin> dom B \<and> (\<exists>k \<ge> n. rep h' (B(p \<mapsto> k))))"
    and dealloc_law: "rep h B \<Longrightarrow> p \<in> dom B \<Longrightarrow>
      \<exists>h'. dealloc h p = Some h' \<and> rep h' (B(p := None)) \<and> same_payload (B(p := None)) (get h) (get h')"
    and dealloc_null: "dealloc h 0 = Some h"
    and rep_block: "rep h B \<Longrightarrow> B p = Some k \<Longrightarrow> p \<noteq> 0 \<and> mapped (get h) p k"
    and rep_disjoint: "rep h B \<Longrightarrow> B p = Some k \<Longrightarrow> B q = Some j \<Longrightarrow> p \<noteq> q \<Longrightarrow>
      {p ..< p + k} \<inter> {q ..< q + j} = {}"
    and put_law: "rep h B \<Longrightarrow> writes_payload B (get h) m' \<Longrightarrow> rep (put h m') B \<and> get (put h m') = m'"

definition block_map :: "'k heap \<Rightarrow> addr set \<Rightarrow> (addr \<rightharpoonup> nat) \<Rightarrow> bool" where
  "block_map h L B \<longleftrightarrow> (\<forall>p n. B p = Some n \<longleftrightarrow>
     (\<exists>a \<in> L. \<exists>x. areas h a = Some x \<and> p = aaddr x + 12 \<and> n = asize x - 16))"

definition heap_rep :: "('k \<Rightarrow> addr) \<Rightarrow> 'k heap \<Rightarrow> (addr \<rightharpoonup> nat) \<Rightarrow> bool" where
  "heap_rep dend h B \<longleftrightarrow> usemdown (heapSem h) \<noteq> None \<and>
     (\<exists>us fs L. heap_ok (dend (kern h)) h us fs L \<and> block_map h L B)"

lemma heap_apart:
  assumes "heap_ok tp h us fs L" "a \<in> L" "b \<in> L" "a \<noteq> b" "areas h a = Some x" "areas h b = Some y"
  shows "{aaddr x ..< aaddr x + asize x} \<inter> {aaddr y ..< aaddr y + asize y} = {}" "16 \<le> asize x"
proof -
  have "wf_areas tp (areas h) (usableList h) (freeList h) (hmem h) us fs L" using assms(1) by (simp add: heap_ok_def)
  from apartD [OF wfD(12) [OF this], of a b] assms(2-)
  show "{aaddr x ..< aaddr x + asize x} \<inter> {aaddr y ..< aaddr y + asize y} = {}" by (simp add: rng_def)
  have "guards_ok (hmem h) (areas h) a" using assms(1,2) by (simp add: heap_ok_def)
  with assms(5) show "16 \<le> asize x" by (auto simp: guards_ok_def)
qed

lemma heap_addr_inj:
  assumes "heap_ok tp h us fs L" "a \<in> L" "b \<in> L" "areas h a = Some x" "areas h b = Some y" "aaddr x = aaddr y"
  shows "a = b"
proof (rule ccontr)
  assume "a \<noteq> b"
  from heap_apart [OF assms(1-3) this assms(4,5)] heap_apart(2) [OF assms(1,3,2) \<open>a \<noteq> b\<close> [symmetric] assms(5,4)]
  have "aaddr x \<notin> {aaddr y ..< aaddr y + asize y}" "16 \<le> asize y" by auto
  with assms(6) show False by simp
qed

lemma block_map_keeps: "block_map h L B \<Longrightarrow> keeps L h h' \<Longrightarrow> block_map h' L B"
  by (auto simp: block_map_def keeps_def)

lemma same_payload_keeps:
  assumes "block_map h L B" "keeps L h h'" "heap_ok tp h us fs L"
  shows "same_payload B (hmem h) (hmem h')"
  unfolding same_payload_def
proof (intro allI impI)
  fix p k x assume x: "B p = Some k \<and> p \<le> x \<and> x < p + k"
  with assms(1) obtain a y where "a \<in> L" "areas h a = Some y" "p = aaddr y + 12" "k = asize y - 16"
    by (auto simp: block_map_def)
  with x assms(2) show "hmem h' x = hmem h x" by (auto simp: keeps_def rng_def)
qed

context data_segment
begin

lemma malloc_rep:
  assumes rep: "heap_rep dend h B" and n: "0 < n" "n \<le> 2 ^ 32 - 20"
  shows "\<exists>p h'. malloc chgsize h n = Some (p, h') \<and> same_payload B (hmem h) (hmem h') \<and>
    (if p = 0 then heap_rep dend h' B else p \<notin> dom B \<and> (\<exists>k \<ge> n. heap_rep dend h' (B(p \<mapsto> k))))"
proof -
  from rep obtain us fs L s where h: "heap_ok (dend (kern h)) h us fs L" "block_map h L B" "usemdown (heapSem h) = Some s"
    by (auto simp: heap_rep_def)
  from malloc_ok [OF h(1) n h(3)] obtain p h1 us' fs' where m: "malloc chgsize h n = Some (p, h1)"
    "heapSem h1 = heapSem h" "keeps L h h1"
    "if p = 0 then heap_ok (dend (kern h1)) h1 us' fs' L
     else \<exists>a x. a \<notin> L \<and> heap_ok (dend (kern h1)) h1 us' fs' (insert a L) \<and> areas h1 a = Some x \<and>
       p = aaddr x + 12 \<and> asize x = area_size n" by blast
  have b1: "block_map h1 L B" by (rule block_map_keeps [OF h(2) m(3)])
  have sp: "same_payload B (hmem h) (hmem h1)" by (rule same_payload_keeps [OF h(2) m(3) h(1)])
  show ?thesis
  proof (cases "p = 0")
    case True
    with m b1 h(3) sp show ?thesis by (auto simp: heap_rep_def)
  next
    case False
    with m(4) obtain a x where a: "a \<notin> L" "heap_ok (dend (kern h1)) h1 us' fs' (insert a L)" "areas h1 a = Some x"
      "p = aaddr x + 12" "asize x = area_size n" by auto
    have new: "p \<notin> dom B"
    proof
      assume "p \<in> dom B"
      with b1 a(4) obtain b y where "b \<in> L" "areas h1 b = Some y" "aaddr x = aaddr y" by (auto simp: block_map_def)
      with heap_addr_inj [OF a(2), of a b x y] a(1,3) show False by auto
    qed
    have "block_map h1 (insert a L) (B(p \<mapsto> asize x - 16))"
      unfolding block_map_def
    proof (intro allI)
      fix q j
      show "(B(p \<mapsto> asize x - 16)) q = Some j \<longleftrightarrow>
          (\<exists>c \<in> insert a L. \<exists>y. areas h1 c = Some y \<and> q = aaddr y + 12 \<and> j = asize y - 16)"
      proof (cases "q = p")
        case True
        have "y = x" if "c \<in> insert a L" "areas h1 c = Some y" "q = aaddr y + 12" for c y
        proof -
          have "aaddr x = aaddr y" using that(3) a(4) True by simp
          then have "a = c" by (rule heap_addr_inj [OF a(2) insertI1 that(1) a(3) that(2)])
          with a(3) that(2) show ?thesis by simp
        qed
        then have "(\<exists>c \<in> insert a L. \<exists>y. areas h1 c = Some y \<and> q = aaddr y + 12 \<and> j = asize y - 16) \<longleftrightarrow>
            j = asize x - 16" using a(3,4) True by blast
        with True show ?thesis by auto
      next
        case False
        then show ?thesis using b1 a(3,4) unfolding block_map_def by auto
      qed
    qed
    moreover have "n \<le> asize x - 16" using area_size_exact(4) [OF n(2)] a(5) by simp
    ultimately show ?thesis using m(1,2) h(3) a(2) sp new False by (auto simp: heap_rep_def)
  qed
qed

lemma free_rep:
  assumes rep: "heap_rep dend h B" and p: "p \<in> dom B"
  shows "\<exists>h'. free h p = Some h' \<and> heap_rep dend h' (B(p := None)) \<and> same_payload (B(p := None)) (hmem h) (hmem h')"
proof -
  from rep obtain us fs L s where h: "heap_ok (dend (kern h)) h us fs L" "block_map h L B" "usemdown (heapSem h) = Some s"
    by (auto simp: heap_rep_def)
  from p h(2) obtain a x where a: "a \<in> L" "areas h a = Some x" "p = aaddr x + 12" by (auto simp: block_map_def)
  from free_ok [OF h(1) a(1,2) h(3)] obtain h1 us' fs' where f: "free h p = Some h1"
    "heap_ok (dend (kern h)) h1 us' fs' (L - {a})" "keeps (L - {a}) h h1" "heapSem h1 = heapSem h" "kern h1 = kern h"
    using a(3) by blast
  have b: "block_map h (L - {a}) (B(p := None))"
    unfolding block_map_def
  proof (intro allI)
    fix q n
    show "(B(p := None)) q = Some n \<longleftrightarrow>
        (\<exists>c \<in> L - {a}. \<exists>y. areas h c = Some y \<and> q = aaddr y + 12 \<and> n = asize y - 16)"
    proof (cases "q = p")
      case True
      then show ?thesis using heap_addr_inj [OF h(1) a(1) _ a(2)] a(3) by auto
    next
      case False
      with h(2) a show ?thesis unfolding block_map_def by fastforce
    qed
  qed
  have "heap_ok (dend (kern h)) h us fs (L - {a})"
    using h(1) wf_areas_subset [of _ _ _ _ _ us fs L "L - {a}"] by (auto simp: heap_ok_def)
  from same_payload_keeps [OF b f(3) this] block_map_keeps [OF b f(3)] f h(3)
  show ?thesis by (auto simp: heap_rep_def)
qed

lemma heap_rep_block:
  assumes "heap_rep dend h B" "B p = Some k"
  shows "p \<noteq> 0 \<and> mapped (hmem h) p k"
proof -
  from assms obtain us fs L a x where h: "heap_ok (dend (kern h)) h us fs L"
    "a \<in> L" "areas h a = Some x" "p = aaddr x + 12" "k = asize x - 16" by (auto simp: heap_rep_def block_map_def)
  have w: "wf_areas (dend (kern h)) (areas h) (usableList h) (freeList h) (hmem h) us fs L"
    and g: "guards_ok (hmem h) (areas h) a" using h by (auto simp: heap_ok_def)
  have "area_ok (dend (kern h)) (hmem h) (areas h) a" using wfD(11) [OF w] h(2) by auto
  from area_okD(6) [OF this wfD(1) [OF w] h(3)] have "mapped (hmem h) (aaddr x) (asize x)" .
  then have "mapped (hmem h) p k" by (rule mapped_sub) (use g h in \<open>auto simp: guards_ok_def\<close>)
  with h(4) show ?thesis by simp
qed

lemma heap_rep_disjoint:
  assumes "heap_rep dend h B" "B p = Some k" "B q = Some j" "p \<noteq> q"
  shows "{p ..< p + k} \<inter> {q ..< q + j} = {}"
proof -
  from assms(1) obtain us fs L where h: "heap_ok (dend (kern h)) h us fs L" "block_map h L B" by (auto simp: heap_rep_def)
  from h(2) assms(2,3) obtain a x b y where a: "a \<in> L" "areas h a = Some x" "p = aaddr x + 12" "k = asize x - 16"
    and b: "b \<in> L" "areas h b = Some y" "q = aaddr y + 12" "j = asize y - 16" unfolding block_map_def by metis
  have "a \<noteq> b" using a b assms(4) by auto
  from heap_apart(1) [OF h(1) a(1) b(1) this a(2) b(2)]
  have dis: "{aaddr x ..< aaddr x + asize x} \<inter> {aaddr y ..< aaddr y + asize y} = {}" .
  have "{p ..< p + k} \<subseteq> {aaddr x ..< aaddr x + asize x}" "{q ..< q + j} \<subseteq> {aaddr y ..< aaddr y + asize y}"
    unfolding a(3,4) b(3,4) by auto
  with dis show ?thesis by blast
qed

lemma heap_rep_put:
  assumes rep: "heap_rep dend h B" and m: "writes_payload B (hmem h) m'"
  shows "heap_rep dend (h\<lparr>hmem := m'\<rparr>) B"
proof -
  from rep obtain us fs L where h: "heap_ok (dend (kern h)) h us fs L" "block_map h L B" "usemdown (heapSem h) \<noteq> None"
    by (auto simp: heap_rep_def)
  have w: "wf_areas (dend (kern h)) (areas h) (usableList h) (freeList h) (hmem h) us fs L" using h(1) by (simp add: heap_ok_def)
  have dm: "dom m' = dom (hmem h)" using m by (simp add: writes_payload_def)
  have "guards_ok m' (areas h) a" if a: "a \<in> L" for a
  proof -
    have g: "guards_ok (hmem h) (areas h) a" using h(1) a by (simp add: heap_ok_def)
    then obtain x where x: "areas h a = Some x" "16 \<le> asize x" by (auto simp: guards_ok_def)
    have same: "m' z = hmem h z" if z: "aaddr x \<le> z" "z < aaddr x + asize x" "z < aaddr x + 12 \<or> aaddr x + asize x - 4 \<le> z" for z
    proof (rule ccontr)
      assume "m' z \<noteq> hmem h z"
      with m obtain p k where pk: "B p = Some k" "p \<le> z" "z < p + k" by (auto simp: writes_payload_def)
      with h(2) obtain b y where b: "b \<in> L" "areas h b = Some y" "p = aaddr y + 12" "k = asize y - 16"
        unfolding block_map_def by metis
      have "z \<in> {aaddr x ..< aaddr x + asize x}" "z \<in> {aaddr y ..< aaddr y + asize y}" using z pk b by auto
      then have "a = b" using heap_apart(1) [OF h(1) a b(1) _ x(1) b(2)] by blast
      with z pk b x show False by auto
    qed
    have eq: "bytes_at m' q bs = bytes_at (hmem h) q bs"
      if "aaddr x \<le> q" "q + length bs \<le> aaddr x + asize x" "q + length bs \<le> aaddr x + 12 \<or> aaddr x + asize x - 4 \<le> q" for q bs
      using that by (intro bytes_at_cong same) auto
    from g x show ?thesis by (auto simp: guards_ok_def eq)
  qed
  with w have "heap_ok (dend (kern h)) (h\<lparr>hmem := m'\<rparr>) us fs L" by (simp add: heap_ok_def wf_dom_eq [OF dm])
  moreover have "block_map (h\<lparr>hmem := m'\<rparr>) L B" using h(2) by (simp add: block_map_def)
  ultimately show ?thesis using h(3) by (auto simp: heap_rep_def)
qed

end

sublocale data_segment \<subseteq> heap: allocator "malloc chgsize" free "heap_rep dend" hmem "\<lambda>h m. h\<lparr>hmem := m\<rparr>"
  by unfold_locales
    (use malloc_rep free_rep heap_rep_block heap_rep_disjoint heap_rep_put in \<open>auto simp: free_def\<close>)

section \<open>realloc: lemmas\<close>

lemma find_behind_linked:
  assumes "linked (nx ar) p rest" "us = visited @ rest" "distinct us"
  shows "\<exists>a prev. find_behind ar p (last0 visited) aend = Some (a, prev) \<and>
    (a \<noteq> 0 \<longrightarrow> a \<in> set us \<and> prev = pred0 us a \<and> (\<exists>b. ar a = Some b \<and> aaddr b = aend))"
  using assms
proof (induction rest arbitrary: p visited)
  case Nil
  then show ?case by (subst find_behind.simps) simp
next
  case (Cons x rest)
  then obtain b where x: "p = x" "x \<noteq> 0" "ar x = Some b" "linked (nx ar) (anext b) rest"
    by (auto dest: nx_SomeE)
  have px: "pred0 us x = last0 visited" using Cons.prems(2,3) pred0_append [of x visited rest] by auto
  have IH: "\<exists>a prev. find_behind ar (anext b) (last0 (visited @ [x])) aend = Some (a, prev) \<and>
      (a \<noteq> 0 \<longrightarrow> a \<in> set us \<and> prev = pred0 us a \<and> (\<exists>b. ar a = Some b \<and> aaddr b = aend))"
    using Cons.prems(2,3) by (intro Cons.IH [OF x(4)]) auto
  show ?case
  proof (cases "aaddr b = aend")
    case True
    with x px Cons.prems(2) show ?thesis by (subst find_behind.simps) simp
  next
    case False
    with x IH show ?thesis by (subst find_behind.simps) simp
  qed
qed

text \<open>Two areas share out their memory anew.\<close>

lemma apart_two:
  assumes ap: "apart ar A" and pq: "p \<in> A" "q \<in> A" "p \<noteq> q"
    and x: "{aaddr x ..< aaddr x + asize x} \<subseteq> rng ar p \<union> rng ar q"
    and y: "{aaddr y ..< aaddr y + asize y} \<subseteq> rng ar p \<union> rng ar q"
    and xy: "{aaddr x ..< aaddr x + asize x} \<inter> {aaddr y ..< aaddr y + asize y} = {}"
  shows "apart (ar(p \<mapsto> x, q \<mapsto> y)) A"
proof -
  have o: "rng ar r \<inter> (rng ar p \<union> rng ar q) = {}" if "r \<in> A" "r \<noteq> p" "r \<noteq> q" for r
    using apartD [OF ap that(1) pq(1) that(2)] apartD [OF ap that(1) pq(2) that(3)] by blast
  have "rng (ar(p \<mapsto> x, q \<mapsto> y)) r \<inter> rng (ar(p \<mapsto> x, q \<mapsto> y)) s = {}" if "r \<in> A" "s \<in> A" "r \<noteq> s" for r s
  proof -
    consider "r \<in> {p, q}" "s \<in> {p, q}" | "r \<in> {p, q}" "s \<notin> {p, q}" | "r \<notin> {p, q}" "s \<in> {p, q}"
      | "r \<notin> {p, q}" "s \<notin> {p, q}" by blast
    then show ?thesis
    proof cases
      case 1
      with that(3) pq(3) xy show ?thesis by auto
    next
      case 2
      with o [of s] that x y pq(3) show ?thesis by auto
    next
      case 3
      with o [of r] that x y pq(3) show ?thesis by auto
    next
      case 4
      with apartD [OF ap that] show ?thesis by simp
    qed
  qed
  then show ?thesis by (simp add: apart_def pairwise_def)
qed

lemma grow_area_ok:
  fixes h :: "'k heap"
  assumes w: "wf_areas tp (areas h) (usableList h) (freeList h) (hmem h) us fs L"
    and x: "area \<in> L" "areas h area = Some x" and a: "a \<in> set us" "areas h a = Some b" "aaddr b = aaddr x + asize x"
    and sz: "asize x \<le> sz" "sz \<le> asize x + asize b" "4 dvd sz"
  shows "\<exists>h1 us' fs'. grow_area h area a (pred0 us a) sz = Some h1 \<and>
    wf_areas tp (areas h1) (usableList h1) (freeList h1) (hmem h) us' fs' L \<and>
    (\<forall>q \<in> L - {area}. areas h1 q = areas h q) \<and> areas h1 area = Some (x\<lparr>asize := sz\<rparr>) \<and>
    hmem h1 = hmem h \<and> heapSem h1 = heapSem h \<and> kern h1 = kern h"
proof -
  note d = wfD [OF w]
  have okx: "area_ok tp (hmem h) (areas h) area" and okb: "area_ok tp (hmem h) (areas h) a" using d(11) x(1) a(1) by auto
  note okx = area_okD [OF okx d(1) x(2)] and okb = area_okD [OF okb d(1) a(2)]
  have ne: "area \<noteq> a" "area \<notin> set us" "area \<notin> set fs" "a \<notin> L" "a \<notin> set fs" using d(7-9) x(1) a(1) by auto
  have a0: "a \<noteq> 0" using linked_nonzero [OF d(3)] a(1) by metis
  have sum: "uadd (asize x) (asize b) = asize x + asize b" "uadd (aaddr x) sz = aaddr x + sz"
    using okb(7) a(3) sz by (auto simp: uadd_def)
  have mp: "mapped (hmem h) (aaddr x) (asize x + asize b)" using okx(6) okb(6) a(3) by (simp add: mapped_add)
  let ?x = "x\<lparr>asize := sz\<rparr>"
  show ?thesis
  proof (cases "sz < asize x + asize b")
    case True
    let ?b = "b\<lparr>aaddr := aaddr x + sz, asize := asize x + asize b - sz\<rparr>"
    let ?ar = "(areas h)(a \<mapsto> ?b, area \<mapsto> ?x)"
    have "grow_area h area a (pred0 us a) sz = Some (h\<lparr>areas := ?ar\<rparr>)"
      using True x(2) a(2) sum ne(1) by (simp add: grow_area_def upd_area_def)
    moreover have "wf_areas tp ?ar (usableList h) (freeList h) (hmem h) us fs L"
    proof (rule wfI [OF d(1)])
      have nx: "nx ?ar = nx (areas h)" using x(2) a(2) ne(1) by (auto simp: nx_def fun_eq_iff)
      show "linked (nx ?ar) (usableList h) us" "linked (nx ?ar) (freeList h) fs" unfolding nx using d(3,4) by auto
      show "apart ?ar (set us \<union> L)"
        using True x a sz ne(1) by (intro apart_two [OF d(12)]) (auto simp: rng_def)
      have s4: "4 dvd asize x + asize b - sz" using okx(2) okb(2) sz(3) by (simp add: dvd_diff_nat)
      have 1: "area_ok tp (hmem h) ?ar a"
        using True okx okb a(3) sz s4 mapped_sub [OF mp, of "aaddr x + sz" "asize x + asize b - sz"] ne(1)
        by (auto simp: area_ok_def)
      have 2: "area_ok tp (hmem h) ?ar area"
        using True okx okb a(3) sz mapped_sub [OF mp, of "aaddr x" sz] by (auto simp: area_ok_def)
      show "area_ok tp (hmem h) ?ar q" if "q \<in> set us \<union> L" for q
        using 1 2 d(11) [OF that] by (cases "q = a \<or> q = area") (auto simp: area_ok_def)
    qed (use d x a in auto)
    ultimately show ?thesis using ne(1,4) by (intro exI [of _ "h\<lparr>areas := ?ar\<rparr>"] exI [of _ us] exI [of _ fs]) auto
  next
    case False
    with sz(2) have sz': "sz = asize x + asize b" by simp
    from wf_unlink [OF w a(1,2)] obtain ar' ul' where u:
      "relink (areas h) (usableList h) (pred0 us a) (anext b) = Some (ar', ul')"
      "wf_areas tp ar' ul' (freeList h) (hmem h) (remove1 a us) fs (insert a L)"
      "\<forall>p. p \<notin> set us \<or> p = a \<longrightarrow> ar' p = areas h p" by blast
    have at: "ar' area = Some x" "ar' a = Some b" using u(3) ne x(2) a(2) by auto
    let ?ar = "ar'(area \<mapsto> ?x, a \<mapsto> b\<lparr>anext := freeList h\<rparr>)"
    have "wf_areas tp (ar'(area \<mapsto> ?x)) ul' (freeList h) (hmem h) (remove1 a us) fs (insert a L - {a})"
    proof (rule wf_absorb [OF u(2) _ at(1)])
      show "area_ok tp (hmem h) (ar'(area \<mapsto> ?x)) area"
        using okx okb a(3) sz sz' mp by (auto simp: area_ok_def)
      show "{aaddr ?x ..< aaddr ?x + asize ?x} \<subseteq> rng ar' area \<union> (\<Union>q \<in> {a}. rng ar' q)"
        using at a(3) sz' by (auto simp: rng_def)
    qed (use x(1) ne in auto)
    moreover have "insert a L - {a} = L" using ne(4) by auto
    ultimately have w1: "wf_areas tp (ar'(area \<mapsto> ?x)) ul' (freeList h) (hmem h) (remove1 a us) fs L" by simp
    have "wf_areas tp ?ar ul' a (hmem h) (remove1 a us) (a # fs) L"
      using ne a0 at d(5) by (intro wf_discard [OF w1]) auto
    moreover let ?h1 = "h\<lparr>areas := ?ar, usableList := ul', freeList := a\<rparr>"
    have "grow_area h area a (pred0 us a) sz = Some ?h1"
      using False x(2) a(2) sum u(1) at ne(1) by (simp add: grow_area_def upd_area_def set_next_def fun_upd_twist)
    moreover have "\<forall>q \<in> L - {area}. ?ar q = areas h q" using u(3) d(8) ne(4) by auto
    ultimately show ?thesis using ne(1)
      by (intro exI [of _ ?h1] exI [of _ "remove1 a us"] exI [of _ "a # fs"]) auto
  qed
qed

lemma block_map_resize:
  assumes b: "block_map h L B" "heap_ok tp h us fs L" and a: "area \<in> L" "areas h area = Some x"
    and h1: "areas h1 area = Some y" "aaddr y = aaddr x" "\<And>q. q \<in> L - {area} \<Longrightarrow> areas h1 q = areas h q"
  shows "block_map h1 L (B(aaddr x + 12 \<mapsto> asize y - 16))"
  unfolding block_map_def
proof (intro allI)
  fix q n
  have inj: "c = area" if "c \<in> L" "areas h c = Some z" "aaddr z = aaddr x" for c z
    using heap_addr_inj [OF b(2) that(1) a(1) that(2) a(2) that(3)] .
  show "(B(aaddr x + 12 \<mapsto> asize y - 16)) q = Some n \<longleftrightarrow>
      (\<exists>c \<in> L. \<exists>z. areas h1 c = Some z \<and> q = aaddr z + 12 \<and> n = asize z - 16)" (is "?l \<longleftrightarrow> ?r")
  proof (cases "q = aaddr x + 12")
    case True
    have "z = y" if "c \<in> L" "areas h1 c = Some z" "q = aaddr z + 12" for c z
      using inj [of c z] h1 that True by (cases "c = area") auto
    then have "?r \<longleftrightarrow> n = asize y - 16" using True a(1) h1(1,2) by metis
    with True show ?thesis by auto
  next
    case False
    have "?r \<longleftrightarrow> (\<exists>c \<in> L. \<exists>z. areas h c = Some z \<and> q = aaddr z + 12 \<and> n = asize z - 16)"
      using h1 a False by (metis Diff_iff option.inject singletonD)
    with b(1) False show ?thesis unfolding block_map_def by simp
  qed
qed

lemma mapped_bytes_at: "mapped m p n \<Longrightarrow> \<exists>bs. length bs = n \<and> bytes_at m p bs"
  by (rule exI [of _ "map (\<lambda>i. the (m (p + i))) [0..<n]"]) (auto simp: mapped_iff bytes_at_iff)

lemma same_payload_mono: "same_payload B m m' \<Longrightarrow> (\<And>p k. C p = Some k \<Longrightarrow> B p = Some k) \<Longrightarrow> same_payload C m m'"
  unfolding same_payload_def by meson

lemma same_payloadD: "same_payload B m m' \<Longrightarrow> B p = Some k \<Longrightarrow> i < k \<Longrightarrow> m' (p + i) = m (p + i)"
  unfolding same_payload_def by (meson le_add1 nat_add_left_cancel_less)

lemma same_payload_trans: "same_payload B m1 m2 \<Longrightarrow> same_payload B m2 m3 \<Longrightarrow> same_payload B m1 m3"
  by (auto simp: same_payload_def)

context data_segment
begin

lemma realloc_grow:
  assumes ok: "heap_ok (dend (kern h)) h us fs L" "block_map h L B" and s: "usemdown (heapSem h) = Some s"
    and x: "area \<in> L" "areas h area = Some x" and a: "a \<in> set us" "areas h a = Some b" "aaddr b = aaddr x + asize x"
    and sz: "asize x \<le> sz" "sz \<le> asize x + asize b" "4 dvd sz"
  shows "\<exists>h1 m. grow_area (h\<lparr>heapSem := s\<rparr>) area a (pred0 us a) sz = Some h1 \<and>
    add_guards (hmem h1) (aaddr x) area sz = Some m \<and>
    heap_rep dend (h1\<lparr>hmem := m, heapSem := usemup (heapSem h1)\<rparr>) (B(aaddr x + 12 \<mapsto> sz - 16)) \<and>
    same_payload (B(aaddr x + 12 := None)) (hmem h) m \<and> (\<forall>i < asize x - 16. m (aaddr x + 12 + i) = hmem h (aaddr x + 12 + i))"
proof -
  let ?h = "h\<lparr>heapSem := s\<rparr>"
  have w: "wf_areas (dend (kern h)) (areas ?h) (usableList ?h) (freeList ?h) (hmem ?h) us fs L"
    and gd: "\<forall>p \<in> L. guards_ok (hmem h) (areas h) p" using ok(1) by (simp_all add: heap_ok_def)
  from grow_area_ok [OF w, of area x a b sz] x a sz obtain h1 us' fs' where
    g: "grow_area ?h area a (pred0 us a) sz = Some h1"
    "wf_areas (dend (kern h)) (areas h1) (usableList h1) (freeList h1) (hmem h) us' fs' L"
    "\<forall>q \<in> L - {area}. areas h1 q = areas h q" "areas h1 area = Some (x\<lparr>asize := sz\<rparr>)"
    "hmem h1 = hmem h" "heapSem h1 = s" "kern h1 = kern h" by auto
  note d = wfD [OF g(2)]
  have x16: "16 \<le> asize x" using gd x by (auto simp: guards_ok_def)
  have "area_ok (dend (kern h)) (hmem h) (areas h1) area" using d(11) x(1) by auto
  from area_okD(6) [OF this d(1) g(4)] have mp: "mapped (hmem h1) (aaddr x) sz" using g(5) by simp
  have s16: "16 \<le> sz" using x16 sz(1) by simp
  from add_guards_ok [OF mp sz(3) s16, of area] obtain m where m: "add_guards (hmem h1) (aaddr x) area sz = Some m"
    "bytes_at m (aaddr x) (ulong_bytes (word_of_nat area))" "bytes_at m (aaddr x + 4) (ulong_bytes (word_of_nat sz - 16))"
    "bytes_at m (aaddr x + 8) (ulong_bytes GUARD_MAGIC)" "bytes_at m (aaddr x + sz - 4) (ulong_bytes GUARD_MAGIC)"
    "\<forall>z. z < aaddr x \<or> aaddr x + 12 \<le> z \<and> z < aaddr x + sz - 4 \<or> aaddr x + sz \<le> z \<longrightarrow> m z = hmem h z"
    "dom m = dom (hmem h)" using g(5) by auto
  let ?h2 = "h1\<lparr>hmem := m, heapSem := usemup (heapSem h1)\<rparr>"
  have other: "m z = hmem h z" if "p \<in> L - {area}" "z \<in> rng (areas h) p" for p z
  proof -
    have "rng (areas h1) area \<inter> rng (areas h1) p = {}" using apartD [OF d(12), of area p] that(1) x(1) by auto
    moreover have "rng (areas h1) p = rng (areas h) p" using g(3) that(1) by (simp add: rng_def)
    ultimately have "z \<notin> rng (areas h1) area" using that(2) by auto
    with g(4) m(6) show ?thesis by (auto simp: rng_def)
  qed
  have k: "keeps (L - {area}) h ?h2" using other g(3) by (auto simp: keeps_def)
  have "guards_ok m (areas h1) area" using m(2-5) g(4) s16 by (auto simp: guards_ok_def)
  moreover have "guards_ok m (areas h1) p" if "p \<in> L - {area}" for p
    using keeps_guards [OF k _ that] gd by simp
  ultimately have "heap_ok (dend (kern ?h2)) ?h2 us' fs' L"
    using g(2,7) wf_dom_eq [OF m(7)] by (auto simp: heap_ok_def)
  moreover have "block_map ?h2 L (B(aaddr x + 12 \<mapsto> asize (x\<lparr>asize := sz\<rparr>) - 16))"
    using g(3,4) by (intro block_map_resize [OF ok(2,1) x]) auto
  moreover have "heapSem ?h2 = heapSem h" using g(6) usemup_usemdown [OF s] by simp
  ultimately have rep: "heap_rep dend ?h2 (B(aaddr x + 12 \<mapsto> sz - 16))" using s by (auto simp: heap_rep_def)
  have "m z = hmem h z" if z: "(B(aaddr x + 12 := None)) p = Some j" "p \<le> z" "z < p + j" for p j z
  proof -
    from z(1) ok(2) obtain c y where c: "c \<in> L" "areas h c = Some y" "p = aaddr y + 12" "j = asize y - 16" "p \<noteq> aaddr x + 12"
      unfolding block_map_def by (auto split: if_splits)
    then have "c \<in> L - {area}" "z \<in> rng (areas h) c" using x(2) z(2,3) by (auto simp: rng_def)
    then show ?thesis by (rule other)
  qed
  then have "same_payload (B(aaddr x + 12 := None)) (hmem h) m" unfolding same_payload_def by blast
  moreover have "\<forall>i < asize x - 16. m (aaddr x + 12 + i) = hmem h (aaddr x + 12 + i)" using m(6) sz(1) by auto
  ultimately show ?thesis using g(1) m(1) rep by blast
qed

lemma realloc_move:
  assumes rep: "heap_rep dend h B" and p: "B p = Some k" "p = aaddr x + 12" "areas h area = Some x" "asize x - 16 = k"
    and h1: "heap_rep dend h1 (B(q \<mapsto> j))" "q \<noteq> 0" "q \<notin> dom B" "k \<le> j" "areas h1 area = Some x"
      "same_payload B (hmem h) (hmem h1)"
  shows "\<exists>r m h2. memcpy (hmem h1) q p (asize x - 16) = Some (r, m) \<and> free (h1\<lparr>hmem := m\<rparr>) p = Some h2 \<and>
    heap_rep dend h2 ((B(p := None))(q \<mapsto> j)) \<and> same_payload (B(p := None)) (hmem h) (hmem h2) \<and>
    (\<forall>i < k. hmem h2 (q + i) = hmem h (p + i))"
proof -
  let ?B = "B(q \<mapsto> j)"
  have qp: "q \<noteq> p" using h1(3) p(1) by auto
  have Bp: "?B p = Some k" "?B q = Some j" using qp p(1) by auto
  have mp: "mapped (hmem h1) p k" "mapped (hmem h1) q j"
    using heap_rep_block [OF h1(1)] Bp by blast+
  have dis: "{p ..< p + k} \<inter> {q ..< q + j} = {}" by (rule heap_rep_disjoint [OF h1(1) Bp]) (use qp in simp)
  from mapped_bytes_at [OF mp(1)] obtain bs where bs: "length bs = k" "bytes_at (hmem h1) p bs" by blast
  have "q \<le> p \<or> p + k \<le> q"
  proof (rule ccontr)
    assume "\<not> ?thesis"
    then have "q \<in> {p ..< p + k}" "0 < k" by auto
    with h1(4) have "q \<in> {q ..< q + j}" by auto
    with dis \<open>q \<in> {p ..< p + k}\<close> show False by blast
  qed
  then have "fwd_ok (hmem h1) q p bs" using bs mapped_le [OF mp(2) h1(4)] by (auto simp: fwd_ok_def)
  from memcpy_fwd [OF this] bs(1) have mc: "memcpy (hmem h1) q p k = Some (q, upd (hmem h1) q bs)" by simp
  let ?m = "upd (hmem h1) q bs"
  have "dom ?m = dom (hmem h1)"
    using mapped_le [OF mp(2) h1(4)] bs(1) by (auto simp: upd_apply dom_def mapped_iff split: if_splits dest: le_Suc_ex)
  moreover have "\<exists>c l. ?B c = Some l \<and> c \<le> z \<and> z < c + l" if "?m z \<noteq> hmem h1 z" for z
  proof -
    have "q \<le> z" "z < q + j" using that bs(1) h1(4) by (auto simp: upd_apply split: if_splits)
    with Bp(2) show ?thesis by blast
  qed
  ultimately have wr: "writes_payload ?B (hmem h1) ?m" unfolding writes_payload_def by blast
  have "p \<in> dom ?B" using Bp by auto
  from free_rep [OF heap_rep_put [OF h1(1) wr] this] obtain h2 where f: "free (h1\<lparr>hmem := ?m\<rparr>) p = Some h2"
    "heap_rep dend h2 (?B(p := None))" "same_payload (?B(p := None)) ?m (hmem h2)" by auto
  have eqB: "?B(p := None) = (B(p := None))(q \<mapsto> j)" using qp by (rule fun_upd_twist)
  have "same_payload (B(p := None)) (hmem h1) ?m"
    unfolding same_payload_def
  proof (intro allI impI)
    fix c l z assume z: "(B(p := None)) c = Some l \<and> c \<le> z \<and> z < c + l"
    then have "?B c = Some l" "c \<noteq> q" using h1(3) by (auto split: if_splits)
    from heap_rep_disjoint [OF h1(1) this(1) Bp(2) this(2)] z have "z \<notin> {q ..< q + j}" by auto
    with bs(1) h1(4) show "?m z = hmem h1 z" by (auto simp: upd_apply)
  qed
  moreover have "same_payload (B(p := None)) (hmem h) (hmem h1)" using h1(6) by (rule same_payload_mono) (auto split: if_splits)
  moreover have "same_payload (B(p := None)) ?m (hmem h2)"
    using f(3) unfolding eqB by (rule same_payload_mono) (use h1(3) in \<open>auto split: if_splits\<close>)
  ultimately have sp: "same_payload (B(p := None)) (hmem h) (hmem h2)" using same_payload_trans by blast
  have "hmem h2 (q + i) = hmem h (p + i)" if "i < k" for i
  proof -
    have "((B(p := None))(q \<mapsto> j)) q = Some j" by simp
    from same_payloadD [OF f(3) [unfolded eqB] this, of i] have "hmem h2 (q + i) = ?m (q + i)" using that h1(4) by simp
    also have "\<dots> = Some (bs ! i)" using that bs(1) by (simp add: upd_apply)
    also have "\<dots> = hmem h1 (p + i)" using bytes_at_nth [OF bs(2)] that bs(1) by simp
    also have "\<dots> = hmem h (p + i)" by (rule same_payloadD [OF h1(6) p(1) that])
    finally show ?thesis .
  qed
  with mc f eqB sp p(4) show ?thesis by auto
qed

lemma realloc_rep:
  assumes rep: "heap_rep dend h B" and p: "B p = Some k" and n: "n \<le> 2 ^ 32 - 64"
  shows "\<exists>q h'. realloc chgsize h p n = Some (q, h') \<and> same_payload (B(p := None)) (hmem h) (hmem h') \<and>
    (if q = 0 then heap_rep dend h' B \<and> same_payload B (hmem h) (hmem h')
     else \<exists>j \<ge> n. heap_rep dend h' ((B(p := None))(q \<mapsto> j)) \<and> (\<forall>i < k. hmem h' (q + i) = hmem h (p + i)))"
proof -
  from rep obtain us fs L s where h: "heap_ok (dend (kern h)) h us fs L" "block_map h L B" "usemdown (heapSem h) = Some s"
    by (auto simp: heap_rep_def)
  from h(2) p obtain area x where a: "area \<in> L" "areas h area = Some x" "p = aaddr x + 12" "k = asize x - 16"
    unfolding block_map_def by metis
  have w: "wf_areas (dend (kern h)) (areas h) (usableList h) (freeList h) (hmem h) us fs L"
    and g: "guards_ok (hmem h) (areas h) area" using h(1) a(1) by (simp_all add: heap_ok_def)
  note d = wfD [OF w]
  have okx: "area_ok (dend (kern h)) (hmem h) (areas h) area" using d(11) a(1) by auto
  note okx = area_okD [OF okx d(1) a(2)]
  have x16: "16 \<le> asize x" using g a(2) by (auto simp: guards_ok_def)
  have cg: "check_guards (hmem h) (aaddr x) = Some area"
    using check_guards_ok [OF g a(2) okx(2)] okx(7) wf_below [OF w, of area] a(1) d(1) by simp
  have n20: "n \<le> 2 ^ 32 - 20" using n by simp
  note as = area_size_exact [OF n20]
  have up: "h\<lparr>heapSem := usemup s\<rparr> = h" using usemup_usemdown [OF h(3)] by simp
  let ?sz = "area_size n"
  show ?thesis
  proof (cases "?sz < asize x")
    case True
    then have "realloc chgsize h p n = Some (p, h)"
      using a(2,3) cg h(3) up by (simp add: realloc_def Let_def)
    moreover have "(B(p := None))(p \<mapsto> k) = B" using p by auto
    moreover have "n \<le> k" using True as a(4) by simp
    ultimately show ?thesis using rep a(3) by (intro exI [of _ p] exI [of _ h]) (auto simp: same_payload_def)
  next
    case False
    from find_behind_linked [OF d(3) _ d(5), of "[]" "aaddr x + asize x"] obtain c prev where
      fb: "find_behind (areas h) (usableList h) 0 (aaddr x + asize x) = Some (c, prev)"
      "c \<noteq> 0 \<longrightarrow> c \<in> set us \<and> prev = pred0 us c \<and> (\<exists>b. areas h c = Some b \<and> aaddr b = aaddr x + asize x)" by auto
    define b where "b = (if c = 0 then 0 else asize (the (areas h c)))"
    have bb: "(if c = 0 then Some 0 else do { b \<leftarrow> areas h c; Some (asize b) }) = Some b"
      using fb(2) by (auto simp: b_def)
    have sum: "uadd (asize x) b = asize x + b"
    proof (cases "c = 0")
      case True
      then show ?thesis using okx(7) by (simp add: b_def uadd_def)
    next
      case False
      with fb(2) obtain y where y: "c \<in> set us" "areas h c = Some y" "aaddr y = aaddr x + asize x" by blast
      then have "area_ok (dend (kern h)) (hmem h) (areas h) c" using d(11) by auto
      from area_okD(7) [OF this d(1) y(2)] y False show ?thesis by (simp add: b_def uadd_def)
    qed
    show ?thesis
    proof (cases "c \<noteq> 0 \<and> asize x + b \<ge> ?sz")
      case True
      with fb(2) obtain y where y: "c \<in> set us" "prev = pred0 us c" "areas h c = Some y" "aaddr y = aaddr x + asize x" by blast
      have "?sz \<le> asize x + asize y" using True y(3) by (auto simp: b_def)
      from realloc_grow [OF h(1,2,3) a(1,2) y(1,3,4) _ this as(2)] False obtain h1 m where
        r: "grow_area (h\<lparr>heapSem := s\<rparr>) area c prev ?sz = Some h1" "add_guards (hmem h1) (aaddr x) area ?sz = Some m"
        "heap_rep dend (h1\<lparr>hmem := m, heapSem := usemup (heapSem h1)\<rparr>) (B(p \<mapsto> ?sz - 16))"
        "same_payload (B(p := None)) (hmem h) m" "\<forall>i < k. m (p + i) = hmem h (p + i)" using y(2) a(3,4) by auto
      let ?h2 = "h1\<lparr>hmem := m, heapSem := usemup (heapSem h1)\<rparr>"
      have "realloc chgsize h p n = Some (p, ?h2)"
        using a(2,3) cg h(3) False okx(8) fb(1) bb sum True r(1,2) by (simp add: realloc_def Let_def)
      then show ?thesis using r(3-5) as(4) a(3) by (intro exI [of _ p] exI [of _ ?h2]) auto
    next
      case no: False
      have szr: "0 < ?sz" "?sz \<le> 2 ^ 32 - 20" using as(1,3) n by auto
      from malloc_ok [OF h(1) szr h(3)] obtain q h1 where m: "malloc chgsize h ?sz = Some (q, h1)" "keeps L h h1" by blast
      from malloc_rep [OF rep szr] m(1) have mr: "same_payload B (hmem h) (hmem h1)"
        "if q = 0 then heap_rep dend h1 B else q \<notin> dom B \<and> (\<exists>j \<ge> ?sz. heap_rep dend h1 (B(q \<mapsto> j)))" by auto
      have sp0: "same_payload (B(p := None)) (hmem h) (hmem h1)"
        using mr(1) by (rule same_payload_mono) (auto split: if_splits)
      have x1: "areas h1 area = Some x" using m(2) a(1,2) by (simp add: keeps_def)
      have step: "realloc chgsize h p n = (if q = 0 then Some (0, h1) else do {
          (r, m) \<leftarrow> memcpy (hmem h1) q p (asize x - 16);
          h2 \<leftarrow> free (h1\<lparr>hmem := m\<rparr>) p;
          Some (q, h2) })"
        using a(2,3) cg h(3) False okx(8) fb(1) bb sum no m(1) up x1 by (auto simp: realloc_def Let_def)
      show ?thesis
      proof (cases "q = 0")
        case True
        with step mr sp0 show ?thesis by auto
      next
        case False
        with mr(2) obtain j where j: "q \<notin> dom B" "?sz \<le> j" "heap_rep dend h1 (B(q \<mapsto> j))" by auto
        have "k \<le> j" using j(2) \<open>\<not> ?sz < asize x\<close> a(4) by simp
        from realloc_move [OF rep p a(3,2) a(4) [symmetric] j(3) False j(1) this x1 mr(1)] obtain r m' h2 where
          r: "memcpy (hmem h1) q p (asize x - 16) = Some (r, m')" "free (h1\<lparr>hmem := m'\<rparr>) p = Some h2"
          "heap_rep dend h2 ((B(p := None))(q \<mapsto> j))" "same_payload (B(p := None)) (hmem h) (hmem h2)"
          "\<forall>i < k. hmem h2 (q + i) = hmem h (p + i)" by blast
        moreover have "n \<le> j" using j(2) as(3,4) by simp
        ultimately show ?thesis using step False by (intro exI [of _ q] exI [of _ h2]) auto
      qed
    qed
  qed
qed

end

context data_segment
begin

lemma calloc_rep:
  assumes rep: "heap_rep dend h B" and n: "0 < num * sz" "num * sz \<le> 2 ^ 32 - 20"
  shows "\<exists>p h'. calloc chgsize h num sz = Some (p, h') \<and> same_payload B (hmem h) (hmem h') \<and>
    (if p = 0 then heap_rep dend h' B
     else p \<notin> dom B \<and> (\<exists>k \<ge> num * sz. heap_rep dend h' (B(p \<mapsto> k))) \<and>
       bytes_at (hmem h') p (replicate (num * sz) 0))"
proof -
  let ?n = "num * sz"
  have md: "?n mod 2 ^ 32 = ?n" using n(2) by (intro mod_less) simp
  from malloc_rep [OF rep n] obtain p h1 where m: "malloc chgsize h ?n = Some (p, h1)" "same_payload B (hmem h) (hmem h1)"
    "if p = 0 then heap_rep dend h1 B else p \<notin> dom B \<and> (\<exists>k \<ge> ?n. heap_rep dend h1 (B(p \<mapsto> k)))" by blast
  show ?thesis
  proof (cases "p = 0")
    case True
    with m md show ?thesis by (auto simp: calloc_def Let_def)
  next
    case False
    with m(3) obtain k where k: "p \<notin> dom B" "?n \<le> k" "heap_rep dend h1 (B(p \<mapsto> k))" by auto
    let ?B = "B(p \<mapsto> k)"
    have Bp: "?B p = Some k" by simp
    have mp: "mapped (hmem h1) p ?n" using heap_rep_block [OF k(3) Bp] k(2) mapped_le by blast
    let ?m = "upd (hmem h1) p (replicate ?n 0)"
    have ms: "memset (hmem h1) p 0 ?n = Some (p, ?m)" using memset_mapped [OF mp, of 0] by simp
    have "dom ?m = dom (hmem h1)"
      using mp by (auto simp: upd_apply dom_def mapped_iff split: if_splits dest: le_Suc_ex)
    moreover have "\<exists>c l. ?B c = Some l \<and> c \<le> z \<and> z < c + l" if "?m z \<noteq> hmem h1 z" for z
    proof -
      have "p \<le> z" "z < p + k" using that k(2) by (auto simp: upd_apply split: if_splits)
      with Bp show ?thesis by blast
    qed
    ultimately have "heap_rep dend (h1\<lparr>hmem := ?m\<rparr>) ?B"
      by (intro heap_rep_put [OF k(3)]) (auto simp: writes_payload_def)
    moreover have "same_payload B (hmem h1) ?m"
      unfolding same_payload_def
    proof (intro allI impI)
      fix c l z assume z: "B c = Some l \<and> c \<le> z \<and> z < c + l"
      with k(1) have c: "?B c = Some l" "c \<noteq> p" by auto
      from heap_rep_disjoint [OF k(3) c(1) Bp c(2)] z have "z \<notin> {p ..< p + k}" by auto
      with k(2) show "?m z = hmem h1 z" by (auto simp: upd_apply)
    qed
    then have "same_payload B (hmem h) ?m" by (rule same_payload_trans [OF m(2)])
    moreover have "calloc chgsize h num sz = Some (p, h1\<lparr>hmem := ?m\<rparr>)"
      using m(1) md ms False by (simp add: calloc_def Let_def)
    ultimately show ?thesis using False k(1,2) by (intro exI [of _ p] exI [of _ "h1\<lparr>hmem := ?m\<rparr>"]) auto
  qed
qed

end

text \<open>A kernel that grants pages from an address on until the limit is reached.\<close>

definition segment_grow :: "addr chgsize" where
  "segment_grow k n m =
     (if k = 0 \<or> k mod 4 \<noteq> 0 \<or> k + PAGE_SIZE * n > 0xC0000000 then (0, m, k)
      else (k, (\<lambda>a. if k \<le> a \<and> a < k + PAGE_SIZE * n then Some 0 else m a), k + PAGE_SIZE * n))"

interpretation segment: data_segment segment_grow "\<lambda>k. k"
  by unfold_locales (auto simp: segment_grow_def mapped_iff split: if_splits)

lemma heap_rep_init: "initHeap True m k = Some h \<Longrightarrow> dend k \<le> 0xC0000000 \<Longrightarrow> heap_rep dend h Map.empty"
  by (auto simp: initHeap_def heap_rep_def heap_ok_def block_map_def usemcrt_def usemdown_def usemdown_add_def
      apart_def pairwise_def intro!: exI [of _ "[]"] exI [of _ "{}"] wfI)

definition heap0 :: "addr heap" where
  "heap0 = the (initHeap True Map.empty 0x200000)"

lemma heap0_rep: "heap_rep (\<lambda>k. k) heap0 Map.empty"
proof -
  have "initHeap True Map.empty 0x200000 = Some heap0" by (simp add: heap0_def initHeap_def)
  moreover have "(\<lambda>k :: addr. k) 0x200000 \<le> 0xC0000000" by simp
  ultimately show ?thesis by (rule heap_rep_init)
qed

text \<open>The first \<open>malloc\<close> of a program gets its memory.\<close>

lemma link_areas_last:
  "link_areas ar fl area (Suc n) = (ar', f) \<Longrightarrow> f = area + 12 * n \<and> (\<exists>x. ar' f = Some x \<and> anext x = (if n = 0 then fl else area + 12 * (n - 1)))"
proof (induction n arbitrary: ar fl area)
  case (Suc n)
  from Suc.prems have "link_areas (ar(area \<mapsto> \<lparr>asize = 0, aaddr = 0, anext = fl\<rparr>)) area (area + 12) (Suc n) = (ar', f)" by simp
  from Suc.IH [OF this] show ?case by (auto split: if_splits simp: algebra_simps)
qed auto

lemma malloc_heap0: "\<exists>p h' k. malloc segment_grow heap0 100 = Some (p, h') \<and> p \<noteq> 0 \<and> heap_rep (\<lambda>k. k) h' [p \<mapsto> k]"
proof -
  from segment.malloc_rep [OF heap0_rep, of 100] obtain p h' where m: "malloc segment_grow heap0 100 = Some (p, h')"
    "if p = 0 then heap_rep (\<lambda>k. k) h' Map.empty else p \<notin> dom Map.empty \<and> (\<exists>k \<ge> 100. heap_rep (\<lambda>k. k) h' [p \<mapsto> k])"
    by (auto simp del: if_split)
  obtain ar f where l: "link_areas Map.empty 0 0x200000 (Suc 340) = (ar, f)" by (cases "link_areas Map.empty 0 0x200000 (Suc 340)")
  from link_areas_last [OF l] obtain x where x: "f = 0x200000 + 12 * 340" "ar f = Some x" "anext x = 0x200000 + 12 * 339"
    by auto
  have "p \<noteq> 0"
    using m(1) l x
    by (auto simp: malloc_def take_area_def loadNewSpace_def loadNewAreas_def segment_grow_def heap0_def initHeap_def
      find_area.simps split_area_def usemdown_def area_size_def uadd_def usemcrt_def Let_def simp del: link_areas.simps
      split: option.splits Option.bind_splits prod.splits if_splits)
  with m show ?thesis by auto
qed
section \<open>Properties\<close>

text \<open>C1: \<open>malloc\<close> of 1 to \<open>2 ^ 32 - 20\<close> bytes on a well-formed heap returns, with the heap lock released. It returns NULL,
  with the same live blocks as before (free areas may get lost on the way), or a new block of at least the requested size that is mapped
  and shares no byte with any live block. In both cases the bytes of all live blocks are unchanged and the heap is well-formed. The
  hypothesis on \<open>chgsize\<close> is the contract of the system call. For larger requests the size of the area wraps round.\<close>

theorem malloc_contract:
  assumes seg: "data_segment chgsize dend" and h: "heap_rep dend h B" "0 < n" "n \<le> 2 ^ 32 - 20"
  shows "\<exists>p h'. malloc chgsize h n = Some (p, h') \<and> same_payload B (hmem h) (hmem h') \<and>
    (if p = 0 then heap_rep dend h' B
     else \<exists>k \<ge> n. heap_rep dend h' (B(p \<mapsto> k)) \<and> mapped (hmem h') p k \<and>
       (\<forall>q j. B q = Some j \<longrightarrow> {p ..< p + k} \<inter> {q ..< q + j} = {}))"
proof -
  from data_segment.malloc_rep [OF seg h] obtain p h' where m: "malloc chgsize h n = Some (p, h')"
    "same_payload B (hmem h) (hmem h')"
    "if p = 0 then heap_rep dend h' B else p \<notin> dom B \<and> (\<exists>k \<ge> n. heap_rep dend h' (B(p \<mapsto> k)))" by blast
  have "mapped (hmem h') p k" if "heap_rep dend h' (B(p \<mapsto> k))" for k
    using data_segment.heap_rep_block [OF seg that, of p k] by simp
  moreover have "{p ..< p + k} \<inter> {q ..< q + j} = {}"
    if "p \<notin> dom B" "heap_rep dend h' (B(p \<mapsto> k))" "B q = Some j" for k q j
    using data_segment.heap_rep_disjoint [OF seg that(2), of p k q j] that by (cases "q = p") auto
  ultimately have "if p = 0 then heap_rep dend h' B else \<exists>k \<ge> n. heap_rep dend h' (B(p \<mapsto> k)) \<and> mapped (hmem h') p k \<and>
      (\<forall>q j. B q = Some j \<longrightarrow> {p ..< p + k} \<inter> {q ..< q + j} = {})" using m(3) by (metis (no_types, lifting))
  with m show ?thesis by blast
qed

theorem malloc_contract_witness:
  "\<exists>p h'. malloc segment_grow heap0 100 = Some (p, h')"
  using malloc_contract [OF segment.data_segment_axioms heap0_rep, of 100] by auto

text \<open>C2: \<open>free\<close> of a live block never fails a guard check: it returns, the block is no longer live, every
  other live block keeps its bytes, and the heap stays well-formed whichever neighbours the area is
  merged with.\<close>

theorem free_contract:
  assumes seg: "data_segment chgsize dend" and h: "heap_rep dend h B" "B p = Some k"
  shows "\<exists>h'. free h p = Some h' \<and> heap_rep dend h' (B(p := None)) \<and>
    (\<forall>q j i. B q = Some j \<and> q \<noteq> p \<and> i < j \<longrightarrow> hmem h' (q + i) = hmem h (q + i))"
proof -
  from data_segment.free_rep [OF seg h(1), of p] h(2) obtain h' where f: "free h p = Some h'"
    "heap_rep dend h' (B(p := None))" "same_payload (B(p := None)) (hmem h) (hmem h')" by auto
  have "hmem h' (q + i) = hmem h (q + i)" if "B q = Some j" "q \<noteq> p" "i < j" for q j i
    using same_payloadD [OF f(3), of q j i] that by simp
  with f show ?thesis by blast
qed

theorem free_contract_witness:
  "\<exists>p h1 h2. malloc segment_grow heap0 100 = Some (p, h1) \<and> free h1 p = Some h2 \<and> heap_rep (\<lambda>k. k) h2 Map.empty"
proof -
  from malloc_heap0 obtain p h1 k where m: "malloc segment_grow heap0 100 = Some (p, h1)" "heap_rep (\<lambda>k. k) h1 [p \<mapsto> k]"
    by blast
  from free_contract [OF segment.data_segment_axioms m(2), of p k] m(1) show ?thesis by auto
qed

text \<open>C3: \<open>realloc\<close> of a live block to at most \<open>2 ^ 32 - 64\<close> bytes on a well-formed heap returns. It returns NULL, and then all live blocks, the old one
  too, are there with their bytes (free areas may get lost as in \<open>malloc\<close>); or it returns a block of at least the requested size that starts with
  all bytes of the old one, in place or moved. The other live blocks keep their bytes and the heap is well-formed.\<close>

theorem realloc_contract:
  assumes seg: "data_segment chgsize dend" and h: "heap_rep dend h B" "B p = Some k" "n \<le> 2 ^ 32 - 64"
  shows "\<exists>q h'. realloc chgsize h p n = Some (q, h') \<and>
    (\<forall>c j i. B c = Some j \<and> c \<noteq> p \<and> i < j \<longrightarrow> hmem h' (c + i) = hmem h (c + i)) \<and>
    (if q = 0 then heap_rep dend h' B \<and> (\<forall>i < k. hmem h' (p + i) = hmem h (p + i))
     else \<exists>j \<ge> n. heap_rep dend h' ((B(p := None))(q \<mapsto> j)) \<and> (\<forall>i < k. hmem h' (q + i) = hmem h (p + i)))"
proof -
  from data_segment.realloc_rep [OF seg h] obtain q h' where r: "realloc chgsize h p n = Some (q, h')"
    "same_payload (B(p := None)) (hmem h) (hmem h')"
    "if q = 0 then heap_rep dend h' B \<and> same_payload B (hmem h) (hmem h')
     else \<exists>j \<ge> n. heap_rep dend h' ((B(p := None))(q \<mapsto> j)) \<and> (\<forall>i < k. hmem h' (q + i) = hmem h (p + i))" by blast
  have "hmem h' (c + i) = hmem h (c + i)" if "B c = Some j" "c \<noteq> p" "i < j" for c j i
    using same_payloadD [OF r(2), of c j i] that by simp
  moreover have "q = 0 \<Longrightarrow> i < k \<Longrightarrow> hmem h' (p + i) = hmem h (p + i)" for i
    using r(3) same_payloadD [of B "hmem h" "hmem h'" p k i] h(2) by simp
  ultimately show ?thesis using r by (intro exI [of _ q] exI [of _ h']) (auto split: if_splits)
qed

theorem realloc_contract_witness:
  "\<exists>p h1 q h2. malloc segment_grow heap0 100 = Some (p, h1) \<and> realloc segment_grow h1 p 5000 = Some (q, h2)"
proof -
  from malloc_heap0 obtain p h1 k where m: "malloc segment_grow heap0 100 = Some (p, h1)" "heap_rep (\<lambda>k. k) h1 [p \<mapsto> k]"
    by blast
  from realloc_contract [OF segment.data_segment_axioms m(2), of p k 5000] m(1) show ?thesis by auto
qed

text \<open>\<open>calloc\<close> returns NULL or a new block whose bytes are all zero, when the product of its arguments
  does not overflow.\<close>

theorem calloc_contract:
  assumes seg: "data_segment chgsize dend" and h: "heap_rep dend h B" "0 < num * sz" "num * sz \<le> 2 ^ 32 - 20"
  shows "\<exists>p h'. calloc chgsize h num sz = Some (p, h') \<and>
    (\<forall>q j i. B q = Some j \<and> i < j \<longrightarrow> hmem h' (q + i) = hmem h (q + i)) \<and>
    (if p = 0 then heap_rep dend h' B
     else p \<notin> dom B \<and> (\<exists>k \<ge> num * sz. heap_rep dend h' (B(p \<mapsto> k))) \<and>
       bytes_at (hmem h') p (replicate (num * sz) 0))"
proof -
  from data_segment.calloc_rep [OF seg h] obtain p h' where c: "calloc chgsize h num sz = Some (p, h')"
    "same_payload B (hmem h) (hmem h')" "if p = 0 then heap_rep dend h' B
     else p \<notin> dom B \<and> (\<exists>k \<ge> num * sz. heap_rep dend h' (B(p \<mapsto> k))) \<and>
       bytes_at (hmem h') p (replicate (num * sz) 0)" by blast
  then show ?thesis using same_payloadD [OF c(2)] by (intro exI [of _ p] exI [of _ h']) simp
qed

theorem calloc_contract_witness:
  "\<exists>p h'. calloc segment_grow heap0 10 4 = Some (p, h') \<and>
     (p = 0 \<or> bytes_at (hmem h') p (replicate 40 0))"
proof -
  from calloc_contract [OF segment.data_segment_axioms heap0_rep, of 10 4] show ?thesis by (auto split: if_splits)
qed

text \<open>The size computations wrap: a request of nearly all memory becomes an area of no bytes, whose guard
  words then overwrite their surroundings, and \<open>calloc\<close> may allocate less than its product.\<close>

lemma area_size_wraps: "area_size (2 ^ 32 - 16) = 0" "area_size (2 ^ 32 - 1) = 16"
  by (simp_all add: area_size_def uadd_def)

end
