(* ===== verification/SLList.thy ===== *)
theory SLList
  imports Heap
begin

text \<open>
  The singly linked list of \<open>lib/basic/sllist.c\<close>. Headers and nodes are records in two stores
  indexed by address; \<open>alc\<close> is the state of the allocator behind the function pointers \<open>falloc\<close> and
  \<open>ffree\<close> that a header carries. A freed node is no longer in its store: using it has no result.
  Each operation is shown to implement the corresponding operation on a HOL list, for every
  allocator that keeps the contract \<open>allocator\<close>; the heap of \<open>Heap\<close> is one.
\<close>

section \<open>State\<close>

record sNode =
  next_f :: addr
  data :: addr

record 'h sList =
  falloc :: "'h \<Rightarrow> nat \<Rightarrow> (addr \<times> 'h) option"
  ffree :: "'h \<Rightarrow> addr \<Rightarrow> 'h option"
  first :: addr
  last_f :: addr
  length_f :: nat

record 'h sll =
  lists :: "addr \<rightharpoonup> 'h sList"
  nodes :: "addr \<rightharpoonup> sNode"
  alc :: 'h

abbreviation SIZEOF_LIST :: nat where "SIZEOF_LIST \<equiv> 20"
abbreviation SIZEOF_NODE :: nat where "SIZEOF_NODE \<equiv> 8"

section \<open>Operations\<close>

definition sll_init ::
  "'h sll \<Rightarrow> addr \<Rightarrow> ('h \<Rightarrow> nat \<Rightarrow> (addr \<times> 'h) option) \<Rightarrow> ('h \<Rightarrow> addr \<Rightarrow> 'h option) \<Rightarrow> 'h sll" where
  "sll_init s l fa ff = s\<lparr>lists := (lists s)(l \<mapsto>
     \<lparr>falloc = fa, ffree = ff, first = 0, last_f = 0, length_f = 0\<rparr>)\<rparr>"

definition sll_createExtern ::
  "('h \<Rightarrow> nat \<Rightarrow> (addr \<times> 'h) option) \<Rightarrow> 'h sll \<Rightarrow> ('h \<Rightarrow> nat \<Rightarrow> (addr \<times> 'h) option) \<Rightarrow>
   ('h \<Rightarrow> addr \<Rightarrow> 'h option) \<Rightarrow> (addr \<times> 'h sll) option" where
  "sll_createExtern heapalloc s fa ff = do {
     (l, h) \<leftarrow> heapalloc (alc s) SIZEOF_LIST;
     let s' = s\<lparr>alc := h\<rparr>;
     Some (if l = 0 then (0, s') else (l, sll_init s' l fa ff)) }"

definition sll_create ::
  "('h \<Rightarrow> nat \<Rightarrow> (addr \<times> 'h) option) \<Rightarrow> ('h \<Rightarrow> addr \<Rightarrow> 'h option) \<Rightarrow> 'h sll \<Rightarrow> (addr \<times> 'h sll) option" where
  "sll_create heapalloc heapfree s = do {
     (l, h) \<leftarrow> heapalloc (alc s) SIZEOF_LIST;
     let s' = s\<lparr>alc := h\<rparr>;
     Some (if l = 0 then (0, s') else (l, sll_init s' l heapalloc heapfree)) }"

text \<open>The loop of \<open>sll_clear\<close>; \<open>heapfree\<close> frees the data.\<close>

partial_function (option) sll_clear_loop ::
  "('h \<Rightarrow> addr \<Rightarrow> 'h option) \<Rightarrow> ('h \<Rightarrow> addr \<Rightarrow> 'h option) \<Rightarrow> 'h sll \<Rightarrow> addr \<Rightarrow> bool \<Rightarrow> 'h sll option" where
  "sll_clear_loop heapfree ff s n freeData =
     (if n = 0 then Some s
      else do {
        x \<leftarrow> nodes s n;
        h1 \<leftarrow> (if freeData then heapfree (alc s) (data x) else Some (alc s));
        h2 \<leftarrow> ff h1 n;
        sll_clear_loop heapfree ff (s\<lparr>nodes := (nodes s)(n := None), alc := h2\<rparr>) (next_f x) freeData })"

definition sll_clear :: "('h \<Rightarrow> addr \<Rightarrow> 'h option) \<Rightarrow> 'h sll \<Rightarrow> addr \<Rightarrow> bool \<Rightarrow> 'h sll option" where
  "sll_clear heapfree s l freeData = do {
     vassert (l \<noteq> 0);
     L \<leftarrow> lists s l;
     s' \<leftarrow> sll_clear_loop heapfree (ffree L) s (first L) freeData;
     Some (s'\<lparr>lists := (lists s')(l \<mapsto> L\<lparr>length_f := 0, first := 0, last_f := 0\<rparr>)\<rparr>) }"

definition sll_destroy :: "('h \<Rightarrow> addr \<Rightarrow> 'h option) \<Rightarrow> 'h sll \<Rightarrow> addr \<Rightarrow> bool \<Rightarrow> 'h sll option" where
  "sll_destroy heapfree s l freeData =
     (if l = 0 then Some s
      else do {
        s1 \<leftarrow> sll_clear heapfree s l freeData;
        h \<leftarrow> heapfree (alc s1) l;
        Some (s1\<lparr>lists := (lists s1)(l := None), alc := h\<rparr>) })"

definition sll_begin :: "'h sll \<Rightarrow> addr \<Rightarrow> addr option" where
  "sll_begin s l = do { L \<leftarrow> lists s l; Some (first L) }"

definition sll_length :: "'h sll \<Rightarrow> addr \<Rightarrow> nat option" where
  "sll_length s l = (if l = 0 then Some 0 else do { L \<leftarrow> lists s l; Some (length_f L) })"

text \<open>\<open>while(index-- > 0) n = n->next;\<close>\<close>

fun sll_walk :: "'h sll \<Rightarrow> addr \<Rightarrow> nat \<Rightarrow> addr option" where
  "sll_walk s n 0 = Some n"
| "sll_walk s n (Suc index) = do { x \<leftarrow> nodes s n; sll_walk s (next_f x) index }"

definition sll_getNode :: "'h sll \<Rightarrow> addr \<Rightarrow> nat \<Rightarrow> addr option" where
  "sll_getNode s l index = do {
     vassert (l \<noteq> 0);
     L \<leftarrow> lists s l;
     vassert (index \<le> length_f L);
     if int index = uint32 (int (length_f L) - 1) then Some (last_f L)
     else sll_walk s (first L) index }"

definition sll_nodeAt :: "'h sll \<Rightarrow> addr \<Rightarrow> nat \<Rightarrow> addr option" where
  "sll_nodeAt s l index = sll_getNode s l index"

partial_function (option) sll_indexOf_loop :: "'h sll \<Rightarrow> addr \<Rightarrow> addr \<Rightarrow> int \<Rightarrow> int option" where
  "sll_indexOf_loop s n d i =
     (if n = 0 then Some (-1)
      else do {
        x \<leftarrow> nodes s n;
        if data x = d then Some i else sll_indexOf_loop s (next_f x) d (i + 1) })"

definition sll_indexOf :: "'h sll \<Rightarrow> addr \<Rightarrow> addr \<Rightarrow> int option" where
  "sll_indexOf s l d = do { L \<leftarrow> lists s l; sll_indexOf_loop s (first L) d 0 }"

partial_function (option) sll_nodeWith_loop :: "'h sll \<Rightarrow> addr \<Rightarrow> addr \<Rightarrow> addr option" where
  "sll_nodeWith_loop s n d =
     (if n = 0 then Some 0
      else do {
        x \<leftarrow> nodes s n;
        if data x = d then Some n else sll_nodeWith_loop s (next_f x) d })"

definition sll_nodeWith :: "'h sll \<Rightarrow> addr \<Rightarrow> addr \<Rightarrow> addr option" where
  "sll_nodeWith s l d = do { L \<leftarrow> lists s l; sll_nodeWith_loop s (first L) d }"

definition sll_get :: "'h sll \<Rightarrow> addr \<Rightarrow> nat \<Rightarrow> addr option" where
  "sll_get s l index = do {
     n \<leftarrow> sll_getNode s l index;
     if n \<noteq> 0 then do { x \<leftarrow> nodes s n; Some (data x) } else Some 0 }"

definition sll_set :: "'h sll \<Rightarrow> addr \<Rightarrow> addr \<Rightarrow> nat \<Rightarrow> 'h sll option" where
  "sll_set s l d index = do {
     n \<leftarrow> sll_getNode s l index;
     x \<leftarrow> nodes s n;
     Some (s\<lparr>nodes := (nodes s)(n \<mapsto> x\<lparr>data := d\<rparr>)\<rparr>) }"

definition sll_insertAfter :: "'h sll \<Rightarrow> addr \<Rightarrow> addr \<Rightarrow> addr \<Rightarrow> (bool \<times> 'h sll) option" where
  "sll_insertAfter s l prev d = do {
     vassert (l \<noteq> 0);
     L \<leftarrow> lists s l;
     (nn, h) \<leftarrow> falloc L (alc s) SIZEOF_NODE;
     let s0 = s\<lparr>alc := h\<rparr>;
     if nn = 0 then Some (False, s0)
     else do {
       (nodes', first', next') \<leftarrow>
         (if prev \<noteq> 0 then do {
            p \<leftarrow> nodes s0 prev;
            Some ((nodes s0)(nn \<mapsto> \<lparr>next_f = next_f p, data = d\<rparr>, prev \<mapsto> p\<lparr>next_f := nn\<rparr>), first L, next_f p) }
          else Some ((nodes s0)(nn \<mapsto> \<lparr>next_f = first L, data = d\<rparr>), nn, first L));
       Some (True, s0\<lparr>nodes := nodes', lists := (lists s0)(l \<mapsto>
         L\<lparr>first := first', last_f := (if next' = 0 then nn else last_f L), length_f := length_f L + 1\<rparr>)\<rparr>) } }"

text \<open>\<open>while(n != NULL && index-- > 0) { ln = n; n = n->next; }\<close>\<close>

fun sll_insert_walk :: "'h sll \<Rightarrow> addr \<Rightarrow> addr \<Rightarrow> nat \<Rightarrow> addr option" where
  "sll_insert_walk s ln n 0 = Some ln"
| "sll_insert_walk s ln n (Suc index) =
     (if n = 0 then Some ln else do { x \<leftarrow> nodes s n; sll_insert_walk s n (next_f x) index })"

definition sll_insert :: "'h sll \<Rightarrow> addr \<Rightarrow> addr \<Rightarrow> nat \<Rightarrow> (bool \<times> 'h sll) option" where
  "sll_insert s l d index = do {
     vassert (l \<noteq> 0);
     L \<leftarrow> lists s l;
     ln \<leftarrow> (if index = length_f L then Some (last_f L) else sll_insert_walk s 0 (first L) index);
     sll_insertAfter s l ln d }"

definition sll_append :: "'h sll \<Rightarrow> addr \<Rightarrow> addr \<Rightarrow> (bool \<times> 'h sll) option" where
  "sll_append s l d = do { L \<leftarrow> lists s l; sll_insert s l d (length_f L) }"

definition sll_removeNode :: "'h sll \<Rightarrow> addr \<Rightarrow> addr \<Rightarrow> addr \<Rightarrow> 'h sll option" where
  "sll_removeNode s l n ln = do {
     vassert (l \<noteq> 0);
     vassert (n \<noteq> 0);
     L \<leftarrow> lists s l;
     x \<leftarrow> nodes s n;
     (nodes', first') \<leftarrow>
       (if ln \<noteq> 0 then do {
          p \<leftarrow> nodes s ln;
          vassert (next_f p = n);
          Some ((nodes s)(ln \<mapsto> p\<lparr>next_f := next_f x\<rparr>), first L) }
        else Some (nodes s, next_f x));
     h \<leftarrow> ffree L (alc s) n;
     Some (s\<lparr>nodes := nodes'(n := None), alc := h, lists := (lists s)(l \<mapsto>
       L\<lparr>first := first', last_f := (if next_f x = 0 then ln else last_f L), length_f := length_f L - 1\<rparr>)\<rparr>) }"

definition sll_removeFirst :: "'h sll \<Rightarrow> addr \<Rightarrow> (addr \<times> 'h sll) option" where
  "sll_removeFirst s l = do {
     L \<leftarrow> lists s l;
     if length_f L = 0 then Some (0, s)
     else do {
       x \<leftarrow> nodes s (first L);
       h \<leftarrow> ffree L (alc s) (first L);
       Some (data x, s\<lparr>nodes := (nodes s)(first L := None), alc := h, lists := (lists s)(l \<mapsto>
         L\<lparr>first := next_f x, last_f := (if next_f x = 0 then 0 else last_f L), length_f := length_f L - 1\<rparr>)\<rparr>) } }"

partial_function (option) sll_find_loop :: "'h sll \<Rightarrow> addr \<Rightarrow> addr \<Rightarrow> addr \<Rightarrow> int \<Rightarrow> (addr \<times> addr \<times> int) option" where
  "sll_find_loop s ln n d i =
     (if n = 0 then Some (ln, 0, i)
      else do {
        x \<leftarrow> nodes s n;
        if data x = d then Some (ln, n, i) else sll_find_loop s n (next_f x) d (i + 1) })"

definition sll_removeFirstWith :: "'h sll \<Rightarrow> addr \<Rightarrow> addr \<Rightarrow> (int \<times> 'h sll) option" where
  "sll_removeFirstWith s l d = do {
     L \<leftarrow> lists s l;
     vassert (l \<noteq> 0);
     (ln, n, i) \<leftarrow> (if d \<noteq> 0 then sll_find_loop s 0 (first L) d 0 else Some (0, first L, 0));
     if n = 0 then Some (-1, s)
     else do { s' \<leftarrow> sll_removeNode s l n ln; Some (i, s') } }"

text \<open>\<open>while(index-- > 0) { ln = n; n = n->next; }\<close>\<close>

fun sll_remove_walk :: "'h sll \<Rightarrow> addr \<Rightarrow> addr \<Rightarrow> nat \<Rightarrow> (addr \<times> addr) option" where
  "sll_remove_walk s ln n 0 = Some (ln, n)"
| "sll_remove_walk s ln n (Suc index) = do { x \<leftarrow> nodes s n; sll_remove_walk s n (next_f x) index }"

definition sll_removeIndex :: "'h sll \<Rightarrow> addr \<Rightarrow> nat \<Rightarrow> (addr \<times> 'h sll) option" where
  "sll_removeIndex s l index = do {
     L \<leftarrow> lists s l;
     vassert (l \<noteq> 0);
     (ln, n) \<leftarrow> sll_remove_walk s 0 (first L) index;
     if n = 0 then Some (0, s)
     else do {
       x \<leftarrow> nodes s n;
       s' \<leftarrow> sll_removeNode s l n ln;
       Some (data x, s') } }"

partial_function (option) sll_clone_loop ::
  "('h \<Rightarrow> addr \<Rightarrow> 'h option) \<Rightarrow> 'h sll \<Rightarrow> addr \<Rightarrow> addr \<Rightarrow> (addr \<times> 'h sll) option" where
  "sll_clone_loop heapfree s l n =
     (if n = 0 then Some (l, s)
      else do {
        x \<leftarrow> nodes s n;
        (ok, s1) \<leftarrow> sll_append s l (data x);
        if \<not> ok then do { s2 \<leftarrow> sll_destroy heapfree s1 l False; Some (0, s2) }
        else sll_clone_loop heapfree s1 l (next_f x) })"

definition sll_clone ::
  "('h \<Rightarrow> nat \<Rightarrow> (addr \<times> 'h) option) \<Rightarrow> ('h \<Rightarrow> addr \<Rightarrow> 'h option) \<Rightarrow> 'h sll \<Rightarrow> addr \<Rightarrow> (addr \<times> 'h sll) option" where
  "sll_clone heapalloc heapfree s l = do {
     (c, s1) \<leftarrow> sll_create heapalloc heapfree s;
     if c = 0 then Some (0, s1)
     else do {
       n \<leftarrow> sll_begin s1 l;
       sll_clone_loop heapfree s1 c n } }"

section \<open>Linked nodes\<close>

definition snx :: "(addr \<rightharpoonup> sNode) \<Rightarrow> addr \<rightharpoonup> addr" where
  "snx ns p = map_option next_f (ns p)"

definition sdata :: "(addr \<rightharpoonup> sNode) \<Rightarrow> addr list \<Rightarrow> addr list \<Rightarrow> bool" where
  "sdata ns ps xs \<longleftrightarrow> list_all2 (\<lambda>p x. map_option data (ns p) = Some x) ps xs"

lemma snx_upd [simp]: "snx (ns(p \<mapsto> x)) = (snx ns)(p \<mapsto> next_f x)" "snx (ns(p := None)) = (snx ns)(p := None)"
  by (auto simp: snx_def)

lemma snx_SomeE: "snx ns p = Some q \<Longrightarrow> \<exists>x. ns p = Some x \<and> next_f x = q"
  by (auto simp: snx_def)

lemma sdata_length: "sdata ns ps xs \<Longrightarrow> length ps = length xs"
  by (simp add: sdata_def list_all2_lengthD)

lemma sdata_simps [simp]:
  "sdata ns [] xs \<longleftrightarrow> xs = []"
  "sdata ns (p # ps) xs \<longleftrightarrow> (\<exists>x ys. xs = data x # ys \<and> ns p = Some x \<and> sdata ns ps ys)"
  by (auto simp: sdata_def list_all2_Cons1)

lemma sdata_append:
  "length ps = length xs \<Longrightarrow> sdata ns (ps @ qs) (xs @ ys) \<longleftrightarrow> sdata ns ps xs \<and> sdata ns qs ys"
  by (simp add: sdata_def list_all2_append)

lemma sdata_cong: "(\<And>p. p \<in> set ps \<Longrightarrow> map_option data (ns p) = map_option data (ns' p)) \<Longrightarrow> sdata ns ps xs = sdata ns' ps xs"
  unfolding sdata_def list_all2_conv_all_nth by (metis nth_mem)

lemma sdata_other [simp]: "p \<notin> set ps \<Longrightarrow> sdata (ns(p := v)) ps xs = sdata ns ps xs"
  by (rule sdata_cong) auto

lemma sdata_next [simp]: "ns p = Some x \<Longrightarrow> sdata (ns(p \<mapsto> x\<lparr>next_f := q\<rparr>)) ps xs = sdata ns ps xs"
  by (rule sdata_cong) auto

lemma sdata_nth: "sdata ns ps xs \<Longrightarrow> i < length ps \<Longrightarrow> \<exists>x. ns (ps ! i) = Some x \<and> data x = xs ! i"
  by (auto simp: sdata_def list_all2_conv_all_nth)

lemma linked_upd_None [simp]: "q \<notin> set xs \<Longrightarrow> linked (N(q := None)) p xs = linked N p xs"
  by (rule linked_cong) auto

lemma linked_insert:
  assumes "linked N p (as @ bs)" "nn \<noteq> 0" "nn \<notin> set (as @ bs)" "distinct (as @ bs)"
  shows "if as = [] then linked (N(nn \<mapsto> p)) nn (nn # bs)
    else linked (N(nn \<mapsto> hd0 bs, last as \<mapsto> nn)) p (as @ nn # bs) \<and> N (last as) = Some (hd0 bs)"
  using assms
proof (induction as arbitrary: p)
  case Nil
  then show ?case by simp
next
  case (Cons a as)
  from Cons.prems obtain r where r: "p = a" "a \<noteq> 0" "N a = Some r" "linked N r (as @ bs)" by auto
  show ?case
  proof (cases "as = []")
    case True
    with r have l: "linked N r bs" by simp
    then have h: "r = hd0 bs" by (rule linked_hd0)
    have "linked (N(nn \<mapsto> hd0 bs, a \<mapsto> nn)) (hd0 bs) bs"
      using l h Cons.prems(3,4) by (subst linked_upd_other, simp)+ simp
    with True r h Cons.prems(2,3) show ?thesis by (auto simp: fun_upd_def)
  next
    case False
    have "linked (N(nn \<mapsto> hd0 bs, last as \<mapsto> nn)) r (as @ nn # bs) \<and> N (last as) = Some (hd0 bs)"
      using Cons.IH [OF r(4) Cons.prems(2)] Cons.prems(3,4) False by simp
    moreover have "a \<noteq> last as" "a \<noteq> nn" using False Cons.prems(3,4) by auto
    ultimately show ?thesis using False r by (auto simp: fun_upd_def)
  qed
qed

lemma insert_walk_linked:
  "linked (snx (nodes s)) n ps \<Longrightarrow>
   sll_insert_walk s ln n k = Some (if take k ps = [] then ln else last (take k ps))"
proof (induction k arbitrary: ln n ps)
  case (Suc k)
  show ?case
  proof (cases ps)
    case Nil
    with Suc.prems show ?thesis by simp
  next
    case (Cons p ps')
    with Suc.prems obtain x where x: "n = p" "n \<noteq> 0" "nodes s n = Some x" "linked (snx (nodes s)) (next_f x) ps'"
      by (auto dest: snx_SomeE)
    with Suc.IH [OF x(4), of n] Cons show ?thesis by simp
  qed
qed simp

lemma remove_walk_linked:
  "linked (snx (nodes s)) n ps \<Longrightarrow> k \<le> length ps \<Longrightarrow>
   sll_remove_walk s ln n k = Some (if k = 0 then ln else ps ! (k - 1), if k < length ps then ps ! k else 0)"
proof (induction k arbitrary: ln n ps)
  case 0
  then show ?case by (cases ps) auto
next
  case (Suc k)
  then obtain p ps' where ps: "ps = p # ps'" by (cases ps) auto
  with Suc.prems obtain x where x: "n = p" "nodes s n = Some x" "linked (snx (nodes s)) (next_f x) ps'"
    by (auto dest: snx_SomeE)
  with Suc.IH [OF x(3), of n] Suc.prems ps show ?case by (auto simp: nth_Cons')
qed

lemma sll_walk_linked:
  "linked (snx (nodes s)) n ps \<Longrightarrow> k \<le> length ps \<Longrightarrow> sll_walk s n k = Some (if k < length ps then ps ! k else 0)"
proof (induction k arbitrary: n ps)
  case 0
  then show ?case by (cases ps) auto
next
  case (Suc k)
  then obtain p ps' where ps: "ps = p # ps'" by (cases ps) auto
  with Suc.prems obtain x where x: "n = p" "nodes s n = Some x" "linked (snx (nodes s)) (next_f x) ps'"
    by (auto dest: snx_SomeE)
  with Suc.IH [OF x(3)] Suc.prems ps show ?case by simp
qed

lemma indexOf_loop_linked:
  "linked (snx (nodes s)) n ps \<Longrightarrow> sdata (nodes s) ps xs \<Longrightarrow>
   sll_indexOf_loop s n d i = Some (if d \<in> set xs then i + int (length (takeWhile (\<lambda>x. x \<noteq> d) xs)) else -1)"
proof (induction ps arbitrary: n xs i)
  case Nil
  then show ?case by (subst sll_indexOf_loop.simps) simp
next
  case (Cons p ps)
  then obtain x ys where x: "n = p" "n \<noteq> 0" "nodes s n = Some x" "linked (snx (nodes s)) (next_f x) ps"
    "xs = data x # ys" "sdata (nodes s) ps ys" by (auto dest: snx_SomeE)
  from x(1-3,5) Cons.IH [OF x(4,6), of "i + 1"] show ?case by (subst sll_indexOf_loop.simps) simp
qed

lemma find_loop_linked:
  "linked (snx (nodes s)) n ps \<Longrightarrow> sdata (nodes s) ps xs \<Longrightarrow> k = length (takeWhile (\<lambda>x. x \<noteq> d) xs) \<Longrightarrow>
   \<exists>l. sll_find_loop s ln n d i = Some (l, if k < length ps then ps ! k else 0, i + int k) \<and>
     (k < length ps \<longrightarrow> l = (if k = 0 then ln else ps ! (k - 1)))"
proof (induction ps arbitrary: n xs ln i k)
  case Nil
  then show ?case by (subst sll_find_loop.simps) simp
next
  case (Cons p ps)
  then obtain x ys where x: "n = p" "n \<noteq> 0" "nodes s n = Some x" "linked (snx (nodes s)) (next_f x) ps"
    "xs = data x # ys" "sdata (nodes s) ps ys" by (auto dest: snx_SomeE)
  show ?case
  proof (cases "data x = d")
    case True
    with x Cons.prems(3) show ?thesis by (subst sll_find_loop.simps) simp
  next
    case False
    with x(5) Cons.prems(3) obtain j where j: "k = Suc j" "j = length (takeWhile (\<lambda>x. x \<noteq> d) ys)" by simp
    from Cons.IH [OF x(4,6) j(2), of n "i + 1"] False x(1-3) j(1) show ?thesis
      by (subst sll_find_loop.simps) (auto simp: nth_Cons')
  qed
qed

section \<open>Operations on lists\<close>

definition sll_rep ::
  "('h \<Rightarrow> nat \<Rightarrow> (addr \<times> 'h) option) \<Rightarrow> ('h \<Rightarrow> addr \<Rightarrow> 'h option) \<Rightarrow> 'h sll \<Rightarrow> addr \<Rightarrow> addr list \<Rightarrow> addr list \<Rightarrow> bool" where
  "sll_rep fa ff s l ps xs \<longleftrightarrow> l \<noteq> 0 \<and> (\<exists>L. lists s l = Some L \<and> falloc L = fa \<and> ffree L = ff \<and>
     linked (snx (nodes s)) (first L) ps \<and> last_f L = last0 ps \<and> length_f L = length ps \<and>
     distinct ps \<and> sdata (nodes s) ps xs)"

lemma sll_repE:
  assumes "sll_rep fa ff s l ps xs"
  obtains L where "l \<noteq> 0" "lists s l = Some L" "falloc L = fa" "ffree L = ff" "linked (snx (nodes s)) (first L) ps"
    "last_f L = last0 ps" "length_f L = length ps" "distinct ps" "sdata (nodes s) ps xs"
  using assms by (auto simp: sll_rep_def)

lemma sll_getNode_rep:
  assumes "sll_rep fa ff s l ps xs" "k \<le> length xs" "length xs < 2 ^ 32"
  shows "sll_getNode s l k = Some (if k < length ps then ps ! k else 0)"
proof -
  from assms(1) obtain L where L: "l \<noteq> 0" "lists s l = Some L" "linked (snx (nodes s)) (first L) ps"
    "last_f L = last0 ps" "length_f L = length ps" "sdata (nodes s) ps xs" by (rule sll_repE)
  have len: "length ps = length xs" by (rule sdata_length [OF L(6)])
  have "int k = uint32 (int (length ps) - 1) \<longleftrightarrow> Suc k = length ps"
  proof (cases "length ps = 0")
    case True
    with assms(2) len show ?thesis by (simp add: uint32_def)
  next
    case False
    then have "uint32 (int (length ps) - 1) = int (length ps) - 1"
      using assms(3) len by (simp add: uint32_def take_bit_int_eq_self)
    then show ?thesis by auto
  qed
  moreover have "Suc k = length ps \<Longrightarrow> last0 ps = ps ! k" by (cases ps) (auto simp: last0_def last_conv_nth)
  ultimately show ?thesis using L sll_walk_linked [OF L(3), of k] assms(2) len
    by (auto simp: sll_getNode_def)
qed

lemma sll_get_rep:
  assumes "sll_rep fa ff s l ps xs" "k < length xs" "length xs < 2 ^ 32"
  shows "sll_get s l k = Some (xs ! k)"
proof -
  from assms(1) obtain L where L: "linked (snx (nodes s)) (first L) ps" "sdata (nodes s) ps xs" "lists s l = Some L"
    by (blast elim: sll_repE)
  have k: "k < length ps" using sdata_length [OF L(2)] assms(2) by simp
  then have "ps ! k \<noteq> 0" using linked_nonzero [OF L(1)] nth_mem by metis
  with sll_getNode_rep [OF assms(1) _ assms(3), of k] k assms(2) sdata_nth [OF L(2) k] show ?thesis
    by (auto simp: sll_get_def)
qed

lemma sll_set_rep:
  assumes "sll_rep fa ff s l ps xs" "k < length xs" "length xs < 2 ^ 32"
  shows "\<exists>s'. sll_set s l d k = Some s' \<and> sll_rep fa ff s' l ps (xs[k := d]) \<and> alc s' = alc s \<and> dom (nodes s') = dom (nodes s)"
proof -
  from assms(1) obtain L where L: "l \<noteq> 0" "lists s l = Some L" "falloc L = fa" "ffree L = ff"
    "linked (snx (nodes s)) (first L) ps" "last_f L = last0 ps" "length_f L = length ps" "distinct ps"
    "sdata (nodes s) ps xs" by (rule sll_repE)
  have k: "k < length ps" using sdata_length [OF L(9)] assms(2) by simp
  from sdata_nth [OF L(9) k] obtain x where x: "nodes s (ps ! k) = Some x" by blast
  let ?ns = "(nodes s)(ps ! k \<mapsto> x\<lparr>data := d\<rparr>)"
  have "sll_set s l d k = Some (s\<lparr>nodes := ?ns\<rparr>)"
    using sll_getNode_rep [OF assms(1) _ assms(3), of k] k assms(2) x by (simp add: sll_set_def)
  moreover have "snx ?ns = snx (nodes s)" using x by (auto simp: snx_def)
  moreover have "sdata ?ns ps (xs[k := d])"
    using L(8,9) k unfolding sdata_def list_all2_conv_all_nth by (auto simp: nth_list_update nth_eq_iff_index_eq)
  ultimately show ?thesis using L x by (intro exI [of _ "s\<lparr>nodes := ?ns\<rparr>"]) (auto simp: sll_rep_def)
qed

lemma sll_indexOf_rep:
  "sll_rep fa ff s l ps xs \<Longrightarrow>
   sll_indexOf s l d = Some (if d \<in> set xs then int (length (takeWhile (\<lambda>x. x \<noteq> d) xs)) else -1)"
  by (auto elim!: sll_repE simp: sll_indexOf_def indexOf_loop_linked)

text \<open>Insertion behind a prefix \<open>as\<close> and removal behind a prefix.\<close>

lemma sll_insertAfter_rep:
  assumes r: "sll_rep fa ff s l (as @ bs) (ys @ zs)" "length as = length ys"
    and n: "fa (alc s) SIZEOF_NODE = Some (nn, h)" "nn \<noteq> 0" "nn \<notin> dom (nodes s)"
  shows "\<exists>s'. sll_insertAfter s l (last0 as) d = Some (True, s') \<and> alc s' = h \<and>
    dom (nodes s') = insert nn (dom (nodes s)) \<and> sll_rep fa ff s' l (as @ nn # bs) (ys @ d # zs) \<and>
    (\<forall>c. c \<noteq> l \<longrightarrow> lists s' c = lists s c) \<and> (\<forall>p. p \<notin> insert nn (set as) \<longrightarrow> nodes s' p = nodes s p)"
proof -
  from r(1) obtain L where L: "l \<noteq> 0" "lists s l = Some L" "falloc L = fa" "ffree L = ff"
    "linked (snx (nodes s)) (first L) (as @ bs)" "last_f L = last0 (as @ bs)" "length_f L = length (as @ bs)"
    "distinct (as @ bs)" "sdata (nodes s) (as @ bs) (ys @ zs)" by (rule sll_repE)
  have inl: "p \<in> dom (nodes s)" if "p \<in> set (as @ bs)" for p
    using linked_dom [OF L(5) that] by (auto dest: snx_SomeE)
  have nn: "nn \<notin> set (as @ bs)" using inl n(3) by blast
  have sd: "sdata (nodes s) as ys" "sdata (nodes s) bs zs" using L(9) r(2) by (simp_all add: sdata_append)
  note ins = linked_insert [OF L(5) n(2) nn L(8)]
  show ?thesis
  proof (cases "as = []")
    case True
    let ?s = "s\<lparr>alc := h, nodes := (nodes s)(nn \<mapsto> \<lparr>next_f = first L, data = d\<rparr>), lists := (lists s)(l \<mapsto>
        L\<lparr>first := nn, last_f := (if first L = 0 then nn else last_f L), length_f := length_f L + 1\<rparr>)\<rparr>"
    have "sll_insertAfter s l (last0 as) d = Some (True, ?s)"
      using L n True by (simp add: sll_insertAfter_def)
    moreover have "first L = 0 \<longleftrightarrow> bs = []" using L(5) True by (cases bs) auto
    then have "sll_rep fa ff ?s l (as @ nn # bs) (ys @ d # zs)"
      using L True ins nn sd r(2) by (auto simp: sll_rep_def last0_def)
    ultimately show ?thesis by (intro exI [of _ ?s]) auto
  next
    case False
    then have la: "last as \<in> set as" "last0 as = last as" by (simp_all add: last0_def)
    then obtain p where p: "nodes s (last as) = Some p" using inl by fastforce
    have np: "next_f p = hd0 bs" using ins False p by (simp add: snx_def)
    have l0: "last as \<noteq> 0" using linked_nonzero [OF L(5)] la(1) by (metis Un_iff set_append)
    let ?ns = "(nodes s)(nn \<mapsto> \<lparr>next_f = next_f p, data = d\<rparr>, last as \<mapsto> p\<lparr>next_f := nn\<rparr>)"
    let ?s = "s\<lparr>alc := h, nodes := ?ns, lists := (lists s)(l \<mapsto>
        L\<lparr>first := first L, last_f := (if next_f p = 0 then nn else last_f L), length_f := length_f L + 1\<rparr>)\<rparr>"
    have "sll_insertAfter s l (last0 as) d = Some (True, ?s)"
      using L n la(2) l0 p by (simp add: sll_insertAfter_def)
    moreover have ne: "nn \<noteq> last as" using nn la(1) by auto
    have "next_f p = 0 \<longleftrightarrow> bs = []"
      using np linked_nonzero [OF L(5)] by (cases bs) auto
    moreover have "sdata ?ns as ys" "sdata ?ns bs zs"
      using sd nn p ne la(1) L(8) sdata_next [of "(nodes s)(nn \<mapsto> \<lparr>next_f = next_f p, data = d\<rparr>)" "last as" p nn] by auto
    moreover have "?ns nn = Some \<lparr>next_f = next_f p, data = d\<rparr>" using ne by simp
    ultimately have "sll_rep fa ff ?s l (as @ nn # bs) (ys @ d # zs)"
      using L False ins nn np r(2) by (auto simp: sll_rep_def last0_def sdata_append)
    with \<open>sll_insertAfter s l (last0 as) d = Some (True, ?s)\<close> la(1) p show ?thesis
      by (intro exI [of _ ?s]) auto
  qed
qed

lemma sll_removeNode_rep:
  assumes r: "sll_rep fa ff s l (as @ n # bs) (ys @ d # zs)" "length as = length ys" and f: "ff (alc s) n = Some h"
  shows "\<exists>s'. sll_removeNode s l n (last0 as) = Some s' \<and> alc s' = h \<and> dom (nodes s') = dom (nodes s) - {n} \<and>
    sll_rep fa ff s' l (as @ bs) (ys @ zs) \<and>
    (\<forall>c. c \<noteq> l \<longrightarrow> lists s' c = lists s c) \<and> (\<forall>p. p \<notin> insert n (set as) \<longrightarrow> nodes s' p = nodes s p)"
proof -
  from r(1) obtain L where L: "l \<noteq> 0" "lists s l = Some L" "falloc L = fa" "ffree L = ff"
    "linked (snx (nodes s)) (first L) (as @ n # bs)" "last_f L = last0 (as @ n # bs)" "length_f L = length (as @ n # bs)"
    "distinct (as @ n # bs)" "sdata (nodes s) (as @ n # bs) (ys @ d # zs)" by (rule sll_repE)
  have sd: "sdata (nodes s) as ys" "sdata (nodes s) bs zs" using L(9) r(2) by (auto simp: sdata_append)
  from linked_next [OF L(5)] obtain x where x: "nodes s n = Some x" "next_f x = hd0 bs" by (auto dest: snx_SomeE)
  have n0: "n \<noteq> 0" "0 \<notin> set bs" using linked_nonzero [OF L(5)] by auto
  have nb: "next_f x = 0 \<longleftrightarrow> bs = []" using x(2) n0(2) by (cases bs) auto
  note ul = linked_unlink [OF L(5,8)]
  have dn: "n \<notin> set as" "n \<notin> set bs" using L(8) by auto
  show ?thesis
  proof (cases "as = []")
    case True
    let ?s = "s\<lparr>nodes := (nodes s)(n := None), alc := h, lists := (lists s)(l \<mapsto>
        L\<lparr>first := next_f x, last_f := (if next_f x = 0 then 0 else last_f L), length_f := length_f L - 1\<rparr>)\<rparr>"
    have "sll_removeNode s l n (last0 as) = Some ?s" using L n0 x f True by (simp add: sll_removeNode_def)
    moreover have "sll_rep fa ff ?s l (as @ bs) (ys @ zs)"
      using L True ul sd r(2) nb x(2) dn by (auto simp: sll_rep_def last0_def)
    ultimately show ?thesis by (intro exI [of _ ?s]) auto
  next
    case False
    then have la: "last as \<in> set as" "last0 as = last as" by (simp_all add: last0_def)
    have "last as \<in> set (as @ n # bs)" using la(1) by simp
    from linked_dom [OF L(5) this] obtain p where p: "nodes s (last as) = Some p" by (auto dest: snx_SomeE)
    have l0: "last as \<noteq> 0" using linked_nonzero [OF L(5)] la(1) by (metis Un_iff set_append)
    have np: "next_f p = n"
    proof -
      have "linked (snx (nodes s)) (first L) (butlast as @ last as # n # bs)" using L(5) False
        by (metis append.assoc append_Cons append_Nil append_butlast_last_id)
      from linked_next [OF this] p show ?thesis by (simp add: snx_def)
    qed
    let ?ns = "((nodes s)(last as \<mapsto> p\<lparr>next_f := next_f x\<rparr>))(n := None)"
    let ?s = "s\<lparr>nodes := ?ns, alc := h, lists := (lists s)(l \<mapsto>
        L\<lparr>first := first L, last_f := (if next_f x = 0 then last as else last_f L), length_f := length_f L - 1\<rparr>)\<rparr>"
    have "sll_removeNode s l n (last0 as) = Some ?s"
      using L n0 x f la(2) l0 p np by (simp add: sll_removeNode_def)
    moreover have "sdata ?ns as ys" "sdata ?ns bs zs" using sd dn p by simp_all
    moreover have "linked (snx ?ns) (first L) (as @ bs)" using ul False x(2) dn by simp
    ultimately show ?thesis using L False r(2) nb dn la(1) p
      by (intro exI [of _ ?s]) (auto simp: sll_rep_def last0_def sdata_append)
  qed
qed

section \<open>Lists over an allocator\<close>

text \<open>\<open>l\<close> holds the pointers \<open>xs\<close> and all nodes are live blocks of the allocator.\<close>

definition sll_ok ::
  "('h \<Rightarrow> (addr \<rightharpoonup> nat) \<Rightarrow> bool) \<Rightarrow> ('h \<Rightarrow> nat \<Rightarrow> (addr \<times> 'h) option) \<Rightarrow> ('h \<Rightarrow> addr \<Rightarrow> 'h option) \<Rightarrow>
   'h sll \<Rightarrow> addr \<Rightarrow> (addr \<rightharpoonup> nat) \<Rightarrow> addr list \<Rightarrow> bool" where
  "sll_ok rep fa ff s l B xs \<longleftrightarrow> rep (alc s) B \<and> dom (nodes s) \<subseteq> dom B \<and> (\<exists>ps. sll_rep fa ff s l ps xs)"

lemma sll_rep_nodes: "sll_rep fa ff s l ps xs \<Longrightarrow> set ps \<subseteq> dom (nodes s)"
  by (auto elim!: sll_repE dest!: linked_dom snx_SomeE)

lemma sll_rep_alc [simp]: "sll_rep fa ff (s\<lparr>alc := h\<rparr>) l ps xs = sll_rep fa ff s l ps xs"
  by (simp add: sll_rep_def)

lemma nth_last_take: "0 < k \<Longrightarrow> k \<le> length ps \<Longrightarrow> ps ! (k - 1) = last0 (take k ps)"
  by (auto simp: last0_def last_conv_nth)

lemma restrict_insert [simp]: "(B(p := None)) |` (- A) = B |` (- insert p A)"
  by (auto simp: restrict_map_def)

context allocator
begin

lemma sll_insertAfter_ok:
  assumes "rep (alc s) B" "dom (nodes s) \<subseteq> dom B" "sll_rep alloc dealloc s l (as @ bs) (ys @ zs)" "length as = length ys"
  shows "\<exists>ok s'. sll_insertAfter s l (last0 as) d = Some (ok, s') \<and>
    (if ok then \<exists>n k. n \<notin> dom B \<and> 8 \<le> k \<and> sll_ok rep alloc dealloc s' l (B(n \<mapsto> k)) (ys @ d # zs)
     else sll_ok rep alloc dealloc s' l B (ys @ zs))"
proof -
  from alloc_law [OF assms(1), of 8] obtain n h where a: "alloc (alc s) 8 = Some (n, h)"
    "if n = 0 then rep h B else n \<notin> dom B \<and> (\<exists>k \<ge> 8. rep h (B(n \<mapsto> k)))" by auto
  show ?thesis
  proof (cases "n = 0")
    case True
    from assms(3) obtain L where "l \<noteq> 0" "lists s l = Some L" "falloc L = alloc" by (auto elim: sll_repE)
    with a True assms(2,3) show ?thesis by (auto simp: sll_insertAfter_def sll_ok_def)
  next
    case False
    with a(2) obtain k where k: "n \<notin> dom B" "8 \<le> k" "rep h (B(n \<mapsto> k))" by auto
    have "n \<notin> dom (nodes s)" using k(1) assms(2) by blast
    from sll_insertAfter_rep [OF assms(3,4) a(1) False this, of d] obtain s' where
      s': "sll_insertAfter s l (last0 as) d = Some (True, s')" "alc s' = h" "dom (nodes s') = insert n (dom (nodes s))"
      "sll_rep alloc dealloc s' l (as @ n # bs) (ys @ d # zs)" by blast
    have "sll_ok rep alloc dealloc s' l (B(n \<mapsto> k)) (ys @ d # zs)"
      using s'(2-4) k(3) assms(2) by (auto simp: sll_ok_def)
    with s'(1) k show ?thesis by (intro exI [of _ True] exI [of _ s']) auto
  qed
qed

lemma sll_insert_ok:
  assumes "sll_ok rep alloc dealloc s l B xs"
  shows "\<exists>ok s'. sll_insert s l d k = Some (ok, s') \<and>
    (if ok then \<exists>n j. n \<notin> dom B \<and> 8 \<le> j \<and> sll_ok rep alloc dealloc s' l (B(n \<mapsto> j)) (take k xs @ d # drop k xs)
     else sll_ok rep alloc dealloc s' l B xs)"
proof -
  from assms obtain ps where r: "rep (alc s) B" "dom (nodes s) \<subseteq> dom B" "sll_rep alloc dealloc s l ps xs"
    by (auto simp: sll_ok_def)
  from r(3) obtain L where L: "l \<noteq> 0" "lists s l = Some L" "linked (snx (nodes s)) (first L) ps"
    "last_f L = last0 ps" "length_f L = length ps" "sdata (nodes s) ps xs" by (rule sll_repE)
  have len: "length ps = length xs" by (rule sdata_length [OF L(6)])
  have "sll_insert s l d k = sll_insertAfter s l (last0 (take k ps)) d"
    using L insert_walk_linked [OF L(3), of 0 k] by (auto simp: sll_insert_def last0_def)
  with sll_insertAfter_ok [OF r(1,2), of l "take k ps" "drop k ps" "take k xs" "drop k xs" d] r(3) len
  show ?thesis by (simp only: append_take_drop_id length_take)
qed

lemma sll_removeNode_ok:
  assumes "rep (alc s) B" "dom (nodes s) \<subseteq> dom B" "sll_rep alloc dealloc s l (as @ n # bs) (ys @ d # zs)" "length as = length ys"
  shows "\<exists>s'. sll_removeNode s l n (last0 as) = Some s' \<and> n \<in> dom B \<and> sll_ok rep alloc dealloc s' l (B(n := None)) (ys @ zs)"
proof -
  have n: "n \<in> dom B" using sll_rep_nodes [OF assms(3)] assms(2) by auto
  from dealloc_law [OF assms(1) n] obtain h where h: "dealloc (alc s) n = Some h" "rep h (B(n := None))" by blast
  from sll_removeNode_rep [OF assms(3,4) h(1)] obtain s' where s': "sll_removeNode s l n (last0 as) = Some s'" "alc s' = h"
    "dom (nodes s') = dom (nodes s) - {n}" "sll_rep alloc dealloc s' l (as @ bs) (ys @ zs)" by blast
  then have "sll_ok rep alloc dealloc s' l (B(n := None)) (ys @ zs)" using h(2) assms(2) by (auto simp: sll_ok_def)
  with s'(1) n show ?thesis by blast
qed

text \<open>The node at position \<open>k\<close> goes.\<close>

lemma sll_remove_nth_ok:
  assumes "rep (alc s) B" "dom (nodes s) \<subseteq> dom B" "sll_rep alloc dealloc s l ps xs" "k < length xs"
  shows "\<exists>s' n. sll_removeNode s l (ps ! k) (if k = 0 then 0 else ps ! (k - 1)) = Some s' \<and> n \<in> dom B \<and>
    sll_ok rep alloc dealloc s' l (B(n := None)) (take k xs @ drop (Suc k) xs)"
proof -
  have len: "length ps = length xs" using assms(3) by (blast elim: sll_repE dest: sdata_length)
  have "ps = take k ps @ ps ! k # drop (Suc k) ps" "xs = take k xs @ xs ! k # drop (Suc k) xs"
    using assms(4) len by (simp_all add: id_take_nth_drop)
  with assms(3) have "sll_rep alloc dealloc s l (take k ps @ ps ! k # drop (Suc k) ps) (take k xs @ xs ! k # drop (Suc k) xs)"
    by simp
  from sll_removeNode_ok [OF assms(1,2) this] len obtain s' where "sll_removeNode s l (ps ! k) (last0 (take k ps)) = Some s'"
    "ps ! k \<in> dom B" "sll_ok rep alloc dealloc s' l (B(ps ! k := None)) (take k xs @ drop (Suc k) xs)" by auto
  moreover have "(if k = 0 then 0 else ps ! (k - 1)) = last0 (take k ps)" using nth_last_take [of k ps] assms(4) len by simp
  ultimately show ?thesis by auto
qed

lemma sll_removeIndex_ok:
  assumes "sll_ok rep alloc dealloc s l B xs" "k < length xs"
  shows "\<exists>s' n. sll_removeIndex s l k = Some (xs ! k, s') \<and> n \<in> dom B \<and>
    sll_ok rep alloc dealloc s' l (B(n := None)) (take k xs @ drop (Suc k) xs)"
proof -
  from assms(1) obtain ps where r: "rep (alc s) B" "dom (nodes s) \<subseteq> dom B" "sll_rep alloc dealloc s l ps xs"
    by (auto simp: sll_ok_def)
  from r(3) obtain L where L: "l \<noteq> 0" "lists s l = Some L" "linked (snx (nodes s)) (first L) ps"
    "sdata (nodes s) ps xs" by (rule sll_repE)
  have k: "k < length ps" using sdata_length [OF L(4)] assms(2) by simp
  then have "ps ! k \<noteq> 0" using linked_nonzero [OF L(3)] nth_mem by metis
  moreover from sll_remove_nth_ok [OF r assms(2)] obtain s' n where
    "sll_removeNode s l (ps ! k) (if k = 0 then 0 else ps ! (k - 1)) = Some s'" and n: "n \<in> dom B"
    "sll_ok rep alloc dealloc s' l (B(n := None)) (take k xs @ drop (Suc k) xs)" by blast
  ultimately have "sll_removeIndex s l k = Some (xs ! k, s')"
    using L k remove_walk_linked [OF L(3), of k 0] sdata_nth [OF L(4) k] by (auto simp: sll_removeIndex_def)
  with n show ?thesis by blast
qed

lemma sll_removeFirst_ok:
  assumes "sll_ok rep alloc dealloc s l B (x # xs)"
  shows "\<exists>s' n. sll_removeFirst s l = Some (x, s') \<and> n \<in> dom B \<and> sll_ok rep alloc dealloc s' l (B(n := None)) xs"
proof -
  from assms obtain ps where r: "rep (alc s) B" "dom (nodes s) \<subseteq> dom B" "sll_rep alloc dealloc s l ps (x # xs)"
    by (auto simp: sll_ok_def)
  then obtain n ps' where ps: "ps = n # ps'" by (cases ps) (auto elim!: sll_repE)
  from r(3) ps obtain L y where L: "l \<noteq> 0" "lists s l = Some L" "falloc L = alloc" "ffree L = dealloc" "first L = n" "n \<noteq> 0"
    "last_f L = last0 ps" "length_f L = length ps" "nodes s n = Some y" "data y = x" by (auto elim!: sll_repE)
  from sll_removeNode_ok [OF r(1,2), of l "[]" n ps' "[]" x xs] r(3) ps obtain s' where
    s': "sll_removeNode s l n 0 = Some s'" "n \<in> dom B" "sll_ok rep alloc dealloc s' l (B(n := None)) xs" by auto
  have "sll_removeFirst s l = Some (x, s')"
    using s'(1) L ps by (auto simp: sll_removeFirst_def sll_removeNode_def split: Option.bind_splits)
  with s' show ?thesis by blast
qed

lemma sll_removeFirstWith_ok:
  assumes "sll_ok rep alloc dealloc s l B xs" "d \<in> set xs" "d \<noteq> 0"
  shows "\<exists>s' n. sll_removeFirstWith s l d = Some (int (length (takeWhile (\<lambda>x. x \<noteq> d) xs)), s') \<and> n \<in> dom B \<and>
    sll_ok rep alloc dealloc s' l (B(n := None)) (remove1 d xs)"
proof -
  let ?k = "length (takeWhile (\<lambda>x. x \<noteq> d) xs)"
  from assms(1) obtain ps where r: "rep (alc s) B" "dom (nodes s) \<subseteq> dom B" "sll_rep alloc dealloc s l ps xs"
    by (auto simp: sll_ok_def)
  from r(3) obtain L where L: "l \<noteq> 0" "lists s l = Some L" "linked (snx (nodes s)) (first L) ps"
    "sdata (nodes s) ps xs" by (rule sll_repE)
  from split_list_first [OF assms(2)] obtain as bs where xs: "xs = as @ d # bs" "d \<notin> set as" by blast
  have "takeWhile (\<lambda>x. x \<noteq> d) as = as" using xs(2) by (auto simp: takeWhile_eq_all_conv)
  then have tw: "?k = length as" using xs by (simp add: takeWhile_append)
  have k: "?k < length ps" "?k < length xs" using sdata_length [OF L(4)] xs tw by auto
  then have n0: "ps ! ?k \<noteq> 0" using linked_nonzero [OF L(3)] nth_mem by metis
  have rm: "take ?k xs @ drop (Suc ?k) xs = remove1 d xs" using xs tw by (simp add: remove1_append)
  from find_loop_linked [OF L(3,4) refl, of 0 d 0] k(1) have
    "sll_find_loop s 0 (first L) d 0 = Some (if ?k = 0 then 0 else ps ! (?k - 1), ps ! ?k, int ?k)" by auto
  moreover from sll_remove_nth_ok [OF r k(2)] obtain s' n where
    "sll_removeNode s l (ps ! ?k) (if ?k = 0 then 0 else ps ! (?k - 1)) = Some s'" and n: "n \<in> dom B"
    "sll_ok rep alloc dealloc s' l (B(n := None)) (take ?k xs @ drop (Suc ?k) xs)" by blast
  ultimately have "sll_removeFirstWith s l d = Some (int ?k, s')"
    using L n0 assms(3) by (simp add: sll_removeFirstWith_def)
  with n rm show ?thesis by auto
qed

lemma sll_clear_loop_ok:
  assumes "rep (alc s) B" "set ps \<subseteq> dom B" "linked (snx (nodes s)) n ps" "sdata (nodes s) ps xs" "distinct ps"
    "freeData \<Longrightarrow> distinct (ps @ xs) \<and> set xs \<subseteq> dom B"
  shows "\<exists>h. sll_clear_loop dealloc dealloc s n freeData = Some (s\<lparr>nodes := nodes s |` (- set ps), alc := h\<rparr>) \<and>
    rep h (B |` (- (set ps \<union> (if freeData then set xs else {}))))"
  using assms
proof (induction ps arbitrary: s B n xs)
  case Nil
  have "s\<lparr>nodes := nodes s |` (- set []), alc := alc s\<rparr> = s" by (simp add: restrict_map_def)
  moreover have "B |` (- (set [] \<union> (if freeData then set xs else {}))) = B" using Nil.prems by (simp add: restrict_map_def)
  ultimately show ?case using Nil.prems by (intro exI [of _ "alc s"]) (subst sll_clear_loop.simps, simp)
next
  case (Cons p ps)
  then obtain x ys where x: "n = p" "n \<noteq> 0" "nodes s n = Some x" "linked (snx (nodes s)) (next_f x) ps"
    "xs = data x # ys" "sdata (nodes s) ps ys" "n \<notin> set ps" by (auto dest: snx_SomeE)
  let ?B = "if freeData then B(data x := None) else B"
  have "\<exists>h1. (if freeData then dealloc (alc s) (data x) else Some (alc s)) = Some h1 \<and> rep h1 ?B"
    using dealloc_law [OF Cons.prems(1), of "data x"] Cons.prems(1,6) x(5) by auto
  then obtain h1 where h1: "(if freeData then dealloc (alc s) (data x) else Some (alc s)) = Some h1" "rep h1 ?B" by blast
  have "n \<in> dom ?B" using Cons.prems(2,6) x(1,3,5) by auto
  from dealloc_law [OF h1(2) this] obtain h2 where h2: "dealloc h1 n = Some h2" "rep h2 (?B(n := None))" by blast
  let ?s = "s\<lparr>nodes := (nodes s)(n := None), alc := h2\<rparr>"
  let ?B' = "?B(n := None)"
  have "\<exists>h. sll_clear_loop dealloc dealloc ?s (next_f x) freeData = Some (?s\<lparr>nodes := nodes ?s |` (- set ps), alc := h\<rparr>) \<and>
    rep h (?B' |` (- (set ps \<union> (if freeData then set ys else {}))))"
  proof (rule Cons.IH)
    show "set ps \<subseteq> dom ?B'" using Cons.prems(2,6) x(1,5,7) by auto
    show "freeData \<Longrightarrow> distinct (ps @ ys) \<and> set ys \<subseteq> dom ?B'" using Cons.prems(6) x(1,5,7) by auto
    show "rep (alc ?s) ?B'" using h2(2) by simp
    show "linked (snx (nodes ?s)) (next_f x) ps" "sdata (nodes ?s) ps ys" using x(4,6,7) by simp_all
    show "distinct ps" using Cons.prems(5) by simp
  qed
  moreover have "?B' |` (- (set ps \<union> (if freeData then set ys else {}))) = B |` (- (set (p # ps) \<union> (if freeData then set xs else {})))"
    using x(1,5) by (auto simp: restrict_map_def)
  moreover have "nodes ?s |` (- set ps) = nodes s |` (- set (p # ps))" using x(1) by (auto simp: restrict_map_def)
  moreover have "sll_clear_loop dealloc dealloc s n freeData = sll_clear_loop dealloc dealloc ?s (next_f x) freeData"
    using x(2,3) h1(1) h2(1) by (subst sll_clear_loop.simps) simp
  ultimately show ?case by simp
qed

lemma sll_clear_ok:
  assumes "sll_ok rep alloc dealloc s l B xs" "freeData \<Longrightarrow> distinct xs \<and> set xs \<subseteq> dom B - dom (nodes s)"
  shows "\<exists>s' N. sll_clear dealloc s l freeData = Some s' \<and> N \<subseteq> dom B \<and> card N = length xs \<and>
    sll_ok rep alloc dealloc s' l (B |` (- (N \<union> (if freeData then set xs else {})))) []"
proof -
  from assms(1) obtain ps where r: "rep (alc s) B" "dom (nodes s) \<subseteq> dom B" "sll_rep alloc dealloc s l ps xs"
    by (auto simp: sll_ok_def)
  from r(3) obtain L where L: "l \<noteq> 0" "lists s l = Some L" "falloc L = alloc" "ffree L = dealloc"
    "linked (snx (nodes s)) (first L) ps" "distinct ps" "sdata (nodes s) ps xs" by (rule sll_repE)
  note sub = sll_rep_nodes [OF r(3)]
  have fd: "freeData \<Longrightarrow> distinct (ps @ xs) \<and> set xs \<subseteq> dom B" using assms(2) sub L(6) by auto
  have "set ps \<subseteq> dom B" using sub r(2) by blast
  from sll_clear_loop_ok [OF r(1) this L(5,7,6), of freeData] fd obtain h where
    h: "sll_clear_loop dealloc dealloc s (first L) freeData = Some (s\<lparr>nodes := nodes s |` (- set ps), alc := h\<rparr>)"
       "rep h (B |` (- (set ps \<union> (if freeData then set xs else {}))))" by blast
  have "card (set ps) = length xs" using distinct_card [OF L(6)] sdata_length [OF L(7)] by simp
  moreover have "dom (nodes s |` (- set ps)) \<subseteq> dom (B |` (- (set ps \<union> (if freeData then set xs else {}))))"
    using r(2) assms(2) by (cases freeData) (auto simp: subset_iff domIff restrict_map_def)
  ultimately show ?thesis using h L(1-4) sub r(2)
    by (intro exI [of _ "s\<lparr>nodes := nodes s |` (- set ps), alc := h, lists := (lists s)(l \<mapsto> L\<lparr>length_f := 0, first := 0, last_f := 0\<rparr>)\<rparr>"]
      exI [of _ "set ps"]) (auto simp: sll_clear_def sll_ok_def sll_rep_def)
qed

lemma sll_create_ok:
  assumes "rep (alc s) B" "dom (nodes s) \<subseteq> dom B"
  shows "\<exists>l s'. sll_create alloc dealloc s = Some (l, s') \<and>
    (if l = 0 then rep (alc s') B else l \<notin> dom B \<and> (\<exists>k \<ge> 20. sll_ok rep alloc dealloc s' l (B(l \<mapsto> k)) []))"
proof -
  from alloc_law [OF assms(1), of 20] obtain p h where a: "alloc (alc s) 20 = Some (p, h)"
    "if p = 0 then rep h B else p \<notin> dom B \<and> (\<exists>k \<ge> 20. rep h (B(p \<mapsto> k)))" by auto
  moreover have "dom (nodes s) \<subseteq> insert p (dom B)" using assms(2) by blast
  ultimately show ?thesis by (auto simp: sll_create_def sll_init_def sll_ok_def sll_rep_def Let_def last0_def)
qed

end

text \<open>The heap is an allocator; a list header outside of it, empty and with one node.\<close>

abbreviation heap_sll_ok :: "addr heap sll \<Rightarrow> addr \<Rightarrow> (addr \<rightharpoonup> nat) \<Rightarrow> addr list \<Rightarrow> bool" where
  "heap_sll_ok \<equiv> sll_ok (heap_rep (\<lambda>k. k)) (malloc segment_grow) free"

definition sll0 :: "addr heap sll" where
  "sll0 = sll_init \<lparr>lists = Map.empty, nodes = Map.empty, alc = heap0\<rparr> 0x1000 (malloc segment_grow) free"

lemma sll0_ok: "heap_sll_ok sll0 0x1000 Map.empty []"
  using heap0_rep by (simp add: sll0_def sll_init_def sll_ok_def sll_rep_def)

lemma sll1_ok: "\<exists>s B. heap_sll_ok s 0x1000 B [7]"
proof -
  from malloc_heap0 obtain p h k where m: "p \<noteq> 0" "heap_rep (\<lambda>k. k) h [p \<mapsto> k]" by blast
  let ?s = "\<lparr>lists = [0x1000 \<mapsto> \<lparr>falloc = malloc segment_grow, ffree = free, first = p, last_f = p, length_f = 1\<rparr>],
    nodes = [p \<mapsto> \<lparr>next_f = 0, data = 7\<rparr>], alc = h\<rparr>"
  have "sll_rep (malloc segment_grow) free ?s 0x1000 [p] [7]" using m(1) by (simp add: sll_rep_def snx_def last0_def)
  with m(2) show ?thesis by (intro exI [of _ ?s] exI [of _ "[p \<mapsto> k]"]) (auto simp: sll_ok_def)
qed

section \<open>Properties\<close>

text \<open>\<open>sll_insert\<close> always returns: false with the list as it was when no node can be allocated, or true
  with the pointer at position \<open>index\<close>, or at the end when the list is shorter. It holds for every
  allocator that keeps the contract of \<open>malloc\<close> and \<open>free\<close>.\<close>

theorem sll_insert_contract:
  assumes "allocator alloc dealloc rep get put" "sll_ok rep alloc dealloc s l B xs"
  shows "\<exists>ok s'. sll_insert s l d k = Some (ok, s') \<and>
    (if ok then \<exists>n j. n \<notin> dom B \<and> sll_ok rep alloc dealloc s' l (B(n \<mapsto> j)) (take k xs @ d # drop k xs)
     else sll_ok rep alloc dealloc s' l B xs)"
  using allocator.sll_insert_ok [OF assms, of d k] by (metis (no_types, lifting))

theorem sll_insert_contract_witness: "\<exists>ok s'. sll_insert sll0 0x1000 7 3 = Some (ok, s')"
  using sll_insert_contract [OF segment.heap.allocator_axioms sll0_ok, of 7 3] by blast

text \<open>\<open>sll_removeIndex\<close> returns the pointer at a valid index, takes exactly it out of the list and frees
  its node.\<close>

theorem sll_removeIndex_contract:
  assumes "allocator alloc dealloc rep get put" "sll_ok rep alloc dealloc s l B xs" "k < length xs"
  shows "\<exists>s' n. sll_removeIndex s l k = Some (xs ! k, s') \<and> n \<in> dom B \<and>
    sll_ok rep alloc dealloc s' l (B(n := None)) (take k xs @ drop (Suc k) xs)"
  by (rule allocator.sll_removeIndex_ok [OF assms])

theorem sll_removeIndex_contract_witness: "\<exists>s B s'. heap_sll_ok s 0x1000 B [7] \<and> sll_removeIndex s 0x1000 0 = Some (7, s')"
proof -
  from sll1_ok obtain s B where s: "heap_sll_ok s 0x1000 B [7]" by blast
  from sll_removeIndex_contract [OF segment.heap.allocator_axioms s, of 0] s show ?thesis by auto
qed

text \<open>\<open>sll_removeFirstWith\<close> with a pointer of the list removes its first occurrence and returns its index.\<close>

theorem sll_removeFirstWith_contract:
  assumes "allocator alloc dealloc rep get put" "sll_ok rep alloc dealloc s l B xs" "d \<in> set xs" "d \<noteq> 0"
  shows "\<exists>s' n. sll_removeFirstWith s l d = Some (int (length (takeWhile (\<lambda>x. x \<noteq> d) xs)), s') \<and> n \<in> dom B \<and>
    sll_ok rep alloc dealloc s' l (B(n := None)) (remove1 d xs)"
  by (rule allocator.sll_removeFirstWith_ok [OF assms])

theorem sll_removeFirstWith_contract_witness:
  "\<exists>s B s'. heap_sll_ok s 0x1000 B [7] \<and> sll_removeFirstWith s 0x1000 7 = Some (0, s')"
proof -
  from sll1_ok obtain s B where s: "heap_sll_ok s 0x1000 B [7]" by blast
  from sll_removeFirstWith_contract [OF segment.heap.allocator_axioms s, of 7] s show ?thesis by auto
qed

text \<open>\<open>sll_clear\<close> leaves an empty list and gives back every node, and every pointer too when it is asked to
  and they are different live blocks.\<close>

theorem sll_clear_contract:
  assumes "allocator alloc dealloc rep get put" "sll_ok rep alloc dealloc s l B xs"
    "freeData \<Longrightarrow> distinct xs \<and> set xs \<subseteq> dom B - dom (nodes s)"
  shows "\<exists>s' N. sll_clear dealloc s l freeData = Some s' \<and> N \<subseteq> dom B \<and> card N = length xs \<and>
    sll_ok rep alloc dealloc s' l (B |` (- (N \<union> (if freeData then set xs else {})))) []"
  using allocator.sll_clear_ok [OF assms(1,2), of freeData] assms(3) by blast

theorem sll_clear_contract_witness:
  "\<exists>s B s'. heap_sll_ok s 0x1000 B [7] \<and> sll_clear free s 0x1000 False = Some s'"
proof -
  from sll1_ok obtain s B where s: "heap_sll_ok s 0x1000 B [7]" by blast
  from sll_clear_contract [OF segment.heap.allocator_axioms s, of False] s show ?thesis by auto
qed

end
