(* ===== verification/SortSearch.thy ===== *)
theory SortSearch
  imports StrWrite "HOL-Library.Multiset"
begin

text \<open>
  \<open>qsort\<close> and \<open>bsearch\<close> of \<open>lib/c/stdlib\<close> on arrays in byte memory. The comparison function is a
  parameter that may read memory; what the code relies on is the locale \<open>comparator\<close>.
\<close>

section \<open>Definitions\<close>

type_synonym fCompare = "mem \<Rightarrow> addr \<Rightarrow> addr \<Rightarrow> int option"

text \<open>The two inner loops of \<open>divide\<close>, and its outer loop; the results are \<open>i\<close>, \<open>j\<close>, and memory with \<open>i\<close>.\<close>

partial_function (option) div_right :: "fCompare \<Rightarrow> mem \<Rightarrow> nat \<Rightarrow> addr \<Rightarrow> addr \<Rightarrow> addr option" where
  "div_right cmp m sz i piv = do {
     c \<leftarrow> cmp m i piv;
     if c \<le> 0 \<and> i < piv then div_right cmp m sz (i + sz) piv else Some i }"

partial_function (option) div_left :: "fCompare \<Rightarrow> mem \<Rightarrow> nat \<Rightarrow> addr \<Rightarrow> addr \<Rightarrow> addr \<Rightarrow> addr option" where
  "div_left cmp m sz j pleft piv = do {
     c \<leftarrow> cmp m j piv;
     if c \<ge> 0 \<and> j > pleft then div_left cmp m sz (j - sz) pleft piv else Some j }"

partial_function (option) divide_loop ::
  "fCompare \<Rightarrow> mem \<Rightarrow> nat \<Rightarrow> addr \<Rightarrow> addr \<Rightarrow> addr \<Rightarrow> addr \<Rightarrow> (mem \<times> addr) option" where
  "divide_loop cmp m sz i0 j0 pleft piv = do {
     i \<leftarrow> div_right cmp m sz i0 piv;
     j \<leftarrow> div_left cmp m sz j0 pleft piv;
     if i < j then do {
       m' \<leftarrow> memswp m i j sz;
       if i + sz < j - sz then divide_loop cmp m' sz (i + sz) (j - sz) pleft piv
       else Some (m', i + sz) }
     else Some (m, i) }"

definition divide_c :: "fCompare \<Rightarrow> mem \<Rightarrow> addr \<Rightarrow> nat \<Rightarrow> int \<Rightarrow> int \<Rightarrow> (int \<times> mem) option" where
  "divide_c cmp m base sz left right = do {
     let pleft = base + nat left * sz;
     let piv = base + nat right * sz;
     (m1, i) \<leftarrow> divide_loop cmp m sz pleft (piv - sz) pleft piv;
     c \<leftarrow> cmp m1 i piv;
     m2 \<leftarrow> (if c > 0 then memswp m1 i piv sz else Some m1);
     Some (int ((i - base) div sz), m2) }"

partial_function (option) qsort_rec :: "fCompare \<Rightarrow> mem \<Rightarrow> addr \<Rightarrow> nat \<Rightarrow> int \<Rightarrow> int \<Rightarrow> mem option" where
  "qsort_rec cmp m base sz left right =
     (if left < right then do {
        (i, m1) \<leftarrow> divide_c cmp m base sz left right;
        m2 \<leftarrow> qsort_rec cmp m1 base sz left (i - 1);
        qsort_rec cmp m2 base sz (i + 1) right }
      else Some m)"

definition qsort :: "fCompare \<Rightarrow> mem \<Rightarrow> addr \<Rightarrow> nat \<Rightarrow> nat \<Rightarrow> mem option" where
  "qsort cmp m base nmemb sz = qsort_rec cmp m base sz 0 (int32 (int nmemb - 1))"

text \<open>\<open>from\<close>, \<open>to\<close> and \<open>m\<close> of \<open>bsearch\<close> are unsigned.\<close>

partial_function (option) bsearch_loop ::
  "fCompare \<Rightarrow> mem \<Rightarrow> addr \<Rightarrow> addr \<Rightarrow> nat \<Rightarrow> int \<Rightarrow> int \<Rightarrow> addr option" where
  "bsearch_loop cmp m key base sz from to =
     (if from \<le> to then do {
        let k = uint32 (from + to) div 2;
        let val = base + nat k * sz;
        res \<leftarrow> cmp m val key;
        if res = 0 then Some val
        else if res > 0 then bsearch_loop cmp m key base sz from (uint32 (k - 1))
        else bsearch_loop cmp m key base sz (uint32 (k + 1)) to }
      else Some 0)"

definition bsearch :: "fCompare \<Rightarrow> mem \<Rightarrow> addr \<Rightarrow> addr \<Rightarrow> nat \<Rightarrow> nat \<Rightarrow> addr option" where
  "bsearch cmp m key base num sz = bsearch_loop cmp m key base sz 0 (uint32 (int num - 1))"

section \<open>Arrays\<close>

text \<open>The elements \<open>xs\<close> of \<open>sz\<close> bytes each lie at \<open>base\<close>.\<close>

definition arr :: "mem \<Rightarrow> addr \<Rightarrow> nat \<Rightarrow> byte list list \<Rightarrow> bool" where
  "arr m base sz xs \<longleftrightarrow> (\<forall>k < length xs. length (xs ! k) = sz \<and> bytes_at m (base + k * sz) (xs ! k))"

definition same_outside :: "mem \<Rightarrow> mem \<Rightarrow> addr \<Rightarrow> nat \<Rightarrow> bool" where
  "same_outside m m' base n \<longleftrightarrow> (\<forall>c. c < base \<or> base + n \<le> c \<longrightarrow> m' c = m c)"

lemma same_outside_refl [simp]: "same_outside m m base n"
  by (simp add: same_outside_def)

lemma same_outside_trans: "same_outside m m1 base n \<Longrightarrow> same_outside m1 m2 base n \<Longrightarrow> same_outside m m2 base n"
  by (simp add: same_outside_def)

lemma arrD: "arr m base sz xs \<Longrightarrow> k < length xs \<Longrightarrow> length (xs ! k) = sz \<and> bytes_at m (base + k * sz) (xs ! k)"
  by (simp add: arr_def)

lemma elem_apart:
  assumes "i < (k :: nat)" shows "base + i * sz + sz \<le> base + k * sz"
proof -
  have "Suc i * sz \<le> k * sz" using assms by (intro mult_le_mono1) simp
  then show ?thesis by simp
qed

lemma elem_less: "0 < sz \<Longrightarrow> base + i * sz < base + k * sz \<longleftrightarrow> i < (k :: nat)"
  by simp

lemma arr_update:
  assumes "arr m base sz xs" "length x = sz" "i < length xs"
  shows "arr (upd m (base + i * sz) x) base sz (xs[i := x])"
  unfolding arr_def
proof (intro allI impI)
  fix k assume k: "k < length (xs[i := x])"
  consider "k = i" | "k < i" | "i < k" by linarith
  then show "length (xs[i := x] ! k) = sz \<and> bytes_at (upd m (base + i * sz) x) (base + k * sz) (xs[i := x] ! k)"
  proof cases
    case 1
    with assms show ?thesis by simp
  next
    case 2
    with arrD [OF assms(1), of k] k elem_apart [OF 2, of base sz] show ?thesis
      by (simp add: bytes_at_upd_other)
  next
    case 3
    with arrD [OF assms(1), of k] k elem_apart [OF 3, of base sz] assms(2) show ?thesis
      by (simp add: bytes_at_upd_other)
  qed
qed

lemma memswp_arr:
  assumes "arr m base sz xs" "i < length xs" "j < length xs"
  shows "\<exists>m'. memswp m (base + i * sz) (base + j * sz) sz = Some m' \<and> arr m' base sz (xs[i := xs ! j, j := xs ! i]) \<and>
    same_outside m m' base (length xs * sz)"
proof (cases "i = j")
  case True
  have "memswp m (base + i * sz) (base + j * sz) sz = Some m"
    using arrD [OF assms(1,2)] True by (auto simp: memswp_def memcmp_bytes_at [of _ _ "xs ! j" _ "xs ! j"] ucmp_zero)
  with True assms(1) show ?thesis by simp
next
  case False
  let ?m = "upd (upd m (base + i * sz) (xs ! j)) (base + j * sz) (xs ! i)"
  note I = arrD [OF assms(1,2)] and J = arrD [OF assms(1,3)]
  have ap: "base + i * sz + sz \<le> base + j * sz \<or> base + j * sz + sz \<le> base + i * sz"
    using False elem_apart by (meson linorder_neqE_nat)
  have "memswp m (base + i * sz) (base + j * sz) sz = Some ?m" using I J ap by (intro memswp_bytes) auto
  moreover have "arr ?m base sz (xs[i := xs ! j, j := xs ! i])" using I J assms by (intro arr_update) simp_all
  moreover have "same_outside m ?m base (length xs * sz)"
    using elem_apart [OF assms(2), of base sz] elem_apart [OF assms(3), of base sz] I J
    by (auto simp: same_outside_def upd_apply)
  ultimately show ?thesis by blast
qed

text \<open>The elements are in the order in which the search expects them, seen from the key.\<close>

definition sorted_for :: "(byte list \<Rightarrow> byte list \<Rightarrow> int) \<Rightarrow> byte list list \<Rightarrow> byte list \<Rightarrow> bool" where
  "sorted_for ord xs key \<longleftrightarrow> (\<forall>i k. i \<le> k \<and> k < length xs \<longrightarrow>
     (ord (xs ! i) key > 0 \<longrightarrow> ord (xs ! k) key > 0) \<and> (ord (xs ! k) key < 0 \<longrightarrow> ord (xs ! i) key < 0))"

section \<open>Sorting permutes\<close>

text \<open>What the code relies on: comparing two elements returns, and the result depends on their bytes only.\<close>

locale comparator =
  fixes cmp :: fCompare and ord :: "byte list \<Rightarrow> byte list \<Rightarrow> int" and sz :: nat
  assumes cmp_law: "length x = sz \<Longrightarrow> length y = sz \<Longrightarrow> bytes_at m a x \<Longrightarrow> bytes_at m b y \<Longrightarrow> cmp m a b = Some (ord x y)"
    and sz_pos: "0 < sz"
begin

lemma cmp_arr: "arr m base sz xs \<Longrightarrow> i < length xs \<Longrightarrow> j < length xs \<Longrightarrow> cmp m (base + i * sz) (base + j * sz) = Some (ord (xs ! i) (xs ! j))"
  by (auto dest: arrD intro!: cmp_law)

lemma div_right_arr:
  assumes "arr m base sz xs" "r < length xs" "i \<le> r"
  shows "\<exists>i'. div_right cmp m sz (base + i * sz) (base + r * sz) = Some (base + i' * sz) \<and> i \<le> i' \<and> i' \<le> r"
  using assms(3)
proof (induction "r - i" arbitrary: i)
  case 0
  then show ?case using cmp_arr [OF assms(1), of i r] assms(2) by (subst div_right.simps) (auto intro!: exI [of _ i])
next
  case (Suc d)
  then have "i < r" by simp
  show ?case
  proof (cases "ord (xs ! i) (xs ! r) \<le> 0")
    case True
    have e: "base + i * sz + sz = base + Suc i * sz" by simp
    have "d = r - Suc i" "Suc i \<le> r" using Suc.hyps(2) \<open>i < r\<close> by linarith+
    from Suc.hyps(1) [OF this] obtain i' where
      "div_right cmp m sz (base + Suc i * sz) (base + r * sz) = Some (base + i' * sz)" "Suc i \<le> i'" "i' \<le> r"
      by blast
    with True \<open>i < r\<close> cmp_arr [OF assms(1), of i r] assms(2) sz_pos show ?thesis
      by (intro exI [of _ i']) (subst div_right.simps, simp add: e del: mult_Suc)
  next
    case False
    with \<open>i < r\<close> cmp_arr [OF assms(1), of i r] assms(2) show ?thesis
      by (intro exI [of _ i]) (subst div_right.simps, simp)
  qed
qed

lemma div_left_arr:
  assumes "arr m base sz xs" "r < length xs" "j < length xs" "l \<le> j"
  shows "\<exists>j'. div_left cmp m sz (base + j * sz) (base + l * sz) (base + r * sz) = Some (base + j' * sz) \<and> l \<le> j' \<and> j' \<le> j"
  using assms(3,4)
proof (induction j)
  case 0
  then show ?case using cmp_arr [OF assms(1), of 0 r] assms(2) by (subst div_left.simps) (auto intro!: exI [of _ 0])
next
  case (Suc j)
  show ?case
  proof (cases "ord (xs ! Suc j) (xs ! r) \<ge> 0 \<and> l < Suc j")
    case True
    have e: "base + Suc j * sz - sz = base + j * sz" by simp
    from Suc.IH Suc.prems True obtain j' where
      "div_left cmp m sz (base + j * sz) (base + l * sz) (base + r * sz) = Some (base + j' * sz)" "l \<le> j'" "j' \<le> j" by auto
    with True cmp_arr [OF assms(1), of "Suc j" r] assms(2) Suc.prems(1) elem_less [OF sz_pos, of base l "Suc j"] show ?thesis
      by (intro exI [of _ j']) (subst div_left.simps, simp add: e del: mult_Suc)
  next
    case False
    then have "\<not> (ord (xs ! Suc j) (xs ! r) \<ge> 0 \<and> base + l * sz < base + Suc j * sz)" using elem_less [OF sz_pos] by blast
    with Suc.prems cmp_arr [OF assms(1), of "Suc j" r] assms(2) show ?thesis
      by (intro exI [of _ "Suc j"]) (subst div_left.simps, auto simp del: mult_Suc)
  qed
qed

lemma divide_loop_arr:
  assumes "arr m base sz xs" "r < length xs" "l \<le> i" "i \<le> r" "l \<le> j" "j < r"
  shows "\<exists>m' k ys. divide_loop cmp m sz (base + i * sz) (base + j * sz) (base + l * sz) (base + r * sz) = Some (m', base + k * sz) \<and>
    l \<le> k \<and> k \<le> r \<and> arr m' base sz ys \<and> mset ys = mset xs \<and> same_outside m m' base (length xs * sz)"
  using assms
proof (induction "j - i" arbitrary: i j m xs rule: less_induct)
  case less
  from div_right_arr [OF less.prems(1,2,4)] obtain i' where
    i: "div_right cmp m sz (base + i * sz) (base + r * sz) = Some (base + i' * sz)" "i \<le> i'" "i' \<le> r" by blast
  have "j < length xs" using less.prems(2,6) by simp
  from div_left_arr [OF less.prems(1,2) this less.prems(5)] obtain j' where
    j: "div_left cmp m sz (base + j * sz) (base + l * sz) (base + r * sz) = Some (base + j' * sz)" "l \<le> j'" "j' \<le> j" by blast
  show ?case
  proof (cases "i' < j'")
    case False
    with i j less.prems(1,3) elem_less [OF sz_pos, of base i' j'] show ?thesis
      by (subst divide_loop.simps) (auto intro!: exI [of _ m] exI [of _ i'])
  next
    case True
    have ij: "i' < length xs" "j' < length xs" using True j(3) less.prems(2,6) by simp_all
    from memswp_arr [OF less.prems(1) ij] obtain m1 where
      m1: "memswp m (base + i' * sz) (base + j' * sz) sz = Some m1" "arr m1 base sz (xs[i' := xs ! j', j' := xs ! i'])"
        "same_outside m m1 base (length xs * sz)" by blast
    let ?ys = "xs[i' := xs ! j', j' := xs ! i']"
    have ms: "mset ?ys = mset xs" "length ?ys = length xs" using ij by (simp_all add: mset_swap)
    have e: "base + i' * sz + sz = base + Suc i' * sz" "base + j' * sz - sz = base + (j' - 1) * sz"
    proof -
      from True obtain j2 where "j' = Suc j2" by (cases j') auto
      then show "base + j' * sz - sz = base + (j' - 1) * sz" by simp
    qed simp
    have st: "divide_loop cmp m sz (base + i * sz) (base + j * sz) (base + l * sz) (base + r * sz) =
        (if Suc i' < j' - 1 then divide_loop cmp m1 sz (base + Suc i' * sz) (base + (j' - 1) * sz) (base + l * sz) (base + r * sz)
         else Some (m1, base + Suc i' * sz))"
      using i(1) j(1) m1(1) True elem_less [OF sz_pos, of base i' j'] elem_less [OF sz_pos, of base "Suc i'" "j' - 1"]
      by (subst divide_loop.simps) (simp add: e del: mult_Suc)
    show ?thesis
    proof (cases "Suc i' < j' - 1")
      case c: True
      have "\<exists>m' k ys. divide_loop cmp m1 sz (base + Suc i' * sz) (base + (j' - 1) * sz) (base + l * sz) (base + r * sz) = Some (m', base + k * sz) \<and>
        l \<le> k \<and> k \<le> r \<and> arr m' base sz ys \<and> mset ys = mset ?ys \<and> same_outside m1 m' base (length ?ys * sz)"
        by (rule less.hyps) (use c i j less.prems m1(2) in auto)
      with c st ms same_outside_trans [OF m1(3)] show ?thesis by auto
    next
      case False
      with st m1 ms i j less.prems True show ?thesis
        by (intro exI [of _ m1] exI [of _ "Suc i'"] exI [of _ ?ys]) auto
    qed
  qed
qed

lemma divide_arr:
  assumes "arr m base sz xs" "0 \<le> l" "l < r" "r < int (length xs)"
  shows "\<exists>k m' ys. divide_c cmp m base sz l r = Some (k, m') \<and> l \<le> k \<and> k \<le> r \<and>
    arr m' base sz ys \<and> mset ys = mset xs \<and> same_outside m m' base (length xs * sz)"
proof -
  have n: "nat l < nat r" "nat r < length xs" using assms(2-4) by auto
  have e: "base + nat r * sz - sz = base + (nat r - 1) * sz" using n(1) by (cases "nat r") simp_all
  have j: "nat l \<le> nat r - 1" "nat r - 1 < nat r" "nat l \<le> nat r" using n(1) by linarith+
  from divide_loop_arr [OF assms(1) n(2) le_refl j(3,1,2)] obtain m1 k ys where
    d: "divide_loop cmp m sz (base + nat l * sz) (base + nat r * sz - sz) (base + nat l * sz) (base + nat r * sz) = Some (m1, base + k * sz)"
      "nat l \<le> k" "k \<le> nat r" "arr m1 base sz ys" "mset ys = mset xs" "same_outside m m1 base (length xs * sz)"
    unfolding e by blast
  have len: "length ys = length xs" by (rule mset_eq_length [OF d(5)])
  have k: "k < length ys" "nat r < length ys" using d(3) n(2) len by simp_all
  have idx: "(base + k * sz - base) div sz = k" using sz_pos by simp
  have kk: "l \<le> int k" "int k \<le> r" using d(2,3) assms(2,3) by auto
  note c = cmp_arr [OF d(4) k]
  show ?thesis
  proof (cases "ord (ys ! k) (ys ! nat r) > 0")
    case True
    from memswp_arr [OF d(4) k] obtain m2 where "memswp m1 (base + k * sz) (base + nat r * sz) sz = Some m2"
      "arr m2 base sz (ys[k := ys ! nat r, nat r := ys ! k])" "same_outside m1 m2 base (length xs * sz)" using len by auto
    moreover have "mset (ys[k := ys ! nat r, nat r := ys ! k]) = mset xs" using k d(5) by (simp add: mset_swap)
    ultimately show ?thesis using d(1,6) c True kk same_outside_trans idx
      by (intro exI [of _ "int k"] exI [of _ m2] exI [of _ "ys[k := ys ! nat r, nat r := ys ! k]"])
        (auto simp: divide_c_def Let_def)
  next
    case False
    with d c kk idx show ?thesis
      by (intro exI [of _ "int k"] exI [of _ m1] exI [of _ ys]) (auto simp: divide_c_def Let_def)
  qed
qed

lemma qsort_rec_arr:
  assumes "arr m base sz xs" "0 \<le> l" "r < int (length xs)"
  shows "\<exists>m' ys. qsort_rec cmp m base sz l r = Some m' \<and> arr m' base sz ys \<and> mset ys = mset xs \<and>
    same_outside m m' base (length xs * sz)"
  using assms
proof (induction "nat (r - l)" arbitrary: l r m xs rule: less_induct)
  case less
  show ?case
  proof (cases "l < r")
    case False
    with less.prems(1) show ?thesis by (subst qsort_rec.simps) auto
  next
    case True
    from divide_arr [OF less.prems(1,2) True less.prems(3)] obtain k m1 ys where
      d: "divide_c cmp m base sz l r = Some (k, m1)" "l \<le> k" "k \<le> r" "arr m1 base sz ys" "mset ys = mset xs"
        "same_outside m m1 base (length xs * sz)" by blast
    have l1: "length ys = length xs" by (rule mset_eq_length [OF d(5)])
    have "\<exists>m' zs. qsort_rec cmp m1 base sz l (k - 1) = Some m' \<and> arr m' base sz zs \<and> mset zs = mset ys \<and>
      same_outside m1 m' base (length ys * sz)"
      by (rule less.hyps) (use d less.prems l1 True in auto)
    then obtain m2 zs where q: "qsort_rec cmp m1 base sz l (k - 1) = Some m2" "arr m2 base sz zs" "mset zs = mset ys"
      "same_outside m1 m2 base (length ys * sz)" by blast
    have l2: "length zs = length ys" by (rule mset_eq_length [OF q(3)])
    have "\<exists>m' us. qsort_rec cmp m2 base sz (k + 1) r = Some m' \<and> arr m' base sz us \<and> mset us = mset zs \<and>
      same_outside m2 m' base (length zs * sz)"
      by (rule less.hyps) (use d q less.prems l1 l2 True in auto)
    then obtain m3 us where u: "qsort_rec cmp m2 base sz (k + 1) r = Some m3" "arr m3 base sz us" "mset us = mset zs"
      "same_outside m2 m3 base (length zs * sz)" by blast
    have "qsort_rec cmp m base sz l r = Some m3" using True d(1) q(1) u(1) by (subst qsort_rec.simps) simp
    moreover have "same_outside m m3 base (length xs * sz)"
      using d(6) q(4) u(4) l1 l2 by (simp add: same_outside_def)
    ultimately show ?thesis using u(2,3) q(3) d(5) by auto
  qed
qed

lemma bsearch_loop_arr:
  assumes a: "arr m base sz xs" "bytes_at m key x" "length x = sz" "length xs < 2 ^ 31"
    and so: "sorted_for ord xs x"
    and f: "ord (xs ! 0) x \<le> 0" "xs \<noteq> []"
    and b: "0 \<le> from" "to < int (length xs)" "from \<le> to + 1" "0 \<le> to"
      "\<forall>i. int i < from \<longrightarrow> ord (xs ! i) x < 0" "\<forall>i. to < int i \<and> i < length xs \<longrightarrow> ord (xs ! i) x > 0"
  shows "if \<exists>i < length xs. ord (xs ! i) x = 0
    then \<exists>i < length xs. ord (xs ! i) x = 0 \<and> bsearch_loop cmp m key base sz from to = Some (base + i * sz)
    else bsearch_loop cmp m key base sz from to = Some 0"
  using b
proof (induction "nat (to + 1 - from)" arbitrary: "from" to rule: less_induct)
  case less
  show ?case
  proof (cases "from \<le> to")
    case False
    then have "ord (xs ! i) x \<noteq> 0" if "i < length xs" for i
      using less.prems(5,6) that by (cases "int i < from") force+
    then have "\<not> (\<exists>i < length xs. ord (xs ! i) x = 0)" by blast
    moreover have "bsearch_loop cmp m key base sz from to = Some 0" using False by (subst bsearch_loop.simps) simp
    ultimately show ?thesis by (simp only: if_False)
  next
    case True
    define k where "k = nat ((from + to) div 2)"
    note s = so [unfolded sorted_for_def]
    have k: "from \<le> int k" "int k \<le> to" "k < length xs" using True less.prems(1,2) by (auto simp: k_def)
    have "uint32 (from + to) = from + to"
      using True less.prems(1,2) a(4) by (simp add: uint32_def take_bit_int_eq_self)
    then have u: "uint32 (from + to) div 2 = int k" using less.prems(1) True by (simp add: k_def)
    have c: "cmp m (base + k * sz) key = Some (ord (xs ! k) x)" using arrD [OF a(1) k(3)] a(2,3) by (intro cmp_law) auto
    consider "ord (xs ! k) x = 0" | "ord (xs ! k) x > 0" | "ord (xs ! k) x < 0" by linarith
    then show ?thesis
    proof cases
      case 1
      then have "bsearch_loop cmp m key base sz from to = Some (base + k * sz)"
        using True u c by (subst bsearch_loop.simps) simp
      with 1 k(3) show ?thesis by auto
    next
      case 2
      have k0: "k \<noteq> 0" using 2 f(1) by (metis linorder_not_less)
      have "uint32 (int k - 1) = int k - 1" using k0 k(3) a(4) by (simp add: uint32_def take_bit_int_eq_self)
      then have st: "bsearch_loop cmp m key base sz from to = bsearch_loop cmp m key base sz from (int k - 1)"
        using True u c 2 by (subst bsearch_loop.simps) simp
      show ?thesis unfolding st
      proof (rule less.hyps)
        show "\<forall>i. int k - 1 < int i \<and> i < length xs \<longrightarrow> ord (xs ! i) x > 0" using s 2 by (metis int_ops(2) less_iff_Suc_add linorder_not_less nat_int of_nat_le_iff zle_diff1_eq)
      qed (use True k k0 less.prems in auto)
    next
      case 3
      have "uint32 (int k + 1) = int k + 1" using k(3) a(4) by (simp add: uint32_def take_bit_int_eq_self)
      then have st: "bsearch_loop cmp m key base sz from to = bsearch_loop cmp m key base sz (int k + 1) to"
        using True u c 3 by (subst bsearch_loop.simps) simp
      show ?thesis unfolding st
      proof (rule less.hyps)
        show "\<forall>i. int i < int k + 1 \<longrightarrow> ord (xs ! i) x < 0" using s 3 k(3) by auto
      qed (use True k less.prems in auto)
    qed
  qed
qed

end

text \<open>\<open>memcmp\<close> is such a comparison.\<close>

interpretation bytes: comparator "\<lambda>m a b. memcmp m a b 1" ucmp 1
  by unfold_locales (rule memcmp_bytes_at, assumption+, simp)

section \<open>Properties\<close>

text \<open>C24: \<open>qsort\<close> always returns, whatever the comparison function answers, leaves a permutation of the
  elements in the array and changes nothing outside of it.\<close>

theorem qsort_permutes:
  assumes "comparator cmp ord sz" "arr m base sz xs" "length xs < 2 ^ 31"
  shows "\<exists>m' ys. qsort cmp m base (length xs) sz = Some m' \<and> arr m' base sz ys \<and> mset ys = mset xs \<and>
    same_outside m m' base (length xs * sz)"
proof -
  have "int32 (int (length xs) - 1) = int (length xs) - 1" using assms(3) by simp
  with comparator.qsort_rec_arr [OF assms(1,2), of 0 "int (length xs) - 1"] show ?thesis by (simp add: qsort_def)
qed

theorem qsort_permutes_witness:
  "\<exists>m' ys. qsort (\<lambda>m a b. memcmp m a b 1) (mem_of 8 [5, 1, 2, 3]) 8 4 1 = Some m' \<and> mset ys = mset [[5], [1], [2], [3]] \<and> arr m' 8 1 ys"
proof -
  have "arr (mem_of 8 [5, 1, 2, 3]) 8 1 [[5], [1], [2], [3]]"
    by (simp add: arr_def mem_of_def All_less_Suc2)
  note q = qsort_permutes [OF bytes.comparator_axioms this]
  have l: "length [[5], [1], [2], [3 :: byte]] = 4" "(4 :: nat) < 2 ^ 31" by simp_all
  show ?thesis using q [unfolded l(1), OF l(2)] by blast
qed

text \<open>It does not always sort: after a swap both positions move on, and when they meet the element there
  is never compared with the pivot. The array 5, 1, 2, 3 ends as 2, 1, 3, 5.\<close>

lemma qsort_unsorted:
  "\<exists>m'. qsort (\<lambda>m a b. memcmp m a b 1) (mem_of 8 [5, 1, 2, 3]) 8 4 1 = Some m' \<and> bytes_at m' 8 [2, 1, 3, 5]"
  by (simp add: qsort_def qsort_rec.simps divide_c_def divide_loop.simps div_right.simps div_left.simps mem_of_def Let_def
    memswp_def)


text \<open>in a nonempty array that the comparison orders and whose first element is not greater than the
  key, \<open>bsearch\<close> returns the address of an element equal to the key, or NULL when there is none.\<close>

theorem bsearch_finds:
  assumes "comparator cmp ord sz" "arr m base sz xs" "bytes_at m key x" "length x = sz" "length xs < 2 ^ 31"
    "sorted_for ord xs x" "xs \<noteq> []" "ord (xs ! 0) x \<le> 0"
  shows "if \<exists>i < length xs. ord (xs ! i) x = 0
    then \<exists>i < length xs. ord (xs ! i) x = 0 \<and> bsearch cmp m key base (length xs) sz = Some (base + i * sz)
    else bsearch cmp m key base (length xs) sz = Some 0"
proof -
  have "0 < length xs" using assms(7) by simp
  then have "uint32 (int (length xs) - 1) = int (length xs) - 1"
    using assms(5) by (simp add: uint32_def take_bit_int_eq_self)
  moreover note comparator.bsearch_loop_arr [OF assms(1-6,8,7), of 0 "int (length xs) - 1"]
  ultimately show ?thesis using assms(5) \<open>0 < length xs\<close> unfolding bsearch_def by simp
qed

theorem bsearch_finds_witness:
  "bsearch (\<lambda>m a b. memcmp m a b 1) (mem_of 8 [1, 2, 2]) 10 8 2 1 = Some 9"
proof -
  have "arr (mem_of 8 [1, 2, 2]) 8 1 [[1], [2]]" by (simp add: arr_def mem_of_def All_less_Suc2)
  moreover have "bytes_at (mem_of 8 [1, 2, 2]) 10 [2]" by (simp add: mem_of_def)
  moreover have "sorted_for ucmp [[1], [2]] [2]" by (auto simp: sorted_for_def less_Suc_eq le_Suc_eq)
  ultimately have "if \<exists>i < length [[1 :: byte], [2]]. ucmp ([[1], [2]] ! i) [2] = 0
    then \<exists>i < length [[1 :: byte], [2]]. ucmp ([[1], [2]] ! i) [2] = 0 \<and>
      bsearch (\<lambda>m a b. memcmp m a b 1) (mem_of 8 [1, 2, 2]) 10 8 (length [[1 :: byte], [2]]) 1 = Some (8 + i * 1)
    else bsearch (\<lambda>m a b. memcmp m a b 1) (mem_of 8 [1, 2, 2]) 10 8 (length [[1 :: byte], [2]]) 1 = Some 0"
    by (intro bsearch_finds [OF bytes.comparator_axioms]) simp_all
  moreover have l: "length [[1 :: byte], [2]] = 2" by simp
  moreover have e: "i < 2 \<and> ucmp ([[1 :: byte], [2]] ! i) [2] = 0 \<longleftrightarrow> i = 1" for i by (auto simp: less_2_cases_iff)
  ultimately show ?thesis by (metis (no_types, lifting) e mult.right_neutral numeral_plus_one semiring_norm(5))
qed

text \<open>A key below the first element makes \<open>to\<close> wrap to the largest number: the search goes on behind the
  array.\<close>

lemma bsearch_below_first: "bsearch (\<lambda>m a b. memcmp m a b 1) (mem_of 8 [3, 2]) 9 8 1 1 = None"
  unfolding bsearch_def
  by (subst bsearch_loop.simps, simp add: Let_def mem_of_def uint32_def,
    subst bsearch_loop.simps, simp add: Let_def mem_of_def uint32_def mask_eq_exp_minus_1)

end
