(* ===== verification/Times.thy ===== *)
theory Times
  imports Prelude
begin

text \<open>
  Calendar time: \<open>gmtime\<close> and \<open>mktime\<close> of \<open>lib/basic/time\<close>, \<open>timeof\<close> and \<open>localtime\<close> of \<open>lib/c/time\<close>.
  \<open>time_t\<close> is an unsigned 32-bit number, \<open>long\<close> a signed one. The loops of \<open>gmtime\<close> are shown to
  invert the sums of \<open>mktime\<close>, in both directions.
\<close>

section \<open>Definitions\<close>

abbreviation SECS_PER_MIN :: int where "SECS_PER_MIN \<equiv> 60"
abbreviation SECS_PER_HOUR :: int where "SECS_PER_HOUR \<equiv> 3600"
abbreviation SECS_PER_DAY :: int where "SECS_PER_DAY \<equiv> 86400"
abbreviation SECS_PER_YEAR :: int where "SECS_PER_YEAR \<equiv> 365 * SECS_PER_DAY"
abbreviation SECS_PER_LEAPYEAR :: int where "SECS_PER_LEAPYEAR \<equiv> 366 * SECS_PER_DAY"

record tm =
  tm_sec :: int
  tm_min :: int
  tm_hour :: int
  tm_mday :: int
  tm_mon :: int
  tm_year :: int
  tm_wday :: int
  tm_yday :: int

definition IS_LEAP_YEAR :: "int \<Rightarrow> bool" where
  "IS_LEAP_YEAR y \<longleftrightarrow> y mod 4 = 0 \<and> (y mod 100 \<noteq> 0 \<or> y mod 400 = 0)"

definition daysPerMonth :: "int list list" where
  "daysPerMonth =
    [[31,28,31,30,31,30,31,31,30,31,30,31],
     [31,29,31,30,31,30,31,31,30,31,30,31]]"

definition year_secs :: "int \<Rightarrow> int" where
  "year_secs y = (if IS_LEAP_YEAR y then SECS_PER_LEAPYEAR else SECS_PER_YEAR)"

definition month_days :: "int \<Rightarrow> int list" where
  "month_days y = daysPerMonth ! (if IS_LEAP_YEAR y then 1 else 0)"

text \<open>The two loops of \<open>gmtime\<close>: seconds left in the year and the year, seconds left in the month and the month.\<close>

partial_function (option) gm_year :: "int \<Rightarrow> int \<Rightarrow> (int \<times> int) option" where
  "gm_year ts year = (let nextSecs = int32 (int32 ts - year_secs year) in
     if nextSecs < 0 then Some (ts, year) else gm_year nextSecs (year + 1))"

partial_function (option) gm_month :: "int list \<Rightarrow> int \<Rightarrow> nat \<Rightarrow> (int \<times> nat) option" where
  "gm_month dpm ts m =
     (if m < length dpm then
        let nextSecs = int32 (int32 ts - dpm ! m * SECS_PER_DAY) in
        if nextSecs < 0 then Some (ts, m) else gm_month dpm nextSecs (Suc m)
      else None)"

definition gmtime :: "int \<Rightarrow> tm option" where
  "gmtime timestamp = do {
     let days = timestamp div 60 div 60 div 24;
     (ts, year) \<leftarrow> gm_year timestamp 1970;
     (ts', m) \<leftarrow> gm_month (month_days year) ts 0;
     Some \<lparr>tm_sec = timestamp mod 60, tm_min = timestamp div 60 mod 60, tm_hour = timestamp div 60 div 60 mod 24,
       tm_mday = ts' div SECS_PER_DAY, tm_mon = int m, tm_year = year - 1900,
       tm_wday = (4 + days) mod 7, tm_yday = ts div SECS_PER_DAY\<rparr> }"

text \<open>The loops of \<open>mktime\<close> over \<open>n\<close> years from \<open>y\<close> on and over the months below \<open>m\<close>.\<close>

fun mk_years :: "nat \<Rightarrow> int \<Rightarrow> int \<Rightarrow> int" where
  "mk_years 0 y ts = ts"
| "mk_years (Suc n) y ts = mk_years n (y + 1) (uint32 (ts + year_secs (int32 (y + 1900))))"

fun mk_months :: "int list \<Rightarrow> nat \<Rightarrow> int \<Rightarrow> int option" where
  "mk_months dpm 0 ts = Some ts"
| "mk_months dpm (Suc m) ts =
     (if m < length dpm then mk_months dpm m (uint32 (ts + dpm ! m * SECS_PER_DAY)) else None)"

definition mktime :: "tm \<Rightarrow> int option" where
  "mktime t = do {
     let ts = mk_years (nat (tm_year t - 70)) 70 0;
     ts1 \<leftarrow> mk_months (month_days (int32 (tm_year t + 1900))) (nat (tm_mon t)) ts;
     let ts2 = uint32 (ts1 + int32 (tm_mday t * SECS_PER_DAY));
     let ts3 = uint32 (ts2 + int32 (tm_hour t * SECS_PER_HOUR));
     let ts4 = uint32 (ts3 + int32 (tm_min t * SECS_PER_MIN));
     Some (uint32 (ts4 + tm_sec t)) }"

text \<open>The fields that \<open>timeof\<close> leaves uninitialised are not read.\<close>

definition timeof :: "int \<Rightarrow> int \<Rightarrow> int \<Rightarrow> int \<Rightarrow> int \<Rightarrow> int \<Rightarrow> int option" where
  "timeof month day year hour mins sec = mktime
     \<lparr>tm_sec = sec, tm_min = mins, tm_hour = hour, tm_mday = day, tm_mon = month, tm_year = year,
      tm_wday = 0, tm_yday = 0\<rparr>"

definition localtime :: "int \<Rightarrow> tm option" where
  "localtime timer = gmtime timer"

section \<open>Years and months\<close>

lemma month_days_length [simp]: "length (month_days y) = 12"
  by (simp add: month_days_def daysPerMonth_def)

lemma month_days_sum: "sum_list (month_days y) * SECS_PER_DAY = year_secs y"
  by (simp add: month_days_def daysPerMonth_def year_secs_def)

lemma month_days_bounds: "d \<in> set (month_days y) \<Longrightarrow> 28 \<le> d \<and> d \<le> 31"
  by (auto simp: month_days_def daysPerMonth_def split: if_splits)

lemma year_secs_bounds: "SECS_PER_YEAR \<le> year_secs y" "year_secs y \<le> SECS_PER_LEAPYEAR"
  by (simp_all add: year_secs_def)

text \<open>The seconds of \<open>n\<close> years from \<open>y\<close> on.\<close>

fun years :: "nat \<Rightarrow> int \<Rightarrow> int" where
  "years 0 y = 0"
| "years (Suc n) y = year_secs y + years n (y + 1)"

lemma years_nonneg: "int n * SECS_PER_YEAR \<le> years n y"
proof (induction n arbitrary: y)
  case (Suc n)
  show ?case using Suc.IH [of "y + 1"] year_secs_bounds(1) [of y] by simp
qed simp

lemma gm_year_result:
  assumes "0 \<le> ts" "ts < year_secs (y + int n)" "years n y + ts < 2 ^ 31"
  shows "gm_year (years n y + ts) y = Some (ts, y + int n)"
  using assms
proof (induction n arbitrary: y)
  case 0
  then show ?case using year_secs_bounds(2) [of y] by (subst gm_year.simps) (simp add: Let_def)
next
  case (Suc n)
  have "0 \<le> years n (y + 1)" using years_nonneg [of n "y + 1"] by linarith
  with Suc.prems year_secs_bounds(1) [of y] Suc.IH [of "y + 1"] show ?case
    by (subst gm_year.simps) (simp add: Let_def add.commute add.left_commute add_diff_eq)
qed

lemma gm_year_exists:
  assumes "0 \<le> ts"
  shows "\<exists>n r. ts = years n y + r \<and> 0 \<le> r \<and> r < year_secs (y + int n)"
  using assms
proof (induction "nat ts" arbitrary: ts y rule: less_induct)
  case less
  show ?case
  proof (cases "ts < year_secs y")
    case True
    with less.prems show ?thesis by (intro exI [of _ 0] exI [of _ ts]) simp
  next
    case False
    with year_secs_bounds(1) [of y] less.hyps [of "ts - year_secs y" "y + 1"] obtain n r where
      "ts - year_secs y = years n (y + 1) + r" "0 \<le> r" "r < year_secs (y + 1 + int n)" by auto
    then show ?thesis by (intro exI [of _ "Suc n"] exI [of _ r]) (simp add: algebra_simps)
  qed
qed

lemma gm_month_result:
  assumes "0 \<le> r" "m + k < length dpm" "r < dpm ! (m + k) * SECS_PER_DAY" "\<forall>d \<in> set dpm. 0 < d"
    "sum_list (take k (drop m dpm)) * SECS_PER_DAY + r < 2 ^ 31" "\<forall>d \<in> set dpm. d \<le> 31"
  shows "gm_month dpm (sum_list (take k (drop m dpm)) * SECS_PER_DAY + r) m = Some (r, m + k)"
  using assms
proof (induction k arbitrary: m)
  case 0
  then have d: "0 < dpm ! m" "dpm ! m \<le> 31" "m < length dpm" "r < dpm ! m * SECS_PER_DAY" by auto
  then have "int32 r = r" "int32 (r - dpm ! m * SECS_PER_DAY) = r - dpm ! m * SECS_PER_DAY" using 0(1) by simp_all
  with d show ?case by (subst gm_month.simps) (simp add: Let_def)
next
  case (Suc k)
  have d: "drop m dpm = dpm ! m # drop (Suc m) dpm" using Suc.prems(2) by (simp add: Cons_nth_drop_Suc)
  have p: "0 < dpm ! m" "dpm ! m \<le> 31" using Suc.prems(2,4,6) by auto
  have "0 \<le> sum_list (take k (drop (Suc m) dpm))"
    using Suc.prems(4) by (intro sum_list_nonneg) (auto dest!: in_set_takeD in_set_dropD)
  let ?x = "sum_list (take k (drop (Suc m) dpm)) * SECS_PER_DAY + r"
  have x: "0 \<le> ?x" "dpm ! m * SECS_PER_DAY + ?x < 2 ^ 31"
    using \<open>0 \<le> sum_list _\<close> Suc.prems(1,5) d by (simp_all add: algebra_simps)
  then have "int32 (dpm ! m * SECS_PER_DAY + ?x) = dpm ! m * SECS_PER_DAY + ?x" "int32 ?x = ?x" using p by simp_all
  moreover have "gm_month dpm ?x (Suc m) = Some (r, Suc m + k)"
  proof (rule Suc.IH)
    show "?x < 2 ^ 31" using x p(1) by linarith
  qed (use Suc.prems in simp_all)
  moreover have e: "sum_list (take (Suc k) (drop m dpm)) * SECS_PER_DAY + r = dpm ! m * SECS_PER_DAY + ?x"
    by (simp add: d algebra_simps)
  ultimately show ?case using Suc.prems(2) x(1) unfolding e by (subst gm_month.simps) (simp add: Let_def)
qed

lemma month_exists:
  assumes "0 \<le> ts" "ts < sum_list ds * SECS_PER_DAY"
  shows "\<exists>m r. m < length ds \<and> ts = sum_list (take m ds) * SECS_PER_DAY + r \<and> 0 \<le> r \<and> r < ds ! m * SECS_PER_DAY"
  using assms
proof (induction ds arbitrary: ts)
  case (Cons d ds)
  show ?case
  proof (cases "ts < d * SECS_PER_DAY")
    case True
    with Cons.prems show ?thesis by (intro exI [of _ 0] exI [of _ ts]) simp
  next
    case False
    with Cons.prems Cons.IH [of "ts - d * SECS_PER_DAY"] obtain m r where
      "m < length ds" "ts - d * SECS_PER_DAY = sum_list (take m ds) * SECS_PER_DAY + r" "0 \<le> r" "r < ds ! m * SECS_PER_DAY"
      by (auto simp: algebra_simps)
    then show ?thesis by (intro exI [of _ "Suc m"] exI [of _ r]) (simp add: algebra_simps)
  qed
qed simp

lemma uint32_id: "0 \<le> x \<Longrightarrow> x < 2 ^ 32 \<Longrightarrow> uint32 x = x"
  by (simp add: uint32_def take_bit_int_eq_self)

lemma uint32_add [simp]: "uint32 (uint32 x + y) = uint32 (x + y)" "uint32 (x + uint32 y) = uint32 (x + y)"
  by (simp_all add: uint32_def take_bit_eq_mod mod_simps)

lemma uint32_int32 [simp]: "uint32 (x + int32 y) = uint32 (x + y)"
proof -
  have "take_bit 32 (int32 y) = take_bit 32 y" by (simp add: int32_def take_bit_signed_take_bit)
  then show ?thesis unfolding uint32_def by (metis take_bit_add)
qed

lemma mk_years_result: "0 \<le> y \<Longrightarrow> y + int n < 2 ^ 30 \<Longrightarrow> uint32 (mk_years n y ts) = uint32 (ts + years n (y + 1900))"
  by (induction n arbitrary: y ts) (simp_all add: algebra_simps)

lemma mk_months_result:
  "m \<le> length dpm \<Longrightarrow> \<exists>r. mk_months dpm m ts = Some r \<and> uint32 r = uint32 (ts + sum_list (take m dpm) * SECS_PER_DAY)"
proof (induction m arbitrary: ts)
  case (Suc m)
  from Suc.IH [of "uint32 (ts + dpm ! m * SECS_PER_DAY)"] Suc.prems obtain r where
    "mk_months dpm m (uint32 (ts + dpm ! m * SECS_PER_DAY)) = Some r"
    "uint32 r = uint32 (uint32 (ts + dpm ! m * SECS_PER_DAY) + sum_list (take m dpm) * SECS_PER_DAY)" by auto
  with Suc.prems show ?case by (simp add: take_Suc_conv_app_nth algebra_simps)
qed simp

section \<open>Dates\<close>

text \<open>The date fields are in range; days of the month count from 0.\<close>

definition tm_ok :: "tm \<Rightarrow> bool" where
  "tm_ok t \<longleftrightarrow> 0 \<le> tm_sec t \<and> tm_sec t < 60 \<and> 0 \<le> tm_min t \<and> tm_min t < 60 \<and> 0 \<le> tm_hour t \<and> tm_hour t < 24 \<and>
     0 \<le> tm_mon t \<and> tm_mon t < 12 \<and> 70 \<le> tm_year t \<and>
     0 \<le> tm_mday t \<and> tm_mday t < month_days (tm_year t + 1900) ! nat (tm_mon t)"

definition day_secs :: "tm \<Rightarrow> int" where
  "day_secs t = years (nat (tm_year t - 70)) 1970 +
     (sum_list (take (nat (tm_mon t)) (month_days (tm_year t + 1900))) + tm_mday t) * SECS_PER_DAY"

definition tm_secs :: "tm \<Rightarrow> int" where
  "tm_secs t = day_secs t + tm_hour t * SECS_PER_HOUR + tm_min t * SECS_PER_MIN + tm_sec t"

lemma years_dvd: "SECS_PER_DAY dvd years n y"
  by (induction n arbitrary: y) (simp_all add: year_secs_def)

lemma years_mono: "n \<le> m \<Longrightarrow> years n y \<le> years m y"
proof (induction n arbitrary: m y)
  case 0
  then show ?case using years_nonneg [of m y] by simp
next
  case (Suc n)
  then show ?case using Suc.IH [of "m - 1" "y + 1"] by (cases m) simp_all
qed

lemma years_Suc: "years (Suc n) y = years n y + year_secs (y + int n)"
proof (induction n arbitrary: y)
  case (Suc n)
  have "years (Suc (Suc n)) y = year_secs y + years (Suc n) (y + 1)" by simp
  also have "\<dots> = year_secs y + years n (y + 1) + year_secs (y + 1 + int n)" by (simp only: Suc.IH add.assoc)
  finally show ?case by (simp add: algebra_simps)
qed simp_all

lemma month_part:
  fixes ds :: "int list"
  assumes "m < length ds" "d < ds ! m" "\<forall>x \<in> set ds. 0 \<le> x"
  shows "sum_list (take m ds) + d < sum_list ds"
proof -
  have "sum_list ds = sum_list (take m ds) + ds ! m + sum_list (drop (Suc m) ds)"
    using assms(1) by (metis add.assoc id_take_nth_drop sum_list.Cons sum_list.append)
  moreover have "0 \<le> sum_list (drop (Suc m) ds)"
    by (rule sum_list_nonneg) (use assms(3) in_set_dropD [of _ "Suc m" ds] in blast)
  ultimately show ?thesis using assms(2) by linarith
qed

lemma tm_okD:
  assumes "tm_ok t"
  shows "0 \<le> tm_hour t * SECS_PER_HOUR + tm_min t * SECS_PER_MIN + tm_sec t"
    "tm_hour t * SECS_PER_HOUR + tm_min t * SECS_PER_MIN + tm_sec t < SECS_PER_DAY"
    "0 \<le> sum_list (take (nat (tm_mon t)) (month_days (tm_year t + 1900)))"
    "sum_list (take (nat (tm_mon t)) (month_days (tm_year t + 1900))) + tm_mday t + 1 \<le> sum_list (month_days (tm_year t + 1900))"
proof -
  show "0 \<le> tm_hour t * SECS_PER_HOUR + tm_min t * SECS_PER_MIN + tm_sec t"
    "tm_hour t * SECS_PER_HOUR + tm_min t * SECS_PER_MIN + tm_sec t < SECS_PER_DAY"
    using assms by (simp_all add: tm_ok_def)
  show "0 \<le> sum_list (take (nat (tm_mon t)) (month_days (tm_year t + 1900)))"
    by (intro sum_list_nonneg) (auto dest!: in_set_takeD month_days_bounds)
  show "sum_list (take (nat (tm_mon t)) (month_days (tm_year t + 1900))) + tm_mday t + 1 \<le> sum_list (month_days (tm_year t + 1900))"
    using month_part [of "nat (tm_mon t)" "month_days (tm_year t + 1900)" "tm_mday t"] assms
    by (force simp: tm_ok_def dest: month_days_bounds)
qed

lemma mktime_secs:
  assumes "tm_ok t" "tm_year t < 2 ^ 29"
  shows "mktime t = Some (uint32 (tm_secs t))"
proof -
  let ?m = "nat (tm_mon t)" and ?n = "nat (tm_year t - 70)"
  have y: "int32 (tm_year t + 1900) = tm_year t + 1900" using assms by (simp add: tm_ok_def)
  from mk_months_result [of ?m "month_days (tm_year t + 1900)" "mk_years ?n 70 0"] assms(1) obtain r where
    r: "mk_months (month_days (tm_year t + 1900)) ?m (mk_years ?n 70 0) = Some r"
      "uint32 r = uint32 (mk_years ?n 70 0 + sum_list (take ?m (month_days (tm_year t + 1900))) * SECS_PER_DAY)"
    by (fastforce simp: tm_ok_def)
  have k: "uint32 (mk_years ?n 70 0) = uint32 (years ?n 1970)"
    using mk_years_result [of 70 ?n 0] assms by (simp add: tm_ok_def)
  have add: "uint32 a = uint32 b \<Longrightarrow> uint32 (a + c) = uint32 (b + c)" for a b c by (metis uint32_add(1))
  have "mktime t = Some (uint32 (r + (tm_mday t * SECS_PER_DAY + tm_hour t * SECS_PER_HOUR + tm_min t * SECS_PER_MIN + tm_sec t)))"
    using r(1) by (simp add: mktime_def y Let_def add.assoc)
  also have "\<dots> = Some (uint32 (tm_secs t))"
    using add [OF r(2), of "tm_mday t * SECS_PER_DAY + tm_hour t * SECS_PER_HOUR + tm_min t * SECS_PER_MIN + tm_sec t"]
      add [OF k, of "sum_list (take ?m (month_days (tm_year t + 1900))) * SECS_PER_DAY + (tm_mday t * SECS_PER_DAY + tm_hour t * SECS_PER_HOUR + tm_min t * SECS_PER_MIN + tm_sec t)"]
    by (simp add: tm_secs_def day_secs_def algebra_simps)
  finally show ?thesis .
qed

lemma clock_fields:
  fixes s :: int
  assumes "x = SECS_PER_DAY * D + (h * 3600 + mi * 60 + s)" "0 \<le> s" "s < 60" "0 \<le> mi" "mi < 60" "0 \<le> h" "h < 24"
  shows "x mod 60 = s" "x div 60 mod 60 = mi" "x div 60 div 60 mod 24 = h" "x div 60 div 60 div 24 = D"
proof -
  have x: "x = s + 60 * (mi + 60 * (h + 24 * D))" using assms(1) by simp
  have 1: "x mod 60 = s" "x div 60 = mi + 60 * (h + 24 * D)" unfolding x using assms(2,3) by (simp_all del: distrib_left_numeral)
  have 2: "x div 60 mod 60 = mi" "x div 60 div 60 = h + 24 * D" unfolding 1 using assms(4,5) by (simp_all del: distrib_left_numeral)
  show "x div 60 div 60 mod 24 = h" "x div 60 div 60 div 24 = D" unfolding 2 using assms(6,7) by simp_all
  show "x mod 60 = s" "x div 60 mod 60 = mi" by (fact 1 2)+
qed

lemma day_div: "0 \<le> s \<Longrightarrow> s < SECS_PER_DAY \<Longrightarrow> (d * SECS_PER_DAY + s) div SECS_PER_DAY = d"
  by simp

lemma gmtime_secs:
  assumes "tm_ok t" "tm_secs t < 2 ^ 31"
  shows "gmtime (tm_secs t) = Some (t\<lparr>tm_wday := (4 + tm_secs t div SECS_PER_DAY) mod 7,
    tm_yday := sum_list (take (nat (tm_mon t)) (month_days (tm_year t + 1900))) + tm_mday t\<rparr>)"
proof -
  let ?dpm = "month_days (tm_year t + 1900)" and ?m = "nat (tm_mon t)" and ?n = "nat (tm_year t - 70)"
  let ?s = "tm_hour t * SECS_PER_HOUR + tm_min t * SECS_PER_MIN + tm_sec t"
  let ?r = "tm_mday t * SECS_PER_DAY + ?s" and ?S = "sum_list (take ?m ?dpm)"
  note ok = assms(1) [unfolded tm_ok_def] and okD = tm_okD [OF assms(1)]
  have secs: "tm_secs t = years ?n 1970 + (?S * SECS_PER_DAY + ?r)"
    by (simp add: tm_secs_def day_secs_def algebra_simps)
  have y: "1970 + int ?n = tm_year t + 1900" using ok by simp
  have Y: "0 \<le> years ?n 1970" using years_nonneg [of ?n 1970] by linarith
  have "(?S + tm_mday t + 1) * SECS_PER_DAY \<le> year_secs (tm_year t + 1900)"
    using okD(4) month_days_sum [of "tm_year t + 1900"] by (metis mult_right_mono zero_le_numeral)
  then have gy: "gm_year (tm_secs t) 1970 = Some (?S * SECS_PER_DAY + ?r, tm_year t + 1900)"
    using gm_year_result [of "?S * SECS_PER_DAY + ?r" 1970 ?n] okD(1-3) ok assms(2)
    by (simp add: secs y algebra_simps)
  have gm: "gm_month ?dpm (?S * SECS_PER_DAY + ?r) 0 = Some (?r, ?m)"
  proof -
    have "(tm_mday t + 1) * SECS_PER_DAY \<le> ?dpm ! ?m * SECS_PER_DAY" using ok by simp
    then have "?r < ?dpm ! ?m * SECS_PER_DAY" using okD(2) by (simp add: algebra_simps)
    with gm_month_result [of ?r 0 ?m ?dpm] okD(1) ok assms(2) Y secs month_days_bounds [of _ "tm_year t + 1900"] show ?thesis
      by force
  qed
  obtain D where "years ?n 1970 = SECS_PER_DAY * D" using years_dvd by blast
  then have "tm_secs t = SECS_PER_DAY * (D + ?S + tm_mday t) + (tm_hour t * 3600 + tm_min t * 60 + tm_sec t)"
    using secs by (simp add: algebra_simps)
  note cf = clock_fields [OF this]
  have dv: "tm_secs t div SECS_PER_DAY = tm_secs t div 60 div 60 div 24" by (simp flip: zdiv_zmult2_eq)
  have r1: "?r div SECS_PER_DAY = tm_mday t" by (rule day_div [OF okD(1,2)])
  have r2: "(?S * SECS_PER_DAY + ?r) div SECS_PER_DAY = ?S + tm_mday t"
    unfolding add.assoc [symmetric] distrib_right [symmetric] using day_div [OF okD(1,2)] by (simp only: add.assoc)
  have "gmtime (tm_secs t) = Some \<lparr>tm_sec = tm_sec t, tm_min = tm_min t, tm_hour = tm_hour t, tm_mday = tm_mday t,
      tm_mon = int ?m, tm_year = tm_year t + 1900 - 1900, tm_wday = (4 + tm_secs t div SECS_PER_DAY) mod 7, tm_yday = ?S + tm_mday t\<rparr>"
    using ok by (simp only: gmtime_def Let_def gy gm bind.bind_lunit prod.case cf(1-3) r1 r2 dv)
  then show ?thesis using ok by simp
qed

lemma tm_secs_bounds:
  assumes "tm_ok t"
  shows "0 \<le> tm_secs t" "tm_secs t < years (Suc (nat (tm_year t - 70))) 1970"
proof -
  let ?n = "nat (tm_year t - 70)" and ?S = "sum_list (take (nat (tm_mon t)) (month_days (tm_year t + 1900)))"
  note okD = tm_okD [OF assms]
  have y: "1970 + int ?n = tm_year t + 1900" "0 \<le> tm_mday t" using assms by (simp_all add: tm_ok_def)
  have "(?S + tm_mday t + 1) * SECS_PER_DAY \<le> year_secs (tm_year t + 1900)"
    using okD(4) month_days_sum [of "tm_year t + 1900"] by (metis mult_right_mono zero_le_numeral)
  then show "tm_secs t < years (Suc (nat (tm_year t - 70))) 1970"
    using okD(2) unfolding years_Suc y(1) tm_secs_def day_secs_def by (simp add: algebra_simps)
  show "0 \<le> tm_secs t"
    using okD(1,3) years_mono [of 0 ?n 1970] y(2) unfolding tm_secs_def day_secs_def by (simp add: algebra_simps)
qed

lemma years_2038: "years 68 1970 = 2145916800"
  by (simp add: numeral_eq_Suc year_secs_def IS_LEAP_YEAR_def)

lemma clock_sum: "(x :: int) = x div 60 div 60 * 3600 + x div 60 mod 60 * 60 + x mod 60"
  using div_mult_mod_eq [of x 60] div_mult_mod_eq [of "x div 60" 60] by linarith

lemma day_clock:
  fixes q :: int
  assumes "0 \<le> q" "q < k * SECS_PER_DAY"
  shows "\<exists>d h mi s. q = d * SECS_PER_DAY + h * 3600 + mi * 60 + s \<and> 0 \<le> d \<and> d < k \<and> 0 \<le> h \<and> h < 24 \<and>
    0 \<le> mi \<and> mi < 60 \<and> 0 \<le> s \<and> s < 60"
proof -
  define x where "x = q mod SECS_PER_DAY"
  have x: "0 \<le> x" "x < SECS_PER_DAY" "q = q div SECS_PER_DAY * SECS_PER_DAY + x" by (simp_all add: x_def)
  have h: "x div 60 div 60 < 24" "0 \<le> x div 60 div 60"
    using clock_sum [of x] x(1,2) pos_mod_sign [of 60 x] pos_mod_bound [of 60 x]
      pos_mod_sign [of 60 "x div 60"] pos_mod_bound [of 60 "x div 60"] by linarith+
  have d: "q div SECS_PER_DAY < k" "0 \<le> q div SECS_PER_DAY" using assms x by linarith+
  have "q = q div SECS_PER_DAY * SECS_PER_DAY + x div 60 div 60 * 3600 + x div 60 mod 60 * 60 + x mod 60"
    using clock_sum [of x] x(3) by linarith
  with h d show ?thesis by (metis pos_mod_bound pos_mod_sign zero_less_numeral)
qed

lemma date_exists:
  assumes "0 \<le> ts" "ts < 2 ^ 31"
  shows "\<exists>t. tm_ok t \<and> tm_secs t = ts \<and> tm_year t < 2 ^ 29"
proof -
  from gm_year_exists [OF assms(1), of 1970] obtain n r where n: "ts = years n 1970 + r" "0 \<le> r" "r < year_secs (1970 + int n)"
    by blast
  let ?ds = "month_days (1970 + int n)"
  from month_exists [OF n(2), of ?ds] n(3) obtain m q where m: "m < 12" "r = sum_list (take m ?ds) * SECS_PER_DAY + q"
    "0 \<le> q" "q < ?ds ! m * SECS_PER_DAY" by (auto simp: month_days_sum)
  from day_clock [OF m(3,4)] obtain d h mi sc where c: "q = d * SECS_PER_DAY + h * 3600 + mi * 60 + sc"
    "0 \<le> d" "d < ?ds ! m" "0 \<le> h" "h < 24" "0 \<le> mi" "mi < 60" "0 \<le> sc" "sc < 60" by blast
  let ?t = "\<lparr>tm_sec = sc, tm_min = mi, tm_hour = h, tm_mday = d, tm_mon = int m, tm_year = 70 + int n, tm_wday = 0, tm_yday = 0\<rparr>"
  have "tm_ok ?t" using m(1) c(2-) by (simp add: tm_ok_def add.commute)
  moreover have "tm_secs ?t = ts" unfolding tm_secs_def day_secs_def n(1) m(2) c(1) by (simp add: algebra_simps)
  moreover have "int n * SECS_PER_YEAR < 2 ^ 31" using years_nonneg [of n 1970] n(1,2) assms(2) by linarith
  ultimately show ?thesis by (intro exI [of _ ?t]) simp
qed

section \<open>Properties\<close>

text \<open>for every time before 2038, \<open>gmtime\<close> returns a date whose fields are in range, and \<open>mktime\<close> of this
  date is the time again.\<close>

theorem mktime_gmtime:
  assumes "0 \<le> ts" "ts < 2 ^ 31"
  shows "\<exists>t. gmtime ts = Some t \<and> tm_ok t \<and> mktime t = Some ts"
proof -
  from date_exists [OF assms] obtain t where t: "tm_ok t" "tm_secs t = ts" "tm_year t < 2 ^ 29" by blast
  let ?t = "t\<lparr>tm_wday := (4 + ts div SECS_PER_DAY) mod 7,
    tm_yday := sum_list (take (nat (tm_mon t)) (month_days (tm_year t + 1900))) + tm_mday t\<rparr>"
  have "gmtime ts = Some ?t" using gmtime_secs [OF t(1)] t(2) assms(2) by simp
  moreover have "tm_ok ?t" "tm_secs ?t = ts" "tm_year ?t < 2 ^ 29"
    using t by (simp_all add: tm_ok_def tm_secs_def day_secs_def)
  ultimately show ?thesis using mktime_secs [of ?t] assms uint32_id [of ts] by (intro exI [of _ ?t]) simp
qed

theorem mktime_gmtime_witness: "\<exists>t. gmtime 1700000000 = Some t \<and> mktime t = Some 1700000000"
  using mktime_gmtime [of 1700000000] by auto

text \<open>conversely, for every date from 1970 to 2037 with fields in range, \<open>gmtime\<close> of the time that
  \<open>mktime\<close> computes gives back the date; it also fills in the weekday and the day of the year.\<close>

theorem gmtime_mktime:
  assumes "tm_ok t" "tm_year t < 138"
  shows "\<exists>ts. mktime t = Some ts \<and> gmtime ts = Some (t\<lparr>tm_wday := (4 + ts div SECS_PER_DAY) mod 7,
    tm_yday := sum_list (take (nat (tm_mon t)) (month_days (tm_year t + 1900))) + tm_mday t\<rparr>)"
proof -
  have "years (Suc (nat (tm_year t - 70))) 1970 \<le> years 68 1970" by (rule years_mono) (use assms in \<open>simp add: tm_ok_def\<close>)
  then have b: "tm_secs t < 2 ^ 31" using tm_secs_bounds(2) [OF assms(1)] years_2038 by simp
  have "mktime t = Some (tm_secs t)"
    using mktime_secs [OF assms(1)] assms(2) uint32_id tm_secs_bounds(1) [OF assms(1)] b by simp
  with gmtime_secs [OF assms(1) b] show ?thesis by simp
qed

theorem gmtime_mktime_witness:
  "\<exists>ts t. mktime \<lparr>tm_sec = 1, tm_min = 2, tm_hour = 3, tm_mday = 28, tm_mon = 1, tm_year = 124, tm_wday = 0, tm_yday = 0\<rparr> = Some ts \<and>
     gmtime ts = Some t \<and> tm_yday t = 59"
proof -
  let ?t = "\<lparr>tm_sec = 1, tm_min = 2, tm_hour = 3, tm_mday = 28, tm_mon = 1, tm_year = 124, tm_wday = 0, tm_yday = 0\<rparr>"
  have "tm_ok ?t" by (simp add: tm_ok_def month_days_def daysPerMonth_def IS_LEAP_YEAR_def)
  from gmtime_mktime [OF this] show ?thesis by (auto simp: month_days_def daysPerMonth_def IS_LEAP_YEAR_def)
qed

text \<open>\<open>nextSecs\<close> is signed: from 2039 on the first test already ends the loop over the years.\<close>

lemma gmtime_2039: "map_option tm_year (gmtime (2 ^ 31 + SECS_PER_YEAR)) = Some 70 \<and>
    map_option tm_mday (gmtime (2 ^ 31 + SECS_PER_YEAR)) = Some 25220"
  by (simp add: gmtime_def gm_year.simps gm_month.simps Let_def int32_def year_secs_def IS_LEAP_YEAR_def month_days_def daysPerMonth_def)

end
