(* ===== verification/FreeMap.thy ===== *)
theory FreeMap
  imports Prelude
begin

text \<open>
  The map of free virtual addresses of a process, \<open>kernel/src/mem/vmfreemap.cc\<close>. The list of areas,
  which only the map points to, is a HOL list in list order. Whether \<open>Cache::alloc\<close> has memory for
  a new node is the argument \<open>memok\<close>. Addresses and sizes are 32-bit numbers with their
  wrap-around. Each operation is shown to implement an operation on the set of free addresses.
\<close>

section \<open>Definitions\<close>

record Area =
  vaddr :: nat
  vsize :: nat

type_synonym VMFreeMap = "Area list"

abbreviation area_end :: "Area \<Rightarrow> nat" where
  "area_end a \<equiv> uadd (vaddr a) (vsize a)"

definition vmfm_init :: "bool \<Rightarrow> nat \<Rightarrow> nat \<Rightarrow> VMFreeMap option" where
  "vmfm_init memok addr sz = (if memok then Some [\<lparr>vaddr = addr, vsize = sz\<rparr>] else None)"

definition vmfm_destroy :: "VMFreeMap \<Rightarrow> VMFreeMap" where
  "vmfm_destroy as = []"

text \<open>The loop of \<open>allocate\<close> with the part behind it.\<close>

fun vmfm_take :: "VMFreeMap \<Rightarrow> nat \<Rightarrow> nat \<times> VMFreeMap" where
  "vmfm_take [] sz = (0, [])"
| "vmfm_take (a # as) sz =
     (if vsize a \<ge> sz then
        let a' = \<lparr>vaddr = uadd (vaddr a) sz, vsize = usub (vsize a) sz\<rparr> in
        (vaddr a, if vsize a' = 0 then as else a' # as)
      else case vmfm_take as sz of (r, as') \<Rightarrow> (r, a # as'))"

definition vmfm_allocate :: "VMFreeMap \<Rightarrow> nat \<Rightarrow> (nat \<times> VMFreeMap) option" where
  "vmfm_allocate as sz = do { vassert (sz mod 0x1000 = 0); Some (vmfm_take as sz) }"

text \<open>The areas before \<open>a\<close> are \<open>ps\<close>; \<open>a\<close> is the first of the others.\<close>

definition vmfm_allocateAt :: "bool \<Rightarrow> VMFreeMap \<Rightarrow> nat \<Rightarrow> nat \<Rightarrow> bool \<times> VMFreeMap" where
  "vmfm_allocateAt memok as addr sz = (
     let ps = takeWhile (\<lambda>a. addr > area_end a) as in
     case dropWhile (\<lambda>a. addr > area_end a) as of
       [] \<Rightarrow> (False, as)
     | a # ns \<Rightarrow>
       if uadd addr sz > area_end a \<or> (ps = [] \<and> addr < vaddr a) then (False, as)
       else if addr = vaddr a \<and> sz = vsize a then (True, ps @ ns)
       else if addr = vaddr a then
         (True, ps @ \<lparr>vaddr = uadd (vaddr a) sz, vsize = usub (vsize a) sz\<rparr> # ns)
       else if uadd addr sz = area_end a then (True, ps @ a\<lparr>vsize := usub (vsize a) sz\<rparr> # ns)
       else if \<not> memok then (False, as)
       else let na = \<lparr>vaddr = vaddr a, vsize = usub addr (vaddr a)\<rparr> in
         (True, ps @ na # \<lparr>vaddr = uadd addr sz, vsize = usub (vsize a) (uadd (vsize na) sz)\<rparr> # ns))"

text \<open>The areas up to \<open>p\<close> are \<open>ps\<close>, those from \<open>n\<close> on are \<open>ns\<close>.\<close>

definition vmfm_free :: "bool \<Rightarrow> VMFreeMap \<Rightarrow> nat \<Rightarrow> nat \<Rightarrow> VMFreeMap option" where
  "vmfm_free memok as addr sz = do {
     vassert (sz mod 0x1000 = 0);
     let ps = takeWhile (\<lambda>n. addr > vaddr n) as;
     let ns = dropWhile (\<lambda>n. addr > vaddr n) as;
     let p = last ps;
     let n = hd ns;
     Some (
       if ps \<noteq> [] \<and> area_end p = addr \<and> ns \<noteq> [] \<and> uadd addr sz = vaddr n then
         butlast ps @ p\<lparr>vsize := uadd (vsize p) (uadd sz (vsize n))\<rparr> # tl ns
       else if ps \<noteq> [] \<and> area_end p = addr then
         butlast ps @ p\<lparr>vsize := uadd (vsize p) sz\<rparr> # ns
       else if ns \<noteq> [] \<and> uadd addr sz = vaddr n then
         ps @ \<lparr>vaddr = usub (vaddr n) sz, vsize = uadd (vsize n) sz\<rparr> # tl ns
       else if \<not> memok then as
       else ps @ \<lparr>vaddr = addr, vsize = sz\<rparr> # ns) }"

fun vmfm_getSize :: "VMFreeMap \<Rightarrow> nat \<times> nat" where
  "vmfm_getSize [] = (0, 0)"
| "vmfm_getSize (a # as) = (case vmfm_getSize as of (t, areas) \<Rightarrow> (uadd (vsize a) t, areas + 1))"

section \<open>The set of free addresses\<close>

text \<open>Areas from \<open>lo\<close> on, in order, not empty and not adjacent.\<close>

fun fm_ok :: "nat \<Rightarrow> VMFreeMap \<Rightarrow> bool" where
  "fm_ok lo [] = True"
| "fm_ok lo (a # as) =
     (lo \<le> vaddr a \<and> 0 < vsize a \<and> vaddr a + vsize a < 2 ^ 32 \<and> fm_ok (vaddr a + vsize a + 1) as)"

definition arng :: "Area \<Rightarrow> nat set" where
  "arng a = {vaddr a ..< vaddr a + vsize a}"

fun free_set :: "VMFreeMap \<Rightarrow> nat set" where
  "free_set [] = {}"
| "free_set (a # as) = arng a \<union> free_set as"

lemma free_set_append [simp]: "free_set (xs @ ys) = free_set xs \<union> free_set ys"
  by (induction xs) auto

lemma fm_ok_mono: "fm_ok lo as \<Longrightarrow> lo' \<le> lo \<Longrightarrow> fm_ok lo' as"
  by (cases as) auto

lemma fm_ok_bounds: "fm_ok lo as \<Longrightarrow> x \<in> free_set as \<Longrightarrow> lo \<le> x \<and> x < 2 ^ 32"
proof (induction as arbitrary: lo)
  case (Cons a as)
  then show ?case by (fastforce simp: arng_def)
qed simp

text \<open>The end of the last area, or \<open>lo\<close> when there is none.\<close>

fun fm_hi :: "nat \<Rightarrow> VMFreeMap \<Rightarrow> nat" where
  "fm_hi lo [] = lo"
| "fm_hi lo (a # as) = fm_hi (vaddr a + vsize a + 1) as"

lemma fm_ok_append: "fm_ok lo (xs @ ys) \<longleftrightarrow> fm_ok lo xs \<and> fm_ok (fm_hi lo xs) ys"
  by (induction xs arbitrary: lo) auto

lemma fm_hi_append [simp]: "fm_hi lo (xs @ ys) = fm_hi (fm_hi lo xs) ys"
  by (induction xs arbitrary: lo) auto

lemma fm_hi_ge: "fm_ok lo xs \<Longrightarrow> lo \<le> fm_hi lo xs"
proof (induction xs arbitrary: lo)
  case (Cons a xs)
  then have "fm_ok (vaddr a + vsize a + 1) xs" by simp
  from Cons.IH [OF this] Cons.prems show ?case by simp
qed simp

lemma fm_hi_bound: "fm_ok lo xs \<Longrightarrow> x \<in> free_set xs \<Longrightarrow> x + 1 < fm_hi lo xs"
proof (induction xs arbitrary: lo)
  case (Cons a xs)
  then show ?case using fm_hi_ge [of "vaddr a + vsize a + 1" xs] by (fastforce simp: arng_def)
qed simp

text \<open>Two well-formed maps with the same free addresses are the same map.\<close>

lemma fm_ok_unique: "fm_ok lo xs \<Longrightarrow> fm_ok lo ys \<Longrightarrow> free_set xs = free_set ys \<Longrightarrow> xs = ys"
proof (induction xs arbitrary: ys lo)
  case Nil
  then show ?case by (cases ys) (auto simp: arng_def)
next
  case (Cons a xs)
  then have "vaddr a \<in> free_set ys" by (auto simp: arng_def)
  then obtain b ys' where ys: "ys = b # ys'" by (cases ys) auto
  let ?e = "\<lambda>a. vaddr a + vsize a"
  note ok = Cons.prems(1,2) [unfolded ys] and eq = Cons.prems(3) [unfolded ys]
  have hx: "fm_ok (?e a + 1) xs" "fm_ok (?e b + 1) ys'" "0 < vsize a" "0 < vsize b" using ok by auto
  have X: "x \<in> free_set xs \<Longrightarrow> ?e a < x" "x \<in> free_set ys' \<Longrightarrow> ?e b < x" for x
    using fm_ok_bounds [OF hx(1), of x] fm_ok_bounds [OF hx(2), of x] by auto
  have mem: "x \<in> arng a \<union> free_set xs \<longleftrightarrow> x \<in> arng b \<union> free_set ys'" for x using eq by auto
  have ad: "vaddr a = vaddr b"
    using mem [of "vaddr a"] mem [of "vaddr b"] hx(3,4) X(1) [of "vaddr b"] X(2) [of "vaddr a"] by (auto simp: arng_def)
  have "?e a = ?e b"
    using mem [of "?e a"] mem [of "?e b"] hx(3,4) ad X(1) [of "?e a"] X(2) [of "?e a"] X(1) [of "?e b"] X(2) [of "?e b"]
    by (auto simp: arng_def)
  with ad have ab: "a = b" by (cases a; cases b) simp
  have "free_set xs = free_set ys'"
  proof (intro set_eqI)
    fix x show "x \<in> free_set xs \<longleftrightarrow> x \<in> free_set ys'" using mem [of x] X [of x] ab by (auto simp: arng_def)
  qed
  with Cons.IH [OF hx(1)] hx(2) ab ys show ?case by simp
qed

section \<open>Operations\<close>

lemma vmfm_take_ok:
  assumes "fm_ok lo as" "0 < sz"
  shows "case vmfm_take as sz of (r, as') \<Rightarrow>
    (if \<exists>a \<in> set as. sz \<le> vsize a
     then {r ..< r + sz} \<subseteq> free_set as \<and> free_set as' = free_set as - {r ..< r + sz} \<and> fm_ok lo as' \<and> lo \<le> r
     else r = 0 \<and> as' = as)"
  using assms
proof (induction as arbitrary: lo)
  case (Cons a as)
  obtain r as' where t: "vmfm_take as sz = (r, as')" by (cases "vmfm_take as sz")
  have ok: "fm_ok (vaddr a + vsize a + 1) as" using Cons.prems by simp
  have hi: "x \<in> free_set as \<Longrightarrow> vaddr a + vsize a < x" for x using fm_ok_bounds [OF ok] by fastforce
  show ?case
  proof (cases "sz \<le> vsize a")
    case True
    then have u: "uadd (vaddr a) sz = vaddr a + sz" "usub (vsize a) sz = vsize a - sz"
      using Cons.prems by (simp_all add: uadd_small usub_small)
    have "fm_ok lo (if vsize a = sz then as else \<lparr>vaddr = vaddr a + sz, vsize = vsize a - sz\<rparr> # as)"
      using Cons.prems True ok fm_ok_mono [OF ok, of lo] by (simp add: Let_def)
    moreover have "free_set (if vsize a = sz then as else \<lparr>vaddr = vaddr a + sz, vsize = vsize a - sz\<rparr> # as) =
        free_set (a # as) - {vaddr a ..< vaddr a + sz}"
    proof (intro set_eqI)
      fix x
      show "x \<in> free_set (if vsize a = sz then as else \<lparr>vaddr = vaddr a + sz, vsize = vsize a - sz\<rparr> # as) \<longleftrightarrow>
          x \<in> free_set (a # as) - {vaddr a ..< vaddr a + sz}"
        using True hi [of x] by (cases "x \<in> free_set as") (auto simp: arng_def)
    qed
    moreover have "vmfm_take (a # as) sz =
        (vaddr a, if vsize a = sz then as else \<lparr>vaddr = vaddr a + sz, vsize = vsize a - sz\<rparr> # as)"
      using True u by (simp add: Let_def)
    moreover have "{vaddr a ..< vaddr a + sz} \<subseteq> free_set (a # as)" using True by (auto simp: arng_def)
    moreover have "\<exists>b \<in> set (a # as). sz \<le> vsize b" "lo \<le> vaddr a" using True Cons.prems(1) by auto
    ultimately show ?thesis by (simp only: prod.case if_True simp_thms)
  next
    case False
    note IH = Cons.IH [OF ok Cons.prems(2), unfolded t, simplified]
    show ?thesis
    proof (cases "\<exists>a \<in> set as. sz \<le> vsize a")
      case True
      with IH have "{r ..< r + sz} \<subseteq> free_set as" "free_set as' = free_set as - {r ..< r + sz}"
        "fm_ok (vaddr a + vsize a + 1) as'" "vaddr a + vsize a + 1 \<le> r" by auto
      with True False t Cons.prems show ?thesis by (auto simp: arng_def)
    next
      case no: False
      with False t IH show ?thesis by auto
    qed
  qed
qed simp

text \<open>The first area that does not end before \<open>addr\<close>.\<close>

lemma fm_split:
  assumes "fm_ok lo as"
  shows "takeWhile (\<lambda>a. addr > area_end a) as = takeWhile (\<lambda>a. addr > vaddr a + vsize a) as"
    "dropWhile (\<lambda>a. addr > area_end a) as = dropWhile (\<lambda>a. addr > vaddr a + vsize a) as"
  using assms by (induction as arbitrary: lo) (auto simp: uadd_small)

lemma fm_find:
  assumes "fm_ok lo as" "addr \<in> free_set as"
  shows "\<exists>ps a ns. as = ps @ a # ns \<and> takeWhile (\<lambda>a. addr > area_end a) as = ps \<and>
    dropWhile (\<lambda>a. addr > area_end a) as = a # ns \<and> addr \<in> arng a"
  using assms
proof (induction as arbitrary: lo)
  case (Cons a as)
  have ok: "fm_ok (vaddr a + vsize a + 1) as" using Cons.prems by simp
  have e: "area_end a = vaddr a + vsize a" using Cons.prems by (simp add: uadd_small)
  show ?case
  proof (cases "addr \<in> arng a")
    case True
    then show ?thesis using e by (intro exI [of _ "[]"] exI [of _ a] exI [of _ as]) (auto simp: arng_def)
  next
    case False
    with Cons.prems have f: "addr \<in> free_set as" by simp
    from Cons.IH [OF ok f] obtain ps b ns where "as = ps @ b # ns" "takeWhile (\<lambda>a. addr > area_end a) as = ps"
      "dropWhile (\<lambda>a. addr > area_end a) as = b # ns" "addr \<in> arng b" by blast
    moreover have "vaddr a + vsize a < addr" using fm_ok_bounds [OF ok f] by simp
    ultimately show ?thesis using e by (intro exI [of _ "a # ps"] exI [of _ b] exI [of _ ns]) simp
  qed
qed simp


text \<open>Only the addresses of the area in the middle matter.\<close>

lemma free_set_cut:
  assumes "\<And>x. x \<in> free_set ps \<Longrightarrow> x + 1 < vaddr a" "\<And>x. x \<in> free_set ns \<Longrightarrow> vaddr a + vsize a < x"
    and "free_set mid = {vaddr a ..< vaddr a + vsize a} - R" "R \<subseteq> {vaddr a ..< vaddr a + vsize a}"
  shows "free_set (ps @ mid @ ns) = free_set (ps @ a # ns) - R"
proof -
  have "free_set ps \<inter> R = {}" "free_set ns \<inter> R = {}" using assms(1,2,4) by fastforce+
  then show ?thesis using assms(3) by (auto simp: arng_def)
qed

lemma vmfm_allocateAt_ok:
  assumes ok: "fm_ok lo as" and f: "addr \<in> free_set as" and sz: "0 < sz" "addr + sz < 2 ^ 32"
  shows "case vmfm_allocateAt True as addr sz of (res, as') \<Rightarrow>
    (if {addr ..< addr + sz} \<subseteq> free_set as
     then res \<and> fm_ok lo as' \<and> free_set as' = free_set as - {addr ..< addr + sz}
     else \<not> res \<and> as' = as)"
proof -
  from fm_find [OF ok f] obtain ps a ns where s: "as = ps @ a # ns" "takeWhile (\<lambda>a. addr > area_end a) as = ps"
    "dropWhile (\<lambda>a. addr > area_end a) as = a # ns" "addr \<in> arng a" by blast
  let ?e = "vaddr a + vsize a"
  have w: "fm_ok lo ps" "fm_hi lo ps \<le> vaddr a" "?e < 2 ^ 32" "fm_ok (?e + 1) ns"
    using ok by (simp_all add: s(1) fm_ok_append)
  have e: "area_end a = ?e" "uadd addr sz = addr + sz" "vaddr a \<le> addr" "addr < ?e"
    using w(3) sz s(4) by (simp_all add: uadd_small arng_def)
  have lo: "x \<in> free_set ps \<Longrightarrow> x + 1 < vaddr a" for x using fm_hi_bound [OF w(1), of x] w(2) by simp
  have hi: "x \<in> free_set ns \<Longrightarrow> ?e < x" for x using fm_ok_bounds [OF w(4), of x] by simp
  have fit: "{addr ..< addr + sz} \<subseteq> free_set as \<longleftrightarrow> addr + sz \<le> ?e"
  proof
    assume sub: "{addr ..< addr + sz} \<subseteq> free_set as"
    show "addr + sz \<le> ?e"
    proof (rule ccontr)
      assume "\<not> addr + sz \<le> ?e"
      then have "?e \<in> free_set as" using sub e(3,4) by auto
      then show False using lo [of ?e] hi [of ?e] s(1) by (auto simp: arng_def)
    qed
  qed (use s(1) e in \<open>auto simp: arng_def\<close>)
  show ?thesis
  proof (cases "addr + sz \<le> ?e")
    case False
    then have "vmfm_allocateAt True as addr sz = (False, as)" using s(2,3) e by (simp add: vmfm_allocateAt_def)
    with False fit show ?thesis by simp
  next
    case True
    have ua: "uadd (vaddr a) sz = vaddr a + sz" if "addr = vaddr a" using e(2) that by simp
    have us: "usub (vsize a) sz = vsize a - sz" using True e(3) w(3) by (intro usub_small) simp_all
    have un: "usub addr (vaddr a) = addr - vaddr a" using e(3) sz(2) by (intro usub_small) simp_all
    have um: "usub (vsize a) (uadd (addr - vaddr a) sz) = ?e - (addr + sz)"
      using True e(3) sz(2) w(3) by (simp add: uadd_small usub_small)
    let ?r = "vmfm_allocateAt True as addr sz"
    have "fst ?r \<and> fm_ok lo (snd ?r) \<and> free_set (snd ?r) = free_set as - {addr ..< addr + sz}"
    proof (cases "addr = vaddr a")
      case front: True
      show ?thesis
      proof (cases "sz = vsize a")
        case True
        with front have "?r = (True, ps @ ns)" using s(2,3) e by (simp add: vmfm_allocateAt_def)
        moreover have "fm_ok lo (ps @ ns)" using w fm_ok_mono [OF w(4), of "fm_hi lo ps"] by (simp add: fm_ok_append)
        moreover have "free_set (ps @ [] @ ns) = free_set as - {addr ..< addr + sz}"
          unfolding s(1) by (rule free_set_cut [OF lo hi]) (use True front in \<open>auto simp: arng_def\<close>)
        ultimately show ?thesis by simp
      next
        case False
        let ?b = "\<lparr>vaddr = vaddr a + sz, vsize = vsize a - sz\<rparr>"
        have lt: "sz < vsize a" using False True front by simp
        have "?r = (True, ps @ ?b # ns)" using False front s(2,3) e ua us True by (simp add: vmfm_allocateAt_def)
        moreover have "fm_ok lo (ps @ ?b # ns)" using w lt by (simp add: fm_ok_append)
        moreover have "free_set (ps @ [?b] @ ns) = free_set as - {addr ..< addr + sz}"
          unfolding s(1) by (rule free_set_cut [OF lo hi]) (use lt front in \<open>auto simp: arng_def\<close>)
        ultimately show ?thesis by simp
      qed
    next
      case nf: False
      then have gt: "vaddr a < addr" using e(3) by simp
      show ?thesis
      proof (cases "addr + sz = ?e")
        case bk: True
        let ?b = "a\<lparr>vsize := vsize a - sz\<rparr>"
        have lt: "sz < vsize a" "vaddr a + (vsize a - sz) = addr" using bk gt by simp_all
        have "?r = (True, ps @ ?b # ns)" using nf bk gt s(2,3) e us by (simp add: vmfm_allocateAt_def)
        moreover have "fm_ok lo (ps @ ?b # ns)" using w lt fm_ok_mono [OF w(4), of "addr + 1"] e(4) by (simp add: fm_ok_append)
        moreover have "free_set (ps @ [?b] @ ns) = free_set as - {addr ..< addr + sz}"
          unfolding s(1) by (rule free_set_cut [OF lo hi]) (use lt bk gt in \<open>auto simp: arng_def\<close>)
        ultimately show ?thesis by simp
      next
        case False
        let ?b = "\<lparr>vaddr = vaddr a, vsize = addr - vaddr a\<rparr>" and ?c = "\<lparr>vaddr = addr + sz, vsize = ?e - (addr + sz)\<rparr>"
        have lt: "addr + sz < ?e" using False True by simp
        have "?r = (True, ps @ ?b # ?c # ns)" using nf False gt s(2,3) e un um True by (simp add: vmfm_allocateAt_def Let_def)
        moreover have "fm_ok lo (ps @ ?b # ?c # ns)" using w lt gt sz by (simp add: fm_ok_append)
        moreover have "free_set (ps @ [?b, ?c] @ ns) = free_set as - {addr ..< addr + sz}"
          unfolding s(1) by (rule free_set_cut [OF lo hi]) (use lt gt in \<open>auto simp: arng_def\<close>)
        ultimately show ?thesis by simp
      qed
    qed
    with True fit show ?thesis by (auto split: prod.splits)
  qed
qed


lemma fm_gap:
  assumes ok: "fm_ok lo as" and d: "{addr ..< addr + sz} \<inter> free_set as = {}" "0 < sz" "lo \<le> addr"
  obtains ps ns where "as = ps @ ns" "takeWhile (\<lambda>n. addr > vaddr n) as = ps" "dropWhile (\<lambda>n. addr > vaddr n) as = ns"
    "fm_ok lo ps" "fm_ok (fm_hi lo ps) ns" "fm_hi lo ps \<le> addr + 1" "ns \<noteq> [] \<Longrightarrow> addr + sz \<le> vaddr (hd ns)"
proof -
  let ?ps = "takeWhile (\<lambda>n. addr > vaddr n) as" and ?ns = "dropWhile (\<lambda>n. addr > vaddr n) as"
  have as: "as = ?ps @ ?ns" by simp
  have o1: "fm_ok lo ?ps" "fm_ok (fm_hi lo ?ps) ?ns" using ok fm_ok_append [of lo ?ps ?ns] by simp_all
  have "fm_hi lo ?ps \<le> addr + 1"
  proof (cases ?ps rule: rev_cases)
    case Nil
    with d(3) show ?thesis by simp
  next
    case (snoc qs p)
    have "p \<in> set ?ps" using snoc by simp
    then have "vaddr p < addr" using set_takeWhileD by fastforce
    moreover have "addr \<notin> free_set ?ps" using d(1,2) as by (metis IntI Un_iff atLeastLessThan_iff empty_iff free_set_append le_refl less_add_same_cancel1)
    then have "addr \<notin> arng p" using snoc by simp
    ultimately show ?thesis using snoc by (simp add: arng_def)
  qed
  moreover have "addr + sz \<le> vaddr (hd ?ns)" if ne: "?ns \<noteq> []"
  proof (rule ccontr)
    assume c: "\<not> ?thesis"
    have "\<not> addr > vaddr (hd ?ns)" using ne hd_dropWhile by blast
    moreover obtain n ns' where n: "?ns = n # ns'" using ne by (cases ?ns) auto
    then have "0 < vsize n" using o1(2) by simp
    ultimately have "vaddr n \<in> {addr ..< addr + sz}" "vaddr n \<in> free_set ?ns" using c n by (auto simp: arng_def)
    then show False using d(1) as by (metis IntI Un_iff empty_iff free_set_append)
  qed
  ultimately show ?thesis using that [of ?ps ?ns] as o1 by blast
qed

lemma vmfm_free_ok:
  assumes ok: "fm_ok lo as" and d: "{addr ..< addr + sz} \<inter> free_set as = {}" "0 < sz" "lo \<le> addr" "addr + sz < 2 ^ 32"
    and pg: "sz mod 0x1000 = 0"
  shows "\<exists>as'. vmfm_free True as addr sz = Some as' \<and> fm_ok lo as' \<and> free_set as' = free_set as \<union> {addr ..< addr + sz}"
proof -
  from fm_gap [OF ok d(1-3)] obtain ps ns where s: "as = ps @ ns" "takeWhile (\<lambda>n. addr > vaddr n) as = ps"
    "dropWhile (\<lambda>n. addr > vaddr n) as = ns" "fm_ok lo ps" "fm_ok (fm_hi lo ps) ns" "fm_hi lo ps \<le> addr + 1"
    "ns \<noteq> [] \<Longrightarrow> addr + sz \<le> vaddr (hd ns)" by metis
  have ua: "uadd addr sz = addr + sz" using d(4) by (simp add: uadd_small)
  have P: "area_end p = vaddr p + vsize p \<and> fm_ok lo qs \<and> fm_hi lo qs \<le> vaddr p \<and> 0 < vsize p \<and> vaddr p + vsize p \<le> addr"
    if "ps = qs @ [p]" for qs p using s(4,6) that by (simp add: fm_ok_append uadd_small)
  have N: "0 < vsize n \<and> vaddr n + vsize n < 2 ^ 32 \<and> fm_ok (vaddr n + vsize n + 1) ns' \<and> addr + sz \<le> vaddr n"
    if "ns = n # ns'" for n ns' using s(5,7) that by simp
  note df = vmfm_free_def s(2,3) ua
  show ?thesis
  proof (cases "ps \<noteq> [] \<and> area_end (last ps) = addr")
    case p: True
    then obtain qs p where ps: "ps = qs @ [p]" by (cases ps rule: rev_cases) auto
    note P' = P [OF ps]
    have pe: "vaddr p + vsize p = addr" using p P' ps by simp
    show ?thesis
    proof (cases "ns \<noteq> [] \<and> addr + sz = vaddr (hd ns)")
      case True
      then obtain n ns' where ns: "ns = n # ns'" by (cases ns) auto
      note N' = N [OF ns]
      let ?p = "p\<lparr>vsize := vsize p + (sz + vsize n)\<rparr>"
      have "uadd (vsize p) (uadd sz (vsize n)) = vsize p + (sz + vsize n)" using pe N' True ns by (simp add: uadd_small)
      then have "vmfm_free True as addr sz = Some (qs @ ?p # ns')" using p True ns ps pg by (simp add: df Let_def)
      moreover have "fm_ok lo (qs @ ?p # ns')" using P' N' pe True ns by (simp add: fm_ok_append) (metis add.assoc)
      moreover have "free_set (qs @ ?p # ns') = free_set as \<union> {addr ..< addr + sz}"
        using s(1) ps ns pe True by (auto simp: arng_def)
      ultimately show ?thesis by blast
    next
      case False
      let ?p = "p\<lparr>vsize := vsize p + sz\<rparr>"
      have "uadd (vsize p) sz = vsize p + sz" using pe d(4) by (simp add: uadd_small)
      then have "vmfm_free True as addr sz = Some (qs @ ?p # ns)" using p False ps pg by (auto simp: df Let_def)
      moreover have "fm_ok (addr + sz + 1) ns" using N s(5) False by (cases ns) (auto simp: le_less)
      then have "fm_ok lo (qs @ ?p # ns)" using P' pe d(4) by (simp add: fm_ok_append flip: add.assoc)
      moreover have "free_set (qs @ ?p # ns) = free_set as \<union> {addr ..< addr + sz}"
        using s(1) ps pe by (auto simp: arng_def)
      ultimately show ?thesis by blast
    qed
  next
    case np: False
    have hi: "fm_hi lo ps \<le> addr"
    proof (cases ps rule: rev_cases)
      case (snoc qs p)
      then show ?thesis using np P [OF snoc] by auto
    qed (use d(3) in simp)
    show ?thesis
    proof (cases "ns \<noteq> [] \<and> addr + sz = vaddr (hd ns)")
      case True
      then obtain n ns' where ns: "ns = n # ns'" by (cases ns) auto
      note N' = N [OF ns]
      let ?n = "\<lparr>vaddr = addr, vsize = vsize n + sz\<rparr>"
      have "usub (vaddr n) sz = addr" "uadd (vsize n) sz = vsize n + sz" using True ns N' by (simp_all add: usub_small uadd_small)
      then have "vmfm_free True as addr sz = Some (ps @ ?n # ns')" using np True ns pg by (auto simp: df Let_def)
      moreover have "fm_ok lo (ps @ ?n # ns')" using s(4) hi N' True ns
        by (simp add: fm_ok_append add.commute [of "vsize n"] flip: add.assoc)
      moreover have "free_set (ps @ ?n # ns') = free_set as \<union> {addr ..< addr + sz}"
        using s(1) ns True by (auto simp: arng_def)
      ultimately show ?thesis by blast
    next
      case False
      let ?n = "\<lparr>vaddr = addr, vsize = sz\<rparr>"
      have "vmfm_free True as addr sz = Some (ps @ ?n # ns)" using np False pg by (auto simp: df Let_def)
      moreover have "fm_ok (addr + sz + 1) ns" using N s(5) False by (cases ns) (auto simp: le_less)
      then have "fm_ok lo (ps @ ?n # ns)" using s(4) hi d(2,4) by (simp add: fm_ok_append)
      moreover have "free_set (ps @ ?n # ns) = free_set as \<union> {addr ..< addr + sz}"
        using s(1) by (auto simp: arng_def)
      ultimately show ?thesis by blast
    qed
  qed
qed

section \<open>Properties\<close>

text \<open>C7: \<open>VMFreeMap::allocate\<close> takes a range that is free out of the free addresses, exactly this range, and
  keeps the map well-formed; it fails, without a change, only when no free area is large enough.\<close>

theorem vmfm_allocate_contract:
  assumes "fm_ok lo as" "0 < lo" "0 < sz" "sz mod 0x1000 = 0"
  shows "\<exists>r as'. vmfm_allocate as sz = Some (r, as') \<and>
    (if \<exists>a \<in> set as. sz \<le> vsize a
     then r \<noteq> 0 \<and> {r ..< r + sz} \<subseteq> free_set as \<and> free_set as' = free_set as - {r ..< r + sz} \<and> fm_ok lo as'
     else r = 0 \<and> as' = as)"
proof -
  obtain r as' where t: "vmfm_take as sz = (r, as')" by (cases "vmfm_take as sz")
  with vmfm_take_ok [OF assms(1,3)] assms(2,4) show ?thesis by (auto simp: vmfm_allocate_def split: if_splits)
qed

theorem vmfm_allocate_contract_witness:
  "\<exists>as'. vmfm_allocate [\<lparr>vaddr = 0x1000, vsize = 0x1000\<rparr>, \<lparr>vaddr = 0x4000, vsize = 0x3000\<rparr>] 0x2000 = Some (0x4000, as') \<and>
     free_set as' = {0x1000 ..< 0x2000} \<union> {0x6000 ..< 0x7000}"
  using vmfm_allocate_contract [of 1 "[\<lparr>vaddr = 0x1000, vsize = 0x1000\<rparr>, \<lparr>vaddr = 0x4000, vsize = 0x3000\<rparr>]" "0x2000"]
  by (auto simp: vmfm_allocate_def Let_def uadd_def usub_def arng_def)

text \<open>C8: \<open>VMFreeMap::free\<close> of a range that is not free adds exactly this range, merged with its neighbours so
  that the map stays well-formed, as long as there is memory for a list node.\<close>

theorem vmfm_free_contract:
  assumes "fm_ok lo as" "{addr ..< addr + sz} \<inter> free_set as = {}" "0 < sz" "sz mod 0x1000 = 0" "lo \<le> addr" "addr + sz < 2 ^ 32"
  shows "\<exists>as'. vmfm_free True as addr sz = Some as' \<and> fm_ok lo as' \<and> free_set as' = free_set as \<union> {addr ..< addr + sz}"
  by (rule vmfm_free_ok [OF assms(1-3,5,6,4)])

theorem vmfm_free_contract_witness:
  "\<exists>as'. vmfm_free True [\<lparr>vaddr = 0x1000, vsize = 0x1000\<rparr>, \<lparr>vaddr = 0x4000, vsize = 0x3000\<rparr>] 0x2000 0x2000 = Some as' \<and>
     fm_ok 1 as' \<and> 0x2000 \<in> free_set as'"
proof -
  have "{0x2000 ..< 0x2000 + 0x2000} \<inter> free_set [\<lparr>vaddr = 0x1000, vsize = 0x1000\<rparr>, \<lparr>vaddr = 0x4000, vsize = 0x3000\<rparr>] = {}"
    by (auto simp: arng_def)
  then show ?thesis using vmfm_free_contract [of 1 "[\<lparr>vaddr = 0x1000, vsize = 0x1000\<rparr>, \<lparr>vaddr = 0x4000, vsize = 0x3000\<rparr>]" "0x2000" "0x2000"]
    by auto
qed

text \<open>what \<open>allocate\<close> took, \<open>free\<close> gives back: the map is then the same list of areas again.\<close>

theorem vmfm_allocate_free:
  assumes "fm_ok lo as" "0 < lo" "0 < sz" "vmfm_allocate as sz = Some (r, as')" "r \<noteq> 0"
  shows "vmfm_free True as' r sz = Some as"
proof -
  have t: "vmfm_take as sz = (r, as')" "sz mod 0x1000 = 0"
    using assms(4) by (auto simp: vmfm_allocate_def split: Option.bind_splits)
  with vmfm_take_ok [OF assms(1,3)] assms(5) have a: "{r ..< r + sz} \<subseteq> free_set as"
    "free_set as' = free_set as - {r ..< r + sz}" "fm_ok lo as'" "lo \<le> r" by (auto split: if_splits)
  have "r + sz - 1 \<in> free_set as" using a(1) assms(3) by auto
  then have "r + sz \<le> 2 ^ 32" using fm_ok_bounds [OF assms(1)] by fastforce
  moreover have "r + sz \<noteq> 2 ^ 32"
  proof
    assume e: "r + sz = 2 ^ 32"
    have "\<exists>a \<in> set as. 2 ^ 32 - 1 \<in> arng a" using \<open>r + sz - 1 \<in> free_set as\<close> e by (induction as) auto
    moreover have "\<forall>a \<in> set as. vaddr a + vsize a < 2 ^ 32" using assms(1) by (induction as arbitrary: lo) auto
    ultimately show False by (auto simp: arng_def)
  qed
  ultimately have "r + sz < 2 ^ 32" by simp
  moreover have "{r ..< r + sz} \<inter> free_set as' = {}" using a(2) by blast
  ultimately obtain as2 where f: "vmfm_free True as' r sz = Some as2" "fm_ok lo as2"
    "free_set as2 = free_set as' \<union> {r ..< r + sz}"
    using vmfm_free_ok [OF a(3) _ assms(3) a(4) _ t(2)] by blast
  have "free_set as2 = free_set as" using f(3) a(1,2) by blast
  with fm_ok_unique [OF f(2) assms(1)] f(1) show ?thesis by simp
qed

theorem vmfm_allocate_free_witness:
  "\<exists>r as'. vmfm_allocate [\<lparr>vaddr = 0x1000, vsize = 0x1000\<rparr>, \<lparr>vaddr = 0x4000, vsize = 0x3000\<rparr>] 0x2000 = Some (r, as') \<and>
     vmfm_free True as' r 0x2000 = Some [\<lparr>vaddr = 0x1000, vsize = 0x1000\<rparr>, \<lparr>vaddr = 0x4000, vsize = 0x3000\<rparr>]"
proof -
  let ?as = "[\<lparr>vaddr = 0x1000, vsize = 0x1000\<rparr>, \<lparr>vaddr = 0x4000, vsize = 0x3000\<rparr>]"
  have "vmfm_allocate ?as 0x2000 = Some (0x4000, [\<lparr>vaddr = 0x1000, vsize = 0x1000\<rparr>, \<lparr>vaddr = 0x6000, vsize = 0x1000\<rparr>])"
    by (simp add: vmfm_allocate_def Let_def uadd_def usub_def)
  with vmfm_allocate_free [of 1 ?as "0x2000", OF _ _ _ this] show ?thesis by auto
qed

text \<open>\<open>VMFreeMap::allocateAt\<close> with a free start address takes exactly the asked range when all of it is
  free, and otherwise fails without a change.\<close>

theorem vmfm_allocateAt_contract:
  assumes "fm_ok lo as" "addr \<in> free_set as" "0 < sz" "addr + sz < 2 ^ 32" "vmfm_allocateAt True as addr sz = (res, as')"
  shows "if {addr ..< addr + sz} \<subseteq> free_set as
     then res \<and> fm_ok lo as' \<and> free_set as' = free_set as - {addr ..< addr + sz}
     else \<not> res \<and> as' = as"
  using vmfm_allocateAt_ok [OF assms(1-4)] assms(5) by simp

theorem vmfm_allocateAt_contract_witness:
  "\<exists>as'. vmfm_allocateAt True [\<lparr>vaddr = 0x1000, vsize = 0x3000\<rparr>] 0x2000 0x1000 = (True, as') \<and> fm_ok 1 as'"
proof -
  have "vmfm_allocateAt True [\<lparr>vaddr = 0x1000, vsize = 0x3000\<rparr>] 0x2000 0x1000 =
      (True, [\<lparr>vaddr = 0x1000, vsize = 0x1000\<rparr>, \<lparr>vaddr = 0x3000, vsize = 0x1000\<rparr>])"
    by (simp add: vmfm_allocateAt_def Let_def uadd_def usub_def)
  from vmfm_allocateAt_contract [OF _ _ _ _ this, of 1] this show ?thesis by (auto simp: arng_def split: if_splits)
qed

text \<open>A start address in the gap between two areas is not rejected: the range overlaps no area, yet the call
  succeeds and leaves an area whose size has wrapped.\<close>

lemma vmfm_allocateAt_gap:
  "vmfm_allocateAt True [\<lparr>vaddr = 0x1000, vsize = 0x1000\<rparr>, \<lparr>vaddr = 0x4000, vsize = 0x2000\<rparr>] 0x3000 0x1000 =
     (True, [\<lparr>vaddr = 0x1000, vsize = 0x1000\<rparr>, \<lparr>vaddr = 0x4000, vsize = 0xFFFFF000\<rparr>, \<lparr>vaddr = 0x4000, vsize = 0x2000\<rparr>])"
  by (simp add: vmfm_allocateAt_def Let_def uadd_def usub_def)

end
