(* ===== verification/KErrno.thy ===== *)
theory KErrno
  imports Prelude
begin

text \<open>The error codes of \<open>include/errno.h\<close> the kernel components return, negated.\<close>

abbreviation EBADF :: int where "EBADF \<equiv> 2"
abbreviation EBUSY :: int where "EBUSY \<equiv> 3"
abbreviation EFAULT :: int where "EFAULT \<equiv> 6"
abbreviation EINTR :: int where "EINTR \<equiv> 7"
abbreviation EINVAL :: int where "EINVAL \<equiv> 8"
abbreviation EMFILE :: int where "EMFILE \<equiv> 10"
abbreviation ENOTSUP :: int where "ENOTSUP \<equiv> 15"
abbreviation ESPIPE :: int where "ESPIPE \<equiv> 18"
abbreviation EWOULDBLOCK :: int where "EWOULDBLOCK \<equiv> 19"
abbreviation ENOMEM :: int where "ENOMEM \<equiv> 20"
abbreviation ENFILE :: int where "ENFILE \<equiv> 28"
abbreviation EDESTROYED :: int where "EDESTROYED \<equiv> 30"

text \<open>The flags of open files, \<open>kernel/include/vfs/openfile.h\<close>.\<close>

abbreviation VFS_READ :: "16 word" where "VFS_READ \<equiv> 1"
abbreviation VFS_WRITE :: "16 word" where "VFS_WRITE \<equiv> 2"
abbreviation VFS_MSGS :: "16 word" where "VFS_MSGS \<equiv> 4"
abbreviation VFS_CREATE :: "16 word" where "VFS_CREATE \<equiv> 8"
abbreviation VFS_NOBLOCK :: "16 word" where "VFS_NOBLOCK \<equiv> 64"
abbreviation VFS_LONELY :: "16 word" where "VFS_LONELY \<equiv> 128"
abbreviation VFS_DEVICE :: "16 word" where "VFS_DEVICE \<equiv> 1024"
abbreviation VFS_BLOCK :: "16 word" where "VFS_BLOCK \<equiv> 8192"

end
