(* ===== verification/KTimer.thy ===== *)
theory KTimer
  imports KErrno
begin

text \<open>
  The timer of the kernel, \<open>kernel/src/task/timer.cc\<close>: sleeping threads in a list in which each
  listener holds the difference to the one before it. The chain of \<open>next\<close> pointers is a HOL list; of
  the free listener objects only their number matters. What happens to threads is the list of
  actions an operation returns. Times are 32-bit numbers with their wrap-around.

  The abstract timer is a list of absolute wake-up times.
\<close>

section \<open>Definitions\<close>

record Listener =
  ltid :: nat
  ltime :: nat
  lblock :: bool

record PerCPU =
  elapsedMsecs :: nat
  lastRaskhed :: nat
  timerIntrpts :: nat

record timer =
  listeners :: "Listener list"
  freeObjs :: nat
  perCPU :: "PerCPU list"
  lastRuntimeUpdate :: nat

datatype timer_act = TBlock nat | TUnblock nat | TAlarm nat | TUpdateRuntimes

abbreviation LISTENER_COUNT :: nat where "LISTENER_COUNT \<equiv> 1024"
abbreviation FREQUENCY_DIV :: nat where "FREQUENCY_DIV \<equiv> 200"
abbreviation TIMESLICE :: nat where "TIMESLICE \<equiv> (1000 div FREQUENCY_DIV) * 4"
abbreviation RUNTIME_UPDATE_INTVAL :: nat where "RUNTIME_UPDATE_INTVAL \<equiv> 1000"

definition timer_init :: "nat \<Rightarrow> timer" where
  "timer_init cpus = \<lparr>listeners = [], freeObjs = LISTENER_COUNT,
     perCPU = replicate cpus \<lparr>elapsedMsecs = 0, lastRaskhed = 0, timerIntrpts = 0\<rparr>, lastRuntimeUpdate = 0\<rparr>"

text \<open>The search loop of \<open>sleepFor\<close> and the insertion; \<open>msecDiff\<close> is the sum of the times passed.\<close>

fun timer_insert :: "Listener list \<Rightarrow> nat \<Rightarrow> nat \<Rightarrow> nat \<Rightarrow> bool \<Rightarrow> Listener list" where
  "timer_insert [] msecDiff tid msecs block = [\<lparr>ltid = tid, ltime = usub msecs msecDiff, lblock = block\<rparr>]"
| "timer_insert (nl # ls) msecDiff tid msecs block =
     (if uadd msecDiff (ltime nl) > msecs then
        let l = \<lparr>ltid = tid, ltime = usub msecs msecDiff, lblock = block\<rparr> in
        l # nl\<lparr>ltime := usub (ltime nl) (ltime l)\<rparr> # ls
      else nl # timer_insert ls (uadd msecDiff (ltime nl)) tid msecs block)"

definition sleepFor :: "timer \<Rightarrow> nat \<Rightarrow> nat \<Rightarrow> bool \<Rightarrow> int \<times> timer_act list \<times> timer" where
  "sleepFor t tid msecs block =
     (if freeObjs t = 0 then (- ENOMEM, [], t)
      else (0, if block then [TBlock tid] else [],
        t\<lparr>freeObjs := freeObjs t - 1, listeners := timer_insert (listeners t) 0 tid msecs block\<rparr>))"

text \<open>The list without the first listener of the thread, and whether there was one.\<close>

fun timer_remove :: "Listener list \<Rightarrow> nat \<Rightarrow> Listener list \<times> bool" where
  "timer_remove [] tid = ([], False)"
| "timer_remove (l # ls) tid =
     (if ltid l = tid then
        (case ls of [] \<Rightarrow> [] | n # ns \<Rightarrow> n\<lparr>ltime := uadd (ltime n) (ltime l)\<rparr> # ns, True)
      else case timer_remove ls tid of (ls', found) \<Rightarrow> (l # ls', found))"

definition removeThread :: "timer \<Rightarrow> nat \<Rightarrow> timer" where
  "removeThread t tid = (case timer_remove (listeners t) tid of (ls, found) \<Rightarrow>
     t\<lparr>listeners := ls, freeObjs := (if found then freeObjs t + 1 else freeObjs t)\<rparr>)"

text \<open>The loop of \<open>intrpt\<close>: actions, the remaining list, and \<open>foundThread\<close>.\<close>

fun timer_wake :: "Listener list \<Rightarrow> nat \<Rightarrow> timer_act list \<times> Listener list \<times> bool" where
  "timer_wake [] timeInc = ([], [], False)"
| "timer_wake (l # ls) timeInc =
     (if ltime l > timeInc then ([], l\<lparr>ltime := usub (ltime l) timeInc\<rparr> # ls, False)
      else case timer_wake ls (usub timeInc (ltime l)) of (acts, ls', found) \<Rightarrow>
        ((if lblock l then TUnblock (ltid l) else TAlarm (ltid l)) # acts, ls', lblock l \<or> found))"

text \<open>\<open>cpu\<close> is the CPU of the running thread.\<close>

definition intrpt :: "timer \<Rightarrow> nat \<Rightarrow> (bool \<times> timer_act list \<times> timer) option" where
  "intrpt t cpu = do {
     vassert (cpu < length (perCPU t));
     let timeInc = 1000 div FREQUENCY_DIV;
     let c = perCPU t ! cpu;
     let c1 = c\<lparr>timerIntrpts := uadd (timerIntrpts c) 1, elapsedMsecs := uadd (elapsedMsecs c) timeInc\<rparr>;
     let (acts, ls, found, lru) =
       (if cpu = 0 then
          let upd = usub (elapsedMsecs c1) (lastRuntimeUpdate t) \<ge> RUNTIME_UPDATE_INTVAL in
          case timer_wake (listeners t) timeInc of (acts, ls, found) \<Rightarrow>
            ((if upd then [TUpdateRuntimes] else []) @ acts, ls, found,
             if upd then elapsedMsecs c1 else lastRuntimeUpdate t)
        else ([], listeners t, False, lastRuntimeUpdate t));
     let res = (found \<or> usub (elapsedMsecs c1) (lastRaskhed c1) \<ge> TIMESLICE);
     let c2 = (if res then c1\<lparr>lastRaskhed := elapsedMsecs c1\<rparr> else c1);
     Some (res, acts, t\<lparr>listeners := ls, freeObjs := freeObjs t + (length (listeners t) - length ls),
       perCPU := (perCPU t)[cpu := c2], lastRuntimeUpdate := lru\<rparr>) }"

section \<open>Absolute times\<close>

fun wake_times :: "nat \<Rightarrow> Listener list \<Rightarrow> (nat \<times> nat \<times> bool) list" where
  "wake_times d [] = []"
| "wake_times d (l # ls) = (d + ltime l, ltid l, lblock l) # wake_times (d + ltime l) ls"

definition total_time :: "Listener list \<Rightarrow> nat" where
  "total_time ls = sum_list (map ltime ls)"

text \<open>No time wraps, and every listener object is in the list or free.\<close>

definition timer_ok :: "timer \<Rightarrow> bool" where
  "timer_ok t \<longleftrightarrow> total_time (listeners t) < 2 ^ 32 \<and> length (listeners t) + freeObjs t = LISTENER_COUNT"

lemma total_time_simps [simp]: "total_time [] = 0" "total_time (l # ls) = ltime l + total_time ls"
  by (simp_all add: total_time_def)

lemma wake_times_ge: "x \<in> set (wake_times d ls) \<Longrightarrow> d \<le> fst x"
  by (induction ls arbitrary: d) fastforce+

lemma wake_times_length [simp]: "length (wake_times d ls) = length ls"
  by (induction ls arbitrary: d) auto

lemma timer_insert_times:
  assumes "d \<le> msecs" "msecs < 2 ^ 32" "d + total_time ls < 2 ^ 32"
  shows "wake_times d (timer_insert ls d tid msecs block) =
      takeWhile (\<lambda>x. fst x \<le> msecs) (wake_times d ls) @ (msecs, tid, block) # dropWhile (\<lambda>x. fst x \<le> msecs) (wake_times d ls)"
    "d + total_time (timer_insert ls d tid msecs block) = max msecs (d + total_time ls)"
    "length (timer_insert ls d tid msecs block) = length ls + 1"
  using assms
proof (induction ls arbitrary: d)
  case Nil
  {
    case 1 then show ?case by (simp add: usub_small)
  next
    case 2 then show ?case by (simp add: usub_small)
  }
next
  case (Cons l ls)
  {
    case 1
    then have u: "uadd d (ltime l) = d + ltime l" "usub msecs d = msecs - d" by (simp_all add: uadd_small usub_small)
    show ?case
    proof (cases "d + ltime l > msecs")
      case True
      with 1 u show ?thesis by (simp add: Let_def usub_small add.commute [of d])
    next
      case False
      with 1 u Cons.IH(1) [of "d + ltime l"] show ?thesis by simp
    qed
  next
    case 2
    then have u: "uadd d (ltime l) = d + ltime l" "usub msecs d = msecs - d" by (simp_all add: uadd_small usub_small)
    show ?case
    proof (cases "d + ltime l > msecs")
      case True
      with 2 u show ?thesis by (simp add: Let_def usub_small)
    next
      case False
      with 2 u Cons.IH(2) [of "d + ltime l"] show ?thesis by simp
    qed
  next
    case 3
    then have u: "uadd d (ltime l) = d + ltime l" by (simp add: uadd_small)
    with 3 Cons.IH(3) [of "d + ltime l"] show ?case by (simp add: Let_def)
  }
qed simp_all

lemma timer_remove_times:
  assumes "d + total_time ls < 2 ^ 32" "timer_remove ls tid = (ls', found)"
  shows "found \<longleftrightarrow> tid \<in> ltid ` set ls"
    "wake_times d ls' = takeWhile (\<lambda>x. fst (snd x) \<noteq> tid) (wake_times d ls) @ tl (dropWhile (\<lambda>x. fst (snd x) \<noteq> tid) (wake_times d ls))"
    "total_time ls' \<le> total_time ls" "length ls = length ls' + (if found then 1 else 0)"
  using assms
proof (induction ls arbitrary: d ls' found)
  case (Cons l ls)
  obtain ks f where r: "timer_remove ls tid = (ks, f)" by (cases "timer_remove ls tid")
  {
    case 1 then show ?case using Cons.IH(1) [OF _ r, of "d + ltime l"] r by (auto split: if_splits)
  next
    case 2
    show ?case
    proof (cases "ltid l = tid")
      case True
      show ?thesis
      proof (cases ls)
        case (Cons n ns)
        with 2 have "uadd (ltime n) (ltime l) = ltime n + ltime l" by (simp add: uadd_small)
        with True 2 Cons show ?thesis by (auto simp: ac_simps)
      qed (use True 2 in auto)
    next
      case False
      with 2 r Cons.IH(2) [OF _ r, of "d + ltime l"] show ?thesis by (auto simp: ac_simps)
    qed
  next
    case 3
    then show ?case using Cons.IH(3) [OF _ r, of "d + ltime l"] r
      by (auto simp: uadd_small split: if_splits list.splits)
  next
    case 4
    then show ?case using Cons.IH(4) [OF _ r, of "d + ltime l"] r by (auto split: if_splits list.splits)
  }
qed simp_all

lemma timer_wake_times:
  assumes "inc < 2 ^ 32" "total_time ls < 2 ^ 32" "timer_wake ls inc = (acts, ls', found)"
  shows "acts = map (\<lambda>(t, tid, b). if b then TUnblock tid else TAlarm tid) (takeWhile (\<lambda>x. fst x \<le> d + inc) (wake_times d ls)) \<and>
    wake_times (d + inc) ls' = dropWhile (\<lambda>x. fst x \<le> d + inc) (wake_times d ls) \<and>
    total_time ls' \<le> total_time ls \<and> length ls' \<le> length ls \<and>
    (found \<longleftrightarrow> (\<exists>x \<in> set (takeWhile (\<lambda>x. fst x \<le> d + inc) (wake_times d ls)). snd (snd x)))"
  using assms
proof (induction ls arbitrary: inc acts ls' found d)
  case (Cons l ls)
  show ?case
  proof (cases "ltime l > inc")
    case True
    with Cons.prems show ?thesis by (auto simp: usub_small)
  next
    case False
    obtain as ks f where r: "timer_wake ls (inc - ltime l) = (as, ks, f)" by (cases "timer_wake ls (inc - ltime l)") auto
    have e: "d + ltime l + (inc - ltime l) = d + inc" using False by simp
    have l: "inc - ltime l < 2 ^ 32" "total_time ls < 2 ^ 32" using Cons.prems(1,2) by simp_all
    have "timer_wake (l # ls) inc = ((if lblock l then TUnblock (ltid l) else TAlarm (ltid l)) # as, ks, lblock l \<or> f)"
      using False r Cons.prems(1) by (simp add: usub_small)
    with Cons.prems(3) have q: "acts = (if lblock l then TUnblock (ltid l) else TAlarm (ltid l)) # as" "ls' = ks" "found = (lblock l \<or> f)"
      by auto
    from Cons.IH [OF l r, of "d + ltime l", unfolded e] False show ?thesis unfolding q by auto
  qed
qed auto

section \<open>Properties\<close>

text \<open>\<open>sleepFor\<close> inserts the thread into the list of wake-up times behind all that are not later, and
  leaves every other wake-up time as it was; without a free listener object it returns
  \<open>-ENOMEM\<close> and changes nothing.\<close>

theorem sleepFor_inserts:
  assumes "timer_ok t" "msecs < 2 ^ 32" "sleepFor t tid msecs block = (res, acts, t')"
  shows "if freeObjs t = 0 then res = - ENOMEM \<and> acts = [] \<and> t' = t
    else res = 0 \<and> acts = (if block then [TBlock tid] else []) \<and> timer_ok t' \<and>
      wake_times 0 (listeners t') = takeWhile (\<lambda>x. fst x \<le> msecs) (wake_times 0 (listeners t)) @
        (msecs, tid, block) # dropWhile (\<lambda>x. fst x \<le> msecs) (wake_times 0 (listeners t))"
  using assms timer_insert_times [of 0 msecs "listeners t" tid block]
  by (auto simp: sleepFor_def timer_ok_def)

theorem sleepFor_inserts_witness:
  "\<exists>t'. sleepFor ((timer_init 1)\<lparr>listeners := [\<lparr>ltid = 1, ltime = 10, lblock = True\<rparr>], freeObjs := 1023\<rparr>) 2 4 True = (0, [TBlock 2], t') \<and>
     wake_times 0 (listeners t') = [(4, 2, True), (10, 1, True)]"
proof -
  let ?t = "(timer_init 1)\<lparr>listeners := [\<lparr>ltid = 1, ltime = 10, lblock = True\<rparr>], freeObjs := 1023\<rparr>"
  obtain res acts t' where r: "sleepFor ?t 2 4 True = (res, acts, t')" by (cases "sleepFor ?t 2 4 True")
  have "timer_ok ?t" by (simp add: timer_ok_def)
  from sleepFor_inserts [OF this _ r] r show ?thesis by simp
qed

text \<open>a timer interrupt on the first CPU wakes exactly the threads whose time is over by then, in the
  order of their times, blocked ones directly and the others with SIGALRM, and keeps the wake-up
  times of all others; it asks for a new schedule when a blocked thread was woken.\<close>

theorem intrpt_wakes:
  assumes "timer_ok t" "perCPU t \<noteq> []"
  shows "\<exists>res acts t'. intrpt t 0 = Some (res, acts, t') \<and> timer_ok t' \<and>
    filter (\<lambda>a. a \<noteq> TUpdateRuntimes) acts = map (\<lambda>(w, tid, b). if b then TUnblock tid else TAlarm tid)
      (takeWhile (\<lambda>x. fst x \<le> now + 5) (wake_times now (listeners t))) \<and>
    wake_times (now + 5) (listeners t') = dropWhile (\<lambda>x. fst x \<le> now + 5) (wake_times now (listeners t)) \<and>
    ((\<exists>tid. TUnblock tid \<in> set acts) \<longrightarrow> res)"
proof -
  obtain acts ls found where w: "timer_wake (listeners t) 5 = (acts, ls, found)" by (cases "timer_wake (listeners t) 5")
  have tot: "(5 :: nat) < 2 ^ 32" "total_time (listeners t) < 2 ^ 32" using assms(1) by (simp_all add: timer_ok_def)
  note W = timer_wake_times [OF tot w, THEN conjunct1] timer_wake_times [OF tot w, THEN conjunct2, THEN conjunct1]
    timer_wake_times [OF tot w, of 0, THEN conjunct2, THEN conjunct2]
  have "a \<noteq> TUpdateRuntimes" if "a \<in> set acts" for a
    using that unfolding W(1) [of 0] by (auto split: if_splits)
  then have fil: "filter (\<lambda>a. a \<noteq> TUpdateRuntimes) acts = acts" by (simp add: filter_id_conv)
  have un: "TUnblock tid \<in> set acts \<Longrightarrow> found" for tid
    using W(3) unfolding W(1) [of 0] by (force split: if_splits)
  have ok: "timer_ok (t\<lparr>listeners := ls, freeObjs := freeObjs t + (length (listeners t) - length ls), perCPU := p, lastRuntimeUpdate := r\<rparr>)" for p r
    using assms(1) W(3) by (simp add: timer_ok_def)
  define c where "c = (perCPU t ! 0)\<lparr>timerIntrpts := uadd (timerIntrpts (perCPU t ! 0)) 1, elapsedMsecs := uadd (elapsedMsecs (perCPU t ! 0)) 5\<rparr>"
  define up where "up \<longleftrightarrow> usub (elapsedMsecs c) (lastRuntimeUpdate t) \<ge> RUNTIME_UPDATE_INTVAL"
  let ?res = "found \<or> usub (elapsedMsecs c) (lastRaskhed c) \<ge> TIMESLICE"
  have i: "intrpt t 0 = Some (?res, (if up then [TUpdateRuntimes] else []) @ acts,
      t\<lparr>listeners := ls, freeObjs := freeObjs t + (length (listeners t) - length ls),
        perCPU := (perCPU t)[0 := if ?res then c\<lparr>lastRaskhed := elapsedMsecs c\<rparr> else c],
        lastRuntimeUpdate := if up then elapsedMsecs c else lastRuntimeUpdate t\<rparr>)"
    using assms(2) w by (simp add: intrpt_def Let_def c_def up_def)
  have "filter (\<lambda>a. a \<noteq> TUpdateRuntimes) ((if up then [TUpdateRuntimes] else []) @ acts) = acts" using fil by simp
  moreover have "(\<exists>tid. TUnblock tid \<in> set ((if up then [TUpdateRuntimes] else []) @ acts)) \<longrightarrow> ?res"
    using un by (auto split: if_splits)
  ultimately show ?thesis unfolding i using ok W(1) [of now] W(2) [of now] by simp
qed

theorem intrpt_wakes_witness:
  "\<exists>acts t'. intrpt ((timer_init 1)\<lparr>listeners := [\<lparr>ltid = 1, ltime = 4, lblock = True\<rparr>], freeObjs := 1023\<rparr>) 0 = Some (True, acts, t') \<and>
     TUnblock 1 \<in> set acts"
proof -
  let ?t = "(timer_init 1)\<lparr>listeners := [\<lparr>ltid = 1, ltime = 4, lblock = True\<rparr>], freeObjs := 1023\<rparr>"
  have "timer_ok ?t" "perCPU ?t \<noteq> []" by (simp_all add: timer_ok_def timer_init_def)
  from intrpt_wakes [OF this, of 0] obtain res acts t' where r: "intrpt ?t 0 = Some (res, acts, t')"
    "filter (\<lambda>a. a \<noteq> TUpdateRuntimes) acts = [TUnblock 1]" "(\<exists>tid. TUnblock tid \<in> set acts) \<longrightarrow> res" by auto
  have "TUnblock 1 \<in> set acts" using r(2) by (metis filter_is_subset list.set_intros(1) subsetD)
  with r show ?thesis by auto
qed

text \<open>\<open>removeThread\<close> takes the first wake-up time of the thread out and keeps all others.\<close>

lemma removeThread_times:
  assumes "timer_ok t"
  shows "timer_ok (removeThread t tid) \<and> wake_times 0 (listeners (removeThread t tid)) =
    takeWhile (\<lambda>x. fst (snd x) \<noteq> tid) (wake_times 0 (listeners t)) @ tl (dropWhile (\<lambda>x. fst (snd x) \<noteq> tid) (wake_times 0 (listeners t)))"
proof -
  obtain ls found where r: "timer_remove (listeners t) tid = (ls, found)" by (cases "timer_remove (listeners t) tid")
  have "0 + total_time (listeners t) < 2 ^ 32" using assms by (simp add: timer_ok_def)
  note R = timer_remove_times [OF this r]
  show ?thesis using R(2-4) r assms by (auto simp: removeThread_def timer_ok_def split: if_splits)
qed

end
