(* ===== verification/SwapMap.thy ===== *)
theory SwapMap
  imports Prelude Transitions
begin

text \<open>
  The allocator of swap blocks with reference counts, \<open>kernel/src/mem/swapmap.cc\<close> and
  \<open>kernel/include/mem/swapmap.h\<close>. The blocks are the list of their reference counts; the chain of
  \<open>next\<close> pointers from \<open>freeList\<close> on is the list of block numbers. The spinlock makes each operation
  one step; the step relation \<open>swap_step\<close> interleaves the calls of all users of the map.
\<close>

section \<open>Definitions\<close>

record swapmap =
  totalBlocks :: nat
  freeBlocks :: nat
  refCounts :: "nat list"
  freeChain :: "nat list"

abbreviation INVALID_BLOCK :: nat where "INVALID_BLOCK \<equiv> 0xFFFFFFFF"

text \<open>The initial chain is built from the first block on: the last block is its head.\<close>

fun swap_chain :: "nat \<Rightarrow> nat list" where
  "swap_chain 0 = []"
| "swap_chain (Suc n) = n # swap_chain n"

definition swap_init :: "bool \<Rightarrow> nat \<Rightarrow> swapmap option" where
  "swap_init memok swapSize = (let n = swapSize div 4096 in
     if \<not> memok then None
     else do {
       vassert (0 < n);
       Some \<lparr>totalBlocks = n, freeBlocks = n, refCounts = replicate n 0, freeChain = swap_chain n\<rparr> })"

definition swap_alloc :: "swapmap \<Rightarrow> nat \<times> swapmap" where
  "swap_alloc s = (case freeChain s of
     [] \<Rightarrow> (INVALID_BLOCK, s)
   | b # bs \<Rightarrow> (b, s\<lparr>freeChain := bs, refCounts := (refCounts s)[b := 1], freeBlocks := usub (freeBlocks s) 1\<rparr>))"

definition swap_free :: "swapmap \<Rightarrow> nat \<Rightarrow> swapmap option" where
  "swap_free s b = do {
     vassert (b < totalBlocks s);
     let r = usub (refCounts s ! b) 1;
     let s1 = s\<lparr>refCounts := (refCounts s)[b := r]\<rparr>;
     Some (if r = 0 then s1\<lparr>freeChain := b # freeChain s, freeBlocks := uadd (freeBlocks s) 1\<rparr> else s1) }"

definition swap_incRefs :: "swapmap \<Rightarrow> nat \<Rightarrow> swapmap option" where
  "swap_incRefs s b = do {
     vassert (b < totalBlocks s \<and> refCounts s ! b > 0);
     Some (s\<lparr>refCounts := (refCounts s)[b := uadd (refCounts s ! b) 1]\<rparr>) }"

definition swap_isUsed :: "swapmap \<Rightarrow> nat \<Rightarrow> bool option" where
  "swap_isUsed s b = do { vassert (b < totalBlocks s); Some (refCounts s ! b > 0) }"

definition totalSpace :: "swapmap \<Rightarrow> nat" where
  "totalSpace s = totalBlocks s * 4096 mod 2 ^ 32"

definition freeSpace :: "swapmap \<Rightarrow> nat" where
  "freeSpace s = freeBlocks s * 4096 mod 2 ^ 32"

section \<open>References held\<close>

text \<open>
  A system is the map together with the references its users hold, a count per block. A user frees
  or shares only a block it holds a reference to; a reference count does not overflow, since no
  machine has that many regions.
\<close>

record swapsys =
  smap :: swapmap
  held :: "nat \<Rightarrow> nat"

inductive swap_step :: "swapsys \<Rightarrow> swapsys \<Rightarrow> bool" where
  sw_alloc: "swap_alloc (smap s) = (b, m) \<Longrightarrow> b \<noteq> INVALID_BLOCK \<Longrightarrow>
     swap_step s \<lparr>smap = m, held = (held s)(b := held s b + 1)\<rparr>"
| sw_full: "swap_alloc (smap s) = (INVALID_BLOCK, m) \<Longrightarrow> swap_step s (s\<lparr>smap := m\<rparr>)"
| sw_inc: "held s b > 0 \<Longrightarrow> held s b + 1 < 2 ^ 32 \<Longrightarrow> swap_incRefs (smap s) b = Some m \<Longrightarrow>
     swap_step s \<lparr>smap = m, held = (held s)(b := held s b + 1)\<rparr>"
| sw_free: "held s b > 0 \<Longrightarrow> swap_free (smap s) b = Some m \<Longrightarrow>
     swap_step s \<lparr>smap = m, held = (held s)(b := held s b - 1)\<rparr>"

inductive_cases swap_stepE: "swap_step s s'"

definition swap_ok :: "swapmap \<Rightarrow> bool" where
  "swap_ok m \<longleftrightarrow> length (refCounts m) = totalBlocks m \<and> totalBlocks m < INVALID_BLOCK \<and> freeBlocks m = length (freeChain m) \<and>
     distinct (freeChain m) \<and> set (freeChain m) = {b. b < totalBlocks m \<and> refCounts m ! b = 0}"

definition swap_inv :: "swapsys \<Rightarrow> bool" where
  "swap_inv s \<longleftrightarrow> swap_ok (smap s) \<and>
     (\<forall>b. held s b = (if b < totalBlocks (smap s) then refCounts (smap s) ! b else 0)) \<and> (\<forall>b. held s b < 2 ^ 32)"

lemma swap_chain_eq: "swap_chain n = rev [0 ..< n]"
  by (induction n) simp_all

lemma swap_chain_set: "set (swap_chain n) = {..< n}" "distinct (swap_chain n)" "length (swap_chain n) = n"
  by (simp_all add: swap_chain_eq atLeast0LessThan)

lemma chain_bound: "swap_ok m \<Longrightarrow> length (freeChain m) \<le> totalBlocks m"
  using card_mono [of "{..< totalBlocks m}" "set (freeChain m)"] distinct_card [of "freeChain m"]
  by (auto simp: swap_ok_def)

lemma swap_invI:
  "swap_ok m \<Longrightarrow> (\<And>b. b < totalBlocks m \<Longrightarrow> h b = refCounts m ! b) \<Longrightarrow> (\<And>b. totalBlocks m \<le> b \<Longrightarrow> h b = 0) \<Longrightarrow>
   (\<And>b. h b < 2 ^ 32) \<Longrightarrow> swap_inv \<lparr>smap = m, held = h\<rparr>"
  by (simp add: swap_inv_def)

lemma swap_invD:
  assumes "swap_inv s"
  shows "swap_ok (smap s)" "b < totalBlocks (smap s) \<Longrightarrow> refCounts (smap s) ! b = held s b"
    "totalBlocks (smap s) \<le> b \<Longrightarrow> held s b = 0" "held s b < 2 ^ 32"
  using assms unfolding swap_inv_def by (metis linorder_not_less)+

lemma swap_init_ok:
  assumes "swap_init memok sz = Some m" "sz < 2 ^ 32"
  shows "swap_inv \<lparr>smap = m, held = \<lambda>_. 0\<rparr>"
proof -
  define n where "n = sz div 4096"
  have m: "m = \<lparr>totalBlocks = n, freeBlocks = n, refCounts = replicate n 0, freeChain = swap_chain n\<rparr>"
    using assms(1) by (auto simp: swap_init_def Let_def n_def split: if_splits Option.bind_splits)
  have "n < INVALID_BLOCK" using assms(2) by (simp add: n_def)
  then show ?thesis by (intro swap_invI) (auto simp: m swap_ok_def swap_chain_set)
qed

lemma swap_alloc_ok:
  assumes "swap_ok m" "swap_alloc m = (b, m')"
  shows "if freeChain m = [] then b = INVALID_BLOCK \<and> m' = m
    else b < totalBlocks m \<and> refCounts m ! b = 0 \<and> swap_ok m' \<and> refCounts m' = (refCounts m)[b := 1] \<and>
      totalBlocks m' = totalBlocks m \<and> freeBlocks m = freeBlocks m' + 1"
proof (cases "freeChain m")
  case (Cons c cs)
  have l: "length (freeChain m) < 2 ^ 32" using chain_bound [OF assms(1)] assms(1) by (simp add: swap_ok_def)
  have m': "b = c" "m' = m\<lparr>freeChain := cs, refCounts := (refCounts m)[c := 1], freeBlocks := freeBlocks m - 1\<rparr>"
    using assms Cons l by (auto simp: swap_alloc_def usub_small swap_ok_def)
  have c: "c < totalBlocks m" "refCounts m ! c = 0" "c \<notin> set cs" using assms(1) Cons by (auto simp: swap_ok_def)
  have "set cs = {b. b < totalBlocks m \<and> (refCounts m)[c := 1] ! b = 0}"
  proof (intro set_eqI)
    fix x
    have "x \<in> insert c (set cs) \<longleftrightarrow> x < totalBlocks m \<and> refCounts m ! x = 0" using assms(1) Cons by (auto simp: swap_ok_def)
    then show "x \<in> set cs \<longleftrightarrow> x \<in> {b. b < totalBlocks m \<and> (refCounts m)[c := 1] ! b = 0}"
      using c assms(1) by (cases "x = c") (auto simp: swap_ok_def)
  qed
  then show ?thesis using assms(1) Cons m' c by (auto simp: swap_ok_def)
qed (use assms in \<open>simp add: swap_alloc_def\<close>)

lemma swap_free_ok:
  assumes "swap_ok m" "b < totalBlocks m" "0 < refCounts m ! b" "refCounts m ! b < 2 ^ 32"
  shows "\<exists>m'. swap_free m b = Some m' \<and> swap_ok m' \<and> refCounts m' = (refCounts m)[b := refCounts m ! b - 1] \<and>
    totalBlocks m' = totalBlocks m"
proof -
  have u: "usub (refCounts m ! b) 1 = refCounts m ! b - 1" using assms(3,4) by (simp add: usub_small)
  have nb: "b \<notin> set (freeChain m)" using assms(1,3) by (auto simp: swap_ok_def)
  have len: "b < length (refCounts m)" using assms(1,2) by (simp add: swap_ok_def)
  have ch: "x \<in> set (freeChain m) \<longleftrightarrow> x < totalBlocks m \<and> refCounts m ! x = 0" for x using assms(1) by (auto simp: swap_ok_def)
  show ?thesis
  proof (cases "refCounts m ! b = 1")
    case True
    have "length (freeChain m) + 1 < 2 ^ 32" using chain_bound [OF assms(1)] assms(1) by (simp add: swap_ok_def)
    then have "uadd (freeBlocks m) 1 = freeBlocks m + 1" using assms(1) by (simp add: uadd_small swap_ok_def)
    moreover have "insert b (set (freeChain m)) = {x. x < totalBlocks m \<and> (refCounts m)[b := 0] ! x = 0}"
    proof (intro set_eqI)
      fix x show "x \<in> insert b (set (freeChain m)) \<longleftrightarrow> x \<in> {x. x < totalBlocks m \<and> (refCounts m)[b := 0] ! x = 0}"
        using ch [of x] len assms(2) by (cases "x = b") auto
    qed
    ultimately show ?thesis using assms(1,2) True u nb by (simp add: swap_free_def swap_ok_def Let_def)
  next
    case False
    then have "0 < refCounts m ! b - 1" using assms(3) by simp
    moreover have "set (freeChain m) = {x. x < totalBlocks m \<and> (refCounts m)[b := refCounts m ! b - 1] ! x = 0}"
    proof (intro set_eqI)
      fix x show "x \<in> set (freeChain m) \<longleftrightarrow> x \<in> {x. x < totalBlocks m \<and> (refCounts m)[b := refCounts m ! b - 1] ! x = 0}"
        using ch [of x] len nb calculation by (cases "x = b") auto
    qed
    ultimately show ?thesis using assms(1,2) u by (simp add: swap_free_def swap_ok_def Let_def)
  qed
qed

lemma swap_incRefs_ok:
  assumes "swap_ok m" "swap_incRefs m b = Some m'" "refCounts m ! b + 1 < 2 ^ 32"
  shows "b < totalBlocks m \<and> swap_ok m' \<and> refCounts m' = (refCounts m)[b := refCounts m ! b + 1] \<and> totalBlocks m' = totalBlocks m"
proof -
  have b: "b < totalBlocks m" "0 < refCounts m ! b" "m' = m\<lparr>refCounts := (refCounts m)[b := refCounts m ! b + 1]\<rparr>"
    using assms(2) uadd_small [OF assms(3)] by (auto simp: swap_incRefs_def split: Option.bind_splits)
  have "{x. x < totalBlocks m \<and> refCounts m ! x = 0} = {x. x < totalBlocks m \<and> (refCounts m)[b := refCounts m ! b + 1] ! x = 0}"
  proof (intro set_eqI)
    fix x show "x \<in> {x. x < totalBlocks m \<and> refCounts m ! x = 0} \<longleftrightarrow>
        x \<in> {x. x < totalBlocks m \<and> (refCounts m)[b := refCounts m ! b + 1] ! x = 0}"
      using b(1,2) assms(1) by (cases "x = b") (simp_all add: swap_ok_def)
  qed
  then show ?thesis using b assms(1) by (auto simp: swap_ok_def)
qed

text \<open>The count of one block and the references to it change together.\<close>

lemma swap_inv_update:
  assumes "swap_inv s" "swap_ok m" "b < totalBlocks (smap s)" "totalBlocks m = totalBlocks (smap s)"
    "refCounts m = (refCounts (smap s))[b := k]" "k < 2 ^ 32"
  shows "swap_inv \<lparr>smap = m, held = (held s)(b := k)\<rparr>"
proof (rule swap_invI [OF assms(2)])
  have "length (refCounts (smap s)) = totalBlocks (smap s)" using swap_invD(1) [OF assms(1)] by (simp add: swap_ok_def)
  then show "((held s)(b := k)) c = refCounts m ! c" if "c < totalBlocks m" for c
    using that assms(3-5) swap_invD(2) [OF assms(1), of c] by (auto simp: nth_list_update)
qed (use assms swap_invD(3,4) [OF assms(1)] in auto)

lemma swap_inv_step: "swap_step s s' \<Longrightarrow> swap_inv s \<Longrightarrow> swap_inv s'"
proof (induction rule: swap_step.induct)
  case (sw_alloc s b m)
  note inv = sw_alloc(3)
  from swap_alloc_ok [OF swap_invD(1) [OF inv] sw_alloc(1)] sw_alloc(2)
  have b: "b < totalBlocks (smap s)" "refCounts (smap s) ! b = 0" "swap_ok m" "refCounts m = (refCounts (smap s))[b := 1]"
    "totalBlocks m = totalBlocks (smap s)" by (auto split: if_splits)
  then have "held s b = 0" using swap_invD(2) [OF inv] by simp
  with swap_inv_update [OF inv b(3,1,5,4)] show ?case by simp
next
  case (sw_full s m)
  note inv = sw_full(2)
  from swap_alloc_ok [OF swap_invD(1) [OF inv] sw_full(1)] swap_invD(1) [OF inv] have "m = smap s"
    by (auto simp: swap_ok_def split: if_splits)
  then have "s\<lparr>smap := m\<rparr> = s" by simp
  with inv show ?case by metis
next
  case (sw_inc s b m)
  note inv = sw_inc(4)
  have b: "b < totalBlocks (smap s)" using swap_invD(3) [OF inv, of b] sw_inc(1) by (cases "b < totalBlocks (smap s)") auto
  have r: "refCounts (smap s) ! b = held s b" by (rule swap_invD(2) [OF inv b])
  then have i: "refCounts (smap s) ! b + 1 < 2 ^ 32" using sw_inc(2) by simp
  from swap_incRefs_ok [OF swap_invD(1) [OF inv] sw_inc(3) i] swap_inv_update [OF inv _ b] r i show ?case by simp
next
  case (sw_free s b m)
  note inv = sw_free(3)
  have b: "b < totalBlocks (smap s)" using swap_invD(3) [OF inv, of b] sw_free(1) by (cases "b < totalBlocks (smap s)") auto
  have r: "refCounts (smap s) ! b = held s b" by (rule swap_invD(2) [OF inv b])
  have i: "0 < refCounts (smap s) ! b" "refCounts (smap s) ! b < 2 ^ 32" using r sw_free(1) swap_invD(4) [OF inv, of b] by simp_all
  from swap_free_ok [OF swap_invD(1) [OF inv] b i] sw_free(2) swap_inv_update [OF inv _ b, of m "held s b - 1"] r i show ?case
    by simp
qed

section \<open>Properties\<close>

interpretation swap_runs: transitions swap_step "\<lambda>s. \<exists>m sz. swap_init True sz = Some m \<and> sz < 2 ^ 32 \<and> s = \<lparr>smap = m, held = \<lambda>_. 0\<rparr>" swap_inv
  by unfold_locales (use swap_init_ok swap_inv_step in auto)

text \<open>C12: However the users of the swap map interleave, as long as each of them frees or shares only blocks it has a reference to and
  no count reaches \<open>2 ^ 32\<close>, the reference count of every block is the number of references held to it; the chain of free blocks has
  exactly the blocks nobody holds, each once, and the count of free blocks is their number. \<open>alloc\<close> gives a block nobody holds
  whenever there is one, and \<open>INVALID_BLOCK\<close> only if all blocks are held; freeing a held block does not fail.\<close>

theorem swap_refcounts:
  assumes "swap_init True sz = Some m" "sz < 2 ^ 32" "swap_step\<^sup>*\<^sup>* \<lparr>smap = m, held = \<lambda>_. 0\<rparr> s"
  shows "(\<forall>b < totalBlocks (smap s). refCounts (smap s) ! b = held s b) \<and>
    distinct (freeChain (smap s)) \<and> set (freeChain (smap s)) = {b. b < totalBlocks (smap s) \<and> held s b = 0} \<and>
    freeBlocks (smap s) = card {b. b < totalBlocks (smap s) \<and> held s b = 0} \<and>
    (case swap_alloc (smap s) of (b, m') \<Rightarrow>
       if \<exists>c < totalBlocks (smap s). held s c = 0 then b < totalBlocks (smap s) \<and> held s b = 0
       else b = INVALID_BLOCK \<and> m' = smap s) \<and>
    (\<forall>b. held s b > 0 \<longrightarrow> (\<exists>m'. swap_free (smap s) b = Some m'))"
proof -
  have inv: "swap_inv s" using assms(3) by (rule swap_runs.reachable) (use assms(1,2) in blast)
  note ok = swap_invD(1) [OF inv] and h = swap_invD(2,3) [OF inv]
  have ch: "set (freeChain (smap s)) = {b. b < totalBlocks (smap s) \<and> held s b = 0}"
    using ok h(1) unfolding swap_ok_def by auto
  then have "freeBlocks (smap s) = card {b. b < totalBlocks (smap s) \<and> held s b = 0}"
    using ok distinct_card [of "freeChain (smap s)"] by (simp add: swap_ok_def)
  moreover obtain b m' where a: "swap_alloc (smap s) = (b, m')" by fastforce
  then have "if \<exists>c < totalBlocks (smap s). held s c = 0 then b < totalBlocks (smap s) \<and> held s b = 0 else b = INVALID_BLOCK \<and> m' = smap s"
    using swap_alloc_ok [OF ok a] ch h(1) [of b] by (auto split: if_splits)
  moreover have "\<exists>m'. swap_free (smap s) b = Some m'" if "held s b > 0" for b
    using that h(2) [of b] by (cases "b < totalBlocks (smap s)") (simp_all add: swap_free_def Let_def)
  ultimately show ?thesis using h(1) ch a ok by (simp add: swap_ok_def)
qed

theorem swap_refcounts_witness:
  "\<exists>m s. swap_init True 0x2000 = Some m \<and> swap_step \<lparr>smap = m, held = \<lambda>_. 0\<rparr> s \<and> freeBlocks (smap s) = 1 \<and>
     freeBlocks (smap s) = card {b. b < totalBlocks (smap s) \<and> held s b = 0} \<and>
     set (freeChain (smap s)) = {b. b < totalBlocks (smap s) \<and> held s b = 0}"
proof -
  let ?m = "\<lparr>totalBlocks = 2, freeBlocks = 2, refCounts = [0, 0], freeChain = [1, 0]\<rparr>"
  let ?m1 = "\<lparr>totalBlocks = 2, freeBlocks = 1, refCounts = [0, 1], freeChain = [0]\<rparr>"
  have i: "swap_init True 0x2000 = Some ?m" by (simp add: swap_init_def Let_def numeral_2_eq_2)
  have st: "swap_step \<lparr>smap = ?m, held = \<lambda>_. 0\<rparr> \<lparr>smap = ?m1, held = (\<lambda>_. 0)(1 := 1)\<rparr>"
    using sw_alloc [of "\<lparr>smap = ?m, held = \<lambda>_. 0\<rparr>" 1 ?m1] by (simp add: swap_alloc_def usub_def)
  from swap_refcounts [OF i _ r_into_rtranclp [of swap_step, OF st]] i st show ?thesis by fastforce
qed

text \<open>A block that nobody holds is not protected: its count wraps to the largest number, and the block is
  neither free nor used by anyone.\<close>

lemma swap_double_free:
  "swap_free \<lparr>totalBlocks = 1, freeBlocks = 1, refCounts = [0], freeChain = [0]\<rparr> 0 =
     Some \<lparr>totalBlocks = 1, freeBlocks = 1, refCounts = [0xFFFFFFFF], freeChain = [0]\<rparr>"
  by (simp add: swap_free_def Let_def usub_def)

end
