(* ===== verification/MemAreas.thy ===== *)
theory MemAreas
  imports Prelude
begin

text \<open>
  The areas of free physical memory at boot, \<open>kernel/src/mem/physmemareas.cc\<close>. The chain from \<open>list\<close>
  to \<open>listend\<close> is a HOL list; \<open>count\<close> is the number of area objects used, which are never given back.
  Running out of them, where the code panics, has no result. Addresses are 32-bit numbers.
\<close>

section \<open>Definitions\<close>

record MemArea =
  maddr :: nat
  msize :: nat

record memareas =
  mlist :: "MemArea list"
  mcount :: nat

abbreviation MAX_PHYSMEM_AREAS :: nat where "MAX_PHYSMEM_AREAS \<equiv> 64"
abbreviation PAGE :: nat where "PAGE \<equiv> 4096"
abbreviation INVALID_FRAME :: nat where "INVALID_FRAME \<equiv> 0xFFFFFFFF"

definition ROUND_PAGE_DN :: "nat \<Rightarrow> nat" where
  "ROUND_PAGE_DN a = a div PAGE * PAGE"

definition ROUND_PAGE_UP :: "nat \<Rightarrow> nat" where
  "ROUND_PAGE_UP a = uadd a (PAGE - 1) div PAGE * PAGE"

text \<open>\<open>allocArea\<close>: the new count.\<close>

definition allocArea :: "nat \<Rightarrow> nat option" where
  "allocArea cnt = (if cnt = MAX_PHYSMEM_AREAS then None else Some (cnt + 1))"

text \<open>\<open>add\<close> on the list and the count.\<close>

definition ma_append :: "MemArea list \<Rightarrow> nat \<Rightarrow> nat \<Rightarrow> nat \<Rightarrow> (MemArea list \<times> nat) option" where
  "ma_append as cnt addr aend = do {
     cnt' \<leftarrow> allocArea cnt;
     Some (as @ [\<lparr>maddr = ROUND_PAGE_UP addr, msize = usub (ROUND_PAGE_UP aend) (ROUND_PAGE_UP addr)\<rparr>], cnt') }"

definition ma_add :: "memareas \<Rightarrow> nat \<Rightarrow> nat \<Rightarrow> memareas option" where
  "ma_add s addr aend = do {
     (as, cnt) \<leftarrow> ma_append (mlist s) (mcount s) addr aend;
     Some \<lparr>mlist = as, mcount = cnt\<rparr> }"

text \<open>
  The loop of \<open>rem\<close> over the areas from \<open>area\<close> on. A part that is cut off behind the removed range goes
  to the end of the list, where the loop meets it again.
\<close>

partial_function (option) ma_rem_loop :: "nat \<Rightarrow> nat \<Rightarrow> MemArea list \<Rightarrow> nat \<Rightarrow> (MemArea list \<times> nat) option" where
  "ma_rem_loop addr aend as cnt = (case as of
     [] \<Rightarrow> Some ([], cnt)
   | area # rest \<Rightarrow> (let e = uadd (maddr area) (msize area) in
       if addr \<le> maddr area \<and> aend \<ge> e then ma_rem_loop addr aend rest cnt
       else if addr > maddr area \<and> aend < e then do {
         (rest', cnt') \<leftarrow> ma_append rest cnt aend e;
         (as', cnt'') \<leftarrow> ma_rem_loop addr aend rest' cnt';
         Some (area\<lparr>msize := usub addr (maddr area)\<rparr> # as', cnt'') }
       else if aend > maddr area \<and> aend < e then do {
         (as', cnt') \<leftarrow> ma_rem_loop addr aend rest cnt;
         Some (\<lparr>maddr = aend, msize = usub e aend\<rparr> # as', cnt') }
       else if addr > maddr area \<and> addr < e then do {
         (as', cnt') \<leftarrow> ma_rem_loop addr aend rest cnt;
         Some (area\<lparr>msize := usub addr (maddr area)\<rparr> # as', cnt') }
       else do {
         (as', cnt') \<leftarrow> ma_rem_loop addr aend rest cnt;
         Some (area # as', cnt') }))"

definition ma_rem :: "memareas \<Rightarrow> nat \<Rightarrow> nat \<Rightarrow> memareas option" where
  "ma_rem s addr aend = do {
     (as, cnt) \<leftarrow> ma_rem_loop (ROUND_PAGE_DN addr) (ROUND_PAGE_UP aend) (mlist s) (mcount s);
     Some \<lparr>mlist = as, mcount = cnt\<rparr> }"

fun ma_find :: "MemArea list \<Rightarrow> nat \<Rightarrow> nat option" where
  "ma_find [] bytes = None"
| "ma_find (area # as) bytes = (if msize area \<ge> bytes then Some (maddr area) else ma_find as bytes)"

definition ma_alloc :: "memareas \<Rightarrow> nat \<Rightarrow> (nat \<times> memareas) option" where
  "ma_alloc s frames = (let bytes = frames * PAGE mod 2 ^ 32 in
     case ma_find (mlist s) bytes of
       None \<Rightarrow> Some (INVALID_FRAME, s)
     | Some begin \<Rightarrow> do {
         s' \<leftarrow> ma_rem s begin (uadd begin bytes);
         Some (begin div PAGE, s') })"

fun ma_total :: "MemArea list \<Rightarrow> nat" where
  "ma_total [] = 0"
| "ma_total (area # as) = uadd (msize area) (ma_total as)"

definition getAvailable :: "memareas \<Rightarrow> nat" where
  "getAvailable s = ma_total (mlist s)"

section \<open>The set of free memory\<close>

definition ma_ok :: "MemArea \<Rightarrow> bool" where
  "ma_ok a \<longleftrightarrow> maddr a mod PAGE = 0 \<and> msize a mod PAGE = 0 \<and> maddr a + msize a < 2 ^ 32"

definition ma_rng :: "MemArea \<Rightarrow> nat set" where
  "ma_rng a = {maddr a ..< maddr a + msize a}"

definition ma_set :: "MemArea list \<Rightarrow> nat set" where
  "ma_set as = (\<Union>a \<in> set as. ma_rng a)"

lemma ma_set_simps [simp]: "ma_set [] = {}" "ma_set (a # as) = ma_rng a \<union> ma_set as" "ma_set (as @ bs) = ma_set as \<union> ma_set bs"
  by (auto simp: ma_set_def)

lemma round_aligned: "a mod PAGE = 0 \<Longrightarrow> ROUND_PAGE_DN a = a" "a mod PAGE = 0 \<Longrightarrow> a < 2 ^ 32 \<Longrightarrow> ROUND_PAGE_UP a = a"
proof -
  assume m: "a mod PAGE = 0"
  then obtain k where k: "a = PAGE * k" by (auto simp: mod_eq_0_iff_dvd dvd_def)
  then show "ROUND_PAGE_DN a = a" by (simp add: ROUND_PAGE_DN_def)
  assume "a < 2 ^ 32"
  then have "k < 1048576" using k by simp
  then have "PAGE * k + 4095 < 2 ^ 32" by simp
  then have "uadd a (PAGE - 1) = PAGE * k + 4095" using k by (simp add: uadd_small)
  then show "ROUND_PAGE_UP a = a" using k by (simp add: ROUND_PAGE_UP_def)
qed

lemma ma_append_ok:
  assumes "x mod PAGE = 0" "y mod PAGE = 0" "x \<le> y" "y < 2 ^ 32" "cnt < MAX_PHYSMEM_AREAS"
  shows "ma_append as cnt x y = Some (as @ [\<lparr>maddr = x, msize = y - x\<rparr>], cnt + 1)"
  using assms by (simp add: ma_append_def allocArea_def round_aligned usub_small)

text \<open>An area that the removed range does not split.\<close>

lemma ma_rem_loop_behind:
  assumes "\<forall>a \<in> set as. ma_ok a \<and> aend \<le> maddr a" "addr < aend"
  shows "ma_rem_loop addr aend as cnt = Some (filter (\<lambda>a. \<not> (msize a = 0 \<and> maddr a = aend)) as, cnt)"
  using assms
proof (induction as)
  case Nil
  show ?case by (subst ma_rem_loop.simps) simp
next
  case (Cons a as)
  then have "uadd (maddr a) (msize a) = maddr a + msize a" by (simp add: ma_ok_def uadd_small)
  with Cons show ?case by (subst ma_rem_loop.simps) (auto simp: Let_def)
qed

text \<open>
  The areas still to be visited are \<open>as\<close>, followed by \<open>bs\<close>, parts that were cut off behind the range.
\<close>

lemma ma_rem_loop_ok:
  assumes "\<forall>a \<in> set (as @ bs). ma_ok a" "\<forall>a \<in> set bs. aend \<le> maddr a" "addr < aend" "addr mod PAGE = 0" "aend mod PAGE = 0" "aend < 2 ^ 32"
    "cnt + length as \<le> MAX_PHYSMEM_AREAS"
  shows "\<exists>as' cnt'. ma_rem_loop addr aend (as @ bs) cnt = Some (as', cnt') \<and> (\<forall>a \<in> set as'. ma_ok a) \<and>
    ma_set as' = ma_set (as @ bs) - {addr ..< aend} \<and> cnt' \<le> cnt + length as"
  using assms
proof (induction as arbitrary: bs cnt)
  case Nil
  have "ma_set (filter (\<lambda>a. \<not> (msize a = 0 \<and> maddr a = aend)) bs) = ma_set bs - {addr ..< aend}"
    using Nil.prems(2,3) by (fastforce simp: ma_set_def ma_rng_def)
  with ma_rem_loop_behind [of bs aend addr cnt] Nil.prems show ?case by auto
next
  case (Cons a as)
  let ?e = "maddr a + msize a"
  have ok: "ma_ok a" "\<forall>a \<in> set (as @ bs). ma_ok a" using Cons.prems(1) by simp_all
  have e: "uadd (maddr a) (msize a) = ?e" "?e < 2 ^ 32" using ok(1) by (simp_all add: ma_ok_def uadd_small)
  have al: "maddr a mod PAGE = 0" "?e mod PAGE = 0" using ok(1) by (simp_all add: ma_ok_def mod_add_eq [symmetric])
  have IH: "\<exists>as' cnt'. ma_rem_loop addr aend (as @ bs) cnt = Some (as', cnt') \<and> (\<forall>a \<in> set as'. ma_ok a) \<and>
      ma_set as' = ma_set (as @ bs) - {addr ..< aend} \<and> cnt' \<le> cnt + length as"
    by (rule Cons.IH) (use Cons.prems in auto)
  then obtain as' cnt' where r: "ma_rem_loop addr aend (as @ bs) cnt = Some (as', cnt')" "\<forall>a \<in> set as'. ma_ok a"
    "ma_set as' = ma_set (as @ bs) - {addr ..< aend}" "cnt' \<le> cnt + length as" by blast
  consider (all) "addr \<le> maddr a \<and> aend \<ge> ?e" | (mid) "addr > maddr a \<and> aend < ?e"
    | (front) "addr \<le> maddr a" "aend > maddr a" "aend < ?e" | (rear) "addr > maddr a" "addr < ?e" "aend \<ge> ?e"
    | (none) "aend \<le> maddr a \<or> addr \<ge> ?e" "\<not> (addr \<le> maddr a \<and> aend \<ge> ?e)" using Cons.prems(3) by linarith
  then show ?case
  proof cases
    case all
    have "ma_rem_loop addr aend ((a # as) @ bs) cnt = Some (as', cnt')" using all e r(1) by (subst ma_rem_loop.simps) (simp add: Let_def)
    with all r(2-4) show ?thesis by (auto simp: ma_rng_def)
  next
    case mid
    let ?b = "\<lparr>maddr = aend, msize = ?e - aend\<rparr>" and ?c = "a\<lparr>msize := addr - maddr a\<rparr>"
    have ap: "ma_append (as @ bs) cnt aend ?e = Some ((as @ bs) @ [?b], cnt + 1)"
      using mid al Cons.prems(5,7) e(2) by (intro ma_append_ok) auto
    have bok: "ma_ok ?b" using mid al Cons.prems(5) e(2) by (simp add: ma_ok_def mod_diff_eq [symmetric] mod_eq_0_iff_dvd dvd_diff_nat)
    have cok: "ma_ok ?c" using mid al Cons.prems(3,4) e(2) by (simp add: ma_ok_def mod_eq_0_iff_dvd dvd_diff_nat)
    have "\<exists>as' cnt'. ma_rem_loop addr aend (as @ bs @ [?b]) (cnt + 1) = Some (as', cnt') \<and> (\<forall>a \<in> set as'. ma_ok a) \<and>
        ma_set as' = ma_set (as @ bs @ [?b]) - {addr ..< aend} \<and> cnt' \<le> cnt + 1 + length as"
      by (rule Cons.IH) (use Cons.prems bok in auto)
    then obtain as2 cnt2 where r2: "ma_rem_loop addr aend (as @ bs @ [?b]) (cnt + 1) = Some (as2, cnt2)" "\<forall>a \<in> set as2. ma_ok a"
      "ma_set as2 = ma_set (as @ bs @ [?b]) - {addr ..< aend}" "cnt2 \<le> cnt + 1 + length as" by blast
    have "usub addr (maddr a) = addr - maddr a" using mid e(2) Cons.prems(3) by (intro usub_small) simp_all
    then have "ma_rem_loop addr aend ((a # as) @ bs) cnt = Some (?c # as2, cnt2)"
      using mid e(1) ap r2(1) by (subst ma_rem_loop.simps) (simp add: Let_def)
    moreover have "ma_set (?c # as2) = ma_set ((a # as) @ bs) - {addr ..< aend}"
    proof -
      have "ma_rng a - {addr ..< aend} = ma_rng ?c \<union> ma_rng ?b" "ma_rng ?b \<inter> {addr ..< aend} = {}"
        using mid Cons.prems(3) by (auto simp: ma_rng_def)
      with r2(3) show ?thesis by auto
    qed
    ultimately show ?thesis using r2(2,4) cok by auto
  next
    case front
    let ?b = "\<lparr>maddr = aend, msize = ?e - aend\<rparr>"
    have bok: "ma_ok ?b" using front al Cons.prems(5) e(2) by (simp add: ma_ok_def mod_eq_0_iff_dvd dvd_diff_nat)
    have "usub ?e aend = ?e - aend" using front e(2) by (intro usub_small) simp_all
    then have "ma_rem_loop addr aend ((a # as) @ bs) cnt = Some (?b # as', cnt')"
      using front e(1) r(1) by (subst ma_rem_loop.simps) (simp add: Let_def)
    moreover have "ma_set (?b # as') = ma_set ((a # as) @ bs) - {addr ..< aend}"
    proof -
      have "ma_rng a - {addr ..< aend} = ma_rng ?b" using front by (auto simp: ma_rng_def)
      with r(3) show ?thesis by auto
    qed
    ultimately show ?thesis using r(2,4) bok by auto
  next
    case rear
    let ?c = "a\<lparr>msize := addr - maddr a\<rparr>"
    have cok: "ma_ok ?c" using rear al Cons.prems(4) e(2) by (simp add: ma_ok_def mod_eq_0_iff_dvd dvd_diff_nat)
    have "usub addr (maddr a) = addr - maddr a" using rear e(2) by (intro usub_small) simp_all
    then have "ma_rem_loop addr aend ((a # as) @ bs) cnt = Some (?c # as', cnt')"
      using rear e(1) r(1) by (subst ma_rem_loop.simps) (simp add: Let_def)
    moreover have "ma_set (?c # as') = ma_set ((a # as) @ bs) - {addr ..< aend}"
    proof -
      have "ma_rng a - {addr ..< aend} = ma_rng ?c" using rear by (auto simp: ma_rng_def)
      with r(3) show ?thesis by auto
    qed
    ultimately show ?thesis using r(2,4) cok by auto
  next
    case none
    then have "ma_rem_loop addr aend ((a # as) @ bs) cnt = Some (a # as', cnt')"
      using e(1) r(1) Cons.prems(3) by (subst ma_rem_loop.simps) (auto simp: Let_def)
    moreover have "ma_set (a # as') = ma_set ((a # as) @ bs) - {addr ..< aend}"
    proof -
      have "ma_rng a \<inter> {addr ..< aend} = {}" using none by (auto simp: ma_rng_def)
      with r(3) show ?thesis by auto
    qed
    ultimately show ?thesis using r(2,4) ok(1) by auto
  qed
qed


lemma ma_find_area:
  "case ma_find as bytes of None \<Rightarrow> \<forall>a \<in> set as. msize a < bytes | Some b \<Rightarrow> \<exists>a \<in> set as. maddr a = b \<and> bytes \<le> msize a"
  by (induction as) (auto split: option.splits)

section \<open>Properties\<close>

text \<open>\<open>PhysMemAreas::rem\<close> takes exactly the pages that the range touches out of the free memory, however
  many areas it overlaps, as long as the table has a slot for every area it may split.\<close>

theorem ma_rem_contract:
  assumes "\<forall>a \<in> set (mlist s). ma_ok a" "ROUND_PAGE_DN addr < ROUND_PAGE_UP aend" "mcount s + length (mlist s) \<le> MAX_PHYSMEM_AREAS"
  shows "\<exists>s'. ma_rem s addr aend = Some s' \<and> (\<forall>a \<in> set (mlist s'). ma_ok a) \<and>
    ma_set (mlist s') = ma_set (mlist s) - {ROUND_PAGE_DN addr ..< ROUND_PAGE_UP aend}"
proof -
  have al: "ROUND_PAGE_DN addr mod PAGE = 0" "ROUND_PAGE_UP aend mod PAGE = 0" by (simp_all add: ROUND_PAGE_DN_def ROUND_PAGE_UP_def)
  have "ROUND_PAGE_UP aend \<le> uadd aend (PAGE - 1)" by (simp add: ROUND_PAGE_UP_def)
  also have "\<dots> < 2 ^ 32" by (simp add: uadd_def)
  finally have "ROUND_PAGE_UP aend < 2 ^ 32" .
  from ma_rem_loop_ok [of "mlist s" "[]" "ROUND_PAGE_UP aend" "ROUND_PAGE_DN addr" "mcount s"] assms al this
  show ?thesis by (auto simp: ma_rem_def)
qed

theorem ma_rem_contract_witness:
  "\<exists>s'. ma_rem \<lparr>mlist = [\<lparr>maddr = 0x1000, msize = 0x4000\<rparr>], mcount = 1\<rparr> 0x2800 0x2900 = Some s' \<and>
     ma_set (mlist s') = {0x1000 ..< 0x5000} - {0x2000 ..< 0x3000}"
  using ma_rem_contract [of "\<lparr>mlist = [\<lparr>maddr = 0x1000, msize = 0x4000\<rparr>], mcount = 1\<rparr>" "0x2800" "0x2900"]
  by (auto simp: ma_ok_def ROUND_PAGE_DN_def ROUND_PAGE_UP_def uadd_def ma_rng_def)

text \<open>\<open>PhysMemAreas::alloc\<close> returns the first of the asked number of free frames and takes exactly these
  out of the free memory; it fails, without a change, only when no area is large enough.\<close>

theorem ma_alloc_contract:
  assumes "\<forall>a \<in> set (mlist s). ma_ok a" "0 < frames" "frames * PAGE < 2 ^ 32" "mcount s + length (mlist s) \<le> MAX_PHYSMEM_AREAS"
  shows "\<exists>f s'. ma_alloc s frames = Some (f, s') \<and>
    (if \<exists>a \<in> set (mlist s). frames * PAGE \<le> msize a
     then {f * PAGE ..< (f + frames) * PAGE} \<subseteq> ma_set (mlist s) \<and> (\<forall>a \<in> set (mlist s'). ma_ok a) \<and>
       ma_set (mlist s') = ma_set (mlist s) - {f * PAGE ..< (f + frames) * PAGE}
     else f = INVALID_FRAME \<and> s' = s)"
proof (cases "ma_find (mlist s) (frames * PAGE)")
  case None
  with ma_find_area [of "mlist s" "frames * PAGE"] assms(3) show ?thesis
    by (force simp: ma_alloc_def Let_def)
next
  case (Some b)
  with ma_find_area [of "mlist s" "frames * PAGE"] obtain a where a: "a \<in> set (mlist s)" "maddr a = b" "frames * PAGE \<le> msize a"
    by auto
  with assms(1) have ok: "b mod PAGE = 0" "b + msize a < 2 ^ 32" by (auto simp: ma_ok_def)
  have u: "uadd b (frames * PAGE) = b + frames * PAGE" using ok(2) a(3) by (intro uadd_small) simp
  have al: "(b + frames * PAGE) mod PAGE = 0" using ok(1) by simp
  have rd: "ROUND_PAGE_DN b = b" "ROUND_PAGE_UP (b + frames * PAGE) = b + frames * PAGE"
    using ok a(3) al by (auto intro: round_aligned)
  from ma_rem_loop_ok [of "mlist s" "[]" "b + frames * PAGE" b "mcount s"] assms ok a(3) al obtain as cnt where
    r: "ma_rem_loop b (b + frames * PAGE) (mlist s) (mcount s) = Some (as, cnt)" "\<forall>a \<in> set as. ma_ok a"
      "ma_set as = ma_set (mlist s) - {b ..< b + frames * PAGE}" by auto
  have "ma_alloc s frames = Some (b div PAGE, \<lparr>mlist = as, mcount = cnt\<rparr>)"
    using Some assms(3) r(1) u rd by (simp add: ma_alloc_def ma_rem_def Let_def)
  moreover have bd: "b div PAGE * PAGE = b" using ok(1) by auto
  then have "(b div PAGE + frames) * PAGE = b + frames * PAGE" by (simp add: distrib_right)
  moreover have "{b ..< b + frames * PAGE} \<subseteq> ma_set (mlist s)" using a by (auto simp: ma_set_def ma_rng_def intro!: bexI [of _ a])
  ultimately show ?thesis using r(2,3) a(1,3) bd by auto
qed

theorem ma_alloc_contract_witness:
  "\<exists>f s'. ma_alloc \<lparr>mlist = [\<lparr>maddr = 0x1000, msize = 0x1000\<rparr>, \<lparr>maddr = 0x8000, msize = 0x4000\<rparr>], mcount = 2\<rparr> 2 = Some (f, s') \<and>
     ma_set (mlist s') = {0x1000 ..< 0x2000} \<union> {0x8000 ..< 0xC000} - {f * PAGE ..< (f + 2) * PAGE}"
  using ma_alloc_contract [of "\<lparr>mlist = [\<lparr>maddr = 0x1000, msize = 0x1000\<rparr>, \<lparr>maddr = 0x8000, msize = 0x4000\<rparr>], mcount = 2\<rparr>" 2]
  by (auto simp: ma_ok_def ma_rng_def)

end
