(* ===== verification/Sched.thy ===== *)
theory Sched
  imports Prelude Transitions
begin

text \<open>
  The scheduler of the kernel, \<open>kernel/src/task/sched.cc\<close>: ready queues per priority, event lists, and
  the states of the threads.

  A queue is the HOL list of its thread ids. The lists are intrusive: a thread has one pair of links,
  so appending it while it is in a list, or removing it from one it is not in, corrupts memory. The
  model gives such a call no result; that all operations have one is part of what is shown. The
  spinlock makes each operation one step. \<open>CPU::rdtsc\<close> is the argument \<open>now\<close>. Cycle counts are 64-bit
  numbers.
\<close>

section \<open>State\<close>

datatype tstate = RUNNING | READY | BLOCKED | ZOMBIE

record kthread =
  tidle :: bool
  tst :: tstate
  tnew :: tstate
  tprio :: nat
  tevent :: nat
  tevobject :: nat
  twaitstart :: nat
  tblocked :: nat
  tgood :: nat
  tsignal :: bool

record queues =
  rdyQueues :: "nat \<Rightarrow> nat list"
  evlists :: "nat \<Rightarrow> nat list"
  readyMask :: "32 word"
  rdyCount :: nat

record sched =
  qs :: queues
  threads :: "nat \<Rightarrow> kthread"
  idleThreads :: "nat option list"

abbreviation MAX_PRIO :: nat where "MAX_PRIO \<equiv> 4"
abbreviation EV_COUNT :: nat where "EV_COUNT \<equiv> 8"
abbreviation PRIO_FORGIVE_CNT :: nat where "PRIO_FORGIVE_CNT \<equiv> 8"

abbreviation upd_thread :: "sched \<Rightarrow> nat \<Rightarrow> (kthread \<Rightarrow> kthread) \<Rightarrow> sched" where
  "upd_thread s t f \<equiv> s\<lparr>threads := (threads s)(t := f (threads s t))\<rparr>"

definition sched_init :: "nat \<Rightarrow> (nat \<Rightarrow> kthread) \<Rightarrow> sched" where
  "sched_init cpus th = \<lparr>qs = \<lparr>rdyQueues = (\<lambda>_. []), evlists = (\<lambda>_. []), readyMask = 0, rdyCount = 0\<rparr>,
     threads = th, idleThreads = replicate cpus None\<rparr>"

section \<open>Queues\<close>

text \<open>The thread is in some list.\<close>

definition queued :: "queues \<Rightarrow> nat \<Rightarrow> bool" where
  "queued q t \<longleftrightarrow> (\<exists>p \<in> {..MAX_PRIO}. t \<in> set (rdyQueues q p)) \<or> (\<exists>e \<in> {..<EV_COUNT}. t \<in> set (evlists q e))"

definition q_enqueue :: "queues \<Rightarrow> nat \<Rightarrow> nat \<Rightarrow> queues option" where
  "q_enqueue q prio t = do {
     vassert (\<not> queued q t);
     Some (q\<lparr>rdyQueues := (rdyQueues q)(prio := rdyQueues q prio @ [t]),
       readyMask := readyMask q OR push_bit prio 1, rdyCount := rdyCount q + 1\<rparr>) }"

definition q_enqueueQuick :: "queues \<Rightarrow> nat \<Rightarrow> nat \<Rightarrow> queues option" where
  "q_enqueueQuick q prio t = do {
     vassert (\<not> queued q t);
     Some (q\<lparr>rdyQueues := (rdyQueues q)(prio := t # rdyQueues q prio),
       readyMask := readyMask q OR push_bit prio 1, rdyCount := rdyCount q + 1\<rparr>) }"

definition q_dequeue :: "queues \<Rightarrow> nat \<Rightarrow> nat \<Rightarrow> queues option" where
  "q_dequeue q prio t = do {
     vassert (t \<in> set (rdyQueues q prio));
     let ts = remove1 t (rdyQueues q prio);
     Some (q\<lparr>rdyQueues := (rdyQueues q)(prio := ts),
       readyMask := (if length ts = 0 then readyMask q AND NOT (push_bit prio 1) else readyMask q),
       rdyCount := rdyCount q - 1\<rparr>) }"

definition enqueue :: "sched \<Rightarrow> nat \<Rightarrow> sched option" where
  "enqueue s t = do { q \<leftarrow> q_enqueue (qs s) (tprio (threads s t)) t; Some (s\<lparr>qs := q\<rparr>) }"

definition enqueueQuick :: "sched \<Rightarrow> nat \<Rightarrow> sched option" where
  "enqueueQuick s t = do { q \<leftarrow> q_enqueueQuick (qs s) (tprio (threads s t)) t; Some (s\<lparr>qs := q\<rparr>) }"

definition dequeue :: "sched \<Rightarrow> nat \<Rightarrow> sched option" where
  "dequeue s t = do { q \<leftarrow> q_dequeue (qs s) (tprio (threads s t)) t; Some (s\<lparr>qs := q\<rparr>) }"

section \<open>Operations\<close>

definition removeFromEventlist :: "sched \<Rightarrow> nat \<Rightarrow> sched option" where
  "removeFromEventlist s t = (let e = tevent (threads s t) in
     if e \<noteq> 0 then do {
       vassert (t \<in> set (evlists (qs s) (e - 1)));
       Some (upd_thread (s\<lparr>qs := (qs s)\<lparr>evlists := (evlists (qs s))(e - 1 := remove1 t (evlists (qs s) (e - 1)))\<rparr>\<rparr>)
         t (\<lambda>x. x\<lparr>tevent := 0\<rparr>)) }
     else Some s)"

text \<open>The time a thread was blocked is added up when it is no longer.\<close>

definition account_wait :: "nat \<Rightarrow> kthread \<Rightarrow> kthread" where
  "account_wait now x =
     (if twaitstart x > 0 then x\<lparr>tblocked := (tblocked x + (now + 2 ^ 64 - twaitstart x)) mod 2 ^ 64, twaitstart := 0\<rparr> else x)"

definition setReadyState :: "sched \<Rightarrow> nat \<Rightarrow> (bool \<times> sched) option" where
  "setReadyState s t = (case tst (threads s t) of
     ZOMBIE \<Rightarrow> Some (False, s)
   | READY \<Rightarrow> Some (False, s)
   | BLOCKED \<Rightarrow> do { s1 \<leftarrow> removeFromEventlist s t; Some (True, upd_thread s1 t (\<lambda>x. x\<lparr>tst := READY\<rparr>)) }
   | RUNNING \<Rightarrow> None)"

definition setReady :: "nat \<Rightarrow> sched \<Rightarrow> nat \<Rightarrow> sched option" where
  "setReady now s0 t =
     (if tidle (threads s0 t) then Some s0
      else let s = upd_thread s0 t (account_wait now) in
        if tst (threads s t) = RUNNING then do {
          s1 \<leftarrow> removeFromEventlist s t;
          Some (upd_thread s1 t (\<lambda>x. x\<lparr>tnew := READY\<rparr>)) }
        else do {
          (ok, s1) \<leftarrow> setReadyState s t;
          if ok then do { vassert (tevent (threads s1 t) = 0); enqueue s1 t } else Some s1 })"

definition setReadyQuick :: "nat \<Rightarrow> sched \<Rightarrow> nat \<Rightarrow> sched option" where
  "setReadyQuick now s0 t =
     (if tidle (threads s0 t) then Some s0
      else let s = upd_thread s0 t (account_wait now) in
        if tst (threads s t) = RUNNING then do {
          s1 \<leftarrow> removeFromEventlist s t;
          Some (upd_thread s1 t (\<lambda>x. x\<lparr>tnew := READY\<rparr>)) }
        else if tst (threads s t) = READY then do {
          vassert (tevent (threads s t) = 0);
          s1 \<leftarrow> dequeue s t;
          enqueueQuick s1 t }
        else do {
          (ok, s1) \<leftarrow> setReadyState s t;
          if ok then do { vassert (tevent (threads s1 t) = 0); enqueueQuick s1 t } else Some s1 })"

definition setBlocked :: "nat \<Rightarrow> sched \<Rightarrow> nat \<Rightarrow> sched option" where
  "setBlocked now s t = do {
     s1 \<leftarrow> (case tst (threads s t) of
       ZOMBIE \<Rightarrow> Some s
     | BLOCKED \<Rightarrow> Some s
     | RUNNING \<Rightarrow> Some (upd_thread s t (\<lambda>x. x\<lparr>tnew := BLOCKED\<rparr>))
     | READY \<Rightarrow> dequeue (upd_thread s t (\<lambda>x. x\<lparr>tst := BLOCKED\<rparr>)) t);
     Some (upd_thread s1 t (\<lambda>x. x\<lparr>twaitstart := now\<rparr>)) }"

text \<open>\<open>wait\<close> of the running thread; \<open>event\<close> 0 is no event.\<close>

definition sched_wait :: "nat \<Rightarrow> sched \<Rightarrow> nat \<Rightarrow> nat \<Rightarrow> nat \<Rightarrow> sched option" where
  "sched_wait now s t event object = do {
     vassert (tevent (threads s t) = 0);
     vassert (tst (threads s t) = RUNNING);
     s1 \<leftarrow> setBlocked now (upd_thread s t (\<lambda>x. x\<lparr>tevent := event, tevobject := object\<rparr>)) t;
     if event \<noteq> 0 then do {
       vassert (event \<le> EV_COUNT \<and> \<not> queued (qs s1) t);
       Some (s1\<lparr>qs := (qs s1)\<lparr>evlists := (evlists (qs s1))(event - 1 := evlists (qs s1) (event - 1) @ [t])\<rparr>\<rparr>) }
     else Some s1 }"

fun wakeup_loop :: "nat \<Rightarrow> sched \<Rightarrow> nat \<Rightarrow> nat \<Rightarrow> bool \<Rightarrow> nat list \<Rightarrow> sched option" where
  "wakeup_loop now s event object all [] = Some s"
| "wakeup_loop now s event object all (t # ts) = do {
     vassert (tevent (threads s t) = event);
     if tevobject (threads s t) = 0 \<or> tevobject (threads s t) = object then do {
       s1 \<leftarrow> removeFromEventlist s t;
       s2 \<leftarrow> setReady now s1 t;
       if all then wakeup_loop now s2 event object all ts else Some s2 }
     else wakeup_loop now s event object all ts }"

definition wakeup :: "nat \<Rightarrow> sched \<Rightarrow> nat \<Rightarrow> nat \<Rightarrow> bool \<Rightarrow> sched option" where
  "wakeup now s event object all = do {
     vassert (1 \<le> event \<and> event \<le> EV_COUNT);
     wakeup_loop now s event object all (evlists (qs s) (event - 1)) }"

definition sched_removeThread :: "sched \<Rightarrow> nat \<Rightarrow> sched option" where
  "sched_removeThread s t = do {
     s1 \<leftarrow> (case tst (threads s t) of
       RUNNING \<Rightarrow> Some s
     | BLOCKED \<Rightarrow> removeFromEventlist s t
     | READY \<Rightarrow> dequeue s t
     | ZOMBIE \<Rightarrow> None);
     Some (upd_thread s1 t (\<lambda>x. x\<lparr>tnew := ZOMBIE\<rparr>)) }"

text \<open>Change the priority of a thread, in its queue when it is ready.\<close>

definition reprio :: "sched \<Rightarrow> nat \<Rightarrow> nat \<Rightarrow> sched option" where
  "reprio s t prio = do {
     s1 \<leftarrow> (if tst (threads s t) = READY then dequeue s t else Some s);
     vassert (prio \<le> MAX_PRIO);
     let s2 = upd_thread s1 t (\<lambda>x. x\<lparr>tprio := prio\<rparr>);
     if tst (threads s2 t) = READY then enqueue s2 t else Some s2 }"

text \<open>Lower or raise the priority, by the time the thread was blocked.\<close>

definition adjust_level :: "sched \<Rightarrow> nat \<Rightarrow> nat \<Rightarrow> sched option" where
  "adjust_level s t total_c = (let x = threads s t in
     if tblocked x < total_c div 6 then do {
       s1 \<leftarrow> (if tprio x > 0 then reprio s t (tprio x - 1) else Some s);
       Some (upd_thread s1 t (\<lambda>x. x\<lparr>tgood := 0\<rparr>)) }
     else if tblocked x \<ge> total_c div 2 \<and> tprio x < MAX_PRIO then
       let s1 = upd_thread s t (\<lambda>x. x\<lparr>tgood := (tgood x + 1) mod 256\<rparr>) in
       if (tgood x + 1) mod 256 = PRIO_FORGIVE_CNT then do {
         s2 \<leftarrow> reprio s1 t (tprio x + 1);
         Some (upd_thread s2 t (\<lambda>x. x\<lparr>tgood := 0\<rparr>)) }
       else Some s1
     else Some s)"

definition adjustPrio :: "nat \<Rightarrow> sched \<Rightarrow> nat \<Rightarrow> nat \<Rightarrow> sched option" where
  "adjustPrio now s0 t total_c = do {
     let s = (if twaitstart (threads s0 t) > 0
       then upd_thread s0 t (\<lambda>x. x\<lparr>tblocked := (tblocked x + (now + 2 ^ 64 - twaitstart x)) mod 2 ^ 64, twaitstart := now\<rparr>)
       else s0);
     s1 \<leftarrow> adjust_level s t total_c;
     Some (upd_thread s1 t (\<lambda>x. x\<lparr>tblocked := 0\<rparr>)) }"

text \<open>
  The loop of \<open>perform\<close> over the priorities below \<open>i\<close>: the thread that is taken, which is \<open>old\<close> itself
  when the last queue is left over after \<open>old\<close> was put back.
\<close>

fun pick :: "queues \<Rightarrow> nat option \<Rightarrow> nat \<Rightarrow> nat option \<times> queues" where
  "pick q old 0 = (None, q)"
| "pick q old (Suc i) = (case rdyQueues q i of
     [] \<Rightarrow> pick q old i
   | t # ts \<Rightarrow>
     if rdyCount q > 1 \<and> old = Some t then
       let q' = q\<lparr>rdyQueues := (rdyQueues q)(i := ts @ [t])\<rparr> in
       if i = 0 then (Some t, q') else pick q' old i
     else (Some t, q\<lparr>rdyQueues := (rdyQueues q)(i := ts),
       readyMask := (if length ts = 0 then readyMask q AND NOT (push_bit i 1) else readyMask q),
       rdyCount := rdyCount q - 1\<rparr>))"

text \<open>The new state of the old thread; the flag says that it goes on because of a signal.\<close>

definition retire :: "sched \<Rightarrow> nat \<Rightarrow> (bool \<times> sched) option" where
  "retire s t = (let x = threads s t in
     if tidle x then Some (False, upd_thread s t (\<lambda>x. x\<lparr>tst := BLOCKED\<rparr>))
     else do {
       vassert (tst x = RUNNING);
       if tnew x \<noteq> ZOMBIE \<and> tsignal x then do {
         s1 \<leftarrow> removeFromEventlist (upd_thread s t (\<lambda>x. x\<lparr>tnew := READY, twaitstart := 0\<rparr>)) t;
         Some (True, s1) }
       else (case tnew x of
         READY \<Rightarrow> do {
           vassert (tevent x = 0);
           s1 \<leftarrow> enqueue (upd_thread s t (\<lambda>x. x\<lparr>tst := READY\<rparr>)) t;
           Some (False, s1) }
       | RUNNING \<Rightarrow> None
       | st \<Rightarrow> Some (False, upd_thread s t (\<lambda>x. x\<lparr>tst := st\<rparr>))) })"

text \<open>The thread to run, the new state, and whether another CPU is woken.\<close>

definition perform :: "sched \<Rightarrow> nat option \<Rightarrow> nat \<Rightarrow> (nat \<times> sched \<times> bool) option" where
  "perform s old cpu = do {
     (again, s1) \<leftarrow> (case old of None \<Rightarrow> Some (False, s) | Some t \<Rightarrow> retire s t);
     if again then Some (the old, s1, False)
     else (case pick (qs s1) old (Suc MAX_PRIO) of (r, q) \<Rightarrow> do {
       let s2 = s1\<lparr>qs := q\<rparr>;
       (t, s3) \<leftarrow> (case r of
         None \<Rightarrow> do {
           vassert (cpu < length (idleThreads s2));
           t \<leftarrow> idleThreads s2 ! cpu;
           Some (t, upd_thread s2 t (\<lambda>x. x\<lparr>tst := RUNNING\<rparr>)) }
       | Some t \<Rightarrow> Some (t, upd_thread s2 t (\<lambda>x. x\<lparr>tst := RUNNING, tnew := READY\<rparr>)));
       Some (t, s3, rdyCount (qs s3) > 0) }) }"

text \<open>The first free slot gets the idle thread.\<close>

fun add_idle :: "nat option list \<Rightarrow> nat \<Rightarrow> nat option list" where
  "add_idle [] t = []"
| "add_idle (i # is) t = (if i = None then Some t # is else i # add_idle is t)"

definition addIdleThread :: "sched \<Rightarrow> nat \<Rightarrow> sched" where
  "addIdleThread s t = s\<lparr>idleThreads := add_idle (idleThreads s) t\<rparr>"

section \<open>Queue invariant\<close>

text \<open>
  \<open>rd t\<close> is the ready queue in which thread \<open>t\<close> has to be, \<open>ev t\<close> its event list. The queues hold exactly
  these threads, a thread is in one list at most, and mask and count agree with the queues.
\<close>

definition qinv :: "queues \<Rightarrow> (nat \<rightharpoonup> nat) \<Rightarrow> (nat \<rightharpoonup> nat) \<Rightarrow> bool" where
  "qinv q rd ev \<longleftrightarrow>
     (\<forall>p. distinct (rdyQueues q p) \<and> set (rdyQueues q p) = {t. rd t = Some p}) \<and>
     (\<forall>e. distinct (evlists q e) \<and> set (evlists q e) = {t. ev t = Some e}) \<and>
     (\<forall>p \<le> MAX_PRIO. bit (readyMask q) p \<longleftrightarrow> rdyQueues q p \<noteq> []) \<and>
     rdyCount q = (\<Sum>p \<le> MAX_PRIO. length (rdyQueues q p)) \<and>
     (\<forall>t p. rd t = Some p \<longrightarrow> p \<le> MAX_PRIO \<and> ev t = None) \<and> (\<forall>t e. ev t = Some e \<longrightarrow> e < EV_COUNT)"

lemma qinvD:
  assumes "qinv q rd ev"
  shows "distinct (rdyQueues q p)" "t \<in> set (rdyQueues q p) \<longleftrightarrow> rd t = Some p"
    "distinct (evlists q e)" "t \<in> set (evlists q e) \<longleftrightarrow> ev t = Some e"
    "p \<le> MAX_PRIO \<Longrightarrow> bit (readyMask q) p \<longleftrightarrow> rdyQueues q p \<noteq> []"
    "rdyCount q = (\<Sum>p \<le> MAX_PRIO. length (rdyQueues q p))"
    "rd t = Some p \<Longrightarrow> p \<le> MAX_PRIO" "rd t = Some p \<Longrightarrow> ev t = None" "ev t = Some e \<Longrightarrow> e < EV_COUNT"
  using assms by (auto simp: qinv_def)

lemma qinvI:
  assumes "\<And>p. distinct (rdyQueues q p)" "\<And>p t. t \<in> set (rdyQueues q p) \<longleftrightarrow> rd t = Some p"
    "\<And>e. distinct (evlists q e)" "\<And>e t. t \<in> set (evlists q e) \<longleftrightarrow> ev t = Some e"
    "\<And>p. p \<le> MAX_PRIO \<Longrightarrow> bit (readyMask q) p \<longleftrightarrow> rdyQueues q p \<noteq> []"
    "rdyCount q = (\<Sum>p \<le> MAX_PRIO. length (rdyQueues q p))"
    "\<And>t p. rd t = Some p \<Longrightarrow> p \<le> MAX_PRIO" "\<And>t p. rd t = Some p \<Longrightarrow> ev t = None" "\<And>t e. ev t = Some e \<Longrightarrow> e < EV_COUNT"
  shows "qinv q rd ev"
  using assms by (auto simp: qinv_def)

lemma queued_iff: "qinv q rd ev \<Longrightarrow> queued q t \<longleftrightarrow> rd t \<noteq> None \<or> ev t \<noteq> None"
  using qinvD(2,4,7,9) by (fastforce simp: queued_def)

lemma mask_set: "p \<le> MAX_PRIO \<Longrightarrow> k \<le> MAX_PRIO \<Longrightarrow> bit (m OR push_bit p (1 :: 32 word)) k \<longleftrightarrow> bit m k \<or> k = p"
  by (auto simp: bit_simps)

lemma mask_clear: "p \<le> MAX_PRIO \<Longrightarrow> k \<le> MAX_PRIO \<Longrightarrow> bit (m AND NOT (push_bit p (1 :: 32 word))) k \<longleftrightarrow> bit m k \<and> k \<noteq> p"
  by (auto simp: bit_simps)

lemma sum_upd: "p \<le> (n :: nat) \<Longrightarrow> (\<Sum>k \<le> n. length ((f(p := xs)) k)) + length (f p) = (\<Sum>k \<le> n. length (f k)) + length xs"
proof -
  assume p: "p \<le> n"
  have "(\<Sum>k \<le> n. length (g k)) = length (g p) + (\<Sum>k \<in> {..n} - {p}. length (g k))" for g :: "nat \<Rightarrow> 'a list"
    using p by (intro sum.remove) auto
  from this [of "f(p := xs)"] this [of f] show ?thesis by simp
qed

text \<open>A thread enters queue \<open>p\<close>, at whichever end.\<close>

lemma qinv_enter:
  assumes "qinv q rd ev" "rd t = None" "ev t = None" "p \<le> MAX_PRIO" "distinct ts" "set ts = insert t (set (rdyQueues q p))"
    "length ts = length (rdyQueues q p) + 1"
  shows "qinv (q\<lparr>rdyQueues := (rdyQueues q)(p := ts), readyMask := readyMask q OR push_bit p 1, rdyCount := rdyCount q + 1\<rparr>)
    (rd(t \<mapsto> p)) ev"
proof (rule qinvI)
  note D = qinvD [OF assms(1)]
  have ts: "ts \<noteq> []" using assms(6) by auto
  show "u \<in> set (rdyQueues (q\<lparr>rdyQueues := (rdyQueues q)(p := ts), readyMask := readyMask q OR push_bit p 1,
      rdyCount := rdyCount q + 1\<rparr>) k) \<longleftrightarrow> (rd(t \<mapsto> p)) u = Some k" for k u
    using D(2) assms(2,6) by auto
  show "rdyCount (q\<lparr>rdyQueues := (rdyQueues q)(p := ts), readyMask := readyMask q OR push_bit p 1, rdyCount := rdyCount q + 1\<rparr>) =
      (\<Sum>k \<le> MAX_PRIO. length (rdyQueues (q\<lparr>rdyQueues := (rdyQueues q)(p := ts), readyMask := readyMask q OR push_bit p 1,
        rdyCount := rdyCount q + 1\<rparr>) k))"
    using D(6) sum_upd [OF assms(4), of "rdyQueues q" ts] assms(7) by simp
qed (use qinvD [OF assms(1)] assms mask_set [OF assms(4)] in \<open>auto split: if_splits\<close>)

lemma qinv_leave:
  assumes "qinv q rd ev" "rd t = Some p" "distinct ts" "set ts = set (rdyQueues q p) - {t}"
    "length (rdyQueues q p) = length ts + 1"
  shows "qinv (q\<lparr>rdyQueues := (rdyQueues q)(p := ts),
      readyMask := (if length ts = 0 then readyMask q AND NOT (push_bit p 1) else readyMask q), rdyCount := rdyCount q - 1\<rparr>)
    (rd(t := None)) ev"
    (is "qinv ?q _ _")
proof (rule qinvI)
  note D = qinvD [OF assms(1)]
  have p: "p \<le> MAX_PRIO" by (rule D(7) [OF assms(2)])
  show "u \<in> set (rdyQueues ?q k) \<longleftrightarrow> (rd(t := None)) u = Some k" for k u
    using D(2) assms(2,4) by auto
  show "rdyCount ?q = (\<Sum>k \<le> MAX_PRIO. length (rdyQueues ?q k))"
    using D(6) sum_upd [OF p, of "rdyQueues q" ts] assms(5) by simp
  show "bit (readyMask ?q) k \<longleftrightarrow> rdyQueues ?q k \<noteq> []" if k: "k \<le> MAX_PRIO" for k
    using D(5) [OF k] D(5) [OF p] D(2) [of t p] assms(2) mask_clear [OF p k, of "readyMask q"] by (cases "k = p") auto
qed (use qinvD [OF assms(1)] assms in \<open>auto split: if_splits\<close>)

lemma qinv_event_add:
  assumes "qinv q rd ev" "rd t = None" "ev t = None" "e < EV_COUNT"
  shows "qinv (q\<lparr>evlists := (evlists q)(e := evlists q e @ [t])\<rparr>) rd (ev(t \<mapsto> e))"
  by (rule qinvI) (use qinvD [OF assms(1)] assms(2-) in \<open>auto split: if_splits\<close>)

lemma qinv_event_remove:
  assumes "qinv q rd ev" "ev t = Some e"
  shows "qinv (q\<lparr>evlists := (evlists q)(e := remove1 t (evlists q e))\<rparr>) rd (ev(t := None))"
  by (rule qinvI) (use qinvD [OF assms(1)] assms(2-) in \<open>auto split: if_splits\<close>)

lemma q_enqueue_inv:
  assumes "qinv q rd ev" "rd t = None" "ev t = None" "p \<le> MAX_PRIO"
  shows "\<exists>q'. q_enqueue q p t = Some q' \<and> qinv q' (rd(t \<mapsto> p)) ev \<and> rdyQueues q' p = rdyQueues q p @ [t]"
  using qinv_enter [OF assms, of "rdyQueues q p @ [t]"] queued_iff [OF assms(1), of t] qinvD(1,2) [OF assms(1)] assms(2,3)
  by (auto simp: q_enqueue_def)

lemma q_enqueueQuick_inv:
  assumes "qinv q rd ev" "rd t = None" "ev t = None" "p \<le> MAX_PRIO"
  shows "\<exists>q'. q_enqueueQuick q p t = Some q' \<and> qinv q' (rd(t \<mapsto> p)) ev"
  using qinv_enter [OF assms, of "t # rdyQueues q p"] queued_iff [OF assms(1), of t] qinvD(1,2) [OF assms(1)] assms(2,3)
  by (auto simp: q_enqueueQuick_def)

lemma q_dequeue_inv:
  assumes "qinv q rd ev" "rd t = Some p"
  shows "\<exists>q'. q_dequeue q p t = Some q' \<and> qinv q' (rd(t := None)) ev"
proof -
  have t: "t \<in> set (rdyQueues q p)" "distinct (rdyQueues q p)" using qinvD(1,2) [OF assms(1)] assms(2) by auto
  then have "length (rdyQueues q p) = length (remove1 t (rdyQueues q p)) + 1"
    by (simp add: length_remove1) (metis Suc_pred length_pos_if_in_set)
  with qinv_leave [OF assms, of "remove1 t (rdyQueues q p)"] t show ?thesis by (simp add: q_dequeue_def Let_def set_remove1_eq)
qed

section \<open>The choice of the next thread\<close>

text \<open>Queue \<open>k\<close> has a thread to offer.\<close>

definition offers :: "queues \<Rightarrow> nat option \<Rightarrow> nat \<Rightarrow> bool" where
  "offers q old k \<longleftrightarrow> rdyQueues q k \<noteq> [] \<and> \<not> (rdyCount q > 1 \<and> old = Some (hd (rdyQueues q k)))"

definition take_first :: "queues \<Rightarrow> nat \<Rightarrow> queues" where
  "take_first q k = q\<lparr>rdyQueues := (rdyQueues q)(k := tl (rdyQueues q k)),
     readyMask := (if length (tl (rdyQueues q k)) = 0 then readyMask q AND NOT (push_bit k 1) else readyMask q),
     rdyCount := rdyCount q - 1\<rparr>"

lemma pick_result:
  assumes "\<And>k t ts. rdyQueues q k = t # ts \<Longrightarrow> old = Some t \<Longrightarrow> rdyCount q > 1 \<Longrightarrow> ts = []"
    and "(\<exists>k < i. offers q old k) \<or> (\<forall>k < i. rdyQueues q k = [])"
  shows "(\<forall>k < i. rdyQueues q k = []) \<and> pick q old i = (None, q) \<or>
    (\<exists>k < i. offers q old k \<and> (\<forall>j < i. k < j \<longrightarrow> \<not> offers q old j) \<and> pick q old i = (Some (hd (rdyQueues q k)), take_first q k))"
  using assms(2)
proof (induction i)
  case (Suc i)
  show ?case
  proof (cases "rdyQueues q i")
    case Nil
    then have no: "\<not> offers q old i" by (simp add: offers_def)
    with Suc.prems Nil have "(\<exists>k < i. offers q old k) \<or> (\<forall>k < i. rdyQueues q k = [])" by (auto simp: less_Suc_eq)
    from Suc.IH [OF this] no Nil show ?thesis by (auto simp: less_Suc_eq)
  next
    case (Cons t ts)
    show ?thesis
    proof (cases "rdyCount q > 1 \<and> old = Some t")
      case True
      with assms(1) [OF Cons] have ts: "ts = []" by simp
      have same: "q\<lparr>rdyQueues := (rdyQueues q)(i := ts @ [t])\<rparr> = q" using Cons ts by (simp add: fun_upd_idem)
      have no: "\<not> offers q old i" using True Cons by (simp add: offers_def)
      with Suc.prems Cons have ex: "\<exists>k < i. offers q old k" by (auto simp: less_Suc_eq)
      then have "pick q old (Suc i) = pick q old i" using Cons True same by (auto simp: Let_def)
      with Suc.IH ex no show ?thesis by (auto simp: less_Suc_eq offers_def)
    next
      case False
      then have "offers q old i" "pick q old (Suc i) = (Some (hd (rdyQueues q i)), take_first q i)"
        using Cons by (auto simp: offers_def take_first_def)
      then show ?thesis by (intro disjI2 exI [of _ i]) auto
    qed
  qed
qed simp

lemma take_first_inv:
  assumes "qinv q rd ev" "rdyQueues q k = t # ts"
  shows "qinv (take_first q k) (rd(t := None)) ev" "rd t = Some k"
proof -
  show r: "rd t = Some k" using qinvD(2) [OF assms(1), of t k] assms(2) by simp
  have "distinct (t # ts)" using qinvD(1) [OF assms(1), of k] assms(2) by simp
  then show "qinv (take_first q k) (rd(t := None)) ev"
    unfolding take_first_def using qinv_leave [OF assms(1) r, of "tl (rdyQueues q k)"] assms(2) by auto
qed

text \<open>The old thread is in no queue, or the last in its queue.\<close>

definition old_last :: "queues \<Rightarrow> nat option \<Rightarrow> bool" where
  "old_last q old \<longleftrightarrow> (\<forall>t k. old = Some t \<and> t \<in> set (rdyQueues q k) \<longrightarrow> last (rdyQueues q k) = t)"

lemma pick_choice:
  assumes inv: "qinv q rd ev" and old: "old_last q old"
  shows "(\<forall>k \<le> MAX_PRIO. rdyQueues q k = []) \<and> pick q old (Suc MAX_PRIO) = (None, q) \<or>
    (\<exists>k \<le> MAX_PRIO. offers q old k \<and> (\<forall>j \<le> MAX_PRIO. k < j \<longrightarrow> \<not> offers q old j) \<and>
      pick q old (Suc MAX_PRIO) = (Some (hd (rdyQueues q k)), take_first q k))"
proof -
  have single: "ts = []" if "rdyQueues q k = t # ts" "old = Some t" for k t ts
  proof (rule ccontr)
    assume ne: "ts \<noteq> []"
    have "last (rdyQueues q k) = t" using old that unfolding old_last_def by (metis list.set_intros(1))
    then have "last (t # ts) = t" by (simp only: that(1))
    with ne have "t \<in> set ts" by (metis last_ConsR last_in_set)
    with qinvD(1) [OF inv, of k] that(1) show False by simp
  qed
  have "(\<exists>k < Suc MAX_PRIO. offers q old k) \<or> (\<forall>k < Suc MAX_PRIO. rdyQueues q k = [])"
  proof (rule ccontr)
    assume "\<not> ?thesis"
    then obtain k where no: "\<And>j. j \<le> MAX_PRIO \<Longrightarrow> \<not> offers q old j" and k: "k \<le> MAX_PRIO" "rdyQueues q k \<noteq> []"
      unfolding less_Suc_eq_le by blast
    with no [OF k(1)] obtain t where t: "rdyCount q > 1" "old = Some t" "rdyQueues q k = [t]"
      using single by (cases "rdyQueues q k") (auto simp: offers_def)
    have "rdyQueues q j = []" if "j \<le> MAX_PRIO" "j \<noteq> k" for j
    proof (rule ccontr)
      assume ne: "rdyQueues q j \<noteq> []"
      with no [OF that(1)] t have "hd (rdyQueues q j) = t" by (auto simp: offers_def)
      with ne have "t \<in> set (rdyQueues q j)" "t \<in> set (rdyQueues q k)" using t(3) hd_in_set by auto
      with qinvD(2) [OF inv] that(2) show False by simp
    qed
    then have "(\<Sum>j \<in> {..MAX_PRIO} - {k}. length (rdyQueues q j)) = 0" by simp
    moreover have "(\<Sum>j \<le> MAX_PRIO. length (rdyQueues q j)) = length (rdyQueues q k) + (\<Sum>j \<in> {..MAX_PRIO} - {k}. length (rdyQueues q j))"
      using k(1) by (intro sum.remove) auto
    ultimately show False using qinvD(6) [OF inv] t(1,3) by simp
  qed
  from pick_result [of q old, OF single this] show ?thesis unfolding less_Suc_eq_le .
qed

section \<open>Scheduler invariant\<close>

definition rdf :: "(nat \<Rightarrow> kthread) \<Rightarrow> nat \<rightharpoonup> nat" where
  "rdf th t = (if tst (th t) = READY then Some (tprio (th t)) else None)"

definition evf :: "(nat \<Rightarrow> kthread) \<Rightarrow> nat \<rightharpoonup> nat" where
  "evf th t = (if tevent (th t) = 0 then None else Some (tevent (th t) - 1))"

definition tinv :: "kthread \<Rightarrow> bool" where
  "tinv x \<longleftrightarrow> tprio x \<le> MAX_PRIO \<and> tevent x \<le> EV_COUNT \<and> (tidle x \<longrightarrow> tst x \<noteq> READY \<and> tevent x = 0) \<and>
     (tst x = RUNNING \<and> tevent x \<noteq> 0 \<longrightarrow> tnew x \<noteq> READY) \<and> tnew x \<noteq> RUNNING"

definition sinv :: "sched \<Rightarrow> bool" where
  "sinv s \<longleftrightarrow> qinv (qs s) (rdf (threads s)) (evf (threads s)) \<and> (\<forall>t. tinv (threads s t)) \<and>
     (\<forall>t. Some t \<in> set (idleThreads s) \<longrightarrow> tidle (threads s t))"

lemma rdf_upd: "rdf (th(t := x)) = (rdf th)(t := if tst x = READY then Some (tprio x) else None)"
  by (auto simp: rdf_def)

lemma evf_upd: "evf (th(t := x)) = (evf th)(t := if tevent x = 0 then None else Some (tevent x - 1))"
  by (auto simp: evf_def)

lemmas qfun = rdf_upd evf_upd rdf_def evf_def

text \<open>A change of one thread, its queues included.\<close>

lemma sinv_thread:
  assumes "sinv s" "qinv q ((rdf (threads s))(t := if tst x = READY then Some (tprio x) else None))
      ((evf (threads s))(t := if tevent x = 0 then None else Some (tevent x - 1)))"
    "tinv x" "tidle x = tidle (threads s t)"
  shows "sinv (s\<lparr>qs := q, threads := (threads s)(t := x)\<rparr>)"
  using assms by (auto simp: sinv_def rdf_upd evf_upd)

lemma sinv_same:
  assumes "sinv s" "tst x = tst (threads s t)" "tprio x = tprio (threads s t)" "tevent x = tevent (threads s t)"
    "tidle x = tidle (threads s t)" "tnew x = tnew (threads s t) \<or> (tnew x \<noteq> RUNNING \<and> tnew x \<noteq> READY)"
  shows "sinv (s\<lparr>threads := (threads s)(t := x)\<rparr>)"
proof -
  have "(rdf (threads s))(t := if tst x = READY then Some (tprio x) else None) = rdf (threads s)"
    "(evf (threads s))(t := if tevent x = 0 then None else Some (tevent x - 1)) = evf (threads s)"
    using assms(2-4) by (auto simp: rdf_def evf_def)
  moreover have "tinv (threads s t)" using assms(1) by (simp add: sinv_def)
  then have "tinv x" using assms(2-) by (auto simp: tinv_def)
  ultimately show ?thesis using sinv_thread [OF assms(1), of "qs s" t x] assms(1,5) by (simp add: sinv_def)
qed

lemma removeFromEventlist_qinv:
  assumes inv: "qinv (qs s) (rdf (threads s)) (evf (threads s))"
  shows "\<exists>q. removeFromEventlist s t = Some (s\<lparr>qs := q, threads := (threads s)(t := (threads s t)\<lparr>tevent := 0\<rparr>)\<rparr>) \<and>
    qinv q (rdf (threads s)) ((evf (threads s))(t := None)) \<and> rdyQueues q = rdyQueues (qs s)"
proof (cases "tevent (threads s t) = 0")
  case True
  then have "(threads s t)\<lparr>tevent := 0\<rparr> = threads s t" by simp
  then have "s\<lparr>qs := qs s, threads := (threads s)(t := (threads s t)\<lparr>tevent := 0\<rparr>)\<rparr> = s" by (simp only: fun_upd_triv) simp
  with True inv show ?thesis
    by (intro exI [of _ "qs s"]) (simp add: removeFromEventlist_def Let_def evf_def fun_upd_idem)
next
  case False
  let ?e = "tevent (threads s t) - 1"
  have e: "evf (threads s) t = Some ?e" using False by (simp add: evf_def)
  have "t \<in> set (evlists (qs s) ?e)" using qinvD(4) [OF inv] e by simp
  with False qinv_event_remove [OF inv e] show ?thesis
    by (intro exI [of _ "(qs s)\<lparr>evlists := (evlists (qs s))(?e := remove1 t (evlists (qs s) ?e))\<rparr>"])
      (simp add: removeFromEventlist_def Let_def)
qed

lemma removeFromEventlist_inv:
  assumes "sinv s"
  shows "\<exists>q. removeFromEventlist s t = Some (s\<lparr>qs := q, threads := (threads s)(t := (threads s t)\<lparr>tevent := 0\<rparr>)\<rparr>) \<and>
    qinv q (rdf (threads s)) ((evf (threads s))(t := None)) \<and> rdyQueues q = rdyQueues (qs s)"
  using assms by (intro removeFromEventlist_qinv) (simp add: sinv_def)

section \<open>Operations keep the invariant\<close>

lemma sched_upd_order [simp]: "s\<lparr>threads := x, qs := q\<rparr> = s\<lparr>qs := q, threads := x\<rparr>"
  by simp

lemma sinvD:
  assumes "sinv s"
  shows "qinv (qs s) (rdf (threads s)) (evf (threads s))" "tinv (threads s t)" "Some t \<in> set (idleThreads s) \<Longrightarrow> tidle (threads s t)"
  using assms by (auto simp: sinv_def)

lemma evf_ready: "sinv s \<Longrightarrow> tst (threads s t) = READY \<Longrightarrow> tevent (threads s t) = 0"
  using qinvD(8) [OF sinvD(1), of s t "tprio (threads s t)"] by (auto simp: rdf_def evf_def split: if_splits)

lemma setReady_inv:
  assumes s0: "sinv s0"
  shows "\<exists>s'. setReady now s0 t = Some s' \<and> sinv s' \<and> (\<forall>u. u \<noteq> t \<longrightarrow> threads s' u = threads s0 u) \<and> idleThreads s' = idleThreads s0"
proof (cases "tidle (threads s0 t)")
  case True
  with s0 show ?thesis by (simp add: setReady_def)
next
  case False
  define s where "s = upd_thread s0 t (account_wait now)"
  have s: "sinv s" unfolding s_def by (rule sinv_same [OF s0]) (simp_all add: account_wait_def)
  have fr: "u \<noteq> t \<Longrightarrow> threads s u = threads s0 u" "idleThreads s = idleThreads s0" "tidle (threads s t) = tidle (threads s0 t)" for u
    by (simp_all add: s_def account_wait_def)
  have df: "setReady now s0 t = (if tst (threads s t) = RUNNING then do {
          s1 \<leftarrow> removeFromEventlist s t;
          Some (upd_thread s1 t (\<lambda>x. x\<lparr>tnew := READY\<rparr>)) }
        else do {
          (ok, s1) \<leftarrow> setReadyState s t;
          if ok then do { vassert (tevent (threads s1 t) = 0); enqueue s1 t } else Some s1 })"
    using False by (simp add: setReady_def s_def Let_def)
  note ti = sinvD(2) [OF s, of t, unfolded tinv_def]
  from removeFromEventlist_inv [OF s, of t] obtain q where
    r: "removeFromEventlist s t = Some (s\<lparr>qs := q, threads := (threads s)(t := (threads s t)\<lparr>tevent := 0\<rparr>)\<rparr>)"
      "qinv q (rdf (threads s)) ((evf (threads s))(t := None))" by blast
  show ?thesis
  proof (cases "tst (threads s t)")
    case RUNNING
    let ?x = "(threads s t)\<lparr>tevent := 0, tnew := READY\<rparr>"
    have "rdf (threads s) t = None" using RUNNING by (simp add: rdf_def)
    then have "sinv (s\<lparr>qs := q, threads := (threads s)(t := ?x)\<rparr>)"
      using r(2) ti RUNNING by (intro sinv_thread [OF s]) (simp_all add: tinv_def fun_upd_idem)
    then show ?thesis unfolding df using r(1) RUNNING fr by simp
  next
    case BLOCKED
    let ?x = "(threads s t)\<lparr>tevent := 0, tst := READY\<rparr>" and ?p = "tprio (threads s t)"
    have n: "rdf (threads s) t = None" using BLOCKED by (simp add: rdf_def)
    from q_enqueue_inv [OF r(2), of t ?p] n ti obtain q' where q': "q_enqueue q ?p t = Some q'"
      "qinv q' ((rdf (threads s))(t \<mapsto> ?p)) ((evf (threads s))(t := None))" by auto
    then have "sinv (s\<lparr>qs := q', threads := (threads s)(t := ?x)\<rparr>)"
      using ti False fr(3) by (intro sinv_thread [OF s]) (simp_all add: tinv_def)
    then show ?thesis unfolding df using r(1) BLOCKED q'(1) fr by (simp add: setReadyState_def enqueue_def)
  qed (use s fr in \<open>simp_all add: df setReadyState_def\<close>)
qed

lemma setReadyQuick_inv:
  assumes s0: "sinv s0"
  shows "\<exists>s'. setReadyQuick now s0 t = Some s' \<and> sinv s'"
proof (cases "tidle (threads s0 t) \<or> tst (threads s0 t) \<noteq> READY \<and> tst (threads s0 t) \<noteq> BLOCKED")
  case True
  then have "setReadyQuick now s0 t = setReady now s0 t"
    by (auto simp: setReadyQuick_def setReady_def setReadyState_def Let_def account_wait_def split: tstate.splits)
  with setReady_inv [OF s0] show ?thesis by metis
next
  case False
  define s where "s = upd_thread s0 t (account_wait now)"
  have s: "sinv s" unfolding s_def by (rule sinv_same [OF s0]) (simp_all add: account_wait_def)
  have fr: "\<not> tidle (threads s t)" "tst (threads s t) = tst (threads s0 t)" using False by (simp_all add: s_def account_wait_def)
  note ti = sinvD(2) [OF s, of t, unfolded tinv_def]
  let ?p = "tprio (threads s t)"
  show ?thesis
  proof (cases "tst (threads s t) = READY")
    case True
    have ev: "tevent (threads s t) = 0" by (rule evf_ready [OF s True])
    have p: "rdf (threads s) t = Some ?p" using True by (simp add: rdf_def)
    from q_dequeue_inv [OF sinvD(1) [OF s] p] obtain q1 where q1: "q_dequeue (qs s) ?p t = Some q1"
      "qinv q1 ((rdf (threads s))(t := None)) (evf (threads s))" by blast
    from q_enqueueQuick_inv [OF q1(2), of t ?p] ev ti obtain q2 where q2: "q_enqueueQuick q1 ?p t = Some q2"
      "qinv q2 ((rdf (threads s))(t \<mapsto> ?p)) (evf (threads s))" by (auto simp: evf_def)
    have "sinv (s\<lparr>qs := q2\<rparr>)" using q2(2) p s by (simp add: sinv_def fun_upd_idem)
    moreover have "setReadyQuick now s0 t = Some (s\<lparr>qs := q2\<rparr>)"
      using False True fr ev q1(1) q2(1) by (simp add: setReadyQuick_def s_def [symmetric] Let_def dequeue_def enqueueQuick_def)
    ultimately show ?thesis by blast
  next
    case nr: False
    then have b: "tst (threads s t) = BLOCKED" using False fr(2) by auto
    from removeFromEventlist_inv [OF s, of t] obtain q where
      r: "removeFromEventlist s t = Some (s\<lparr>qs := q, threads := (threads s)(t := (threads s t)\<lparr>tevent := 0\<rparr>)\<rparr>)"
        "qinv q (rdf (threads s)) ((evf (threads s))(t := None))" by blast
    let ?x = "(threads s t)\<lparr>tevent := 0, tst := READY\<rparr>"
    have n: "rdf (threads s) t = None" using b by (simp add: rdf_def)
    from q_enqueueQuick_inv [OF r(2), of t ?p] n ti obtain q' where q': "q_enqueueQuick q ?p t = Some q'"
      "qinv q' ((rdf (threads s))(t \<mapsto> ?p)) ((evf (threads s))(t := None))" by auto
    then have "sinv (s\<lparr>qs := q', threads := (threads s)(t := ?x)\<rparr>)"
      using ti fr(1) by (intro sinv_thread [OF s]) (simp_all add: tinv_def)
    moreover have "setReadyQuick now s0 t = Some (s\<lparr>qs := q', threads := (threads s)(t := ?x)\<rparr>)"
      using False b r(1) q'(1) fr by (simp add: setReadyQuick_def s_def [symmetric] Let_def setReadyState_def enqueueQuick_def)
    ultimately show ?thesis by blast
  qed
qed

lemma setBlocked_inv:
  assumes s: "sinv s"
  shows "\<exists>s'. setBlocked now s t = Some s' \<and> sinv s' \<and> (tst (threads s t) = RUNNING \<longrightarrow>
    qs s' = qs s \<and> threads s' = (threads s)(t := (threads s t)\<lparr>tnew := BLOCKED, twaitstart := now\<rparr>) \<and> idleThreads s' = idleThreads s)"
proof -
  let ?p = "tprio (threads s t)"
  note ti = sinvD(2) [OF s, of t, unfolded tinv_def]
  show ?thesis
  proof (cases "tst (threads s t)")
    case RUNNING
    have "sinv (upd_thread s t (\<lambda>x. x\<lparr>tnew := BLOCKED, twaitstart := now\<rparr>))" by (rule sinv_same [OF s]) simp_all
    with RUNNING show ?thesis by (simp add: setBlocked_def)
  next
    case READY
    have p: "rdf (threads s) t = Some ?p" using READY by (simp add: rdf_def)
    from q_dequeue_inv [OF sinvD(1) [OF s] p] obtain q1 where q1: "q_dequeue (qs s) ?p t = Some q1"
      "qinv q1 ((rdf (threads s))(t := None)) (evf (threads s))" by blast
    have "sinv (s\<lparr>qs := q1, threads := (threads s)(t := (threads s t)\<lparr>tst := BLOCKED, twaitstart := now\<rparr>)\<rparr>)"
      using q1(2) ti evf_ready [OF s READY] by (intro sinv_thread [OF s]) (simp_all add: tinv_def evf_def fun_upd_idem)
    with READY q1(1) show ?thesis by (simp add: setBlocked_def dequeue_def)
  next
    case BLOCKED
    have "sinv (upd_thread s t (\<lambda>x. x\<lparr>twaitstart := now\<rparr>))" by (rule sinv_same [OF s]) simp_all
    with BLOCKED show ?thesis by (simp add: setBlocked_def)
  next
    case ZOMBIE
    have "sinv (upd_thread s t (\<lambda>x. x\<lparr>twaitstart := now\<rparr>))" by (rule sinv_same [OF s]) simp_all
    with ZOMBIE show ?thesis by (simp add: setBlocked_def)
  qed
qed

lemma sched_wait_inv:
  assumes s: "sinv s" and t: "tst (threads s t) = RUNNING" "tevent (threads s t) = 0" "\<not> tidle (threads s t)" "event \<le> EV_COUNT"
  shows "\<exists>s'. sched_wait now s t event object = Some s' \<and> sinv s'"
proof -
  let ?x = "(threads s t)\<lparr>tevent := event, tevobject := object, tnew := BLOCKED, twaitstart := now\<rparr>"
  note ti = sinvD(2) [OF s, of t, unfolded tinv_def] and inv = sinvD(1) [OF s]
  have st: "setBlocked now (upd_thread s t (\<lambda>x. x\<lparr>tevent := event, tevobject := object\<rparr>)) t = Some (s\<lparr>threads := (threads s)(t := ?x)\<rparr>)"
    using t(1) by (simp add: setBlocked_def)
  have n: "rdf (threads s) t = None" "evf (threads s) t = None" using t by (simp_all add: rdf_def evf_def)
  show ?thesis
  proof (cases "event = 0")
    case True
    then have "sinv (s\<lparr>qs := qs s, threads := (threads s)(t := ?x)\<rparr>)"
      using ti t n inv by (intro sinv_thread [OF s]) (simp_all add: tinv_def fun_upd_idem)
    with True st t show ?thesis by (simp add: sched_wait_def)
  next
    case False
    let ?q = "(qs s)\<lparr>evlists := (evlists (qs s))(event - 1 := evlists (qs s) (event - 1) @ [t])\<rparr>"
    have "qinv ?q (rdf (threads s)) ((evf (threads s))(t \<mapsto> event - 1))"
      using qinv_event_add [OF inv n] False t(4) by simp
    then have "sinv (s\<lparr>qs := ?q, threads := (threads s)(t := ?x)\<rparr>)"
      using ti t n False by (intro sinv_thread [OF s]) (simp_all add: tinv_def fun_upd_idem)
    with False st t queued_iff [OF inv, of t] n show ?thesis by (simp add: sched_wait_def)
  qed
qed

lemma wakeup_loop_inv:
  assumes "sinv s" "distinct ts" "\<forall>u \<in> set ts. tevent (threads s u) = event" "event \<noteq> 0"
  shows "\<exists>s'. wakeup_loop now s event object all ts = Some s' \<and> sinv s'"
  using assms
proof (induction ts arbitrary: s)
  case (Cons t ts)
  note s = Cons.prems(1)
  show ?case
  proof (cases "tevobject (threads s t) = 0 \<or> tevobject (threads s t) = object")
    case True
    from removeFromEventlist_inv [OF s, of t] obtain q where
      r: "removeFromEventlist s t = Some (s\<lparr>qs := q, threads := (threads s)(t := (threads s t)\<lparr>tevent := 0\<rparr>)\<rparr>)"
        "qinv q (rdf (threads s)) ((evf (threads s))(t := None))" by blast
    let ?s = "s\<lparr>qs := q, threads := (threads s)(t := (threads s t)\<lparr>tevent := 0\<rparr>)\<rparr>"
    have "rdf (threads s) t = None" using evf_ready [OF s, of t] Cons.prems(3,4) by (auto simp: rdf_def)
    then have s1: "sinv ?s"
      using r(2) sinvD(2) [OF s, of t] evf_ready [OF s, of t] Cons.prems(3,4)
      by (intro sinv_thread [OF s]) (auto simp: tinv_def fun_upd_idem)
    from setReady_inv [OF s1, of now t] obtain s2 where s2: "setReady now ?s t = Some s2" "sinv s2"
      "\<And>u. u \<noteq> t \<Longrightarrow> threads s2 u = threads s u" by auto
    have "\<forall>u \<in> set ts. tevent (threads s2 u) = event" using s2(3) Cons.prems(2,3) by (metis distinct.simps(2) list.set_intros(2))
    with Cons.IH [OF s2(2)] Cons.prems True r(1) s2 show ?thesis by auto
  next
    case False
    with Cons show ?thesis by simp
  qed
qed simp

lemma wakeup_inv:
  assumes s: "sinv s" and e: "1 \<le> event" "event \<le> EV_COUNT"
  shows "\<exists>s'. wakeup now s event object all = Some s' \<and> sinv s'"
proof -
  note inv = sinvD(1) [OF s]
  have "\<forall>u \<in> set (evlists (qs s) (event - 1)). tevent (threads s u) = event"
    using qinvD(4) [OF inv, of _ "event - 1"] e by (auto simp: evf_def split: if_splits)
  from wakeup_loop_inv [OF s qinvD(3) [OF inv] this] e show ?thesis by (simp add: wakeup_def)
qed

lemma sched_removeThread_inv:
  assumes s: "sinv s" and t: "tst (threads s t) = RUNNING \<or> tst (threads s t) = BLOCKED"
  shows "\<exists>s'. sched_removeThread s t = Some s' \<and> sinv s'"
proof -
  note ti = sinvD(2) [OF s, of t, unfolded tinv_def]
  let ?p = "tprio (threads s t)"
  show ?thesis
  proof (cases "tst (threads s t)")
    case RUNNING
    have "sinv (upd_thread s t (\<lambda>x. x\<lparr>tnew := ZOMBIE\<rparr>))" by (rule sinv_same [OF s]) simp_all
    with RUNNING show ?thesis by (simp add: sched_removeThread_def)
  next
    case BLOCKED
    from removeFromEventlist_inv [OF s, of t] obtain q where
      r: "removeFromEventlist s t = Some (s\<lparr>qs := q, threads := (threads s)(t := (threads s t)\<lparr>tevent := 0\<rparr>)\<rparr>)"
        "qinv q (rdf (threads s)) ((evf (threads s))(t := None))" by blast
    have "rdf (threads s) t = None" using BLOCKED by (simp add: rdf_def)
    then have "sinv (s\<lparr>qs := q, threads := (threads s)(t := (threads s t)\<lparr>tevent := 0, tnew := ZOMBIE\<rparr>)\<rparr>)"
      using r(2) ti BLOCKED by (intro sinv_thread [OF s]) (simp_all add: tinv_def fun_upd_idem)
    with BLOCKED r(1) show ?thesis by (simp add: sched_removeThread_def)
  qed (use t in simp_all)
qed

lemma some_exI: "f = Some x \<Longrightarrow> P x \<Longrightarrow> \<exists>y. f = Some y \<and> P y"
  "g = Some (a, x, c) \<Longrightarrow> R a x c \<Longrightarrow> \<exists>a x c. g = Some (a, x, c) \<and> R a x c"
  by blast+

lemma pick_best:
  assumes inv: "qinv q rd ev" and old: "old_last q old"
  shows "(\<forall>u. rd u = None) \<and> pick q old (Suc MAX_PRIO) = (None, q) \<or>
    (\<exists>n k. rd n = Some k \<and> pick q old (Suc MAX_PRIO) = (Some n, take_first q k) \<and> qinv (take_first q k) (rd(n := None)) ev \<and>
      (\<forall>u j. rd u = Some j \<and> old \<noteq> Some u \<longrightarrow> j \<le> k) \<and> (old = Some n \<longrightarrow> (\<forall>u. rd u \<noteq> None \<longrightarrow> u = n)))"
  using pick_choice [OF assms]
proof (elim disjE exE conjE)
  assume e: "\<forall>k \<le> MAX_PRIO. rdyQueues q k = []" "pick q old (Suc MAX_PRIO) = (None, q)"
  have "rd u = None" for u
    using qinvD(2,7) [OF inv, of u] e(1) by (metis empty_iff list.set(1) not_Some_eq)
  with e show ?thesis by blast
next
  fix k assume k: "k \<le> MAX_PRIO" "offers q old k" "\<forall>j \<le> MAX_PRIO. k < j \<longrightarrow> \<not> offers q old j"
    "pick q old (Suc MAX_PRIO) = (Some (hd (rdyQueues q k)), take_first q k)"
  then obtain n ts where n: "rdyQueues q k = n # ts" by (cases "rdyQueues q k") (auto simp: offers_def)
  note t = take_first_inv [OF inv n]
  have le: "j \<le> k" if u: "rd u = Some j" "old \<noteq> Some u" for u j
  proof (rule ccontr)
    assume j: "\<not> j \<le> k"
    have uj: "u \<in> set (rdyQueues q j)" "j \<le> MAX_PRIO" using qinvD(2,7) [OF inv] u(1) by auto
    with j k(3) have "\<not> offers q old j" by simp
    with uj(1) have o: "old = Some (hd (rdyQueues q j))" by (auto simp: offers_def)
    then have "last (rdyQueues q j) = hd (rdyQueues q j)"
      using old uj(1) unfolding old_last_def by (metis hd_in_set list.set(1) empty_iff)
    moreover obtain v vs where v: "rdyQueues q j = v # vs" using uj(1) by (cases "rdyQueues q j") auto
    ultimately have "vs = []" using qinvD(1) [OF inv, of j] by (cases vs rule: rev_cases) auto
    with v uj(1) o u(2) show False by simp
  qed
  have one: "u = n" if u: "rd u \<noteq> None" and o: "old = Some n" for u
  proof -
    obtain j where j: "rd u = Some j" using u by blast
    have uj: "u \<in> set (rdyQueues q j)" "j \<le> MAX_PRIO" using qinvD(2,7) [OF inv] j by auto
    have "rdyCount q \<le> 1" using k(2) n o by (auto simp: offers_def)
    moreover have "(\<Sum>i \<le> MAX_PRIO. length (rdyQueues q i)) = length (rdyQueues q k) + (\<Sum>i \<in> {..MAX_PRIO} - {k}. length (rdyQueues q i))"
      using k(1) by (intro sum.remove) auto
    ultimately have z: "ts = []" "(\<Sum>i \<in> {..MAX_PRIO} - {k}. length (rdyQueues q i)) = 0" using qinvD(6) [OF inv] n by simp_all
    have "rdyQueues q i = []" if "i \<in> {..MAX_PRIO} - {k}" for i using z(2) that by simp
    then have "j = k" using uj by fastforce
    with uj(1) n z(1) show ?thesis by simp
  qed
  from k(4) n t le one show ?thesis by (intro disjI2 exI [of _ n] exI [of _ k]) auto
qed

lemma old_lastI: "(\<And>k. t \<in> set (rdyQueues q k) \<Longrightarrow> last (rdyQueues q k) = t) \<Longrightarrow> old_last q (Some t)"
  by (auto simp: old_last_def)

text \<open>What holds of the scheduler after the old thread has given up its CPU.\<close>

definition retired :: "sched \<Rightarrow> nat \<Rightarrow> bool \<Rightarrow> sched \<Rightarrow> bool" where
  "retired s t again s1 \<longleftrightarrow> sinv s1 \<and> idleThreads s1 = idleThreads s \<and>
     (if again then tst (threads s1 t) = RUNNING \<and> tsignal (threads s t)
      else old_last (qs s1) (Some t) \<and> tst (threads s1 t) \<noteq> RUNNING)"

lemma retiredI:
  "sinv s1 \<Longrightarrow> idleThreads s1 = idleThreads s \<Longrightarrow> tst (threads s1 t) = RUNNING \<Longrightarrow> tsignal (threads s t) \<Longrightarrow> retired s t True s1"
  "sinv s1 \<Longrightarrow> idleThreads s1 = idleThreads s \<Longrightarrow> old_last (qs s1) (Some t) \<Longrightarrow> tst (threads s1 t) \<noteq> RUNNING \<Longrightarrow> retired s t False s1"
  by (simp_all add: retired_def)

lemma retire_inv:
  assumes s: "sinv s" and t: "tidle (threads s t) \<or> tst (threads s t) = RUNNING"
  shows "\<exists>again s1. retire s t = Some (again, s1) \<and> retired s t again s1"
proof (cases "tidle (threads s t)")
  case True
  note ti = sinvD(2) [OF s, of t, unfolded tinv_def]
  have n: "rdf (threads s) t = None" "evf (threads s) t = None" using True ti by (auto simp: rdf_def evf_def)
  have "sinv (s\<lparr>qs := qs s, threads := (threads s)(t := (threads s t)\<lparr>tst := BLOCKED\<rparr>)\<rparr>)"
    using n ti sinvD(1) [OF s] True by (intro sinv_thread [OF s]) (simp_all add: fun_upd_idem tinv_def)
  moreover have "old_last (qs s) (Some t)" using qinvD(2) [OF sinvD(1) [OF s], of t] n by (intro old_lastI) simp
  moreover have "retire s t = Some (False, s\<lparr>qs := qs s, threads := (threads s)(t := (threads s t)\<lparr>tst := BLOCKED\<rparr>)\<rparr>)"
    using True by (simp add: retire_def Let_def)
  ultimately show ?thesis using retiredI(2) by fastforce
next
  case ni: False
  note ti = sinvD(2) [OF s, of t, unfolded tinv_def] and inv = sinvD(1) [OF s]
  have r: "tst (threads s t) = RUNNING" using t ni by simp
  have n: "rdf (threads s) t = None" using r by (simp add: rdf_def)
  show ?thesis
  proof (cases "tnew (threads s t) \<noteq> ZOMBIE \<and> tsignal (threads s t)")
    case True
    let ?s = "upd_thread s t (\<lambda>x. x\<lparr>tnew := READY, twaitstart := 0\<rparr>)"
    have f: "rdf (threads ?s) = rdf (threads s)" "evf (threads ?s) = evf (threads s)" by (auto simp: rdf_def evf_def)
    from removeFromEventlist_qinv [of ?s t] inv f obtain q where
      q: "removeFromEventlist ?s t = Some (?s\<lparr>qs := q, threads := (threads ?s)(t := (threads ?s t)\<lparr>tevent := 0\<rparr>)\<rparr>)"
        "qinv q (rdf (threads s)) ((evf (threads s))(t := None))" by auto
    have "sinv (s\<lparr>qs := q, threads := (threads s)(t := (threads s t)\<lparr>tnew := READY, twaitstart := 0, tevent := 0\<rparr>)\<rparr>)"
      using q(2) n r ti by (intro sinv_thread [OF s]) (simp_all add: tinv_def fun_upd_idem)
    moreover have "retire s t = Some (True, s\<lparr>qs := q, threads := (threads s)(t := (threads s t)\<lparr>tnew := READY, twaitstart := 0, tevent := 0\<rparr>)\<rparr>)"
      using True r ni q(1) by (simp add: retire_def Let_def)
    ultimately show ?thesis using True r retiredI(1) by fastforce
  next
    case False
    show ?thesis
    proof (cases "tnew (threads s t) = READY")
      case True
      have ev: "tevent (threads s t) = 0" using ti r True by auto
      then have e: "evf (threads s) t = None" by (simp add: evf_def)
      let ?p = "tprio (threads s t)"
      from q_enqueue_inv [OF inv n e] ti obtain q where q: "q_enqueue (qs s) ?p t = Some q"
        "qinv q ((rdf (threads s))(t \<mapsto> ?p)) (evf (threads s))" "rdyQueues q ?p = rdyQueues (qs s) ?p @ [t]" by blast
      have "sinv (s\<lparr>qs := q, threads := (threads s)(t := (threads s t)\<lparr>tst := READY\<rparr>)\<rparr>)"
        using q(2) r ti e ev ni by (intro sinv_thread [OF s]) (simp_all add: tinv_def fun_upd_idem)
      moreover have "old_last q (Some t)" using qinvD(2) [OF q(2), of t] q(3) by (intro old_lastI) (simp split: if_splits)
      moreover have "retire s t = Some (False, s\<lparr>qs := q, threads := (threads s)(t := (threads s t)\<lparr>tst := READY\<rparr>)\<rparr>)"
        using True False r ni q(1) ev by (simp add: retire_def Let_def enqueue_def)
      ultimately show ?thesis using retiredI(2) by fastforce
    next
      case nr: False
      let ?x = "(threads s t)\<lparr>tst := tnew (threads s t)\<rparr>"
      have "(evf (threads s))(t := if tevent ?x = 0 then None else Some (tevent ?x - 1)) = evf (threads s)"
        by (auto simp: evf_def)
      then have "sinv (s\<lparr>qs := qs s, threads := (threads s)(t := ?x)\<rparr>)"
        using nr inv n ti ni by (intro sinv_thread [OF s]) (simp_all add: tinv_def fun_upd_idem)
      moreover have "old_last (qs s) (Some t)" using qinvD(2) [OF inv, of t] n by (intro old_lastI) simp
      moreover have "retire s t = Some (False, s\<lparr>qs := qs s, threads := (threads s)(t := ?x)\<rparr>)"
        using nr False r ni ti by (cases "tnew (threads s t)") (simp_all add: retire_def Let_def)
      ultimately show ?thesis using nr ti retiredI(2) by fastforce
    qed
  qed
qed

lemma perform_inv:
  assumes s: "sinv s" and old: "\<And>t. old = Some t \<Longrightarrow> tidle (threads s t) \<or> tst (threads s t) = RUNNING"
    and cpu: "cpu < length (idleThreads s)" "idleThreads s ! cpu \<noteq> None"
  shows "\<exists>n s' w. perform s old cpu = Some (n, s', w) \<and> sinv s' \<and> tst (threads s' n) = RUNNING \<and>
    idleThreads s' = idleThreads s \<and>
    (if old = Some n \<and> \<not> tidle (threads s n) \<and> tsignal (threads s n) \<and> tnew (threads s n) \<noteq> ZOMBIE then True
     else if Some n = idleThreads s ! cpu then \<forall>u. tst (threads s' u) \<noteq> READY
     else \<forall>u. tst (threads s' u) = READY \<longrightarrow> old \<noteq> Some n \<and> (old = Some u \<or> tprio (threads s' u) \<le> tprio (threads s' n)))"
proof -
  have "\<exists>again s1. (case old of None \<Rightarrow> Some (False, s) | Some t \<Rightarrow> retire s t) = Some (again, s1) \<and> sinv s1 \<and>
    idleThreads s1 = idleThreads s \<and>
    (if again then \<exists>t. old = Some t \<and> tst (threads s1 t) = RUNNING \<and> retire s t = Some (True, s1) else old_last (qs s1) old)"
  proof (cases old)
    case None
    with s show ?thesis by (auto simp: old_last_def)
  next
    case (Some t)
    from retire_inv [OF s old [OF Some]] obtain again s1 where "retire s t = Some (again, s1)" "retired s t again s1" by blast
    with Some show ?thesis by (intro exI [of _ again] exI [of _ s1]) (simp add: retired_def split: if_splits)
  qed
  then obtain again s1 where r: "(case old of None \<Rightarrow> Some (False, s) | Some t \<Rightarrow> retire s t) = Some (again, s1)" "sinv s1"
    "idleThreads s1 = idleThreads s"
    "if again then \<exists>t. old = Some t \<and> tst (threads s1 t) = RUNNING \<and> retire s t = Some (True, s1) else old_last (qs s1) old" by blast
  note inv = sinvD(1) [OF r(2)]
  show ?thesis
  proof (cases again)
    case True
    with r obtain t where t: "old = Some t" "tst (threads s1 t) = RUNNING" "retire s t = Some (True, s1)" by auto
    have "\<not> tidle (threads s t) \<and> tsignal (threads s t) \<and> tnew (threads s t) \<noteq> ZOMBIE"
      using t(3) by (auto simp: retire_def Let_def split: if_splits tstate.splits bind_splits)
    moreover have eq: "perform s old cpu = Some (t, s1, False)" using True r(1) t(1) by (simp add: perform_def)
    ultimately show ?thesis using r(2,3) t(1,2) by (intro some_exI(2) [OF eq]) simp
  next
    case False
    then have ol: "old_last (qs s1) old" using r(4) by simp
    obtain i where i: "idleThreads s1 ! cpu = Some i" "cpu < length (idleThreads s1)" using cpu r(3) by auto
    then have id: "tidle (threads s1 i)" using sinvD(3) [OF r(2), of i] by (metis nth_mem)
    from pick_best [OF inv ol] show ?thesis
    proof (elim disjE exE conjE)
      assume no: "\<forall>u. rdf (threads s1) u = None" "pick (qs s1) old (Suc MAX_PRIO) = (None, qs s1)"
      let ?x = "(threads s1 i)\<lparr>tst := RUNNING\<rparr>"
      note ti = sinvD(2) [OF r(2), of i, unfolded tinv_def]
      have "sinv (s1\<lparr>qs := qs s1, threads := (threads s1)(i := ?x)\<rparr>)"
        using no(1) id ti inv by (intro sinv_thread [OF r(2)]) (simp_all add: fun_upd_idem tinv_def evf_def)
      moreover have "tst (threads s1 u) \<noteq> READY" for u using no(1) by (metis option.distinct(1) rdf_def)
      moreover have eq: "perform s old cpu = Some (i, s1\<lparr>qs := qs s1, threads := (threads s1)(i := ?x)\<rparr>, rdyCount (qs s1) > 0)"
        using False no(2) r(1) i by (simp add: perform_def Let_def del: pick.simps)
      ultimately show ?thesis using r(3) i(1) by (intro some_exI(2) [OF eq]) simp
    next
      fix n k assume c: "rdf (threads s1) n = Some k" "pick (qs s1) old (Suc MAX_PRIO) = (Some n, take_first (qs s1) k)"
        "qinv (take_first (qs s1) k) ((rdf (threads s1))(n := None)) (evf (threads s1))"
        "\<forall>u j. rdf (threads s1) u = Some j \<and> old \<noteq> Some u \<longrightarrow> j \<le> k" "old = Some n \<longrightarrow> (\<forall>u. rdf (threads s1) u \<noteq> None \<longrightarrow> u = n)"
      let ?x = "(threads s1 n)\<lparr>tst := RUNNING, tnew := READY\<rparr>"
      note ti = sinvD(2) [OF r(2), of n, unfolded tinv_def]
      have rn: "tst (threads s1 n) = READY" "tprio (threads s1 n) = k" using c(1) by (auto simp: rdf_def split: if_splits)
      have ev: "tevent (threads s1 n) = 0" by (rule evf_ready [OF r(2) rn(1)])
      have "sinv (s1\<lparr>qs := take_first (qs s1) k, threads := (threads s1)(n := ?x)\<rparr>)"
        using c(3) ev ti rn by (intro sinv_thread [OF r(2)]) (simp_all add: fun_upd_idem tinv_def evf_def)
      moreover have "Some n \<noteq> idleThreads s ! cpu" using id i(1) rn ti r(3) by auto
      moreover have "old \<noteq> Some n \<and> (old = Some u \<or> tprio (threads s1 u) \<le> k)" if "u \<noteq> n" "tst (threads s1 u) = READY" for u
      proof -
        have "rdf (threads s1) u = Some (tprio (threads s1 u))" using that(2) by (simp add: rdf_def)
        with c(4,5) that(1) show ?thesis by auto
      qed
      moreover have eq: "perform s old cpu = Some (n, s1\<lparr>qs := take_first (qs s1) k, threads := (threads s1)(n := ?x)\<rparr>,
          rdyCount (take_first (qs s1) k) > 0)"
        using False c(2) r(1) by (simp add: perform_def Let_def del: pick.simps)
      ultimately show ?thesis using r(3) rn by (intro some_exI(2) [OF eq]) simp
    qed
  qed
qed

lemma reprio_inv:
  assumes s: "sinv s" and p: "p \<le> MAX_PRIO"
  shows "\<exists>s'. reprio s t p = Some s' \<and> sinv s' \<and> idleThreads s' = idleThreads s \<and> tprio (threads s' t) = p \<and>
    (\<forall>u. u \<noteq> t \<longrightarrow> threads s' u = threads s u)"
proof -
  let ?x = "(threads s t)\<lparr>tprio := p\<rparr>" and ?p = "tprio (threads s t)"
  note ti = sinvD(2) [OF s, of t, unfolded tinv_def] and inv = sinvD(1) [OF s]
  have e: "(evf (threads s))(t := if tevent ?x = 0 then None else Some (tevent ?x - 1)) = evf (threads s)" by (auto simp: evf_def)
  show ?thesis
  proof (cases "tst (threads s t) = READY")
    case True
    have r: "rdf (threads s) t = Some ?p" using True by (simp add: rdf_def)
    from q_dequeue_inv [OF inv r] obtain q1 where q1: "q_dequeue (qs s) ?p t = Some q1"
      "qinv q1 ((rdf (threads s))(t := None)) (evf (threads s))" by blast
    have ev: "evf (threads s) t = None" using evf_ready [OF s True] by (simp add: evf_def)
    from q_enqueue_inv [OF q1(2) _ ev p] obtain q2 where q2: "q_enqueue q1 p t = Some q2"
      "qinv q2 ((rdf (threads s))(t \<mapsto> p)) (evf (threads s))" by auto
    have "sinv (s\<lparr>qs := q2, threads := (threads s)(t := ?x)\<rparr>)"
      using q2(2) e True ti p by (intro sinv_thread [OF s]) (simp_all add: tinv_def)
    with True q1(1) q2(1) p show ?thesis by (simp add: reprio_def dequeue_def enqueue_def Let_def)
  next
    case False
    have "(rdf (threads s))(t := None) = rdf (threads s)" using False by (auto simp: rdf_def)
    then have "sinv (s\<lparr>qs := qs s, threads := (threads s)(t := ?x)\<rparr>)"
      using inv e False ti p by (intro sinv_thread [OF s]) (simp_all add: tinv_def)
    with False p show ?thesis by (simp add: reprio_def Let_def)
  qed
qed

lemma adjust_level_inv:
  assumes s: "sinv s"
  shows "\<exists>s'. adjust_level s t total_c = Some s' \<and> sinv s' \<and> idleThreads s' = idleThreads s"
proof -
  let ?x = "threads s t"
  have p: "tprio ?x \<le> MAX_PRIO" using sinvD(2) [OF s, of t] by (simp add: tinv_def)
  have g: "sinv (upd_thread u t (\<lambda>x. x\<lparr>tgood := n\<rparr>))" if "sinv u" for u n
    by (rule sinv_same [OF that]) simp_all
  let ?s1 = "upd_thread s t (\<lambda>x. x\<lparr>tgood := (tgood x + 1) mod 256\<rparr>)"
  consider "tblocked ?x < total_c div 6" "tprio ?x > 0" | "tblocked ?x < total_c div 6" "tprio ?x = 0"
    | "\<not> tblocked ?x < total_c div 6" "tblocked ?x \<ge> total_c div 2 \<and> tprio ?x < MAX_PRIO" "(tgood ?x + 1) mod 256 = PRIO_FORGIVE_CNT"
    | "\<not> tblocked ?x < total_c div 6" "tblocked ?x \<ge> total_c div 2 \<and> tprio ?x < MAX_PRIO" "(tgood ?x + 1) mod 256 \<noteq> PRIO_FORGIVE_CNT"
    | "\<not> tblocked ?x < total_c div 6" "\<not> (tblocked ?x \<ge> total_c div 2 \<and> tprio ?x < MAX_PRIO)" by blast
  then show ?thesis
  proof cases
    case 1
    have "tprio ?x - 1 \<le> MAX_PRIO" using p by simp
    from reprio_inv [OF s this, of t] obtain s1 where s1: "reprio s t (tprio ?x - 1) = Some s1" "sinv s1" "idleThreads s1 = idleThreads s" by blast
    then have eq: "adjust_level s t total_c = Some (upd_thread s1 t (\<lambda>x. x\<lparr>tgood := 0\<rparr>))" using 1 by (simp add: adjust_level_def Let_def)
    show ?thesis by (rule some_exI(1) [OF eq]) (use g [OF s1(2)] s1(3) in simp)
  next
    case 2
    then have eq: "adjust_level s t total_c = Some (upd_thread s t (\<lambda>x. x\<lparr>tgood := 0\<rparr>))" by (simp add: adjust_level_def Let_def)
    show ?thesis by (rule some_exI(1) [OF eq]) (use g [OF s] in simp)
  next
    case 3
    have "tprio ?x + 1 \<le> MAX_PRIO" using 3 by simp
    from reprio_inv [OF g [OF s] this, of "(tgood ?x + 1) mod 256" t] obtain s1 where
      s1: "reprio ?s1 t (tprio ?x + 1) = Some s1" "sinv s1" "idleThreads s1 = idleThreads s" by auto
    then have eq: "adjust_level s t total_c = Some (upd_thread s1 t (\<lambda>x. x\<lparr>tgood := 0\<rparr>))"
      using 3 unfolding adjust_level_def Let_def by (simp only: if_False if_True bind.bind_lunit simp_thms)
    show ?thesis by (rule some_exI(1) [OF eq]) (use g [OF s1(2)] s1(3) in simp)
  next
    case 4
    then have eq: "adjust_level s t total_c = Some ?s1" unfolding adjust_level_def Let_def by (simp only: if_False if_True simp_thms)
    show ?thesis by (rule some_exI(1) [OF eq]) (use g [OF s] in simp)
  next
    case 5
    then have "adjust_level s t total_c = Some s" unfolding adjust_level_def Let_def by (simp only: if_False if_True simp_thms)
    with s show ?thesis by blast
  qed
qed

lemma adjustPrio_inv:
  assumes s0: "sinv s0"
  shows "\<exists>s'. adjustPrio now s0 t total_c = Some s' \<and> sinv s' \<and> idleThreads s' = idleThreads s0"
proof -
  define s where "s = (if twaitstart (threads s0 t) > 0
       then upd_thread s0 t (\<lambda>x. x\<lparr>tblocked := (tblocked x + (now + 2 ^ 64 - twaitstart x)) mod 2 ^ 64, twaitstart := now\<rparr>)
       else s0)"
  have s: "sinv s" unfolding s_def using s0 sinv_same [OF s0] by simp
  have i: "idleThreads s = idleThreads s0" by (simp add: s_def)
  from adjust_level_inv [OF s] obtain s1 where s1: "adjust_level s t total_c = Some s1" "sinv s1" "idleThreads s1 = idleThreads s" by blast
  have eq: "adjustPrio now s0 t total_c = Some (upd_thread s1 t (\<lambda>x. x\<lparr>tblocked := 0\<rparr>))"
    unfolding adjustPrio_def s_def [symmetric] Let_def using s1(1) by simp
  have "sinv (upd_thread s1 t (\<lambda>x. x\<lparr>tblocked := 0\<rparr>))" by (rule sinv_same [OF s1(2)]) simp_all
  then show ?thesis using s1(3) i by (intro some_exI(1) [OF eq]) simp
qed

section \<open>Runs of the scheduler\<close>

text \<open>
  Before the first thread runs, no thread is ready or waits for an event; a thread that is created later
  is in this state too. \<open>Thread::setPriority\<close>, \<open>Thread::create\<close> and the callers of \<open>Sched\<close> establish the
  conditions of the steps: only a running thread waits or dies, and only for an event the kernel knows.
\<close>

definition fresh_thread :: "kthread \<Rightarrow> bool" where
  "fresh_thread x \<longleftrightarrow> tst x \<noteq> READY \<and> tnew x \<noteq> RUNNING \<and> tprio x \<le> MAX_PRIO \<and> tevent x = 0"

inductive sched_step :: "sched \<Rightarrow> sched \<Rightarrow> bool" where
  ready: "setReady now s t = Some s' \<Longrightarrow> sched_step s s'"
| quick: "setReadyQuick now s t = Some s' \<Longrightarrow> sched_step s s'"
| block: "setBlocked now s t = Some s' \<Longrightarrow> sched_step s s'"
| wait: "\<not> tidle (threads s t) \<Longrightarrow> event \<le> EV_COUNT \<Longrightarrow> sched_wait now s t event object = Some s' \<Longrightarrow> sched_step s s'"
| wakeup: "wakeup now s event object all = Some s' \<Longrightarrow> sched_step s s'"
| die: "tst (threads s t) = RUNNING \<Longrightarrow> sched_removeThread s t = Some s' \<Longrightarrow> sched_step s s'"
| prio: "adjustPrio now s t total_c = Some s' \<Longrightarrow> sched_step s s'"
| signal: "sched_step s (upd_thread s t (\<lambda>x. x\<lparr>tsignal := b\<rparr>))"
| idle: "tidle (threads s t) \<Longrightarrow> sched_step s (addIdleThread s t)"
| switch: "\<lbrakk>\<And>t. old = Some t \<Longrightarrow> tidle (threads s t) \<or> tst (threads s t) = RUNNING; cpu < length (idleThreads s);
    idleThreads s ! cpu \<noteq> None; perform s old cpu = Some (n, s', w)\<rbrakk> \<Longrightarrow> sched_step s s'"

lemma add_idle_set: "x \<in> set (add_idle is t) \<Longrightarrow> x \<in> set is \<or> x = Some t"
  by (induction "is") (auto split: if_splits)

lemma sched_step_inv: "sched_step s s' \<Longrightarrow> sinv s \<Longrightarrow> sinv s'"
proof (induction rule: sched_step.induct)
  case (ready now s t s') with setReady_inv [of s now t] show ?case by auto
next
  case (quick now s t s') with setReadyQuick_inv [of s now t] show ?case by auto
next
  case (block now s t s') with setBlocked_inv [of s now t] show ?case by auto
next
  case (wait s t event now object s')
  then have "tst (threads s t) = RUNNING" "tevent (threads s t) = 0" by (auto simp: sched_wait_def split: bind_splits)
  with wait sched_wait_inv [of s t event now object] show ?case by auto
next
  case (wakeup now s event object all s')
  then have "1 \<le> event" "event \<le> EV_COUNT" by (auto simp: wakeup_def split: bind_splits)
  with wakeup wakeup_inv [of s event now object all] show ?case by auto
next
  case (die s t s') with sched_removeThread_inv [of s t] show ?case by auto
next
  case (prio now s t total_c s') with adjustPrio_inv [of s now t total_c] show ?case by auto
next
  case (signal s t b) then show ?case by (intro sinv_same) simp_all
next
  case (idle s t) then show ?case using add_idle_set by (fastforce simp: sinv_def addIdleThread_def)
next
  case (switch old s cpu n s' w)
  with perform_inv [of s old cpu] show ?case by auto
qed

abbreviation sched_reach :: "nat \<Rightarrow> (nat \<Rightarrow> kthread) \<Rightarrow> sched \<Rightarrow> bool" where
  "sched_reach cpus th s \<equiv> sched_step\<^sup>*\<^sup>* (sched_init cpus th) s"

lemma sched_init_inv: "(\<And>t. fresh_thread (th t)) \<Longrightarrow> sinv (sched_init cpus th)"
  by (auto simp: sinv_def sched_init_def qinv_def fresh_thread_def tinv_def rdf_def evf_def)

interpretation sched_runs: transitions sched_step "\<lambda>s. \<exists>cpus th. (\<forall>t. fresh_thread (th t)) \<and> s = sched_init cpus th" sinv
  by unfold_locales (auto simp: sched_init_inv sched_step_inv)

lemma sched_reach_inv: "sched_reach cpus th s \<Longrightarrow> (\<And>t. fresh_thread (th t)) \<Longrightarrow> sinv s"
  by (erule sched_runs.reachable) blast

section \<open>Properties\<close>

text \<open>C4: In every state the scheduler reaches, from fresh threads, by any sequence of its operations, a
  thread is in the ready queue of its own priority, once, exactly if its state is \<open>READY\<close>, and in no other;
  it is in the event list of the event it waits for, once, and in no other; it is not in both; a bit of
  \<open>readyMask\<close> is set exactly if the queue of this priority has a thread; and \<open>rdyCount\<close> is the number of
  queued threads.\<close>

theorem sched_queues:
  assumes "sched_reach cpus th s" "\<And>t. fresh_thread (th t)"
  shows "count_list (rdyQueues (qs s) p) t = (if tst (threads s t) = READY \<and> tprio (threads s t) = p then 1 else 0) \<and>
    count_list (evlists (qs s) e) t = (if tevent (threads s t) = e + 1 then 1 else 0) \<and>
    \<not> (tst (threads s t) = READY \<and> tevent (threads s t) \<noteq> 0) \<and>
    (bit (readyMask (qs s)) (p mod 5) \<longleftrightarrow> rdyQueues (qs s) (p mod 5) \<noteq> []) \<and>
    rdyCount (qs s) = (\<Sum>k \<le> MAX_PRIO. length (rdyQueues (qs s) k))"
proof -
  have s: "sinv s" by (rule sched_reach_inv [OF assms])
  note D = qinvD [OF sinvD(1) [OF s]]
  have c: "distinct xs \<Longrightarrow> count_list xs t = (if t \<in> set xs then 1 else 0)" for xs :: "nat list"
    by (induction xs) auto
  have "p mod 5 \<le> MAX_PRIO" using mod_less_divisor [of 5 p] by linarith
  then show ?thesis using D(1,2,3,4) D(5) [of "p mod 5"] D(6) evf_ready [OF s, of t] by (auto simp: c rdf_def evf_def)
qed

definition demo_threads :: "nat \<Rightarrow> kthread" where
  "demo_threads t = \<lparr>tidle = (t = 0), tst = BLOCKED, tnew = READY, tprio = (if t = 5 then 3 else 2), tevent = 0, tevobject = 0,
     twaitstart = 0, tblocked = 0, tgood = 0, tsignal = False\<rparr>"

lemma demo_fresh: "fresh_thread (demo_threads t)"
  by (simp add: fresh_thread_def demo_threads_def)

definition demo_sched :: sched where
  "demo_sched = the (setReady 9 (addIdleThread (sched_init 1 demo_threads) 0) 7)"

lemma demo_reach: "sched_reach 1 demo_threads demo_sched"
proof -
  let ?s = "addIdleThread (sched_init 1 demo_threads) 0"
  have i: "sched_step (sched_init 1 demo_threads) ?s"
    by (rule sched_step.idle) (simp add: sched_init_def demo_threads_def)
  have "sinv ?s" by (rule sched_step_inv [OF i sched_init_inv [OF demo_fresh]])
  from setReady_inv [OF this, of 9 7] have "setReady 9 ?s 7 = Some demo_sched" by (auto simp: demo_sched_def)
  then have "sched_step ?s demo_sched" by (rule sched_step.ready)
  with i show ?thesis by (rule two_steps)
qed

lemma demo_eval: "rdyQueues (qs demo_sched) 2 = [7]" "idleThreads demo_sched = [Some 0]" "tst (threads demo_sched 7) = READY"
  "tprio (threads demo_sched 7) = 2" "rdyQueues (qs demo_sched) 3 = []" "rdyQueues (qs demo_sched) 4 = []" "rdyCount (qs demo_sched) = 1"
  by (simp_all add: demo_sched_def setReady_def addIdleThread_def sched_init_def demo_threads_def Let_def account_wait_def
      setReadyState_def removeFromEventlist_def enqueue_def q_enqueue_def queued_def)

theorem sched_queues_witness: "sched_reach 1 demo_threads demo_sched \<and> count_list (rdyQueues (qs demo_sched) 2) 7 = 1"
  using sched_queues [OF demo_reach demo_fresh, of 2 7 0] demo_reach by (simp add: demo_eval)



text \<open>Whether the old thread goes on because of a signal, and the state it gets when it does not.\<close>

definition goes_on :: "kthread \<Rightarrow> bool" where
  "goes_on x \<longleftrightarrow> \<not> tidle x \<and> tsignal x \<and> tnew x \<noteq> ZOMBIE"

definition left_state :: "kthread \<Rightarrow> tstate" where
  "left_state x = (if tidle x then BLOCKED else tnew x)"

lemma retire_threads:
  assumes "retire s t = Some (again, s1)"
  shows "again = goes_on (threads s t)"
    "\<exists>x. threads s1 = (threads s)(t := x) \<and> tst x = (if again then tst (threads s t) else left_state (threads s t)) \<and> tprio x = tprio (threads s t)"
  using assms
  by (auto simp: retire_def goes_on_def left_state_def removeFromEventlist_def enqueue_def Let_def split: if_splits tstate.splits bind_splits)

lemma retire_chosen:
  assumes "sinv s" "tst (threads s t) = RUNNING"
  shows "\<exists>s1. retire s t = Some (goes_on (threads s t), s1) \<and> retired s t (goes_on (threads s t)) s1 \<and>
    (\<exists>x. threads s1 = (threads s)(t := x) \<and> tst x = (if goes_on (threads s t) then RUNNING else left_state (threads s t)) \<and> tprio x = tprio (threads s t))"
  using retire_inv [OF assms(1), of t] retire_threads [of s t] assms(2) by fastforce

definition chosen :: "sched \<Rightarrow> nat \<Rightarrow> nat \<Rightarrow> nat \<Rightarrow> bool" where
  "chosen s t cpu n =
    (if goes_on (threads s t) then n = t
     else if \<exists>u. tst (threads s u) = READY then
       tst (threads s n) = READY \<and> (\<forall>u. tst (threads s u) = READY \<longrightarrow> tprio (threads s u) \<le> tprio (threads s n))
     else if left_state (threads s t) = READY then n = t
     else idleThreads s ! cpu = Some n)"

lemma perform_chooses:
  assumes s: "sinv s" and t: "tst (threads s t) = RUNNING" and cpu: "cpu < length (idleThreads s)" "idleThreads s ! cpu \<noteq> None"
  shows "\<exists>n s' w. perform s (Some t) cpu = Some (n, s', w) \<and> chosen s t cpu n \<and> tst (threads s' n) = RUNNING \<and>
    (\<forall>u. u \<noteq> n \<longrightarrow> tst (threads s' u) = (if u = t then left_state (threads s t) else tst (threads s u)))"
proof -
  obtain s1 x where r: "retire s t = Some (goes_on (threads s t), s1)" "retired s t (goes_on (threads s t)) s1"
    "threads s1 = (threads s)(t := x)" "tst x = (if goes_on (threads s t) then RUNNING else left_state (threads s t))" "tprio x = tprio (threads s t)"
    using retire_chosen [OF s t] by blast
  show ?thesis
  proof (cases "goes_on (threads s t)")
    case True
    then have eq: "perform s (Some t) cpu = Some (t, s1, False)" using r(1) by (simp add: perform_def)
    then show ?thesis using True r(3,4) by (intro some_exI(2) [OF eq]) (simp add: chosen_def)
  next
    case False
    then have r1: "sinv s1" "idleThreads s1 = idleThreads s" "old_last (qs s1) (Some t)" using r(2) by (simp_all add: retired_def)
    obtain i where i: "idleThreads s1 ! cpu = Some i" "cpu < length (idleThreads s1)" using cpu r1(2) by auto
    have x: "tst x = left_state (threads s t)" using r(4) False by simp
    have other: "tst (threads s u) = READY \<Longrightarrow> threads s1 u = threads s u" for u using t r(3) by auto
    from pick_best [OF sinvD(1) [OF r1(1)] r1(3)] show ?thesis
    proof (elim disjE exE conjE)
      assume no: "\<forall>u. rdf (threads s1) u = None" "pick (qs s1) (Some t) (Suc MAX_PRIO) = (None, qs s1)"
      have nr: "tst (threads s1 u) \<noteq> READY" for u using no(1) by (metis option.distinct(1) rdf_def)
      have eq: "perform s (Some t) cpu = Some (i, s1\<lparr>qs := qs s1, threads := (threads s1)(i := (threads s1 i)\<lparr>tst := RUNNING\<rparr>)\<rparr>, rdyCount (qs s1) > 0)"
        using False no(2) r(1) i by (simp add: perform_def Let_def del: pick.simps)
      have "left_state (threads s t) \<noteq> READY" using nr [of t] r(3) x by simp
      moreover have "tst (threads s u) \<noteq> READY" for u using nr [of u] other [of u] by metis
      ultimately have "chosen s t cpu i" using False i(1) r1(2) by (simp add: chosen_def)
      then show ?thesis using r(3) x by (intro some_exI(2) [OF eq]) simp
    next
      fix n k assume c: "rdf (threads s1) n = Some k" "pick (qs s1) (Some t) (Suc MAX_PRIO) = (Some n, take_first (qs s1) k)"
        "\<forall>u j. rdf (threads s1) u = Some j \<and> Some t \<noteq> Some u \<longrightarrow> j \<le> k" "Some t = Some n \<longrightarrow> (\<forall>u. rdf (threads s1) u \<noteq> None \<longrightarrow> u = n)"
      have rn: "tst (threads s1 n) = READY" "tprio (threads s1 n) = k" using c(1) by (auto simp: rdf_def split: if_splits)
      have eq: "perform s (Some t) cpu = Some (n, s1\<lparr>qs := take_first (qs s1) k, threads := (threads s1)(n := (threads s1 n)\<lparr>tst := RUNNING, tnew := READY\<rparr>)\<rparr>,
          rdyCount (take_first (qs s1) k) > 0)" using False c(2) r(1) by (simp add: perform_def Let_def del: pick.simps)
      have le: "tprio (threads s u) \<le> k" if "tst (threads s u) = READY" for u
      proof -
        have "rdf (threads s1) u = Some (tprio (threads s u))" using other [OF that] that by (simp add: rdf_def)
        moreover have "u \<noteq> t" using that t by auto
        ultimately show ?thesis using c(3) by blast
      qed
      have "chosen s t cpu n"
      proof (cases "n = t")
        case True
        then have "tst (threads s u) \<noteq> READY" for u using c(4) other [of u] t by (metis option.distinct(1) rdf_def tstate.distinct(1,3,5,7,9,11))
        then show ?thesis using True False rn(1) r(3) x by (simp add: chosen_def)
      next
        case nt: False
        then have "tst (threads s n) = READY" "tprio (threads s n) = k" using rn r(3) by simp_all
        then show ?thesis using False le by (auto simp: chosen_def)
      qed
      then show ?thesis using r(3) x by (intro some_exI(2) [OF eq]) simp
    qed
  qed
qed

text \<open>C5: \<open>perform\<close> in a reachable state, for a running old thread \<open>t\<close>. If \<open>t\<close> is not the idle thread, has a signal and does not die, it goes on.
  Otherwise, if another thread is ready, one of those with the highest priority is chosen, whatever the priority of \<open>t\<close>; if none is ready, \<open>t\<close> goes on if it wants to, and
  the idle thread of the CPU is chosen if not. The chosen thread is running afterwards, \<open>t\<close> gets the state it wanted unless it is chosen, and no other thread changes its state.\<close>

theorem perform_choice:
  assumes "sched_reach cpus th s" "\<And>t. fresh_thread (th t)" "tst (threads s t) = RUNNING"
    "cpu < length (idleThreads s)" "idleThreads s ! cpu \<noteq> None"
  shows "\<exists>n s' w. perform s (Some t) cpu = Some (n, s', w) \<and>
    (if \<not> tidle (threads s t) \<and> tsignal (threads s t) \<and> tnew (threads s t) \<noteq> ZOMBIE then n = t
     else if \<exists>u. tst (threads s u) = READY then
       tst (threads s n) = READY \<and> (\<forall>u. tst (threads s u) = READY \<longrightarrow> tprio (threads s u) \<le> tprio (threads s n))
     else if \<not> tidle (threads s t) \<and> tnew (threads s t) = READY then n = t
     else idleThreads s ! cpu = Some n) \<and> tst (threads s' n) = RUNNING \<and>
    (\<forall>u. u \<noteq> n \<longrightarrow> tst (threads s' u) = (if u \<noteq> t then tst (threads s u) else if tidle (threads s t) then BLOCKED else tnew (threads s t)))"
proof -
  obtain n s' w where p: "perform s (Some t) cpu = Some (n, s', w)" "chosen s t cpu n" "tst (threads s' n) = RUNNING"
    "\<forall>u. u \<noteq> n \<longrightarrow> tst (threads s' u) = (if u = t then left_state (threads s t) else tst (threads s u))"
    using perform_chooses [OF sched_reach_inv [OF assms(1,2)] assms(3-5)] by blast
  have l: "left_state (threads s t) = READY \<longleftrightarrow> \<not> tidle (threads s t) \<and> tnew (threads s t) = READY" by (simp add: left_state_def)
  show ?thesis using p(2-4) by (intro some_exI(2) [OF p(1)]) (simp only: chosen_def goes_on_def l, simp add: left_state_def)
qed

definition demo_running :: sched where
  "demo_running = fst (snd (the (perform demo_sched None 0)))"

lemma demo_running_reach: "sched_reach 1 demo_threads demo_running"
proof -
  have "perform demo_sched None 0 \<noteq> None"
    using perform_inv [OF sched_reach_inv [OF demo_reach demo_fresh], of None 0] by (auto simp: demo_eval)
  then have "sched_step demo_sched demo_running"
    by (auto intro!: sched_step.switch [of None _ 0] simp: demo_running_def demo_eval)
  with demo_reach show ?thesis by (meson rtranclp.rtrancl_into_rtrancl)
qed

theorem perform_choice_witness: "\<exists>n s' w. perform demo_running (Some 7) 0 = Some (n, s', w) \<and> tst (threads s' n) = RUNNING"
proof -
  have "tst (threads demo_running 7) = RUNNING" "0 < length (idleThreads demo_running)" "idleThreads demo_running ! 0 \<noteq> None"
    using demo_eval by (simp_all add: demo_running_def perform_def eval_nat_numeral Let_def)
  from perform_choice [OF demo_running_reach demo_fresh this] show ?thesis by blast
qed

end
