(* ===== verification/RefCount.thy ===== *)
theory RefCount
  imports Prelude
begin

text \<open>
  Reference counts. Several kernel objects, open files and semaphores among them, are shared through tables of the
  processes: each process has a list of references, 0 is none, and an object carries the number of references
  to it. This theory counts the references of all tables.
\<close>

section \<open>Counting references\<close>

text \<open>The number of entries, in the tables of all processes, that refer to an object.\<close>

definition tot :: "(nat \<Rightarrow> nat list) \<Rightarrow> nat \<Rightarrow> nat" where
  "tot F f = (\<Sum>p | F p \<noteq> []. count_list (F p) f)"

lemma tot_upd:
  assumes "finite {p. F p \<noteq> []}"
  shows "tot (F(p := xs)) f + count_list (F p) f = tot F f + count_list xs f"
proof -
  define S where "S = insert p {p. F p \<noteq> []}"
  have S: "finite S" "p \<in> S" using assms by (auto simp: S_def)
  have sup: "tot G f = (\<Sum>q \<in> S. count_list (G q) f)" if "{q. G q \<noteq> []} \<subseteq> S" for G
    unfolding tot_def using S(1) that by (intro sum.mono_neutral_left) auto
  have "tot (F(p := xs)) f = (\<Sum>q \<in> S. count_list ((F(p := xs)) q) f)" by (rule sup) (auto simp: S_def)
  also have "\<dots> = count_list xs f + (\<Sum>q \<in> S - {p}. count_list (F q) f)"
    using S by (simp add: sum.remove [of S p])
  finally have 1: "tot (F(p := xs)) f = count_list xs f + (\<Sum>q \<in> S - {p}. count_list (F q) f)" .
  have "tot F f = (\<Sum>q \<in> S. count_list (F q) f)" by (rule sup) (auto simp: S_def)
  also have "\<dots> = count_list (F p) f + (\<Sum>q \<in> S - {p}. count_list (F q) f)" using S by (simp add: sum.remove [of S p])
  finally show ?thesis using 1 by simp
qed

lemma finite_fds_upd: "finite {p. F p \<noteq> []} \<Longrightarrow> finite {q. (F(p := xs)) q \<noteq> []}"
  by (rule finite_subset [of _ "insert p {p. F p \<noteq> []}"]) auto

lemma count_list_update:
  "i < length xs \<Longrightarrow> count_list (xs[i := v]) f + (if xs ! i = f then 1 else 0) = count_list xs f + (if v = f then 1 else 0)"
proof (induction xs arbitrary: i)
  case (Cons x xs)
  show ?case
  proof (cases i)
    case (Suc j)
    with Cons.IH [of j] Cons.prems show ?thesis by (auto split: if_splits)
  qed simp
qed simp

lemma count_replicate0 [simp]: "f \<noteq> 0 \<Longrightarrow> count_list (replicate n 0) f = 0"
  by (induction n) auto

lemma tot_pos: "finite {p. F p \<noteq> []} \<Longrightarrow> f \<in> set (F p) \<Longrightarrow> 0 < tot F f"
  using tot_upd [of F p "[]" f] by (cases "count_list (F p) f") (auto simp: count_list_0_iff)

section \<open>Counting users\<close>

text \<open>The number of users, processes or pages, whose one reference is to an object.\<close>

definition users :: "(nat \<rightharpoonup> nat) \<Rightarrow> nat \<Rightarrow> nat" where
  "users m g = card {p. m p = Some g}"

lemma fin_users: "finite (dom m) \<Longrightarrow> finite {p. m p = Some g}"
  by (rule finite_subset [of _ "dom m"]) auto

lemma users_put:
  assumes "finite (dom m)"
  shows "users (m(p := h)) g + (if m p = Some g then 1 else 0) = users m g + (if h = Some g then 1 else 0)"
proof -
  let ?R = "{q. m q = Some g} - {p}"
  have f: "finite ?R" using fin_users [OF assms] by simp
  have a: "users m g = card ?R + (if m p = Some g then 1 else 0)"
    using card.remove [OF fin_users [OF assms], of p g] by (auto simp: users_def)
  have "{q. (m(p := h)) q = Some g} = (if h = Some g then insert p ?R else ?R)" by auto
  then have "users (m(p := h)) g = card (if h = Some g then insert p ?R else ?R)" unfolding users_def by (rule arg_cong)
  then have "users (m(p := h)) g = card ?R + (if h = Some g then 1 else 0)" using card_insert_disjoint [OF f, of p] by simp
  with a show ?thesis by simp
qed

lemma users_upd:
  "finite (dom m) \<Longrightarrow> users (m(p \<mapsto> h)) g + (if m p = Some g then 1 else 0) = users m g + (if h = g then 1 else 0)"
  using users_put [of m p "Some h" g] by simp

lemma users_pos: "finite (dom m) \<Longrightarrow> m p = Some g \<Longrightarrow> 0 < users m g"
  unfolding users_def by (subst card_gt_0_iff) (auto simp: fin_users)

lemma users_dom: "finite (dom m) \<Longrightarrow> users m g \<le> card (dom m)"
  unfolding users_def by (rule card_mono) auto

lemma users_one:
  assumes "finite (dom m)" "m p = Some g" "m q = Some g" "q \<noteq> p"
  shows "1 < users m g"
proof -
  have "0 < users (m(p := None)) g" using assms by (intro users_pos [of _ q]) simp_all
  then show ?thesis using users_put [OF assms(1), of p None g] assms(2) by simp
qed

end
