(* ===== verification/FileTable.thy ===== *)
theory FileTable
  imports KErrno RefCount Transitions
begin

text \<open>
  The file descriptors of the processes, \<open>kernel/src/task/filedesc.cc\<close>, and the global file table behind them,
  the reference and usage counts of \<open>kernel/src/vfs/openfile.cc\<close>.

  An open file is a slot of the global table, named by a number above 0; 0 is NULL. The slots are in the list
  of used, of exclusively used or of free slots. The descriptors of a process are the list of its slots.
  \<open>refCount\<close> and \<open>usageCount\<close> are 16-bit numbers. The reference counts and the closing of VFS nodes are the
  events the operations append. The semaphores of files are left out. Locks make each operation one step.
\<close>

section \<open>State\<close>

record OpenFile =
  fflags :: "16 word"
  fowner :: nat
  frefs :: nat
  fusages :: nat
  fposition :: nat
  fnodeNo :: nat
  fnode :: nat
  fdevNo :: nat

datatype fevent = NodeRef nat | NodeClose nat nat nat

record fdsys =
  gft :: "nat \<Rightarrow> OpenFile"
  gftCount :: nat
  usedList :: "nat list"
  exclList :: "nat list"
  gftFreeList :: "nat list"
  fds :: "nat \<Rightarrow> nat list"
  fevents :: "fevent list"

abbreviation MAX_FD_COUNT :: nat where "MAX_FD_COUNT \<equiv> 1024"

abbreviation lonely :: "16 word \<Rightarrow> bool" where "lonely fl \<equiv> fl AND VFS_LONELY \<noteq> 0"

abbreviation upd_file :: "fdsys \<Rightarrow> nat \<Rightarrow> (OpenFile \<Rightarrow> OpenFile) \<Rightarrow> fdsys" where
  "upd_file s f h \<equiv> s\<lparr>gft := (gft s)(f := h (gft s f))\<rparr>"

abbreviation upd_fds :: "fdsys \<Rightarrow> nat \<Rightarrow> nat list \<Rightarrow> fdsys" where
  "upd_fds s p xs \<equiv> s\<lparr>fds := (fds s)(p := xs)\<rparr>"

section \<open>Open files\<close>

definition incRefs :: "fdsys \<Rightarrow> nat \<Rightarrow> fdsys option" where
  "incRefs s f = do { vassert (f \<noteq> 0); Some (upd_file s f (\<lambda>x. x\<lparr>frefs := (frefs x + 1) mod 65536\<rparr>)) }"

definition incUsages :: "fdsys \<Rightarrow> nat \<Rightarrow> fdsys option" where
  "incUsages s f = do { vassert (f \<noteq> 0); Some (upd_file s f (\<lambda>x. x\<lparr>fusages := (fusages x + 1) mod 65536\<rparr>)) }"


definition releaseFile :: "fdsys \<Rightarrow> nat \<Rightarrow> fdsys option" where
  "releaseFile s f = do {
     vassert (fflags (gft s f) \<noteq> 0);
     s1 \<leftarrow> (if lonely (fflags (gft s f)) then do { vassert (f \<in> set (exclList s)); Some (s\<lparr>exclList := remove1 f (exclList s)\<rparr>) }
       else do { vassert (f \<in> set (usedList s)); Some (s\<lparr>usedList := remove1 f (usedList s)\<rparr>) });
     Some ((upd_file s1 f (\<lambda>x. x\<lparr>fflags := 0\<rparr>))\<lparr>gftFreeList := f # gftFreeList s1\<rparr>) }"

definition doClose :: "fdsys \<Rightarrow> nat \<Rightarrow> nat \<Rightarrow> (bool \<times> fdsys) option" where
  "doClose s f pid = do {
     vassert (f \<noteq> 0);
     let x = gft s f;
     let r = (if frefs x > 0 then frefs x - 1 else frefs x);
     let s1 = upd_file s f (\<lambda>x. x\<lparr>frefs := r\<rparr>);
     if r = 0 \<and> fusages x \<le> 1 then do {
       s2 \<leftarrow> releaseFile (s1\<lparr>fevents := fevents s1 @ [NodeClose (fnode x) pid f]\<rparr>) f;
       Some (True, s2) }
     else Some (False, s1) }"

definition decUsages :: "nat \<Rightarrow> fdsys \<Rightarrow> nat \<Rightarrow> fdsys option" where
  "decUsages pid s f = do {
     vassert (f \<noteq> 0 \<and> fusages (gft s f) > 0);
     let s1 = upd_file s f (\<lambda>x. x\<lparr>fusages := fusages x - 1\<rparr>);
     if fusages (gft s1 f) = 0 \<and> frefs (gft s1 f) = 0 then do { (b, s2) \<leftarrow> doClose s1 f pid; Some s2 }
     else Some s1 }"

datatype fcntl_cmd = F_GETACCESS | F_GETFL | F_SETFL "16 word"

definition fcntl :: "fdsys \<Rightarrow> nat \<Rightarrow> fcntl_cmd \<Rightarrow> 16 word \<times> fdsys" where
  "fcntl s f cmd = (let fl = fflags (gft s f) in case cmd of
     F_GETACCESS \<Rightarrow> (fl AND (VFS_READ OR VFS_WRITE OR VFS_MSGS), s)
   | F_GETFL \<Rightarrow> (fl AND VFS_NOBLOCK, s)
   | F_SETFL arg \<Rightarrow> (0, upd_file s f (\<lambda>x. x\<lparr>fflags :=
       (fl AND (VFS_READ OR VFS_WRITE OR VFS_MSGS OR VFS_CREATE OR VFS_DEVICE)) OR (arg AND VFS_NOBLOCK)\<rparr>)))"

section \<open>File descriptors\<close>

definition fd_isValid :: "fdsys \<Rightarrow> nat \<Rightarrow> int \<Rightarrow> bool" where
  "fd_isValid s p fd \<longleftrightarrow> fd \<ge> 0 \<and> nat fd < length (fds s p)"


definition fd_request :: "fdsys \<Rightarrow> nat \<Rightarrow> int \<Rightarrow> (nat \<times> fdsys) option" where
  "fd_request s p fd =
     (if \<not> fd_isValid s p fd then Some (0, s)
      else let f = fds s p ! nat fd in
        if f \<noteq> 0 then do { s1 \<leftarrow> incUsages s f; Some (f, s1) } else Some (0, s))"

definition fd_release :: "nat \<Rightarrow> fdsys \<Rightarrow> nat \<Rightarrow> fdsys option" where
  "fd_release pid s f = decUsages pid s f"





text \<open>The search loop of \<open>doAssoc\<close>: the first free descriptor.\<close>

fun free_fd :: "nat list \<Rightarrow> nat \<Rightarrow> nat option" where
  "free_fd [] i = None"
| "free_fd (f # fs) i = (if f = 0 then Some i else free_fd fs (i + 1))"

definition doAssoc :: "bool \<Rightarrow> fdsys \<Rightarrow> nat \<Rightarrow> nat \<Rightarrow> (int \<times> fdsys) option" where
  "doAssoc memok s p f = (let xs = fds s p; n = length xs in case free_fd xs 0 of
     Some i \<Rightarrow> Some (int i, upd_fds s p (xs[i := f]))
   | None \<Rightarrow>
     if n = MAX_FD_COUNT then Some (- EMFILE, s)
     else if \<not> memok then Some (- ENOMEM, s)
     else do {
       vassert (0 < n);
       Some (int n, upd_fds s p ((xs @ replicate n 0)[n := f])) })"

definition fd_assoc :: "bool \<Rightarrow> fdsys \<Rightarrow> nat \<Rightarrow> nat \<Rightarrow> (int \<times> fdsys) option" where
  "fd_assoc memok s p f = doAssoc memok s p f"

definition fd_dup :: "bool \<Rightarrow> fdsys \<Rightarrow> nat \<Rightarrow> int \<Rightarrow> (int \<times> fdsys) option" where
  "fd_dup memok s p fd =
     (if \<not> fd_isValid s p fd then Some (- EBADF, s)
      else do {
        let f = fds s p ! nat fd;
        (nfd, s1) \<leftarrow> doAssoc memok s p f;
        s2 \<leftarrow> (if nfd \<ge> 0 then incRefs s1 f else Some s1);
        Some (nfd, s2) })"

definition fd_redirect :: "fdsys \<Rightarrow> nat \<Rightarrow> int \<Rightarrow> int \<Rightarrow> (int \<times> fdsys) option" where
  "fd_redirect s p src dst =
     (if \<not> fd_isValid s p src \<or> \<not> fd_isValid s p dst then Some (- EBADF, s)
      else let fSrc = fds s p ! nat src; fDst = fds s p ! nat dst in
        if fSrc \<noteq> 0 \<and> fDst \<noteq> 0 then do {
          s1 \<leftarrow> incRefs s fDst;
          (freed, s2) \<leftarrow> doClose s1 fSrc p;
          Some (0, upd_fds s2 p ((fds s2 p)[nat src := fDst])) }
        else Some (- EBADF, s))"

definition fd_unassoc :: "fdsys \<Rightarrow> nat \<Rightarrow> int \<Rightarrow> nat \<times> fdsys" where
  "fd_unassoc s p fd =
     (if \<not> fd_isValid s p fd then (0, s)
      else let f = fds s p ! nat fd in
        if f \<noteq> 0 then (f, upd_fds s p ((fds s p)[nat fd := 0])) else (0, s))"

text \<open>The system call \<open>close\<close>, without other threads in between.\<close>

definition sys_close :: "fdsys \<Rightarrow> nat \<Rightarrow> int \<Rightarrow> (int \<times> fdsys) option" where
  "sys_close s p fd = do {
     (f, s1) \<leftarrow> fd_request s p fd;
     if f = 0 then Some (- EBADF, s1)
     else do {
       let s2 = snd (fd_unassoc s1 p fd);
       (freed, s3) \<leftarrow> doClose s2 f p;
       s4 \<leftarrow> (if \<not> freed then fd_release p s3 f else Some s3);
       Some (0, s4) } }"

definition gft_empty :: fdsys where
  "gft_empty = \<lparr>gft = (\<lambda>_. \<lparr>fflags = 0, fowner = 0, frefs = 0, fusages = 0, fposition = 0, fnodeNo = 0, fnode = 0, fdevNo = 0\<rparr>),
     gftCount = 0, usedList = [], exclList = [], gftFreeList = [], fds = (\<lambda>_. []), fevents = []\<rparr>"

section \<open>Invariant\<close>

text \<open>
  A system is the kernel state with the references held by system calls outside of descriptor tables, \<open>ext\<close>,
  and the usages of threads between request and release, \<open>use\<close>.
\<close>

definition live :: "fdsys \<Rightarrow> nat \<Rightarrow> bool" where
  "live s f \<longleftrightarrow> f \<in> set (usedList s) \<or> f \<in> set (exclList s)"

definition lists_ok :: "fdsys \<Rightarrow> bool" where
  "lists_ok s \<longleftrightarrow> distinct (usedList s @ exclList s @ gftFreeList s) \<and>
     set (usedList s @ exclList s @ gftFreeList s) = {1..gftCount s} \<and>
     (\<forall>f \<in> set (usedList s). fflags (gft s f) \<noteq> 0 \<and> \<not> lonely (fflags (gft s f))) \<and>
     (\<forall>f \<in> set (exclList s). lonely (fflags (gft s f)))"

definition counts_ok :: "fdsys \<Rightarrow> (nat \<Rightarrow> nat) \<Rightarrow> (nat \<Rightarrow> nat) \<Rightarrow> nat \<Rightarrow> bool" where
  "counts_ok s ext use f \<longleftrightarrow>
     (if live s f then frefs (gft s f) = tot (fds s) f + ext f \<and> fusages (gft s f) = use f \<and> 0 < tot (fds s) f + ext f + use f
      else tot (fds s) f = 0 \<and> ext f = 0 \<and> use f = 0)"

definition fd_inv :: "fdsys \<Rightarrow> (nat \<Rightarrow> nat) \<Rightarrow> (nat \<Rightarrow> nat) \<Rightarrow> bool" where
  "fd_inv s ext use \<longleftrightarrow> finite {p. fds s p \<noteq> []} \<and> lists_ok s \<and> (\<forall>f. f \<noteq> 0 \<longrightarrow> counts_ok s ext use f)"

lemma fd_invD:
  assumes "fd_inv s ext use"
  shows "finite {p. fds s p \<noteq> []}" "lists_ok s" "f \<noteq> 0 \<Longrightarrow> counts_ok s ext use f"
  using assms by (auto simp: fd_inv_def)

lemma live_nz: "lists_ok s \<Longrightarrow> live s f \<Longrightarrow> f \<noteq> 0"
proof -
  assume a: "lists_ok s" "live s f"
  then have "f \<in> set (usedList s @ exclList s @ gftFreeList s)" by (auto simp: live_def)
  also have "\<dots> = {1..gftCount s}" using a(1) unfolding lists_ok_def by blast
  finally show ?thesis by simp
qed

lemma live_flags: "lists_ok s \<Longrightarrow> live s f \<Longrightarrow> fflags (gft s f) \<noteq> 0"
  by (auto simp: lists_ok_def live_def)

lemma live_counts:
  assumes "fd_inv s ext use" "live s f"
  shows "f \<noteq> 0" "frefs (gft s f) = tot (fds s) f + ext f" "fusages (gft s f) = use f" "0 < tot (fds s) f + ext f + use f"
  using fd_invD(3) [OF assms(1), of f] live_nz [OF fd_invD(2) [OF assms(1)] assms(2)] assms(2) by (auto simp: counts_ok_def)

lemma held_live:
  assumes "fd_inv s ext use" "f \<noteq> 0" "0 < ext f \<or> 0 < use f \<or> f \<in> set (fds s p)"
  shows "live s f"
  using fd_invD(3) [OF assms(1,2)] tot_pos [OF fd_invD(1) [OF assms(1)], of f p] assms(3) by (auto simp: counts_ok_def split: if_splits)



section \<open>Operations keep the invariant\<close>








lemma free_fd_some: "free_fd xs k = Some i \<Longrightarrow> \<exists>j. i = k + j \<and> j < length xs \<and> xs ! j = 0 \<and> (\<forall>m < j. xs ! m \<noteq> 0)"
proof (induction xs arbitrary: k)
  case (Cons x xs)
  show ?case
  proof (cases "x = 0")
    case False
    with Cons.prems have "free_fd xs (k + 1) = Some i" by simp
    from Cons.IH [OF this] obtain j where "i = k + 1 + j" "j < length xs" "xs ! j = 0" "\<forall>m < j. xs ! m \<noteq> 0" by blast
    with False show ?thesis by (intro exI [of _ "Suc j"]) (auto simp: less_Suc_eq_0_disj)
  qed (use Cons in auto)
qed simp

lemma free_fd_none: "free_fd xs k = None \<longleftrightarrow> 0 \<notin> set xs"
  by (induction xs arbitrary: k) auto


















section \<open>Runs\<close>


lemma fcntl_not_lonely: "((a AND 1039) OR (b AND 64)) AND 128 = (0 :: 16 word)"
  by (simp add: bit.conj_disj_distrib2 and.assoc)









section \<open>Properties\<close>





text \<open>C22: A new descriptor is the smallest free one of the process and no other descriptor changes. With all in use,
  the table doubles and the first new one is taken; with 1024 in use the result is \<open>-EMFILE\<close>, without memory it is
  \<open>-ENOMEM\<close>, and then nothing changes.\<close>

theorem assoc_result:
  assumes "fds s p \<noteq> []"
  shows "\<exists>fd s'. fd_assoc memok s p f = Some (fd, s') \<and>
    (if 0 \<in> set (fds s p) then \<exists>i < length (fds s p). fd = int i \<and> fds s p ! i = 0 \<and> 0 \<notin> set (take i (fds s p)) \<and>
       s' = upd_fds s p ((fds s p)[i := f])
     else if length (fds s p) = MAX_FD_COUNT then fd = - EMFILE \<and> s' = s
     else if \<not> memok then fd = - ENOMEM \<and> s' = s
     else fd = int (length (fds s p)) \<and> s' = upd_fds s p (fds s p @ f # replicate (length (fds s p) - 1) 0))"
proof (cases "free_fd (fds s p) 0")
  case (Some i)
  then have z: "0 \<in> set (fds s p)" using free_fd_none [of "fds s p" 0] by auto
  from free_fd_some [OF Some] have i: "i < length (fds s p)" "fds s p ! i = 0" "\<forall>m < i. fds s p ! m \<noteq> 0" by auto
  then have "0 \<notin> set (take i (fds s p))" by (auto simp: in_set_conv_nth)
  with i z Some show ?thesis by (auto simp: fd_assoc_def doAssoc_def Let_def)
next
  case None
  then have z: "0 \<notin> set (fds s p)" using free_fd_none [of "fds s p" 0] by simp
  have "(fds s p @ replicate (length (fds s p)) 0)[length (fds s p) := f] = fds s p @ f # replicate (length (fds s p) - 1) 0"
    using assms by (cases "length (fds s p)") (simp_all add: list_update_append)
  with None z assms show ?thesis by (simp add: fd_assoc_def doAssoc_def Let_def)
qed

theorem assoc_result_witness: "\<exists>fd s'. fd_assoc True (upd_fds gft_empty 3 [4, 0, 5, 0]) 3 9 = Some (fd, s')"
  using assoc_result [of "upd_fds gft_empty 3 [4, 0, 5, 0]" 3 True 9] by auto

section \<open>Flaws\<close>

text \<open>\<open>dup\<close> of a descriptor that is not in use dereferences NULL.\<close>

lemma fd_dup_unused: "fd_isValid s p fd \<Longrightarrow> fds s p ! nat fd = 0 \<Longrightarrow> fd_dup memok s p fd = None"
proof -
  assume a: "fd_isValid s p fd" "fds s p ! nat fd = 0"
  then have "0 \<in> set (fds s p)" by (metis fd_isValid_def nth_mem)
  then obtain i where "free_fd (fds s p) 0 = Some i" using free_fd_none [of "fds s p" 0] by auto
  with a show ?thesis by (simp add: fd_dup_def Let_def doAssoc_def incRefs_def)
qed

text \<open>\<open>redirect\<close> releases a file that one other thread is using.\<close>

lemma redirect_in_use:
  assumes "fd_inv s ext use" "fd_isValid s p src" "fd_isValid s p dst" "fds s p ! nat src \<noteq> 0" "fds s p ! nat dst \<noteq> 0"
    "fds s p ! nat src \<noteq> fds s p ! nat dst" "frefs (gft s (fds s p ! nat src)) = 1" "use (fds s p ! nat src) = 1"
  shows "\<exists>s'. fd_redirect s p src dst = Some (0, s') \<and> fds s p ! nat src \<in> set (gftFreeList s')"
proof -
  let ?f = "fds s p ! nat src"
  have l: "live s ?f" using held_live [OF assms(1,4), of p] assms(2) by (auto simp: fd_isValid_def)
  have "fflags (gft s ?f) \<noteq> 0" "fusages (gft s ?f) = 1"
    using live_flags [OF fd_invD(2) [OF assms(1)] l] live_counts(3) [OF assms(1) l] assms(8) by simp_all
  moreover have "if lonely (fflags (gft s ?f)) then ?f \<in> set (exclList s) else ?f \<in> set (usedList s)"
    using l fd_invD(2) [OF assms(1)] by (auto simp: live_def lists_ok_def)
  ultimately show ?thesis using assms(2-7)
    by (simp add: fd_redirect_def Let_def incRefs_def doClose_def releaseFile_def split: if_splits)
qed

text \<open>
  The system call \<open>close\<close> ignores that the descriptor was already gone: two threads that close the same descriptor both take a reference from the
  file. Here both have requested the file, and one of them has taken the descriptor out; another descriptor still refers to the file when it is released.
\<close>

lemma close_twice:
  assumes "fd_inv s ext use" "f \<noteq> 0" "f \<in> set (fds s p)" "frefs (gft s f) = 2" "use f = 2"
  shows "\<exists>s1 s2 s3. doClose s f pid = Some (False, s1) \<and> fd_release pid s1 f = Some s2 \<and> doClose s2 f pid = Some (True, s3) \<and>
    f \<in> set (fds s3 p) \<and> f \<in> set (gftFreeList s3)"
proof -
  have l: "live s f" using held_live [OF assms(1,2), of p] assms(3) by blast
  have "fflags (gft s f) \<noteq> 0" "fusages (gft s f) = 2"
    using live_flags [OF fd_invD(2) [OF assms(1)] l] live_counts(3) [OF assms(1) l] assms(5) by simp_all
  moreover have "if lonely (fflags (gft s f)) then f \<in> set (exclList s) else f \<in> set (usedList s)"
    using l fd_invD(2) [OF assms(1)] by (auto simp: live_def lists_ok_def)
  ultimately show ?thesis using assms(2-4)
    by (simp add: fd_release_def decUsages_def doClose_def releaseFile_def Let_def split: if_splits)
qed

text \<open>\<open>F_SETFL\<close> clears the flag of an exclusively opened file; its last close fails an assertion.\<close>

lemma setfl_lonely_close:
  assumes "fd_inv s ext use" "f \<in> set (exclList s)" "frefs (gft s f) = 1" "fusages (gft s f) \<le> 1"
  shows "doClose (snd (fcntl s f (F_SETFL arg))) f pid = None"
proof -
  have "f \<notin> set (usedList s)" using fd_invD(2) [OF assms(1)] assms(2) by (auto simp: lists_ok_def)
  with assms(3,4) show ?thesis
    by (simp add: fcntl_def Let_def doClose_def releaseFile_def fcntl_not_lonely vassert_def)
qed

end
