(* ===== verification/KSem.thy ===== *)
theory KSem
  imports Prelude Transitions
begin

text \<open>
  The semaphores and mutexes of the kernel: \<open>BaseSem\<close> in \<open>kernel/include/semaphore.h\<close> and \<open>kernel/src/semaphore.cc\<close>,
  the list of blocked threads of \<open>kernel/src/blockedlist.cc\<close>, and \<open>Mutex\<close> of \<open>kernel/src/mutex.cc\<close>.

  A call of \<open>down\<close> that blocks ends in two parts, the one up to \<open>Thread::switchAway\<close> and the one behind it,
  which runs after the thread was woken up. The spinlock makes each part one step. The part behind the switch of a thread that was
  interrupted by a signal runs without the spinlock; it is taken as one step here. The value is an \<open>int\<close>: the runs have
  fewer than 2^31 units and waiting threads.
\<close>

section \<open>Semaphore\<close>

record BaseSem =
  svalue :: int
  waiters :: "nat list"

definition sem_create :: "int \<Rightarrow> BaseSem" where
  "sem_create v = \<lparr>svalue = v, waiters = []\<rparr>"

text \<open>\<open>BlockedList\<close>: the running thread is appended; the first one is taken out and woken up.\<close>

definition bl_block :: "nat list \<Rightarrow> nat \<Rightarrow> nat list" where
  "bl_block ws t = ws @ [t]"

definition bl_remove :: "nat list \<Rightarrow> nat \<Rightarrow> nat list" where
  "bl_remove ws t = remove1 t ws"

definition bl_wakeup :: "nat list \<Rightarrow> nat option \<times> nat list" where
  "bl_wakeup ws = (case ws of [] \<Rightarrow> (None, []) | t # ts \<Rightarrow> (Some t, ts))"

text \<open>\<open>down\<close> up to the switch to another thread; the flag says that the thread has to block.\<close>

definition sem_down :: "BaseSem \<Rightarrow> nat \<Rightarrow> bool \<times> BaseSem" where
  "sem_down s t = (let v = svalue s - 1 in
     if v < 0 \<or> length (waiters s) > 0 then (True, \<lparr>svalue = v, waiters = bl_block (waiters s) t\<rparr>)
     else (False, s\<lparr>svalue := v\<rparr>))"

definition sem_tryDown :: "BaseSem \<Rightarrow> bool \<times> BaseSem" where
  "sem_tryDown s = (if svalue s > 0 \<and> length (waiters s) = 0 then (True, s\<lparr>svalue := svalue s - 1\<rparr>) else (False, s))"

text \<open>The first result is the thread that is woken up.\<close>

definition sem_up :: "BaseSem \<Rightarrow> nat option \<times> BaseSem" where
  "sem_up s = (case bl_wakeup (waiters s) of (w, ws) \<Rightarrow> (w, \<lparr>svalue = svalue s + 1, waiters = ws\<rparr>))"

text \<open>The part of \<open>down\<close> behind the switch, for a thread that was woken by a signal.\<close>

definition sem_interrupted :: "BaseSem \<Rightarrow> nat \<Rightarrow> nat option \<times> BaseSem" where
  "sem_interrupted s t = sem_up (s\<lparr>waiters := bl_remove (waiters s) t\<rparr>)"

section \<open>Threads and a semaphore\<close>

text \<open>\<open>holds t\<close> is the number of units thread \<open>t\<close> has; a thread that \<open>up\<close> wakes has its unit. \<open>total\<close> is the number of units
  there are: the initial value and one for each \<open>up\<close> of somebody who has no unit, as interrupts do it. \<open>surplus\<close> counts the
  waits that were interrupted while another thread waited.\<close>

record semsys =
  sem :: BaseSem
  holds :: "nat \<Rightarrow> nat"
  total :: nat
  surplus :: nat

definition woken :: "nat option \<Rightarrow> (nat \<Rightarrow> nat) \<Rightarrow> nat \<Rightarrow> nat" where
  "woken w h = (case w of None \<Rightarrow> h | Some u \<Rightarrow> h(u := h u + 1))"

inductive sem_step :: "semsys \<Rightarrow> semsys \<Rightarrow> bool" where
  sm_down: "t \<notin> set (waiters (sem s)) \<Longrightarrow> sem_down (sem s) t = (blocks, m) \<Longrightarrow>
    sem_step s (s\<lparr>sem := m, holds := (if blocks then holds s else (holds s)(t := holds s t + 1))\<rparr>)"
| sm_try: "t \<notin> set (waiters (sem s)) \<Longrightarrow> sem_tryDown (sem s) = (ok, m) \<Longrightarrow>
    sem_step s (s\<lparr>sem := m, holds := (if ok then (holds s)(t := holds s t + 1) else holds s)\<rparr>)"
| sm_up: "holds s t > 0 \<Longrightarrow> t \<notin> set (waiters (sem s)) \<Longrightarrow> sem_up (sem s) = (w, m) \<Longrightarrow>
    sem_step s (s\<lparr>sem := m, holds := woken w ((holds s)(t := holds s t - 1))\<rparr>)"
| sm_post: "sem_up (sem s) = (w, m) \<Longrightarrow>
    sem_step s (s\<lparr>sem := m, holds := woken w (holds s), total := total s + 1\<rparr>)"
| sm_intr: "t \<in> set (waiters (sem s)) \<Longrightarrow> sem_interrupted (sem s) t = (w, m) \<Longrightarrow>
    sem_step s (s\<lparr>sem := m, holds := woken w (holds s), surplus := (if w = None then surplus s else surplus s + 1)\<rparr>)"

text \<open>All units that are held.\<close>

definition units :: "(nat \<Rightarrow> nat) \<Rightarrow> nat" where
  "units h = (\<Sum>t | 0 < h t. h t)"

lemma units_upd:
  assumes "finite {t. 0 < h t}"
  shows "units (h(t := n)) + h t = units h + n" "finite {u. 0 < (h(t := n)) u}"
proof -
  define S where "S = insert t {t. 0 < h t}"
  have S: "finite S" "t \<in> S" using assms by (auto simp: S_def)
  show "finite {u. 0 < (h(t := n)) u}" by (rule finite_subset [OF _ S(1)]) (auto simp: S_def)
  have sup: "units g = (\<Sum>u \<in> S. g u)" if "{u. 0 < g u} \<subseteq> S" for g
    unfolding units_def using S(1) that by (intro sum.mono_neutral_left) auto
  have "units (h(t := n)) = (\<Sum>u \<in> S. (h(t := n)) u)" by (rule sup) (auto simp: S_def)
  also have "\<dots> = n + (\<Sum>u \<in> S - {t}. h u)" using S by (simp add: sum.remove [of S t])
  finally have "units (h(t := n)) = n + (\<Sum>u \<in> S - {t}. h u)" .
  moreover have "units h = (\<Sum>u \<in> S. h u)" by (rule sup) (auto simp: S_def)
  then have "units h = h t + (\<Sum>u \<in> S - {t}. h u)" by (simp only: sum.remove [OF S])
  ultimately show "units (h(t := n)) + h t = units h + n" by simp
qed

lemma units_ge: "finite {t. 0 < h t} \<Longrightarrow> h t \<le> units h"
  using units_upd(1) [of h t 0] by simp

lemma units_two: "finite {t. 0 < h t} \<Longrightarrow> t \<noteq> u \<Longrightarrow> h t + h u \<le> units h"
  using units_upd [of h t 0] units_ge [of "h(t := 0)" u] by simp

text \<open>
  The value counts the free units, or the waiting threads when it is negative; a thread waits only when all units
  are held, once, and holds are finite.
\<close>

definition sem_inv :: "semsys \<Rightarrow> bool" where
  "sem_inv s \<longleftrightarrow> finite {t. holds s t > 0} \<and> distinct (waiters (sem s)) \<and>
     svalue (sem s) = int (total s) - int (units (holds s)) - int (length (waiters (sem s))) \<and>
     (waiters (sem s) \<noteq> [] \<longrightarrow> total s \<le> units (holds s)) \<and> units (holds s) \<le> total s + surplus s"

lemma units_woken:
  assumes "finite {t. 0 < h t}"
  shows "units (woken w h) = (if w = None then units h else units h + 1)" "finite {t. 0 < woken w h t}"
proof (atomize (full), cases w)
  case (Some u)
  then show "units (woken w h) = (if w = None then units h else units h + 1) \<and> finite {t. 0 < woken w h t}"
    using units_upd [OF assms, of u "h u + 1"] by (simp add: woken_def)
qed (simp add: woken_def assms)

lemma sem_up_cases:
  assumes "sem_up q = (w, m)"
  shows "svalue m = svalue q + 1" "w = None \<and> waiters q = [] \<and> waiters m = [] \<or> (\<exists>u. w = Some u \<and> waiters q = u # waiters m)"
  using assms by (auto simp: sem_up_def bl_wakeup_def split: list.splits)

lemma sem_step_inv: "sem_step s s' \<Longrightarrow> sem_inv s \<Longrightarrow> sem_inv s'"
proof (induction rule: sem_step.induct)
  case (sm_down t s blocks m)
  note h = units_upd [of "holds s" t "holds s t + 1"]
  show ?case
  proof (cases "svalue (sem s) - 1 < 0 \<or> length (waiters (sem s)) > 0")
    case True
    then show ?thesis using sm_down by (auto simp: sem_inv_def sem_down_def bl_block_def)
  next
    case False
    then show ?thesis using sm_down h by (auto simp: sem_inv_def sem_down_def)
  qed
next
  case (sm_try t s ok m)
  then show ?case using units_upd [of "holds s" t "holds s t + 1"]
    by (auto simp: sem_inv_def sem_tryDown_def split: if_splits)
next
  case (sm_up s t w m)
  have f: "finite {t. holds s t > 0}" using sm_up(4) by (simp add: sem_inv_def)
  define h1 where "h1 = (holds s)(t := holds s t - 1)"
  have h1: "units h1 + 1 = units (holds s)" "finite {u. 0 < h1 u}"
    using units_upd [OF f, of t "holds s t - 1"] sm_up(1) by (simp_all add: h1_def)
  show ?case using sem_up_cases [OF sm_up(3)] sm_up(4) h1(1) units_woken [OF h1(2), of w]
    unfolding sem_inv_def h1_def [symmetric] by auto
next
  case (sm_post s w m)
  then have f: "finite {t. holds s t > 0}" by (simp add: sem_inv_def)
  show ?case using sem_up_cases [OF sm_post(1)] sm_post(2) units_woken [OF f, of w] unfolding sem_inv_def by auto
next
  case (sm_intr t s w m)
  then have f: "finite {t. holds s t > 0}" by (simp add: sem_inv_def)
  have l: "length (waiters (sem s)) = length (remove1 t (waiters (sem s))) + 1" using sm_intr(1) length_pos_if_in_set [OF sm_intr(1)] by (simp add: length_remove1)
  have "distinct (remove1 t (waiters (sem s)))" using sm_intr(3) by (simp add: sem_inv_def)
  then have d: "distinct (waiters m)"
    using sem_up_cases(2) [OF sm_intr(2) [unfolded sem_interrupted_def]] by (metis bl_remove_def distinct.simps BaseSem.select_convs(2) BaseSem.surjective BaseSem.update_convs(2))
  have ne: "waiters (sem s) \<noteq> []" using sm_intr(1) by auto
  show ?case using sem_up_cases [OF sm_intr(2) [unfolded sem_interrupted_def]] sm_intr(3) units_woken [OF f, of w] l d ne
    unfolding sem_inv_def by (auto simp: bl_remove_def)
qed

definition sem_start :: "nat \<Rightarrow> semsys" where
  "sem_start n = \<lparr>sem = sem_create (int n), holds = (\<lambda>_. 0), total = n, surplus = 0\<rparr>"

abbreviation sem_reach :: "nat \<Rightarrow> semsys \<Rightarrow> bool" where
  "sem_reach n s \<equiv> sem_step\<^sup>*\<^sup>* (sem_start n) s"

lemma sem_start_inv: "sem_inv (sem_start n)"
  by (simp add: sem_inv_def sem_start_def sem_create_def units_def)

interpretation sem_runs: transitions sem_step "\<lambda>s. \<exists>n. s = sem_start n" sem_inv
  by unfold_locales (use sem_start_inv sem_step_inv in auto)

lemma sem_reach_inv: "sem_reach n s \<Longrightarrow> sem_inv s"
  by (erule sem_runs.reachable) blast

section \<open>Mutex\<close>

record Mutex =
  msem :: BaseSem
  mholder :: nat
  mdepth :: int

text \<open>The depth is a \<open>short\<close>.\<close>

definition int16 :: "int \<Rightarrow> int" where
  "int16 i = signed_take_bit 15 i"

lemma int16_small: "- 32768 \<le> i \<Longrightarrow> i < 32768 \<Longrightarrow> int16 i = i"
  unfolding int16_def by (rule signed_take_bit_int_eq_self) simp_all

abbreviation MINVALID :: nat where "MINVALID \<equiv> 0xFFFF"

definition mutex_create :: Mutex where
  "mutex_create = \<lparr>msem = sem_create 1, mholder = MINVALID, mdepth = 0\<rparr>"

text \<open>
  Where a thread is: it waits in \<open>Semaphore::down\<close>, or has got the semaphore in \<open>down\<close> or \<open>tryDown\<close> but is not the
  holder yet, or is the holder, or has given that up in \<open>up\<close> but not called \<open>Semaphore::up\<close> yet.
\<close>

datatype mpc = MIdle | MWaiting | MGot | MTried | MHolds | MLeaving

text \<open>The parts of \<open>down\<close>: a holder counts; another thread takes the semaphore, and then becomes the holder.\<close>

definition mutex_down :: "Mutex \<Rightarrow> nat \<Rightarrow> mpc \<times> Mutex" where
  "mutex_down m t = (if mholder m \<noteq> t then
       (case sem_down (msem m) t of (blocks, s) \<Rightarrow> (if blocks then MWaiting else MGot, m\<lparr>msem := s\<rparr>))
     else (MHolds, m\<lparr>mdepth := int16 (mdepth m + 1)\<rparr>))"

definition mutex_enter :: "Mutex \<Rightarrow> nat \<Rightarrow> Mutex option" where
  "mutex_enter m t = do {
     vassert (mholder m = MINVALID \<and> mdepth m = 0);
     Some (m\<lparr>mholder := t, mdepth := int16 (mdepth m + 1)\<rparr>) }"

definition mutex_tryDown :: "Mutex \<Rightarrow> nat \<Rightarrow> mpc \<times> Mutex" where
  "mutex_tryDown m t = (if mholder m = t then (MHolds, m\<lparr>mdepth := int16 (mdepth m + 1)\<rparr>)
     else case sem_tryDown (msem m) of (ok, s) \<Rightarrow> (if ok then MTried else MIdle, m\<lparr>msem := s\<rparr>))"

definition mutex_tried :: "Mutex \<Rightarrow> nat \<Rightarrow> Mutex" where
  "mutex_tried m t = m\<lparr>mholder := t, mdepth := int16 (mdepth m + 1)\<rparr>"

text \<open>\<open>up\<close>: the flag says that the semaphore is to be released.\<close>

definition mutex_up :: "Mutex \<Rightarrow> nat \<Rightarrow> (bool \<times> Mutex) option" where
  "mutex_up m t = do {
     vassert (mholder m = t);
     vassert (mdepth m > 0);
     let d = int16 (mdepth m - 1);
     Some (if d = 0 then (True, m\<lparr>mdepth := 0, mholder := MINVALID\<rparr>) else (False, m\<lparr>mdepth := d\<rparr>)) }"

record mutsys =
  mtx :: Mutex
  mpcs :: "nat \<Rightarrow> mpc"

text \<open>The holder does not nest 32767 calls of \<open>down\<close> and \<open>tryDown\<close>.\<close>

inductive mut_step :: "mutsys \<Rightarrow> mutsys \<Rightarrow> bool" where
  mu_down: "mpcs s t = MIdle \<or> mpcs s t = MHolds \<and> mdepth (mtx s) < 32767 \<Longrightarrow> t \<noteq> MINVALID \<Longrightarrow> mutex_down (mtx s) t = (c, m) \<Longrightarrow>
    mut_step s \<lparr>mtx = m, mpcs = (mpcs s)(t := c)\<rparr>"
| mu_enter: "mpcs s t = MGot \<Longrightarrow> mutex_enter (mtx s) t = Some m \<Longrightarrow> mut_step s \<lparr>mtx = m, mpcs = (mpcs s)(t := MHolds)\<rparr>"
| mu_try: "mpcs s t = MIdle \<or> mpcs s t = MHolds \<and> mdepth (mtx s) < 32767 \<Longrightarrow> t \<noteq> MINVALID \<Longrightarrow> mutex_tryDown (mtx s) t = (c, m) \<Longrightarrow>
    mut_step s \<lparr>mtx = m, mpcs = (mpcs s)(t := c)\<rparr>"
| mu_tried: "mpcs s t = MTried \<Longrightarrow> mut_step s \<lparr>mtx = mutex_tried (mtx s) t, mpcs = (mpcs s)(t := MHolds)\<rparr>"
| mu_up: "mpcs s t = MHolds \<Longrightarrow> mutex_up (mtx s) t = Some (rel, m) \<Longrightarrow>
    mut_step s \<lparr>mtx = m, mpcs = (mpcs s)(t := if rel then MLeaving else MHolds)\<rparr>"
| mu_leave: "mpcs s t = MLeaving \<Longrightarrow> sem_up (msem (mtx s)) = (w, q) \<Longrightarrow>
    mut_step s \<lparr>mtx = (mtx s)\<lparr>msem := q\<rparr>, mpcs = (case w of None \<Rightarrow> (mpcs s)(t := MIdle) | Some u \<Rightarrow> (mpcs s)(t := MIdle, u := MGot))\<rparr>"

text \<open>
  The semaphore of the mutex is used as a semaphore with one unit, held by the threads that are neither idle nor
  waiting. The holder is the thread that has entered.
\<close>

definition has_unit :: "(nat \<Rightarrow> mpc) \<Rightarrow> nat \<Rightarrow> nat" where
  "has_unit c t = (if c t = MIdle \<or> c t = MWaiting then 0 else 1)"

definition mut_sem :: "mutsys \<Rightarrow> semsys" where
  "mut_sem s = \<lparr>sem = msem (mtx s), holds = has_unit (mpcs s), total = 1, surplus = 0\<rparr>"

definition mut_inv :: "mutsys \<Rightarrow> bool" where
  "mut_inv s \<longleftrightarrow> sem_inv (mut_sem s) \<and> (\<forall>t. mpcs s t = MWaiting \<longleftrightarrow> t \<in> set (waiters (msem (mtx s)))) \<and>
     (\<forall>t. mpcs s t = MHolds \<longleftrightarrow> mholder (mtx s) = t \<and> t \<noteq> MINVALID) \<and>
     (mholder (mtx s) = MINVALID \<longleftrightarrow> mdepth (mtx s) = 0) \<and> 0 \<le> mdepth (mtx s) \<and> mpcs s MINVALID = MIdle \<and>
     mdepth (mtx s) < 32768"

lemma has_unit_upd: "has_unit (c(t := x)) = (has_unit c)(t := if x = MIdle \<or> x = MWaiting then 0 else 1)"
  by (auto simp: has_unit_def)

text \<open>Two threads with the unit are the same.\<close>

lemma unit_unique:
  assumes "sem_inv (mut_sem s)" "has_unit (mpcs s) t = 1" "has_unit (mpcs s) u = 1"
  shows "t = u"
proof (rule ccontr)
  assume "t \<noteq> u"
  from units_two [OF _ this, of "has_unit (mpcs s)"] assms show False by (simp add: sem_inv_def mut_sem_def)
qed

lemma mut_invD:
  assumes "mut_inv s"
  shows "sem_inv (mut_sem s)" "mpcs s t = MWaiting \<longleftrightarrow> t \<in> set (waiters (msem (mtx s)))"
    "mpcs s t = MHolds \<longleftrightarrow> mholder (mtx s) = t \<and> t \<noteq> MINVALID" "mholder (mtx s) = MINVALID \<longleftrightarrow> mdepth (mtx s) = 0"
    "0 \<le> mdepth (mtx s)" "mpcs s MINVALID = MIdle" "mdepth (mtx s) < 32768"
  using assms by (simp_all add: mut_inv_def)

lemma mut_inv_sem:
  assumes inv: "mut_inv s" and st: "sem_step (mut_sem s) ((mut_sem s)\<lparr>sem := q, holds := has_unit c\<rparr>)"
    and w: "\<And>t. c t = MWaiting \<longleftrightarrow> t \<in> set (waiters q)" and h: "\<And>t. c t = MHolds \<longleftrightarrow> mpcs s t = MHolds" and i: "c MINVALID = MIdle"
  shows "mut_inv \<lparr>mtx = (mtx s)\<lparr>msem := q\<rparr>, mpcs = c\<rparr>"
  using sem_step_inv [OF st] inv w h i by (simp add: mut_inv_def mut_sem_def)

text \<open>A thread that has the unit changes what it does with it, and the holder with it.\<close>

lemma mut_inv_own:
  assumes inv: "mut_inv s" and t: "has_unit (mpcs s) t = 1" "t \<noteq> MINVALID" and x: "x \<noteq> MIdle" "x \<noteq> MWaiting"
    and m: "msem m = msem (mtx s)" "mholder m = (if x = MHolds then t else MINVALID)" "mdepth m = 0 \<longleftrightarrow> x \<noteq> MHolds" "0 \<le> mdepth m" "mdepth m < 32768"
  shows "mut_inv \<lparr>mtx = m, mpcs = (mpcs s)(t := x)\<rparr>"
proof -
  have eq: "has_unit ((mpcs s)(t := x)) = has_unit (mpcs s)" using t(1) x by (simp add: has_unit_upd fun_upd_idem)
  have o: "mpcs s u \<noteq> MHolds" if "u \<noteq> t" for u
  proof
    assume "mpcs s u = MHolds"
    then have "has_unit (mpcs s) u = 1" by (simp add: has_unit_def)
    with unit_unique [OF mut_invD(1) [OF inv] t(1)] that show False by simp
  qed
  have nw: "t \<notin> set (waiters (msem (mtx s)))" using t(1) mut_invD(2) [OF inv, of t] by (auto simp: has_unit_def)
  note I = mut_invD [OF inv]
  show ?thesis unfolding mut_inv_def
  proof (intro conjI allI)
    show "sem_inv (mut_sem \<lparr>mtx = m, mpcs = (mpcs s)(t := x)\<rparr>)" using I(1) m(1) eq by (simp add: mut_sem_def)
    show "mpcs \<lparr>mtx = m, mpcs = (mpcs s)(t := x)\<rparr> u = MWaiting \<longleftrightarrow>
        u \<in> set (waiters (msem (mtx \<lparr>mtx = m, mpcs = (mpcs s)(t := x)\<rparr>)))" for u using I(2) [of u] m(1) x(2) nw by simp
    show "mpcs \<lparr>mtx = m, mpcs = (mpcs s)(t := x)\<rparr> u = MHolds \<longleftrightarrow>
        mholder (mtx \<lparr>mtx = m, mpcs = (mpcs s)(t := x)\<rparr>) = u \<and> u \<noteq> MINVALID" for u using m(2) o [of u] t(2) by (cases "u = t"; cases "x = MHolds") simp_all
  qed (use m I(6) t(2) in simp_all)
qed

lemma idle_not_waiting: "mut_inv s \<Longrightarrow> mpcs s t = MIdle \<or> mpcs s t = MHolds \<Longrightarrow> t \<notin> set (waiters (msem (mtx s)))"
  using mut_invD(2) [of s t] by auto

lemma mut_step_inv: "mut_step s s' \<Longrightarrow> mut_inv s \<Longrightarrow> mut_inv s'"
proof (induction rule: mut_step.induct)
  case (mu_down s t c m)
  show ?case
  proof (cases "mholder (mtx s) = t")
    case True
    note I = mut_invD [OF mu_down(4)]
    have "mpcs s t = MHolds" using I(3) [of t] True mu_down(2) by simp
    then have h: "has_unit (mpcs s) t = 1" by (simp add: has_unit_def)
    moreover have "mdepth (mtx s) < 32767" using mu_down(1) \<open>mpcs s t = MHolds\<close> by simp
    ultimately have "c = MHolds" "m = (mtx s)\<lparr>mdepth := mdepth (mtx s) + 1\<rparr>" "mdepth (mtx s) + 1 < 32768"
      using mu_down(3) True I(5) by (auto simp: mutex_down_def int16_small)
    then show ?thesis using True I(5) h by (intro mut_inv_own [OF mu_down(4) h mu_down(2)]) auto
  next
    case False
    then have id: "mpcs s t = MIdle" using mu_down(1) mut_invD(3) [OF mu_down(4), of t] by blast
    obtain b q where q: "sem_down (msem (mtx s)) t = (b, q)" by fastforce
    have m: "m = (mtx s)\<lparr>msem := q\<rparr>" "c = (if b then MWaiting else MGot)" using mu_down(3) False q by (auto simp: mutex_down_def)
    have st: "sem_step (mut_sem s) ((mut_sem s)\<lparr>sem := q, holds := (if b then holds (mut_sem s) else (holds (mut_sem s))(t := holds (mut_sem s) t + 1))\<rparr>)"
      by (rule sem_step.sm_down) (use q idle_not_waiting [OF mu_down(4), of t] id in \<open>simp_all add: mut_sem_def\<close>)
    have eq: "(if b then holds (mut_sem s) else (holds (mut_sem s))(t := holds (mut_sem s) t + 1)) = has_unit ((mpcs s)(t := c))"
      using id m(2) has_unit_def [of "mpcs s" t] by (simp add: mut_sem_def has_unit_upd fun_upd_idem)
    have w: "set (waiters q) = (if b then insert t (set (waiters (msem (mtx s)))) else set (waiters (msem (mtx s))))"
      using q by (auto simp: sem_down_def bl_block_def Let_def split: if_splits)
    have nt: "t \<notin> set (waiters (msem (mtx s)))" by (rule idle_not_waiting [OF mu_down(4)]) (use id in simp)
    show ?thesis unfolding m(1)
    proof (rule mut_inv_sem [OF mu_down(4) st [unfolded eq]])
      show "((mpcs s)(t := c)) u = MWaiting \<longleftrightarrow> u \<in> set (waiters q)" for u
        using mut_invD(2) [OF mu_down(4), of u] m(2) nt unfolding w by auto
    qed (use mu_down(2) m(2) id mut_invD(6) [OF mu_down(4)] in auto)
  qed
next
  case (mu_enter s t m)
  then have "t \<noteq> MINVALID" using mut_invD(6) [of s] by auto
  moreover have "m = (mtx s)\<lparr>mholder := t, mdepth := 1\<rparr>" using mu_enter(2) by (auto simp: mutex_enter_def int16_small split: bind_splits)
  ultimately show ?case using mu_enter by (intro mut_inv_own) (simp_all add: has_unit_def)
next
  case (mu_try s t c m)
  show ?case
  proof (cases "mholder (mtx s) = t")
    case True
    note I = mut_invD [OF mu_try(4)]
    have "mpcs s t = MHolds" using I(3) [of t] True mu_try(2) by simp
    then have h: "has_unit (mpcs s) t = 1" by (simp add: has_unit_def)
    moreover have "mdepth (mtx s) < 32767" using mu_try(1) \<open>mpcs s t = MHolds\<close> by simp
    ultimately have "c = MHolds" "m = (mtx s)\<lparr>mdepth := mdepth (mtx s) + 1\<rparr>" "mdepth (mtx s) + 1 < 32768"
      using mu_try(3) True I(5) by (auto simp: mutex_tryDown_def int16_small)
    then show ?thesis using True I(5) h by (intro mut_inv_own [OF mu_try(4) h mu_try(2)]) auto
  next
    case False
    then have id: "mpcs s t = MIdle" using mu_try(1) mut_invD(3) [OF mu_try(4), of t] by blast
    obtain b q where q: "sem_tryDown (msem (mtx s)) = (b, q)" by fastforce
    have m: "m = (mtx s)\<lparr>msem := q\<rparr>" "c = (if b then MTried else MIdle)" using mu_try(3) False q by (auto simp: mutex_tryDown_def)
    have nt: "t \<notin> set (waiters (msem (mtx s)))" by (rule idle_not_waiting [OF mu_try(4)]) (use id in simp)
    have st: "sem_step (mut_sem s) ((mut_sem s)\<lparr>sem := q, holds := (if b then (holds (mut_sem s))(t := holds (mut_sem s) t + 1) else holds (mut_sem s))\<rparr>)"
      by (rule sem_step.sm_try) (use q nt in \<open>simp_all add: mut_sem_def\<close>)
    have eq: "(if b then (holds (mut_sem s))(t := holds (mut_sem s) t + 1) else holds (mut_sem s)) = has_unit ((mpcs s)(t := c))"
      using id m(2) has_unit_def [of "mpcs s" t] by (simp add: mut_sem_def has_unit_upd fun_upd_idem)
    have w: "waiters q = waiters (msem (mtx s))" using q by (auto simp: sem_tryDown_def split: if_splits)
    show ?thesis unfolding m(1)
    proof (rule mut_inv_sem [OF mu_try(4) st [unfolded eq]])
      show "((mpcs s)(t := c)) u = MWaiting \<longleftrightarrow> u \<in> set (waiters q)" for u
        using mut_invD(2) [OF mu_try(4), of u] m(2) nt unfolding w by auto
    qed (use mu_try(2) m(2) id mut_invD(6) [OF mu_try(4)] in auto)
  qed
next
  case (mu_tried s t)
  then have t: "t \<noteq> MINVALID" using mut_invD(6) [of s] by auto
  have u: "has_unit (mpcs s) t = 1" using mu_tried(1) by (simp add: has_unit_def)
  have "mholder (mtx s) = MINVALID"
  proof (rule ccontr)
    assume n: "mholder (mtx s) \<noteq> MINVALID"
    then have h: "mpcs s (mholder (mtx s)) = MHolds" using mu_tried(2) by (simp add: mut_inv_def)
    then have "mholder (mtx s) = t" using unit_unique [of s "mholder (mtx s)" t] mu_tried(2) u by (simp add: mut_inv_def has_unit_def)
    with h mu_tried(1) show False by simp
  qed
  then have "mdepth (mtx s) = 0" using mu_tried(2) by (simp add: mut_inv_def)
  then show ?case using mu_tried t u by (intro mut_inv_own) (simp_all add: mutex_tried_def int16_small)
next
  case (mu_up s t rel m)
  then have h: "mholder (mtx s) = t" "t \<noteq> MINVALID" "0 \<le> mdepth (mtx s)" "mdepth (mtx s) < 32768" using mut_invD(3,5,7) [of s] by auto
  have "m = (if mdepth (mtx s) = 1 then (mtx s)\<lparr>mdepth := 0, mholder := MINVALID\<rparr> else (mtx s)\<lparr>mdepth := mdepth (mtx s) - 1\<rparr>)"
    "rel \<longleftrightarrow> mdepth (mtx s) = 1" "mdepth (mtx s) > 0"
    using mu_up(2) h(4) by (auto simp: mutex_up_def Let_def int16_small split: bind_splits if_splits)
  moreover have u: "has_unit (mpcs s) t = 1" using mu_up(1) by (simp add: has_unit_def)
  ultimately show ?case using h by (cases "mdepth (mtx s) = 1") (intro mut_inv_own [OF mu_up(3) u h(2)], simp_all)+
next
  case (mu_leave s t w q)
  let ?c = "case w of None \<Rightarrow> (mpcs s)(t := MIdle) | Some u \<Rightarrow> (mpcs s)(t := MIdle, u := MGot)"
  have u1: "holds (mut_sem s) t = 1" using mu_leave(1) by (simp add: mut_sem_def has_unit_def)
  have st: "sem_step (mut_sem s) ((mut_sem s)\<lparr>sem := q, holds := woken w ((holds (mut_sem s))(t := holds (mut_sem s) t - 1))\<rparr>)"
    by (rule sem_step.sm_up) (use mu_leave mut_invD(2) [of s t] u1 in \<open>simp_all add: mut_sem_def\<close>)
  have d: "distinct (waiters (msem (mtx s)))" using mu_leave(3) by (simp add: mut_inv_def sem_inv_def mut_sem_def)
  have wq: "w = None \<and> waiters (msem (mtx s)) = [] \<and> waiters q = [] \<or> (\<exists>u. w = Some u \<and> waiters (msem (mtx s)) = u # waiters q)"
    using mu_leave(2) by (auto simp: sem_up_def bl_wakeup_def split: list.splits)
  have wt: "mpcs s v = MWaiting \<longleftrightarrow> v \<in> set (waiters (msem (mtx s)))" for v using mu_leave(3) by (simp add: mut_inv_def)
  have eq: "woken w ((holds (mut_sem s))(t := holds (mut_sem s) t - 1)) = has_unit ?c"
    using wq
  proof (elim disjE exE conjE)
    assume "w = None"
    then show ?thesis using u1 by (simp add: mut_sem_def has_unit_upd woken_def)
  next
    fix u assume u: "w = Some u" "waiters (msem (mtx s)) = u # waiters q"
    then have "mpcs s u = MWaiting" using wt by simp
    then have "u \<noteq> t" "has_unit (mpcs s) u = 0" using mu_leave(1) by (auto simp: has_unit_def)
    then show ?thesis using u(1) u1 by (simp add: mut_sem_def has_unit_upd woken_def)
  qed
  show ?case
  proof (rule mut_inv_sem [OF mu_leave(3) st [unfolded eq]])
    show "?c v = MWaiting \<longleftrightarrow> v \<in> set (waiters q)" for v using wq wt [of v] wt [of t] d mu_leave(1) by (auto split: if_splits)
    show "?c v = MHolds \<longleftrightarrow> mpcs s v = MHolds" for v using wq wt [of v] mu_leave(1) by (auto split: if_splits)
    show "?c MINVALID = MIdle" using wq wt [of MINVALID] mu_leave(3) by (auto simp: mut_inv_def split: if_splits)
  qed
qed

abbreviation mut_reach :: "mutsys \<Rightarrow> bool" where
  "mut_reach s \<equiv> mut_step\<^sup>*\<^sup>* \<lparr>mtx = mutex_create, mpcs = (\<lambda>_. MIdle)\<rparr> s"

lemma mutex_create_inv: "mut_inv \<lparr>mtx = mutex_create, mpcs = (\<lambda>_. MIdle)\<rparr>"
proof -
  have "has_unit (\<lambda>_. MIdle) = (\<lambda>_. 0)" by (auto simp: has_unit_def)
  then show ?thesis by (simp add: mut_inv_def sem_inv_def mut_sem_def mutex_create_def sem_create_def units_def)
qed

interpretation mutex_runs: transitions mut_step "\<lambda>s. s = \<lparr>mtx = mutex_create, mpcs = (\<lambda>_. MIdle)\<rparr>" mut_inv
  by unfold_locales (simp add: mutex_create_inv, rule mut_step_inv)

lemma mut_reach_inv: "mut_reach s \<Longrightarrow> mut_inv s"
  by (erule mutex_runs.reachable) simp

section \<open>Properties\<close>


definition demo_sem :: semsys where
  "demo_sem = \<lparr>sem = \<lparr>svalue = -2, waiters = [2, 3]\<rparr>, holds = (\<lambda>_. 0)(1 := 1), total = 1, surplus = 0\<rparr>"

lemma demo_sem_reach: "sem_reach 1 demo_sem"
proof -
  let ?s1 = "(sem_start 1)\<lparr>sem := \<lparr>svalue = 0, waiters = []\<rparr>, holds := (\<lambda>_. 0)(1 := 1)\<rparr>"
  let ?s2 = "?s1\<lparr>sem := \<lparr>svalue = -1, waiters = [2]\<rparr>\<rparr>"
  have "sem_step (sem_start 1) ?s1"
    using sem_step.sm_down [of 1 "sem_start 1" False "sem ?s1"] by (simp add: sem_down_def sem_start_def sem_create_def)
  moreover have "sem_step ?s1 ?s2" using sem_step.sm_down [of 2 ?s1 True "sem ?s2"] by (simp add: sem_down_def bl_block_def sem_start_def)
  moreover have "sem_step ?s2 demo_sem"
    using sem_step.sm_down [of 3 ?s2 True "sem demo_sem"] by (simp add: sem_down_def bl_block_def demo_sem_def sem_start_def)
  ultimately show ?thesis by (meson converse_rtranclp_into_rtranclp rtranclp.rtrancl_refl)
qed


text \<open>The threads in front of a waiting one.\<close>

definition before :: "nat \<Rightarrow> nat list \<Rightarrow> nat list" where
  "before t ws = takeWhile (\<lambda>u. u \<noteq> t) ws"

lemma before_simps [simp]: "before t [] = []" "before t (u # ws) = (if u = t then [] else u # before t ws)"
  by (simp_all add: before_def)

lemma before_append [simp]: "t \<in> set ws \<Longrightarrow> before t (ws @ us) = before t ws"
  by (induction ws) auto





text \<open>C21: In every run of threads over a kernel mutex in which no thread nests more than 32767 calls, at most one thread is between \<open>down\<close>, or a
  successful \<open>tryDown\<close>, and \<open>up\<close>; the mutex knows it as its holder; and the assertions of \<open>down\<close> and \<open>up\<close> do not fail.\<close>

theorem mutex_exclusive:
  assumes "mut_reach s"
  shows "(mpcs s t = MHolds \<and> mpcs s u = MHolds \<longrightarrow> t = u) \<and> (mpcs s t = MHolds \<longrightarrow> mholder (mtx s) = t) \<and>
    (mpcs s t = MGot \<longrightarrow> mutex_enter (mtx s) t \<noteq> None) \<and> (mpcs s t = MHolds \<longrightarrow> mutex_up (mtx s) t \<noteq> None)"
proof -
  note I = mut_invD [OF mut_reach_inv [OF assms]]
  have "mutex_enter (mtx s) t \<noteq> None" if g: "mpcs s t = MGot"
  proof -
    have "mholder (mtx s) = MINVALID"
    proof (rule ccontr)
      let ?h = "mholder (mtx s)"
      assume "?h \<noteq> MINVALID"
      then have h: "mpcs s ?h = MHolds" using I(3) [of ?h] by simp
      then have "?h = t" using unit_unique [OF I(1), of ?h t] g by (simp add: has_unit_def)
      with h g show False by simp
    qed
    then show ?thesis using I(4) by (simp add: mutex_enter_def)
  qed
  moreover have "mutex_up (mtx s) t \<noteq> None" if "mpcs s t = MHolds"
    using I(3) [of t] I(4,5) that by (auto simp: mutex_up_def Let_def)
  ultimately show ?thesis using I(3) by auto
qed

theorem mutex_exclusive_witness:
  "mutex_enter (mtx \<lparr>mtx = mutex_create\<lparr>msem := \<lparr>svalue = 0, waiters = []\<rparr>\<rparr>, mpcs = (\<lambda>_. MIdle)(4 := MGot)\<rparr>) 4 \<noteq> None"
proof -
  let ?s0 = "\<lparr>mtx = mutex_create, mpcs = (\<lambda>_. MIdle)\<rparr>"
  have "mut_step ?s0 \<lparr>mtx = mutex_create\<lparr>msem := \<lparr>svalue = 0, waiters = []\<rparr>\<rparr>, mpcs = (\<lambda>_. MIdle)(4 := MGot)\<rparr>"
    using mut_step.mu_down [of ?s0 4 MGot "mutex_create\<lparr>msem := \<lparr>svalue = 0, waiters = []\<rparr>\<rparr>"]
    by (simp add: mutex_down_def mutex_create_def sem_down_def sem_create_def)
  then have "mut_reach \<lparr>mtx = mutex_create\<lparr>msem := \<lparr>svalue = 0, waiters = []\<rparr>\<rparr>, mpcs = (\<lambda>_. MIdle)(4 := MGot)\<rparr>"
    by (rule r_into_rtranclp [of mut_step])
  from mutex_exclusive [OF this, of 4 4] show ?thesis by simp
qed

section \<open>Flaws\<close>

text \<open>The 32768th nested call of \<open>down\<close> makes the depth negative, and the assertion of the next \<open>up\<close> fails.\<close>

lemma mutex_depth_wraps:
  assumes "mholder m = t" "mdepth m = 32767"
  shows "mutex_down m t = (MHolds, m\<lparr>mdepth := - 32768\<rparr>)" "mutex_up (m\<lparr>mdepth := - 32768\<rparr>) t = None"
  using assms by (simp_all add: mutex_down_def mutex_up_def int16_def)

text \<open>
  A waiting thread that is interrupted by a signal gives back a unit it never had: the next waiting thread gets
  the semaphore although the only unit is still held.
\<close>

lemma ksem_signal: "\<exists>s. sem_reach 1 s \<and> total s = 1 \<and> units (holds s) = 2"
proof -
  let ?s = "demo_sem\<lparr>sem := \<lparr>svalue = - 1, waiters = []\<rparr>, holds := (\<lambda>_. 0)(1 := 1, 3 := 1), surplus := 1\<rparr>"
  have "sem_step demo_sem ?s" using sem_step.sm_intr [of 2 demo_sem "Some 3" "sem ?s"]
    by (simp add: demo_sem_def sem_interrupted_def bl_remove_def sem_up_def bl_wakeup_def woken_def)
  with demo_sem_reach have r: "sem_reach 1 ?s" by (rule rtranclp.rtrancl_into_rtrancl)
  then have "sem_inv ?s" by (rule sem_reach_inv)
  then have "units (holds ?s) = 2" by (simp add: sem_inv_def demo_sem_def)
  with r show ?thesis by (intro exI [of _ ?s]) (simp add: demo_sem_def)
qed

end
