(* ===== verification/Sems.thy ===== *)
theory Sems
  imports KErrno RefCount KSem Transitions
begin

text \<open>
  The semaphores of processes, \<open>kernel/src/task/sems.cc\<close>, and their connection to interrupts,
  \<open>kernel/src/interrupts.cc\<close>.

  A semaphore entry is named by its address, a number above 0; the processes have tables of entries, which a
  child shares with its parent. An allocation is given as its result: the address of the new entry, 0 when there
  is no memory, or a flag. The result of installing an interrupt handler is an argument, too. Reference counts
  are \<open>int\<close>s that stay below 2^31, since there are fewer table entries. A call of \<open>op\<close> is modelled as its two
  locked parts, around the operation on the semaphore.
\<close>

section \<open>State\<close>

record Entry =
  erefs :: int
  eirq :: int
  esem :: BaseSem

record semtab =
  entries :: "nat \<rightharpoonup> Entry"
  psems :: "nat \<Rightarrow> nat list"
  userIrqs :: "nat \<Rightarrow> nat list"

abbreviation INIT_SEMS_COUNT :: nat where "INIT_SEMS_COUNT \<equiv> 8"
abbreviation MAX_SEM_COUNT :: nat where "MAX_SEM_COUNT \<equiv> 256"

abbreviation upd_psems :: "semtab \<Rightarrow> nat \<Rightarrow> nat list \<Rightarrow> semtab" where
  "upd_psems s p xs \<equiv> s\<lparr>psems := (psems s)(p := xs)\<rparr>"

section \<open>Interrupts\<close>

text \<open>\<open>install\<close> is the result of \<open>installHandler\<close>, \<open>irqcount\<close> the number of interrupts.\<close>

definition attachSem :: "nat \<Rightarrow> int \<Rightarrow> semtab \<Rightarrow> nat \<Rightarrow> nat \<Rightarrow> (int \<times> semtab) option" where
  "attachSem irqcount install s e irq = do {
     vassert (irq < irqcount);
     if length (userIrqs s irq) = 0 \<and> install < 0 then Some (install, s)
     else Some (0, s\<lparr>userIrqs := (userIrqs s)(irq := userIrqs s irq @ [e])\<rparr>) }"

definition detachSem :: "nat \<Rightarrow> semtab \<Rightarrow> nat \<Rightarrow> nat \<Rightarrow> semtab option" where
  "detachSem irqcount s e irq = do {
     vassert (irq < irqcount);
     Some (s\<lparr>userIrqs := (userIrqs s)(irq := remove1 e (userIrqs s irq))\<rparr>) }"

fun fire_all :: "semtab \<Rightarrow> nat list \<Rightarrow> semtab option" where
  "fire_all s [] = Some s"
| "fire_all s (e # es) = do {
     x \<leftarrow> entries s e;
     fire_all (s\<lparr>entries := (entries s)(e \<mapsto> x\<lparr>esem := snd (sem_up (esem x))\<rparr>)\<rparr>) es }"

definition fireIrq :: "nat \<Rightarrow> semtab \<Rightarrow> nat \<Rightarrow> (bool \<times> semtab) option" where
  "fireIrq irqcount s irq = do {
     vassert (irq < irqcount);
     s1 \<leftarrow> fire_all s (userIrqs s irq);
     Some (length (userIrqs s irq) > 0, s1) }"

section \<open>Operations\<close>

definition sems_ref :: "semtab \<Rightarrow> nat \<Rightarrow> semtab option" where
  "sems_ref s e = do { x \<leftarrow> entries s e; Some (s\<lparr>entries := (entries s)(e \<mapsto> x\<lparr>erefs := erefs x + 1\<rparr>)\<rparr>) }"

definition sems_unref :: "nat \<Rightarrow> semtab \<Rightarrow> nat \<Rightarrow> semtab option" where
  "sems_unref irqcount s e =
     (if e = 0 then Some s
      else do {
        x \<leftarrow> entries s e;
        let s1 = s\<lparr>entries := (entries s)(e \<mapsto> x\<lparr>erefs := erefs x - 1\<rparr>)\<rparr>;
        if erefs x = 1 then do {
          s2 \<leftarrow> (if eirq x \<noteq> -1 then detachSem irqcount s1 e (nat (eirq x)) else Some s1);
          Some (s2\<lparr>entries := (entries s2)(e := None)\<rparr>) }
        else Some s1 })"

definition sems_init :: "bool \<Rightarrow> semtab \<Rightarrow> nat \<Rightarrow> int \<times> semtab" where
  "sems_init memok s p = (if \<not> memok then (- ENOMEM, upd_psems s p []) else (0, upd_psems s p (replicate INIT_SEMS_COUNT 0)))"

fun ref_all :: "semtab \<Rightarrow> nat list \<Rightarrow> semtab option" where
  "ref_all s [] = Some s"
| "ref_all s (e # es) = (if e \<noteq> 0 then do { s1 \<leftarrow> sems_ref s e; ref_all s1 es } else ref_all s es)"

definition sems_clone :: "bool \<Rightarrow> semtab \<Rightarrow> nat \<Rightarrow> nat \<Rightarrow> (int \<times> semtab) option" where
  "sems_clone memok s p old =
     (if \<not> memok then Some (- ENOMEM, upd_psems s p [])
      else do { s1 \<leftarrow> ref_all (upd_psems s p (psems s old)) (psems s old); Some (0, s1) })"

fun free_sem :: "nat list \<Rightarrow> nat \<Rightarrow> nat option" where
  "free_sem [] i = None"
| "free_sem (e # es) i = (if e = 0 then Some i else free_sem es (i + 1))"

text \<open>\<open>e\<close> is the address of the new entry, \<open>memok\<close> says whether the table can grow.\<close>

definition sems_create :: "nat \<Rightarrow> int \<Rightarrow> nat \<Rightarrow> bool \<Rightarrow> semtab \<Rightarrow> nat \<Rightarrow> int \<Rightarrow> int \<Rightarrow> (int \<times> semtab) option" where
  "sems_create irqcount install e memok s p sval irq =
     (if e = 0 then Some (- ENOMEM, s)
      else let s1 = s\<lparr>entries := (entries s)(e \<mapsto> \<lparr>erefs = 1, eirq = irq, esem = sem_create sval\<rparr>)\<rparr>;
               drop = (\<lambda>t. t\<lparr>entries := (entries t)(e := None)\<rparr>);
               xs = psems s p; n = length xs in
      case free_sem xs 0 of
        Some i \<Rightarrow> do {
          (r, s2) \<leftarrow> (if irq \<noteq> -1 then attachSem irqcount install s1 e (nat irq) else Some (0, s1));
          if r < 0 then Some (r, drop s2) else Some (int i, upd_psems s2 p (xs[i := e])) }
      | None \<Rightarrow>
        if n = MAX_SEM_COUNT then Some (- EMFILE, drop s1)
        else if \<not> memok then Some (- ENOMEM, drop s1)
        else do {
          let s2 = upd_psems s1 p (xs @ replicate n 0);
          (r, s3) \<leftarrow> (if irq \<noteq> -1 then attachSem irqcount install s2 e (nat irq) else Some (int n, s2));
          if r < 0 then Some (r, drop s3)
          else do { vassert (nat r < 2 * n); Some (r, upd_psems s3 p ((psems s3 p)[nat r := e])) } })"

text \<open>The part of \<open>op\<close> before the operation on the semaphore, with the entry or 0 as result, and the operation \<open>up\<close>.\<close>

definition sems_op_begin :: "semtab \<Rightarrow> nat \<Rightarrow> int \<Rightarrow> (nat \<times> semtab) option" where
  "sems_op_begin s p n =
     (if n < 0 \<or> n \<ge> int (length (psems s p)) then Some (0, s)
      else let e = psems s p ! nat n in
        if e = 0 then Some (0, s) else do { s1 \<leftarrow> sems_ref s e; Some (e, s1) })"

definition sems_op_up :: "semtab \<Rightarrow> nat \<Rightarrow> semtab option" where
  "sems_op_up s e = do { x \<leftarrow> entries s e; Some (s\<lparr>entries := (entries s)(e \<mapsto> x\<lparr>esem := snd (sem_up (esem x))\<rparr>)\<rparr>) }"

definition sems_destroy :: "nat \<Rightarrow> semtab \<Rightarrow> nat \<Rightarrow> int \<Rightarrow> semtab option" where
  "sems_destroy irqcount s p n =
     (if n < 0 \<or> n \<ge> int (length (psems s p)) then Some s
      else do {
        s1 \<leftarrow> sems_unref irqcount s (psems s p ! nat n);
        Some (upd_psems s1 p ((psems s1 p)[nat n := 0])) })"

text \<open>The loop of \<open>destroyAll\<close> over the last \<open>k\<close> entries.\<close>

fun destroy_sems :: "nat \<Rightarrow> semtab \<Rightarrow> nat \<Rightarrow> nat \<Rightarrow> semtab option" where
  "destroy_sems irqcount s p 0 = Some s"
| "destroy_sems irqcount s p (Suc k) = (let i = length (psems s p) - Suc k in do {
     s1 \<leftarrow> sems_unref irqcount s (psems s p ! i);
     destroy_sems irqcount (upd_psems s1 p ((psems s1 p)[i := 0])) p k })"

definition sems_destroyAll :: "nat \<Rightarrow> semtab \<Rightarrow> nat \<Rightarrow> bool \<Rightarrow> semtab option" where
  "sems_destroyAll irqcount s p complete = do {
     s1 \<leftarrow> destroy_sems irqcount s p (length (psems s p));
     Some (if complete then upd_psems s1 p [] else s1) }"

definition semtab_empty :: semtab where
  "semtab_empty = \<lparr>entries = Map.empty, psems = (\<lambda>_. []), userIrqs = (\<lambda>_. [])\<rparr>"

section \<open>Invariant\<close>

text \<open>\<open>use e\<close> is the number of calls of \<open>op\<close> in progress. The semaphores of an interrupt are the entries created for it.\<close>

definition entry_ok :: "nat \<Rightarrow> semtab \<Rightarrow> (nat \<Rightarrow> nat) \<Rightarrow> nat \<Rightarrow> bool" where
  "entry_ok irqcount s use e \<longleftrightarrow> (case entries s e of
     None \<Rightarrow> tot (psems s) e = 0 \<and> use e = 0 \<and> (\<forall>i. e \<notin> set (userIrqs s i))
   | Some x \<Rightarrow> erefs x = int (tot (psems s) e) + int (use e) \<and> 0 < erefs x \<and>
       (eirq x = -1 \<or> 0 \<le> eirq x \<and> nat (eirq x) < irqcount) \<and>
       (\<forall>i. count_list (userIrqs s i) e = (if eirq x = int i then 1 else 0)))"

definition sems_inv :: "nat \<Rightarrow> semtab \<Rightarrow> (nat \<Rightarrow> nat) \<Rightarrow> bool" where
  "sems_inv irqcount s use \<longleftrightarrow> finite {p. psems s p \<noteq> []} \<and> (\<forall>i. 0 \<notin> set (userIrqs s i)) \<and>
     (\<forall>e. e \<noteq> 0 \<longrightarrow> entry_ok irqcount s use e)"

lemma sems_invD:
  assumes "sems_inv n s use"
  shows "finite {p. psems s p \<noteq> []}" "e \<noteq> 0 \<Longrightarrow> entry_ok n s use e" "0 \<notin> set (userIrqs s i)"
  using assms by (auto simp: sems_inv_def)

text \<open>An entry somebody refers to is there.\<close>

lemma entry_live:
  assumes "sems_inv n s use" "e \<noteq> 0" "e \<in> set (psems s p) \<or> 0 < use e"
  shows "\<exists>x. entries s e = Some x"
  using sems_invD(2) [OF assms(1,2)] tot_pos [OF sems_invD(1) [OF assms(1)], of e p] assms(3)
  by (auto simp: entry_ok_def split: option.splits)

text \<open>One entry and the tables change; the references to the others stay.\<close>

lemma sems_inv_change:
  assumes inv: "sems_inv n s use" and f: "finite {p. psems s' p \<noteq> []}"
    and o: "\<And>g. g \<noteq> 0 \<Longrightarrow> g \<noteq> e \<Longrightarrow> entries s' g = entries s g \<and> tot (psems s') g = tot (psems s) g \<and> use' g = use g \<and>
      (\<forall>i. count_list (userIrqs s' i) g = count_list (userIrqs s i) g)"
    and z: "\<And>i. 0 \<notin> set (userIrqs s' i)" and e: "e \<noteq> 0 \<Longrightarrow> entry_ok n s' use' e"
  shows "sems_inv n s' use'"
proof -
  have "entry_ok n s' use' g" if g: "g \<noteq> 0" for g
  proof (cases "g = e")
    case False
    note G = o [OF g False]
    have "g \<in> set (userIrqs s' i) \<longleftrightarrow> g \<in> set (userIrqs s i)" for i using G by (metis count_list_0_iff)
    with sems_invD(2) [OF inv g] G show ?thesis by (simp add: entry_ok_def split: option.splits)
  qed (use e g in simp)
  with f z show ?thesis by (simp add: sems_inv_def)
qed

section \<open>Operations keep the invariant\<close>

lemma sems_ref_inv:
  assumes inv: "sems_inv n s use" and e: "e \<noteq> 0" "entries s e = Some x"
  shows "\<exists>s'. sems_ref s e = Some s' \<and> sems_inv n s' (use(e := use e + 1)) \<and> psems s' = psems s \<and> dom (entries s') = dom (entries s)"
proof -
  let ?s = "s\<lparr>entries := (entries s)(e \<mapsto> x\<lparr>erefs := erefs x + 1\<rparr>)\<rparr>"
  have "sems_inv n ?s (use(e := use e + 1))"
    by (rule sems_inv_change [OF inv, where e = e])
      (use sems_invD [OF inv] sems_invD(2) [OF inv e(1)] e(2) in \<open>auto simp: entry_ok_def\<close>)
  with e show ?thesis by (auto simp: sems_ref_def)
qed

lemma sems_unref_inv:
  assumes inv: "sems_inv n s use" and e: "e \<noteq> 0" "0 < use e"
  shows "\<exists>s'. sems_unref n s e = Some s' \<and> sems_inv n s' (use(e := use e - 1)) \<and> psems s' = psems s"
proof -
  from entry_live [OF inv e(1)] e(2) obtain x where x: "entries s e = Some x" by blast
  have ok: "erefs x = int (tot (psems s) e) + int (use e)" "eirq x = -1 \<or> 0 \<le> eirq x \<and> nat (eirq x) < n"
    "\<And>i. count_list (userIrqs s i) e = (if eirq x = int i then 1 else 0)"
    using sems_invD(2) [OF inv e(1)] x by (auto simp: entry_ok_def)
  show ?thesis
  proof (cases "erefs x = 1")
    case False
    let ?s = "s\<lparr>entries := (entries s)(e \<mapsto> x\<lparr>erefs := erefs x - 1\<rparr>)\<rparr>"
    have "sems_inv n ?s (use(e := use e - 1))"
      by (rule sems_inv_change [OF inv, where e = e])
        (use sems_invD [OF inv] sems_invD(2) [OF inv e(1)] e(2) x False in \<open>auto simp: entry_ok_def\<close>)
    with x e False show ?thesis by (simp add: sems_unref_def)
  next
    case True
    let ?u = "if eirq x = -1 then userIrqs s else (userIrqs s)(nat (eirq x) := remove1 e (userIrqs s (nat (eirq x))))"
    let ?s = "s\<lparr>entries := (entries s)(e := None), userIrqs := ?u\<rparr>"
    have c: "count_list (remove1 e xs) e = count_list xs e - 1" "g \<noteq> e \<Longrightarrow> count_list (remove1 e xs) g = count_list xs g" for g and xs :: "nat list"
      by (induction xs) auto
    have "count_list (?u i) e = 0" for i using ok(2,3) c(1) by auto
    then have none: "e \<notin> set (?u i)" for i by (metis count_list_0_iff)
    have z: "0 \<notin> set (?u i)" for i using sems_invD(3) [OF inv, of i] set_remove1_subset [of e "userIrqs s i"] by auto
    have "sems_inv n ?s (use(e := use e - 1))"
    proof (rule sems_inv_change [OF inv, where e = e])
      show "entry_ok n ?s (use(e := use e - 1)) e" using none True ok(1) e(2) by (simp add: entry_ok_def)
    qed (use sems_invD(1) [OF inv] z c(2) in auto)
    moreover have "sems_unref n s e = Some ?s"
      using x e True ok(2) by (auto simp: sems_unref_def detachSem_def Let_def)
    ultimately show ?thesis by auto
  qed
qed

text \<open>References move between a table and the calls in progress.\<close>

lemma psems_table_inv:
  assumes inv: "sems_inv n s use" and f: "\<And>g. g \<noteq> 0 \<Longrightarrow> count_list xs g + use' g = count_list (psems s p) g + use g"
  shows "sems_inv n (upd_psems s p xs) use'"
proof -
  have t: "tot ((psems s)(p := xs)) g + use' g = tot (psems s) g + use g" if "g \<noteq> 0" for g
    using tot_upd [OF sems_invD(1) [OF inv], of p xs g] f [OF that] by linarith
  have "entry_ok n (upd_psems s p xs) use' g" if g: "g \<noteq> 0" for g
  proof (cases "entries s g")
    case None
    with sems_invD(2) [OF inv g] t [OF g] show ?thesis by (simp add: entry_ok_def)
  next
    case (Some x)
    with sems_invD(2) [OF inv g] t [OF g] show ?thesis by (auto simp: entry_ok_def simp flip: of_nat_add)
  qed
  with finite_fds_upd [OF sems_invD(1) [OF inv]] sems_invD(3) [OF inv] show ?thesis by (simp add: sems_inv_def)
qed

lemma psems_put_inv:
  assumes inv: "sems_inv n s use" and i: "i < length (psems s p)" "psems s p ! i = 0" and u: "0 < use e" "e \<noteq> 0"
  shows "sems_inv n (upd_psems s p ((psems s p)[i := e])) (use(e := use e - 1))"
proof (rule psems_table_inv [OF inv])
  fix g :: nat assume "g \<noteq> 0"
  then show "count_list ((psems s p)[i := e]) g + (use(e := use e - 1)) g = count_list (psems s p) g + use g"
    using count_list_update [OF i(1), of e g] i(2) u(1) by (auto split: if_splits)
qed

lemma psems_take_inv:
  assumes inv: "sems_inv n s use" and i: "i < length (psems s p)" "psems s p ! i = e" "e \<noteq> 0"
  shows "sems_inv n (upd_psems s p ((psems s p)[i := 0])) (use(e := use e + 1))"
proof (rule psems_table_inv [OF inv])
  fix g :: nat assume "g \<noteq> 0"
  then show "count_list ((psems s p)[i := 0]) g + (use(e := use e + 1)) g = count_list (psems s p) g + use g"
    using count_list_update [OF i(1), of 0 g] i(2) by (auto split: if_splits)
qed

lemma psems_frame:
  "sems_ref (s\<lparr>psems := F\<rparr>) e = map_option (\<lambda>s'. s'\<lparr>psems := F\<rparr>) (sems_ref s e)"
  "sems_unref n (s\<lparr>psems := F\<rparr>) e = map_option (\<lambda>s'. s'\<lparr>psems := F\<rparr>) (sems_unref n s e)"
  by (simp_all add: sems_ref_def sems_unref_def detachSem_def Let_def vassert_def split: option.splits bind_splits)

lemma free_sem_some: "free_sem xs k = Some i \<Longrightarrow> \<exists>j. i = k + j \<and> j < length xs \<and> xs ! j = 0"
proof (induction xs arbitrary: k)
  case (Cons x xs)
  show ?case
  proof (cases "x = 0")
    case False
    with Cons.prems have "free_sem xs (k + 1) = Some i" by simp
    from Cons.IH [OF this] obtain j where "i = k + 1 + j" "j < length xs" "xs ! j = 0" by blast
    then show ?thesis by (intro exI [of _ "Suc j"]) simp
  qed (use Cons in auto)
qed simp

lemma free_sem_none: "free_sem xs k = None \<longleftrightarrow> 0 \<notin> set xs"
  by (induction xs arbitrary: k) auto

text \<open>A new entry, held by the call that creates it.\<close>

lemma new_entry_inv:
  assumes inv: "sems_inv n s use" and e: "e \<noteq> 0" "entries s e = None"
  shows "sems_inv n (s\<lparr>entries := (entries s)(e \<mapsto> \<lparr>erefs = 1, eirq = -1, esem = q\<rparr>)\<rparr>) (use(e := 1))" (is "sems_inv n ?s _")
proof (rule sems_inv_change [OF inv, where e = e])
  have "tot (psems s) e = 0" "\<And>i. e \<notin> set (userIrqs s i)" using sems_invD(2) [OF inv e(1)] e(2) by (simp_all add: entry_ok_def)
  then show "entry_ok n ?s (use(e := 1)) e" by (simp add: entry_ok_def count_list_0_iff)
qed (use sems_invD(1,3) [OF inv] in auto)

lemma attached_inv:
  assumes inv: "sems_inv n s use" and e: "e \<noteq> 0" "entries s e = None" and i: "irq < n"
  shows "sems_inv n (s\<lparr>entries := (entries s)(e \<mapsto> \<lparr>erefs = 1, eirq = int irq, esem = q\<rparr>),
    userIrqs := (userIrqs s)(irq := userIrqs s irq @ [e])\<rparr>) (use(e := 1))" (is "sems_inv n ?s _")
proof (rule sems_inv_change [OF inv, where e = e])
  have z: "tot (psems s) e = 0" "\<And>i. e \<notin> set (userIrqs s i)" using sems_invD(2) [OF inv e(1)] e(2) by (simp_all add: entry_ok_def)
  then show "entry_ok n ?s (use(e := 1)) e" using i by (auto simp: entry_ok_def count_list_0_iff count_list_append)
  show "0 \<notin> set (userIrqs ?s j)" for j using sems_invD(3) [OF inv] e(1) by auto
qed (use sems_invD(1) [OF inv] in \<open>auto simp: count_list_append\<close>)

text \<open>\<open>create\<close>, except for an interrupt with a full table, where it is wrong.\<close>

lemma sems_create_inv:
  assumes inv: "sems_inv n s use" and e: "e \<noteq> 0 \<longrightarrow> entries s e = None" and irq: "irq = -1 \<or> 0 \<le> irq \<and> nat irq < n \<and> 0 \<in> set (psems s p)"
    and p: "psems s p \<noteq> []"
  shows "\<exists>r s'. sems_create n install e memok s p v irq = Some (r, s') \<and> sems_inv n s' use"
proof (cases "e = 0")
  case True
  with inv show ?thesis by (simp add: sems_create_def)
next
  case nz: False
  have en: "entries s e = None" and ue: "use(e := 0) = use"
    using nz e sems_invD(2) [OF inv nz] by (auto simp: entry_ok_def fun_upd_idem)
  have undo: "s\<lparr>entries := (entries s)(e := None)\<rparr> = s" using en by (simp add: fun_upd_idem)
  show ?thesis
  proof (cases "free_sem (psems s p) 0")
    case (Some i)
    then have i: "i < length (psems s p)" "psems s p ! i = 0" using free_sem_some [OF Some] by auto
    show ?thesis
    proof (cases "irq = -1")
      case True
      let ?t = "s\<lparr>entries := (entries s)(e \<mapsto> \<lparr>erefs = 1, eirq = irq, esem = sem_create v\<rparr>)\<rparr>"
      have "sems_inv n (upd_psems ?t p ((psems ?t p)[i := e])) use"
        using psems_put_inv [OF new_entry_inv [OF inv nz en], where i = i and p = p and e = e] i nz ue True by simp
      with nz Some True show ?thesis by (simp add: sems_create_def Let_def)
    next
      case False
      then have q: "0 \<le> irq" "nat irq < n" using irq by auto
      let ?t = "s\<lparr>entries := (entries s)(e \<mapsto> \<lparr>erefs = 1, eirq = irq, esem = sem_create v\<rparr>),
        userIrqs := (userIrqs s)(nat irq := userIrqs s (nat irq) @ [e])\<rparr>"
      have "sems_inv n (upd_psems ?t p ((psems ?t p)[i := e])) use"
        using psems_put_inv [OF attached_inv [OF inv nz en q(2)], where i = i and p = p and e = e] i nz ue q(1) by simp
      with nz Some False q undo inv show ?thesis by (simp add: sems_create_def Let_def attachSem_def)
    qed
  next
    case None
    then have z: "0 \<notin> set (psems s p)" by (simp add: free_sem_none)
    then have m: "irq = -1" using irq by auto
    let ?k = "length (psems s p)"
    let ?t = "s\<lparr>entries := (entries s)(e \<mapsto> \<lparr>erefs = 1, eirq = irq, esem = sem_create v\<rparr>)\<rparr>"
    let ?u = "upd_psems ?t p (psems s p @ replicate ?k 0)"
    have "sems_inv n ?u (use(e := 1))"
      using psems_table_inv [OF new_entry_inv [OF inv nz en], where xs = "psems s p @ replicate ?k 0" and use' = "use(e := 1)" and p = p] m
      by (simp add: count_list_append)
    from psems_put_inv [OF this, where i = ?k and p = p and e = e] nz ue p
    have "sems_inv n (upd_psems ?u p ((psems ?u p)[?k := e])) use" by (simp add: nth_append)
    with nz None m undo inv p show ?thesis by (auto simp: sems_create_def Let_def)
  qed
qed

lemma ref_all_inv:
  assumes "sems_inv n s use" "\<And>e. e \<in> set es \<Longrightarrow> e \<noteq> 0 \<Longrightarrow> e \<in> dom (entries s)"
  shows "\<exists>s'. ref_all s es = Some s' \<and> sems_inv n s' (\<lambda>g. if g = 0 then use g else use g + count_list es g) \<and> psems s' = psems s"
  using assms
proof (induction es arbitrary: s use)
  case Nil
  have "(\<lambda>g. if g = 0 then use g else use g + count_list [] g) = use" by auto
  with Nil(1) show ?case by (simp only: ref_all.simps) simp
next
  case (Cons e es)
  show ?case
  proof (cases "e = 0")
    case True
    have "(\<lambda>g. if g = 0 then use g else use g + count_list (e # es) g) = (\<lambda>g. if g = 0 then use g else use g + count_list es g)"
      using True by auto
    with Cons True show ?thesis by simp
  next
    case False
    obtain x where "entries s e = Some x" using Cons.prems(2) [of e] False by auto
    from sems_ref_inv [OF Cons.prems(1) False this] obtain s1 where
      s1: "sems_ref s e = Some s1" "sems_inv n s1 (use(e := use e + 1))" "psems s1 = psems s" "dom (entries s1) = dom (entries s)" by blast
    have "(\<lambda>g. if g = 0 then (use(e := use e + 1)) g else (use(e := use e + 1)) g + count_list es g) =
        (\<lambda>g. if g = 0 then use g else use g + count_list (e # es) g)" using False by auto
    with Cons.IH [OF s1(2)] Cons.prems(2) s1 False show ?thesis by simp
  qed
qed

lemma ref_all_frame: "ref_all (s\<lparr>psems := F\<rparr>) es = map_option (\<lambda>s'. s'\<lparr>psems := F\<rparr>) (ref_all s es)"
proof (induction es arbitrary: s)
  case (Cons e es)
  then show ?case by (cases "sems_ref s e") (simp_all add: psems_frame)
qed simp

lemma sems_clone_inv:
  assumes inv: "sems_inv n s use" and p: "psems s p = []"
  shows "\<exists>r s'. sems_clone memok s p old = Some (r, s') \<and> sems_inv n s' use"
proof (cases memok)
  case True
  have l: "e \<in> dom (entries s)" if "e \<in> set (psems s old)" "e \<noteq> 0" for e using entry_live [OF inv that(2), of old] that(1) by auto
  from ref_all_inv [OF inv l] obtain s1 where
    s1: "ref_all s (psems s old) = Some s1" "sems_inv n s1 (\<lambda>g. if g = 0 then use g else use g + count_list (psems s old) g)" "psems s1 = psems s"
    by blast
  have "sems_inv n (upd_psems s1 p (psems s old)) use" by (rule psems_table_inv [OF s1(2)]) (simp add: s1(3) p)
  with s1(1,3) True show ?thesis by (simp add: sems_clone_def ref_all_frame)
next
  case False
  then show ?thesis using psems_table_inv [OF inv, of "[]" use p] p by (simp add: sems_clone_def)
qed

text \<open>An entry of a table is given up.\<close>

lemma sems_drop_inv:
  assumes inv: "sems_inv n s use" and i: "i < length (psems s p)"
  shows "\<exists>s1. sems_unref n s (psems s p ! i) = Some s1 \<and> psems s1 = psems s \<and> sems_inv n (upd_psems s1 p ((psems s1 p)[i := 0])) use"
proof (cases "psems s p ! i = 0")
  case True
  then have "(psems s p)[i := 0] = psems s p" by (metis list_update_id)
  then have "upd_psems s p ((psems s p)[i := 0]) = s" by (simp add: fun_upd_idem)
  with inv True show ?thesis by (simp add: sems_unref_def)
next
  case False
  let ?e = "psems s p ! i" and ?F = "(psems s)(p := (psems s p)[i := 0])"
  have "0 < (use(?e := use ?e + 1)) ?e" by simp
  moreover have "(use(?e := use ?e + 1))(?e := (use(?e := use ?e + 1)) ?e - 1) = use" by auto
  ultimately obtain t where t: "sems_unref n (s\<lparr>psems := ?F\<rparr>) ?e = Some t" "sems_inv n t use"
    using sems_unref_inv [OF psems_take_inv [OF inv i refl False] False] by metis
  then obtain s1 where s1: "sems_unref n s ?e = Some s1" "t = s1\<lparr>psems := ?F\<rparr>" by (auto simp: psems_frame)
  have "s1 = s1\<lparr>psems := psems s\<rparr>" using psems_frame(2) [where n = n and s = s and F = "psems s" and e = ?e] s1(1) by simp
  then have "psems s1 = psems s" by (metis semtab.select_convs(2) semtab.surjective semtab.update_convs(2))
  with s1 t(2) show ?thesis by simp
qed

lemma destroy_sems_inv:
  assumes "sems_inv n s use" "k \<le> length (psems s p)" "\<forall>j < length (psems s p) - k. psems s p ! j = 0"
  shows "\<exists>s'. destroy_sems n s p k = Some s' \<and> sems_inv n s' use \<and> (\<forall>x \<in> set (psems s' p). x = 0)"
  using assms
proof (induction k arbitrary: s)
  case 0
  then show ?case by (auto simp: in_set_conv_nth)
next
  case (Suc k)
  let ?i = "length (psems s p) - Suc k"
  have i: "?i < length (psems s p)" using Suc.prems(2) by simp
  from sems_drop_inv [OF Suc.prems(1) i] obtain s1 where s1: "sems_unref n s (psems s p ! ?i) = Some s1" "psems s1 = psems s"
    "sems_inv n (upd_psems s1 p ((psems s1 p)[?i := 0])) use" by blast
  let ?t = "upd_psems s1 p ((psems s1 p)[?i := 0])"
  have "\<forall>j < length (psems ?t p) - k. psems ?t p ! j = 0" using Suc.prems(2,3) s1(2) by (auto simp: nth_list_update)
  moreover have "k \<le> length (psems ?t p)" using Suc.prems(2) s1(2) by simp
  ultimately show ?case using Suc.IH [OF s1(3)] s1(1) by (simp add: Let_def)
qed

lemma sems_destroyAll_inv:
  assumes inv: "sems_inv n s use"
  shows "\<exists>s'. sems_destroyAll n s p complete = Some s' \<and> sems_inv n s' use"
proof -
  from destroy_sems_inv [OF inv, of "length (psems s p)" p] obtain s1 where
    s1: "destroy_sems n s p (length (psems s p)) = Some s1" "sems_inv n s1 use" "\<forall>x \<in> set (psems s1 p). x = 0" by auto
  have "sems_inv n (upd_psems s1 p []) use"
  proof (rule psems_table_inv [OF s1(2)])
    fix g :: nat assume "g \<noteq> 0"
    then have "g \<notin> set (psems s1 p)" using s1(3) by auto
    then show "count_list [] g + use g = count_list (psems s1 p) g + use g" by simp
  qed
  with s1 show ?thesis by (simp add: sems_destroyAll_def)
qed

text \<open>The semaphore of an entry changes, not its references.\<close>

lemma sems_value_inv:
  assumes inv: "sems_inv n s use" and x: "entries s e = Some x"
  shows "sems_inv n (s\<lparr>entries := (entries s)(e \<mapsto> x\<lparr>esem := q\<rparr>)\<rparr>) use"
proof (rule sems_inv_change [OF inv, where e = e])
  show "entry_ok n (s\<lparr>entries := (entries s)(e \<mapsto> x\<lparr>esem := q\<rparr>)\<rparr>) use e" if "e \<noteq> 0"
    using sems_invD(2) [OF inv that] x by (simp add: entry_ok_def)
qed (use sems_invD(1,3) [OF inv] in auto)

lemma fire_all_inv:
  assumes "sems_inv n s use" "set es \<subseteq> dom (entries s)"
  shows "\<exists>s'. fire_all s es = Some s' \<and> sems_inv n s' use"
  using assms
proof (induction es arbitrary: s)
  case (Cons e es)
  then obtain x where x: "entries s e = Some x" by auto
  let ?t = "s\<lparr>entries := (entries s)(e \<mapsto> x\<lparr>esem := snd (sem_up (esem x))\<rparr>)\<rparr>"
  have "set es \<subseteq> dom (entries ?t)" using Cons.prems(2) by auto
  from Cons.IH [OF sems_value_inv [OF Cons.prems(1) x] this] x show ?case by simp
qed simp

section \<open>Runs\<close>

text \<open>
  A state is the kernel state with the number of calls of \<open>op\<close> in progress per entry. A new entry gets an address that
  is not in use; a semaphore for an interrupt is created while the table has a free entry.
\<close>

inductive sems_step :: "nat \<Rightarrow> semtab \<times> (nat \<Rightarrow> nat) \<Rightarrow> semtab \<times> (nat \<Rightarrow> nat) \<Rightarrow> bool" for n where
  st_init: "psems s p = [] \<Longrightarrow> sems_init memok s p = (r, s') \<Longrightarrow> sems_step n (s, use) (s', use)"
| st_clone: "psems s p = [] \<Longrightarrow> sems_clone memok s p old = Some (r, s') \<Longrightarrow> sems_step n (s, use) (s', use)"
| st_create: "e \<noteq> 0 \<longrightarrow> entries s e = None \<Longrightarrow> irq = -1 \<or> 0 \<le> irq \<and> nat irq < n \<and> 0 \<in> set (psems s p) \<Longrightarrow> psems s p \<noteq> [] \<Longrightarrow>
    sems_create n install e memok s p v irq = Some (r, s') \<Longrightarrow> sems_step n (s, use) (s', use)"
| st_begin: "sems_op_begin s p i = Some (e, s') \<Longrightarrow> sems_step n (s, use) (s', if e = 0 then use else use(e := use e + 1))"
| st_up: "0 < use e \<Longrightarrow> sems_op_up s e = Some s' \<Longrightarrow> sems_step n (s, use) (s', use)"
| st_end: "0 < use e \<Longrightarrow> e \<noteq> 0 \<Longrightarrow> sems_unref n s e = Some s' \<Longrightarrow> sems_step n (s, use) (s', use(e := use e - 1))"
| st_destroy: "sems_destroy n s p i = Some s' \<Longrightarrow> sems_step n (s, use) (s', use)"
| st_destroyAll: "sems_destroyAll n s p complete = Some s' \<Longrightarrow> sems_step n (s, use) (s', use)"
| st_irq: "fireIrq n s i = Some (b, s') \<Longrightarrow> sems_step n (s, use) (s', use)"

lemma irq_entries: "sems_inv n s use \<Longrightarrow> set (userIrqs s i) \<subseteq> dom (entries s)"
proof
  fix e assume inv: "sems_inv n s use" and e: "e \<in> set (userIrqs s i)"
  then have "e \<noteq> 0" using sems_invD(3) [OF inv, of i] by (cases "e = 0") auto
  from sems_invD(2) [OF inv this] e show "e \<in> dom (entries s)" by (auto simp: entry_ok_def split: option.splits)
qed

lemma fireIrq_inv:
  assumes "sems_inv n s use" "i < n"
  shows "\<exists>b s'. fireIrq n s i = Some (b, s') \<and> sems_inv n s' use"
  using fire_all_inv [OF assms(1) irq_entries [OF assms(1)], of i] assms(2) by (auto simp: fireIrq_def)

lemma sems_op_begin_inv:
  assumes "sems_inv n s use"
  shows "\<exists>e s'. sems_op_begin s p i = Some (e, s') \<and> (if e = 0 then s' = s else sems_inv n s' (use(e := use e + 1)))"
proof (cases "i < 0 \<or> i \<ge> int (length (psems s p)) \<or> psems s p ! nat i = 0")
  case True
  then show ?thesis by (auto simp: sems_op_begin_def)
next
  case False
  let ?e = "psems s p ! nat i"
  have "nat i < length (psems s p)" using False by linarith
  then have "?e \<in> set (psems s p)" by (rule nth_mem)
  then obtain x where "entries s ?e = Some x" using entry_live [OF assms, of ?e p] False by auto
  from sems_ref_inv [OF assms _ this] False show ?thesis by (auto simp: sems_op_begin_def Let_def)
qed

lemma sems_destroy_inv:
  assumes "sems_inv n s use"
  shows "\<exists>s'. sems_destroy n s p i = Some s' \<and> sems_inv n s' use"
proof (cases "i < 0 \<or> i \<ge> int (length (psems s p))")
  case False
  then have "nat i < length (psems s p)" by linarith
  from sems_drop_inv [OF assms this] False show ?thesis by (auto simp: sems_destroy_def)
qed (use assms in \<open>simp add: sems_destroy_def\<close>)

lemma sems_step_inv: "sems_step n a b \<Longrightarrow> sems_inv n (fst a) (snd a) \<Longrightarrow> sems_inv n (fst b) (snd b)"
proof (induction rule: sems_step.induct)
  case (st_init s p memok r s' use)
  have "sems_inv n (upd_psems s p xs) use" if "xs = [] \<or> xs = replicate 8 0" for xs
    using that st_init(1,3) by (intro psems_table_inv [where use = use]) auto
  then show ?case using st_init(2) by (auto simp: sems_init_def split: if_splits)
next
  case (st_clone s p memok old r s' use)
  with sems_clone_inv [of n s use p memok old] show ?case by auto
next
  case (st_create e s irq p install memok v r s' use)
  with sems_create_inv [of n s use e irq p install memok v] show ?case by auto
next
  case (st_begin s p i e s' use)
  with sems_op_begin_inv [of n s use p i] have "if e = 0 then s' = s else sems_inv n s' (use(e := use e + 1))" by auto
  with st_begin(2) show ?case by (cases "e = 0") (simp_all only: fst_conv snd_conv if_True if_False refl simp_thms)
next
  case (st_up use e s s')
  then obtain x where "entries s e = Some x" "s' = s\<lparr>entries := (entries s)(e \<mapsto> x\<lparr>esem := snd (sem_up (esem x))\<rparr>)\<rparr>"
    by (auto simp: sems_op_up_def split: bind_splits)
  with sems_value_inv [of n s use e x] st_up(3) show ?case by simp
next
  case (st_end use e s s')
  with sems_unref_inv [of n s use e] have "sems_inv n s' (use(e := use e - 1))" by auto
  then show ?case by (simp only: fst_conv snd_conv)
next
  case (st_destroy s p i s' use)
  with sems_destroy_inv [of n s use p i] show ?case by auto
next
  case (st_destroyAll s p complete s' use)
  with sems_destroyAll_inv [of n s use p complete] show ?case by auto
next
  case (st_irq s i b s' use)
  then have "i < n" by (auto simp: fireIrq_def vassert_def split: if_splits)
  with st_irq fireIrq_inv [of n s use i] show ?case by auto
qed

abbreviation sems_reach :: "nat \<Rightarrow> semtab \<times> (nat \<Rightarrow> nat) \<Rightarrow> bool" where
  "sems_reach n a \<equiv> (sems_step n)\<^sup>*\<^sup>* (semtab_empty, \<lambda>_. 0) a"

interpretation sems_runs: transitions "sems_step n" "\<lambda>a. a = (semtab_empty, \<lambda>_. 0)" "\<lambda>a. sems_inv n (fst a) (snd a)" for n
  by unfold_locales (simp add: sems_inv_def semtab_empty_def entry_ok_def tot_def, rule sems_step_inv)

lemma sems_reach_inv: "sems_reach n a \<Longrightarrow> sems_inv n (fst a) (snd a)"
  by (erule sems_runs.reachable) simp

section \<open>Properties\<close>

text \<open>However processes create, inherit, use and destroy semaphores, an entry exists exactly as long as a table of a
  process or a call in progress refers to it, and its count is their number; the semaphores an interrupt will
  release exist, so that an interrupt never touches a deleted one and every operation has a result.\<close>

theorem sems_refcounts:
  assumes "sems_reach n (s, use)" "e \<noteq> 0" "i < n"
  shows "(case entries s e of None \<Rightarrow> tot (psems s) e + use e = 0
      | Some x \<Rightarrow> erefs x = int (tot (psems s) e + use e) \<and> 0 < tot (psems s) e + use e) \<and>
    set (userIrqs s i) \<subseteq> dom (entries s) \<and> fireIrq n s i \<noteq> None \<and> sems_op_begin s p k \<noteq> None \<and>
    sems_destroy n s p k \<noteq> None \<and> sems_destroyAll n s p complete \<noteq> None"
proof -
  have inv: "sems_inv n s use" using sems_reach_inv [OF assms(1)] by simp
  have "case entries s e of None \<Rightarrow> tot (psems s) e + use e = 0
      | Some x \<Rightarrow> erefs x = int (tot (psems s) e + use e) \<and> 0 < tot (psems s) e + use e"
    using sems_invD(2) [OF inv assms(2)] by (auto simp: entry_ok_def split: option.splits)
  with irq_entries [OF inv, of i] fireIrq_inv [OF inv assms(3)] sems_op_begin_inv [OF inv, of p k] sems_destroy_inv [OF inv, of p k]
    sems_destroyAll_inv [OF inv, of p complete]
  show ?thesis by auto
qed

definition demo_sems :: semtab where
  "demo_sems = semtab_empty\<lparr>psems := (\<lambda>_. [])(7 := [64, 0, 0, 0, 0, 0, 0, 0]),
     entries := Map.empty(64 \<mapsto> \<lparr>erefs = 1, eirq = 2, esem = sem_create 0\<rparr>), userIrqs := (\<lambda>_. [])(2 := [64])\<rparr>"

lemma demo_sems_reach: "sems_reach 16 (demo_sems, \<lambda>_. 0)"
proof -
  let ?s1 = "semtab_empty\<lparr>psems := (\<lambda>_. [])(7 := replicate 8 0)\<rparr>"
  have 1: "sems_step 16 (semtab_empty, \<lambda>_. 0) (?s1, \<lambda>_. 0)"
    by (rule sems_step.st_init [of _ 7 True 0]) (simp_all add: semtab_empty_def sems_init_def)
  have "sems_create 16 0 64 True ?s1 7 0 2 = Some (0, demo_sems)"
    by (simp add: sems_create_def demo_sems_def semtab_empty_def attachSem_def Let_def numeral_eq_Suc)
  then have 2: "sems_step 16 (?s1, \<lambda>_. 0) (demo_sems, \<lambda>_. 0)"
    by (rule sems_step.st_create [rotated 3]) (simp_all add: semtab_empty_def)
  from 1 2 show ?thesis by (rule two_steps)
qed

theorem sems_refcounts_witness: "fireIrq 16 demo_sems 2 \<noteq> None \<and> entries demo_sems 64 \<noteq> None"
  using sems_refcounts [OF demo_sems_reach, of 64 2 7 0 True] by (simp add: demo_sems_def)

section \<open>Flaws\<close>

text \<open>
  \<open>create\<close> for an interrupt with a full table takes the result of \<open>attachSem\<close>, 0, as the index: the first semaphore of the
  process is overwritten.
\<close>

lemma sems_create_full_irq:
  assumes "psems s p = a # xs" "0 \<notin> set (a # xs)" "length (a # xs) < MAX_SEM_COUNT" "e \<noteq> 0" "0 \<le> irq" "nat irq < n"
  shows "\<exists>s'. sems_create n 0 e True s p v irq = Some (0, s') \<and> psems s' p ! 0 = e"
proof -
  have "free_sem (a # xs) 0 = None" using assms(2) free_sem_none [of "a # xs" 0] by simp
  with assms show ?thesis by (simp add: sems_create_def Let_def attachSem_def)
qed

end
