(* ===== verification/Signals.thy ===== *)
theory Signals
  imports KErrno
begin

text \<open>
  Signals: \<open>kernel/include/task/signals.h\<close> and \<open>kernel/src/task/signals.cc\<close>, the delivery to the threads of a process in
  \<open>ProcBase::addSignalFor\<close> of \<open>kernel/src/task/proc.cc\<close>, and the system calls of \<open>kernel/src/syscalls/ssignals.cc\<close>.

  Handlers are addresses. Waking the thread is the result \<open>True\<close> of a delivery, terminating the process the result
  \<open>Terminate\<close> of a check. The atomic operations on the mask make delivery and check sequences of steps on it; a
  check is taken as one step here.
\<close>

section \<open>State\<close>

record sigthread =
  sigmask :: "32 word"
  sigHandler :: "nat \<Rightarrow> nat"
  ignsigs :: bool

datatype sigcheck = NoSignal | Handle nat nat | Terminate nat

abbreviation SIG_COUNT :: nat where "SIG_COUNT \<equiv> 11"
abbreviation (input) SIG_DFL :: nat where "SIG_DFL \<equiv> 0"
abbreviation SIG_IGN :: nat where "SIG_IGN \<equiv> 0xFFFFFFFE"
abbreviation SIG_ERR :: nat where "SIG_ERR \<equiv> 0xFFFFFFFF"
abbreviation ENOTFOUND :: int where "ENOTFOUND \<equiv> 44"

definition isFatal :: "int \<Rightarrow> bool" where
  "isFatal sig \<longleftrightarrow> sig = 4 \<or> sig = 1 \<or> sig = 2 \<or> sig = 3 \<or> sig = 0 \<or> sig = 5"

definition canHandle :: "int \<Rightarrow> bool" where
  "canHandle signal \<longleftrightarrow> signal \<ge> 1 \<and> signal < int SIG_COUNT"

definition canSend :: "int \<Rightarrow> bool" where
  "canSend signal \<longleftrightarrow> signal = 0 \<or> signal = 1 \<or> signal = 4 \<or> signal = 8 \<or> signal = 9"

definition hasSignal :: "sigthread \<Rightarrow> bool" where
  "hasSignal t \<longleftrightarrow> \<not> ignsigs t \<and> sigmask t \<noteq> 0"

definition hasSigHandler :: "sigthread \<Rightarrow> nat \<Rightarrow> bool" where
  "hasSigHandler t sig \<longleftrightarrow> sigHandler t sig \<noteq> SIG_DFL"

section \<open>Operations\<close>

definition setHandler :: "sigthread \<Rightarrow> nat \<Rightarrow> nat \<Rightarrow> (nat \<times> sigthread) option" where
  "setHandler t signal func = do {
     vassert (signal < SIG_COUNT);
     Some (sigHandler t signal, t\<lparr>sigHandler := (sigHandler t)(signal := func)\<rparr>) }"

text \<open>The loop of \<open>checkAndStart\<close> over the last \<open>k\<close> signals.\<close>

fun check_loop :: "sigthread \<Rightarrow> nat \<Rightarrow> sigcheck \<times> sigthread" where
  "check_loop t 0 = (NoSignal, t)"
| "check_loop t (Suc k) = (let i = SIG_COUNT - Suc k in
     if sigmask t AND push_bit i 1 \<noteq> 0 then
       let t1 = t\<lparr>sigmask := sigmask t AND NOT (push_bit i 1)\<rparr> in
       if sigHandler t1 i = SIG_DFL then (if isFatal (int i) then (Terminate i, t1) else check_loop t1 k)
       else (Handle i (sigHandler t1 i), t1\<lparr>sigHandler := (sigHandler t1)(i := SIG_DFL)\<rparr>)
     else check_loop t k)"

definition checkAndStart :: "sigthread \<Rightarrow> sigcheck \<times> sigthread" where
  "checkAndStart t = (if sigmask t \<noteq> 0 then check_loop t SIG_COUNT else (NoSignal, t))"

text \<open>The first result is that of the function, the second says that the thread is woken up.\<close>

definition addSignalFor :: "sigthread \<Rightarrow> nat \<Rightarrow> (bool \<times> bool \<times> sigthread) option" where
  "addSignalFor t signal = do {
     vassert (signal < SIG_COUNT);
     if isFatal (int signal) \<or> sigHandler t signal \<noteq> SIG_DFL
     then Some (True, \<not> ignsigs t, t\<lparr>sigmask := sigmask t OR push_bit signal 1\<rparr>)
     else Some (False, False, t) }"

text \<open>The threads of a process; \<open>None\<close> stands for a process that is not there, \<open>dying\<close> for one with the zombie flags.\<close>

fun deliver :: "sigthread list \<Rightarrow> bool \<Rightarrow> nat \<Rightarrow> sigthread list option" where
  "deliver [] hasHandler signal = Some []"
| "deliver (t # ts) hasHandler signal = do {
     t1 \<leftarrow> (if \<not> hasHandler \<or> hasSigHandler t signal
       then do { (r, w, t1) \<leftarrow> addSignalFor t signal; Some t1 } else Some t);
     ts1 \<leftarrow> deliver ts hasHandler signal;
     Some (t1 # ts1) }"

definition proc_addSignalFor :: "bool \<Rightarrow> sigthread list option \<Rightarrow> nat \<Rightarrow> (int \<times> sigthread list option) option" where
  "proc_addSignalFor dying p signal = (case p of
     None \<Rightarrow> Some (- ENOTFOUND, None)
   | Some ts \<Rightarrow>
     if dying then Some (- ENOTFOUND, Some ts)
     else do {
       ts1 \<leftarrow> deliver ts (isFatal (int signal) \<and> (\<exists>t \<in> set ts. hasSigHandler t signal)) signal;
       Some (0, Some ts1) })"

definition sys_kill :: "bool \<Rightarrow> sigthread list option \<Rightarrow> int \<Rightarrow> (int \<times> sigthread list option) option" where
  "sys_kill dying p signal = (if \<not> canSend signal then Some (- EINVAL, p) else proc_addSignalFor dying p (nat signal))"

text \<open>
  \<open>user\<close> says which addresses are in user space; \<open>ret\<close> is the address of the code that ends a handler. The results are
  the old handler or an error, that address and the thread.
\<close>

definition sys_signal :: "(nat \<Rightarrow> bool) \<Rightarrow> nat \<Rightarrow> sigthread \<Rightarrow> int \<Rightarrow> nat \<Rightarrow> (nat \<times> nat \<times> sigthread) option" where
  "sys_signal user ret t signal handler =
     (if handler \<noteq> SIG_IGN \<and> handler \<noteq> SIG_DFL \<and> \<not> user handler then Some (SIG_ERR, ret, t)
      else if signal = -1 then Some (SIG_IGN, handler, t)
      else if ret = 0 then Some (SIG_ERR, ret, t)
      else if \<not> canHandle signal then Some (SIG_ERR, ret, t)
      else do { (old, t1) \<leftarrow> setHandler t (nat signal) handler; Some (old, ret, t1) })"

section \<open>Pending signals\<close>

definition pending :: "sigthread \<Rightarrow> nat \<Rightarrow> bool" where
  "pending t i \<longleftrightarrow> bit (sigmask t) i"

text \<open>A signal a check does not pass over.\<close>

definition relevant :: "sigthread \<Rightarrow> nat \<Rightarrow> bool" where
  "relevant t i \<longleftrightarrow> pending t i \<and> (sigHandler t i \<noteq> SIG_DFL \<or> isFatal (int i))"

lemma mask_test: "m AND push_bit i 1 \<noteq> 0 \<longleftrightarrow> bit m i" for m :: "32 word"
  by (metis and_exp_eq_0_iff_not_bit push_bit_of_1)

lemma pending_clear: "i < 32 \<Longrightarrow> pending (t\<lparr>sigmask := sigmask t AND NOT (push_bit i 1)\<rparr>) j \<longleftrightarrow> pending t j \<and> j \<noteq> i"
  by (auto simp: pending_def bit_simps dest: bit_imp_le_length)

lemma pending_set: "i < 32 \<Longrightarrow> pending (t\<lparr>sigmask := sigmask t OR push_bit i 1\<rparr>) j \<longleftrightarrow> pending t j \<or> j = i"
  by (auto simp: pending_def bit_simps)

text \<open>What a check of the signals from \<open>i\<close> on does.\<close>

definition checked :: "sigthread \<Rightarrow> nat \<Rightarrow> sigcheck \<Rightarrow> sigthread \<Rightarrow> bool" where
  "checked t i r t' \<longleftrightarrow> (case r of
     NoSignal \<Rightarrow> (\<forall>j. i \<le> j \<and> j < SIG_COUNT \<longrightarrow> \<not> relevant t j) \<and> sigHandler t' = sigHandler t \<and>
       (\<forall>j. pending t' j \<longleftrightarrow> pending t j \<and> \<not> (i \<le> j \<and> j < SIG_COUNT))
   | Handle s h \<Rightarrow> i \<le> s \<and> s < SIG_COUNT \<and> relevant t s \<and> (\<forall>j. i \<le> j \<and> j < s \<longrightarrow> \<not> relevant t j) \<and> h = sigHandler t s \<and> h \<noteq> 0 \<and>
       sigHandler t' = (sigHandler t)(s := SIG_DFL) \<and> (\<forall>j. pending t' j \<longleftrightarrow> pending t j \<and> \<not> (i \<le> j \<and> j \<le> s))
   | Terminate s \<Rightarrow> i \<le> s \<and> s < SIG_COUNT \<and> relevant t s \<and> (\<forall>j. i \<le> j \<and> j < s \<longrightarrow> \<not> relevant t j) \<and> isFatal (int s) \<and> sigHandler t s = 0)"

lemma checked_step:
  assumes i: "i < SIG_COUNT" and c: "checked u (Suc i) r t'" and h: "sigHandler u = sigHandler t" and n: "\<not> relevant t i"
    and p: "\<And>j. pending u j \<longleftrightarrow> pending t j \<and> j \<noteq> i"
  shows "checked t i r t'"
proof -
  have r: "relevant u j \<longleftrightarrow> relevant t j \<and> j \<noteq> i" for j using h p by (auto simp: relevant_def)
  have e: "i \<le> j \<longleftrightarrow> j = i \<or> Suc i \<le> j" for j by auto
  show ?thesis
  proof (cases r)
    case NoSignal
    then show ?thesis using c n p i unfolding checked_def h r e by auto
  next
    case (Handle s x)
    then show ?thesis using c n p i unfolding checked_def h r e by (auto simp: Suc_le_eq)
  next
    case (Terminate s)
    then show ?thesis using c n p i unfolding checked_def h r e by auto
  qed
qed

lemma check_loop_checked:
  "k \<le> SIG_COUNT \<Longrightarrow> check_loop t k = (r, t') \<Longrightarrow> checked t (SIG_COUNT - k) r t'"
proof (induction k arbitrary: t)
  case 0
  then show ?case by (auto simp: checked_def)
next
  case (Suc k)
  define i where "i = SIG_COUNT - Suc k"
  have i: "i < 32" "SIG_COUNT - k = Suc i" "i < SIG_COUNT" using Suc.prems(1) by (auto simp: i_def)
  have "checked t i r t'"
  proof (cases "pending t i")
    case False
    then have "check_loop t k = (r, t')" using Suc.prems(2) mask_test [of "sigmask t" i] by (simp add: pending_def Let_def i_def)
    from Suc.IH [OF _ this] Suc.prems(1) i(2) have "checked t (Suc i) r t'" by simp
    then show ?thesis using False by (intro checked_step [OF i(3), of t]) (auto simp: relevant_def)
  next
    case True
    define t1 where "t1 = t\<lparr>sigmask := sigmask t AND NOT (push_bit i 1)\<rparr>"
    have p1: "pending t1 j \<longleftrightarrow> pending t j \<and> j \<noteq> i" "sigHandler t1 = sigHandler t" for j
      using pending_clear [OF i(1)] by (simp_all add: t1_def)
    have eq: "(if sigHandler t1 i = 0 then (if isFatal (int i) then (Terminate i, t1) else check_loop t1 k)
       else (Handle i (sigHandler t1 i), t1\<lparr>sigHandler := (sigHandler t1)(i := 0)\<rparr>)) = (r, t')"
      using Suc.prems(2) True mask_test [of "sigmask t" i] unfolding check_loop.simps t1_def pending_def Let_def i_def [symmetric] by simp
    show ?thesis
    proof (cases "sigHandler t i = 0 \<and> \<not> isFatal (int i)")
      case True
      then have "check_loop t1 k = (r, t')" using eq p1(2) by simp
      from Suc.IH [OF _ this] Suc.prems(1) i(2) have "checked t1 (Suc i) r t'" by simp
      then show ?thesis using True p1 by (intro checked_step [OF i(3), of t1]) (auto simp: relevant_def)
    next
      case False
      then have rel: "relevant t i" using \<open>pending t i\<close> by (auto simp: relevant_def)
      have lt: "i < SIG_COUNT" by (rule i(3))
      show ?thesis
      proof (cases "sigHandler t i = 0")
        case True
        then have "r = Terminate i" "isFatal (int i)" using eq p1(2) False by (auto split: if_splits)
        with rel lt True show ?thesis by (auto simp: checked_def)
      next
        case nd: False
        then have "r = Handle i (sigHandler t i)" "t' = t1\<lparr>sigHandler := (sigHandler t1)(i := 0)\<rparr>" using eq p1(2) by auto
        moreover have "pending (t1\<lparr>sigHandler := x\<rparr>) j = pending t1 j" for x j by (simp add: pending_def)
        ultimately show ?thesis using rel lt nd p1 by (auto simp: checked_def)
      qed
    qed
  qed
  then show ?case by (simp add: i_def)
qed

section \<open>Properties\<close>

text \<open>A check of a thread for signals starts the handler of the smallest pending signal that has one or is fatal: the
  handler is reset, this signal and smaller ones are no longer pending, and larger ones stay pending. If this signal
  has no handler the process is terminated. If there is no such signal, nothing is started and the pending signals,
  which nobody waits for, are dropped. So a signal with a handler is never lost.\<close>

theorem signals_check:
  "checked t 0 (fst (checkAndStart t)) (snd (checkAndStart t))"
proof (cases "sigmask t = 0")
  case True
  then show ?thesis by (simp add: checkAndStart_def checked_def relevant_def pending_def)
next
  case False
  obtain r t' where r: "check_loop t SIG_COUNT = (r, t')" by fastforce
  from check_loop_checked [OF order.refl this] r False show ?thesis by (simp add: checkAndStart_def)
qed

lemma addSignalFor_spec:
  assumes "sig < SIG_COUNT"
  shows "\<exists>r w t'. addSignalFor t sig = Some (r, w, t') \<and> sigHandler t' = sigHandler t \<and>
    (\<forall>j. pending t' j \<longleftrightarrow> pending t j \<or> j = sig \<and> (isFatal (int sig) \<or> hasSigHandler t sig))"
  using assms pending_set [of sig t] by (auto simp: addSignalFor_def hasSigHandler_def)

lemma deliver_spec:
  assumes "sig < SIG_COUNT"
  shows "\<exists>ts'. deliver ts hh sig = Some ts' \<and> length ts' = length ts \<and> (\<forall>n < length ts. sigHandler (ts' ! n) = sigHandler (ts ! n) \<and>
    (\<forall>j. pending (ts' ! n) j \<longleftrightarrow> pending (ts ! n) j \<or>
      j = sig \<and> (hasSigHandler (ts ! n) sig \<or> \<not> hh \<and> isFatal (int sig))))"
proof (induction ts)
  case (Cons t ts)
  from Cons obtain ts' where ts': "deliver ts hh sig = Some ts'" "length ts' = length ts"
    "\<forall>n < length ts. sigHandler (ts' ! n) = sigHandler (ts ! n) \<and> (\<forall>j. pending (ts' ! n) j \<longleftrightarrow> pending (ts ! n) j \<or>
      j = sig \<and> (hasSigHandler (ts ! n) sig \<or> \<not> hh \<and> isFatal (int sig)))" by blast
  from addSignalFor_spec [OF assms, of t] obtain r w t' where t': "addSignalFor t sig = Some (r, w, t')" "sigHandler t' = sigHandler t"
    "\<forall>j. pending t' j \<longleftrightarrow> pending t j \<or> j = sig \<and> (isFatal (int sig) \<or> hasSigHandler t sig)" by blast
  show ?case
  proof (cases "\<not> hh \<or> hasSigHandler t sig")
    case True
    with ts' t' show ?thesis by (auto simp: nth_Cons split: nat.splits)
  next
    case False
    with ts' show ?thesis by (auto simp: nth_Cons split: nat.splits)
  qed
qed simp

text \<open>\<open>kill\<close> of a process that is not dying makes the signal pending for every thread that has a handler for it; for a
  thread without a handler only if the signal is fatal and no thread of the process has a handler. No other signal
  becomes pending or is lost. A dying or missing process, or a signal that must not be sent, gives an error and changes
  nothing.\<close>

theorem kill_delivers:
  assumes "canSend signal"
  shows "\<exists>r p'. sys_kill dying p signal = Some (r, p') \<and>
    (case p of None \<Rightarrow> r = - ENOTFOUND \<and> p' = None
     | Some ts \<Rightarrow> if dying then r = - ENOTFOUND \<and> p' = p
       else r = 0 \<and> (\<exists>ts'. p' = Some ts' \<and> length ts' = length ts \<and> (\<forall>n < length ts. \<forall>j. pending (ts' ! n) j \<longleftrightarrow> pending (ts ! n) j \<or>
         j = nat signal \<and> (hasSigHandler (ts ! n) j \<or> isFatal signal \<and> (\<forall>m < length ts. \<not> hasSigHandler (ts ! m) j)))))"
proof -
  have s: "nat signal < SIG_COUNT" "0 \<le> signal" using assms by (auto simp: canSend_def)
  have i: "int (nat signal) = signal" using s(2) by simp
  show ?thesis
  proof (cases p)
    case None
    with assms show ?thesis by (simp add: sys_kill_def proc_addSignalFor_def)
  next
    case (Some ts)
    let ?hh = "isFatal signal \<and> (\<exists>t \<in> set ts. hasSigHandler t (nat signal))"
    have hh: "(\<exists>t \<in> set ts. hasSigHandler t (nat signal)) \<longleftrightarrow> \<not> (\<forall>m < length ts. \<not> hasSigHandler (ts ! m) (nat signal))"
      by (metis in_set_conv_nth)
    from deliver_spec [OF s(1), of ts ?hh] obtain ts' where d: "deliver ts ?hh (nat signal) = Some ts'" "length ts' = length ts"
      "\<forall>n < length ts. \<forall>j. pending (ts' ! n) j \<longleftrightarrow> pending (ts ! n) j \<or>
        j = nat signal \<and> (hasSigHandler (ts ! n) (nat signal) \<or> \<not> ?hh \<and> isFatal signal)" unfolding i by blast
    have pend: "pending (ts' ! n) j \<longleftrightarrow> pending (ts ! n) j \<or>
        j = nat signal \<and> (hasSigHandler (ts ! n) j \<or> isFatal signal \<and> (\<forall>m < length ts. \<not> hasSigHandler (ts ! m) j))"
      if "n < length ts" for n j using d(3) that hh by blast
    have eq: "sys_kill dying p signal = (if dying then Some (- ENOTFOUND, p) else Some (0, Some ts'))"
      using assms Some d(1) s(2) by (simp add: sys_kill_def proc_addSignalFor_def i)
    show ?thesis
    proof (cases dying)
      case False
      then show ?thesis using eq Some d(2) pend by (intro exI [of _ 0] exI [of _ "Some ts'"]) simp
    qed (use eq Some in simp)
  qed
qed

theorem kill_delivers_witness: "\<exists>r p'. sys_kill False (Some [\<lparr>sigmask = 0, sigHandler = (\<lambda>_. 0), ignsigs = False\<rparr>]) 1 = Some (r, p')"
  using kill_delivers [of 1 False "Some [\<lparr>sigmask = 0, sigHandler = (\<lambda>_. 0), ignsigs = False\<rparr>]"] by (auto simp: canSend_def)

section \<open>Flaws\<close>

text \<open>A handler \<open>SIG_IGN\<close> is accepted by the system call, but a check starts it like a function at this address.\<close>

lemma check_loop_num: "check_loop t (numeral k) = (let i = SIG_COUNT - numeral k in
     if sigmask t AND push_bit i 1 \<noteq> 0 then
       let t1 = t\<lparr>sigmask := sigmask t AND NOT (push_bit i 1)\<rparr> in
       if sigHandler t1 i = SIG_DFL then (if isFatal (int i) then (Terminate i, t1) else check_loop t1 (pred_numeral k))
       else (Handle i (sigHandler t1 i), t1\<lparr>sigHandler := (sigHandler t1)(i := SIG_DFL)\<rparr>)
     else check_loop t (pred_numeral k))"
  by (simp only: numeral_eq_Suc [of k] check_loop.simps)

lemma sig_ign_started:
  "sys_signal user 1 \<lparr>sigmask = 0, sigHandler = (\<lambda>_. 0), ignsigs = False\<rparr> 8 SIG_IGN =
     Some (0, 1, \<lparr>sigmask = 0, sigHandler = (\<lambda>_. 0)(8 := SIG_IGN), ignsigs = False\<rparr>)"
  "fst (checkAndStart \<lparr>sigmask = 256, sigHandler = (\<lambda>_. 0)(8 := SIG_IGN), ignsigs = False\<rparr>) = Handle 8 SIG_IGN"
  by (simp_all add: sys_signal_def canHandle_def setHandler_def checkAndStart_def check_loop_num mask_test)

end
