(* ===== verification/ProcGroups.thy ===== *)
theory ProcGroups
  imports RefCount Transitions
begin

text \<open>
  The groups of processes, \<open>kernel/src/task/groups.cc\<close>: a list of group ids with a reference count, shared by a process and
  the processes it was cloned into.

  An entry is named by its address; 0 is NULL. \<open>pgroups\<close> gives the entry of every existing process. The results of the
  allocations and of the read from user memory are arguments. The count is an \<open>int\<close>, which is large enough
  for the number of processes; it is a natural number here.
\<close>

section \<open>Operations\<close>

record GEntries =
  grefs :: nat
  glist :: "nat list"

record grpsys =
  gentries :: "nat \<rightharpoonup> GEntries"
  pgroups :: "nat \<rightharpoonup> nat"

definition groups_leave :: "grpsys \<Rightarrow> nat \<Rightarrow> grpsys option" where
  "groups_leave s pid = (case pgroups s pid of
     None \<Rightarrow> Some s
   | Some g \<Rightarrow>
     if g \<noteq> 0 then do {
       x \<leftarrow> gentries s g;
       let e = (if grefs x - 1 = 0 then (gentries s)(g := None) else (gentries s)(g \<mapsto> x\<lparr>grefs := grefs x - 1\<rparr>));
       Some (s\<lparr>gentries := e, pgroups := (pgroups s)(pid \<mapsto> 0)\<rparr>) }
     else Some (s\<lparr>pgroups := (pgroups s)(pid \<mapsto> 0)\<rparr>))"

text \<open>\<open>cpyok\<close>: memory for the copy was there and the list could be read; \<open>g\<close> is the address of the new entry or 0.\<close>

definition groups_set :: "bool \<Rightarrow> nat \<Rightarrow> grpsys \<Rightarrow> nat \<Rightarrow> nat list \<Rightarrow> (bool \<times> grpsys) option" where
  "groups_set cpyok g s pid groups =
     (if length groups > 0 \<and> \<not> cpyok then Some (False, s)
      else if g = 0 then Some (False, s)
      else do {
        s1 \<leftarrow> groups_leave (s\<lparr>gentries := (gentries s)(g \<mapsto> \<lparr>grefs = 1, glist = groups\<rparr>)\<rparr>) pid;
        (case pgroups s1 pid of
           None \<Rightarrow> Some (False, s1\<lparr>gentries := (gentries s1)(g := None)\<rparr>)
         | Some _ \<Rightarrow> Some (True, s1\<lparr>pgroups := (pgroups s1)(pid \<mapsto> g)\<rparr>)) })"

definition groups_join :: "grpsys \<Rightarrow> nat \<Rightarrow> nat \<Rightarrow> grpsys option" where
  "groups_join s dst src = do {
     g \<leftarrow> pgroups s src;
     let s1 = s\<lparr>pgroups := (pgroups s)(dst \<mapsto> g)\<rparr>;
     if g \<noteq> 0 then do { x \<leftarrow> gentries s1 g; Some (s1\<lparr>gentries := (gentries s1)(g \<mapsto> x\<lparr>grefs := grefs x + 1\<rparr>)\<rparr>) }
     else Some s1 }"

text \<open>The result and the ids written to user memory.\<close>

definition groups_get :: "grpsys \<Rightarrow> nat \<Rightarrow> nat \<Rightarrow> (nat \<times> nat list) option" where
  "groups_get s pid count = (case pgroups s pid of
     None \<Rightarrow> Some (0, [])
   | Some g \<Rightarrow>
     if g = 0 then Some (0, [])
     else do {
       x \<leftarrow> gentries s g;
       if count = 0 then Some (length (glist x), [])
       else let res = min (length (glist x)) count in Some (res, take res (glist x)) })"

fun group_search :: "nat list \<Rightarrow> nat \<Rightarrow> bool" where
  "group_search [] gid = False"
| "group_search (x # xs) gid = (if x = gid then True else group_search xs gid)"

definition groups_contains :: "grpsys \<Rightarrow> nat \<Rightarrow> nat \<Rightarrow> bool option" where
  "groups_contains s pid gid = (case pgroups s pid of
     None \<Rightarrow> Some False
   | Some g \<Rightarrow> if g = 0 then Some False else do { x \<leftarrow> gentries s g; Some (group_search (glist x) gid) })"

section \<open>Invariant\<close>

definition entry_inv :: "grpsys \<Rightarrow> nat \<Rightarrow> bool" where
  "entry_inv s g \<longleftrightarrow> (case gentries s g of None \<Rightarrow> users (pgroups s) g = 0 | Some x \<Rightarrow> grefs x = users (pgroups s) g \<and> 0 < grefs x)"

definition groups_inv :: "grpsys \<Rightarrow> bool" where
  "groups_inv s \<longleftrightarrow> finite (dom (pgroups s)) \<and> (\<forall>g. g \<noteq> 0 \<longrightarrow> entry_inv s g)"

lemma grpsys_order [simp]: "s\<lparr>pgroups := m, gentries := e\<rparr> = s\<lparr>gentries := e, pgroups := m\<rparr>"
  by simp

lemma groups_invD: "groups_inv s \<Longrightarrow> g \<noteq> 0 \<Longrightarrow> entry_inv s g" "groups_inv s \<Longrightarrow> finite (dom (pgroups s))"
  by (simp_all add: groups_inv_def)

lemma entry_there:
  assumes "groups_inv s" "pgroups s p = Some g" "g \<noteq> 0"
  shows "\<exists>x. gentries s g = Some x \<and> grefs x = users (pgroups s) g \<and> 0 < grefs x"
  using groups_invD(1) [OF assms(1,3)] users_pos [OF groups_invD(2) [OF assms(1)] assms(2)]
  by (auto simp: entry_inv_def split: option.splits)

lemma groups_inv_change:
  assumes "groups_inv s" "finite (dom m)" "\<And>g. g \<noteq> 0 \<Longrightarrow> g \<noteq> a \<Longrightarrow> e g = gentries s g \<and> users m g = users (pgroups s) g"
    "a \<noteq> 0 \<Longrightarrow> (case e a of None \<Rightarrow> users m a = 0 | Some x \<Rightarrow> grefs x = users m a \<and> 0 < grefs x)"
  shows "groups_inv (s\<lparr>gentries := e, pgroups := m\<rparr>)"
proof -
  have "entry_inv (s\<lparr>gentries := e, pgroups := m\<rparr>) g" if "g \<noteq> 0" for g
    using groups_invD(1) [OF assms(1) that] assms(4) assms(3) [OF that] that
    by (cases "g = a"; cases "e g") (auto simp: entry_inv_def split: option.splits)
  with assms(2) show ?thesis by (simp add: groups_inv_def)
qed

lemma groups_leave_inv:
  assumes inv: "groups_inv s"
  shows "\<exists>s'. groups_leave s pid = Some s' \<and> groups_inv s' \<and> (pid \<in> dom (pgroups s) \<longrightarrow> pgroups s' = (pgroups s)(pid \<mapsto> 0))"
proof (cases "pgroups s pid")
  case None
  with inv show ?thesis by (auto simp: groups_leave_def)
next
  case (Some g)
  have f: "finite (dom (pgroups s))" using inv by (simp add: groups_inv_def)
  note u = users_upd [OF f, of pid 0]
  show ?thesis
  proof (cases "g = 0")
    case True
    have "(pgroups s)(pid \<mapsto> 0) = pgroups s" using Some True by auto
    with inv Some True show ?thesis by (auto simp: groups_leave_def)
  next
    case False
    from entry_there [OF inv Some False] obtain x where x: "gentries s g = Some x" "grefs x = users (pgroups s) g" "0 < grefs x" by blast
    let ?e = "if grefs x - 1 = 0 then (gentries s)(g := None) else (gentries s)(g \<mapsto> x\<lparr>grefs := grefs x - 1\<rparr>)"
    have "groups_inv (s\<lparr>gentries := ?e, pgroups := (pgroups s)(pid \<mapsto> 0)\<rparr>)"
    proof (rule groups_inv_change [OF inv, where a = g])
      show "?e h = gentries s h \<and> users ((pgroups s)(pid \<mapsto> 0)) h = users (pgroups s) h" if "h \<noteq> 0" "h \<noteq> g" for h
        using u [of h] Some that by simp
      show "case ?e g of None \<Rightarrow> users ((pgroups s)(pid \<mapsto> 0)) g = 0
        | Some y \<Rightarrow> grefs y = users ((pgroups s)(pid \<mapsto> 0)) g \<and> 0 < grefs y"
        using u [of g] Some x False by (auto split: if_splits)
    qed (use f in simp)
    with Some False x(1) show ?thesis by (auto simp: groups_leave_def Let_def)
  qed
qed

lemma groups_set_inv:
  assumes inv: "groups_inv s" and g: "g \<noteq> 0 \<longrightarrow> gentries s g = None"
  shows "\<exists>r s'. groups_set cpyok g s pid groups = Some (r, s') \<and> groups_inv s' \<and>
    (if r then pid \<in> dom (pgroups s) \<and> pgroups s' = (pgroups s)(pid \<mapsto> g) \<and> g \<noteq> 0 \<and> (\<exists>x. gentries s' g = Some x \<and> glist x = groups)
     else s' = s)"
proof (cases "length groups > 0 \<and> \<not> cpyok \<or> g = 0")
  case True
  with inv show ?thesis by (auto simp: groups_set_def)
next
  case False
  let ?n = "\<lparr>grefs = 1, glist = groups\<rparr>"
  let ?s = "s\<lparr>gentries := (gentries s)(g \<mapsto> ?n)\<rparr>"
  have nz: "g \<noteq> 0" and none: "gentries s g = None" using False g by auto
  then have u0: "users (pgroups s) g = 0" using groups_invD(1) [OF inv, of g] by (simp add: entry_inv_def)
  have f: "finite (dom (pgroups s))" by (rule groups_invD(2) [OF inv])
  show ?thesis
  proof (cases "pgroups s pid")
    case None
    have "(gentries s)(g := None) = gentries s" using none by auto
    with None False inv show ?thesis by (auto simp: groups_set_def groups_leave_def)
  next
    case (Some h)
    have hg: "h \<noteq> g" using Some u0 users_pos [OF f, of pid g] by auto
    from groups_leave_inv [OF inv, of pid] Some obtain s1 where
      s1: "groups_leave s pid = Some s1" "groups_inv s1" "pgroups s1 = (pgroups s)(pid \<mapsto> 0)" by auto
    have g1: "gentries s1 g = None"
    proof -
      have "users (pgroups s1) g = 0" using users_upd [OF f, of pid 0 g] u0 nz s1(3) by simp
      then show ?thesis using groups_invD(1) [OF s1(2) nz] by (auto simp: entry_inv_def split: option.splits)
    qed
    have l: "groups_leave ?s pid = Some (s1\<lparr>gentries := (gentries s1)(g \<mapsto> ?n)\<rparr>)"
      using s1(1) Some hg by (auto simp: groups_leave_def Let_def fun_upd_twist split: if_splits bind_splits)
    let ?t = "s1\<lparr>gentries := (gentries s1)(g \<mapsto> ?n), pgroups := (pgroups s1)(pid \<mapsto> g)\<rparr>"
    have f1: "finite (dom (pgroups s1))" by (rule groups_invD(2) [OF s1(2)])
    have "groups_inv ?t"
    proof (rule groups_inv_change [OF s1(2), where a = g])
      show "((gentries s1)(g \<mapsto> ?n)) k = gentries s1 k \<and> users ((pgroups s1)(pid \<mapsto> g)) k = users (pgroups s1) k" if "k \<noteq> 0" "k \<noteq> g" for k
        using users_upd [OF f1, of pid g k] that s1(3) by simp
      have "users (pgroups s1) g = 0" using groups_invD(1) [OF s1(2) nz] g1 by (simp add: entry_inv_def)
      then show "case ((gentries s1)(g \<mapsto> ?n)) g of None \<Rightarrow> users ((pgroups s1)(pid \<mapsto> g)) g = 0
          | Some x \<Rightarrow> grefs x = users ((pgroups s1)(pid \<mapsto> g)) g \<and> 0 < grefs x"
        using users_upd [OF f1, of pid g g] s1(3) nz by simp
    qed (use f1 in simp)
    moreover have "groups_set cpyok g s pid groups = Some (True, ?t)" using False l s1(3) by (auto simp: groups_set_def)
    ultimately show ?thesis using Some s1(3) nz by auto
  qed
qed

lemma groups_join_inv:
  assumes inv: "groups_inv s" and d: "pgroups s dst = None \<or> pgroups s dst = Some 0" and g: "pgroups s src = Some g"
  shows "\<exists>s'. groups_join s dst src = Some s' \<and> groups_inv s' \<and> pgroups s' = (pgroups s)(dst \<mapsto> g)"
proof (cases "g = 0")
  case True
  have f: "finite (dom (pgroups s))" by (rule groups_invD(2) [OF inv])
  have "groups_inv (s\<lparr>gentries := gentries s, pgroups := (pgroups s)(dst \<mapsto> 0)\<rparr>)"
  proof (rule groups_inv_change [OF inv, where a = 0])
    show "gentries s h = gentries s h \<and> users ((pgroups s)(dst \<mapsto> 0)) h = users (pgroups s) h" if "h \<noteq> 0" "h \<noteq> 0" for h
      using users_upd [OF f, of dst 0 h] d that by (auto split: if_splits)
  qed (use f in simp_all)
  with g True show ?thesis by (simp add: groups_join_def)
next
  case False
  have f: "finite (dom (pgroups s))" by (rule groups_invD(2) [OF inv])
  from entry_there [OF inv g False] obtain x where x: "gentries s g = Some x" "grefs x = users (pgroups s) g" by blast
  have n: "pgroups s dst \<noteq> Some h" if "h \<noteq> 0" for h using d that by auto
  have "groups_inv (s\<lparr>gentries := (gentries s)(g \<mapsto> x\<lparr>grefs := grefs x + 1\<rparr>), pgroups := (pgroups s)(dst \<mapsto> g)\<rparr>)"
  proof (rule groups_inv_change [OF inv, where a = g])
    show "((gentries s)(g \<mapsto> x\<lparr>grefs := grefs x + 1\<rparr>)) h = gentries s h \<and> users ((pgroups s)(dst \<mapsto> g)) h = users (pgroups s) h"
      if "h \<noteq> 0" "h \<noteq> g" for h using users_upd [OF f, of dst g h] n [OF that(1)] that by simp
    show "case ((gentries s)(g \<mapsto> x\<lparr>grefs := grefs x + 1\<rparr>)) g of None \<Rightarrow> users ((pgroups s)(dst \<mapsto> g)) g = 0
        | Some y \<Rightarrow> grefs y = users ((pgroups s)(dst \<mapsto> g)) g \<and> 0 < grefs y"
      using users_upd [OF f, of dst g g] n [OF False] x(2) by simp
  qed (use f in simp)
  with g False x(1) show ?thesis by (simp add: groups_join_def Let_def)
qed

lemma group_search_iff: "group_search xs gid \<longleftrightarrow> gid \<in> set xs"
  by (induction xs) auto

section \<open>Runs\<close>

inductive groups_step :: "grpsys \<Rightarrow> grpsys \<Rightarrow> bool" where
  gs_proc: "pid \<notin> dom (pgroups s) \<Longrightarrow> groups_step s (s\<lparr>pgroups := (pgroups s)(pid \<mapsto> 0)\<rparr>)"
| gs_set: "g \<noteq> 0 \<longrightarrow> gentries s g = None \<Longrightarrow> groups_set cpyok g s pid groups = Some (r, s') \<Longrightarrow> groups_step s s'"
| gs_join: "pgroups s dst = None \<or> pgroups s dst = Some 0 \<Longrightarrow> groups_join s dst src = Some s' \<Longrightarrow> groups_step s s'"
| gs_leave: "groups_leave s pid = Some s' \<Longrightarrow> groups_step s s'"

lemma groups_step_inv: "groups_step s s' \<Longrightarrow> groups_inv s \<Longrightarrow> groups_inv s'"
proof (induction rule: groups_step.induct)
  case (gs_proc pid s)
  have f: "finite (dom (pgroups s))" by (rule groups_invD(2) [OF gs_proc(2)])
  have "groups_inv (s\<lparr>gentries := gentries s, pgroups := (pgroups s)(pid \<mapsto> 0)\<rparr>)"
  proof (rule groups_inv_change [OF gs_proc(2), where a = 0])
    show "gentries s h = gentries s h \<and> users ((pgroups s)(pid \<mapsto> 0)) h = users (pgroups s) h" if "h \<noteq> 0" "h \<noteq> 0" for h
      using users_upd [OF f, of pid 0 h] gs_proc(1) that by (auto split: if_splits)
  qed (use f in simp_all)
  then show ?case by simp
next
  case (gs_set g s cpyok pid groups r s')
  with groups_set_inv [of s g cpyok pid groups] show ?case by auto
next
  case (gs_join s dst src s')
  then obtain g where "pgroups s src = Some g" by (auto simp: groups_join_def split: bind_splits)
  with gs_join groups_join_inv [of s dst src g] show ?case by auto
next
  case (gs_leave s pid s')
  with groups_leave_inv [of s pid] show ?case by auto
qed

abbreviation groups_reach :: "grpsys \<Rightarrow> bool" where
  "groups_reach s \<equiv> groups_step\<^sup>*\<^sup>* \<lparr>gentries = Map.empty, pgroups = Map.empty\<rparr> s"

interpretation groups_runs: transitions groups_step "\<lambda>s. s = \<lparr>gentries = Map.empty, pgroups = Map.empty\<rparr>" groups_inv
  by unfold_locales (simp add: groups_inv_def entry_inv_def users_def, rule groups_step_inv)

lemma groups_reach_inv: "groups_reach s \<Longrightarrow> groups_inv s"
  by (erule groups_runs.reachable) simp

section \<open>Properties\<close>

text \<open>In every run of processes that set, inherit and leave groups, a list of groups exists exactly as long as a process
  has it, and its count is the number of these processes; setting groups either fails and changes nothing, or afterwards
  the process is in exactly the groups of the list, and the groups of every other process are as before.\<close>

theorem groups_set_contains:
  assumes "groups_reach s" "gentries s g = None" "g \<noteq> 0"
  shows "\<exists>r s'. groups_set cpyok g s pid groups = Some (r, s') \<and>
    (if r then \<forall>gid. groups_contains s' pid gid = Some (gid \<in> set groups) \<and> (\<forall>q. q \<noteq> pid \<longrightarrow> groups_contains s' q gid = groups_contains s q gid)
     else s' = s) \<and>
    (\<forall>h. h \<noteq> 0 \<longrightarrow> (case gentries s' h of None \<Rightarrow> users (pgroups s') h = 0 | Some x \<Rightarrow> grefs x = users (pgroups s') h \<and> 0 < grefs x))"
proof -
  have inv: "groups_inv s" by (rule groups_reach_inv [OF assms(1)])
  from groups_set_inv [OF inv, of g cpyok pid groups] assms(2) obtain r s' where
    r: "groups_set cpyok g s pid groups = Some (r, s')" "groups_inv s'"
      "if r then pid \<in> dom (pgroups s) \<and> pgroups s' = (pgroups s)(pid \<mapsto> g) \<and> g \<noteq> 0 \<and> (\<exists>x. gentries s' g = Some x \<and> glist x = groups) else s' = s"
    by blast
  have other: "groups_contains s' q gid = groups_contains s q gid" if t: r "q \<noteq> pid" for q gid
  proof (cases "pgroups s q")
    case (Some h)
    have "gentries s' h = gentries s h \<or> (\<exists>x y. gentries s' h = Some x \<and> gentries s h = Some y \<and> glist x = glist y)" if nz: "h \<noteq> 0"
    proof -
      have hg: "h \<noteq> g" using entry_there [OF inv Some nz] assms(2) by auto
      have "grefs x > 1" if x: "gentries s h = Some x" and p: "pgroups s pid = Some h" for x
      proof -
        have f: "finite (dom (pgroups s))" by (rule groups_invD(2) [OF inv])
        have "0 < users ((pgroups s)(pid \<mapsto> 0)) h" using Some t(2) f by (intro users_pos [of _ q]) simp_all
        then show ?thesis using users_upd [OF f, of pid 0 h] p nz entry_there [OF inv p nz] x by simp
      qed
      with r(1) t(1) hg show ?thesis
        by (fastforce simp: groups_set_def groups_leave_def Let_def split: if_splits option.splits bind_splits)
    qed
    then show ?thesis using r(3) t Some by (auto simp: groups_contains_def)
  qed (use r(3) t in \<open>simp add: groups_contains_def\<close>)
  have "groups_contains s' pid gid = Some (gid \<in> set groups)" if r for gid
    using r(3) that by (auto simp: groups_contains_def group_search_iff)
  with r other groups_invD(1) [OF r(2)] show ?thesis by (intro exI [of _ r] exI [of _ s']) (auto simp: entry_inv_def)
qed

theorem groups_set_contains_witness: "\<exists>r s'. groups_set True 64 \<lparr>gentries = Map.empty, pgroups = Map.empty\<rparr> 3 [0, 7] = Some (r, s')"
  using groups_set_contains [OF rtranclp.rtrancl_refl, of 64 True 3 "[0, 7]"] by auto

end
