(* ===== verification/Cow.thy ===== *)
theory Cow
  imports RefCount Transitions KErrno
begin

text \<open>
  Copy-on-write: the table of shared frames (\<open>kernel/src/mem/copyonwrite.cc\<close>) and what \<open>virtmem.cc\<close> and \<open>pagetables.cc\<close>
  do for each page of a region that is private to a process when the process is cloned, when a page is written and
  when a region is removed. A page stands for the entry of a page table together with the flags of the region for this page;
  a frame has one value as its content.
\<close>

section \<open>The table of shared frames\<close>

record CowEntry =
  cowFrame :: nat
  cowRefs :: nat

type_synonym cowtab = "nat \<Rightarrow> CowEntry list"

abbreviation COW_HEAP_SIZE :: nat where "COW_HEAP_SIZE \<equiv> 64"

text \<open>\<open>getByFrame\<close> gives the entry, after the decrement if \<open>dec\<close>, and the list, from which an entry without
  references has been removed.\<close>

fun getByFrame :: "CowEntry list \<Rightarrow> nat \<Rightarrow> bool \<Rightarrow> (CowEntry \<times> CowEntry list) option" where
  "getByFrame [] f dec = None"
| "getByFrame (e # es) f dec =
     (if cowFrame e = f then
        if dec then let e' = e\<lparr>cowRefs := usub (cowRefs e) 1\<rparr> in Some (e', if cowRefs e' = 0 then es else e' # es)
        else Some (e, e # es)
      else map_option (\<lambda>(r, l). (r, e # l)) (getByFrame es f dec))"

fun cow_inc :: "CowEntry list \<Rightarrow> nat \<Rightarrow> CowEntry list" where
  "cow_inc [] f = []"
| "cow_inc (e # es) f = (if cowFrame e = f then e\<lparr>cowRefs := uadd (cowRefs e) 1\<rparr> # es else e # cow_inc es f)"

text \<open>\<open>new\<close> says whether there is memory for a new entry.\<close>

definition cow_add :: "bool \<Rightarrow> cowtab \<Rightarrow> nat \<Rightarrow> bool \<times> cowtab" where
  "cow_add new fr f = (let i = f mod COW_HEAP_SIZE in
     case getByFrame (fr i) f False of
       Some _ \<Rightarrow> (True, fr(i := cow_inc (fr i) f))
     | None \<Rightarrow> if new then (True, fr(i := cow_inc (fr i @ [\<lparr>cowFrame = f, cowRefs = 0\<rparr>]) f)) else (False, fr))"

text \<open>\<open>remove\<close>: the first result is \<open>foundOther\<close>. A missing entry is a failed assertion.\<close>

definition cow_remove :: "cowtab \<Rightarrow> nat \<Rightarrow> (bool \<times> cowtab) option" where
  "cow_remove fr f = (let i = f mod COW_HEAP_SIZE in
     do { (e, l) \<leftarrow> getByFrame (fr i) f True; Some (0 < cowRefs e, fr(i := l)) })"

definition getFrmCount :: "cowtab \<Rightarrow> nat" where
  "getFrmCount fr = (\<Sum>i \<leftarrow> [0..<COW_HEAP_SIZE]. length (fr i))"

text \<open>The references of a frame, and tables without double and empty entries.\<close>

definition refs_in :: "CowEntry list \<Rightarrow> nat \<Rightarrow> nat" where
  "refs_in es f = (case find (\<lambda>e. cowFrame e = f) es of None \<Rightarrow> 0 | Some e \<Rightarrow> cowRefs e)"

definition cow_refs :: "cowtab \<Rightarrow> nat \<Rightarrow> nat" where
  "cow_refs fr f = refs_in (fr (f mod COW_HEAP_SIZE)) f"

definition bucket_ok :: "CowEntry list \<Rightarrow> nat \<Rightarrow> bool" where
  "bucket_ok es i \<longleftrightarrow> distinct (map cowFrame es) \<and> (\<forall>e \<in> set es. cowFrame e mod COW_HEAP_SIZE = i \<and> 0 < cowRefs e)"

definition cow_ok :: "cowtab \<Rightarrow> bool" where
  "cow_ok fr \<longleftrightarrow> (\<forall>i. bucket_ok (fr i) i)"

lemma refs_in_simps [simp]: "refs_in [] f = 0" "refs_in (e # es) f = (if cowFrame e = f then cowRefs e else refs_in es f)"
  by (simp_all add: refs_in_def)

lemma refs_in_absent: "f \<notin> cowFrame ` set es \<Longrightarrow> refs_in es f = 0"
  by (induction es) auto

lemma refs_in_snoc: "refs_in (es @ [\<lparr>cowFrame = f, cowRefs = 0\<rparr>]) = refs_in es"
  by (rule ext, induction es) auto

lemma bucket_ok_simps [simp]: "bucket_ok [] i"
  "bucket_ok (e # es) i \<longleftrightarrow> cowFrame e \<notin> cowFrame ` set es \<and> cowFrame e mod COW_HEAP_SIZE = i \<and> 0 < cowRefs e \<and> bucket_ok es i"
  by (auto simp: bucket_ok_def)

lemma refs_in_present: "bucket_ok es i \<Longrightarrow> f \<in> cowFrame ` set es \<Longrightarrow> 0 < refs_in es f"
  by (induction es) auto

lemma getByFrame_none: "bucket_ok es i \<Longrightarrow> getByFrame es f False = None \<longleftrightarrow> refs_in es f = 0"
  by (induction es) auto

lemma getByFrame_dec:
  assumes "bucket_ok es i" "0 < refs_in es f" "refs_in es f < 2 ^ 32"
  shows "\<exists>e l. getByFrame es f True = Some (e, l) \<and> cowRefs e = refs_in es f - 1 \<and> bucket_ok l i \<and>
    cowFrame ` set l \<subseteq> cowFrame ` set es \<and> refs_in l = (refs_in es)(f := refs_in es f - 1)"
  using assms
proof (induction es)
  case (Cons e es)
  show ?case
  proof (cases "cowFrame e = f")
    case True
    then have "usub (cowRefs e) 1 = cowRefs e - 1" using Cons.prems by (simp add: usub_small)
    with True Cons.prems show ?thesis by (auto simp: fun_eq_iff Let_def refs_in_absent)
  next
    case False
    then have "bucket_ok es i" "0 < refs_in es f" "refs_in es f < 2 ^ 32" using Cons.prems by simp_all
    from Cons.IH [OF this] obtain e' l where l: "getByFrame es f True = Some (e', l)" "cowRefs e' = refs_in es f - 1" "bucket_ok l i"
      "cowFrame ` set l \<subseteq> cowFrame ` set es" "refs_in l = (refs_in es)(f := refs_in es f - 1)" by blast
    have "refs_in (e # l) = (refs_in (e # es))(f := refs_in (e # es) f - 1)" using l(5) False by (simp add: fun_eq_iff)
    moreover have "bucket_ok (e # l) i" "cowFrame ` set (e # l) \<subseteq> cowFrame ` set (e # es)" using l(3,4) Cons.prems(1) by auto
    moreover have "getByFrame (e # es) f True = Some (e', e # l)" "cowRefs e' = refs_in (e # es) f - 1" using l(1,2) False by simp_all
    ultimately show ?thesis by blast
  qed
qed simp

lemma cow_inc_ok:
  assumes "refs_in es f + 1 < 2 ^ 32" "f \<in> cowFrame ` set es" "distinct (map cowFrame es)"
    "\<And>e. e \<in> set es \<Longrightarrow> cowFrame e mod COW_HEAP_SIZE = i \<and> (cowFrame e = f \<or> 0 < cowRefs e)"
  shows "bucket_ok (cow_inc es f) i \<and> refs_in (cow_inc es f) = (refs_in es)(f := refs_in es f + 1) \<and>
    cowFrame ` set (cow_inc es f) = cowFrame ` set es"
  using assms
proof (induction es)
  case (Cons e es)
  show ?case
  proof (cases "cowFrame e = f")
    case True
    have "0 < cowRefs x \<and> cowFrame x mod COW_HEAP_SIZE = i" if "x \<in> set es" for x
      using Cons.prems(3) Cons.prems(4) [of x] True that by (cases "cowFrame x = f") (auto simp: rev_image_eqI)
    then have "bucket_ok es i" unfolding bucket_ok_def using Cons.prems(3) by simp
    then show ?thesis using True Cons.prems by (auto simp: fun_eq_iff uadd_small)
  next
    case False
    have "bucket_ok (cow_inc es f) i \<and> refs_in (cow_inc es f) = (refs_in es)(f := refs_in es f + 1) \<and>
      cowFrame ` set (cow_inc es f) = cowFrame ` set es"
      using Cons.prems False by (intro Cons.IH) auto
    with False Cons.prems show ?thesis by (auto simp: fun_eq_iff)
  qed
qed simp

lemma cow_upd:
  assumes "cow_ok fr" "bucket_ok l (f mod COW_HEAP_SIZE)" "refs_in l = (refs_in (fr (f mod COW_HEAP_SIZE)))(f := n)"
  shows "cow_ok (fr(f mod COW_HEAP_SIZE := l)) \<and> cow_refs (fr(f mod COW_HEAP_SIZE := l)) = (cow_refs fr)(f := n)"
  using assms by (auto simp: cow_ok_def fun_eq_iff cow_refs_def)

lemma cow_add_ok:
  assumes "cow_ok fr" "cow_refs fr f + 1 < 2 ^ 32"
  shows "\<exists>fr'. cow_add True fr f = (True, fr') \<and> cow_ok fr' \<and> cow_refs fr' = (cow_refs fr)(f := cow_refs fr f + 1)"
proof -
  let ?i = "f mod COW_HEAP_SIZE" and ?n = "\<lparr>cowFrame = f, cowRefs = 0\<rparr>"
  have b: "bucket_ok (fr ?i) ?i" using assms(1) by (simp add: cow_ok_def)
  show ?thesis
  proof (cases "getByFrame (fr ?i) f False")
    case None
    then have z: "refs_in (fr ?i) f = 0" using getByFrame_none [OF b] by simp
    then have n: "f \<notin> cowFrame ` set (fr ?i)" using refs_in_present [OF b, of f] by fastforce
    have ap: "refs_in (fr ?i @ [?n]) = refs_in (fr ?i)" by (simp add: refs_in_snoc)
    have "bucket_ok (cow_inc (fr ?i @ [?n]) f) ?i \<and> refs_in (cow_inc (fr ?i @ [?n]) f) = (refs_in (fr ?i @ [?n]))(f := refs_in (fr ?i @ [?n]) f + 1) \<and>
      cowFrame ` set (cow_inc (fr ?i @ [?n]) f) = cowFrame ` set (fr ?i @ [?n])"
      using b n ap z by (intro cow_inc_ok) (auto simp: bucket_ok_def)
    then show ?thesis using cow_upd [OF assms(1), of "cow_inc (fr ?i @ [?n]) f" f] None ap by (simp add: cow_add_def Let_def cow_refs_def)
  next
    case (Some x)
    then have "0 < refs_in (fr ?i) f" using getByFrame_none [OF b, of f] by auto
    then have "f \<in> cowFrame ` set (fr ?i)" using refs_in_absent [of f "fr ?i"] by (metis less_nat_zero_code)
    then have "bucket_ok (cow_inc (fr ?i) f) ?i \<and> refs_in (cow_inc (fr ?i) f) = (refs_in (fr ?i))(f := refs_in (fr ?i) f + 1) \<and>
      cowFrame ` set (cow_inc (fr ?i) f) = cowFrame ` set (fr ?i)"
      using b assms(2) by (intro cow_inc_ok) (auto simp: bucket_ok_def cow_refs_def)
    then show ?thesis using cow_upd [OF assms(1), of "cow_inc (fr ?i) f" f] Some by (simp add: cow_add_def Let_def cow_refs_def)
  qed
qed

lemma cow_dec_ok:
  assumes "cow_ok fr" "0 < cow_refs fr f" "cow_refs fr f < 2 ^ 32"
  shows "\<exists>e l. getByFrame (fr (f mod COW_HEAP_SIZE)) f True = Some (e, l) \<and> cowRefs e = cow_refs fr f - 1 \<and>
    cow_ok (fr(f mod COW_HEAP_SIZE := l)) \<and> cow_refs (fr(f mod COW_HEAP_SIZE := l)) = (cow_refs fr)(f := cow_refs fr f - 1)"
proof -
  have b: "bucket_ok (fr (f mod COW_HEAP_SIZE)) (f mod COW_HEAP_SIZE)" using assms(1) by (simp add: cow_ok_def)
  from getByFrame_dec [OF b assms(2,3) [unfolded cow_refs_def]] obtain e l where l: "getByFrame (fr (f mod COW_HEAP_SIZE)) f True = Some (e, l)"
    "cowRefs e = cow_refs fr f - 1" "bucket_ok l (f mod COW_HEAP_SIZE)" "refs_in l = (refs_in (fr (f mod COW_HEAP_SIZE)))(f := cow_refs fr f - 1)" unfolding cow_refs_def by blast
  with cow_upd [OF assms(1) l(3,4)] show ?thesis by blast
qed

lemma cow_remove_ok:
  assumes "cow_ok fr" "0 < cow_refs fr f" "cow_refs fr f < 2 ^ 32"
  shows "\<exists>fr'. cow_remove fr f = Some (1 < cow_refs fr f, fr') \<and> cow_ok fr' \<and> cow_refs fr' = (cow_refs fr)(f := cow_refs fr f - 1)"
proof -
  from cow_dec_ok [OF assms] obtain e l where l: "getByFrame (fr (f mod COW_HEAP_SIZE)) f True = Some (e, l)" "cowRefs e = cow_refs fr f - 1"
    "cow_ok (fr(f mod COW_HEAP_SIZE := l))" "cow_refs (fr(f mod COW_HEAP_SIZE := l)) = (cow_refs fr)(f := cow_refs fr f - 1)" by blast
  have "(0 < cow_refs fr f - 1) = (1 < cow_refs fr f)" using assms(2) by linarith
  with l show ?thesis by (simp add: cow_remove_def Let_def)
qed

section \<open>Pages\<close>

text \<open>
  A page of a private region: the frame and the flags of the entry of the page table, the flags of the region for the
  page (\<open>PF_COPYONWRITE\<close>, \<open>PF_DEMANDLOAD\<close>, \<open>PF_SWAPPED\<close>), and whether the region is writable.
\<close>

record vpage =
  pframe :: nat
  ppresent :: bool
  pwritable :: bool
  pcow :: bool
  pdemand :: bool
  pswapped :: bool
  prw :: bool

record cowvm =
  ctab :: cowtab
  vpages :: "nat \<rightharpoonup> vpage"
  fmem :: "nat \<Rightarrow> nat"
  inuse :: "nat \<Rightarrow> bool"

text \<open>\<open>CopyOnWrite::pagefault\<close>: the last user keeps the frame (\<open>NoAllocator\<close>), others get the frame \<open>new\<close> with a copy.\<close>

definition cow_pagefault :: "nat \<Rightarrow> cowvm \<Rightarrow> nat \<Rightarrow> cowvm option" where
  "cow_pagefault new s p = do {
     g \<leftarrow> vpages s p;
     (e, l) \<leftarrow> getByFrame (ctab s (pframe g mod COW_HEAP_SIZE)) (pframe g) True;
     let s1 = s\<lparr>ctab := (ctab s)(pframe g mod COW_HEAP_SIZE := l)\<rparr>;
     Some (if cowRefs e = 0 then s1\<lparr>vpages := (vpages s)(p \<mapsto> g\<lparr>ppresent := True, pwritable := True\<rparr>)\<rparr>
       else s1\<lparr>vpages := (vpages s)(p \<mapsto> g\<lparr>pframe := new, ppresent := True, pwritable := True\<rparr>),
         fmem := (fmem s)(new := fmem s (pframe g)), inuse := (inuse s)(new := True)\<rparr>) }"

text \<open>\<open>VirtMem::doPagefault\<close>; loading a page on demand and swapping it in are parameters.\<close>

definition vm_doPagefault ::
  "(cowvm \<Rightarrow> nat \<Rightarrow> int \<times> cowvm) \<Rightarrow> (cowvm \<Rightarrow> nat \<Rightarrow> int \<times> cowvm) \<Rightarrow> nat \<Rightarrow> cowvm \<Rightarrow> nat \<Rightarrow> bool \<Rightarrow> (int \<times> cowvm) option" where
  "vm_doPagefault demandLoad swapIn new s p wr = do {
     g \<leftarrow> vpages s p;
     if pdemand g then
       let (r, s1) = demandLoad s p in
       Some (r, if r = 0 then s1\<lparr>vpages := (vpages s1)(p := map_option (\<lambda>h. h\<lparr>pdemand := False\<rparr>) (vpages s1 p))\<rparr> else s1)
     else if pswapped g then Some (swapIn s p)
     else if pcow g then do {
       s1 \<leftarrow> cow_pagefault new s p;
       Some (0, s1\<lparr>vpages := (vpages s1)(p := map_option (\<lambda>h. h\<lparr>pcow := False\<rparr>) (vpages s1 p))\<rparr>) }
     else Some (if \<not> wr \<or> prw g then 0 else - EFAULT, s) }"

text \<open>\<open>PageTables::clone\<close> for a page of the parent \<open>p\<close> and of the child \<open>c\<close>, with \<open>share\<close> false.\<close>

fun pt_clone_page :: "cowvm \<Rightarrow> nat \<times> nat \<Rightarrow> cowvm option" where
  "pt_clone_page s (p, c) = do {
     g \<leftarrow> vpages s p;
     let h = (if ppresent g then g\<lparr>pwritable := False\<rparr> else g);
     Some (s\<lparr>vpages := (vpages s)(c \<mapsto> h, p \<mapsto> h)\<rparr>) }"

text \<open>The loop of \<open>cloneAll\<close> that puts a page under copy-on-write; \<open>n1\<close>, \<open>n2\<close> say whether there is memory for entries.\<close>

fun mark_page :: "bool \<times> bool \<Rightarrow> cowvm \<Rightarrow> nat \<times> nat \<Rightarrow> (bool \<times> cowvm) option" where
  "mark_page (n1, n2) s (p, c) = do {
     g \<leftarrow> vpages s p;
     h \<leftarrow> vpages s c;
     if pswapped g \<or> pdemand g then Some (True, s)
     else let (r1, t1) = (if pcow g then (True, ctab s) else cow_add n1 (ctab s) (pframe g)) in
       if \<not> r1 then Some (False, s)
       else let v = (vpages s)(p \<mapsto> g\<lparr>pcow := True\<rparr>, c \<mapsto> h\<lparr>pcow := True\<rparr>);
                (r2, t2) = cow_add n2 t1 (pframe g) in
         if r2 then Some (True, s\<lparr>ctab := t2, vpages := v\<rparr>)
         else if pcow g then Some (False, s\<lparr>ctab := t1, vpages := v\<rparr>)
         else do {
           (other, t3) \<leftarrow> cow_remove t1 (pframe g);
           Some (False, s\<lparr>ctab := t3, vpages := if other then v else v(p \<mapsto> g)\<rparr>) } }"

fun undo_page :: "cowvm \<Rightarrow> nat \<times> nat \<Rightarrow> cowvm option" where
  "undo_page s (p, c) = do {
     g \<leftarrow> vpages s p;
     if pdemand g \<or> pswapped g then Some s
     else do {
       (_, t1) \<leftarrow> cow_remove (ctab s) (pframe g);
       if pcow g then do {
         (other, t2) \<leftarrow> cow_remove t1 (pframe g);
         Some (s\<lparr>ctab := t2, vpages := if other then vpages s else (vpages s)(p \<mapsto> g\<lparr>pcow := False\<rparr>)\<rparr>) }
       else Some (s\<lparr>ctab := t1\<rparr>) } }"

fun pt_clone :: "cowvm \<Rightarrow> (nat \<times> nat) list \<Rightarrow> cowvm option" where
  "pt_clone s [] = Some s"
| "pt_clone s (x # xs) = do { s1 \<leftarrow> pt_clone_page s x; pt_clone s1 xs }"

fun undo_pages :: "cowvm \<Rightarrow> (nat \<times> nat) list \<Rightarrow> cowvm option" where
  "undo_pages s [] = Some s"
| "undo_pages s (x # xs) = do { s1 \<leftarrow> undo_page s x; undo_pages s1 xs }"

fun mark_pages :: "(nat \<Rightarrow> bool \<times> bool) \<Rightarrow> (nat \<times> nat) list \<Rightarrow> cowvm \<Rightarrow> (nat \<times> nat) list \<Rightarrow> (bool \<times> cowvm) option" where
  "mark_pages ns marked s [] = Some (True, s)"
| "mark_pages ns marked s (x # xs) = do {
     (r, s1) \<leftarrow> mark_page (ns (length marked)) s x;
     if r then mark_pages ns (x # marked) s1 xs
     else do { s2 \<leftarrow> undo_pages s1 marked; Some (False, s2) } }"

text \<open>The part of \<open>cloneAll\<close> for the pages of a private region; if it fails, the region of the child is deleted.\<close>

definition vm_clone :: "(nat \<Rightarrow> bool \<times> bool) \<Rightarrow> cowvm \<Rightarrow> (nat \<times> nat) list \<Rightarrow> (bool \<times> cowvm) option" where
  "vm_clone ns s prs = do {
     s1 \<leftarrow> pt_clone s prs;
     (r, s2) \<leftarrow> mark_pages ns [] s1 prs;
     Some (r, if r then s2 else s2\<lparr>vpages := (vpages s2) |` (- snd ` set prs)\<rparr>) }"

text \<open>\<open>VirtMem::doUnmap\<close> for a page of a region without other users, and the pages \<open>VirtMem::doGrow\<close> removes.\<close>

definition vm_unmap_page :: "bool \<Rightarrow> cowvm \<Rightarrow> nat \<Rightarrow> cowvm option" where
  "vm_unmap_page nofree s p = do {
     g \<leftarrow> vpages s p;
     (freeFrame, t) \<leftarrow> (if pcow g then do { (other, t) \<leftarrow> cow_remove (ctab s) (pframe g); Some (\<not> other, t) }
        else Some (\<not> nofree, ctab s));
     Some (s\<lparr>ctab := t, vpages := (vpages s)(p := None),
       inuse := if \<not> pswapped g \<and> \<not> (pcow g \<or> pdemand g) \<and> freeFrame then (inuse s)(pframe g := False) else inuse s\<rparr>) }"

definition vm_shrink_page :: "cowvm \<Rightarrow> nat \<Rightarrow> cowvm option" where
  "vm_shrink_page s p = do {
     g \<leftarrow> vpages s p;
     Some (s\<lparr>vpages := (vpages s)(p := None), inuse := if ppresent g then (inuse s)(pframe g := False) else inuse s\<rparr>) }"

text \<open>A write by the processor: it faults on a page that is not writable, and repeats the write after the fault.\<close>

definition vm_store :: "nat \<Rightarrow> cowvm \<Rightarrow> nat \<Rightarrow> nat \<Rightarrow> cowvm option" where
  "vm_store new s p v = do {
     g \<leftarrow> vpages s p;
     if ppresent g \<and> pwritable g then Some (s\<lparr>fmem := (fmem s)(pframe g := v)\<rparr>)
     else do {
       (r, s1) \<leftarrow> vm_doPagefault (\<lambda>s _. (- ENOMEM, s)) (\<lambda>s _. (- ENOMEM, s)) new s p True;
       h \<leftarrow> vpages s1 p;
       if r = 0 \<and> ppresent h \<and> pwritable h then Some (s1\<lparr>fmem := (fmem s1)(pframe h := v)\<rparr>) else None } }"

section \<open>Invariant\<close>

definition cowof :: "(nat \<rightharpoonup> vpage) \<Rightarrow> nat \<rightharpoonup> nat" where
  "cowof v p = (case v p of None \<Rightarrow> None | Some g \<Rightarrow> if pcow g then Some (pframe g) else None)"

text \<open>What a page shows to its process.\<close>

definition view :: "cowvm \<Rightarrow> nat \<rightharpoonup> nat" where
  "view s p = (case vpages s p of None \<Rightarrow> None | Some g \<Rightarrow> if ppresent g then Some (fmem s (pframe g)) else None)"

definition page_ok :: "vpage \<Rightarrow> bool" where
  "page_ok g \<longleftrightarrow> ppresent g = (\<not> pdemand g) \<and> \<not> pswapped g \<and> (pcow g \<longrightarrow> ppresent g \<and> \<not> pwritable g) \<and>
     (pwritable g \<longrightarrow> ppresent g) \<and> (ppresent g \<and> \<not> pcow g \<and> prw g \<longrightarrow> pwritable g)"

text \<open>Two pages show the same frame only if both are under copy-on-write.\<close>

definition shared_ok :: "(nat \<rightharpoonup> vpage) \<Rightarrow> bool" where
  "shared_ok v \<longleftrightarrow> (\<forall>p g q h. v p = Some g \<and> v q = Some h \<and> p \<noteq> q \<and> ppresent g \<and> ppresent h \<and> pframe g = pframe h \<longrightarrow> pcow g)"

definition vm_inv :: "cowvm \<Rightarrow> bool" where
  "vm_inv s \<longleftrightarrow> finite (dom (vpages s)) \<and> card (dom (vpages s)) < 2 ^ 32 \<and> cow_ok (ctab s) \<and>
     cow_refs (ctab s) = users (cowof (vpages s)) \<and> shared_ok (vpages s) \<and>
     (\<forall>p g. vpages s p = Some g \<longrightarrow> page_ok g \<and> (ppresent g \<longrightarrow> inuse s (pframe g)))"

lemma vm_invD:
  assumes "vm_inv s"
  shows "finite (dom (vpages s))" "card (dom (vpages s)) < 2 ^ 32" "cow_ok (ctab s)" "cow_refs (ctab s) = users (cowof (vpages s))"
    "shared_ok (vpages s)" "\<And>p g. vpages s p = Some g \<Longrightarrow> page_ok g"
    "\<And>p g. vpages s p = Some g \<Longrightarrow> ppresent g \<Longrightarrow> inuse s (pframe g)"
  using assms by (auto simp: vm_inv_def)

lemma cowof_upd: "cowof (v(p := x)) = (cowof v)(p := (case x of None \<Rightarrow> None | Some g \<Rightarrow> if pcow g then Some (pframe g) else None))"
  by (auto simp: cowof_def)

lemma cowof_dom: "finite (dom v) \<Longrightarrow> finite (dom (cowof v))"
  by (rule finite_subset [of _ "dom v"]) (auto simp: cowof_def split: option.splits)

lemma cowof_few: "finite (dom v) \<Longrightarrow> users (cowof v) f \<le> card (dom v)"
proof -
  assume f: "finite (dom v)"
  have "dom (cowof v) \<subseteq> dom v" by (auto simp: cowof_def split: option.splits)
  then have "card (dom (cowof v)) \<le> card (dom v)" by (rule card_mono [OF f])
  with users_dom [OF cowof_dom [OF f], of f] show ?thesis by simp
qed

lemma shared_okD: "shared_ok v \<Longrightarrow> v p = Some g \<Longrightarrow> v q = Some h \<Longrightarrow> p \<noteq> q \<Longrightarrow> ppresent g \<Longrightarrow> ppresent h \<Longrightarrow> pframe g = pframe h \<Longrightarrow> pcow g"
  unfolding shared_ok_def by blast

text \<open>Changing one page to one whose frame no other page shows, or removing it, keeps the other pages separate.\<close>

lemma shared_ok_put:
  assumes "shared_ok v" "\<And>q h. v q = Some h \<Longrightarrow> q \<noteq> p \<Longrightarrow> ppresent h \<Longrightarrow> ppresent g \<Longrightarrow> pframe h \<noteq> pframe g"
  shows "shared_ok (v(p \<mapsto> g))"
  unfolding shared_ok_def
proof (intro allI impI, elim conjE)
  fix a x b y
  assume *: "(v(p \<mapsto> g)) a = Some x" "(v(p \<mapsto> g)) b = Some y" "a \<noteq> b" "ppresent x" "ppresent y" "pframe x = pframe y"
  then have "a \<noteq> p" "b \<noteq> p" using assms(2) [of b y] assms(2) [of a x] by (auto split: if_splits)
  with * show "pcow x" using shared_okD [OF assms(1), of a x b y] by simp
qed

lemma shared_ok_del: "shared_ok v \<Longrightarrow> shared_ok (v(p := None))"
  unfolding shared_ok_def by (auto split: if_splits)

lemma users_del:
  assumes "finite (dom m)" "m p = Some f"
  shows "users (m(p := None)) = (users m)(f := users m f - 1)"
proof
  fix g
  show "users (m(p := None)) g = ((users m)(f := users m f - 1)) g"
    using users_put [OF assms(1), of p None g] assms(2) by (cases "g = f") simp_all
qed

lemma users_none: "m p = None \<Longrightarrow> users (m(p := None)) = users m"
  by (simp add: fun_upd_idem)

lemma users_new: "finite (dom m) \<Longrightarrow> m p = None \<Longrightarrow> users (m(p \<mapsto> f)) = (users m)(f := users m f + 1)"
  using users_upd [of m p f] by (simp add: fun_eq_iff)

lemma cow_shared:
  assumes "vm_inv s" "vpages s p = Some g" "pcow g"
  shows "0 < cow_refs (ctab s) (pframe g)" "cow_refs (ctab s) (pframe g) < 2 ^ 32"
    "\<lbrakk>vpages s q = Some h; q \<noteq> p; ppresent h; pframe h = pframe g\<rbrakk> \<Longrightarrow> 1 < cow_refs (ctab s) (pframe g)"
proof -
  note D = vm_invD [OF assms(1)]
  have c: "cowof (vpages s) p = Some (pframe g)" using assms by (simp add: cowof_def)
  show "0 < cow_refs (ctab s) (pframe g)" using users_pos [OF cowof_dom [OF D(1)] c] D(4) by simp
  show "cow_refs (ctab s) (pframe g) < 2 ^ 32" using cowof_few [OF D(1), of "pframe g"] D(2,4) by simp
  assume q: "vpages s q = Some h" "q \<noteq> p" "ppresent h" "pframe h = pframe g"
  have "ppresent g" using D(6) [OF assms(2)] assms(3) by (auto simp: page_ok_def)
  then have "pcow h" using shared_okD [OF D(5) q(1) assms(2) q(2,3)] q(4) by simp
  then have "cowof (vpages s) q = Some (pframe g)" using q by (simp add: cowof_def)
  then show "1 < cow_refs (ctab s) (pframe g)" using users_one [OF cowof_dom [OF D(1)] c _ q(2)] D(4) by simp
qed

lemma vm_inv_put:
  assumes "vm_inv s" "vpages s p = Some g" "page_ok h" "pcow h = False" "cow_ok t" "cow_refs t = users ((cowof (vpages s))(p := None))"
    "\<And>q x. vpages s q = Some x \<Longrightarrow> q \<noteq> p \<Longrightarrow> ppresent x \<Longrightarrow> ppresent h \<Longrightarrow> pframe x \<noteq> pframe h"
    "\<And>f. inuse s f \<Longrightarrow> u f" "ppresent h \<Longrightarrow> u (pframe h)"
  shows "vm_inv (s\<lparr>ctab := t, vpages := (vpages s)(p \<mapsto> h), fmem := m, inuse := u\<rparr>)"
proof -
  note D = vm_invD [OF assms(1)]
  have "dom ((vpages s)(p \<mapsto> h)) = dom (vpages s)" using assms(2) by auto
  moreover have "cowof ((vpages s)(p \<mapsto> h)) = (cowof (vpages s))(p := None)" using assms(4) by (simp add: cowof_upd)
  moreover have "shared_ok ((vpages s)(p \<mapsto> h))" by (rule shared_ok_put [OF D(5) assms(7)])
  ultimately show ?thesis using D assms(3,5,6,8,9) by (auto simp: vm_inv_def)
qed

lemma view_put:
  assumes "vpages s p = Some g" "\<And>q x. vpages s q = Some x \<Longrightarrow> q \<noteq> p \<Longrightarrow> ppresent x \<Longrightarrow> m (pframe x) = fmem s (pframe x)"
  shows "view (s\<lparr>ctab := t, vpages := (vpages s)(p \<mapsto> h), fmem := m, inuse := u\<rparr>) =
    (view s)(p := if ppresent h then Some (m (pframe h)) else None)"
  using assms by (auto simp: view_def fun_eq_iff split: option.splits)

lemma cow_fault_inv:
  assumes inv: "vm_inv s" and g: "vpages s p = Some g" "pcow g" and n: "\<not> inuse s new"
  shows "\<exists>s' h. vm_doPagefault dl si new s p wr = Some (0, s') \<and> vm_inv s' \<and> view s' = view s \<and>
    vpages s' p = Some h \<and> ppresent h \<and> pwritable h \<and> \<not> pcow h \<and> prw h = prw g \<and> dom (vpages s') = dom (vpages s)"
proof -
  note D = vm_invD [OF inv]
  note ok = D(6) [OF g(1)]
  have pr: "ppresent g" "\<not> pdemand g" "\<not> pswapped g" using ok g(2) by (auto simp: page_ok_def)
  let ?f = "pframe g" and ?i = "pframe g mod COW_HEAP_SIZE"
  from cow_dec_ok [OF D(3) cow_shared(1,2) [OF inv g]] obtain e l where
    l: "getByFrame (ctab s ?i) ?f True = Some (e, l)" "cowRefs e = cow_refs (ctab s) ?f - 1" "cow_ok ((ctab s)(?i := l))"
       "cow_refs ((ctab s)(?i := l)) = (cow_refs (ctab s))(?f := cow_refs (ctab s) ?f - 1)" by blast
  have c: "cowof (vpages s) p = Some ?f" using g by (simp add: cowof_def)
  have u: "cow_refs ((ctab s)(?i := l)) = users ((cowof (vpages s))(p := None))"
    using l(4) users_del [OF cowof_dom [OF D(1)] c] D(4) by simp
  show ?thesis
  proof (cases "cowRefs e = 0")
    case True
    let ?h = "g\<lparr>ppresent := True, pwritable := True, pcow := False\<rparr>"
    let ?s = "s\<lparr>ctab := (ctab s)(?i := l), vpages := (vpages s)(p \<mapsto> ?h), fmem := fmem s, inuse := inuse s\<rparr>"
    have "vm_doPagefault dl si new s p wr = Some (0, ?s)"
      using g pr l(1) True by (simp add: vm_doPagefault_def cow_pagefault_def Let_def)
    moreover have "vm_inv ?s"
    proof (rule vm_inv_put [OF inv g(1) _ _ l(3) u])
      show "page_ok ?h" using ok pr by (simp add: page_ok_def)
      show "pframe x \<noteq> pframe ?h" if "vpages s q = Some x" "q \<noteq> p" "ppresent x" "ppresent ?h" for q x
        using cow_shared(3) [OF inv g that(1-3)] l(2) True by auto
    qed (use D(7) [OF g(1) pr(1)] in auto)
    moreover have "view ?s = view s" using g pr by (subst view_put [OF g(1)]) (auto simp: view_def)
    ultimately show ?thesis using pr g(1) by (intro exI [of _ ?s] exI [of _ ?h]) auto
  next
    case False
    let ?h = "g\<lparr>pframe := new, ppresent := True, pwritable := True, pcow := False\<rparr>"
    let ?s = "s\<lparr>ctab := (ctab s)(?i := l), vpages := (vpages s)(p \<mapsto> ?h), fmem := (fmem s)(new := fmem s ?f), inuse := (inuse s)(new := True)\<rparr>"
    have fresh: "pframe x \<noteq> new" if "vpages s q = Some x" "ppresent x" for q x using D(7) [OF that] n by auto
    have "vm_doPagefault dl si new s p wr = Some (0, ?s)"
      using g pr l(1) False by (simp add: vm_doPagefault_def cow_pagefault_def Let_def)
    moreover have "vm_inv ?s"
    proof (rule vm_inv_put [OF inv g(1) _ _ l(3) u])
      show "page_ok ?h" using ok pr by (simp add: page_ok_def)
    qed (use fresh in auto)
    moreover have "view ?s = view s" using g pr fresh by (subst view_put [OF g(1)]) (auto simp: view_def)
    ultimately show ?thesis using pr g(1) by (intro exI [of _ ?s] exI [of _ ?h]) auto
  qed
qed

section \<open>Cloning\<close>

lemma shared_ok_fork:
  assumes "shared_ok v" "v p = Some g" "ppresent g" "v c = None" "pcow h" "pframe h = pframe g"
  shows "shared_ok (v(p \<mapsto> h, c \<mapsto> h))"
  unfolding shared_ok_def
proof (intro allI impI, elim conjE)
  fix a x b y
  assume *: "(v(p \<mapsto> h, c \<mapsto> h)) a = Some x" "(v(p \<mapsto> h, c \<mapsto> h)) b = Some y" "a \<noteq> b" "ppresent x" "ppresent y" "pframe x = pframe y"
  show "pcow x"
  proof (cases "a = p \<or> a = c")
    case True
    with *(1) assms(5) show ?thesis by (auto split: if_splits)
  next
    case False
    then have x: "v a = Some x" using *(1) by auto
    have "\<exists>q y'. v q = Some y' \<and> q \<noteq> a \<and> ppresent y' \<and> pframe y' = pframe x"
    proof (cases "b = p \<or> b = c")
      case True
      then have "y = h" using *(2) by (auto split: if_splits)
      then show ?thesis using assms(2,3,6) *(6) False by (intro exI [of _ p] exI [of _ g]) auto
    next
      case b: False
      then show ?thesis using *(2,3,5,6) by (intro exI [of _ b] exI [of _ y]) auto
    qed
    then show ?thesis using shared_okD [OF assms(1) x _ _ *(4)] by metis
  qed
qed

text \<open>What a successful clone does with one page.\<close>

definition forked :: "cowvm \<Rightarrow> nat \<times> nat \<Rightarrow> cowvm \<Rightarrow> bool" where
  "forked s x s' \<longleftrightarrow> (\<exists>s1. pt_clone_page s x = Some s1 \<and> mark_page (True, True) s1 x = Some (True, s'))"

lemma fork_page_inv:
  assumes inv: "vm_inv s" and g: "vpages s p = Some g" "vpages s c = None" and few: "card (dom (vpages s)) + 1 < 2 ^ 32"
  shows "\<exists>s'. forked s (p, c) s' \<and> vm_inv s' \<and> view s' = (view s)(c := view s p) \<and> dom (vpages s') = insert c (dom (vpages s))"
proof -
  note D = vm_invD [OF inv]
  note ok = D(6) [OF g(1)]
  have pc: "p \<noteq> c" using g by auto
  have dom: "dom ((vpages s)(p \<mapsto> x, c \<mapsto> y)) = insert c (dom (vpages s))" for x y using g by auto
  have card: "finite (dom ((vpages s)(p \<mapsto> x, c \<mapsto> y)))" "card (dom ((vpages s)(p \<mapsto> x, c \<mapsto> y))) < 2 ^ 32" for x y
    unfolding dom using D(1) few g(2) by (simp_all add: domIff)
  show ?thesis
  proof (cases "ppresent g")
    case False
    then have de: "pdemand g" "\<not> pcow g" using ok by (auto simp: page_ok_def)
    let ?s = "s\<lparr>vpages := (vpages s)(p \<mapsto> g, c \<mapsto> g)\<rparr>"
    have "forked s (p, c) ?s" using g pc False de by (simp add: forked_def Let_def fun_upd_twist [of p c])
    moreover have "vm_inv ?s"
    proof -
      have "cowof ((vpages s)(p \<mapsto> g, c \<mapsto> g)) = cowof (vpages s)" using de g by (auto simp: cowof_def)
      moreover have "shared_ok ((vpages s)(p \<mapsto> g, c \<mapsto> g))" using False D(5) by (intro shared_ok_put) simp_all
      ultimately show ?thesis using D ok False g card [of g g] unfolding vm_inv_def by simp
    qed
    moreover have "view ?s = (view s)(c := view s p)" using g False by (auto simp: view_def fun_eq_iff split: option.splits)
    ultimately show ?thesis using dom [of g g] by (intro exI [of _ ?s]) simp
  next
    case True
    then have de: "\<not> pdemand g" "\<not> pswapped g" using ok by (auto simp: page_ok_def)
    let ?h = "g\<lparr>pwritable := False, pcow := True\<rparr>" and ?f = "pframe g"
    let ?v = "(vpages s)(p \<mapsto> ?h, c \<mapsto> ?h)"
    have co: "cowof ?v = (cowof (vpages s))(p \<mapsto> ?f, c \<mapsto> ?f)" by (simp add: cowof_upd)
    have fin: "finite (dom (cowof (vpages s)))" by (rule cowof_dom [OF D(1)])
    have cn: "((cowof (vpages s))(p \<mapsto> ?f)) c = None" using g pc by (simp add: cowof_def)
    have u: "users (cowof ?v) = (users ((cowof (vpages s))(p \<mapsto> ?f)))(?f := users ((cowof (vpages s))(p \<mapsto> ?f)) ?f + 1)"
      unfolding co by (rule users_new [of "(cowof (vpages s))(p \<mapsto> ?f)", OF _ cn]) (use fin in simp)
    have le: "users (cowof ?v) ?f < 2 ^ 32" using cowof_few [OF card(1), of ?h ?h ?f] card(2) [of ?h ?h] by simp
    have "\<exists>t1. (if pcow g then (True, ctab s) else cow_add True (ctab s) ?f) = (True, t1) \<and> cow_ok t1 \<and> cow_refs t1 = users ((cowof (vpages s))(p \<mapsto> ?f))"
    proof (cases "pcow g")
      case True
      then have "(cowof (vpages s))(p \<mapsto> ?f) = cowof (vpages s)" using g by (auto simp: cowof_def fun_eq_iff)
      then show ?thesis using True D(3,4) by simp
    next
      case False
      then have n: "cowof (vpages s) p = None" using g by (simp add: cowof_def)
      note u1 = users_new [OF fin n, of ?f]
      have "cow_refs (ctab s) ?f + 1 < 2 ^ 32" using le u u1 D(4) by simp
      from cow_add_ok [OF D(3) this] show ?thesis using False u1 D(4) by auto
    qed
    then obtain t1 where t1: "(if pcow g then (True, ctab s) else cow_add True (ctab s) ?f) = (True, t1)" "cow_ok t1"
      "cow_refs t1 = users ((cowof (vpages s))(p \<mapsto> ?f))" by blast
    have "cow_refs t1 ?f + 1 < 2 ^ 32" using le u t1(3) by simp
    from cow_add_ok [OF t1(2) this] obtain t2 where t2: "cow_add True t1 ?f = (True, t2)" "cow_ok t2" "cow_refs t2 = users (cowof ?v)"
      using u t1(3) by auto
    let ?s = "s\<lparr>ctab := t2, vpages := ?v\<rparr>"
    have "forked s (p, c) ?s"
      using g pc True de t1(1) t2(1) by (simp add: forked_def Let_def fun_upd_twist [of p c] split: if_splits)
    moreover have "vm_inv ?s"
    proof -
      have "shared_ok ?v" using D(5) g True by (intro shared_ok_fork) simp_all
      moreover have "page_ok ?h" using ok True by (simp add: page_ok_def)
      ultimately show ?thesis using D(6,7) g True t2 card [of ?h ?h] unfolding vm_inv_def by simp
    qed
    moreover have "view ?s = (view s)(c := view s p)" using g True by (auto simp: view_def fun_eq_iff split: option.splits)
    ultimately show ?thesis using dom [of ?h ?h] by (intro exI [of _ ?s]) simp
  qed
qed

text \<open>The clone copies all entries of the page table first. Copying an entry does not depend on whether another page is marked.\<close>

abbreviation pages_of :: "nat \<times> nat \<Rightarrow> nat set" where "pages_of x \<equiv> {fst x, snd x}"

lemma mark_page_vpages:
  assumes "mark_page n s x = Some (True, s')" "q \<notin> pages_of x"
  shows "vpages s' q = vpages s q"
  using assms by (cases x; cases n) (auto simp: Let_def split: bind_splits if_splits prod.splits)

lemma clone_before_mark:
  assumes "mark_page n s x = Some (True, s2)" "pt_clone_page s2 y = Some s3" "pages_of x \<inter> pages_of y = {}"
  shows "\<exists>s1. pt_clone_page s y = Some s1 \<and> mark_page n s1 x = Some (True, s3)"
proof -
  obtain p c where x: "x = (p, c)" by (cases x)
  obtain p' c' where y: "y = (p', c')" by (cases y)
  obtain n1 n2 where n: "n = (n1, n2)" by (cases n)
  have d: "p \<noteq> p'" "p \<noteq> c'" "c \<noteq> p'" "c \<noteq> c'" using assms(3) x y by auto
  from assms(1) obtain g h where g: "vpages s p = Some g" "vpages s c = Some h" unfolding x n by (auto split: bind_splits)
  from mark_page_vpages [OF assms(1), of p'] have "vpages s2 p' = vpages s p'" using d x by auto
  with assms(2) obtain k where k: "vpages s p' = Some k" "vpages s2 p' = Some k" unfolding y by (auto split: bind_splits)
  define h' where "h' = (if ppresent k then k\<lparr>pwritable := False\<rparr> else k)"
  have 1: "pt_clone_page s y = Some (s\<lparr>vpages := (vpages s)(c' \<mapsto> h', p' \<mapsto> h')\<rparr>)" using k by (simp add: y Let_def h'_def)
  have s3: "s3 = s2\<lparr>vpages := (vpages s2)(c' \<mapsto> h', p' \<mapsto> h')\<rparr>" using assms(2) k(2) by (simp add: y Let_def h'_def)
  have tw: "v(p \<mapsto> a, c \<mapsto> b, c' \<mapsto> h', p' \<mapsto> h') = v(c' \<mapsto> h', p' \<mapsto> h', p \<mapsto> a, c \<mapsto> b)" for v :: "nat \<rightharpoonup> vpage" and a b
    using d by (auto simp: fun_eq_iff)
  have 2: "mark_page n (s\<lparr>vpages := (vpages s)(c' \<mapsto> h', p' \<mapsto> h')\<rparr>) x = Some (True, s3)"
    using assms(1) g d unfolding x n s3
    by (auto simp: Let_def tw split: if_splits prod.splits bind_splits)
  from 1 2 show ?thesis by blast
qed

lemma clone_all_before_mark:
  assumes "mark_page n s x = Some (True, s2)" "pt_clone s2 ys = Some s3" "\<And>y. y \<in> set ys \<Longrightarrow> pages_of x \<inter> pages_of y = {}"
  shows "\<exists>s1. pt_clone s ys = Some s1 \<and> mark_page n s1 x = Some (True, s3)"
  using assms
proof (induction ys arbitrary: s s2)
  case (Cons y ys)
  from Cons.prems(2) obtain s4 where s4: "pt_clone_page s2 y = Some s4" "pt_clone s4 ys = Some s3" by (auto split: bind_splits)
  from clone_before_mark [OF Cons.prems(1) s4(1)] Cons.prems(3) obtain s1 where
    s1: "pt_clone_page s y = Some s1" "mark_page n s1 x = Some (True, s4)" by auto
  from Cons.IH [OF s1(2) s4(2)] Cons.prems(3) s1(1) show ?case by auto
qed auto

definition fork_view :: "(nat \<times> nat) list \<Rightarrow> (nat \<rightharpoonup> nat) \<Rightarrow> nat \<rightharpoonup> nat" where
  "fork_view prs m q = (case map_of (map (\<lambda>(p, c). (c, p)) prs) q of None \<Rightarrow> m q | Some p \<Rightarrow> m p)"

definition can_fork :: "cowvm \<Rightarrow> (nat \<times> nat) list \<Rightarrow> bool" where
  "can_fork s prs \<longleftrightarrow> distinct (map fst prs) \<and> distinct (map snd prs) \<and> fst ` set prs \<subseteq> dom (vpages s) \<and>
     snd ` set prs \<inter> dom (vpages s) = {} \<and> card (dom (vpages s)) + length prs < 2 ^ 32"

lemma fork_pages_inv:
  assumes "vm_inv s" "can_fork s prs"
  shows "\<exists>s1 s'. pt_clone s prs = Some s1 \<and> (\<forall>m. mark_pages (\<lambda>_. (True, True)) m s1 prs = Some (True, s')) \<and> vm_inv s' \<and>
    view s' = fork_view prs (view s) \<and> dom (vpages s') = dom (vpages s) \<union> snd ` set prs"
  using assms
proof (induction prs arbitrary: s)
  case Nil
  then show ?case by (auto simp: fork_view_def fun_eq_iff)
next
  case (Cons x prs)
  obtain p c where x: "x = (p, c)" by (cases x)
  from Cons.prems(2) have f: "p \<in> dom (vpages s)" "c \<notin> dom (vpages s)" "card (dom (vpages s)) + 1 < 2 ^ 32" by (auto simp: can_fork_def x)
  then obtain g where g: "vpages s p = Some g" "vpages s c = None" by auto
  from fork_page_inv [OF Cons.prems(1) g f(3)] obtain s0 where s0: "forked s (p, c) s0" "vm_inv s0"
    "view s0 = (view s)(c := view s p)" "dom (vpages s0) = insert c (dom (vpages s))" by blast
  from s0(1) obtain sa where sa: "pt_clone_page s x = Some sa" "mark_page (True, True) sa x = Some (True, s0)" by (auto simp: forked_def x)
  have "finite (dom (vpages s))" using Cons.prems(1) by (rule vm_invD)
  then have "can_fork s0 prs" using Cons.prems(2) f(2) unfolding can_fork_def s0(4) by (auto simp: x)
  from Cons.IH [OF s0(2) this] obtain s1 s' where s1: "pt_clone s0 prs = Some s1" "\<forall>m. mark_pages (\<lambda>_. (True, True)) m s1 prs = Some (True, s')"
    "vm_inv s'" "view s' = fork_view prs (view s0)" "dom (vpages s') = dom (vpages s0) \<union> snd ` set prs" by blast
  have cp: "c \<notin> fst ` set prs" "c \<notin> snd ` set prs" "p \<notin> fst ` set prs" "p \<notin> snd ` set prs"
    using Cons.prems(2) f(1,2) by (auto simp: can_fork_def x)
  have "pages_of x \<inter> pages_of y = {}" if "y \<in> set prs" for y using cp that unfolding x by (auto simp: image_iff)
  from clone_all_before_mark [OF sa(2) s1(1) this] obtain sb where sb: "pt_clone sa prs = Some sb" "mark_page (True, True) sb x = Some (True, s1)" by blast
  have "view s' = fork_view (x # prs) (view s)"
  proof
    fix q
    have "r \<noteq> c" if "map_of (map (\<lambda>(p, c). (c, p)) prs) q = Some r" for r
      using map_of_SomeD [OF that] cp(1) by (auto simp: rev_image_eqI)
    moreover have "map_of (map (\<lambda>(p, c). (c, p)) prs) c = None" using cp(2) by (auto simp: map_of_eq_None_iff rev_image_eqI)
    ultimately show "view s' q = fork_view (x # prs) (view s) q" unfolding s1(4) s0(3)
      by (auto simp: fork_view_def x split: option.splits)
  qed
  with s1(2,3,5) sa(1) sb s0(4) show ?case by (intro exI [of _ sb] exI [of _ s']) (auto simp: x)
qed

lemma vm_clone_inv:
  assumes "vm_inv s" "can_fork s prs"
  shows "\<exists>s'. vm_clone (\<lambda>_. (True, True)) s prs = Some (True, s') \<and> vm_inv s' \<and> view s' = fork_view prs (view s) \<and>
    dom (vpages s') = dom (vpages s) \<union> snd ` set prs"
  using fork_pages_inv [OF assms] by (auto simp: vm_clone_def)

section \<open>Runs\<close>

lemma vm_unmap_inv:
  assumes inv: "vm_inv s" and g: "vpages s p = Some g"
  shows "\<exists>s'. vm_unmap_page False s p = Some s' \<and> vm_inv s' \<and> view s' = (view s)(p := None)"
proof -
  note D = vm_invD [OF inv]
  have d: "dom ((vpages s)(p := None)) = dom (vpages s) - {p}" by auto
  have fin: "finite (dom ((vpages s)(p := None)))" "card (dom ((vpages s)(p := None))) < 2 ^ 32"
    unfolding d using D(1,2) card_Diff1_le [of "dom (vpages s)" p] by auto
  have vw: "view (s\<lparr>ctab := t, vpages := (vpages s)(p := None), inuse := u\<rparr>) = (view s)(p := None)" for t u
    by (auto simp: view_def fun_eq_iff split: option.splits)
  show ?thesis
  proof (cases "pcow g")
    case True
    from cow_remove_ok [OF D(3) cow_shared(1,2) [OF inv g True]] obtain t where t: "cow_remove (ctab s) (pframe g) = Some (1 < cow_refs (ctab s) (pframe g), t)"
      "cow_ok t" "cow_refs t = (cow_refs (ctab s))(pframe g := cow_refs (ctab s) (pframe g) - 1)" by blast
    have "cowof (vpages s) p = Some (pframe g)" using g True by (simp add: cowof_def)
    from users_del [OF cowof_dom [OF D(1)] this] have "cow_refs t = users (cowof ((vpages s)(p := None)))" using t(3) D(4) by (simp add: cowof_upd)
    then have "vm_inv (s\<lparr>ctab := t, vpages := (vpages s)(p := None), inuse := inuse s\<rparr>)"
      using t(2) D(6,7) fin shared_ok_del [OF D(5)] unfolding vm_inv_def by auto
    then show ?thesis using g True t(1) vw [of "inuse s" t] by (auto simp: vm_unmap_page_def)
  next
    case False
    let ?u = "if \<not> pswapped g \<and> \<not> pdemand g then (inuse s)(pframe g := False) else inuse s"
    define u where "u = ?u"
    have u: "u (pframe x)" if x: "vpages s q = Some x" "q \<noteq> p" "ppresent x" for q x
    proof (cases "ppresent g \<and> pframe g = pframe x")
      case True
      with shared_okD [OF D(5) g x(1)] x(2,3) have "pcow g" by metis
      with False show ?thesis by simp
    next
      case c: False
      then show ?thesis using D(7) [OF x(1,3)] D(6) [OF g] by (auto simp: page_ok_def u_def)
    qed
    have "cowof ((vpages s)(p := None)) = cowof (vpages s)" using g False by (auto simp: cowof_def)
    then have "vm_inv (s\<lparr>ctab := ctab s, vpages := (vpages s)(p := None), inuse := u\<rparr>)"
      using D(3,4,6) fin u shared_ok_del [OF D(5), of p] unfolding vm_inv_def by auto
    then show ?thesis using g False vw [of u "ctab s"] by (auto simp: vm_unmap_page_def u_def)
  qed
qed

lemma vm_write_inv:
  assumes inv: "vm_inv s" and g: "vpages s p = Some g" "ppresent g" "pwritable g"
  shows "vm_inv (s\<lparr>fmem := (fmem s)(pframe g := v)\<rparr>) \<and> view (s\<lparr>fmem := (fmem s)(pframe g := v)\<rparr>) = (view s)(p \<mapsto> v)"
proof -
  have n: "\<not> pcow g" using vm_invD(6) [OF inv g(1)] g(3) by (auto simp: page_ok_def)
  have "pframe x \<noteq> pframe g" if "vpages s q = Some x" "q \<noteq> p" "ppresent x" for q x
    using shared_okD [OF vm_invD(5) [OF inv] g(1) that(1)] that(2,3) g(2) n by metis
  then show ?thesis using inv g by (auto simp: vm_inv_def view_def fun_eq_iff split: option.splits)
qed

lemma vm_store_inv:
  assumes inv: "vm_inv s" and g: "vpages s p = Some g" "ppresent g" "pcow g \<or> pwritable g" and n: "\<not> inuse s new"
  shows "\<exists>s'. vm_store new s p v = Some s' \<and> vm_inv s' \<and> view s' = (view s)(p \<mapsto> v)"
proof (cases "pwritable g")
  case True
  then show ?thesis using vm_write_inv [OF inv g(1,2) True, of v] g by (simp add: vm_store_def)
next
  case False
  with g(3) have c: "pcow g" by simp
  from cow_fault_inv [OF inv g(1) c n] obtain s1 h where s1:
    "vm_doPagefault (\<lambda>s _. (- ENOMEM, s)) (\<lambda>s _. (- ENOMEM, s)) new s p True = Some (0, s1)" "vm_inv s1" "view s1 = view s"
    "vpages s1 p = Some h" "ppresent h" "pwritable h" by blast
  from vm_write_inv [OF s1(2,4,5,6), of v] show ?thesis using g False s1 by (simp add: vm_store_def)
qed

lemma vm_store_stuck:
  assumes "vm_inv s" "vpages s p = Some g" "vm_store new s p v = Some s'"
  shows "ppresent g \<and> (pcow g \<or> pwritable g)"
  using assms vm_invD(6) [OF assms(1,2)]
  by (auto simp: vm_store_def vm_doPagefault_def page_ok_def split: if_splits bind_splits)

text \<open>A successful \<open>demandLoad\<close> maps a new frame with the content \<open>v\<close>, writable if the region is.\<close>

definition demand_load :: "nat \<Rightarrow> nat \<Rightarrow> cowvm \<Rightarrow> nat \<Rightarrow> int \<times> cowvm" where
  "demand_load f v s p = (0, s\<lparr>vpages := (vpages s)(p := map_option (\<lambda>g. g\<lparr>pframe := f, ppresent := True, pwritable := prw g\<rparr>) (vpages s p)),
     fmem := (fmem s)(f := v), inuse := (inuse s)(f := True)\<rparr>)"

lemma demand_load_inv:
  assumes inv: "vm_inv s" and g: "vpages s p = Some g" "pdemand g" and f: "\<not> inuse s f"
    and st: "vm_doPagefault (demand_load f v) si new s p wr = Some (r, s')"
  shows "vm_inv s' \<and> view s' = (view s)(p \<mapsto> v) \<and> view s p = None"
proof -
  note D = vm_invD [OF inv]
  note ok = D(6) [OF g(1)]
  have n: "\<not> ppresent g" "\<not> pcow g" "\<not> pswapped g" using ok g(2) by (auto simp: page_ok_def)
  let ?h = "g\<lparr>pframe := f, ppresent := True, pwritable := prw g, pdemand := False\<rparr>"
  have s': "s' = s\<lparr>ctab := ctab s, vpages := (vpages s)(p \<mapsto> ?h), fmem := (fmem s)(f := v), inuse := (inuse s)(f := True)\<rparr>"
    using st g by (auto simp: vm_doPagefault_def demand_load_def)
  have fresh: "pframe x \<noteq> f" if "vpages s q = Some x" "ppresent x" for q x using D(7) [OF that] f by auto
  have "cowof (vpages s) p = None" using g n by (simp add: cowof_def)
  then have "cow_refs (ctab s) = users ((cowof (vpages s))(p := None))" using D(4) by (simp add: users_none)
  then have "vm_inv s'" unfolding s' using D(3) n fresh by (intro vm_inv_put [OF inv g(1)]) (auto simp: page_ok_def)
  moreover have "view s' = (view s)(p \<mapsto> v)" unfolding s' using fresh by (subst view_put [OF g(1)]) auto
  ultimately show ?thesis using g n by (simp add: view_def)
qed

text \<open>
  What processes do with their private pages, with the operation as the label: reserve a page, load it with the content
  \<open>v\<close> on demand, handle a fault of a page under copy-on-write, write \<open>v\<close> to a page, which may fault, clone pages
  for a new process, or unmap a page. The runs have less than \<open>2 ^ 32\<close> pages and no clone that fails for lack of memory
  for an entry of the table, no region that shrinks and no page that is swapped out: see the section on flaws for the first two.
\<close>

datatype vm_op = Reserve nat bool | Load nat nat | Fault nat | Store nat nat | Clone "(nat \<times> nat) list" | Unmap nat

inductive vm_step :: "vm_op \<Rightarrow> cowvm \<Rightarrow> cowvm \<Rightarrow> bool" where
  vs_reserve: "vpages s p = None \<Longrightarrow> card (dom (vpages s)) + 1 < 2 ^ 32 \<Longrightarrow>
    vm_step (Reserve p rw) s
      (s\<lparr>vpages := (vpages s)(p \<mapsto> \<lparr>pframe = 0, ppresent = False, pwritable = False, pcow = False, pdemand = True, pswapped = False, prw = rw\<rparr>)\<rparr>)"
| vs_load: "vpages s p = Some g \<Longrightarrow> pdemand g \<Longrightarrow> \<not> inuse s f \<Longrightarrow>
    vm_doPagefault (demand_load f v) si new s p wr = Some (r, s') \<Longrightarrow> vm_step (Load p v) s s'"
| vs_fault: "vpages s p = Some g \<Longrightarrow> pcow g \<Longrightarrow> \<not> inuse s new \<Longrightarrow>
    vm_doPagefault dl si new s p wr = Some (r, s') \<Longrightarrow> vm_step (Fault p) s s'"
| vs_store: "\<not> inuse s new \<Longrightarrow> vm_store new s p v = Some s' \<Longrightarrow> vm_step (Store p v) s s'"
| vs_clone: "can_fork s prs \<Longrightarrow> vm_clone (\<lambda>_. (True, True)) s prs = Some (r, s') \<Longrightarrow> vm_step (Clone prs) s s'"
| vs_unmap: "vm_unmap_page False s p = Some s' \<Longrightarrow> vm_step (Unmap p) s s'"

text \<open>The specification, without frames: every page has a content of its own, or none. Only loading and writing a page
  change its content, a clone copies the contents of the pages, and no operation changes another page.\<close>

fun mem_spec :: "vm_op \<Rightarrow> (nat \<rightharpoonup> nat) \<Rightarrow> (nat \<rightharpoonup> nat)" where
  "mem_spec (Reserve p rw) m = m"
| "mem_spec (Load p v) m = m(p \<mapsto> v)"
| "mem_spec (Fault p) m = m"
| "mem_spec (Store p v) m = m(p \<mapsto> v)"
| "mem_spec (Clone prs) m = fork_view prs m"
| "mem_spec (Unmap p) m = m(p := None)"

definition vm_empty :: cowvm where
  "vm_empty = \<lparr>ctab = \<lambda>_. [], vpages = Map.empty, fmem = \<lambda>_. 0, inuse = \<lambda>_. False\<rparr>"

lemma vm_step_inv: "vm_step l s s' \<Longrightarrow> vm_inv s \<Longrightarrow> vm_inv s' \<and> view s' = mem_spec l (view s)"
proof (induction rule: vm_step.induct)
  case (vs_reserve s p rw)
  note D = vm_invD [OF vs_reserve(3)]
  let ?g = "\<lparr>pframe = 0, ppresent = False, pwritable = False, pcow = False, pdemand = True, pswapped = False, prw = rw\<rparr>"
  have "cowof ((vpages s)(p \<mapsto> ?g)) = cowof (vpages s)" using vs_reserve(1) by (auto simp: cowof_def)
  moreover have "shared_ok ((vpages s)(p \<mapsto> ?g))" using D(5) by (rule shared_ok_put) simp
  ultimately have "vm_inv (s\<lparr>vpages := (vpages s)(p \<mapsto> ?g)\<rparr>)"
    using D(1,3,4,6,7) vs_reserve(1,2) unfolding vm_inv_def by (auto simp: card_insert_if domIff page_ok_def)
  moreover have "view (s\<lparr>vpages := (vpages s)(p \<mapsto> ?g)\<rparr>) = view s" using vs_reserve(1) by (auto simp: view_def fun_eq_iff split: option.splits)
  ultimately show ?case by simp
next
  case (vs_load s p g f v si new wr r s')
  from demand_load_inv [OF vs_load(5,1,2,3,4)] show ?case by simp
next
  case (vs_fault s p g new dl si wr r s')
  from cow_fault_inv [OF vs_fault(5,1,2,3), of dl si wr] vs_fault(4) show ?case by auto
next
  case (vs_store s new p v s')
  then obtain g where g: "vpages s p = Some g" by (auto simp: vm_store_def split: bind_splits)
  with vm_store_stuck [OF vs_store(3) g vs_store(2)] have p: "ppresent g" "pcow g \<or> pwritable g" by auto
  from vm_store_inv [OF vs_store(3) g p vs_store(1), of v] vs_store(2) show ?case by auto
next
  case (vs_clone s prs r s')
  from vm_clone_inv [OF vs_clone(3,1)] vs_clone(2) show ?case by auto
next
  case (vs_unmap s p s')
  then obtain g where "vpages s p = Some g" by (auto simp: vm_unmap_page_def split: bind_splits)
  from vm_unmap_inv [OF vs_unmap(2) this] vs_unmap(1) show ?case by auto
qed

lemma vm_empty_inv: "vm_inv vm_empty"
  by (simp add: vm_inv_def vm_empty_def cow_ok_def shared_ok_def cow_refs_def users_def cowof_def fun_eq_iff)

interpretation cow_runs: functional_refinement vm_step "\<lambda>s. s = vm_empty" vm_inv mem_spec view
  by unfold_locales (use vm_empty_inv vm_step_inv in auto)

section \<open>Properties\<close>

text \<open>C10: Copy-on-write is invisible: after any sequence of reserving, loading, cloning, writing and unmapping private pages and
  of their faults, every page of every process shows exactly the content that this sequence gives when each page has a memory of its
  own: a write or load changes the page it is for and no other one, a clone copies the contents, and faults and reservations change
  nothing. This holds for runs in which no clone fails for lack of memory, no region shrinks, no page is swapped out and there are less
  than \<open>2 ^ 32\<close> pages.\<close>

theorem cow_isolation:
  assumes "lrun vm_step vm_empty ops s"
  shows "view s = fold mem_spec ops Map.empty"
proof -
  have "view vm_empty = Map.empty" by (simp add: view_def vm_empty_def fun_eq_iff)
  with cow_runs.computes [OF assms] show ?thesis by simp
qed

definition demo_page :: vpage where
  "demo_page = \<lparr>pframe = 5, ppresent = True, pwritable = True, pcow = False, pdemand = False, pswapped = False, prw = True\<rparr>"

definition demo_vm :: cowvm where
  "demo_vm = vm_empty\<lparr>vpages := [1 \<mapsto> demo_page],
     fmem := (\<lambda>_. 0)(5 := 7), inuse := (\<lambda>_. False)(5 := True)\<rparr>"

lemma demo_vm_reach: "lrun vm_step vm_empty [Reserve 1 True, Load 1 7] demo_vm"
proof -
  let ?g = "\<lparr>pframe = 0, ppresent = False, pwritable = False, pcow = False, pdemand = True, pswapped = False, prw = True\<rparr>"
  let ?s = "vm_empty\<lparr>vpages := [1 \<mapsto> ?g]\<rparr>"
  have 1: "vm_step (Reserve 1 True) vm_empty ?s" using vs_reserve [of vm_empty 1 True] by (simp add: vm_empty_def)
  have "vm_doPagefault (demand_load 5 7) (\<lambda>s _. (0, s)) 0 ?s 1 False = Some (0, demo_vm)"
    by (simp add: vm_doPagefault_def demand_load_def demo_vm_def demo_page_def vm_empty_def)
  then have "vm_step (Load 1 7) ?s demo_vm" by (rule vs_load [where g = ?g, rotated 3]) (simp_all add: vm_empty_def)
  from lrun_snoc [of vm_step, OF lrun_one [of vm_step, OF 1] this] show ?thesis by simp
qed

lemma demo_vm_view: "view demo_vm 1 = Some 7"
  by (simp add: view_def demo_vm_def demo_page_def vm_empty_def)

text \<open>The page of \<open>demo_vm\<close> is cloned, and then the parent writes it.\<close>

lemma demo_vm_cloned:
  "\<exists>s. lrun vm_step vm_empty [Reserve 1 True, Load 1 7, Clone [(1, 2)], Store 1 8] s"
proof -
  have f: "can_fork demo_vm [(1, 2)]" by (simp add: can_fork_def demo_vm_def vm_empty_def)
  have inv: "vm_inv demo_vm" by (rule cow_runs.reachable [OF demo_vm_reach]) simp
  let ?h = "demo_page\<lparr>pwritable := False, pcow := True\<rparr>"
  obtain t where t: "vm_clone (\<lambda>_. (True, True)) demo_vm [(1, 2)] = Some (True, demo_vm\<lparr>ctab := t, vpages := [1 \<mapsto> ?h, 2 \<mapsto> ?h]\<rparr>)" (is "_ = Some (_, ?c)")
    by (simp add: vm_clone_def demo_vm_def demo_page_def vm_empty_def cow_add_def Let_def fun_upd_twist)
  have c: "vm_step (Clone [(1, 2)]) demo_vm ?c" by (rule vs_clone [OF f t])
  with inv vm_step_inv have "vm_inv ?c" by blast
  then obtain s where "vm_store 9 ?c 1 8 = Some s"
    using vm_store_inv [of ?c 1 ?h 9 8] by (auto simp: demo_vm_def demo_page_def vm_empty_def)
  then have "vm_step (Store 1 8) ?c s" by (intro vs_store) (simp_all add: demo_vm_def vm_empty_def)
  from lrun_snoc [of vm_step, OF lrun_snoc [of vm_step, OF demo_vm_reach c] this] show ?thesis by auto
qed

theorem cow_isolation_witness:
  "\<exists>s. lrun vm_step vm_empty [Reserve 1 True, Load 1 7, Clone [(1, 2)], Store 1 8] s \<and> view s = [2 \<mapsto> 7, 1 \<mapsto> 8]"
proof -
  obtain s where s: "lrun vm_step vm_empty [Reserve 1 True, Load 1 7, Clone [(1, 2)], Store 1 8] s" using demo_vm_cloned by blast
  from cow_isolation [OF s] have "view s = [2 \<mapsto> 7, 1 \<mapsto> 8]" by (auto simp: fork_view_def fun_eq_iff)
  with s show ?thesis by blast
qed

text \<open>C11: In every state of such a run (no failed clone, no shrinking of a region, no swapping), a write to a present page of a
  writable region succeeds, after at most one fault, if a free frame is there for the copy: the page has the new content, and no other
  page of any process has changed.\<close>

theorem cow_store_private:
  assumes "lrun vm_step vm_empty ops s" "vpages s p = Some g" "ppresent g" "prw g" "\<not> inuse s new"
  shows "\<exists>s'. vm_store new s p v = Some s' \<and> view s' = (view s)(p \<mapsto> v)"
proof -
  have inv: "vm_inv s" using assms(1) by (rule cow_runs.reachable) simp
  have "pcow g \<or> pwritable g" using vm_invD(6) [OF inv assms(2)] assms(3,4) by (auto simp: page_ok_def)
  from vm_store_inv [OF inv assms(2,3) this assms(5)] show ?thesis by blast
qed

theorem cow_store_private_witness: "\<exists>s'. vm_store 9 demo_vm 1 8 = Some s' \<and> view s' = (view demo_vm)(1 \<mapsto> 8)"
  by (rule cow_store_private [OF demo_vm_reach, where g = demo_page]) (simp_all add: demo_vm_def demo_page_def vm_empty_def)

text \<open>Cloning the pages of a process gives every page of the child the content of the page of the parent, and changes
  no content of any other page; it needs no new frame.\<close>

theorem cow_clone_copies:
  assumes "lrun vm_step vm_empty ops s" "can_fork s prs"
  shows "\<exists>s'. vm_clone (\<lambda>_. (True, True)) s prs = Some (True, s') \<and> view s' = fork_view prs (view s)"
proof -
  have inv: "vm_inv s" using assms(1) by (rule cow_runs.reachable) simp
  from vm_clone_inv [OF this assms(2)] show ?thesis by blast
qed

theorem cow_clone_copies_witness:
  "\<exists>s'. vm_clone (\<lambda>_. (True, True)) demo_vm [(1, 2)] = Some (True, s') \<and> view s' 2 = Some 7 \<and> view s' 1 = Some 7"
proof -
  have "can_fork demo_vm [(1, 2)]" by (simp add: can_fork_def demo_vm_def vm_empty_def)
  from cow_clone_copies [OF demo_vm_reach this] obtain s' where
    "vm_clone (\<lambda>_. (True, True)) demo_vm [(1, 2)] = Some (True, s')" "view s' = fork_view [(1, 2)] (view demo_vm)" by blast
  with demo_vm_view show ?thesis by (simp add: fork_view_def)
qed

section \<open>Flaws\<close>

text \<open>
  A fault of a page under copy-on-write makes the page writable, whether its region is writable or not.
\<close>

lemma cow_fault_readonly:
  assumes "vm_inv s" "vpages s p = Some g" "pcow g" "\<not> prw g" "\<not> inuse s new"
  shows "\<exists>s' h. vm_doPagefault dl si new s p True = Some (0, s') \<and> vpages s' p = Some h \<and> pwritable h \<and> \<not> prw h"
  using cow_fault_inv [OF assms(1-3,5), of dl si True] assms(4) by auto

text \<open>
  The last user of a frame under copy-on-write that unmaps its page does not free the frame: \<open>doUnmap\<close> finds that nobody
  else has the frame, but frees frames of pages without the flag only.
\<close>

lemma cow_unmap_leak:
  assumes "vpages s p = Some g" "pcow g" "cow_remove (ctab s) (pframe g) = Some (False, t)" "inuse s (pframe g)"
  shows "\<exists>s'. vm_unmap_page nofree s p = Some s' \<and> inuse s' (pframe g) \<and> vpages s' p = None"
  using assms by (simp add: vm_unmap_page_def)

text \<open>
  A clone without memory for an entry leaves the page of the parent read-only and without the flag for copy-on-write: the
  next write faults, the fault is taken as handled, and nothing has changed.
\<close>

lemma cow_failed_clone_stuck:
  assumes "vpages s p = Some g" "ppresent g" "\<not> pcow g" "\<not> pdemand g" "\<not> pswapped g" "prw g" "p \<noteq> c"
    "getByFrame (ctab s (pframe g mod COW_HEAP_SIZE)) (pframe g) False = None"
  shows "\<exists>s' h. vm_clone (\<lambda>_. (False, False)) s [(p, c)] = Some (False, s') \<and> vpages s' p = Some h \<and> \<not> pwritable h \<and>
    vm_doPagefault dl si new s' p True = Some (0, s')"
  using assms by (simp add: vm_clone_def cow_add_def vm_doPagefault_def Let_def restrict_map_def)

text \<open>
  If the clone fails at a later page, undoing takes two references for each page, even if the page of the parent was
  shared before. Below, pages 1 and 2 of two processes share frame 5; the clone of pages 1 and 3 of the first one fails, and the next write to page 1
  changes page 2.
\<close>

definition demo_shared :: cowvm where
  "demo_shared = (let g = \<lparr>pframe = 5, ppresent = True, pwritable = False, pcow = True, pdemand = False, pswapped = False, prw = True\<rparr> in
     \<lparr>ctab = (\<lambda>_. [])(5 := [\<lparr>cowFrame = 5, cowRefs = 2\<rparr>]), vpages = [1 \<mapsto> g, 2 \<mapsto> g, 3 \<mapsto> g\<lparr>pframe := 6, pwritable := True, pcow := False\<rparr>],
      fmem = (\<lambda>_. 7), inuse = (\<lambda>f. f = 5 \<or> f = 6)\<rparr>)"

lemma cow_failed_clone_shares:
  "\<exists>s' s''. vm_clone (\<lambda>j. (j = 0, j = 0)) demo_shared [(1, 11), (3, 13)] = Some (False, s') \<and>
     vm_store 9 s' 1 8 = Some s'' \<and> view demo_shared 2 = Some 7 \<and> view s'' 2 = Some 8"
  by (simp add: demo_shared_def vm_clone_def vm_store_def vm_doPagefault_def cow_pagefault_def cow_add_def cow_remove_def view_def
      Let_def uadd_def usub_def restrict_map_def)

text \<open>\<open>doGrow\<close> with a negative amount frees the frames of the removed pages also if they are shared.\<close>

lemma cow_shrink_frees_shared:
  assumes "vpages s p = Some g" "ppresent g" "vpages s q = Some h" "q \<noteq> p" "pframe h = pframe g"
  shows "\<exists>s'. vm_shrink_page s p = Some s' \<and> \<not> inuse s' (pframe h) \<and> vpages s' q = Some h"
  using assms by (simp add: vm_shrink_page_def)

end
