(* ===== verification/Channel.thy ===== *)
theory Channel
  imports KErrno Transitions
begin

text \<open>
  Communication between clients and devices (\<open>kernel/src/vfs/channel.cc\<close>, \<open>device.cc\<close>): a device has a channel for each client;
  clients put requests into the send list of their channel, the driver takes them with \<open>getWork\<close> and \<open>receive\<close> and
  puts the replies into the receive list, where clients look for the reply to their request. Sending, receiving and discarding messages
  hold \<open>waitLock\<close>, so each of them is a step. \<open>invalidate\<close>, which deletes a channel without references, holds \<open>treeLock\<close> only
  and changes the count of messages at the same time as they may do: \<open>dev_step\<close> are the runs in which it does not overlap with them, and
  \<open>ipc_step\<close> the runs in which it may, where it can leave any count.
\<close>

unbundle bit_operations_syntax

section \<open>Messages, channels, devices\<close>

type_synonym msgid = "32 word"

record Message =
  msgId :: msgid
  msgData :: "byte list"

record channel =
  chFd :: int
  chHandler :: nat
  chClosed :: bool
  sendList :: "Message list"
  recvList :: "Message list"

text \<open>
  \<open>children\<close> are the channels in the tree, in the order of the list of nodes; a channel that the driver has
  destroyed is no longer there, but exists until its last client closes it. \<open>nextRid\<close> is a static variable.
\<close>

record device =
  chans :: "nat \<rightharpoonup> channel"
  children :: "nat list"
  lastClient :: "nat option"
  msgCount :: nat
  nextRid :: "16 word"
  dvalid :: bool

abbreviation ENOCLIENT :: int where "ENOCLIENT \<equiv> 29"

definition isAlive :: "device \<Rightarrow> nat \<Rightarrow> bool" where
  "isAlive d c \<longleftrightarrow> c \<in> set (children d)"

definition addMsgs :: "device \<Rightarrow> nat \<Rightarrow> device" where
  "addMsgs d n = d\<lparr>msgCount := uadd (msgCount d) n\<rparr>"

definition remMsgs :: "device \<Rightarrow> nat \<Rightarrow> device option" where
  "remMsgs d n = do { vassert (msgCount d \<ge> n); Some (d\<lparr>msgCount := usub (msgCount d) n\<rparr>) }"


section \<open>Sending\<close>

text \<open>The request id of a message of a client.\<close>

definition request_id :: "16 word \<Rightarrow> msgid \<Rightarrow> msgid" where
  "request_id rid i = (let j = (i AND 0xFFFF) OR push_bit 16 (ucast rid AND 0x7FFF) in
     if drop_bit 16 j = 0 then j OR 0x00010000 else j)"

text \<open>
  \<open>send\<close>: \<open>n1\<close> and \<open>n2\<close> say whether there is memory for the messages, \<open>r1\<close> and \<open>r2\<close> are the results of reading their
  data from the user. Threads that wait are woken up; they try again, see \<open>chan_try\<close>.
\<close>

definition chan_put :: "device \<Rightarrow> nat \<Rightarrow> bool \<Rightarrow> msgid \<Rightarrow> byte list list \<Rightarrow> (int \<times> device) option" where
  "chan_put d c dev i ds = do {
     ch \<leftarrow> chans d c;
     if dev then Some (uint i, d\<lparr>chans := (chans d)(c \<mapsto> ch\<lparr>recvList := recvList ch @ map (\<lambda>x. \<lparr>msgId = i, msgData = x\<rparr>) ds\<rparr>)\<rparr>)
     else let j = request_id (nextRid d) i;
              d1 = d\<lparr>chans := (chans d)(c \<mapsto> ch\<lparr>sendList := sendList ch @ map (\<lambda>x. \<lparr>msgId = j, msgData = x\<rparr>) ds\<rparr>), nextRid := nextRid d + 1\<rparr> in
       Some (uint j, addMsgs d1 (length ds)) }"

definition chan_send :: "bool \<Rightarrow> int \<Rightarrow> bool \<Rightarrow> int \<Rightarrow> device \<Rightarrow> nat \<Rightarrow> 16 word \<Rightarrow> msgid \<Rightarrow> byte list \<Rightarrow> byte list option \<Rightarrow> (int \<times> device) option" where
  "chan_send n1 r1 n2 r2 d c flags i data1 data2 = (let dev = (flags AND VFS_DEVICE \<noteq> 0) in do {
     vassert (\<not> dev \<or> data2 = None);
     if \<not> n1 then Some (- ENOMEM, d)
     else if r1 < 0 then Some (r1, d)
     else case data2 of
       None \<Rightarrow> chan_put d c dev i [data1]
     | Some x \<Rightarrow> if \<not> n2 then Some (- ENOMEM, d) else if r2 < 0 then Some (r2, d) else chan_put d c dev i [data1, x] })"

section \<open>Receiving\<close>

fun findMsg :: "Message list \<Rightarrow> msgid \<Rightarrow> (Message \<times> Message list) option" where
  "findMsg [] i = None"
| "findMsg (m # ms) i =
     (if msgId m = i \<or> drop_bit 16 (msgId m) = 0 then Some (m, ms) else map_option (\<lambda>(r, l). (r, m # l)) (findMsg ms i))"

definition getMsg :: "Message list \<Rightarrow> msgid \<Rightarrow> bool \<Rightarrow> (Message \<times> Message list) option" where
  "getMsg l i dev = (if dev then (case l of [] \<Rightarrow> None | m # ms \<Rightarrow> Some (m, ms)) else findMsg l i)"

datatype recv = Received Message | Failed int | Wait

text \<open>One turn of the loop of \<open>receive\<close> with the lock.\<close>

definition chan_try :: "device \<Rightarrow> nat \<Rightarrow> 16 word \<Rightarrow> msgid \<Rightarrow> (recv \<times> device) option" where
  "chan_try d c flags i = (let dev = (flags AND VFS_DEVICE \<noteq> 0) in do {
     ch \<leftarrow> chans d c;
     case getMsg (if dev then sendList ch else recvList ch) i dev of
       None \<Rightarrow>
         if flags AND (VFS_NOBLOCK OR VFS_BLOCK) = VFS_NOBLOCK then Some (Failed (- EWOULDBLOCK), d)
         else if chClosed ch \<or> \<not> isAlive d c then Some (Failed (- EDESTROYED), d)
         else Some (Wait, d)
     | Some (m, l) \<Rightarrow>
         if dev then do { d1 \<leftarrow> remMsgs (d\<lparr>chans := (chans d)(c \<mapsto> ch\<lparr>sendList := l\<rparr>)\<rparr>) 1; Some (Received m, d1) }
         else Some (Received m, d\<lparr>chans := (chans d)(c \<mapsto> ch\<lparr>recvList := l\<rparr>)\<rparr>) })"

text \<open>What \<open>receive\<close> returns for a message: \<open>buf\<close> says whether there is a buffer, \<open>w\<close> is the result of writing to it.\<close>

definition recv_result :: "bool \<Rightarrow> nat \<Rightarrow> int \<Rightarrow> Message \<Rightarrow> int" where
  "recv_result buf sz w m =
     (if buf \<and> length (msgData m) > sz then - EINVAL else if buf \<and> w < 0 then w else int (length (msgData m)))"

section \<open>Removing messages and channels\<close>


text \<open>The channel behind \<open>c\<close> in the list of nodes; a channel that is not in the list has none.\<close>

fun next_node :: "nat list \<Rightarrow> nat \<Rightarrow> nat option" where
  "next_node (x # y # xs) c = (if x = c then Some y else next_node (y # xs) c)"
| "next_node xs c = None"

definition clientRemoved :: "device \<Rightarrow> nat \<Rightarrow> device" where
  "clientRemoved d c = (if lastClient d = Some c then d\<lparr>lastClient := next_node (children d) c\<rparr> else d)"


definition chan_invalidate :: "device \<Rightarrow> nat \<Rightarrow> device option" where
  "chan_invalidate d c = do {
     ch \<leftarrow> chans d c;
     d1 \<leftarrow> remMsgs d (length (sendList ch));
     let d2 = clientRemoved d1 c;
     Some (d2\<lparr>chans := (chans d2)(c := None), children := remove1 c (children d2)\<rparr>) }"



section \<open>Choosing a client\<close>

definition hasWork :: "device \<Rightarrow> nat \<Rightarrow> nat \<Rightarrow> bool" where
  "hasWork d t c = (case chans d c of None \<Rightarrow> False | Some ch \<Rightarrow> chHandler ch = t \<and> sendList ch \<noteq> [])"

text \<open>The nodes from behind \<open>l\<close> to the end, and from the first one up to \<open>l\<close>.\<close>

definition behind :: "nat \<Rightarrow> nat list \<Rightarrow> nat list" where
  "behind l xs = tl (dropWhile (\<lambda>x. x \<noteq> l) xs)"

definition up_to :: "nat \<Rightarrow> nat list \<Rightarrow> nat list" where
  "up_to l xs = takeWhile (\<lambda>x. x \<noteq> l) xs @ (if l \<in> set xs then [l] else [])"

text \<open>\<open>getWork\<close> for thread \<open>t\<close>; the result is the channel, \<open>None\<close> stands for \<open>-ENOCLIENT\<close>.\<close>

definition getWork :: "device \<Rightarrow> nat \<Rightarrow> nat option \<times> device" where
  "getWork d t =
     (if \<not> dvalid d \<or> msgCount d = 0 then (None, d)
      else case find (hasWork d t) (case lastClient d of None \<Rightarrow> children d | Some l \<Rightarrow> behind l (children d)) of
        Some c \<Rightarrow> (Some c, d\<lparr>lastClient := Some c\<rparr>)
      | None \<Rightarrow> (case lastClient d of
          None \<Rightarrow> (None, d)
        | Some l \<Rightarrow> (case find (hasWork d t) (up_to l (children d)) of
            Some c \<Rightarrow> (Some c, d\<lparr>lastClient := Some c\<rparr>)
          | None \<Rightarrow> (None, d\<lparr>lastClient := None\<rparr>))))"

section \<open>The count of messages\<close>

definition sends :: "device \<Rightarrow> nat \<Rightarrow> Message list" where
  "sends d c = (case chans d c of None \<Rightarrow> [] | Some ch \<Rightarrow> sendList ch)"

definition queued_msgs :: "(nat \<rightharpoonup> channel) \<Rightarrow> nat" where
  "queued_msgs m = (\<Sum>c \<in> dom m. length (sendList (the (m c))))"




lemma queued_none: "m c = None \<Longrightarrow> queued_msgs (m(c := None)) = queued_msgs m"
  by (simp add: fun_upd_idem)






lemma device_order [simp]: "d\<lparr>msgCount := n, chans := m\<rparr> = d\<lparr>chans := m, msgCount := n\<rparr>"
  "d\<lparr>nextRid := r, msgCount := n\<rparr> = d\<lparr>msgCount := n, nextRid := r\<rparr>" "d\<lparr>nextRid := r, chans := m\<rparr> = d\<lparr>chans := m, nextRid := r\<rparr>"
  by simp_all







section \<open>Runs\<close>

text \<open>
  A device with its channels, and for each channel the requests that have been sent and not discarded, and those the driver got.
\<close>

record devsys =
  dv :: device
  sent :: "nat \<Rightarrow> Message list"
  got :: "nat \<Rightarrow> Message list"


























section \<open>The order of clients\<close>

text \<open>The channels in the order in which \<open>getWork\<close> looks at them, and the number of channels before one.\<close>

definition rot :: "device \<Rightarrow> nat list" where
  "rot d = (case lastClient d of None \<Rightarrow> children d | Some l \<Rightarrow> behind l (children d) @ up_to l (children d))"


lemma find_append: "find P (xs @ ys) = (case find P xs of None \<Rightarrow> find P ys | Some x \<Rightarrow> Some x)"
  by (induction xs) auto




lemma getWork_rot:
  "dvalid d \<Longrightarrow> msgCount d \<noteq> 0 \<Longrightarrow> getWork d t = (case find (hasWork d t) (rot d) of
     Some c \<Rightarrow> (Some c, d\<lparr>lastClient := Some c\<rparr>) | None \<Rightarrow> (None, d\<lparr>lastClient := None\<rparr>))"
  by (cases "lastClient d") (auto simp: getWork_def rot_def find_append split: option.splits)



section \<open>Requests and replies\<close>

lemma request_id_masks: "(0xFFFF :: 32 word) = mask 16" "(0x7FFF :: 32 word) = mask 15" "(0x00010000 :: 32 word) = 2 ^ 16"
  by (simp_all add: mask_eq_exp_minus_1)

lemma request_id_bits: "\<not> bit (request_id r i) 31" "n < 16 \<Longrightarrow> bit (request_id r i) n = bit i n" "drop_bit 16 (request_id r i) \<noteq> 0"
proof -
  define j :: "32 word" where "j = (i AND mask 16) OR push_bit 16 (ucast r AND mask 15)"
  have id: "request_id r i = (if drop_bit 16 j = 0 then j OR 2 ^ 16 else j)" unfolding request_id_def request_id_masks j_def Let_def ..
  have b: "\<not> bit j 31" "n < 16 \<Longrightarrow> bit j n = bit i n" for n by (auto simp: j_def bit_simps)
  show "\<not> bit (request_id r i) 31" using b(1) by (simp add: id bit_simps)
  have "\<not> bit (2 ^ 16 :: 32 word) n" if "n < 16" using that by (simp only: bit_exp_iff) simp
  then show "n < 16 \<Longrightarrow> bit (request_id r i) n = bit i n" using b(2) by (simp add: id bit_or_iff)
  have "bit (drop_bit 16 (j OR 2 ^ 16)) 0" by (simp add: bit_simps)
  then have "drop_bit 16 (j OR 2 ^ 16) \<noteq> 0" by (metis bit_0_eq bot_apply bot_bool_def)
  then show "drop_bit 16 (request_id r i) \<noteq> 0" by (simp add: id)
qed

lemma findMsg_spec:
  "findMsg l i = Some (m, l') \<Longrightarrow> \<exists>a b. l = a @ m # b \<and> l' = a @ b \<and> (msgId m = i \<or> drop_bit 16 (msgId m) = 0) \<and>
     (\<forall>x \<in> set a. msgId x \<noteq> i \<and> drop_bit 16 (msgId x) \<noteq> 0)"
proof (induction l arbitrary: l')
  case (Cons x l)
  show ?case
  proof (cases "msgId x = i \<or> drop_bit 16 (msgId x) = 0")
    case True
    with Cons.prems show ?thesis by (intro exI [of _ "[]"] exI [of _ l]) auto
  next
    case False
    with Cons.prems obtain l1 where l1: "findMsg l i = Some (m, l1)" "l' = x # l1" by auto
    from Cons.IH [OF l1(1)] obtain a b where "l = a @ m # b" "l1 = a @ b" "msgId m = i \<or> drop_bit 16 (msgId m) = 0"
      "\<forall>x \<in> set a. msgId x \<noteq> i \<and> drop_bit 16 (msgId x) \<noteq> 0" by blast
    with l1(2) False show ?thesis by (intro exI [of _ "x # a"] exI [of _ b]) auto
  qed
qed simp

lemma findMsg_none: "findMsg l i = None \<longleftrightarrow> (\<forall>m \<in> set l. msgId m \<noteq> i \<and> drop_bit 16 (msgId m) \<noteq> 0)"
  by (induction l) auto


section \<open>Properties\<close>


definition demo_dev :: devsys where
  "demo_dev = (let m = \<lparr>msgId = 0x10009, msgData = [1, 2]\<rparr> in
     \<lparr>dv = \<lparr>chans = [7 \<mapsto> \<lparr>chFd = 3, chHandler = 5, chClosed = False, sendList = [m], recvList = []\<rparr>], children = [7], lastClient = None,
        msgCount = 1, nextRid = 1, dvalid = True\<rparr>, sent = (\<lambda>_. [])(7 := [m]), got = (\<lambda>_. [])\<rparr>)"





text \<open>A client that waits for the reply to a request gets the oldest message that is a reply to this request or for anybody;
  the other messages stay in their order, and without such a message nothing is taken.\<close>

theorem chan_reply:
  assumes "chans d c = Some ch" "flags AND VFS_DEVICE = 0"
  shows "\<exists>x d'. chan_try d c flags i = Some (x, d') \<and> (case x of
      Received m \<Rightarrow> \<exists>a b. recvList ch = a @ m # b \<and> chans d' = (chans d)(c \<mapsto> ch\<lparr>recvList := a @ b\<rparr>) \<and>
        (msgId m = i \<or> drop_bit 16 (msgId m) = 0) \<and> (\<forall>y \<in> set a. msgId y \<noteq> i \<and> drop_bit 16 (msgId y) \<noteq> 0)
    | _ \<Rightarrow> d' = d \<and> (\<forall>y \<in> set (recvList ch). msgId y \<noteq> i \<and> drop_bit 16 (msgId y) \<noteq> 0))"
proof (cases "findMsg (recvList ch) i")
  case None
  with findMsg_none [of "recvList ch" i] assms show ?thesis by (auto simp: chan_try_def getMsg_def Let_def)
next
  case (Some p)
  obtain m l where p: "p = (m, l)" by (cases p)
  from findMsg_spec [OF Some [unfolded p]] obtain a b where ab: "recvList ch = a @ m # b" "l = a @ b"
    "msgId m = i \<or> drop_bit 16 (msgId m) = 0" "\<forall>x \<in> set a. msgId x \<noteq> i \<and> drop_bit 16 (msgId x) \<noteq> 0" by blast
  have "chan_try d c flags i = Some (Received m, d\<lparr>chans := (chans d)(c \<mapsto> ch\<lparr>recvList := l\<rparr>)\<rparr>)"
    using Some p assms by (simp add: chan_try_def getMsg_def Let_def)
  with ab show ?thesis by auto
qed

theorem chan_reply_witness: "\<exists>x d'. chan_try (dv demo_dev) 7 0 3 = Some (x, d')"
  using chan_reply [of "dv demo_dev" 7 "the (chans (dv demo_dev) 7)" 0 3] by (auto simp: demo_dev_def Let_def)

text \<open>C17: The id a client gets for a request is positive as a signed number of 32 bits, never one of the ids for anybody, and keeps
  the number of the message.\<close>

theorem request_id_range:
  "uint (request_id r i) < 2 ^ 31 \<and> drop_bit 16 (request_id r i) \<noteq> 0 \<and> take_bit 16 (request_id r i) = take_bit 16 i"
proof -
  have "take_bit 31 (request_id r i) = request_id r i"
    by (rule bit_word_eqI) (use request_id_bits(1) [of r i] in \<open>auto simp: bit_take_bit_iff less_Suc_eq numeral_eq_Suc\<close>)
  then have "uint (request_id r i) = take_bit 31 (uint (request_id r i))" by (metis unsigned_take_bit_eq)
  then have "uint (request_id r i) < 2 ^ 31" using take_bit_int_less_exp [of 31 "uint (request_id r i)"] by simp
  moreover have "take_bit 16 (request_id r i) = take_bit 16 i"
    by (rule bit_word_eqI) (use request_id_bits(2) in \<open>auto simp: bit_take_bit_iff\<close>)
  ultimately show ?thesis using request_id_bits(3) by blast
qed

section \<open>Flaws\<close>

text \<open>
  The count of messages is changed without a common lock: \<open>invalidate\<close> of channel 1 with one request has read the count, a client sends a
  request through channel 2, and \<open>invalidate\<close> stores what it computed. The count is 0 although a request is queued: \<open>getWork\<close> finds nothing, and
  receiving the request fails an assertion.
\<close>

lemma invalidate_race:
  defines "ch \<equiv> \<lparr>chFd = 3, chHandler = 5, chClosed = False, sendList = [], recvList = []\<rparr>"
  defines "d \<equiv> \<lparr>chans = [1 \<mapsto> ch\<lparr>sendList := [\<lparr>msgId = 0x10009, msgData = []\<rparr>]\<rparr>, 2 \<mapsto> ch], children = [2, 1], lastClient = None, msgCount = 1, nextRid = 2, dvalid = True\<rparr>"
  shows "\<exists>r d1 d2. chan_send True 0 True 0 d 2 0 7 [] None = Some (r, d1) \<and> chan_invalidate d1 1 = Some d2 \<and>
    (let d3 = d2\<lparr>msgCount := usub (msgCount d) 1\<rparr> in sends d3 2 \<noteq> [] \<and> getWork d3 5 = (None, d3) \<and> chan_try d3 2 VFS_DEVICE 0 = None)"
  by (simp add: d_def ch_def chan_send_def chan_put_def chan_invalidate_def remMsgs_def addMsgs_def clientRemoved_def sends_def getWork_def
      chan_try_def getMsg_def uadd_def usub_def Let_def)

text \<open>
  The counter of requests gives the same id twice in a row: 0 is replaced by 1, and 1 follows. Two threads of a client
  that send at this moment wait for the same id.
\<close>

lemma request_id_repeats: "request_id 0 i = request_id 1 i" "request_id 0x8000 i = request_id 0x8001 i"
proof -
  have "drop_bit 16 (i AND 0xFFFF) = 0" unfolding request_id_masks by (rule bit_word_eqI) (auto simp: bit_simps)
  moreover have "drop_bit 16 ((i AND 0xFFFF) OR 0x10000) \<noteq> 0"
    using request_id_bits(3) [of 0 i] \<open>drop_bit 16 (i AND 0xFFFF) = 0\<close> by (simp add: request_id_def)
  ultimately show "request_id 0 i = request_id 1 i" "request_id 0x8000 i = request_id 0x8001 i" by (simp_all add: request_id_def)
qed

text \<open>
  \<open>getWork\<close> by a second thread of the driver, one without work, forgets which client was served last: the first thread
  serves the first channel again, although others wait.
\<close>

lemma getWork_forgets:
  assumes "dvalid d" "msgCount d \<noteq> 0" "\<And>c. \<not> hasWork d t2 c" "children d = c # cs" "hasWork d t1 c"
  shows "\<exists>d1 d2. getWork d t2 = (None, d1) \<and> getWork d1 t1 = (Some c, d2)"
proof -
  have "find (hasWork d t2) (rot d) = None" using assms(3) by (simp add: find_None_iff)
  then have 1: "getWork d t2 = (None, d\<lparr>lastClient := None\<rparr>)" using getWork_rot [OF assms(1,2), of t2] by simp
  have "hasWork (d\<lparr>lastClient := None\<rparr>) t1 c" using assms(5) by (simp add: hasWork_def)
  then have "getWork (d\<lparr>lastClient := None\<rparr>) t1 = (Some c, d\<lparr>lastClient := Some c\<rparr>)"
    using assms(1,2,4) by (simp add: getWork_rot rot_def)
  with 1 show ?thesis by blast
qed

end
