(* ===== verification/CircBuf.thy ===== *)
theory CircBuf
  imports KErrno Transitions
begin

text \<open>
  The buffer of a TCP connection (\<open>drivers/common/tcpip/circularbuf.cc\<close>): packets ordered by sequence number in a window
  that moves through the 32-bit sequence numbers. The receiver pushes segments as they arrive, acknowledges what is
  contiguous and pulls it; the sender pushes what it sends, gets it again for a repetition and forgets what is acknowledged.
\<close>

section \<open>Packets and buffers\<close>

type_synonym seqno = "32 word"

datatype cbtype = TYPE_CTRL | TYPE_DATA

record SeqPacket =
  pstart :: seqno
  ptype :: cbtype
  pbytes :: "byte list"

definition psize :: "SeqPacket \<Rightarrow> seqno" where
  "psize p = (if ptype p = TYPE_CTRL then 1 else of_nat (length (pbytes p)))"

record CircularBuf =
  cbMax :: seqno
  cbCurrent :: seqno
  cbCurData :: seqno
  packets :: "SeqPacket list"
  seqStart :: seqno
  seqAcked :: seqno

definition cb_init :: "seqno \<Rightarrow> seqno \<Rightarrow> CircularBuf" where
  "cb_init start sz = \<lparr>cbMax = sz, cbCurrent = 0, cbCurData = 0, packets = [], seqStart = start, seqAcked = start\<rparr>"

definition windowSize :: "CircularBuf \<Rightarrow> seqno" where
  "windowSize b = cbMax b - cbCurrent b"

definition nextSeq :: "CircularBuf \<Rightarrow> seqno" where
  "nextSeq b = seqAcked b + cbCurrent b"

definition isInWindow :: "CircularBuf \<Rightarrow> seqno \<Rightarrow> bool" where
  "isInWindow b seq = (seq - seqStart b \<le> cbCurrent b)"

section \<open>Pushing\<close>

text \<open>
  The position in the data to be inserted: relative to the window, as sequence number, as offset of \<open>begin\<close> from \<open>data\<close>,
  and what is left. The new packet copies its bytes from there; bytes behind the data are a fault.
\<close>

record cursor =
  relStart :: seqno
  curSeq :: seqno
  curOff :: seqno
  seqadd :: seqno

definition cb_packet :: "cbtype \<Rightarrow> byte list \<Rightarrow> seqno \<Rightarrow> cursor \<Rightarrow> seqno \<Rightarrow> SeqPacket option" where
  "cb_packet ty bytes sz cu amount = (let n = unat (if ty = TYPE_CTRL then sz else amount) in
     if unat (curOff cu) + n \<le> length bytes
     then Some \<lparr>pstart = curSeq cu, ptype = ty, pbytes = take n (drop (unat (curOff cu)) bytes)\<rparr> else None)"

definition advance :: "cursor \<Rightarrow> seqno \<Rightarrow> cursor" where
  "advance cu n = \<lparr>relStart = relStart cu + n, curSeq = curSeq cu + n, curOff = curOff cu + n, seqadd = seqadd cu - n\<rparr>"

text \<open>What is missing before a packet is inserted there; what the packet has already is skipped.\<close>

definition fill_gap :: "cbtype \<Rightarrow> byte list \<Rightarrow> seqno \<Rightarrow> seqno \<Rightarrow> cursor \<Rightarrow> (SeqPacket list \<times> seqno \<times> cursor) option" where
  "fill_gap ty bytes sz relSeq cu = (if relStart cu < relSeq then
     let amount = min (seqadd cu) (relSeq - relStart cu) in
     do { q \<leftarrow> cb_packet ty bytes sz cu amount; Some ([q], amount, advance cu amount) }
   else Some ([], 0, cu))"

definition skip_dup :: "seqno \<Rightarrow> seqno \<Rightarrow> cursor \<Rightarrow> cursor" where
  "skip_dup relEnd pktEnd cu = (if relStart cu < pktEnd then
     if relEnd \<le> pktEnd then cu\<lparr>seqadd := 0\<rparr> else advance cu (pktEnd - relStart cu)
   else cu)"

text \<open>The loop over the packets: the new list, how much has been added, and the position behind it.\<close>

fun push_loop :: "cbtype \<Rightarrow> byte list \<Rightarrow> seqno \<Rightarrow> seqno \<Rightarrow> seqno \<Rightarrow> seqno \<Rightarrow> SeqPacket list \<Rightarrow> cursor \<Rightarrow> (SeqPacket list \<times> seqno \<times> cursor) option" where
  "push_loop ty bytes sz mx start relEnd [] cu = Some ([], 0, cu)"
| "push_loop ty bytes sz mx start relEnd (p # ps) cu =
     (if seqadd cu = 0 then Some (p # ps, 0, cu)
      else if pstart p - start \<ge> mx then map_option (\<lambda>(l, a, cu'). (p # l, a, cu')) (push_loop ty bytes sz mx start relEnd ps cu)
      else do {
        (ins, added, cu1) \<leftarrow> fill_gap ty bytes sz (pstart p - start) cu;
        (l, a, cu') \<leftarrow> push_loop ty bytes sz mx start relEnd ps (skip_dup relEnd (pstart p - start + psize p) cu1);
        Some (ins @ p # l, added + a, cu') })"

text \<open>The start of the data and its end are moved into the window.\<close>

definition clip_start :: "seqno \<Rightarrow> seqno \<Rightarrow> cursor \<Rightarrow> cursor" where
  "clip_start winStart winEnd cu =
     (if relStart cu < winStart then (advance cu (winStart - relStart cu))\<lparr>relStart := winStart\<rparr>
      else if relStart cu \<ge> winEnd then (advance cu (- relStart cu))\<lparr>relStart := 0\<rparr>
      else cu)"

definition push :: "CircularBuf \<Rightarrow> seqno \<Rightarrow> cbtype \<Rightarrow> byte list \<Rightarrow> (int \<times> CircularBuf) option" where
  "push b seq ty bytes = (let sz = of_nat (length bytes); add = (if ty = TYPE_CTRL then 1 else sz) in do {
     vassert (add \<le> cbMax b);
     if ty = TYPE_CTRL \<and> seq \<noteq> seqAcked b then Some (- EINVAL, b)
     else if cbCurrent b = cbMax b then Some (- EINVAL, b)
     else let winStart = seqAcked b - seqStart b; winEnd = cbMax b; rs = seq - seqStart b; re = seq + add - seqStart b in
       if (rs < winStart \<or> rs \<ge> winEnd) \<and> (re < winStart \<or> re > winEnd \<or> re = 0) then Some (- EINVAL, b)
       else
         let cu = clip_start winStart winEnd \<lparr>relStart = rs, curSeq = seq, curOff = 0, seqadd = add\<rparr>;
             cu = (if re > winEnd then cu\<lparr>seqadd := seqadd cu - (re - winEnd)\<rparr> else cu);
             re = min re winEnd in
         do {
           (l, a, cu1) \<leftarrow> push_loop ty bytes sz (cbMax b) (seqStart b) re (packets b) cu;
           (l, a) \<leftarrow> (if packets b = [] \<or> seqadd cu1 > 0 then do { q \<leftarrow> cb_packet ty bytes sz cu1 (seqadd cu1); Some (l @ [q], a + seqadd cu1) }
              else Some (l, a));
           Some (sint a, b\<lparr>packets := l, cbCurrent := cbCurrent b + a, cbCurData := (if ty = TYPE_DATA then cbCurData b + a else cbCurData b)\<rparr>) } })"

section \<open>Acknowledging\<close>

fun ack_run :: "SeqPacket list \<Rightarrow> seqno \<Rightarrow> seqno" where
  "ack_run [] nxt = nxt"
| "ack_run (p # ps) nxt = (if pstart p \<noteq> nxt then nxt else ack_run ps (nxt + psize p))"

definition getAck :: "CircularBuf \<Rightarrow> seqno \<times> CircularBuf" where
  "getAck b = (let l = ack_run (dropWhile (\<lambda>p. pstart p \<noteq> seqAcked b) (packets b)) (seqAcked b) in (l, b\<lparr>seqAcked := l\<rparr>))"

section \<open>Pulling, forgetting and getting\<close>

definition getOffset :: "SeqPacket \<Rightarrow> seqno \<Rightarrow> seqno" where
  "getOffset p seq = (if pstart p \<noteq> seq then if pstart p < seq then seq - pstart p else (- 1 - pstart p) + seq + 1 else 0)"

text \<open>The loop of \<open>pull\<close>; \<open>buf\<close> says whether there is a buffer. The result has the bytes written to it and the size that is left.\<close>

fun pull_loop :: "bool \<Rightarrow> SeqPacket list \<Rightarrow> CircularBuf \<Rightarrow> seqno \<Rightarrow> byte list \<times> seqno \<times> CircularBuf" where
  "pull_loop buf [] b sz = ([], sz, b\<lparr>packets := []\<rparr>)"
| "pull_loop buf (p # ps) b sz =
     (if sz = 0 then ([], sz, b\<lparr>packets := p # ps\<rparr>)
      else let relAcked = seqAcked b - seqStart b; rel = pstart p - seqStart b; off = getOffset p (seqStart b) in
        if rel + off \<ge> relAcked then ([], sz, b\<lparr>packets := p # ps\<rparr>)
        else let amount = min sz (psize p - off);
                 out = (if buf \<and> ptype p = TYPE_DATA then take (unat amount) (drop (unat off) (pbytes p)) else []);
                 sz1 = (if buf \<and> ptype p = TYPE_DATA \<or> \<not> buf then sz - amount else sz);
                 b1 = b\<lparr>seqStart := seqStart b + amount\<rparr> in
          if amount \<noteq> psize p - off then (out, sz1, b1\<lparr>packets := p # ps\<rparr>)
          else let (o', sz2, b2) = pull_loop buf ps (b1\<lparr>cbCurrent := cbCurrent b1 - psize p,
                 cbCurData := if ptype p = TYPE_DATA then cbCurData b1 - psize p else cbCurData b1\<rparr>) sz1 in (out @ o', sz2, b2))"

definition pull :: "CircularBuf \<Rightarrow> seqno \<Rightarrow> byte list \<times> CircularBuf" where
  "pull b sz = (let (o', _, b1) = pull_loop True (packets b) b sz in (o', b1))"

definition forget :: "CircularBuf \<Rightarrow> seqno \<Rightarrow> int \<times> CircularBuf" where
  "forget b seq = (if seq - seqAcked b > cbCurrent b then (- EINVAL, b)
     else let (_, _, b1) = pull_loop False (packets b) (b\<lparr>seqAcked := seq\<rparr>) (seq - seqAcked b) in (0, b1))"

fun get_loop :: "seqno \<Rightarrow> SeqPacket list \<Rightarrow> seqno \<Rightarrow> seqno \<Rightarrow> seqno \<Rightarrow> byte list" where
  "get_loop start [] relSeq seq sz = []"
| "get_loop start (p # ps) relSeq seq sz =
     (if sz = 0 then []
      else if (pstart p - start) + psize p \<le> relSeq then get_loop start ps relSeq seq sz
      else let off = getOffset p seq; amount = min sz (psize p - off) in
        (if ptype p = TYPE_DATA then take (unat amount) (drop (unat off) (pbytes p)) @ get_loop start ps relSeq (seq + amount) (sz - amount)
         else get_loop start ps relSeq (seq + amount) sz))"

definition cb_get :: "CircularBuf \<Rightarrow> seqno \<Rightarrow> seqno \<Rightarrow> byte list" where
  "cb_get b seq sz = get_loop (seqStart b) (dropWhile (\<lambda>p. pstart p \<noteq> seqAcked b) (packets b)) (seq - seqStart b) seq sz"

text \<open>\<open>pullctrl\<close>: the number of copied bytes, the bytes and the sequence number.\<close>

definition pullctrl :: "CircularBuf \<Rightarrow> nat \<Rightarrow> ((byte list \<times> seqno) option \<times> CircularBuf) option" where
  "pullctrl b sz = (case packets b of
     [] \<Rightarrow> Some (None, b)
   | p # ps \<Rightarrow> do {
       vassert (ptype p = TYPE_CTRL);
       Some (Some (take sz (pbytes p), pstart p),
         b\<lparr>seqStart := seqStart b + psize p, cbCurrent := cbCurrent b - psize p, packets := ps\<rparr>) })"

section \<open>Sequence numbers as positions in a stream\<close>

lemma w32_less: "a < 2 ^ 32 \<Longrightarrow> b < 2 ^ 32 \<Longrightarrow> (of_nat a :: 32 word) < of_nat b \<longleftrightarrow> a < b"
  by (simp add: word_less_nat_alt unat_of_nat)

lemma w32_le: "a < 2 ^ 32 \<Longrightarrow> b < 2 ^ 32 \<Longrightarrow> (of_nat a :: 32 word) \<le> of_nat b \<longleftrightarrow> a \<le> b"
  by (simp add: word_le_nat_alt unat_of_nat)

lemma w32_eq: "a < 2 ^ 32 \<Longrightarrow> b < 2 ^ 32 \<Longrightarrow> (of_nat a :: 32 word) = of_nat b \<longleftrightarrow> a = b"
  by (metis w32_less less_irrefl linorder_neqE_nat)

lemma w32_unat: "a < 2 ^ 32 \<Longrightarrow> unat (of_nat a :: 32 word) = a"
  by (simp add: unat_of_nat)

lemma w32_min: "a < 2 ^ 32 \<Longrightarrow> b < 2 ^ 32 \<Longrightarrow> min (of_nat a :: 32 word) (of_nat b) = of_nat (min a b)"
  by (simp add: min_def w32_le)

lemma w32_diff: "b \<le> a \<Longrightarrow> (s + of_nat a) - (s + of_nat b) = (of_nat (a - b) :: 32 word)"
  by simp

lemma w32_neg_diff: "a < b \<Longrightarrow> b - a < 2 ^ 32 \<Longrightarrow> (s + of_nat a) - (s + of_nat b) = (of_nat (2 ^ 32 - (b - a)) :: 32 word)"
proof -
  assume a: "a < b" "b - a < 2 ^ 32"
  have "(of_nat (2 ^ 32 - (b - a)) :: 32 word) = of_nat (2 ^ 32) - of_nat (b - a)" using a(2) by (intro of_nat_diff) simp
  also have "\<dots> = - (of_nat (b - a) :: 32 word)" by simp
  also have "\<dots> = of_nat a - of_nat b" using a(1) by simp
  finally show ?thesis by simp
qed

text \<open>
  A stream of bytes \<open>str\<close> that starts at the sequence number \<open>s0\<close>; a packet is a start in the stream and a length.
\<close>

definition seg :: "(nat \<Rightarrow> byte) \<Rightarrow> nat \<Rightarrow> nat \<Rightarrow> byte list" where
  "seg str a n = map str [a..<a + n]"

definition pkt :: "seqno \<Rightarrow> (nat \<Rightarrow> byte) \<Rightarrow> nat \<times> nat \<Rightarrow> SeqPacket" where
  "pkt s0 str x = \<lparr>pstart = s0 + of_nat (fst x), ptype = TYPE_DATA, pbytes = seg str (fst x) (snd x)\<rparr>"

lemma seg_length [simp]: "length (seg str a n) = n"
  by (simp add: seg_def)

lemma seg_take_drop: "i + k \<le> n \<Longrightarrow> take k (drop i (seg str a n)) = seg str (a + i) k"
  by (simp add: seg_def drop_map take_map add.assoc)

lemma seg_append: "seg str a n @ seg str (a + n) k = seg str a (n + k)"
  unfolding seg_def map_append [symmetric] using upt_add_eq_append [of a "a + n" k] by (simp add: add.assoc)

lemma pkt_simps [simp]: "pstart (pkt s0 str (a, n)) = s0 + of_nat a" "ptype (pkt s0 str (a, n)) = TYPE_DATA" "pbytes (pkt s0 str (a, n)) = seg str a n"
  "psize (pkt s0 str (a, n)) = of_nat n"
  by (simp_all add: pkt_def psize_def)

section \<open>Filling gaps\<close>

fun ordered :: "nat \<Rightarrow> (nat \<times> nat) list \<Rightarrow> bool" where
  "ordered lo [] = True"
| "ordered lo ((a, n) # ps) = (lo \<le> a \<and> 0 < n \<and> ordered (a + n) ps)"

definition cover :: "(nat \<times> nat) list \<Rightarrow> nat set" where
  "cover ps = (\<Union>(a, n) \<in> set ps. {a..<a + n})"

definition amount_of :: "(nat \<times> nat) list \<Rightarrow> nat" where
  "amount_of ps = sum_list (map snd ps)"

text \<open>What \<open>push\<close> does with the range from \<open>r\<close> to \<open>e\<close>: the parts between the packets are inserted.\<close>

fun fill :: "nat \<Rightarrow> nat \<Rightarrow> (nat \<times> nat) list \<Rightarrow> (nat \<times> nat) list" where
  "fill r e [] = (if r < e then [(r, e - r)] else [])"
| "fill r e ((a, n) # ps) = (if r < e \<and> r < a then [(r, min e a - r)] else []) @ (a, n) # fill (max r (min e (a + n))) e ps"

lemma cover_simps [simp]: "cover [] = {}" "cover ((a, n) # ps) = {a..<a + n} \<union> cover ps" "cover (ps @ qs) = cover ps \<union> cover qs"
  by (auto simp: cover_def)

lemma amount_simps [simp]: "amount_of [] = 0" "amount_of ((a, n) # ps) = n + amount_of ps" "amount_of (ps @ qs) = amount_of ps + amount_of qs"
  by (simp_all add: amount_of_def)

lemma fill_done: "e \<le> r \<Longrightarrow> fill r e ps = ps"
  by (induction ps arbitrary: r) (auto simp: max_def)

lemma ordered_mono: "ordered lo ps \<Longrightarrow> lo' \<le> lo \<Longrightarrow> ordered lo' ps"
  by (cases ps) auto

lemma fill_ordered: "ordered lo ps \<Longrightarrow> lo \<le> r \<Longrightarrow> ordered lo (fill r e ps)"
proof (induction ps arbitrary: lo r)
  case (Cons p ps)
  obtain a n where p: "p = (a, n)" by (cases p)
  have "ordered (a + n) (fill (max r (min e (a + n))) e ps)"
  proof (cases "max r (min e (a + n)) < a + n")
    case True
    then have "e \<le> max r (min e (a + n))" by auto
    then show ?thesis using Cons.prems(1) p by (simp add: fill_done)
  qed (use Cons.IH Cons.prems p in auto)
  then show ?case using Cons.prems p by auto
qed auto

lemma fill_cover: "ordered lo ps \<Longrightarrow> lo \<le> r \<Longrightarrow> cover (fill r e ps) = cover ps \<union> {r..<e}"
proof (induction ps arbitrary: lo r)
  case (Cons p ps)
  obtain a n where p: "p = (a, n)" by (cases p)
  let ?r = "max r (min e (a + n))"
  have "cover (fill ?r e ps) = cover ps \<union> {?r..<e}"
  proof (cases "?r < a + n")
    case True
    then have "e \<le> ?r" by auto
    then show ?thesis by (simp add: fill_done)
  qed (use Cons.IH Cons.prems p in auto)
  then have "cover (fill r e (p # ps)) = (if r < e \<and> r < a then {r..<r + (min e a - r)} else {}) \<union> {a..<a + n} \<union> (cover ps \<union> {?r..<e})"
    by (simp add: p Un_assoc)
  moreover have "(if r < e \<and> r < a then {r..<r + (min e a - r)} else {}) \<union> {a..<a + n} \<union> {?r..<e} = {a..<a + n} \<union> {r..<e}"
    by (cases "r < e"; cases "r < a") (rule set_eqI; simp; linarith)+
  moreover have "X \<union> I \<union> (C \<union> R) = (I \<union> C) \<union> E" if "X \<union> I \<union> R = I \<union> E" for X I C R E :: "nat set" using that by blast
  ultimately show ?case unfolding p cover_simps(2) by metis
qed simp

lemma fill_bounds: "x \<in> set (fill r e ps) \<Longrightarrow> x \<in> set ps \<or> r \<le> fst x \<and> fst x + snd x \<le> e \<and> 0 < snd x"
proof (induction ps arbitrary: r)
  case (Cons p ps)
  obtain a n where p: "p = (a, n)" by (cases p)
  from Cons.prems consider "r < e \<and> r < a \<and> x = (r, min e a - r)" | "x = p" | "x \<in> set (fill (max r (min e (a + n))) e ps)"
    by (auto simp: p split: if_splits)
  then show ?case
  proof cases
    case 3
    from Cons.IH [OF this] show ?thesis by auto
  qed auto
qed (auto split: if_splits)

declare of_nat_diff [simp del]

text \<open>The loop of \<open>push\<close> for the segment of the stream from \<open>a0\<close> to \<open>a0 + n0\<close>, at position \<open>r\<close>, with the window from \<open>A\<close>.\<close>

definition cur_at :: "seqno \<Rightarrow> nat \<Rightarrow> nat \<Rightarrow> nat \<Rightarrow> nat \<Rightarrow> cursor" where
  "cur_at s0 A a0 e r = \<lparr>relStart = of_nat (r - A), curSeq = s0 + of_nat r, curOff = of_nat (r - a0), seqadd = of_nat (e - r)\<rparr>"

lemma cur_at_simps [simp]: "relStart (cur_at s0 A a0 e r) = of_nat (r - A)" "curSeq (cur_at s0 A a0 e r) = s0 + of_nat r"
  "curOff (cur_at s0 A a0 e r) = of_nat (r - a0)" "seqadd (cur_at s0 A a0 e r) = of_nat (e - r)"
  by (simp_all add: cur_at_def)

lemma cb_packet_seg:
  assumes "a0 \<le> r" "r + k \<le> a0 + n0" "n0 < 2 ^ 32"
  shows "cb_packet TYPE_DATA (seg str a0 n0) sz (cur_at s0 A a0 e r) (of_nat k) = Some (pkt s0 str (r, k))"
proof -
  have "unat (of_nat k :: 32 word) = k" "unat (of_nat (r - a0) :: 32 word) = r - a0" using assms by (simp_all add: unat_of_nat)
  then show ?thesis using assms seg_take_drop [of "r - a0" k n0 str a0] by (simp add: cb_packet_def pkt_def Let_def)
qed

lemma advance_cur: "A \<le> r \<Longrightarrow> a0 \<le> r \<Longrightarrow> r + k \<le> e \<Longrightarrow> advance (cur_at s0 A a0 e r) (of_nat k) = cur_at s0 A a0 e (r + k)"
  by (simp add: advance_def cur_at_def of_nat_diff)

lemma push_loop_stop: "seqadd cu = 0 \<Longrightarrow> push_loop ty bytes sz mx start re ps cu = Some (ps, 0, cu)"
  by (cases ps) simp_all

definition filled :: "seqno \<Rightarrow> (nat \<Rightarrow> byte) \<Rightarrow> nat \<Rightarrow> nat \<Rightarrow> nat \<Rightarrow> nat \<Rightarrow> (nat \<times> nat) list \<Rightarrow> SeqPacket list \<times> seqno \<times> cursor \<Rightarrow> bool" where
  "filled s0 str A a0 e r ps = (\<lambda>(l, added, cu).
     seqadd cu = 0 \<and> map (pkt s0 str) (fill r e ps) = l \<and> of_nat (amount_of (fill r e ps)) = of_nat (amount_of ps) + added \<or>
     (\<exists>r'. r \<le> r' \<and> r' < e \<and> cu = cur_at s0 A a0 e r' \<and> map (pkt s0 str) (fill r e ps) = l @ [pkt s0 str (r', e - r')] \<and>
       of_nat (amount_of (fill r e ps)) = of_nat (amount_of ps) + added + of_nat (e - r')))"

lemma push_loop_fill:
  assumes "A \<le> lo" "lo \<le> r" "r < e" "a0 \<le> r" "e \<le> a0 + n0" "n0 < 2 ^ 31" "mx < 2 ^ 31" "e \<le> A + mx" "ordered lo ps"
    "\<And>a n. (a, n) \<in> set ps \<Longrightarrow> a + n \<le> A + mx"
  shows "\<exists>x. push_loop TYPE_DATA (seg str a0 n0) sz (of_nat mx) (s0 + of_nat A) (of_nat (e - A)) (map (pkt s0 str) ps) (cur_at s0 A a0 e r) = Some x \<and>
    filled s0 str A a0 e r ps x"
  using assms
proof (induction ps arbitrary: lo r)
  case Nil
  then show ?case by (auto simp: filled_def intro!: exI [of _ r])
next
  case (Cons p ps)
  obtain a n where p: "p = (a, n)" by (cases p)
  let ?P = "pkt s0 str" and ?cu = "cur_at s0 A a0 e"
  let ?loop = "push_loop TYPE_DATA (seg str a0 n0) sz (of_nat mx) (s0 + of_nat A) (of_nat (e - A))"
  have o: "lo \<le> a" "0 < n" "ordered (a + n) ps" and an: "a + n \<le> A + mx" using Cons.prems(9,10) p by auto
  define r1 where "r1 = max r (min e a)"
  define r2 where "r2 = max r (min e (a + n))"
  define ins where "ins = (if r < a then [(r, r1 - r)] else [])"
  have fl: "fill r e (p # ps) = ins @ p # fill r2 e ps" using Cons.prems(3) by (auto simp: p ins_def r1_def r2_def)
  have relSeq: "(s0 + of_nat a) - (s0 + of_nat A) = (of_nat (a - A) :: 32 word)" using o Cons.prems(1) by (intro w32_diff) simp
  have cmp: "(of_nat (r - A) :: 32 word) < of_nat (a - A) \<longleftrightarrow> r < a" "\<not> (of_nat mx :: 32 word) \<le> of_nat (a - A)" "(of_nat (e - r) :: 32 word) \<noteq> 0"
    using o an Cons.prems w32_less [of "r - A" "a - A"] w32_le [of mx "a - A"] w32_eq [of "e - r" 0] by auto
  have first: "fill_gap TYPE_DATA (seg str a0 n0) sz (of_nat (a - A)) (?cu r) = Some (map ?P ins, of_nat (r1 - r), ?cu r1)"
  proof (cases "r < a")
    case True
    have d: "(of_nat (a - A) - of_nat (r - A) :: 32 word) = of_nat (a - r)" using True Cons.prems by (simp add: of_nat_diff)
    have "min (of_nat (e - r)) (of_nat (a - A) - of_nat (r - A) :: 32 word) = of_nat (r1 - r)"
      unfolding d using True Cons.prems o an by (subst w32_min) (auto simp: r1_def min_def)
    moreover have "cb_packet TYPE_DATA (seg str a0 n0) sz (?cu r) (of_nat (r1 - r)) = Some (?P (r, r1 - r))"
      using Cons.prems True by (intro cb_packet_seg) (auto simp: r1_def)
    moreover have "advance (?cu r) (of_nat (r1 - r)) = ?cu (r + (r1 - r))" using Cons.prems True by (intro advance_cur) (auto simp: r1_def)
    moreover have "r + (r1 - r) = r1" by (simp add: r1_def)
    ultimately show ?thesis using True cmp by (simp add: ins_def fill_gap_def)
  qed (use cmp in \<open>simp add: ins_def r1_def fill_gap_def\<close>)
  have end1: "(of_nat (a - A) + of_nat n :: 32 word) = of_nat (a + n - A)" using o Cons.prems(1) by (simp add: of_nat_diff)
  have r1: "r \<le> r1" "r1 \<le> e" "A \<le> r1" "a0 \<le> r1" using Cons.prems by (auto simp: r1_def)
  have cmp2: "(of_nat (r1 - A) :: 32 word) < of_nat (a + n - A) \<longleftrightarrow> r1 < a + n" "(of_nat (e - A) :: 32 word) \<le> of_nat (a + n - A) \<longleftrightarrow> e \<le> a + n"
    using o an Cons.prems r1 w32_less [of "r1 - A" "a + n - A"] w32_le [of "e - A" "a + n - A"] by auto
  define cu2 where "cu2 = skip_dup (of_nat (e - A)) (of_nat (a - A) + of_nat n) (?cu r1)"
  have step: "?loop (map ?P (p # ps)) (?cu r) = do { (l, ad, cu') \<leftarrow> ?loop (map ?P ps) cu2; Some (map ?P ins @ ?P p # l, of_nat (r1 - r) + ad, cu') }"
    using first cmp relSeq unfolding p cu2_def by simp
  have am: "amount_of (fill r e (p # ps)) = (r1 - r) + n + amount_of (fill r2 e ps)" unfolding fl by (auto simp: p ins_def r1_def)
  have am': "(of_nat (amount_of (fill r e (p # ps))) :: 32 word) = of_nat (r1 - r) + of_nat n + of_nat (amount_of (fill r2 e ps))" unfolding am of_nat_add ..
  show ?case
  proof (cases "r2 < e")
    case True
    then have an2: "a + n \<le> r2" "a + n < e" by (auto simp: r2_def)
    have "cu2 = ?cu r2"
    proof (cases "r1 < a + n")
      case t: True
      then have "r2 = a + n" "r1 = max r a" using an2 o(2) by (auto simp: r1_def r2_def)
      moreover have "(of_nat (a + n - A) - of_nat (r1 - A) :: 32 word) = of_nat (a + n - r1)" using t r1 by (simp add: of_nat_diff)
      moreover have "advance (?cu r1) (of_nat (a + n - r1)) = ?cu (r1 + (a + n - r1))" using r1 t an2 by (intro advance_cur) auto
      ultimately show ?thesis unfolding cu2_def end1 skip_dup_def using t cmp2 an2 by simp
    next
      case f: False
      then have "r2 = r1" using an2 o(2) by (auto simp: r1_def r2_def)
      then show ?thesis unfolding cu2_def end1 skip_dup_def using f cmp2 by simp
    qed
    moreover have "\<exists>x. ?loop (map ?P ps) (?cu r2) = Some x \<and> filled s0 str A a0 e r2 ps x"
      using Cons.prems an2 o True by (intro Cons.IH [of "a + n"]) (auto simp: r2_def)
    ultimately obtain l ad cu' where x: "?loop (map ?P ps) cu2 = Some (l, ad, cu')" "filled s0 str A a0 e r2 ps (l, ad, cu')" by auto
    have rr: "r \<le> r2" by (simp add: r2_def)
    from x(2) have "filled s0 str A a0 e r (p # ps) (map ?P ins @ ?P p # l, of_nat (r1 - r) + ad, cu')"
      unfolding filled_def prod.case
    proof (elim disjE exE conjE)
      assume "seqadd cu' = 0" "map ?P (fill r2 e ps) = l" "(of_nat (amount_of (fill r2 e ps)) :: 32 word) = of_nat (amount_of ps) + ad"
      then show "seqadd cu' = 0 \<and> map ?P (fill r e (p # ps)) = map ?P ins @ ?P p # l \<and>
        of_nat (amount_of (fill r e (p # ps))) = of_nat (amount_of (p # ps)) + (of_nat (r1 - r) + ad) \<or> Q" for Q
        unfolding am' unfolding fl by (simp add: p)
    next
      fix r'
      assume "r2 \<le> r'" "r' < e" "cu' = ?cu r'" "map ?P (fill r2 e ps) = l @ [?P (r', e - r')]"
        "(of_nat (amount_of (fill r2 e ps)) :: 32 word) = of_nat (amount_of ps) + ad + of_nat (e - r')"
      then show "Q \<or> (\<exists>r'. r \<le> r' \<and> r' < e \<and> cu' = ?cu r' \<and> map ?P (fill r e (p # ps)) = (map ?P ins @ ?P p # l) @ [?P (r', e - r')] \<and>
        of_nat (amount_of (fill r e (p # ps))) = of_nat (amount_of (p # ps)) + (of_nat (r1 - r) + ad) + of_nat (e - r'))" for Q
        unfolding am' unfolding fl using rr by (intro disjI2 exI [of _ r']) (simp add: p)
    qed
    then show ?thesis using step x(1) by simp
  next
    case False
    then have r2: "r2 = e" using Cons.prems(3) by (auto simp: r2_def)
    have "seqadd cu2 = 0"
    proof (cases "r1 < a + n")
      case True
      then have "e \<le> a + n" using r2 Cons.prems(3) by (auto simp: r1_def r2_def)
      with True show ?thesis unfolding cu2_def end1 skip_dup_def using cmp2 by simp
    next
      case f: False
      then have "r1 = e" using r2 o(2) by (auto simp: r1_def r2_def)
      then show ?thesis unfolding cu2_def end1 skip_dup_def using f cmp2 by simp
    qed
    then have x: "?loop (map ?P ps) cu2 = Some (map ?P ps, 0, cu2)" by (rule push_loop_stop)
    have "filled s0 str A a0 e r (p # ps) (map ?P ins @ ?P p # map ?P ps, of_nat (r1 - r), cu2)"
      using \<open>seqadd cu2 = 0\<close> unfolding filled_def prod.case am' unfolding fl r2 by (simp add: fill_done p)
    then show ?thesis using step x by simp
  qed
qed

section \<open>The buffer as part of a stream\<close>

fun chain :: "nat \<Rightarrow> (nat \<times> nat) list \<Rightarrow> nat \<Rightarrow> bool" where
  "chain c [] d = (c = d)"
| "chain c ((a, n) # ps) d = (a = c \<and> 0 < n \<and> chain (a + n) ps d)"

text \<open>
  \<open>A\<close> bytes have been pulled and \<open>K\<close> acknowledged: the packets \<open>pre\<close> have everything between, the first of them perhaps
  bytes that are pulled already, and \<open>post\<close> are behind the acknowledged ones.
\<close>

definition parts :: "nat \<Rightarrow> nat \<Rightarrow> nat \<Rightarrow> (nat \<times> nat) list \<Rightarrow> (nat \<times> nat) list \<Rightarrow> bool" where
  "parts mx A K pre post = (A \<le> K \<and> K \<le> A + mx \<and> (\<exists>c. c \<le> A \<and> chain c pre K \<and> (pre = [] \<longrightarrow> c = A)) \<and>
     (\<forall>(a, n) \<in> set pre. A < a + n \<and> n \<le> mx) \<and> ordered K post \<and> (\<forall>(a, n) \<in> set post. a + n \<le> A + mx))"

definition holds :: "seqno \<Rightarrow> (nat \<Rightarrow> byte) \<Rightarrow> nat \<Rightarrow> nat \<Rightarrow> nat \<Rightarrow> (nat \<times> nat) list \<Rightarrow> CircularBuf \<Rightarrow> bool" where
  "holds s0 str mx A K ps b = (seqStart b = s0 + of_nat A \<and> seqAcked b = s0 + of_nat K \<and> cbMax b = of_nat mx \<and>
     packets b = map (pkt s0 str) ps \<and> cbCurrent b = of_nat (amount_of ps))"

lemma chain_le: "chain c ps d \<Longrightarrow> c \<le> d"
  by (induction c ps d rule: chain.induct) auto

lemma chain_in: "chain c ps d \<Longrightarrow> (a, n) \<in> set ps \<Longrightarrow> c \<le> a \<and> 0 < n \<and> a + n \<le> d"
  by (induction c ps d rule: chain.induct) (auto dest: chain_le)

lemma chain_append: "chain c ps d \<Longrightarrow> chain d qs e \<Longrightarrow> chain c (ps @ qs) e"
  by (induction c ps d rule: chain.induct) auto

lemma chain_second: "chain c (p # ps) d \<Longrightarrow> x \<in> set ps \<Longrightarrow> fst p + snd p \<le> fst x"
  using chain_in [of "c + snd p" ps d "fst x" "snd x"] by (cases p) auto

lemma w32_far: "a < A \<Longrightarrow> A - a \<le> 2 ^ 31 \<Longrightarrow> mx < 2 ^ 31 \<Longrightarrow> (of_nat mx :: 32 word) < (s + of_nat a) - (s + of_nat A)"
  by (subst w32_neg_diff) (auto simp: w32_less)

text \<open>The acknowledged packets are passed.\<close>

lemma push_loop_pass:
  assumes "A \<le> r" "a0 \<le> r" "r < e" "e \<le> A + mx" "mx < 2 ^ 31"
    "\<And>a n. (a, n) \<in> set pre \<Longrightarrow> a + n \<le> r \<and> A < a + n \<and> 0 < n \<and> n \<le> mx"
  shows "push_loop ty bytes sz (of_nat mx) (s0 + of_nat A) re (map (pkt s0 str) pre @ ps) (cur_at s0 A a0 e r) =
    map_option (\<lambda>(l, a, cu'). (map (pkt s0 str) pre @ l, a, cu')) (push_loop ty bytes sz (of_nat mx) (s0 + of_nat A) re ps (cur_at s0 A a0 e r))"
  using assms(6)
proof (induction pre)
  case Nil
  then show ?case by (simp add: case_prod_unfold option.map_ident)
next
  case (Cons p pre)
  obtain a n where p: "p = (a, n)" by (cases p)
  then have an: "a + n \<le> r" "A < a + n" "0 < n" "n \<le> mx" using Cons.prems [of a n] by auto
  have ne: "(of_nat (e - r) :: 32 word) \<noteq> 0" using assms w32_eq [of "e - r" 0] by auto
  let ?loop = "push_loop ty bytes sz (of_nat mx) (s0 + of_nat A) re" and ?cu = "cur_at s0 A a0 e r"
  have IH: "?loop (map (pkt s0 str) pre @ ps) ?cu = map_option (\<lambda>(l, a, cu'). (map (pkt s0 str) pre @ l, a, cu')) (?loop ps ?cu)"
    using Cons.prems by (intro Cons.IH) auto
  have step: "?loop (pkt s0 str p # map (pkt s0 str) pre @ ps) ?cu = map_option (\<lambda>(l, a, cu'). (pkt s0 str p # l, a, cu')) (?loop (map (pkt s0 str) pre @ ps) ?cu)"
  proof (cases "a < A")
    case True
    then have "(of_nat mx :: 32 word) < (s0 + of_nat a) - (s0 + of_nat A)" using an assms(5) by (intro w32_far) auto
    then have "(of_nat mx :: 32 word) \<le> pstart (pkt s0 str p) - (s0 + of_nat A)" by (simp add: p)
    then show ?thesis using ne by simp
  next
    case False
    then have rel: "pstart (pkt s0 str p) - (s0 + of_nat A) = of_nat (a - A)" using w32_diff [of A a s0] by (simp add: p)
    have c: "\<not> (of_nat (r - A) :: 32 word) < of_nat (a - A)" "\<not> (of_nat mx :: 32 word) \<le> of_nat (a - A)" "\<not> (of_nat (r - A) :: 32 word) < of_nat (a + n - A)"
      using False an assms by (simp_all add: w32_less w32_le)
    have "(of_nat (a - A) + psize (pkt s0 str p) :: 32 word) = of_nat (a + n - A)" using False by (simp add: p of_nat_diff)
    then have "skip_dup re (of_nat (a - A) + psize (pkt s0 str p)) ?cu = ?cu" using c by (simp add: skip_dup_def)
    moreover have "fill_gap ty bytes sz (of_nat (a - A)) ?cu = Some ([], 0, ?cu)" using c by (simp add: fill_gap_def)
    ultimately show ?thesis using ne rel c by (cases "?loop (map (pkt s0 str) pre @ ps) ?cu") auto
  qed
  show ?case unfolding list.map append_Cons step IH by (simp add: option.map_comp comp_def case_prod_unfold)
qed

text \<open>Which segments are not rejected: those that reach into the window, but not over it.\<close>

definition usable :: "nat \<Rightarrow> nat \<Rightarrow> nat \<Rightarrow> nat \<Rightarrow> nat \<Rightarrow> bool" where
  "usable mx A K a n = (if a < A then K = A \<and> A < a + n else if a < K then K \<le> a + n \<and> a + n \<le> A + mx else a < A + mx)"

definition segment :: "nat \<Rightarrow> nat \<Rightarrow> nat \<Rightarrow> nat \<Rightarrow> nat \<Rightarrow> bool" where
  "segment mx A K a n = (0 < n \<and> n \<le> mx \<and> A \<le> a + 2 ^ 31 \<and> a + n \<le> A + 2 ^ 31 \<and> (A \<le> a \<or> K = A \<or> a + n < K))"

lemma w32_rel: "A \<le> a + 2 ^ 31 \<Longrightarrow> (s0 + of_nat a) - (s0 + of_nat A) = (of_nat (if A \<le> a then a - A else 2 ^ 32 - (A - a)) :: 32 word)"
  using w32_diff [of A a s0] w32_neg_diff [of a A s0] by auto

lemma push_guard:
  fixes s0 :: seqno
  assumes "segment mx A K a n" "A \<le> K" "K \<le> A + mx" "mx < 2 ^ 31"
  defines "rs \<equiv> (s0 + of_nat a) - (s0 + of_nat A)" and "re \<equiv> s0 + of_nat a + of_nat n - (s0 + of_nat A)"
  shows "(rs < of_nat (K - A) \<or> rs \<ge> of_nat mx) \<and> (re < of_nat (K - A) \<or> re > of_nat mx \<or> re = 0) \<longleftrightarrow> \<not> usable mx A K a n"
proof -
  define s where "s = (if A \<le> a then a - A else 2 ^ 32 - (A - a))"
  define e where "e = (if A \<le> a + n then a + n - A else 2 ^ 32 - (A - (a + n)))"
  have g: "0 < n" "n \<le> mx" "A \<le> a + 2 ^ 31" "a + n \<le> A + 2 ^ 31" "A \<le> a \<or> K = A \<or> a + n < K" using assms(1) by (auto simp: segment_def)
  have rs: "rs = of_nat s" using w32_rel [OF g(3), of s0] by (simp add: rs_def s_def)
  have re: "re = of_nat e" using w32_rel [of A "a + n" s0] g(3) by (simp add: re_def e_def add.assoc)
  have b: "s < 2 ^ 32" "e < 2 ^ 32" "K - A < 2 ^ 32" "mx < 2 ^ 32" using g assms(3,4) by (auto simp: s_def e_def)
  have "re = 0 \<longleftrightarrow> e = 0" unfolding re using w32_eq [of e 0] b by simp
  then have "?thesis \<longleftrightarrow> ((s < K - A \<or> mx \<le> s) \<and> (e < K - A \<or> mx < e \<or> e = 0) \<longleftrightarrow> \<not> usable mx A K a n)"
    unfolding rs re using b by (simp add: w32_less w32_le)
  moreover have "(s < K - A \<or> mx \<le> s) \<and> (e < K - A \<or> mx < e \<or> e = 0) \<longleftrightarrow> \<not> usable mx A K a n"
    using g assms(2-4) unfolding usable_def s_def e_def by (cases "A \<le> a"; cases "A \<le> a + n"; cases "a < K"; simp; linarith)
  ultimately show ?thesis by blast
qed

lemma push_cursor:
  fixes s0 rs re :: seqno
  assumes "segment mx A K a n" "usable mx A K a n" "A \<le> K" "K \<le> A + mx" "mx < 2 ^ 31"
    and rs_def: "rs = (s0 + of_nat a) - (s0 + of_nat A)" and re_def: "re = s0 + of_nat a + of_nat n - (s0 + of_nat A)"
    and r_def: "r = max a K" and e_def: "e = min (a + n) (A + mx)"
    and cu_def: "cu = clip_start (of_nat (K - A)) (of_nat mx) \<lparr>relStart = rs, curSeq = s0 + of_nat a, curOff = 0, seqadd = of_nat n\<rparr>"
  shows "(if re > of_nat mx then cu\<lparr>seqadd := seqadd cu - (re - of_nat mx)\<rparr> else cu) = cur_at s0 A a e r" "min re (of_nat mx) = of_nat (e - A)"
proof -
  have g: "0 < n" "n \<le> mx" "A \<le> a + 2 ^ 31" "a + n \<le> A + 2 ^ 31" "A \<le> a \<or> K = A \<or> a + n < K" using assms(1) by (auto simp: segment_def)
  have an: "A \<le> a + n" "r \<le> a + n" using assms(2,3) g by (auto simp: usable_def r_def split: if_splits)
  have re: "re = of_nat (a + n - A)" using w32_rel [of A "a + n" s0] an g(3) by (simp add: re_def add.assoc)
  show "min re (of_nat mx) = of_nat (e - A)" unfolding re using g assms(5) an by (subst w32_min) (auto simp: e_def min_def)
  have cu: "cu = cur_at s0 A a (a + n) r"
  proof (cases "a < A")
    case True
    then have u: "K = A" "r = A" using assms(2) by (auto simp: usable_def r_def)
    have "rs > of_nat mx" unfolding rs_def using True g assms(5) by (intro w32_far) auto
    then have far: "of_nat mx \<le> rs" by simp
    have "- rs = of_nat (A - a)" "of_nat n - of_nat (A - a) = (of_nat (a + n - A) :: 32 word)" "s0 + of_nat a - rs = s0 + of_nat A"
      unfolding rs_def using True an by (simp_all add: of_nat_diff)
    then show ?thesis unfolding cu_def clip_start_def advance_def cur_at_def u using far by simp
  next
    case False
    then have rs: "rs = of_nat (a - A)" unfolding rs_def by (intro w32_diff) simp
    have lt: "rs < of_nat (K - A) \<longleftrightarrow> a < K" unfolding rs using False g assms(3-5) by (subst w32_less) auto
    show ?thesis
    proof (cases "a < K")
      case True
      then have "r = K" "(of_nat (K - A) - of_nat (a - A) :: 32 word) = of_nat (K - a)" "K \<le> a + n" using False an by (simp_all add: r_def of_nat_diff)
      then show ?thesis unfolding cu_def clip_start_def advance_def cur_at_def using True lt False by (simp add: rs of_nat_diff)
    next
      case f: False
      then have "a < A + mx" "r = a" using assms(2) False by (auto simp: usable_def r_def)
      then have "\<not> of_nat mx \<le> rs" unfolding rs using False assms(5) by (subst w32_le) auto
      then show ?thesis unfolding cu_def clip_start_def cur_at_def using lt f \<open>r = a\<close> by (simp add: rs)
    qed
  qed
  show "(if re > of_nat mx then cu\<lparr>seqadd := seqadd cu - (re - of_nat mx)\<rparr> else cu) = cur_at s0 A a e r"
  proof (cases "mx < a + n - A")
    case True
    then have "of_nat mx < re" unfolding re using g by (subst w32_less) auto
    moreover have "r \<le> e" "e = A + mx" using True assms(2-4) an by (auto simp: usable_def r_def e_def split: if_splits)
    moreover from this True have "(of_nat (a + n - r) - (re - of_nat mx) :: 32 word) = of_nat (e - r)"
      unfolding re using an by (simp add: of_nat_diff)
    ultimately show ?thesis unfolding cu by (simp add: cur_at_def)
  next
    case False
    then have "\<not> of_nat mx < re" unfolding re using g assms(5) by (subst w32_less) auto
    moreover have "e = a + n" using False an by (simp add: e_def)
    ultimately show ?thesis unfolding cu by simp
  qed
qed

lemma push_loop_all:
  assumes "parts mx A K pre post" "mx < 2 ^ 31" "a0 \<le> r" "K \<le> r" "r \<le> e" "e \<le> a0 + n0" "n0 \<le> mx" "e \<le> A + mx" "r = e \<Longrightarrow> pre \<noteq> []"
  shows "\<exists>l ad cu. push_loop TYPE_DATA (seg str a0 n0) sz (of_nat mx) (s0 + of_nat A) (of_nat (e - A)) (map (pkt s0 str) (pre @ post)) (cur_at s0 A a0 e r) = Some (l, ad, cu) \<and>
    (\<exists>l' ad'. (if map (pkt s0 str) (pre @ post) = [] \<or> seqadd cu > 0
        then do { q \<leftarrow> cb_packet TYPE_DATA (seg str a0 n0) sz cu (seqadd cu); Some (l @ [q], ad + seqadd cu) } else Some (l, ad)) = Some (l', ad') \<and>
      map (pkt s0 str) (pre @ fill r e post) = l' \<and> of_nat (amount_of (pre @ fill r e post)) = of_nat (amount_of (pre @ post)) + ad')"
proof (cases "r < e")
  case False
  then have "r = e" "pre \<noteq> []" using assms(5,9) by auto
  then show ?thesis by (simp add: push_loop_stop fill_done)
next
  case True
  have p: "A \<le> K" "K \<le> A + mx" "ordered K post" and post: "\<And>a n. (a, n) \<in> set post \<Longrightarrow> a + n \<le> A + mx"
    and pre: "(a, n) \<in> set pre \<Longrightarrow> a + n \<le> r \<and> A < a + n \<and> 0 < n \<and> n \<le> mx" for a n
    using assms(1,4) by (auto simp: parts_def dest: chain_in)
  obtain l ad cu where x: "push_loop TYPE_DATA (seg str a0 n0) sz (of_nat mx) (s0 + of_nat A) (of_nat (e - A)) (map (pkt s0 str) post) (cur_at s0 A a0 e r) = Some (l, ad, cu)"
    and fl: "filled s0 str A a0 e r post (l, ad, cu)"
    using push_loop_fill [of A K r e a0 n0 mx post str sz s0] p post assms True by auto
  have y: "push_loop TYPE_DATA (seg str a0 n0) sz (of_nat mx) (s0 + of_nat A) (of_nat (e - A)) (map (pkt s0 str) (pre @ post)) (cur_at s0 A a0 e r) =
    Some (map (pkt s0 str) pre @ l, ad, cu)"
    unfolding map_append using p assms True pre by (subst push_loop_pass) (auto simp: x)
  from fl consider "seqadd cu = 0" "map (pkt s0 str) (fill r e post) = l" "(of_nat (amount_of (fill r e post)) :: 32 word) = of_nat (amount_of post) + ad"
    | r' where "r \<le> r'" "r' < e" "cu = cur_at s0 A a0 e r'" "map (pkt s0 str) (fill r e post) = l @ [pkt s0 str (r', e - r')]"
      "(of_nat (amount_of (fill r e post)) :: 32 word) = of_nat (amount_of post) + ad + of_nat (e - r')"
    unfolding filled_def prod.case by blast
  then show ?thesis
  proof cases
    case 1
    have "\<not> (pre = [] \<and> post = [])"
    proof
      assume "pre = [] \<and> post = []"
      then have "cu = cur_at s0 A a0 e r" using x by simp
      then have "of_nat (e - r) = (0 :: 32 word)" using 1(1) by simp
      moreover have "e - r < 2 ^ 32" using assms by simp
      ultimately show False using True w32_eq [of "e - r" 0] by simp
    qed
    then show ?thesis unfolding y using 1 by auto
  next
    case 2
    have "e - r' < 2 ^ 32" using assms(2,3,6,7) 2(1) by simp
    then have "0 < seqadd cu" using 2(2,3) w32_less [of 0 "e - r'"] by simp
    moreover have "cb_packet TYPE_DATA (seg str a0 n0) sz cu (seqadd cu) = Some (pkt s0 str (r', e - r'))"
      unfolding 2(3) cur_at_simps using 2(1,2) assms by (intro cb_packet_seg) auto
    moreover have "seqadd cu = of_nat (e - r')" using 2(3) by simp
    ultimately show ?thesis unfolding y using 2(4,5) by simp
  qed
qed

lemma push_accepted:
  assumes "of_nat (length bytes) \<le> cbMax b" "cbCurrent b \<noteq> cbMax b" "rs = seq - seqStart b" "re = seq + of_nat (length bytes) - seqStart b"
    "\<not> ((rs < seqAcked b - seqStart b \<or> rs \<ge> cbMax b) \<and> (re < seqAcked b - seqStart b \<or> re > cbMax b \<or> re = 0))"
    "cu = clip_start (seqAcked b - seqStart b) (cbMax b) \<lparr>relStart = rs, curSeq = seq, curOff = 0, seqadd = of_nat (length bytes)\<rparr>"
    "(if re > cbMax b then cu\<lparr>seqadd := seqadd cu - (re - cbMax b)\<rparr> else cu) = cu1"
    "push_loop TYPE_DATA bytes (of_nat (length bytes)) (cbMax b) (seqStart b) (min re (cbMax b)) (packets b) cu1 = Some (l, ad, c)"
    "(if packets b = [] \<or> seqadd c > 0
       then do { q \<leftarrow> cb_packet TYPE_DATA bytes (of_nat (length bytes)) c (seqadd c); Some (l @ [q], ad + seqadd c) } else Some (l, ad)) = Some (l', ad')"
  shows "push b seq TYPE_DATA bytes = Some (sint ad', b\<lparr>packets := l', cbCurrent := cbCurrent b + ad', cbCurData := cbCurData b + ad'\<rparr>)"
proof -
  have e: "TYPE_DATA = TYPE_CTRL \<longleftrightarrow> False" by simp
  have g: "(rs < seqAcked b - seqStart b \<or> rs \<ge> cbMax b) \<and> (re < seqAcked b - seqStart b \<or> re > cbMax b \<or> re = 0) \<longleftrightarrow> False" using assms(5) by blast
  have m: "cbCurrent b = cbMax b \<longleftrightarrow> False" using assms(2) by simp
  show ?thesis
    unfolding push_def Let_def e if_False simp_thms(22,23,24) m assms(3) [symmetric] assms(4) [symmetric] g assms(6) [symmetric] assms(7,8) using assms(1,9) by simp
qed

lemma push_segment:
  assumes b: "holds s0 str mx A K (pre @ post) b" and p: "parts mx A K pre post" and mx: "mx < 2 ^ 31" and s: "segment mx A K a n"
  shows "push b (s0 + of_nat a) TYPE_DATA (seg str a n) = Some (- EINVAL, b) \<and> (cbCurrent b = cbMax b \<or> \<not> usable mx A K a n) \<or>
    (cbCurrent b \<noteq> cbMax b \<and> usable mx A K a n \<and> (\<exists>x b'. push b (s0 + of_nat a) TYPE_DATA (seg str a n) = Some (x, b') \<and>
      holds s0 str mx A K (pre @ fill (max a K) (min (a + n) (A + mx)) post) b'))"
proof -
  have v: "seqStart b = s0 + of_nat A" "seqAcked b = s0 + of_nat K" "cbMax b = of_nat mx" "packets b = map (pkt s0 str) (pre @ post)"
    "cbCurrent b = of_nat (amount_of (pre @ post))" using b by (auto simp: holds_def)
  have k: "A \<le> K" "K \<le> A + mx" using p by (auto simp: parts_def)
  have win: "(s0 + of_nat K) - (s0 + of_nat A) = (of_nat (K - A) :: 32 word)" using k by (intro w32_diff)
  have n: "0 < n" "n \<le> mx" and fits: "(of_nat n :: 32 word) \<le> of_nat mx" using s mx by (auto simp: segment_def w32_le)
  let ?rs = "(s0 + of_nat a) - (s0 + of_nat A)" and ?re = "s0 + of_nat a + of_nat n - (s0 + of_nat A)"
  note guard = push_guard [OF s k mx, of s0]
  show ?thesis
  proof (cases "cbCurrent b = cbMax b \<or> \<not> usable mx A K a n")
    case True
    then have "push b (s0 + of_nat a) TYPE_DATA (seg str a n) = Some (- EINVAL, b)"
      unfolding push_def v(1-3) win seg_length Let_def using guard fits by (auto simp: v(3))
    with True show ?thesis by blast
  next
    case False
    then have u: "usable mx A K a n" and cur: "cbCurrent b \<noteq> of_nat mx" using v(3) by auto
    define r where "r = max a K"
    define e where "e = min (a + n) (A + mx)"
    note cu = push_cursor [OF s u k mx refl refl r_def e_def refl, of s0]
    have re: "r \<le> e" "r = e \<Longrightarrow> pre \<noteq> []" "e \<le> a + n" "e \<le> A + mx" "a \<le> r" "K \<le> r"
      using u k n p by (auto simp: usable_def parts_def r_def e_def split: if_splits)
    obtain l ad c l' ad' where
      x: "push_loop TYPE_DATA (seg str a n) (of_nat n) (of_nat mx) (s0 + of_nat A) (of_nat (e - A)) (map (pkt s0 str) (pre @ post)) (cur_at s0 A a e r) = Some (l, ad, c)"
      and y: "(if map (pkt s0 str) (pre @ post) = [] \<or> seqadd c > 0
        then do { q \<leftarrow> cb_packet TYPE_DATA (seg str a n) (of_nat n) c (seqadd c); Some (l @ [q], ad + seqadd c) } else Some (l, ad)) = Some (l', ad')"
      and z: "map (pkt s0 str) (pre @ fill r e post) = l'" "of_nat (amount_of (pre @ fill r e post)) = of_nat (amount_of (pre @ post)) + ad'"
      using push_loop_all [OF p mx re(5,6,1,3) n(2) re(4,2), of str "of_nat n" s0] by blast
    have ng: "\<not> ((?rs < of_nat (K - A) \<or> ?rs \<ge> of_nat mx) \<and> (?re < of_nat (K - A) \<or> ?re > of_nat mx \<or> ?re = 0))" using guard u by blast
    have "push b (s0 + of_nat a) TYPE_DATA (seg str a n) =
      Some (sint ad', b\<lparr>packets := l', cbCurrent := cbCurrent b + ad', cbCurData := cbCurData b + ad'\<rparr>)"
      by (rule push_accepted [OF _ _ refl refl _ refl, where ?l = l and ?ad = ad and ?c = c]; unfold seg_length v(1-4) win cu)
        (rule fits cur [unfolded v(3)] ng refl x y)+
    moreover have "holds s0 str mx A K (pre @ fill r e post) (b\<lparr>packets := l', cbCurrent := cbCurrent b + ad', cbCurData := cbCurData b + ad'\<rparr>)"
      using v z by (simp add: holds_def)
    ultimately show ?thesis using False u unfolding r_def e_def by blast
  qed
qed

lemma parts_fill: "parts mx A K pre post \<Longrightarrow> K \<le> r \<Longrightarrow> e \<le> A + mx \<Longrightarrow> parts mx A K pre (fill r e post)"
  unfolding parts_def using fill_ordered [of K post r e] by (auto dest!: fill_bounds)

text \<open>\<open>getAck\<close> moves the packets up to the first hole to the acknowledged ones.\<close>

lemma ordered_in: "ordered lo ps \<Longrightarrow> (a, n) \<in> set ps \<Longrightarrow> lo \<le> a \<and> 0 < n"
  by (induction lo ps rule: ordered.induct) auto

lemma ack_run_split:
  assumes "ordered K post" "\<And>a n. (a, n) \<in> set post \<Longrightarrow> a + n < K + 2 ^ 32"
  shows "\<exists>p1 p2 K'. post = p1 @ p2 \<and> chain K p1 K' \<and> ordered K' p2 \<and> K' \<notin> cover p2 \<and> ack_run (map (pkt s0 str) post) (s0 + of_nat K) = s0 + of_nat K'"
  using assms
proof (induction post arbitrary: K)
  case (Cons p post)
  obtain a n where p: "p = (a, n)" by (cases p)
  have o: "K \<le> a" "0 < n" "ordered (a + n) post" "a + n < K + 2 ^ 32" using Cons.prems p by auto
  show ?case
  proof (cases "a = K")
    case True
    have ih: "\<exists>p1 p2 K'. post = p1 @ p2 \<and> chain (a + n) p1 K' \<and> ordered K' p2 \<and> K' \<notin> cover p2 \<and> ack_run (map (pkt s0 str) post) (s0 + of_nat (a + n)) = s0 + of_nat K'"
      by (rule Cons.IH [OF o(3)], rule less_le_trans, rule Cons.prems(2)) (use True in auto)
    then obtain p1 p2 K' where "post = p1 @ p2" "chain (a + n) p1 K'" "ordered K' p2" "K' \<notin> cover p2"
      "ack_run (map (pkt s0 str) post) (s0 + of_nat (a + n)) = s0 + of_nat K'" by blast
    then show ?thesis using True o by (intro exI [of _ "p # p1"] exI [of _ p2] exI [of _ K']) (simp add: p add.assoc)
  next
    case False
    then have "(s0 + of_nat a :: 32 word) \<noteq> s0 + of_nat K" using w32_diff [of K a s0] w32_eq [of "a - K" 0] o by auto
    moreover have "K \<notin> cover (p # post)" using ordered_in [OF o(3)] False o by (fastforce simp: p cover_def)
    ultimately show ?thesis using Cons.prems by (intro exI [of _ "[]"] exI [of _ "p # post"] exI [of _ K]) (simp add: p)
  qed
qed simp

lemma drop_start: "(\<And>p. p \<in> set ps \<Longrightarrow> pstart p \<noteq> k) \<Longrightarrow> dropWhile (\<lambda>p. pstart p \<noteq> k) (ps @ qs) = dropWhile (\<lambda>p. pstart p \<noteq> k) qs"
  by (induction ps) auto

lemma ack_run_drop:
  assumes "\<And>p. p \<in> set (tl ps) \<Longrightarrow> pstart p \<noteq> k"
  shows "ack_run (dropWhile (\<lambda>p. pstart p \<noteq> k) ps) k = ack_run ps k"
proof (cases ps)
  case (Cons p ps')
  show ?thesis
  proof (cases "pstart p = k")
    case False
    then have "\<forall>q\<in>set ps. pstart q \<noteq> k" using assms Cons by auto
    then have "dropWhile (\<lambda>p. pstart p \<noteq> k) ps = []" by (simp add: dropWhile_eq_Nil_conv)
    then show ?thesis using False by (simp only: ack_run.simps Cons if_True if_False not_False_eq_True)
  qed (simp add: Cons)
qed simp

lemma w32_other: "x \<noteq> y \<Longrightarrow> x < y + 2 ^ 32 \<Longrightarrow> y < x + 2 ^ 32 \<Longrightarrow> (s0 + of_nat x :: 32 word) \<noteq> s0 + of_nat y"
  using w32_diff [of y x s0] w32_diff [of x y s0] w32_eq [of "x - y" 0] w32_eq [of "y - x" 0] by (cases "x < y") auto

lemma chain_last: "chain c ps d \<Longrightarrow> c = d \<or> (\<exists>a n. (a, n) \<in> set ps \<and> a + n = d)"
  by (induction c ps d rule: chain.induct) auto

lemma getAck_holds:
  assumes b: "holds s0 str mx A K (pre @ post) b" and p: "parts mx A K pre post" and mx: "mx < 2 ^ 31"
  shows "\<exists>p1 p2 K'. post = p1 @ p2 \<and> chain K p1 K' \<and> K' \<notin> cover post \<and> parts mx A K' (pre @ p1) p2 \<and> fst (getAck b) = s0 + of_nat K' \<and>
    holds s0 str mx A K' ((pre @ p1) @ p2) (snd (getAck b))"
proof -
  have k: "A \<le> K" "K \<le> A + mx" "ordered K post" and post: "\<And>a n. (a, n) \<in> set post \<Longrightarrow> a + n \<le> A + mx" using p by (auto simp: parts_def)
  have pre: "(s0 + of_nat a :: 32 word) \<noteq> s0 + of_nat K" if "(a, n) \<in> set pre" for a n
  proof -
    have "A < a + n \<and> n \<le> mx \<and> 0 < n \<and> a + n \<le> K" using p that by (auto simp: parts_def dest: chain_in)
    then show ?thesis using k mx by (intro w32_other) auto
  qed
  have later: "(s0 + of_nat a :: 32 word) \<noteq> s0 + of_nat K" if "(a, n) \<in> set (tl post)" for a n
  proof -
    have "post \<noteq> []" using that by auto
    then obtain a1 n1 ps where ps: "post = (a1, n1) # ps" by (cases post) auto
    then have "K < a" using k(3) that ordered_in [of "a1 + n1" ps a n] by auto
    moreover have "a + n \<le> A + mx" using that ps post by auto
    ultimately show ?thesis using k mx by (intro w32_other) auto
  qed
  have near: "a + n < K + 2 ^ 32" if "(a, n) \<in> set post" for a n using post [OF that] k(1) mx by simp
  obtain p1 p2 K' where s: "post = p1 @ p2" "chain K p1 K'" "ordered K' p2" "K' \<notin> cover p2"
    and r: "ack_run (map (pkt s0 str) post) (s0 + of_nat K) = s0 + of_nat K'"
    using ack_run_split [OF k(3) near, of s0 str] by blast
  have "K' \<notin> cover p1" using chain_in [OF s(2)] by (fastforce simp: cover_def)
  then have hole: "K' \<notin> cover post" using s by simp
  have d: "dropWhile (\<lambda>p. pstart p \<noteq> s0 + of_nat K) (map (pkt s0 str) (pre @ post)) = dropWhile (\<lambda>p. pstart p \<noteq> s0 + of_nat K) (map (pkt s0 str) post)"
    unfolding map_append using pre by (intro drop_start) auto
  have a: "ack_run (dropWhile (\<lambda>p. pstart p \<noteq> s0 + of_nat K) (map (pkt s0 str) post)) (s0 + of_nat K) = s0 + of_nat K'"
    using later by (subst ack_run_drop) (auto simp: r map_tl [symmetric])
  have v: "seqAcked b = s0 + of_nat K" "packets b = map (pkt s0 str) (pre @ post)" using b by (simp_all add: holds_def)
  have g: "getAck b = (s0 + of_nat K', b\<lparr>seqAcked := s0 + of_nat K'\<rparr>)" unfolding getAck_def Let_def v d a ..
  have K': "K \<le> K'" "K' \<le> A + mx" using chain_le [OF s(2)] chain_last [OF s(2)] s(1) post k(2) by auto
  have new: "A < a + n \<and> n \<le> mx" if "(a, n) \<in> set p1" for a n using chain_in [OF s(2) that] post [of a n] that s(1) k(1) by auto
  obtain c where c: "c \<le> A" "chain c pre K" "pre = [] \<longrightarrow> c = A" using p by (auto simp: parts_def)
  have "parts mx A K' (pre @ p1) p2"
    unfolding parts_def using p s(1,3) K' k(1) new chain_append [OF c(2) s(2)] c by (auto simp: parts_def)
  then show ?thesis using b g s hole by (auto simp: holds_def)
qed

text \<open>\<open>pull\<close> takes the acknowledged bytes in the order of the stream.\<close>

lemma getOffset_diff: "getOffset p seq = seq - pstart p"
  by (simp add: getOffset_def)

lemma parts_shift:
  assumes "parts mx A K ((a, n) # pre) post" "A + k < a + n"
  shows "parts mx (A + k) K ((a, n) # pre) post"
proof -
  obtain c where c: "c \<le> A" "chain c ((a, n) # pre) K" using assms(1) by (auto simp: parts_def)
  have "a + n \<le> K" using chain_in [OF c(2), of a n] by simp
  moreover have "A + k < a' + n'" if "(a', n') \<in> set pre" for a' n' using chain_second [OF c(2) that] assms(2) by simp
  ultimately show ?thesis using assms c unfolding parts_def by (auto simp: ac_simps intro: le_trans [OF _ le_add2] exI [of _ c])
qed

lemma parts_pop:
  assumes "parts mx A K ((a, n) # pre) post"
  shows "parts mx (a + n) K pre post"
proof -
  obtain c where c: "c \<le> A" "chain c ((a, n) # pre) K" using assms by (auto simp: parts_def)
  have an: "a + n \<le> K" "A < a + n" using chain_in [OF c(2), of a n] assms by (auto simp: parts_def)
  moreover have "a + n < a' + n'" if "(a', n') \<in> set pre" for a' n' using chain_second [OF c(2) that] chain_in [OF c(2), of a' n'] that by simp
  moreover have "chain (a + n) pre K" using c(2) by auto
  ultimately show ?thesis using assms unfolding parts_def by auto
qed

lemma pull_loop_holds:
  assumes "holds s0 str mx A K (pre @ post) (b\<lparr>packets := map (pkt s0 str) (pre @ post)\<rparr>)" "parts mx A K pre post" "mx < 2 ^ 31" "sz < 2 ^ 32"
  shows "\<exists>pre' b' sz'. pull_loop True (map (pkt s0 str) (pre @ post)) b (of_nat sz) = (seg str A (min sz (K - A)), sz', b') \<and>
    parts mx (A + min sz (K - A)) K pre' post \<and> holds s0 str mx (A + min sz (K - A)) K (pre' @ post) b'"
  using assms
proof (induction pre arbitrary: A b sz)
  case Nil
  then have "K = A" by (auto simp: parts_def)
  have v: "seqStart b = s0 + of_nat A" "seqAcked b = s0 + of_nat A" using Nil.prems(1) \<open>K = A\<close> by (simp_all add: holds_def)
  have "pull_loop True (map (pkt s0 str) post) b (of_nat sz) = ([], of_nat sz, b\<lparr>packets := map (pkt s0 str) post\<rparr>)"
    by (cases post) (auto simp: v getOffset_diff)
  then show ?case using Nil.prems \<open>K = A\<close> by (auto simp: seg_def intro!: exI [of _ "[]"])
next
  case (Cons p pre)
  obtain a n where p: "p = (a, n)" by (cases p)
  note pt = Cons.prems(2) [unfolded p]
  have an: "a \<le> A" "A < a + n" "n \<le> mx" "a + n \<le> K" "K \<le> A + mx" using pt chain_in [of _ "(a, n) # pre" K a n] by (auto simp: parts_def)
  have v: "seqStart b = s0 + of_nat A" "seqAcked b = s0 + of_nat K" "cbMax b = of_nat mx" "cbCurrent b = of_nat (n + amount_of (pre @ post))"
    using Cons.prems(1) by (simp_all add: holds_def p)
  have off: "(of_nat A - of_nat a :: 32 word) = of_nat (A - a)" "(of_nat n - of_nat (A - a) :: 32 word) = of_nat (a + n - A)" using an by (simp_all add: of_nat_diff)
  have acked: "(s0 + of_nat K) - (s0 + of_nat A) = (of_nat (K - A) :: 32 word)" "\<not> (of_nat (K - A) :: 32 word) \<le> 0"
    using an Cons.prems(3) w32_diff [of A K s0] w32_le [of "K - A" 0] by auto
  define m where "m = min sz (a + n - A)"
  have am: "min (of_nat sz) (of_nat (a + n - A) :: 32 word) = of_nat m" unfolding m_def using Cons.prems an by (intro w32_min) auto
  have out: "take (unat (of_nat m :: 32 word)) (drop (unat (of_nat (A - a) :: 32 word)) (seg str a n)) = seg str A m"
    using an Cons.prems(3) seg_take_drop [of "A - a" m n str a] by (simp add: m_def w32_unat)
  show ?case
  proof (cases "sz = 0")
    case True
    then show ?thesis using Cons.prems by (intro exI [of _ "p # pre"]) (simp add: seg_def)
  next
    case False
    then have nz: "(of_nat sz :: 32 word) \<noteq> 0" using Cons.prems(4) w32_eq [of sz 0] by simp
    let ?b1 = "b\<lparr>seqStart := s0 + of_nat (A + m)\<rparr>"
    let ?b2 = "?b1\<lparr>cbCurrent := of_nat (amount_of (pre @ post)), cbCurData := cbCurData b - of_nat n\<rparr>"
    have step: "pull_loop True (map (pkt s0 str) ((a, n) # pre @ post)) b (of_nat sz) =
      (if (of_nat m :: 32 word) \<noteq> of_nat (a + n - A) then (seg str A m, of_nat (sz - m), ?b1\<lparr>packets := map (pkt s0 str) ((a, n) # pre @ post)\<rparr>)
       else let (o', sz2, b2) = pull_loop True (map (pkt s0 str) (pre @ post)) ?b2 (of_nat (sz - m)) in (seg str A m @ o', sz2, b2))"
    proof -
      have w: "s0 + of_nat A + of_nat m = s0 + of_nat (A + m)" "(of_nat sz - of_nat m :: 32 word) = of_nat (sz - m)"
        "s0 + of_nat A - (s0 + of_nat a) = (of_nat (A - a) :: 32 word)" using an w32_diff [of a A s0] by (simp_all add: m_def of_nat_diff)
      have d: "TYPE_DATA = TYPE_DATA \<longleftrightarrow> True" by simp
      have "\<not> of_nat (K - A) \<le> (s0 + of_nat a - (s0 + of_nat A)) + of_nat (A - a)" using acked(2) by (simp add: algebra_simps flip: off(1))
      then show ?thesis
        unfolding list.map pull_loop.simps Let_def v(1,2) getOffset_diff pkt_simps acked(1) w off(2) d simp_thms if_True am out
        using nz v(4) by simp
    qed
    show ?thesis
    proof (cases "sz < a + n - A")
      case True
      then have m: "m = sz" "(of_nat m :: 32 word) \<noteq> of_nat (a + n - A)" "min sz (K - A) = sz" using an Cons.prems w32_eq [of sz "a + n - A"] by (auto simp: m_def)
      have "parts mx (A + sz) K ((a, n) # pre) post" using pt True by (intro parts_shift) auto
      moreover have "holds s0 str mx (A + sz) K (((a, n) # pre) @ post) (?b1\<lparr>packets := map (pkt s0 str) ((a, n) # pre @ post)\<rparr>)" using v m by (simp add: holds_def)
      ultimately show ?thesis using step m p by (intro exI [of _ "(a, n) # pre"]) simp
    next
      case f: False
      then have m: "m = a + n - A" "A + m = a + n" using an by (auto simp: m_def)
      have "holds s0 str mx (a + n) K (pre @ post) (?b2\<lparr>packets := map (pkt s0 str) (pre @ post)\<rparr>)" using v m by (simp add: holds_def)
      moreover have "sz - m < 2 ^ 32" using Cons.prems(4) by simp
      ultimately obtain pre' b' sz' where r: "pull_loop True (map (pkt s0 str) (pre @ post)) ?b2 (of_nat (sz - m)) = (seg str (a + n) (min (sz - m) (K - (a + n))), sz', b')"
        "parts mx (a + n + min (sz - m) (K - (a + n))) K pre' post" "holds s0 str mx (a + n + min (sz - m) (K - (a + n))) K (pre' @ post) b'"
        using Cons.IH [OF _ parts_pop [OF pt] Cons.prems(3), of ?b2 "sz - m"] by blast
      have e: "min sz (K - A) = m + min (sz - m) (K - (a + n))" "A + (m + min (sz - m) (K - (a + n))) = a + n + min (sz - m) (K - (a + n))" using f m an by auto
      have "seg str A m @ seg str (a + n) (min (sz - m) (K - (a + n))) = seg str A (min sz (K - A))" unfolding e using m(2) seg_append [of str A m] by simp
      then show ?thesis using step m(1) r unfolding p e by (intro exI [of _ pre'] exI [of _ b'] exI [of _ sz']) simp
    qed
  qed
qed

section \<open>Receiving\<close>

text \<open>
  The receiving side of a connection, with the bytes that have been pulled. The other side sends segments of the stream in any
  order and repeats them. An old segment, which starts before the window, may reach the acknowledged position only
  when everything acknowledged is pulled (see \<open>push_old_segment\<close> below for what happens otherwise).
\<close>

record tcp_state =
  tbuf :: CircularBuf
  delivered :: "byte list"

definition tcp0 :: "seqno \<Rightarrow> nat \<Rightarrow> tcp_state" where
  "tcp0 s0 mx = \<lparr>tbuf = cb_init s0 (of_nat mx), delivered = []\<rparr>"

definition tcp_acked :: "tcp_state \<Rightarrow> nat" where
  "tcp_acked st = length (delivered st) + unat (seqAcked (tbuf st) - seqStart (tbuf st))"

definition tcp_segment :: "nat \<Rightarrow> tcp_state \<Rightarrow> nat \<Rightarrow> nat \<Rightarrow> bool" where
  "tcp_segment mx st a n = segment mx (length (delivered st)) (tcp_acked st) a n"

inductive tcp_step :: "seqno \<Rightarrow> (nat \<Rightarrow> byte) \<Rightarrow> nat \<Rightarrow> tcp_state \<Rightarrow> tcp_state \<Rightarrow> bool" for s0 str mx where
  tcp_push: "tcp_segment mx st a n \<Longrightarrow> push (tbuf st) (s0 + of_nat a) TYPE_DATA (seg str a n) = Some (x, b) \<Longrightarrow> tcp_step s0 str mx st (st\<lparr>tbuf := b\<rparr>)"
| tcp_ack: "getAck (tbuf st) = (k, b) \<Longrightarrow> tcp_step s0 str mx st (st\<lparr>tbuf := b\<rparr>)"
| tcp_pull: "pull (tbuf st) sz = (bytes, b) \<Longrightarrow> tcp_step s0 str mx st \<lparr>tbuf = b, delivered = delivered st @ bytes\<rparr>"

definition tcp_at :: "seqno \<Rightarrow> (nat \<Rightarrow> byte) \<Rightarrow> nat \<Rightarrow> tcp_state \<Rightarrow> nat \<Rightarrow> (nat \<times> nat) list \<Rightarrow> (nat \<times> nat) list \<Rightarrow> bool" where
  "tcp_at s0 str mx st K pre post = (mx < 2 ^ 31 \<and> parts mx (length (delivered st)) K pre post \<and>
     holds s0 str mx (length (delivered st)) K (pre @ post) (tbuf st) \<and> delivered st = seg str 0 (length (delivered st)))"

definition tcp_inv :: "seqno \<Rightarrow> (nat \<Rightarrow> byte) \<Rightarrow> nat \<Rightarrow> tcp_state \<Rightarrow> bool" where
  "tcp_inv s0 str mx st = (\<exists>K pre post. tcp_at s0 str mx st K pre post)"

lemma tcp_at_acked: "tcp_at s0 str mx st K pre post \<Longrightarrow> tcp_acked st = K"
  using w32_diff [of "length (delivered st)" K s0] w32_unat [of "K - length (delivered st)"] by (auto simp: tcp_at_def tcp_acked_def holds_def parts_def)

lemma tcp_push_at:
  assumes "tcp_at s0 str mx st K pre post" "tcp_segment mx st a n"
  shows "\<exists>x b. push (tbuf st) (s0 + of_nat a) TYPE_DATA (seg str a n) = Some (x, b) \<and>
    (b = tbuf st \<and> (cbCurrent (tbuf st) = cbMax (tbuf st) \<or> \<not> usable mx (length (delivered st)) K a n) \<or>
     usable mx (length (delivered st)) K a n \<and> tcp_at s0 str mx (st\<lparr>tbuf := b\<rparr>) K pre (fill (max a K) (min (a + n) (length (delivered st) + mx)) post))"
proof -
  have t: "holds s0 str mx (length (delivered st)) K (pre @ post) (tbuf st)" "parts mx (length (delivered st)) K pre post" "mx < 2 ^ 31"
    "segment mx (length (delivered st)) K a n" using assms tcp_at_acked [OF assms(1)] by (auto simp: tcp_at_def tcp_segment_def)
  from push_segment [OF t] show ?thesis
    using assms(1) parts_fill [OF t(2), of "max a K" "min (a + n) (length (delivered st) + mx)"] by (auto simp: tcp_at_def)
qed

lemma tcp_ack_at:
  assumes "tcp_at s0 str mx st K pre post"
  shows "\<exists>p1 p2 K'. post = p1 @ p2 \<and> chain K p1 K' \<and> K' \<notin> cover post \<and> fst (getAck (tbuf st)) = s0 + of_nat K' \<and>
    tcp_at s0 str mx (st\<lparr>tbuf := snd (getAck (tbuf st))\<rparr>) K' (pre @ p1) p2"
proof -
  have t: "holds s0 str mx (length (delivered st)) K (pre @ post) (tbuf st)" "parts mx (length (delivered st)) K pre post" "mx < 2 ^ 31"
    using assms by (auto simp: tcp_at_def)
  from getAck_holds [OF t] show ?thesis using assms by (fastforce simp: tcp_at_def)
qed

lemma tcp_pull_at:
  assumes "tcp_at s0 str mx st K pre post" and A: "A = length (delivered st)"
  shows "fst (pull (tbuf st) sz) = seg str A (min (unat sz) (K - A)) \<and>
    (\<exists>pre'. tcp_at s0 str mx \<lparr>tbuf = snd (pull (tbuf st) sz), delivered = delivered st @ fst (pull (tbuf st) sz)\<rparr> K pre' post)"
proof -
  let ?n = "min (unat sz) (K - A)"
  have t: "holds s0 str mx A K (pre @ post) (tbuf st)" "parts mx A K pre post" "mx < 2 ^ 31" and d: "delivered st = seg str 0 A"
    using assms by (simp_all add: tcp_at_def)
  have pk: "packets (tbuf st) = map (pkt s0 str) (pre @ post)" 
    and h: "holds s0 str mx A K (pre @ post) (tbuf st\<lparr>packets := map (pkt s0 str) (pre @ post)\<rparr>)"
    using t(1) by (simp_all add: holds_def)
  have u: "unat sz < 2 ^ 32" using unsigned_less [of sz, where 'a = nat] by simp
  obtain pre' b' sz' where p: "pull_loop True (packets (tbuf st)) (tbuf st) sz = (seg str A ?n, sz', b')"
    "parts mx (A + ?n) K pre' post" "holds s0 str mx (A + ?n) K (pre' @ post) b'"
    using pull_loop_holds [OF h t(2,3) u] unfolding pk of_nat_unat ucast_id by blast
  have "pull (tbuf st) sz = (seg str A ?n, b')" by (simp add: pull_def p(1))
  moreover have "tcp_at s0 str mx \<lparr>tbuf = b', delivered = delivered st @ seg str A ?n\<rparr> K pre' post"
    unfolding tcp_at_def using p(2,3) t(3) seg_append [of str 0 A ?n, folded d] by (simp add: A [symmetric])
  ultimately show ?thesis by auto
qed

lemma tcp_step_inv: "tcp_step s0 str mx st st' \<Longrightarrow> tcp_inv s0 str mx st \<Longrightarrow> tcp_inv s0 str mx st'"
proof (induction rule: tcp_step.cases)
  case (tcp_push st a n x b)
  then obtain K pre post where "tcp_at s0 str mx st K pre post" by (auto simp: tcp_inv_def)
  from tcp_push_at [OF this tcp_push(3)] this tcp_push(2,4) show ?case by (auto simp: tcp_inv_def) blast+
next
  case (tcp_ack st k b)
  then obtain K pre post where "tcp_at s0 str mx st K pre post" by (auto simp: tcp_inv_def)
  from tcp_ack_at [OF this] show ?case using tcp_ack by (auto simp: tcp_inv_def)
next
  case (tcp_pull st sz bytes b)
  then obtain K pre post where "tcp_at s0 str mx st K pre post" by (auto simp: tcp_inv_def)
  from tcp_pull_at [OF this refl, of sz] show ?case using tcp_pull by (auto simp: tcp_inv_def)
qed

lemma tcp0_inv: "mx < 2 ^ 31 \<Longrightarrow> tcp_inv s0 str mx (tcp0 s0 mx)"
  unfolding tcp_inv_def tcp_at_def
  by (intro exI [of _ 0] exI [of _ "[]"]) (simp add: tcp0_def cb_init_def parts_def holds_def seg_def)

interpretation tcp_runs: transitions "tcp_step s0 str mx" "\<lambda>st. mx < 2 ^ 31 \<and> st = tcp0 s0 mx" "tcp_inv s0 str mx" for s0 str mx
  by unfold_locales (auto simp: tcp0_inv intro: tcp_step_inv)

text \<open>C13: The receiver delivers the stream. Segments of a stream of bytes, none of them empty or longer than the window, arrive in any order, repeated and overlapping, in a
  window of less than 2^31 bytes anywhere in the 32-bit sequence numbers, mixed with acknowledgements and pulls of any size. One
  kind of segment is excluded, for which the code is wrong: while there are acknowledged bytes that have not been pulled, a segment that
  starts before the first of them and does not end before the acknowledged position. In runs without it the pulled bytes are the
  first bytes of the stream, without a gap, a repetition or a change, and \<open>push\<close> of any further segment of the allowed
  kinds neither fails its assertion nor reads behind the data.
\<close>

theorem tcp_stream:
  assumes "(tcp_step s0 str mx)\<^sup>*\<^sup>* (tcp0 s0 mx) st" "mx < 2 ^ 31"
  shows "delivered st = map str [0..<length (delivered st)] \<and>
    (tcp_segment mx st a n \<longrightarrow> push (tbuf st) (s0 + of_nat a) TYPE_DATA (seg str a n) \<noteq> None)"
proof -
  have "tcp_inv s0 str mx st" using assms(1) by (rule tcp_runs.reachable) (use assms(2) in simp)
  then obtain K pre post where t: "tcp_at s0 str mx st K pre post" by (auto simp: tcp_inv_def)
  then have "delivered st = seg str 0 (length (delivered st))" by (simp add: tcp_at_def)
  then have "delivered st = map str [0..<length (delivered st)]" by (simp add: seg_def)
  moreover have "push (tbuf st) (s0 + of_nat a) TYPE_DATA (seg str a n) \<noteq> None" if "tcp_segment mx st a n" using tcp_push_at [OF t that] by auto
  ultimately show ?thesis by blast
qed

text \<open>C14: After any run as in the property before, that is without old segments that reach up to the acknowledged position while acknowledged bytes are
  not pulled, a segment that starts where the acknowledged bytes end is taken: when it is not empty and within the window and the
  buffer is not full (\<open>_current\<close> differs from \<open>_max\<close>), the next acknowledgement covers it, and what is acknowledged can be pulled.
\<close>

theorem tcp_progress:
  assumes "(tcp_step s0 str mx)\<^sup>*\<^sup>* (tcp0 s0 mx) st" "mx < 2 ^ 31" "a = tcp_acked st" "0 < n" "a + n \<le> length (delivered st) + mx" "cbCurrent (tbuf st) \<noteq> cbMax (tbuf st)"
  shows "\<exists>x b k. push (tbuf st) (s0 + of_nat a) TYPE_DATA (seg str a n) = Some (x, b) \<and> fst (getAck b) = s0 + of_nat k \<and> a + n \<le> k \<and>
    fst (pull (snd (getAck b)) sz) = seg str (length (delivered st)) (min (unat sz) (k - length (delivered st)))"
proof -
  let ?A = "length (delivered st)" and ?e = "min (a + n) (length (delivered st) + mx)"
  have "tcp_inv s0 str mx st" using assms(1) by (rule tcp_runs.reachable) (use assms(2) in simp)
  then obtain pre post where t: "tcp_at s0 str mx st a pre post" using tcp_at_acked assms(3) by (auto simp: tcp_inv_def)
  have p: "?A \<le> a" "ordered a post" using t by (auto simp: tcp_at_def parts_def)
  have "tcp_segment mx st a n" "usable mx ?A a a n" using assms p(1) by (auto simp: tcp_segment_def segment_def usable_def)
  then obtain x b where b: "push (tbuf st) (s0 + of_nat a) TYPE_DATA (seg str a n) = Some (x, b)"
    "tcp_at s0 str mx (st\<lparr>tbuf := b\<rparr>) a pre (fill (max a a) ?e post)" using tcp_push_at [OF t] assms(6) by blast
  from tcp_ack_at [OF b(2)] obtain p1 p2 k where k: "chain a p1 k" "k \<notin> cover (fill a ?e post)" "fst (getAck b) = s0 + of_nat k"
    "tcp_at s0 str mx (st\<lparr>tbuf := snd (getAck b)\<rparr>) k (pre @ p1) p2" by auto
  have "k \<notin> {a..<a + n}" using k(2) fill_cover [OF p(2), of a ?e] assms(5) by auto
  then have "a + n \<le> k" using chain_le [OF k(1)] by auto
  moreover have "fst (pull (snd (getAck b)) sz) = seg str ?A (min (unat sz) (k - ?A))" using tcp_pull_at [OF k(4) refl, of sz] by simp
  ultimately show ?thesis using b(1) k(3) by blast
qed

text \<open>
  A run over the end of the sequence numbers: the stream starts at \<open>- 4\<close>, the second segment comes first, and five bytes
  are pulled.
\<close>

definition demo_bytes :: "nat \<Rightarrow> byte" where
  "demo_bytes i = of_nat (i * 3)"

definition demo_push :: "nat \<Rightarrow> nat \<Rightarrow> CircularBuf \<Rightarrow> CircularBuf" where
  "demo_push a n b = (case push b (- 4 + of_nat a) TYPE_DATA (seg demo_bytes a n) of Some (x, b') \<Rightarrow> b' | None \<Rightarrow> b)"

definition demo_tcp :: tcp_state where
  "demo_tcp = (let (o', b) = pull (snd (getAck (demo_push 0 6 (demo_push 4 8 (cb_init (- 4) 16))))) 5 in \<lparr>tbuf = b, delivered = o'\<rparr>)"

lemma demo_tcp_run: "(tcp_step (- 4) demo_bytes 16)\<^sup>*\<^sup>* (tcp0 (- 4) 16) demo_tcp"
proof -
  let ?b0 = "cb_init (- 4) 16" and ?s = "tcp_step (- 4) demo_bytes 16"
  let ?b1 = "demo_push 4 8 ?b0" let ?b2 = "demo_push 0 6 ?b1" let ?b3 = "snd (getAck ?b2)"
  have p: "push ?b0 (- 4 + of_nat 4) TYPE_DATA (seg demo_bytes 4 8) = Some (8, ?b1)" "push ?b1 (- 4 + of_nat 0) TYPE_DATA (seg demo_bytes 0 6) = Some (4, ?b2)"
    "unat (seqAcked ?b1 - seqStart ?b1) = 0" by code_simp+
  have "tcp_segment 16 (tcp0 (- 4) 16) 4 8" "tcp_segment 16 \<lparr>tbuf = ?b1, delivered = []\<rparr> 0 6"
    using p(3) by (simp_all add: tcp_segment_def tcp_acked_def segment_def tcp0_def cb_init_def)
  with p have "?s (tcp0 (- 4) 16) \<lparr>tbuf = ?b1, delivered = []\<rparr>" "?s \<lparr>tbuf = ?b1, delivered = []\<rparr> \<lparr>tbuf = ?b2, delivered = []\<rparr>"
    using tcp_push [of 16 "tcp0 (- 4) 16" 4 8 "- 4" demo_bytes 8 ?b1] tcp_push [of 16 "\<lparr>tbuf = ?b1, delivered = []\<rparr>" 0 6 "- 4" demo_bytes 4 ?b2]
    by (simp_all add: tcp0_def)
  moreover have "?s \<lparr>tbuf = ?b2, delivered = []\<rparr> \<lparr>tbuf = ?b3, delivered = []\<rparr>"
    using tcp_ack [of "\<lparr>tbuf = ?b2, delivered = []\<rparr>" "fst (getAck ?b2)" ?b3 "- 4" demo_bytes 16] by simp
  moreover have "?s \<lparr>tbuf = ?b3, delivered = []\<rparr> demo_tcp"
    using tcp_pull [of "\<lparr>tbuf = ?b3, delivered = []\<rparr>" 5 "fst (pull ?b3 5)" "snd (pull ?b3 5)" "- 4" demo_bytes 16] by (simp add: demo_tcp_def case_prod_unfold Let_def)
  ultimately show ?thesis by (meson r_into_rtranclp rtranclp.rtrancl_into_rtrancl)
qed

theorem tcp_stream_witness: "length (delivered demo_tcp) = 5 \<and> delivered demo_tcp = map demo_bytes [0..<5] \<and>
    push (tbuf demo_tcp) (- 4 + of_nat 14) TYPE_DATA (seg demo_bytes 14 7) \<noteq> None"
proof -
  have s: "length (delivered demo_tcp) = 5" "tcp_acked demo_tcp = 12" by code_simp+
  then have "tcp_segment 16 demo_tcp 14 7" by (simp add: tcp_segment_def segment_def)
  moreover have "(16 :: nat) < 2 ^ 31" by simp
  ultimately show ?thesis using tcp_stream [OF demo_tcp_run, of 14 7] s(1) by simp
qed

theorem tcp_progress_witness: "\<exists>x b k. push (tbuf demo_tcp) (- 4 + of_nat 12) TYPE_DATA (seg demo_bytes 12 3) = Some (x, b) \<and>
    fst (getAck b) = - 4 + of_nat k \<and> 15 \<le> k \<and> fst (pull (snd (getAck b)) 10) = seg demo_bytes 5 (min 10 (k - 5))"
proof -
  have s: "12 = tcp_acked demo_tcp" "length (delivered demo_tcp) = 5" "cbCurrent (tbuf demo_tcp) \<noteq> cbMax (tbuf demo_tcp)" by code_simp+
  have "(16 :: nat) < 2 ^ 31" "(0 :: nat) < 3" "12 + 3 \<le> length (delivered demo_tcp) + 16" using s(2) by simp_all
  from tcp_progress [OF demo_tcp_run this(1) s(1) this(2,3) s(3), of 10] show ?thesis by (simp add: s(2))
qed

section \<open>Old segments and full windows\<close>

text \<open>
  An old segment that starts before the window and ends behind the acknowledged bytes, when the first packet is pulled in part:
  its start is moved to the start of the window and not to the acknowledged position. Bytes that were acknowledged are inserted
  a second time in front of the others, and the acknowledged position is never found again: no further segment is acknowledged.
\<close>

definition old_segment :: CircularBuf where
  "old_segment = (case push (snd (pull (snd (getAck (demo_push 4 8 (cb_init 0 1024)))) 4)) 0 TYPE_DATA (seg demo_bytes 4 16) of Some (x, b) \<Rightarrow> b | None \<Rightarrow> cb_init 0 0)"

lemma push_old_segment: "map pstart (packets old_segment) = [0, 4] \<and> map psize (packets old_segment) = [8, 12] \<and> fst (getAck old_segment) = 8 \<and> seqStart old_segment = 4"
  by code_simp

text \<open>
  The bytes of a packet count as used until all of it is pulled, but the window moves with every byte: a segment that fills the
  window after a partial pull makes \<open>current\<close> greater than the size of the window, and \<open>windowSize\<close> is negative: it advertises almost 2^32 bytes.
\<close>

lemma windowSize_wraps: "map_option (windowSize \<circ> snd) (push (snd (pull (snd (getAck (demo_push 4 8 (cb_init 0 16)))) 4)) 8 TYPE_DATA (seg demo_bytes 8 12)) = Some (- 4)"
  by code_simp

end
