(* ===== verification/PhysMem.thy ===== *)
theory PhysMem
  imports MemAreas KErrno Transitions "HOL-Library.Word" "HOL-Library.Multiset"
begin

text \<open>
  Physical memory after boot, \<open>kernel/src/mem/physmem.cc\<close>: a bitmap for contiguous frames, and two stacks for all other frames,
  those that the kernel maps directly and the rest. Some of the free frames are set aside for the kernel (\<open>kframes\<close>) and for
  critical structures (\<open>cframes\<close>). Frame numbers and sizes are 32-bit numbers.
\<close>

unbundle bit_operations_syntax

section \<open>State\<close>

abbreviation BITMAP_PAGE_COUNT :: nat where "BITMAP_PAGE_COUNT \<equiv> 512"
abbreviation BITS_PER_BMWORD :: nat where "BITS_PER_BMWORD \<equiv> 32"
abbreviation DIR_MAP_AREA_SIZE :: nat where "DIR_MAP_AREA_SIZE \<equiv> 0x2E000000"
abbreviation KERNEL_MEM_PERCENT :: nat where "KERNEL_MEM_PERCENT \<equiv> 20"
abbreviation KERNEL_MEM_MIN :: nat where "KERNEL_MEM_MIN \<equiv> 750"

datatype FrameType = CRIT | KERN | USR

text \<open>
  The bitmap is the mapped page; it has more words than \<open>BITMAP_PAGE_COUNT\<close> bits need, which are not cleared. The stacks have the
  next frame at the head; \<open>spages\<close> is the number of pages that a stack has.
\<close>

record StackFrames =
  spages :: nat
  frames :: "nat list"

record physmem =
  bitmapStart :: nat
  bitmap :: "32 word list"
  freeCont :: nat
  lower :: StackFrames
  upper :: StackFrames
  initialized :: bool
  pareas :: memareas
  cframes :: nat
  kframes :: nat
  uframes :: nat

definition bitmapStartFrame :: "physmem \<Rightarrow> nat" where
  "bitmapStartFrame pm = bitmapStart pm div PAGE"

definition lowerStart :: "physmem \<Rightarrow> nat" where
  "lowerStart pm = (bitmapStartFrame pm + BITMAP_PAGE_COUNT) * PAGE mod 2 ^ 32"

definition getFreeDef :: "physmem \<Rightarrow> nat" where
  "getFreeDef pm = length (frames (lower pm)) + length (frames (upper pm))"

section \<open>The stacks and the bitmap\<close>

text \<open>Taking a frame from the empty lower stack reads what is before it.\<close>

definition allocFrame :: "physmem \<Rightarrow> bool \<Rightarrow> (nat \<times> physmem) option" where
  "allocFrame pm forceLower =
     (if \<not> forceLower \<and> length (frames (lower pm)) \<le> kframes pm then
        (case frames (upper pm) of [] \<Rightarrow> Some (INVALID_FRAME, pm) | f # fs \<Rightarrow> Some (f, pm\<lparr>upper := (upper pm)\<lparr>frames := fs\<rparr>\<rparr>))
      else (case frames (lower pm) of [] \<Rightarrow> None | f # fs \<Rightarrow> Some (f, pm\<lparr>lower := (lower pm)\<lparr>frames := fs\<rparr>\<rparr>)))"

text \<open>The check counts entries as bytes; an entry of 4 bytes behind the pages of the stack is a fault.\<close>

definition stack_push :: "StackFrames \<Rightarrow> nat \<Rightarrow> StackFrames option" where
  "stack_push s frame = do {
     vassert (length (frames s) < spages s * PAGE);
     vassert (length (frames s) * 4 < spages s * PAGE);
     Some (s\<lparr>frames := frame # frames s\<rparr>) }"

definition freeFrame :: "physmem \<Rightarrow> nat \<Rightarrow> physmem option" where
  "freeFrame pm frame =
     (if frame * PAGE mod 2 ^ 32 < DIR_MAP_AREA_SIZE then do { s \<leftarrow> stack_push (lower pm) frame; Some (pm\<lparr>lower := s\<rparr>) }
      else do { s \<leftarrow> stack_push (upper pm) frame; Some (pm\<lparr>upper := s\<rparr>) })"

definition bm_mask :: "nat \<Rightarrow> 32 word" where
  "bm_mask j = push_bit ((BITS_PER_BMWORD - 1) - j mod BITS_PER_BMWORD) 1"

definition markUsed :: "physmem \<Rightarrow> nat \<Rightarrow> bool \<Rightarrow> physmem option" where
  "markUsed pm frame used =
     (if frame < bitmapStartFrame pm then Some pm
      else if frame < bitmapStartFrame pm + BITMAP_PAGE_COUNT then
        let j = frame - bitmapStartFrame pm; k = j div BITS_PER_BMWORD in
        if k < length (bitmap pm) then
          Some (if used then pm\<lparr>bitmap := (bitmap pm)[k := (bitmap pm ! k) OR bm_mask j], freeCont := usub (freeCont pm) 1\<rparr>
                else pm\<lparr>bitmap := (bitmap pm)[k := (bitmap pm ! k) AND NOT (bm_mask j)], freeCont := uadd (freeCont pm) 1\<rparr>)
        else None
      else if used then Some pm else freeFrame pm frame)"

text \<open>The loop of \<open>doMarkRangeUsed\<close>; its position wraps round.\<close>

partial_function (option) mark_loop :: "physmem \<Rightarrow> nat \<Rightarrow> nat \<Rightarrow> bool \<Rightarrow> physmem option" where
  "mark_loop pm from to used = (if from < to then do { pm' \<leftarrow> markUsed pm (from div PAGE) used; mark_loop pm' (uadd from PAGE) to used } else Some pm)"

definition doMarkRangeUsed :: "physmem \<Rightarrow> nat \<Rightarrow> nat \<Rightarrow> bool \<Rightarrow> physmem option" where
  "doMarkRangeUsed pm from to used = mark_loop pm (from div PAGE * PAGE) to used"

section \<open>Contiguous frames\<close>

definition ROUND_UP :: "nat \<Rightarrow> nat \<Rightarrow> nat" where
  "ROUND_UP n align = unat ((of_nat n + of_nat align - 1) AND NOT (of_nat align - 1) :: 32 word)"

text \<open>The inner loop: how many of the bits from \<open>j\<close> on, at most \<open>c\<close>, are clear.\<close>

fun clear_run :: "32 word list \<Rightarrow> nat \<Rightarrow> nat \<Rightarrow> nat option" where
  "clear_run bm j 0 = Some 0"
| "clear_run bm j (Suc c) = (if j div BITS_PER_BMWORD < length bm then
     if (bm ! (j div BITS_PER_BMWORD)) AND bm_mask j \<noteq> 0 then Some 0 else map_option Suc (clear_run bm (Suc j) c)
   else None)"

text \<open>The outer loop: the first aligned position that has enough clear bits.\<close>

partial_function (option) cont_search :: "nat \<Rightarrow> 32 word list \<Rightarrow> nat \<Rightarrow> nat \<Rightarrow> nat \<Rightarrow> nat option option" where
  "cont_search start bm cnt align i = (if i < BITMAP_PAGE_COUNT then do {
       c \<leftarrow> clear_run bm i cnt;
       if c = cnt then Some (Some i)
       else cont_search start bm cnt align (usub (ROUND_UP (start + (i + c) + 1) align) start) }
     else Some None)"

text \<open>Without a round of the loop \<open>c\<close> is 0: a request for no frames then succeeds.\<close>

definition allocateContiguous :: "physmem \<Rightarrow> nat \<Rightarrow> nat \<Rightarrow> (int \<times> physmem) option" where
  "allocateContiguous pm cnt align = (let start = bitmapStartFrame pm; i0 = usub (ROUND_UP start align) start in do {
     r \<leftarrow> cont_search start (bitmap pm) cnt align i0;
     case (if cnt = 0 \<and> r = None then Some i0 else r) of
       None \<Rightarrow> Some (- ENOMEM, pm)
     | Some i \<Rightarrow> do {
         pm' \<leftarrow> doMarkRangeUsed pm ((i + start) * PAGE mod 2 ^ 32) ((i + start + cnt) * PAGE mod 2 ^ 32) True;
         Some (int (i + start), pm') } })"

definition freeContiguous :: "physmem \<Rightarrow> nat \<Rightarrow> nat \<Rightarrow> physmem option" where
  "freeContiguous pm first cnt = doMarkRangeUsed pm (first * PAGE mod 2 ^ 32) ((first + cnt) * PAGE mod 2 ^ 32) False"

section \<open>Single frames\<close>

text \<open>Without frames for the kernel, some of the frames for users are taken.\<close>

definition refill :: "physmem \<Rightarrow> physmem" where
  "refill pm = (if kframes pm = 0 then pm\<lparr>kframes := usub (length (frames (lower pm))) (cframes pm) div (100 div KERNEL_MEM_PERCENT)\<rparr> else pm)"

definition pm_allocate :: "physmem \<Rightarrow> FrameType \<Rightarrow> (nat \<times> physmem) option" where
  "pm_allocate pm ty =
     (if \<not> initialized pm then do { (f, as) \<leftarrow> ma_alloc (pareas pm) 1; Some (f, pm\<lparr>pareas := as\<rparr>) }
      else case ty of
        CRIT \<Rightarrow> if cframes pm > 0 then allocFrame (pm\<lparr>cframes := cframes pm - 1\<rparr>) False else Some (INVALID_FRAME, pm)
      | KERN \<Rightarrow> let pm1 = refill pm in
          if kframes pm1 > 0 then allocFrame (pm1\<lparr>kframes := kframes pm1 - 1\<rparr>) True else Some (INVALID_FRAME, pm1)
      | USR \<Rightarrow> if getFreeDef pm > uadd (kframes pm) (cframes pm) then do {
            vassert (uframes pm > 0);
            allocFrame (pm\<lparr>uframes := uframes pm - 1\<rparr>) False }
          else Some (INVALID_FRAME, pm))"

definition pm_free :: "physmem \<Rightarrow> nat \<Rightarrow> FrameType \<Rightarrow> physmem option" where
  "pm_free pm frame ty =
     markUsed (case ty of CRIT \<Rightarrow> pm\<lparr>cframes := uadd (cframes pm) 1\<rparr> | KERN \<Rightarrow> pm\<lparr>kframes := uadd (kframes pm) 1\<rparr> | USR \<Rightarrow> pm) frame False"

text \<open>\<open>reserve\<close> before it waits for the swapper, and the test after it has been woken up. \<open>noswap\<close>: swapping is not possible.\<close>

datatype reserved = Reserved | Refused | WaitSwap

definition enough :: "physmem \<Rightarrow> nat \<Rightarrow> bool" where
  "enough pm n = (getFreeDef pm \<ge> n \<and> getFreeDef pm - n \<ge> uadd (kframes pm) (cframes pm))"

definition reserve :: "physmem \<Rightarrow> nat \<Rightarrow> bool \<Rightarrow> reserved \<times> physmem" where
  "reserve pm n noswap = (if enough pm n then Reserved else if noswap then Refused else WaitSwap, pm\<lparr>uframes := uadd (uframes pm) n\<rparr>)"

definition reserve_again :: "physmem \<Rightarrow> nat \<Rightarrow> reserved" where
  "reserve_again pm n = (if usub (getFreeDef pm) (uadd (kframes pm) (cframes pm)) < n then WaitSwap else Reserved)"

section \<open>Initialisation\<close>

text \<open>The pages of the stacks: the areas are counted in 32 bits.\<close>

definition lower_pages :: "physmem \<Rightarrow> MemArea list \<Rightarrow> nat" where
  "lower_pages pm as = foldl (\<lambda>n a. let aend = uadd (maddr a) (msize a) in
     if maddr a \<ge> lowerStart pm \<or> aend < lowerStart pm then uadd n (usub (min DIR_MAP_AREA_SIZE aend) (maddr a) div PAGE) else n) 0 as"

definition upper_pages :: "MemArea list \<Rightarrow> nat" where
  "upper_pages as = foldl (\<lambda>n a. let aend = uadd (maddr a) (msize a) in
     if aend > DIR_MAP_AREA_SIZE then uadd n (usub aend (max DIR_MAP_AREA_SIZE (maddr a)) div PAGE) else n) 0 as"

text \<open>The frames that are set aside for the kernel.\<close>

definition kernel_mem :: "physmem \<Rightarrow> physmem" where
  "kernel_mem pm = (let free = getFreeDef pm; k = free div (100 div KERNEL_MEM_PERCENT);
     (k, c) = (if k < KERNEL_MEM_MIN then if KERNEL_MEM_MIN > free then (free div 2, free - free div 2) else (KERNEL_MEM_MIN, 0) else (k, 0));
     (k, c) = (if c = 0 then (k - (k * 2) div 3, (k * 2) div 3) else (k, c)) in pm\<lparr>kframes := k, cframes := c\<rparr>)"

section \<open>Owners of frames\<close>

definition is_low :: "nat \<Rightarrow> bool" where
  "is_low f = (f * PAGE < DIR_MAP_AREA_SIZE)"

text \<open>
  The frames on the stacks \<open>L\<close> and \<open>U\<close> and those in use: no frame is there twice, each is behind the bitmap and goes to the stack
  it comes from, the stacks have room for all of them, and what is set aside for the kernel and for critical structures is there.
\<close>

definition frames_ok :: "nat \<Rightarrow> nat list \<Rightarrow> nat list \<Rightarrow> nat \<Rightarrow> nat \<Rightarrow> nat \<Rightarrow> nat \<Rightarrow> (nat \<times> FrameType) list \<Rightarrow> bool" where
  "frames_ok b L U lp up k c own = (
     distinct (L @ U @ map fst own) \<and>
     (\<forall>f \<in> set (L @ U @ map fst own). b + BITMAP_PAGE_COUNT \<le> f \<and> f < 2 ^ 20) \<and>
     (\<forall>f \<in> set L. is_low f) \<and> (\<forall>f \<in> set U. \<not> is_low f) \<and> (\<forall>(f, ty) \<in> set own. ty = KERN \<longrightarrow> is_low f) \<and>
     (length L + length (filter is_low (map fst own))) * 4 \<le> lp * PAGE \<and>
     (length U + length (filter (\<lambda>f. \<not> is_low f) (map fst own))) * 4 \<le> up * PAGE \<and>
     k \<le> length L \<and> k + c \<le> length L + length U)"

lemma frames_ok_take_lower:
  "frames_ok b (f # L) U lp up k c own \<Longrightarrow> k' \<le> length L \<Longrightarrow> k' + c' \<le> length L + length U \<Longrightarrow> frames_ok b L U lp up k' c' ((f, ty) # own)"
  by (auto simp: frames_ok_def)

lemma frames_ok_take_upper:
  "frames_ok b L (f # U) lp up k c own \<Longrightarrow> ty \<noteq> KERN \<Longrightarrow> k' \<le> length L \<Longrightarrow> k' + c' \<le> length L + length U \<Longrightarrow> frames_ok b L U lp up k' c' ((f, ty) # own)"
  by (auto simp: frames_ok_def)

lemma frames_ok_counts: "frames_ok b L U lp up k c own \<Longrightarrow> k' \<le> length L \<Longrightarrow> k' + c' \<le> length L + length U \<Longrightarrow> frames_ok b L U lp up k' c' own"
  by (auto simp: frames_ok_def)

lemma frames_ok_permute: "frames_ok b L U lp up k c own \<Longrightarrow> mset own' = mset own \<Longrightarrow> frames_ok b L U lp up k c own'"
proof -
  assume o: "frames_ok b L U lp up k c own" and m: "mset own' = mset own"
  have s: "set own' = set own" using m by (metis set_mset_mset)
  have f: "mset (map fst own') = mset (map fst own)" using m by simp
  have d: "distinct (L @ U @ map fst own') = distinct (L @ U @ map fst own)" by (rule mset_eq_imp_distinct_iff) (simp add: m)
  have l: "length (filter P (map fst own')) = length (filter P (map fst own))" for P by (metis f mset_filter size_mset)
  show ?thesis using o unfolding frames_ok_def d l by (simp add: s)
qed

lemma frames_ok_put_lower:
  "frames_ok b L U lp up k c ((f, ty) # own) \<Longrightarrow> is_low f \<Longrightarrow> k' \<le> length L + 1 \<Longrightarrow> k' + c' \<le> length L + length U + 1 \<Longrightarrow>
   length L * 4 < lp * PAGE \<and> frames_ok b (f # L) U lp up k' c' own"
  by (auto simp: frames_ok_def)

lemma frames_ok_put_upper:
  "frames_ok b L U lp up k c ((f, ty) # own) \<Longrightarrow> \<not> is_low f \<Longrightarrow> k' \<le> length L \<Longrightarrow> k' + c' \<le> length L + length U + 1 \<Longrightarrow>
   length U * 4 < up * PAGE \<and> frames_ok b L (f # U) lp up k' c' own"
  by (auto simp: frames_ok_def)

lemma frames_ok_small: "frames_ok b L U lp up k c own \<Longrightarrow> k + c < 2 ^ 31"
proof -
  assume o: "frames_ok b L U lp up k c own"
  have d: "distinct (L @ U)" "set (L @ U) \<subseteq> {..<2 ^ 20}" using o by (auto simp: frames_ok_def)
  have "length L + length U = card (set (L @ U))" using distinct_card [OF d(1)] by simp
  also have "\<dots> \<le> 2 ^ 20" using card_mono [OF _ d(2)] by simp
  finally show ?thesis using o by (simp add: frames_ok_def)
qed

definition holds_frames :: "physmem \<Rightarrow> (nat \<times> FrameType) list \<Rightarrow> bool" where
  "holds_frames pm own = (initialized pm \<and>
     frames_ok (bitmapStartFrame pm) (frames (lower pm)) (frames (upper pm)) (spages (lower pm)) (spages (upper pm)) (kframes pm) (cframes pm) own)"

lemma holds_frames_small: "holds_frames pm own \<Longrightarrow> uadd (kframes pm) (cframes pm) = kframes pm + cframes pm"
  using frames_ok_small unfolding holds_frames_def by (intro uadd_small) fastforce

lemma bsf_simps [simp]: "bitmapStartFrame (pm\<lparr>lower := x\<rparr>) = bitmapStartFrame pm" "bitmapStartFrame (pm\<lparr>upper := x\<rparr>) = bitmapStartFrame pm"
  "bitmapStartFrame (pm\<lparr>kframes := n\<rparr>) = bitmapStartFrame pm" "bitmapStartFrame (pm\<lparr>cframes := n\<rparr>) = bitmapStartFrame pm" "bitmapStartFrame (pm\<lparr>uframes := n\<rparr>) = bitmapStartFrame pm"
  by (simp_all add: bitmapStartFrame_def)

lemma invalid_not_frame: "holds_frames pm own \<Longrightarrow> f \<in> set (frames (lower pm)) \<union> set (frames (upper pm)) \<union> fst ` set own \<Longrightarrow> f \<noteq> INVALID_FRAME"
proof -
  assume "holds_frames pm own" "f \<in> set (frames (lower pm)) \<union> set (frames (upper pm)) \<union> fst ` set own"
  then have "f < 2 ^ 20" unfolding holds_frames_def frames_ok_def by auto
  then show ?thesis by simp
qed

text \<open>What \<open>allocFrame\<close> does when the counts are right before and after.\<close>

lemma allocFrame_lower:
  assumes h: "holds_frames pm own" and L: "frames (lower pm) = f # L" and c: "initialized pm'" "bitmapStartFrame pm' = bitmapStartFrame pm"
    "lower pm' = lower pm" "upper pm' = upper pm" "kframes pm' \<le> length L" "kframes pm' + cframes pm' \<le> length L + length (frames (upper pm))"
    and fl: "fl \<or> kframes pm' \<le> length L"
  shows "\<exists>pm''. allocFrame pm' fl = Some (f, pm'') \<and> holds_frames pm'' ((f, ty) # own)"
proof -
  have "allocFrame pm' fl = Some (f, pm'\<lparr>lower := (lower pm')\<lparr>frames := L\<rparr>\<rparr>)" using L c fl by (auto simp: allocFrame_def)
  moreover have "holds_frames (pm'\<lparr>lower := (lower pm')\<lparr>frames := L\<rparr>\<rparr>) ((f, ty) # own)"
    using h c L unfolding holds_frames_def by (auto intro: frames_ok_take_lower)
  ultimately show ?thesis by blast
qed

lemma allocFrame_upper:
  assumes h: "holds_frames pm own" and U: "frames (upper pm) = f # U" and c: "initialized pm'" "bitmapStartFrame pm' = bitmapStartFrame pm"
    "lower pm' = lower pm" "upper pm' = upper pm" "kframes pm' = length (frames (lower pm))" "kframes pm' + cframes pm' \<le> length (frames (lower pm)) + length U" and ty: "ty \<noteq> KERN"
  shows "\<exists>pm''. allocFrame pm' False = Some (f, pm'') \<and> holds_frames pm'' ((f, ty) # own)"
proof -
  have "allocFrame pm' False = Some (f, pm'\<lparr>upper := (upper pm')\<lparr>frames := U\<rparr>\<rparr>)" using U c by (simp add: allocFrame_def)
  moreover have "holds_frames (pm'\<lparr>upper := (upper pm')\<lparr>frames := U\<rparr>\<rparr>) ((f, ty) # own)"
    using h c U ty unfolding holds_frames_def by (auto intro: frames_ok_take_upper)
  ultimately show ?thesis by blast
qed

text \<open>A frame is given exactly if there is one for the kind of request.\<close>

definition available :: "physmem \<Rightarrow> FrameType \<Rightarrow> bool" where
  "available pm ty = (case ty of CRIT \<Rightarrow> cframes pm > 0 | KERN \<Rightarrow> kframes (refill pm) > 0 | USR \<Rightarrow> getFreeDef pm > kframes pm + cframes pm)"

definition may_allocate :: "physmem \<Rightarrow> FrameType \<Rightarrow> bool" where
  "may_allocate pm ty = ((ty = USR \<longrightarrow> uframes pm > 0) \<and> (ty = KERN \<and> kframes pm = 0 \<longrightarrow> cframes pm \<le> length (frames (lower pm))))"

lemma refill_simps [simp]: "initialized (refill pm) = initialized pm" "bitmapStartFrame (refill pm) = bitmapStartFrame pm" "lower (refill pm) = lower pm"
  "upper (refill pm) = upper pm" "cframes (refill pm) = cframes pm" "uframes (refill pm) = uframes pm"
  by (simp_all add: refill_def)

lemma refill_frames:
  assumes "holds_frames pm own" "may_allocate pm KERN"
  shows "holds_frames (refill pm) own"
proof (cases "kframes pm = 0")
  case True
  let ?l = "length (frames (lower pm))"
  have o: "frames_ok (bitmapStartFrame pm) (frames (lower pm)) (frames (upper pm)) (spages (lower pm)) (spages (upper pm)) (kframes pm) (cframes pm) own"
    using assms(1) by (simp add: holds_frames_def)
  have c: "cframes pm \<le> ?l" using assms(2) True by (simp add: may_allocate_def)
  have "frames_ok (bitmapStartFrame pm) (frames (lower pm)) (frames (upper pm)) (spages (lower pm)) (spages (upper pm)) ?l 0 own"
    by (rule frames_ok_counts [OF o]) simp_all
  from frames_ok_small [OF this] have s: "?l < 2 ^ 31" by simp
  have "kframes (refill pm) = (?l - cframes pm) div 5" using True c s by (simp add: refill_def usub_small)
  moreover have "(?l - cframes pm) div 5 + cframes pm \<le> ?l" using c by simp
  ultimately have "frames_ok (bitmapStartFrame pm) (frames (lower pm)) (frames (upper pm)) (spages (lower pm)) (spages (upper pm)) (kframes (refill pm)) (cframes pm) own"
    by (intro frames_ok_counts [OF o]) linarith+
  then show ?thesis using assms(1) by (simp add: holds_frames_def)
qed (use assms in \<open>simp add: refill_def\<close>)

lemma allocFrame_any:
  assumes h: "holds_frames pm own" and c: "initialized pm'" "bitmapStartFrame pm' = bitmapStartFrame pm" "lower pm' = lower pm" "upper pm' = upper pm"
    "kframes pm' = kframes pm" "kframes pm' + cframes pm' < getFreeDef pm" and ty: "ty \<noteq> KERN"
  shows "\<exists>f pm''. allocFrame pm' False = Some (f, pm'') \<and> f \<in> set (frames (lower pm)) \<union> set (frames (upper pm)) \<and> holds_frames pm'' ((f, ty) # own)"
proof (cases "kframes pm < length (frames (lower pm))")
  case True
  then obtain f L where L: "frames (lower pm) = f # L" by (cases "frames (lower pm)") auto
  then have "kframes pm' \<le> length L" "kframes pm' + cframes pm' \<le> length L + length (frames (upper pm))" using True c by (auto simp: getFreeDef_def)
  then obtain pm'' where "allocFrame pm' False = Some (f, pm'')" "holds_frames pm'' ((f, ty) # own)"
    using allocFrame_lower [OF h L c(1-4), where fl = False and ty = ty] by blast
  then show ?thesis using L by (intro exI [of _ f] exI [of _ pm'']) simp
next
  case False
  have k: "kframes pm \<le> length (frames (lower pm))" using h by (simp add: holds_frames_def frames_ok_def)
  then have "frames (upper pm) \<noteq> []" using False c(5,6) by (auto simp: getFreeDef_def)
  then obtain f U where U: "frames (upper pm) = f # U" by (cases "frames (upper pm)") auto
  have "kframes pm' = length (frames (lower pm))" using False k c by simp
  moreover have "kframes pm' + cframes pm' \<le> length (frames (lower pm)) + length U" using U c(6) by (simp add: getFreeDef_def)
  ultimately show ?thesis using allocFrame_upper [OF h U c(1-4) _ _ ty] U by auto
qed

lemma pm_allocate_frames:
  assumes h: "holds_frames pm own" and m: "may_allocate pm ty"
  shows "if available pm ty
    then \<exists>f pm'. pm_allocate pm ty = Some (f, pm') \<and> f \<in> set (frames (lower pm)) \<union> set (frames (upper pm)) \<and> holds_frames pm' ((f, ty) # own)
    else \<exists>pm'. pm_allocate pm ty = Some (INVALID_FRAME, pm') \<and> holds_frames pm' own"
proof -
  have i: "initialized pm" and kc: "kframes pm + cframes pm \<le> getFreeDef pm" using h by (simp_all add: holds_frames_def frames_ok_def getFreeDef_def)
  show ?thesis
  proof (cases ty)
    case CRIT
    have "\<exists>f pm'. allocFrame (pm\<lparr>cframes := cframes pm - 1\<rparr>) False = Some (f, pm') \<and> f \<in> set (frames (lower pm)) \<union> set (frames (upper pm)) \<and> holds_frames pm' ((f, CRIT) # own)"
      if "0 < cframes pm" using that kc i by (intro allocFrame_any [OF h]) auto
    then show ?thesis using i h by (auto simp: pm_allocate_def available_def CRIT)
  next
    case KERN
    have r: "holds_frames (refill pm) own" using refill_frames [OF h] m KERN by simp
    let ?p = "(refill pm)\<lparr>kframes := kframes (refill pm) - 1\<rparr>"
    have "\<exists>f pm'. allocFrame ?p True = Some (f, pm') \<and> f \<in> set (frames (lower pm)) \<and> holds_frames pm' ((f, KERN) # own)" if "0 < kframes (refill pm)"
    proof -
      have k: "kframes (refill pm) \<le> length (frames (lower pm))" "kframes (refill pm) + cframes pm \<le> length (frames (lower pm)) + length (frames (upper pm))"
        using r by (auto simp: holds_frames_def frames_ok_def)
      then have "frames (lower pm) \<noteq> []" using that by auto
      then obtain f L where L: "frames (lower (refill pm)) = f # L" by (cases "frames (lower pm)") auto
      have "\<exists>pm''. allocFrame ?p True = Some (f, pm'') \<and> holds_frames pm'' ((f, KERN) # own)"
        using k that i L by (intro allocFrame_lower [OF r L]) auto
      then show ?thesis using L by auto
    qed
    then show ?thesis using i r by (auto simp: pm_allocate_def available_def KERN Let_def)
  next
    case USR
    have u: "0 < uframes pm" using m USR by (simp add: may_allocate_def)
    have "\<exists>f pm'. allocFrame (pm\<lparr>uframes := uframes pm - 1\<rparr>) False = Some (f, pm') \<and> f \<in> set (frames (lower pm)) \<union> set (frames (upper pm)) \<and> holds_frames pm' ((f, USR) # own)"
      if "kframes pm + cframes pm < getFreeDef pm" using that i by (intro allocFrame_any [OF h]) auto
    then show ?thesis using i h u holds_frames_small [OF h] by (auto simp: pm_allocate_def available_def USR)
  qed
qed

lemma stack_push_ok: "length (frames s) * 4 < spages s * PAGE \<Longrightarrow> stack_push s f = Some (s\<lparr>frames := f # frames s\<rparr>)"
  by (simp add: stack_push_def)

lemma freeFrame_frames:
  assumes h: "holds_frames pm ((f, ty) # own)" and c: "initialized pm'" "bitmapStartFrame pm' = bitmapStartFrame pm" "lower pm' = lower pm" "upper pm' = upper pm"
    "kframes pm' \<le> kframes pm + (if ty = KERN then 1 else 0)" "kframes pm' + cframes pm' \<le> kframes pm + cframes pm + 1"
  shows "\<exists>pm''. markUsed pm' f False = Some pm'' \<and> holds_frames pm'' own"
proof -
  have o: "frames_ok (bitmapStartFrame pm) (frames (lower pm)) (frames (upper pm)) (spages (lower pm)) (spages (upper pm)) (kframes pm) (cframes pm) ((f, ty) # own)"
    using h by (simp add: holds_frames_def)
  then have f: "bitmapStartFrame pm + BITMAP_PAGE_COUNT \<le> f" "f < 2 ^ 20" "ty = KERN \<longrightarrow> is_low f" "kframes pm \<le> length (frames (lower pm))"
    "kframes pm + cframes pm \<le> length (frames (lower pm)) + length (frames (upper pm))" by (auto simp: frames_ok_def)
  have m: "markUsed pm' f False = freeFrame pm' f" using f(1) c(2) by (simp add: markUsed_def)
  have w: "f * PAGE mod 2 ^ 32 = f * PAGE" using f(2) by simp
  show ?thesis
  proof (cases "is_low f")
    case True
    have "length (frames (lower pm)) * 4 < spages (lower pm) * PAGE \<and>
      frames_ok (bitmapStartFrame pm) (f # frames (lower pm)) (frames (upper pm)) (spages (lower pm)) (spages (upper pm)) (kframes pm') (cframes pm') own"
      using c(5,6) f by (intro frames_ok_put_lower [OF o True]) (auto split: if_splits)
    then show ?thesis unfolding m freeFrame_def w using True c by (simp add: is_low_def stack_push_ok holds_frames_def)
  next
    case False
    have "length (frames (upper pm)) * 4 < spages (upper pm) * PAGE \<and>
      frames_ok (bitmapStartFrame pm) (frames (lower pm)) (f # frames (upper pm)) (spages (lower pm)) (spages (upper pm)) (kframes pm') (cframes pm') own"
      using c(5,6) f False by (intro frames_ok_put_upper [OF o False]) (auto split: if_splits)
    then show ?thesis unfolding m freeFrame_def w using False c by (simp add: is_low_def stack_push_ok holds_frames_def)
  qed
qed

lemma pm_free_frames:
  assumes h: "holds_frames pm own" and o: "(f, ty) \<in> set own"
  shows "\<exists>pm'. pm_free pm f ty = Some pm' \<and> holds_frames pm' (remove1 (f, ty) own)"
proof -
  have p: "holds_frames pm ((f, ty) # remove1 (f, ty) own)" using h o unfolding holds_frames_def by (auto intro: frames_ok_permute)
  have "kframes pm + cframes pm < 2 ^ 31" using h frames_ok_small unfolding holds_frames_def by blast
  then have u: "uadd (cframes pm) 1 = cframes pm + 1" "uadd (kframes pm) 1 = kframes pm + 1" by (simp_all add: uadd_small)
  have i: "initialized pm" using h by (simp add: holds_frames_def)
  show ?thesis unfolding pm_free_def u using i by (intro freeFrame_frames [OF p]) (auto split: FrameType.splits)
qed

text \<open>Runs: a frame is freed by its owner and with the kind it was allocated with.\<close>

record pmrun =
  rpm :: physmem
  owned :: "(nat \<times> FrameType) list"

inductive pm_step :: "pmrun \<Rightarrow> pmrun \<Rightarrow> bool" where
  pm_alloc: "may_allocate (rpm s) ty \<Longrightarrow> pm_allocate (rpm s) ty = Some (f, pm) \<Longrightarrow> pm_step s \<lparr>rpm = pm, owned = (if f = INVALID_FRAME then owned s else (f, ty) # owned s)\<rparr>"
| pm_release: "(f, ty) \<in> set (owned s) \<Longrightarrow> pm_free (rpm s) f ty = Some pm \<Longrightarrow> pm_step s \<lparr>rpm = pm, owned = remove1 (f, ty) (owned s)\<rparr>"
| pm_reserve: "reserve (rpm s) n noswap = (r, pm) \<Longrightarrow> pm_step s (s\<lparr>rpm := pm\<rparr>)"

text \<open>The start: the stacks have been filled from the areas, and \<open>init\<close> sets the frames for the kernel aside.\<close>

definition pm_boot :: "physmem \<Rightarrow> bool" where
  "pm_boot pm = (initialized pm \<and> kframes (kernel_mem pm) \<le> length (frames (lower pm)) \<and>
     frames_ok (bitmapStartFrame pm) (frames (lower pm)) (frames (upper pm)) (spages (lower pm)) (spages (upper pm)) 0 0 [])"

definition pm_inv :: "pmrun \<Rightarrow> bool" where
  "pm_inv s = holds_frames (rpm s) (owned s)"

lemma kernel_mem_simps [simp]: "initialized (kernel_mem pm) = initialized pm" "bitmapStartFrame (kernel_mem pm) = bitmapStartFrame pm" "lower (kernel_mem pm) = lower pm"
  "upper (kernel_mem pm) = upper pm" "uframes (kernel_mem pm) = uframes pm" "getFreeDef (kernel_mem pm) = getFreeDef pm"
  by (simp_all add: kernel_mem_def bitmapStartFrame_def getFreeDef_def Let_def split: prod.splits)

lemma kernel_mem_fits: "kframes (kernel_mem pm) + cframes (kernel_mem pm) \<le> getFreeDef pm"
proof -
  define free where "free = getFreeDef pm"
  have "free div 5 \<le> free" by simp
  then show ?thesis unfolding kernel_mem_def Let_def free_def [symmetric] by (auto split: prod.splits if_splits)
qed

lemma pm_boot_inv: "pm_boot pm \<Longrightarrow> pm_inv \<lparr>rpm = kernel_mem pm, owned = []\<rparr>"
  using kernel_mem_fits [of pm] by (auto simp: pm_boot_def pm_inv_def holds_frames_def getFreeDef_def intro: frames_ok_counts)

lemma pm_step_inv: "pm_step s s' \<Longrightarrow> pm_inv s \<Longrightarrow> pm_inv s'"
proof (induction rule: pm_step.cases)
  case (pm_alloc s ty f pm)
  then have h: "holds_frames (rpm s) (owned s)" by (simp add: pm_inv_def)
  from pm_allocate_frames [OF h pm_alloc(3)] pm_alloc(4) invalid_not_frame [OF h] show ?case
    unfolding pm_alloc(2) by (auto simp: pm_inv_def split: if_splits)
next
  case (pm_release f ty s pm)
  then have h: "holds_frames (rpm s) (owned s)" by (simp add: pm_inv_def)
  from pm_free_frames [OF h pm_release(3)] pm_release show ?case by (auto simp: pm_inv_def)
next
  case (pm_reserve s n noswap r pm)
  then show ?case by (auto simp: pm_inv_def reserve_def holds_frames_def)
qed

interpretation pm_runs: transitions pm_step "\<lambda>s. \<exists>pm. pm_boot pm \<and> s = \<lparr>rpm = kernel_mem pm, owned = []\<rparr>" pm_inv
  by unfold_locales (auto simp: pm_boot_inv intro: pm_step_inv)

text \<open>C9: No frame of physical memory has two owners. Take runs of \<open>allocate\<close>, \<open>free\<close> and \<open>reserve\<close> in which frames are freed by their owner with the kind they
  were allocated with, users allocate only what is reserved, and the kernel asks for a frame with \<open>kframes = 0\<close> only while at least \<open>cframes\<close> frames are on the
  lower stack; without the last condition the new \<open>kframes\<close> wraps round. In such runs the free frames and the used ones are all different; \<open>allocate\<close>,
  under the same conditions, gives a free frame whenever the count for the kind of request says so, and \<open>INVALID_FRAME\<close> otherwise; and \<open>free\<close> of a used frame
  does not overflow a stack.\<close>

theorem pm_frames:
  assumes "pm_boot pm0" "pm_step\<^sup>*\<^sup>* \<lparr>rpm = kernel_mem pm0, owned = []\<rparr> s"
  shows "distinct (frames (lower (rpm s)) @ frames (upper (rpm s)) @ map fst (owned s)) \<and>
    (may_allocate (rpm s) ty \<longrightarrow> (\<exists>f pm. pm_allocate (rpm s) ty = Some (f, pm) \<and>
       (if available (rpm s) ty then f \<in> set (frames (lower (rpm s))) \<union> set (frames (upper (rpm s))) else f = INVALID_FRAME))) \<and>
    ((f, t) \<in> set (owned s) \<longrightarrow> pm_free (rpm s) f t \<noteq> None)"
proof -
  have "pm_inv s" using assms(2) by (rule pm_runs.reachable) (use assms(1) in blast)
  then have h: "holds_frames (rpm s) (owned s)" by (simp add: pm_inv_def)
  have "\<exists>f pm. pm_allocate (rpm s) ty = Some (f, pm) \<and>
      (if available (rpm s) ty then f \<in> set (frames (lower (rpm s))) \<union> set (frames (upper (rpm s))) else f = INVALID_FRAME)" if "may_allocate (rpm s) ty"
    using pm_allocate_frames [OF h that] by (auto split: if_splits)
  moreover have "pm_free (rpm s) f t \<noteq> None" if "(f, t) \<in> set (owned s)" using pm_free_frames [OF h that] by auto
  moreover have "distinct (frames (lower (rpm s)) @ frames (upper (rpm s)) @ map fst (owned s))" using h by (simp add: holds_frames_def frames_ok_def)
  ultimately show ?thesis by blast
qed

definition demo_pm :: physmem where
  "demo_pm = \<lparr>bitmapStart = 0x200000, bitmap = replicate 1024 0, freeCont = 512, lower = \<lparr>spages = 1, frames = [0x401, 0x402, 0x403, 0x404, 0x405, 0x406]\<rparr>,
     upper = \<lparr>spages = 1, frames = [0x2E000, 0x2E001]\<rparr>, initialized = True, pareas = \<lparr>mlist = [], mcount = 0\<rparr>, cframes = 0, kframes = 0, uframes = 0\<rparr>"

lemma demo_pm_boot: "pm_boot demo_pm"
  by (simp add: pm_boot_def demo_pm_def kernel_mem_def getFreeDef_def frames_ok_def is_low_def bitmapStartFrame_def)

definition demo_pmrun :: pmrun where
  "demo_pmrun = (case pm_allocate (kernel_mem demo_pm) KERN of Some (f, pm) \<Rightarrow> \<lparr>rpm = pm, owned = [(f, KERN)]\<rparr> | None \<Rightarrow> \<lparr>rpm = demo_pm, owned = []\<rparr>)"

theorem pm_frames_witness: "distinct (frames (lower (rpm demo_pmrun)) @ frames (upper (rpm demo_pmrun)) @ map fst (owned demo_pmrun)) \<and>
    (\<exists>f pm. pm_allocate (rpm demo_pmrun) CRIT = Some (f, pm) \<and> f \<in> {0x401, 0x402, 0x403, 0x404, 0x405, 0x406, 0x2E000, 0x2E001}) \<and>
    pm_free (rpm demo_pmrun) 0x401 KERN \<noteq> None"
proof -
  obtain pm where a: "pm_allocate (kernel_mem demo_pm) KERN = Some (0x401, pm)" "pm = (kernel_mem demo_pm)\<lparr>kframes := 3, lower := \<lparr>spages = 1, frames = [0x402, 0x403, 0x404, 0x405, 0x406]\<rparr>\<rparr>"
    by (simp add: pm_allocate_def demo_pm_def kernel_mem_def getFreeDef_def allocFrame_def refill_def)
  have d: "demo_pmrun = \<lparr>rpm = pm, owned = [(0x401, KERN)]\<rparr>" by (simp add: demo_pmrun_def a(1))
  have "may_allocate (kernel_mem demo_pm) KERN" by (simp add: may_allocate_def demo_pm_def kernel_mem_def getFreeDef_def)
  then have "pm_step \<lparr>rpm = kernel_mem demo_pm, owned = []\<rparr> demo_pmrun"
    unfolding d using pm_alloc [of "\<lparr>rpm = kernel_mem demo_pm, owned = []\<rparr>" KERN "0x401" pm] a(1) by simp
  then have r: "pm_step\<^sup>*\<^sup>* \<lparr>rpm = kernel_mem demo_pm, owned = []\<rparr> demo_pmrun" by simp
  have "may_allocate (rpm demo_pmrun) CRIT" "available (rpm demo_pmrun) CRIT"
    by (simp_all add: d a(2) may_allocate_def available_def demo_pm_def kernel_mem_def getFreeDef_def)
  then show ?thesis using pm_frames [OF demo_pm_boot r] unfolding d a(2) by (fastforce simp: demo_pm_def)
qed

section \<open>Contiguous frames as a set of bits\<close>

definition is_set :: "32 word list \<Rightarrow> nat \<Rightarrow> bool" where
  "is_set bm j = bit (bm ! (j div 32)) (31 - j mod 32)"

lemma bm_mask_bit: "bit (bm_mask j) n \<longleftrightarrow> n = 31 - j mod 32"
  by (auto simp: bm_mask_def bit_simps)

lemma and_mask_zero: "w AND bm_mask j \<noteq> 0 \<longleftrightarrow> bit w (31 - j mod 32)"
proof
  assume "w AND bm_mask j \<noteq> 0"
  then obtain n where "bit (w AND bm_mask j) n" by (metis bit_eqI bit_0_eq bot_apply bot_bool_def)
  then show "bit w (31 - j mod 32)" by (auto simp: bit_and_iff bm_mask_bit)
next
  assume "bit w (31 - j mod 32)"
  then have "bit (w AND bm_mask j) (31 - j mod 32)" by (simp add: bit_and_iff bm_mask_bit)
  then show "w AND bm_mask j \<noteq> 0" by auto
qed

lemma bm_pos: "(i :: nat) div 32 = j div 32 \<Longrightarrow> 31 - i mod 32 = 31 - j mod 32 \<Longrightarrow> i = j"
proof -
  assume d: "i div 32 = j div 32" and m: "31 - i mod 32 = 31 - j mod 32"
  have "i mod 32 < 32" "j mod 32 < 32" by simp_all
  with m have "i mod 32 = j mod 32" by arith
  with d show ?thesis by (metis div_mult_mod_eq)
qed

lemma is_set_update:
  assumes "j div 32 < length bm"
  shows "is_set (bm[j div 32 := (bm ! (j div 32)) OR bm_mask j]) i \<longleftrightarrow> i = j \<or> is_set bm i"
    "is_set (bm[j div 32 := (bm ! (j div 32)) AND NOT (bm_mask j)]) i \<longleftrightarrow> i \<noteq> j \<and> is_set bm i"
  using assms bm_pos [of i j] by (cases "i div 32 = j div 32"; auto simp: is_set_def bit_or_iff bit_and_iff bit_not_iff bm_mask_bit)+

lemma bm_eqI:
  assumes "length a = length b" "\<And>j. j < 32 * length a \<Longrightarrow> is_set a j = is_set b j"
  shows "a = b"
proof (rule nth_equalityI)
  fix k assume k: "k < length a"
  show "a ! k = b ! k"
  proof (rule bit_word_eqI)
    fix n assume "n < LENGTH(32)"
    then have n: "n < 32" by simp
    define t where "t = 31 - n"
    have t: "t < 32" "31 - t = n" using n by (simp_all add: t_def)
    have "is_set a (k * 32 + t) = is_set b (k * 32 + t)" using k t(1) by (intro assms(2)) simp
    moreover have "(k * 32 + t) div 32 = k" "31 - (k * 32 + t) mod 32 = n" using t by simp_all
    ultimately show "bit (a ! k) n = bit (b ! k) n" unfolding is_set_def by simp
  qed
qed (fact assms(1))

lemma clear_run_spec:
  assumes "\<exists>s. j \<le> s \<and> is_set bm s \<and> s div 32 < length bm"
  shows "\<exists>r. clear_run bm j c = Some r \<and> r \<le> c \<and> (\<forall>i. j \<le> i \<and> i < j + r \<longrightarrow> \<not> is_set bm i) \<and> (r < c \<longrightarrow> is_set bm (j + r))"
  using assms
proof (induction c arbitrary: j)
  case (Suc c)
  then obtain s where s: "j \<le> s" "is_set bm s" "s div 32 < length bm" by blast
  have l: "j div 32 < length bm" using div_le_mono [OF s(1), of 32] s(3) by simp
  have m: "(bm ! (j div 32)) AND bm_mask j \<noteq> 0 \<longleftrightarrow> is_set bm j" by (simp add: and_mask_zero is_set_def)
  show ?case
  proof (cases "is_set bm j")
    case True
    then show ?thesis using l m by auto
  next
    case False
    then have "Suc j \<le> s" using s by (metis Suc_leI le_neq_implies_less)
    then obtain r where r: "clear_run bm (Suc j) c = Some r" "r \<le> c" "\<forall>i. Suc j \<le> i \<and> i < Suc j + r \<longrightarrow> \<not> is_set bm i" "r < c \<longrightarrow> is_set bm (Suc j + r)"
      using Suc.IH [of "Suc j"] s by blast
    have "\<forall>i. j \<le> i \<and> i < j + Suc r \<longrightarrow> \<not> is_set bm i" using r(3) False by (metis Suc_leI add_Suc_shift le_neq_implies_less)
    then show ?thesis using l m False r by simp
  qed
qed auto

text \<open>Rounding up to a power of two.\<close>

lemma ROUND_UP_power:
  assumes "x + 2 ^ k < 2 ^ 32" "k < 32"
  shows "ROUND_UP x (2 ^ k) = (x + 2 ^ k - 1) div 2 ^ k * 2 ^ k"
proof -
  define y where "y = x + 2 ^ k - 1"
  have y: "y < 2 ^ 32" using assms by (simp add: y_def)
  have "(of_nat (x + 2 ^ k - 1) :: 32 word) = of_nat (x + 2 ^ k) - of_nat 1" by (rule of_nat_diff) (simp add: Suc_le_eq add_pos_pos)
  then have e: "(of_nat x + of_nat (2 ^ k) - 1 :: 32 word) = of_nat y" by (simp add: y_def)
  have m: "(of_nat (2 ^ k) - 1 :: 32 word) = mask k" by (simp add: mask_eq_exp_minus_1)
  have "(of_nat y AND NOT (mask k) :: 32 word) = of_nat (push_bit k (drop_bit k y))"
    by (rule bit_word_eqI) (auto simp: bit_simps)
  then have z: "(of_nat y AND NOT (mask k) :: 32 word) = of_nat (y div 2 ^ k * 2 ^ k)" by (simp only: push_bit_eq_mult drop_bit_eq_div)
  have "y div 2 ^ k * 2 ^ k < 2 ^ 32" using y div_times_less_eq_dividend le_less_trans by blast
  then have "unat (of_nat (y div 2 ^ k * 2 ^ k) :: 32 word) = y div 2 ^ k * 2 ^ k" by (simp only: unat_of_nat) simp
  then show ?thesis unfolding ROUND_UP_def e m y_def [symmetric] z .
qed

lemma ROUND_UP_least:
  assumes "x + 2 ^ k < 2 ^ 32" "k < 32"
  shows "x \<le> ROUND_UP x (2 ^ k)" "2 ^ k dvd ROUND_UP x (2 ^ k)" "ROUND_UP x (2 ^ k) < x + 2 ^ k" "x \<le> y \<Longrightarrow> 2 ^ k dvd y \<Longrightarrow> ROUND_UP x (2 ^ k) \<le> y"
proof -
  define a :: nat where "a = 2 ^ k"
  have a: "0 < a" by (simp add: a_def)
  have r: "ROUND_UP x (2 ^ k) = (x + a - 1) div a * a" using ROUND_UP_power [OF assms] by (simp add: a_def)
  have d: "(x + a - 1) div a * a + (x + a - 1) mod a = x + a - 1" "(x + a - 1) mod a < a" using a by simp_all
  show "x \<le> ROUND_UP x (2 ^ k)" "ROUND_UP x (2 ^ k) < x + 2 ^ k" unfolding r unfolding a_def [symmetric] using d a by linarith+
  show "2 ^ k dvd ROUND_UP x (2 ^ k)" unfolding r by (simp add: a_def)
  show "ROUND_UP x (2 ^ k) \<le> y" if y: "x \<le> y" "2 ^ k dvd y"
  proof -
    obtain q where q: "y = a * q" using y(2) by (auto simp: a_def dvd_def)
    have "x + a - 1 < a * (q + 1)" using y(1) q a by (simp add: distrib_left)
    then have "(x + a - 1) div a < q + 1" using a by (simp add: div_less_iff_less_mult mult.commute)
    then show ?thesis unfolding r q by (simp add: mult.commute)
  qed
qed

text \<open>The bitmap: at least one bit behind its end is there and set.\<close>

definition bm_ok :: "physmem \<Rightarrow> bool" where
  "bm_ok pm = (BITMAP_PAGE_COUNT div 32 < length (bitmap pm) \<and> is_set (bitmap pm) BITMAP_PAGE_COUNT \<and> bitmapStartFrame pm + 2 * BITMAP_PAGE_COUNT \<le> 2 ^ 20 \<and>
     freeCont pm = card {j. j < BITMAP_PAGE_COUNT \<and> \<not> is_set (bitmap pm) j})"

definition fits :: "physmem \<Rightarrow> nat \<Rightarrow> nat \<Rightarrow> nat \<Rightarrow> bool" where
  "fits pm cnt align i = (align dvd bitmapStartFrame pm + i \<and> i + cnt \<le> BITMAP_PAGE_COUNT \<and> (\<forall>j. i \<le> j \<and> j < i + cnt \<longrightarrow> \<not> is_set (bitmap pm) j))"

lemma cont_search_spec:
  assumes b: "bm_ok pm" and k: "k \<le> 20" and c: "0 < cnt" and i: "i < BITMAP_PAGE_COUNT \<longrightarrow> 2 ^ k dvd bitmapStartFrame pm + i" "i < 2 ^ 32"
  shows "\<exists>r. cont_search (bitmapStartFrame pm) (bitmap pm) cnt (2 ^ k) i = Some r \<and>
    (case r of None \<Rightarrow> \<forall>p. i \<le> p \<longrightarrow> \<not> fits pm cnt (2 ^ k) p | Some p \<Rightarrow> i \<le> p \<and> fits pm cnt (2 ^ k) p \<and> (\<forall>q. i \<le> q \<and> q < p \<longrightarrow> \<not> fits pm cnt (2 ^ k) q))"
  using i
proof (induction "BITMAP_PAGE_COUNT - i" arbitrary: i rule: less_induct)
  case less
  let ?s = "bitmapStartFrame pm" and ?bm = "bitmap pm"
  show ?case
  proof (cases "i < BITMAP_PAGE_COUNT")
    case False
    then have "cont_search ?s ?bm cnt (2 ^ k) i = Some None" by (simp add: cont_search.simps)
    then show ?thesis using False c by (auto simp: fits_def)
  next
    case True
    have e: "is_set ?bm BITMAP_PAGE_COUNT" "BITMAP_PAGE_COUNT div 32 < length ?bm" "?s + 2 * BITMAP_PAGE_COUNT \<le> 2 ^ 20" using b by (simp_all add: bm_ok_def)
    have ex: "\<exists>s. i \<le> s \<and> is_set ?bm s \<and> s div 32 < length ?bm" using e True by (intro exI [of _ BITMAP_PAGE_COUNT]) simp
    obtain r where r: "clear_run ?bm i cnt = Some r" "r \<le> cnt" "\<forall>j. i \<le> j \<and> j < i + r \<longrightarrow> \<not> is_set ?bm j" "r < cnt \<longrightarrow> is_set ?bm (i + r)"
      using clear_run_spec [OF ex, of cnt] by blast
    have in_bm: "i + r \<le> BITMAP_PAGE_COUNT" using r(3) e(1) True by (meson less_imp_le not_le)
    have al: "2 ^ k dvd ?s + i" using less.prems True by blast
    show ?thesis
    proof (cases "r = cnt")
      case t: True
      then have "cont_search ?s ?bm cnt (2 ^ k) i = Some (Some i)" using True r(1) by (simp add: cont_search.simps)
      moreover have "fits pm cnt (2 ^ k) i" using al in_bm r(3) t by (simp add: fits_def)
      ultimately show ?thesis by auto
    next
      case f: False
      define i' where "i' = usub (ROUND_UP (?s + (i + r) + 1) (2 ^ k)) ?s"
      have p20: "(2 :: nat) ^ k \<le> 2 ^ 20" using k by (rule power_increasing) simp
      have x: "?s + (i + r) + 1 + 2 ^ k < 2 ^ 32" "k < 32" using in_bm e(3) p20 k True by simp_all
      note ru = ROUND_UP_least [OF x]
      have i': "?s + i' = ROUND_UP (?s + (i + r) + 1) (2 ^ k)" "i' < 2 ^ 32" "i + r < i'"
        using ru(1,3) x(1) unfolding i'_def by (simp_all add: usub_small)
      have "cont_search ?s ?bm cnt (2 ^ k) i = cont_search ?s ?bm cnt (2 ^ k) i'"
        using True r(1) f by (subst cont_search.simps) (simp add: i'_def)
      moreover have no: "\<not> fits pm cnt (2 ^ k) p" if "i \<le> p" "p < i'" for p
      proof (cases "p \<le> i + r")
        case True
        then have "p \<le> i + r \<and> i + r < p + cnt" using that r(2) f by simp
        then show ?thesis using r(2,4) f by (auto simp: fits_def)
      next
        case False
        then show ?thesis using ru(4) [of "?s + p"] that(2) i'(1) by (auto simp: fits_def)
      qed
      have lt: "BITMAP_PAGE_COUNT - i' < BITMAP_PAGE_COUNT - i" "i' < BITMAP_PAGE_COUNT \<longrightarrow> 2 ^ k dvd ?s + i'" using i'(3) True ru(2) i'(1) by auto
      from less.hyps [OF lt i'(2)] obtain r' where r': "cont_search ?s ?bm cnt (2 ^ k) i' = Some r'"
        "case r' of None \<Rightarrow> \<forall>p. i' \<le> p \<longrightarrow> \<not> fits pm cnt (2 ^ k) p | Some p \<Rightarrow> i' \<le> p \<and> fits pm cnt (2 ^ k) p \<and> (\<forall>q. i' \<le> q \<and> q < p \<longrightarrow> \<not> fits pm cnt (2 ^ k) q)"
        by blast
      have "case r' of None \<Rightarrow> \<forall>p. i \<le> p \<longrightarrow> \<not> fits pm cnt (2 ^ k) p | Some p \<Rightarrow> i \<le> p \<and> fits pm cnt (2 ^ k) p \<and> (\<forall>q. i \<le> q \<and> q < p \<longrightarrow> \<not> fits pm cnt (2 ^ k) q)"
        using r'(2) no i'(3) by (cases r') (auto, (metis not_le)+)
      ultimately show ?thesis using r'(1) by simp
    qed
  qed
qed

definition marked :: "bool \<Rightarrow> nat \<Rightarrow> nat \<Rightarrow> 32 word list \<Rightarrow> 32 word list \<Rightarrow> bool" where
  "marked used i n bm bm' = (length bm' = length bm \<and> (\<forall>j. is_set bm' j \<longleftrightarrow> (if used then i \<le> j \<and> j < i + n \<or> is_set bm j else \<not> (i \<le> j \<and> j < i + n) \<and> is_set bm j)))"

lemma bsf_bitmap [simp]: "bitmapStartFrame (pm\<lparr>bitmap := x\<rparr>) = bitmapStartFrame pm" "bitmapStartFrame (pm\<lparr>freeCont := n\<rparr>) = bitmapStartFrame pm"
  by (simp_all add: bitmapStartFrame_def)

lemma mark_loop_marks:
  assumes "i + n \<le> BITMAP_PAGE_COUNT" "BITMAP_PAGE_COUNT div 32 \<le> length (bitmap pm)" "f = bitmapStartFrame pm + i" "f + n < 2 ^ 20" "freeCont pm + n < 2 ^ 32" "used \<longrightarrow> n \<le> freeCont pm"
  shows "\<exists>bm. mark_loop pm (f * PAGE) ((f + n) * PAGE) used = Some (pm\<lparr>bitmap := bm, freeCont := if used then freeCont pm - n else freeCont pm + n\<rparr>) \<and> marked used i n (bitmap pm) bm"
  using assms
proof (induction n arbitrary: pm f i)
  case 0
  then show ?case by (subst mark_loop.simps) (auto simp: marked_def intro!: exI [of _ "bitmap pm"])
next
  case (Suc n)
  define k where "k = i div 32"
  define bm where "bm = (if used then (bitmap pm)[k := (bitmap pm ! k) OR bm_mask i] else (bitmap pm)[k := (bitmap pm ! k) AND NOT (bm_mask i)])"
  define pm1 where "pm1 = pm\<lparr>bitmap := bm, freeCont := if used then freeCont pm - 1 else freeCont pm + 1\<rparr>"
  have k: "k < length (bitmap pm)" using Suc.prems(1,2) by (simp add: k_def)
  have s: "is_set bm j \<longleftrightarrow> (if used then j = i \<or> is_set (bitmap pm) j else j \<noteq> i \<and> is_set (bitmap pm) j)" for j
    using is_set_update [of i "bitmap pm" j] k by (simp add: bm_def k_def)
  have fc: "usub (freeCont pm) 1 = freeCont pm - 1" if used using Suc.prems(5,6) that by (simp add: usub_small)
  have fc': "uadd (freeCont pm) 1 = freeCont pm + 1" using Suc.prems(5) by (simp add: uadd_small)
  have m: "markUsed pm f used = Some pm1"
    using Suc.prems(1,3) k fc fc' by (simp add: markUsed_def pm1_def bm_def k_def Let_def)
  have "uadd (f * PAGE) PAGE = Suc f * PAGE" using Suc.prems(4) by (simp add: uadd_small)
  then have step: "mark_loop pm (f * PAGE) ((f + Suc n) * PAGE) used = mark_loop pm1 (Suc f * PAGE) ((Suc f + n) * PAGE) used"
    by (subst mark_loop.simps) (simp add: m)
  have "\<exists>bm'. mark_loop pm1 (Suc f * PAGE) ((Suc f + n) * PAGE) used = Some (pm1\<lparr>bitmap := bm', freeCont := if used then freeCont pm1 - n else freeCont pm1 + n\<rparr>) \<and> marked used (Suc i) n (bitmap pm1) bm'"
  proof (rule Suc.IH)
    show "Suc f = bitmapStartFrame pm1 + Suc i" using Suc.prems(3) by (simp add: pm1_def)
  qed (use Suc.prems fc' in \<open>auto simp: pm1_def bm_def\<close>)
  then obtain bm' where b: "mark_loop pm1 (Suc f * PAGE) ((Suc f + n) * PAGE) used = Some (pm1\<lparr>bitmap := bm', freeCont := if used then freeCont pm1 - n else freeCont pm1 + n\<rparr>)"
    "marked used (Suc i) n bm bm'" by (auto simp: pm1_def)
  have "marked used i (Suc n) (bitmap pm) bm'" using b(2) unfolding marked_def s by (auto simp: bm_def)
  then show ?case unfolding step b(1) by (auto simp: pm1_def)
qed

lemma marked_clear: "marked True i n bm bm' \<Longrightarrow> {j. j < N \<and> \<not> is_set bm' j} = {j. j < N \<and> \<not> is_set bm j} - {i..<i + n}"
  by (rule set_eqI) (auto simp: marked_def)

lemma marked_back:
  assumes "marked True i n bm bm'" "marked False i n bm' bm2" "\<forall>j. i \<le> j \<and> j < i + n \<longrightarrow> \<not> is_set bm j"
  shows "bm2 = bm"
  using assms by (intro bm_eqI) (auto simp: marked_def)

lemma contig_mark:
  assumes "bm_ok pm" "fits pm cnt a i"
  shows "\<exists>pm'. doMarkRangeUsed pm ((i + bitmapStartFrame pm) * PAGE mod 2 ^ 32) ((i + bitmapStartFrame pm + cnt) * PAGE mod 2 ^ 32) True = Some pm' \<and>
    marked True i cnt (bitmap pm) (bitmap pm') \<and> bm_ok pm' \<and> freeContiguous pm' (bitmapStartFrame pm + i) cnt = Some pm"
proof -
  let ?s = "bitmapStartFrame pm"
  let ?clear = "{j. j < BITMAP_PAGE_COUNT \<and> \<not> is_set (bitmap pm) j}"
  have b: "16 < length (bitmap pm)" "is_set (bitmap pm) BITMAP_PAGE_COUNT" "?s + 2 * BITMAP_PAGE_COUNT \<le> 2 ^ 20" "freeCont pm = card ?clear" using assms(1) by (simp_all add: bm_ok_def)
  have f: "i + cnt \<le> BITMAP_PAGE_COUNT" "{i..<i + cnt} \<subseteq> ?clear" using assms(2) by (auto simp: fits_def)
  have fin: "finite ?clear" by simp
  have "card ?clear \<le> card {..<BITMAP_PAGE_COUNT}" by (rule card_mono) blast+
  moreover have "card {i..<i + cnt} \<le> card ?clear" using fin f(2) by (rule card_mono)
  ultimately have n: "cnt \<le> freeCont pm" "freeCont pm \<le> BITMAP_PAGE_COUNT" unfolding b(4) card_atLeastLessThan card_lessThan by simp_all
  have w: "(i + ?s) * PAGE mod 2 ^ 32 = (?s + i) * PAGE" "(i + ?s + cnt) * PAGE mod 2 ^ 32 = (?s + i + cnt) * PAGE"
  proof -
    have "(?s + i + cnt) * PAGE < 2 ^ 32" "(?s + i) * PAGE < 2 ^ 32" using b(3) f(1) by simp_all
    then show "(i + ?s) * PAGE mod 2 ^ 32 = (?s + i) * PAGE" "(i + ?s + cnt) * PAGE mod 2 ^ 32 = (?s + i + cnt) * PAGE"
      unfolding add.commute [of i ?s] by (simp_all only: mod_less)
  qed
  obtain bm where m: "mark_loop pm ((?s + i) * PAGE) ((?s + i + cnt) * PAGE) True = Some (pm\<lparr>bitmap := bm, freeCont := freeCont pm - cnt\<rparr>)" "marked True i cnt (bitmap pm) bm"
    using mark_loop_marks [of i cnt pm "?s + i" True] f(1) b n by auto
  define pm' where "pm' = pm\<lparr>bitmap := bm, freeCont := freeCont pm - cnt\<rparr>"
  have d: "doMarkRangeUsed pm ((i + ?s) * PAGE mod 2 ^ 32) ((i + ?s + cnt) * PAGE mod 2 ^ 32) True = Some pm'"
    unfolding w doMarkRangeUsed_def using m(1) by (simp add: pm'_def)
  have "{j. j < BITMAP_PAGE_COUNT \<and> \<not> is_set bm j} = ?clear - {i..<i + cnt}" using m(2) by (rule marked_clear)
  then have c: "freeCont pm - cnt = card {j. j < BITMAP_PAGE_COUNT \<and> \<not> is_set bm j}" using f(2) b(4) by (simp only: card_Diff_subset finite_atLeastLessThan card_atLeastLessThan add_diff_cancel_left')
  have ok: "bm_ok pm'" unfolding bm_ok_def using b m(2) f(1) c by (simp add: pm'_def marked_def)
  obtain bm2 where m2: "mark_loop pm' ((?s + i) * PAGE) ((?s + i + cnt) * PAGE) False = Some (pm'\<lparr>bitmap := bm2, freeCont := freeCont pm' + cnt\<rparr>)" "marked False i cnt bm bm2"
    using mark_loop_marks [of i cnt pm' "?s + i" False] f(1) b(1,3) n m(2) by (auto simp: pm'_def marked_def)
  have "bm2 = bitmap pm" using m(2) m2(2) by (rule marked_back) (use assms(2) in \<open>simp add: fits_def\<close>)
  then have "pm'\<lparr>bitmap := bm2, freeCont := freeCont pm' + cnt\<rparr> = pm" using n by (simp add: pm'_def)
  then have "freeContiguous pm' (?s + i) cnt = Some pm"
    unfolding freeContiguous_def doMarkRangeUsed_def w [unfolded add.commute [of i ?s]] using m2(1) by simp
  then show ?thesis using d ok m(2) by (auto simp: pm'_def)
qed

text \<open>\<open>allocateContiguous\<close> finds the first aligned run of free frames in the bitmap if there is one, marks exactly these
  frames and keeps the count of free ones; \<open>freeContiguous\<close> then gives back the state as it was. Otherwise it fails with \<open>ENOMEM\<close>
  and changes nothing. The bit behind the bitmap has to be set.\<close>

theorem contig_contract:
  assumes "bm_ok pm" "k \<le> 20" "0 < cnt"
  shows "(\<exists>i pm'. fits pm cnt (2 ^ k) i \<and> (\<forall>q < i. \<not> fits pm cnt (2 ^ k) q) \<and> allocateContiguous pm cnt (2 ^ k) = Some (int (bitmapStartFrame pm + i), pm') \<and>
      (\<forall>j. is_set (bitmap pm') j \<longleftrightarrow> i \<le> j \<and> j < i + cnt \<or> is_set (bitmap pm) j) \<and> bm_ok pm' \<and> freeContiguous pm' (bitmapStartFrame pm + i) cnt = Some pm) \<or>
    (\<forall>i. \<not> fits pm cnt (2 ^ k) i) \<and> allocateContiguous pm cnt (2 ^ k) = Some (- ENOMEM, pm)"
proof -
  let ?s = "bitmapStartFrame pm"
  define i0 where "i0 = usub (ROUND_UP ?s (2 ^ k)) ?s"
  have b: "?s + 2 * BITMAP_PAGE_COUNT \<le> 2 ^ 20" using assms(1) by (simp add: bm_ok_def)
  have p20: "(2 :: nat) ^ k \<le> 2 ^ 20" using assms(2) by (rule power_increasing) simp
  have x: "?s + 2 ^ k < 2 ^ 32" "k < 32" using b p20 assms(2) by simp_all
  note ru = ROUND_UP_least [OF x]
  have i0: "?s + i0 = ROUND_UP ?s (2 ^ k)" "i0 < 2 ^ 32" using ru(1,3) x(1) unfolding i0_def by (simp_all add: usub_small)
  have before: "\<not> fits pm cnt (2 ^ k) p" if "p < i0" for p using ru(4) [of "?s + p"] that i0(1) by (auto simp: fits_def)
  obtain r where r: "cont_search ?s (bitmap pm) cnt (2 ^ k) i0 = Some r"
    "case r of None \<Rightarrow> \<forall>p. i0 \<le> p \<longrightarrow> \<not> fits pm cnt (2 ^ k) p | Some p \<Rightarrow> i0 \<le> p \<and> fits pm cnt (2 ^ k) p \<and> (\<forall>q. i0 \<le> q \<and> q < p \<longrightarrow> \<not> fits pm cnt (2 ^ k) q)"
    using cont_search_spec [OF assms, of i0] i0 ru(2) by auto
  have a: "allocateContiguous pm cnt (2 ^ k) = (case r of None \<Rightarrow> Some (- ENOMEM, pm) | Some i \<Rightarrow>
      map_option (Pair (int (i + ?s))) (doMarkRangeUsed pm ((i + ?s) * PAGE mod 2 ^ 32) ((i + ?s + cnt) * PAGE mod 2 ^ 32) True))"
    unfolding allocateContiguous_def Let_def i0_def [symmetric] using assms(3) r(1) by (auto simp: map_option_case split: option.splits)
  show ?thesis
  proof (cases r)
    case None
    then have "\<not> fits pm cnt (2 ^ k) i" for i using r(2) before [of i] by (cases "i < i0") auto
    then show ?thesis using a None by simp
  next
    case (Some i)
    then have f1: "fits pm cnt (2 ^ k) i" and "\<not> fits pm cnt (2 ^ k) q" if "q < i" for q using r(2) before [of q] that by (cases "q < i0"; auto)+
    then have f: "fits pm cnt (2 ^ k) i" "\<forall>q < i. \<not> fits pm cnt (2 ^ k) q" using r(2) Some by auto
    obtain pm' where m: "doMarkRangeUsed pm ((i + ?s) * PAGE mod 2 ^ 32) ((i + ?s + cnt) * PAGE mod 2 ^ 32) True = Some pm'"
      "marked True i cnt (bitmap pm) (bitmap pm')" "bm_ok pm'" "freeContiguous pm' (?s + i) cnt = Some pm" using contig_mark [OF assms(1) f(1)] by blast
    have "allocateContiguous pm cnt (2 ^ k) = Some (int (?s + i), pm')" unfolding a Some option.case m(1) by simp
    then show ?thesis using f m(2-4) unfolding marked_def by (intro disjI1 exI [of _ i] exI [of _ pm']) simp
  qed
qed

definition demo_cont :: physmem where
  "demo_cont = demo_pm\<lparr>bitmap := replicate 16 0 @ [- 1]\<rparr>"

lemma demo_cont_ok: "bm_ok demo_cont"
proof -
  have c: "\<not> is_set (replicate 16 0 @ [- 1]) j" if "j < 512" for j
  proof -
    have "j div 32 < 16" using that by simp
    then show ?thesis by (simp add: is_set_def nth_append)
  qed
  have "{j. j < BITMAP_PAGE_COUNT \<and> \<not> is_set (replicate 16 0 @ [- 1]) j} = {..<BITMAP_PAGE_COUNT}" using c by blast
  then have "card {j. j < BITMAP_PAGE_COUNT \<and> \<not> is_set (replicate 16 0 @ [- 1]) j} = BITMAP_PAGE_COUNT" by (simp only: card_lessThan)
  moreover have "is_set (replicate 16 0 @ [- 1]) BITMAP_PAGE_COUNT" by (simp add: is_set_def nth_append)
  ultimately show ?thesis unfolding bm_ok_def demo_cont_def demo_pm_def by (simp add: bitmapStartFrame_def)
qed

theorem contig_contract_witness: "\<exists>i pm'. allocateContiguous demo_cont 4 (2 ^ 3) = Some (int (512 + i), pm') \<and> freeContiguous pm' (512 + i) 4 = Some demo_cont"
proof -
  have s: "bitmapStartFrame demo_cont = 512" by (simp add: demo_cont_def demo_pm_def bitmapStartFrame_def)
  have "fits demo_cont 4 (2 ^ 3) 0" unfolding fits_def s by (auto simp: demo_cont_def is_set_def nth_append)
  then show ?thesis using contig_contract [OF demo_cont_ok, of 3 4] unfolding s by auto
qed

section \<open>Flaws\<close>

text \<open>
  The search does not stop at the end of the bitmap. The bits behind it are in the same page and not initialised; when they are 0, as
  here, the result reaches over the end, where the frames belong to the stack: two owners get the frame 1025.
\<close>

lemma contig_overrun:
  assumes "pm = demo_pm\<lparr>bitmapStart := 513 * PAGE\<rparr>"
  shows "\<exists>pm'. allocateContiguous pm 2 1024 = Some (1024, pm') \<and> 1025 \<in> set (frames (lower pm'))"
proof -
  have s: "bitmapStartFrame pm = 513" "bitmap pm = replicate 1024 0" by (simp_all add: assms bitmapStartFrame_def demo_pm_def)
  have "ROUND_UP 513 (2 ^ 10) = 1024" by (subst ROUND_UP_power) simp_all
  then have r: "usub (ROUND_UP 513 1024) 513 = 511" by (simp add: usub_small)
  have "clear_run (replicate 1024 0) 511 2 = Some 2" by (simp add: numeral_2_eq_2)
  then have c: "cont_search 513 (bitmap pm) 2 1024 511 = Some (Some 511)" by (simp add: cont_search.simps s)
  obtain pm1 where m: "markUsed pm 1024 True = Some pm1" "pm1 = pm\<lparr>bitmap := bitmap pm1, freeCont := freeCont pm1\<rparr>"
    by (simp add: markUsed_def s(1) Let_def) (simp add: s(2))
  have b: "bitmapStartFrame pm1 = 513" "lower pm1 = lower pm" by (subst m(2), simp add: s(1))+
  have "markUsed pm1 1025 True = Some pm1" using b by (simp add: markUsed_def)
  then have "doMarkRangeUsed pm (1024 * PAGE) (1026 * PAGE) True = Some pm1"
    unfolding doMarkRangeUsed_def by (simp add: mark_loop.simps m(1) uadd_def)
  then have "allocateContiguous pm 2 1024 = Some (1024, pm1)" by (simp add: allocateContiguous_def s(1) r c)
  moreover have "1025 \<in> set (frames (lower pm1))" by (simp add: b(2) assms demo_pm_def)
  ultimately show ?thesis by blast
qed

text \<open>With fewer lower frames than critical ones, the frames for the kernel are computed with a negative number: the count becomes huge, and a
  frame is taken from before the empty stack.\<close>

lemma refill_underflow:
  assumes "initialized pm" "frames (lower pm) = []" "kframes pm = 0" "0 < cframes pm" "cframes pm < 1000"
  shows "800000000 < kframes (refill pm) \<and> pm_allocate pm KERN = None"
proof -
  have "usub 0 (cframes pm) = 2 ^ 32 - cframes pm" using assms(4,5) by (simp add: usub_def)
  then have "kframes (refill pm) = (2 ^ 32 - cframes pm) div 5" using assms(2,3) by (simp add: refill_def)
  moreover have "800000000 < (2 ^ 32 - cframes pm) div 5" using assms(5) by simp
  ultimately show ?thesis using assms(1,2) by (simp add: pm_allocate_def allocFrame_def Let_def)
qed

text \<open>The pages for the stack of lower memory are counted for areas in upper memory too, with a negative number.\<close>

lemma lower_pages_wraps: "lower_pages demo_pm [\<lparr>maddr = 0x30000000, msize = 0x1000000\<rparr>] = 0xFE000"
  by (simp add: lower_pages_def demo_pm_def lowerStart_def bitmapStartFrame_def uadd_def usub_def)

text \<open>A full stack passes the check, which takes the number of bytes for the number of entries.\<close>

lemma stack_check_late: "length (frames s) = 1024 \<Longrightarrow> spages s = 1 \<Longrightarrow> length (frames s) < spages s * PAGE \<and> stack_push s f = None"
  by (simp add: stack_push_def)

text \<open>A refused reservation is counted, so that the swapper tries to make room for it forever.\<close>

lemma reserve_refused: "reserve pm n noswap = (Refused, pm') \<Longrightarrow> uframes pm' = uadd (uframes pm) n \<and> getFreeDef pm' = getFreeDef pm"
  by (auto simp: reserve_def getFreeDef_def split: if_splits)

end
