(* ===== verification/PageTables.thy ===== *)
theory PageTables
  imports PhysMem
begin

text \<open>
  The page tables of x86 with 32 bits, \<open>kernel/src/mem/pagetables.cc\<close>: two levels of tables with 1024 entries. A table is named by its frame number, \<open>ptmem\<close> has
  the entries of all tables; they are read and written in the area that maps the physical memory directly. Addresses are 32-bit numbers.
  The loops over the levels are written for any number of levels. The TLB is not part of the model.
\<close>

section \<open>Entries\<close>

type_synonym pte_t = "32 word"
type_synonym ptmem = "nat \<Rightarrow> nat \<Rightarrow> pte_t"

abbreviation PT_LEVELS :: nat where "PT_LEVELS \<equiv> 2"
abbreviation PT_BPL :: nat where "PT_BPL \<equiv> 10"
abbreviation PT_BITS :: nat where "PT_BITS \<equiv> 32"
abbreviation PAGE_BITS :: nat where "PAGE_BITS \<equiv> 12"
abbreviation PT_ENTRY_COUNT :: nat where "PT_ENTRY_COUNT \<equiv> 1024"
abbreviation KERNEL_AREA :: nat where "KERNEL_AREA \<equiv> 0xC0000000"
abbreviation KSTACK_AREA :: nat where "KSTACK_AREA \<equiv> 0xFE001000"
abbreviation KSTACK_AREA_SIZE :: nat where "KSTACK_AREA_SIZE \<equiv> 0x1FFF000"

abbreviation PTE_PRESENT :: pte_t where "PTE_PRESENT \<equiv> 0x1"
abbreviation PTE_WRITABLE :: pte_t where "PTE_WRITABLE \<equiv> 0x2"
abbreviation PTE_NOTSUPER :: pte_t where "PTE_NOTSUPER \<equiv> 0x4"
abbreviation PTE_LARGE :: pte_t where "PTE_LARGE \<equiv> 0x80"
abbreviation PTE_GLOBAL :: pte_t where "PTE_GLOBAL \<equiv> 0x100"
abbreviation PTE_EXISTS :: pte_t where "PTE_EXISTS \<equiv> 0x200"

abbreviation PTE_FLAGS :: pte_t where "PTE_FLAGS \<equiv> 0xFFF"

abbreviation PG_PRESENT :: "32 word" where "PG_PRESENT \<equiv> 1"
abbreviation PG_WRITABLE :: "32 word" where "PG_WRITABLE \<equiv> 2"
abbreviation PG_EXECUTABLE :: "32 word" where "PG_EXECUTABLE \<equiv> 4"
abbreviation PG_SUPERVISOR :: "32 word" where "PG_SUPERVISOR \<equiv> 8"
abbreviation PG_GLOBAL :: "32 word" where "PG_GLOBAL \<equiv> 16"
abbreviation PG_NOPAGES :: "32 word" where "PG_NOPAGES \<equiv> 32"

definition has :: "32 word \<Rightarrow> 32 word \<Rightarrow> bool" where
  "has w f = (w AND f \<noteq> 0)"

definition PTE_FRAMENO :: "pte_t \<Rightarrow> nat" where
  "PTE_FRAMENO pte = unat (drop_bit PAGE_BITS pte)"

definition mk_pte :: "nat \<Rightarrow> pte_t \<Rightarrow> pte_t" where
  "mk_pte frame flags = push_bit PAGE_BITS (of_nat frame) OR flags"

definition PT_IDX :: "nat \<Rightarrow> nat \<Rightarrow> nat" where
  "PT_IDX addr lvl = addr div 2 ^ (PAGE_BITS + PT_BPL * lvl) mod PT_ENTRY_COUNT"

definition put_pte :: "ptmem \<Rightarrow> nat \<Rightarrow> nat \<Rightarrow> pte_t \<Rightarrow> ptmem" where
  "put_pte m t i pte = m(t := (m t)(i := pte))"

section \<open>Allocators\<close>

text \<open>The virtual functions of an allocator on the state \<open>'s\<close>.\<close>

record 's Allocator =
  allocPage :: "'s \<Rightarrow> (nat \<times> 's) option"
  allocPT :: "'s \<Rightarrow> (nat \<times> 's) option"
  freePage :: "'s \<Rightarrow> nat \<Rightarrow> 's option"
  freePT :: "'s \<Rightarrow> nat \<Rightarrow> 's option"

text \<open>The state: the physical memory, the number of page tables that the allocator counts, the next frame of a \<open>RangeAllocator\<close> and the frames
  that the running thread has reserved.\<close>

record ptenv =
  e_pm :: physmem
  e_pts :: nat
  e_frame :: nat
  reqFrames :: "nat list"

definition base_allocPT :: "ptenv \<Rightarrow> (nat \<times> ptenv) option" where
  "base_allocPT s = do { (f, pm) \<leftarrow> pm_allocate (e_pm s) KERN; Some (f, s\<lparr>e_pm := pm, e_pts := e_pts s + 1\<rparr>) }"

definition base_freePT :: "ptenv \<Rightarrow> nat \<Rightarrow> ptenv option" where
  "base_freePT s f = do { pm \<leftarrow> pm_free (e_pm s) f KERN; Some (s\<lparr>e_pm := pm, e_pts := e_pts s + 1\<rparr>) }"

definition pm_page :: "FrameType \<Rightarrow> ptenv \<Rightarrow> (nat \<times> ptenv) option" where
  "pm_page ty s = do { (f, pm) \<leftarrow> pm_allocate (e_pm s) ty; Some (f, s\<lparr>e_pm := pm\<rparr>) }"

definition pm_unpage :: "FrameType \<Rightarrow> ptenv \<Rightarrow> nat \<Rightarrow> ptenv option" where
  "pm_unpage ty s f = do { pm \<leftarrow> pm_free (e_pm s) f ty; Some (s\<lparr>e_pm := pm\<rparr>) }"

definition NoAllocator :: "ptenv Allocator" where
  "NoAllocator = \<lparr>allocPage = \<lambda>s. Some (0, s), allocPT = base_allocPT, freePage = \<lambda>s f. Some s, freePT = base_freePT\<rparr>"

definition RangeAllocator :: "ptenv Allocator" where
  "RangeAllocator = \<lparr>allocPage = \<lambda>s. Some (e_frame s, s\<lparr>e_frame := uadd (e_frame s) 1\<rparr>), allocPT = base_allocPT, freePage = \<lambda>s f. None, freePT = base_freePT\<rparr>"

definition getFrame :: "ptenv \<Rightarrow> (nat \<times> ptenv) option" where
  "getFrame s = (case reqFrames s of [] \<Rightarrow> None | f # fs \<Rightarrow> do { vassert (f \<noteq> 0); Some (f, s\<lparr>reqFrames := fs\<rparr>) })"

definition UAllocator :: "ptenv Allocator" where
  "UAllocator = \<lparr>allocPage = getFrame, allocPT = base_allocPT, freePage = pm_unpage USR, freePT = base_freePT\<rparr>"

definition KAllocator :: "ptenv Allocator" where
  "KAllocator = \<lparr>allocPage = pm_page CRIT, allocPT = \<lambda>s. None, freePage = pm_unpage CRIT, freePT = \<lambda>s f. None\<rparr>"

definition KStackAllocator :: "ptenv Allocator" where
  "KStackAllocator = \<lparr>allocPage = pm_page KERN, allocPT = base_allocPT, freePage = pm_unpage KERN, freePT = base_freePT\<rparr>"

section \<open>Single pages\<close>

definition crtPageTable :: "'s Allocator \<Rightarrow> nat \<Rightarrow> nat \<Rightarrow> pte_t \<Rightarrow> ptmem \<Rightarrow> 's \<Rightarrow> (int \<times> ptmem \<times> 's) option" where
  "crtPageTable al t idx flags m s = do {
     (frame, s1) \<leftarrow> allocPT al s;
     if frame = INVALID_FRAME then Some (- ENOMEM, m, s1)
     else do {
       vassert (\<not> has (m t idx) PTE_PRESENT);
       let pte = mk_pte frame (PTE_PRESENT OR PTE_WRITABLE OR PTE_EXISTS);
       let pte = (if \<not> has flags PG_SUPERVISOR then pte OR PTE_NOTSUPER else pte);
       Some (0, (put_pte m t idx pte)(frame := (\<lambda>_. 0)), s1) } }"

text \<open>The table on the last level and its bits, or no table.\<close>

fun map_walk :: "'s Allocator \<Rightarrow> nat \<Rightarrow> pte_t \<Rightarrow> nat \<Rightarrow> nat \<Rightarrow> nat \<Rightarrow> ptmem \<Rightarrow> 's \<Rightarrow> ((nat \<times> nat) option \<times> ptmem \<times> 's) option" where
  "map_walk al virt flags 0 bits t m s = Some (Some (t, bits), m, s)"
| "map_walk al virt flags (Suc n) bits t m s = (let idx = virt div 2 ^ bits mod PT_ENTRY_COUNT in do {
     (r, m1, s1) \<leftarrow> (if m t idx = 0 then crtPageTable al t idx flags m s else Some (0, m, s));
     if r < 0 then Some (None, m1, s1) else map_walk al virt flags n (bits - PT_BPL) (PTE_FRAMENO (m1 t idx)) m1 s1 })"

definition mapPage :: "'s Allocator \<Rightarrow> nat \<Rightarrow> nat \<Rightarrow> nat \<Rightarrow> pte_t \<Rightarrow> ptmem \<Rightarrow> 's \<Rightarrow> (int \<times> ptmem \<times> 's) option" where
  "mapPage al root virt frame flags m s = do {
     (r, m1, s1) \<leftarrow> map_walk al virt flags (PT_LEVELS - 1) (PT_BITS - PT_BPL) root m s;
     case r of
       None \<Rightarrow> Some (- ENOMEM, m1, s1)
     | Some (t, bits) \<Rightarrow>
         let idx = virt div 2 ^ bits mod PT_ENTRY_COUNT;
             pte = (if frame \<noteq> 0 then mk_pte frame flags else (m1 t idx AND NOT PTE_FLAGS) OR flags) in
         Some (of_bool (has (m1 t idx) PTE_PRESENT), put_pte m1 t idx pte, s1) }"

text \<open>The table and the index of the entry, and the start of a large page.\<close>

fun get_walk :: "ptmem \<Rightarrow> nat \<Rightarrow> nat \<Rightarrow> nat \<Rightarrow> nat \<Rightarrow> (nat \<times> nat \<times> nat) option" where
  "get_walk m virt 0 bits t = Some (t, virt div 2 ^ bits mod PT_ENTRY_COUNT, virt)"
| "get_walk m virt (Suc n) bits t = (let idx = virt div 2 ^ bits mod PT_ENTRY_COUNT in
     if \<not> has (m t idx) PTE_PRESENT then None
     else if has (m t idx) PTE_LARGE then Some (t, idx, virt div 2 ^ bits * 2 ^ bits)
     else get_walk m virt n (bits - PT_BPL) (PTE_FRAMENO (m t idx)))"

definition getPTE :: "ptmem \<Rightarrow> nat \<Rightarrow> nat \<Rightarrow> (nat \<times> nat \<times> nat) option" where
  "getPTE m root virt = get_walk m virt (PT_LEVELS - 1) (PT_BITS - PT_BPL) root"

definition isPresent :: "ptmem \<Rightarrow> nat \<Rightarrow> nat \<Rightarrow> bool" where
  "isPresent m root virt = (case getPTE m root virt of None \<Rightarrow> False | Some (t, i, base) \<Rightarrow> has (m t i) PTE_PRESENT)"

definition getFrameNo :: "ptmem \<Rightarrow> nat \<Rightarrow> nat \<Rightarrow> nat option" where
  "getFrameNo m root virt = (case getPTE m root virt of None \<Rightarrow> None | Some (t, i, base) \<Rightarrow> Some (uadd (PTE_FRAMENO (m t i)) ((virt - base) div PAGE)))"

definition unmapPage :: "nat \<Rightarrow> nat \<Rightarrow> ptmem \<Rightarrow> (nat \<times> ptmem) option" where
  "unmapPage root virt m = (case getPTE m root virt of
     None \<Rightarrow> Some (0, m)
   | Some (t, i, base) \<Rightarrow> do {
       vassert (base = virt);
       Some (if has (m t i) PTE_PRESENT then PTE_FRAMENO (m t i) else 0, put_pte m t i 0) })"

section \<open>Collecting empty tables\<close>

text \<open>The loop over the entries of a table; \<open>g\<close> is \<open>gc\<close> on the level below.\<close>

fun gc_loop :: "(nat \<Rightarrow> pte_t \<Rightarrow> ptmem \<Rightarrow> 's \<Rightarrow> (bool \<times> ptmem \<times> 's) option) \<Rightarrow> nat \<Rightarrow> nat \<Rightarrow> nat list \<Rightarrow> nat \<Rightarrow> ptmem \<Rightarrow> 's \<Rightarrow> (bool \<times> ptmem \<times> 's) option" where
  "gc_loop g t bits [] virt m s = Some (True, m, s)"
| "gc_loop g t bits (i # is) virt m s =
     (if has (m t i) PTE_EXISTS then do {
        (r, m1, s1) \<leftarrow> g virt (m t i) m s;
        if \<not> r then Some (False, m1, s1) else gc_loop g t bits is (uadd virt (2 ^ bits)) m1 s1 }
      else gc_loop g t bits is (uadd virt (2 ^ bits)) m s)"

primrec gc :: "'s Allocator \<Rightarrow> nat \<Rightarrow> nat \<Rightarrow> nat \<Rightarrow> pte_t \<Rightarrow> ptmem \<Rightarrow> 's \<Rightarrow> (bool \<times> ptmem \<times> 's) option" where
  "gc al 0 bits virt pte m s = Some (\<not> has pte PTE_EXISTS, m, s)"
| "gc al (Suc level) bits virt pte m s =
     (if \<not> has pte PTE_EXISTS then Some (True, m, s)
      else let t = PTE_FRAMENO pte; idx = virt div 2 ^ bits mod PT_ENTRY_COUNT in do {
        (ok, m1, s1) \<leftarrow> (if has (m t idx) PTE_PRESENT then do {
            (r, m1, s1) \<leftarrow> gc al level (bits - PT_BPL) virt (m t idx) m s;
            if \<not> r then Some (False, m1, s1)
            else do { s2 \<leftarrow> freePT al s1 (PTE_FRAMENO (m1 t idx)); Some (True, put_pte m1 t idx 0, s2) } }
          else Some (True, m, s));
        if \<not> ok then Some (False, m1, s1)
        else if Suc level < PT_LEVELS then
          gc_loop (\<lambda>v p. gc al level (bits - PT_BPL) v p) t bits [0..<PT_ENTRY_COUNT] (virt div 2 ^ (bits + PT_BPL) * 2 ^ (bits + PT_BPL)) m1 s1
        else Some (True, m1, s1) })"

section \<open>Ranges\<close>

definition gc_area :: "nat \<Rightarrow> bool" where
  "gc_area virt = (virt < KERNEL_AREA \<or> virt \<ge> KSTACK_AREA)"

definition gc_root :: "'s Allocator \<Rightarrow> nat \<Rightarrow> nat \<Rightarrow> ptmem \<Rightarrow> 's \<Rightarrow> (ptmem \<times> 's) option" where
  "gc_root al root virt m s = do { (r, m1, s1) \<leftarrow> gc al PT_LEVELS (PT_BITS - PT_BPL) (usub virt PAGE) (mk_pte root PTE_EXISTS) m s; Some (m1, s1) }"

fun unmap_loop :: "'s Allocator \<Rightarrow> nat \<Rightarrow> nat \<Rightarrow> nat \<Rightarrow> nat \<Rightarrow> bool \<Rightarrow> ptmem \<Rightarrow> 's \<Rightarrow> (nat \<times> nat \<times> bool \<times> ptmem \<times> 's) option" where
  "unmap_loop al root 0 virt lastPti shoot m s = Some (virt, lastPti, shoot, m, s)"
| "unmap_loop al root (Suc n) virt lastPti shoot m s = (let pti = PT_IDX virt 1 in do {
     (m1, s1) \<leftarrow> (if pti \<noteq> lastPti \<and> lastPti \<noteq> PT_ENTRY_COUNT \<and> gc_area virt then gc_root al root virt m s else Some (m, s));
     (frame, m2) \<leftarrow> unmapPage root virt m1;
     s2 \<leftarrow> (if frame \<noteq> 0 then freePage al s1 frame else Some s1);
     unmap_loop al root n (uadd virt PAGE) pti (shoot \<or> frame \<noteq> 0) m2 s2 })"

definition unmap :: "'s Allocator \<Rightarrow> nat \<Rightarrow> nat \<Rightarrow> nat \<Rightarrow> ptmem \<Rightarrow> 's \<Rightarrow> (int \<times> ptmem \<times> 's) option" where
  "unmap al root virt cnt m s = do {
     (virt, pti, shoot, m1, s1) \<leftarrow> unmap_loop al root cnt virt PT_ENTRY_COUNT False m s;
     (m2, s2) \<leftarrow> (if pti \<noteq> PT_ENTRY_COUNT \<and> gc_area virt then gc_root al root virt m1 s1 else Some (m1, s1));
     Some (of_bool shoot, m2, s2) }"

text \<open>\<open>PTE_NO_EXEC\<close>, bit 63, is lost in an entry of 32 bits.\<close>

definition pte_flags :: "bool \<Rightarrow> 32 word \<Rightarrow> pte_t" where
  "pte_flags hasNXE flags =
     (if \<not> has flags PG_NOPAGES then PTE_EXISTS else 0) OR
     (if has flags PG_PRESENT then PTE_PRESENT else 0) OR
     (if has flags PG_PRESENT \<and> has flags PG_WRITABLE then PTE_WRITABLE else 0) OR
     (if \<not> has flags PG_SUPERVISOR then PTE_NOTSUPER else 0) OR
     (if has flags PG_GLOBAL then PTE_GLOBAL else 0) OR
     (if hasNXE \<and> \<not> has flags PG_EXECUTABLE then push_bit 63 1 else 0)"

text \<open>The loop of \<open>map\<close>: the number of pages that are left at an error.\<close>

fun map_loop :: "'s Allocator \<Rightarrow> nat \<Rightarrow> bool \<Rightarrow> pte_t \<Rightarrow> nat \<Rightarrow> nat \<Rightarrow> bool \<Rightarrow> ptmem \<Rightarrow> 's \<Rightarrow> (nat \<times> bool \<times> ptmem \<times> 's) option" where
  "map_loop al root pr pflags 0 virt shoot m s = Some (0, shoot, m, s)"
| "map_loop al root pr pflags (Suc n) virt shoot m s = do {
     (frame, s1) \<leftarrow> (if pr then allocPage al s else Some (0, s));
     if pr \<and> frame = INVALID_FRAME then Some (Suc n, shoot, m, s1)
     else do {
       (r, m1, s2) \<leftarrow> mapPage al root virt frame pflags m s1;
       if r < 0 then Some (Suc n, shoot, m1, s2)
       else map_loop al root pr pflags n (uadd virt PAGE) (shoot \<or> r = 1) m1 s2 } }"

definition pt_map :: "bool \<Rightarrow> 's Allocator \<Rightarrow> nat \<Rightarrow> nat \<Rightarrow> nat \<Rightarrow> 32 word \<Rightarrow> ptmem \<Rightarrow> 's \<Rightarrow> (int \<times> ptmem \<times> 's) option" where
  "pt_map hasNXE al root virt cnt flags m s = do {
     (left, shoot, m1, s1) \<leftarrow> map_loop al root (has flags PG_PRESENT) (pte_flags hasNXE flags) cnt (virt div PAGE * PAGE) False m s;
     if left = 0 then Some (of_bool shoot, m1, s1)
     else do { (r, m2, s2) \<leftarrow> unmap al root virt (cnt - left) m1 s1; Some (- ENOMEM, m2, s2) } }"

primrec countEntries :: "ptmem \<Rightarrow> nat \<Rightarrow> pte_t \<Rightarrow> nat" where
  "countEntries m 0 pte = 0"
| "countEntries m (Suc level) pte = (let t = PTE_FRAMENO pte; last = (if Suc level = PT_LEVELS then PT_IDX KERNEL_AREA level else PT_ENTRY_COUNT) in
     sum_list (map (\<lambda>i. if has (m t i) PTE_PRESENT then if level = 0 then 1 else countEntries m level (m t i) else 0) [0..<last]))"

definition getPageCount :: "ptmem \<Rightarrow> nat \<Rightarrow> nat" where
  "getPageCount m root = countEntries m PT_LEVELS (mk_pte root 0)"

section \<open>Cloning\<close>

fun clone_loop :: "bool \<Rightarrow> nat \<Rightarrow> nat \<Rightarrow> nat \<Rightarrow> nat \<Rightarrow> nat \<Rightarrow> ptmem \<Rightarrow> ptenv \<Rightarrow> (nat \<times> ptmem \<times> ptenv) option" where
  "clone_loop share this dst 0 virtSrc virtDst m s = Some (0, m, s)"
| "clone_loop share this dst (Suc n) virtSrc virtDst m s = do {
     (t, i, base) \<leftarrow> getPTE m this virtSrc;
     let pte = (if has (m t i) PTE_WRITABLE \<and> \<not> share \<and> has (m t i) PTE_PRESENT then m t i AND NOT PTE_WRITABLE else m t i);
     (r, m1, s1) \<leftarrow> mapPage NoAllocator dst virtDst (PTE_FRAMENO pte) (pte AND PTE_FLAGS) m s;
     if r < 0 then Some (Suc n, m1, s1)
     else do {
       (r, m2, s2) \<leftarrow> (if \<not> share \<and> has pte PTE_PRESENT
          then mapPage NoAllocator this virtSrc (PTE_FRAMENO pte) (pte AND PTE_FLAGS AND NOT PTE_WRITABLE) m1 s1 else Some (0, m1, s1));
       vassert (r \<ge> 0);
       clone_loop share this dst n (uadd virtSrc PAGE) (uadd virtDst PAGE) m2 s2 } }"

fun restore_loop :: "bool \<Rightarrow> nat \<Rightarrow> nat \<Rightarrow> nat \<Rightarrow> ptmem \<Rightarrow> ptenv \<Rightarrow> (ptmem \<times> ptenv) option" where
  "restore_loop share this 0 virtSrc m s = Some (m, s)"
| "restore_loop share this (Suc n) virtSrc m s = do {
     (t, i, base) \<leftarrow> getPTE m this virtSrc;
     (r, m1, s1) \<leftarrow> (if \<not> share \<and> has (m t i) PTE_PRESENT
        then mapPage NoAllocator this virtSrc (PTE_FRAMENO (m t i)) (PTE_PRESENT OR PTE_WRITABLE OR PTE_EXISTS) m s else Some (0, m, s));
     restore_loop share this n (uadd virtSrc PAGE) m1 s1 }"

definition ptbl_clone :: "nat \<Rightarrow> nat \<Rightarrow> nat \<Rightarrow> nat \<Rightarrow> nat \<Rightarrow> nat \<Rightarrow> bool \<Rightarrow> ptmem \<Rightarrow> ptenv \<Rightarrow> (int \<times> ptmem \<times> ptenv) option" where
  "ptbl_clone cur this dst virtSrc virtDst cnt share m s = do {
     vassert (this \<noteq> dst \<and> (this = cur \<or> dst = cur));
     (left, m1, s1) \<leftarrow> clone_loop share this dst cnt virtSrc virtDst m (s\<lparr>e_pts := 0\<rparr>);
     if left = 0 then Some (int (e_pts s1), m1, s1)
     else do {
       (r, m2, s2) \<leftarrow> unmap NoAllocator dst virtDst (cnt - left) m1 s1;
       (m3, s3) \<leftarrow> restore_loop share this (cnt - left) virtSrc m2 s2;
       Some (- ENOMEM, m3, s3) } }"

section \<open>Bits of entries\<close>

lemma has_bit [simp]: "has w 1 = bit w 0" "has w 2 = bit w 1" "has w 4 = bit w 2" "has w 8 = bit w 3" "has w 16 = bit w 4" "has w 32 = bit w 5"
  "has w 0x80 = bit w 7" "has w 0x100 = bit w 8" "has w 0x200 = bit w 9"
  using and_exp_eq_0_iff_not_bit [of w 0] and_exp_eq_0_iff_not_bit [of w 1] and_exp_eq_0_iff_not_bit [of w 2] and_exp_eq_0_iff_not_bit [of w 3]
    and_exp_eq_0_iff_not_bit [of w 4] and_exp_eq_0_iff_not_bit [of w 5] and_exp_eq_0_iff_not_bit [of w 7] and_exp_eq_0_iff_not_bit [of w 8] and_exp_eq_0_iff_not_bit [of w 9]
  by (simp_all add: has_def)

text \<open>The flags of an entry are its lower 12 bits.\<close>

definition is_flags :: "pte_t \<Rightarrow> bool" where
  "is_flags w = (\<forall>n. bit w n \<longrightarrow> n < 12)"

lemma bit_flags: "bit PTE_FLAGS n \<longleftrightarrow> n < 12" "bit (4095 :: int) n \<longleftrightarrow> n < 12"
proof -
  have m: "(PTE_FLAGS :: 32 word) = mask 12" "(4095 :: int) = mask 12" by (simp_all add: mask_eq_exp_minus_1)
  show "bit PTE_FLAGS n \<longleftrightarrow> n < 12" unfolding m by (auto simp: bit_mask_iff)
  show "bit (4095 :: int) n \<longleftrightarrow> n < 12" unfolding m(2) by (auto simp: bit_mask_iff)
qed

lemma is_flags_and [simp]: "is_flags (w AND PTE_FLAGS)" "is_flags v \<Longrightarrow> is_flags (v AND w)"
  by (auto simp: is_flags_def bit_and_iff bit_flags)

lemma is_flags_or [simp]: "is_flags v \<Longrightarrow> is_flags w \<Longrightarrow> is_flags (v OR w)"
  by (auto simp: is_flags_def bit_or_iff)

lemma bit_small_numeral: "bit (numeral w :: 32 word) n \<Longrightarrow> (numeral w :: nat) < 2 ^ k \<Longrightarrow> n < k"
proof (rule ccontr)
  assume b: "bit (numeral w :: 32 word) n" "(numeral w :: nat) < 2 ^ k" "\<not> n < k"
  then have "bit (numeral w :: int) n" by (simp only: bit_numeral_word_iff)
  moreover have "(numeral w :: nat) < 2 ^ n" using b(2,3) by (meson less_le_trans not_less power_increasing one_le_numeral)
  then have "(numeral w :: int) < 2 ^ n" by (metis of_nat_less_iff of_nat_numeral of_nat_power)
  ultimately show False by (simp add: bit_iff_odd)
qed

lemma is_flags_numeral [simp]: "is_flags 0" "is_flags 1" "(numeral w :: nat) < 4096 \<Longrightarrow> is_flags (numeral w)"
  using bit_small_numeral [of w _ 12] by (auto simp: is_flags_def bit_1_iff)

lemma bit_mk_pte: "is_flags fl \<Longrightarrow> n < 12 \<Longrightarrow> bit (mk_pte f fl) n = bit fl n"
  by (auto simp: mk_pte_def bit_simps)

lemma PTE_FRAMENO_mk [simp]: "is_flags fl \<Longrightarrow> f < 2 ^ 20 \<Longrightarrow> PTE_FRAMENO (mk_pte f fl) = f"
proof -
  assume fl: "is_flags fl" and f: "f < 2 ^ 20"
  have nb: "\<not> bit (of_nat f :: 32 word) n" if "20 \<le> n" for n
  proof -
    have "f < 2 ^ n" using f that by (meson less_le_trans power_increasing one_le_numeral)
    then have "\<not> bit f n" by (simp add: bit_iff_odd)
    then show ?thesis by (simp add: bit_of_nat_iff)
  qed
  have "drop_bit PAGE_BITS (mk_pte f fl) = of_nat f"
  proof (rule bit_word_eqI)
    fix n :: nat
    assume "n < LENGTH(32)"
    then show "bit (drop_bit PAGE_BITS (mk_pte f fl)) n = bit (of_nat f :: 32 word) n"
      using fl nb [of n] by (cases "20 \<le> n") (auto simp: mk_pte_def bit_simps is_flags_def)
  qed
  then show ?thesis using f by (simp add: PTE_FRAMENO_def unat_of_nat)
qed

lemma mk_pte_split: "mk_pte (PTE_FRAMENO w) (w AND PTE_FLAGS) = w"
  by (rule bit_word_eqI) (auto simp: mk_pte_def PTE_FRAMENO_def bit_simps bit_flags)

lemma PTE_FRAMENO_less: "PTE_FRAMENO w < 2 ^ 20"
proof -
  have "unat w < 2 ^ 32" using unsigned_less [of w] by simp
  then have "unat w div 2 ^ 12 < 2 ^ 20" by (simp add: less_mult_imp_div_less)
  then show ?thesis by (simp add: PTE_FRAMENO_def unat_div drop_bit_eq_div)
qed

lemma drop_bit_not_flags: "is_flags x \<Longrightarrow> drop_bit 12 (w AND NOT x) = drop_bit 12 w"
  by (rule bit_word_eqI) (auto simp: bit_drop_bit_eq bit_and_iff bit_not_iff is_flags_def dest: bit_imp_le_length simp del: drop_bit_and)

lemma PTE_FRAMENO_and [simp]: "PTE_FRAMENO (w AND NOT PTE_WRITABLE) = PTE_FRAMENO w"
  unfolding PTE_FRAMENO_def by (subst drop_bit_not_flags) simp_all

lemma put_pte_simps [simp]: "put_pte m t i p t i = p" "t' \<noteq> t \<or> i' \<noteq> i \<Longrightarrow> put_pte m t i p t' i' = m t' i'" "t' \<noteq> t \<Longrightarrow> put_pte m t i p t' = m t'"
  by (auto simp: put_pte_def)

section \<open>What the tables mean\<close>

definition dirx :: "nat \<Rightarrow> nat" where
  "dirx v = v div 0x400000 mod 1024"

definition tabx :: "nat \<Rightarrow> nat" where
  "tabx v = v div 0x1000 mod 1024"

lemma fold_index [simp]: "v div 0x400000 mod 1024 = dirx v" "v div 0x1000 mod 1024 = tabx v" "PT_IDX v 1 = dirx v" "PT_IDX v (Suc 0) = dirx v"
  by (simp_all add: dirx_def tabx_def PT_IDX_def)

definition lookup :: "ptmem \<Rightarrow> nat \<Rightarrow> nat \<Rightarrow> pte_t" where
  "lookup m root v = (if m root (dirx v) = 0 then 0 else m (PTE_FRAMENO (m root (dirx v))) (tabx v))"

definition same_page :: "nat \<Rightarrow> nat \<Rightarrow> bool" where
  "same_page u v = (dirx u = dirx v \<and> tabx u = tabx v)"

lemma same_page_iff: "u < 2 ^ 32 \<Longrightarrow> v < 2 ^ 32 \<Longrightarrow> same_page u v \<longleftrightarrow> u div PAGE = v div PAGE"
proof -
  assume "u < 2 ^ 32" "v < 2 ^ 32"
  then have "u div PAGE < 1024 * 1024" "v div PAGE < 1024 * 1024" by (simp_all add: less_mult_imp_div_less)
  moreover have "w div 0x400000 = w div PAGE div 1024" for w :: nat by (simp add: div_mult2_eq [symmetric])
  ultimately show ?thesis unfolding same_page_def dirx_def tabx_def
    by (metis div_mod_decomp less_mult_imp_div_less mod_less)
qed

text \<open>
  The tables of the directory \<open>root\<close> at the indices \<open>A\<close>: \<open>T\<close> are the frames in use as tables. Every entry of the directory is empty or is
  that of a table of its own, and every entry of such a table that is not empty exists.
\<close>

definition tabs :: "ptmem \<Rightarrow> nat \<Rightarrow> nat set \<Rightarrow> nat set" where
  "tabs m root A = {PTE_FRAMENO (m root i) | i. i \<in> A \<and> m root i \<noteq> 0}"

definition dir_ok :: "ptmem \<Rightarrow> nat \<Rightarrow> nat set \<Rightarrow> nat set \<Rightarrow> bool" where
  "dir_ok m root A T = (root \<in> T \<and> root < 2 ^ 20 \<and> inj_on (\<lambda>i. PTE_FRAMENO (m root i)) {i \<in> A. m root i \<noteq> 0} \<and>
     (\<forall>i \<in> A. m root i \<noteq> 0 \<longrightarrow> bit (m root i) 0 \<and> bit (m root i) 9 \<and> \<not> bit (m root i) 7 \<and>
        PTE_FRAMENO (m root i) \<in> T - {root} \<and> (\<forall>j. m (PTE_FRAMENO (m root i)) j \<noteq> 0 \<longrightarrow> bit (m (PTE_FRAMENO (m root i)) j) 9)))"

text \<open>What an operation leaves alone: the other entries of the directory and all other tables. Of the frames in use as tables, only those of this directory at the
  indices \<open>A\<close> change.\<close>

definition keeps :: "nat \<Rightarrow> nat set \<Rightarrow> ptmem \<Rightarrow> nat set \<Rightarrow> ptmem \<Rightarrow> nat set \<Rightarrow> bool" where
  "keeps root A m T m' T' = ((\<forall>i. i \<notin> A \<longrightarrow> m' root i = m root i) \<and>
     (\<forall>f \<in> T. f \<noteq> root \<longrightarrow> f \<notin> tabs m root A \<longrightarrow> m' f = m f \<and> f \<in> T' \<and> f \<notin> tabs m' root A) \<and>
     T' - tabs m' root A = T - tabs m root A)"

lemma ptkeeps_refl [simp]: "keeps root A m T m T"
  by (simp add: keeps_def)

lemma ptkeeps_trans: "keeps root A m T m' T' \<Longrightarrow> keeps root A m' T' m'' T'' \<Longrightarrow> keeps root A m T m'' T''"
  by (simp add: keeps_def)

lemma dir_entry:
  assumes "dir_ok m root A T" "i \<in> A" "m root i \<noteq> 0"
  shows "bit (m root i) 0" "bit (m root i) 9" "\<not> bit (m root i) 7" "PTE_FRAMENO (m root i) \<in> T" "PTE_FRAMENO (m root i) \<noteq> root"
    "m (PTE_FRAMENO (m root i)) j \<noteq> 0 \<Longrightarrow> bit (m (PTE_FRAMENO (m root i)) j) 9"
  using assms by (auto simp: dir_ok_def)

lemma dir_inj: "dir_ok m root A T \<Longrightarrow> i \<in> A \<Longrightarrow> j \<in> A \<Longrightarrow> m root i \<noteq> 0 \<Longrightarrow> m root j \<noteq> 0 \<Longrightarrow> PTE_FRAMENO (m root i) = PTE_FRAMENO (m root j) \<Longrightarrow> i = j"
  unfolding dir_ok_def by (auto dest: inj_onD)

lemma getPTE_dir:
  assumes "dir_ok m root A T" "dirx v \<in> A"
  shows "getPTE m root v = (if m root (dirx v) = 0 then None else Some (PTE_FRAMENO (m root (dirx v)), tabx v, v))"
  using dir_entry [OF assms] by (auto simp: getPTE_def Let_def)

text \<open>Changing one entry of a table.\<close>

lemma put_entry:
  assumes d: "dir_ok m root A T" and v: "dirx v \<in> A" "m root (dirx v) \<noteq> 0" and p: "p = 0 \<or> bit p 9"
  defines "m' \<equiv> put_pte m (PTE_FRAMENO (m root (dirx v))) (tabx v) p"
  shows "dir_ok m' root A T" "keeps root A m T m' T" "dirx u \<in> A \<Longrightarrow> lookup m' root u = (if same_page u v then p else lookup m root u)"
proof -
  note e = dir_entry [OF d]
  have r: "m' root = m root" using e(5) [OF v] by (simp add: m'_def)
  have n: "m' f = m f" if "f \<noteq> PTE_FRAMENO (m root (dirx v))" for f using that by (simp add: m'_def)
  show "dir_ok m' root A T" using d p unfolding dir_ok_def r by (auto simp: m'_def put_pte_def)
  have "PTE_FRAMENO (m root (dirx v)) \<in> tabs m root A" using v by (auto simp: tabs_def)
  moreover have "tabs m' root A = tabs m root A" by (simp add: tabs_def r)
  ultimately show "keeps root A m T m' T" using n unfolding keeps_def r by metis
  show "lookup m' root u = (if same_page u v then p else lookup m root u)" if "dirx u \<in> A"
  proof (cases "m root (dirx u) = 0 \<or> dirx u \<noteq> dirx v")
    case True
    moreover have "PTE_FRAMENO (m root (dirx u)) \<noteq> PTE_FRAMENO (m root (dirx v))" if "m root (dirx u) \<noteq> 0" "dirx u \<noteq> dirx v"
      using dir_inj [OF d \<open>dirx u \<in> A\<close> v(1)] that v(2) by auto
    ultimately show ?thesis using v(2) by (auto simp: lookup_def r n same_page_def)
  next
    case False
    then have "lookup m' root u = m' (PTE_FRAMENO (m root (dirx v))) (tabx u)" "lookup m root u = m (PTE_FRAMENO (m root (dirx v))) (tabx u)" "same_page u v \<longleftrightarrow> tabx u = tabx v"
      using v(2) by (auto simp: lookup_def r same_page_def)
    then show ?thesis by (simp add: m'_def)
  qed
qed

lemma tabx_less [simp]: "tabx v < 1024" "dirx v < 1024"
  unfolding tabx_def dirx_def by (rule mod_less_divisor, simp)+

lemma dir_okI:
  assumes "root \<in> T" "root < 2 ^ 20" "inj_on (\<lambda>i. PTE_FRAMENO (m root i)) {i \<in> A. m root i \<noteq> 0}"
    "\<And>i. i \<in> A \<Longrightarrow> m root i \<noteq> 0 \<Longrightarrow> bit (m root i) 0 \<and> bit (m root i) 9 \<and> \<not> bit (m root i) 7 \<and> PTE_FRAMENO (m root i) \<in> T - {root}"
    "\<And>i j. i \<in> A \<Longrightarrow> m root i \<noteq> 0 \<Longrightarrow> m (PTE_FRAMENO (m root i)) j \<noteq> 0 \<Longrightarrow> bit (m (PTE_FRAMENO (m root i)) j) 9"
  shows "dir_ok m root A T"
  using assms unfolding dir_ok_def by blast

lemma add_table:
  assumes d: "dir_ok m root A T" and i: "i \<in> A" "m root i = 0" and f: "f \<notin> T" "PTE_FRAMENO e = f" "bit e 0" "bit e 9" "\<not> bit e 7"
  defines "m' \<equiv> (put_pte m root i e)(f := (\<lambda>_. 0))"
  shows "dir_ok m' root A (insert f T)" "keeps root A m T m' (insert f T)" "dirx u \<in> A \<Longrightarrow> lookup m' root u = lookup m root u"
proof -
  have fr: "f \<noteq> root" using d f(1) by (auto simp: dir_ok_def)
  have e0: "e \<noteq> 0" using f(3) by auto
  have r: "m' root j = (if j = i then e else m root j)" for j using fr by (simp add: m'_def)
  have n: "m' g = m g" if "g \<noteq> root" "g \<noteq> f" for g using that by (simp add: m'_def)
  have z: "m' f j = 0" for j by (simp add: m'_def)
  have tf: "PTE_FRAMENO (m root j) \<noteq> f" if "j \<in> A" "m root j \<noteq> 0" for j using dir_entry(4) [OF d that] f(1) by auto
  have inj: "inj_on (\<lambda>j. PTE_FRAMENO (m' root j)) {j \<in> A. m' root j \<noteq> 0}"
  proof (rule inj_onI)
    fix j k
    assume *: "j \<in> {j \<in> A. m' root j \<noteq> 0}" "k \<in> {j \<in> A. m' root j \<noteq> 0}" "PTE_FRAMENO (m' root j) = PTE_FRAMENO (m' root k)"
    then show "j = k" using dir_inj [OF d, of j k] tf [of j] tf [of k] f(2) by (cases "j = i"; cases "k = i") (simp_all add: r)
  qed
  have s: "m' (PTE_FRAMENO (m root j)) = m (PTE_FRAMENO (m root j))" if "j \<in> A" "m root j \<noteq> 0" for j using n tf [OF that] dir_entry(5) [OF d that] by simp
  show "dir_ok m' root A (insert f T)"
  proof (rule dir_okI)
    fix j k
    assume j: "j \<in> A" "m' root j \<noteq> 0"
    show "bit (m' root j) 0 \<and> bit (m' root j) 9 \<and> \<not> bit (m' root j) 7 \<and> PTE_FRAMENO (m' root j) \<in> insert f T - {root}"
      using j dir_entry(1-5) [OF d j(1)] f fr by (cases "j = i") (simp_all add: r)
    show "bit (m' (PTE_FRAMENO (m' root j)) k) 9" if "m' (PTE_FRAMENO (m' root j)) k \<noteq> 0"
      using that j z f(2) dir_entry(6) [OF d j(1)] s [OF j(1)] by (cases "j = i") (simp_all add: r)
  qed (use d inj in \<open>auto simp: dir_ok_def\<close>)
  have "tabs m' root A = insert f (tabs m root A)" using i f(2) e0 by (auto simp: tabs_def r)
  then show "keeps root A m T m' (insert f T)" using n i(1) f(1) by (auto simp: keeps_def r)
  show "lookup m' root u = lookup m root u" if "dirx u \<in> A"
  proof (cases "dirx u = i")
    case True
    then show ?thesis using i(2) e0 f(2) z by (simp add: lookup_def r)
  next
    case False
    then show ?thesis using that n [of "PTE_FRAMENO (m root (dirx u))"] tf [of "dirx u"] dir_entry(5) [OF d that] by (simp add: lookup_def r)
  qed
qed

lemma remove_table:
  assumes d: "dir_ok m root A T" and i: "i \<in> A" "m root i \<noteq> 0" and z: "\<forall>j < 1024. m (PTE_FRAMENO (m root i)) j = 0"
  defines "m' \<equiv> put_pte m root i 0" and "T' \<equiv> T - {PTE_FRAMENO (m root i)}"
  shows "dir_ok m' root A T'" "keeps root A m T m' T'" "dirx u \<in> A \<Longrightarrow> lookup m' root u = lookup m root u"
proof -
  have r: "m' root j = (if j = i then 0 else m root j)" for j by (simp add: m'_def)
  have n: "m' g = m g" if "g \<noteq> root" for g using that by (simp add: m'_def)
  have "{j \<in> A. m' root j \<noteq> 0} \<subseteq> {j \<in> A. m root j \<noteq> 0}" by (auto simp: r)
  then have "inj_on (\<lambda>j. PTE_FRAMENO (m root j)) {j \<in> A. m' root j \<noteq> 0}" using d inj_on_subset unfolding dir_ok_def by blast
  then have "inj_on (\<lambda>j. PTE_FRAMENO (m' root j)) {j \<in> A. m' root j \<noteq> 0}" by (rule inj_on_cong [THEN iffD1, rotated]) (auto simp: r)
  moreover have "PTE_FRAMENO (m root j) \<in> T' - {root} \<and> m' (PTE_FRAMENO (m root j)) = m (PTE_FRAMENO (m root j))" if "j \<in> A" "m root j \<noteq> 0" "j \<noteq> i" for j
    using dir_inj [OF d that(1) i(1) that(2) i(2)] dir_entry(4,5) [OF d that(1,2)] that(3) n by (auto simp: T'_def)
  moreover have "root \<in> T'" using d dir_entry(5) [OF d i] by (auto simp: T'_def dir_ok_def)
  moreover have "root < 2 ^ 20" using d by (simp add: dir_ok_def)
  ultimately show "dir_ok m' root A T'"
    using dir_entry [OF d] by (intro dir_okI) (simp_all add: r split: if_splits)
  have "tabs m root A = insert (PTE_FRAMENO (m root i)) (tabs m' root A)" using i by (auto simp: tabs_def r split: if_splits)
  then show "keeps root A m T m' T'" using n i(1) by (auto simp: keeps_def r T'_def)
  show "lookup m' root u = lookup m root u" if "dirx u \<in> A"
  proof (cases "dirx u = i")
    case True
    then show ?thesis using z tabx_less by (simp add: lookup_def r)
  next
    case False
    then show ?thesis using n [of "PTE_FRAMENO (m root (dirx u))"] dir_entry(5) [OF d that] by (auto simp: lookup_def r)
  qed
qed

section \<open>What an allocator promises\<close>

text \<open>\<open>ok s T P k\<close>: in the state \<open>s\<close> the frames \<open>T\<close> are in use as page tables and \<open>P\<close> as pages, and \<open>k\<close> more pages can be asked for;
  \<open>keep\<close>: pages are not freed. The allocator gives frames that are in use for neither of them, or fails.\<close>

locale pt_allocator =
  fixes al :: "'s Allocator" and keep :: bool and ok :: "'s \<Rightarrow> nat set \<Rightarrow> nat set \<Rightarrow> nat \<Rightarrow> bool"
  assumes alloc_PT: "ok s T P k \<Longrightarrow> \<exists>f s'. allocPT al s = Some (f, s') \<and> (if f = INVALID_FRAME then ok s' T P k else f \<notin> T \<and> f \<notin> P \<and> f < 2 ^ 20 \<and> ok s' (insert f T) P k)"
    and free_PT: "ok s T P k \<Longrightarrow> f \<in> T \<Longrightarrow> \<exists>s'. freePT al s f = Some s' \<and> ok s' (T - {f}) P k"
    and free_page: "ok s T P k \<Longrightarrow> keep \<or> f \<in> P \<Longrightarrow> \<exists>s'. freePage al s f = Some s' \<and> ok s' T (if keep then P else P - {f}) k"
begin

lemma crtPageTable_adds:
  assumes "dir_ok m root A T" "ok s T P k" "i \<in> A" "m root i = 0"
  shows "\<exists>r m' s' T'. crtPageTable al root i fl m s = Some (r, m', s') \<and> ok s' T' P k \<and> dir_ok m' root A T' \<and> keeps root A m T m' T' \<and>
    (\<forall>u. dirx u \<in> A \<longrightarrow> lookup m' root u = lookup m root u) \<and> (r = - ENOMEM \<and> m' = m \<or> r = 0 \<and> m' root i \<noteq> 0)"
proof -
  obtain f s' where f: "allocPT al s = Some (f, s')" "if f = INVALID_FRAME then ok s' T P k else f \<notin> T \<and> f \<notin> P \<and> f < 2 ^ 20 \<and> ok s' (insert f T) P k"
    using alloc_PT [OF assms(2)] by blast
  show ?thesis
  proof (cases "f = INVALID_FRAME")
    case True
    then show ?thesis using f assms(1) by (auto simp: crtPageTable_def)
  next
    case False
    define x where "x = (if \<not> has fl PG_SUPERVISOR then PTE_PRESENT OR PTE_WRITABLE OR PTE_EXISTS OR PTE_NOTSUPER else PTE_PRESENT OR PTE_WRITABLE OR PTE_EXISTS)"
    have x: "is_flags x" "bit x 0" "bit x 9" "\<not> bit x 7" by (auto simp: x_def bit_simps)
    have e: "PTE_FRAMENO (mk_pte f x) = f" "bit (mk_pte f x) 0" "bit (mk_pte f x) 9" "\<not> bit (mk_pte f x) 7"
      using x f(2) False bit_mk_pte [OF x(1)] by simp_all
    have o: "mk_pte f 515 OR 4 = mk_pte f 519" by (simp add: mk_pte_def or.assoc)
    have "crtPageTable al root i fl m s = Some (0, (put_pte m root i (mk_pte f x))(f := (\<lambda>_. 0)), s')"
      using f(1) False assms(4) by (auto simp: crtPageTable_def x_def o)
    moreover have "f \<notin> T" "ok s' (insert f T) P k" using f(2) False by simp_all
    moreover have "f \<noteq> root" using \<open>f \<notin> T\<close> assms(1) by (auto simp: dir_ok_def)
    moreover have "mk_pte f x \<noteq> 0" using e(2) by auto
    ultimately show ?thesis using add_table [OF assms(1,3,4) \<open>f \<notin> T\<close> e] by (auto intro!: exI [of _ "insert f T"])
  qed
qed

end

definition new_pte :: "ptmem \<Rightarrow> nat \<Rightarrow> nat \<Rightarrow> nat \<Rightarrow> pte_t \<Rightarrow> pte_t" where
  "new_pte m root v f fl = (if f \<noteq> 0 then mk_pte f fl else (lookup m root v AND NOT PTE_FLAGS) OR fl)"


text \<open>\<open>gc\<close> on a table of the last level finds out whether it is empty.\<close>

lemma gc_loop_last: "gc_loop (\<lambda>v p. gc al 0 b v p) t bits is v m s = Some (\<forall>i \<in> set is. \<not> bit (m t i) 9, m, s)"
  by (induction "is" arbitrary: v) auto

lemma gc_last:
  assumes "bit e 9" "\<And>j. m (PTE_FRAMENO e) j \<noteq> 0 \<Longrightarrow> bit (m (PTE_FRAMENO e) j) 9"
  shows "gc al (Suc 0) 12 v e m s = Some (\<forall>j < 1024. m (PTE_FRAMENO e) j = 0, m, s)"
proof -
  have e: "bit (m (PTE_FRAMENO e) j) 9 \<longleftrightarrow> m (PTE_FRAMENO e) j \<noteq> 0" for j using assms(2) by auto
  show ?thesis
  proof (cases "bit (m (PTE_FRAMENO e) (tabx v)) 0")
    case True
    then have "m (PTE_FRAMENO e) (tabx v) \<noteq> 0" by auto
    moreover from this have "\<not> (\<forall>j < 1024. m (PTE_FRAMENO e) j = 0)" using tabx_less(1) by blast
    ultimately show ?thesis using assms(1) True by (simp add: e Let_def)
  next
    case False
    then show ?thesis using assms(1) by (simp add: gc_loop_last e Let_def atLeast0LessThan Ball_def)
  qed
qed

context pt_allocator
begin

lemma mapPage_maps:
  assumes d: "dir_ok m root A T" "ok s T P k" and v: "dirx v \<in> A" and p: "new_pte m root v f fl = 0 \<or> bit (new_pte m root v f fl) 9"
  shows "\<exists>r m' s' T'. mapPage al root v f fl m s = Some (r, m', s') \<and> ok s' T' P k \<and> dir_ok m' root A T' \<and> keeps root A m T m' T' \<and>
    (m root (dirx v) \<noteq> 0 \<longrightarrow> 0 \<le> r) \<and>
    (if r < 0 then r = - ENOMEM \<and> m' = m else r = of_bool (bit (lookup m root v) 0) \<and>
       (\<forall>u. dirx u \<in> A \<longrightarrow> lookup m' root u = (if same_page u v then new_pte m root v f fl else lookup m root u)))"
proof -
  have "\<exists>r m1 s1 T1. (if m root (dirx v) = 0 then crtPageTable al root (dirx v) fl m s else Some (0, m, s)) = Some (r, m1, s1) \<and>
     ok s1 T1 P k \<and> dir_ok m1 root A T1 \<and> keeps root A m T m1 T1 \<and> (\<forall>u. dirx u \<in> A \<longrightarrow> lookup m1 root u = lookup m root u) \<and>
     (r = - ENOMEM \<and> m1 = m \<and> m root (dirx v) = 0 \<or> r = 0 \<and> m1 root (dirx v) \<noteq> 0)"
    using crtPageTable_adds [OF d v, of fl] d by (cases "m root (dirx v) = 0") auto
  then obtain r m1 s1 T1 where w: "(if m root (dirx v) = 0 then crtPageTable al root (dirx v) fl m s else Some (0, m, s)) = Some (r, m1, s1)"
    and o: "ok s1 T1 P k" "dir_ok m1 root A T1" "keeps root A m T m1 T1" "\<And>u. dirx u \<in> A \<Longrightarrow> lookup m1 root u = lookup m root u"
    and c: "r = - ENOMEM \<and> m1 = m \<and> m root (dirx v) = 0 \<or> r = 0 \<and> m1 root (dirx v) \<noteq> 0" by blast
  show ?thesis
  proof (cases "r = 0 \<and> m1 root (dirx v) \<noteq> 0")
    case True
    let ?t = "PTE_FRAMENO (m1 root (dirx v))" and ?p = "new_pte m root v f fl"
    have l: "m1 ?t (tabx v) = lookup m root v" using o(4) [OF v] True by (simp add: lookup_def)
    have "mapPage al root v f fl m s = Some (of_bool (bit (lookup m root v) 0), put_pte m1 ?t (tabx v) ?p, s1)"
      using w True by (simp add: mapPage_def Let_def l new_pte_def)
    moreover note put_entry [OF o(2) v _ p] True
    moreover have "keeps root A m T (put_pte m1 ?t (tabx v) ?p) T1" using ptkeeps_trans [OF o(3)] put_entry(2) [OF o(2) v _ p] True by blast
    ultimately show ?thesis using o(1,4) by (intro exI [of _ "of_bool (bit (lookup m root v) 0)"] exI [of _ "put_pte m1 ?t (tabx v) ?p"] exI [of _ s1] exI [of _ T1]) simp
  next
    case False
    then have "r = - ENOMEM" "m1 = m" "m root (dirx v) = 0" using c by auto
    then have "mapPage al root v f fl m s = Some (- ENOMEM, m, s1)" using w by (simp add: mapPage_def Let_def)
    then show ?thesis using o \<open>m1 = m\<close> \<open>m root (dirx v) = 0\<close> by auto
  qed
qed

lemma gc_root_keeps:
  assumes d: "dir_ok m root A T" "ok s T P k" and v: "dirx (usub v PAGE) \<in> A"
  shows "\<exists>m' s' T'. gc_root al root v m s = Some (m', s') \<and> T' \<subseteq> T \<and> ok s' T' P k \<and> dir_ok m' root A T' \<and> keeps root A m T m' T' \<and>
    (\<forall>u. dirx u \<in> A \<longrightarrow> lookup m' root u = lookup m root u)"
proof -
  let ?i = "dirx (usub v PAGE)"
  have r: "root < 2 ^ 20" "PTE_FRAMENO (mk_pte root PTE_EXISTS) = root" "bit (mk_pte root PTE_EXISTS) 9"
    using d(1) bit_mk_pte [of PTE_EXISTS 9 root] by (auto simp: dir_ok_def bit_simps)
  have two: "PT_LEVELS = Suc (Suc 0)" by simp
  show ?thesis
  proof (cases "m root ?i = 0")
    case True
    then have "gc_root al root v m s = Some (m, s)" using r unfolding gc_root_def two by (simp add: Let_def)
    then show ?thesis using d by auto
  next
    case False
    note e = dir_entry [OF d(1) v False]
    have g: "gc al (Suc 0) 12 (usub v PAGE) (m root ?i) m s = Some (\<forall>j < 1024. m (PTE_FRAMENO (m root ?i)) j = 0, m, s)" using e(2,6) by (intro gc_last) auto
    show ?thesis
    proof (cases "\<forall>j < 1024. m (PTE_FRAMENO (m root ?i)) j = 0")
      case True
      obtain s' where s': "freePT al s (PTE_FRAMENO (m root ?i)) = Some s'" "ok s' (T - {PTE_FRAMENO (m root ?i)}) P k" using free_PT [OF d(2) e(4)] by blast
      then have "gc_root al root v m s = Some (put_pte m root ?i 0, s')" using r g True e(1) unfolding gc_root_def two by (simp add: Let_def del: gc.simps(1))
      then show ?thesis using remove_table [OF d(1) v False True] s'(2) Diff_subset by metis
    next
      case False
      then have "gc_root al root v m s = Some (m, s)" using r g e(1) unfolding gc_root_def two by (simp add: Let_def del: gc.simps(1))
      then show ?thesis using d by auto
    qed
  qed
qed

end

section \<open>Ranges of pages\<close>

definition in_range :: "nat \<Rightarrow> nat \<Rightarrow> nat \<Rightarrow> bool" where
  "in_range u v n = (\<exists>i < n. same_page u (v + i * PAGE))"

lemma in_range_0 [simp]: "\<not> in_range u v 0"
  by (simp add: in_range_def)

lemma in_range_Suc: "in_range u v (Suc n) \<longleftrightarrow> same_page u v \<or> in_range u (v + PAGE) n"
proof -
  have "(\<exists>i < Suc n. same_page u (v + i * PAGE)) \<longleftrightarrow> same_page u (v + 0 * PAGE) \<or> (\<exists>i < n. same_page u (v + Suc i * PAGE))" by (rule Ex_less_Suc2)
  then show ?thesis by (simp add: in_range_def add.assoc)
qed

lemma same_page_refl [simp]: "same_page u u"
  by (simp add: same_page_def)

lemma next_pages: "v + Suc n * PAGE \<le> 2 ^ 32 \<Longrightarrow> i < n \<Longrightarrow> \<not> same_page (v + PAGE + i * PAGE) v"
  by (subst same_page_iff) simp_all

text \<open>The frames of the present pages of a range.\<close>

fun frames_at :: "(nat \<Rightarrow> pte_t) \<Rightarrow> nat \<Rightarrow> nat \<Rightarrow> nat list" where
  "frames_at l v 0 = []"
| "frames_at l v (Suc n) = (if bit (l v) 0 \<and> PTE_FRAMENO (l v) \<noteq> 0 then [PTE_FRAMENO (l v)] else []) @ frames_at l (v + PAGE) n"

lemma frames_at_cong: "(\<And>i. i < n \<Longrightarrow> l (v + i * PAGE) = l' (v + i * PAGE)) \<Longrightarrow> frames_at l v n = frames_at l' v n"
proof (induction n arbitrary: v)
  case (Suc n)
  have "l v = l' v" using Suc.prems [of 0] by simp
  moreover have "frames_at l (v + PAGE) n = frames_at l' (v + PAGE) n"
  proof (rule Suc.IH)
    fix i
    assume "i < n"
    then show "l (v + PAGE + i * PAGE) = l' (v + PAGE + i * PAGE)" using Suc.prems [of "Suc i"] by (simp add: add.assoc)
  qed
  ultimately show ?case by simp
qed simp

context pt_allocator
begin

lemma unmapPage_removes:
  assumes d: "dir_ok m root A T" and v: "dirx v \<in> A"
  shows "\<exists>m'. unmapPage root v m = Some (if bit (lookup m root v) 0 then PTE_FRAMENO (lookup m root v) else 0, m') \<and> dir_ok m' root A T \<and> keeps root A m T m' T \<and>
    (\<forall>u. dirx u \<in> A \<longrightarrow> lookup m' root u = (if same_page u v then 0 else lookup m root u))"
proof (cases "m root (dirx v) = 0")
  case True
  then have "unmapPage root v m = Some (0, m)" by (simp add: unmapPage_def getPTE_dir [OF assms])
  moreover have "lookup m root u = 0" if "same_page u v" for u using that True by (simp add: lookup_def same_page_def)
  ultimately show ?thesis using d by (auto intro!: exI [of _ m])
next
  case False
  then have "unmapPage root v m = Some (if bit (lookup m root v) 0 then PTE_FRAMENO (lookup m root v) else 0, put_pte m (PTE_FRAMENO (m root (dirx v))) (tabx v) 0)"
    by (simp add: unmapPage_def getPTE_dir [OF assms] lookup_def)
  then show ?thesis using put_entry [OF assms False, of 0] by blast
qed

lemma unmap_loop_removes:
  assumes "dir_ok m root A T" "ok s T P k" "v + n * PAGE \<le> 2 ^ 32" "v < 2 ^ 32" "\<And>i. i < n \<Longrightarrow> dirx (v + i * PAGE) \<in> A"
    "keep \<or> distinct (frames_at (lookup m root) v n) \<and> set (frames_at (lookup m root) v n) \<subseteq> P"
    "l = PT_ENTRY_COUNT \<or> dirx (usub v PAGE) \<in> A"
  shows "\<exists>m' s' T'. unmap_loop al root n v l sh m s =
      Some ((v + n * PAGE) mod 2 ^ 32, if n = 0 then l else dirx (v + (n - 1) * PAGE), sh \<or> frames_at (lookup m root) v n \<noteq> [], m', s') \<and>
    T' \<subseteq> T \<and> ok s' T' (if keep then P else P - set (frames_at (lookup m root) v n)) k \<and> dir_ok m' root A T' \<and> keeps root A m T m' T' \<and>
    (\<forall>u. dirx u \<in> A \<longrightarrow> lookup m' root u = (if in_range u v n then 0 else lookup m root u))"
  using assms
proof (induction n arbitrary: m s T P v l sh)
  case 0
  then show ?case by auto
next
  case (Suc n)
  let ?F = "frames_at (lookup m root) v (Suc n)"
  have v: "dirx v \<in> A" using Suc.prems(5) [of 0] by simp
  have "\<exists>m1 s1 T1. (if dirx v \<noteq> l \<and> l \<noteq> PT_ENTRY_COUNT \<and> gc_area v then gc_root al root v m s else Some (m, s)) = Some (m1, s1) \<and>
      ok s1 T1 P k \<and> dir_ok m1 root A T1 \<and> keeps root A m T m1 T1 \<and> (\<forall>u. dirx u \<in> A \<longrightarrow> lookup m1 root u = lookup m root u) \<and> T1 \<subseteq> T"
    using gc_root_keeps [OF Suc.prems(1,2), of v] Suc.prems(1,2,7) by (cases "dirx v \<noteq> l \<and> l \<noteq> PT_ENTRY_COUNT \<and> gc_area v") auto
  then obtain m1 s1 T1 where 1: "(if dirx v \<noteq> l \<and> l \<noteq> PT_ENTRY_COUNT \<and> gc_area v then gc_root al root v m s else Some (m, s)) = Some (m1, s1)"
    "ok s1 T1 P k" "dir_ok m1 root A T1" "keeps root A m T m1 T1" "\<And>u. dirx u \<in> A \<Longrightarrow> lookup m1 root u = lookup m root u" "T1 \<subseteq> T" by blast
  define fr where "fr = (if bit (lookup m root v) 0 then PTE_FRAMENO (lookup m root v) else 0)"
  obtain m2 where 2: "unmapPage root v m1 = Some (fr, m2)" "dir_ok m2 root A T1" "keeps root A m1 T1 m2 T1"
    "\<And>u. dirx u \<in> A \<Longrightarrow> lookup m2 root u = (if same_page u v then 0 else lookup m1 root u)"
    using unmapPage_removes [OF 1(3) v] 1(5) [OF v] unfolding fr_def by auto
  define P2 where "P2 = (if fr \<noteq> 0 \<and> \<not> keep then P - {fr} else P)"
  have "fr \<noteq> 0 \<Longrightarrow> keep \<or> fr \<in> P" using Suc.prems(6) by (auto simp: fr_def split: if_splits)
  then obtain s2 where 3: "(if fr \<noteq> 0 then freePage al s1 fr else Some s1) = Some s2" "ok s2 T1 P2 k"
    using free_page [OF 1(2), of fr] 1(2) by (cases "fr = 0"; cases keep) (auto simp: P2_def)
  have l2: "lookup m2 root (v + PAGE + i * PAGE) = lookup m root (v + PAGE + i * PAGE)" if "i < n" for i
    using 2(4) 1(5) next_pages [OF Suc.prems(3) that] Suc.prems(5) [of "Suc i"] that by (simp add: add.assoc)
  have F: "frames_at (lookup m2 root) (v + PAGE) n = frames_at (lookup m root) (v + PAGE) n" by (rule frames_at_cong) (rule l2)
  have F': "?F = (if fr \<noteq> 0 then [fr] else []) @ frames_at (lookup m root) (v + PAGE) n" by (simp add: fr_def)
  show ?case
  proof (cases "n = 0")
    case True
    have "unmap_loop al root (Suc n) v l sh m s = Some (uadd v PAGE, dirx v, sh \<or> fr \<noteq> 0, m2, s2)"
      using 1(1) 2(1) 3(1) True by (simp add: Let_def)
    moreover have "uadd v PAGE = (v + PAGE) mod 2 ^ 32" by (simp add: uadd_def)
    ultimately show ?thesis using True 3(2) 2(2,4) 1(5,6) ptkeeps_trans [OF 1(4) 2(3)] F'
      by (auto simp: in_range_Suc P2_def intro!: exI [of _ T1])
  next
    case False
    then have small: "v + PAGE < 2 ^ 32" using Suc.prems(3) by (cases n) auto
    then have u: "uadd v PAGE = v + PAGE" "usub (v + PAGE) PAGE = v" by (simp_all add: uadd_small usub_small)
    have pre: "v + PAGE + n * PAGE \<le> 2 ^ 32" "\<And>i. i < n \<Longrightarrow> dirx (v + PAGE + i * PAGE) \<in> A"
      "keep \<or> distinct (frames_at (lookup m2 root) (v + PAGE) n) \<and> set (frames_at (lookup m2 root) (v + PAGE) n) \<subseteq> P2"
      using Suc.prems(3,6) Suc.prems(5) [of "Suc _"] unfolding F F' by (auto simp: add.assoc P2_def split: if_splits)
    have dv: "dirx v = PT_ENTRY_COUNT \<or> dirx (usub (v + PAGE) PAGE) \<in> A" using v u(2) by simp
    obtain m' s' T' where 4: "unmap_loop al root n (v + PAGE) (dirx v) (sh \<or> fr \<noteq> 0) m2 s2 =
        Some ((v + PAGE + n * PAGE) mod 2 ^ 32, if n = 0 then dirx v else dirx (v + PAGE + (n - 1) * PAGE), (sh \<or> fr \<noteq> 0) \<or> frames_at (lookup m root) (v + PAGE) n \<noteq> [], m', s')"
      "ok s' T' (if keep then P2 else P2 - set (frames_at (lookup m root) (v + PAGE) n)) k" "dir_ok m' root A T'" "keeps root A m2 T1 m' T'"
      "\<And>u. dirx u \<in> A \<Longrightarrow> lookup m' root u = (if in_range u (v + PAGE) n then 0 else lookup m2 root u)" "T' \<subseteq> T1"
      using Suc.IH [OF 2(2) 3(2) pre(1) small pre(2,3) dv, of "sh \<or> fr \<noteq> 0"] unfolding F by blast
    have r1: "unmap_loop al root (Suc n) v l sh m s =
        Some ((v + Suc n * PAGE) mod 2 ^ 32, if Suc n = 0 then l else dirx (v + (Suc n - 1) * PAGE), sh \<or> ?F \<noteq> [], m', s')"
      using 1(1) 2(1) 3(1) 4(1) False u(1) unfolding F' by (cases n) (auto simp: Let_def add.assoc)
    have r2: "(if keep then P2 else P2 - set (frames_at (lookup m root) (v + PAGE) n)) = (if keep then P else P - set ?F)" unfolding F' by (auto simp: P2_def)
    have r3: "keeps root A m T m' T'" using ptkeeps_trans [OF ptkeeps_trans [OF 1(4) 2(3)] 4(4)] .
    have r4: "\<forall>u. dirx u \<in> A \<longrightarrow> lookup m' root u = (if in_range u v (Suc n) then 0 else lookup m root u)" using 4(5) 2(4) 1(5) by (auto simp: in_range_Suc)
    show ?thesis using r1 4(2) [unfolded r2] 4(3) r3 r4 order_trans [OF 4(6) 1(6)] by blast
  qed
qed

end

context pt_allocator
begin

lemma unmap_removes:
  assumes d: "dir_ok m root A T" "ok s T P k" and v: "v + n * PAGE \<le> 2 ^ 32" "v < 2 ^ 32" "\<And>i. i < n \<Longrightarrow> dirx (v + i * PAGE) \<in> A"
    and f: "keep \<or> distinct (frames_at (lookup m root) v n) \<and> set (frames_at (lookup m root) v n) \<subseteq> P"
  shows "\<exists>m' s' T'. unmap al root v n m s = Some (of_bool (frames_at (lookup m root) v n \<noteq> []), m', s') \<and>
    T' \<subseteq> T \<and> ok s' T' (if keep then P else P - set (frames_at (lookup m root) v n)) k \<and> dir_ok m' root A T' \<and> keeps root A m T m' T' \<and>
    (\<forall>u. dirx u \<in> A \<longrightarrow> lookup m' root u = (if in_range u v n then 0 else lookup m root u))"
proof -
  let ?F = "frames_at (lookup m root) v n" and ?l = "if n = 0 then PT_ENTRY_COUNT else dirx (v + (n - 1) * PAGE)"
  obtain m1 s1 T1 where 1: "unmap_loop al root n v PT_ENTRY_COUNT False m s = Some ((v + n * PAGE) mod 2 ^ 32, ?l, False \<or> ?F \<noteq> [], m1, s1)"
    "ok s1 T1 (if keep then P else P - set ?F) k" "dir_ok m1 root A T1" "keeps root A m T m1 T1"
    "\<forall>u. dirx u \<in> A \<longrightarrow> lookup m1 root u = (if in_range u v n then 0 else lookup m root u)" "T1 \<subseteq> T"
    using unmap_loop_removes [OF d v(1,2) v(3) f, of PT_ENTRY_COUNT False] by blast
  let ?v = "(v + n * PAGE) mod 2 ^ 32"
  have "\<exists>m2 s2 T2. (if ?l \<noteq> PT_ENTRY_COUNT \<and> gc_area ?v then gc_root al root ?v m1 s1 else Some (m1, s1)) = Some (m2, s2) \<and>
      ok s2 T2 (if keep then P else P - set ?F) k \<and> dir_ok m2 root A T2 \<and> keeps root A m1 T1 m2 T2 \<and> (\<forall>u. dirx u \<in> A \<longrightarrow> lookup m2 root u = lookup m1 root u) \<and> T2 \<subseteq> T1"
  proof (cases "?l \<noteq> PT_ENTRY_COUNT \<and> gc_area ?v")
    case True
    then have "n \<noteq> 0" by (simp split: if_splits)
    then obtain k where k: "n = Suc k" using not0_implies_Suc by blast
    have "usub ?v PAGE = v + k * PAGE"
    proof (cases "v + n * PAGE = 2 ^ 32")
      case True
      then have "?v = 0" by simp
      moreover have "v + k * PAGE = 2 ^ 32 - PAGE" using True k by simp
      ultimately show ?thesis by (simp add: usub_def)
    next
      case False
      then show ?thesis using v(1) k by (simp add: usub_small)
    qed
    then have "dirx (usub ?v PAGE) \<in> A" using v(3) [of k] k by simp
    from gc_root_keeps [OF 1(3,2) this] show ?thesis using True by auto
  next
    case False
    then have "(if ?l \<noteq> PT_ENTRY_COUNT \<and> gc_area ?v then gc_root al root ?v m1 s1 else Some (m1, s1)) = Some (m1, s1)" by (rule if_not_P)
    then show ?thesis using 1(2,3) ptkeeps_refl by blast
  qed
  then obtain m2 s2 T2 where 2: "(if ?l \<noteq> PT_ENTRY_COUNT \<and> gc_area ?v then gc_root al root ?v m1 s1 else Some (m1, s1)) = Some (m2, s2)"
    "ok s2 T2 (if keep then P else P - set ?F) k" "dir_ok m2 root A T2" "keeps root A m1 T1 m2 T2" "\<forall>u. dirx u \<in> A \<longrightarrow> lookup m2 root u = lookup m1 root u" "T2 \<subseteq> T1" by blast
  have "unmap al root v n m s = Some (of_bool (?F \<noteq> []), m2, s2)" unfolding unmap_def 1(1) by (simp only: bind.bind_lunit prod.case 2(1) simp_thms)
  moreover have "\<forall>u. dirx u \<in> A \<longrightarrow> lookup m2 root u = (if in_range u v n then 0 else lookup m root u)" using 1(5) 2(5) by simp
  ultimately show ?thesis using 2(2,3) ptkeeps_trans [OF 1(4) 2(4)] order_trans [OF 2(6) 1(6)] by blast
qed

end

text \<open>The pages of a range are mapped to the frames \<open>fs\<close>, one after the other, and no other page changes.\<close>

definition mapped :: "nat \<Rightarrow> nat set \<Rightarrow> pte_t \<Rightarrow> ptmem \<Rightarrow> nat \<Rightarrow> nat list \<Rightarrow> ptmem \<Rightarrow> bool" where
  "mapped root A fl m v fs m' = ((\<forall>i < length fs. lookup m' root (v + i * PAGE) = mk_pte (fs ! i) fl) \<and>
     (\<forall>u. dirx u \<in> A \<longrightarrow> \<not> in_range u v (length fs) \<longrightarrow> lookup m' root u = lookup m root u))"

lemma mapped_Nil [simp]: "mapped root A fl m v [] m' \<longleftrightarrow> (\<forall>u. dirx u \<in> A \<longrightarrow> lookup m' root u = lookup m root u)"
  by (simp add: mapped_def)

lemma same_page_sym: "same_page u v \<longleftrightarrow> same_page v u"
  by (auto simp: same_page_def)

lemma not_in_next: "v + Suc n * PAGE \<le> 2 ^ 32 \<Longrightarrow> \<not> in_range v (v + PAGE) n"
  using next_pages [of v n] by (auto simp: in_range_def same_page_sym [of v])

lemma mapped_Cons:
  assumes "v + Suc (length fs) * PAGE \<le> 2 ^ 32" "dirx v \<in> A" "\<And>u. dirx u \<in> A \<Longrightarrow> lookup m1 root u = (if same_page u v then mk_pte f fl else lookup m root u)" "mapped root A fl m1 (v + PAGE) fs m'"
  shows "mapped root A fl m v (f # fs) m'"
  unfolding mapped_def
proof (intro conjI allI impI)
  fix i
  assume i: "i < length (f # fs)"
  show "lookup m' root (v + i * PAGE) = mk_pte ((f # fs) ! i) fl"
  proof (cases i)
    case 0
    then show ?thesis using assms(4) not_in_next [OF assms(1)] assms(2,3) by (simp add: mapped_def)
  next
    case (Suc j)
    then show ?thesis using assms(4) i by (simp add: mapped_def add.assoc)
  qed
next
  fix u
  assume "dirx u \<in> A" "\<not> in_range u v (length (f # fs))"
  then show "lookup m' root u = lookup m root u" using assms(3,4) by (simp add: mapped_def in_range_Suc)
qed

lemma mapped_frames: "mapped root A fl m v fs m' \<Longrightarrow> is_flags fl \<Longrightarrow> bit fl 0 \<Longrightarrow> \<forall>f \<in> set fs. f \<noteq> 0 \<and> f < 2 ^ 20 \<Longrightarrow> frames_at (lookup m' root) v (length fs) = fs"
proof -
  assume m: "mapped root A fl m v fs m'" "is_flags fl" "bit fl 0" "\<forall>f \<in> set fs. f \<noteq> 0 \<and> f < 2 ^ 20"
  have "frames_at l w (length gs) = gs" if "\<forall>i < length gs. l (w + i * PAGE) = mk_pte (gs ! i) fl" "\<forall>f \<in> set gs. f \<noteq> 0 \<and> f < 2 ^ 20" for l w gs
    using that
  proof (induction gs arbitrary: w)
    case (Cons g gs)
    have "l w = mk_pte g fl" using Cons.prems(1) by force
    moreover have "l (w + PAGE + i * PAGE) = mk_pte (gs ! i) fl" if "i < length gs" for i using Cons.prems(1) that by (auto simp: add.assoc dest!: spec [of _ "Suc i"])
    ultimately show ?case using Cons m(2,3) bit_mk_pte [OF m(2), of 0 g] by simp
  qed simp
  then show ?thesis using m by (simp add: mapped_def)
qed

text \<open>An allocator of pages: \<open>k\<close> pages can be asked for.\<close>

locale page_allocator = pt_allocator +
  assumes frees: "\<not> keep"
    and alloc_page: "ok s T P (Suc k) \<Longrightarrow> \<exists>f s'. allocPage al s = Some (f, s') \<and> (if f = INVALID_FRAME then ok s' T P k else f \<notin> T \<and> f \<notin> P \<and> f \<noteq> 0 \<and> f < 2 ^ 20 \<and> ok s' T (insert f P) k)"
    and fewer: "ok s T P (Suc k) \<Longrightarrow> ok s T P k"
begin

lemma fewer_pages: "ok s T P (n + k) \<Longrightarrow> ok s T P k"
  by (induction n) (auto dest: fewer)

end

lemma push_63 [simp]: "push_bit 63 (w :: 32 word) = 0"
  by (rule bit_word_eqI) (auto simp: bit_push_bit_iff)

text \<open>The frame of a page whose page table could not be created: nobody frees it.\<close>

definition lost_frame :: "nat set \<Rightarrow> bool" where
  "lost_frame lost = (lost = {} \<or> (\<exists>f. lost = {f}))"

lemma lost_frameI [simp]: "lost_frame {}" "lost_frame {f}"
  by (auto simp: lost_frame_def)

context page_allocator
begin

text \<open>The loop of \<open>map\<close>: \<open>fs\<close> are the frames of the pages that are mapped; a frame whose page table could not be created is \<open>lost\<close>.\<close>

lemma map_loop_maps:
  assumes "dir_ok m root A T" "ok s T P (n + k)" "v + n * PAGE \<le> 2 ^ 32" "\<And>i. i < n \<Longrightarrow> dirx (v + i * PAGE) \<in> A" "\<And>i. i < n \<Longrightarrow> lookup m root (v + i * PAGE) = 0"
    "is_flags fl" "bit fl 0" "bit fl 9"
  shows "\<exists>left m' s' T' fs lost. map_loop al root True fl n v sh m s = Some (left, sh, m', s') \<and> left + length fs = n \<and> distinct fs \<and> set fs \<inter> P = {} \<and>
    (\<forall>f \<in> set fs. f \<noteq> 0 \<and> f < 2 ^ 20) \<and> ok s' T' (P \<union> set fs \<union> lost) k \<and> lost \<inter> (P \<union> set fs) = {} \<and> (if left = 0 then lost = {} else lost_frame lost) \<and>
    dir_ok m' root A T' \<and> keeps root A m T m' T' \<and> mapped root A fl m v fs m'"
  using assms(1-5)
proof (induction n arbitrary: m s T P v)
  case 0
  then show ?case by (intro exI [of _ 0] exI [of _ m] exI [of _ s] exI [of _ T] exI [of _ "[]"] exI [of _ "{}"]) simp
next
  case (Suc n)
  have v: "dirx v \<in> A" "lookup m root v = 0" using Suc.prems(4,5) [of 0] by simp_all
  obtain f s1 where 1: "allocPage al s = Some (f, s1)" "if f = INVALID_FRAME then ok s1 T P (n + k) else f \<notin> T \<and> f \<notin> P \<and> f \<noteq> 0 \<and> f < 2 ^ 20 \<and> ok s1 T (insert f P) (n + k)"
    using alloc_page [of s T P "n + k"] Suc.prems(2) by auto
  show ?case
  proof (cases "f = INVALID_FRAME")
    case True
    then have "map_loop al root True fl (Suc n) v sh m s = Some (Suc n, sh, m, s1)" using 1(1) by simp
    then show ?thesis using True 1(2) Suc.prems(1) fewer_pages
      by (intro exI [of _ "Suc n"] exI [of _ m] exI [of _ s1] exI [of _ T] exI [of _ "[]"] exI [of _ "{}"]) auto
  next
    case False
    then have f: "f \<notin> P" "f \<noteq> 0" "f < 2 ^ 20" "ok s1 T (insert f P) (n + k)" using 1(2) by simp_all
    have p: "new_pte m root v f fl = mk_pte f fl" using f by (simp add: new_pte_def)
    have p9: "new_pte m root v f fl = 0 \<or> bit (new_pte m root v f fl) 9" using assms(6,8) bit_mk_pte [of fl 9 f] by (simp add: p)
    obtain r m1 s2 T1 where 2: "mapPage al root v f fl m s1 = Some (r, m1, s2)" "ok s2 T1 (insert f P) (n + k)" "dir_ok m1 root A T1" "keeps root A m T m1 T1"
      "if r < 0 then r = - ENOMEM \<and> m1 = m else r = of_bool (bit (lookup m root v) 0) \<and> (\<forall>u. dirx u \<in> A \<longrightarrow> lookup m1 root u = (if same_page u v then mk_pte f fl else lookup m root u))"
      using mapPage_maps [OF Suc.prems(1) f(4) v(1) p9] unfolding p by blast
    show ?thesis
    proof (cases "r < 0")
      case True
      then have "map_loop al root True fl (Suc n) v sh m s = Some (Suc n, sh, m1, s2)" "m1 = m" using 1(1) 2(1,5) False by simp_all
      then show ?thesis using 2(2-4) fewer_pages f(1)
        by (intro exI [of _ "Suc n"] exI [of _ m] exI [of _ s2] exI [of _ T1] exI [of _ "[]"] exI [of _ "{f}"]) auto
    next
      case nr: False
      have r: "r = 0" and m1: "\<And>u. dirx u \<in> A \<Longrightarrow> lookup m1 root u = (if same_page u v then mk_pte f fl else lookup m root u)" using 2(5) nr v(2) by simp_all
      have loop: "map_loop al root True fl (Suc n) v sh m s = map_loop al root True fl n (uadd v PAGE) sh m1 s2" using 1(1) 2(1) False r by simp
      show ?thesis
      proof (cases "n = 0")
        case True
        have "mapped root A fl m v [f] m1" using v(1) m1 Suc.prems(3) True by (intro mapped_Cons [where fs = "[]" and ?m1.0 = m1]) auto
        then show ?thesis using loop True 2(2-4) f
          by (intro exI [of _ 0] exI [of _ m1] exI [of _ s2] exI [of _ T1] exI [of _ "[f]"] exI [of _ "{}"]) auto
      next
        case n: False
        then have u: "uadd v PAGE = v + PAGE" using Suc.prems(3) by (cases n) (auto simp: uadd_small)
        have l: "lookup m1 root (v + PAGE + i * PAGE) = 0" "dirx (v + PAGE + i * PAGE) \<in> A" if "i < n" for i
          using m1 [of "v + PAGE + i * PAGE"] next_pages [OF Suc.prems(3) that] Suc.prems(4,5) [of "Suc i"] that by (simp_all add: add.assoc)
        obtain left m' s' T' fs lost where 3: "map_loop al root True fl n (v + PAGE) sh m1 s2 = Some (left, sh, m', s')" "left + length fs = n" "distinct fs"
          "set fs \<inter> insert f P = {}" "\<forall>f \<in> set fs. f \<noteq> 0 \<and> f < 2 ^ 20" "ok s' T' (insert f P \<union> set fs \<union> lost) k" "lost \<inter> (insert f P \<union> set fs) = {}"
          "if left = 0 then lost = {} else lost_frame lost" "dir_ok m' root A T'" "keeps root A m1 T1 m' T'" "mapped root A fl m1 (v + PAGE) fs m'"
          using Suc.IH [OF 2(3,2), of "v + PAGE"] Suc.prems(3) l by auto
        have "v + Suc (length fs) * PAGE \<le> 2 ^ 32" using Suc.prems(3) 3(2) by simp
        then have "mapped root A fl m v (f # fs) m'" using mapped_Cons v(1) m1 3(11) by blast
        moreover have "insert f P \<union> set fs \<union> lost = P \<union> set (f # fs) \<union> lost" by auto
        moreover have "set (f # fs) \<inter> P = {}" "distinct (f # fs)" "lost \<inter> (P \<union> set (f # fs)) = {}" using f(1) 3(3,4,7) by auto
        moreover have "\<forall>g \<in> set (f # fs). g \<noteq> 0 \<and> g < 2 ^ 20" using f 3(5) by simp
        ultimately show ?thesis using loop u 3 ptkeeps_trans [OF 2(4) 3(10)]
          by (intro exI [of _ left] exI [of _ m'] exI [of _ s'] exI [of _ T'] exI [of _ "f # fs"] exI [of _ lost]) (simp del: mapped_Nil)
      qed
    qed
  qed
qed

lemma map_maps:
  assumes d: "dir_ok m root A T" "ok s T P (n + k)" and v: "v + n * PAGE \<le> 2 ^ 32" "v < 2 ^ 32" "PAGE dvd v" "\<And>i. i < n \<Longrightarrow> dirx (v + i * PAGE) \<in> A" "\<And>i. i < n \<Longrightarrow> lookup m root (v + i * PAGE) = 0"
    and fl: "has flags PG_PRESENT" "\<not> has flags PG_NOPAGES"
  shows "\<exists>r m' s' T'. pt_map nxe al root v n flags m s = Some (r, m', s') \<and> dir_ok m' root A T' \<and> keeps root A m T m' T' \<and>
    (r = 0 \<and> (\<exists>fs. length fs = n \<and> distinct fs \<and> set fs \<inter> P = {} \<and> 0 \<notin> set fs \<and> mapped root A (pte_flags nxe flags) m v fs m' \<and> ok s' T' (P \<union> set fs) k) \<or>
     r = - ENOMEM \<and> (\<forall>u. dirx u \<in> A \<longrightarrow> lookup m' root u = lookup m root u) \<and> (\<exists>lost. lost_frame lost \<and> lost \<inter> P = {} \<and> ok s' T' (P \<union> lost) k))"
proof -
  have fl': "is_flags (pte_flags nxe flags)" "bit (pte_flags nxe flags) 0" "bit (pte_flags nxe flags) 9" using fl unfolding pte_flags_def push_63 by (auto simp: bit_simps)
  have al: "v div PAGE * PAGE = v" using v(3) by (rule dvd_div_mult_self)
  obtain left m1 s1 T1 fs lost where 1: "map_loop al root True (pte_flags nxe flags) n v False m s = Some (left, False, m1, s1)" "left + length fs = n" "distinct fs"
    "set fs \<inter> P = {}" "\<forall>f \<in> set fs. f \<noteq> 0 \<and> f < 2 ^ 20" "ok s1 T1 (P \<union> set fs \<union> lost) k" "lost \<inter> (P \<union> set fs) = {}"
    "if left = 0 then lost = {} else lost_frame lost" "dir_ok m1 root A T1" "keeps root A m T m1 T1" "mapped root A (pte_flags nxe flags) m v fs m1"
    using map_loop_maps [OF d v(1) v(4,5) fl', of False] by blast
  show ?thesis
  proof (cases "left = 0")
    case True
    then have "pt_map nxe al root v n flags m s = Some (0, m1, s1)" using 1(1) fl(1) al by (simp add: pt_map_def)
    moreover have "0 \<notin> set fs" "lost = {}" using 1(5,8) True by auto
    ultimately show ?thesis using 1 True by auto
  next
    case False
    have F: "frames_at (lookup m1 root) v (length fs) = fs" by (rule mapped_frames [OF 1(11) fl'(1,2) 1(5)])
    have pre: "v + length fs * PAGE \<le> 2 ^ 32" "\<And>i. i < length fs \<Longrightarrow> dirx (v + i * PAGE) \<in> A" using v(1,4) 1(2) by auto
    have D: "keep \<or> distinct (frames_at (lookup m1 root) v (length fs)) \<and> set (frames_at (lookup m1 root) v (length fs)) \<subseteq> P \<union> set fs \<union> lost" using 1(3) unfolding F by auto
    obtain m2 s2 T2 where 2: "unmap al root v (length fs) m1 s1 = Some (of_bool (fs \<noteq> []), m2, s2)" "ok s2 T2 (P \<union> set fs \<union> lost - set fs) k"
      "dir_ok m2 root A T2" "keeps root A m1 T1 m2 T2" "\<forall>u. dirx u \<in> A \<longrightarrow> lookup m2 root u = (if in_range u v (length fs) then 0 else lookup m1 root u)"
      using unmap_removes [OF 1(9,6) pre(1) v(2) pre(2) D] frees unfolding F by (auto simp del: Un_insert_right)
    have "P \<union> set fs \<union> lost - set fs = P \<union> lost" using 1(4,7) by auto
    then have ok2: "\<exists>lost. lost_frame lost \<and> lost \<inter> P = {} \<and> ok s2 T2 (P \<union> lost) k" using 2(2) 1(7,8) False by auto
    have "lookup m2 root u = lookup m root u" if "dirx u \<in> A" for u
    proof (cases "in_range u v (length fs)")
      case True
      then obtain i where "i < length fs" "same_page u (v + i * PAGE)" by (auto simp: in_range_def)
      then have "lookup m root u = 0" using v(5) [of i] 1(2) by (auto simp: lookup_def same_page_def split: if_splits)
      then show ?thesis using 2(5) that True by simp
    next
      case False
      then show ?thesis using 2(5) that 1(11) by (simp add: mapped_def)
    qed
    moreover have "pt_map nxe al root v n flags m s = Some (- ENOMEM, m2, s2)"
    proof -
      have "n - left = length fs" using 1(2) by simp
      then show ?thesis using 1(1) fl(1) al False 2(1) by (simp add: pt_map_def)
    qed
    ultimately show ?thesis using 2(3) ok2 ptkeeps_trans [OF 1(10) 2(4)] by blast
  qed
qed

end

section \<open>The allocators keep their promise\<close>

text \<open>A machine whose memory is mapped directly as a whole, so that all frames are on the lower stack.\<close>

definition low_pm :: "physmem \<Rightarrow> (nat \<times> FrameType) list \<Rightarrow> bool" where
  "low_pm pm own = (holds_frames pm own \<and> frames (upper pm) = [] \<and> (\<forall>f \<in> fst ` set own. is_low f))"

lemma low_frame:
  assumes "low_pm pm own" "f \<in> fst ` set own"
  shows "is_low f" "f < 2 ^ 20" "bitmapStartFrame pm + BITMAP_PAGE_COUNT \<le> f" "f \<noteq> 0"
proof -
  have "\<forall>f \<in> set (frames (lower pm) @ frames (upper pm) @ map fst own). bitmapStartFrame pm + BITMAP_PAGE_COUNT \<le> f \<and> f < 2 ^ 20"
    using assms(1) unfolding low_pm_def holds_frames_def frames_ok_def by blast
  then show *: "f < 2 ^ 20" "bitmapStartFrame pm + BITMAP_PAGE_COUNT \<le> f" using assms(2) by auto
  show "f \<noteq> 0" using *(2) by simp
  show "is_low f" using assms unfolding low_pm_def by blast
qed

text \<open>The free frames are those on the lower stack; taking the frame \<open>f\<close> removes it there, and a failure leaves them as they are.\<close>

definition pm_takes :: "physmem \<Rightarrow> nat \<Rightarrow> physmem \<Rightarrow> bool" where
  "pm_takes pm f pm' = (frames (lower pm) = (if f = INVALID_FRAME then [] else [f]) @ frames (lower pm'))"

lemma low_alloc:
  assumes "low_pm pm own"
  shows "\<exists>f pm'. pm_allocate pm KERN = Some (f, pm') \<and> pm_takes pm f pm' \<and>
    (if f = INVALID_FRAME then low_pm pm' own else f \<notin> fst ` set own \<and> f \<noteq> 0 \<and> f < 2 ^ 20 \<and> low_pm pm' ((f, KERN) # own))"
proof -
  have h: "holds_frames pm own" and u: "frames (upper pm) = []" and l: "\<forall>f \<in> fst ` set own. is_low f" using assms by (auto simp: low_pm_def)
  have m: "may_allocate pm KERN" using h u by (auto simp: may_allocate_def holds_frames_def frames_ok_def)
  have i: "initialized pm" using h by (simp add: holds_frames_def)
  have up: "frames (upper pm') = []" if "pm_allocate pm KERN = Some (f, pm')" for f pm'
    using that u i by (auto simp: pm_allocate_def allocFrame_def Let_def split: if_splits list.splits)
  have fr: "pm_takes pm f pm'" if "pm_allocate pm KERN = Some (f, pm')" for f pm'
    using that i invalid_not_frame [OF h, of f] by (auto simp: pm_takes_def pm_allocate_def allocFrame_def Let_def split: if_splits list.splits)
  show ?thesis
  proof (cases "available pm KERN")
    case True
    then obtain f pm' where f: "pm_allocate pm KERN = Some (f, pm')" "f \<in> set (frames (lower pm)) \<union> set (frames (upper pm))" "holds_frames pm' ((f, KERN) # own)"
      using pm_allocate_frames [OF h m] by auto
    have "f \<noteq> INVALID_FRAME" using invalid_not_frame [OF h] f(2) by blast
    moreover have "f \<notin> fst ` set own" "f \<noteq> 0" "f < 2 ^ 20" "is_low f" using f(3) by (auto simp: holds_frames_def frames_ok_def)
    ultimately show ?thesis using f up fr l by (intro exI [of _ f] exI [of _ pm']) (simp add: low_pm_def)
  next
    case False
    then obtain pm' where "pm_allocate pm KERN = Some (INVALID_FRAME, pm')" "holds_frames pm' own" using pm_allocate_frames [OF h m] by auto
    then show ?thesis using up fr l by (auto simp: low_pm_def)
  qed
qed

lemma low_free:
  assumes "low_pm pm own" "(f, ty) \<in> set own"
  shows "\<exists>pm'. pm_free pm f ty = Some pm' \<and> low_pm pm' (remove1 (f, ty) own) \<and> frames (lower pm') = f # frames (lower pm)"
proof -
  have h: "holds_frames pm own" and u: "frames (upper pm) = []" and l: "\<forall>f \<in> fst ` set own. is_low f" using assms by (auto simp: low_pm_def)
  obtain pm' where p: "pm_free pm f ty = Some pm'" "holds_frames pm' (remove1 (f, ty) own)" using pm_free_frames [OF h assms(2)] by blast
  have "f \<in> fst ` set own" using assms(2) by force
  note low_frame [OF assms(1) this]
  then have "frames (upper pm') = [] \<and> frames (lower pm') = f # frames (lower pm)"
    using p(1) u by (auto simp: pm_free_def markUsed_def freeFrame_def stack_push_def is_low_def split: if_splits FrameType.splits Option.bind_splits)
  moreover have "set (remove1 (f, ty) own) \<subseteq> set own" by (rule set_remove1_subset)
  ultimately show ?thesis using p l unfolding low_pm_def by blast
qed

text \<open>\<open>own\<close> are the frames in use: the tables belong to the kernel, the pages to the user or to the kernel.\<close>

definition env_owns :: "ptenv \<Rightarrow> nat set \<Rightarrow> nat set \<Rightarrow> FrameType \<Rightarrow> bool" where
  "env_owns s T P ty = (\<exists>own. low_pm (e_pm s) own \<and> (\<forall>f \<in> T. (f, KERN) \<in> set own) \<and> (\<forall>f \<in> P. (f, ty) \<in> set own) \<and> T \<inter> P = {})"

abbreviation free_frames :: "ptenv \<Rightarrow> nat set" where
  "free_frames s \<equiv> set (frames (lower (e_pm s)))"

lemma owns_allocPT:
  assumes "env_owns s T P ty"
  shows "\<exists>f s'. base_allocPT s = Some (f, s') \<and> reqFrames s' = reqFrames s \<and> pm_takes (e_pm s) f (e_pm s') \<and>
    (if f = INVALID_FRAME then env_owns s' T P ty else f \<notin> T \<and> f \<notin> P \<and> f < 2 ^ 20 \<and> env_owns s' (insert f T) P ty)"
proof -
  obtain own where o: "low_pm (e_pm s) own" "\<forall>f \<in> T. (f, KERN) \<in> set own" "\<forall>f \<in> P. (f, ty) \<in> set own" "T \<inter> P = {}" using assms by (auto simp: env_owns_def)
  obtain f pm where f: "pm_allocate (e_pm s) KERN = Some (f, pm)"
    "if f = INVALID_FRAME then low_pm pm own else f \<notin> fst ` set own \<and> f \<noteq> 0 \<and> f < 2 ^ 20 \<and> low_pm pm ((f, KERN) # own)" "pm_takes (e_pm s) f pm" using low_alloc [OF o(1)] by blast
  let ?s = "s\<lparr>e_pm := pm, e_pts := e_pts s + 1\<rparr>"
  have a: "base_allocPT s = Some (f, ?s)" using f(1) by (simp add: base_allocPT_def)
  show ?thesis
  proof (cases "f = INVALID_FRAME")
    case True
    then have "env_owns ?s T P ty" using f(2) o by (auto simp: env_owns_def)
    then show ?thesis using a f(3) True by auto
  next
    case False
    have n: "f \<notin> T" "f \<notin> P" using f(2) False o by force+
    moreover have "env_owns ?s (insert f T) P ty" using f(2) False o n unfolding env_owns_def by (intro exI [of _ "(f, KERN) # own"]) auto
    ultimately show ?thesis using a False f(2,3) by auto
  qed
qed

lemma owns_free:
  assumes "env_owns s T P ty" "(f, t) \<in> (\<lambda>g. (g, KERN)) ` T \<union> (\<lambda>g. (g, ty)) ` P"
  shows "\<exists>pm. pm_free (e_pm s) f t = Some pm \<and> frames (lower pm) = f # frames (lower (e_pm s)) \<and> (\<forall>n fr rf. env_owns \<lparr>e_pm = pm, e_pts = n, e_frame = fr, reqFrames = rf\<rparr> (T - {f}) (P - {f}) ty)"
proof -
  obtain own where o: "low_pm (e_pm s) own" "\<forall>f \<in> T. (f, KERN) \<in> set own" "\<forall>f \<in> P. (f, ty) \<in> set own" "T \<inter> P = {}" using assms by (auto simp: env_owns_def)
  have "(f, t) \<in> set own" using assms(2) o by auto
  from low_free [OF o(1) this] obtain pm where p: "pm_free (e_pm s) f t = Some pm" "low_pm pm (remove1 (f, t) own)" "frames (lower pm) = f # frames (lower (e_pm s))" by blast
  have "(g, t') \<in> set (remove1 (f, t) own)" if "g \<noteq> f" "(g, t') \<in> set own" for g t' using that by (metis in_set_remove1 prod.inject)
  then have "env_owns \<lparr>e_pm = pm, e_pts = n, e_frame = fr, reqFrames = rf\<rparr> (T - {f}) (P - {f}) ty" for n fr rf
    using p(2) o unfolding env_owns_def by (intro exI [of _ "remove1 (f, t) own"]) auto
  then show ?thesis using p(1,3) by blast
qed

definition uok :: "ptenv \<Rightarrow> nat set \<Rightarrow> nat set \<Rightarrow> nat \<Rightarrow> bool" where
  "uok s T P k = (env_owns s T (P \<union> set (reqFrames s)) USR \<and> distinct (reqFrames s) \<and> set (reqFrames s) \<inter> P = {} \<and> k \<le> length (reqFrames s))"

definition kok :: "ptenv \<Rightarrow> nat set \<Rightarrow> nat set \<Rightarrow> nat \<Rightarrow> bool" where
  "kok s T P k = env_owns s T P KERN"

definition nok :: "ptenv \<Rightarrow> nat set \<Rightarrow> nat set \<Rightarrow> nat \<Rightarrow> bool" where
  "nok s T P k = env_owns s T P USR"

lemma owns_freePT:
  assumes "env_owns s T P ty" "f \<in> T"
  shows "\<exists>s'. base_freePT s f = Some s' \<and> reqFrames s' = reqFrames s \<and> free_frames s' = insert f (free_frames s) \<and> env_owns s' (T - {f}) P ty"
proof -
  have "P - {f} = P" using assms by (auto simp: env_owns_def)
  then obtain pm where "pm_free (e_pm s) f KERN = Some pm" "frames (lower pm) = f # frames (lower (e_pm s))" "\<And>n fr rf. env_owns \<lparr>e_pm = pm, e_pts = n, e_frame = fr, reqFrames = rf\<rparr> (T - {f}) P ty"
    using owns_free [OF assms(1), of f KERN] assms(2) by auto
  then show ?thesis by (cases s) (simp add: base_freePT_def)
qed

lemma owns_freePage:
  assumes "env_owns s T P ty" "f \<in> P"
  shows "\<exists>s'. pm_unpage ty s f = Some s' \<and> reqFrames s' = reqFrames s \<and> free_frames s' = insert f (free_frames s) \<and> env_owns s' T (P - {f}) ty"
proof -
  have "T - {f} = T" using assms by (auto simp: env_owns_def)
  then obtain pm where "pm_free (e_pm s) f ty = Some pm" "frames (lower pm) = f # frames (lower (e_pm s))" "\<And>n fr rf. env_owns \<lparr>e_pm = pm, e_pts = n, e_frame = fr, reqFrames = rf\<rparr> T (P - {f}) ty"
    using owns_free [OF assms(1), of f ty] assms(2) by auto
  then show ?thesis by (cases s) (simp add: pm_unpage_def)
qed

lemma owns_page: "env_owns s T P ty \<Longrightarrow> f \<in> P \<Longrightarrow> f \<noteq> 0 \<and> f < 2 ^ 20 \<and> f \<noteq> INVALID_FRAME"
proof -
  assume "env_owns s T P ty" "f \<in> P"
  then obtain own where "low_pm (e_pm s) own" "f \<in> fst ` set own" unfolding env_owns_def by force
  note low_frame [OF this]
  then show ?thesis by simp
qed

lemma owns_allocPage:
  assumes "env_owns s T P KERN"
  shows "\<exists>f s'. pm_page KERN s = Some (f, s') \<and> pm_takes (e_pm s) f (e_pm s') \<and> (if f = INVALID_FRAME then env_owns s' T P KERN else f \<notin> T \<and> f \<notin> P \<and> f \<noteq> 0 \<and> f < 2 ^ 20 \<and> env_owns s' T (insert f P) KERN)"
proof -
  obtain own where o: "low_pm (e_pm s) own" "\<forall>f \<in> T. (f, KERN) \<in> set own" "\<forall>f \<in> P. (f, KERN) \<in> set own" "T \<inter> P = {}" using assms by (auto simp: env_owns_def)
  obtain f pm where f: "pm_allocate (e_pm s) KERN = Some (f, pm)"
    "if f = INVALID_FRAME then low_pm pm own else f \<notin> fst ` set own \<and> f \<noteq> 0 \<and> f < 2 ^ 20 \<and> low_pm pm ((f, KERN) # own)" "pm_takes (e_pm s) f pm" using low_alloc [OF o(1)] by blast
  have a: "pm_page KERN s = Some (f, s\<lparr>e_pm := pm\<rparr>)" using f(1) by (simp add: pm_page_def)
  show ?thesis
  proof (cases "f = INVALID_FRAME")
    case True
    then have "env_owns (s\<lparr>e_pm := pm\<rparr>) T P KERN" using f(2) o by (auto simp: env_owns_def)
    then show ?thesis using a f(3) True by auto
  next
    case False
    have n: "f \<notin> T" "f \<notin> P" using f(2) False o by force+
    moreover have "env_owns (s\<lparr>e_pm := pm\<rparr>) T (insert f P) KERN" using f(2) False o n unfolding env_owns_def by (intro exI [of _ "(f, KERN) # own"]) auto
    ultimately show ?thesis using a False f(2,3) by auto
  qed
qed

interpretation na: pt_allocator NoAllocator True nok
proof
  fix s T P k f
  assume o: "nok s T P k"
  show "\<exists>f s'. allocPT NoAllocator s = Some (f, s') \<and> (if f = INVALID_FRAME then nok s' T P k else f \<notin> T \<and> f \<notin> P \<and> f < 2 ^ 20 \<and> nok s' (insert f T) P k)"
    using owns_allocPT o unfolding nok_def NoAllocator_def by fastforce
  show "f \<in> T \<Longrightarrow> \<exists>s'. freePT NoAllocator s f = Some s' \<and> nok s' (T - {f}) P k" using owns_freePT o unfolding nok_def NoAllocator_def by fastforce
  show "\<exists>s'. freePage NoAllocator s f = Some s' \<and> nok s' T (if True then P else P - {f}) k" using o by (simp add: NoAllocator_def)
qed

text \<open>The frames \<open>U\<close> of a directory are accounted for: each is free, a table, a page or reserved by the thread, whose reserved frames are taken from the list \<open>R\<close>.\<close>

definition uacc :: "nat set \<Rightarrow> nat list \<Rightarrow> ptenv \<Rightarrow> nat set \<Rightarrow> nat set \<Rightarrow> nat \<Rightarrow> bool" where
  "uacc U R s T P k = (uok s T P k \<and> free_frames s \<union> T \<union> P \<union> set (reqFrames s) = U \<and> (\<exists>j. reqFrames s = drop j R))"

definition kacc :: "nat set \<Rightarrow> ptenv \<Rightarrow> nat set \<Rightarrow> nat set \<Rightarrow> nat \<Rightarrow> bool" where
  "kacc U s T P k = (kok s T P k \<and> free_frames s \<union> T \<union> P = U)"

lemma takes_free: "pm_takes (e_pm s) f (e_pm s') \<Longrightarrow> free_frames s = (if f = INVALID_FRAME then {} else {f}) \<union> free_frames s'"
  by (auto simp: pm_takes_def)

lemma owns_disjoint: "env_owns s T P ty \<Longrightarrow> free_frames s \<inter> (T \<union> P) = {} \<and> T \<inter> P = {}"
proof -
  assume "env_owns s T P ty"
  then obtain own where o: "low_pm (e_pm s) own" "\<forall>f \<in> T. (f, KERN) \<in> set own" "\<forall>f \<in> P. (f, ty) \<in> set own" "T \<inter> P = {}" by (auto simp: env_owns_def)
  have "distinct (frames (lower (e_pm s)) @ frames (upper (e_pm s)) @ map fst own)" using o(1) unfolding low_pm_def holds_frames_def frames_ok_def by blast
  then have "free_frames s \<inter> fst ` set own = {}" by auto
  moreover have "T \<union> P \<subseteq> fst ` set own" using o(2,3) by force
  ultimately show ?thesis using o(4) by blast
qed

interpretation ka: page_allocator KStackAllocator False "kacc U" for U
proof
  fix s T P k f
  assume o: "kacc U s T P k"
  then have e: "env_owns s T P KERN" "free_frames s \<union> T \<union> P = U" by (simp_all add: kacc_def kok_def)
  show "\<exists>f s'. allocPT KStackAllocator s = Some (f, s') \<and> (if f = INVALID_FRAME then kacc U s' T P k else f \<notin> T \<and> f \<notin> P \<and> f < 2 ^ 20 \<and> kacc U s' (insert f T) P k)"
  proof -
    obtain f s' where f: "base_allocPT s = Some (f, s')" "pm_takes (e_pm s) f (e_pm s')"
      "if f = INVALID_FRAME then env_owns s' T P KERN else f \<notin> T \<and> f \<notin> P \<and> f < 2 ^ 20 \<and> env_owns s' (insert f T) P KERN" using owns_allocPT [OF e(1)] by blast
    note u = takes_free [OF f(2)]
    have "if f = INVALID_FRAME then kacc U s' T P k else f \<notin> T \<and> f \<notin> P \<and> f < 2 ^ 20 \<and> kacc U s' (insert f T) P k"
      using f(3) u e(2) unfolding kacc_def kok_def by (cases "f = INVALID_FRAME") (simp_all add: insert_commute)
    then show ?thesis using f(1) by (simp add: KStackAllocator_def)
  qed
  show "\<exists>s'. freePT KStackAllocator s f = Some s' \<and> kacc U s' (T - {f}) P k" if "f \<in> T"
    using owns_freePT [OF e(1) that] e(2) that unfolding kacc_def kok_def by (auto simp: KStackAllocator_def)
  show "\<exists>s'. freePage KStackAllocator s f = Some s' \<and> kacc U s' T (if False then P else P - {f}) k" if "False \<or> f \<in> P"
    using owns_freePage [OF e(1), of f] e(2) that unfolding kacc_def kok_def by (auto simp: KStackAllocator_def)
next
  fix s T P k
  assume o: "kacc U s T P (Suc k)"
  then have e: "env_owns s T P KERN" "free_frames s \<union> T \<union> P = U" by (simp_all add: kacc_def kok_def)
  show "\<exists>f s'. allocPage KStackAllocator s = Some (f, s') \<and> (if f = INVALID_FRAME then kacc U s' T P k else f \<notin> T \<and> f \<notin> P \<and> f \<noteq> 0 \<and> f < 2 ^ 20 \<and> kacc U s' T (insert f P) k)"
  proof -
    obtain f s' where f: "pm_page KERN s = Some (f, s')" "pm_takes (e_pm s) f (e_pm s')"
      "if f = INVALID_FRAME then env_owns s' T P KERN else f \<notin> T \<and> f \<notin> P \<and> f \<noteq> 0 \<and> f < 2 ^ 20 \<and> env_owns s' T (insert f P) KERN" using owns_allocPage [OF e(1)] by blast
    note u = takes_free [OF f(2)]
    have "if f = INVALID_FRAME then kacc U s' T P k else f \<notin> T \<and> f \<notin> P \<and> f \<noteq> 0 \<and> f < 2 ^ 20 \<and> kacc U s' T (insert f P) k"
      using f(3) u e(2) unfolding kacc_def kok_def by (cases "f = INVALID_FRAME") (simp_all add: insert_commute)
    then show ?thesis using f(1) by (simp add: KStackAllocator_def)
  qed
  show "kacc U s T P k" using o by (simp add: kacc_def kok_def)
qed simp

interpretation ua: page_allocator UAllocator False "uacc U R" for U R
proof
  fix s T P k f
  assume o: "uacc U R s T P k"
  let ?P = "P \<union> set (reqFrames s)"
  have e: "env_owns s T ?P USR" "free_frames s \<union> T \<union> ?P = U" "distinct (reqFrames s)" "set (reqFrames s) \<inter> P = {}" "k \<le> length (reqFrames s)" "\<exists>j. reqFrames s = drop j R"
    using o by (auto simp: uacc_def uok_def)
  show "\<exists>f s'. allocPT UAllocator s = Some (f, s') \<and> (if f = INVALID_FRAME then uacc U R s' T P k else f \<notin> T \<and> f \<notin> P \<and> f < 2 ^ 20 \<and> uacc U R s' (insert f T) P k)"
  proof -
    obtain f s' where f: "base_allocPT s = Some (f, s')" "reqFrames s' = reqFrames s" "pm_takes (e_pm s) f (e_pm s')"
      "if f = INVALID_FRAME then env_owns s' T ?P USR else f \<notin> T \<and> f \<notin> ?P \<and> f < 2 ^ 20 \<and> env_owns s' (insert f T) ?P USR" using owns_allocPT [OF e(1)] by blast
    note u = takes_free [OF f(3)]
    have "if f = INVALID_FRAME then uacc U R s' T P k else f \<notin> T \<and> f \<notin> P \<and> f < 2 ^ 20 \<and> uacc U R s' (insert f T) P k"
      using f(2,4) u e unfolding uacc_def uok_def by (cases "f = INVALID_FRAME") (simp_all add: Un_assoc)
    then show ?thesis using f(1) by (simp add: UAllocator_def)
  qed
  show "\<exists>s'. freePT UAllocator s f = Some s' \<and> uacc U R s' (T - {f}) P k" if "f \<in> T"
    using owns_freePT [OF e(1) that] e that unfolding uacc_def uok_def by (auto simp: UAllocator_def)
  show "\<exists>s'. freePage UAllocator s f = Some s' \<and> uacc U R s' T (if False then P else P - {f}) k" if "False \<or> f \<in> P"
  proof -
    have p: "?P - {f} = P - {f} \<union> set (reqFrames s)" "f \<in> ?P" using e(4) that by auto
    obtain s' where "pm_unpage USR s f = Some s'" "reqFrames s' = reqFrames s" "free_frames s' = insert f (free_frames s)" "env_owns s' T (P - {f} \<union> set (reqFrames s)) USR"
      using owns_freePage [OF e(1) p(2)] unfolding p(1) by blast
    then show ?thesis using e that unfolding uacc_def uok_def by (intro exI [of _ s']) (auto simp: UAllocator_def)
  qed
next
  fix s T P k
  assume "uacc U R s T P (Suc k)"
  then have o: "uok s T P (Suc k)" "free_frames s \<union> T \<union> P \<union> set (reqFrames s) = U" "\<exists>j. reqFrames s = drop j R" by (simp_all add: uacc_def)
  show "uacc U R s T P k" using o by (simp add: uacc_def uok_def)
  obtain f fs where f: "reqFrames s = f # fs" using o(1) unfolding uok_def by (cases "reqFrames s") auto
  obtain j where "reqFrames s = drop j R" using o(3) by blast
  then have j: "fs = drop (Suc j) R" using f by (metis drop_Suc tl_drop list.sel(3))
  have e: "env_owns s T (P \<union> set (reqFrames s)) USR" using o(1) by (simp add: uok_def)
  have n: "f \<noteq> 0" "f < 2 ^ 20" "f \<noteq> INVALID_FRAME" using owns_page [OF e, of f] f by simp_all
  have "f \<notin> T" "f \<notin> P" using e o(1) f by (auto simp: env_owns_def uok_def)
  moreover have "uok (s\<lparr>reqFrames := fs\<rparr>) T (insert f P) k" using o(1) f unfolding uok_def env_owns_def by auto
  then have "uacc U R (s\<lparr>reqFrames := fs\<rparr>) T (insert f P) k" using o(2) f j unfolding uacc_def by auto
  ultimately show "\<exists>f s'. allocPage UAllocator s = Some (f, s') \<and> (if f = INVALID_FRAME then uacc U R s' T P k else f \<notin> T \<and> f \<notin> P \<and> f \<noteq> 0 \<and> f < 2 ^ 20 \<and> uacc U R s' T (insert f P) k)"
    using f n by (auto simp: UAllocator_def getFrame_def)
qed simp

end
