(* ===== verification/PageDir.thy ===== *)
theory PageDir
  imports PageTables
begin

text \<open>
  The page directories of processes, \<open>kernel/src/arch/x86/mem/pagedir.cc\<close> and \<open>kernel/src/arch/i586/mem/pagedir.cc\<close>: kernel stacks, the kernel part of a
  new directory, and what \<open>map\<close>, \<open>unmap\<close> and \<open>clone\<close> of the page tables do in the area of the user.
\<close>

section \<open>Kernel stacks\<close>

record PageDir =
  pd_root :: nat
  freeKStack :: nat

partial_function (option) kstack_loop :: "ptmem \<Rightarrow> nat \<Rightarrow> nat \<Rightarrow> nat option" where
  "kstack_loop m root addr = (if addr < KSTACK_AREA + KSTACK_AREA_SIZE - 1 \<and> isPresent m root addr then kstack_loop m root (uadd addr PAGE) else Some addr)"

definition createKernelStack :: "bool \<Rightarrow> PageDir \<Rightarrow> ptmem \<Rightarrow> ptenv \<Rightarrow> (nat \<times> PageDir \<times> ptmem \<times> ptenv) option" where
  "createKernelStack nxe pd m s = do {
     addr \<leftarrow> kstack_loop m (pd_root pd) (freeKStack pd);
     (addr, m, s) \<leftarrow> (if addr < KSTACK_AREA + KSTACK_AREA_SIZE - 1 then do {
         (r, m, s) \<leftarrow> pt_map nxe KStackAllocator (pd_root pd) addr 1 (PG_PRESENT OR PG_WRITABLE OR PG_SUPERVISOR) m s;
         Some (if r < 0 then 0 else addr, m, s) }
       else Some (addr, m, s));
     Some (if addr = KSTACK_AREA + KSTACK_AREA_SIZE - 1 then (0, pd, m, s) else (addr, pd\<lparr>freeKStack := uadd addr PAGE\<rparr>, m, s)) }"

definition removeKernelStack :: "PageDir \<Rightarrow> nat \<Rightarrow> ptmem \<Rightarrow> ptenv \<Rightarrow> (PageDir \<times> ptmem \<times> ptenv) option" where
  "removeKernelStack pd addr m s = do {
     (r, m, s) \<leftarrow> unmap KStackAllocator (pd_root pd) addr 1 m s;
     Some (if addr < freeKStack pd then pd\<lparr>freeKStack := addr\<rparr> else pd, m, s) }"

section \<open>New directories\<close>

text \<open>\<open>kstackAddr\<close> is the kernel stack of the thread. The page directory is a frame from the allocator, whose entries are all overwritten.\<close>

definition cloneKernelspace :: "nat \<Rightarrow> nat \<Rightarrow> ptmem \<Rightarrow> physmem \<Rightarrow> (int \<times> PageDir option \<times> ptmem \<times> physmem) option" where
  "cloneKernelspace cur kstackAddr m pm = do {
     (pdirFrame, pm1) \<leftarrow> pm_allocate pm KERN;
     if pdirFrame = INVALID_FRAME then Some (- ENOMEM, None, m, pm1)
     else do {
       (stackPtFrame, pm2) \<leftarrow> pm_allocate pm1 KERN;
       if stackPtFrame = INVALID_FRAME then do { pm3 \<leftarrow> pm_free pm2 pdirFrame KERN; Some (- ENOMEM, None, m, pm3) }
       else let npd = (\<lambda>i. if PT_IDX KERNEL_AREA 1 \<le> i \<and> i < PT_IDX KSTACK_AREA 1 then m cur i else 0);
                npd = npd(PT_IDX kstackAddr 1 := mk_pte stackPtFrame (PTE_PRESENT OR PTE_WRITABLE OR PTE_EXISTS)) in
         Some (0, Some \<lparr>pd_root = pdirFrame, freeKStack = (if kstackAddr = KSTACK_AREA then KSTACK_AREA + PAGE else KSTACK_AREA)\<rparr>,
           m(pdirFrame := npd, stackPtFrame := (\<lambda>_. 0)), pm2) } }"

fun pd_destroy_loop :: "nat \<Rightarrow> nat list \<Rightarrow> ptmem \<Rightarrow> physmem \<Rightarrow> (ptmem \<times> physmem) option" where
  "pd_destroy_loop root [] m pm = Some (m, pm)"
| "pd_destroy_loop root (i # is) m pm =
     (if has (m root i) PTE_EXISTS then do { pm1 \<leftarrow> pm_free pm (PTE_FRAMENO (m root i)) KERN; pd_destroy_loop root is (put_pte m root i 0) pm1 }
      else pd_destroy_loop root is m pm)"

definition pd_destroy :: "PageDir \<Rightarrow> ptmem \<Rightarrow> physmem \<Rightarrow> (ptmem \<times> physmem) option" where
  "pd_destroy pd m pm = do {
     (m1, pm1) \<leftarrow> pd_destroy_loop (pd_root pd) [PT_IDX KSTACK_AREA 1..<PT_IDX (KSTACK_AREA + KSTACK_AREA_SIZE - 1) 1] m pm;
     pm2 \<leftarrow> pm_free pm1 (pd_root pd) KERN;
     Some (m1, pm2) }"

section \<open>Pages of the user\<close>

definition user :: "nat set" where
  "user = {..<768}"

lemma user_dirx: "v < KERNEL_AREA \<Longrightarrow> dirx v \<in> user"
proof -
  assume "v < KERNEL_AREA"
  then have "v div 0x400000 < 768" by (simp add: less_mult_imp_div_less)
  then show ?thesis unfolding dirx_def user_def by (simp only: mod_less lessThan_iff)
qed

lemma user_pages: "v + n * PAGE \<le> KERNEL_AREA \<Longrightarrow> i < n \<Longrightarrow> dirx (v + i * PAGE) \<in> user"
  by (rule user_dirx) (cases n, auto)

text \<open>The frames that are neither pages nor lost: free ones, tables, and those that the thread has reserved.\<close>

definition spare :: "ptenv \<Rightarrow> nat set \<Rightarrow> nat set" where
  "spare s T = free_frames s \<union> T \<union> set (reqFrames s)"

lemma uok_disjoint: "uok s T P k \<Longrightarrow> spare s T \<inter> P = {} \<and> free_frames s \<inter> (T \<union> set (reqFrames s)) = {} \<and> T \<inter> set (reqFrames s) = {}"
  using owns_disjoint [of s T "P \<union> set (reqFrames s)" USR] unfolding uok_def spare_def by blast

lemma uacc_start: "uok s T P k \<Longrightarrow> uacc (spare s T \<union> P) (reqFrames s) s T P k"
  unfolding uacc_def spare_def by (auto intro: exI [of _ 0])

lemma uacc_spare:
  assumes "uok s T P k" "uacc (spare s T \<union> P) R s' T' (P \<union> Q) k'" "Q \<inter> P = {}"
  shows "spare s' T' \<union> Q = spare s T" "uok s' T' (P \<union> Q) k'"
proof -
  show u: "uok s' T' (P \<union> Q) k'" using assms(2) by (simp add: uacc_def)
  have "spare s' T' \<union> (P \<union> Q) = spare s T \<union> P" using assms(2) by (auto simp: uacc_def spare_def)
  then show "spare s' T' \<union> Q = spare s T" using uok_disjoint [OF u] uok_disjoint [OF assms(1)] assms(3) by blast
qed

text \<open>C33: \<open>map\<close> of pages of the user that are not mapped yet, with the frames that the thread has reserved and with a physical memory that is mapped directly as a
  whole, returns and keeps the tables right. It succeeds and then maps the pages, one after the other, to different frames that were not in use as pages, with the
  given flags, and no other page changes; or it fails with \<open>ENOMEM\<close> and no page has changed. In both cases every frame is accounted for: what was free, a
  table or reserved is free, a table or reserved afterwards, or is one of the new pages, or, after a failure, the one frame that may get lost. The tables of
  other directories and the kernel part of this one stay as they are.\<close>

theorem user_map:
  assumes "dir_ok m root user T" "uok s T P (n + k)" "PAGE dvd v" "v + n * PAGE \<le> KERNEL_AREA" "\<forall>i < n. lookup m root (v + i * PAGE) = 0" "has flags PG_PRESENT" "\<not> has flags PG_NOPAGES"
  shows "\<exists>r m' s' T'. pt_map nxe UAllocator root v n flags m s = Some (r, m', s') \<and> dir_ok m' root user T' \<and> keeps root user m T m' T' \<and>
    (r = 0 \<and> (\<exists>fs. length fs = n \<and> distinct fs \<and> set fs \<inter> P = {} \<and> 0 \<notin> set fs \<and> mapped root user (pte_flags nxe flags) m v fs m' \<and>
       uok s' T' (P \<union> set fs) k \<and> spare s' T' \<union> set fs = spare s T) \<or>
     r = - ENOMEM \<and> (\<forall>u. dirx u \<in> user \<longrightarrow> lookup m' root u = lookup m root u) \<and>
       (\<exists>lost. lost_frame lost \<and> lost \<inter> P = {} \<and> uok s' T' (P \<union> lost) k \<and> spare s' T' \<union> lost = spare s T))"
proof -
  note u = uacc_start [OF assms(2)]
  have b: "v + n * PAGE \<le> 2 ^ 32" "v < 2 ^ 32" using assms(4) by simp_all
  have l: "lookup m root (v + i * PAGE) = 0" if "i < n" for i using assms(5) that by blast
  obtain r m' s' T' where 1: "pt_map nxe UAllocator root v n flags m s = Some (r, m', s')" "dir_ok m' root user T'" "keeps root user m T m' T'"
    "r = 0 \<and> (\<exists>fs. length fs = n \<and> distinct fs \<and> set fs \<inter> P = {} \<and> 0 \<notin> set fs \<and> mapped root user (pte_flags nxe flags) m v fs m' \<and>
       uacc (spare s T \<union> P) (reqFrames s) s' T' (P \<union> set fs) k) \<or>
     r = - ENOMEM \<and> (\<forall>u. dirx u \<in> user \<longrightarrow> lookup m' root u = lookup m root u) \<and>
       (\<exists>lost. lost_frame lost \<and> lost \<inter> P = {} \<and> uacc (spare s T \<union> P) (reqFrames s) s' T' (P \<union> lost) k)"
    using ua.map_maps [OF assms(1) u b assms(3) user_pages [OF assms(4)] l assms(6,7), of nxe] by blast
  show ?thesis using 1 uacc_spare [OF assms(2)] by metis
qed

definition demo_env :: ptenv where
  "demo_env = \<lparr>e_pm = \<lparr>bitmapStart = 0, bitmap = [], freeCont = 0, lower = \<lparr>spages = 1, frames = [602, 601]\<rparr>, upper = \<lparr>spages = 1, frames = []\<rparr>, initialized = True,
     pareas = \<lparr>mlist = [], mcount = 0\<rparr>, cframes = 0, kframes = 2, uframes = 0\<rparr>, e_pts = 0, e_frame = 0, reqFrames = [701]\<rparr>"

lemma demo_uok: "uok demo_env {700} {} (1 + 0)"
proof -
  have "low_pm (e_pm demo_env) [(700, KERN), (701, USR)]"
    by (simp add: low_pm_def holds_frames_def frames_ok_def demo_env_def bitmapStartFrame_def is_low_def)
  then show ?thesis by (auto simp: uok_def env_owns_def demo_env_def intro!: exI [of _ "[(700, KERN), (701, USR)]"])
qed

lemma demo_dir: "dir_ok (\<lambda>_ _. 0) 700 A {700}"
  by (simp add: dir_ok_def)

theorem user_map_witness:
  "\<exists>r m' s' T'. pt_map False UAllocator 700 0x8000 1 (PG_PRESENT OR PG_WRITABLE) (\<lambda>_ _. 0) demo_env = Some (r, m', s') \<and> dir_ok m' 700 user T' \<and> r \<in> {0, - ENOMEM}"
proof -
  have "\<forall>i < (1 :: nat). lookup (\<lambda>_ _. 0) 700 (0x8000 + i * PAGE) = 0" by (simp add: lookup_def)
  moreover have "has (PG_PRESENT OR PG_WRITABLE) PG_PRESENT" "\<not> has (PG_PRESENT OR PG_WRITABLE) PG_NOPAGES" by (simp_all add: bit_simps)
  ultimately show ?thesis using user_map [OF demo_dir demo_uok, where v = "0x8000" and flags = "PG_PRESENT OR PG_WRITABLE" and nxe = False] by (auto simp del: has_bit)
qed



lemma demo_index: "dirx 0x8000 = 0" "tabx 0x8000 = 8"
  unfolding dirx_def tabx_def by (simp_all del: fold_index)





section \<open>Two directories\<close>

definition pair_ok :: "ptmem \<Rightarrow> nat \<Rightarrow> nat \<Rightarrow> nat set \<Rightarrow> nat set \<Rightarrow> bool" where
  "pair_ok m a b A T = (dir_ok m a A T \<and> dir_ok m b A T \<and> a \<noteq> b \<and> tabs m a A \<inter> tabs m b A = {} \<and> a \<notin> tabs m b A \<and> b \<notin> tabs m a A)"

lemma pair_sym: "pair_ok m a b A T \<Longrightarrow> pair_ok m b a A T"
  by (auto simp: pair_ok_def)

lemma tabs_T: "dir_ok m a A T \<Longrightarrow> tabs m a A \<subseteq> T - {a}"
  by (auto simp: tabs_def dir_ok_def)

text \<open>What changes one directory leaves the other one alone.\<close>

lemma pair_step:
  assumes p: "pair_ok m a b A T" and k: "keeps b A m T m' T'" and d: "dir_ok m' b A T'"
  shows "pair_ok m' a b A T'" "dirx u \<in> A \<Longrightarrow> lookup m' a u = lookup m a u"
proof -
  have da: "dir_ok m a A T" "a \<noteq> b" "a \<notin> tabs m b A" using p by (auto simp: pair_ok_def)
  have aT: "a \<in> T" using da(1) by (simp add: dir_ok_def)
  have a: "m' a = m a" "a \<in> T'" "a \<notin> tabs m' b A" using k aT da(2,3) by (simp_all add: keeps_def)
  have ta: "tabs m' a A = tabs m a A" by (simp add: tabs_def a)
  have t: "m' f = m f \<and> f \<in> T' \<and> f \<notin> tabs m' b A" if "f \<in> tabs m a A" for f
  proof -
    have "f \<in> T" "f \<noteq> b" "f \<notin> tabs m b A" using that p tabs_T [OF da(1)] by (auto simp: pair_ok_def)
    then show ?thesis using k by (simp add: keeps_def)
  qed
  have e: "PTE_FRAMENO (m a i) \<in> tabs m a A" if "i \<in> A" "m a i \<noteq> 0" for i using that by (auto simp: tabs_def)
  have "dir_ok m' a A T'"
  proof (rule dir_okI)
    show "a < 2 ^ 20" "inj_on (\<lambda>i. PTE_FRAMENO (m' a i)) {i \<in> A. m' a i \<noteq> 0}" using da(1) by (simp_all add: a dir_ok_def)
    fix i j
    assume i: "i \<in> A" "m' a i \<noteq> 0"
    then have i': "m a i \<noteq> 0" by (simp add: a)
    show "bit (m' a i) 0 \<and> bit (m' a i) 9 \<and> \<not> bit (m' a i) 7 \<and> PTE_FRAMENO (m' a i) \<in> T' - {a}"
      using dir_entry(1,2,3,5) [OF da(1) i(1) i'] t [OF e [OF i(1) i']] by (simp add: a)
    show "bit (m' (PTE_FRAMENO (m' a i)) j) 9" if "m' (PTE_FRAMENO (m' a i)) j \<noteq> 0"
      using dir_entry(6) [OF da(1) i(1) i'] t [OF e [OF i(1) i']] that by (simp add: a)
  qed (rule a(2))
  moreover have "b \<notin> tabs m' a A" using p ta by (simp add: pair_ok_def)
  ultimately show "pair_ok m' a b A T'" using d da(2) a(3) t ta unfolding pair_ok_def by auto
  show "lookup m' a u = lookup m a u" if "dirx u \<in> A" using t e that by (auto simp: lookup_def a)
qed

definition cow_pte :: "bool \<Rightarrow> pte_t \<Rightarrow> pte_t" where
  "cow_pte share p = (if \<not> share \<and> bit p 0 then p AND NOT PTE_WRITABLE else p)"

lemma bit_2: "bit (2 :: pte_t) n \<longleftrightarrow> n = 1"
  by (cases n) (simp_all add: bit_0 bit_Suc bit_1_iff)

lemma bit_not_2: "bit (p AND NOT 2 :: pte_t) n \<longleftrightarrow> bit p n \<and> n \<noteq> 1"
  using bit_imp_le_length [of p n] unfolding bit_and_iff bit_not_iff_eq bit_2 by auto

lemma cow_pte_cases: "cow_pte share p = p \<or> bit p 0 \<and> cow_pte share p = p AND NOT 2"
  by (simp add: cow_pte_def)

lemma cow_pte_bits: "bit (cow_pte share p) 0 = bit p 0" "bit (cow_pte share p) 9 = bit p 9" "PTE_FRAMENO (cow_pte share p) = PTE_FRAMENO p"
proof -
  have "bit (p AND NOT 2) 0 = bit p 0" "bit (p AND NOT 2) 9 = bit p 9" by (subst bit_not_2, simp)+
  then show "bit (cow_pte share p) 0 = bit p 0" "bit (cow_pte share p) 9 = bit p 9" "PTE_FRAMENO (cow_pte share p) = PTE_FRAMENO p"
    using cow_pte_cases [of share p] PTE_FRAMENO_and [of p] by metis+
qed

lemma cow_pte_0: "cow_pte share 0 = 0"
  by (simp add: cow_pte_def)

lemma cow_pte_read_only: "bit p 0 \<Longrightarrow> \<not> bit (cow_pte False p) 1"
  using bit_not_2 [of p 1] by (simp only: cow_pte_def simp_thms if_True)

lemma cow_pte_idem: "cow_pte share (cow_pte share p) = cow_pte share p"
  using cow_pte_bits(1) [of share p] unfolding cow_pte_def by (cases "\<not> share \<and> bit p 0") (simp_all only: if_True if_False and.assoc and.idem simp_thms)

section \<open>Cloning\<close>

lemma cow_eq: "(if has p PTE_WRITABLE \<and> \<not> share \<and> has p PTE_PRESENT then p AND NOT PTE_WRITABLE else p) = cow_pte share p"
proof -
  have "p AND NOT 2 = p" if "\<not> bit p 1" using that by (intro bit_word_eqI) (auto simp only: bit_not_2)
  then show ?thesis unfolding cow_pte_def has_bit by (cases "bit p 1") (simp_all only: simp_thms if_cancel)
qed

lemma no_frame: "PTE_FRAMENO p = 0 \<Longrightarrow> p AND NOT PTE_FLAGS = 0"
proof -
  assume "PTE_FRAMENO p = 0"
  then have "p = p AND PTE_FLAGS" using mk_pte_split [of p] by (simp add: mk_pte_def)
  then have "p AND NOT PTE_FLAGS = p AND (PTE_FLAGS AND NOT PTE_FLAGS)" by (metis and.assoc)
  then show ?thesis by simp
qed

lemma new_pte_same: "lookup m root v = 0 \<or> PTE_FRAMENO (lookup m root v) = PTE_FRAMENO q \<Longrightarrow> new_pte m root v (PTE_FRAMENO q) (q AND PTE_FLAGS) = q"
proof (cases "PTE_FRAMENO q = 0")
  case True
  assume "lookup m root v = 0 \<or> PTE_FRAMENO (lookup m root v) = PTE_FRAMENO q"
  then have "lookup m root v AND NOT PTE_FLAGS = 0" using True no_frame by (metis and_zero_eq and.commute)
  moreover have "q AND PTE_FLAGS = q" using mk_pte_split [of q] True by (simp add: mk_pte_def)
  ultimately show ?thesis using True unfolding new_pte_def by (simp only: simp_thms if_False or.left_neutral)
qed (simp add: new_pte_def mk_pte_split)

lemma flags_no_write: "cow_pte False p = q \<Longrightarrow> bit p 0 \<Longrightarrow> q AND PTE_FLAGS AND NOT PTE_WRITABLE = q AND PTE_FLAGS"
proof -
  assume "cow_pte False p = q" "bit p 0"
  then have "q = p AND NOT PTE_WRITABLE" by (simp only: cow_pte_def simp_thms if_True)
  then show ?thesis by (intro bit_word_eqI) (auto simp only: bit_and_iff)
qed

lemma clone_loop_Suc:
  "clone_loop share this dst (Suc n) vs vd m s = do {
     (t, i, base) \<leftarrow> getPTE m this vs;
     (r, m1, s1) \<leftarrow> mapPage NoAllocator dst vd (PTE_FRAMENO (cow_pte share (m t i))) (cow_pte share (m t i) AND PTE_FLAGS) m s;
     if r < 0 then Some (Suc n, m1, s1)
     else do {
       (r, m2, s2) \<leftarrow> (if \<not> share \<and> bit (m t i) 0 then mapPage NoAllocator this vs (PTE_FRAMENO (cow_pte share (m t i))) (cow_pte share (m t i) AND PTE_FLAGS) m1 s1 else Some (0, m1, s1));
       vassert (r \<ge> 0);
       clone_loop share this dst n (uadd vs PAGE) (uadd vd PAGE) m2 s2 } }"
proof -
  have c: "\<not> share \<and> bit p 0 \<Longrightarrow> cow_pte share p AND PTE_FLAGS AND NOT PTE_WRITABLE = cow_pte share p AND PTE_FLAGS" for p
    using flags_no_write [of p "cow_pte share p"] by (cases share) simp_all
  have e: "(if \<not> share \<and> bit p 0 then mapPage NoAllocator this vs f (cow_pte share p AND PTE_FLAGS AND NOT PTE_WRITABLE) m1 s1 else Some (0, m1, s1)) =
      (if \<not> share \<and> bit p 0 then mapPage NoAllocator this vs f (cow_pte share p AND PTE_FLAGS) m1 s1 else Some (0, m1, s1))" for p f m1 s1
    using c [of p] by (cases "\<not> share \<and> bit p 0") (simp_all only: if_True if_False simp_thms)
  show ?thesis unfolding clone_loop.simps Let_def unfolding cow_eq unfolding has_bit(1) cow_pte_bits(1) e ..
qed

lemma clone_step:
  fixes share :: bool
  assumes p: "pair_ok m this dst A T" "nok s T P k" and v: "dirx vs \<in> A" "dirx vd \<in> A" and l: "lookup m this vs \<noteq> 0" "lookup m dst vd = 0"
  defines "q \<equiv> cow_pte share (lookup m this vs)"
  shows "\<exists>m' s' T'. nok s' T' P k \<and> pair_ok m' this dst A T' \<and>
    (clone_loop share this dst (Suc n) vs vd m s = Some (Suc n, m', s') \<and> (\<forall>u. dirx u \<in> A \<longrightarrow> lookup m' this u = lookup m this u \<and> lookup m' dst u = lookup m dst u) \<or>
     clone_loop share this dst (Suc n) vs vd m s = clone_loop share this dst n (uadd vs PAGE) (uadd vd PAGE) m' s' \<and>
     (\<forall>u. dirx u \<in> A \<longrightarrow> lookup m' this u = (if same_page u vs then q else lookup m this u) \<and> lookup m' dst u = (if same_page u vd then q else lookup m dst u)))"
proof -
  have d: "dir_ok m this A T" "dir_ok m dst A T" using p(1) by (auto simp: pair_ok_def)
  let ?t = "PTE_FRAMENO (m this (dirx vs))"
  have e: "m this (dirx vs) \<noteq> 0" using l(1) by (auto simp: lookup_def)
  have g: "getPTE m this vs = Some (?t, tabx vs, vs)" "m ?t (tabx vs) = lookup m this vs" using e getPTE_dir [OF d(1) v(1)] by (simp_all add: lookup_def)
  have b9: "bit (lookup m this vs) 9" using dir_entry(6) [OF d(1) v(1) e, of "tabx vs"] l(1) g(2) by simp
  then have q: "bit q 9" "PTE_FRAMENO q = PTE_FRAMENO (lookup m this vs)" by (simp_all add: q_def cow_pte_bits)
  have n1: "new_pte m dst vd (PTE_FRAMENO q) (q AND PTE_FLAGS) = q" using new_pte_same l(2) by blast
  obtain r m1 s1 T1 where 1: "mapPage NoAllocator dst vd (PTE_FRAMENO q) (q AND PTE_FLAGS) m s = Some (r, m1, s1)" "nok s1 T1 P k" "dir_ok m1 dst A T1" "keeps dst A m T m1 T1"
    "if r < 0 then r = - ENOMEM \<and> m1 = m else r = of_bool (bit (lookup m dst vd) 0) \<and> (\<forall>u. dirx u \<in> A \<longrightarrow> lookup m1 dst u = (if same_page u vd then q else lookup m dst u))"
    using na.mapPage_maps [OF d(2) p(2) v(2), of "PTE_FRAMENO q" "q AND PTE_FLAGS"] q(1) unfolding n1 by blast
  note 2 = pair_step [OF p(1) 1(4,3)]
  show ?thesis
  proof (cases "r < 0")
    case True
    then have "clone_loop share this dst (Suc n) vs vd m s = Some (Suc n, m1, s1)" "m1 = m" using 1(1,5) g unfolding clone_loop_Suc q_def by simp_all
    then show ?thesis using 1(2) 2(1) by blast
  next
    case False
    then have r: "r \<ge> 0" and m1: "\<And>u. dirx u \<in> A \<Longrightarrow> lookup m1 dst u = (if same_page u vd then q else lookup m dst u)" using 1(5) by auto
    show ?thesis
    proof (cases "\<not> share \<and> bit (lookup m this vs) 0")
      case True
      have l1: "lookup m1 this vs = lookup m this vs" using 2(2) v(1) by blast
      have d1: "dir_ok m1 this A T1" using 2(1) by (simp add: pair_ok_def)
      have e1: "m1 this (dirx vs) \<noteq> 0" using l1 l(1) by (auto simp: lookup_def)
      have n2: "new_pte m1 this vs (PTE_FRAMENO q) (q AND PTE_FLAGS) = q" by (rule new_pte_same) (simp add: l1 q(2))
      obtain r' m2 s2 T2 where 3: "mapPage NoAllocator this vs (PTE_FRAMENO q) (q AND PTE_FLAGS) m1 s1 = Some (r', m2, s2)" "nok s2 T2 P k" "dir_ok m2 this A T2" "keeps this A m1 T1 m2 T2"
        "m1 this (dirx vs) \<noteq> 0 \<longrightarrow> 0 \<le> r'" "if r' < 0 then r' = - ENOMEM \<and> m2 = m1 else r' = of_bool (bit (lookup m1 this vs) 0) \<and> (\<forall>u. dirx u \<in> A \<longrightarrow> lookup m2 this u = (if same_page u vs then q else lookup m1 this u))"
        using na.mapPage_maps [OF d1 1(2) v(1), of "PTE_FRAMENO q" "q AND PTE_FLAGS"] q(1) unfolding n2 by blast
      have r': "0 \<le> r'" using 3(5) e1 by blast
      note 4 = pair_step [OF pair_sym [OF 2(1)] 3(4,3)]
      have "clone_loop share this dst (Suc n) vs vd m s = clone_loop share this dst n (uadd vs PAGE) (uadd vd PAGE) m2 s2"
        using 1(1) 3(1) g r r' True unfolding clone_loop_Suc q_def by (simp del: clone_loop.simps)
      moreover have "\<forall>u. dirx u \<in> A \<longrightarrow> lookup m2 this u = (if same_page u vs then q else lookup m this u) \<and> lookup m2 dst u = (if same_page u vd then q else lookup m dst u)"
        using 3(6) r' 4(2) m1 2(2) by auto
      ultimately show ?thesis using 3(2) pair_sym [OF 4(1)] by blast
    next
      case False
      have "lookup m this u = q" if "same_page u vs" for u
      proof -
        have "lookup m this u = lookup m this vs" using that by (simp add: lookup_def same_page_def)
        then show ?thesis using False unfolding q_def cow_pte_def by (simp only: if_False simp_thms)
      qed
      moreover have "clone_loop share this dst (Suc n) vs vd m s = clone_loop share this dst n (uadd vs PAGE) (uadd vd PAGE) m1 s1"
        using 1(1) g r False unfolding clone_loop_Suc q_def by (auto simp del: clone_loop.simps)
      ultimately show ?thesis using 1(2) 2 m1 by (intro exI [of _ m1] exI [of _ s1] exI [of _ T1]) auto
    qed
  qed
qed

text \<open>The first \<open>n\<close> pages are cloned: both directories have the same frames and flags there, and without sharing the present ones are read-only in both.\<close>

definition cloned :: "bool \<Rightarrow> nat \<Rightarrow> nat \<Rightarrow> nat set \<Rightarrow> ptmem \<Rightarrow> nat \<Rightarrow> nat \<Rightarrow> nat \<Rightarrow> ptmem \<Rightarrow> bool" where
  "cloned share this dst A m vs vd n m' = (
     (\<forall>u. dirx u \<in> A \<longrightarrow> lookup m' this u = (if in_range u vs n then cow_pte share (lookup m this u) else lookup m this u)) \<and>
     (\<forall>i < n. lookup m' dst (vd + i * PAGE) = cow_pte share (lookup m this (vs + i * PAGE))) \<and>
     (\<forall>u. dirx u \<in> A \<longrightarrow> \<not> in_range u vd n \<longrightarrow> lookup m' dst u = lookup m dst u))"

lemma cloned_Suc:
  assumes v: "vs + Suc n * PAGE \<le> 2 ^ 32" "vd + Suc n * PAGE \<le> 2 ^ 32" "dirx vd \<in> A" "\<And>i. i < n \<Longrightarrow> dirx (vs + PAGE + i * PAGE) \<in> A"
    and m1: "\<And>u. dirx u \<in> A \<Longrightarrow> lookup m1 this u = (if same_page u vs then cow_pte share (lookup m this vs) else lookup m this u) \<and>
      lookup m1 dst u = (if same_page u vd then cow_pte share (lookup m this vs) else lookup m dst u)"
    and c: "cloned share this dst A m1 (vs + PAGE) (vd + PAGE) n m'"
  shows "cloned share this dst A m vs vd (Suc n) m'"
  unfolding cloned_def
proof (intro conjI allI impI)
  fix u
  assume u: "dirx u \<in> A"
  have s: "lookup m this u = lookup m this vs" if "same_page u vs" using that by (simp add: lookup_def same_page_def)
  show "lookup m' this u = (if in_range u vs (Suc n) then cow_pte share (lookup m this u) else lookup m this u)"
    using c m1 [OF u] u s by (auto simp: cloned_def in_range_Suc cow_pte_idem)
  show "lookup m' dst u = lookup m dst u" if "\<not> in_range u vd (Suc n)" using c m1 [OF u] u that by (auto simp: cloned_def in_range_Suc)
next
  fix i
  assume i: "i < Suc n"
  show "lookup m' dst (vd + i * PAGE) = cow_pte share (lookup m this (vs + i * PAGE))"
  proof (cases i)
    case 0
    then show ?thesis using c m1 [OF v(3)] v(3) not_in_next [OF v(2)] by (simp add: cloned_def)
  next
    case (Suc j)
    then have "lookup m' dst (vd + PAGE + j * PAGE) = cow_pte share (lookup m1 this (vs + PAGE + j * PAGE))" using c i by (simp add: cloned_def)
    moreover have "lookup m1 this (vs + PAGE + j * PAGE) = lookup m this (vs + PAGE + j * PAGE)" using m1 [OF v(4)] next_pages [OF v(1)] i Suc by simp
    ultimately show ?thesis using Suc by (simp add: add.assoc)
  qed
qed

lemma cow_pte_nonzero: "bit p 9 \<Longrightarrow> cow_pte share p \<noteq> 0"
  using cow_pte_bits(2) [of share p] by auto

lemma clone_loop_clones:
  assumes "pair_ok m this dst A T" "nok s T P k" "vs + n * PAGE \<le> 2 ^ 32" "vd + n * PAGE \<le> 2 ^ 32"
    "\<And>i. i < n \<Longrightarrow> dirx (vs + i * PAGE) \<in> A \<and> dirx (vd + i * PAGE) \<in> A \<and> lookup m this (vs + i * PAGE) \<noteq> 0 \<and> lookup m dst (vd + i * PAGE) = 0"
  shows "\<exists>left m' s' T'. clone_loop share this dst n vs vd m s = Some (left, m', s') \<and> left \<le> n \<and> nok s' T' P k \<and> pair_ok m' this dst A T' \<and> cloned share this dst A m vs vd (n - left) m'"
  using assms
proof (induction n arbitrary: m s T vs vd)
  case 0
  then show ?case by (auto simp: cloned_def)
next
  case (Suc n)
  have v: "dirx vs \<in> A" "dirx vd \<in> A" "lookup m this vs \<noteq> 0" "lookup m dst vd = 0" using Suc.prems(5) [of 0] by simp_all
  obtain m1 s1 T1 where 1: "nok s1 T1 P k" "pair_ok m1 this dst A T1"
    "clone_loop share this dst (Suc n) vs vd m s = Some (Suc n, m1, s1) \<and> (\<forall>u. dirx u \<in> A \<longrightarrow> lookup m1 this u = lookup m this u \<and> lookup m1 dst u = lookup m dst u) \<or>
     clone_loop share this dst (Suc n) vs vd m s = clone_loop share this dst n (uadd vs PAGE) (uadd vd PAGE) m1 s1 \<and>
     (\<forall>u. dirx u \<in> A \<longrightarrow> lookup m1 this u = (if same_page u vs then cow_pte share (lookup m this vs) else lookup m this u) \<and>
        lookup m1 dst u = (if same_page u vd then cow_pte share (lookup m this vs) else lookup m dst u))"
    using clone_step [OF Suc.prems(1,2) v] by blast
  from 1(3) show ?case
  proof (elim disjE conjE)
    assume "clone_loop share this dst (Suc n) vs vd m s = Some (Suc n, m1, s1)" "\<forall>u. dirx u \<in> A \<longrightarrow> lookup m1 this u = lookup m this u \<and> lookup m1 dst u = lookup m dst u"
    then show ?thesis using 1(1,2) by (intro exI [of _ "Suc n"] exI [of _ m1] exI [of _ s1] exI [of _ T1]) (simp add: cloned_def)
  next
    assume l: "clone_loop share this dst (Suc n) vs vd m s = clone_loop share this dst n (uadd vs PAGE) (uadd vd PAGE) m1 s1"
      and "\<forall>u. dirx u \<in> A \<longrightarrow> lookup m1 this u = (if same_page u vs then cow_pte share (lookup m this vs) else lookup m this u) \<and>
        lookup m1 dst u = (if same_page u vd then cow_pte share (lookup m this vs) else lookup m dst u)"
    then have m1: "\<And>u. dirx u \<in> A \<Longrightarrow> lookup m1 this u = (if same_page u vs then cow_pte share (lookup m this vs) else lookup m this u) \<and>
        lookup m1 dst u = (if same_page u vd then cow_pte share (lookup m this vs) else lookup m dst u)" by blast
    have pre: "dirx (vs + PAGE + i * PAGE) \<in> A \<and> dirx (vd + PAGE + i * PAGE) \<in> A \<and> lookup m1 this (vs + PAGE + i * PAGE) \<noteq> 0 \<and> lookup m1 dst (vd + PAGE + i * PAGE) = 0" if "i < n" for i
      using m1 Suc.prems(5) [of "Suc i"] that next_pages [OF Suc.prems(3) that] next_pages [OF Suc.prems(4) that] by (simp add: add.assoc)
    have b: "vs + PAGE + n * PAGE \<le> 2 ^ 32" "vd + PAGE + n * PAGE \<le> 2 ^ 32" using Suc.prems(3,4) by simp_all
    obtain left m' s' T' where 2: "clone_loop share this dst n (vs + PAGE) (vd + PAGE) m1 s1 = Some (left, m', s')" "left \<le> n" "nok s' T' P k" "pair_ok m' this dst A T'"
      "cloned share this dst A m1 (vs + PAGE) (vd + PAGE) (n - left) m'"
      using Suc.IH [OF 1(2,1) b pre] by blast
    have "clone_loop share this dst n (uadd vs PAGE) (uadd vd PAGE) m1 s1 = clone_loop share this dst n (vs + PAGE) (vd + PAGE) m1 s1"
      using Suc.prems(3,4) by (cases n) (auto simp: uadd_small)
    moreover have "cloned share this dst A m vs vd (Suc (n - left)) m'"
      using Suc.prems(3,4) 2(2) by (intro cloned_Suc [OF _ _ v(2) _ m1 2(5)]) (use pre in auto)
    ultimately show ?thesis using l 2 by (intro exI [of _ left] exI [of _ m'] exI [of _ s'] exI [of _ T']) (simp add: Suc_diff_le)
  qed
qed

text \<open>After an error, the present pages become writable, whatever they were before, and lose all other flags.\<close>

definition restored :: "bool \<Rightarrow> nat \<Rightarrow> nat set \<Rightarrow> ptmem \<Rightarrow> nat \<Rightarrow> nat \<Rightarrow> ptmem \<Rightarrow> bool" where
  "restored share this A m vs n m' = (\<forall>u. dirx u \<in> A \<longrightarrow> lookup m' this u = (if in_range u vs n \<and> \<not> share \<and> bit (lookup m this u) 0 then mk_pte (PTE_FRAMENO (lookup m this u)) 0x203 else lookup m this u))"

lemma new_pte_flags: "f = PTE_FRAMENO (lookup m root v) \<Longrightarrow> new_pte m root v f fl = mk_pte f fl"
proof (cases "f = 0")
  case True
  assume "f = PTE_FRAMENO (lookup m root v)"
  then have "lookup m root v AND NOT PTE_FLAGS = 0" using True no_frame by simp
  then show ?thesis using True unfolding new_pte_def by (simp only: simp_thms if_False or.left_neutral mk_pte_def) simp
qed (simp add: new_pte_def)

lemma restore_loop_restores:
  assumes "pair_ok m this dst A T" "nok s T P k" "vs + n * PAGE \<le> 2 ^ 32" "\<And>i. i < n \<Longrightarrow> dirx (vs + i * PAGE) \<in> A \<and> lookup m this (vs + i * PAGE) \<noteq> 0"
  shows "\<exists>m' s' T'. restore_loop share this n vs m s = Some (m', s') \<and> nok s' T' P k \<and> pair_ok m' this dst A T' \<and> restored share this A m vs n m' \<and> (\<forall>u. dirx u \<in> A \<longrightarrow> lookup m' dst u = lookup m dst u)"
  using assms
proof (induction n arbitrary: m s T vs)
  case 0
  then show ?case by (auto simp: restored_def)
next
  case (Suc n)
  have v: "dirx vs \<in> A" "lookup m this vs \<noteq> 0" using Suc.prems(4) [of 0] by simp_all
  have d: "dir_ok m this A T" using Suc.prems(1) by (simp add: pair_ok_def)
  let ?t = "PTE_FRAMENO (m this (dirx vs))" and ?f = "PTE_FRAMENO (lookup m this vs)"
  have e: "m this (dirx vs) \<noteq> 0" using v(2) by (auto simp: lookup_def)
  have g: "getPTE m this vs = Some (?t, tabx vs, vs)" "m ?t (tabx vs) = lookup m this vs" using e getPTE_dir [OF d v(1)] by (simp_all add: lookup_def)
  have n: "new_pte m this vs ?f 0x203 = mk_pte ?f 0x203" "bit (mk_pte ?f 0x203) 9" using new_pte_flags bit_mk_pte [of "0x203" 9] by (auto simp: bit_simps)
  have "\<exists>r m1 s1 T1. (if \<not> share \<and> bit (lookup m this vs) 0 then mapPage NoAllocator this vs ?f 0x203 m s else Some (0, m, s)) = Some (r, m1, s1) \<and> nok s1 T1 P k \<and> pair_ok m1 this dst A T1 \<and>
      (\<forall>u. dirx u \<in> A \<longrightarrow> lookup m1 dst u = lookup m dst u \<and> lookup m1 this u = (if same_page u vs \<and> \<not> share \<and> bit (lookup m this u) 0 then mk_pte (PTE_FRAMENO (lookup m this u)) 0x203 else lookup m this u))"
  proof (cases "\<not> share \<and> bit (lookup m this vs) 0")
    case True
    obtain r m1 s1 T1 where 1: "mapPage NoAllocator this vs ?f 0x203 m s = Some (r, m1, s1)" "nok s1 T1 P k" "dir_ok m1 this A T1" "keeps this A m T m1 T1" "m this (dirx vs) \<noteq> 0 \<longrightarrow> 0 \<le> r"
      "if r < 0 then r = - ENOMEM \<and> m1 = m else r = of_bool (bit (lookup m this vs) 0) \<and> (\<forall>u. dirx u \<in> A \<longrightarrow> lookup m1 this u = (if same_page u vs then mk_pte ?f 0x203 else lookup m this u))"
      using na.mapPage_maps [OF d Suc.prems(2) v(1), of ?f "0x203"] n unfolding n(1) by blast
    have s: "lookup m this u = lookup m this vs" if "same_page u vs" for u using that by (simp add: lookup_def same_page_def)
    have r: "\<not> r < 0" using 1(5) e by auto
    note 2 = pair_step [OF pair_sym [OF Suc.prems(1)] 1(4,3)]
    have "lookup m1 dst u = lookup m dst u \<and> lookup m1 this u = (if same_page u vs \<and> \<not> share \<and> bit (lookup m this u) 0 then mk_pte (PTE_FRAMENO (lookup m this u)) 0x203 else lookup m this u)" if "dirx u \<in> A" for u
      using 1(6) r True s [of u] 2(2) [OF that] that by (cases "same_page u vs") simp_all
    then show ?thesis using 1(1,2) True pair_sym [OF 2(1)] by (intro exI [of _ r] exI [of _ m1] exI [of _ s1] exI [of _ T1]) simp
  next
    case False
    then have "\<not> (same_page u vs \<and> \<not> share \<and> bit (lookup m this u) 0)" for u by (auto simp: lookup_def same_page_def)
    then show ?thesis using False Suc.prems(1,2) by auto
  qed
  then obtain r m1 s1 T1 where 1: "(if \<not> share \<and> bit (lookup m this vs) 0 then mapPage NoAllocator this vs ?f 0x203 m s else Some (0, m, s)) = Some (r, m1, s1)" "nok s1 T1 P k" "pair_ok m1 this dst A T1"
      "\<And>u. dirx u \<in> A \<Longrightarrow> lookup m1 dst u = lookup m dst u \<and> lookup m1 this u = (if same_page u vs \<and> \<not> share \<and> bit (lookup m this u) 0 then mk_pte (PTE_FRAMENO (lookup m this u)) 0x203 else lookup m this u)" by blast
  have pre: "dirx (vs + PAGE + i * PAGE) \<in> A \<and> lookup m1 this (vs + PAGE + i * PAGE) \<noteq> 0" if "i < n" for i
    using 1(4) Suc.prems(4) [of "Suc i"] that next_pages [OF Suc.prems(3) that] by (simp add: add.assoc)
  obtain m' s' T' where 2: "restore_loop share this n (vs + PAGE) m1 s1 = Some (m', s')" "nok s' T' P k" "pair_ok m' this dst A T'" "restored share this A m1 (vs + PAGE) n m'" "\<forall>u. dirx u \<in> A \<longrightarrow> lookup m' dst u = lookup m1 dst u"
    using Suc.IH [OF 1(3,2), of "vs + PAGE"] Suc.prems(3) pre by auto
  have "restore_loop share this n (uadd vs PAGE) m1 s1 = restore_loop share this n (vs + PAGE) m1 s1" using Suc.prems(3) by (cases n) (auto simp: uadd_small)
  then have "restore_loop share this (Suc n) vs m s = Some (m', s')" using g 1(1) 2(1) by (cases "\<not> share \<and> bit (lookup m this vs) 0") auto
  moreover have "PTE_FRAMENO (mk_pte (PTE_FRAMENO w) 0x203) = PTE_FRAMENO w" for w using PTE_FRAMENO_less [of w] by simp
  then have "restored share this A m vs (Suc n) m'" using 2(4) 1(4) unfolding restored_def by (auto simp: in_range_Suc)
  ultimately show ?case using 2(2,3,5) 1(4) by (intro exI [of _ m'] exI [of _ s'] exI [of _ T']) simp
qed

text \<open>The error path: the pages cloned so far disappear from the new directory, and those of the old one become writable again.\<close>

lemma clone_undo:
  assumes "pair_ok m this dst user T" "pair_ok m1 this dst user T1" "nok s1 T1 P k" "cloned share this dst user m vs vd c m1"
    "vs + c * PAGE \<le> KERNEL_AREA" "vd + c * PAGE \<le> KERNEL_AREA" "\<forall>i < c. lookup m this (vs + i * PAGE) \<noteq> 0 \<and> lookup m dst (vd + i * PAGE) = 0"
  shows "\<exists>g m2 s2 m3 s3 T3. unmap NoAllocator dst vd c m1 s1 = Some (g, m2, s2) \<and> restore_loop share this c vs m2 s2 = Some (m3, s3) \<and> nok s3 T3 P k \<and> pair_ok m3 this dst user T3 \<and>
    (\<forall>u. dirx u \<in> user \<longrightarrow> lookup m3 dst u = lookup m dst u \<and> PTE_FRAMENO (lookup m3 this u) = PTE_FRAMENO (lookup m this u))"
proof -
  have pages: "dirx (vs + i * PAGE) \<in> user \<and> dirx (vd + i * PAGE) \<in> user \<and> lookup m this (vs + i * PAGE) \<noteq> 0 \<and> lookup m dst (vd + i * PAGE) = 0" if "i < c" for i
    using user_pages [OF assms(5) that] user_pages [OF assms(6) that] assms(7) that by blast
  have dd: "dir_ok m1 dst user T1" using assms(2) by (simp add: pair_ok_def)
  have k: "vd + c * PAGE \<le> 2 ^ 32" "vd < 2 ^ 32" "vs + c * PAGE \<le> 2 ^ 32" using assms(5,6) by simp_all
  obtain m2 s2 T2 where 2: "unmap NoAllocator dst vd c m1 s1 = Some (of_bool (frames_at (lookup m1 dst) vd c \<noteq> []), m2, s2)" "nok s2 T2 P k" "dir_ok m2 dst user T2" "keeps dst user m1 T1 m2 T2"
    "\<forall>u. dirx u \<in> user \<longrightarrow> lookup m2 dst u = (if in_range u vd c then 0 else lookup m1 dst u)"
    using na.unmap_removes [OF dd assms(3) k(1,2)] pages by auto
  note 3 = pair_step [OF assms(2) 2(4,3)]
  have "bit (lookup m this u) 9" if "lookup m this u \<noteq> 0" "dirx u \<in> user" for u
    using that assms(1) dir_entry(6) [of m this user T "dirx u" "tabx u"] by (auto simp: pair_ok_def lookup_def split: if_splits)
  then have nz: "dirx (vs + i * PAGE) \<in> user \<and> lookup m2 this (vs + i * PAGE) \<noteq> 0" if "i < c" for i
    using pages [of i] that 3(2) [of "vs + i * PAGE"] assms(4) cow_pte_nonzero by (auto simp: cloned_def)
  obtain m3 s3 T3 where 4: "restore_loop share this c vs m2 s2 = Some (m3, s3)" "nok s3 T3 P k" "pair_ok m3 this dst user T3" "restored share this user m2 vs c m3"
    "\<forall>u. dirx u \<in> user \<longrightarrow> lookup m3 dst u = lookup m2 dst u" using restore_loop_restores [OF 3(1) 2(2) k(3) nz] by blast
  have "lookup m3 dst u = lookup m dst u" if "dirx u \<in> user" for u
  proof (cases "in_range u vd c")
    case True
    then obtain i where "i < c" "same_page u (vd + i * PAGE)" by (auto simp: in_range_def)
    then have "lookup m dst u = 0" using pages [of i] by (auto simp: lookup_def same_page_def split: if_splits)
    then show ?thesis using 4(5) 2(5) that True by simp
  next
    case False
    then show ?thesis using 4(5) 2(5) that assms(4) by (simp add: cloned_def)
  qed
  moreover have "PTE_FRAMENO (lookup m3 this u) = PTE_FRAMENO (lookup m this u)" if "dirx u \<in> user" for u
    using 4(4) that 3(2) [OF that] assms(4) PTE_FRAMENO_less by (auto simp: restored_def cloned_def cow_pte_bits(3))
  ultimately show ?thesis using 2(1) 4(1,2,3) by blast
qed

text \<open>C35: \<open>clone\<close> of pages of the user into a directory that has none there returns and keeps both directories right. It succeeds, and then both map the same
  frames with the same flags, where without sharing the present pages are read-only in both, and no other page of the two changes; or it fails with
  \<open>ENOMEM\<close>, and then the new directory is as before and the old one has the same frames as before.\<close>

theorem clone_cow:
  assumes "pair_ok m this dst user T" "nok s T P k" "vs + n * PAGE \<le> KERNEL_AREA" "vd + n * PAGE \<le> KERNEL_AREA" "cur = this \<or> cur = dst"
    "\<forall>i < n. lookup m this (vs + i * PAGE) \<noteq> 0 \<and> lookup m dst (vd + i * PAGE) = 0"
  shows "\<exists>r m' s' T'. ptbl_clone cur this dst vs vd n share m s = Some (r, m', s') \<and> nok s' T' P k \<and> pair_ok m' this dst user T' \<and>
    (0 \<le> r \<and> cloned share this dst user m vs vd n m' \<or>
     r = - ENOMEM \<and> (\<forall>u. dirx u \<in> user \<longrightarrow> lookup m' dst u = lookup m dst u \<and> PTE_FRAMENO (lookup m' this u) = PTE_FRAMENO (lookup m this u)))"
proof -
  have ne: "this \<noteq> dst" using assms(1) by (simp add: pair_ok_def)
  have pages: "dirx (vs + i * PAGE) \<in> user \<and> dirx (vd + i * PAGE) \<in> user \<and> lookup m this (vs + i * PAGE) \<noteq> 0 \<and> lookup m dst (vd + i * PAGE) = 0" if "i < n" for i
    using user_pages [OF assms(3) that] user_pages [OF assms(4) that] assms(6) that by blast
  have b: "vs + n * PAGE \<le> 2 ^ 32" "vd + n * PAGE \<le> 2 ^ 32" using assms(3,4) by simp_all
  have nok': "nok (s\<lparr>e_pts := 0\<rparr>) T P k" using assms(2) by (simp add: nok_def env_owns_def)
  obtain left m1 s1 T1 where 1: "clone_loop share this dst n vs vd m (s\<lparr>e_pts := 0\<rparr>) = Some (left, m1, s1)" "left \<le> n" "nok s1 T1 P k" "pair_ok m1 this dst user T1"
    "cloned share this dst user m vs vd (n - left) m1" using clone_loop_clones [OF assms(1) nok' b pages] by blast
  show ?thesis
  proof (cases "left = 0")
    case True
    then have "ptbl_clone cur this dst vs vd n share m s = Some (int (e_pts s1), m1, s1)" using 1(1) ne assms(5) by (auto simp: ptbl_clone_def)
    moreover have "cloned share this dst user m vs vd n m1" using 1(5) True by simp
    ultimately show ?thesis using 1(3,4) by (metis of_nat_0_le_iff)
  next
    case False
    let ?k = "n - left"
    have "?k * PAGE \<le> n * PAGE" by (simp add: mult_le_mono1)
    then have k: "vs + ?k * PAGE \<le> KERNEL_AREA" "vd + ?k * PAGE \<le> KERNEL_AREA" using assms(3,4) by linarith+
    have pg: "\<forall>i < ?k. lookup m this (vs + i * PAGE) \<noteq> 0 \<and> lookup m dst (vd + i * PAGE) = 0" using assms(6) by simp
    obtain g m2 s2 m3 s3 T3 where 2: "unmap NoAllocator dst vd ?k m1 s1 = Some (g, m2, s2)" "restore_loop share this ?k vs m2 s2 = Some (m3, s3)" "nok s3 T3 P k" "pair_ok m3 this dst user T3"
      "\<forall>u. dirx u \<in> user \<longrightarrow> lookup m3 dst u = lookup m dst u \<and> PTE_FRAMENO (lookup m3 this u) = PTE_FRAMENO (lookup m this u)"
      using clone_undo [OF assms(1) 1(4,3,5) k pg] by blast
    have "ptbl_clone cur this dst vs vd n share m s = Some (- ENOMEM, m3, s3)" using 1(1) ne assms(5) False 2(1,2) by (auto simp: ptbl_clone_def)
    then show ?thesis using 2(3-5) by blast
  qed
qed

definition demo_mem :: ptmem where
  "demo_mem = (\<lambda>f i. if f = 700 \<and> i = 0 then mk_pte 702 0x207 else if f = 702 \<and> i = 8 then mk_pte 650 0x207 else 0)"

lemma demo_pair: "pair_ok demo_mem 700 703 A {700, 702, 703}"
proof -
  have b: "bit (mk_pte 702 0x207) 0" "bit (mk_pte 702 0x207) 9" "\<not> bit (mk_pte 702 0x207) 7" "bit (mk_pte 650 0x207) 9"
    using bit_mk_pte [of "0x207"] by (simp_all add: bit_simps)
  have d: "dir_ok demo_mem 700 A {700, 702, 703}"
    by (rule dir_okI) (use b in \<open>auto simp: demo_mem_def inj_on_def split: if_splits\<close>)
  have e: "dir_ok demo_mem 703 A {700, 702, 703}" by (simp add: dir_ok_def demo_mem_def)
  have "tabs demo_mem 703 A = {}" "tabs demo_mem 700 A \<subseteq> {702}" by (auto simp: tabs_def demo_mem_def split: if_splits)
  then show ?thesis using d e by (auto simp: pair_ok_def)
qed

lemma demo_nok: "nok demo_env {700, 702, 703} {} 0"
proof -
  have "low_pm (e_pm demo_env) [(700, KERN), (702, KERN), (703, KERN)]"
    by (simp add: low_pm_def holds_frames_def frames_ok_def demo_env_def bitmapStartFrame_def is_low_def)
  then show ?thesis by (auto simp: nok_def env_owns_def intro!: exI [of _ "[(700, KERN), (702, KERN), (703, KERN)]"])
qed

theorem clone_cow_witness:
  "\<exists>r m' s' T'. ptbl_clone 700 700 703 0x8000 0x8000 1 False demo_mem demo_env = Some (r, m', s') \<and> pair_ok m' 700 703 user T' \<and> (0 \<le> r \<or> r = - ENOMEM)"
proof -
  have "bit (mk_pte 702 0x207) 0" "bit (mk_pte 650 0x207) 0" using bit_mk_pte [of "0x207" 0] by (simp_all add: bit_simps)
  then have "mk_pte 702 0x207 \<noteq> 0" "mk_pte 650 0x207 \<noteq> 0" by auto
  then have "\<forall>i < (1 :: nat). lookup demo_mem 700 (0x8000 + i * PAGE) \<noteq> 0 \<and> lookup demo_mem 703 (0x8000 + i * PAGE) = 0"
    by (simp add: lookup_def demo_index) (simp add: demo_mem_def)
  then show ?thesis using clone_cow [OF demo_pair demo_nok, where vs = "0x8000" and vd = "0x8000" and n = 1 and cur = 700 and share = False] by auto
qed

section \<open>Counting pages\<close>

lemma sum_list_of_bool: "sum_list (map (\<lambda>i. if P i then (1 :: nat) else 0) [0..<n]) = card {i. i < n \<and> P i}"
proof (induction n)
  case (Suc n)
  have "{i. i < Suc n \<and> P i} = (if P n then insert n {i. i < n \<and> P i} else {i. i < n \<and> P i})" by (auto simp: less_Suc_eq)
  then show ?case using Suc by simp
qed simp

lemma sum_list_card: "sum_list (map (\<lambda>i. card (S i)) [0..<n]) = card {(i, j). i < n \<and> j \<in> S i}" if "\<And>i. finite (S i)" for S :: "nat \<Rightarrow> nat set"
proof -
  have "{(i, j). i < n \<and> j \<in> S i} = Sigma {..<n} S" by auto
  then have "card {(i, j). i < n \<and> j \<in> S i} = (\<Sum>i<n. card (S i))" using that by simp
  then show ?thesis by (simp add: interv_sum_list_conv_sum_set_nat atLeast0LessThan)
qed

lemma page_index: "i < 1024 \<Longrightarrow> j < 1024 \<Longrightarrow> dirx (i * 0x400000 + j * PAGE) = i \<and> tabx (i * 0x400000 + j * PAGE) = j"
proof -
  assume *: "i < 1024" "j < 1024"
  have "(i * 0x400000 + j * PAGE) div PAGE = i * 1024 + j" by (simp add: div_add1_eq)
  moreover have "(i * 0x400000 + j * PAGE) div 0x400000 = (i * 0x400000 + j * PAGE) div PAGE div 1024" by (simp add: div_mult2_eq [symmetric])
  ultimately show ?thesis using * unfolding dirx_def tabx_def by (simp del: fold_index)
qed

text \<open>\<open>getPageCount\<close>, which walks through the tables of the user, is the number of the present pages of the user.\<close>

theorem page_count_present:
  assumes "dir_ok m root user T"
  shows "getPageCount m root = card {(i, j). i < 768 \<and> j < 1024 \<and> isPresent m root (i * 0x400000 + j * PAGE)}"
proof -
  have r: "PTE_FRAMENO (mk_pte root 0) = root" using assms by (simp add: dir_ok_def)
  have k: "PT_IDX KERNEL_AREA 1 = 768" unfolding PT_IDX_def by (simp del: fold_index)
  have p: "isPresent m root (i * 0x400000 + j * PAGE) \<longleftrightarrow> bit (m root i) 0 \<and> bit (m (PTE_FRAMENO (m root i)) j) 0" if "i < 768" "j < 1024" for i j
  proof -
    have x: "dirx (i * 0x400000 + j * PAGE) = i" "tabx (i * 0x400000 + j * PAGE) = j" using page_index that by simp_all
    have "i \<in> user" using that by (simp add: user_def)
    then show ?thesis using getPTE_dir [OF assms, of "i * 0x400000 + j * PAGE"] dir_entry(1) [OF assms, of i] unfolding x isPresent_def by auto
  qed
  let ?S = "\<lambda>i. {j. j < 1024 \<and> bit (m root i) 0 \<and> bit (m (PTE_FRAMENO (m root i)) j) 0}"
  have two: "PT_LEVELS = Suc (Suc 0)" by simp
  have c1: "countEntries m (Suc 0) e = card {j. j < 1024 \<and> bit (m (PTE_FRAMENO e) j) 0}" for e
    using sum_list_of_bool [of "\<lambda>j. bit (m (PTE_FRAMENO e) j) 0" 1024] by (simp add: Let_def cong: if_cong)
  have c2: "countEntries m (Suc (Suc 0)) e = sum_list (map (\<lambda>i. if bit (m (PTE_FRAMENO e) i) 0 then countEntries m (Suc 0) (m (PTE_FRAMENO e) i) else 0) [0..<768])" for e
    using k by (subst countEntries.simps(2)) (simp add: Let_def del: countEntries.simps cong: if_cong)
  have "getPageCount m root = sum_list (map (\<lambda>i. if bit (m root i) 0 then card {j. j < 1024 \<and> bit (m (PTE_FRAMENO (m root i)) j) 0} else 0) [0..<768])"
    unfolding getPageCount_def two c2 r c1 ..
  also have "\<dots> = sum_list (map (\<lambda>i. card (?S i)) [0..<768])" by (intro arg_cong [where f = sum_list] map_cong) auto
  also have "\<dots> = card {(i, j). i < 768 \<and> j \<in> ?S i}" by (rule sum_list_card) simp
  also have "{(i, j). i < 768 \<and> j \<in> ?S i} = {(i, j). i < 768 \<and> j < 1024 \<and> isPresent m root (i * 0x400000 + j * PAGE)}" using p by auto
  finally show ?thesis .
qed

theorem page_count_present_witness: "getPageCount (\<lambda>_ _. 0) 700 = card {(i, j). i < 768 \<and> j < 1024 \<and> isPresent (\<lambda>_ _. 0) 700 (i * 0x400000 + j * PAGE)}"
  by (rule page_count_present [OF demo_dir])

section \<open>Kernel stacks and new directories\<close>

definition stacks :: "nat set" where
  "stacks = {1016..<1024}"

lemma stacks_dirx: "KSTACK_AREA \<le> v \<Longrightarrow> v < 2 ^ 32 \<Longrightarrow> dirx v \<in> stacks"
proof -
  assume "KSTACK_AREA \<le> v" "v < 2 ^ 32"
  then have "1016 \<le> v div 0x400000" "v div 0x400000 < 1024" by (simp_all add: less_mult_imp_div_less div_le_mono [of "0xFE001000" v "0x400000", simplified] del: fold_index)
  then show ?thesis unfolding dirx_def stacks_def by (simp del: fold_index)
qed

lemma kstack_loop_first:
  "\<forall>i < n. isPresent m root (v + i * PAGE) \<Longrightarrow> \<not> isPresent m root (v + n * PAGE) \<Longrightarrow> v + n * PAGE < 0xFFFFFFFF \<Longrightarrow> kstack_loop m root v = Some (v + n * PAGE)"
proof (induction n arbitrary: v)
  case 0
  then show ?case by (subst kstack_loop.simps) simp
next
  case (Suc n)
  have p: "isPresent m root v" using Suc.prems(1) by force
  have q: "isPresent m root (v + PAGE + i * PAGE)" if "i < n" for i using Suc.prems(1) that by (auto simp: add.assoc dest!: spec [of _ "Suc i"])
  have "kstack_loop m root (v + PAGE) = Some (v + PAGE + n * PAGE)" using Suc.prems(2,3) q by (intro Suc.IH) (simp_all add: add.assoc)
  then show ?case using p Suc.prems(3) by (subst kstack_loop.simps) (simp add: uadd_small add.assoc)
qed

lemma isPresent_lookup: "dir_ok m root A T \<Longrightarrow> dirx v \<in> A \<Longrightarrow> isPresent m root v = bit (lookup m root v) 0"
  by (simp add: isPresent_def getPTE_dir lookup_def)

lemma kacc_spare:
  assumes "kok s T P k" "kacc (free_frames s \<union> T \<union> P) s' T' (P \<union> Q) k'" "Q \<inter> P = {}"
  shows "free_frames s' \<union> T' \<union> Q = free_frames s \<union> T" "kok s' T' (P \<union> Q) k'"
proof -
  show u: "kok s' T' (P \<union> Q) k'" using assms(2) by (simp add: kacc_def)
  have "free_frames s' \<union> T' \<union> (P \<union> Q) = free_frames s \<union> T \<union> P" using assms(2) by (simp add: kacc_def)
  then show "free_frames s' \<union> T' \<union> Q = free_frames s \<union> T"
    using owns_disjoint u assms(1,3) unfolding kok_def by blast
qed

lemma kstack_map:
  assumes "dir_ok m root stacks T" "kok s T P k" "KSTACK_AREA \<le> a" "PAGE dvd a" "a + PAGE \<le> 2 ^ 32" "lookup m root a = 0"
  shows "\<exists>r m' s' T'. pt_map nxe KStackAllocator root a 1 (PG_PRESENT OR PG_WRITABLE OR PG_SUPERVISOR) m s = Some (r, m', s') \<and> dir_ok m' root stacks T' \<and> keeps root stacks m T m' T' \<and>
    (r = 0 \<and> (\<exists>f. f \<notin> P \<and> kok s' T' (insert f P) k \<and> free_frames s' \<union> T' \<union> {f} = free_frames s \<union> T \<and> mapped root stacks 0x203 m a [f] m') \<or>
     r = - ENOMEM \<and> (\<forall>u. dirx u \<in> stacks \<longrightarrow> lookup m' root u = lookup m root u) \<and>
       (\<exists>lost. lost_frame lost \<and> lost \<inter> P = {} \<and> kok s' T' (P \<union> lost) k \<and> free_frames s' \<union> T' \<union> lost = free_frames s \<union> T))"
proof -
  let ?fl = "PG_PRESENT OR PG_WRITABLE OR PG_SUPERVISOR" and ?U = "free_frames s \<union> T \<union> P"
  have fl: "has ?fl PG_PRESENT" "\<not> has ?fl PG_NOPAGES" by (simp_all add: bit_simps)
  have pf: "pte_flags nxe ?fl = 0x203" unfolding pte_flags_def push_63 by (simp add: bit_simps)
  have a: "a + 1 * PAGE \<le> 2 ^ 32" "a < 2 ^ 32" using assms(5) by simp_all
  have k: "kacc ?U s T P (1 + k)" using assms(2) by (simp add: kacc_def kok_def)
  have p: "dirx (a + j * PAGE) \<in> stacks" "lookup m root (a + j * PAGE) = 0" if "j < 1" for j using stacks_dirx [OF assms(3) a(2)] assms(6) that by simp_all
  obtain r m' s' T' where 1: "pt_map nxe KStackAllocator root a 1 ?fl m s = Some (r, m', s')" "dir_ok m' root stacks T'" "keeps root stacks m T m' T'"
    "r = 0 \<and> (\<exists>fs. length fs = 1 \<and> distinct fs \<and> set fs \<inter> P = {} \<and> 0 \<notin> set fs \<and> mapped root stacks 0x203 m a fs m' \<and> kacc ?U s' T' (P \<union> set fs) k) \<or>
     r = - ENOMEM \<and> (\<forall>u. dirx u \<in> stacks \<longrightarrow> lookup m' root u = lookup m root u) \<and> (\<exists>lost. lost_frame lost \<and> lost \<inter> P = {} \<and> kacc ?U s' T' (P \<union> lost) k)"
    using ka.map_maps [OF assms(1) k a assms(4) p fl, of nxe] unfolding pf by blast
  from 1(4) show ?thesis
  proof (elim disjE conjE exE)
    fix fs
    assume f: "r = 0" "length fs = 1" "set fs \<inter> P = {}" "mapped root stacks 0x203 m a fs m'" "kacc ?U s' T' (P \<union> set fs) k"
    then obtain f where fs: "fs = [f]" by (cases fs) auto
    have "free_frames s' \<union> T' \<union> {f} = free_frames s \<union> T \<and> kok s' T' (insert f P) k" using kacc_spare [OF assms(2) f(5,3)] fs by simp
    then show ?thesis using 1(1-3) f fs by (intro exI [of _ r] exI [of _ m'] exI [of _ s'] exI [of _ T']) auto
  next
    fix lost
    assume "r = - ENOMEM" "lost_frame lost" "lost \<inter> P = {}" "kacc ?U s' T' (P \<union> lost) k" "\<forall>u. dirx u \<in> stacks \<longrightarrow> lookup m' root u = lookup m root u"
    then show ?thesis using 1(1-3) kacc_spare [OF assms(2)] by blast
  qed
qed

text \<open>C37: When the first page from \<open>freeKStack\<close> on, inside the area of the kernel stacks, that is not present has no entry at all, and the physical memory is mapped directly as a
  whole, \<open>createKernelStack\<close> takes that page: it maps a frame there that was not in use and moves \<open>freeKStack\<close> behind it. Or there is no memory: then it returns 0, no
  page has changed, and \<open>freeKStack\<close> is 0x1000, outside of that area. Every frame is accounted for: what was free or a table is free or a table afterwards,
  or is the new stack, or, after a failure, the one frame that may get lost.\<close>

theorem kstack_first:
  assumes "dir_ok m (pd_root pd) stacks T" "kok s T P k" "KSTACK_AREA \<le> freeKStack pd" "PAGE dvd freeKStack pd" "freeKStack pd + Suc n * PAGE \<le> 2 ^ 32"
    "\<forall>i < n. isPresent m (pd_root pd) (freeKStack pd + i * PAGE)" "lookup m (pd_root pd) (freeKStack pd + n * PAGE) = 0"
  shows "\<exists>r pd' m' s' T'. createKernelStack nxe pd m s = Some (r, pd', m', s') \<and> pd_root pd' = pd_root pd \<and> dir_ok m' (pd_root pd) stacks T' \<and> keeps (pd_root pd) stacks m T m' T' \<and>
    (r = freeKStack pd + n * PAGE \<and> freeKStack pd' = uadd r PAGE \<and>
       (\<exists>f. f \<notin> P \<and> kok s' T' (insert f P) k \<and> free_frames s' \<union> T' \<union> {f} = free_frames s \<union> T \<and> mapped (pd_root pd) stacks 0x203 m r [f] m') \<or>
     r = 0 \<and> freeKStack pd' = 0x1000 \<and> (\<forall>u. dirx u \<in> stacks \<longrightarrow> lookup m' (pd_root pd) u = lookup m (pd_root pd) u) \<and>
       (\<exists>lost. lost_frame lost \<and> lost \<inter> P = {} \<and> kok s' T' (P \<union> lost) k \<and> free_frames s' \<union> T' \<union> lost = free_frames s \<union> T))"
proof -
  let ?a = "freeKStack pd + n * PAGE" and ?fl = "PG_PRESENT OR PG_WRITABLE OR PG_SUPERVISOR"
  have a: "?a + PAGE \<le> 2 ^ 32" "PAGE dvd ?a" "KSTACK_AREA \<le> ?a" using assms(3-5) by simp_all
  then have d: "dirx ?a \<in> stacks" using stacks_dirx [of ?a] by simp
  have np: "\<not> isPresent m (pd_root pd) ?a" using isPresent_lookup [OF assms(1) d] assms(7) by simp
  have loop: "kstack_loop m (pd_root pd) (freeKStack pd) = Some ?a" using assms(6) np a(1) by (intro kstack_loop_first) auto
  have i: "?a < KSTACK_AREA + KSTACK_AREA_SIZE - 1" using a(1) by simp
  obtain r m' s' T' where 1: "pt_map nxe KStackAllocator (pd_root pd) ?a 1 ?fl m s = Some (r, m', s')" "dir_ok m' (pd_root pd) stacks T'" "keeps (pd_root pd) stacks m T m' T'"
    "r = 0 \<and> (\<exists>f. f \<notin> P \<and> kok s' T' (insert f P) k \<and> free_frames s' \<union> T' \<union> {f} = free_frames s \<union> T \<and> mapped (pd_root pd) stacks 0x203 m ?a [f] m') \<or>
     r = - ENOMEM \<and> (\<forall>u. dirx u \<in> stacks \<longrightarrow> lookup m' (pd_root pd) u = lookup m (pd_root pd) u) \<and>
       (\<exists>lost. lost_frame lost \<and> lost \<inter> P = {} \<and> kok s' T' (P \<union> lost) k \<and> free_frames s' \<union> T' \<union> lost = free_frames s \<union> T)"
    using kstack_map [OF assms(1,2) a(3,2,1) assms(7), of nxe] by (elim exE conjE) (rule that)
  show ?thesis
  proof (cases "r = 0")
    case True
    then have "createKernelStack nxe pd m s = Some (?a, pd\<lparr>freeKStack := uadd ?a PAGE\<rparr>, m', s')" unfolding createKernelStack_def loop using 1(1) i by simp
    moreover have "r \<noteq> - ENOMEM" using True by simp
    ultimately have c: "createKernelStack nxe pd m s = Some (?a, pd\<lparr>freeKStack := uadd ?a PAGE\<rparr>, m', s')" "r \<noteq> - ENOMEM" by simp_all
    show ?thesis
      by (rule exI [of _ ?a], rule exI [of _ "pd\<lparr>freeKStack := uadd ?a PAGE\<rparr>"], rule exI [of _ m'], rule exI [of _ s'], rule exI [of _ T']) (use c 1(2-4) True in simp)
  next
    case False
    then have r: "r = - ENOMEM" using 1(4) by blast
    have c: "createKernelStack nxe pd m s = Some (0, pd\<lparr>freeKStack := 0x1000\<rparr>, m', s')" unfolding createKernelStack_def loop using 1(1) i by (simp add: r uadd_small)
    show ?thesis
      by (rule exI [of _ 0], rule exI [of _ "pd\<lparr>freeKStack := 0x1000\<rparr>"], rule exI [of _ m'], rule exI [of _ s'], rule exI [of _ T']) (use c 1(2-4) False in simp)
  qed
qed

lemma demo_kok: "kok demo_env {700} {} 0"
proof -
  have "low_pm (e_pm demo_env) [(700, KERN)]"
    by (simp add: low_pm_def holds_frames_def frames_ok_def demo_env_def bitmapStartFrame_def is_low_def)
  then show ?thesis by (auto simp: kok_def env_owns_def intro!: exI [of _ "[(700, KERN)]"])
qed

theorem kstack_first_witness:
  "\<exists>r pd' m' s' T'. createKernelStack False \<lparr>pd_root = 700, freeKStack = KSTACK_AREA\<rparr> (\<lambda>_ _. 0) demo_env = Some (r, pd', m', s') \<and> dir_ok m' 700 stacks T' \<and> r \<in> {0, KSTACK_AREA}"
proof -
  have "dir_ok (\<lambda>_ _. 0) (pd_root \<lparr>pd_root = 700, freeKStack = KSTACK_AREA\<rparr>) stacks {700}" using demo_dir by simp
  from kstack_first [OF this demo_kok, of 0 False] show ?thesis by (fastforce simp: lookup_def)
qed

text \<open>Frames that do not belong to a directory can change without any effect on it.\<close>

lemma dir_ok_other:
  assumes "dir_ok m root A T" "\<And>h. h \<in> T \<Longrightarrow> m' h = m h" "T \<subseteq> T'"
  shows "dir_ok m' root A T'" "tabs m' root A = tabs m root A" "dirx u \<in> A \<Longrightarrow> lookup m' root u = lookup m root u"
proof -
  have r: "root \<in> T" "m' root = m root" using assms(1,2) by (simp_all add: dir_ok_def)
  have te: "PTE_FRAMENO (m root i) \<in> T" if "i \<in> A" "m root i \<noteq> 0" for i using dir_entry(4) [OF assms(1) that] .
  show "dir_ok m' root A T'"
  proof (rule dir_okI)
    show "root < 2 ^ 20" "inj_on (\<lambda>i. PTE_FRAMENO (m' root i)) {i \<in> A. m' root i \<noteq> 0}" using assms(1) r by (simp_all add: dir_ok_def)
    fix i j
    assume i: "i \<in> A" "m' root i \<noteq> 0"
    then have i': "m root i \<noteq> 0" using r by simp
    show "bit (m' root i) 0 \<and> bit (m' root i) 9 \<and> \<not> bit (m' root i) 7 \<and> PTE_FRAMENO (m' root i) \<in> T' - {root}"
      using dir_entry(1-5) [OF assms(1) i(1) i'] r assms(3) by auto
    show "bit (m' (PTE_FRAMENO (m' root i)) j) 9" if "m' (PTE_FRAMENO (m' root i)) j \<noteq> 0"
      using dir_entry(6) [OF assms(1) i(1) i'] r assms(2) [OF te [OF i(1) i']] that by simp
  qed (use r assms(3) in auto)
  show "tabs m' root A = tabs m root A" using r by (simp add: tabs_def)
  show "dirx u \<in> A \<Longrightarrow> lookup m' root u = lookup m root u" using r assms(2) [OF te] by (auto simp: lookup_def)
qed

text \<open>What \<open>cloneKernelspace\<close> builds in the frames \<open>f\<close>, the directory, and \<open>g\<close>, the table with index \<open>x\<close> for the kernel stacks.\<close>

definition fresh_mem :: "ptmem \<Rightarrow> nat \<Rightarrow> nat \<Rightarrow> nat \<Rightarrow> nat \<Rightarrow> ptmem" where
  "fresh_mem m cur x f g = m(f := (\<lambda>i. if 768 \<le> i \<and> i < 1016 then m cur i else 0)(x := mk_pte g (PTE_PRESENT OR PTE_WRITABLE OR PTE_EXISTS)), g := (\<lambda>_. 0))"

lemma fresh_directory:
  assumes "dir_ok m cur user T" "f \<notin> T" "g \<notin> T" "g \<noteq> f" "f < 2 ^ 20" "g < 2 ^ 20" "1016 \<le> x" "x < 1024"
  defines "m' \<equiv> fresh_mem m cur x f g" and "T' \<equiv> insert g (insert f T)"
  shows "pair_ok m' cur f user T'" "dir_ok m' f stacks T'" "dirx u \<in> user \<union> stacks \<Longrightarrow> lookup m' f u = 0"
    "dirx u \<in> user \<Longrightarrow> lookup m' cur u = lookup m cur u" "768 \<le> i \<Longrightarrow> i < 1016 \<Longrightarrow> m' f i = m cur i"
proof -
  define e where "e = mk_pte g (PTE_PRESENT OR PTE_WRITABLE OR PTE_EXISTS)"
  have e: "PTE_FRAMENO e = g" "bit e 0" "bit e 9" "\<not> bit e 7"
    using assms(6) bit_mk_pte [of "PTE_PRESENT OR PTE_WRITABLE OR PTE_EXISTS"] by (simp_all add: e_def bit_simps)
  have mf: "m' f i = (if i = x then e else if 768 \<le> i \<and> i < 1016 then m cur i else 0)" "m' g = (\<lambda>_. 0)" for i
    using assms(4) by (simp_all add: m'_def fresh_mem_def e_def)
  have z: "m' f i = 0" if "i \<in> user" for i using that assms(7) by (simp add: mf user_def)
  have zs: "m' f i = (if i = x then e else 0)" if "i \<in> stacks" for i using that by (simp add: mf stacks_def)
  have mT: "m' h = m h" if "h \<in> T" for h using that assms(2,3) by (auto simp: m'_def fresh_mem_def)
  have TT: "T \<subseteq> T'" by (auto simp: T'_def)
  note cur = dir_ok_other [OF assms(1) mT TT]
  have "dir_ok m' f user T'" using assms(5) z by (auto simp: dir_ok_def T'_def inj_on_def)
  moreover have "tabs m' f user = {}" using z by (auto simp: tabs_def)
  moreover have "cur \<in> T" "tabs m cur user \<subseteq> T" using assms(1) tabs_T [OF assms(1)] by (auto simp: dir_ok_def)
  ultimately show "pair_ok m' cur f user T'" using cur assms(2) by (auto simp: pair_ok_def)
  show "dir_ok m' f stacks T'"
    by (rule dir_okI) (use assms(4,5) zs e in \<open>auto simp: mf(2) inj_on_def T'_def split: if_splits\<close>)
  show "lookup m' f u = 0" if "dirx u \<in> user \<union> stacks"
  proof (cases "m' f (dirx u) = 0")
    case False
    then have "m' f (dirx u) = e" using that z [of "dirx u"] zs [of "dirx u"] by (auto split: if_splits)
    then show ?thesis by (simp add: lookup_def mf(2) e(1))
  qed (simp add: lookup_def)
  show "dirx u \<in> user \<Longrightarrow> lookup m' cur u = lookup m cur u" by (rule cur(3))
  show "768 \<le> i \<Longrightarrow> i < 1016 \<Longrightarrow> m' f i = m cur i" using assms(7) by (simp add: mf)
qed

text \<open>C36: \<open>cloneKernelspace\<close>, in a physical memory that is mapped directly as a whole, returns. It fails with \<open>ENOMEM\<close>, and then no table has changed and exactly the same
  frames are free as before; or it takes two free frames, one for a new directory and one for its table of kernel stacks. The new directory shares nothing with
  the current one in the area of the user: it has no pages there, has the entries of the current one for the kernel, and no kernel stack is
  mapped. The pages of the current directory do not change, so that pages can be cloned into the new one.\<close>

theorem new_directory:
  assumes "dir_ok m cur user T" "low_pm pm own" "\<forall>f \<in> T. (f, KERN) \<in> set own" "KSTACK_AREA \<le> kstackAddr" "kstackAddr < 2 ^ 32"
  shows "\<exists>r d m' pm'. cloneKernelspace cur kstackAddr m pm = Some (r, d, m', pm') \<and>
    (r = - ENOMEM \<and> d = None \<and> m' = m \<and> low_pm pm' own \<and> frames (lower pm') = frames (lower pm) \<or>
     r = 0 \<and> (\<exists>pd st. d = Some pd \<and> frames (lower pm) = pd_root pd # st # frames (lower pm') \<and> low_pm pm' ((st, KERN) # (pd_root pd, KERN) # own) \<and> pair_ok m' cur (pd_root pd) user (insert st (insert (pd_root pd) T)) \<and>
       dir_ok m' (pd_root pd) stacks (insert st (insert (pd_root pd) T)) \<and> (\<forall>u. dirx u \<in> user \<union> stacks \<longrightarrow> lookup m' (pd_root pd) u = 0) \<and>
       (\<forall>u. dirx u \<in> user \<longrightarrow> lookup m' cur u = lookup m cur u) \<and> (\<forall>i. 768 \<le> i \<longrightarrow> i < 1016 \<longrightarrow> m' (pd_root pd) i = m cur i)))"
proof -
  obtain f pm1 where 1: "pm_allocate pm KERN = Some (f, pm1)" "if f = INVALID_FRAME then low_pm pm1 own else f \<notin> fst ` set own \<and> f \<noteq> 0 \<and> f < 2 ^ 20 \<and> low_pm pm1 ((f, KERN) # own)" "pm_takes pm f pm1"
    using low_alloc [OF assms(2)] by blast
  show ?thesis
  proof (cases "f = INVALID_FRAME")
    case True
    then show ?thesis using 1 by (auto simp: cloneKernelspace_def pm_takes_def)
  next
    case False
    then have f: "f \<notin> fst ` set own" "f < 2 ^ 20" "low_pm pm1 ((f, KERN) # own)" using 1(2) by simp_all
    obtain g pm2 where 2: "pm_allocate pm1 KERN = Some (g, pm2)" "if g = INVALID_FRAME then low_pm pm2 ((f, KERN) # own) else g \<notin> fst ` set ((f, KERN) # own) \<and> g \<noteq> 0 \<and> g < 2 ^ 20 \<and> low_pm pm2 ((g, KERN) # (f, KERN) # own)" "pm_takes pm1 g pm2"
      using low_alloc [OF f(3)] by blast
    show ?thesis
    proof (cases "g = INVALID_FRAME")
      case True
      then obtain pm3 where "pm_free pm2 f KERN = Some pm3" "low_pm pm3 own" "frames (lower pm3) = f # frames (lower pm2)" using low_free [of pm2 "(f, KERN) # own" f KERN] 2(2) by auto
      then show ?thesis using 1(1,3) 2(1,3) False True by (auto simp: cloneKernelspace_def pm_takes_def)
    next
      case g: False
      then have gg: "g \<notin> fst ` set own" "g \<noteq> f" "g < 2 ^ 20" "low_pm pm2 ((g, KERN) # (f, KERN) # own)" using 2(2) by auto
      have T: "f \<notin> T" "g \<notin> T" using assms(3) f(1) gg(1) by force+
      have x: "1016 \<le> dirx kstackAddr" "dirx kstackAddr < 1024" using stacks_dirx [OF assms(4,5)] by (simp_all add: stacks_def)
      have ix: "dirx KERNEL_AREA = 768" "dirx KSTACK_AREA = 1016" unfolding dirx_def by (simp_all del: fold_index)
      have r: "cloneKernelspace cur kstackAddr m pm = Some (0, Some \<lparr>pd_root = f, freeKStack = (if kstackAddr = KSTACK_AREA then KSTACK_AREA + PAGE else KSTACK_AREA)\<rparr>,
          fresh_mem m cur (dirx kstackAddr) f g, pm2)"
        unfolding cloneKernelspace_def Let_def using 1(1) 2(1) False g by (simp add: fresh_mem_def ix)
      have fr: "frames (lower pm) = f # g # frames (lower pm2)" using 1(3) 2(3) False g by (simp add: pm_takes_def)
      then show ?thesis using r gg(4) fresh_directory [OF assms(1) T gg(2) f(2) gg(3) x] by auto
    qed
  qed
qed

theorem new_directory_witness:
  "\<exists>r d m' pm'. cloneKernelspace 700 KSTACK_AREA (\<lambda>_ _. 0) (e_pm demo_env) = Some (r, d, m', pm') \<and> r \<in> {0, - ENOMEM}"
proof -
  have "low_pm (e_pm demo_env) [(700, KERN)]"
    by (simp add: low_pm_def holds_frames_def frames_ok_def demo_env_def bitmapStartFrame_def is_low_def)
  from new_directory [OF demo_dir this, of KSTACK_AREA] show ?thesis by auto
qed

section \<open>Deviations\<close>

text \<open>A page that was read-only, as one that is shared for copy-on-write, is writable after a \<open>clone\<close> that fails, and no longer accessible for the user.\<close>

lemma clone_error_writable:
  assumes "restored False this A m vs n m'" "dirx u \<in> A" "in_range u vs n" "bit (lookup m this u) 0"
  shows "bit (lookup m' this u) 1" "\<not> bit (lookup m' this u) 2"
  using assms bit_mk_pte [of "0x203" 1] bit_mk_pte [of "0x203" 2] by (simp_all add: restored_def bit_simps)

text \<open>\<open>crtPageTable\<close> looks for \<open>PG_SUPERVISOR\<close> in the flags of an entry, which never have it: the tables of the kernel are made accessible for the user.\<close>

lemma supervisor_lost: "\<not> has (pte_flags nxe flags) PG_SUPERVISOR"
  unfolding pte_flags_def push_63 by (simp add: bit_simps)

text \<open>When there is no memory for a kernel stack, the search for the next one starts in the area of the user.\<close>

lemma kstack_error_user:
  assumes "kstack_loop m (pd_root pd) (freeKStack pd) = Some a" "a < 0xFFFFFFFF" "pt_map nxe KStackAllocator (pd_root pd) a 1 (PG_PRESENT OR PG_WRITABLE OR PG_SUPERVISOR) m s = Some (- ENOMEM, m', s')"
  shows "createKernelStack nxe pd m s = Some (0, pd\<lparr>freeKStack := PAGE\<rparr>, m', s')"
  using assms(2,3) unfolding createKernelStack_def assms(1) by (simp add: uadd_small)

text \<open>The search also goes on at the address 0 when all kernel stacks are in use.\<close>

lemma kstack_wraps: "isPresent m root 0xFFFFF000 \<Longrightarrow> kstack_loop m root 0xFFFFF000 = kstack_loop m root 0"
  by (subst kstack_loop.simps) (simp add: uadd_def)

text \<open>The last table of the kernel stacks is not freed with the directory.\<close>

lemma destroy_last_table: "[PT_IDX KSTACK_AREA 1..<PT_IDX (KSTACK_AREA + KSTACK_AREA_SIZE - 1) 1] = [1016..<1023]" "dirx 0xFFC00000 = 1023"
  unfolding PT_IDX_def dirx_def by (simp_all del: fold_index)

text \<open>An empty page table stays when the range ends at the area of the kernel.\<close>

lemma unmap_keeps_last_table:
  assumes "dir_ok m root user T" "unmap al root (KERNEL_AREA - PAGE) 1 m s = Some (r, m', s')"
  shows "m' root = m root"
proof -
  have v: "dirx (KERNEL_AREA - PAGE) \<in> user" using user_dirx [of "KERNEL_AREA - PAGE"] by simp
  have u: "uadd (KERNEL_AREA - PAGE) PAGE = KERNEL_AREA" by (simp add: uadd_small)
  have "\<not> gc_area KERNEL_AREA" by (simp add: gc_area_def)
  then obtain f where f: "unmapPage root (KERNEL_AREA - PAGE) m = Some (f, m')"
    using assms(2) u by (auto simp: unmap_def Let_def split: Option.bind_splits if_splits)
  then show ?thesis using dir_entry(5) [OF assms(1) v] getPTE_dir [OF assms(1) v] by (auto simp: unmapPage_def split: if_splits Option.bind_splits)
qed

end
