(* ===== verification/Treap.thy ===== *)
theory Treap
  imports Prelude "HOL-Library.Tree"
begin

text \<open>
  The treap of \<open>include/ask/col/treap.h\<close>, in which the kernel keeps the regions of a process, the files that processes
  share and the semaphores of files. The nodes lie in a store from addresses to their fields; a variable of
  type \<open>node_t **\<close> is a location: the root of the treap or a field of a node. The store is related to trees of addresses, for which
  insertion and removal are functions; the locale \<open>index\<close> is what clients of a treap rely on.
\<close>

section \<open>Definitions\<close>

record 'k TreapNode =
  tkey :: 'k
  tprio :: int
  tleft :: addr
  tright :: addr

record 'k treap =
  troot :: addr
  nextprio :: int
  tnodes :: "addr \<rightharpoonup> 'k TreapNode"

datatype tloc = TRoot | TLeft addr | TRight addr

fun trd :: "'k treap \<Rightarrow> tloc \<Rightarrow> addr option" where
  "trd t TRoot = Some (troot t)"
| "trd t (TLeft a) = map_option tleft (tnodes t a)"
| "trd t (TRight a) = map_option tright (tnodes t a)"

fun twr :: "'k treap \<Rightarrow> tloc \<Rightarrow> addr \<Rightarrow> 'k treap option" where
  "twr t TRoot v = Some (t\<lparr>troot := v\<rparr>)"
| "twr t (TLeft a) v = do { n \<leftarrow> tnodes t a; Some (t\<lparr>tnodes := (tnodes t)(a \<mapsto> n\<lparr>tleft := v\<rparr>)\<rparr>) }"
| "twr t (TRight a) v = do { n \<leftarrow> tnodes t a; Some (t\<lparr>tnodes := (tnodes t)(a \<mapsto> n\<lparr>tright := v\<rparr>)\<rparr>) }"

definition new_node :: "'k \<Rightarrow> 'k TreapNode" where
  "new_node k = \<lparr>tkey = k, tprio = 0, tleft = 0, tright = 0\<rparr>"

definition treap_clear :: "'k treap \<Rightarrow> 'k treap" where
  "treap_clear t = t\<lparr>troot := 0, nextprio := 314159265\<rparr>"

text \<open>The method \<open>matches\<close> is virtual, hence an argument; this is the one of \<open>TreapNode\<close> itself.\<close>

definition key_matches :: "'k treap \<Rightarrow> addr \<Rightarrow> 'k \<Rightarrow> bool option" where
  "key_matches t a k = map_option (\<lambda>n. tkey n = k) (tnodes t a)"

partial_function (option) find_from ::
    "(addr \<Rightarrow> 'k::linorder \<Rightarrow> bool option) \<Rightarrow> 'k treap \<Rightarrow> 'k \<Rightarrow> addr \<Rightarrow> addr option" where
  "find_from matches t k p =
     (if p = 0 then Some 0
      else do {
        b \<leftarrow> matches p k;
        if b then Some p
        else do { n \<leftarrow> tnodes t p; find_from matches t k (if k < tkey n then tleft n else tright n) } })"

definition treap_find :: "(addr \<Rightarrow> 'k::linorder \<Rightarrow> bool option) \<Rightarrow> 'k treap \<Rightarrow> 'k \<Rightarrow> addr option" where
  "treap_find matches t k = find_from matches t k (troot t)"

text \<open>The first loop of \<open>insert\<close> goes down to the first node whose priority is not smaller, the second one splits the tree there.\<close>

partial_function (option) insert_pos ::
    "'k::linorder treap \<Rightarrow> 'k \<Rightarrow> addr \<Rightarrow> tloc \<Rightarrow> (addr \<times> tloc) option" where
  "insert_pos t k p q =
     (if p = 0 then Some (p, q)
      else do {
        n \<leftarrow> tnodes t p;
        if tprio n < nextprio t then do {
          let q' = (if k < tkey n then TLeft p else TRight p);
          p' \<leftarrow> trd t q';
          insert_pos t k p' q' }
        else Some (p, q) })"

partial_function (option) split_loop ::
    "'k::linorder treap \<Rightarrow> 'k \<Rightarrow> addr \<Rightarrow> tloc \<Rightarrow> tloc \<Rightarrow> 'k treap option" where
  "split_loop t k p l r =
     (if p = 0 then do { t1 \<leftarrow> twr t r 0; twr t1 l 0 }
      else do {
        n \<leftarrow> tnodes t p;
        if k < tkey n then do {
          t1 \<leftarrow> twr t r p;
          p' \<leftarrow> trd t1 (TLeft p);
          split_loop t1 k p' l (TLeft p) }
        else do {
          t1 \<leftarrow> twr t l p;
          p' \<leftarrow> trd t1 (TRight p);
          split_loop t1 k p' (TRight p) r } })"

definition treap_insert :: "'k::linorder treap \<Rightarrow> addr \<Rightarrow> 'k treap option" where
  "treap_insert t node = do {
     nd \<leftarrow> tnodes t node;
     (p, q) \<leftarrow> insert_pos t (tkey nd) (troot t) TRoot;
     t1 \<leftarrow> twr t q node;
     nd1 \<leftarrow> tnodes t1 node;
     let t2 = t1\<lparr>tnodes := (tnodes t1)(node \<mapsto> nd1\<lparr>tprio := nextprio t1\<rparr>), nextprio := int32 (nextprio t1 + 0x9e3779b9)\<rparr>;
     split_loop t2 (tkey nd) p (TLeft node) (TRight node) }"

partial_function (option) remove_pos :: "'k::linorder treap \<Rightarrow> addr \<Rightarrow> tloc \<Rightarrow> tloc option" where
  "remove_pos t node p = do {
     c \<leftarrow> trd t p;
     if c \<noteq> 0 \<and> c \<noteq> node then do {
       nd \<leftarrow> tnodes t node;
       n \<leftarrow> tnodes t c;
       remove_pos t node (if tkey nd < tkey n then TLeft c else TRight c) }
     else Some p }"

partial_function (option) remove_from :: "'k treap \<Rightarrow> tloc \<Rightarrow> addr \<Rightarrow> 'k treap option" where
  "remove_from t p node = do {
     nd \<leftarrow> tnodes t node;
     if tleft nd \<noteq> 0 \<and> tright nd \<noteq> 0 then do {
       ln \<leftarrow> tnodes t (tleft nd);
       rn \<leftarrow> tnodes t (tright nd);
       if tprio ln < tprio rn then do {
         let x = tleft nd;
         t1 \<leftarrow> twr t (TLeft node) (tright ln);
         t2 \<leftarrow> twr t1 (TRight x) node;
         t3 \<leftarrow> twr t2 p x;
         remove_from t3 (TRight x) node }
       else do {
         let x = tright nd;
         t1 \<leftarrow> twr t (TRight node) (tleft rn);
         t2 \<leftarrow> twr t1 (TLeft x) node;
         t3 \<leftarrow> twr t2 p x;
         remove_from t3 (TLeft x) node } }
     else if tleft nd \<noteq> 0 then twr t p (tleft nd)
     else if tright nd \<noteq> 0 then twr t p (tright nd)
     else twr t p 0 }"

definition treap_remove :: "'k::linorder treap \<Rightarrow> addr \<Rightarrow> 'k treap option" where
  "treap_remove t node = do {
     p \<leftarrow> remove_pos t node TRoot;
     c \<leftarrow> trd t p;
     vassert (c = node);
     remove_from t p node }"

section \<open>Trees of nodes\<close>

text \<open>The tree \<open>T\<close> of addresses lies below \<open>p\<close>. Its locations are the fields of its nodes.\<close>

fun tree_at :: "'k treap \<Rightarrow> addr \<Rightarrow> addr tree \<Rightarrow> bool" where
  "tree_at t p Leaf \<longleftrightarrow> p = 0"
| "tree_at t p (Node l a r) \<longleftrightarrow> p = a \<and> a \<noteq> 0 \<and>
     (case tnodes t a of None \<Rightarrow> False | Some n \<Rightarrow> tree_at t (tleft n) l \<and> tree_at t (tright n) r)"

definition tlocs :: "addr tree \<Rightarrow> tloc set" where
  "tlocs T = TLeft ` set_tree T \<union> TRight ` set_tree T"

fun uniq :: "'a tree \<Rightarrow> bool" where
  "uniq Leaf \<longleftrightarrow> True"
| "uniq (Node l a r) \<longleftrightarrow> a \<notin> set_tree l \<and> a \<notin> set_tree r \<and> set_tree l \<inter> set_tree r = {} \<and> uniq l \<and> uniq r"

definition kof :: "'k treap \<Rightarrow> addr \<Rightarrow> 'k" where
  "kof t a = tkey (the (tnodes t a))"

definition pof :: "'k treap \<Rightarrow> addr \<Rightarrow> int" where
  "pof t a = tprio (the (tnodes t a))"

text \<open>Two treaps that differ at most in the pointers at the locations \<open>S\<close>.\<close>

definition same_but :: "tloc set \<Rightarrow> 'k treap \<Rightarrow> 'k treap \<Rightarrow> bool" where
  "same_but S t t' \<longleftrightarrow> dom (tnodes t') = dom (tnodes t) \<and> nextprio t' = nextprio t \<and> kof t' = kof t \<and> pof t' = pof t \<and>
     (\<forall>q. q \<notin> S \<longrightarrow> trd t' q = trd t q)"
lemma tlocs_simps [simp]:
  "tlocs Leaf = {}" "tlocs (Node l a r) = insert (TLeft a) (insert (TRight a) (tlocs l \<union> tlocs r))"
  by (auto simp: tlocs_def)

lemma tlocs_iff [simp]: "TLeft a \<in> tlocs T \<longleftrightarrow> a \<in> set_tree T" "TRight a \<in> tlocs T \<longleftrightarrow> a \<in> set_tree T" "TRoot \<notin> tlocs T"
  by (auto simp: tlocs_def)

lemma tlocs_disjoint: "set_tree T \<inter> set_tree U = {} \<Longrightarrow> tlocs T \<inter> tlocs U = {}"
  by (auto simp: tlocs_def)

lemma trd_dom: "trd t (TLeft a) \<noteq> None \<longleftrightarrow> a \<in> dom (tnodes t)" "trd t (TRight a) \<noteq> None \<longleftrightarrow> a \<in> dom (tnodes t)"
  by auto

lemma tree_at_Node: "tree_at t p (Node l a r) \<longleftrightarrow> p = a \<and> a \<noteq> 0 \<and>
    (\<exists>x y. trd t (TLeft a) = Some x \<and> trd t (TRight a) = Some y \<and> tree_at t x l \<and> tree_at t y r)"
  by (auto split: option.splits)

declare tree_at.simps(2) [simp del]

lemma tree_at_dom: "tree_at t p T \<Longrightarrow> set_tree T \<subseteq> dom (tnodes t)"
proof (induction T arbitrary: p)
  case (Node l a r)
  then obtain x y where "trd t (TLeft a) = Some x" "tree_at t x l" "tree_at t y r" unfolding tree_at_Node by blast
  then show ?case using Node.IH trd_dom(1) [of t a] by auto
qed simp

lemma tree_at_nonzero: "tree_at t p T \<Longrightarrow> 0 \<notin> set_tree T"
  by (induction T arbitrary: p) (auto simp: tree_at_Node)

lemma tree_at_cong: "same_but S t t' \<Longrightarrow> S \<inter> tlocs T = {} \<Longrightarrow> tree_at t p T \<Longrightarrow> tree_at t' p T"
proof (induction T arbitrary: p)
  case (Node l a r)
  have "trd t' q = trd t q" if "q \<in> {TLeft a, TRight a}" for q using Node.prems(1,2) that by (auto simp: same_but_def)
  then have "trd t' (TLeft a) = trd t (TLeft a)" "trd t' (TRight a) = trd t (TRight a)" by blast+
  moreover have "S \<inter> tlocs l = {}" "S \<inter> tlocs r = {}" using Node.prems(2) by auto
  ultimately show ?case using Node.IH [OF Node.prems(1)] Node.prems(3) unfolding tree_at_Node by auto
qed simp

lemma same_but_refl [simp]: "same_but S t t"
  by (simp add: same_but_def)

lemma same_but_trans: "same_but S t t' \<Longrightarrow> same_but S t' t'' \<Longrightarrow> same_but S t t''"
  by (simp add: same_but_def)

lemma same_but_mono: "same_but S t t' \<Longrightarrow> S \<subseteq> S' \<Longrightarrow> same_but S' t t'"
  by (auto simp: same_but_def)

lemma same_butD:
  assumes "same_but S t t'"
  shows "kof t' = kof t" "pof t' = pof t" "nextprio t' = nextprio t" "dom (tnodes t') = dom (tnodes t)"
    "q \<notin> S \<Longrightarrow> trd t' q = trd t q" "trd t' q \<noteq> None \<longleftrightarrow> trd t q \<noteq> None"
proof -
  show "trd t' q \<noteq> None \<longleftrightarrow> trd t q \<noteq> None" using assms by (cases q) (auto simp: same_but_def)
qed (use assms in \<open>auto simp: same_but_def\<close>)

lemma twr_ok:
  assumes "trd t q \<noteq> None"
  obtains t' where "twr t q v = Some t'" "same_but {q} t t'" "trd t' q = Some v"
proof (cases q)
  case (TLeft a)
  obtain n where n: "tnodes t a = Some n" using assms TLeft by auto
  have "trd (t\<lparr>tnodes := (tnodes t)(a \<mapsto> n\<lparr>tleft := v\<rparr>)\<rparr>) x = trd t x" if "x \<noteq> q" for x using that n TLeft by (cases x) auto
  then have "same_but {q} t (t\<lparr>tnodes := (tnodes t)(a \<mapsto> n\<lparr>tleft := v\<rparr>)\<rparr>)"
    unfolding same_but_def kof_def pof_def fun_eq_iff using n TLeft by auto
  then show ?thesis using that n TLeft by simp
next
  case (TRight a)
  obtain n where n: "tnodes t a = Some n" using assms TRight by auto
  have "trd (t\<lparr>tnodes := (tnodes t)(a \<mapsto> n\<lparr>tright := v\<rparr>)\<rparr>) x = trd t x" if "x \<noteq> q" for x using that n TRight by (cases x) auto
  then have "same_but {q} t (t\<lparr>tnodes := (tnodes t)(a \<mapsto> n\<lparr>tright := v\<rparr>)\<rparr>)"
    unfolding same_but_def kof_def pof_def fun_eq_iff using n TRight by auto
  then show ?thesis using that n TRight by simp
next
  case TRoot
  have "trd (t\<lparr>troot := v\<rparr>) x = trd t x" if "x \<noteq> q" for x using that TRoot by (cases x) auto
  then have "same_but {q} t (t\<lparr>troot := v\<rparr>)" unfolding same_but_def kof_def pof_def by auto
  then show ?thesis using that TRoot by simp
qed

declare trd.simps(2,3) [simp del]

section \<open>Insertion\<close>

fun fsplit :: "('a \<Rightarrow> 'k::linorder) \<Rightarrow> 'k \<Rightarrow> 'a tree \<Rightarrow> 'a tree \<times> 'a tree" where
  "fsplit key k Leaf = (Leaf, Leaf)"
| "fsplit key k (Node l a r) =
     (if k < key a then (case fsplit key k l of (x, y) \<Rightarrow> (x, Node y a r))
      else (case fsplit key k r of (x, y) \<Rightarrow> (Node l a x, y)))"

fun fins :: "('a \<Rightarrow> 'k::linorder) \<Rightarrow> ('a \<Rightarrow> int) \<Rightarrow> 'k \<Rightarrow> int \<Rightarrow> 'a \<Rightarrow> 'a tree \<Rightarrow> 'a tree" where
  "fins key prio k pr z Leaf = Node Leaf z Leaf"
| "fins key prio k pr z (Node l a r) =
     (if prio a < pr then (if k < key a then Node (fins key prio k pr z l) a r else Node l a (fins key prio k pr z r))
      else (case fsplit key k (Node l a r) of (x, y) \<Rightarrow> Node x z y))"

lemma trd_node: "a \<in> dom (tnodes t) \<Longrightarrow> \<exists>n. tnodes t a = Some n \<and> tkey n = kof t a \<and> tprio n = pof t a"
  by (auto simp: kof_def pof_def)

lemma split_loop_ok:
  assumes "tree_at t p T" "uniq T" "l \<notin> tlocs T" "r \<notin> tlocs T" "l \<noteq> r" "trd t l \<noteq> None" "trd t r \<noteq> None"
  shows "\<exists>t' x y. split_loop t k p l r = Some t' \<and> same_but (insert l (insert r (tlocs T))) t t' \<and>
    trd t' l = Some x \<and> tree_at t' x (fst (fsplit (kof t) k T)) \<and> trd t' r = Some y \<and> tree_at t' y (snd (fsplit (kof t) k T))"
  using assms
proof (induction T arbitrary: t p l r)
  case Leaf
  obtain t1 where t1: "twr t r 0 = Some t1" "same_but {r} t t1" "trd t1 r = Some 0" using twr_ok Leaf.prems(7) by blast
  have "trd t1 l \<noteq> None" using same_butD(6) [OF t1(2), of l] Leaf.prems(6) by simp
  then obtain t2 where t2: "twr t1 l 0 = Some t2" "same_but {l} t1 t2" "trd t2 l = Some 0" using twr_ok by blast
  have "trd t2 r = Some 0" using same_butD(5) [OF t2(2)] t1(3) Leaf.prems(5) by simp
  moreover have "same_but {l, r} t t2" by (rule same_but_trans [OF same_but_mono [OF t1(2)] same_but_mono [OF t2(2)]]) auto
  ultimately show ?case using Leaf.prems t1 t2 by (subst split_loop.simps) simp
next
  case (Node tl a tr)
  obtain u v where a: "p = a" "a \<noteq> 0" "trd t (TLeft a) = Some u" "trd t (TRight a) = Some v" "tree_at t u tl" "tree_at t v tr"
    using Node.prems(1) unfolding tree_at_Node by blast
  obtain n where n: "tnodes t a = Some n" "tkey n = kof t a" using trd_node [of a t] a(3) trd_dom(1) [of t a] by auto
  note nots = Node.prems(2-5)
  show ?case
  proof (cases "k < kof t a")
    case True
    obtain t1 where t1: "twr t r a = Some t1" "same_but {r} t t1" "trd t1 r = Some a" using twr_ok Node.prems(7) by blast
    have u: "trd t1 (TLeft a) = Some u" "trd t1 (TRight a) = Some v" using same_butD(5) [OF t1(2)] a(3,4) nots by auto
    have at: "tree_at t1 u tl" "tree_at t1 v tr" using tree_at_cong [OF t1(2)] a(5,6) nots by auto
    have "\<exists>t' x y. split_loop t1 k u l (TLeft a) = Some t' \<and> same_but (insert l (insert (TLeft a) (tlocs tl))) t1 t' \<and>
      trd t' l = Some x \<and> tree_at t' x (fst (fsplit (kof t1) k tl)) \<and> trd t' (TLeft a) = Some y \<and> tree_at t' y (snd (fsplit (kof t1) k tl))"
      using Node.IH(1) [OF at(1), of l "TLeft a"] nots u same_butD(6) [OF t1(2)] Node.prems(6) by auto
    then obtain t' x y where i: "split_loop t1 k u l (TLeft a) = Some t'" "same_but (insert l (insert (TLeft a) (tlocs tl))) t1 t'"
      "trd t' l = Some x" "tree_at t' x (fst (fsplit (kof t) k tl))" "trd t' (TLeft a) = Some y" "tree_at t' y (snd (fsplit (kof t) k tl))"
      using same_butD(1) [OF t1(2)] by auto
    have "trd t' r = Some a" "trd t' (TRight a) = Some v" using same_butD(5) [OF i(2)] t1(3) u(2) nots by auto
    moreover have "tree_at t' v tr" using tree_at_cong [OF i(2) _ at(2)] nots tlocs_disjoint [of tl tr] by auto
    moreover have "same_but (insert l (insert r (tlocs (Node tl a tr)))) t t'"
      by (rule same_but_trans [OF same_but_mono [OF t1(2)] same_but_mono [OF i(2)]]) auto
    moreover have "split_loop t k p l r = Some t'" using a n True t1 u i(1) by (subst split_loop.simps) simp
    ultimately show ?thesis using i True a(2) by (simp add: case_prod_unfold tree_at_Node)
  next
    case False
    obtain t1 where t1: "twr t l a = Some t1" "same_but {l} t t1" "trd t1 l = Some a" using twr_ok Node.prems(6) by blast
    have u: "trd t1 (TLeft a) = Some u" "trd t1 (TRight a) = Some v" using same_butD(5) [OF t1(2)] a(3,4) nots by auto
    have at: "tree_at t1 u tl" "tree_at t1 v tr" using tree_at_cong [OF t1(2)] a(5,6) nots by auto
    have "\<exists>t' x y. split_loop t1 k v (TRight a) r = Some t' \<and> same_but (insert (TRight a) (insert r (tlocs tr))) t1 t' \<and>
      trd t' (TRight a) = Some x \<and> tree_at t' x (fst (fsplit (kof t1) k tr)) \<and> trd t' r = Some y \<and> tree_at t' y (snd (fsplit (kof t1) k tr))"
      using Node.IH(2) [OF at(2), of "TRight a" r] nots u same_butD(6) [OF t1(2)] Node.prems(7) by auto
    then obtain t' x y where i: "split_loop t1 k v (TRight a) r = Some t'" "same_but (insert (TRight a) (insert r (tlocs tr))) t1 t'"
      "trd t' (TRight a) = Some x" "tree_at t' x (fst (fsplit (kof t) k tr))" "trd t' r = Some y" "tree_at t' y (snd (fsplit (kof t) k tr))"
      using same_butD(1) [OF t1(2)] by auto
    have "trd t' l = Some a" "trd t' (TLeft a) = Some u" using same_butD(5) [OF i(2)] t1(3) u(1) nots by auto
    moreover have "tree_at t' u tl" using tree_at_cong [OF i(2) _ at(1)] nots tlocs_disjoint [of tl tr] by auto
    moreover have "same_but (insert l (insert r (tlocs (Node tl a tr)))) t t'"
      by (rule same_but_trans [OF same_but_mono [OF t1(2)] same_but_mono [OF i(2)]]) auto
    moreover have "split_loop t k p l r = Some t'" using a n False t1 u i(1) by (subst split_loop.simps) simp
    ultimately show ?thesis using i False a(2) by (simp add: case_prod_unfold tree_at_Node)
  qed
qed

lemma tree_at_cong': "(\<And>q. q \<in> tlocs T \<Longrightarrow> trd t' q = trd t q) \<Longrightarrow> tree_at t p T \<Longrightarrow> tree_at t' p T"
proof (induction T arbitrary: p)
  case (Node l a r)
  have "trd t' (TLeft a) = trd t (TLeft a)" "trd t' (TRight a) = trd t (TRight a)" using Node.prems(1) by simp_all
  then show ?case using Node unfolding tree_at_Node by auto
qed simp

text \<open>The part of \<open>insert\<close> behind its first loop.\<close>

definition insert_rest :: "'k::linorder treap \<Rightarrow> 'k \<Rightarrow> addr \<Rightarrow> addr \<times> tloc \<Rightarrow> 'k treap option" where
  "insert_rest t k node = (\<lambda>(p, q). do {
     t1 \<leftarrow> twr t q node;
     nd1 \<leftarrow> tnodes t1 node;
     let t2 = t1\<lparr>tnodes := (tnodes t1)(node \<mapsto> nd1\<lparr>tprio := nextprio t1\<rparr>), nextprio := int32 (nextprio t1 + 0x9e3779b9)\<rparr>;
     split_loop t2 k p (TLeft node) (TRight node) })"

text \<open>What an insertion changes: pointers at \<open>S\<close>, the priority of the node, and the next priority.\<close>

definition ins_frame :: "tloc set \<Rightarrow> addr \<Rightarrow> 'k treap \<Rightarrow> 'k treap \<Rightarrow> bool" where
  "ins_frame S node t t' \<longleftrightarrow> dom (tnodes t') = dom (tnodes t) \<and> nextprio t' = int32 (nextprio t + 0x9e3779b9) \<and> kof t' = kof t \<and>
     pof t' = (pof t)(node := nextprio t) \<and> (\<forall>q. q \<notin> S \<longrightarrow> trd t' q = trd t q)"

lemma insert_rest_ok:
  assumes "tree_at t p T" "uniq T" "q \<notin> tlocs T" "trd t q \<noteq> None" "node \<in> dom (tnodes t)" "node \<notin> set_tree T" "node \<noteq> 0"
    "q \<noteq> TLeft node" "q \<noteq> TRight node"
  shows "\<exists>t'. insert_rest t k node (p, q) = Some t' \<and> ins_frame (insert q (insert (TLeft node) (insert (TRight node) (tlocs T)))) node t t' \<and>
    trd t' q = Some node \<and> tree_at t' node (case fsplit (kof t) k T of (x, y) \<Rightarrow> Node x node y)"
proof -
  obtain t1 where t1: "twr t q node = Some t1" "same_but {q} t t1" "trd t1 q = Some node" using twr_ok assms(4) by blast
  obtain nd where nd: "tnodes t1 node = Some nd" using same_butD(4) [OF t1(2)] assms(5) by (metis domD)
  define t2 where "t2 = t1\<lparr>tnodes := (tnodes t1)(node \<mapsto> nd\<lparr>tprio := nextprio t1\<rparr>), nextprio := int32 (nextprio t1 + 0x9e3779b9)\<rparr>"
  have r2: "trd t2 x = trd t1 x" for x by (cases x) (simp_all add: t2_def nd trd.simps)
  have k2: "kof t2 = kof t" "pof t2 = (pof t)(node := nextprio t)" "nextprio t2 = int32 (nextprio t + 0x9e3779b9)" "dom (tnodes t2) = dom (tnodes t)"
  proof -
    have "kof t2 = kof t1" "pof t2 = (pof t1)(node := nextprio t1)" "dom (tnodes t2) = dom (tnodes t1)"
      using nd by (auto simp: fun_eq_iff t2_def kof_def pof_def)
    then show "kof t2 = kof t" "pof t2 = (pof t)(node := nextprio t)" "nextprio t2 = int32 (nextprio t + 0x9e3779b9)" "dom (tnodes t2) = dom (tnodes t)"
      using same_butD(1-4) [OF t1(2)] by (simp_all add: t2_def)
  qed
  have "trd t2 x = trd t x" if "x \<in> tlocs T" for x using same_butD(5) [OF t1(2), of x] that assms(3) r2 by auto
  then have at: "tree_at t2 p T" using tree_at_cong' assms(1) by blast
  have n: "trd t2 (TLeft node) \<noteq> None" "trd t2 (TRight node) \<noteq> None" using k2(4) assms(5) trd_dom [of t2 node] by blast+
  obtain t' x y where i: "split_loop t2 k p (TLeft node) (TRight node) = Some t'" "same_but (insert (TLeft node) (insert (TRight node) (tlocs T))) t2 t'"
    "trd t' (TLeft node) = Some x" "tree_at t' x (fst (fsplit (kof t2) k T))" "trd t' (TRight node) = Some y" "tree_at t' y (snd (fsplit (kof t2) k T))"
    using split_loop_ok [OF at assms(2), of "TLeft node" "TRight node" k] assms(6) n by auto
  have "trd t' q = Some node" using same_butD(5) [OF i(2), of q] assms(3,8,9) r2 t1(3) by simp
  moreover have "trd t' z = trd t z" if "z \<notin> insert q (insert (TLeft node) (insert (TRight node) (tlocs T)))" for z
    using that same_butD(5) [OF i(2), of z] same_butD(5) [OF t1(2), of z] r2 by simp
  then have "ins_frame (insert q (insert (TLeft node) (insert (TRight node) (tlocs T)))) node t t'"
    unfolding ins_frame_def using same_butD(1-4) [OF i(2)] k2 by simp
  moreover have "insert_rest t k node (p, q) = Some t'" using t1(1) nd i(1) by (simp add: insert_rest_def t2_def)
  ultimately show ?thesis using i assms(7) k2(1) by (auto simp: case_prod_unfold tree_at_Node)
qed

lemma ins_frame_mono: "ins_frame S node t t' \<Longrightarrow> S \<subseteq> S' \<Longrightarrow> ins_frame S' node t t'"
  by (auto simp: ins_frame_def)

lemma ins_frame_trd: "ins_frame S node t t' \<Longrightarrow> q \<notin> S \<Longrightarrow> trd t' q = trd t q"
  by (simp add: ins_frame_def)

lemma insert_pos_ok:
  assumes "tree_at t p T" "uniq T" "q \<notin> tlocs T" "trd t q = Some p" "node \<in> dom (tnodes t)" "node \<notin> set_tree T" "node \<noteq> 0"
    "q \<noteq> TLeft node" "q \<noteq> TRight node"
  shows "\<exists>t' x. Option.bind (insert_pos t k p q) (insert_rest t k node) = Some t' \<and>
    ins_frame (insert q (insert (TLeft node) (insert (TRight node) (tlocs T)))) node t t' \<and>
    trd t' q = Some x \<and> tree_at t' x (fins (kof t) (pof t) k (nextprio t) node T)"
  using assms
proof (induction T arbitrary: p q)
  case Leaf
  then show ?case using insert_rest_ok [OF Leaf.prems(1,2,3) _ Leaf.prems(5-9), of k] by (subst insert_pos.simps) auto
next
  case (Node l a r)
  obtain u v where a: "p = a" "a \<noteq> 0" "trd t (TLeft a) = Some u" "trd t (TRight a) = Some v" "tree_at t u l" "tree_at t v r"
    using Node.prems(1) unfolding tree_at_Node by blast
  obtain n where n: "tnodes t a = Some n" "tkey n = kof t a" "tprio n = pof t a" using trd_node [of a t] a(3) trd_dom(1) [of t a] by auto
  note nots = Node.prems(2,3,6)
  consider (stop) "\<not> pof t a < nextprio t" | (left) "pof t a < nextprio t" "k < kof t a" | (right) "pof t a < nextprio t" "\<not> k < kof t a" by blast
  then show ?case
  proof cases
    case stop
    then have "insert_pos t k p q = Some (p, q)" using a n by (subst insert_pos.simps) simp
    then show ?thesis using insert_rest_ok [OF Node.prems(1,2,3) _ Node.prems(5-9), of k] Node.prems(4) stop by auto
  next
    case left
    have e: "insert_pos t k p q = insert_pos t k u (TLeft a)" using left a n by (subst insert_pos.simps) simp
    obtain t' x where i: "Option.bind (insert_pos t k u (TLeft a)) (insert_rest t k node) = Some t'"
      "ins_frame (insert (TLeft a) (insert (TLeft node) (insert (TRight node) (tlocs l)))) node t t'"
      "trd t' (TLeft a) = Some x" "tree_at t' x (fins (kof t) (pof t) k (nextprio t) node l)"
      using Node.IH(1) [OF a(5), of "TLeft a"] nots a(3) Node.prems(5,7) by auto
    have t: "trd t' q = Some a" "trd t' (TRight a) = Some v" using ins_frame_trd [OF i(2)] a nots Node.prems(4,8,9) by auto
    have "trd t' z = trd t z" if "z \<in> tlocs r" for z using ins_frame_trd [OF i(2), of z] that nots by (cases z) auto
    then have "tree_at t' v r" using tree_at_cong' a(6) by blast
    moreover have "ins_frame (insert q (insert (TLeft node) (insert (TRight node) (tlocs (Node l a r))))) node t t'" by (rule ins_frame_mono [OF i(2)]) auto
    ultimately show ?thesis using e i t a(2) left by (simp add: tree_at_Node)
  next
    case right
    have e: "insert_pos t k p q = insert_pos t k v (TRight a)" using right a n by (subst insert_pos.simps) simp
    obtain t' x where i: "Option.bind (insert_pos t k v (TRight a)) (insert_rest t k node) = Some t'"
      "ins_frame (insert (TRight a) (insert (TLeft node) (insert (TRight node) (tlocs r)))) node t t'"
      "trd t' (TRight a) = Some x" "tree_at t' x (fins (kof t) (pof t) k (nextprio t) node r)"
      using Node.IH(2) [OF a(6), of "TRight a"] nots a(4) Node.prems(5,7) by auto
    have t: "trd t' q = Some a" "trd t' (TLeft a) = Some u" using ins_frame_trd [OF i(2)] a nots Node.prems(4,8,9) by auto
    have "trd t' z = trd t z" if "z \<in> tlocs l" for z using ins_frame_trd [OF i(2), of z] that nots by (cases z) auto
    then have "tree_at t' u l" using tree_at_cong' a(5) by blast
    moreover have "ins_frame (insert q (insert (TLeft node) (insert (TRight node) (tlocs (Node l a r))))) node t t'" by (rule ins_frame_mono [OF i(2)]) auto
    ultimately show ?thesis using e i t a(2) right by (simp add: tree_at_Node)
  qed
qed

section \<open>Search trees and heaps\<close>

fun ordered :: "('a \<Rightarrow> 'k::linorder) \<Rightarrow> 'a tree \<Rightarrow> bool" where
  "ordered key Leaf \<longleftrightarrow> True"
| "ordered key (Node l a r) \<longleftrightarrow> (\<forall>x \<in> set_tree l. key x < key a) \<and> (\<forall>x \<in> set_tree r. key a < key x) \<and> ordered key l \<and> ordered key r"

fun heaped :: "('a \<Rightarrow> int) \<Rightarrow> 'a tree \<Rightarrow> bool" where
  "heaped prio Leaf \<longleftrightarrow> True"
| "heaped prio (Node l a r) \<longleftrightarrow> (\<forall>x \<in> set_tree l \<union> set_tree r. prio a \<le> prio x) \<and> heaped prio l \<and> heaped prio r"

lemma ordered_uniq: "ordered key T \<Longrightarrow> uniq T"
  by (induction T) (force dest: less_asym)+

lemma heaped_cong: "(\<And>x. x \<in> set_tree T \<Longrightarrow> prio x = prio' x) \<Longrightarrow> heaped prio T = heaped prio' T"
  by (induction T) auto

lemma fsplit_set: "fsplit key k T = (x, y) \<Longrightarrow> set_tree T = set_tree x \<union> set_tree y"
  by (induction T arbitrary: x y) (auto split: if_splits prod.splits)

lemma fsplit_heaped: "fsplit key k T = (x, y) \<Longrightarrow> heaped prio T \<Longrightarrow> heaped prio x \<and> heaped prio y"
proof (induction T arbitrary: x y)
  case (Node l a r)
  show ?case
  proof (cases "k < key a")
    case True
    obtain l1 l2 where s: "fsplit key k l = (l1, l2)" by force
    then show ?thesis using Node.IH(1) [OF s] Node.prems True fsplit_set [OF s] by auto
  next
    case False
    obtain r1 r2 where s: "fsplit key k r = (r1, r2)" by force
    then show ?thesis using Node.IH(2) [OF s] Node.prems False fsplit_set [OF s] by auto
  qed
qed simp

lemma fsplit_ordered:
  "fsplit key k T = (x, y) \<Longrightarrow> ordered key T \<Longrightarrow> k \<notin> key ` set_tree T \<Longrightarrow>
   ordered key x \<and> ordered key y \<and> (\<forall>a \<in> set_tree x. key a < k) \<and> (\<forall>a \<in> set_tree y. k < key a)"
proof (induction T arbitrary: x y)
  case (Node l a r)
  show ?case
  proof (cases "k < key a")
    case True
    obtain l1 l2 where s: "fsplit key k l = (l1, l2)" by force
    have "ordered key l1 \<and> ordered key l2 \<and> (\<forall>a \<in> set_tree l1. key a < k) \<and> (\<forall>a \<in> set_tree l2. k < key a)"
      using Node.IH(1) [OF s] Node.prems by auto
    then show ?thesis using Node.prems True s fsplit_set [OF s] by fastforce
  next
    case False
    obtain r1 r2 where s: "fsplit key k r = (r1, r2)" by force
    have "ordered key r1 \<and> ordered key r2 \<and> (\<forall>a \<in> set_tree r1. key a < k) \<and> (\<forall>a \<in> set_tree r2. k < key a)"
      using Node.IH(2) [OF s] Node.prems by auto
    moreover have "key a < k" using False Node.prems(3) by (metis imageI linorder_neqE tree.set_intros(2))
    ultimately show ?thesis using Node.prems False s fsplit_set [OF s] by fastforce
  qed
qed simp

lemma fins_set: "set_tree (fins key prio k pr z T) = insert z (set_tree T)"
proof (induction T)
  case (Node l a r)
  obtain x y where s: "fsplit key k (Node l a r) = (x, y)" by force
  show ?case using Node.IH s fsplit_set [OF s] by (auto simp del: fsplit.simps)
qed simp

lemma fins_ordered: "ordered key T \<Longrightarrow> key z \<notin> key ` set_tree T \<Longrightarrow> ordered key (fins key prio (key z) pr z T)"
proof (induction T)
  case (Node l a r)
  obtain x y where s: "fsplit key (key z) (Node l a r) = (x, y)" by force
  have "key z < key a \<or> key a < key z" using Node.prems(2) by (metis imageI linorder_neqE tree.set_intros(2))
  then show ?case using Node fsplit_ordered [OF s Node.prems] s by (auto simp: fins_set simp del: fsplit.simps)
qed simp

lemma fins_heaped:
  assumes "heaped prio T" "z \<notin> set_tree T" "prio' z = pr" "\<And>x. x \<noteq> z \<Longrightarrow> prio' x = prio x"
  shows "heaped prio' (fins key prio k pr z T)"
  using assms(1,2)
proof (induction T)
  case (Node l a r)
  have h: "heaped prio' (Node l a r)" using Node.prems heaped_cong [of "Node l a r" prio' prio] assms(4) by metis
  obtain x y where s: "fsplit key k (Node l a r) = (x, y)" by force
  have xy: "heaped prio' x" "heaped prio' y" using fsplit_heaped [OF s h] by simp_all
  have a: "prio' a = prio a" using Node.prems(2) assms(4) by auto
  show ?case
  proof (cases "prio a < pr")
    case True
    then show ?thesis using Node h a assms(3) by (auto simp: fins_set simp del: fsplit.simps)
  next
    case False
    have "pr \<le> prio' w" if "w \<in> set_tree (Node l a r)" for w using that h a False by force
    then show ?thesis using False xy s fsplit_set [OF s] assms(3) by (auto simp del: fsplit.simps)
  qed
qed simp

text \<open>A treap with the tree \<open>T\<close>.\<close>

definition treap_ok :: "'k::linorder treap \<Rightarrow> addr tree \<Rightarrow> bool" where
  "treap_ok t T \<longleftrightarrow> tree_at t (troot t) T \<and> ordered (kof t) T \<and> heaped (pof t) T"

lemma insert_refines:
  assumes "treap_ok t T" "node \<in> dom (tnodes t)" "node \<noteq> 0" "kof t node \<notin> kof t ` set_tree T"
  shows "\<exists>t'. treap_insert t node = Some t' \<and> treap_ok t' (fins (kof t) (pof t) (kof t node) (nextprio t) node T) \<and>
    kof t' = kof t \<and> dom (tnodes t') = dom (tnodes t)"
proof -
  have n: "node \<notin> set_tree T" using assms(4) by auto
  obtain nd where nd: "tnodes t node = Some nd" "tkey nd = kof t node" using trd_node assms(2) by blast
  have u: "uniq T" using assms(1) ordered_uniq by (auto simp: treap_ok_def)
  have "tree_at t (troot t) T" using assms(1) by (simp add: treap_ok_def)
  then obtain t' x where t': "Option.bind (insert_pos t (kof t node) (troot t) TRoot) (insert_rest t (kof t node) node) = Some t'"
    "ins_frame (insert TRoot (insert (TLeft node) (insert (TRight node) (tlocs T)))) node t t'"
    "trd t' TRoot = Some x" "tree_at t' x (fins (kof t) (pof t) (kof t node) (nextprio t) node T)"
    using insert_pos_ok [OF _ u _ _ assms(2) n assms(3), of "troot t" TRoot "kof t node"] by auto
  have "treap_insert t node = Some t'" using t'(1) nd by (simp add: treap_insert_def insert_rest_def case_prod_unfold)
  moreover have "kof t' = kof t" "pof t' = (pof t)(node := nextprio t)" "dom (tnodes t') = dom (tnodes t)" using t'(2) by (simp_all add: ins_frame_def)
  moreover have "x = troot t'" using t'(3) by simp
  ultimately show ?thesis using t'(4) assms(1,4) n fins_ordered [of "kof t" T node] fins_heaped [of "pof t" T node "pof t'" "nextprio t"] by (auto simp: treap_ok_def)
qed

section \<open>Removal\<close>

fun fjoin :: "('a \<Rightarrow> int) \<Rightarrow> 'a tree \<Rightarrow> 'a tree \<Rightarrow> 'a tree" where
  "fjoin prio Leaf r = r"
| "fjoin prio l Leaf = l"
| "fjoin prio (Node ll a lr) (Node rl b rr) =
     (if prio a < prio b then Node ll a (fjoin prio lr (Node rl b rr)) else Node (fjoin prio (Node ll a lr) rl) b rr)"

fun frem :: "('a \<Rightarrow> 'k::linorder) \<Rightarrow> ('a \<Rightarrow> int) \<Rightarrow> 'a \<Rightarrow> 'a tree \<Rightarrow> 'a tree" where
  "frem key prio z Leaf = Leaf"
| "frem key prio z (Node l a r) =
     (if a = z then fjoin prio l r
      else if key z < key a then Node (frem key prio z l) a r else Node l a (frem key prio z r))"

lemma fjoin_set: "set_tree (fjoin prio l r) = set_tree l \<union> set_tree r"
  by (induction prio l r rule: fjoin.induct) auto

lemma fjoin_heaped: "heaped prio l \<Longrightarrow> heaped prio r \<Longrightarrow> heaped prio (fjoin prio l r)"
  by (induction prio l r rule: fjoin.induct) (force simp: fjoin_set)+

lemma fjoin_ordered:
  "ordered key l \<Longrightarrow> ordered key r \<Longrightarrow> \<forall>x \<in> set_tree l. \<forall>y \<in> set_tree r. key x < key y \<Longrightarrow> ordered key (fjoin prio l r)"
  by (induction prio l r rule: fjoin.induct) (auto simp: fjoin_set)

lemma frem_set: "ordered key T \<Longrightarrow> z \<in> set_tree T \<Longrightarrow> set_tree (frem key prio z T) = set_tree T - {z}"
proof (induction T)
  case (Node l a r)
  have u: "uniq (Node l a r)" using ordered_uniq Node.prems(1) by blast
  show ?case
  proof (cases "a = z")
    case True
    then show ?thesis using u by (auto simp: fjoin_set)
  next
    case False
    then consider "z \<in> set_tree l" "key z < key a" "z \<notin> set_tree r" | "z \<in> set_tree r" "\<not> key z < key a" "z \<notin> set_tree l"
      using Node.prems u by (auto dest: less_asym)
    then show ?thesis using Node.IH Node.prems False by cases auto
  qed
qed simp

lemma frem_subset: "set_tree (frem key prio z T) \<subseteq> set_tree T"
  by (induction T) (auto simp: fjoin_set)

lemma frem_ordered: "ordered key T \<Longrightarrow> ordered key (frem key prio z T)"
proof (induction T)
  case (Node l a r)
  have "ordered key (fjoin prio l r)" using Node.prems by (intro fjoin_ordered) (auto dest: less_trans)
  then show ?case using Node frem_subset [of key prio z l] frem_subset [of key prio z r] by auto
qed simp

lemma frem_heaped: "heaped prio T \<Longrightarrow> heaped prio (frem key prio z T)"
proof (induction T)
  case (Node l a r)
  then show ?case using frem_subset [of key prio z l] frem_subset [of key prio z r] by (auto simp: fjoin_heaped)
qed simp

text \<open>Removing the node at \<open>p\<close> with the subtrees \<open>l\<close> and \<open>r\<close>; the rotations change only pointers of these nodes, and \<open>p\<close>.\<close>

lemma remove_from_one:
  assumes "tree_at t z (Node l z r)" "p \<notin> tlocs (Node l z r)" "trd t p = Some z" "l = Leaf \<or> r = Leaf"
  shows "\<exists>t' x. remove_from t p z = Some t' \<and> same_but {p} t t' \<and> trd t' p = Some x \<and> tree_at t' x (if l = Leaf then r else l)"
proof -
  obtain u v where a: "trd t (TLeft z) = Some u" "trd t (TRight z) = Some v" "tree_at t u l" "tree_at t v r"
    using assms(1) unfolding tree_at_Node by blast
  obtain n where n: "tnodes t z = Some n" "tleft n = u" "tright n = v" using a(1,2) by (auto simp: trd.simps)
  have lz: "u = 0 \<longleftrightarrow> l = Leaf" "v = 0 \<longleftrightarrow> r = Leaf" using a(3,4) by (cases l; cases r; auto simp: tree_at_Node)+
  obtain t' where t': "twr t p (if l = Leaf then v else u) = Some t'" "same_but {p} t t'" "trd t' p = Some (if l = Leaf then v else u)"
    using twr_ok [of t p] assms(3) by (metis option.distinct(1))
  have "remove_from t p z = Some t'" using n lz assms(4) t'(1) a(3,4) by (subst remove_from.simps) (auto split: if_splits)
  moreover have "tree_at t' (if l = Leaf then v else u) (if l = Leaf then r else l)" using tree_at_cong [OF t'(2)] a(3,4) assms(2) by auto
  ultimately show ?thesis using t' by blast
qed

lemma twr_three:
  assumes "trd t q1 \<noteq> None" "trd t q2 \<noteq> None" "trd t q3 \<noteq> None" "q1 \<noteq> q2" "q1 \<noteq> q3" "q2 \<noteq> q3"
  obtains t' where "twr t q1 v1 \<bind> (\<lambda>t1. twr t1 q2 v2 \<bind> (\<lambda>t2. twr t2 q3 v3)) = Some t'" "same_but {q1, q2, q3} t t'"
    "trd t' q1 = Some v1" "trd t' q2 = Some v2" "trd t' q3 = Some v3"
proof -
  obtain t1 where 1: "twr t q1 v1 = Some t1" "same_but {q1} t t1" "trd t1 q1 = Some v1" using twr_ok assms(1) by blast
  have "trd t1 q2 \<noteq> None" "trd t1 q3 \<noteq> None" using assms(2,3) same_butD(6) [OF 1(2)] by simp_all
  then obtain t2 where 2: "twr t1 q2 v2 = Some t2" "same_but {q2} t1 t2" "trd t2 q2 = Some v2" using twr_ok by blast
  have "trd t2 q3 \<noteq> None" using assms(3) same_butD(6) [OF 1(2)] same_butD(6) [OF 2(2)] by simp
  then obtain t3 where 3: "twr t2 q3 v3 = Some t3" "same_but {q3} t2 t3" "trd t3 q3 = Some v3" using twr_ok by blast
  have "same_but {q1, q2, q3} t t3"
    by (rule same_but_trans [OF same_but_mono [OF 1(2)] same_but_trans [OF same_but_mono [OF 2(2)] same_but_mono [OF 3(2)]]]) auto
  moreover have "trd t3 q1 = Some v1" "trd t3 q2 = Some v2"
    using 1(3) 2(3) same_butD(5) [OF 2(2), of q1] same_butD(5) [OF 3(2)] assms(4-6) by simp_all
  ultimately show ?thesis using that 1(1) 2(1) 3(1,3) by simp
qed

lemma remove_from_ok:
  assumes "tree_at t z (Node l z r)" "uniq (Node l z r)" "p \<notin> tlocs (Node l z r)" "trd t p = Some z" "prio = pof t"
  shows "\<exists>t' x. remove_from t p z = Some t' \<and> same_but (insert p (tlocs (Node l z r))) t t' \<and> trd t' p = Some x \<and> tree_at t' x (fjoin prio l r)"
  using assms
proof (induction prio l r arbitrary: t p rule: fjoin.induct)
  case (1 prio r)
  obtain t' x where "remove_from t p z = Some t'" "same_but {p} t t'" "trd t' p = Some x" "tree_at t' x r"
    using remove_from_one [OF "1.prems"(1,3,4)] by auto
  then show ?case using same_but_mono [of "{p}" t t'] by auto
next
  case (2 prio ll a lr)
  obtain t' x where "remove_from t p z = Some t'" "same_but {p} t t'" "trd t' p = Some x" "tree_at t' x (Node ll a lr)"
    using remove_from_one [OF "2.prems"(1,3,4)] by auto
  then show ?case using same_but_mono [of "{p}" t t'] by auto
next
  case (3 prio ll a lr rl b rr)
  let ?l = "Node ll a lr" and ?r = "Node rl b rr"
  have z: "trd t (TLeft z) = Some a" "trd t (TRight z) = Some b" "tree_at t a ?l" "tree_at t b ?r" "z \<noteq> 0" "a \<noteq> 0" "b \<noteq> 0"
    using "3.prems"(1) by (auto simp: tree_at_Node)
  obtain x y where a: "trd t (TLeft a) = Some x" "trd t (TRight a) = Some y" "tree_at t x ll" "tree_at t y lr" using z(3) unfolding tree_at_Node by blast
  obtain v w where b: "trd t (TLeft b) = Some v" "trd t (TRight b) = Some w" "tree_at t v rl" "tree_at t w rr" using z(4) unfolding tree_at_Node by blast
  obtain nz na nb where n: "tnodes t z = Some nz" "tleft nz = a" "tright nz = b" "tnodes t a = Some na" "tright na = y" "tprio na = prio a"
    "tnodes t b = Some nb" "tleft nb = v" "tprio nb = prio b"
    using z(1,2) a(1,2) b(1,2) "3.prems"(5) by (auto simp: trd.simps pof_def)
  note nots = "3.prems"(2,3)
  show ?case
  proof (cases "prio a < prio b")
    case True
    obtain t3 where t3: "twr t (TLeft z) y \<bind> (\<lambda>t1. twr t1 (TRight a) z \<bind> (\<lambda>t2. twr t2 p a)) = Some t3" "same_but {TLeft z, TRight a, p} t t3"
      "trd t3 (TLeft z) = Some y" "trd t3 (TRight a) = Some z" "trd t3 p = Some a"
      using twr_three [of t "TLeft z" "TRight a" p y z a] z a "3.prems"(4) nots by auto
    have r: "trd t3 (TRight z) = Some b" "trd t3 (TLeft a) = Some x" using same_butD(5) [OF t3(2)] z(2) a(1) nots by auto
    have at: "tree_at t3 x ll" "tree_at t3 y lr" "tree_at t3 b ?r" using tree_at_cong [OF t3(2)] a(3,4) z(4) nots by auto
    have "tree_at t3 z (Node lr z ?r)" unfolding tree_at_Node [of t3 z lr] using t3(3) r(1) at z(5) by auto
    then have "\<exists>t' x. remove_from t3 (TRight a) z = Some t' \<and> same_but (insert (TRight a) (tlocs (Node lr z ?r))) t3 t' \<and> trd t' (TRight a) = Some x \<and> tree_at t' x (fjoin prio lr ?r)"
      using "3.IH"(1) [OF True, of t3 "TRight a"] nots t3(4) same_butD(2) [OF t3(2)] "3.prems"(5) by auto
    then obtain t' x' where i: "remove_from t3 (TRight a) z = Some t'" "same_but (insert (TRight a) (tlocs (Node lr z ?r))) t3 t'"
      "trd t' (TRight a) = Some x'" "tree_at t' x' (fjoin prio lr ?r)" by blast
    have "trd t' p = Some a" "trd t' (TLeft a) = Some x" using same_butD(5) [OF i(2)] t3(5) r(2) nots by auto
    moreover have "tree_at t' x ll" by (rule tree_at_cong [OF i(2) _ at(1)]) (use nots in \<open>auto simp: tlocs_def\<close>)
    moreover have "same_but (insert p (tlocs (Node ?l z ?r))) t t'"
      by (rule same_but_trans [OF same_but_mono [OF t3(2)] same_but_mono [OF i(2)]]) auto
    moreover have "remove_from t p z = Some t'" using n True t3(1) i(1) z(6,7) by (subst remove_from.simps) (auto simp del: twr.simps split: bind_splits)
    ultimately show ?thesis using i(3,4) True z(6) by (auto simp: tree_at_Node)
  next
    case False
    obtain t3 where t3: "twr t (TRight z) v \<bind> (\<lambda>t1. twr t1 (TLeft b) z \<bind> (\<lambda>t2. twr t2 p b)) = Some t3" "same_but {TRight z, TLeft b, p} t t3"
      "trd t3 (TRight z) = Some v" "trd t3 (TLeft b) = Some z" "trd t3 p = Some b"
      using twr_three [of t "TRight z" "TLeft b" p v z b] z b "3.prems"(4) nots by auto
    have r: "trd t3 (TLeft z) = Some a" "trd t3 (TRight b) = Some w" using same_butD(5) [OF t3(2)] z(1) b(2) nots by auto
    have at: "tree_at t3 v rl" "tree_at t3 w rr" "tree_at t3 a ?l" using tree_at_cong [OF t3(2)] b(3,4) z(3) nots by auto
    have "tree_at t3 z (Node ?l z rl)" unfolding tree_at_Node [of t3 z ?l] using t3(3) r(1) at z(5) by auto
    then have "\<exists>t' x. remove_from t3 (TLeft b) z = Some t' \<and> same_but (insert (TLeft b) (tlocs (Node ?l z rl))) t3 t' \<and> trd t' (TLeft b) = Some x \<and> tree_at t' x (fjoin prio ?l rl)"
      using "3.IH"(2) [OF False, of t3 "TLeft b"] nots t3(4) same_butD(2) [OF t3(2)] "3.prems"(5) by auto
    then obtain t' x' where i: "remove_from t3 (TLeft b) z = Some t'" "same_but (insert (TLeft b) (tlocs (Node ?l z rl))) t3 t'"
      "trd t' (TLeft b) = Some x'" "tree_at t' x' (fjoin prio ?l rl)" by blast
    have "trd t' p = Some b" "trd t' (TRight b) = Some w" using same_butD(5) [OF i(2)] t3(5) r(2) nots by auto
    moreover have "tree_at t' w rr" by (rule tree_at_cong [OF i(2) _ at(2)]) (use nots in \<open>auto simp: tlocs_def\<close>)
    moreover have "same_but (insert p (tlocs (Node ?l z ?r))) t t'"
      by (rule same_but_trans [OF same_but_mono [OF t3(2)] same_but_mono [OF i(2)]]) auto
    moreover have "remove_from t p z = Some t'" using n False t3(1) i(1) z(6,7) by (subst remove_from.simps) (auto simp del: twr.simps split: bind_splits)
    ultimately show ?thesis using i(3,4) False z(7) by (auto simp: tree_at_Node)
  qed
qed

text \<open>The part of \<open>remove\<close> behind its loop.\<close>

definition remove_rest :: "'k treap \<Rightarrow> addr \<Rightarrow> tloc \<Rightarrow> 'k treap option" where
  "remove_rest t z p = do { c \<leftarrow> trd t p; vassert (c = z); remove_from t p z }"

lemma remove_pos_ok:
  assumes "tree_at t p T" "ordered (kof t) T" "q \<notin> tlocs T" "trd t q = Some p" "z \<in> set_tree T"
  shows "\<exists>t' x. Option.bind (remove_pos t z q) (remove_rest t z) = Some t' \<and> same_but (insert q (tlocs T)) t t' \<and>
    trd t' q = Some x \<and> tree_at t' x (frem (kof t) (pof t) z T)"
  using assms
proof (induction T arbitrary: p q)
  case (Node l a r)
  obtain u v where a: "p = a" "a \<noteq> 0" "trd t (TLeft a) = Some u" "trd t (TRight a) = Some v" "tree_at t u l" "tree_at t v r"
    using Node.prems(1) unfolding tree_at_Node by blast
  have "a \<in> dom (tnodes t)" "z \<in> dom (tnodes t)" using tree_at_dom [OF Node.prems(1)] Node.prems(5) by auto
  then obtain n nd where n: "tnodes t a = Some n" "tkey n = kof t a" "tnodes t z = Some nd" "tkey nd = kof t z" using trd_node by metis
  have uq: "uniq (Node l a r)" using ordered_uniq Node.prems(2) by blast
  note nots = uq Node.prems(3)
  consider (here) "a = z" | (left) "z \<in> set_tree l" "kof t z < kof t a" "a \<noteq> z" | (right) "z \<in> set_tree r" "\<not> kof t z < kof t a" "a \<noteq> z"
    using Node.prems(2,5) by (auto dest: less_asym)
  then show ?case
  proof cases
    case here
    then have "remove_pos t z q = Some q" using Node.prems(4) a by (subst remove_pos.simps) simp
    then show ?thesis using remove_from_ok [of t z l r q "pof t"] Node.prems here a(1) uq by (auto simp: remove_rest_def)
  next
    case left
    have e: "remove_pos t z q = remove_pos t z (TLeft a)" using left a n Node.prems(4) by (subst remove_pos.simps) simp
    obtain t' x where i: "Option.bind (remove_pos t z (TLeft a)) (remove_rest t z) = Some t'" "same_but (insert (TLeft a) (tlocs l)) t t'"
      "trd t' (TLeft a) = Some x" "tree_at t' x (frem (kof t) (pof t) z l)" using Node.IH(1) [OF a(5), of "TLeft a"] nots a(3) left Node.prems(2) by auto
    have "trd t' q = Some a" "trd t' (TRight a) = Some v" using same_butD(5) [OF i(2)] a nots Node.prems(4) by auto
    moreover have "tree_at t' v r" by (rule tree_at_cong [OF i(2) _ a(6)]) (use nots in \<open>auto simp: tlocs_def\<close>)
    moreover have "same_but (insert q (tlocs (Node l a r))) t t'" by (rule same_but_mono [OF i(2)]) auto
    ultimately show ?thesis using e i a(2) left by (auto simp: tree_at_Node)
  next
    case right
    have e: "remove_pos t z q = remove_pos t z (TRight a)" using right a n Node.prems(4) by (subst remove_pos.simps) simp
    obtain t' x where i: "Option.bind (remove_pos t z (TRight a)) (remove_rest t z) = Some t'" "same_but (insert (TRight a) (tlocs r)) t t'"
      "trd t' (TRight a) = Some x" "tree_at t' x (frem (kof t) (pof t) z r)" using Node.IH(2) [OF a(6), of "TRight a"] nots a(4) right Node.prems(2) by auto
    have "trd t' q = Some a" "trd t' (TLeft a) = Some u" using same_butD(5) [OF i(2)] a nots Node.prems(4) by auto
    moreover have "tree_at t' u l" by (rule tree_at_cong [OF i(2) _ a(5)]) (use nots in \<open>auto simp: tlocs_def\<close>)
    moreover have "same_but (insert q (tlocs (Node l a r))) t t'" by (rule same_but_mono [OF i(2)]) auto
    ultimately show ?thesis using e i a(2) right by (auto simp: tree_at_Node)
  qed
qed simp

lemma remove_refines:
  assumes "treap_ok t T" "z \<in> set_tree T"
  shows "\<exists>t'. treap_remove t z = Some t' \<and> treap_ok t' (frem (kof t) (pof t) z T) \<and> kof t' = kof t \<and> dom (tnodes t') = dom (tnodes t)"
proof -
  have "tree_at t (troot t) T" "ordered (kof t) T" using assms(1) by (simp_all add: treap_ok_def)
  then obtain t' x where t': "Option.bind (remove_pos t z TRoot) (remove_rest t z) = Some t'" "same_but (insert TRoot (tlocs T)) t t'"
    "trd t' TRoot = Some x" "tree_at t' x (frem (kof t) (pof t) z T)" using remove_pos_ok [of t "troot t" T TRoot z] assms(2) by auto
  have "treap_remove t z = Some t'" using t'(1) by (simp add: treap_remove_def remove_rest_def [abs_def])
  moreover have "x = troot t'" using t'(3) by simp
  ultimately show ?thesis using t'(4) assms(1) same_butD(1,2,4) [OF t'(2)] frem_ordered frem_heaped by (auto simp: treap_ok_def)
qed

section \<open>Search\<close>

text \<open>A search finds a node that matches, if every node on its way that does not match leads to all that do.\<close>

definition guided :: "('a \<Rightarrow> 'k::linorder) \<Rightarrow> ('a \<Rightarrow> bool) \<Rightarrow> 'k \<Rightarrow> 'a set \<Rightarrow> bool" where
  "guided key M k A \<longleftrightarrow> (\<forall>a \<in> A. \<forall>b \<in> A. M b \<longrightarrow> \<not> M a \<longrightarrow> (if k < key a then key b < key a else key a < key b))"

lemma find_from_ok:
  assumes "tree_at t p T" "ordered (kof t) T" "\<And>a. a \<in> set_tree T \<Longrightarrow> matches a k = Some (M a)" "guided (kof t) M k (set_tree T)"
  shows "\<exists>x. find_from matches t k p = Some x \<and> (if \<exists>a \<in> set_tree T. M a then x \<in> set_tree T \<and> M x else x = 0)"
  using assms
proof (induction T arbitrary: p)
  case Leaf
  then show ?case by (subst find_from.simps) simp
next
  case (Node l a r)
  obtain u v where a: "p = a" "a \<noteq> 0" "trd t (TLeft a) = Some u" "trd t (TRight a) = Some v" "tree_at t u l" "tree_at t v r"
    using Node.prems(1) unfolding tree_at_Node by blast
  obtain n where n: "tnodes t a = Some n" "tkey n = kof t a" "tleft n = u" "tright n = v"
    using trd_node [of a t] a(3,4) by (auto simp: trd.simps kof_def)
  have g: "guided (kof t) M k (set_tree l)" "guided (kof t) M k (set_tree r)" using Node.prems(4) by (auto simp: guided_def)
  have m: "matches a k = Some (M a)" using Node.prems(3) by simp
  show ?case
  proof (cases "M a")
    case True
    then show ?thesis using a m by (subst find_from.simps) auto
  next
    case nm: False
    show ?thesis
    proof (cases "k < kof t a")
      case True
      have e: "find_from matches t k p = find_from matches t k u" using a n m nm True by (subst find_from.simps) simp
      have "\<not> M b" if "b \<in> set_tree r" for b using Node.prems(2,4) that nm True by (auto simp: guided_def dest!: bspec dest: less_asym)
      then have "(\<exists>b \<in> set_tree (Node l a r). M b) \<longleftrightarrow> (\<exists>b \<in> set_tree l. M b)" using nm by auto
      moreover obtain x where "find_from matches t k u = Some x" "if \<exists>b \<in> set_tree l. M b then x \<in> set_tree l \<and> M x else x = 0"
        using Node.IH(1) [OF a(5) _ _ g(1)] Node.prems(2,3) by auto
      ultimately show ?thesis using e by (intro exI [of _ x]) auto
    next
      case False
      have e: "find_from matches t k p = find_from matches t k v" using a n m nm False by (subst find_from.simps) simp
      have "\<not> M b" if "b \<in> set_tree l" for b using Node.prems(2,4) that nm False by (auto simp: guided_def dest!: bspec dest: less_asym)
      then have "(\<exists>b \<in> set_tree (Node l a r). M b) \<longleftrightarrow> (\<exists>b \<in> set_tree r. M b)" using nm by auto
      moreover obtain x where "find_from matches t k v = Some x" "if \<exists>b \<in> set_tree r. M b then x \<in> set_tree r \<and> M x else x = 0"
        using Node.IH(2) [OF a(6) _ _ g(2)] Node.prems(2,3) by auto
      ultimately show ?thesis using e by (intro exI [of _ x]) auto
    qed
  qed
qed

section \<open>What clients rely on\<close>

text \<open>
  An index holds a set of objects with different keys. Its clients insert objects that exist, remove those in it, and search with
  a test that leads to the objects that satisfy it.
\<close>

datatype 'k iop = IIns addr | IRem addr | IFind 'k

text \<open>The specification of a sequence of calls on a list of objects; it has no result for a call that is not allowed.\<close>

fun spec_run :: "(addr \<Rightarrow> 'k) \<Rightarrow> addr list \<Rightarrow> addr list \<Rightarrow> 'k iop list \<Rightarrow> addr list option" where
  "spec_run key objs A [] = Some []"
| "spec_run key objs A (IIns a # ops) =
     (if a \<in> set objs \<and> a \<noteq> 0 \<and> key a \<notin> set (map key A) then spec_run key objs (a # A) ops else None)"
| "spec_run key objs A (IRem a # ops) = (if a \<in> set A then spec_run key objs (remove1 a A) ops else None)"
| "spec_run key objs A (IFind k # ops) =
     map_option ((#) (case filter (\<lambda>a. key a = k) A of [] \<Rightarrow> 0 | a # _ \<Rightarrow> a)) (spec_run key objs A ops)"

fun index_run :: "('s \<Rightarrow> addr \<Rightarrow> 's option) \<Rightarrow> ('s \<Rightarrow> addr \<Rightarrow> 's option) \<Rightarrow> ('s \<Rightarrow> 'k \<Rightarrow> addr option) \<Rightarrow> 's \<Rightarrow> 'k iop list \<Rightarrow> addr list option" where
  "index_run ins rem fnd s [] = Some []"
| "index_run ins rem fnd s (IIns a # ops) = do { s' \<leftarrow> ins s a; index_run ins rem fnd s' ops }"
| "index_run ins rem fnd s (IRem a # ops) = do { s' \<leftarrow> rem s a; index_run ins rem fnd s' ops }"
| "index_run ins rem fnd s (IFind k # ops) = do { x \<leftarrow> fnd s k; xs \<leftarrow> index_run ins rem fnd s ops; Some (x # xs) }"

locale index =
  fixes rep :: "'s \<Rightarrow> addr set \<Rightarrow> bool" and objects :: "'s \<Rightarrow> addr set" and keyof :: "'s \<Rightarrow> addr \<Rightarrow> 'k::linorder"
    and ins rem :: "'s \<Rightarrow> addr \<Rightarrow> 's option" and fnd :: "(addr \<Rightarrow> 'k \<Rightarrow> bool option) \<Rightarrow> 's \<Rightarrow> 'k \<Rightarrow> addr option"
  assumes rep_objects: "rep s A \<Longrightarrow> A \<subseteq> objects s \<and> 0 \<notin> A \<and> inj_on (keyof s) A"
    and ins_ok: "rep s A \<Longrightarrow> a \<in> objects s \<Longrightarrow> a \<noteq> 0 \<Longrightarrow> keyof s a \<notin> keyof s ` A \<Longrightarrow>
      \<exists>s'. ins s a = Some s' \<and> rep s' (insert a A) \<and> keyof s' = keyof s \<and> objects s' = objects s"
    and rem_ok: "rep s A \<Longrightarrow> a \<in> A \<Longrightarrow> \<exists>s'. rem s a = Some s' \<and> rep s' (A - {a}) \<and> keyof s' = keyof s \<and> objects s' = objects s"
    and find_ok: "rep s A \<Longrightarrow> (\<And>a. a \<in> A \<Longrightarrow> matches a k = Some (M a)) \<Longrightarrow> guided (keyof s) M k A \<Longrightarrow>
      \<exists>x. fnd matches s k = Some x \<and> (if \<exists>a \<in> A. M a then x \<in> A \<and> M x else x = 0)"
begin

lemma find_key:
  assumes "rep s A" "\<And>a. a \<in> A \<Longrightarrow> matches a k = Some (keyof s a = k)"
  shows "\<exists>x. fnd matches s k = Some x \<and> (if k \<in> keyof s ` A then x \<in> A \<and> keyof s x = k else x = 0)"
proof -
  have "guided (keyof s) (\<lambda>a. keyof s a = k) k A" by (auto simp: guided_def)
  then obtain x where "fnd matches s k = Some x" "if \<exists>a \<in> A. keyof s a = k then x \<in> A \<and> keyof s x = k else x = 0"
    using find_ok [where matches = matches and k = k and s = s and A = A and M = "\<lambda>a. keyof s a = k"] assms by blast
  then show ?thesis by (auto split: if_splits)
qed

lemma run_refines:
  assumes "rep s (set A)" "distinct A" "objects s = set objs" "spec_run (keyof s) objs A ops = Some xs"
    "\<And>s a k. a \<in> objects s \<Longrightarrow> matches s a k = Some (keyof s a = k)"
  shows "index_run ins rem (\<lambda>s. fnd (matches s) s) s ops = Some xs"
  using assms(1-4)
proof (induction ops arbitrary: s A xs)
  case (Cons c ops)
  show ?case
  proof (cases c)
    case (IIns a)
    obtain s' where "ins s a = Some s'" "rep s' (set (a # A))" "keyof s' = keyof s" "objects s' = objects s"
      using ins_ok [OF Cons.prems(1), of a] Cons.prems(3,4) IIns by (auto split: if_splits)
    then show ?thesis using Cons.IH [of s' "a # A" xs] Cons.prems IIns by (auto split: if_splits)
  next
    case (IRem a)
    obtain s' where "rem s a = Some s'" "rep s' (set (remove1 a A))" "keyof s' = keyof s" "objects s' = objects s"
      using rem_ok [OF Cons.prems(1), of a] Cons.prems(2,4) IRem by (auto split: if_splits)
    then show ?thesis using Cons.IH [of s' "remove1 a A" xs] Cons.prems IRem by (auto split: if_splits)
  next
    case (IFind k)
    obtain ys where ys: "spec_run (keyof s) objs A ops = Some ys" "xs = (case filter (\<lambda>a. keyof s a = k) A of [] \<Rightarrow> 0 | a # _ \<Rightarrow> a) # ys"
      using Cons.prems(4) IFind by auto
    have m: "matches s a k = Some (keyof s a = k)" if "a \<in> set A" for a using assms(5) [of a s k] rep_objects [OF Cons.prems(1)] that by blast
    obtain x where x: "fnd (matches s) s k = Some x" "if k \<in> keyof s ` set A then x \<in> set A \<and> keyof s x = k else x = 0"
      using find_key [where matches = "matches s" and k = k and s = s and A = "set A"] Cons.prems(1) m by blast
    have "x = (case filter (\<lambda>a. keyof s a = k) A of [] \<Rightarrow> 0 | a # _ \<Rightarrow> a)"
    proof (cases "filter (\<lambda>a. keyof s a = k) A")
      case Nil
      then show ?thesis using x(2) by (auto simp: filter_empty_conv split: if_splits)
    next
      case (Cons b bs)
      then have "b \<in> set A" "keyof s b = k" using filter_set [of "\<lambda>a. keyof s a = k" A] by (auto dest: arg_cong [of _ _ set])
      then have "x = b" using x(2) rep_objects [OF \<open>rep s (set A)\<close>] by (auto simp: inj_on_def split: if_splits)
      then show ?thesis using Cons by simp
    qed
    then show ?thesis using Cons.IH [OF Cons.prems(1-3) ys(1)] x(1) ys(2) IFind by simp
  qed
qed simp

end

definition treap_rep :: "'k::linorder treap \<Rightarrow> addr set \<Rightarrow> bool" where
  "treap_rep t A \<longleftrightarrow> (\<exists>T. treap_ok t T \<and> set_tree T = A)"

lemma ordered_inj: "ordered key T \<Longrightarrow> inj_on key (set_tree T)"
proof (induction T)
  case (Node l a r)
  have lr: "key x < key a" "key a < key y" if "x \<in> set_tree l" "y \<in> set_tree r" for x y using that Node.prems by auto
  have "key x \<noteq> key y" if "x \<in> set_tree l" "y \<in> set_tree r" for x y using lr [OF that] by simp
  then have "inj_on key (set_tree l \<union> set_tree r)" using Node by (auto simp: inj_on_Un)
  moreover have "key a \<notin> key ` (set_tree l \<union> set_tree r)" using Node.prems by auto
  ultimately show ?case by (simp add: inj_on_insert) blast
qed simp

interpretation tix: index treap_rep "\<lambda>t. dom (tnodes t)" kof treap_insert treap_remove treap_find
proof (unfold_locales, goal_cases)
  case (1 s A)
  then show ?case using tree_at_dom tree_at_nonzero ordered_inj by (fastforce simp: treap_rep_def treap_ok_def)
next
  case (2 s A a)
  then obtain T where T: "treap_ok s T" "set_tree T = A" by (auto simp: treap_rep_def)
  let ?T = "fins (kof s) (pof s) (kof s a) (nextprio s) a T"
  obtain s' where "treap_insert s a = Some s'" "treap_ok s' ?T" "kof s' = kof s" "dom (tnodes s') = dom (tnodes s)"
    using insert_refines [OF T(1) 2(2,3)] 2(4) T(2) by blast
  moreover have "treap_rep s' (insert a A)" unfolding treap_rep_def using calculation(2) T(2) by (intro exI [of _ ?T]) (simp add: fins_set)
  ultimately show ?case by blast
next
  case (3 s A a)
  then obtain T where T: "treap_ok s T" "set_tree T = A" by (auto simp: treap_rep_def)
  let ?T = "frem (kof s) (pof s) a T"
  have e: "set_tree ?T = A - {a}" using frem_set [of "kof s" T a] 3(2) T by (simp add: treap_ok_def)
  obtain s' where "treap_remove s a = Some s'" "treap_ok s' ?T" "kof s' = kof s" "dom (tnodes s') = dom (tnodes s)"
    using remove_refines [OF T(1)] 3(2) T(2) by blast
  moreover have "treap_rep s' (A - {a})" unfolding treap_rep_def using calculation(2) e by (intro exI [of _ ?T]) simp
  ultimately show ?case by blast
next
  case (4 s A matches k M)
  then obtain T where T: "tree_at s (troot s) T" "ordered (kof s) T" "set_tree T = A" by (auto simp: treap_rep_def treap_ok_def)
  show ?case using find_from_ok [OF T(1,2), of matches k M] 4(2,3) T(3) unfolding treap_find_def by blast
qed

lemma clear_rep: "treap_rep (treap_clear t) {}" "kof (treap_clear t) = kof t" "tnodes (treap_clear t) = tnodes t"
  by (auto simp: treap_rep_def treap_ok_def treap_clear_def kof_def intro: exI [of _ Leaf])

text \<open>C38: Every sequence of calls of \<open>insert\<close>, \<open>remove\<close> and \<open>find\<close> on a cleared treap that inserts nodes with new keys and removes nodes that are in it
  returns, and each \<open>find\<close> gives the node with that key which was inserted and not removed, or the null pointer: the treap
  behaves as a list of nodes that is searched by key.\<close>

theorem treap_refines_list:
  assumes "dom (tnodes t) = set objs" "spec_run (kof t) objs [] ops = Some xs"
  shows "index_run treap_insert treap_remove (\<lambda>t. treap_find (key_matches t) t) (treap_clear t) ops = Some xs"
proof (rule tix.run_refines [where A = "[]" and objs = objs])
  show "treap_rep (treap_clear t) (set [])" using clear_rep(1) by simp
  show "key_matches s a k = Some (kof s a = k)" if "a \<in> dom (tnodes s)" for s :: "'a treap" and a k
    using that by (auto simp: key_matches_def kof_def)
qed (use assms in \<open>simp_all add: clear_rep\<close>)

definition demo_treap :: "nat treap" where
  "demo_treap = \<lparr>troot = 0, nextprio = 0, tnodes = [1 \<mapsto> new_node 30, 2 \<mapsto> new_node 10, 3 \<mapsto> new_node 20, 4 \<mapsto> new_node 30]\<rparr>"

theorem treap_refines_list_witness:
  "index_run treap_insert treap_remove (\<lambda>t. treap_find (key_matches t) t) (treap_clear demo_treap)
     [IIns 1, IIns 2, IIns 3, IFind 20, IRem 1, IFind 30, IIns 4, IFind 30] = Some [3, 0, 4]"
  by (rule treap_refines_list [where objs = "[1, 2, 3, 4]"]) (auto simp: demo_treap_def kof_def new_node_def split: if_splits)

section \<open>Nodes with the same key\<close>

text \<open>A second node with the same key hides the first one: \<open>remove\<close> does not find it, and its assertion fails.\<close>

lemma remove_same_key:
  "\<exists>t1 t2. treap_insert (treap_clear demo_treap) 1 = Some t1 \<and> treap_insert t1 4 = Some t2 \<and> treap_remove t2 1 = None"
proof -
  let ?n = "tnodes demo_treap"
  have ip: "insert_pos t k 0 q = Some (0, q)" for t :: "nat treap" and k q by (subst insert_pos.simps) simp
  have 1: "treap_insert (treap_clear demo_treap) 1 = Some \<lparr>troot = 1, nextprio = - 1326372262,
      tnodes = ?n(1 \<mapsto> \<lparr>tkey = 30, tprio = 314159265, tleft = 0, tright = 0\<rparr>)\<rparr>" (is "_ = Some ?t1")
    by (simp add: treap_insert_def treap_clear_def ip demo_treap_def new_node_def) (subst split_loop.simps, simp add: int32_def)
  have 2: "treap_insert ?t1 4 = Some \<lparr>troot = 4, nextprio = 1328063507, tnodes = ?n(1 \<mapsto> \<lparr>tkey = 30, tprio = 314159265, tleft = 0, tright = 0\<rparr>,
      4 \<mapsto> \<lparr>tkey = 30, tprio = - 1326372262, tleft = 1, tright = 0\<rparr>)\<rparr>" (is "_ = Some ?t2")
    unfolding treap_insert_def
    by (subst insert_pos.simps, simp add: demo_treap_def new_node_def, subst split_loop.simps, simp add: trd.simps, subst split_loop.simps, simp add: int32_def fun_upd_twist)
  have "remove_pos ?t2 1 (TRight 4) = Some (TRight 4)" by (subst remove_pos.simps) (simp add: trd.simps)
  then have "remove_pos ?t2 1 TRoot = Some (TRight 4)" by (subst remove_pos.simps) (simp add: demo_treap_def new_node_def)
  then have "treap_remove ?t2 1 = None" by (simp add: treap_remove_def trd.simps)
  then show ?thesis using 1 2 by blast
qed

end
