(* ===== verification/Regions.thy ===== *)
theory Regions
  imports MemAreas SwapMap KErrno
begin

text \<open>
  Regions of memory and their pages, \<open>kernel/src/mem/region.cc\<close> and \<open>kernel/include/mem/region.h\<close>, with the parts of
  \<open>virtmem.cc\<close> that swap the page of a region out and in. The array \<open>pageFlags\<close> is a list of words: three flags, and above
  them the block of a page that is swapped out. What \<open>Cache::alloc\<close> and \<open>realloc\<close> return is an argument: the words, with arbitrary contents, or nothing.
  The regions of the system together keep the reference counts of the swap map.
\<close>

section \<open>Definitions\<close>

record region =
  rflags :: "32 word"
  rfile :: "nat option"
  roffset :: nat
  loadCount :: nat
  byteCount :: nat
  rtimestamp :: nat
  pfSize :: nat
  pageFlags :: "32 word list"
  vms :: "nat list"

abbreviation PF_COPYONWRITE :: "32 word" where "PF_COPYONWRITE \<equiv> 1"
abbreviation PF_DEMANDLOAD :: "32 word" where "PF_DEMANDLOAD \<equiv> 2"
abbreviation PF_SWAPPED :: "32 word" where "PF_SWAPPED \<equiv> 4"

text \<open>Tests of single flags, by the numbers of their bits.\<close>

abbreviation is_cow :: "32 word \<Rightarrow> bool" where "is_cow w \<equiv> bit w 0"
abbreviation is_demand :: "32 word \<Rightarrow> bool" where "is_demand w \<equiv> bit w 1"
abbreviation is_swapped :: "32 word \<Rightarrow> bool" where "is_swapped w \<equiv> bit w 2"

definition shareable :: "region \<Rightarrow> bool" where "shareable r = bit (rflags r) 0"
definition growable :: "region \<Rightarrow> bool" where "growable r = bit (rflags r) 1"
definition grows_down :: "region \<Rightarrow> bool" where "grows_down r = bit (rflags r) 2"

definition BYTES_2_PAGES :: "nat \<Rightarrow> nat" where
  "BYTES_2_PAGES b = uadd b (PAGE - 1) div PAGE"

definition swap_block :: "32 word \<Rightarrow> nat" where
  "swap_block w = unat (drop_bit 3 w)"

definition getSwapBlock :: "region \<Rightarrow> nat \<Rightarrow> nat option" where
  "getSwapBlock r i = do {
     vassert (i < length (pageFlags r));
     vassert (is_swapped (pageFlags r ! i));
     Some (swap_block (pageFlags r ! i)) }"

definition with_block :: "32 word \<Rightarrow> nat \<Rightarrow> 32 word" where
  "with_block w b = (w AND 7) OR push_bit 3 (word_of_nat b)"

definition setSwapBlock :: "region \<Rightarrow> nat \<Rightarrow> nat \<Rightarrow> region option" where
  "setSwapBlock r i b = do {
     vassert (i < length (pageFlags r));
     Some (r\<lparr>pageFlags := (pageFlags r)[i := with_block (pageFlags r ! i) b]\<rparr>) }"

definition getPageFlags :: "region \<Rightarrow> nat \<Rightarrow> 32 word option" where
  "getPageFlags r i = (if i < length (pageFlags r) then Some (pageFlags r ! i) else None)"

definition setPageFlags :: "region \<Rightarrow> nat \<Rightarrow> 32 word \<Rightarrow> region option" where
  "setPageFlags r i w = (if i < length (pageFlags r) then Some (r\<lparr>pageFlags := (pageFlags r)[i := w]\<rparr>) else None)"

definition region_addTo :: "bool \<Rightarrow> region \<Rightarrow> nat \<Rightarrow> (bool \<times> region) option" where
  "region_addTo memok r vm = do {
     vassert (vms r = [] \<or> shareable r);
     Some (if memok then (True, r\<lparr>vms := vms r @ [vm]\<rparr>) else (False, r)) }"

definition region_remFrom :: "region \<Rightarrow> nat \<Rightarrow> bool \<times> region" where
  "region_remFrom r vm = (vm \<in> set (vms r), r\<lparr>vms := remove1 vm (vms r)\<rparr>)"

definition region_init :: "(nat \<Rightarrow> 32 word list option) \<Rightarrow> 32 word \<Rightarrow> region \<Rightarrow> (bool \<times> region) option" where
  "region_init alloc pgFlags r = do {
     vassert (\<not> (shareable r \<and> growable r));
     vassert (pgFlags = - 1 \<or> pgFlags = PF_DEMANDLOAD \<or> pgFlags = 0);
     let r1 = (if rfile r = None then r\<lparr>roffset := 0, loadCount := 0\<rparr> else r);
     let pages = BYTES_2_PAGES (byteCount r1);
     let r2 = r1\<lparr>pfSize := max 1 pages\<rparr>;
     case alloc (pfSize r2) of
       None \<Rightarrow> Some (False, r2\<lparr>byteCount := 0\<rparr>)
     | Some ws \<Rightarrow> Some (True, r2\<lparr>pageFlags := (if pgFlags = - 1 then ws else replicate pages pgFlags @ drop pages ws)\<rparr>) }"

definition new_region :: "(nat \<Rightarrow> 32 word list option) \<Rightarrow> nat option \<Rightarrow> nat \<Rightarrow> nat \<Rightarrow> nat \<Rightarrow> 32 word \<Rightarrow> 32 word \<Rightarrow> (bool \<times> region) option" where
  "new_region alloc f bCount lCount off pgFlags fl = region_init alloc pgFlags
     \<lparr>rflags = fl, rfile = f, roffset = off, loadCount = lCount, byteCount = bCount, rtimestamp = 0, pfSize = 0, pageFlags = [], vms = []\<rparr>"

text \<open>The loops over the pages of the copy constructor and of the destructor.\<close>

fun inc_blocks :: "swapmap \<Rightarrow> 32 word list \<Rightarrow> swapmap option" where
  "inc_blocks sm [] = Some sm"
| "inc_blocks sm (w # ws) = do {
     sm1 \<leftarrow> (if is_swapped w then swap_incRefs sm (swap_block w) else Some sm);
     inc_blocks sm1 ws }"

fun free_blocks :: "swapmap \<Rightarrow> 32 word list \<Rightarrow> swapmap option" where
  "free_blocks sm [] = Some sm"
| "free_blocks sm (w # ws) = do {
     sm1 \<leftarrow> (if is_swapped w then swap_free sm (swap_block w) else Some sm);
     free_blocks sm1 ws }"

definition region_clone :: "(nat \<Rightarrow> 32 word list option) \<Rightarrow> bool \<Rightarrow> region \<Rightarrow> nat \<Rightarrow> swapmap \<Rightarrow> (bool \<times> region \<times> swapmap) option" where
  "region_clone alloc memok reg vm sm = do {
     vassert (\<not> shareable reg);
     (ok, r) \<leftarrow> region_init alloc (- 1) (reg\<lparr>rtimestamp := 0, pfSize := 0, pageFlags := [], vms := []\<rparr>);
     if \<not> ok then Some (False, r, sm)
     else do {
       let cnt = BYTES_2_PAGES (byteCount reg);
       vassert (cnt \<le> length (pageFlags reg) \<and> cnt \<le> length (pageFlags r));
       sm1 \<leftarrow> inc_blocks sm (take cnt (pageFlags reg));
       (_, r1) \<leftarrow> region_addTo memok (r\<lparr>pageFlags := take cnt (pageFlags reg) @ drop cnt (pageFlags r)\<rparr>) vm;
       Some (True, r1, sm1) } }"

definition region_destroy :: "region \<Rightarrow> swapmap \<Rightarrow> swapmap option" where
  "region_destroy r sm = do {
     let pcount = BYTES_2_PAGES (byteCount r);
     vassert (pcount \<le> length (pageFlags r));
     free_blocks sm (take pcount (pageFlags r)) }"

definition region_pageCount :: "region \<Rightarrow> nat \<times> nat" where
  "region_pageCount r = (let ws = take (BYTES_2_PAGES (byteCount r)) (pageFlags r) in
     (length (filter (\<lambda>w. \<not> is_demand w \<and> \<not> is_swapped w) ws), length (filter is_swapped ws)))"

definition region_grow :: "(nat \<Rightarrow> 32 word list option) \<Rightarrow> int \<Rightarrow> region \<Rightarrow> swapmap \<Rightarrow> (int \<times> nat \<times> region \<times> swapmap) option" where
  "region_grow realloc amount r sm = do {
     vassert (growable r);
     let cnt = BYTES_2_PAGES (byteCount r);
     if amount > 0 then do {
       let n = nat amount;
       case realloc ((pfSize r + n) * 4 mod 2 ^ 32 div 4) of
         None \<Rightarrow> Some (- ENOMEM, 0, r, sm)
       | Some ws \<Rightarrow> do {
           let pf = take (length ws) (pageFlags r) @ drop (length (pageFlags r)) ws;
           vassert (cnt + n \<le> length pf);
           let pf' = (if grows_down r then replicate n 0 @ take cnt pf @ drop (n + cnt) pf
                      else take cnt pf @ replicate n 0 @ drop (cnt + n) pf);
           Some (0, 0, r\<lparr>pfSize := uadd (pfSize r) n, pageFlags := pf',
             byteCount := uadd (ROUND_PAGE_UP (byteCount r)) (n * PAGE)\<rparr>, sm) } }
     else do {
       let n = nat (- amount);
       if byteCount r < n * PAGE mod 2 ^ 32 then Some (- ENOMEM, 0, r, sm)
       else do {
         let gone = (if n \<le> cnt then drop (cnt - n) (take cnt (pageFlags r)) else []);
         sm1 \<leftarrow> free_blocks sm gone;
         vassert (grows_down r \<longrightarrow> n \<le> cnt);
         let pf' = (if grows_down r then take (cnt - n) (drop n (pageFlags r)) @ drop (cnt - n) (pageFlags r) else pageFlags r);
         Some (int (length (filter is_swapped gone)), length (filter (\<lambda>w. \<not> is_swapped w \<and> \<not> is_cow w \<and> \<not> is_demand w) gone),
           r\<lparr>pageFlags := pf', byteCount := usub (ROUND_PAGE_UP (byteCount r)) (n * PAGE)\<rparr>, sm1) } } }"

section \<open>Swapping pages of regions\<close>

text \<open>The page to swap out, \<open>getPgIdxForSwap\<close>: a random one among those that are in memory and not shared.\<close>

definition swappable :: "32 word \<Rightarrow> bool" where
  "swappable w \<longleftrightarrow> \<not> is_swapped w \<and> \<not> is_cow w \<and> \<not> is_demand w"

fun nth_swappable :: "nat \<Rightarrow> nat \<Rightarrow> 32 word list \<Rightarrow> nat option" where
  "nth_swappable i n [] = None"
| "nth_swappable i n (w # ws) = (if swappable w then if n = 0 then Some i else nth_swappable (Suc i) (n - 1) ws else nth_swappable (Suc i) n ws)"

definition getPgIdxForSwap :: "nat \<Rightarrow> region \<Rightarrow> nat option" where
  "getPgIdxForSwap rnd r = (let ws = take (BYTES_2_PAGES (byteCount r)) (pageFlags r); cnt = length (filter swappable ws) in
     if cnt > 0 then nth_swappable 0 (rnd mod cnt) ws else None)"

definition swap_out_page :: "region \<Rightarrow> nat \<Rightarrow> swapmap \<Rightarrow> (region \<times> swapmap) option" where
  "swap_out_page r i sm = do {
     let (b, sm1) = swap_alloc sm;
     vassert (b \<noteq> INVALID_BLOCK);
     w \<leftarrow> getPageFlags r i;
     r1 \<leftarrow> setPageFlags r i (w OR PF_SWAPPED);
     r2 \<leftarrow> setSwapBlock r1 i b;
     Some (r2, sm1) }"

definition swap_in_page :: "region \<Rightarrow> nat \<Rightarrow> swapmap \<Rightarrow> (bool \<times> region \<times> swapmap) option" where
  "swap_in_page r i sm = do {
     w \<leftarrow> getPageFlags r i;
     if \<not> is_swapped w then Some (False, r, sm)
     else do {
       b \<leftarrow> getSwapBlock r i;
       r1 \<leftarrow> setPageFlags r i (w AND NOT PF_SWAPPED);
       r2 \<leftarrow> setSwapBlock r1 i 0;
       sm1 \<leftarrow> swap_free sm b;
       Some (True, r2, sm1) } }"

section \<open>The pages of a region\<close>

definition pages :: "region \<Rightarrow> 32 word list" where
  "pages r = take (BYTES_2_PAGES (byteCount r)) (pageFlags r)"

definition region_ok :: "region \<Rightarrow> bool" where
  "region_ok r \<longleftrightarrow> length (pageFlags r) = pfSize r \<and> BYTES_2_PAGES (byteCount r) \<le> pfSize r \<and> byteCount r + PAGE \<le> 2 ^ 32 \<and>
     \<not> (shareable r \<and> growable r)"

text \<open>An allocator returns arrays of the size that was asked for.\<close>

definition gives_size :: "(nat \<Rightarrow> 32 word list option) \<Rightarrow> bool" where
  "gives_size alloc \<longleftrightarrow> (\<forall>n ws. alloc n = Some ws \<longrightarrow> length ws = n)"

lemma round_pages: "ROUND_PAGE_UP b = BYTES_2_PAGES b * PAGE"
  by (simp add: ROUND_PAGE_UP_def BYTES_2_PAGES_def)

lemma pages_multiple: "k * PAGE + PAGE \<le> 2 ^ 32 \<Longrightarrow> BYTES_2_PAGES (k * PAGE) = k"
  by (simp add: BYTES_2_PAGES_def uadd_small)

lemma pages_bounds:
  assumes "b + PAGE \<le> 2 ^ 32"
  shows "b \<le> BYTES_2_PAGES b * PAGE" "BYTES_2_PAGES b * PAGE < b + PAGE" "BYTES_2_PAGES b * PAGE + PAGE \<le> 2 ^ 32"
proof -
  have e: "BYTES_2_PAGES b = (b + 4095) div 4096" using assms by (simp add: BYTES_2_PAGES_def uadd_small)
  show 1: "b \<le> BYTES_2_PAGES b * PAGE" "BYTES_2_PAGES b * PAGE < b + PAGE" unfolding e by (simp_all add: dividend_less_div_times)
  have "BYTES_2_PAGES b * PAGE + PAGE \<le> b + 4095 + PAGE" using 1 by simp
  moreover have "b + 4095 + PAGE < 2 ^ 32 + PAGE" using assms by simp
  moreover have "(2 ^ 32 :: nat) = 1048576 * PAGE" by simp
  ultimately have "(BYTES_2_PAGES b + 1) * PAGE < (1048576 + 1) * PAGE" by simp
  then have "BYTES_2_PAGES b + 1 \<le> 1048576" by simp
  then show "BYTES_2_PAGES b * PAGE + PAGE \<le> 2 ^ 32" by simp
qed

lemma region_okD:
  assumes "region_ok r"
  shows "length (pages r) = BYTES_2_PAGES (byteCount r)" "BYTES_2_PAGES (byteCount r) \<le> length (pageFlags r)" "pfSize r = length (pageFlags r)"
    "byteCount r + PAGE \<le> 2 ^ 32"
  using assms by (auto simp: region_ok_def pages_def)

lemma new_region_ok:
  assumes "new_region alloc f b l off pg fl = Some (True, r)" "gives_size alloc" "b + PAGE \<le> 2 ^ 32" "pg \<noteq> - 1"
  shows "region_ok r" "pages r = replicate (BYTES_2_PAGES b) pg" "pg = 0 \<or> pg = PF_DEMANDLOAD"
proof -
  obtain ws where ws: "alloc (max 1 (BYTES_2_PAGES b)) = Some ws" "pg = 0 \<or> pg = PF_DEMANDLOAD" "\<not> (bit fl 0 \<and> bit fl 1)"
    "r = \<lparr>rflags = fl, rfile = f, roffset = if f = None then 0 else off, loadCount = if f = None then 0 else l, byteCount = b, rtimestamp = 0,
      pfSize = max 1 (BYTES_2_PAGES b), pageFlags = replicate (BYTES_2_PAGES b) pg @ drop (BYTES_2_PAGES b) ws, vms = []\<rparr>"
    using assms(1,4) by (auto simp: new_region_def region_init_def Let_def shareable_def growable_def split: option.splits if_splits bind_splits)
  then have "length ws = max 1 (BYTES_2_PAGES b)" using assms(2) by (auto simp: gives_size_def)
  then show "region_ok r" "pages r = replicate (BYTES_2_PAGES b) pg" "pg = 0 \<or> pg = PF_DEMANDLOAD"
    using ws assms(3) by (auto simp: region_ok_def pages_def shareable_def growable_def)
qed

text \<open>What growing by \<open>n\<close> pages does, and shrinking by \<open>n\<close> pages.\<close>

lemma grow_pages:
  assumes "region_ok r" "growable r" "0 < n" "(BYTES_2_PAGES (byteCount r) + n + 1) * PAGE \<le> 2 ^ 32" "pfSize r + n < 2 ^ 30"
    "realloc (pfSize r + n) = Some ws" "gives_size realloc"
  shows "\<exists>r'. region_grow realloc (int n) r sm = Some (0, 0, r', sm) \<and> region_ok r' \<and> rflags r' = rflags r \<and> vms r' = vms r \<and>
    byteCount r' = ROUND_PAGE_UP (byteCount r) + n * PAGE \<and> pages r' = (if grows_down r then replicate n 0 @ pages r else pages r @ replicate n 0)"
proof -
  let ?c = "BYTES_2_PAGES (byteCount r)"
  define pf where "pf = take (length ws) (pageFlags r) @ drop (length (pageFlags r)) ws"
  note ok = region_okD [OF assms(1)]
  have len: "length ws = pfSize r + n" using assms(6,7) by (simp add: gives_size_def)
  have m: "(pfSize r + n) * 4 mod 2 ^ 32 div 4 = pfSize r + n" using assms(5) by simp
  have pf: "length pf = pfSize r + n" "take ?c pf = pages r" using ok(2,3) len by (simp_all add: pf_def pages_def)
  have b: "uadd (ROUND_PAGE_UP (byteCount r)) (n * PAGE) = (?c + n) * PAGE" using assms(4) by (simp add: round_pages uadd_small algebra_simps)
  have u: "uadd (pfSize r) n = pfSize r + n" using assms(5) by (simp add: uadd_small)
  define r' where "r' = r\<lparr>pfSize := pfSize r + n, pageFlags := (if grows_down r then replicate n 0 @ pages r @ drop (n + ?c) pf
      else pages r @ replicate n 0 @ drop (?c + n) pf), byteCount := (?c + n) * PAGE\<rparr>"
  have "region_grow realloc (int n) r sm = Some (0, 0, r', sm)"
    using assms(2,3,6) m pf ok(2,3) b u by (simp add: region_grow_def Let_def pf_def [symmetric] r'_def)
  moreover have k: "BYTES_2_PAGES ((?c + n) * PAGE) = ?c + n" using assms(4) by (intro pages_multiple) (simp add: algebra_simps)
  then have "region_ok r'" using assms(1,4) pf(1) ok by (auto simp: region_ok_def r'_def shareable_def growable_def algebra_simps)
  moreover have "pages r' = (if grows_down r then replicate n 0 @ pages r else pages r @ replicate n 0)"
    unfolding pages_def [of r'] using k ok(1) by (simp add: r'_def algebra_simps)
  ultimately show ?thesis using round_pages [of "byteCount r"] by (intro exI [of _ r']) (simp add: r'_def algebra_simps)
qed

lemma shrink_pages:
  assumes "region_ok r" "growable r" "n * PAGE \<le> byteCount r" "free_blocks sm (drop (length (pages r) - n) (pages r)) = Some sm'"
  shows "\<exists>c own r'. region_grow realloc (- int n) r sm = Some (c, own, r', sm') \<and> region_ok r' \<and> rflags r' = rflags r \<and> vms r' = vms r \<and> pfSize r' = pfSize r \<and>
    byteCount r' = ROUND_PAGE_UP (byteCount r) - n * PAGE \<and> pages r' = (if grows_down r then drop n (pages r) else take (length (pages r) - n) (pages r)) \<and>
    c = int (length (filter is_swapped (drop (length (pages r) - n) (pages r))))"
proof -
  let ?c = "BYTES_2_PAGES (byteCount r)"
  note ok = region_okD [OF assms(1)] and b = pages_bounds [OF region_okD(4) [OF assms(1)]]
  have "n * PAGE \<le> ?c * PAGE" using assms(3) b(1) by linarith
  then have n: "n \<le> ?c" by simp
  have s: "n * PAGE mod 2 ^ 32 = n * PAGE" using assms(3) ok(4) by simp
  have u: "usub (ROUND_PAGE_UP (byteCount r)) (n * PAGE) = (?c - n) * PAGE" using n b(3) by (simp add: round_pages usub_small diff_mult_distrib)
  have k: "BYTES_2_PAGES ((?c - n) * PAGE) = ?c - n"
  proof (rule pages_multiple)
    have "(?c - n) * PAGE \<le> ?c * PAGE" by (simp add: diff_mult_distrib)
    then show "(?c - n) * PAGE + PAGE \<le> 2 ^ 32" using b(3) by linarith
  qed
  define r' where "r' = r\<lparr>pageFlags := (if grows_down r then take (?c - n) (drop n (pageFlags r)) @ drop (?c - n) (pageFlags r) else pageFlags r), byteCount := (?c - n) * PAGE\<rparr>"
  have "\<exists>c own. region_grow realloc (- int n) r sm = Some (c, own, r', sm') \<and> c = int (length (filter is_swapped (drop (length (pages r) - n) (pages r))))"
    using assms(2,3,4) s u n ok(1) by (simp add: region_grow_def Let_def r'_def pages_def)
  moreover have "region_ok r'" using assms(1) k n ok b(3) by (auto simp: region_ok_def r'_def shareable_def growable_def diff_mult_distrib)
  moreover have "pages r' = (if grows_down r then drop n (pages r) else take (length (pages r) - n) (pages r))"
    using k n ok by (simp add: pages_def r'_def drop_take min_def)
  ultimately show ?thesis using round_pages [of "byteCount r"] n by (auto simp: r'_def diff_mult_distrib)
qed

section \<open>References to swap blocks\<close>

definition blocks :: "32 word list \<Rightarrow> nat list" where
  "blocks ws = map swap_block (filter is_swapped ws)"

definition refs :: "region list \<Rightarrow> nat \<Rightarrow> nat" where
  "refs rs b = count_list (concat (map (\<lambda>r. blocks (pages r)) rs)) b"

lemma blocks_simps [simp]: "blocks [] = []" "blocks (w # ws) = (if is_swapped w then swap_block w # blocks ws else blocks ws)"
  "blocks (ws @ vs) = blocks ws @ blocks vs"
  by (simp_all add: blocks_def)

lemma blocks_replicate [simp]: "\<not> is_swapped w \<Longrightarrow> blocks (replicate n w) = []"
  by (induction n) simp_all

lemma refs_simps [simp]: "refs [] b = 0" "refs (r # rs) b = count_list (blocks (pages r)) b + refs rs b" "refs (xs @ ys) b = refs xs b + refs ys b"
  by (simp_all add: refs_def)

lemma refs_member: "r \<in> set rs \<Longrightarrow> count_list (blocks (pages r)) b \<le> refs rs b"
  by (induction rs) auto

lemma swap_total: "swap_step\<^sup>*\<^sup>* s s' \<Longrightarrow> swap_inv s \<Longrightarrow> swap_inv s' \<and> totalBlocks (smap s') = totalBlocks (smap s)"
proof (induction rule: rtranclp_induct)
  case (step s1 s2)
  then have i: "swap_inv s1" "totalBlocks (smap s1) = totalBlocks (smap s)" by auto
  from step(2) have "totalBlocks (smap s2) = totalBlocks (smap s1)"
    by (cases rule: swap_step.cases) (auto simp: swap_alloc_def swap_free_def swap_incRefs_def Let_def split: list.splits bind_splits)
  then show ?case using swap_inv_step [OF step(2) i(1)] i(2) by simp
qed simp

lemma inc_blocks_steps:
  assumes "swap_inv \<lparr>smap = sm, held = h\<rparr>" "\<forall>b \<in> set (blocks ws). 0 < h b" "\<forall>b. h b + count_list (blocks ws) b < 2 ^ 32"
  shows "\<exists>sm'. inc_blocks sm ws = Some sm' \<and> swap_step\<^sup>*\<^sup>* \<lparr>smap = sm, held = h\<rparr> \<lparr>smap = sm', held = \<lambda>b. h b + count_list (blocks ws) b\<rparr>"
  using assms
proof (induction ws arbitrary: sm h)
  case (Cons w ws)
  show ?case
  proof (cases "is_swapped w")
    case True
    let ?b = "swap_block w"
    have h: "0 < h ?b" "h ?b + 1 < 2 ^ 32" using Cons.prems(2,3) True by (auto dest!: spec [of _ ?b])
    then have b: "?b < totalBlocks sm" using swap_invD(3) [OF Cons.prems(1), of ?b] by (cases "?b < totalBlocks sm") auto
    then have "refCounts sm ! ?b = h ?b" using swap_invD(2) [OF Cons.prems(1), of ?b] by simp
    then obtain sm1 where 1: "swap_incRefs sm ?b = Some sm1" using b h(1) by (simp add: swap_incRefs_def)
    have st: "swap_step \<lparr>smap = sm, held = h\<rparr> \<lparr>smap = sm1, held = h(?b := h ?b + 1)\<rparr>"
      using swap_step.sw_inc [of "\<lparr>smap = sm, held = h\<rparr>" ?b sm1] h 1 by simp
    have p: "\<forall>b \<in> set (blocks ws). 0 < (h(?b := h ?b + 1)) b" using Cons.prems(2) True by auto
    have "(h(?b := h ?b + 1)) b + count_list (blocks ws) b < 2 ^ 32" for b using Cons.prems(3) [rule_format, of b] True by (auto split: if_splits)
    then obtain sm' where
      2: "inc_blocks sm1 ws = Some sm'" "swap_step\<^sup>*\<^sup>* \<lparr>smap = sm1, held = h(?b := h ?b + 1)\<rparr> \<lparr>smap = sm', held = \<lambda>b. (h(?b := h ?b + 1)) b + count_list (blocks ws) b\<rparr>"
      using Cons.IH [OF swap_inv_step [OF st Cons.prems(1)] p] by blast
    have "(\<lambda>b. (h(?b := h ?b + 1)) b + count_list (blocks ws) b) = (\<lambda>b. h b + count_list (blocks (w # ws)) b)" using True by auto
    then show ?thesis using 1 2 True converse_rtranclp_into_rtranclp [of swap_step, OF st 2(2)] by auto
  qed (use Cons in simp)
qed simp

lemma free_blocks_steps:
  assumes "swap_inv \<lparr>smap = sm, held = h\<rparr>" "\<forall>b. count_list (blocks ws) b \<le> h b"
  shows "\<exists>sm'. free_blocks sm ws = Some sm' \<and> swap_step\<^sup>*\<^sup>* \<lparr>smap = sm, held = h\<rparr> \<lparr>smap = sm', held = \<lambda>b. h b - count_list (blocks ws) b\<rparr>"
  using assms
proof (induction ws arbitrary: sm h)
  case (Cons w ws)
  show ?case
  proof (cases "is_swapped w")
    case True
    let ?b = "swap_block w"
    have h: "0 < h ?b" using Cons.prems(2) True by (auto dest!: spec [of _ ?b])
    then have b: "?b < totalBlocks sm" using swap_invD(3) [OF Cons.prems(1), of ?b] by (cases "?b < totalBlocks sm") auto
    then obtain sm1 where 1: "swap_free sm ?b = Some sm1" by (simp add: swap_free_def Let_def)
    have st: "swap_step \<lparr>smap = sm, held = h\<rparr> \<lparr>smap = sm1, held = h(?b := h ?b - 1)\<rparr>"
      using swap_step.sw_free [of "\<lparr>smap = sm, held = h\<rparr>" ?b sm1] h 1 by simp
    have "count_list (blocks ws) b \<le> (h(?b := h ?b - 1)) b" for b using Cons.prems(2) [rule_format, of b] True by (auto split: if_splits)
    then obtain sm' where 2: "free_blocks sm1 ws = Some sm'"
      "swap_step\<^sup>*\<^sup>* \<lparr>smap = sm1, held = h(?b := h ?b - 1)\<rparr> \<lparr>smap = sm', held = \<lambda>b. (h(?b := h ?b - 1)) b - count_list (blocks ws) b\<rparr>"
      using Cons.IH [OF swap_inv_step [OF st Cons.prems(1)]] by blast
    have "(\<lambda>b. (h(?b := h ?b - 1)) b - count_list (blocks ws) b) = (\<lambda>b. h b - count_list (blocks (w # ws)) b)" using True by auto
    then show ?thesis using 1 2 True converse_rtranclp_into_rtranclp [of swap_step, OF st 2(2)] by auto
  qed (use Cons in simp)
qed simp

lemma with_block_bits: "bit (with_block w b) 0 = bit w 0" "bit (with_block w b) 1 = bit w 1" "bit (with_block w b) 2 = bit w 2"
  by (auto simp: with_block_def bit_simps)

lemma swap_block_with: "b < 2 ^ 29 \<Longrightarrow> swap_block (with_block w b) = b"
proof -
  assume b: "b < 2 ^ 29"
  have "drop_bit 3 (with_block w b) = word_of_nat b"
  proof (rule bit_word_eqI)
    fix n assume n: "n < LENGTH(32)"
    have "\<not> bit b n" if "29 \<le> n"
    proof -
      have "b < 2 ^ n" using b that by (meson order_less_le_trans power_increasing one_le_numeral)
      then show ?thesis by (simp add: bit_iff_odd)
    qed
    then show "bit (drop_bit 3 (with_block w b)) n = bit (word_of_nat b :: 32 word) n"
      using n by (cases "29 \<le> n") (auto simp: with_block_def bit_simps)
  qed
  then show ?thesis using b by (simp add: swap_block_def unsigned_of_nat take_bit_nat_eq_self)
qed

lemma blocks_update:
  assumes "i < length ws"
  shows "count_list (blocks (ws[i := w])) b + of_bool (is_swapped (ws ! i) \<and> swap_block (ws ! i) = b) =
    count_list (blocks ws) b + of_bool (is_swapped w \<and> swap_block w = b)"
proof -
  have "blocks ws = blocks (take i ws) @ blocks [ws ! i] @ blocks (drop (Suc i) ws)"
    using id_take_nth_drop [OF assms] by (metis append_Cons append_Nil blocks_simps(3))
  moreover have "blocks (ws[i := w]) = blocks (take i ws) @ blocks [w] @ blocks (drop (Suc i) ws)"
    using upd_conv_take_nth_drop [OF assms, of w] by (metis append_Cons append_Nil blocks_simps(3))
  ultimately show ?thesis by simp
qed

lemma pages_update: "i < length (pages r) \<Longrightarrow> pages (r\<lparr>pageFlags := (pageFlags r)[i := w]\<rparr>) = (pages r)[i := w]"
  by (simp add: pages_def take_update_swap)

text \<open>The regions of all processes with the swap map. Flags of a page change besides by swapping as \<open>virtmem.cc\<close> does it: those for copy-on-write and
  demand loading. A region that grows down is not shrunk while it has swapped pages; see the section on deviations for that.\<close>

record regsys =
  rsm :: swapmap
  regs :: "region list"

inductive reg_step :: "regsys \<Rightarrow> regsys \<Rightarrow> bool" where
  rg_new: "new_region alloc f b l off pg fl = Some (True, r) \<Longrightarrow> gives_size alloc \<Longrightarrow> b + PAGE \<le> 2 ^ 32 \<Longrightarrow> pg \<noteq> - 1 \<Longrightarrow>
     reg_step s (s\<lparr>regs := r # regs s\<rparr>)"
| rg_clone: "r \<in> set (regs s) \<Longrightarrow> region_clone alloc memok r vm (rsm s) = Some (True, r', sm) \<Longrightarrow> gives_size alloc \<Longrightarrow>
     \<forall>b. refs (regs s) b + count_list (blocks (pages r)) b < 2 ^ 32 \<Longrightarrow> reg_step s \<lparr>rsm = sm, regs = r' # regs s\<rparr>"
| rg_destroy: "regs s = xs @ r # ys \<Longrightarrow> region_destroy r (rsm s) = Some sm \<Longrightarrow> reg_step s \<lparr>rsm = sm, regs = xs @ ys\<rparr>"
| rg_grow: "regs s = xs @ r # ys \<Longrightarrow> region_grow realloc (int n) r (rsm s) = Some (c, own, r', sm) \<Longrightarrow> gives_size realloc \<Longrightarrow> 0 < n \<Longrightarrow>
     (BYTES_2_PAGES (byteCount r) + n + 1) * PAGE \<le> 2 ^ 32 \<Longrightarrow> pfSize r + n < 2 ^ 30 \<Longrightarrow> reg_step s \<lparr>rsm = sm, regs = xs @ r' # ys\<rparr>"
| rg_shrink: "regs s = xs @ r # ys \<Longrightarrow> region_grow realloc (- int n) r (rsm s) = Some (c, own, r', sm) \<Longrightarrow> n < 2 ^ 20 \<Longrightarrow> (grows_down r \<longrightarrow> blocks (pages r) = []) \<Longrightarrow>
     reg_step s \<lparr>rsm = sm, regs = xs @ r' # ys\<rparr>"
| rg_out: "regs s = xs @ r # ys \<Longrightarrow> getPgIdxForSwap rnd r = Some i \<Longrightarrow> swap_out_page r i (rsm s) = Some (r', sm) \<Longrightarrow>
     reg_step s \<lparr>rsm = sm, regs = xs @ r' # ys\<rparr>"
| rg_in: "regs s = xs @ r # ys \<Longrightarrow> i < length (pages r) \<Longrightarrow> swap_in_page r i (rsm s) = Some (done, r', sm) \<Longrightarrow>
     reg_step s \<lparr>rsm = sm, regs = xs @ r' # ys\<rparr>"
| rg_flags: "regs s = xs @ r # ys \<Longrightarrow> i < length (pages r) \<Longrightarrow> setPageFlags r i w = Some r' \<Longrightarrow> drop_bit 2 w = drop_bit 2 (pageFlags r ! i) \<Longrightarrow>
     reg_step s (s\<lparr>regs := xs @ r' # ys\<rparr>)"

definition reg_abs :: "regsys \<Rightarrow> swapsys" where
  "reg_abs s = \<lparr>smap = rsm s, held = refs (regs s)\<rparr>"

definition reg_inv :: "regsys \<Rightarrow> bool" where
  "reg_inv s \<longleftrightarrow> (\<forall>r \<in> set (regs s). region_ok r) \<and> swap_inv (reg_abs s) \<and> totalBlocks (rsm s) \<le> 2 ^ 20"

lemma reg_abs_eq: "\<forall>b. refs (regs s') b = h b \<Longrightarrow> reg_abs s' = \<lparr>smap = rsm s', held = h\<rparr>"
  by (simp add: reg_abs_def fun_eq_iff)

text \<open>A step that takes the references of one region away, or changes one page of it.\<close>

lemma clone_steps:
  assumes "reg_inv s" "r \<in> set (regs s)" "region_clone alloc memok r vm (rsm s) = Some (True, r', sm)" "gives_size alloc"
    "\<forall>b. refs (regs s) b + count_list (blocks (pages r)) b < 2 ^ 32"
  shows "region_ok r' \<and> swap_step\<^sup>*\<^sup>* (reg_abs s) (reg_abs \<lparr>rsm = sm, regs = r' # regs s\<rparr>)"
proof -
  let ?c = "BYTES_2_PAGES (byteCount r)"
  have ok: "region_ok r" using assms(1,2) by (simp add: reg_inv_def)
  obtain r0 b where r0: "region_init alloc (- 1) (r\<lparr>rtimestamp := 0, pfSize := 0, pageFlags := [], vms := []\<rparr>) = Some (True, r0)"
    "?c \<le> length (pageFlags r0)" "inc_blocks (rsm s) (pages r) = Some sm" "region_addTo memok (r0\<lparr>pageFlags := pages r @ drop ?c (pageFlags r0)\<rparr>) vm = Some (b, r')"
    using assms(3) by (auto simp: region_clone_def Let_def pages_def split: if_splits bind_splits prod.splits)
  have r1: "alloc (max 1 ?c) = Some (pageFlags r0)" "byteCount r0 = byteCount r" "pfSize r0 = max 1 ?c" "rflags r0 = rflags r"
    using r0(1) by (auto simp: region_init_def Let_def split: option.splits if_splits bind_splits)
  have l: "length (pageFlags r0) = max 1 ?c" using r1(1) assms(4) by (simp add: gives_size_def)
  have r': "pageFlags r' = pages r @ drop ?c (pageFlags r0)" "byteCount r' = byteCount r" "pfSize r' = max 1 ?c" "rflags r' = rflags r"
    using r0(4) r1 by (auto simp: region_addTo_def split: if_splits bind_splits)
  have ok': "region_ok r'" using ok r' l region_okD(1) [OF ok] by (auto simp: region_ok_def shareable_def growable_def)
  have p: "pages r' = pages r" unfolding pages_def [of r'] using r' region_okD(1) [OF ok] by simp
  have "\<forall>b \<in> set (blocks (pages r)). 0 < refs (regs s) b"
    using refs_member [OF assms(2)] by (metis count_list_0_iff gr_zeroI le_zero_eq)
  then obtain sm' where "inc_blocks (rsm s) (pages r) = Some sm'"
    "swap_step\<^sup>*\<^sup>* (reg_abs s) \<lparr>smap = sm', held = \<lambda>b. refs (regs s) b + count_list (blocks (pages r)) b\<rparr>"
    using inc_blocks_steps [of "rsm s" "refs (regs s)" "pages r"] assms(1,5) by (auto simp: reg_inv_def reg_abs_def)
  moreover have "reg_abs \<lparr>rsm = sm, regs = r' # regs s\<rparr> = \<lparr>smap = sm, held = \<lambda>b. refs (regs s) b + count_list (blocks (pages r)) b\<rparr>"
    by (simp add: reg_abs_def fun_eq_iff p)
  ultimately show ?thesis using ok' r0(3) by simp
qed

lemma free_steps:
  assumes "reg_inv s" "regs s = xs @ r # ys" "pages r = keep @ gone \<or> pages r = gone @ keep" "free_blocks (rsm s) gone = Some sm" "regs s' = xs @ rs @ ys" "rsm s' = sm"
    "\<forall>b. refs rs b = count_list (blocks keep) b"
  shows "swap_step\<^sup>*\<^sup>* (reg_abs s) (reg_abs s')"
proof -
  have c: "refs (regs s) b = refs xs b + count_list (blocks keep) b + count_list (blocks gone) b + refs ys b" for b using assms(2,3) by auto
  then obtain sm' where "free_blocks (rsm s) gone = Some sm'" "swap_step\<^sup>*\<^sup>* (reg_abs s) \<lparr>smap = sm', held = \<lambda>b. refs (regs s) b - count_list (blocks gone) b\<rparr>"
    using free_blocks_steps [of "rsm s" "refs (regs s)" gone] assms(1) by (auto simp: reg_inv_def reg_abs_def)
  moreover have "refs (regs s') b = refs (regs s) b - count_list (blocks gone) b" for b using c [of b] assms(5,7) by simp
  then have "reg_abs s' = \<lparr>smap = rsm s', held = \<lambda>b. refs (regs s) b - count_list (blocks gone) b\<rparr>" by (simp add: reg_abs_eq)
  ultimately show ?thesis using assms(4,6) by simp
qed

lemma page_change:
  fixes w :: "32 word"
  assumes "i < length (pages r)"
  defines "r' \<equiv> r\<lparr>pageFlags := (pageFlags r)[i := w]\<rparr>"
  shows "region_ok r \<Longrightarrow> region_ok r'"
    "refs (xs @ r' # ys) b + of_bool (is_swapped (pageFlags r ! i) \<and> swap_block (pageFlags r ! i) = b) =
       refs (xs @ r # ys) b + of_bool (is_swapped w \<and> swap_block w = b)"
proof -
  show "region_ok r \<Longrightarrow> region_ok r'" by (simp add: region_ok_def r'_def shareable_def growable_def)
  have "pages r ! i = pageFlags r ! i" using assms(1) by (simp add: pages_def)
  then show "refs (xs @ r' # ys) b + of_bool (is_swapped (pageFlags r ! i) \<and> swap_block (pageFlags r ! i) = b) =
      refs (xs @ r # ys) b + of_bool (is_swapped w \<and> swap_block w = b)"
    using blocks_update [OF assms(1), of w b] pages_update [OF assms(1)] by (simp add: r'_def)
qed

lemma nth_swappable: "nth_swappable j n ws = Some i \<Longrightarrow> j \<le> i \<and> i - j < length ws \<and> swappable (ws ! (i - j))"
proof (induction ws arbitrary: j n)
  case (Cons w ws)
  show ?case
  proof (cases "swappable w \<and> n = 0")
    case False
    then obtain n' where "nth_swappable (Suc j) n' ws = Some i" using Cons.prems by (cases "swappable w") auto
    from Cons.IH [OF this] have *: "Suc j \<le> i" "i - Suc j < length ws" "swappable (ws ! (i - Suc j))" by simp_all
    then have "i - j = Suc (i - Suc j)" by simp
    then show ?thesis using * by simp
  qed (use Cons.prems in auto)
qed simp

lemma swap_index: "getPgIdxForSwap rnd r = Some i \<Longrightarrow> i < length (pages r) \<and> i < length (pageFlags r) \<and> swappable (pageFlags r ! i)"
proof -
  assume "getPgIdxForSwap rnd r = Some i"
  then obtain n where "nth_swappable 0 n (pages r) = Some i" by (auto simp: getPgIdxForSwap_def Let_def pages_def split: if_splits)
  from nth_swappable [OF this] show ?thesis by (auto simp: pages_def)
qed

lemma out_steps:
  assumes "reg_inv s" "regs s = xs @ r # ys" "getPgIdxForSwap rnd r = Some i" "swap_out_page r i (rsm s) = Some (r', sm)"
  shows "region_ok r' \<and> swap_step (reg_abs s) (reg_abs \<lparr>rsm = sm, regs = xs @ r' # ys\<rparr>)"
proof -
  note i = swap_index [OF assms(3)]
  obtain b where b: "swap_alloc (rsm s) = (b, sm)" "b \<noteq> INVALID_BLOCK" "r' = r\<lparr>pageFlags := (pageFlags r)[i := with_block (pageFlags r ! i OR PF_SWAPPED) b]\<rparr>"
    using assms(4) i by (auto simp: swap_out_page_def getPageFlags_def setPageFlags_def setSwapBlock_def Let_def split: prod.splits if_splits bind_splits)
  have inv: "swap_inv (reg_abs s)" "totalBlocks (rsm s) \<le> 2 ^ 20" "region_ok r" using assms(1,2) by (auto simp: reg_inv_def)
  have "b < totalBlocks (rsm s)" using swap_alloc_ok [of "rsm s" b sm] swap_invD(1) [OF inv(1)] b(1,2) by (auto simp: reg_abs_def split: if_splits)
  then have "swap_block (with_block (pageFlags r ! i OR PF_SWAPPED) b) = b" using inv(2) by (intro swap_block_with) simp
  moreover have "is_swapped (with_block (pageFlags r ! i OR PF_SWAPPED) b)" by (simp add: with_block_bits bit_simps)
  ultimately have "refs (xs @ r' # ys) c = ((refs (regs s))(b := refs (regs s) b + 1)) c" for c
    using page_change(2) [of i r xs "with_block (pageFlags r ! i OR PF_SWAPPED) b" ys c] i assms(2) by (auto simp: b(3) swappable_def)
  then have "reg_abs \<lparr>rsm = sm, regs = xs @ r' # ys\<rparr> = \<lparr>smap = sm, held = (held (reg_abs s))(b := held (reg_abs s) b + 1)\<rparr>"
    by (simp add: reg_abs_def fun_eq_iff)
  moreover have "region_ok r'" using page_change(1) i inv(3) b(3) by blast
  ultimately show ?thesis using swap_step.sw_alloc [of "reg_abs s" b sm] b(1,2) by (simp add: reg_abs_def)
qed

lemma in_steps:
  assumes "reg_inv s" "regs s = xs @ r # ys" "i < length (pages r)" "swap_in_page r i (rsm s) = Some (d, r', sm)"
  shows "region_ok r' \<and> swap_step\<^sup>*\<^sup>* (reg_abs s) (reg_abs \<lparr>rsm = sm, regs = xs @ r' # ys\<rparr>)"
proof (cases "is_swapped (pageFlags r ! i)")
  case True
  have inv: "swap_inv (reg_abs s)" "region_ok r" using assms(1,2) by (auto simp: reg_inv_def)
  let ?b = "swap_block (pageFlags r ! i)" and ?w = "with_block (pageFlags r ! i AND NOT PF_SWAPPED) 0"
  have i: "i < length (pageFlags r)" using assms(3) by (simp add: pages_def)
  have b: "swap_free (rsm s) ?b = Some sm" "r' = r\<lparr>pageFlags := (pageFlags r)[i := ?w]\<rparr>"
    using assms(4) i True by (auto simp: swap_in_page_def getPageFlags_def getSwapBlock_def setPageFlags_def setSwapBlock_def Let_def split: prod.splits if_splits bind_splits)
  have "\<not> is_swapped (pageFlags r ! i AND NOT PF_SWAPPED)" by (simp add: bit_and_iff bit_not_iff bit_simps)
  then have w: "\<not> is_swapped ?w" using with_block_bits(3) by blast
  have c: "refs (xs @ r' # ys) c + of_bool (?b = c) = refs (regs s) c" for c
    using page_change(2) [OF assms(3), of xs ?w ys c] assms(2) w True by (simp add: b(2))
  have "refs (xs @ r' # ys) c = ((refs (regs s))(?b := refs (regs s) ?b - 1)) c" for c
  proof (cases "c = ?b")
    case True
    then show ?thesis using c [of ?b] by simp
  next
    case False
    then show ?thesis using c [of c] by simp
  qed
  then have "reg_abs \<lparr>rsm = sm, regs = xs @ r' # ys\<rparr> = \<lparr>smap = sm, held = (held (reg_abs s))(?b := held (reg_abs s) ?b - 1)\<rparr>"
    by (simp add: reg_abs_def fun_eq_iff)
  moreover have "0 < held (reg_abs s) ?b" using c [of ?b] by (simp add: reg_abs_def)
  moreover have "region_ok r'" using page_change(1) [OF assms(3)] inv(2) b(2) by blast
  ultimately show ?thesis using swap_step.sw_free [of "reg_abs s" ?b sm] b(1) by (auto simp: reg_abs_def)
next
  case False
  have "i < length (pageFlags r)" using assms(3) by (simp add: pages_def)
  then have "r' = r" "sm = rsm s" using assms(4) False by (auto simp: swap_in_page_def getPageFlags_def)
  then show ?thesis using assms(1,2) by (simp add: reg_abs_def reg_inv_def)
qed

lemma grow_steps:
  assumes "reg_inv s" "regs s = xs @ r # ys" "region_grow realloc (int n) r (rsm s) = Some (c, own, r', sm)" "gives_size realloc" "0 < n"
    "(BYTES_2_PAGES (byteCount r) + n + 1) * PAGE \<le> 2 ^ 32" "pfSize r + n < 2 ^ 30"
  shows "region_ok r' \<and> reg_abs \<lparr>rsm = sm, regs = xs @ r' # ys\<rparr> = reg_abs s"
proof (cases "realloc (pfSize r + n)")
  case None
  have m: "(pfSize r + n) * 4 mod 2 ^ 32 div 4 = pfSize r + n" using assms(7) by simp
  have "r' = r" "sm = rsm s" using assms(3,5) None m by (auto simp: region_grow_def Let_def split: bind_splits)
  then show ?thesis using assms(1,2) by (simp add: reg_inv_def reg_abs_def)
next
  case (Some ws)
  have g: "growable r" "region_ok r" using assms(1,2,3) by (auto simp: region_grow_def reg_inv_def split: bind_splits)
  obtain r1 where "region_grow realloc (int n) r (rsm s) = Some (0, 0, r1, rsm s)" "region_ok r1"
    "pages r1 = (if grows_down r then replicate n 0 @ pages r else pages r @ replicate n 0)"
    using grow_pages [OF g(2,1) assms(5,6,7) Some assms(4)] by blast
  then show ?thesis using assms(2,3) by (auto simp: reg_abs_def fun_eq_iff)
qed

lemma no_blocks: "blocks ws = [] \<Longrightarrow> free_blocks sm ws = Some sm" "blocks ws = [] \<Longrightarrow> blocks (drop k ws) = []"
proof -
  show "blocks ws = [] \<Longrightarrow> free_blocks sm ws = Some sm" by (induction ws) (simp_all split: if_splits)
  show "blocks ws = [] \<Longrightarrow> blocks (drop k ws) = []" by (auto simp: blocks_def filter_empty_conv dest: in_set_dropD)
qed

lemma shrink_steps:
  assumes "reg_inv s" "regs s = xs @ r # ys" "region_grow realloc (- int n) r (rsm s) = Some (c, own, r', sm)" "n < 2 ^ 20" "grows_down r \<longrightarrow> blocks (pages r) = []"
  shows "region_ok r' \<and> swap_step\<^sup>*\<^sup>* (reg_abs s) (reg_abs \<lparr>rsm = sm, regs = xs @ r' # ys\<rparr>)"
proof (cases "n * PAGE \<le> byteCount r")
  case True
  have g: "growable r" "region_ok r" using assms(1,2,3) by (auto simp: region_grow_def reg_inv_def split: bind_splits)
  let ?gone = "drop (length (pages r) - n) (pages r)" and ?keep = "take (length (pages r) - n) (pages r)"
  have "n * PAGE \<le> BYTES_2_PAGES (byteCount r) * PAGE" using True pages_bounds(1) [OF region_okD(4) [OF g(2)]] by linarith
  then have "n \<le> BYTES_2_PAGES (byteCount r)" by simp
  moreover have "n * PAGE mod 2 ^ 32 = n * PAGE" using assms(4) by simp
  ultimately obtain sm1 where f: "free_blocks (rsm s) ?gone = Some sm1"
    using assms(3) g True region_okD(1) [OF g(2)] by (auto simp: region_grow_def Let_def pages_def split: bind_splits)
  obtain c1 own1 r1 where "region_grow realloc (- int n) r (rsm s) = Some (c1, own1, r1, sm1)" "region_ok r1"
    "pages r1 = (if grows_down r then drop n (pages r) else ?keep)" using shrink_pages [OF g(2,1) True f, of realloc] by auto
  then have r: "region_ok r'" "pages r' = (if grows_down r then drop n (pages r) else ?keep)" "sm = sm1" using assms(3) by auto
  show ?thesis
  proof (cases "grows_down r")
    case True
    then have "blocks (pages r) = []" "sm = rsm s" "blocks (pages r') = []" using assms(5) no_blocks f r(2,3) by auto
    then have "reg_abs \<lparr>rsm = sm, regs = xs @ r' # ys\<rparr> = reg_abs s" using assms(2) by (simp add: reg_abs_def refs_def fun_eq_iff)
    then show ?thesis using r(1) by simp
  qed (use r free_steps [OF assms(1,2), of ?keep ?gone sm "\<lparr>rsm = sm, regs = xs @ r' # ys\<rparr>" "[r']"] f in simp)
next
  case False
  then have "byteCount r < n * PAGE mod 2 ^ 32" using assms(4) by simp
  then have "r' = r" "sm = rsm s" using assms(3) by (auto simp: region_grow_def Let_def split: bind_splits if_splits)
  then show ?thesis using assms(1,2) by (simp add: reg_inv_def reg_abs_def)
qed

lemma reg_step_ok: "reg_step s s' \<Longrightarrow> reg_inv s \<Longrightarrow> (\<forall>r \<in> set (regs s'). region_ok r) \<and> swap_step\<^sup>*\<^sup>* (reg_abs s) (reg_abs s')"
proof (induction rule: reg_step.induct)
  case (rg_new alloc f b l off pg fl r s)
  note n = new_region_ok [OF rg_new(1-4)]
  have "\<not> is_swapped pg" using n(3) by (auto simp: bit_simps)
  then have "reg_abs (s\<lparr>regs := r # regs s\<rparr>) = reg_abs s" using n by (simp add: reg_abs_def fun_eq_iff)
  then show ?case using n rg_new(5) by (simp add: reg_inv_def)
next
  case (rg_clone r s alloc memok vm r' sm)
  then show ?case using clone_steps [of s r alloc memok vm r' sm] by (simp add: reg_inv_def)
next
  case (rg_destroy s xs r ys sm)
  then have "free_blocks (rsm s) (pages r) = Some sm" by (auto simp: region_destroy_def pages_def Let_def split: bind_splits)
  then show ?case using free_steps [OF rg_destroy(3,1), of "[]" "pages r" sm "\<lparr>rsm = sm, regs = xs @ ys\<rparr>" "[]"] rg_destroy by (simp add: reg_inv_def)
next
  case (rg_grow s xs r ys realloc n c own r' sm)
  then show ?case using grow_steps [OF rg_grow(7,1,2,3,4,5,6)] by (auto simp: reg_inv_def)
next
  case (rg_shrink s xs r ys realloc n c own r' sm)
  then show ?case using shrink_steps [OF rg_shrink(5,1,2,3,4)] by (auto simp: reg_inv_def)
next
  case (rg_out s xs r ys rnd i r' sm)
  then show ?case using out_steps [OF rg_out(4,1,2,3)] by (auto simp: reg_inv_def)
next
  case (rg_in s xs r ys i d r' sm)
  then show ?case using in_steps [OF rg_in(4,1,2,3)] by (auto simp: reg_inv_def)
next
  case (rg_flags s xs r ys i w r')
  have "i < length (pageFlags r)" using rg_flags(2) by (simp add: pages_def)
  then have r': "r' = r\<lparr>pageFlags := (pageFlags r)[i := w]\<rparr>" using rg_flags(3) by (auto simp: setPageFlags_def)
  have "bit (drop_bit 2 w) n = bit (drop_bit 2 (pageFlags r ! i)) n" for n using rg_flags(4) by simp
  from this [of 0] have "is_swapped w = is_swapped (pageFlags r ! i)" by (simp add: bit_drop_bit_eq)
  moreover have "swap_block w = swap_block (pageFlags r ! i)"
    using rg_flags(4) arg_cong [of _ _ "drop_bit 1"] unfolding swap_block_def by (metis drop_bit_drop_bit one_plus_numeral semiring_norm(3))
  ultimately have "refs (xs @ r' # ys) b = refs (xs @ r # ys) b" for b using page_change(2) [OF rg_flags(2), of xs w ys b] r' by simp
  then have "reg_abs (s\<lparr>regs := xs @ r' # ys\<rparr>) = reg_abs s" using rg_flags(1) by (simp add: reg_abs_def fun_eq_iff)
  then show ?case using page_change(1) [OF rg_flags(2), of w] rg_flags(1,5) r' by (auto simp: reg_inv_def)
qed

definition reg_start :: "regsys \<Rightarrow> bool" where
  "reg_start s \<longleftrightarrow> (\<exists>sz. swap_init True sz = Some (rsm s) \<and> sz < 2 ^ 32) \<and> regs s = []"

interpretation reg_runs: refinement reg_step reg_start reg_inv swap_step reg_abs
proof (unfold_locales, goal_cases)
  case (1 s)
  then obtain sz where sz: "swap_init True sz = Some (rsm s)" "sz < 2 ^ 32" "regs s = []" by (auto simp: reg_start_def)
  have "totalBlocks (rsm s) = sz div 4096" using sz(1) by (auto simp: swap_init_def Let_def split: bind_splits dest!: sym [of _ "rsm s"])
  moreover have "refs [] = (\<lambda>_. 0)" by (simp add: fun_eq_iff)
  moreover have "sz div 4096 \<le> 2 ^ 20" using sz(2) by simp
  ultimately show ?case using swap_init_ok [OF sz(1,2)] sz(3) by (simp add: reg_inv_def reg_abs_def)
next
  case (2 s s')
  then have "swap_inv (reg_abs s)" "totalBlocks (rsm s) \<le> 2 ^ 20" by (simp_all add: reg_inv_def)
  then show ?case using reg_step_ok [OF 2] swap_total [of "reg_abs s" "reg_abs s'"] by (simp add: reg_inv_def) (simp add: reg_abs_def)
next
  case (3 s s')
  then show ?case using reg_step_ok by blast
qed

section \<open>Properties\<close>

text \<open>C39: Whatever regions are created, cloned, grown, shrunk at their end, destroyed and swapped, except that no region that grows down is shrunk while it has swapped pages, the reference count of every swap block is the number of pages of regions that lie in it. So a
  block with the contents of a page is not given to another page, and destroying a region never fails: it frees exactly the blocks that no other region uses.\<close>

theorem region_swap_refs:
  assumes "reg_start s0" "reg_step\<^sup>*\<^sup>* s0 s"
  shows "(\<forall>b < totalBlocks (rsm s). refCounts (rsm s) ! b = refs (regs s) b) \<and> swap_step\<^sup>*\<^sup>* (reg_abs s0) (reg_abs s) \<and>
    (\<forall>b sm. swap_alloc (rsm s) = (b, sm) \<and> b \<noteq> INVALID_BLOCK \<longrightarrow> refs (regs s) b = 0) \<and>
    (\<forall>r \<in> set (regs s). \<exists>sm. region_destroy r (rsm s) = Some sm \<and>
       (\<forall>b < totalBlocks (rsm s). refCounts sm ! b = refs (regs s) b - count_list (blocks (pages r)) b))"
proof -
  have inv: "reg_inv s" using reg_runs.reachable [OF assms(2,1)] .
  then have si: "swap_inv \<lparr>smap = rsm s, held = refs (regs s)\<rparr>" by (simp add: reg_inv_def reg_abs_def)
  note h = swap_invD(2) [OF si, simplified]
  have al: "refs (regs s) b = 0" if "swap_alloc (rsm s) = (b, sm)" "b \<noteq> INVALID_BLOCK" for b sm
    using swap_alloc_ok [OF _ that(1)] swap_invD(1) [OF si] that(2) h [of b] by (auto split: if_splits)
  have d: "\<exists>sm. region_destroy r (rsm s) = Some sm \<and> (\<forall>b < totalBlocks (rsm s). refCounts sm ! b = refs (regs s) b - count_list (blocks (pages r)) b)"
    if r: "r \<in> set (regs s)" for r
  proof -
    have ok: "region_ok r" using inv r by (simp add: reg_inv_def)
    obtain sm where sm: "free_blocks (rsm s) (pages r) = Some sm"
      "swap_step\<^sup>*\<^sup>* \<lparr>smap = rsm s, held = refs (regs s)\<rparr> \<lparr>smap = sm, held = \<lambda>b. refs (regs s) b - count_list (blocks (pages r)) b\<rparr>"
      using free_blocks_steps [OF si, of "pages r"] refs_member [OF r] by blast
    note t = swap_total [OF sm(2) si]
    have "region_destroy r (rsm s) = Some sm" using sm(1) region_okD(2) [OF ok] by (simp add: region_destroy_def pages_def Let_def)
    moreover have "refCounts sm ! b = refs (regs s) b - count_list (blocks (pages r)) b" if "b < totalBlocks (rsm s)" for b
      using t that swap_invD(2) [of "\<lparr>smap = sm, held = \<lambda>b. refs (regs s) b - count_list (blocks (pages r)) b\<rparr>" b] by simp
    ultimately show ?thesis by blast
  qed
  show ?thesis using h al d reg_runs.refines [OF assms(2,1)] by auto
qed

definition demo_alloc :: "nat \<Rightarrow> 32 word list option" where
  "demo_alloc n = Some (replicate n 0)"

definition demo_region :: region where
  "demo_region = \<lparr>rflags = 0, rfile = None, roffset = 0, loadCount = 0, byteCount = 0x1800, rtimestamp = 0, pfSize = 2, pageFlags = [0, 0], vms = []\<rparr>"

lemma demo_new: "new_region demo_alloc None 0x1800 0 0 0 0 = Some (True, demo_region)"
proof -
  have "BYTES_2_PAGES 0x1800 = 2" by (simp add: BYTES_2_PAGES_def uadd_def)
  moreover have "replicate 2 (0 :: 32 word) = [0, 0]" by (simp add: numeral_2_eq_2)
  ultimately show ?thesis by (simp add: new_region_def region_init_def demo_alloc_def demo_region_def Let_def shareable_def)
qed

theorem region_swap_refs_witness:
  "\<exists>sm s. swap_init True 0x2000 = Some sm \<and> s = \<lparr>rsm = sm, regs = [demo_region]\<rparr> \<and> refCounts (rsm s) ! 0 = refs (regs s) 0 \<and> refCounts (rsm s) ! 1 = refs (regs s) 1"
proof -
  obtain sm where sm: "swap_init True 0x2000 = Some sm" "totalBlocks sm = 2" by (simp add: swap_init_def Let_def)
  have st: "reg_start \<lparr>rsm = sm, regs = []\<rparr>" using sm(1) by (auto simp: reg_start_def intro!: exI [of _ "0x2000"])
  have "reg_step \<lparr>rsm = sm, regs = []\<rparr> \<lparr>rsm = sm, regs = [demo_region]\<rparr>"
    using reg_step.rg_new [OF demo_new, of "\<lparr>rsm = sm, regs = []\<rparr>"] by (simp add: gives_size_def demo_alloc_def)
  from region_swap_refs [OF st r_into_rtranclp [of reg_step, OF this]] show ?thesis using sm by auto
qed

text \<open>C40: \<open>grow\<close> keeps the flags of the pages that stay: with a positive amount, it adds that many pages with no flags, before the others if the region grows down and behind them
  otherwise; with a negative amount, it takes that many pages from the same end. It returns \<open>ENOMEM\<close> and changes nothing exactly if the array of flags cannot be enlarged or the region is smaller than
  the pages to take away. The size in bytes is rounded up to pages first. The region stays below 4 GiB, its array of flags below \<open>2 ^ 30\<close> entries, and the swap blocks of its last pages are in use.\<close>

theorem region_grow_pages:
  assumes "region_ok r" "growable r" "gives_size realloc" "amount < 2 ^ 20" "- (2 ^ 20) < amount"
    "(int (BYTES_2_PAGES (byteCount r)) + amount + 1) * int PAGE \<le> 2 ^ 32" "pfSize r + nat amount < 2 ^ 30" "\<exists>sm'. free_blocks sm (drop (length (pages r) - nat (- amount)) (pages r)) = Some sm'"
  shows "\<exists>c own r' sm'. region_grow realloc amount r sm = Some (c, own, r', sm') \<and> region_ok r' \<and>
    (if (0 < amount \<and> realloc (pfSize r + nat amount) = None) \<or> (amount \<le> 0 \<and> byteCount r < nat (- amount) * PAGE)
     then c = - ENOMEM \<and> r' = r \<and> sm' = sm
     else 0 \<le> c \<and> byteCount r' = nat (int (ROUND_PAGE_UP (byteCount r)) + amount * int PAGE) \<and>
       pages r' = (if grows_down r then replicate (nat amount) 0 @ drop (nat (- amount)) (pages r)
                   else take (length (pages r) - nat (- amount)) (pages r) @ replicate (nat amount) 0))"
proof (cases "0 < amount")
  case True
  define n where "n = nat amount"
  have n: "amount = int n" "0 < n" using True by (simp_all add: n_def)
  have "int ((BYTES_2_PAGES (byteCount r) + n + 1) * PAGE) \<le> int (2 ^ 32)" using assms(6) n(1) by simp
  then have b: "(BYTES_2_PAGES (byteCount r) + n + 1) * PAGE \<le> 2 ^ 32" by (simp only: of_nat_le_iff)
  have p: "pfSize r + n < 2 ^ 30" using assms(7) n(1) by simp
  show ?thesis
  proof (cases "realloc (pfSize r + n)")
    case None
    have "(pfSize r + n) * 4 mod 2 ^ 32 div 4 = pfSize r + n" using p by simp
    then have "region_grow realloc (int n) r sm = Some (- ENOMEM, 0, r, sm)" using assms(2) n(2) None by (simp add: region_grow_def Let_def)
    then show ?thesis using assms(1) n None by auto
  next
    case ws: (Some ws)
  obtain r' where r': "region_grow realloc (int n) r sm = Some (0, 0, r', sm)" "region_ok r'" "byteCount r' = ROUND_PAGE_UP (byteCount r) + n * PAGE"
    "pages r' = (if grows_down r then replicate n 0 @ pages r else pages r @ replicate n 0)" using grow_pages [OF assms(1,2) n(2) b p ws assms(3), of sm] by blast
  have "nat (int (ROUND_PAGE_UP (byteCount r)) + amount * int PAGE) = ROUND_PAGE_UP (byteCount r) + n * PAGE"
    using n(1) by (simp add: nat_eq_iff)
  then show ?thesis using r' n ws by simp
  qed
next
  case False
  define n where "n = nat (- amount)"
  have n: "amount = - int n" "nat amount = 0" "n < 2 ^ 20" using False assms(5) by (simp_all add: n_def)
  show ?thesis
  proof (cases "byteCount r < n * PAGE")
    case True
    then have "region_grow realloc (- int n) r sm = Some (- ENOMEM, 0, r, sm)" using assms(2) n(3) by (simp add: region_grow_def Let_def)
    then show ?thesis using assms(1) n(1) True by auto
  next
    case False
    then have le: "n * PAGE \<le> byteCount r" by simp
    obtain sm' where sm': "free_blocks sm (drop (length (pages r) - n) (pages r)) = Some sm'" using assms(8) n(1) by auto
    obtain c own r' where r': "region_grow realloc (- int n) r sm = Some (c, own, r', sm')" "region_ok r'" "byteCount r' = ROUND_PAGE_UP (byteCount r) - n * PAGE"
      "pages r' = (if grows_down r then drop n (pages r) else take (length (pages r) - n) (pages r))" using shrink_pages [OF assms(1,2) le sm'] by blast
    have "n * PAGE \<le> ROUND_PAGE_UP (byteCount r)" using le pages_bounds(1) [OF region_okD(4) [OF assms(1)]] round_pages [of "byteCount r"] by linarith
    then have "nat (int (ROUND_PAGE_UP (byteCount r)) + amount * int PAGE) = ROUND_PAGE_UP (byteCount r) - n * PAGE" using n(1) by (simp add: nat_eq_iff of_nat_diff)
    moreover have "0 \<le> c" using r'(1) False n(3) by (auto simp: region_grow_def Let_def split: bind_splits if_splits)
    ultimately show ?thesis using r' n(1,2) False by (intro exI [of _ c] exI [of _ own] exI [of _ r'] exI [of _ sm']) simp
  qed
qed

theorem region_grow_pages_witness:
  "\<exists>c own r' sm'. region_grow demo_alloc 1 (demo_region\<lparr>rflags := 6\<rparr>) \<lparr>totalBlocks = 1, freeBlocks = 1, refCounts = [0], freeChain = [0]\<rparr> = Some (c, own, r', sm') \<and> pages r' = [0, 0, 0]"
proof -
  let ?r = "demo_region\<lparr>rflags := 6\<rparr>" and ?sm = "\<lparr>totalBlocks = 1, freeBlocks = 1, refCounts = [0], freeChain = [0]\<rparr>"
  have b: "bit (6 :: 32 word) 1" "bit (6 :: 32 word) 2" "\<not> bit (6 :: 32 word) 0" by (simp_all add: bit_simps)
  have k: "BYTES_2_PAGES 0x1800 = 2" by (simp add: BYTES_2_PAGES_def uadd_def)
  have ok: "region_ok ?r" "growable ?r" "grows_down ?r" "pages ?r = [0, 0]" "gives_size demo_alloc"
    using b k by (simp_all add: region_ok_def growable_def grows_down_def shareable_def pages_def demo_region_def gives_size_def demo_alloc_def)
  have f: "\<exists>sm'. free_blocks ?sm (drop (length (pages ?r) - nat (- 1)) (pages ?r)) = Some sm'" using ok(4) by simp
  from region_grow_pages [OF ok(1,2,5) _ _ _ _ f] ok(3,4) k show ?thesis by (fastforce simp: demo_alloc_def demo_region_def)
qed

section \<open>Deviations\<close>

text \<open>Shrinking a region that grows down takes its first pages away, but frees the blocks of its last pages: here the block of the page that stays is freed, and that of
  the page that disappears is lost.\<close>

lemma shrink_down_wrong_block:
  defines "sm \<equiv> \<lparr>totalBlocks = 2, freeBlocks = 0, refCounts = [1, 1], freeChain = []\<rparr>"
  defines "r \<equiv> \<lparr>rflags = 6, rfile = None, roffset = 0, loadCount = 0, byteCount = 0x2000, rtimestamp = 0, pfSize = 2, pageFlags = [4, 12], vms = []\<rparr>"
  shows "\<exists>own r' sm'. region_grow realloc (- 1) r sm = Some (1, own, r', sm') \<and> blocks (pages r) = [0, 1] \<and> blocks (pages r') = [1] \<and> refCounts sm' = [1, 0]"
proof -
  have k: "BYTES_2_PAGES 0x2000 = 2" "BYTES_2_PAGES 0x1000 = 1" "ROUND_PAGE_UP 0x2000 = 0x2000" "usub 0x2000 0x1000 = 0x1000" "usub 1 1 = 0" "uadd 0 1 = 1"
    by (simp_all add: BYTES_2_PAGES_def ROUND_PAGE_UP_def uadd_def usub_def)
  have b: "bit (6 :: 32 word) 1" "bit (6 :: 32 word) 2" "bit (4 :: 32 word) 2" "bit (12 :: 32 word) 2" "swap_block 4 = 0" "swap_block 12 = 1"
    by (simp_all add: bit_simps swap_block_def)
  show ?thesis using b k by (simp add: region_grow_def r_def sm_def Let_def growable_def grows_down_def swap_free_def pages_def)
qed

text \<open>The array of page flags never shrinks, but grows with every growth: after growing and shrinking by the same amount it has more entries than before, and
  \<open>getPageCount\<close>, which returns its size, is not the number of pages.\<close>

lemma grow_shrink_leaks:
  assumes "region_ok r" "growable r" "\<not> grows_down r" "0 < n" "(BYTES_2_PAGES (byteCount r) + n + 1) * PAGE \<le> 2 ^ 32" "pfSize r + n < 2 ^ 30"
    "realloc (pfSize r + n) = Some ws" "gives_size realloc"
  shows "\<exists>r1 c own r2. region_grow realloc (int n) r sm = Some (0, 0, r1, sm) \<and> region_grow realloc (- int n) r1 sm = Some (c, own, r2, sm) \<and>
    pages r2 = pages r \<and> pfSize r2 = pfSize r + n"
proof -
  obtain r1 where r1: "region_grow realloc (int n) r sm = Some (0, 0, r1, sm)" "region_ok r1" "rflags r1 = rflags r"
    "byteCount r1 = ROUND_PAGE_UP (byteCount r) + n * PAGE" "pages r1 = pages r @ replicate n 0" using grow_pages [OF assms(1,2,4-8), of sm] assms(3) by auto
  have p: "pfSize r1 = pfSize r + n" using r1(1) assms(4,6) by (auto simp: region_grow_def Let_def uadd_small split: option.splits if_splits bind_splits)
  have g: "growable r1" "\<not> grows_down r1" using assms(2,3) r1(3) by (simp_all add: growable_def grows_down_def)
  have "free_blocks sm (replicate n 0) = Some sm" by (induction n) simp_all
  then have f: "free_blocks sm (drop (length (pages r1) - n) (pages r1)) = Some sm" using r1(5) by simp
  have le: "n * PAGE \<le> byteCount r1" using r1(4) by simp
  from shrink_pages [OF r1(2) g(1) le f] obtain c own r2 where "region_grow realloc (- int n) r1 sm = Some (c, own, r2, sm)" "pages r2 = pages r" "pfSize r2 = pfSize r1"
    using g(2) r1(5) by fastforce
  then show ?thesis using r1(1) p by auto
qed

end
