(* ===== verification/Stdio.thy ===== *)
theory Stdio
  imports Numbers
begin

text \<open>
  Formatted output and input, \<open>lib/c/stdio\<close>: buffers, \<open>bputc\<close> and the functions for numbers, \<open>vbprintf\<close> and \<open>vbscanf\<close>. A text is
  a list of bytes without its terminating 0. Undefined behaviour, as an argument that is missing, has no result.
  Floating-point numbers are not modelled; what prints them is an argument of \<open>vbprintf\<close>.
\<close>

section \<open>Output buffers\<close>

abbreviation EOF_c :: int where "EOF_c \<equiv> - 1"
abbreviation ch :: "char \<Rightarrow> byte" where "ch c \<equiv> of_char c"

type_synonym bytes = "byte list"

text \<open>
  The buffer has the bytes up to \<open>pos\<close>; \<open>sink\<close> is what has been written to the file, and \<open>outcomes\<close> says which of the next calls of
  \<open>write\<close> and \<open>realloc\<close> succeed (all, when it is empty).
\<close>

record outbuf =
  ofd :: int
  otext :: bytes
  omax :: nat
  odynamic :: bool
  onull :: bool
  ostderr :: bool
  oerror :: bool
  sink :: bytes
  outcomes :: "bool list"

definition succeeds :: "outbuf \<Rightarrow> bool \<times> outbuf" where
  "succeeds f = (case outcomes f of [] \<Rightarrow> (True, f) | b # bs \<Rightarrow> (b, f\<lparr>outcomes := bs\<rparr>))"

type_synonym out = "(int \<times> outbuf) option"

text \<open>\<open>RETERR\<close>, and adding its value to a count.\<close>

definition reterr :: "out \<Rightarrow> (int \<Rightarrow> outbuf \<Rightarrow> out) \<Rightarrow> out" where
  "reterr r k = do { (v, f) \<leftarrow> r; if v < 0 then Some (v, f) else k v f }"

definition counting :: "out \<Rightarrow> (outbuf \<Rightarrow> out) \<Rightarrow> out" where
  "counting r g = reterr r (\<lambda>c f. reterr (g f) (\<lambda>d f'. Some (c + d, f')))"

lemma reterr_mono [partial_function_mono]:
  assumes "mono_option (\<lambda>g. r g)" "\<And>v f. mono_option (\<lambda>g. k g v f)"
  shows "mono_option (\<lambda>g. reterr (r g) (k g))"
  unfolding reterr_def by (intro bind_mono assms) (auto intro!: if_mono assms option.const_mono split: prod.splits)

lemma counting_mono [partial_function_mono]:
  assumes "mono_option (\<lambda>g. r g)" "\<And>f. mono_option (\<lambda>g. k g f)"
  shows "mono_option (\<lambda>g. counting (r g) (k g))"
  unfolding counting_def by (intro reterr_mono assms option.const_mono)

definition bflush :: "outbuf \<Rightarrow> int \<times> outbuf" where
  "bflush f = (if ofd f \<ge> 0 \<and> otext f \<noteq> [] then
     let (ok, f1) = succeeds f in
     if ok then (0, f1\<lparr>sink := sink f1 @ otext f, otext := []\<rparr>) else (EOF_c, f1\<lparr>otext := [], oerror := True\<rparr>)
   else (0, f))"

definition bput :: "outbuf \<Rightarrow> byte \<Rightarrow> outbuf" where
  "bput f c = f\<lparr>otext := otext f @ [c]\<rparr>"

definition bputc :: "outbuf \<Rightarrow> byte \<Rightarrow> out" where
  "bputc f c =
     (if onull f then Some (EOF_c, f)
      else if ofd f \<ge> 0 then
        reterr (if length (otext f) \<ge> omax f then Some (bflush f) else Some (0, f)) (\<lambda>_ f1.
        reterr (if ostderr f \<and> c = 10 then Some (bflush (bput f1 c)) else Some (0, bput f1 c)) (\<lambda>_ f2. Some (uint c, f2)))
      else if length (otext f) \<ge> omax f then
        if \<not> odynamic f then Some (EOF_c, f)
        else let (ok, f1) = succeeds f in
          if ok then Some (uint c, bput (f1\<lparr>omax := omax f * 2 mod 2 ^ 32\<rparr>) c) else Some (EOF_c, f1)
      else Some (uint c, bput f c))"

text \<open>A character for which a function counts 1.\<close>

definition put1 :: "byte \<Rightarrow> outbuf \<Rightarrow> out" where
  "put1 c f = reterr (bputc f c) (\<lambda>_ f'. Some (1, f'))"

section \<open>Numbers and strings\<close>

record ffl =
  PADRIGHT :: bool
  FORCESIGN :: bool
  SPACESIGN :: bool
  PRINTBASE :: bool
  PADZEROS :: bool
  CAPHEX :: bool
  fSHORT :: bool
  fLONG :: bool
  fLONGLONG :: bool
  fSIZE :: bool

definition no_flags :: ffl where
  "no_flags = \<lparr>PADRIGHT = False, FORCESIGN = False, SPACESIGN = False, PRINTBASE = False, PADZEROS = False, CAPHEX = False,
     fSHORT = False, fLONG = False, fLONGLONG = False, fSIZE = False\<rparr>"

fun bprintpad :: "nat \<Rightarrow> ffl \<Rightarrow> outbuf \<Rightarrow> out" where
  "bprintpad 0 fl f = Some (0, f)"
| "bprintpad (Suc n) fl f = counting (put1 (if PADZEROS fl then ch CHR ''0'' else ch CHR '' '') f) (bprintpad n fl)"

text \<open>\<open>bprintn\<close> and \<open>bprintl\<close>, with the wrap-around of their type.\<close>

partial_function (option) bprints :: "nat \<Rightarrow> int \<Rightarrow> outbuf \<Rightarrow> out" where
  "bprints w n f = (let m = (if n < 0 then signed_take_bit w (- n) else n) in
     counting (counting (if n < 0 then put1 (ch CHR ''-'') f else Some (0, f)) (\<lambda>f. if m \<ge> 10 then bprints w (m sdiv 10) f else Some (0, f)))
       (put1 (word_of_int (48 + m smod 10))))"

definition bprintn :: "int \<Rightarrow> outbuf \<Rightarrow> out" where "bprintn = bprints 31"
definition bprintl :: "int \<Rightarrow> outbuf \<Rightarrow> out" where "bprintl = bprints 63"

definition hexCharsBig :: bytes where "hexCharsBig = map of_char ''0123456789ABCDEF''"
definition hexCharsSmall :: bytes where "hexCharsSmall = map of_char ''0123456789abcdef''"

text \<open>\<open>bprintu\<close> and \<open>bprintul\<close>; the base is the divisor, and an index behind the characters is a fault.\<close>

partial_function (option) bprintu :: "nat \<Rightarrow> nat \<Rightarrow> bytes \<Rightarrow> outbuf \<Rightarrow> out" where
  "bprintu u base hexchars f = do {
     vassert (base \<noteq> 0);
     vassert (u mod base < length hexchars);
     counting (if u \<ge> base then bprintu (u div base) base hexchars f else Some (0, f)) (put1 (hexchars ! (u mod base))) }"

definition bprintul :: "nat \<Rightarrow> nat \<Rightarrow> bytes \<Rightarrow> outbuf \<Rightarrow> out" where "bprintul = bprintu"

definition signed_prefix :: "int \<Rightarrow> ffl \<Rightarrow> outbuf \<Rightarrow> out" where
  "signed_prefix n fl f = (if n > 0 then if FORCESIGN fl then put1 (ch CHR ''+'') f else if SPACESIGN fl then put1 (ch CHR '' '') f else Some (0, f) else Some (0, f))"

definition unsigned_prefix :: "nat \<Rightarrow> ffl \<Rightarrow> outbuf \<Rightarrow> out" where
  "unsigned_prefix base fl f = (if PRINTBASE fl then
     counting (if base = 16 \<or> base = 8 then put1 (ch CHR ''0'') f else Some (0, f))
       (\<lambda>f. if base = 16 then put1 (if CAPHEX fl then ch CHR ''X'' else ch CHR ''x'') f else Some (0, f))
   else Some (0, f))"

definition pad_right :: "nat \<Rightarrow> ffl \<Rightarrow> out \<Rightarrow> out" where
  "pad_right pad fl r = reterr r (\<lambda>c f. if PADRIGHT fl \<and> int32 (int pad) > c then counting (Some (c, f)) (bprintpad (nat (int pad - c)) fl) else Some (c, f))"

definition pad_left :: "bool \<Rightarrow> nat \<Rightarrow> nat option \<Rightarrow> ffl \<Rightarrow> outbuf \<Rightarrow> out" where
  "pad_left cond pad width fl f = (if cond \<and> \<not> PADRIGHT fl \<and> pad > 0 then do { w \<leftarrow> width; if pad > w then bprintpad (pad - w) fl f else Some (0, f) } else Some (0, f))"

text \<open>\<open>bprintnpad\<close> and \<open>bprintlpad\<close>: they differ in the width and the number.\<close>

definition bprints_pad :: "nat \<Rightarrow> (int \<Rightarrow> outbuf \<Rightarrow> out) \<Rightarrow> int \<Rightarrow> nat \<Rightarrow> ffl \<Rightarrow> outbuf \<Rightarrow> out" where
  "bprints_pad width num n pad fl f = pad_right pad fl
     (counting (counting (pad_left True pad (Some (if n > 0 \<and> (FORCESIGN fl \<or> SPACESIGN fl) then width + 1 else width)) fl f) (signed_prefix n fl)) (num n))"

definition bprintnpad :: "int \<Rightarrow> nat \<Rightarrow> ffl \<Rightarrow> outbuf \<Rightarrow> out" where
  "bprintnpad n = bprints_pad (getnwidth n) bprintn n"

definition bprintlpad :: "int \<Rightarrow> nat \<Rightarrow> ffl \<Rightarrow> outbuf \<Rightarrow> out" where
  "bprintlpad n = bprints_pad (getllwidth n) bprintl n"

definition bprintupad :: "nat \<Rightarrow> nat \<Rightarrow> nat \<Rightarrow> ffl \<Rightarrow> outbuf \<Rightarrow> out" where
  "bprintupad u base pad fl f = pad_right pad fl
     (counting (counting (counting (pad_left (\<not> PADZEROS fl) pad (getuwidth u base) fl f) (unsigned_prefix base fl))
       (pad_left (PADZEROS fl) pad (getuwidth u base) fl)) (bprintu u base (if CAPHEX fl then hexCharsBig else hexCharsSmall)))"

definition bprintulpad :: "nat \<Rightarrow> nat \<Rightarrow> nat \<Rightarrow> ffl \<Rightarrow> outbuf \<Rightarrow> out" where
  "bprintulpad u base pad fl f = pad_right pad fl
     (counting (counting (counting (pad_left (\<not> PADZEROS fl) pad (getullwidth u base) fl f) (unsigned_prefix base fl))
       (pad_left (PADZEROS fl) pad (getullwidth u base) fl)) (bprintul u base (if CAPHEX fl then hexCharsBig else hexCharsSmall)))"

fun bputs_loop :: "bytes \<Rightarrow> int \<Rightarrow> outbuf \<Rightarrow> out" where
  "bputs_loop [] p f = Some (0, f)"
| "bputs_loop (c # cs) p f = (if p \<le> 0 then Some (0, f) else counting (put1 c f) (bputs_loop cs (p - 1)))"

fun bputs_all :: "bytes \<Rightarrow> outbuf \<Rightarrow> out" where
  "bputs_all [] f = Some (0, f)"
| "bputs_all (c # cs) f = counting (put1 c f) (bputs_all cs)"

definition bputs :: "bytes \<Rightarrow> int \<Rightarrow> outbuf \<Rightarrow> out" where
  "bputs s precision f = (if precision \<noteq> -1 then bputs_loop s precision f else bputs_all s f)"

section \<open>vbprintf\<close>

text \<open>The arguments as they lie in the argument area, and the stores of \<open>%n\<close>.\<close>

datatype 'd arg = AWord "32 word" | ADWord "64 word" | AStr "bytes option" | APtr addr | ADbl 'd

type_synonym stores = "(addr \<times> int) list"

definition schar8 :: "int \<Rightarrow> int" where
  "schar8 x = signed_take_bit 7 x"

text \<open>The flags. The width is a \<open>char\<close>, whether it comes from an argument or from the format.\<close>

fun read_flags :: "bytes \<Rightarrow> 'd arg list \<Rightarrow> ffl \<Rightarrow> int \<Rightarrow> (bytes \<times> 'd arg list \<times> ffl \<times> int) option" where
  "read_flags [] args fl pad = Some ([], args, fl, pad)"
| "read_flags (c # cs) args fl pad =
     (if c = ch CHR ''-'' then read_flags cs args (fl\<lparr>PADRIGHT := True\<rparr>) pad
      else if c = ch CHR ''+'' then read_flags cs args (fl\<lparr>FORCESIGN := True\<rparr>) pad
      else if c = ch CHR '' '' then read_flags cs args (fl\<lparr>SPACESIGN := True\<rparr>) pad
      else if c = ch CHR ''#'' then read_flags cs args (fl\<lparr>PRINTBASE := True\<rparr>) pad
      else if c = ch CHR ''0'' then read_flags cs args (fl\<lparr>PADZEROS := True\<rparr>) pad
      else if c = ch CHR ''*'' then (case args of AWord w # as \<Rightarrow> read_flags cs as fl (schar8 (uint w)) | _ \<Rightarrow> None)
      else Some (c # cs, args, fl, pad))"

fun read_num :: "(int \<Rightarrow> int) \<Rightarrow> bytes \<Rightarrow> int \<Rightarrow> int \<times> bytes" where
  "read_num wrap [] n = (n, [])"
| "read_num wrap (c # cs) n = (if is_digit c then read_num wrap cs (wrap (n * 10 + (uint c - 48))) else (n, c # cs))"

definition read_prec :: "bytes \<Rightarrow> 'd arg list \<Rightarrow> (int \<times> bytes \<times> 'd arg list) option" where
  "read_prec cs args = (case cs of
     c # d # cs' \<Rightarrow> if c \<noteq> ch CHR ''.'' then Some (- 1, cs, args)
       else if d = ch CHR ''*'' then (case args of AWord w # as \<Rightarrow> Some (sint w, cs', as) | _ \<Rightarrow> None)
       else (case read_num int32 (d # cs') 0 of (p, cs'') \<Rightarrow> Some (p, cs'', args))
   | [c] \<Rightarrow> if c = ch CHR ''.'' then Some (0, [], args) else Some (- 1, cs, args)
   | [] \<Rightarrow> Some (- 1, cs, args))"

definition read_len :: "bytes \<Rightarrow> ffl \<Rightarrow> ffl \<times> bytes" where
  "read_len cs fl = (case cs of [] \<Rightarrow> (fl, cs) | c # cs' \<Rightarrow>
     if c = ch CHR ''l'' then (fl\<lparr>fLONG := True\<rparr>, cs')
     else if c = ch CHR ''L'' then (fl\<lparr>fLONGLONG := True\<rparr>, cs')
     else if c = ch CHR ''z'' then (fl\<lparr>fSIZE := True\<rparr>, cs')
     else if c = ch CHR ''h'' then (fl\<lparr>fSHORT := True\<rparr>, cs')
     else (fl, cs))"

definition print_signed :: "ffl \<Rightarrow> nat \<Rightarrow> 'd arg \<Rightarrow> outbuf \<Rightarrow> out" where
  "print_signed fl pad a f =
     (if fLONGLONG fl then (case a of ADWord w \<Rightarrow> bprintlpad (sint w) pad fl f | _ \<Rightarrow> None)
      else (case a of AWord w \<Rightarrow>
          if fLONG fl \<or> fSIZE fl then bprintlpad (sint w) pad fl f
          else bprintnpad (if fSHORT fl then uint w mod 65536 else sint w) pad fl f
        | _ \<Rightarrow> None))"

definition print_unsigned :: "nat \<Rightarrow> ffl \<Rightarrow> nat \<Rightarrow> 'd arg \<Rightarrow> outbuf \<Rightarrow> out" where
  "print_unsigned base fl pad a f =
     (if fLONGLONG fl then (case a of ADWord w \<Rightarrow> bprintulpad (unat w) base pad fl f | _ \<Rightarrow> None)
      else (case a of AWord w \<Rightarrow>
          if fLONG fl \<or> fSIZE fl then bprintulpad (unat w) base pad fl f
          else bprintupad (if fSHORT fl then unat w mod 65536 else unat w) base pad fl f
        | _ \<Rightarrow> None))"

definition print_pointer :: "ffl \<Rightarrow> 'd arg \<Rightarrow> outbuf \<Rightarrow> out" where
  "print_pointer fl a f = (case a of AWord w \<Rightarrow>
     let fl' = fl\<lparr>PADZEROS := True\<rparr> in
     counting (counting (bprintupad (unat w div 65536) 16 4 fl' f) (put1 (ch CHR '':''))) (bprintupad (unat w mod 65536) 16 4 fl')
   | _ \<Rightarrow> None)"

definition print_string :: "ffl \<Rightarrow> int \<Rightarrow> int \<Rightarrow> 'd arg \<Rightarrow> outbuf \<Rightarrow> out" where
  "print_string fl pad precision a f = (case a of AStr s \<Rightarrow>
     let str = (case s of None \<Rightarrow> map of_char ''(null)'' | Some t \<Rightarrow> t);
         width = (if precision = -1 then int (length str) else min (int (length str)) (uint32 precision)) in
     counting (if pad > 0 \<and> \<not> PADRIGHT fl \<and> pad > width then bprintpad (nat (pad - width)) fl f else Some (0, f))
       (\<lambda>f. reterr (bputs str precision f) (\<lambda>n f. if pad > n \<and> PADRIGHT fl then counting (Some (n, f)) (bprintpad (nat (pad - n)) fl) else Some (n, f)))
   | _ \<Rightarrow> None)"

text \<open>One conversion: the characters it prints and the arguments it leaves; \<open>count\<close> is stored by \<open>%n\<close>.\<close>

definition uses_arg :: "byte \<Rightarrow> bool" where
  "uses_arg c = (c \<in> set (map of_char ''dipnfbuoxXsc''))"

definition printf_conv :: "('d \<Rightarrow> int \<Rightarrow> ffl \<Rightarrow> int \<Rightarrow> outbuf \<Rightarrow> out) \<Rightarrow> byte \<Rightarrow> ffl \<Rightarrow> int \<Rightarrow> int \<Rightarrow> int \<Rightarrow> 'd arg \<Rightarrow> outbuf \<Rightarrow> (int \<times> outbuf \<times> stores) option" where
  "printf_conv pd c fl pad precision count a f =
     (let upad = nat (uint32 pad); ret = map_option (\<lambda>(r, f'). (r, f', [] :: stores)) in
      if c = ch CHR ''d'' \<or> c = ch CHR ''i'' then ret (print_signed fl upad a f)
      else if c = ch CHR ''p'' then ret (print_pointer fl a f)
      else if c = ch CHR ''n'' then (case a of APtr p \<Rightarrow> Some (0, f, [(p, count)]) | _ \<Rightarrow> None)
      else if c = ch CHR ''f'' then (case a of ADbl d \<Rightarrow> ret (pd d pad fl (if precision = -1 then 6 else precision) f) | _ \<Rightarrow> None)
      else if c = ch CHR ''b'' then ret (print_unsigned 2 fl upad a f)
      else if c = ch CHR ''u'' then ret (print_unsigned 10 fl upad a f)
      else if c = ch CHR ''o'' then ret (print_unsigned 8 fl upad a f)
      else if c = ch CHR ''x'' then ret (print_unsigned 16 fl upad a f)
      else if c = ch CHR ''X'' then ret (print_unsigned 16 (fl\<lparr>CAPHEX := True\<rparr>) upad a f)
      else if c = ch CHR ''s'' then ret (print_string fl pad precision a f)
      else (case a of AWord w \<Rightarrow> ret (put1 (ucast w) f) | _ \<Rightarrow> None))"

partial_function (option) vbprintf :: "('d \<Rightarrow> int \<Rightarrow> ffl \<Rightarrow> int \<Rightarrow> outbuf \<Rightarrow> out) \<Rightarrow> bytes \<Rightarrow> 'd arg list \<Rightarrow> int \<Rightarrow> outbuf \<Rightarrow> stores \<Rightarrow> (int \<times> outbuf \<times> stores) option" where
  "vbprintf pd fmt args count f st = (case fmt of
     [] \<Rightarrow> Some (count, f, st)
   | c # cs \<Rightarrow>
     if c \<noteq> ch CHR ''%'' then do { (r, f) \<leftarrow> bputc f c; if r < 0 then Some (r, f, st) else vbprintf pd cs args (count + 1) f st }
     else do {
       (cs, args, fl, pad) \<leftarrow> read_flags cs args no_flags 0;
       let (pad, cs) = (if pad = 0 then read_num schar8 cs 0 else (pad, cs));
       (precision, cs, args) \<leftarrow> read_prec cs args;
       let (fl, cs) = read_len cs fl;
       case cs of
         [] \<Rightarrow> None
       | c # cs \<Rightarrow>
         if uses_arg c then (case args of
             [] \<Rightarrow> None
           | a # args \<Rightarrow> do {
               (r, f, new) \<leftarrow> printf_conv pd c fl pad precision count a f;
               if r < 0 then Some (r, f, st) else vbprintf pd cs args (count + r) f (st @ new) })
         else do { (r, f) \<leftarrow> bputc f c; if r < 0 then Some (r, f, st) else vbprintf pd cs args (count + 1) f st } })"

text \<open>\<open>vsnprintf\<close> into a buffer of \<open>n\<close> bytes: the result and the bytes before the terminating 0. \<open>binit\<close> asserts that there is room, so that
  \<open>n\<close> is not 1; with 0 the room is the whole address space, and the text then overruns the buffer.\<close>

definition string_buf :: "nat \<Rightarrow> outbuf" where
  "string_buf n = \<lparr>ofd = - 1, otext = [], omax = usub n 1, odynamic = False, onull = False, ostderr = False, oerror = False, sink = [], outcomes = []\<rparr>"

definition vsnprintf :: "('d \<Rightarrow> int \<Rightarrow> ffl \<Rightarrow> int \<Rightarrow> outbuf \<Rightarrow> out) \<Rightarrow> nat \<Rightarrow> bytes \<Rightarrow> 'd arg list \<Rightarrow> (int \<times> bytes \<times> stores) option" where
  "vsnprintf pd n fmt args = do {
     vassert (omax (string_buf n) > 0);
     (r, f, st) \<leftarrow> vbprintf pd fmt args 0 (string_buf n) [];
     vassert (length (otext f) < n);
     Some (r, otext f, st) }"

section \<open>What is printed\<close>

text \<open>All functions put the characters of a text one after the other, until one fails.\<close>

lemma counting_assoc: "counting (counting r g) h = counting r (\<lambda>f. counting (g f) h)"
  by (auto simp: counting_def reterr_def split: Option.bind_splits if_splits)

lemma counting_zero [simp]: "counting (Some (0, f)) g = g f" "counting r (\<lambda>f. Some (0, f)) = r"
  by (auto simp: counting_def reterr_def split: Option.bind_splits if_splits)

lemma counting_zero' [simp]: "counting r (bputs_all []) = r"
proof -
  have "bputs_all [] = (\<lambda>f. Some (0, f))" by (rule ext) simp
  then show ?thesis by (simp only: counting_zero)
qed

lemma bputs_all_append: "counting (bputs_all a f) (bputs_all b) = bputs_all (a @ b) f"
proof (induction a arbitrary: f)
  case (Cons c a)
  then show ?case by (simp add: counting_assoc)
qed simp

lemma bputs_all_one: "bputs_all [c] f = put1 c f"
  by simp

lemma bputc_total: "\<exists>r f'. bputc f c = Some (r, f')"
  by (auto simp: bputc_def reterr_def Let_def split: prod.splits if_splits)

lemma put1_result: "put1 c f = Some (r, f') \<Longrightarrow> r < 0 \<or> r = 1"
  by (auto simp: put1_def reterr_def split: Option.bind_splits if_splits)

lemma bputs_all_result: "\<exists>r f'. bputs_all t f = Some (r, f') \<and> (r < 0 \<or> r = int (length t))"
proof (induction t arbitrary: f)
  case (Cons c t)
  obtain r f1 where "bputc f c = Some (r, f1)" using bputc_total by blast
  moreover obtain d f2 where "bputs_all t f1 = Some (d, f2)" "d < 0 \<or> d = int (length t)" using Cons by blast
  ultimately show ?case by (auto simp: counting_def put1_def reterr_def)
qed simp

definition padc :: "ffl \<Rightarrow> byte" where
  "padc fl = (if PADZEROS fl then ch CHR ''0'' else ch CHR '' '')"

lemma bprintpad_text: "bprintpad n fl = bputs_all (replicate n (padc fl))"
proof (induction n)
  case (Suc n)
  show ?case by (rule ext) (simp add: Suc padc_def)
qed auto

lemma bputs_text: "bputs s p = bputs_all (if p = -1 then s else take (nat p) s)"
proof -
  have l: "bputs_loop s p = bputs_all (take (nat p) s)" for p
  proof (induction s arbitrary: p)
    case (Cons c cs)
    have "nat p = Suc (nat (p - 1))" if "0 < p" using that by simp
    then show ?case by (cases "0 < p") (auto simp: Cons)
  qed auto
  show ?thesis by (rule ext) (simp add: bputs_def l)
qed

lemma digit_char: "(word_of_int (48 + int n smod 10) :: byte) = word_of_nat (48 + n mod 10)"
proof -
  have "48 + int n smod 10 = int (48 + n mod 10)" by simp
  then show ?thesis by (simp only: of_int_of_nat_eq)
qed

lemma put1_text: "put1 c = bputs_all [c]"
  by (rule ext) simp

lemma bprints_unfold:
  "bprints w (int n) f = counting (if n < 10 then Some (0, f) else bprints w (int (n div 10)) f) (put1 (word_of_nat (48 + n mod 10)))"
proof -
  have "bprints w (int n) f = counting (if int n \<ge> 10 then bprints w (int n sdiv 10) f else Some (0, f)) (put1 (word_of_int (48 + int n smod 10)))"
    by (subst bprints.simps) (simp only: Let_def of_nat_less_0_iff if_False counting_zero)
  moreover have "10 \<le> int n \<longleftrightarrow> \<not> n < 10" by linarith
  ultimately show ?thesis unfolding digit_char sdiv_nat by (simp only: if_not_P if_P split: if_split) simp
qed

lemma bprints_nat: "bprints w (int n) = bputs_all (dec n)"
proof (induction n rule: less_induct)
  case (less n)
  show ?case
  proof (rule ext)
    fix f
    show "bprints w (int n) f = bputs_all (dec n) f"
    proof (cases "n < 10")
      case False
      then have "bprints w (int (n div 10)) f = bputs_all (dec (n div 10)) f" using less.IH [of "n div 10"] by simp
      then show ?thesis unfolding bprints_unfold [of w n] dec_unfold [of n] put1_text using False by (simp only: if_False bputs_all_append)
    qed (simp add: bprints_unfold [of w n] dec_unfold [of n])
  qed
qed

lemma bprints_text:
  assumes "- (2 ^ w) < n" "n < 2 ^ w"
  shows "bprints w n f = bputs_all (sdec n) f"
proof (cases "n < 0")
  case False
  then show ?thesis using bprints_nat [of w "nat n"] by (simp add: sdec_def)
next
  case True
  define k where "k = nat (- n)"
  have k: "n = - int k" "0 < k" using True by (simp_all add: k_def)
  have s: "signed_take_bit w (- n) = int k" using assms k True by (subst signed_take_bit_int_eq_self) auto
  have "bprints w n f = counting (counting (put1 (ch CHR ''-'') f) (\<lambda>f. if k < 10 then Some (0, f) else bprints w (int (k div 10)) f)) (put1 (word_of_nat (48 + k mod 10)))"
  proof -
    have "10 \<le> int k \<longleftrightarrow> \<not> k < 10" by linarith
    then have i: "(if 10 \<le> int k then x else y) = (if k < 10 then y else x)" for x y :: out by simp
    show ?thesis using True by (subst bprints.simps) (simp only: Let_def s if_True digit_char sdiv_nat i)
  qed
  also have "\<dots> = counting (put1 (ch CHR ''-'') f) (bprints w (int k))"
    unfolding counting_assoc by (simp only: bprints_unfold [of w k, symmetric])
  also have "\<dots> = bputs_all (ch CHR ''-'' # dec k) f" by (simp add: bprints_nat)
  finally show ?thesis using True by (simp add: sdec_def k_def)
qed

lemma bprintu_text:
  assumes "2 \<le> base" "base \<le> length hexs"
  shows "bprintu u base hexs f = bputs_all (map ((!) hexs) (digits base u)) f"
proof (induction u arbitrary: f rule: less_induct)
  case (less u)
  have m: "u mod base < length hexs" using assms by (meson mod_less_divisor less_le_trans not_less not_numeral_le_zero order_trans zero_less_iff_neq_zero)
  show ?case
  proof (cases "u < base")
    case True
    then show ?thesis using assms m by (subst bprintu.simps) (simp add: digits.simps [of base u] put1_text del: bputs_all.simps)
  next
    case False
    then have "u div base < u" using assms by (intro div_less_dividend) auto
    from less.IH [OF this] show ?thesis
      using assms m False by (subst bprintu.simps) (simp add: digits.simps [of base u] put1_text bputs_all_append del: bputs_all.simps)
  qed
qed

section \<open>The text of a conversion\<close>

definition left_pad :: "bool \<Rightarrow> nat \<Rightarrow> nat \<Rightarrow> ffl \<Rightarrow> bytes" where
  "left_pad cond pad w fl = (if cond \<and> \<not> PADRIGHT fl then replicate (pad - w) (padc fl) else [])"

definition right_pad :: "nat \<Rightarrow> ffl \<Rightarrow> bytes \<Rightarrow> bytes" where
  "right_pad pad fl t = (if PADRIGHT fl then t @ replicate (pad - length t) (padc fl) else t)"

definition sign_text :: "int \<Rightarrow> ffl \<Rightarrow> bytes" where
  "sign_text n fl = (if n > 0 then if FORCESIGN fl then [ch CHR ''+''] else if SPACESIGN fl then [ch CHR '' ''] else [] else [])"

definition signed_text :: "int \<Rightarrow> nat \<Rightarrow> ffl \<Rightarrow> bytes" where
  "signed_text n pad fl = right_pad pad fl (left_pad True pad (length (sign_text n fl @ sdec n)) fl @ sign_text n fl @ sdec n)"

definition base_text :: "nat \<Rightarrow> ffl \<Rightarrow> bytes" where
  "base_text base fl = (if PRINTBASE fl then (if base = 16 \<or> base = 8 then [ch CHR ''0''] else []) @ (if base = 16 then [if CAPHEX fl then ch CHR ''X'' else ch CHR ''x''] else []) else [])"

definition digits_text :: "nat \<Rightarrow> nat \<Rightarrow> ffl \<Rightarrow> bytes" where
  "digits_text u base fl = map ((!) (if CAPHEX fl then hexCharsBig else hexCharsSmall)) (digits base u)"

definition unsigned_text :: "nat \<Rightarrow> nat \<Rightarrow> nat \<Rightarrow> ffl \<Rightarrow> bytes" where
  "unsigned_text u base pad fl = (let w = length (digits base u) in
     right_pad pad fl (left_pad (\<not> PADZEROS fl) pad w fl @ base_text base fl @ left_pad (PADZEROS fl) pad w fl @ digits_text u base fl))"

definition string_text :: "bytes option \<Rightarrow> nat \<Rightarrow> int \<Rightarrow> ffl \<Rightarrow> bytes" where
  "string_text s pad precision fl = (let str = (case s of None \<Rightarrow> map of_char ''(null)'' | Some t \<Rightarrow> t); t = (if precision = -1 then str else take (nat precision) str) in
     right_pad pad fl (left_pad True pad (length t) fl @ t))"

lemma pad_left_text: "pad_left cond pad (Some w) fl = bputs_all (left_pad cond pad w fl)"
  by (rule ext) (auto simp: pad_left_def left_pad_def bprintpad_text)

lemma pad_right_text: "pad < 2 ^ 31 \<Longrightarrow> pad_right pad fl (bputs_all t f) = bputs_all (right_pad pad fl t) f"
proof -
  assume pad: "pad < 2 ^ 31"
  obtain r f' where r: "bputs_all t f = Some (r, f')" "r < 0 \<or> r = int (length t)" using bputs_all_result by blast
  have i: "int32 (int pad) = int pad" using pad by simp
  consider "r < 0" | "r = int (length t)" "\<not> (PADRIGHT fl \<and> length t < pad)" | "r = int (length t)" "PADRIGHT fl" "length t < pad" using r(2) by blast
  then show ?thesis
  proof cases
    case 1
    then have "bputs_all (right_pad pad fl t) f = Some (r, f')" unfolding right_pad_def by (auto simp: r(1) counting_def reterr_def simp flip: bputs_all_append)
    then show ?thesis using 1 by (simp add: pad_right_def r(1) reterr_def)
  next
    case 2
    then show ?thesis by (auto simp: pad_right_def r(1) reterr_def right_pad_def i)
  next
    case 3
    then have "nat (int pad - int (length t)) = pad - length t" by simp
    then show ?thesis using 3 by (simp add: pad_right_def r(1) reterr_def right_pad_def i bprintpad_text flip: bputs_all_append)
  qed
qed

lemma signed_prefix_text: "signed_prefix n fl = bputs_all (sign_text n fl)"
  by (rule ext) (simp add: signed_prefix_def sign_text_def)

lemma unsigned_prefix_text: "unsigned_prefix base fl = bputs_all (base_text base fl)"
proof -
  have "(\<lambda>f. if b then put1 c f else Some (0, f)) = bputs_all (if b then [c] else [])" for b c by (rule ext) simp
  note c = this
  have "(if b then put1 c f else Some (0, f)) = bputs_all (if b then [c] else []) f" for b c f by simp
  then show ?thesis by (intro ext) (simp add: unsigned_prefix_def base_text_def c bputs_all_append del: bputs_all.simps(2))
qed

lemma sign_width: "length (sign_text n fl @ sdec n) = (if n > 0 \<and> (FORCESIGN fl \<or> SPACESIGN fl) then length (sdec n) + 1 else length (sdec n))"
  by (simp add: sign_text_def)

lemma bprints_pad_text:
  assumes "width = length (sdec n)" "num n = bputs_all (sdec n)" "pad < 2 ^ 31"
  shows "bprints_pad width num n pad fl f = bputs_all (signed_text n pad fl) f"
  unfolding bprints_pad_def assms(1,2) sign_width [symmetric] pad_left_text signed_prefix_text bputs_all_append pad_right_text [OF assms(3)] signed_text_def by simp

lemma width_sdec:
  assumes "- (2 ^ 63) < n" "n < 2 ^ 63"
  shows "getllwidth n = length (sdec n)" "- (2 ^ 31) < n \<Longrightarrow> n < 2 ^ 31 \<Longrightarrow> getnwidth n = length (sdec n)"
proof -
  have w: "nwidth_loop (int k) j + 1 = j + length (digits 10 k)" for k j using nwidth_digits [of "int k" j] by simp
  show "getllwidth n = length (sdec n)"
    using w [of "nat (- n)" 1] w [of "nat n" 0] assms by (auto simp: getllwidth_def sdec_def)
  show "getnwidth n = length (sdec n)" if "- (2 ^ 31) < n" "n < 2 ^ 31"
    using w [of "nat (- n)" 2] w [of "nat n" 1] that by (auto simp: getnwidth_def sdec_def)
qed

lemma bprintnpad_text: "- (2 ^ 31) < n \<Longrightarrow> n < 2 ^ 31 \<Longrightarrow> pad < 2 ^ 31 \<Longrightarrow> bprintnpad n pad fl f = bputs_all (signed_text n pad fl) f"
  unfolding bprintnpad_def bprintn_def by (rule bprints_pad_text) (auto simp: width_sdec intro!: ext bprints_text)

lemma bprintlpad_text: "- (2 ^ 63) < n \<Longrightarrow> n < 2 ^ 63 \<Longrightarrow> pad < 2 ^ 31 \<Longrightarrow> bprintlpad n pad fl f = bputs_all (signed_text n pad fl) f"
  unfolding bprintlpad_def bprintl_def by (rule bprints_pad_text) (auto simp: width_sdec intro!: ext bprints_text)

lemma bprintupad_text:
  assumes "2 \<le> base" "base \<le> 16" "pad < 2 ^ 31"
  shows "bprintupad u base pad fl f = bputs_all (unsigned_text u base pad fl) f" "bprintulpad u base pad fl f = bputs_all (unsigned_text u base pad fl) f"
proof -
  have l: "base \<le> length (if CAPHEX fl then hexCharsBig else hexCharsSmall)" using assms by (simp add: hexCharsBig_def hexCharsSmall_def)
  have d: "bprintu u base (if CAPHEX fl then hexCharsBig else hexCharsSmall) = bputs_all (digits_text u base fl)"
    unfolding digits_text_def by (rule ext) (rule bprintu_text [OF assms(1) l])
  have w: "getuwidth u base = Some (length (digits base u))" "getullwidth u base = Some (length (digits base u))"
    using uwidth_digits [OF assms(1)] by (simp_all add: getuwidth_def getullwidth_def)
  show "bprintupad u base pad fl f = bputs_all (unsigned_text u base pad fl) f" "bprintulpad u base pad fl f = bputs_all (unsigned_text u base pad fl) f"
    unfolding bprintupad_def bprintulpad_def bprintul_def d w pad_left_text unsigned_prefix_text bputs_all_append pad_right_text [OF assms(3)] unsigned_text_def Let_def by simp_all
qed

lemma print_string_text:
  assumes "pad < 2 ^ 7" "precision < 2 ^ 31" "-1 \<le> precision"
  shows "print_string fl (int pad) precision (AStr s) f = bputs_all (string_text s pad precision fl) f"
proof -
  define str where "str = (case s of None \<Rightarrow> map of_char ''(null)'' | Some t \<Rightarrow> t)"
  define t where "t = (if precision = -1 then str else take (nat precision) str)"
  have w: "(if precision = -1 then int (length str) else min (int (length str)) (uint32 precision)) = int (length t)"
    using assms(2,3) by (auto simp: t_def uint32_def take_bit_int_eq_self)
  have l: "(if int pad > 0 \<and> \<not> PADRIGHT fl \<and> int pad > int (length t) then bprintpad (nat (int pad - int (length t))) fl f else Some (0, f)) =
    bputs_all (left_pad True pad (length t) fl) f" by (auto simp: left_pad_def bprintpad_text nat_diff_distrib)
  have r: "reterr (bputs str precision f) (\<lambda>n f. if int pad > n \<and> PADRIGHT fl then counting (Some (n, f)) (bprintpad (nat (int pad - n)) fl) else Some (n, f)) =
    bputs_all (right_pad pad fl t) f" for f
    using pad_right_text [of pad fl t f] assms(1) unfolding pad_right_def bputs_text t_def [symmetric] by (simp add: conj_commute)
  have "left_pad True pad (length t) fl @ right_pad pad fl t = right_pad pad fl (left_pad True pad (length t) fl @ t)"
    by (simp add: left_pad_def right_pad_def)
  then show ?thesis unfolding print_string_def string_text_def arg.case Let_def str_def [symmetric] w l r t_def [symmetric] bputs_all_append by (simp add: bputs_all_append)
qed

section \<open>Formats\<close>

datatype len = L0 | Ll | LL | Lz | Lh
datatype conv = Cd | Ci | Cb | Cu | Co | Cx | CX | Cs | Cc
datatype item = Lit byte | Percent | Conv ffl nat "nat option" len conv

definition flag_chars :: "ffl \<Rightarrow> bytes" where
  "flag_chars fl = (if PADRIGHT fl then [ch CHR ''-''] else []) @ (if FORCESIGN fl then [ch CHR ''+''] else []) @ (if SPACESIGN fl then [ch CHR '' ''] else []) @
     (if PRINTBASE fl then [ch CHR ''#''] else []) @ (if PADZEROS fl then [ch CHR ''0''] else [])"

fun len_chars :: "len \<Rightarrow> bytes" where
  "len_chars L0 = []" | "len_chars Ll = [ch CHR ''l'']" | "len_chars LL = [ch CHR ''L'']" | "len_chars Lz = [ch CHR ''z'']" | "len_chars Lh = [ch CHR ''h'']"

fun conv_char :: "conv \<Rightarrow> byte" where
  "conv_char Cd = ch CHR ''d''" | "conv_char Ci = ch CHR ''i''" | "conv_char Cb = ch CHR ''b''" | "conv_char Cu = ch CHR ''u''" | "conv_char Co = ch CHR ''o''"
| "conv_char Cx = ch CHR ''x''" | "conv_char CX = ch CHR ''X''" | "conv_char Cs = ch CHR ''s''" | "conv_char Cc = ch CHR ''c''"

fun item_chars :: "item \<Rightarrow> bytes" where
  "item_chars (Lit b) = [b]"
| "item_chars Percent = [ch CHR ''%'', ch CHR ''%'']"
| "item_chars (Conv fl w p l c) = ch CHR ''%'' # flag_chars fl @ (if w = 0 then [] else dec w) @ (case p of None \<Rightarrow> [] | Some k \<Rightarrow> ch CHR ''.'' # dec k) @ len_chars l @ [conv_char c]"

definition base_flags :: "ffl \<Rightarrow> bool" where
  "base_flags fl = (\<not> CAPHEX fl \<and> \<not> fSHORT fl \<and> \<not> fLONG fl \<and> \<not> fLONGLONG fl \<and> \<not> fSIZE fl)"

fun item_ok :: "item \<Rightarrow> bool" where
  "item_ok (Lit b) = (b \<noteq> ch CHR ''%'')"
| "item_ok Percent = True"
| "item_ok (Conv fl w p l c) = (base_flags fl \<and> w < 128 \<and> (case p of None \<Rightarrow> True | Some k \<Rightarrow> k < 2 ^ 31))"

fun set_len :: "len \<Rightarrow> ffl \<Rightarrow> ffl" where
  "set_len L0 fl = fl" | "set_len Ll fl = fl\<lparr>fLONG := True\<rparr>" | "set_len LL fl = fl\<lparr>fLONGLONG := True\<rparr>" | "set_len Lz fl = fl\<lparr>fSIZE := True\<rparr>" | "set_len Lh fl = fl\<lparr>fSHORT := True\<rparr>"

text \<open>The text of a conversion for an argument of the right type. The smallest number of a type has none.\<close>

definition signed_arg :: "len \<Rightarrow> 'd arg \<Rightarrow> int option" where
  "signed_arg l a = (case a of
     ADWord w \<Rightarrow> if l = LL \<and> sint w \<noteq> - (2 ^ 63) then Some (sint w) else None
   | AWord w \<Rightarrow> if l = Ll \<or> l = Lz then Some (sint w) else if l = Lh then Some (uint w mod 65536) else if l = L0 \<and> sint w \<noteq> - (2 ^ 31) then Some (sint w) else None
   | _ \<Rightarrow> None)"

definition unsigned_arg :: "len \<Rightarrow> 'd arg \<Rightarrow> nat option" where
  "unsigned_arg l a = (case a of ADWord w \<Rightarrow> if l = LL then Some (unat w) else None
   | AWord w \<Rightarrow> if l = LL then None else Some (if l = Lh then unat w mod 65536 else unat w) | _ \<Rightarrow> None)"

fun conv_base :: "conv \<Rightarrow> nat option" where
  "conv_base Cb = Some 2" | "conv_base Cu = Some 10" | "conv_base Co = Some 8" | "conv_base Cx = Some 16" | "conv_base CX = Some 16" | "conv_base _ = None"

definition conv_text :: "ffl \<Rightarrow> nat \<Rightarrow> nat option \<Rightarrow> len \<Rightarrow> conv \<Rightarrow> 'd arg \<Rightarrow> bytes option" where
  "conv_text fl w p l c a = (let fl' = (set_len l fl)\<lparr>CAPHEX := (c = CX)\<rparr> in
     if c = Cd \<or> c = Ci then map_option (\<lambda>n. signed_text n w fl') (signed_arg l a)
     else case conv_base c of Some b \<Rightarrow> map_option (\<lambda>u. unsigned_text u b w fl') (unsigned_arg l a)
     | None \<Rightarrow> if c = Cs then (case a of AStr s \<Rightarrow> Some (string_text s w (case p of None \<Rightarrow> - 1 | Some k \<Rightarrow> int k) fl') | _ \<Rightarrow> None)
       else (case a of AWord v \<Rightarrow> Some [ucast v] | _ \<Rightarrow> None))"

fun format_text :: "item list \<Rightarrow> 'd arg list \<Rightarrow> bytes option" where
  "format_text [] args = Some []"
| "format_text (Lit b # is) args = map_option (\<lambda>t. b # t) (format_text is args)"
| "format_text (Percent # is) args = map_option (\<lambda>t. ch CHR ''%'' # t) (format_text is args)"
| "format_text (Conv fl w p l c # is) args = (case args of [] \<Rightarrow> None | a # as \<Rightarrow> do { t \<leftarrow> conv_text fl w p l c a; t' \<leftarrow> format_text is as; Some (t @ t') })"

text \<open>Reading a format.\<close>

definition flag_char :: "byte \<Rightarrow> bool" where
  "flag_char c = (c \<in> {ch CHR ''-'', ch CHR ''+'', ch CHR '' '', ch CHR ''#'', ch CHR ''0'', ch CHR ''*''})"

lemma read_flags_stop: "\<not> flag_char c \<Longrightarrow> read_flags (c # cs) args fl pad = Some (c # cs, args, fl, pad)"
  by (simp add: flag_char_def)

lemma read_flag:
  "read_flags ((if b then [ch CHR ''-''] else []) @ cs) args fl pad = read_flags cs args (if b then fl\<lparr>PADRIGHT := True\<rparr> else fl) pad"
  "read_flags ((if b then [ch CHR ''+''] else []) @ cs) args fl pad = read_flags cs args (if b then fl\<lparr>FORCESIGN := True\<rparr> else fl) pad"
  "read_flags ((if b then [ch CHR '' ''] else []) @ cs) args fl pad = read_flags cs args (if b then fl\<lparr>SPACESIGN := True\<rparr> else fl) pad"
  "read_flags ((if b then [ch CHR ''#''] else []) @ cs) args fl pad = read_flags cs args (if b then fl\<lparr>PRINTBASE := True\<rparr> else fl) pad"
  "read_flags ((if b then [ch CHR ''0''] else []) @ cs) args fl pad = read_flags cs args (if b then fl\<lparr>PADZEROS := True\<rparr> else fl) pad"
  by simp_all

lemma flags_built:
  assumes "base_flags fl"
    "f1 = (if PADRIGHT fl then no_flags\<lparr>PADRIGHT := True\<rparr> else no_flags)" "f2 = (if FORCESIGN fl then f1\<lparr>FORCESIGN := True\<rparr> else f1)"
    "f3 = (if SPACESIGN fl then f2\<lparr>SPACESIGN := True\<rparr> else f2)" "f4 = (if PRINTBASE fl then f3\<lparr>PRINTBASE := True\<rparr> else f3)"
  shows "(if PADZEROS fl then f4\<lparr>PADZEROS := True\<rparr> else f4) = fl"
  using assms(1) unfolding assms(2-5) base_flags_def by (intro ffl.equality) (simp_all add: no_flags_def)

lemma read_flags_chars:
  assumes "base_flags fl" "\<not> flag_char c"
  shows "read_flags (flag_chars fl @ c # cs) args no_flags 0 = Some (c # cs, args, fl, 0)"
  unfolding flag_chars_def append_assoc read_flag flags_built [OF assms(1) refl refl refl refl] by (rule read_flags_stop [OF assms(2)])

lemma read_num_digits:
  "\<forall>c \<in> set cs. is_digit c \<Longrightarrow> rest = [] \<or> \<not> is_digit (hd rest) \<Longrightarrow> read_num wrap (cs @ rest) n = (foldl (\<lambda>n c. wrap (n * 10 + (uint c - 48))) n cs, rest)"
proof (induction cs arbitrary: n)
  case Nil
  then show ?case by (cases rest) auto
qed auto

lemma dec_digits: "c \<in> set (dec n) \<Longrightarrow> is_digit c"
proof -
  assume "c \<in> set (dec n)"
  then obtain d where d: "c = word_of_nat (48 + d)" "d \<in> set (digits 10 n)" by (auto simp: dec_def)
  then have "d < 10" using digits_less [of 10 d n] by simp
  then show ?thesis using uint_digit [of d] d(1) by (simp add: is_digit_def del: of_nat_add)
qed

lemma dec_fold:
  assumes "\<And>x. 0 \<le> x \<Longrightarrow> x \<le> int k \<Longrightarrow> wrap x = x"
  shows "foldl (\<lambda>n c. wrap (n * 10 + (uint c - 48))) 0 (dec k) = int k"
  using assms
proof (induction k rule: less_induct)
  case (less k)
  have u: "uint (word_of_nat (48 + k mod 10) :: byte) - 48 = int (k mod 10)" using uint_digit [of "k mod 10"] by simp
  show ?case
  proof (cases "k < 10")
    case True
    then show ?thesis using less.prems [of "int k"] u by (simp add: dec_unfold [of k])
  next
    case False
    then have "foldl (\<lambda>n c. wrap (n * 10 + (uint c - 48))) 0 (dec (k div 10)) = int (k div 10)" using less.prems by (intro less.IH) auto
    moreover have "int (k div 10) * 10 + int (k mod 10) = int k" using div_mult_mod_eq [of k 10] by (metis of_nat_add of_nat_mult of_nat_numeral)
    ultimately show ?thesis using False u less.prems [of "int k"] by (simp add: dec_unfold [of k] del: of_nat_add)
  qed
qed

lemma read_num_dec:
  assumes "\<And>x. 0 \<le> x \<Longrightarrow> x \<le> int k \<Longrightarrow> wrap x = x" "rest = [] \<or> \<not> is_digit (hd rest)"
  shows "read_num wrap (dec k @ rest) 0 = (int k, rest)"
  using read_num_digits [of "dec k" rest wrap 0] dec_fold [OF assms(1)] assms(2) dec_digits by auto

lemma dec_head: "0 < k \<Longrightarrow> hd (dec k) \<noteq> 48"
proof (induction k rule: less_induct)
  case (less k)
  show ?case
  proof (cases "k < 10")
    case True
    have "uint (word_of_nat (48 + k) :: byte) = 48 + int k" using True by (rule uint_digit)
    then have "(word_of_nat (48 + k) :: byte) \<noteq> 48" using less.prems by (auto simp del: of_nat_add)
    then show ?thesis using True by (simp add: dec_unfold [of k] del: of_nat_add)
  next
    case False
    then have "hd (dec (k div 10)) \<noteq> 48" using less by (intro less.IH) auto
    then show ?thesis using False by (simp add: dec_unfold [of k])
  qed
qed

text \<open>What follows the flags, the width and the precision.\<close>

lemma schar8_small: "0 \<le> x \<Longrightarrow> x < 128 \<Longrightarrow> schar8 x = x"
  unfolding schar8_def by (rule signed_take_bit_int_eq_self) simp_all

lemma conv_char_plain: "\<not> flag_char (conv_char c)" "\<not> is_digit (conv_char c)" "conv_char c \<noteq> ch CHR ''.''"
  "conv_char c \<noteq> ch CHR ''l''" "conv_char c \<noteq> ch CHR ''L''" "conv_char c \<noteq> ch CHR ''z''" "conv_char c \<noteq> ch CHR ''h''" "uses_arg (conv_char c)"
  by (cases c; simp add: flag_char_def is_digit_def uses_arg_def)+

lemma len_char_plain: "l \<noteq> L0 \<Longrightarrow> \<exists>x. len_chars l = [x] \<and> \<not> flag_char x \<and> \<not> is_digit x \<and> x \<noteq> ch CHR ''.''"
  by (cases l) (simp_all add: flag_char_def is_digit_def)

definition tail_start :: "byte \<Rightarrow> bool" where
  "tail_start x = (\<not> flag_char x \<and> \<not> is_digit x \<and> x \<noteq> ch CHR ''.'')"

lemma len_start: "\<exists>x xs. len_chars l @ conv_char c # cs = x # xs \<and> tail_start x"
  using len_char_plain [of l] conv_char_plain(1-3) [of c] unfolding tail_start_def by (cases "l = L0") auto

lemma read_len_chars: "read_len (len_chars l @ conv_char c # cs) fl = (set_len l fl, conv_char c # cs)"
  using conv_char_plain(4-7) [of c] by (cases l) (simp_all add: read_len_def)

definition prec_chars :: "nat option \<Rightarrow> bytes" where
  "prec_chars p = (case p of None \<Rightarrow> [] | Some k \<Rightarrow> ch CHR ''.'' # dec k)"

definition prec_val :: "nat option \<Rightarrow> int" where
  "prec_val p = (case p of None \<Rightarrow> - 1 | Some k \<Rightarrow> int k)"

lemma prec_start: "tail_start x \<Longrightarrow> \<exists>y ys. prec_chars p @ x # xs = y # ys \<and> \<not> flag_char y \<and> \<not> is_digit y"
  by (cases p) (auto simp: prec_chars_def tail_start_def flag_char_def is_digit_def)

lemma digit_plain: "is_digit d \<Longrightarrow> d \<noteq> ch CHR ''*''" "is_digit d \<Longrightarrow> d \<noteq> 48 \<Longrightarrow> \<not> flag_char d"
  by (auto simp: is_digit_def flag_char_def)

lemma read_prec_chars:
  assumes "case p of None \<Rightarrow> True | Some k \<Rightarrow> k < 2 ^ 31" "tail_start x"
  shows "read_prec (prec_chars p @ x # xs) args = Some (prec_val p, x # xs, args)"
proof (cases p)
  case None
  then show ?thesis using assms(2) by (cases xs) (simp_all add: read_prec_def prec_chars_def prec_val_def tail_start_def)
next
  case (Some k)
  obtain d ds where d: "dec k = d # ds" by (cases "dec k") auto
  then have "is_digit d" using dec_digits [of d k] by simp
  moreover have "read_num int32 (dec k @ x # xs) 0 = (int k, x # xs)" using Some assms by (intro read_num_dec) (auto simp: tail_start_def)
  ultimately show ?thesis using d digit_plain(1) [of d] unfolding Some by (simp add: read_prec_def prec_chars_def prec_val_def)
qed

lemma read_width_chars:
  assumes "w < 128" "\<not> is_digit y"
  shows "read_num schar8 ((if w = 0 then [] else dec w) @ y # ys) 0 = (int w, y # ys)"
  using assms read_num_dec [of w schar8 "y # ys"] by (auto simp: schar8_small)

lemma width_start: "\<not> flag_char y \<Longrightarrow> \<exists>z zs. (if w = 0 then [] else dec w) @ y # ys = z # zs \<and> \<not> flag_char z"
proof (cases "w = 0")
  case False
  obtain d ds where d: "dec w = d # ds" by (cases "dec w") auto
  then have "is_digit d" "d \<noteq> 48" using dec_digits [of d w] dec_head [of w] False by auto
  then show ?thesis using d digit_plain(2) False by auto
qed auto

definition vresult :: "int \<Rightarrow> stores \<Rightarrow> out \<Rightarrow> (int \<times> outbuf \<times> stores) option" where
  "vresult c st r = map_option (\<lambda>(v, f). (if v < 0 then v else c + v, f, st)) r"

lemma vresult_step:
  assumes "\<And>c f. V c f st = vresult c st (bputs_all t2 f)"
  shows "do { (r, f, new) \<leftarrow> map_option (\<lambda>(r, f'). (r, f', [] :: stores)) (bputs_all t1 f); if r < 0 then Some (r, f, st) else V (c + r) f (st @ new) } =
    vresult c st (bputs_all (t1 @ t2) f)"
proof -
  obtain r f1 where r: "bputs_all t1 f = Some (r, f1)" using bputs_all_result by blast
  obtain d f2 where d: "bputs_all t2 f1 = Some (d, f2)" using bputs_all_result by blast
  show ?thesis unfolding bputs_all_append [symmetric] by (simp add: r d assms vresult_def counting_def reterr_def)
qed

lemma printf_conv_text:
  assumes "base_flags fl" "w < 128" "case p of None \<Rightarrow> True | Some k \<Rightarrow> k < 2 ^ 31" "conv_text fl w p l c a = Some t"
  shows "printf_conv pd (conv_char c) (set_len l fl) (int w) (prec_val p) count a f = map_option (\<lambda>(r, f'). (r, f', [])) (bputs_all t f)"
proof -
  have u: "nat (uint32 (int w)) = w" using assms(2) by (simp add: uint32_def take_bit_int_eq_self)
  have x: "(set_len l fl)\<lparr>CAPHEX := False\<rparr> = set_len l fl" using assms(1) by (cases l) (simp_all add: base_flags_def)
  have n: "fLONGLONG (set_len l fl) = (l = LL)" "fLONG (set_len l fl) = (l = Ll)" "fSIZE (set_len l fl) = (l = Lz)" "fSHORT (set_len l fl) = (l = Lh)"
    using assms(1) by (cases l; simp add: base_flags_def)+
  have b: "- (2 ^ 31) \<le> sint v" "sint v < 2 ^ 31" for v :: "32 word" using sint_greater_eq [of v] sint_less [of v] by simp_all
  have b6: "- (2 ^ 63) \<le> sint v" "sint v < 2 ^ 63" for v :: "64 word" using sint_greater_eq [of v] sint_less [of v] by simp_all
  have sg: "print_signed (set_len l fl) w a f = bputs_all (signed_text n w (set_len l fl)) f" if "signed_arg l a = Some n" for n
  proof (cases a)
    case (AWord v)
    have v: "- (2 ^ 63) < sint v" "sint v < 2 ^ 63" "- (2 ^ 31) < uint v mod 65536" "uint v mod 65536 < 2 ^ 31" using b [of v] by auto
    show ?thesis using that AWord assms(2) n b [of v] v
      by (auto simp: signed_arg_def print_signed_def bprintlpad_text bprintnpad_text order_le_less split: if_splits)
  next
    case (ADWord v)
    then show ?thesis using that assms(2) n b6 [of v] by (auto simp: signed_arg_def print_signed_def bprintlpad_text order_le_less split: if_splits)
  qed (use that in \<open>simp_all add: signed_arg_def\<close>)
  have us: "print_unsigned base fl' w a f = bputs_all (unsigned_text m base w fl') f" if "unsigned_arg l a = Some m" "2 \<le> base" "base \<le> 16"
      "fl' = (set_len l fl)\<lparr>CAPHEX := cap\<rparr>" for m base fl' cap
    using that assms(2) n by (auto simp: unsigned_arg_def print_unsigned_def bprintupad_text split: arg.splits if_splits)
  have pv: "prec_val p < 2 ^ 31" "- 1 \<le> prec_val p" using assms(3) by (auto simp: prec_val_def split: option.splits)
  show ?thesis
  proof (cases "c = Cd \<or> c = Ci")
    case True
    then obtain m where "signed_arg l a = Some m" "t = signed_text m w (set_len l fl)" using assms(4) x by (auto simp: conv_text_def)
    then show ?thesis using True sg by (auto simp: printf_conv_def u)
  next
    case False
    show ?thesis
    proof (cases "conv_base c")
      case (Some base)
      then obtain m where m: "unsigned_arg l a = Some m" "t = unsigned_text m base w ((set_len l fl)\<lparr>CAPHEX := (c = CX)\<rparr>)" using assms(4) False by (auto simp: conv_text_def)
      have "2 \<le> base" "base \<le> 16" using Some by (cases c; simp)+
      from us [OF m(1) this refl, of "c = CX"] show ?thesis using Some m(2) x by (cases c) (auto simp: printf_conv_def u)
    next
      case None
      then consider "c = Cs" | "c = Cc" using False by (cases c) auto
      then show ?thesis
      proof cases
        case 1
        then show ?thesis using assms(2,4) x pv
          by (auto simp: conv_text_def printf_conv_def prec_val_def [symmetric] print_string_text split: arg.splits)
      next
        case 2
        then show ?thesis using assms(4) by (auto simp: conv_text_def printf_conv_def split: arg.splits)
      qed
    qed
  qed
qed

lemma vresult_char:
  assumes "\<And>c f. V c f = vresult c st (bputs_all t f)"
  shows "do { (r, f) \<leftarrow> bputc f x; if r < 0 then Some (r, f, st) else V (c + 1) f } = vresult c st (bputs_all (x # t) f)"
proof -
  obtain r f1 where r: "bputc f x = Some (r, f1)" using bputc_total by blast
  obtain d f2 where d: "bputs_all t f1 = Some (d, f2)" using bputs_all_result by blast
  show ?thesis by (simp add: r d assms vresult_def counting_def reterr_def put1_def)
qed

lemma vbprintf_text:
  assumes "\<forall>i \<in> set is. item_ok i" "format_text is args = Some t"
  shows "vbprintf pd (concat (map item_chars is)) args c f st = vresult c st (bputs_all t f)"
  using assms
proof (induction "is" args arbitrary: c f t rule: format_text.induct)
  case (1 args)
  then show ?case by (simp add: vbprintf.simps vresult_def)
next
  case (2 b "is" args)
  then obtain t' where t: "format_text is args = Some t'" "t = b # t'" by auto
  have "vbprintf pd (concat (map item_chars is)) args c f st = vresult c st (bputs_all t' f)" for c f using 2 t by auto
  then have "do { (r, f) \<leftarrow> bputc f b; if r < 0 then Some (r, f, st) else vbprintf pd (concat (map item_chars is)) args (c + 1) f st } = vresult c st (bputs_all (b # t') f)"
    by (rule vresult_char)
  then show ?case using 2(2) t(2) by (subst vbprintf.simps) simp
next
  case (3 "is" args)
  then obtain t' where t: "format_text is args = Some t'" "t = ch CHR ''%'' # t'" by auto
  have "vbprintf pd (concat (map item_chars is)) args c f st = vresult c st (bputs_all t' f)" for c f using 3 t by auto
  then have e: "do { (r, f) \<leftarrow> bputc f (ch CHR ''%''); if r < 0 then Some (r, f, st) else vbprintf pd (concat (map item_chars is)) args (c + 1) f st } = vresult c st (bputs_all (ch CHR ''%'' # t') f)"
    by (rule vresult_char)
  have p: "tail_start (ch CHR ''%'')" by (simp add: tail_start_def flag_char_def is_digit_def)
  have "read_prec (ch CHR ''%'' # cs) args = Some (- 1, ch CHR ''%'' # cs, args)" "read_num schar8 (ch CHR ''%'' # cs) 0 = (0, ch CHR ''%'' # cs)"
    "read_flags (ch CHR ''%'' # cs) args no_flags 0 = Some (ch CHR ''%'' # cs, args, no_flags, 0)" "read_len (ch CHR ''%'' # cs) fl = (fl, ch CHR ''%'' # cs)" for cs fl
    using read_prec_chars [of None, OF _ p, of cs args] by (simp_all add: prec_chars_def prec_val_def is_digit_def read_len_def)
  moreover have "\<not> uses_arg (ch CHR ''%'')" by (simp add: uses_arg_def)
  ultimately show ?case using e t(2) by (subst vbprintf.simps) (simp add: Let_def del: read_flags.simps read_num.simps)
next
  case (4 fl w p l cv "is" args)
  then obtain a as t1 t2 where a: "args = a # as" "conv_text fl w p l cv a = Some t1" "format_text is as = Some t2" "t = t1 @ t2"
    by (auto split: list.splits Option.bind_splits)
  let ?cs = "concat (map item_chars is)"
  have ok: "base_flags fl" "w < 128" "case p of None \<Rightarrow> True | Some k \<Rightarrow> k < 2 ^ 31" using 4(2) by auto
  have "vbprintf pd ?cs as c f st = vresult c st (bputs_all t2 f)" for c f using 4 a by auto
  then have e: "do { (r, f, new) \<leftarrow> map_option (\<lambda>(r, f'). (r, f', [])) (bputs_all t1 f); if r < 0 then Some (r, f, st) else vbprintf pd ?cs as (c + r) f (st @ new) } =
    vresult c st (bputs_all (t1 @ t2) f)" by (rule vresult_step)
  obtain x xs where x: "len_chars l @ conv_char cv # ?cs = x # xs" "tail_start x" using len_start by blast
  obtain y ys where y: "prec_chars p @ x # xs = y # ys" "\<not> flag_char y" "\<not> is_digit y" using prec_start [OF x(2)] by blast
  obtain z zs where z: "(if w = 0 then [] else dec w) @ y # ys = z # zs" "\<not> flag_char z" using width_start [OF y(2)] by blast
  have fmt: "concat (map item_chars (Conv fl w p l cv # is)) = ch CHR ''%'' # flag_chars fl @ z # zs"
    unfolding z(1) [symmetric] y(1) [symmetric] x(1) [symmetric] by (simp add: prec_chars_def)
  have rf: "read_flags (flag_chars fl @ z # zs) args no_flags 0 = Some (z # zs, args, fl, 0)" using ok(1) z(2) by (rule read_flags_chars)
  have rw: "read_num schar8 (z # zs) 0 = (int w, y # ys)" using read_width_chars [OF ok(2) y(3), of ys] z(1) by simp
  have rp: "read_prec (y # ys) args = Some (prec_val p, x # xs, args)" using read_prec_chars [OF ok(3) x(2), of xs args] y(1) by simp
  have rl: "read_len (x # xs) fl = (set_len l fl, conv_char cv # ?cs)" using read_len_chars [of l cv ?cs fl] x(1) by simp
  note pc = printf_conv_text [OF ok a(2), of pd c f]
  show ?case unfolding fmt
    by (subst vbprintf.simps) (simp add: rf [unfolded a(1)] rw rp [unfolded a(1)] rl Let_def conv_char_plain(8) a(1) pc e a(4) del: read_flags.simps read_num.simps)
qed

lemma bputs_all_string:
  assumes "ofd f < 0" "\<not> odynamic f" "\<not> onull f" "length (otext f) \<le> omax f"
  shows "bputs_all t f = Some (if length (otext f) + length t \<le> omax f then int (length t) else EOF_c, f\<lparr>otext := take (omax f) (otext f @ t)\<rparr>)"
  using assms
proof (induction t arbitrary: f)
  case (Cons c t)
  show ?case
  proof (cases "length (otext f) < omax f")
    case True
    then have "bputs_all t (bput f c) = Some (if length (otext f) + 1 + length t \<le> omax f then int (length t) else EOF_c, f\<lparr>otext := take (omax f) (otext f @ c # t)\<rparr>)"
      using Cons.IH [of "bput f c"] Cons.prems by (simp add: bput_def)
    then show ?thesis using True Cons.prems by (simp add: put1_def bputc_def counting_def reterr_def)
  next
    case False
    then show ?thesis using Cons.prems by (simp add: put1_def bputc_def counting_def reterr_def)
  qed
qed simp

section \<open>Input buffers\<close>

text \<open>
  The input buffer has \<open>max\<close> bytes; \<open>isrc\<close> are the results of the next calls of \<open>read\<close> (an error, the end of the file or some bytes).
  \<open>bgetc\<close> returns a \<open>char\<close>, which is negative for bytes from 128 on.
\<close>

record inbuf =
  ifd :: int
  ibuf :: bytes
  ipos :: nat
  ieof :: bool
  ierror :: bool
  inull :: bool
  isrc :: "bytes option list"

definition bgetc :: "inbuf \<Rightarrow> int \<times> inbuf" where
  "bgetc f =
     (if ieof f \<or> inull f then (EOF_c, f)
      else if ipos f < length (ibuf f) then (schar (ibuf f ! ipos f), f\<lparr>ipos := ipos f + 1\<rparr>)
      else if ifd f < 0 then (EOF_c, f)
      else (case isrc f of
          None # r \<Rightarrow> (EOF_c, f\<lparr>ierror := True, isrc := r\<rparr>)
        | Some (b # bs) # r \<Rightarrow> (schar b, f\<lparr>ibuf := b # bs, ipos := 1, isrc := r\<rparr>)
        | Some [] # r \<Rightarrow> (EOF_c, f\<lparr>ieof := True, isrc := r\<rparr>)
        | [] \<Rightarrow> (EOF_c, f\<lparr>ieof := True\<rparr>)))"

definition bback :: "inbuf \<Rightarrow> int \<times> inbuf" where
  "bback f = (if inull f \<or> ipos f = 0 then (EOF_c, f) else (0, f\<lparr>ieof := False, ipos := ipos f - 1\<rparr>))"

text \<open>The loop of \<open>breadn\<close>: the value and the number of digits. \<open>length\<close> is \<open>-1\<close> for no limit.\<close>

definition top_digit :: "nat \<Rightarrow> int" where
  "top_digit base = uint (hexCharsSmall ! (base - 1))"

partial_function (option) breadn_loop :: "nat \<Rightarrow> nat \<Rightarrow> int \<Rightarrow> nat \<Rightarrow> inbuf \<Rightarrow> (int \<times> nat \<times> inbuf) option" where
  "breadn_loop base len val digs f = (if len = 0 then Some (val, digs, f)
     else case bgetc f of (tc, f1) \<Rightarrow>
       if tc = EOF_c then Some (val, digs, f1)
       else let lc = tolower tc in
         if lc \<ge> 48 \<and> lc \<le> top_digit base
         then breadn_loop base (len - 1) (int64 (val * int base + (if base > 10 \<and> lc \<ge> 97 then 10 + lc - 97 else lc - 48))) (digs + 1) f1
         else Some (val, digs, snd (bback f1)))"

definition scan_base :: "byte \<Rightarrow> nat" where
  "scan_base c = (if c = ch CHR ''b'' then 2 else if c = ch CHR ''o'' then 8 else if c = ch CHR ''x'' \<or> c = ch CHR ''X'' then 16 else 10)"

definition breadn :: "nat \<Rightarrow> byte \<Rightarrow> inbuf \<Rightarrow> (int \<times> int \<times> inbuf) option" where
  "breadn len c f =
     (let (rc, f1) = (if c = ch CHR ''d'' then bgetc f else (0, f)) in
      if rc < 0 then Some (rc, 0, f1)
      else let neg = (c = ch CHR ''d'' \<and> rc = 45); f2 = (if c = ch CHR ''d'' \<and> \<not> neg then snd (bback f1) else f1) in do {
        (val, digs, f3) \<leftarrow> breadn_loop (scan_base c) (if neg then usub len 1 else len) 0 0 f2;
        Some (if digs > 0 then 0 else EOF_c, if neg then int64 (- val) else val, f3) })"

partial_function (option) breads_loop :: "nat \<Rightarrow> bytes \<Rightarrow> inbuf \<Rightarrow> (bytes \<times> inbuf) option" where
  "breads_loop len acc f = (if len = 0 then Some (acc, f)
     else case bgetc f of (rc, f1) \<Rightarrow>
       if rc = EOF_c then Some (acc, f1)
       else do {
         sp \<leftarrow> truth (isspace rc);
         if sp then Some (acc, snd (bback f1)) else breads_loop (len - 1) (acc @ [word_of_int rc]) f1 })"

section \<open>vbscanf\<close>

text \<open>What is stored, in the order of the arguments.\<close>

datatype sval = SShort int | SInt int | SLong int | SLLong int | SStr bytes | SChar byte

partial_function (option) skip_blank :: "inbuf \<Rightarrow> (int \<times> inbuf) option" where
  "skip_blank f = (case bgetc f of (rc, f1) \<Rightarrow>
     if rc < 0 then Some (rc, f1)
     else do { sp \<leftarrow> truth (isspace rc); if sp then skip_blank f1 else Some (bback f1) })"

record sfl =
  sDISCARD :: bool
  sSHORT :: bool
  sLONG :: bool
  sLONGLONG :: bool

fun scan_flags :: "bytes \<Rightarrow> sfl \<Rightarrow> sfl \<times> bytes" where
  "scan_flags [] fl = (fl, [])"
| "scan_flags (c # cs) fl =
     (if c = ch CHR ''*'' then scan_flags cs (fl\<lparr>sDISCARD := True\<rparr>)
      else if c = ch CHR ''h'' then scan_flags cs (fl\<lparr>sSHORT := True\<rparr>)
      else if c = ch CHR ''l'' then scan_flags cs (fl\<lparr>sLONG := True\<rparr>)
      else if c = ch CHR ''L'' then scan_flags cs (fl\<lparr>sLONGLONG := True\<rparr>)
      else (fl, c # cs))"

definition store_int :: "sfl \<Rightarrow> int \<Rightarrow> sval" where
  "store_int fl v = (if sSHORT fl then SShort (signed_take_bit 15 v) else if sLONG fl then SLong (int32 v) else if sLONGLONG fl then SLLong v else SInt (int32 v))"

text \<open>A conversion: whether to go on, what is stored.\<close>

definition scan_conv :: "byte \<Rightarrow> sfl \<Rightarrow> nat \<Rightarrow> inbuf \<Rightarrow> (bool \<times> sval list \<times> inbuf) option" where
  "scan_conv c fl len f =
     (if c \<in> set (map of_char ''boxXud'') then do {
        (r, v, f1) \<leftarrow> breadn len c f;
        if r < 0 then Some (False, [], f1) else Some (True, if sDISCARD fl then [] else [store_int fl v], f1) }
      else if c = ch CHR ''s'' then do {
        (t, f1) \<leftarrow> breads_loop len [] f;
        Some (True, if sDISCARD fl then [] else [SStr t], f1) }
      else if c = ch CHR ''c'' then (case bgetc f of (rc, f1) \<Rightarrow>
        Some (if rc < 0 then (False, [], f1) else (True, if sDISCARD fl then [] else [SChar (word_of_int rc)], f1)))
      else Some (False, [], f))"

partial_function (option) vbscanf :: "bytes \<Rightarrow> sval list \<Rightarrow> inbuf \<Rightarrow> (sval list \<times> inbuf) option" where
  "vbscanf fmt vals f = (case fmt of
     [] \<Rightarrow> Some (vals, f)
   | c # cs \<Rightarrow>
     if c \<noteq> ch CHR ''%'' then (case bgetc f of (rc, f1) \<Rightarrow> if rc < 0 \<or> rc \<noteq> schar c then Some (vals, f1) else vbscanf cs vals f1)
     else do {
       (r, f1) \<leftarrow> skip_blank f;
       if r < 0 then Some (vals, f1)
       else let (fl, cs1) = scan_flags cs \<lparr>sDISCARD = False, sSHORT = False, sLONG = False, sLONGLONG = False\<rparr>;
                (n, cs2) = read_num int32 cs1 0;
                len = (if n = 0 then 2 ^ 32 - 1 else nat (uint32 n)) in
         (case cs2 of
            [] \<Rightarrow> Some (vals, f1)
          | c # cs3 \<Rightarrow> do {
              (go, new, f2) \<leftarrow> scan_conv c fl len f1;
              if go then vbscanf cs3 (vals @ new) f2 else Some (vals @ new, f2) }) })"

text \<open>\<open>vsscanf\<close>: the number of the values that it stores, and these; \<open>EOF\<close> when there is no memory for the buffer.\<close>

definition sscan_buf :: "bytes \<Rightarrow> inbuf" where
  "sscan_buf s = \<lparr>ifd = - 1, ibuf = s, ipos = 0, ieof = False, ierror = False, inull = False, isrc = []\<rparr>"

definition vsscanf :: "bool \<Rightarrow> bytes \<Rightarrow> bytes \<Rightarrow> (int \<times> sval list) option" where
  "vsscanf memory s fmt = (if \<not> memory then Some (EOF_c, []) else map_option (\<lambda>(vals, f). (int (length vals), vals)) (vbscanf fmt [] (sscan_buf s)))"

section \<open>Scanning a text\<close>

text \<open>A string buffer with \<open>p\<close> read and \<open>q\<close> not.\<close>

definition at :: "bytes \<Rightarrow> bytes \<Rightarrow> inbuf" where
  "at p q = (sscan_buf (p @ q))\<lparr>ipos := length p\<rparr>"

lemma at_start: "sscan_buf s = at [] s"
  by (simp add: at_def sscan_buf_def)

lemma bgetc_at: "bgetc (at p (c # q)) = (schar c, at (p @ [c]) q)" "bgetc (at p []) = (EOF_c, at p [])"
  by (simp_all add: bgetc_def at_def sscan_buf_def)

lemma bback_at: "bback (at (p @ [c]) q) = (0, at p (c # q))"
  by (simp add: bback_def at_def sscan_buf_def)

definition stops :: "bytes \<Rightarrow> bool" where
  "stops q = (q = [] \<or> ascii (hd q) \<and> \<not> is_digit (hd q))"

lemma digit_schar: "is_digit c \<Longrightarrow> schar c = uint c \<and> 48 \<le> schar c \<and> schar c \<le> 57"
proof -
  assume d: "is_digit c"
  then have "ascii c" by (simp add: is_digit_def ascii_def word_less_def word_le_def)
  then show ?thesis using d schar_ascii [of c] by (simp add: is_digit_def)
qed

lemma nondigit_lower: "ascii c \<Longrightarrow> \<not> is_digit c \<Longrightarrow> 0 \<le> schar c \<and> \<not> (48 \<le> tolower (schar c) \<and> tolower (schar c) \<le> 57)"
  using schar_ascii [of c] by (auto simp: is_digit_def tolower_def)

lemma top_digit_10: "top_digit 10 = 57"
  by (simp add: top_digit_def hexCharsSmall_def)

lemma breadn_loop_digits:
  assumes "\<forall>c \<in> set ds. is_digit c" "stops q" "length ds < len"
  shows "breadn_loop 10 len v n (at p (ds @ q)) = Some (foldl (\<lambda>v c. int64 (v * 10 + (uint c - 48))) v ds, n + length ds, at (p @ ds) q)"
  using assms
proof (induction ds arbitrary: len v n p)
  case Nil
  show ?case
  proof (cases q)
    case Nil
    then show ?thesis using \<open>length [] < len\<close> by (subst breadn_loop.simps) (simp add: bgetc_at)
  next
    case (Cons c q')
    then have c: "0 \<le> schar c" "\<not> (48 \<le> tolower (schar c) \<and> tolower (schar c) \<le> 57)" using Nil.prems nondigit_lower [of c] by (auto simp: stops_def)
    then have "schar c \<noteq> EOF_c" by simp
    then show ?thesis using c(2) Nil.prems(3) by (subst breadn_loop.simps) (auto simp: Cons bgetc_at bback_at top_digit_10)
  qed
next
  case (Cons c ds)
  have c: "schar c = uint c" "48 \<le> schar c" "schar c \<le> 57" using digit_schar [of c] Cons.prems by auto
  then have "tolower (schar c) = uint c" "schar c \<noteq> EOF_c" by (simp_all add: tolower_def)
  then have "breadn_loop 10 len v n (at p ((c # ds) @ q)) = breadn_loop 10 (len - 1) (int64 (v * 10 + (uint c - 48))) (n + 1) (at (p @ [c]) (ds @ q))"
    using c Cons.prems(3) by (subst breadn_loop.simps) (simp add: bgetc_at top_digit_10 Let_def)
  then show ?case using Cons.IH [of "len - 1" "int64 (v * 10 + (uint c - 48))" "n + 1" "p @ [c]"] Cons.prems by simp
qed

lemma breadn_loop_dec:
  assumes "k < 2 ^ 63" "stops q" "length (dec k) < len"
  shows "breadn_loop 10 len 0 0 (at p (dec k @ q)) = Some (int k, length (dec k), at (p @ dec k) q)"
proof -
  have i: "int64 x = x" if "0 \<le> x" "x \<le> int k" for x using that assms(1) by simp
  have d: "\<forall>c \<in> set (dec k). is_digit c" using dec_digits by blast
  show ?thesis using breadn_loop_digits [OF d assms(2,3), of 0 0 p] dec_fold [of k int64, OF i] by simp
qed

lemma dec_short: "k < 2 ^ 63 \<Longrightarrow> length (dec k) < 2 ^ 32 - 2"
  using length_dec_le [of k 19] by simp

lemma breadn_u: "k < 2 ^ 63 \<Longrightarrow> stops q \<Longrightarrow> breadn (2 ^ 32 - 1) (ch CHR ''u'') (at p (dec k @ q)) = Some (0, int k, at (p @ dec k) q)"
  using breadn_loop_dec [of k q "2 ^ 32 - 1" p] dec_short [of k] by (simp add: breadn_def scan_base_def Let_def)

lemma breadn_d:
  assumes "- (2 ^ 63) < n" "n < 2 ^ 63" "stops q"
  shows "breadn (2 ^ 32 - 1) (ch CHR ''d'') (at p (sdec n @ q)) = Some (0, n, at (p @ sdec n) q)"
proof (cases "n < 0")
  case True
  define k where "k = nat (- n)"
  have k: "k < 2 ^ 63" "n = - int k" using True assms(1) by (simp_all add: k_def)
  have "usub (2 ^ 32 - 1) 1 = 2 ^ 32 - 2" by (simp add: usub_small)
  then have "breadn_loop 10 (usub (2 ^ 32 - 1) 1) 0 0 (at (p @ [45]) (dec k @ q)) = Some (int k, length (dec k), at (p @ 45 # dec k) q)"
    using breadn_loop_dec [OF k(1) assms(3), of "2 ^ 32 - 2" "p @ [45]"] dec_short [OF k(1)] by simp
  moreover have "int64 (- int k) = n" using k assms(1) by simp
  moreover have "schar (45 :: byte) = 45" by simp
  ultimately show ?thesis using True unfolding breadn_def sdec_def by (simp add: bgetc_at scan_base_def Let_def k_def [symmetric])
next
  case False
  define k where "k = nat n"
  have k: "k < 2 ^ 63" "n = int k" using False assms(2) by (simp_all add: k_def)
  obtain d ds where d: "dec k = d # ds" by (cases "dec k") auto
  have "is_digit d" using dec_digits [of d k] d by simp
  then have "schar d \<noteq> 45" "\<not> schar d < 0" using digit_schar [of d] by auto
  moreover have "breadn_loop 10 (2 ^ 32 - 1) 0 0 (at p (d # ds @ q)) = Some (int k, length (dec k), at (p @ dec k) q)"
    using breadn_loop_dec [OF k(1) assms(3), of "2 ^ 32 - 1" p] dec_short [OF k(1)] d by simp
  ultimately show ?thesis using False d unfolding breadn_def sdec_def by (simp add: bgetc_at bback_at scan_base_def Let_def k(2) k_def [symmetric])
qed

lemma skip_blank_stop: "ascii c \<Longrightarrow> \<not> is_space c \<Longrightarrow> skip_blank (at p (c # q)) = Some (0, at p (c # q))"
  using schar_ascii [of c] isspace_char [of c] by (subst skip_blank.simps) (simp add: bgetc_at bback_at del: isspace_char)

lemma skip_blank_space: "skip_blank (at p (32 # q)) = skip_blank (at (p @ [32]) q)"
  using isspace_char [of 32] by (subst skip_blank.simps) (simp add: bgetc_at ascii_def is_space_def)

lemma skip_blanks: "ascii c \<Longrightarrow> \<not> is_space c \<Longrightarrow> skip_blank (at p (replicate n 32 @ c # q)) = Some (0, at (p @ replicate n 32) (c # q))"
proof (induction n arbitrary: p)
  case (Suc n)
  then show ?case by (simp add: skip_blank_space replicate_append_same)
qed (simp add: skip_blank_stop)

lemma digit_start: "is_digit c \<Longrightarrow> ascii c \<and> \<not> is_space c"
  by (auto simp: is_digit_def ascii_def is_space_def word_less_def word_le_def)

abbreviation no_sfl :: sfl where
  "no_sfl \<equiv> \<lparr>sDISCARD = False, sSHORT = False, sLONG = False, sLONGLONG = False\<rparr>"

lemma scan_lit: "ascii c \<Longrightarrow> c \<noteq> ch CHR ''%'' \<Longrightarrow> vbscanf (c # fmt) vals (at p (c # q)) = vbscanf fmt vals (at (p @ [c]) q)"
  using schar_ascii [of c] by (subst vbscanf.simps) (simp add: bgetc_at)

lemma scan_lit_other: "ascii c \<Longrightarrow> c \<noteq> ch CHR ''%'' \<Longrightarrow> q = [] \<or> hd q \<noteq> c \<Longrightarrow> \<exists>f. vbscanf (c # fmt) vals (at p q) = Some (vals, f)"
proof (cases q)
  case (Cons d q')
  assume c: "ascii c" "c \<noteq> ch CHR ''%''" "q = [] \<or> hd q \<noteq> c"
  then have "schar d \<noteq> schar c" using Cons by (metis list.distinct(1) list.sel(1) signed_word_eqI)
  then show ?thesis using c(2) Cons by (subst vbscanf.simps) (simp add: bgetc_at)
qed (subst vbscanf.simps, simp add: bgetc_at)

lemma plain_conv: "scan_flags (117 # cs) no_sfl = (no_sfl, 117 # cs)" "read_num int32 (117 # cs) 0 = (0, 117 # cs)"
  "scan_flags (100 # cs) no_sfl = (no_sfl, 100 # cs)" "read_num int32 (100 # cs) 0 = (0, 100 # cs)"
  by (simp_all add: is_digit_def)

lemma scan_u:
  assumes "k < 2 ^ 63" "stops q"
  shows "vbscanf (ch CHR ''%'' # ch CHR ''u'' # fmt) vals (at p (dec k @ q)) = vbscanf fmt (vals @ [SInt (int32 (int k))]) (at (p @ dec k) q)"
proof -
  obtain d ds where d: "dec k = d # ds" by (cases "dec k") auto
  then have s: "skip_blank (at p (dec k @ q)) = Some (0, at p (dec k @ q))" using dec_digits [of d k] digit_start [of d] skip_blank_stop [of d p "ds @ q"] by simp
  show ?thesis
    by (subst vbscanf.simps) (simp add: s plain_conv scan_conv_def breadn_u [OF assms, simplified] store_int_def Let_def del: scan_flags.simps read_num.simps)
qed

lemma scan_u_none:
  assumes "q \<noteq> [] \<Longrightarrow> ascii (hd q) \<and> \<not> is_space (hd q) \<and> \<not> is_digit (hd q)"
  shows "\<exists>f. vbscanf (ch CHR ''%'' # ch CHR ''u'' # fmt) vals (at p q) = Some (vals, f)"
proof (cases q)
  case Nil
  have "skip_blank (at p []) = Some (EOF_c, at p [])" by (subst skip_blank.simps) (simp add: bgetc_at)
  then show ?thesis unfolding Nil by (subst vbscanf.simps) simp
next
  case (Cons c q')
  have st: "stops (c # q')" "skip_blank (at p (c # q')) = Some (0, at p (c # q'))" using assms Cons skip_blank_stop [of c p q'] by (auto simp: stops_def)
  have "breadn (2 ^ 32 - 1) (ch CHR ''u'') (at p (c # q')) = Some (EOF_c, 0, at p (c # q'))"
    using breadn_loop_digits [of "[]" "c # q'" "2 ^ 32 - 1" 0 0 p] st(1) by (simp add: breadn_def scan_base_def Let_def)
  from this [simplified] show ?thesis unfolding Cons by (subst vbscanf.simps) (simp add: st(2) plain_conv scan_conv_def Let_def del: scan_flags.simps read_num.simps)
qed

lemma scan_d:
  assumes "- (2 ^ 63) < n" "n < 2 ^ 63" "stops q"
  shows "vbscanf (ch CHR ''%'' # ch CHR ''d'' # fmt) vals (at p (replicate b 32 @ sdec n @ q)) = vbscanf fmt (vals @ [SInt (int32 n)]) (at (p @ replicate b 32 @ sdec n) q)"
proof -
  obtain d ds where d: "sdec n = d # ds" by (cases "sdec n") (auto simp: sdec_def split: if_splits)
  have "ascii d \<and> \<not> is_space d"
  proof (cases "n < 0")
    case True
    then show ?thesis using d by (simp add: sdec_def ascii_def is_space_def)
  next
    case False
    then show ?thesis using d digit_start [of d] dec_digits [of d "nat n"] by (simp add: sdec_def)
  qed
  then have s: "skip_blank (at p (replicate b 32 @ sdec n @ q)) = Some (0, at (p @ replicate b 32) (sdec n @ q))" using d skip_blanks [of d p b "ds @ q"] by simp
  show ?thesis
    by (subst vbscanf.simps) (simp add: s plain_conv scan_conv_def breadn_d [OF assms, simplified] store_int_def Let_def del: scan_flags.simps read_num.simps)
qed

section \<open>Properties\<close>

text \<open>C25: \<open>vsnprintf\<close> prints what its format means and never more than fits. For every format made of characters, \<open>%%\<close> and
  integer, character and string conversions with any flags, a width below 128, a precision and a length, and arguments of the right types other than the
  smallest signed number of a type, the buffer of \<open>n \<ge> 2\<close> bytes has the text of the format, cut to \<open>n - 1\<close> bytes. The code returns the length of the
  text, but -1 when the text was cut, where \<open>stdio.h\<close> promises the length that was needed.\<close>

theorem vsnprintf_text:
  assumes "\<forall>i \<in> set is. item_ok i" "format_text is args = Some t" "2 \<le> n" "n < 2 ^ 32"
  shows "vsnprintf pd n (concat (map item_chars is)) args = Some (if length t < n then int (length t) else - 1, take (n - 1) t, [])"
proof -
  have m: "omax (string_buf n) = n - 1" "usub n 1 = n - 1" using assms(3,4) by (simp_all add: string_buf_def usub_small)
  have b: "bputs_all t (string_buf n) = Some (if length t \<le> n - 1 then int (length t) else EOF_c, (string_buf n)\<lparr>otext := take (n - 1) t\<rparr>)"
    using bputs_all_string [of "string_buf n" t] m by (simp add: string_buf_def)
  have "length t \<le> n - 1 \<longleftrightarrow> length t < n" using assms(3) by auto
  then show ?thesis unfolding vsnprintf_def vbprintf_text [OF assms(1,2)] b using assms(3) m by (auto simp: vresult_def)
qed

definition demo_items :: "item list" where
  "demo_items = [Conv (no_flags\<lparr>PADRIGHT := True\<rparr>) 5 None L0 Cd, Lit (ch CHR ''|''), Conv (no_flags\<lparr>PRINTBASE := True\<rparr>) 0 None Ll Cx, Percent, Conv no_flags 0 (Some 2) L0 Cs]"

theorem vsnprintf_text_witness:
  "vsnprintf (\<lambda>(d :: unit) pad fl p f. None) 16 (map of_char ''%-5d|%#lx%%%.2s'') [AWord (- 42), AWord 255, AStr (Some (map of_char ''abc''))] = Some (13, map of_char ''-42  |0xff%ab'', [])"
proof -
  have d: "digits 10 42 = [4, 2]" "digits 16 255 = [15, 15]" "digits 10 5 = [5]" "digits 10 2 = [2]" by (simp_all add: digits.simps)
  have r: "replicate 2 x = [x, x]" for x :: byte by (simp add: numeral_2_eq_2)
  have a: "\<forall>i \<in> set demo_items. item_ok i" by (simp add: demo_items_def base_flags_def no_flags_def)
  have t: "format_text demo_items [AWord (- 42), AWord 255, AStr (Some (map of_char ''abc'')) :: unit arg] = Some (map of_char ''-42  |0xff%ab'')"
    by (simp add: demo_items_def conv_text_def signed_arg_def unsigned_arg_def signed_text_def unsigned_text_def string_text_def right_pad_def left_pad_def
        sign_text_def base_text_def digits_text_def sdec_def dec_def d padc_def no_flags_def hexCharsSmall_def Let_def r)
  have c: "concat (map item_chars demo_items) = map of_char ''%-5d|%#lx%%%.2s''"
    by (simp add: demo_items_def flag_chars_def no_flags_def dec_def d)
  show ?thesis using vsnprintf_text [OF a t, of 16] unfolding c by simp
qed

text \<open>The text of a signed number without zeros and plus sign: blanks, the digits, blanks.\<close>

lemma signed_text_blanks:
  assumes "\<not> PADZEROS fl" "\<not> FORCESIGN fl"
  shows "\<exists>a b. signed_text n w fl = replicate a 32 @ sdec n @ replicate b 32 \<and> a + length (sdec n) + b \<le> max w (length (sdec n) + 1)"
proof -
  define s where "s = sign_text n fl"
  define k :: nat where "k = (if n > 0 \<and> SPACESIGN fl then 1 else 0)"
  have k: "s = replicate k 32" "k \<le> 1" using assms(2) by (auto simp: s_def sign_text_def k_def)
  have p: "padc fl = 32" using assms(1) by (simp add: padc_def)
  show ?thesis
  proof (cases "PADRIGHT fl")
    case True
    then have "signed_text n w fl = replicate k 32 @ sdec n @ replicate (w - length (s @ sdec n)) 32"
      unfolding signed_text_def s_def [symmetric] by (simp add: right_pad_def left_pad_def p k)
    then show ?thesis using k by (intro exI [of _ k] exI [of _ "w - length (s @ sdec n)"]) auto
  next
    case False
    then have "signed_text n w fl = replicate (w - length (s @ sdec n) + k) 32 @ sdec n"
      unfolding signed_text_def s_def [symmetric] by (simp add: right_pad_def left_pad_def p k replicate_add)
    then show ?thesis using k by (intro exI [of _ "w - length (s @ sdec n) + k"] exI [of _ 0]) auto
  qed
qed

text \<open>C26: \<open>sscanf\<close> reads back what \<open>snprintf\<close> printed. For every \<open>int\<close> but the smallest and every width below 128, with the number
  on the left or on the right of its field, the text of \<open>%d\<close> is read by \<open>%d\<close> as the same number.\<close>

theorem printf_scanf:
  assumes "base_flags fl" "\<not> PADZEROS fl" "\<not> FORCESIGN fl" "w < 128" "sint v \<noteq> - (2 ^ 31)" "140 \<le> n" "n < 2 ^ 32"
  shows "\<exists>t. vsnprintf pd n (item_chars (Conv fl w None L0 Cd)) [AWord v] = Some (int (length t), t, []) \<and>
    vsscanf True t (map of_char ''%d'') = Some (1, [SInt (sint v)])"
proof -
  have v: "- (2 ^ 31) \<le> sint v" "sint v < 2 ^ 31" using sint_greater_eq [of v] sint_less [of v] by simp_all
  obtain a b where ab: "signed_text (sint v) w fl = replicate a 32 @ sdec (sint v) @ replicate b 32" "a + length (sdec (sint v)) + b \<le> max w (length (sdec (sint v)) + 1)"
    using signed_text_blanks [OF assms(2,3)] by blast
  define t where "t = replicate a 32 @ sdec (sint v) @ replicate b (32 :: byte)"
  have l: "length t < 140" using ab(2) assms(4) length_sdec [of "sint v"] v by (auto simp: t_def)
  have cap: "fl\<lparr>CAPHEX := False\<rparr> = fl" using assms(1) by (simp add: base_flags_def)
  have f: "format_text [Conv fl w None L0 Cd] [AWord v] = Some t" using assms(5) cap by (simp add: conv_text_def signed_arg_def t_def ab(1))
  have "\<forall>i \<in> set [Conv fl w None L0 Cd]. item_ok i" using assms(1,4) by simp
  from vsnprintf_text [OF this f, of n pd] have p: "vsnprintf pd n (item_chars (Conv fl w None L0 Cd)) [AWord v] = Some (int (length t), t, [])"
    using assms(6,7) l by simp
  have st: "stops (replicate b 32)" by (cases b) (simp_all add: stops_def ascii_def is_digit_def)
  have "vbscanf (map of_char ''%d'') [] (at [] t) = vbscanf [] ([] @ [SInt (int32 (sint v))]) (at ([] @ replicate a 32 @ sdec (sint v)) (replicate b 32))"
    using scan_d [of "sint v" "replicate b 32" "[]" "[]" "[]" a] v st by (simp add: t_def)
  then have "vsscanf True t (map of_char ''%d'') = Some (1, [SInt (sint v)])" using v by (simp add: vsscanf_def at_start vbscanf.simps [of "[]"])
  with p show ?thesis by blast
qed

theorem printf_scanf_witness:
  "\<exists>t. vsnprintf (\<lambda>(d :: unit) pad fl p f. None) 200 (map of_char ''%12d'') [AWord (- 42)] = Some (int (length t), t, []) \<and> vsscanf True t (map of_char ''%d'') = Some (1, [SInt (- 42)])"
proof -
  have c: "item_chars (Conv no_flags 12 None L0 Cd) = map of_char ''%12d''" by (simp add: flag_chars_def no_flags_def dec_def digits.simps)
  have v: "sint (- 42 :: 32 word) = - 42" by simp
  have "\<exists>t. vsnprintf (\<lambda>(d :: unit) pad fl p f. None) 200 (item_chars (Conv no_flags 12 None L0 Cd)) [AWord (- 42)] = Some (int (length t), t, []) \<and>
    vsscanf True t (map of_char ''%d'') = Some (1, [SInt (sint (- 42 :: 32 word))])" by (rule printf_scanf) (simp_all add: base_flags_def no_flags_def)
  then show ?thesis unfolding c v .
qed

section \<open>Flaws\<close>

text \<open>The smallest \<open>int\<close> stays negative when its sign is changed: its text is \<open>-(\<close>.\<close>

lemma printf_int_min: "bprintn (- (2 ^ 31)) f = bputs_all (map of_char ''-('') f"
proof -
  have "signed_take_bit 31 (2147483648 :: int) = - 2147483648" by code_simp
  moreover have "(- 2147483648 :: int) smod 10 = - 8" by code_simp
  ultimately show ?thesis unfolding bprintn_def by (subst bprints.simps) (simp add: Let_def put1_text bputs_all_append del: bputs_all.simps)
qed

text \<open>Zeros are padded in front of the sign, and \<open>sscanf\<close> then reads another number.\<close>

lemma printf_zero_sign: "signed_text (- 3) 5 (no_flags\<lparr>PADZEROS := True\<rparr>) = map of_char ''000-3''"
  by (simp add: signed_text_def right_pad_def left_pad_def sign_text_def no_flags_def sdec_def dec_def digits.simps padc_def numeral_eq_Suc)

text \<open>A width is a \<open>char\<close>: a field of 200 characters becomes one of 4294967240.\<close>

lemma printf_wide: "fst (read_num schar8 (map of_char ''200d'') 0) = - 56 \<and> pad_left True (nat (uint32 (- 56))) (Some 1) no_flags = bputs_all (replicate 4294967239 32)"
proof -
  have "nat (uint32 (- 56)) = 4294967240" by (simp add: uint32_def take_bit_eq_mod)
  moreover have "schar8 200 = - 56" "schar8 20 = 20" "schar8 2 = 2" by code_simp+
  ultimately show ?thesis unfolding pad_left_text by (simp add: left_pad_def padc_def no_flags_def is_digit_def)
qed

text \<open>A buffer of one byte fails the assertion of \<open>binit\<close>; with size 0 the text is written although there is no room at all.\<close>

lemma vsnprintf_tiny: "vsnprintf pd 1 fmt args = None" "vsnprintf pd 0 fmt args = None"
  by (auto simp: vsnprintf_def string_buf_def usub_def split: Option.bind_splits)

text \<open>\<open>%x\<close> takes every character between \<open>0\<close> and \<open>f\<close> for a digit, as the colon for 10.\<close>

lemma scanf_hex_colon: "breadn_loop 16 (Suc n) 0 0 (at [] (map of_char '':'')) = Some (10, 1, at [58] [])"
proof -
  have "schar (58 :: byte) = 58" by simp
  then show ?thesis by (simp add: breadn_loop.simps bgetc_at top_digit_def hexCharsSmall_def tolower_def)
qed

text \<open>Bytes from 128 on are read as negative numbers, the last one as the end of the file.\<close>

lemma bgetc_negative: "\<not> ascii c \<Longrightarrow> fst (bgetc (at p (c # q))) < 0" "fst (bgetc (at p (255 # q))) = EOF_c"
  by (simp_all add: bgetc_at schar_neg)

section \<open>Scanning a text returns\<close>

text \<open>From a string buffer, what is read next is always a part of the text.\<close>

definition part_of :: "bytes \<Rightarrow> inbuf \<Rightarrow> bool" where
  "part_of s f = (\<exists>p q. f = at p q \<and> set q \<subseteq> set s)"

lemma part_of_at [simp]: "set q \<subseteq> set s \<Longrightarrow> part_of s (at p q)"
  by (auto simp: part_of_def)

lemma part_ofE: "part_of s f \<Longrightarrow> (\<And>p q. f = at p q \<Longrightarrow> set q \<subseteq> set s \<Longrightarrow> P) \<Longrightarrow> P"
  by (auto simp: part_of_def)

lemma bgetc_part: "part_of s f \<Longrightarrow> part_of s (snd (bgetc f))"
proof (erule part_ofE)
  fix p q
  assume "f = at p q" "set q \<subseteq> set s"
  then show ?thesis by (cases q) (simp_all add: bgetc_at)
qed

lemma ascii_nonneg: "\<not> schar c < 0 \<Longrightarrow> ascii c"
proof (rule ccontr)
  assume c: "\<not> schar c < 0" "\<not> ascii c"
  then have "128 \<le> uint c" "uint c < 256" using uint_lt2p [of c] by (simp_all add: ascii_def word_less_def)
  moreover from this have "uint c div 128 = 1" by presburger
  ultimately have "schar c = uint c - 256" unfolding sint_uint by (simp add: signed_take_bit_eq_take_bit_minus take_bit_int_eq_self bit_iff_odd)
  then show False using c(1) uint_lt2p [of c] by simp
qed

lemma skip_blank_part: "set q \<subseteq> set s \<Longrightarrow> \<exists>r f. skip_blank (at p q) = Some (r, f) \<and> part_of s f"
proof (induction q arbitrary: p)
  case Nil
  then show ?case by (subst skip_blank.simps) (simp add: bgetc_at)
next
  case (Cons c q)
  show ?case
  proof (cases "schar c < 0")
    case True
    then show ?thesis using Cons.prems by (subst skip_blank.simps) (simp add: bgetc_at)
  next
    case False
    then have a: "ascii c" by (simp add: ascii_nonneg)
    then show ?thesis using Cons False isspace_char [OF a] by (subst skip_blank.simps) (simp add: bgetc_at bback_at del: isspace_char)
  qed
qed

lemma breadn_loop_part: "set q \<subseteq> set s \<Longrightarrow> \<exists>v' d' f. breadn_loop base len v d (at p q) = Some (v', d', f) \<and> part_of s f"
proof (induction q arbitrary: p len v d)
  case Nil
  then show ?case by (subst breadn_loop.simps) (simp add: bgetc_at)
next
  case (Cons c q)
  then show ?case by (subst breadn_loop.simps) (simp add: bgetc_at bback_at Let_def)
qed

lemma breadn_part: "part_of s f \<Longrightarrow> \<exists>r v f'. breadn len c f = Some (r, v, f') \<and> part_of s f'"
proof (erule part_ofE)
  fix p q
  assume f: "f = at p q" "set q \<subseteq> set s"
  show ?thesis
  proof (cases "c = ch CHR ''d''")
    case True
    show ?thesis
    proof (cases q)
      case Nil
      then show ?thesis using f True by (simp add: breadn_def bgetc_at)
    next
      case (Cons x q')
      have q: "set q' \<subseteq> set s" using f(2) Cons by simp
      obtain v d f1 where "breadn_loop 10 (usub len 1) 0 0 (at (p @ [x]) q') = Some (v, d, f1)" "part_of s f1" using breadn_loop_part [OF q] by blast
      moreover obtain v' d' f2 where "breadn_loop 10 len 0 0 (at p (x # q')) = Some (v', d', f2)" "part_of s f2" using breadn_loop_part [OF f(2)] Cons by blast
      ultimately show ?thesis using f Cons True q by (auto simp: breadn_def bgetc_at bback_at scan_base_def Let_def)
    qed
  next
    case False
    from breadn_loop_part [OF f(2), of "scan_base c" len 0 0 p] f(1) False show ?thesis by (auto simp: breadn_def Let_def)
  qed
qed

lemma breads_loop_part:
  "set q \<subseteq> set s \<Longrightarrow> \<forall>c \<in> set s. ascii c \<Longrightarrow> \<exists>t f. breads_loop len acc (at p q) = Some (t, f) \<and> part_of s f"
proof (induction q arbitrary: p len acc)
  case Nil
  then show ?case by (subst breads_loop.simps) (simp add: bgetc_at)
next
  case (Cons c q)
  then have a: "ascii c" by simp
  then show ?case using Cons isspace_char [OF a] by (subst breads_loop.simps) (simp add: bgetc_at bback_at del: isspace_char)
qed

definition scannable :: "bytes \<Rightarrow> bytes \<Rightarrow> bool" where
  "scannable fmt s = (ch CHR ''s'' \<notin> set fmt \<or> (\<forall>c \<in> set s. ascii c))"

lemma scan_conv_part:
  assumes "part_of s f" "c = ch CHR ''s'' \<Longrightarrow> \<forall>c \<in> set s. ascii c"
  shows "\<exists>go new f'. scan_conv c fl len f = Some (go, new, f') \<and> part_of s f'"
proof (cases "c = ch CHR ''s''")
  case True
  obtain p q where "f = at p q" "set q \<subseteq> set s" using assms(1) by (auto simp: part_of_def)
  then show ?thesis using breads_loop_part [of q s len "[]" p] assms(2) True by (auto simp: scan_conv_def)
next
  case False
  obtain r v f1 where b: "breadn len c f = Some (r, v, f1)" "part_of s f1" using breadn_part [OF assms(1)] by blast
  have "part_of s (snd (bgetc f))" by (rule bgetc_part [OF assms(1)])
  then show ?thesis using False b assms(1) by (auto simp: scan_conv_def split: prod.splits)
qed

lemma scan_flags_suffix: "length (snd (scan_flags cs fl)) \<le> length cs \<and> set (snd (scan_flags cs fl)) \<subseteq> set cs"
  by (induction cs fl rule: scan_flags.induct) auto

lemma read_num_suffix: "length (snd (read_num w cs n)) \<le> length cs \<and> set (snd (read_num w cs n)) \<subseteq> set cs"
  by (induction w cs n rule: read_num.induct) auto

lemma vbscanf_part:
  assumes "part_of s f" "scannable fmt s"
  shows "\<exists>v f'. vbscanf fmt vals f = Some (v, f')"
  using assms
proof (induction "length fmt" arbitrary: fmt vals f rule: less_induct)
  case less
  show ?case
  proof (cases fmt)
    case Nil
    then show ?thesis by (simp add: vbscanf.simps)
  next
    case (Cons c cs)
    show ?thesis
    proof (cases "c = ch CHR ''%''")
      case False
      have "scannable cs s" using less.prems(2) Cons by (auto simp: scannable_def)
      then have "\<exists>v f'. vbscanf cs vals (snd (bgetc f)) = Some (v, f')" using less.hyps [OF _ bgetc_part [OF less.prems(1)]] Cons by simp
      then show ?thesis unfolding Cons using False by (subst vbscanf.simps) (auto split: prod.splits)
    next
      case True
      obtain p q where f: "f = at p q" "set q \<subseteq> set s" using less.prems(1) by (auto simp: part_of_def)
      obtain r f1 where s: "skip_blank f = Some (r, f1)" "part_of s f1" using skip_blank_part [OF f(2), of p] f(1) by blast
      obtain fl cs1 where c1: "scan_flags cs no_sfl = (fl, cs1)" by (cases "scan_flags cs no_sfl")
      obtain n cs2 where c2: "read_num int32 cs1 0 = (n, cs2)" by (cases "read_num int32 cs1 0")
      have l: "length cs2 \<le> length cs" "set cs2 \<subseteq> set cs" using scan_flags_suffix [of cs no_sfl] read_num_suffix [of int32 cs1 0] c1 c2 by auto
      show ?thesis
      proof (cases cs2)
        case Nil
        then show ?thesis unfolding Cons using True s(1) c1 c2 by (subst vbscanf.simps) simp
      next
        case (Cons d cs3)
        have d: "scannable cs3 s" "d = ch CHR ''s'' \<Longrightarrow> \<forall>c \<in> set s. ascii c" "length cs3 < length fmt"
          using less.prems(2) l \<open>fmt = c # cs\<close> Cons by (auto simp: scannable_def)
        define len where "len = (if n = 0 then 2 ^ 32 - 1 else nat (uint32 n))"
        obtain go new f2 where k: "scan_conv d fl len f1 = Some (go, new, f2)" "part_of s f2" using scan_conv_part [OF s(2) d(2)] by blast
        have "\<exists>v f'. vbscanf cs3 (vals @ new) f2 = Some (v, f')" by (rule less.hyps [OF d(3) k(2) d(1)])
        then show ?thesis unfolding \<open>fmt = c # cs\<close> using True s(1) c1 c2 Cons k(1)
          by (subst vbscanf.simps) (auto simp: Let_def len_def [symmetric])
      qed
    qed
  qed
qed

lemma vsscanf_ends:
  assumes "scannable fmt s"
  shows "\<exists>c v. vsscanf memory s fmt = Some (c, v)"
  using vbscanf_part [OF _ assms, of "sscan_buf s" "[]"] by (auto simp: vsscanf_def at_start)

text \<open>\<open>sscanf\<close> returns for every text and every format, whatever the format asks for and wherever the text ends or does not match, when the format has no
  \<open>%s\<close> or the text only ASCII characters; then every loop of \<open>vbscanf\<close> ends and none of the character classes is asked outside of its table.\<close>

theorem vsscanf_returns:
  assumes "scannable fmt s"
  shows "\<exists>r. vsscanf memory s fmt = Some r"
  using vsscanf_ends [OF assms] by simp

theorem vsscanf_returns_witness:
  "\<exists>r. vsscanf True [32, 49, 200, 58] (map of_char ''%u:%d'') = Some r"
  using vsscanf_returns [of "map of_char ''%u:%d''" "[32, 49, 200, 58]" True] by (simp add: scannable_def)

end
