(* ===== verification/UserDb.thy ===== *)
theory UserDb
  imports Stdio
begin

text \<open>
  The database of users, groups and passwords, \<open>lib/usergroup\<close>: the files \<open>/etc/users\<close>, \<open>/etc/groups\<close> and \<open>/etc/passwd\<close> are parsed into linked
  lists, changed and written again. A list is a HOL list; a pointer into a text is the rest of the text, which ends before the terminating 0:
  the empty list is the pointer to the terminating 0, and moving it further, or a store behind the end of an array, is a fault, \<open>None\<close>. Ids have 16 bits. \<open>mem\<close> says which of the allocations succeed.
\<close>

section \<open>Users\<close>

abbreviation MAX_USERNAME_LEN :: nat where "MAX_USERNAME_LEN \<equiv> 31"
abbreviation MAX_PATH_LEN :: nat where "MAX_PATH_LEN \<equiv> 255"
abbreviation MAX_GROUPNAME_LEN :: nat where "MAX_GROUPNAME_LEN \<equiv> 31"
abbreviation MAX_PW_LEN :: nat where "MAX_PW_LEN \<equiv> 31"

record sUser =
  usr_uid :: nat
  usr_gid :: nat
  usr_name :: bytes
  usr_home :: bytes

definition uid_of :: "int \<Rightarrow> nat" where
  "uid_of i = nat (i mod 65536)"

text \<open>\<open>p++\<close>.\<close>

fun forward :: "bytes \<Rightarrow> bytes option" where
  "forward [] = None"
| "forward (c # cs) = Some cs"

definition to_colon :: "bytes \<Rightarrow> bytes" where
  "to_colon p = dropWhile (\<lambda>c. c \<noteq> ch CHR '':'') p"

definition next_line :: "bytes \<Rightarrow> bytes" where
  "next_line p = dropWhile (\<lambda>c. c = 10) (dropWhile (\<lambda>c. c \<noteq> 10) p)"

fun readStr_loop :: "bytes \<Rightarrow> nat \<Rightarrow> bytes \<times> bytes" where
  "readStr_loop [] n = ([], [])"
| "readStr_loop (c # cs) n = (if c \<noteq> ch CHR '':'' \<and> c \<noteq> 10 \<and> n > 0 then (case readStr_loop cs (n - 1) of (t, r) \<Rightarrow> (c # t, r)) else ([], c # cs))"

text \<open>The string and the rest, or \<open>NULL\<close>; the string and its terminating 0 are written to a buffer of \<open>sz\<close> bytes.\<close>

definition user_readStr :: "bytes \<Rightarrow> nat \<Rightarrow> bool \<Rightarrow> (bytes \<times> bytes) option option" where
  "user_readStr src sz lst = (case readStr_loop src (sz - 1) of (t, r) \<Rightarrow>
     if t = [] \<or> (\<not> lst \<and> r = []) then Some None
     else do {
       r' \<leftarrow> (if lst then Some r else forward r);
       vassert (length t < sz);
       Some (Some (t, r')) })"

text \<open>The result is \<open>Some None\<close> for an error, where the code frees the list and returns \<open>NULL\<close>.\<close>

partial_function (option) user_parse :: "(nat \<Rightarrow> bool) \<Rightarrow> nat \<Rightarrow> bytes \<Rightarrow> sUser list \<Rightarrow> sUser list option option" where
  "user_parse mem n p us = (if p = [] then Some (Some us) else do {
     (cnt, vals) \<leftarrow> vsscanf (mem n) p (map of_char ''%u:%u'');
     case vals of
       [SInt uid, SInt gid] \<Rightarrow>
         let p1 = to_colon p in
         if p1 = [] then Some None
         else do {
           q1 \<leftarrow> forward p1;
           let p2 = to_colon q1;
           if p2 = [] then Some None
           else do {
             q2 \<leftarrow> forward p2;
             if \<not> mem (n + 1) then Some None
             else do {
               r1 \<leftarrow> user_readStr q2 (MAX_USERNAME_LEN + 1) False;
               case r1 of
                 None \<Rightarrow> Some None
               | Some (name, p3) \<Rightarrow> do {
                   r2 \<leftarrow> user_readStr p3 (MAX_PATH_LEN + 1) True;
                   case r2 of
                     None \<Rightarrow> Some None
                   | Some (home, p4) \<Rightarrow>
                       user_parse mem (n + 2) (next_line p4) (us @ [\<lparr>usr_uid = uid_of uid, usr_gid = uid_of gid, usr_name = name, usr_home = home\<rparr>]) } } } }
     | _ \<Rightarrow> Some None })"

text \<open>Writing stops at the first error; the result is the error of the file.\<close>

definition word16 :: "nat \<Rightarrow> 'd arg" where
  "word16 n = AWord (of_nat n)"

fun user_write :: "sUser list \<Rightarrow> outbuf \<Rightarrow> (bool \<times> outbuf) option" where
  "user_write [] f = Some (oerror f, f)"
| "user_write (u # us) f = (if oerror f then Some (True, f) else do {
     (r, f', st) \<leftarrow> vbprintf (\<lambda>(d :: unit) pad fl p f. None) (map of_char ''%u:%u:%s:%s'' @ [10]) [word16 (usr_uid u), word16 (usr_gid u), AStr (Some (usr_name u)), AStr (Some (usr_home u))] 0 f [];
     user_write us f' })"

definition user_getFreeUid :: "sUser list \<Rightarrow> nat" where
  "user_getFreeUid us = (foldl (\<lambda>res u. if usr_uid u > res then usr_uid u else res) 0 us + 1) mod 65536"

fun user_getById :: "sUser list \<Rightarrow> nat \<Rightarrow> sUser option" where
  "user_getById [] uid = None"
| "user_getById (u # us) uid = (if usr_uid u = uid then Some u else user_getById us uid)"

fun user_getByName :: "sUser list \<Rightarrow> bytes \<Rightarrow> sUser option" where
  "user_getByName [] name = None"
| "user_getByName (u # us) name = (if usr_name u = name then Some u else user_getByName us name)"

text \<open>The list of the caller after \<open>append\<close> and \<open>remove\<close>; an element is given by its position. Appending to the empty list, \<open>NULL\<close>, is a fault. The
  pointer of the caller to the first element does not change.\<close>

definition list_append :: "'a list \<Rightarrow> 'a \<Rightarrow> 'a list option" where
  "list_append l x = (if l = [] then None else Some (l @ [x]))"

definition list_remove :: "'a list \<Rightarrow> nat \<Rightarrow> 'a list" where
  "list_remove l i = (if i = 0 then l else take i l @ drop (i + 1) l)"

section \<open>Passwords\<close>

record sPasswd =
  pwd_uid :: nat
  pwd_pw :: bytes

partial_function (option) pw_parse :: "(nat \<Rightarrow> bool) \<Rightarrow> nat \<Rightarrow> bytes \<Rightarrow> sPasswd list \<Rightarrow> sPasswd list option option" where
  "pw_parse mem n p ps = (if p = [] then Some (Some ps) else do {
     (cnt, vals) \<leftarrow> vsscanf (mem n) p (map of_char ''%u'');
     case vals of
       [SInt uid] \<Rightarrow>
         let p1 = to_colon p in
         if p1 = [] then Some None
         else do {
           q1 \<leftarrow> forward p1;
           if \<not> mem (n + 1) then Some None
           else do {
             r \<leftarrow> user_readStr q1 (MAX_PW_LEN + 1) True;
             case r of
               None \<Rightarrow> Some None
             | Some (pw, p2) \<Rightarrow> pw_parse mem (n + 2) (next_line p2) (ps @ [\<lparr>pwd_uid = uid_of uid, pwd_pw = pw\<rparr>]) } }
     | _ \<Rightarrow> Some None })"

fun pw_write :: "sPasswd list \<Rightarrow> outbuf \<Rightarrow> (bool \<times> outbuf) option" where
  "pw_write [] f = Some (oerror f, f)"
| "pw_write (u # us) f = (if oerror f then Some (True, f) else do {
     (r, f', st) \<leftarrow> vbprintf (\<lambda>(d :: unit) pad fl p f. None) (map of_char ''%u:%s'' @ [10]) [word16 (pwd_uid u), AStr (Some (pwd_pw u))] 0 f [];
     pw_write us f' })"

fun pw_getById :: "sPasswd list \<Rightarrow> nat \<Rightarrow> sPasswd option" where
  "pw_getById [] uid = None"
| "pw_getById (u # us) uid = (if pwd_uid u = uid then Some u else pw_getById us uid)"

section \<open>Groups\<close>

record sGroup =
  grp_gid :: nat
  grp_name :: bytes
  grp_users :: "nat list"

text \<open>The users of a group; \<open>room\<close> is the number of ids for which there is room. The result has the rest of the text and the number of allocations.\<close>

partial_function (option) group_users :: "(nat \<Rightarrow> bool) \<Rightarrow> nat \<Rightarrow> bytes \<Rightarrow> nat \<Rightarrow> nat list \<Rightarrow> (nat list \<times> bytes \<times> nat) option option" where
  "group_users mem n p room us = do {
     (cnt, vals) \<leftarrow> vsscanf (mem n) p (map of_char '':%u'');
     case vals of
       [SInt uid] \<Rightarrow>
         let full = length us \<ge> room; room' = (if full then room * 2 else room) in
         if full \<and> \<not> mem (n + 1) then Some None
         else do {
           vassert (length us < room');
           q \<leftarrow> forward p;
           group_users mem (n + (if full then 2 else 1)) (dropWhile (\<lambda>c. c \<noteq> ch CHR '':'' \<and> c \<noteq> 10) q) room' (us @ [uid_of uid]) }
     | _ \<Rightarrow> Some (Some (us, p, n + 1)) }"

partial_function (option) group_parse :: "(nat \<Rightarrow> bool) \<Rightarrow> nat \<Rightarrow> bytes \<Rightarrow> sGroup list \<Rightarrow> sGroup list option option" where
  "group_parse mem n p gs = (if p = [] then Some (Some gs) else do {
     (cnt, vals) \<leftarrow> vsscanf (mem n) p (map of_char ''%u'');
     case vals of
       [SInt gid] \<Rightarrow>
         let p1 = to_colon p in
         if p1 = [] then Some None
         else do {
           q1 \<leftarrow> forward p1;
           if \<not> mem (n + 1) \<or> \<not> mem (n + 2) then Some None
           else (case readStr_loop q1 MAX_GROUPNAME_LEN of (name, p2) \<Rightarrow>
             if name = [] then Some None
             else do {
               vassert (length name < MAX_GROUPNAME_LEN + 1);
               r \<leftarrow> group_users mem (n + 3) p2 8 [];
               case r of
                 None \<Rightarrow> Some None
               | Some (us, p3, n') \<Rightarrow> group_parse mem n' (next_line p3) (gs @ [\<lparr>grp_gid = uid_of gid, grp_name = name, grp_users = us\<rparr>]) }) }
     | _ \<Rightarrow> Some None })"

fun group_write_users :: "nat list \<Rightarrow> outbuf \<Rightarrow> outbuf option" where
  "group_write_users [] f = Some f"
| "group_write_users (u # us) f = do { (r, f', st) \<leftarrow> vbprintf (\<lambda>(d :: unit) pad fl p f. None) (map of_char '':%u'') [word16 u] 0 f []; group_write_users us f' }"

fun group_write :: "sGroup list \<Rightarrow> outbuf \<Rightarrow> (bool \<times> outbuf) option" where
  "group_write [] f = Some (oerror f, f)"
| "group_write (g # gs) f = (if oerror f then Some (True, f) else do {
     (r, f1, st) \<leftarrow> vbprintf (\<lambda>(d :: unit) pad fl p f. None) (map of_char ''%u:%s'') [word16 (grp_gid g), AStr (Some (grp_name g))] 0 f [];
     f2 \<leftarrow> group_write_users (grp_users g) f1;
     (r, f3) \<leftarrow> bputc f2 10;
     group_write gs f3 })"

definition group_getFreeGid :: "sGroup list \<Rightarrow> nat" where
  "group_getFreeGid gs = (foldl (\<lambda>res g. if grp_gid g > res then grp_gid g else res) 0 gs + 1) mod 65536"

fun group_getById :: "sGroup list \<Rightarrow> nat \<Rightarrow> sGroup option" where
  "group_getById [] gid = None"
| "group_getById (g # gs) gid = (if grp_gid g = gid then Some g else group_getById gs gid)"

fun group_getByName :: "sGroup list \<Rightarrow> bytes \<Rightarrow> sGroup option" where
  "group_getByName [] name = None"
| "group_getByName (g # gs) name = (if grp_name g = name then Some g else group_getByName gs name)"

text \<open>The array of \<open>group_collectGroupsFor\<close>: the ids and the room; a store behind the room is a fault.\<close>

fun collect_users :: "(nat \<Rightarrow> bool) \<Rightarrow> nat \<Rightarrow> nat \<Rightarrow> nat \<Rightarrow> nat list \<Rightarrow> nat list \<times> nat \<times> nat \<Rightarrow> (nat list \<times> nat \<times> nat) option option" where
  "collect_users mem openSlots uid gid [] s = Some (Some s)"
| "collect_users mem openSlots uid gid (u # us) (res, room, n) =
     (if u = uid then
        if length res + openSlots \<ge> room \<and> \<not> mem n then Some None
        else let (room', n') = (if length res + openSlots \<ge> room then (room * 2, n + 1) else (room, n)) in
          if length res < room' then collect_users mem openSlots uid gid us (res @ [gid], room', n') else None
      else collect_users mem openSlots uid gid us (res, room, n))"

fun collect_groups :: "(nat \<Rightarrow> bool) \<Rightarrow> nat \<Rightarrow> nat \<Rightarrow> sGroup list \<Rightarrow> nat list \<times> nat \<times> nat \<Rightarrow> (nat list \<times> nat \<times> nat) option option" where
  "collect_groups mem openSlots uid [] s = Some (Some s)"
| "collect_groups mem openSlots uid (g # gs) s = do {
     r \<leftarrow> collect_users mem openSlots uid (grp_gid g) (grp_users g) s;
     case r of None \<Rightarrow> Some None | Some s' \<Rightarrow> collect_groups mem openSlots uid gs s' }"

definition group_collectGroupsFor :: "(nat \<Rightarrow> bool) \<Rightarrow> sGroup list \<Rightarrow> nat \<Rightarrow> nat \<Rightarrow> (nat list \<times> nat) option option" where
  "group_collectGroupsFor mem gs uid openSlots = (if \<not> mem 0 then Some None else
     map_option (map_option (\<lambda>(res, room, n). (res, room))) (collect_groups mem openSlots uid gs ([], max openSlots 8, 1)))"

text \<open>\<open>group_removeFrom\<close> moves the ids that stay to the front.\<close>

fun remove_loop :: "nat \<Rightarrow> nat \<Rightarrow> nat \<Rightarrow> nat list \<Rightarrow> nat \<Rightarrow> nat list \<times> nat" where
  "remove_loop uid i j us 0 = (us, j)"
| "remove_loop uid i j us (Suc k) = (let us' = us[j := us ! i] in remove_loop uid (i + 1) (if us' ! i \<noteq> uid then j + 1 else j) us' k)"

definition group_removeFrom :: "sGroup \<Rightarrow> nat \<Rightarrow> sGroup" where
  "group_removeFrom g uid = (case remove_loop uid 0 0 (grp_users g) (length (grp_users g)) of (us, j) \<Rightarrow> g\<lparr>grp_users := take j us\<rparr>)"

definition group_removeFromAll :: "sGroup list \<Rightarrow> nat \<Rightarrow> sGroup list" where
  "group_removeFromAll gs uid = map (\<lambda>g. group_removeFrom g uid) gs"

section \<open>Writing\<close>

text \<open>A file that can be written; its contents are what was written and what is in the buffer.\<close>

definition file_ok :: "outbuf \<Rightarrow> bool" where
  "file_ok f = (0 \<le> ofd f \<and> 0 < omax f \<and> outcomes f = [] \<and> \<not> oerror f \<and> \<not> onull f)"

definition contents :: "outbuf \<Rightarrow> bytes" where
  "contents f = sink f @ otext f"

lemma bputc_file: "file_ok f \<Longrightarrow> \<exists>f'. bputc f c = Some (uint c, f') \<and> file_ok f' \<and> contents f' = contents f @ [c]"
  by (auto simp: bputc_def reterr_def file_ok_def contents_def bflush_def bput_def succeeds_def)

lemma bputs_all_file: "file_ok f \<Longrightarrow> \<exists>f'. bputs_all t f = Some (int (length t), f') \<and> file_ok f' \<and> contents f' = contents f @ t"
proof (induction t arbitrary: f)
  case (Cons c t)
  obtain f1 where "bputc f c = Some (uint c, f1)" "file_ok f1" "contents f1 = contents f @ [c]" using bputc_file [OF Cons.prems] by blast
  moreover from this Cons.IH [of f1] obtain f2 where "bputs_all t f1 = Some (int (length t), f2)" "file_ok f2" "contents f2 = contents f1 @ t" by blast
  ultimately show ?case by (simp add: put1_def counting_def reterr_def)
qed simp

lemma print_file:
  assumes "file_ok f" "\<forall>i \<in> set is. item_ok i" "format_text is args = Some t" "fmt = concat (map item_chars is)"
  shows "\<exists>r f' st. vbprintf pd fmt args 0 f [] = Some (r, f', st) \<and> file_ok f' \<and> contents f' = contents f @ t"
proof -
  obtain f' where "bputs_all t f = Some (int (length t), f')" "file_ok f'" "contents f' = contents f @ t" using bputs_all_file [OF assms(1)] by blast
  then show ?thesis unfolding assms(4) vbprintf_text [OF assms(2,3)] by (simp add: vresult_def)
qed

abbreviation pu :: item where "pu \<equiv> Conv no_flags 0 None L0 Cu"
abbreviation ps :: item where "ps \<equiv> Conv no_flags 0 None L0 Cs"
abbreviation colon :: byte where "colon \<equiv> 58"

lemma base_no_flags [simp]: "base_flags no_flags" "flag_chars no_flags = []"
  by (simp_all add: base_flags_def no_flags_def flag_chars_def)

lemma digits_text_dec: "digits_text k 10 (no_flags\<lparr>CAPHEX := False\<rparr>) = dec k"
proof -
  have "hexCharsSmall ! d = word_of_nat (48 + d)" if "d \<in> set (digits 10 k)" for d
  proof -
    have "d < 10" using digits_less [of 10 d k] that by simp
    then have "d \<in> {0, 1, 2, 3, 4, 5, 6, 7, 8, 9}" by auto
    then show ?thesis by (auto simp: hexCharsSmall_def)
  qed
  then show ?thesis by (simp add: digits_text_def no_flags_def dec_def)
qed

lemma plain_text_s: "conv_text no_flags 0 None L0 Cs (AStr (Some s)) = Some s"
  by (simp add: conv_text_def string_text_def no_flags_def right_pad_def left_pad_def Let_def)

lemma plain_text_u:
  assumes "k < 65536"
  shows "conv_text no_flags 0 None L0 Cu (word16 k) = Some (dec k)"
proof -
  have u: "unat (of_nat k :: 32 word) = k" using assms by (simp add: unat_of_nat)
  have n: "no_flags\<lparr>CAPHEX := False\<rparr> = no_flags" "\<not> PADRIGHT no_flags" "\<not> PRINTBASE no_flags" by (simp_all add: no_flags_def)
  show ?thesis
    using digits_text_dec [of k] u by (simp add: conv_text_def word16_def unsigned_arg_def unsigned_text_def n right_pad_def left_pad_def base_text_def Let_def)
qed

lemmas plain_texts = plain_text_u plain_text_s

definition user_line :: "sUser \<Rightarrow> bytes" where
  "user_line u = dec (usr_uid u) @ colon # dec (usr_gid u) @ colon # usr_name u @ colon # usr_home u @ [10]"

lemma user_write_file:
  assumes "file_ok f" "\<forall>u \<in> set us. usr_uid u < 65536 \<and> usr_gid u < 65536"
  shows "\<exists>f'. user_write us f = Some (False, f') \<and> file_ok f' \<and> contents f' = contents f @ concat (map user_line us)"
  using assms
proof (induction us arbitrary: f)
  case Nil
  then show ?case by (simp add: file_ok_def)
next
  case (Cons u us)
  let ?is = "[pu, Lit colon, pu, Lit colon, ps, Lit colon, ps, Lit 10]"
  let ?args = "[word16 (usr_uid u), word16 (usr_gid u), AStr (Some (usr_name u)), AStr (Some (usr_home u))] :: unit arg list"
  have t: "format_text ?is ?args = Some (user_line u)" using Cons.prems(2) by (simp add: plain_texts user_line_def)
  have ok: "\<forall>i \<in> set ?is. item_ok i" "map of_char ''%u:%u:%s:%s'' @ [10] = concat (map item_chars ?is)" by simp_all
  obtain r f1 st where f1: "vbprintf (\<lambda>(d :: unit) pad fl p f. None) (map of_char ''%u:%u:%s:%s'' @ [10]) ?args 0 f [] = Some (r, f1, st)" "file_ok f1" "contents f1 = contents f @ user_line u"
    using print_file [OF Cons.prems(1) ok(1) t ok(2)] by blast
  obtain f' where "user_write us f1 = Some (False, f')" "file_ok f'" "contents f' = contents f1 @ concat (map user_line us)"
    using Cons.IH [OF f1(2)] Cons.prems(2) by auto
  moreover have "\<not> oerror f" using Cons.prems(1) by (simp add: file_ok_def)
  ultimately show ?case using f1 by simp
qed

section \<open>Parsing what was written\<close>

definition plain :: "bytes \<Rightarrow> nat \<Rightarrow> bool" where
  "plain s n = (s \<noteq> [] \<and> length s \<le> n \<and> colon \<notin> set s \<and> 10 \<notin> set s)"

definition user_ok :: "sUser \<Rightarrow> bool" where
  "user_ok u = (usr_uid u < 65536 \<and> usr_gid u < 65536 \<and> plain (usr_name u) MAX_USERNAME_LEN \<and> plain (usr_home u) MAX_PATH_LEN)"

lemma readStr_loop_plain:
  assumes "colon \<notin> set s" "10 \<notin> set s" "length s \<le> n" "q = [] \<or> hd q = colon \<or> hd q = 10"
  shows "readStr_loop (s @ q) n = (s, q)"
  using assms
proof (induction s arbitrary: n)
  case Nil
  then show ?case by (cases q) auto
next
  case (Cons c s)
  then show ?case by (cases n) auto
qed

lemma readStr_name: "plain s n \<Longrightarrow> user_readStr (s @ colon # q) (n + 1) False = Some (Some (s, q))"
  using readStr_loop_plain [of s n "colon # q"] by (simp add: user_readStr_def plain_def)

lemma readStr_last: "plain s n \<Longrightarrow> user_readStr (s @ 10 # q) (n + 1) True = Some (Some (s, 10 # q))"
  using readStr_loop_plain [of s n "10 # q"] by (simp add: user_readStr_def plain_def)

lemma to_colon_dec: "to_colon (dec k @ colon # q) = colon # q"
proof -
  have "c \<noteq> colon" if "c \<in> set (dec k)" for c using dec_digits [OF that] by (auto simp: is_digit_def)
  then show ?thesis unfolding to_colon_def by (subst dropWhile_append2) auto
qed

lemma next_line_10: "q = [] \<or> hd q \<noteq> 10 \<Longrightarrow> next_line (10 # q) = q"
  by (cases q) (auto simp: next_line_def)

lemma stops_colon: "stops (colon # q)" "stops (10 # q)"
  by (simp_all add: stops_def ascii_def is_digit_def)

lemma uid_of_int: "k < 65536 \<Longrightarrow> uid_of (int32 (int k)) = k"
  by (simp add: uid_of_def)

lemma scan_done: "vbscanf [] vals f = Some (vals, f)"
  by (subst vbscanf.simps) simp

lemma colon_ascii: "ascii colon" "colon \<noteq> ch CHR ''%''"
  by (simp_all add: ascii_def)

lemma scan_two:
  assumes "a < 65536" "b < 65536"
  shows "vsscanf True (dec a @ colon # dec b @ colon # q) (map of_char ''%u:%u'') = Some (2, [SInt (int a), SInt (int b)])"
proof -
  have l: "a < 2 ^ 63" "b < 2 ^ 63" using assms by simp_all
  have "vbscanf (map of_char ''%u:%u'') [] (at [] (dec a @ colon # dec b @ colon # q)) = vbscanf (colon # map of_char ''%u'') [SInt (int a)] (at (dec a) (colon # dec b @ colon # q))"
    using scan_u [OF l(1) stops_colon(1), of "colon # map of_char ''%u''" "[]" "[]"] assms by simp
  also have "\<dots> = vbscanf (map of_char ''%u'') [SInt (int a)] (at (dec a @ [colon]) (dec b @ colon # q))" by (rule scan_lit [OF colon_ascii])
  also have "\<dots> = Some ([SInt (int a), SInt (int b)], at (dec a @ colon # dec b) (colon # q))"
    using scan_u [OF l(2) stops_colon(1), of "[]" "[SInt (int a)]" "dec a @ [colon]"] assms by (simp add: scan_done)
  finally show ?thesis by (simp add: vsscanf_def at_start)
qed

lemma line_start: "(l :: bytes) = dec k @ q \<Longrightarrow> l \<noteq> [] \<and> hd l \<noteq> 10"
  using dec_digits [of "hd (dec k)" k] by (cases "dec k") (auto simp: is_digit_def)

lemma dec_hd [simp]: "hd (dec k) \<noteq> 10"
  using line_start [of "dec k" k "[]"] by simp

lemma user_parse_lines:
  assumes "\<forall>u \<in> set us. user_ok u"
  shows "user_parse (\<lambda>_. True) n (concat (map user_line us)) acc = Some (Some (acc @ us))"
  using assms
proof (induction us arbitrary: n acc)
  case Nil
  show ?case by (subst user_parse.simps) simp
next
  case (Cons u us)
  let ?q = "concat (map user_line us)"
  have u: "usr_uid u < 65536" "usr_gid u < 65536" "plain (usr_name u) MAX_USERNAME_LEN" "plain (usr_home u) MAX_PATH_LEN" using Cons.prems by (auto simp: user_ok_def)
  have p: "concat (map user_line (u # us)) = dec (usr_uid u) @ colon # dec (usr_gid u) @ colon # usr_name u @ colon # usr_home u @ 10 # ?q" by (simp add: user_line_def)
  have q: "?q = [] \<or> hd ?q \<noteq> 10" by (cases us) (auto simp: user_line_def)
  have e: "uid_of (int (usr_uid u)) = usr_uid u" "uid_of (int (usr_gid u)) = usr_gid u" using u by (simp_all add: uid_of_def)
  show ?case unfolding p
    using scan_two [OF u(1,2)] readStr_name [OF u(3)] readStr_last [OF u(4)] Cons
    by (subst user_parse.simps) (simp add: to_colon_dec next_line_10 [OF q] e)
qed

text \<open>C30: What \<open>user_write\<close> writes is what \<open>user_parse\<close> reads: for users with ids of 16 bits and a name and a home that are not empty, not longer than the
  buffers of the parser and without colons and newlines, writing them to a file that can be written returns no error and adds a text to the file
  that is parsed, when memory suffices, to exactly the same list.\<close>

theorem user_roundtrip:
  assumes "file_ok f" "\<forall>u \<in> set us. user_ok u"
  shows "\<exists>f' t. user_write us f = Some (False, f') \<and> contents f' = contents f @ t \<and> user_parse (\<lambda>_. True) 0 t [] = Some (Some us)"
proof -
  have "\<forall>u \<in> set us. usr_uid u < 65536 \<and> usr_gid u < 65536" using assms(2) by (simp add: user_ok_def)
  with user_write_file [OF assms(1)] user_parse_lines [OF assms(2), of 0 "[]"] show ?thesis by fastforce
qed

theorem user_roundtrip_witness:
  "\<exists>f' t. user_write [\<lparr>usr_uid = 1, usr_gid = 2, usr_name = [97], usr_home = [47, 98]\<rparr>] (\<lparr>ofd = 3, otext = [], omax = 512, odynamic = True, onull = False, ostderr = False, oerror = False, sink = [], outcomes = []\<rparr>) = Some (False, f')
     \<and> contents f' = t \<and> user_parse (\<lambda>_. True) 0 t [] = Some (Some [\<lparr>usr_uid = 1, usr_gid = 2, usr_name = [97], usr_home = [47, 98]\<rparr>])"
  using user_roundtrip [of "\<lparr>ofd = 3, otext = [], omax = 512, odynamic = True, onull = False, ostderr = False, oerror = False, sink = [], outcomes = []\<rparr>" "[\<lparr>usr_uid = 1, usr_gid = 2, usr_name = [97], usr_home = [47, 98]\<rparr>]"]
  by (simp add: file_ok_def user_ok_def plain_def contents_def)

section \<open>Removing and collecting\<close>

lemma remove_loop_filter:
  assumes "j \<le> i" "i + k = length us"
  shows "\<exists>us'. remove_loop uid i j us k = (us', j + length (filter (\<lambda>u. u \<noteq> uid) (drop i us))) \<and> length us' = length us
    \<and> take (j + length (filter (\<lambda>u. u \<noteq> uid) (drop i us))) us' = take j us @ filter (\<lambda>u. u \<noteq> uid) (drop i us)"
  using assms
proof (induction k arbitrary: i j us)
  case (Suc k)
  let ?us = "us[j := us ! i]" and ?j = "if us ! i \<noteq> uid then j + 1 else j"
  have i: "i < length us" "drop i us = us ! i # drop (i + 1) us" using Suc.prems by (simp_all add: Cons_nth_drop_Suc)
  have "?us ! i = us ! i" using Suc.prems by (cases "j = i") simp_all
  moreover have "drop (i + 1) ?us = drop (i + 1) us" "take ?j ?us = take j us @ (if us ! i \<noteq> uid then [us ! i] else [])"
    using Suc.prems by (simp_all add: take_Suc_conv_app_nth)
  ultimately show ?case using Suc.IH [of ?j "i + 1" ?us] Suc.prems i by (auto simp: Let_def)
qed simp

text \<open>C32: \<open>group_removeFrom\<close>, which moves the ids that stay to the front of the array, leaves exactly the ids other than the given one, in their order; the
  id and the name of the group stay. So does \<open>group_removeFromAll\<close> for every group of the list.\<close>

theorem group_remove_filter:
  "group_removeFromAll gs uid = map (\<lambda>g. \<lparr>grp_gid = grp_gid g, grp_name = grp_name g, grp_users = filter (\<lambda>u. u \<noteq> uid) (grp_users g)\<rparr>) gs"
proof -
  have "group_removeFrom g uid = \<lparr>grp_gid = grp_gid g, grp_name = grp_name g, grp_users = filter (\<lambda>u. u \<noteq> uid) (grp_users g)\<rparr>" for g
    using remove_loop_filter [of 0 0 "length (grp_users g)" "grp_users g" uid] by (auto simp: group_removeFrom_def)
  then show ?thesis by (simp add: group_removeFromAll_def)
qed

definition collected :: "nat \<Rightarrow> sGroup list \<Rightarrow> nat list" where
  "collected uid gs = concat (map (\<lambda>g. map (\<lambda>_. grp_gid g) (filter (\<lambda>u. u = uid) (grp_users g))) gs)"

lemma collect_users_all:
  assumes "length res + slots \<le> room" "0 < room" "slots \<le> room"
  shows "(\<forall>n. mem n) \<longrightarrow> (\<exists>room' n'. collect_users mem slots uid gid us (res, room, n) = Some (Some (res @ map (\<lambda>_. gid) (filter (\<lambda>u. u = uid) us), room', n'))
    \<and> length res + length (filter (\<lambda>u. u = uid) us) + slots \<le> room' \<and> room \<le> room')"
  using assms
proof (induction us arbitrary: res room n)
  case (Cons u us)
  show ?case
  proof (cases "u = uid")
    case True
    let ?room = "if length res + slots \<ge> room then room * 2 else room"
    have r: "length (res @ [gid]) + slots \<le> ?room" "0 < ?room" "slots \<le> ?room" "length res < ?room" "room \<le> ?room" using Cons.prems by auto
    show ?thesis using Cons.IH [OF r(1-3), of "if length res + slots \<ge> room then n + 1 else n"] r(4,5) True
      by (auto simp: Let_def split: if_splits)
  next
    case False
    then show ?thesis using Cons by auto
  qed
qed auto

lemma collect_groups_all:
  assumes "length res + slots \<le> room" "0 < room" "slots \<le> room" "\<forall>n. mem n"
  shows "\<exists>room' n'. collect_groups mem slots uid gs (res, room, n) = Some (Some (res @ collected uid gs, room', n')) \<and> length res + length (collected uid gs) + slots \<le> room'"
  using assms
proof (induction gs arbitrary: res room n)
  case (Cons g gs)
  let ?new = "map (\<lambda>_. grp_gid g) (filter (\<lambda>u. u = uid) (grp_users g))"
  obtain room1 n1 where 1: "collect_users mem slots uid (grp_gid g) (grp_users g) (res, room, n) = Some (Some (res @ ?new, room1, n1))"
    "length res + length (filter (\<lambda>u. u = uid) (grp_users g)) + slots \<le> room1" "room \<le> room1"
    using collect_users_all [OF Cons.prems(1-3), of mem uid "grp_gid g" "grp_users g" n] Cons.prems(4) by blast
  have p: "length (res @ ?new) + slots \<le> room1" "0 < room1" "slots \<le> room1" using 1(2,3) Cons.prems by simp_all
  from Cons.IH [OF p Cons.prems(4)] 1(1) show ?case by (simp add: collected_def add.assoc)
qed (simp add: collected_def)

text \<open>\<open>group_collectGroupsFor\<close> returns, when memory suffices, the ids of the groups in the order of the list, once for every entry of the user, never stores
  behind its array and leaves room for \<open>openSlots\<close> more ids behind them, which the caller fills.\<close>

theorem group_collect_room:
  assumes "\<forall>n. mem n"
  shows "\<exists>room. group_collectGroupsFor mem gs uid openSlots = Some (Some (collected uid gs, room)) \<and> length (collected uid gs) + openSlots \<le> room"
  using collect_groups_all [of "[]" openSlots "max openSlots 8" mem uid gs 1] assms by (fastforce simp: group_collectGroupsFor_def less_max_iff_disj)

theorem group_collect_room_witness:
  "\<exists>room. group_collectGroupsFor (\<lambda>_. True) [\<lparr>grp_gid = 3, grp_name = [97], grp_users = [1, 2]\<rparr>, \<lparr>grp_gid = 4, grp_name = [98], grp_users = [2]\<rparr>] 2 9 = Some (Some ([3, 4], room)) \<and> 11 \<le> room"
  using group_collect_room [of "\<lambda>_. True" "[\<lparr>grp_gid = 3, grp_name = [97], grp_users = [1, 2]\<rparr>, \<lparr>grp_gid = 4, grp_name = [98], grp_users = [2]\<rparr>]" 2 9]
  by (simp add: collected_def)

section \<open>Free ids\<close>

lemma getFreeUid_max: "user_getFreeUid us = (fold max (map usr_uid us) 0 + 1) mod 65536"
proof -
  have "foldl (\<lambda>res u. if usr_uid u > res then usr_uid u else res) r us = fold max (map usr_uid us) r" for r
    by (induction us arbitrary: r) (simp_all add: max_def)
  then show ?thesis by (simp add: user_getFreeUid_def)
qed

lemma fold_max_above: "(r :: nat) \<le> fold max xs r \<and> (\<forall>x \<in> set xs. x \<le> fold max xs r)"
proof (induction xs arbitrary: r)
  case (Cons x xs)
  from Cons [of "max x r"] show ?case by simp
qed simp

lemma fold_max_bound: "r < n \<Longrightarrow> \<forall>x \<in> set xs. x < n \<Longrightarrow> fold max xs (r :: nat) < n"
  by (induction xs arbitrary: r) simp_all

text \<open>The id of \<open>user_getFreeUid\<close> is free as long as 65535 is not in use.\<close>

lemma getFreeUid_fresh:
  assumes "\<forall>u \<in> set us. usr_uid u < 65535"
  shows "user_getById us (user_getFreeUid us) = None"
proof -
  let ?m = "fold max (map usr_uid us) 0"
  have "user_getFreeUid us = ?m + 1" using fold_max_bound [of 0 65535 "map usr_uid us"] assms by (simp add: getFreeUid_max)
  moreover have "usr_uid u \<noteq> ?m + 1" if "u \<in> set us" for u using fold_max_above [of 0 "map usr_uid us"] that by auto
  moreover have "(\<forall>u \<in> set l. usr_uid u \<noteq> i) \<Longrightarrow> user_getById l i = None" for l i by (induction l) auto
  ultimately show ?thesis by simp
qed

section \<open>Parsing ends\<close>

lemma readStr_loop_shorter: "length (snd (readStr_loop p n)) + length (fst (readStr_loop p n)) = length p"
  by (induction p n rule: readStr_loop.induct) (auto split: prod.splits)

lemma readStr_loop_text: "readStr_loop p n = (t, r) \<Longrightarrow> length t \<le> n \<and> colon \<notin> set t \<and> 10 \<notin> set t"
  by (induction p n arbitrary: t rule: readStr_loop.induct) (force split: prod.splits if_splits)+

lemma user_readStr_returns:
  "\<exists>x. user_readStr p (n + 1) lst = Some x \<and> (\<forall>t r. x = Some (t, r) \<longrightarrow> length r < length p \<and> plain t n)"
proof -
  obtain t r where l: "readStr_loop p n = (t, r)" by fastforce
  have "length r + length t = length p" using readStr_loop_shorter [of p n] l by simp
  then show ?thesis using l readStr_loop_text [OF l] by (cases r; cases t) (auto simp: user_readStr_def plain_def)
qed

lemma next_line_shorter: "length (next_line p) \<le> length p"
  unfolding next_line_def by (meson le_trans length_dropWhile_le)

lemma to_colon_shorter: "length (to_colon p) \<le> length p"
  unfolding to_colon_def by (rule length_dropWhile_le)

lemma forward_colon: "to_colon p \<noteq> [] \<Longrightarrow> \<exists>q. forward (to_colon p) = Some q \<and> length q < length p"
  using to_colon_shorter [of p] by (cases "to_colon p") auto

lemma scan_numbers: "\<exists>c v. vsscanf m p (map of_char ''%u:%u'') = Some (c, v)" "\<exists>c v. vsscanf m p (map of_char ''%u'') = Some (c, v)" "\<exists>c v. vsscanf m p (map of_char '':%u'') = Some (c, v)"
  using vsscanf_ends [of _ p m] by (simp_all add: scannable_def)

lemma uid_of_bound [simp]: "uid_of i < 65536"
  by (simp add: uid_of_def nat_less_iff)

definition parsed :: "sUser list \<Rightarrow> sUser list option \<Rightarrow> bool" where
  "parsed us r = (case r of None \<Rightarrow> True | Some us' \<Rightarrow> \<exists>vs. us' = us @ vs \<and> (\<forall>v \<in> set vs. user_ok v))"

lemma parsed_snoc: "parsed (us @ [u]) r \<Longrightarrow> user_ok u \<Longrightarrow> parsed us r"
  by (auto simp: parsed_def split: option.splits)

lemma user_parse_line:
  assumes IH: "\<And>n' p' us'. length p' < length p \<Longrightarrow> \<exists>r. user_parse mem n' p' us' = Some r \<and> parsed us' r"
    and q: "forward (to_colon p) = Some q1" "forward (to_colon q1) = Some q2" "length q2 < length p"
    and v: "vsscanf (mem n) p (map of_char ''%u:%u'') = Some (c, [SInt uid, SInt gid])" "mem (n + 1)"
  shows "\<exists>r. user_parse mem n p us = Some r \<and> parsed us r"
proof -
  have ne: "p \<noteq> []" "to_colon p \<noteq> []" "to_colon q1 \<noteq> []" using q by auto
  obtain x1 where x1: "user_readStr q2 (MAX_USERNAME_LEN + 1) False = Some x1"
    "\<And>t r. x1 = Some (t, r) \<Longrightarrow> length r < length q2 \<and> plain t MAX_USERNAME_LEN" using user_readStr_returns [of q2 MAX_USERNAME_LEN False] by blast
  show ?thesis
  proof (cases x1)
    case None
    then show ?thesis using ne q v [simplified] x1(1) by (subst user_parse.simps) (simp add: parsed_def)
  next
    case (Some a)
    then obtain name p3 where n: "x1 = Some (name, p3)" "length p3 < length q2" "plain name MAX_USERNAME_LEN" using x1(2) by (cases a) auto
    obtain x2 where x2: "user_readStr p3 (MAX_PATH_LEN + 1) True = Some x2"
      "\<And>t r. x2 = Some (t, r) \<Longrightarrow> length r < length p3 \<and> plain t MAX_PATH_LEN" using user_readStr_returns [of p3 MAX_PATH_LEN True] by blast
    show ?thesis
    proof (cases x2)
      case None
      then show ?thesis using ne q v [simplified] x1(1) n(1) x2(1) by (subst user_parse.simps) (simp add: parsed_def)
    next
      case (Some b)
      then obtain home p4 where h: "x2 = Some (home, p4)" "length p4 < length p3" "plain home MAX_PATH_LEN" using x2(2) by (cases b) auto
      let ?u = "\<lparr>usr_uid = uid_of uid, usr_gid = uid_of gid, usr_name = name, usr_home = home\<rparr>"
      have "length (next_line p4) < length p" using next_line_shorter [of p4] h(2) n(2) q(3) by simp
      from IH [OF this, of "n + 2" "us @ [?u]"] obtain r where r: "user_parse mem (n + 2) (next_line p4) (us @ [?u]) = Some r" "parsed (us @ [?u]) r" by blast
      have "user_ok ?u" using n(3) h(3) by (simp add: user_ok_def)
      with r(2) have "parsed us r" by (rule parsed_snoc)
      then show ?thesis using ne q v [simplified] x1(1) n(1) x2(1) h(1) r(1) by (subst user_parse.simps) simp
    qed
  qed
qed

lemma user_parse_parsed: "\<exists>r. user_parse mem n p us = Some r \<and> parsed us r"
proof (induction "length p" arbitrary: n p us rule: less_induct)
  case less
  obtain c v where v: "vsscanf (mem n) p (map of_char ''%u:%u'') = Some (c, v)" using scan_numbers by blast
  show ?case
  proof (cases "\<exists>uid gid q1 q2. v = [SInt uid, SInt gid] \<and> forward (to_colon p) = Some q1 \<and> forward (to_colon q1) = Some q2 \<and> mem (n + 1)")
    case True
    then obtain uid gid q1 q2 where q: "v = [SInt uid, SInt gid]" "forward (to_colon p) = Some q1" "forward (to_colon q1) = Some q2" "mem (n + 1)" by blast
    then have "length q2 < length p" using forward_colon [of p] forward_colon [of q1] by fastforce
    with user_parse_line [OF less q(2,3) _ _ q(4)] v q(1) show ?thesis by blast
  next
    case False
    have f: "\<exists>q. forward (to_colon x) = Some q" if "to_colon x \<noteq> []" for x using forward_colon [OF that] by blast
    show ?thesis
    proof (cases "p = [] \<or> to_colon p = []")
      case True
      then show ?thesis using v [simplified] by (subst user_parse.simps) (auto simp: parsed_def Let_def split: list.splits sval.splits)
    next
      case p: False
      then obtain q1 where q1: "forward (to_colon p) = Some q1" using f by blast
      then have "\<not> mem (n + 1) \<or> to_colon q1 = [] \<or> (\<forall>uid gid. v \<noteq> [SInt uid, SInt gid])" using False f [of q1] by blast
      then show ?thesis using v [simplified] p q1 f [of q1]
        by (elim disjE; subst user_parse.simps) (auto simp: parsed_def Let_def split: list.splits sval.splits)
    qed
  qed
qed

text \<open>C31: \<open>user_parse\<close> returns for every text, however malformed, and whatever allocations fail: its loops end, no pointer is moved behind the
  terminating 0 and nothing is written behind the buffers for the name and the home. It returns \<open>NULL\<close>, or adds users to the list that are all such as
  the round trip asks for: ids of 16 bits, and a name and a home that are not empty, fit into their buffers and have no colon or newline.\<close>

theorem user_parse_returns:
  "\<exists>r. user_parse mem n p us = Some r \<and> (case r of None \<Rightarrow> True | Some us' \<Rightarrow> \<exists>vs. us' = us @ vs \<and> list_all user_ok vs)"
  using user_parse_parsed [of mem n p us] by (auto simp: parsed_def list_all_iff split: option.splits)

lemma scan_needs_text: "vsscanf m [] (map of_char '':%u'') = Some (c, v) \<Longrightarrow> v = []"
  by (auto simp: vsscanf_def at_start vbscanf.simps bgetc_at split: if_splits)

lemma group_users_returns:
  assumes "length us \<le> room" "0 < room"
  shows "\<exists>r. group_users mem n p room us = Some r \<and> (\<forall>us' p' n'. r = Some (us', p', n') \<longrightarrow> length p' \<le> length p)"
  using assms
proof (induction "length p" arbitrary: n p room us rule: less_induct)
  case less
  obtain c v where v: "vsscanf (mem n) p (map of_char '':%u'') = Some (c, v)" using scan_numbers by blast
  show ?case
  proof (cases p)
    case Nil
    then have "v = []" using scan_needs_text v by blast
    then show ?thesis using v [simplified] by (subst group_users.simps) simp
  next
    case (Cons a q)
    let ?q = "dropWhile (\<lambda>c. c \<noteq> 58 \<and> c \<noteq> 10) q"
    have q: "length ?q < length p" using length_dropWhile_le [of _ q] Cons by (simp add: le_imp_less_Suc)
    have "\<exists>r. group_users mem n' ?q room' (us @ [i]) = Some r \<and> (\<forall>us'' p' n''. r = Some (us'', p', n'') \<longrightarrow> length p' \<le> length p)"
      if "length us < room'" for n' room' i
      using less.hyps [OF q, of "us @ [i]" room' n'] that q by fastforce
    then show ?thesis using v [simplified] less.prems Cons by (subst group_users.simps) (auto simp: Let_def split: list.splits sval.splits)
  qed
qed

text \<open>\<open>group_parse\<close> returns as well, without a fault.\<close>

lemma group_parse_returns: "\<exists>r. group_parse mem n p gs = Some r"
proof (induction "length p" arbitrary: n p gs rule: less_induct)
  case less
  obtain c v where v: "vsscanf (mem n) p (map of_char ''%u'') = Some (c, v)" using scan_numbers by blast
  show ?case
  proof (cases "p = [] \<or> to_colon p = []")
    case True
    then show ?thesis using v [simplified] by (subst group_parse.simps) (auto simp: Let_def split: list.splits sval.splits)
  next
    case False
    then obtain q where q: "forward (to_colon p) = Some q" "length q < length p" using forward_colon by blast
    obtain name p2 where r: "readStr_loop q MAX_GROUPNAME_LEN = (name, p2)" by fastforce
    obtain u where u: "group_users mem (n + 3) p2 8 [] = Some u" "\<And>us' p' n'. u = Some (us', p', n') \<Longrightarrow> length p' \<le> length p2"
      using group_users_returns [of "[]" 8 mem "n + 3" p2] by auto
    have "length (next_line p') < length p" if "u = Some (us', p', n')" for us' p' n'
      using u(2) [OF that] next_line_shorter [of p'] readStr_loop_shorter [of q MAX_GROUPNAME_LEN] r q(2) by simp
    note less.hyps [OF this]
    then show ?thesis using v [simplified] u(1) r False q(1) readStr_loop_text [OF r]
      by (subst group_parse.simps) (auto simp: Let_def split: list.splits sval.splits option.splits)
  qed
qed

section \<open>Deviations\<close>

text \<open>With the id 65535 in use, the free id is 0, which is the id of \<open>root\<close>; the first user stays in the list when it is removed, and there is no way to
  append to an empty list.\<close>

lemma free_uid_wraps: "user_getFreeUid [\<lparr>usr_uid = 0, usr_gid = 0, usr_name = [114], usr_home = [47]\<rparr>, \<lparr>usr_uid = 65535, usr_gid = 1, usr_name = [97], usr_home = [47]\<rparr>] = 0"
  by (simp add: user_getFreeUid_def)

lemma remove_first_stays: "list_remove (x # l) 0 = x # l"
  by (simp add: list_remove_def)

lemma append_to_empty: "list_append [] x = None"
  by (simp add: list_append_def)

text \<open>A user without a home directory is written, but no user of that file can be read again.\<close>

lemma empty_home_lost: "user_parse (\<lambda>_. True) 0 (user_line \<lparr>usr_uid = 1, usr_gid = 1, usr_name = [97], usr_home = []\<rparr> @ rest) [] = Some None"
proof -
  have s: "vsscanf True (dec 1 @ colon # dec 1 @ colon # 97 # colon # 10 # rest) (map of_char ''%u:%u'') = Some (2, [SInt 1, SInt 1])"
    using scan_two [of 1 1 "97 # colon # 10 # rest"] by simp
  have r: "user_readStr (97 # colon # 10 # rest) 32 False = Some (Some ([97], 10 # rest))" "user_readStr (10 # rest) 256 True = Some None"
    by (simp_all add: user_readStr_def)
  show ?thesis unfolding user_line_def using s [simplified] r by (subst user_parse.simps) (simp add: to_colon_dec)
qed

text \<open>A line without a home takes the next line as its home; a colon at the end of a group takes the id of the next group as a user.\<close>

lemma line_swallowed:
  "user_parse (\<lambda>_. True) 0 (dec 1 @ colon # dec 1 @ colon # map of_char ''bob'' @ 10 # map of_char ''2:2:eve:/'') []
     = Some (Some [\<lparr>usr_uid = 1, usr_gid = 1, usr_name = map of_char ''bob'', usr_home = [50]\<rparr>])"
proof -
  let ?q = "map of_char ''bob'' @ 10 # map of_char ''2:2:eve:/''"
  have s: "vsscanf True (dec 1 @ colon # dec 1 @ colon # ?q) (map of_char ''%u:%u'') = Some (2, [SInt 1, SInt 1])" using scan_two [of 1 1 ?q] by simp
  have r: "user_readStr ?q 32 False = Some (Some (map of_char ''bob'', map of_char ''2:2:eve:/''))" "user_readStr (map of_char ''2:2:eve:/'') 256 True = Some (Some ([50], map of_char '':2:eve:/''))" "next_line (map of_char '':2:eve:/'') = []"
    by (simp_all add: user_readStr_def next_line_def)
  have "user_parse (\<lambda>_. True) n [] us = Some (Some us)" for n us by (subst user_parse.simps) simp
  then show ?thesis using s [simplified] r [simplified] by (subst user_parse.simps) (simp add: to_colon_dec uid_of_def)
qed

lemma skip_newline: "skip_blank (at p (10 # q)) = skip_blank (at (p @ [10]) q)"
  using isspace_char [of 10] by (subst skip_blank.simps) (simp add: bgetc_at ascii_def is_space_def)

lemma next_group_as_user: "group_users (\<lambda>_. True) 0 (colon # 10 # dec 5 @ colon # q) 8 [] = Some (Some ([5], 10 # dec 5 @ colon # q, 2))"
proof -
  have d: "dec 5 = [53]" by (simp add: dec_def digits.simps)
  have s: "skip_blank (at [colon] (10 # dec 5 @ colon # q)) = Some (0, at [colon, 10] (dec 5 @ colon # q))"
    using skip_blank_stop [of 53 "[colon, 10]" "colon # q"] by (simp add: skip_newline d ascii_def is_space_def)
  have b: "breadn (2 ^ 32 - 1) 117 (at [colon, 10] (dec 5 @ colon # q)) = Some (0, 5, at ([colon, 10] @ dec 5) (colon # q))"
    using breadn_u [of 5 "colon # q" "[colon, 10]"] stops_colon by simp
  have "vbscanf (map of_char ''%u'') [] (at [colon] (10 # dec 5 @ colon # q)) = Some ([SInt 5], at ([colon, 10] @ dec 5) (colon # q))"
    using s b [simplified] by (subst vbscanf.simps) (simp add: plain_conv scan_conv_def store_int_def Let_def scan_done del: scan_flags.simps read_num.simps)
  then have v: "vsscanf True (colon # 10 # dec 5 @ colon # q) (map of_char '':%u'') = Some (1, [SInt 5])"
    using scan_lit [OF colon_ascii, of "map of_char ''%u''" "[]" "[]" "10 # dec 5 @ colon # q"] by (simp add: vsscanf_def at_start)
  have "schar (10 :: byte) = 10" "schar colon = 58" by simp_all
  then have w: "vsscanf True (10 # dec 5 @ colon # q) (map of_char '':%u'') = Some (0, [])"
    by (simp add: vsscanf_def at_start vbscanf.simps bgetc_at)
  have "group_users (\<lambda>_. True) 1 (10 # dec 5 @ colon # q) 8 [5] = Some (Some ([5], 10 # dec 5 @ colon # q, 2))"
    using w [simplified] by (subst group_users.simps) simp
  then show ?thesis using v [simplified] by (subst group_users.simps) (simp add: uid_of_def)
qed

end
