(* ===== verification/Spec2Isabelle.thy ===== *)
theory Spec2Isabelle
  imports Ctype StrWrite Numbers SLList SortSearch Times FreeMap KTimer SwapMap MemAreas Sched FileTable Sems Signals ProcGroups Cow Channel CircBuf PageDir Treap Regions UserDb
begin

text \<open>
  Askatu is a Unix-like operating system with a microkernel-like structure: a kernel in C++
  (\<open>src/source/kernel\<close>), a C library (\<open>lib/basic\<close>, which kernel and user programs share, and \<open>lib/c\<close>), drivers as
  user programs (\<open>drivers\<close>), and C++ libraries, a shell and tools on top. This library models the data structures and
  algorithms of the C library and of the kernel that carry the system, and proves what makes them correct. The code
  is taken as for i586: pointers, \<open>int\<close>, \<open>long\<close> and \<open>size_t\<close> have 32 bits, \<open>char\<close> is signed.

  \<^bold>\<open>How code is modelled.\<close> A C function is a HOL function of the same name, if that is free, or with a
  prefix for its module. A fault, that is an access to memory that is not mapped, a failed assertion or a panic, is the result \<open>None\<close>; loops
  that may run forever are \<open>partial_function (option)\<close>, so that not returning is \<open>None\<close> too, and theorems
  say that there is a result. User-level code on bytes works on a memory \<open>addr \<rightharpoonup> byte\<close>, so that aliasing and bounds are visible.
  The state of a module of the kernel is a record; linked lists inside the kernel are lists. Arithmetic that
  can wrap is \<open>uadd\<close>, \<open>usub\<close>, \<open>int32\<close> or on words. Whether an allocation succeeds is an argument. Where the kernel is
  concurrent, each section under a lock is a step of an inductive relation, and the properties hold for all runs.

  \<^bold>\<open>Shared theories.\<close>
  \<^item> \<open>Prelude\<close>: bytes, memory, C strings, arithmetic and assertions.
  \<^item> \<open>Transitions\<close>: the locales \<open>transitions\<close> (an invariant of a step relation), \<open>refinement\<close> (with a simulation of a
    specification) and \<open>functional_refinement\<close> (the steps have labels, and the specification computes from the labels what is to be seen); every
    stateful component interprets one of them.
  \<^item> \<open>RefCount\<close>: counting the references in the tables of all processes. \<open>KErrno\<close>: error codes.

  \<^bold>\<open>C library.\<close>
  \<^item> \<open>Ctype\<close> (\<open>lib/basic/ctype\<close>): the classes of characters agree with the ASCII table.
  \<^item> \<open>Strings\<close> and \<open>StrWrite\<close> (\<open>lib/basic/string\<close>): searching, comparing, copying and splitting strings; order of \<open>strcmp\<close>, bounds
    of the functions that write, tokens of \<open>strtok\<close>, and where \<open>strstr\<close> misses an occurrence.
  \<^item> \<open>Memops\<close> (\<open>lib/basic/arch\<close>): the unrolled loops of \<open>memcpy\<close>, \<open>memmove\<close> and \<open>memset\<close> are bytewise copies, also for overlaps.
  \<^item> \<open>Numbers\<close> (\<open>width\<close>, \<open>itoa.c\<close>, \<open>strtol.c\<close> and others): texts of numbers, values with wrap-around, the round trip.
  \<^item> \<open>Stdio\<close> (\<open>lib/c/stdio\<close>): \<open>printf\<close> and \<open>scanf\<close> on the buffers of files and strings; what a format prints, that \<open>scanf\<close> reads it
    back, and that scanning a text returns. A text that does not fit is cut, with the result -1.
  \<^item> \<open>UserDb\<close> (\<open>lib/usergroup\<close>): the lists of users and groups and their files; parsing returns on every text without moving a pointer behind its end, and reads back what
    was written; searching and changing the lists.
  \<^item> \<open>Sync\<close> (\<open>lib/c/sys/sync.c\<close>): user-level semaphores and readers-writer locks for any number of threads.
  \<^item> \<open>Heap\<close> (\<open>lib/c/stdlib/heap.c\<close>): the areas with guards in memory, in three lists; \<open>malloc\<close>, \<open>free\<close>, \<open>realloc\<close>, \<open>calloc\<close>
    keep the contents of all live blocks, for requests whose size with the guards does not wrap round. The locale \<open>allocator\<close> is what clients rely on, \<open>data_segment\<close> what the heap relies on.
  \<^item> \<open>SLList\<close> (\<open>lib/basic/sllist.c\<close>): the linked list on any \<open>allocator\<close>, as operations on lists.
  \<^item> \<open>SortSearch\<close> (\<open>qsort.c\<close>, \<open>bsearch.c\<close>) and \<open>Times\<close> (\<open>gmtime.c\<close>, \<open>mktime.c\<close>): sorting, searching and calendar time.

  \<^bold>\<open>Kernel.\<close>
  \<^item> \<open>FreeMap\<close> (\<open>mem/vmfreemap.cc\<close>), \<open>MemAreas\<close> (\<open>mem/physmemareas.cc\<close>): interval lists, as the sets of addresses they cover.
  \<^item> \<open>PhysMem\<close> (\<open>mem/physmem.cc\<close>): frames on stacks and contiguous frames in a bitmap; no frame has two owners, unless the
    kernel asks for frames when fewer lower frames are free than are set aside for critical structures.
  \<^item> \<open>SwapMap\<close> (\<open>mem/swapmap.cc\<close>): blocks of the swap device with reference counts and the chain of the free ones.
  \<^item> \<open>Treap\<close> (\<open>include/ask/col/treap.h\<close>): the tree with priorities on nodes and pointers, as a list that is searched by key.
  \<^item> \<open>Regions\<close> (\<open>mem/region.cc\<close> and the swapping of single pages): the pages of a region with their flags and swap blocks; all regions together refine the
    users of the swap map.
  \<^item> \<open>Cow\<close> (\<open>mem/copyonwrite.cc\<close> and the parts of \<open>virtmem.cc\<close> and \<open>pagetables.cc\<close> for private pages): copy-on-write
    shows the contents that the same operations compute when every page has its own memory. Failed clones and shrinking regions, which break this, are in the
    section on flaws.
  \<^item> \<open>PageTables\<close> (\<open>mem/pagetables.cc\<close>, the allocators of \<open>pagetables.h\<close> and \<open>pagedir.cc\<close>): the two levels of i586, as words in
    physical memory. The locale \<open>pt_allocator\<close> is what mapping relies on, \<open>page_allocator\<close> adds what unmapping relies on; the
    allocators of the kernel interpret them over \<open>PhysMem\<close>, where every frame is accounted for: free, a table, a page or reserved. The whole physical memory of the machine is directly mapped, so that page tables are
    reached without temporary mappings.
  \<^item> \<open>PageDir\<close> (\<open>mem/pagedir.cc\<close>): a directory as a map from pages to frames; mapping and unmapping, cloning for copy-on-write with its error path, new
    directories with the tables of the kernel and a stack, and the search for a free stack.
  \<^item> \<open>Sched\<close> (\<open>task/sched.cc\<close>): queues, event lists, the choice of the next thread. \<open>KTimer\<close> (\<open>task/timer.cc\<close>): sleeping threads.
  \<^item> \<open>KSem\<close> (\<open>semaphore.cc\<close>, \<open>blockedlist.cc\<close>, \<open>mutex.cc\<close>), \<open>Sems\<close> (\<open>task/sems.cc\<close>, \<open>interrupts.cc\<close>): semaphores of the kernel, also
    with waits that signals interrupt, and of processes.
  \<^item> \<open>FileTable\<close> (\<open>task/filedesc.cc\<close>, \<open>vfs/openfile.cc\<close>): descriptors and open files with their counts, as long as no two
    threads close the same descriptor at the same time and no file is redirected while another thread uses it.
  \<^item> \<open>Signals\<close> (\<open>task/signals.cc\<close>, \<open>ssignals.cc\<close>), \<open>ProcGroups\<close> (\<open>task/groups.cc\<close>).
  \<^item> \<open>Channel\<close> (\<open>vfs/channel.cc\<close>, \<open>vfs/device.cc\<close>): messages between clients and drivers; order of requests, replies, and
    fairness of the choice of the next client. The deletion of a channel, which does not take the lock of the others, is a step that may race with them.

  \<^bold>\<open>Drivers.\<close>
  \<^item> \<open>CircBuf\<close> (\<open>drivers/common/tcpip/circularbuf.cc\<close>): the buffer of a TCP connection; the receiver delivers the stream from segments in
    any order, except old ones that reach up to the acknowledged position while acknowledged bytes wait to be pulled.

  \<^bold>\<open>Flaws.\<close> Where the code does not do what it means to, a theory has a section with lemmas about it; properties
  then state the conditions under which the code is right.

  \<^bold>\<open>Bounds.\<close> Recursion follows lists or measures; there is no fuel. Counts are bounded by \<open>2 ^ 32\<close> where the code keeps
  them in 32 bits, as a guard of the steps that add a reference.

  \<^bold>\<open>Not modelled.\<close> Output functions; assembly, the TLB and the formats of interrupt frames; the regions of a process as a whole (\<open>mem/vmtree.cc\<close>, most of \<open>mem/virtmem.cc\<close>), machines with memory that is not directly mapped,
  the node tree of the virtual file system and the object caches of the kernel; processes as a whole; files of stdio and floating-point texts, paths and environment; the
  shell, whose parser is generated; GUI, images and compression; the other drivers; x86emu, which is third-party
  code; user programs, boot loaders and build tools.
\<close>

end
